(* ===== verification/Prelude.thy ===== *)
theory Prelude
  imports Main "HOL-Library.Word"
begin

unbundle bit_operations_syntax

text \<open>
  Shared vocabulary of the development: the widths of the machine integers, the few facts
  about words and fixed arrays that every component uses, and two locales that carry a
  one-step fact to a whole run of a component (\<open>machine\<close>, \<open>ordered_machine\<close>).

  Conventions.  A \<open>std::uint64_t\<close> is a 64-bit word and its comparisons are unsigned; a
  \<open>std::array\<close> is a list whose length an invariant fixes; a display-side bit
  \<open>mask & (1u << side)\<close> is \<open>bit mask side\<close>, and setting or clearing it is
  \<open>set_bit side mask\<close> or \<open>unset_bit side mask\<close>.
\<close>

type_synonym u8 = "8 word"
type_synonym u16 = "16 word"
type_synonym u32 = "32 word"
type_synonym u64 = "64 word"

abbreviation u64_max :: u64 where
  "u64_max \<equiv> - 1"

abbreviation u32_max :: u32 where
  "u32_max \<equiv> - 1"

subsection \<open>Words\<close>

text \<open>A guarded increment does not wrap, so a counter that stops at its maximum is monotone.\<close>

lemma word_inc_unat: "unat (x + 1) = unat x + 1" if "x \<noteq> - 1" for x :: "'a::len word"
proof -
  from that have "1 + x \<noteq> 0"
    by (metis add.commute add_eq_0_iff2)
  then show ?thesis
    by (simp add: unatSuc add.commute)
qed

lemma word_inc_greater: "x < x + 1" if "x \<noteq> - 1" for x :: "'a::len word"
  using that by (simp add: word_less_nat_alt word_inc_unat)

lemma word_elapsed: "unat (now - since) = unat now - unat since" if "since \<le> now"
  for now since :: "'a::len word"
  using that by (simp add: unat_sub word_le_nat_alt)

lemma and_exp_bit: "m AND 2 ^ n \<noteq> 0 \<longleftrightarrow> bit m n" for m :: u32
  by (simp add: and_exp_eq_0_iff_not_bit)

lemma and_not_0_absorb: "x AND NOT m = 0 \<Longrightarrow> x AND m = x" for x m :: "'a::len word"
proof (rule bit_eqI)
  fix n
  assume "x AND NOT m = 0" and "possible_bit TYPE('a word) n"
  then have "\<not> bit (x AND NOT m) n"
    by simp
  with \<open>possible_bit TYPE('a word) n\<close> show "bit (x AND m) n = bit x n"
    by (auto simp: bit_and_iff bit_not_iff)
qed

subsection \<open>Fixed arrays\<close>

text \<open>Overwrite the bytes of a buffer from an offset on (\<open>std::copy\<close>, \<open>std::fill_n\<close>).\<close>

definition write_at :: "nat \<Rightarrow> 'a list \<Rightarrow> 'a list \<Rightarrow> 'a list" where
  "write_at off xs buf = take off buf @ xs @ drop (off + length xs) buf"

lemma length_write_at [simp]:
  "off + length xs \<le> length buf \<Longrightarrow> length (write_at off xs buf) = length buf"
  by (simp add: write_at_def)

lemma nth_write_at:
  "off + length xs \<le> length buf \<Longrightarrow> i < length buf \<Longrightarrow>
   write_at off xs buf ! i =
     (if off \<le> i \<and> i < off + length xs then xs ! (i - off) else buf ! i)"
  by (auto simp: write_at_def nth_append min_def)

text \<open>No nonzero value occurs at two indices.\<close>

definition nz_distinct :: "'a::zero list \<Rightarrow> bool" where
  "nz_distinct xs \<longleftrightarrow>
     (\<forall>i < length xs. \<forall>j < length xs. xs ! i \<noteq> 0 \<and> xs ! i = xs ! j \<longrightarrow> i = j)"

lemma nz_distinct_clear: "nz_distinct xs \<Longrightarrow> nz_distinct (xs[k := 0])"
  by (cases "k < length xs") (auto simp: nz_distinct_def nth_list_update split: if_splits)

lemma nz_distinct_insert:
  "nz_distinct xs \<Longrightarrow> v \<notin> set xs \<Longrightarrow> nz_distinct (xs[k := v])"
  by (cases "k < length xs")
    (auto simp: nz_distinct_def nth_list_update in_set_conv_nth split: if_splits)

lemma nz_distinct_replicate [simp]: "nz_distinct (replicate n 0)"
  by (simp add: nz_distinct_def)

text \<open>The first index of a slot that satisfies a test: the search loop over a slot array.\<close>

fun first_index :: "('a \<Rightarrow> bool) \<Rightarrow> 'a list \<Rightarrow> nat option" where
  "first_index P [] = None"
| "first_index P (x # xs) = (if P x then Some 0 else map_option Suc (first_index P xs))"

lemma first_index_Some:
  "first_index P xs = Some i \<Longrightarrow> i < length xs \<and> P (xs ! i) \<and> (\<forall>j < i. \<not> P (xs ! j))"
proof (induction xs arbitrary: i)
  case Nil
  then show ?case by simp
next
  case (Cons x xs)
  then show ?case
    by (auto simp: nth_Cons split: if_splits nat.splits)
qed

lemma first_index_None: "first_index P xs = None \<longleftrightarrow> (\<forall>x \<in> set xs. \<not> P x)"
  by (induction xs) auto

lemma find_SomeD: "find P xs = Some x \<Longrightarrow> P x \<and> x \<in> set xs"
  by (auto simp: find_Some_iff)

text \<open>
  Tables of slots found by a key: the lookup of a table after its slots are changed in place,
  after a slot is replaced at the index the search found, and after one is appended.
\<close>

locale keyed_table =
  fixes key :: "'slot \<Rightarrow> 'k"
begin

definition lookup :: "'k \<Rightarrow> 'slot list \<Rightarrow> 'slot option" where
  "lookup k xs = find (\<lambda>x. key x = k) xs"

lemma lookup_Nil [simp]: "lookup k [] = None"
  by (simp add: lookup_def)

lemma lookup_None: "lookup k xs = None \<longleftrightarrow> (\<forall>x \<in> set xs. key x \<noteq> k)"
  by (auto simp: lookup_def find_None_iff)

lemma lookup_Some: "lookup k xs = Some x \<Longrightarrow> x \<in> set xs \<and> key x = k"
  unfolding lookup_def find_Some_iff by force

lemma lookup_map: "(\<And>x. key (f x) = key x) \<Longrightarrow> lookup k (map f xs) = map_option f (lookup k xs)"
  by (induction xs) (simp_all add: lookup_def)

lemma lookup_append:
  "lookup k (xs @ [x]) = (case lookup k xs of Some y \<Rightarrow> Some y | None \<Rightarrow> if key x = k then Some x else None)"
  by (induction xs) (simp_all add: lookup_def)

lemma lookup_update:
  assumes "i < length xs" and "key (xs ! i) = k'" and "\<forall>j < i. key (xs ! j) \<noteq> k'" and "key x = k'"
  shows "lookup k (xs[i := x]) = (if k = k' then Some x else lookup k xs)"
  using assms
proof (induction xs arbitrary: i)
  case Nil
  then show ?case by simp
next
  case (Cons y ys)
  show ?case
  proof (cases i)
    case 0
    then show ?thesis
      using Cons.prems by (simp add: lookup_def)
  next
    case (Suc n)
    then have "\<forall>j < n. key (ys ! j) \<noteq> k'" "key y \<noteq> k'"
      using Cons.prems(3) by force+
    then show ?thesis
      using Cons Suc by (cases "k = k'") (auto simp: lookup_def)
  qed
qed

lemma find_unique:
  "distinct (map key xs) \<Longrightarrow> find (\<lambda>x. key x = k \<and> P x) xs =
     (case lookup k xs of Some x \<Rightarrow> if P x then Some x else None | None \<Rightarrow> None)"
proof (induction xs)
  case Nil
  then show ?case by simp
next
  case (Cons x xs)
  show ?case
  proof (cases "key x = k")
    case True
    with Cons.prems have "find (\<lambda>x. key x = k \<and> P x) xs = None"
      unfolding find_None_iff by (auto simp: image_iff)
    with True show ?thesis
      by (simp add: lookup_def)
  next
    case False
    with Cons show ?thesis
      by (simp add: lookup_def)
  qed
qed

lemma ex_unique:
  "distinct (map key xs) \<Longrightarrow> list_ex (\<lambda>x. key x = k \<and> P x) xs =
     (case lookup k xs of Some x \<Rightarrow> P x | None \<Rightarrow> False)"
  using find_unique [of xs k P]
  by (auto simp: list_ex_iff find_None_iff split: option.splits if_splits)
    (metis find_None_iff lookup_Some option.distinct(1))+

end

subsection \<open>Runs of a component\<close>

text \<open>
  A component is a step function over its events; \<open>ok\<close> says which events its callers may send.
  What one step keeps, a run keeps.
\<close>

locale machine =
  fixes step :: "'ev \<Rightarrow> 's \<Rightarrow> 's"
    and inv :: "'s \<Rightarrow> bool"
    and ok :: "'ev \<Rightarrow> bool"
  assumes step_inv: "ok ev \<Longrightarrow> inv s \<Longrightarrow> inv (step ev s)"
begin

lemma run_inv: "list_all ok evs \<Longrightarrow> inv s \<Longrightarrow> inv (fold step evs s)"
  by (induction evs arbitrary: s) (auto intro: step_inv)

end

text \<open>A component whose observed quantity never goes back along a run.\<close>

locale ordered_machine = machine step inv ok
  for step :: "'ev \<Rightarrow> 's \<Rightarrow> 's" and inv :: "'s \<Rightarrow> bool" and ok :: "'ev \<Rightarrow> bool" +
  fixes obs :: "'s \<Rightarrow> 'o::preorder"
  assumes step_mono: "ok ev \<Longrightarrow> inv s \<Longrightarrow> obs s \<le> obs (step ev s)"
begin

lemma run_mono: "list_all ok evs \<Longrightarrow> inv s \<Longrightarrow> obs s \<le> obs (fold step evs s)"
proof (induction evs arbitrary: s)
  case Nil
  then show ?case by simp
next
  case (Cons ev evs)
  have "obs s \<le> obs (step ev s)"
    using Cons.prems by (intro step_mono) auto
  also have "\<dots> \<le> obs (fold step evs (step ev s))"
    using Cons.prems by (intro Cons.IH) (auto intro: step_inv)
  finally show ?case by simp
qed

end

text \<open>A relation between the events so far and the state they led to.\<close>

locale traced =
  fixes step :: "'ev \<Rightarrow> 's \<Rightarrow> 's"
    and start :: 's
    and rel :: "'ev list \<Rightarrow> 's \<Rightarrow> bool"
  assumes rel_start: "rel [] start"
    and rel_step: "rel evs s \<Longrightarrow> rel (evs @ [ev]) (step ev s)"
begin

lemma trace: "rel evs (fold step evs start)"
  by (induction evs rule: rev_induct) (auto intro: rel_start rel_step)

end

end
