(* ===== verification/Entry_Pair.thy ===== *)
theory Entry_Pair
  imports Prelude
begin

text \<open>
  The owned set of camera entries: \<open>src/camera/entry_pair.hpp\<close> and \<open>entry_pair.cpp\<close>.
  \<open>PairController\<close> is the only code that creates and erases native camera entries.  The
  three engine callbacks are not under \<open>src/\<close>: they are functions over an abstract engine
  state \<open>'e\<close>, and a null callback pointer is \<open>None\<close>.

  The mailbox mutex and the processing flag serialise the methods; every method is one
  atomic step here.  A request made by another thread while \<open>process_update\<close> runs touches
  only the mailbox, which \<open>process_update\<close> reads once at its start, so such an interleaving
  has the same effect as the request right after the update.  A refused re-entrant or
  concurrent update is the \<open>processing\<close> branch of each method.
\<close>

type_synonym entry_id = u64
type_synonym pose_key = "u8 list"
type_synonym owned_ids = "entry_id list"
type_synonym pair_keys = "pose_key list"
type_synonym descriptor = "u8 list"

definition kMaxOwnedViews :: nat where
  "kMaxOwnedViews = 4"

record manager_token =
  mt_identity :: u64
  mt_generation :: u64

definition no_manager :: manager_token where
  "no_manager = \<lparr>mt_identity = 0, mt_generation = 0\<rparr>"

definition token_valid :: "manager_token \<Rightarrow> bool" where
  "token_valid t \<longleftrightarrow> mt_identity t \<noteq> 0 \<and> mt_generation t \<noteq> 0"

definition any_owned :: "owned_ids \<Rightarrow> bool" where
  "any_owned ids = list_ex (\<lambda>i. i \<noteq> 0) ids"

definition owned_count :: "owned_ids \<Rightarrow> nat" where
  "owned_count ids = length (takeWhile (\<lambda>i. i \<noteq> 0) ids)"

definition distinct_owned :: "owned_ids \<Rightarrow> bool" where
  "distinct_owned ids \<longleftrightarrow> ids ! 0 \<noteq> 0 \<and> ids ! 1 \<noteq> 0 \<and>
     list_all (\<lambda>i. list_all (\<lambda>j. \<not> (ids ! i \<noteq> 0 \<and> ids ! i = ids ! j)) [0..<i]) [0..<length ids]"

definition owned_ready :: "owned_ids \<Rightarrow> bool list \<Rightarrow> bool" where
  "owned_ready ids ready \<longleftrightarrow> ready ! 0 \<and> ready ! 1 \<and>
     list_all (\<lambda>i. ids ! i \<noteq> 0 \<longrightarrow> ready ! i) [2..<length ids]"

datatype pair_state = Disabled | Active | CleanupPending | Failed | BlockedState

datatype pair_failure =
  NoFailure | InitializerFailed | InitializerContract | FirstCreateFailed | SecondCreateFailed
| ThirdCreateFailed | FourthCreateFailed | DuplicateId | ManagerDestroyed

datatype pair_blocked = NotBlocked | InvalidManager | MissingCallbacks | ManagerMismatch

datatype empty_pair_cancel = Cancelled | Busy | Owned

record pair_snapshot =
  sn_state :: pair_state
  sn_failure :: pair_failure
  sn_blocked :: pair_blocked
  sn_owner :: manager_token
  sn_owned_ids :: owned_ids
  sn_request_pending :: bool
  sn_creation_pending :: bool

definition empty_snapshot :: pair_snapshot where
  "empty_snapshot = \<lparr>sn_state = Disabled, sn_failure = NoFailure, sn_blocked = NotBlocked,
     sn_owner = no_manager, sn_owned_ids = replicate kMaxOwnedViews 0,
     sn_request_pending = False, sn_creation_pending = False\<rparr>"

datatype pair_command = NoCommand | EnableCommand | DisableCommand

record pair_request =
  rq_command :: pair_command
  rq_keys :: pair_keys
  rq_independent_pose :: bool
  rq_feeds :: nat

definition zero_keys :: pair_keys where
  "zero_keys = replicate kMaxOwnedViews (replicate 16 0)"

definition no_request :: pair_request where
  "no_request = \<lparr>rq_command = NoCommand, rq_keys = zero_keys, rq_independent_pose = False,
     rq_feeds = 2\<rparr>"

subsection \<open>The engine descriptor\<close>

definition zero_dword :: "descriptor \<Rightarrow> nat \<Rightarrow> bool" where
  "zero_dword d off = list_all (\<lambda>v. v = 0) (take 4 (drop off d))"

text \<open>The returned flag is the C++ result; a refused descriptor is left unchanged.\<close>

definition pack_mode_zero :: "descriptor \<Rightarrow> pose_key \<Rightarrow> bool \<times> descriptor" where
  "pack_mode_zero d key =
     (if d ! 0 \<noteq> 0 \<or> \<not> zero_dword d 32 \<or> d ! 64 \<noteq> 0 \<or> \<not> zero_dword d 192 then (False, d)
      else
        let d1 = write_at 40 (replicate 4 0) d;
            d2 = d1[44 := 1]
        in (True, write_at 48 key d2))"

definition pack_independent_pose :: "descriptor \<Rightarrow> bool \<times> descriptor" where
  "pack_independent_pose d =
     (case pack_mode_zero d (replicate 16 0) of
        (False, d') \<Rightarrow> (False, d')
      | (True, d') \<Rightarrow> (True, d'[40 := 2]))"

definition fresh_descriptor :: descriptor where
  "fresh_descriptor = replicate 256 0"

subsection \<open>The controller\<close>

record 'e engine_callbacks =
  cb_initialize :: "('e \<Rightarrow> descriptor \<Rightarrow> bool \<times> descriptor \<times> 'e) option"
  cb_create :: "('e \<Rightarrow> manager_token \<Rightarrow> descriptor \<Rightarrow> entry_id \<times> 'e) option"
  cb_erase :: "('e \<Rightarrow> manager_token \<Rightarrow> entry_id \<Rightarrow> bool \<times> 'e) option"

record pair_controller =
  mailbox :: pair_request
  published :: pair_snapshot
  processing :: bool
  pc_owner :: manager_token
  pc_ids :: owned_ids
  desired_keys :: pair_keys
  owned_keys :: pair_keys
  desired_independent_pose :: bool
  owned_independent_pose :: bool
  desired_feeds :: nat
  owned_feeds :: nat
  desired_enabled :: bool
  creation_pending :: bool
  active_pair :: bool
  pc_failure :: pair_failure

definition initial_controller :: pair_controller where
  "initial_controller = \<lparr>mailbox = no_request, published = empty_snapshot, processing = False,
     pc_owner = no_manager, pc_ids = replicate kMaxOwnedViews 0, desired_keys = zero_keys,
     owned_keys = zero_keys, desired_independent_pose = False, owned_independent_pose = False,
     desired_feeds = 2, owned_feeds = 0, desired_enabled = False, creation_pending = False,
     active_pair = False, pc_failure = NoFailure\<rparr>"

definition clamp_feeds :: "nat \<Rightarrow> nat" where
  "clamp_feeds feeds = (if feeds < 1 then 1 else if feeds > kMaxOwnedViews then kMaxOwnedViews else feeds)"

definition create_failure_for :: "nat \<Rightarrow> pair_failure" where
  "create_failure_for index =
     (if index = 0 then FirstCreateFailed
      else if index = 1 then SecondCreateFailed
      else if index = 2 then ThirdCreateFailed
      else FourthCreateFailed)"

definition request_enable :: "pair_keys \<Rightarrow> pair_controller \<Rightarrow> pair_controller" where
  "request_enable keys s = s\<lparr>mailbox := \<lparr>rq_command = EnableCommand, rq_keys = keys,
     rq_independent_pose = False, rq_feeds = 2\<rparr>\<rparr>"

definition request_independent_pose :: "nat \<Rightarrow> pair_controller \<Rightarrow> pair_controller" where
  "request_independent_pose feeds s = s\<lparr>mailbox := \<lparr>rq_command = EnableCommand,
     rq_keys = zero_keys, rq_independent_pose = True, rq_feeds = clamp_feeds feeds\<rparr>\<rparr>"

definition request_disable :: "pair_controller \<Rightarrow> pair_controller" where
  "request_disable s = s\<lparr>mailbox := no_request\<lparr>rq_command := DisableCommand\<rparr>\<rparr>"

definition snapshot :: "pair_controller \<Rightarrow> pair_snapshot" where
  "snapshot s = (published s)\<lparr>sn_request_pending := rq_command (mailbox s) \<noteq> NoCommand\<rparr>"

definition has_owned_ids :: "pair_controller \<Rightarrow> bool" where
  "has_owned_ids s = list_ex (\<lambda>i. i \<noteq> 0) (pc_ids s)"

definition complete_owned_set :: "pair_controller \<Rightarrow> bool" where
  "complete_owned_set s \<longleftrightarrow>
     \<not> (owned_feeds s < 1 \<or> owned_feeds s > kMaxOwnedViews) \<and>
     list_all (\<lambda>i. pc_ids s ! i \<noteq> 0) [0..<owned_feeds s] \<and>
     list_all (\<lambda>i. pc_ids s ! i = 0) [owned_feeds s..<kMaxOwnedViews]"

definition publish :: "pair_state \<Rightarrow> pair_blocked \<Rightarrow> pair_controller \<Rightarrow> pair_controller" where
  "publish st bl s = s\<lparr>published := \<lparr>sn_state = st, sn_failure = pc_failure s, sn_blocked = bl,
     sn_owner = pc_owner s, sn_owned_ids = pc_ids s, sn_request_pending = False,
     sn_creation_pending = creation_pending s\<rparr>\<rparr>"

definition cancel_uncreated_request ::
  "pair_controller \<Rightarrow> empty_pair_cancel \<times> pair_controller" where
  "cancel_uncreated_request s =
     (if processing s then (Busy, s)
      else if has_owned_ids s \<or> pc_owner s \<noteq> no_manager then (Owned, s)
      else (Cancelled, s\<lparr>mailbox := no_request, desired_enabled := False,
              creation_pending := False, active_pair := False, pc_failure := NoFailure,
              published := empty_snapshot\<rparr>))"

subsection \<open>Cleanup and creation\<close>

definition erase_slot ::
  "('e \<Rightarrow> manager_token \<Rightarrow> entry_id \<Rightarrow> bool \<times> 'e) \<Rightarrow> manager_token \<Rightarrow> nat \<Rightarrow>
   owned_ids \<times> 'e \<Rightarrow> owned_ids \<times> 'e" where
  "erase_slot era own i = (\<lambda>(ids, e).
     if ids ! i \<noteq> 0 then
       (case era e own (ids ! i) of (ok, e') \<Rightarrow> (if ok then ids[i := 0] else ids, e'))
     else (ids, e))"

definition cleanup ::
  "('e \<Rightarrow> manager_token \<Rightarrow> entry_id \<Rightarrow> bool \<times> 'e) \<Rightarrow> pair_controller \<times> 'e \<Rightarrow>
   pair_controller \<times> 'e" where
  "cleanup era = (\<lambda>(s, e).
     case fold (erase_slot era (pc_owner s)) (rev [0..<length (pc_ids s)]) (pc_ids s, e) of
       (ids, e') \<Rightarrow>
         let s1 = s\<lparr>active_pair := False, pc_ids := ids\<rparr>
         in (if has_owned_ids s1 then s1 else s1\<lparr>pc_owner := no_manager, owned_feeds := 0\<rparr>, e'))"

text \<open>\<open>prepare\<close>: \<open>None\<close> when the descriptor is ready, else the failure it records.\<close>

definition prepare ::
  "('e \<Rightarrow> descriptor \<Rightarrow> bool \<times> descriptor \<times> 'e) \<Rightarrow> bool \<Rightarrow> pose_key \<Rightarrow> 'e \<Rightarrow>
   pair_failure option \<times> descriptor \<times> 'e" where
  "prepare ini independent key e =
     (case ini e fresh_descriptor of (ok, d, e') \<Rightarrow>
        if \<not> ok then (Some InitializerFailed, d, e')
        else
          (case (if independent then pack_independent_pose d else pack_mode_zero d key) of
             (packed, d') \<Rightarrow> (if packed then None else Some InitializerContract, d', e')))"

definition creation_failed ::
  "('e \<Rightarrow> manager_token \<Rightarrow> entry_id \<Rightarrow> bool \<times> 'e) \<Rightarrow> pair_failure \<Rightarrow>
   pair_controller \<times> 'e \<Rightarrow> pair_controller \<times> 'e" where
  "creation_failed era failure = (\<lambda>(s, e).
     let s1 = s\<lparr>pc_failure := failure\<rparr>
     in case (if has_owned_ids s1 then cleanup era (s1, e) else (s1, e)) of
          (s2, e2) \<Rightarrow>
            (publish (if has_owned_ids s2 then CleanupPending else Failed) NotBlocked s2, e2))"

fun create_views ::
  "('e \<Rightarrow> descriptor \<Rightarrow> bool \<times> descriptor \<times> 'e) \<Rightarrow>
   ('e \<Rightarrow> manager_token \<Rightarrow> descriptor \<Rightarrow> entry_id \<times> 'e) \<Rightarrow>
   ('e \<Rightarrow> manager_token \<Rightarrow> entry_id \<Rightarrow> bool \<times> 'e) \<Rightarrow>
   manager_token \<Rightarrow> nat list \<Rightarrow> pair_controller \<times> 'e \<Rightarrow> bool \<times> pair_controller \<times> 'e" where
  "create_views ini cre era m [] (s, e) = (True, s, e)"
| "create_views ini cre era m (i # is) (s, e) =
     (case prepare ini (desired_independent_pose s) (desired_keys s ! i) e of
        (Some f, _, e1) \<Rightarrow> (False, creation_failed era f (s, e1))
      | (None, d, e1) \<Rightarrow>
          (case cre e1 m d of (eid, e2) \<Rightarrow>
             if eid = 0 then (False, creation_failed era (create_failure_for i) (s, e2))
             else if list_ex (\<lambda>p. pc_ids s ! p = eid) [0..<i] then
               (False, creation_failed era DuplicateId (s, e2))
             else
               create_views ini cre era m is
                 ((if i = 0 then s\<lparr>pc_owner := m\<rparr> else s)\<lparr>pc_ids := (pc_ids s)[i := eid]\<rparr>, e2)))"

subsection \<open>One observed update\<close>

definition apply_request :: "pair_request \<Rightarrow> pair_controller \<Rightarrow> pair_controller" where
  "apply_request r s =
     (case rq_command r of
        EnableCommand \<Rightarrow>
          (let s1 = s\<lparr>desired_keys := rq_keys r, desired_independent_pose := rq_independent_pose r,
                      desired_feeds := clamp_feeds (rq_feeds r), desired_enabled := True,
                      creation_pending := True, pc_failure := NoFailure\<rparr>
           in if active_pair s1 \<and> complete_owned_set s1 \<and> owned_feeds s1 = desired_feeds s1 \<and>
                 owned_keys s1 = desired_keys s1 \<and>
                 owned_independent_pose s1 = desired_independent_pose s1
              then s1\<lparr>creation_pending := False\<rparr> else s1)
      | DisableCommand \<Rightarrow>
          s\<lparr>desired_enabled := False, creation_pending := False, pc_failure := NoFailure\<rparr>
      | NoCommand \<Rightarrow> s)"

definition publish_idle :: "pair_controller \<Rightarrow> pair_controller" where
  "publish_idle s = publish (if pc_failure s = NoFailure then Disabled else Failed) NotBlocked s"

definition start_creation ::
  "('e \<Rightarrow> descriptor \<Rightarrow> bool \<times> descriptor \<times> 'e) \<Rightarrow>
   ('e \<Rightarrow> manager_token \<Rightarrow> descriptor \<Rightarrow> entry_id \<times> 'e) \<Rightarrow>
   ('e \<Rightarrow> manager_token \<Rightarrow> entry_id \<Rightarrow> bool \<times> 'e) \<Rightarrow>
   manager_token \<Rightarrow> pair_controller \<times> 'e \<Rightarrow> pair_controller \<times> 'e" where
  "start_creation ini cre era m = (\<lambda>(s, e).
     if \<not> desired_enabled s \<or> \<not> creation_pending s then (publish_idle s, e)
     else
       (case create_views ini cre era m [0..<desired_feeds s]
               (s\<lparr>creation_pending := False, pc_ids := replicate kMaxOwnedViews 0,
                  owned_feeds := 0\<rparr>, e) of
          (created, s1, e1) \<Rightarrow>
            if \<not> created then (s1, e1)
            else (publish Active NotBlocked
                    (s1\<lparr>owned_keys := desired_keys s1,
                        owned_independent_pose := desired_independent_pose s1,
                        owned_feeds := desired_feeds s1, active_pair := True\<rparr>), e1)))"

definition update_owned ::
  "'e engine_callbacks \<Rightarrow> manager_token \<Rightarrow> pair_controller \<times> 'e \<Rightarrow> pair_controller \<times> 'e" where
  "update_owned eng m = (\<lambda>(s, e).
     if \<not> has_owned_ids s \<and> \<not> creation_pending s then (publish_idle s, e)
     else if \<not> token_valid m then (publish BlockedState InvalidManager s, e)
     else if has_owned_ids s \<and> m \<noteq> pc_owner s then (publish BlockedState ManagerMismatch s, e)
     else
       (case (cb_initialize eng, cb_create eng, cb_erase eng) of
          (Some ini, Some cre, Some era) \<Rightarrow>
            if has_owned_ids s then
              if desired_enabled s \<and> active_pair s \<and> \<not> creation_pending s \<and>
                 pc_failure s = NoFailure \<and> complete_owned_set s
              then (publish Active NotBlocked s, e)
              else
                (case cleanup era (s, e) of (s1, e1) \<Rightarrow>
                   if has_owned_ids s1 then (publish CleanupPending NotBlocked s1, e1)
                   else start_creation ini cre era m (s1, e1))
            else start_creation ini cre era m (s, e)
        | _ \<Rightarrow> (publish BlockedState MissingCallbacks s, e)))"

definition process_update ::
  "'e engine_callbacks \<Rightarrow> manager_token \<Rightarrow> pair_controller \<times> 'e \<Rightarrow> bool \<times> pair_controller \<times> 'e" where
  "process_update eng m = (\<lambda>(s, e).
     if processing s then (False, s, e)
     else
       (case update_owned eng m
               (apply_request (mailbox s) (s\<lparr>processing := True, mailbox := no_request\<rparr>), e) of
          (s1, e1) \<Rightarrow> (True, s1\<lparr>processing := False\<rparr>, e1)))"

definition acknowledge_manager_destroyed ::
  "manager_token \<Rightarrow> pair_controller \<Rightarrow> bool \<times> pair_controller" where
  "acknowledge_manager_destroyed m s =
     (if processing s then (False, s)
      else if \<not> has_owned_ids s \<or> m \<noteq> pc_owner s then (False, s)
      else (True, publish Failed NotBlocked
              (s\<lparr>pc_ids := replicate kMaxOwnedViews 0, pc_owner := no_manager, owned_feeds := 0,
                 desired_enabled := False, creation_pending := False, active_pair := False,
                 pc_failure := ManagerDestroyed, mailbox := no_request\<rparr>)))"


subsection \<open>The controller's invariant\<close>

text \<open>
  \<open>pair_core\<close> relates the private fields; \<open>pair_pub\<close> says the published snapshot is theirs.
  An active pair is complete, ids are never shared by two slots, ids exist exactly while an
  owner is bound, and a pending creation is an enabled one without a recorded failure.
\<close>

named_theorems pair_defs

definition pair_core :: "pair_controller \<Rightarrow> bool" where
  "pair_core s \<longleftrightarrow>
     length (pc_ids s) = kMaxOwnedViews \<and> nz_distinct (pc_ids s) \<and>
     (if has_owned_ids s then token_valid (pc_owner s) else pc_owner s = no_manager) \<and>
     (active_pair s \<longrightarrow> complete_owned_set s) \<and>
     (creation_pending s \<longrightarrow> pc_failure s = NoFailure \<and> desired_enabled s) \<and>
     1 \<le> desired_feeds s \<and> desired_feeds s \<le> kMaxOwnedViews"

definition pair_pub :: "pair_controller \<Rightarrow> bool" where
  "pair_pub s \<longleftrightarrow>
     sn_owned_ids (published s) = pc_ids s \<and> sn_owner (published s) = pc_owner s \<and>
     sn_creation_pending (published s) = creation_pending s \<and>
     sn_failure (published s) = pc_failure s \<and> \<not> sn_request_pending (published s) \<and>
     (sn_state (published s) = Active \<longrightarrow>
        active_pair s \<and> pc_failure s = NoFailure \<and> \<not> creation_pending s)"

definition pair_inv :: "pair_controller \<Rightarrow> bool" where
  "pair_inv s \<longleftrightarrow> pair_core s \<and> pair_pub s"

declare publish_def [pair_defs] publish_idle_def [pair_defs] pair_core_def [pair_defs]
  pair_pub_def [pair_defs] has_owned_ids_def [pair_defs] complete_owned_set_def [pair_defs]
  kMaxOwnedViews_def [pair_defs]

lemma publish_pub:
  "(st = Active \<longrightarrow> active_pair s \<and> pc_failure s = NoFailure \<and> \<not> creation_pending s) \<Longrightarrow>
   pair_pub (publish st bl s)"
  by (simp add: pair_pub_def publish_def)

lemma publish_core [simp]: "pair_core (publish st bl s) = pair_core s"
  by (simp add: pair_defs)

lemma publish_owned [simp]:
  "has_owned_ids (publish st bl s) = has_owned_ids s"
  "pc_ids (publish st bl s) = pc_ids s" "pc_owner (publish st bl s) = pc_owner s"
  by (simp_all add: pair_defs)

subsection \<open>Erasing\<close>

definition ids_shrink :: "owned_ids \<Rightarrow> owned_ids \<Rightarrow> bool" where
  "ids_shrink ids' ids \<longleftrightarrow> length ids' = length ids \<and>
     (\<forall>i < length ids. ids' ! i = ids ! i \<or> ids' ! i = 0)"

lemma ids_shrink_refl [simp]: "ids_shrink ids ids"
  by (simp add: ids_shrink_def)

lemma ids_shrink_trans: "ids_shrink a b \<Longrightarrow> ids_shrink b c \<Longrightarrow> ids_shrink a c"
  unfolding ids_shrink_def by metis

lemma ids_shrink_clear: "ids_shrink (ids[i := 0]) ids"
  by (cases "i < length ids") (auto simp: ids_shrink_def nth_list_update)

lemma ids_shrink_nz_distinct: "ids_shrink ids' ids \<Longrightarrow> nz_distinct ids \<Longrightarrow> nz_distinct ids'"
  unfolding ids_shrink_def nz_distinct_def by metis

lemma ids_shrink_any: "ids_shrink ids' ids \<Longrightarrow> list_ex (\<lambda>i. i \<noteq> 0) ids' \<Longrightarrow> list_ex (\<lambda>i. i \<noteq> 0) ids"
  unfolding ids_shrink_def list_ex_length by metis

lemma erase_slot_shrink: "ids_shrink (fst (erase_slot era own i (ids, e))) ids"
  by (auto simp: erase_slot_def ids_shrink_clear split: prod.splits)

lemma erase_fold_shrink: "ids_shrink (fst (fold (erase_slot era own) is (ids, e))) ids"
proof (induction "is" arbitrary: ids e)
  case Nil
  then show ?case by simp
next
  case (Cons i "is")
  obtain ids1 e1 where step: "erase_slot era own i (ids, e) = (ids1, e1)"
    by force
  have "ids_shrink ids1 ids"
    using erase_slot_shrink [of era own i ids e] step by simp
  with Cons.IH [of ids1 e1] step show ?case
    by (auto intro: ids_shrink_trans)
qed

lemma cleanup_frame:
  assumes "cleanup era (s, e) = (s', e')"
  shows "ids_shrink (pc_ids s') (pc_ids s)"
    and "\<not> active_pair s'"
    and "has_owned_ids s' \<Longrightarrow> pc_owner s' = pc_owner s \<and> owned_feeds s' = owned_feeds s"
    and "\<not> has_owned_ids s' \<Longrightarrow> pc_owner s' = no_manager \<and> owned_feeds s' = 0"
    and "mailbox s' = mailbox s" and "published s' = published s"
    and "desired_keys s' = desired_keys s" and "desired_feeds s' = desired_feeds s"
    and "desired_independent_pose s' = desired_independent_pose s"
    and "desired_enabled s' = desired_enabled s"
    and "creation_pending s' = creation_pending s" and "pc_failure s' = pc_failure s"
    and "processing s' = processing s"
  using assms erase_fold_shrink [of era "pc_owner s" "rev [0..<length (pc_ids s)]" "pc_ids s" e]
  by (auto simp: cleanup_def has_owned_ids_def Let_def split: prod.splits if_splits)

lemma cleanup_core:
  assumes "pair_core s" and "cleanup era (s, e) = (s', e')"
  shows "pair_core s'"
proof -
  note f = cleanup_frame [OF assms(2)]
  have "has_owned_ids s' \<Longrightarrow> has_owned_ids s"
    using f(1) ids_shrink_any unfolding has_owned_ids_def by blast
  moreover have "nz_distinct (pc_ids s')"
    by (rule ids_shrink_nz_distinct [OF f(1)]) (use assms(1) in \<open>simp add: pair_core_def\<close>)
  moreover have "length (pc_ids s') = kMaxOwnedViews"
    using f(1) assms(1) by (simp add: pair_core_def ids_shrink_def)
  ultimately show ?thesis
    using assms(1) f by (cases "has_owned_ids s'") (auto simp: pair_core_def)
qed

lemma creation_failed_inv:
  assumes "pair_core s" and "\<not> creation_pending s"
    and "creation_failed era f (s, e) = (s', e')"
  shows "pair_inv s'" and "processing s' = processing s" and "mailbox s' = mailbox s"
    and "creation_pending s' = creation_pending s" and "pc_failure s' = f"
proof -
  let ?s1 = "s\<lparr>pc_failure := f\<rparr>"
  have core1: "pair_core ?s1"
    using assms(1,2) by (simp add: pair_defs)
  obtain s2 e2 where clean: "(if has_owned_ids ?s1 then cleanup era (?s1, e) else (?s1, e)) = (s2, e2)"
    by force
  have s': "s' = publish (if has_owned_ids s2 then CleanupPending else Failed) NotBlocked s2"
    using assms(3) clean by (simp add: creation_failed_def Let_def)
  have "pair_core s2"
    using clean core1 cleanup_core by (auto split: if_splits)
  then show "pair_inv s'"
    by (simp add: s' pair_inv_def publish_pub)
  show "processing s' = processing s" "mailbox s' = mailbox s"
    "creation_pending s' = creation_pending s" "pc_failure s' = f"
    using clean cleanup_frame [of era ?s1 e s2 e2] by (auto simp: s' publish_def split: if_splits)
qed

subsection \<open>Creating\<close>

text \<open>The state while view \<open>i\<close> is about to be created for manager \<open>m\<close>.\<close>

definition creating :: "nat \<Rightarrow> manager_token \<Rightarrow> pair_controller \<Rightarrow> bool" where
  "creating i m s \<longleftrightarrow>
     length (pc_ids s) = kMaxOwnedViews \<and> (\<forall>k < kMaxOwnedViews. pc_ids s ! k \<noteq> 0 \<longleftrightarrow> k < i) \<and>
     nz_distinct (pc_ids s) \<and> pc_owner s = (if i = 0 then no_manager else m) \<and> token_valid m \<and>
     \<not> active_pair s \<and> \<not> creation_pending s \<and> 1 \<le> desired_feeds s \<and> desired_feeds s \<le> kMaxOwnedViews"

lemma creating_owned: "creating i m s \<Longrightarrow> has_owned_ids s \<longleftrightarrow> 0 < i"
  unfolding creating_def has_owned_ids_def list_ex_length kMaxOwnedViews_def
  by (metis gr_zeroI not_less_zero zero_less_numeral)

lemma creating_core: "creating i m s \<Longrightarrow> pair_core s"
  using creating_owned [of i m s] by (auto simp: creating_def pair_core_def)

lemma creating_step:
  assumes "creating i m s" and "i < kMaxOwnedViews" and "eid \<noteq> 0"
    and "\<not> list_ex (\<lambda>p. pc_ids s ! p = eid) [0..<i]"
  shows "creating (Suc i) m ((if i = 0 then s\<lparr>pc_owner := m\<rparr> else s)\<lparr>pc_ids := (pc_ids s)[i := eid]\<rparr>)"
proof -
  have "eid \<notin> set (pc_ids s)"
  proof
    assume "eid \<in> set (pc_ids s)"
    then obtain k where "k < length (pc_ids s)" "pc_ids s ! k = eid"
      by (auto simp: in_set_conv_nth)
    then have "k < i"
      using assms(1,3) by (auto simp: creating_def)
    with \<open>pc_ids s ! k = eid\<close> assms(4) show False
      by (auto simp: list_ex_iff)
  qed
  then have "nz_distinct ((pc_ids s)[i := eid])"
    using assms(1) by (intro nz_distinct_insert) (auto simp: creating_def)
  then show ?thesis
    using assms by (auto simp: creating_def nth_list_update less_Suc_eq)
qed

lemma create_views_inv:
  assumes "creating i m s" and "i \<le> n" and "n \<le> kMaxOwnedViews"
    and "create_views ini cre era m [i..<n] (s, e) = (ok, s', e')"
  shows "processing s' = processing s \<and> mailbox s' = mailbox s \<and>
    (if ok then creating n m s' \<and> pc_failure s' = pc_failure s \<and>
       desired_feeds s' = desired_feeds s \<and> desired_enabled s' = desired_enabled s
     else pair_inv s' \<and> \<not> creation_pending s' \<and> pc_failure s' \<noteq> NoFailure)"
  using assms
proof (induction "n - i" arbitrary: i s e)
  case 0
  then show ?case by simp
next
  case (Suc k)
  then have i: "i < n" "[i..<n] = i # [Suc i..<n]"
    by (auto simp: upt_conv_Cons)
  have fail: "ok = False \<Longrightarrow> f \<noteq> NoFailure \<Longrightarrow> creation_failed era f (s, x) = (s', e') \<Longrightarrow> ?case" for f x
    using creation_failed_inv [OF creating_core [OF Suc.prems(1)], of era f x s' e'] Suc.prems(1)
    by (auto simp: creating_def)
  obtain fo d e1 where prep:
    "prepare ini (desired_independent_pose s) (desired_keys s ! i) e = (fo, d, e1)"
    by (metis prod_cases3)
  obtain eid e2 where cre: "cre e1 m d = (eid, e2)"
    by force
  note run = Suc.prems(4) [unfolded i(2)]
  show ?case
  proof (cases fo)
    case (Some f)
    moreover have "f \<noteq> NoFailure"
      using prep Some by (auto simp: prepare_def split: prod.splits if_splits)
    ultimately show ?thesis
      using run prep Some fail [of f e1] by simp
  next
    case None
    consider "eid = 0" | "eid \<noteq> 0" "list_ex (\<lambda>p. pc_ids s ! p = eid) [0..<i]"
      | "eid \<noteq> 0" "\<not> list_ex (\<lambda>p. pc_ids s ! p = eid) [0..<i]"
      by blast
    then show ?thesis
    proof cases
      case 1
      have "create_failure_for i \<noteq> NoFailure"
        by (simp add: create_failure_for_def)
      with 1 None run prep cre fail [of "create_failure_for i" e2] show ?thesis by simp
    next
      case 2
      with None run prep cre fail [of DuplicateId e2] show ?thesis by simp
    next
      case 3
      let ?s1 = "(if i = 0 then s\<lparr>pc_owner := m\<rparr> else s)\<lparr>pc_ids := (pc_ids s)[i := eid]\<rparr>"
      have "creating (Suc i) m ?s1"
        using Suc.prems(1) i(1) Suc.prems(3) 3 by (intro creating_step) auto
      from Suc.hyps(1) [OF _ this, of e2] Suc.hyps(2) Suc.prems(3) i(1) run prep cre None 3
      show ?thesis by (auto split: if_splits)
    qed
  qed
qed


subsection \<open>Every update keeps the invariant\<close>

lemma complete_owned: "complete_owned_set s \<Longrightarrow> length (pc_ids s) = kMaxOwnedViews \<Longrightarrow> has_owned_ids s"
  by (auto simp: pair_defs list_ex_length list_all_iff intro!: exI [of _ 0])

lemma core_inactive: "pair_core s \<Longrightarrow> \<not> has_owned_ids s \<Longrightarrow> \<not> active_pair s"
  using complete_owned by (auto simp: pair_core_def)

lemma apply_request_core: "pair_core s \<Longrightarrow> pair_core (apply_request r s)"
  by (auto simp: apply_request_def pair_defs clamp_feeds_def Let_def split: pair_command.splits)

lemma apply_request_frame [simp]:
  "processing (apply_request r s) = processing s" "mailbox (apply_request r s) = mailbox s"
  "pc_ids (apply_request r s) = pc_ids s" "pc_owner (apply_request r s) = pc_owner s"
  "has_owned_ids (apply_request r s) = has_owned_ids s"
  by (simp_all add: apply_request_def has_owned_ids_def Let_def split: pair_command.splits)

lemma publish_idle_inv: "pair_core s \<Longrightarrow> pair_inv (publish_idle s)"
  by (simp add: pair_inv_def publish_idle_def publish_pub)

lemma publish_frame [simp]:
  "processing (publish st bl s) = processing s" "mailbox (publish st bl s) = mailbox s"
  "processing (publish_idle s) = processing s" "mailbox (publish_idle s) = mailbox s"
  by (simp_all add: publish_def publish_idle_def)

lemma creating_start:
  "pair_core s \<Longrightarrow> \<not> has_owned_ids s \<Longrightarrow> token_valid m \<Longrightarrow>
   creating 0 m (s\<lparr>creation_pending := False, pc_ids := replicate kMaxOwnedViews 0, owned_feeds := 0\<rparr>)"
  using core_inactive [of s] by (auto simp: creating_def pair_core_def)

lemma creating_complete:
  assumes "creating (desired_feeds s) m s" and "pc_failure s = NoFailure"
  shows "pair_inv (publish Active NotBlocked (s\<lparr>owned_keys := k, owned_independent_pose := b,
           owned_feeds := desired_feeds s, active_pair := True\<rparr>))"
proof -
  have "has_owned_ids s"
    using assms(1) creating_owned [OF assms(1)] unfolding creating_def by linarith
  then have "pair_core (s\<lparr>owned_keys := k, owned_independent_pose := b,
      owned_feeds := desired_feeds s, active_pair := True\<rparr>)"
    using assms by (auto simp: creating_def pair_core_def complete_owned_set_def has_owned_ids_def
        list_all_iff)
  moreover have "\<not> creation_pending s"
    using assms(1) by (simp add: creating_def)
  ultimately show ?thesis
    using assms(2) by (simp add: pair_inv_def publish_pub)
qed

lemma start_creation_inv:
  assumes "pair_core s" and "\<not> has_owned_ids s" and "token_valid m"
    and "start_creation ini cre era m (s, e) = (s', e')"
  shows "pair_inv s' \<and> processing s' = processing s \<and> mailbox s' = mailbox s"
proof (cases "desired_enabled s \<and> creation_pending s")
  case False
  then show ?thesis
    using assms publish_idle_inv by (auto simp: start_creation_def)
next
  case True
  let ?s0 = "s\<lparr>creation_pending := False, pc_ids := replicate kMaxOwnedViews 0, owned_feeds := 0\<rparr>"
  obtain ok s1 e1 where run: "create_views ini cre era m [0..<desired_feeds s] (?s0, e) = (ok, s1, e1)"
    by (metis prod_cases3)
  have bound: "desired_feeds s \<le> kMaxOwnedViews" and nofail: "pc_failure s = NoFailure"
    using assms(1) True by (simp_all add: pair_core_def)
  note I = create_views_inv [OF creating_start [OF assms(1-3)] _ bound run]
  show ?thesis
  proof (cases ok)
    case True': True
    then have "pair_inv (publish Active NotBlocked (s1\<lparr>owned_keys := desired_keys s1,
        owned_independent_pose := desired_independent_pose s1, owned_feeds := desired_feeds s1,
        active_pair := True\<rparr>))"
      using I nofail by (intro creating_complete) auto
    then show ?thesis
      using assms(4) True run True' I by (auto simp: start_creation_def)
  next
    case False
    then show ?thesis
      using assms(4) True run I by (auto simp: start_creation_def)
  qed
qed

lemma update_owned_inv:
  assumes core: "pair_core s" and upd: "update_owned eng m (s, e) = (s', e')"
  shows "pair_inv s' \<and> processing s' = processing s \<and> mailbox s' = mailbox s"
proof -
  have pub: "st \<noteq> Active \<Longrightarrow> s' = publish st bl s \<Longrightarrow> ?thesis" for st bl
    using core by (simp add: pair_inv_def publish_pub)
  show ?thesis
  proof (cases "\<not> has_owned_ids s \<and> \<not> creation_pending s \<or> \<not> token_valid m \<or>
      has_owned_ids s \<and> m \<noteq> pc_owner s \<or> cb_initialize eng = None \<or> cb_create eng = None \<or>
      cb_erase eng = None")
    case True
    then show ?thesis
      using upd publish_idle_inv [OF core] pub
      by (auto simp: update_owned_def split: if_splits option.splits)
  next
    case False
    then obtain ini cre era where cb: "cb_initialize eng = Some ini" "cb_create eng = Some cre"
      "cb_erase eng = Some era"
      by auto
    have m: "token_valid m"
      using False by blast
    show ?thesis
    proof (cases "has_owned_ids s")
      case owned: True
      obtain s1 e1 where cl: "cleanup era (s, e) = (s1, e1)"
        by force
      have core1: "pair_core s1"
        using cleanup_core [OF core cl] .
      note f = cleanup_frame [OF cl]
      show ?thesis
      proof (cases "desired_enabled s \<and> active_pair s \<and> \<not> creation_pending s \<and>
                 pc_failure s = NoFailure \<and> complete_owned_set s")
        case True
        then show ?thesis
          using upd False cb owned core by (auto simp: update_owned_def pair_inv_def publish_pub)
      next
        case stale: False
        show ?thesis
        proof (cases "has_owned_ids s1")
          case True
          then have "s' = publish CleanupPending NotBlocked s1"
            using upd False cb owned stale cl by (auto simp: update_owned_def)
          then show ?thesis
            using core1 f(5,13) by (simp add: pair_inv_def publish_pub)
        next
          case gone: False
          then have "start_creation ini cre era m (s1, e1) = (s', e')"
            using upd False cb owned stale cl by (auto simp: update_owned_def)
          from start_creation_inv [OF core1 gone m this] f(5,13) show ?thesis
            by simp
        qed
      qed
    next
      case none: False
      then have "start_creation ini cre era m (s, e) = (s', e')"
        using upd False cb by (auto simp: update_owned_def)
      from start_creation_inv [OF core none m this] show ?thesis .
    qed
  qed
qed

lemma pair_core_ghost [simp]:
  "pair_core (s\<lparr>processing := b\<rparr>) = pair_core s" "pair_core (s\<lparr>mailbox := r\<rparr>) = pair_core s"
  "pair_inv (s\<lparr>processing := b\<rparr>) = pair_inv s" "pair_inv (s\<lparr>mailbox := r\<rparr>) = pair_inv s"
  by (simp_all add: pair_inv_def pair_defs)

lemma process_update_inv:
  assumes "pair_inv s" and "process_update eng m (s, e) = (ok, s', e')"
  shows "pair_inv s' \<and> processing s' = processing s"
proof (cases "processing s")
  case True
  then show ?thesis
    using assms by (simp add: process_update_def)
next
  case False
  let ?s0 = "apply_request (mailbox s) (s\<lparr>processing := True, mailbox := no_request\<rparr>)"
  obtain s1 e1 where upd: "update_owned eng m (?s0, e) = (s1, e1)"
    by force
  have "pair_core ?s0"
    using assms(1) by (intro apply_request_core) (simp add: pair_inv_def)
  from update_owned_inv [OF this upd] show ?thesis
    using assms(2) False upd by (auto simp: process_update_def)
qed


subsection \<open>Runs\<close>

text \<open>
  The controller's callers: request threads, the update observer, and the observer's report
  that a manager lifetime ended (whose entries the engine has dropped: the function is the
  engine's own change).
\<close>

datatype 'e pair_event =
  EnableKeys pair_keys | EnablePose nat | RequestDisable | CancelEmpty
| Update "'e engine_callbacks" manager_token
| ManagerGone manager_token "'e \<Rightarrow> 'e"

fun pair_step :: "'e pair_event \<Rightarrow> pair_controller \<times> 'e \<Rightarrow> pair_controller \<times> 'e" where
  "pair_step (EnableKeys k) (s, e) = (request_enable k s, e)"
| "pair_step (EnablePose n) (s, e) = (request_independent_pose n s, e)"
| "pair_step RequestDisable (s, e) = (request_disable s, e)"
| "pair_step CancelEmpty (s, e) = (snd (cancel_uncreated_request s), e)"
| "pair_step (Update eng m) (s, e) = snd (process_update eng m (s, e))"
| "pair_step (ManagerGone m g) (s, e) = (snd (acknowledge_manager_destroyed m s), g e)"

lemma request_inv [simp]:
  "pair_inv (request_enable k s) = pair_inv s" "pair_inv (request_independent_pose n s) = pair_inv s"
  "pair_inv (request_disable s) = pair_inv s"
  by (simp_all add: request_enable_def request_independent_pose_def request_disable_def)

lemma no_owned_replicate [simp]: "\<not> list_ex (\<lambda>i. i \<noteq> (0::u64)) (replicate n 0)"
  by (simp add: list_ex_iff)

lemma cancel_inv: "pair_inv s \<Longrightarrow> pair_inv (snd (cancel_uncreated_request s))"
proof -
  assume inv: "pair_inv s"
  have "\<not> has_owned_ids s \<Longrightarrow> pc_ids s = replicate kMaxOwnedViews 0"
    using inv by (simp add: pair_inv_def pair_core_def has_owned_ids_def list_ex_length list_eq_iff_nth_eq)
  with inv show ?thesis
    by (auto simp: cancel_uncreated_request_def pair_inv_def pair_defs empty_snapshot_def no_request_def)
qed

lemma acknowledge_inv: "pair_inv s \<Longrightarrow> pair_inv (snd (acknowledge_manager_destroyed m s))"
  by (auto simp: acknowledge_manager_destroyed_def pair_inv_def publish_pub)
    (auto simp: pair_defs)

interpretation pair: machine pair_step "\<lambda>(s, _). pair_inv s" "\<lambda>_. True"
proof
  fix ev :: "'a pair_event" and se :: "pair_controller \<times> 'a"
  assume inv: "case se of (s, _) \<Rightarrow> pair_inv s"
  obtain s e where se: "se = (s, e)"
    by force
  show "case pair_step ev se of (s, _) \<Rightarrow> pair_inv s"
  proof (cases ev)
    case (Update eng m)
    obtain ok s' e' where "process_update eng m (s, e) = (ok, s', e')"
      by (metis prod_cases3)
    with Update process_update_inv [of s eng m e ok s' e'] inv se show ?thesis by simp
  qed (use inv se in \<open>auto intro: cancel_inv acknowledge_inv\<close>)
qed

lemma initial_pair_inv: "pair_inv initial_controller"
  by (simp add: pair_inv_def pair_defs initial_controller_def empty_snapshot_def)

subsection \<open>No native entry escapes the controller\<close>

text \<open>
  What the native adapter promises, over the set of live native entries: the initializer only
  writes the descriptor, a creation returns zero or adds the entry it returns, and an erase
  drops at most its entry and answers true only when that entry is gone.
\<close>

definition engine_contract ::
  "('e \<Rightarrow> (manager_token \<times> entry_id) set) \<Rightarrow> 'e engine_callbacks \<Rightarrow> bool" where
  "engine_contract live eng \<longleftrightarrow>
     (\<forall>ini. cb_initialize eng = Some ini \<longrightarrow> (\<forall>e d. live (snd (snd (ini e d))) = live e)) \<and>
     (\<forall>cre. cb_create eng = Some cre \<longrightarrow> (\<forall>e m d. live (snd (cre e m d)) =
        (if fst (cre e m d) = 0 then live e else insert (m, fst (cre e m d)) (live e)))) \<and>
     (\<forall>era. cb_erase eng = Some era \<longrightarrow> (\<forall>e m i.
        live (snd (era e m i)) \<subseteq> live e \<and>
        (fst (era e m i) \<longrightarrow> (m, i) \<notin> live (snd (era e m i)))))"

definition owned_entries :: "manager_token \<Rightarrow> owned_ids \<Rightarrow> (manager_token \<times> entry_id) set" where
  "owned_entries m ids = {(m, i) | i. i \<in> set ids \<and> i \<noteq> 0}"

definition tracked :: "('e \<Rightarrow> (manager_token \<times> entry_id) set) \<Rightarrow> pair_controller \<times> 'e \<Rightarrow> bool" where
  "tracked live = (\<lambda>(s, e). live e \<subseteq> owned_entries (pc_owner s) (pc_ids s))"

lemma owned_entries_none: "\<not> list_ex (\<lambda>i. i \<noteq> 0) ids \<Longrightarrow> owned_entries m ids = {}"
  by (auto simp: owned_entries_def list_ex_iff)

lemma owned_entries_clear:
  "owned_entries m ids - {(m, ids ! i)} \<subseteq> owned_entries m (ids[i := 0])"
proof -
  have "j \<in> set (ids[i := 0])" if "j \<in> set ids" "j \<noteq> ids ! i" for j
  proof -
    from that obtain k where "k < length ids" "ids ! k = j" "k \<noteq> i"
      by (auto simp: in_set_conv_nth)
    then show ?thesis
      by (metis length_list_update nth_list_update_neq nth_mem)
  qed
  then show ?thesis
    by (auto simp: owned_entries_def)
qed

lemma tracked_publish [simp]:
  "tracked live (publish st bl s, e) = tracked live (s, e)"
  "tracked live (publish_idle s, e) = tracked live (s, e)"
  "tracked live (s\<lparr>processing := b\<rparr>, e) = tracked live (s, e)"
  "tracked live (s\<lparr>mailbox := r\<rparr>, e) = tracked live (s, e)"
  "tracked live (s\<lparr>pc_failure := f\<rparr>, e) = tracked live (s, e)"
  "tracked live (apply_request r s, e) = tracked live (s, e)"
  by (simp_all add: tracked_def publish_def publish_idle_def)


definition erase_contract ::
  "('e \<Rightarrow> (manager_token \<times> entry_id) set) \<Rightarrow>
   ('e \<Rightarrow> manager_token \<Rightarrow> entry_id \<Rightarrow> bool \<times> 'e) \<Rightarrow> bool" where
  "erase_contract live era \<longleftrightarrow> (\<forall>e m i. live (snd (era e m i)) \<subseteq> live e \<and>
     (fst (era e m i) \<longrightarrow> (m, i) \<notin> live (snd (era e m i))))"

lemma erase_slot_tracked:
  assumes "erase_contract live era" and "live e \<subseteq> owned_entries m ids"
    and "erase_slot era m i (ids, e) = (ids', e')"
  shows "live e' \<subseteq> owned_entries m ids'"
proof -
  have "live e' \<subseteq> live e" "ids' \<noteq> ids \<Longrightarrow> (m, ids ! i) \<notin> live e' \<and> ids' = ids[i := 0]"
    using assms(1,3) unfolding erase_slot_def erase_contract_def
    by (auto split: if_splits prod.splits) (metis fst_conv snd_conv subsetD)+
  with assms(2) owned_entries_clear [of m ids i] show ?thesis
    by (cases "ids' = ids") auto
qed

lemma erase_fold_tracked:
  assumes "erase_contract live era" and "live e \<subseteq> owned_entries m ids"
    and "fold (erase_slot era m) is (ids, e) = (ids', e')"
  shows "live e' \<subseteq> owned_entries m ids'"
  using assms(2,3)
proof (induction "is" arbitrary: ids e)
  case Nil
  then show ?case by simp
next
  case (Cons i "is")
  obtain ids1 e1 where step: "erase_slot era m i (ids, e) = (ids1, e1)"
    by force
  from erase_slot_tracked [OF assms(1) Cons.prems(1) step] Cons.IH [of e1 ids1] Cons.prems(2) step
  show ?case by simp
qed

lemma cleanup_tracked:
  assumes "erase_contract live era" and "tracked live (s, e)" and "cleanup era (s, e) = (s', e')"
  shows "tracked live (s', e')"
proof -
  obtain ids e1 where f:
    "fold (erase_slot era (pc_owner s)) (rev [0..<length (pc_ids s)]) (pc_ids s, e) = (ids, e1)"
    by force
  have "live e1 \<subseteq> owned_entries (pc_owner s) ids"
    using erase_fold_tracked [OF assms(1) _ f] assms(2) by (simp add: tracked_def)
  then show ?thesis
    using assms(3) f
    by (auto simp: cleanup_def tracked_def Let_def has_owned_ids_def owned_entries_none
        split: if_splits)
qed

lemma creation_failed_tracked:
  assumes "erase_contract live era" and "tracked live (s, e)" and "creation_failed era f (s, e) = (s', e')"
  shows "tracked live (s', e')"
  using assms cleanup_tracked [OF assms(1), of "s\<lparr>pc_failure := f\<rparr>" e]
  by (auto simp: creation_failed_def Let_def split: if_splits prod.splits)

lemma prepare_engine:
  "prepare ini b k e = (r, d, e1) \<Longrightarrow> e1 = snd (snd (ini e fresh_descriptor))"
  by (auto simp: prepare_def split: prod.splits if_splits)

lemma engine_contractD:
  assumes "engine_contract live eng" and "cb_initialize eng = Some ini" "cb_create eng = Some cre"
    "cb_erase eng = Some era"
  shows "live (snd (snd (ini e d))) = live e"
    and "cre e m d = (i, e') \<Longrightarrow> live e' = (if i = 0 then live e else insert (m, i) (live e))"
    and "erase_contract live era"
proof -
  show "live (snd (snd (ini e d))) = live e" "erase_contract live era"
    using assms by (simp_all add: engine_contract_def erase_contract_def)
  have "live (snd (cre e m d)) =
      (if fst (cre e m d) = 0 then live e else insert (m, fst (cre e m d)) (live e))"
    using assms(1,3) unfolding engine_contract_def by blast
  then show "live e' = (if i = 0 then live e else insert (m, i) (live e))" if "cre e m d = (i, e')"
    using that by simp
qed

lemma owned_entries_add:
  assumes "i < length ids" and "ids ! i = 0"
  shows "owned_entries m (ids[i := v]) = (if v = 0 then {} else {(m, v)}) \<union> owned_entries m ids"
proof -
  have "set (ids[i := v]) - {0} = (insert v (set ids)) - {0}"
  proof -
    have "j \<in> set (ids[i := v])" if "j \<in> set ids" "j \<noteq> 0" for j
    proof -
      from that assms obtain k where "k < length ids" "ids ! k = j" "k \<noteq> i"
        by (auto simp: in_set_conv_nth)
      then show ?thesis
        by (metis length_list_update nth_list_update_neq nth_mem)
    qed
    moreover have "v \<in> set (ids[i := v])"
      using assms(1) by (rule set_update_memI)
    ultimately show ?thesis
      using set_update_subset_insert [of ids i v] by auto
  qed
  then show ?thesis
    by (auto simp: owned_entries_def)
qed

lemma create_views_tracked:
  assumes c: "engine_contract live eng" "cb_initialize eng = Some ini" "cb_create eng = Some cre"
      "cb_erase eng = Some era"
    and "creating i m s" and "i \<le> n" and "n \<le> kMaxOwnedViews" and "tracked live (s, e)"
    and "create_views ini cre era m [i..<n] (s, e) = (ok, s', e')"
  shows "tracked live (s', e')"
  using assms(5-)
proof (induction "n - i" arbitrary: i s e)
  case 0
  then show ?case by simp
next
  case (Suc k)
  then have i: "i < n" "[i..<n] = i # [Suc i..<n]" and ni: "n - Suc i = k"
    by (auto simp: upt_conv_Cons)
  obtain fo d e1 where prep:
    "prepare ini (desired_independent_pose s) (desired_keys s ! i) e = (fo, d, e1)"
    by (metis prod_cases3)
  obtain eid e2 where cre: "cre e1 m d = (eid, e2)"
    by force
  have l1: "live e1 = live e"
    using prepare_engine [OF prep] engine_contractD(1) [OF c] by simp
  have l2: "live e2 = (if eid = 0 then live e else insert (m, eid) (live e))"
    using engine_contractD(2) [OF c cre] l1 by simp
  note fail = creation_failed_tracked [OF engine_contractD(3) [OF c]]
  have t1: "tracked live (s, e1)"
    using Suc.prems(4) l1 by (simp add: tracked_def)
  note run = Suc.prems(5) [unfolded i(2)]
  have ids: "length (pc_ids s) = kMaxOwnedViews" "pc_ids s ! i = 0" "0 < i \<Longrightarrow> pc_owner s = m"
    using Suc.prems(1,3) i(1) spec [of _ i] unfolding creating_def by (simp, fastforce, simp)
  have "i = 0 \<Longrightarrow> owned_entries (pc_owner s) (pc_ids s) = {}"
    using Suc.prems(1) creating_owned [OF Suc.prems(1)]
    by (simp add: owned_entries_none has_owned_ids_def)
  then have le: "live e \<subseteq> owned_entries m (pc_ids s)"
    using Suc.prems(4) ids(3) by (cases "i = 0") (auto simp: tracked_def)
  consider f where "fo = Some f" | "fo = None" "eid = 0"
    | "fo = None" "eid \<noteq> 0" "list_ex (\<lambda>p. pc_ids s ! p = eid) [0..<i]"
    | "fo = None" "eid \<noteq> 0" "\<not> list_ex (\<lambda>p. pc_ids s ! p = eid) [0..<i]"
    by (cases fo) auto
  then show ?case
  proof cases
    case 1
    then show ?thesis
      using run prep by (auto intro: fail [OF t1])
  next
    case 2
    then have "tracked live (s, e2)"
      using l2 Suc.prems(4) by (simp add: tracked_def)
    from 2 run prep cre show ?thesis by (auto intro: fail [OF \<open>tracked live (s, e2)\<close>])
  next
    case 3
    then obtain p where p: "p < i" "pc_ids s ! p = eid"
      by (auto simp: list_ex_iff)
    then have "eid \<in> set (pc_ids s)"
      using i(1) Suc.prems(3) ids(1) by (metis less_le_trans nth_mem order.strict_trans)
    then have "(m, eid) \<in> owned_entries (pc_owner s) (pc_ids s)"
      using p(1) ids(3) 3(2) by (auto simp: owned_entries_def)
    then have "tracked live (s, e2)"
      using l2 Suc.prems(4) by (simp add: tracked_def)
    from 3 run prep cre show ?thesis by (auto intro: fail [OF \<open>tracked live (s, e2)\<close>])
  next
    case 4
    let ?s1 = "(if i = 0 then s\<lparr>pc_owner := m\<rparr> else s)\<lparr>pc_ids := (pc_ids s)[i := eid]\<rparr>"
    have "i < kMaxOwnedViews"
      using i(1) Suc.prems(3) by simp
    then have st: "creating (Suc i) m ?s1"
      using Suc.prems(1) 4 by (intro creating_step) auto
    have "pc_owner ?s1 = m"
      using ids(3) by auto
    then have t: "tracked live (?s1, e2)"
      using owned_entries_add [of i "pc_ids s" m eid] ids \<open>i < kMaxOwnedViews\<close> le l2
      by (auto simp: tracked_def)
    have "create_views ini cre era m [Suc i..<n] (?s1, e2) = (ok, s', e')"
      using run prep cre 4 by simp
    with Suc.hyps(1) [OF ni [symmetric] st _ Suc.prems(3) t] i(1) show ?thesis by simp
  qed
qed


lemma start_creation_tracked:
  assumes c: "engine_contract live eng" "cb_initialize eng = Some ini" "cb_create eng = Some cre"
      "cb_erase eng = Some era"
    and "pair_core s" and "\<not> has_owned_ids s" and "token_valid m" and t: "tracked live (s, e)"
    and "start_creation ini cre era m (s, e) = (s', e')"
  shows "tracked live (s', e')"
proof (cases "desired_enabled s \<and> creation_pending s")
  case False
  then show ?thesis
    using assms by (auto simp: start_creation_def)
next
  case True
  let ?s0 = "s\<lparr>creation_pending := False, pc_ids := replicate kMaxOwnedViews 0, owned_feeds := 0\<rparr>"
  obtain ok s1 e1 where run: "create_views ini cre era m [0..<desired_feeds s] (?s0, e) = (ok, s1, e1)"
    by (metis prod_cases3)
  have "live e = {}"
    using t assms(6) by (auto simp: tracked_def has_owned_ids_def owned_entries_none)
  then have "tracked live (?s0, e)"
    by (simp add: tracked_def)
  moreover have "desired_feeds s \<le> kMaxOwnedViews"
    using assms(5) by (simp add: pair_core_def)
  ultimately have "tracked live (s1, e1)"
    using create_views_tracked [OF c creating_start [OF assms(5-7)] _ _ _ run] by simp
  then have "tracked live (s1\<lparr>owned_keys := k, owned_independent_pose := b, owned_feeds := f,
      active_pair := True\<rparr>, e1)" for k b f
    by (simp add: tracked_def)
  then show ?thesis
    using assms(9) True run \<open>tracked live (s1, e1)\<close>
    by (auto simp: start_creation_def split: if_splits)
qed

lemma update_owned_tracked:
  assumes c: "engine_contract live eng" and core: "pair_core s" and t: "tracked live (s, e)"
    and upd: "update_owned eng m (s, e) = (s', e')"
  shows "tracked live (s', e')"
proof (cases "\<not> has_owned_ids s \<and> \<not> creation_pending s \<or> \<not> token_valid m \<or>
      has_owned_ids s \<and> m \<noteq> pc_owner s \<or> cb_initialize eng = None \<or> cb_create eng = None \<or>
      cb_erase eng = None")
  case True
  then show ?thesis
    using upd t by (auto simp: update_owned_def split: if_splits option.splits)
next
  case False
  then obtain ini cre era where cb: "cb_initialize eng = Some ini" "cb_create eng = Some cre"
    "cb_erase eng = Some era"
    by auto
  have m: "token_valid m"
    using False by blast
  obtain s1 e1 where cl: "cleanup era (s, e) = (s1, e1)"
    by force
  have core1: "pair_core s1"
    using cleanup_core [OF core cl] .
  have t1: "tracked live (s1, e1)"
    using cleanup_tracked [OF engine_contractD(3) [OF c cb] t cl] .
  note st = start_creation_tracked [OF c cb _ _ m]
  consider "\<not> has_owned_ids s" "start_creation ini cre era m (s, e) = (s', e')"
    | "\<not> has_owned_ids s1" "start_creation ini cre era m (s1, e1) = (s', e')"
    | "(s', e') = (publish Active NotBlocked s, e)"
    | "(s', e') = (publish CleanupPending NotBlocked s1, e1)"
    using upd False cb cl by (auto simp: update_owned_def split: if_splits)
  then show ?thesis
  proof cases
    case 1
    from st [OF core 1(1) t 1(2)] show ?thesis .
  next
    case 2
    from st [OF core1 2(1) t1 2(2)] show ?thesis .
  qed (use t t1 in simp_all)
qed

lemma process_update_tracked:
  assumes "engine_contract live eng" and "pair_inv s" and "tracked live (s, e)"
    and "process_update eng m (s, e) = (ok, s', e')"
  shows "tracked live (s', e')"
proof (cases "processing s")
  case True
  then show ?thesis
    using assms by (simp add: process_update_def)
next
  case False
  let ?s0 = "apply_request (mailbox s) (s\<lparr>processing := True, mailbox := no_request\<rparr>)"
  obtain s1 e1 where upd: "update_owned eng m (?s0, e) = (s1, e1)"
    by force
  have "pair_core ?s0"
    using assms(2) by (intro apply_request_core) (simp add: pair_inv_def)
  from update_owned_tracked [OF assms(1) this _ upd] assms(3) have "tracked live (s1, e1)"
    by simp
  then show ?thesis
    using assms(4) False upd by (auto simp: process_update_def)
qed

text \<open>What the callers must guarantee of an event: the engine's contract, and that a manager
  reported destroyed has taken its entries with it.\<close>

fun event_ok :: "('e \<Rightarrow> (manager_token \<times> entry_id) set) \<Rightarrow> 'e pair_event \<Rightarrow> bool" where
  "event_ok live (Update eng m) = engine_contract live eng"
| "event_ok live (ManagerGone m g) = (\<forall>e. live (g e) \<subseteq> live e - {m} \<times> UNIV)"
| "event_ok live _ = True"

lemma acknowledge_tracked:
  assumes "live e' \<subseteq> live e - {m} \<times> UNIV" and "tracked live (s, e)"
  shows "tracked live (snd (acknowledge_manager_destroyed m s), e')"
  using assms by (auto simp: acknowledge_manager_destroyed_def tracked_def owned_entries_def)

interpretation tracked_pair: machine pair_step "\<lambda>(s, e). pair_inv s \<and> tracked live (s, e)"
  "event_ok live" for live
proof
  fix ev :: "'a pair_event" and se :: "pair_controller \<times> 'a"
  assume ok: "event_ok live ev" and inv: "case se of (s, e) \<Rightarrow> pair_inv s \<and> tracked live (s, e)"
  obtain s e where se: "se = (s, e)"
    by force
  have "case pair_step ev se of (s, _) \<Rightarrow> pair_inv s"
    using inv se by (intro pair.step_inv) auto
  moreover have "tracked live (pair_step ev se)"
  proof (cases ev)
    case (Update eng m)
    obtain ok s' e' where "process_update eng m (s, e) = (ok, s', e')"
      by (metis prod_cases3)
    with Update process_update_tracked [of live eng s e m ok s' e'] inv se \<open>event_ok live ev\<close>
    show ?thesis by simp
  next
    case (ManagerGone m g)
    then show ?thesis
      using acknowledge_tracked [of live "g e" e m s] ok inv se by simp
  qed (use inv se in \<open>auto simp: request_enable_def request_independent_pose_def
         request_disable_def cancel_uncreated_request_def tracked_def no_request_def\<close>)
  ultimately show "case pair_step ev se of (s, e) \<Rightarrow> pair_inv s \<and> tracked live (s, e)"
    by auto
qed

lemma initial_tracked: "live e = {} \<Longrightarrow> tracked live (initial_controller, e)"
  by (simp add: tracked_def)


subsection \<open>A working engine\<close>

text \<open>Every callback succeeds: the initializer leaves a descriptor the packer accepts, and while
  fewer than \<open>cap\<close> entries live each creation returns a fresh nonzero id.\<close>

definition engine_works ::
  "nat \<Rightarrow> ('e \<Rightarrow> (manager_token \<times> entry_id) set) \<Rightarrow>
   ('e \<Rightarrow> descriptor \<Rightarrow> bool \<times> descriptor \<times> 'e) \<Rightarrow>
   ('e \<Rightarrow> manager_token \<Rightarrow> descriptor \<Rightarrow> entry_id \<times> 'e) \<Rightarrow> bool" where
  "engine_works cap live ini cre \<longleftrightarrow>
     (\<forall>e. fst (ini e fresh_descriptor) \<and>
          fst (pack_mode_zero (fst (snd (ini e fresh_descriptor))) (replicate 16 0))) \<and>
     (\<forall>e m d. finite (live e) \<and> card (live e) < cap \<longrightarrow>
        fst (cre e m d) \<noteq> 0 \<and> (m, fst (cre e m d)) \<notin> live e)"

lemma pack_mode_zero_accepts: "fst (pack_mode_zero d k) = fst (pack_mode_zero d k')"
  by (simp add: pack_mode_zero_def Let_def)

lemma prepare_works:
  assumes "engine_works cap live ini cre"
  obtains d e1 where "prepare ini b k e = (None, d, e1)"
proof -
  obtain ok d e1 where i: "ini e fresh_descriptor = (ok, d, e1)"
    by (metis prod_cases3)
  have ok: "ok" "fst (pack_mode_zero d (replicate 16 0))"
    using assms i unfolding engine_works_def by (metis fst_conv, metis fst_conv snd_conv)
  then have "fst (pack_mode_zero d k)"
    using pack_mode_zero_accepts by blast
  moreover have "fst (pack_independent_pose d)"
    using ok(2) by (auto simp: pack_independent_pose_def split: prod.splits bool.splits)
  ultimately have "fst (if b then pack_independent_pose d else pack_mode_zero d k)"
    by simp
  then obtain d' where "(if b then pack_independent_pose d else pack_mode_zero d k) = (True, d')"
    by (metis (full_types) prod.collapse)
  then show ?thesis
    using that i ok(1) by (simp add: prepare_def)
qed

lemma create_views_works:
  assumes c: "engine_contract live eng" "cb_initialize eng = Some ini" "cb_create eng = Some cre"
      "cb_erase eng = Some era" and w: "engine_works cap live ini cre"
    and "creating i m s" and "i \<le> n" and "n \<le> kMaxOwnedViews"
    and "owned_entries m (pc_ids s) \<subseteq> live e"
    and "finite (live e)" and "card (live e) + (n - i) \<le> cap"
  shows "\<exists>s' e'. create_views ini cre era m [i..<n] (s, e) = (True, s', e') \<and>
      owned_entries m (pc_ids s) \<subseteq> owned_entries m (pc_ids s') \<and>
      live e' = live e \<union> owned_entries m (pc_ids s')"
  using assms(6-)
proof (induction "n - i" arbitrary: i s e)
  case 0
  then show ?case by auto
next
  case (Suc k)
  then have i: "i < n" "[i..<n] = i # [Suc i..<n]" and ni: "n - Suc i = k"
    by (auto simp: upt_conv_Cons)
  obtain d e1 where prep:
    "prepare ini (desired_independent_pose s) (desired_keys s ! i) e = (None, d, e1)"
    using prepare_works [OF w] by blast
  obtain eid e2 where cre: "cre e1 m d = (eid, e2)"
    by force
  have l1: "live e1 = live e"
    using prepare_engine [OF prep] engine_contractD(1) [OF c] by simp
  have fresh: "eid \<noteq> 0" "(m, eid) \<notin> live e"
  proof -
    have "finite (live e1)" "card (live e1) < cap"
      using l1 Suc.prems(5,6) i(1) by simp_all
    then have "fst (cre e1 m d) \<noteq> 0 \<and> (m, fst (cre e1 m d)) \<notin> live e1"
      using w unfolding engine_works_def by blast
    then show "eid \<noteq> 0" "(m, eid) \<notin> live e"
      using cre l1 by simp_all
  qed
  then have l2: "live e2 = insert (m, eid) (live e)"
    using engine_contractD(2) [OF c cre] l1 by simp
  have "i < kMaxOwnedViews"
    using i(1) Suc.prems(3) by simp
  have new: "\<not> list_ex (\<lambda>p. pc_ids s ! p = eid) [0..<i]"
  proof
    assume "list_ex (\<lambda>p. pc_ids s ! p = eid) [0..<i]"
    then obtain p where p: "p < i" "pc_ids s ! p = eid"
      by (auto simp: list_ex_iff)
    then have "eid \<in> set (pc_ids s)"
      using \<open>i < kMaxOwnedViews\<close> Suc.prems(1) unfolding creating_def
      by (metis nth_mem order.strict_trans)
    then show False
      using fresh Suc.prems(4) by (auto simp: owned_entries_def)
  qed
  let ?s1 = "(if i = 0 then s\<lparr>pc_owner := m\<rparr> else s)\<lparr>pc_ids := (pc_ids s)[i := eid]\<rparr>"
  have st: "creating (Suc i) m ?s1"
    using new Suc.prems(1) fresh \<open>i < kMaxOwnedViews\<close> by (intro creating_step)
  have "pc_ids s ! i = 0" "i < length (pc_ids s)"
    using Suc.prems(1) \<open>i < kMaxOwnedViews\<close> unfolding creating_def by (fastforce, simp)
  then have oe: "owned_entries m (pc_ids ?s1) = insert (m, eid) (owned_entries m (pc_ids s))"
    using fresh(1) by (simp add: owned_entries_add)
  have "owned_entries m (pc_ids ?s1) \<subseteq> live e2"
    using oe l2 Suc.prems(4) by auto
  moreover have "finite (live e2)" "card (live e2) + (n - Suc i) \<le> cap"
    using l2 fresh(2) Suc.prems(5,6) i(1) by simp_all
  ultimately obtain s' e' where *: "create_views ini cre era m [Suc i..<n] (?s1, e2) = (True, s', e')"
    "owned_entries m (pc_ids ?s1) \<subseteq> owned_entries m (pc_ids s')"
    "live e' = live e2 \<union> owned_entries m (pc_ids s')"
    using Suc.hyps(1) [OF ni [symmetric] st Suc_leI [OF i(1)] Suc.prems(3)] by blast
  have oes: "insert (m, eid) (owned_entries m (pc_ids s)) \<subseteq> owned_entries m (pc_ids s')"
    using *(2) oe by simp
  then have "live e' = live e \<union> owned_entries m (pc_ids s')"
    using *(3) l2 by auto
  then show ?case
    using *(1) oes prep cre fresh new i(2) by auto
qed


lemma clamp_feeds_bounds [simp]:
  "Suc 0 \<le> clamp_feeds n" "clamp_feeds n \<le> kMaxOwnedViews" "clamp_feeds (clamp_feeds n) = clamp_feeds n"
  by (auto simp: clamp_feeds_def kMaxOwnedViews_def)

lemma owned_count_creating:
  assumes "creating n m s" and "n \<le> kMaxOwnedViews"
  shows "owned_count (pc_ids s) = n"
proof -
  have len: "length (pc_ids s) = kMaxOwnedViews" and own: "k < kMaxOwnedViews \<Longrightarrow> pc_ids s ! k \<noteq> 0 \<longleftrightarrow> k < n" for k
    using assms(1) by (auto simp: creating_def)
  have "takeWhile (\<lambda>i. i \<noteq> 0) (pc_ids s) = take n (pc_ids s)"
    using len own assms(2) by (intro takeWhile_eq_take_P_nth) auto
  then show ?thesis
    using len assms(2) by (simp add: owned_count_def)
qed


lemma process_update_creates:
  assumes c: "engine_contract live eng" "cb_initialize eng = Some ini" "cb_create eng = Some cre"
      "cb_erase eng = Some era" and w: "engine_works cap live ini cre" and inv: "pair_inv s"
    and idle: "\<not> processing s" "\<not> has_owned_ids s" and m: "token_valid m"
    and rq: "rq_command (mailbox s) = EnableCommand"
    and cap: "finite (live e)" "card (live e) + kMaxOwnedViews \<le> cap"
  obtains s' e' where "process_update eng m (s, e) = (True, s', e')"
    and "sn_state (published s') = Active" and "pc_owner s' = m"
    and "owned_count (pc_ids s') = clamp_feeds (rq_feeds (mailbox s))"
    and "live e' = live e \<union> owned_entries m (pc_ids s')"
proof -
  let ?n = "clamp_feeds (rq_feeds (mailbox s))"
  let ?s0 = "apply_request (mailbox s) (s\<lparr>processing := True, mailbox := no_request\<rparr>)"
  have core: "pair_core ?s0"
    using inv by (intro apply_request_core) (simp add: pair_inv_def)
  have none: "\<not> has_owned_ids ?s0"
    using idle(2) by (simp add: has_owned_ids_def)
  have "\<not> active_pair s"
    using inv idle(2) core_inactive by (simp add: pair_inv_def)
  then have rs: "desired_enabled ?s0" "creation_pending ?s0" "desired_feeds ?s0 = ?n"
    using rq by (simp_all add: apply_request_def Let_def)
  let ?s1 = "?s0\<lparr>creation_pending := False, pc_ids := replicate kMaxOwnedViews 0, owned_feeds := 0\<rparr>"
  have cr: "creating 0 m ?s1"
    using creating_start [OF core none m] .
  have "owned_entries m (pc_ids ?s1) \<subseteq> live e"
    by (simp add: owned_entries_none)
  moreover have "card (live e) + (?n - 0) \<le> cap"
    using cap(2) clamp_feeds_bounds(2) [of "rq_feeds (mailbox s)"] by linarith
  ultimately obtain s2 e2 where run: "create_views ini cre era m [0..<?n] (?s1, e) = (True, s2, e2)"
    and live: "live e2 = live e \<union> owned_entries m (pc_ids s2)"
    using create_views_works [OF c w cr, of ?n e] cap(1) by auto
  have fin: "creating ?n m s2"
    using create_views_inv [OF cr _ _ run] by simp
  have "pc_owner s2 = m"
    using fin clamp_feeds_bounds(1) [of "rq_feeds (mailbox s)"] by (auto simp: creating_def)
  moreover have "owned_count (pc_ids s2) = ?n"
    using owned_count_creating [OF fin] by simp
  moreover have "process_update eng m (s, e) = (True, publish Active NotBlocked
      (s2\<lparr>owned_keys := desired_keys s2, owned_independent_pose := desired_independent_pose s2,
         owned_feeds := desired_feeds s2, active_pair := True\<rparr>)\<lparr>processing := False\<rparr>, e2)"
    using idle(1) none m c(2-4) rs run
    by (simp add: process_update_def update_owned_def start_creation_def)
  ultimately show ?thesis
    using that live by (simp add: publish_def)
qed

subsection \<open>Draining\<close>

lemma erase_fold_drains:
  assumes "\<And>e m i. fst (era e m i)" and "n \<le> length ids"
  shows "fst (fold (erase_slot era m) (rev [0..<n]) (ids, e)) = replicate n 0 @ drop n ids"
  using assms(2)
proof (induction n arbitrary: ids e)
  case 0
  then show ?case by simp
next
  case (Suc n)
  obtain ids1 e1 where step: "erase_slot era m n (ids, e) = (ids1, e1)"
    by force
  have "ids ! n = 0 \<Longrightarrow> ids[n := 0] = ids"
    by (metis list_update_id)
  then have ids1: "ids1 = ids[n := 0]"
    using step assms(1) [of e m "ids ! n"] by (auto simp: erase_slot_def split: if_splits prod.splits)
  have "drop n (ids[n := 0]) = 0 # drop (Suc n) ids"
    using Suc.prems by (simp add: Cons_nth_drop_Suc [symmetric])
  then show ?case
    using Suc.IH [of ids1 e1] Suc.prems step ids1 by (simp add: replicate_append_same [symmetric])
qed

lemma cleanup_drains:
  assumes "\<And>e m i. fst (era e m i)" and "cleanup era (s, e) = (s', e')"
  shows "\<not> has_owned_ids s'"
  using assms(2) erase_fold_drains [of era "length (pc_ids s)" "pc_ids s" "pc_owner s" e, OF assms(1)]
  by (auto simp: cleanup_def Let_def has_owned_ids_def split: if_splits prod.splits)


lemma start_creation_idle:
  "\<not> creation_pending s \<Longrightarrow> start_creation ini cre era m (s, e) = (publish_idle s, e)"
  by (simp add: start_creation_def)

lemma update_owned_idle:
  assumes "\<not> creation_pending s" and "cb_create eng \<noteq> None"
  shows "update_owned eng m (s, e) = update_owned (eng\<lparr>cb_create := Some c\<rparr>) m (s, e)"
proof (cases "cb_erase eng")
  case None
  then show ?thesis
    using assms by (auto simp: update_owned_def split: option.splits)
next
  case (Some era)
  obtain s1 e1 where cl: "cleanup era (s, e) = (s1, e1)"
    by force
  have "\<not> creation_pending s1"
    using cleanup_frame(11) [OF cl] assms(1) by simp
  with Some assms cl show ?thesis
    by (auto simp: update_owned_def start_creation_idle split: option.splits)
qed

lemma apply_request_disable:
  "rq_command r = DisableCommand \<Longrightarrow> apply_request r s =
     s\<lparr>desired_enabled := False, creation_pending := False, pc_failure := NoFailure\<rparr>"
  by (simp add: apply_request_def)

subsection \<open>An engine to evaluate\<close>

text \<open>The engine whose state is the list of live entries; it gives out the first free id of five.\<close>

definition list_initialize :: "'e \<Rightarrow> descriptor \<Rightarrow> bool \<times> descriptor \<times> 'e" where
  "list_initialize e d = (True, d, e)"

definition list_create ::
  "(manager_token \<times> entry_id) list \<Rightarrow> manager_token \<Rightarrow> descriptor \<Rightarrow>
   entry_id \<times> (manager_token \<times> entry_id) list" where
  "list_create e m d =
     (case find (\<lambda>i. (m, i) \<notin> set e) [1, 2, 3, 4, 5] of
        None \<Rightarrow> (0, e) | Some i \<Rightarrow> (i, (m, i) # e))"

definition list_erase ::
  "(manager_token \<times> entry_id) list \<Rightarrow> manager_token \<Rightarrow> entry_id \<Rightarrow>
   bool \<times> (manager_token \<times> entry_id) list" where
  "list_erase e m i = (True, removeAll (m, i) e)"

definition list_engine :: "(manager_token \<times> entry_id) list engine_callbacks" where
  "list_engine = \<lparr>cb_initialize = Some list_initialize, cb_create = Some list_create,
     cb_erase = Some list_erase\<rparr>"

abbreviation demo_manager :: manager_token where
  "demo_manager \<equiv> \<lparr>mt_identity = 7, mt_generation = 1\<rparr>"

lemma list_engine_contract: "engine_contract set list_engine"
  by (auto simp: engine_contract_def list_engine_def list_initialize_def list_create_def
      list_erase_def split: option.splits dest: find_SomeD)

lemma list_engine_works: "engine_works 5 set list_initialize list_create"
proof -
  have "fst (list_create e m d) \<noteq> 0 \<and> (m, fst (list_create e m d)) \<notin> set e"
    if "card (set e) < 5" for e m d
  proof (cases "find (\<lambda>i. (m, i) \<notin> set e) [1, 2, 3, 4, 5]")
    case None
    then have "(m, i) \<in> set e" if "i \<in> {1, 2, 3, 4, 5}" for i
      using that unfolding find_None_iff by auto
    then have "Pair m ` {1, 2, 3, 4, 5 :: u64} \<subseteq> set e"
      by auto
    then have "card (Pair m ` {1, 2, 3, 4, 5 :: u64}) \<le> card (set e)"
      by (intro card_mono) simp_all
    with that show ?thesis
      by (simp add: card_image inj_on_def)
  next
    case (Some i)
    then have "i \<in> {1, 2, 3, 4, 5}" "(m, i) \<notin> set e"
      using find_SomeD [OF Some] by auto
    with Some show ?thesis
      by (auto simp: list_create_def simp del: find.simps)
  qed
  then show ?thesis
    by (simp add: engine_works_def list_initialize_def fresh_descriptor_def pack_mode_zero_def
        zero_dword_def Let_def list_all_iff)
qed

subsection \<open>Properties\<close>

text \<open>C1: In every run of requests, updates with any engine, cancellations and manager deaths, the
  controller's fields stay consistent and its published snapshot is them: four slots, no id in
  two slots, an owner exactly while ids are held, an active pair complete, a published Active
  state only for an active pair without a failure or a pending creation.\<close>

theorem pair_run_consistent:
  "pair_inv (fst (fold pair_step evs (initial_controller, e)))"
proof -
  have "case fold pair_step evs (initial_controller, e) of (s, _) \<Rightarrow> pair_inv s"
    by (rule pair.run_inv) (simp_all add: list.pred_True initial_pair_inv)
  then show ?thesis
    by (simp add: case_prod_unfold)
qed

text \<open>C2: No native entry escapes: when the engine keeps its contract and a destroyed manager's
  entries are gone, every live native entry is one the controller still holds, under the manager
  that created it, whatever failed in between (initializer, creation, duplicate id, erase).\<close>

theorem no_entry_escapes:
  assumes "list_all (event_ok live) evs" and "live e = {}"
  shows "case fold pair_step evs (initial_controller, e) of
           (s, e') \<Rightarrow> live e' \<subseteq> owned_entries (pc_owner s) (pc_ids s)"
proof -
  have "case fold pair_step evs (initial_controller, e) of
      (s, e') \<Rightarrow> pair_inv s \<and> tracked live (s, e')"
    by (rule tracked_pair.run_inv [OF assms(1)]) (simp add: initial_pair_inv initial_tracked assms(2))
  then show ?thesis
    by (auto simp: tracked_def)
qed

theorem no_entry_escapes_witness:
  "case fold pair_step [EnablePose 3, Update list_engine demo_manager, RequestDisable,
        Update list_engine demo_manager] (initial_controller, []) of
     (s, e') \<Rightarrow> set e' \<subseteq> owned_entries (pc_owner s) (pc_ids s)"
  using list_engine_contract
  by (intro no_entry_escapes [where live = set]) simp_all

text \<open>C3: An enable request with a working engine and a live manager makes the pair active in one
  update, with exactly the requested number of views (clamped to one to four), all owned by that
  manager, and adds exactly these entries to the engine.\<close>

theorem enable_activates:
  assumes "engine_contract live eng" and "cb_initialize eng = Some ini"
    and "cb_create eng = Some cre" and "cb_erase eng = Some era"
    and "engine_works cap live ini cre" and "pair_inv s" and "\<not> processing s"
    and "\<not> has_owned_ids s" and "token_valid m"
    and "finite (live e)" and "card (live e) + kMaxOwnedViews \<le> cap"
  shows "\<exists>s' e'. process_update eng m (request_independent_pose n s, e) = (True, s', e') \<and>
    sn_state (snapshot s') = Active \<and> sn_owner (snapshot s') = m \<and>
    owned_count (sn_owned_ids (snapshot s')) = clamp_feeds n \<and>
    live e' = live e \<union> owned_entries m (sn_owned_ids (snapshot s'))"
proof -
  let ?r = "request_independent_pose n s"
  have r: "pair_inv ?r" "\<not> processing ?r" "\<not> has_owned_ids ?r"
    "rq_command (mailbox ?r) = EnableCommand" "rq_feeds (mailbox ?r) = clamp_feeds n"
    using assms by (simp_all add: request_independent_pose_def has_owned_ids_def)
  obtain s' e' where *: "process_update eng m (?r, e) = (True, s', e')"
    "sn_state (published s') = Active" "pc_owner s' = m"
    "owned_count (pc_ids s') = clamp_feeds n" "live e' = live e \<union> owned_entries m (pc_ids s')"
    using process_update_creates [OF assms(1-5) r(1-3) assms(9) r(4) assms(10,11)] r(5) by auto
  have "pair_inv s'"
    using process_update_inv [OF r(1) *(1)] by simp
  with * show ?thesis
    by (intro exI [of _ s'] exI [of _ e']) (simp add: snapshot_def pair_inv_def pair_pub_def)
qed

text \<open>C4: After a disable request, one update whose erases are confirmed leaves the controller
  disabled with no id and no owner, and the engine with no live entry.\<close>

theorem disable_drains:
  assumes "engine_contract live eng" and "cb_initialize eng \<noteq> None" and "cb_create eng \<noteq> None"
    and "cb_erase eng = Some era" and "\<And>e m i. fst (era e m i)"
    and "pair_inv s" and "tracked live (s, e)" and "\<not> processing s" and "m = pc_owner s"
  shows "\<exists>s' e'. process_update eng m (request_disable s, e) = (True, s', e') \<and>
    sn_state (snapshot s') = Disabled \<and> \<not> any_owned (pc_ids s') \<and> pc_owner s' = no_manager \<and>
    live e' = {}"
proof -
  let ?r = "request_disable s"
  let ?s0 = "apply_request (mailbox ?r) (?r\<lparr>processing := True, mailbox := no_request\<rparr>)"
  have s0: "\<not> creation_pending ?s0" "pc_failure ?s0 = NoFailure" "\<not> desired_enabled ?s0"
    "pc_ids ?s0 = pc_ids s" "pc_owner ?s0 = pc_owner s"
    by (simp_all add: request_disable_def apply_request_disable)
  have own: "has_owned_ids ?s0 = has_owned_ids s"
    by (simp add: request_disable_def has_owned_ids_def)
  obtain ok s' e' where upd: "process_update eng m (?r, e) = (ok, s', e')"
    by (metis prod_cases3)
  have inv': "pair_inv s'"
    using process_update_inv [OF _ upd] assms(6) by simp
  have "tracked live (?r, e)"
    using assms(7) by (simp add: request_disable_def)
  from process_update_tracked [OF assms(1) _ this upd] assms(6) have tr: "tracked live (s', e')"
    by simp
  obtain s1 e1 where cl: "cleanup era (?s0, e) = (s1, e1)"
    by force
  note f = cleanup_frame [OF cl]
  have dis: "\<not> creation_pending s1" "pc_failure s1 = NoFailure" "\<not> desired_enabled s1"
    using f s0 by simp_all
  have "\<not> has_owned_ids s1"
    using cleanup_drains [OF assms(5) cl] .
  have m: "has_owned_ids s \<Longrightarrow> token_valid m"
    using assms(6,9) by (simp add: pair_inv_def pair_core_def)
  have "ok \<and> sn_state (published s') = Disabled \<and> \<not> has_owned_ids s'"
  proof (cases "has_owned_ids s")
    case True
    then have "s' = publish_idle s1\<lparr>processing := False\<rparr>" "ok"
      using upd assms(2-4,8,9) own s0 dis m cl \<open>\<not> has_owned_ids s1\<close>
      by (auto simp: process_update_def update_owned_def start_creation_idle request_disable_def)
    then show ?thesis
      using \<open>\<not> has_owned_ids s1\<close> dis(2) by (simp add: publish_idle_def publish_def has_owned_ids_def)
  next
    case False
    then have "s' = publish_idle ?s0\<lparr>processing := False\<rparr>" "ok"
      using upd assms(8) own s0 by (auto simp: process_update_def update_owned_def request_disable_def)
    then show ?thesis
      using False s0(2) by (simp add: publish_idle_def publish_def has_owned_ids_def request_disable_def)
  qed
  moreover from this have "live e' = {}" "pc_owner s' = no_manager"
    using tr inv' by (auto simp: tracked_def owned_entries_none has_owned_ids_def pair_inv_def pair_core_def)
  ultimately show ?thesis
    using upd by (auto simp: snapshot_def any_owned_def has_owned_ids_def)
qed


theorem enable_activates_witness:
  "\<exists>s' e'. process_update list_engine demo_manager
        (request_independent_pose 3 initial_controller, []) = (True, s', e') \<and>
     sn_state (snapshot s') = Active \<and> sn_owner (snapshot s') = demo_manager \<and>
     owned_count (sn_owned_ids (snapshot s')) = clamp_feeds 3 \<and>
     set e' = set [] \<union> owned_entries demo_manager (sn_owned_ids (snapshot s'))"
  by (rule enable_activates [where cap = 5 and live = set and ini = list_initialize
        and cre = list_create and era = list_erase])
    (simp_all add: list_engine_contract list_engine_works initial_pair_inv,
     simp_all add: list_engine_def token_valid_def initial_controller_def has_owned_ids_def
       kMaxOwnedViews_def)

definition demo_active :: "pair_controller \<times> (manager_token \<times> entry_id) list" where
  "demo_active = fold pair_step [EnablePose 2, Update list_engine demo_manager] (initial_controller, [])"

theorem disable_drains_witness:
  "\<exists>s' e'. process_update list_engine demo_manager (request_disable (fst demo_active), snd demo_active) =
       (True, s', e') \<and>
     sn_state (snapshot s') = Disabled \<and> \<not> any_owned (pc_ids s') \<and> pc_owner s' = no_manager \<and>
     set e' = {}"
proof (rule disable_drains [where live = set and era = list_erase])
  have "case demo_active of (s, e) \<Rightarrow> pair_inv s \<and> tracked set (s, e)"
    unfolding demo_active_def
    by (rule tracked_pair.run_inv) (simp_all add: list_engine_contract initial_pair_inv initial_tracked)
  then show "pair_inv (fst demo_active)" "tracked set (fst demo_active, snd demo_active)"
    by (simp_all add: case_prod_unfold)
  show "demo_manager = pc_owner (fst demo_active)"
    by code_simp
  show "\<not> processing (fst demo_active)"
    by code_simp
qed (simp add: list_engine_contract, simp_all add: list_engine_def list_erase_def)

text \<open>While views are owned, an update under another manager, or under an invalid one, leaves
  the engine, the ids and their owner untouched and publishes the blocked state: a stale manager
  never erases or creates.\<close>

theorem foreign_manager_blocked:
  assumes "has_owned_ids s" and "\<not> processing s" and "m \<noteq> pc_owner s \<or> \<not> token_valid m"
    and "process_update eng m (s, e) = (ok, s', e')"
  shows "ok \<and> e' = e \<and> pc_ids s' = pc_ids s \<and> pc_owner s' = pc_owner s \<and>
    sn_state (published s') = BlockedState"
proof -
  let ?s0 = "apply_request (mailbox s) (s\<lparr>processing := True, mailbox := no_request\<rparr>)"
  have "has_owned_ids ?s0" "pc_owner ?s0 = pc_owner s" "pc_ids ?s0 = pc_ids s"
    using assms(1) by (simp_all add: has_owned_ids_def)
  then show ?thesis
    using assms(2-4)
    by (auto simp: process_update_def update_owned_def publish_def split: if_splits)
qed

theorem foreign_manager_blocked_witness:
  "case process_update list_engine \<lparr>mt_identity = 7, mt_generation = 2\<rparr> demo_active of
     (ok, s', e') \<Rightarrow> ok \<and> e' = snd demo_active \<and> pc_ids s' = pc_ids (fst demo_active) \<and>
       pc_owner s' = pc_owner (fst demo_active) \<and> sn_state (published s') = BlockedState"
proof -
  let ?m = "\<lparr>mt_identity = 7, mt_generation = 2\<rparr> :: manager_token"
  obtain ok s' e' where upd:
    "process_update list_engine ?m (fst demo_active, snd demo_active) = (ok, s', e')"
    by (metis prod_cases3)
  have 1: "has_owned_ids (fst demo_active)"
    by code_simp
  have 2: "\<not> processing (fst demo_active)"
    by code_simp
  have 3: "?m \<noteq> pc_owner (fst demo_active)"
    by code_simp
  from foreign_manager_blocked [OF 1 2 disjI1 [OF 3] upd] upd show ?thesis
    by simp
qed

text \<open>Failures consume the creation request: once no creation is pending and no enable request
  waits, an update behaves the same whatever the engine's create callback does, so only a new
  enable creates again.\<close>

theorem no_creation_without_request:
  assumes "\<not> creation_pending s" and "rq_command (mailbox s) \<noteq> EnableCommand"
    and "cb_create eng \<noteq> None"
  shows "process_update eng m (s, e) = process_update (eng\<lparr>cb_create := Some c\<rparr>) m (s, e)"
proof -
  have "\<not> creation_pending (apply_request (mailbox s) (s\<lparr>processing := True, mailbox := no_request\<rparr>))"
    using assms(1,2) by (simp add: apply_request_def split: pair_command.splits)
  from update_owned_idle [OF this assms(3)] show ?thesis
    by (simp add: process_update_def)
qed

theorem no_creation_without_request_witness:
  "process_update list_engine demo_manager demo_active =
   process_update (list_engine\<lparr>cb_create := Some (\<lambda>e m d. (9, (m, 9) # e))\<rparr>) demo_manager demo_active"
proof -
  have 1: "\<not> creation_pending (fst demo_active)"
    by code_simp
  have 2: "rq_command (mailbox (fst demo_active)) \<noteq> EnableCommand"
    by code_simp
  have 3: "cb_create list_engine \<noteq> None"
    by (simp add: list_engine_def)
  from no_creation_without_request [OF 1 2 3] show ?thesis
    by (metis prod.collapse)
qed

end
