(* ===== verification/Owned_View.thy ===== *)
theory Owned_View
  imports Entry_Pair
begin

text \<open>
  What an inspection of an owned camera view reports: \<open>OwnedViewSnapshot\<close> of
  \<open>src/camera/owned_view.hpp\<close>, and the output admission of \<open>src/camera/view_output.hpp\<close>.
  The snapshot's \<open>float\<close> field of view is kept as its IEEE-754 bit pattern; \<open>std::isfinite\<close>
  and the comparison with zero read the bits.  The byte counters and the error text are kept
  because recovery policies read them.
\<close>

datatype owned_view_status =
  OvNotInspected | OvPending | OvReady | OvInvalidRequest | OvInvalidPool | OvInvalidPointer
| OvIdMismatch | OvInvalidReadyByte | OvInvalidViewIndex | OvPoolChanged | OvNodeUnavailable
| OvNodeMismatch | OvWrongCameraType | OvInvalidFov | OvMaterialMismatch | OvReadFailed | OvChanged
| OvReadBudgetExhausted

record output_slot =
  os_bitmap :: bool
  os_texture :: bool
  os_render_target_record :: bool

definition no_output_slot :: output_slot where
  "no_output_slot = \<lparr>os_bitmap = False, os_texture = False, os_render_target_record = False\<rparr>"

definition slot_mask :: "output_slot \<Rightarrow> u32" where
  "slot_mask s = (if os_bitmap s then 1 else 0) OR (if os_texture s then 2 else 0) OR
     (if os_render_target_record s then 4 else 0)"

type_synonym dimension = "32 word \<times> 32 word"

record owned_view =
  ov_complete :: bool
  ov_ready :: bool
  ov_status :: owned_view_status
  ov_error :: string
  ov_read_bytes :: u32
  ov_read_failures :: u32
  ov_view_index :: int
  ov_mode :: u32
  ov_view_address :: u64
  ov_node_address :: u64
  ov_camera_address :: u64
  ov_resource_address :: u64
  ov_fov :: u32
  ov_dimensions :: "dimension list"
  ov_output_dimensions :: dimension
  ov_flags :: "u64 list"
  ov_resource_present :: bool
  ov_output_slots :: "output_slot list"
  ov_diagnostic_slots_observed :: bool

definition no_view :: owned_view where
  "no_view = \<lparr>ov_complete = False, ov_ready = False, ov_status = OvNotInspected, ov_error = '''',
     ov_read_bytes = 0, ov_read_failures = 0, ov_view_index = - 1, ov_mode = 0,
     ov_view_address = 0, ov_node_address = 0, ov_camera_address = 0, ov_resource_address = 0,
     ov_fov = 0, ov_dimensions = replicate 3 (0, 0), ov_output_dimensions = (0, 0),
     ov_flags = [0, 0], ov_resource_present = False,
     ov_output_slots = replicate 3 no_output_slot, ov_diagnostic_slots_observed = False\<rparr>"

definition float_finite :: "u32 \<Rightarrow> bool" where
  "float_finite b \<longleftrightarrow> b AND 0x7F800000 \<noteq> 0x7F800000"

definition float_positive :: "u32 \<Rightarrow> bool" where
  "float_positive b \<longleftrightarrow> \<not> bit b 31 \<and> b \<noteq> 0"

text \<open>Bit 0 of the first flag word: the render gate is closed.\<close>

definition gate_closed :: "owned_view \<Rightarrow> bool" where
  "gate_closed v \<longleftrightarrow> bit (ov_flags v ! 0) 0"

text \<open>Output admission (\<open>view_output.hpp\<close>).\<close>

definition owned_view_pane_output :: "owned_view \<Rightarrow> dimension list \<Rightarrow> bool" where
  "owned_view_pane_output v requested \<longleftrightarrow>
     ov_complete v \<and> ov_ready v \<and> ov_status v = OvReady \<and> ov_mode v = 2 \<and> ov_resource_present v \<and>
     ov_resource_address v \<noteq> 0 \<and> ov_dimensions v = requested \<and>
     ov_output_dimensions v = requested ! 0"

definition owned_view_render_target_ready :: "owned_view \<Rightarrow> bool" where
  "owned_view_render_target_ready v \<longleftrightarrow>
     os_bitmap (ov_output_slots v ! 0) \<and> os_texture (ov_output_slots v ! 0) \<and>
     os_render_target_record (ov_output_slots v ! 0)"

definition owned_view_output_ready :: "owned_view \<Rightarrow> dimension list \<Rightarrow> bool" where
  "owned_view_output_ready v requested \<longleftrightarrow>
     owned_view_pane_output v requested \<and> owned_view_render_target_ready v"

definition owned_view_slot_digits :: "owned_view \<Rightarrow> u32" where
  "owned_view_slot_digits v = push_bit 8 (slot_mask (ov_output_slots v ! 0)) OR
     push_bit 4 (slot_mask (ov_output_slots v ! 1)) OR slot_mask (ov_output_slots v ! 2)"

text \<open>The number of views a set is judged on: its leading owned ids, at least two.\<close>

definition feed_count :: "owned_ids \<Rightarrow> nat" where
  "feed_count ids = max 2 (owned_count ids)"

lemma owned_count_le: "owned_count ids \<le> length ids"
  by (simp add: owned_count_def length_takeWhile_le)

lemma distinct_owned_any: "length ids = kMaxOwnedViews \<Longrightarrow> distinct_owned ids \<Longrightarrow> any_owned ids"
  by (auto simp: distinct_owned_def any_owned_def list_ex_length kMaxOwnedViews_def intro!: exI [of _ 0])

end
