(* ===== verification/Scene_Recovery.thy ===== *)
theory Scene_Recovery
  imports Owned_View
begin

text \<open>
  What happens after the camera scene stops: the retry budget of \<open>SceneRecovery\<close>
  (\<open>src/camera/scene_recovery.hpp\<close>), the flight reset that waits until old cameras are gone
  (\<open>SceneSessionReset\<close>, \<open>scene_session_reset.hpp\<close>) and the creation deferred by a full pool
  (\<open>ViewCreationWait\<close>, \<open>view_creation_wait.hpp\<close>).  All three rely on the pair controller
  through the interface \<open>pair_ownership\<close>, which the controller's model interprets.
\<close>

subsection \<open>What the policies rely on\<close>

definition snapshot_empty :: "pair_snapshot \<Rightarrow> bool" where
  "snapshot_empty p \<longleftrightarrow> \<not> token_valid (sn_owner p) \<and> \<not> any_owned (sn_owned_ids p) \<and>
     \<not> sn_request_pending p \<and> \<not> sn_creation_pending p"

locale pair_ownership =
  fixes cancel :: "'p \<Rightarrow> empty_pair_cancel \<times> 'p"
    and snap :: "'p \<Rightarrow> pair_snapshot"
    and inv :: "'p \<Rightarrow> bool"
  assumes cancel_keeps: "inv p \<Longrightarrow> inv (snd (cancel p))"
    and cancel_done: "inv p \<Longrightarrow> cancel p = (Cancelled, p') \<Longrightarrow>
      \<not> any_owned (sn_owned_ids (snap p)) \<and> snapshot_empty (snap p')"
    and cancel_refused: "cancel p = (r, p') \<Longrightarrow> r \<noteq> Cancelled \<Longrightarrow> p' = p"

subsection \<open>ViewCreationWait\<close>

record creation_wait =
  cw_pending :: bool
  cw_revision :: u64

definition initial_creation_wait :: creation_wait where
  "initial_creation_wait = \<lparr>cw_pending = False, cw_revision = 0\<rparr>"

definition cw_defer :: "u64 \<Rightarrow> creation_wait \<Rightarrow> creation_wait" where
  "cw_defer revision w = \<lparr>cw_pending = True, cw_revision = revision\<rparr>"

text \<open>The pair's \<open>cancel_uncreated_request\<close> is the first argument.\<close>

definition cw_resume ::
  "('p \<Rightarrow> empty_pair_cancel \<times> 'p) \<Rightarrow> u64 \<Rightarrow> bool \<Rightarrow> bool \<Rightarrow> 'p \<times> creation_wait \<Rightarrow>
   bool \<times> 'p \<times> creation_wait" where
  "cw_resume cancel revision requested may_resume = (\<lambda>(p, w).
     if \<not> cw_pending w then (False, p, w)
     else if revision \<noteq> cw_revision w \<or> \<not> requested then (False, p, w\<lparr>cw_pending := False\<rparr>)
     else if \<not> may_resume then (False, p, w)
     else (case cancel p of
             (Cancelled, p') \<Rightarrow> (True, p', w\<lparr>cw_pending := False\<rparr>)
           | (_, p') \<Rightarrow> (False, p', w)))"

subsection \<open>SceneSessionReset\<close>

record session_reset =
  sr_profile :: u32
  sr_retired :: bool

definition initial_session_reset :: session_reset where
  "initial_session_reset = \<lparr>sr_profile = 0, sr_retired = False\<rparr>"

definition work_allowed :: "bool \<Rightarrow> u64 \<Rightarrow> u64 \<Rightarrow> bool \<Rightarrow> bool" where
  "work_allowed reset_requested authorized_epoch public_epoch public_ready \<longleftrightarrow>
     \<not> reset_requested \<and> authorized_epoch = public_epoch \<and> public_ready"

definition observer_can_retire :: "bool \<Rightarrow> bool \<Rightarrow> bool" where
  "observer_can_retire hooked enabled \<longleftrightarrow> hooked \<and> enabled"

definition acknowledge_empty_without_observer :: "bool \<Rightarrow> bool \<Rightarrow> bool" where
  "acknowledge_empty_without_observer hooked observer_enabled \<longleftrightarrow>
     \<not> observer_can_retire hooked observer_enabled"

definition reset_holding :: "session_reset \<Rightarrow> bool" where
  "reset_holding s \<longleftrightarrow> sr_profile s \<noteq> 0"

definition reset_begin :: "u32 \<Rightarrow> session_reset \<Rightarrow> session_reset" where
  "reset_begin profile s = \<lparr>sr_profile = profile, sr_retired = False\<rparr>"

definition reset_observe_empty ::
  "empty_pair_cancel \<Rightarrow> pair_snapshot \<Rightarrow> session_reset \<Rightarrow> session_reset" where
  "reset_observe_empty cancelled pair s =
     (if reset_holding s \<and> cancelled = Cancelled \<and> snapshot_empty pair
      then s\<lparr>sr_retired := True\<rparr> else s)"

definition reset_ready :: "bool \<Rightarrow> pair_snapshot \<Rightarrow> session_reset \<Rightarrow> bool" where
  "reset_ready public_ready pair s \<longleftrightarrow>
     reset_holding s \<and> sr_retired s \<and> public_ready \<and> snapshot_empty pair"

definition reset_consume :: "bool \<Rightarrow> pair_snapshot \<Rightarrow> session_reset \<Rightarrow> bool \<times> session_reset" where
  "reset_consume public_ready pair s =
     (if \<not> reset_ready public_ready pair s then (False, s)
      else (True, \<lparr>sr_profile = 0, sr_retired = False\<rparr>))"

subsection \<open>SceneRecovery\<close>

datatype scene_stop_reason =
  NoStop | ExplicitStop | InspectionUnavailable | OwnedEntryAbsent | ResolutionChanged
| CaptureStalled | IdentityRefused | PoseInvalid | CreationFailed | ExceptionStop

definition scene_stop_reason_name :: "scene_stop_reason \<Rightarrow> string" where
  "scene_stop_reason_name reason = (case reason of
     NoStop \<Rightarrow> ''none'' | ExplicitStop \<Rightarrow> ''explicit_stop''
   | InspectionUnavailable \<Rightarrow> ''inspection_unavailable'' | OwnedEntryAbsent \<Rightarrow> ''owned_entry_absent''
   | ResolutionChanged \<Rightarrow> ''resolution_changed'' | CaptureStalled \<Rightarrow> ''capture_stalled''
   | IdentityRefused \<Rightarrow> ''identity_refused'' | PoseInvalid \<Rightarrow> ''pose_invalid''
   | CreationFailed \<Rightarrow> ''creation_failed'' | ExceptionStop \<Rightarrow> ''exception'')"

definition retryable_scene_stop :: "scene_stop_reason \<Rightarrow> bool" where
  "retryable_scene_stop r \<longleftrightarrow> r = InspectionUnavailable \<or> r = OwnedEntryAbsent"

definition latched_scene_stop :: "scene_stop_reason \<Rightarrow> bool" where
  "latched_scene_stop r \<longleftrightarrow> r = IdentityRefused \<or> r = CreationFailed"

text \<open>A null reason pointer is \<open>None\<close>.\<close>

definition temporary_pose_unavailable :: "string option \<Rightarrow> bool" where
  "temporary_pose_unavailable r \<longleftrightarrow> (case r of None \<Rightarrow> False | Some t \<Rightarrow>
     t = ''telemetry_busy'' \<or> t = ''aircraft_telemetry_stale'' \<or> t = ''camera_telemetry_stale'' \<or>
     t = ''not_initialized'' \<or> t = ''aircraft_session_changed'')"

definition outside_local_calibration_radius :: "string option \<Rightarrow> bool" where
  "outside_local_calibration_radius r \<longleftrightarrow> r = Some ''outside_local_calibration_radius''"

definition retain_pair_for_recalibration :: "bool \<Rightarrow> bool \<Rightarrow> bool \<Rightarrow> bool" where
  "retain_pair_for_recalibration stale_local retained_recalibration calibration_pending \<longleftrightarrow>
     stale_local \<or> (retained_recalibration \<and> calibration_pending)"

definition maximum_retries :: nat where "maximum_retries = 3"
definition retry_delay_ms :: u64 where "retry_delay_ms = 2000"

record recovery =
  rc_requested :: bool
  rc_pending :: bool
  rc_attempts :: nat
  rc_sequence :: u64
  rc_stopped_at :: u64
  rc_healthy_since :: u64
  rc_last_progress :: u64
  rc_reason :: scene_stop_reason

definition initial_recovery :: recovery where
  "initial_recovery = \<lparr>rc_requested = False, rc_pending = False, rc_attempts = 0, rc_sequence = 0,
     rc_stopped_at = 0, rc_healthy_since = 0, rc_last_progress = 0, rc_reason = NoStop\<rparr>"

definition rc_start :: "recovery \<Rightarrow> recovery" where
  "rc_start s = s\<lparr>rc_requested := True, rc_pending := False, rc_attempts := 0, rc_reason := NoStop,
     rc_healthy_since := 0, rc_last_progress := 0\<rparr>"

definition rc_stop :: "recovery \<Rightarrow> recovery" where
  "rc_stop s = s\<lparr>rc_requested := False, rc_pending := False, rc_reason := ExplicitStop,
     rc_sequence := rc_sequence s + 1\<rparr>"

definition rc_failed :: "scene_stop_reason \<Rightarrow> u64 \<Rightarrow> recovery \<Rightarrow> recovery" where
  "rc_failed reason now s =
     (if latched_scene_stop (rc_reason s) \<and> reason \<noteq> rc_reason s then s
      else if rc_pending s \<and> rc_reason s = reason then s
      else s\<lparr>rc_reason := reason, rc_stopped_at := now, rc_healthy_since := 0,
             rc_last_progress := 0,
             rc_pending := rc_requested s \<and> retryable_scene_stop reason \<and>
               rc_attempts s < maximum_retries,
             rc_sequence := rc_sequence s + 1\<rparr>)"

definition rc_retry :: "u64 \<Rightarrow> pair_snapshot \<Rightarrow> bool \<Rightarrow> recovery \<Rightarrow> bool \<times> recovery" where
  "rc_retry now pair fresh_pose s =
     (if \<not> rc_requested s \<or> \<not> rc_pending s \<or> \<not> fresh_pose \<or> now < rc_stopped_at s \<or>
         now - rc_stopped_at s < retry_delay_ms \<or> any_owned (sn_owned_ids pair) \<or>
         sn_request_pending pair \<or> sn_creation_pending pair \<or> sn_state pair \<noteq> Disabled \<or>
         sn_failure pair \<noteq> NoFailure \<or> sn_blocked pair \<noteq> NotBlocked
      then (False, s)
      else (True, s\<lparr>rc_pending := False, rc_attempts := rc_attempts s + 1\<rparr>))"

definition rc_resumed_retained_resolution :: "recovery \<Rightarrow> recovery" where
  "rc_resumed_retained_resolution s =
     (if rc_requested s \<and> \<not> rc_pending s \<and> rc_reason s = ResolutionChanged
      then s\<lparr>rc_reason := NoStop, rc_sequence := rc_sequence s + 1\<rparr> else s)"

definition rc_capture_progress :: "u64 \<Rightarrow> recovery \<Rightarrow> recovery" where
  "rc_capture_progress now s =
     (if \<not> rc_requested s \<or> rc_pending s \<or> \<not> retryable_scene_stop (rc_reason s) then s
      else
        let s1 = (if rc_last_progress s = 0 \<or> now < rc_last_progress s \<or>
                     now - rc_last_progress s > 2000
                  then s\<lparr>rc_healthy_since := now\<rparr> else s)\<lparr>rc_last_progress := now\<rparr>
        in if now \<ge> rc_healthy_since s1 \<and> now - rc_healthy_since s1 \<ge> 10000
           then s1\<lparr>rc_attempts := 0, rc_reason := NoStop\<rparr> else s1)"

definition initial_retry_calibration_allowed ::
  "recovery \<Rightarrow> pair_snapshot \<Rightarrow> bool \<Rightarrow> bool \<Rightarrow> u64 \<Rightarrow> u64 \<Rightarrow> bool" where
  "initial_retry_calibration_allowed r pair calibration_required suspended inspected current \<longleftrightarrow>
     calibration_required \<and> \<not> suspended \<and> inspected = current \<and> rc_requested r \<and> rc_pending r \<and>
     retryable_scene_stop (rc_reason r) \<and> rc_attempts r < maximum_retries \<and>
     sn_state pair = Disabled \<and> sn_failure pair = NoFailure \<and> sn_blocked pair = NotBlocked \<and>
     sn_owner pair = no_manager \<and> \<not> any_owned (sn_owned_ids pair) \<and>
     \<not> sn_request_pending pair \<and> \<not> sn_creation_pending pair"

definition no_callbacks :: "'e engine_callbacks" where
  "no_callbacks = \<lparr>cb_initialize = None, cb_create = None, cb_erase = None\<rparr>"

definition defer_initial_pose_failure ::
  "manager_token \<Rightarrow> bool \<Rightarrow> nat \<Rightarrow> u64 \<Rightarrow> u64 \<Rightarrow> u64 \<Rightarrow>
   pair_controller \<times> recovery \<times> 'e \<Rightarrow> bool \<times> pair_controller \<times> recovery \<times> 'e" where
  "defer_initial_pose_failure m temporary_pose created inspected current now = (\<lambda>(c, r, e).
     let pair = snapshot c in
     if \<not> temporary_pose \<or> created \<noteq> 0 \<or> inspected \<noteq> current \<or> \<not> rc_requested r \<or>
        rc_attempts r \<ge> maximum_retries \<or>
        (rc_reason r \<noteq> NoStop \<and> \<not> retryable_scene_stop (rc_reason r)) \<or>
        sn_state pair \<noteq> Failed \<or> sn_failure pair \<noteq> InitializerFailed \<or>
        sn_blocked pair \<noteq> NotBlocked \<or> sn_owner pair \<noteq> no_manager \<or>
        any_owned (sn_owned_ids pair) \<or> sn_request_pending pair \<or> sn_creation_pending pair
     then (False, c, r, e)
     else (case process_update no_callbacks m (request_disable c, e) of
             (ok, c1, e1) \<Rightarrow>
               if \<not> ok then (False, c1, r, e1)
               else
                 let clean = snapshot c1 in
                 if sn_state clean \<noteq> Disabled \<or> sn_failure clean \<noteq> NoFailure \<or>
                    sn_blocked clean \<noteq> NotBlocked \<or> any_owned (sn_owned_ids clean) \<or>
                    sn_request_pending clean \<or> sn_creation_pending clean
                 then (False, c1, r, e1)
                 else
                   let r1 = rc_failed InspectionUnavailable now r
                   in (rc_pending r1, c1, r1, e1)))"


subsection \<open>Lemmas under the interface\<close>

context pair_ownership
begin

lemma cw_resume_keeps:
  "inv p \<Longrightarrow> inv (fst (snd (cw_resume cancel rv rq may (p, w))))"
  using cancel_keeps [of p]
  by (auto simp: cw_resume_def split: prod.splits empty_pair_cancel.splits)

lemma cw_resume_true:
  assumes "inv p" and "cw_resume cancel rv rq may (p, w) = (True, p', w')"
  shows "cw_pending w \<and> rv = cw_revision w \<and> rq \<and> may \<and> \<not> any_owned (sn_owned_ids (snap p)) \<and>
    snapshot_empty (snap p') \<and> \<not> cw_pending w'"
  using assms cancel_done [of p p']
  by (auto simp: cw_resume_def split: if_splits prod.splits empty_pair_cancel.splits)

lemma cw_resume_false:
  "cw_resume cancel rv rq may (p, w) = (False, p', w') \<Longrightarrow> p' = p"
  by (auto simp: cw_resume_def split: if_splits prod.splits empty_pair_cancel.splits
      dest: cancel_refused)

lemma reset_observes_cancel:
  assumes "inv p" and "cancel p = (Cancelled, p')" and "reset_holding s"
  shows "sr_retired (reset_observe_empty Cancelled (snap p') s)"
  using assms cancel_done [of p p'] by (simp add: reset_observe_empty_def)

end

lemma snapshot_empty_initial [simp]: "snapshot_empty empty_snapshot"
  by (simp add: snapshot_empty_def empty_snapshot_def token_valid_def no_manager_def any_owned_def)

interpretation pair_cancel: pair_ownership cancel_uncreated_request snapshot
  "\<lambda>c. pair_inv c"
proof
  fix c c' :: pair_controller and r
  show "pair_inv c \<Longrightarrow> pair_inv (snd (cancel_uncreated_request c))"
    by (rule cancel_inv)
  show "pair_inv c \<Longrightarrow> cancel_uncreated_request c = (Cancelled, c') \<Longrightarrow>
      \<not> any_owned (sn_owned_ids (snapshot c)) \<and> snapshot_empty (snapshot c')"
    by (auto simp: cancel_uncreated_request_def snapshot_def no_request_def any_owned_def
        pair_inv_def pair_pub_def has_owned_ids_def snapshot_empty_def empty_snapshot_def
        token_valid_def no_manager_def split: if_splits)
  show "cancel_uncreated_request c = (r, c') \<Longrightarrow> r \<noteq> Cancelled \<Longrightarrow> c' = c"
    by (auto simp: cancel_uncreated_request_def split: if_splits)
qed

subsection \<open>The retry budget\<close>

datatype recovery_event =
  StartScene | StopScene | SceneFailed scene_stop_reason u64 | RetryScene u64 pair_snapshot bool
| ResumedResolution | CaptureProgress u64

fun recovery_step :: "recovery_event \<Rightarrow> recovery \<Rightarrow> recovery" where
  "recovery_step StartScene s = rc_start s"
| "recovery_step StopScene s = rc_stop s"
| "recovery_step (SceneFailed r now) s = rc_failed r now s"
| "recovery_step (RetryScene now p fresh) s = snd (rc_retry now p fresh s)"
| "recovery_step ResumedResolution s = rc_resumed_retained_resolution s"
| "recovery_step (CaptureProgress now) s = rc_capture_progress now s"

definition recovery_inv :: "recovery \<Rightarrow> bool" where
  "recovery_inv s \<longleftrightarrow> rc_attempts s \<le> maximum_retries \<and>
     (rc_pending s \<longrightarrow> rc_requested s \<and> retryable_scene_stop (rc_reason s) \<and>
        rc_attempts s < maximum_retries)"

lemmas recovery_defs = rc_start_def rc_stop_def rc_failed_def rc_retry_def
  rc_resumed_retained_resolution_def rc_capture_progress_def Let_def

interpretation recovery: machine recovery_step recovery_inv "\<lambda>_. True"
proof
  fix ev s
  assume "recovery_inv s"
  then show "recovery_inv (recovery_step ev s)"
    by (cases ev) (auto simp: recovery_inv_def recovery_defs maximum_retries_def)
qed

text \<open>The number of retries a run grants.\<close>

fun granted_retries :: "recovery_event list \<Rightarrow> recovery \<Rightarrow> nat" where
  "granted_retries [] s = 0"
| "granted_retries (ev # evs) s =
     (case ev of RetryScene now p fresh \<Rightarrow> if fst (rc_retry now p fresh s) then 1 else 0 | _ \<Rightarrow> 0) +
     granted_retries evs (recovery_step ev s)"

text \<open>
  Healthy capture, read off the history without the stored times: a stretch of it begins while the
  scene is requested, waits for no retry and was last stopped for a retryable reason; it holds no start,
  stop or failure, and each of its capture reports comes at most two seconds after the one before.  Ten seconds of healthy capture end with a
  report ten seconds after the first report of such a stretch.
\<close>

definition recovering :: "recovery \<Rightarrow> bool" where
  "recovering s \<longleftrightarrow> rc_requested s \<and> \<not> rc_pending s \<and> retryable_scene_stop (rc_reason s)"

definition report_time :: "recovery_event \<Rightarrow> u64 option" where
  "report_time ev = (case ev of CaptureProgress t \<Rightarrow> Some t | _ \<Rightarrow> None)"

definition reports :: "recovery_event list \<Rightarrow> u64 list" where
  "reports evs = List.map_filter report_time evs"

definition calm :: "recovery_event \<Rightarrow> bool" where
  "calm ev \<longleftrightarrow> (case ev of StartScene \<Rightarrow> False | StopScene \<Rightarrow> False | SceneFailed _ _ \<Rightarrow> False | _ \<Rightarrow> True)"

definition steady :: "u64 list \<Rightarrow> bool" where
  "steady = successively (\<lambda>a b. unat a \<le> unat b \<and> unat b \<le> unat a + 2000)"

definition streak :: "recovery_event list \<Rightarrow> u64 \<Rightarrow> u64 \<Rightarrow> bool" where
  "streak h a b \<longleftrightarrow> (\<exists>before seg. h = before @ seg \<and> recovering (fold recovery_step before initial_recovery) \<and>
     list_all calm seg \<and> reports seg \<noteq> [] \<and>
     hd (reports seg) = a \<and> last (reports seg) = b \<and> steady (reports seg))"

definition healthy_capture :: "recovery_event list \<Rightarrow> bool" where
  "healthy_capture h \<longleftrightarrow> (\<exists>a b. streak h a b \<and> h \<noteq> [] \<and> last h = CaptureProgress b \<and>
     unat a + 10000 \<le> unat b)"

lemma reports_append [simp]: "reports (xs @ ys) = reports xs @ reports ys"
  by (simp add: reports_def map_filter_def)

lemma reports_simps [simp]:
  "reports [] = []"
  "reports (CaptureProgress t # evs) = t # reports evs"
  "report_time ev = None \<Longrightarrow> reports (ev # evs) = reports evs"
  by (simp_all add: reports_def map_filter_def report_time_def)

lemma steady_snoc: "ts \<noteq> [] \<Longrightarrow> steady (ts @ [t]) \<longleftrightarrow> steady ts \<and> unat (last ts) \<le> unat t \<and> unat t \<le> unat (last ts) + 2000"
  by (simp add: steady_def successively_append_iff)

lemma steady_bounds: "steady ts \<Longrightarrow> ts \<noteq> [] \<Longrightarrow> unat (hd ts) \<le> unat (last ts)"
  by (induction ts rule: induct_list012) (auto simp: steady_def)

lemma streak_ordered: "streak h a b \<Longrightarrow> unat a \<le> unat b"
  by (auto simp: streak_def dest: steady_bounds)

lemma streak_start: "recovering (fold recovery_step h initial_recovery) \<Longrightarrow> streak (h @ [CaptureProgress t]) t t"
  unfolding streak_def
  by (intro exI [of _ h] exI [of _ "[CaptureProgress t]"]) (simp add: calm_def steady_def)

lemma streak_report:
  assumes "streak h a b" and "unat b \<le> unat t" and "unat t \<le> unat b + 2000"
  shows "streak (h @ [CaptureProgress t]) a t"
proof -
  obtain before seg where h: "h = before @ seg"
      "recovering (fold recovery_step before initial_recovery)" "list_all calm seg" "reports seg \<noteq> []"
      "hd (reports seg) = a" "last (reports seg) = b" "steady (reports seg)"
    using assms(1) by (auto simp: streak_def)
  then show ?thesis
    using assms(2,3) unfolding streak_def
    by (intro exI [of _ before] exI [of _ "seg @ [CaptureProgress t]"]) (simp add: calm_def steady_snoc)
qed

lemma streak_calm:
  assumes "streak h a b" and "calm ev" and "report_time ev = None"
  shows "streak (h @ [ev]) a b"
proof -
  obtain before seg where "h = before @ seg"
      "recovering (fold recovery_step before initial_recovery)" "list_all calm seg" "reports seg \<noteq> []"
      "hd (reports seg) = a" "last (reports seg) = b" "steady (reports seg)"
    using assms(1) by (auto simp: streak_def)
  then show ?thesis
    using assms(2,3) unfolding streak_def
    by (intro exI [of _ before] exI [of _ "seg @ [ev]"]) simp
qed

lemma healthy_reports: "healthy_capture h \<Longrightarrow>
  list_ex (\<lambda>a. list_ex (\<lambda>b. unat a + 10000 \<le> unat b) (reports h)) (reports h)"
  by (fastforce simp: healthy_capture_def streak_def list_ex_iff)

text \<open>The stored times are the ends of the stretch the history shows.\<close>

definition recovery_rel :: "recovery_event list \<Rightarrow> recovery \<Rightarrow> bool" where
  "recovery_rel h s \<longleftrightarrow> recovery_inv s \<and> (rc_pending s \<longrightarrow> rc_last_progress s = 0) \<and>
     (rc_requested s \<and> retryable_scene_stop (rc_reason s) \<and> rc_last_progress s \<noteq> 0 \<longrightarrow>
        streak h (rc_healthy_since s) (rc_last_progress s))"

definition reached :: "recovery_event list \<Rightarrow> recovery \<Rightarrow> bool" where
  "reached h s \<longleftrightarrow> s = fold recovery_step h initial_recovery \<and> recovery_rel h s"

text \<open>A report the recovery counts: it starts a new stretch or continues the one it has.\<close>

definition restarts :: "u64 \<Rightarrow> recovery \<Rightarrow> bool" where
  "restarts t s \<longleftrightarrow> rc_last_progress s = 0 \<or> unat t < unat (rc_last_progress s) \<or>
     unat (rc_last_progress s) + 2000 < unat t"

lemma ms_elapsed: "(a::u64) \<le> b \<Longrightarrow> n < 2 ^ 63 \<Longrightarrow> of_nat n \<le> b - a \<longleftrightarrow> unat a + n \<le> unat b"
  by (auto simp: word_le_nat_alt word_elapsed unat_of_nat)

lemma capture_progress_counts:
  assumes "recovering s"
  shows "rc_capture_progress t s =
    (let a = if restarts t s then t else rc_healthy_since s
     in if unat a + 10000 \<le> unat t
        then s\<lparr>rc_healthy_since := a, rc_last_progress := t, rc_attempts := 0, rc_reason := NoStop\<rparr>
        else s\<lparr>rc_healthy_since := a, rc_last_progress := t\<rparr>)"
proof -
  have gap: "rc_last_progress s = 0 \<or> t < rc_last_progress s \<or> t - rc_last_progress s > 2000 \<longleftrightarrow> restarts t s"
  proof (cases "rc_last_progress s \<le> t")
    case True
    then show ?thesis
      by (auto simp: restarts_def word_less_nat_alt word_elapsed)
  next
    case False
    then show ?thesis
      by (simp add: restarts_def word_le_nat_alt word_less_nat_alt not_le)
  qed
  have ten: "a \<le> t \<and> t - a \<ge> 10000 \<longleftrightarrow> unat a + 10000 \<le> unat t" for a
    using ms_elapsed [of a t 10000] by (auto simp: word_le_nat_alt)
  show ?thesis
    using assms unfolding rc_capture_progress_def Let_def gap by (simp add: ten recovering_def)
qed

lemma capture_progress_ignored:
  "\<not> recovering s \<Longrightarrow> rc_capture_progress t s = s"
  by (auto simp: recovering_def rc_capture_progress_def)

lemma counted_streak:
  assumes "recovery_rel h s" and "recovering s" and "recovering (fold recovery_step h initial_recovery)"
  shows "streak (h @ [CaptureProgress t]) (if restarts t s then t else rc_healthy_since s) t"
proof (cases "restarts t s")
  case True
  then show ?thesis using assms by (simp add: streak_start)
next
  case False
  then have "streak h (rc_healthy_since s) (rc_last_progress s)"
    using assms by (simp add: recovery_rel_def restarts_def recovering_def)
  from streak_report [OF this, of t] False show ?thesis
    by (simp add: restarts_def not_less)
qed

lemma recovery_rel_step:
  assumes "recovery_rel h s" and "recovering s \<Longrightarrow> recovering (fold recovery_step h initial_recovery)"
  shows "recovery_rel (h @ [ev]) (recovery_step ev s)"
proof -
  have inv: "recovery_inv (recovery_step ev s)"
    using assms(1) by (auto simp: recovery_rel_def intro: recovery.step_inv [OF TrueI])
  show ?thesis
  proof (cases ev)
    case (CaptureProgress t)
    show ?thesis
    proof (cases "recovering s")
      case True
      then show ?thesis
        using inv counted_streak [OF assms(1) True assms(2) [OF True], of t] assms(1)
        by (simp add: CaptureProgress recovery_rel_def capture_progress_counts Let_def recovering_def
            retryable_scene_stop_def)
    next
      case False
      then show ?thesis
        using assms(1) inv by (auto simp: CaptureProgress recovery_rel_def capture_progress_ignored recovering_def)
    qed
  next
    case (RetryScene now p fresh)
    then show ?thesis
      using assms(1) inv streak_calm [of h _ _ ev]
      by (auto simp: recovery_rel_def rc_retry_def calm_def report_time_def)
  next
    case ResumedResolution
    then show ?thesis
      using assms(1) inv
      by (auto simp: recovery_rel_def rc_resumed_retained_resolution_def retryable_scene_stop_def
          intro!: streak_calm simp: calm_def report_time_def)
  qed (use assms(1) inv in \<open>auto simp: recovery_rel_def rc_start_def rc_stop_def rc_failed_def
      retryable_scene_stop_def latched_scene_stop_def\<close>)
qed

lemma reached_step: "reached h s \<Longrightarrow> reached (h @ [ev]) (recovery_step ev s)"
  by (auto simp: reached_def intro: recovery_rel_step)

lemma reached_counted: "reached h s \<Longrightarrow> recovering s \<Longrightarrow>
  streak (h @ [CaptureProgress t]) (if restarts t s then t else rc_healthy_since s) t"
  unfolding reached_def by (intro counted_streak) auto

interpretation recovery_history: traced recovery_step initial_recovery reached
  by unfold_locales (simp_all add: reached_step, simp add: reached_def recovery_rel_def recovery_inv_def initial_recovery_def)

lemma granted_step:
  assumes "reached h s" and "ev \<noteq> StartScene" and "\<not> healthy_capture (h @ [ev])"
  shows "(case ev of RetryScene now p fresh \<Rightarrow> if fst (rc_retry now p fresh s) then 1 else 0 | _ \<Rightarrow> 0) +
    rc_attempts s = rc_attempts (recovery_step ev s)"
proof (cases ev)
  case (CaptureProgress t)
  show ?thesis
  proof (cases "recovering s")
    case True
    then have "\<not> unat (if restarts t s then t else rc_healthy_since s) + 10000 \<le> unat t"
      using reached_counted [OF assms(1), of t] assms(3) unfolding CaptureProgress healthy_capture_def by auto
    with True show ?thesis
      by (simp add: CaptureProgress capture_progress_counts Let_def)
  next
    case False
    then show ?thesis by (simp add: CaptureProgress capture_progress_ignored)
  qed
qed (use assms(2) in \<open>auto simp: rc_stop_def rc_failed_def rc_retry_def rc_resumed_retained_resolution_def\<close>)

lemma granted_attempts:
  "StartScene \<notin> set evs \<Longrightarrow> \<forall>k < length evs. \<not> healthy_capture (h @ take (Suc k) evs) \<Longrightarrow>
   reached h s \<Longrightarrow>
   granted_retries evs s + rc_attempts s = rc_attempts (fold recovery_step evs s)"
proof (induction evs arbitrary: h s)
  case Nil
  then show ?case by simp
next
  case (Cons ev evs)
  have now: "\<not> healthy_capture (h @ [ev])"
    using Cons.prems(2) by (auto dest: spec [of _ 0])
  have later: "\<forall>k < length evs. \<not> healthy_capture ((h @ [ev]) @ take (Suc k) evs)"
    using Cons.prems(2) by (auto dest: spec [of _ "Suc _"])
  show ?case
    using Cons.IH [OF _ later reached_step [OF Cons.prems(3)]] Cons.prems(1)
      granted_step [OF Cons.prems(3) _ now] by auto
qed

text \<open>Ten seconds of reports restore the budget, whatever stretch the scene was in before.\<close>

lemma restored_stays:
  "rc_attempts s = 0 \<Longrightarrow> rc_reason s = NoStop \<Longrightarrow>
   rc_attempts (fold recovery_step (map CaptureProgress ts) s) = 0"
  by (induction ts) (simp_all add: capture_progress_ignored recovering_def retryable_scene_stop_def)

lemma healthy_restores:
  "recovering s \<Longrightarrow> rc_last_progress s \<noteq> 0 \<Longrightarrow> steady (rc_last_progress s # ts) \<Longrightarrow> ts \<noteq> [] \<Longrightarrow>
   unat (rc_healthy_since s) + 10000 \<le> unat (last ts) \<Longrightarrow>
   rc_attempts (fold recovery_step (map CaptureProgress ts) s) = 0"
proof (induction ts arbitrary: s)
  case Nil
  then show ?case by simp
next
  case (Cons t ts)
  have "0 < unat (rc_last_progress s)"
    using Cons.prems(2) by (simp add: unat_gt_0)
  then have go: "\<not> restarts t s" "steady (t # ts)" "t \<noteq> 0"
    using Cons.prems(2,3) by (auto simp: restarts_def steady_def)
  note step = capture_progress_counts [OF Cons.prems(1), of t, unfolded Let_def]
  show ?case
  proof (cases "unat (rc_healthy_since s) + 10000 \<le> unat t")
    case True
    then show ?thesis
      using go(1) restored_stays step by simp
  next
    case False
    then have "ts \<noteq> []" "unat (rc_healthy_since s) + 10000 \<le> unat (last ts)"
      using Cons.prems(5) by (auto split: if_splits)
    with Cons.IH [of "rc_capture_progress t s"] Cons.prems(1) go step False show ?thesis
      by (simp add: recovering_def)
  qed
qed

lemma reports_restore:
  assumes "reached h s" and "recovering s" and "ts \<noteq> []"
    and "hd ts \<noteq> 0" and "steady ts" and "unat (hd ts) + 10000 \<le> unat (last ts)"
  shows "rc_attempts (fold recovery_step (map CaptureProgress ts) s) = 0"
proof -
  obtain t rest where ts: "ts = t # rest" "rest \<noteq> []"
    using assms(3,6) by (cases ts) (auto split: if_splits)
  let ?a = "if restarts t s then t else rc_healthy_since s"
  note step = capture_progress_counts [OF assms(2), of t, unfolded Let_def]
  have a: "unat ?a \<le> unat t"
    by (rule streak_ordered [OF reached_counted [OF assms(1,2)]])
  show ?thesis
  proof (cases "unat ?a + 10000 \<le> unat t")
    case True
    then show ?thesis
      using restored_stays step by (simp add: ts(1))
  next
    case False
    then show ?thesis
      using healthy_restores [of "rc_capture_progress t s" rest] assms(2-6) ts a step by (simp add: recovering_def)
  qed
qed

text \<open>C5: In every history, a stretch without a start and without ten seconds of healthy capture is
  granted at most three retries, whatever failures, stops, resolution changes, retry requests and
  shorter capture reports it holds.  Ten seconds of capture reports, none more than two seconds after the
  one before, do restore the budget of a requested scene that waits for no retry and was last stopped for a retryable
  reason.\<close>

theorem retries_bounded:
  assumes "StartScene \<notin> set evs"
    and "\<forall>k < length evs. \<not> healthy_capture (h @ take (Suc k) evs)"
    and "s = fold recovery_step (h @ evs) initial_recovery"
  shows "granted_retries evs (fold recovery_step h initial_recovery) \<le> maximum_retries \<and>
    (recovering s \<and> ts \<noteq> [] \<and> hd ts \<noteq> 0 \<and> steady ts \<and> unat (hd ts) + 10000 \<le> unat (last ts) \<longrightarrow>
     rc_attempts (fold recovery_step (map CaptureProgress ts) s) = 0)"
proof
  note rel = recovery_history.trace [of "h @ evs", folded assms(3)]
  have "granted_retries evs (fold recovery_step h initial_recovery) \<le> rc_attempts s"
    using granted_attempts [OF assms(1,2) recovery_history.trace] by (simp add: assms(3))
  also have "\<dots> \<le> maximum_retries"
    using rel by (auto simp: reached_def recovery_rel_def recovery_inv_def)
  finally show "granted_retries evs (fold recovery_step h initial_recovery) \<le> maximum_retries" .
  show "recovering s \<and> ts \<noteq> [] \<and> hd ts \<noteq> 0 \<and> steady ts \<and> unat (hd ts) + 10000 \<le> unat (last ts) \<longrightarrow>
     rc_attempts (fold recovery_step (map CaptureProgress ts) s) = 0"
    using reports_restore [OF rel] by blast
qed

definition demo_recoveries :: "recovery_event list" where
  "demo_recoveries = [SceneFailed InspectionUnavailable 0, RetryScene 2000 empty_snapshot True,
     CaptureProgress 3000, CaptureProgress 5000, CaptureProgress 7000, CaptureProgress 9000,
     CaptureProgress 11000, SceneFailed OwnedEntryAbsent 12000, RetryScene 14000 empty_snapshot True]"

lemma demo_recoveries_short: "\<not> healthy_capture ([StartScene] @ take k demo_recoveries)"
proof
  assume "healthy_capture ([StartScene] @ take k demo_recoveries)"
  note ex = healthy_reports [OF this]
  have "set (reports ([StartScene] @ take k demo_recoveries)) \<subseteq> set (reports ([StartScene] @ demo_recoveries))"
    by (metis append_take_drop_id reports_append set_append sup_ge1 Un_mono subset_refl)
  with ex have "list_ex (\<lambda>a. list_ex (\<lambda>b. unat a + 10000 \<le> unat b) (reports ([StartScene] @ demo_recoveries)))
      (reports ([StartScene] @ demo_recoveries))"
    by (fastforce simp: list_ex_iff)
  then show False
    by (simp add: demo_recoveries_def report_time_def)
qed

theorem retries_bounded_witness:
  "granted_retries demo_recoveries (fold recovery_step [StartScene] initial_recovery) \<le> maximum_retries \<and>
   rc_attempts (fold recovery_step (map CaptureProgress [14500, 16500, 18500, 20500, 22500, 24500])
     (fold recovery_step ([StartScene] @ demo_recoveries) initial_recovery)) = 0"
proof -
  let ?s = "fold recovery_step ([StartScene] @ demo_recoveries) initial_recovery"
  have "StartScene \<notin> set demo_recoveries"
    by (simp add: demo_recoveries_def)
  moreover have "\<forall>k < length demo_recoveries. \<not> healthy_capture ([StartScene] @ take (Suc k) demo_recoveries)"
    using demo_recoveries_short by blast
  moreover have "recovering ?s"
    by code_simp
  ultimately show ?thesis
    using retries_bounded [of demo_recoveries "[StartScene]" ?s "[14500, 16500, 18500, 20500, 22500, 24500]"]
    by (simp add: steady_def)
qed

text \<open>A retry is granted only to a requested scene whose recovery is pending for a retryable
  reason, at least two seconds after the failure, with a fresh pose and a pair that is disabled,
  owns nothing and has no request; granting it consumes the pending recovery.\<close>

theorem retry_guarded:
  assumes "recovery_inv s" and "rc_retry now pair fresh s = (True, s')"
  shows "retryable_scene_stop (rc_reason s) \<and> unat now \<ge> unat (rc_stopped_at s) + 2000 \<and> fresh \<and>
    \<not> any_owned (sn_owned_ids pair) \<and> sn_state pair = Disabled \<and> \<not> sn_creation_pending pair \<and>
    \<not> rc_pending s' \<and> rc_attempts s' = rc_attempts s + 1 \<and> rc_attempts s' \<le> maximum_retries"
proof -
  have g: "rc_stopped_at s \<le> now" "\<not> now - rc_stopped_at s < 2000"
    using assms(2) by (auto simp: rc_retry_def retry_delay_ms_def not_less split: if_splits)
  have "unat (now - rc_stopped_at s) \<ge> 2000"
    using g(2) by (simp add: word_less_nat_alt not_less)
  with word_elapsed [OF g(1)] have "unat now \<ge> unat (rc_stopped_at s) + 2000"
    by simp
  then show ?thesis
    using assms by (auto simp: rc_retry_def recovery_inv_def split: if_splits)
qed

theorem retry_guarded_witness:
  "case rc_retry 2500 empty_snapshot True
        (rc_failed InspectionUnavailable 500 (rc_start initial_recovery)) of
     (ok, s') \<Rightarrow> ok \<and> \<not> rc_pending s' \<and> rc_attempts s' = 1"
proof -
  let ?s = "rc_failed InspectionUnavailable 500 (rc_start initial_recovery)"
  obtain ok s' where r: "rc_retry 2500 empty_snapshot True ?s = (ok, s')"
    by force
  have "ok"
    using r by (auto simp: recovery_defs initial_recovery_def empty_snapshot_def any_owned_def
        retry_delay_ms_def retryable_scene_stop_def latched_scene_stop_def maximum_retries_def
        list_ex_iff split: if_splits)
  have "recovery_inv ?s"
    by (simp add: recovery_inv_def recovery_defs initial_recovery_def maximum_retries_def
        latched_scene_stop_def)
  moreover have "rc_attempts ?s = 0"
    by (simp add: recovery_defs initial_recovery_def latched_scene_stop_def)
  ultimately show ?thesis
    using retry_guarded [of ?s 2500 empty_snapshot True s'] r \<open>ok\<close> by simp
qed

subsection \<open>A latched refusal\<close>

lemma latched_step:
  assumes "latched_scene_stop (rc_reason s)" and "\<not> rc_pending s" and "ev \<noteq> StartScene" "ev \<noteq> StopScene"
  shows "rc_reason (recovery_step ev s) = rc_reason s \<and> \<not> rc_pending (recovery_step ev s)"
  using assms by (cases ev) (auto simp: recovery_defs latched_scene_stop_def retryable_scene_stop_def)

text \<open>An identity refusal or a failed creation is latched: until an explicit start or stop no
  later failure, progress report or resolution change replaces the reason, and no retry is
  granted.\<close>

theorem latched_refusal_stays:
  assumes "latched_scene_stop (rc_reason s)" and "\<not> rc_pending s"
    and "StartScene \<notin> set evs" and "StopScene \<notin> set evs"
  shows "rc_reason (fold recovery_step evs s) = rc_reason s \<and> granted_retries evs s = 0"
  using assms
proof (induction evs arbitrary: s)
  case Nil
  then show ?case by simp
next
  case (Cons ev evs)
  have st: "rc_reason (recovery_step ev s) = rc_reason s" "\<not> rc_pending (recovery_step ev s)"
    using latched_step [of s ev] Cons.prems by auto
  moreover have "(case ev of RetryScene now p fresh \<Rightarrow> if fst (rc_retry now p fresh s) then 1 else 0 | _ \<Rightarrow> 0) = (0::nat)"
    using Cons.prems(2) by (cases ev) (simp_all add: rc_retry_def)
  ultimately show ?case
    using Cons.IH [of "recovery_step ev s"] Cons.prems by simp
qed

theorem latched_refusal_stays_witness:
  "rc_reason (fold recovery_step [SceneFailed InspectionUnavailable 9, RetryScene 9000 empty_snapshot True]
      (rc_failed CreationFailed 1 (rc_start initial_recovery))) = CreationFailed"
proof -
  let ?s = "rc_failed CreationFailed 1 (rc_start initial_recovery)"
  have s: "rc_reason ?s = CreationFailed" "\<not> rc_pending ?s"
    by (simp_all add: recovery_defs initial_recovery_def latched_scene_stop_def
        retryable_scene_stop_def)
  have "latched_scene_stop (rc_reason ?s)"
    using s(1) by (simp add: latched_scene_stop_def)
  from latched_refusal_stays [OF this s(2), of "[SceneFailed InspectionUnavailable 9,
      RetryScene 9000 empty_snapshot True]"] s(1)
  show ?thesis
    by simp
qed


subsection \<open>Deferring the first pose failure\<close>

lemma disable_idle_update:
  assumes "\<not> processing c" and "\<not> has_owned_ids c"
  shows "process_update eng m (request_disable c, e) =
    (True, publish Disabled NotBlocked (c\<lparr>mailbox := no_request, desired_enabled := False,
       creation_pending := False, pc_failure := NoFailure\<rparr>), e)"
  using assms
  by (simp add: process_update_def update_owned_def request_disable_def apply_request_disable
      has_owned_ids_def publish_idle_def publish_def)

text \<open>Deferring a temporary pose failure is all or nothing and never reaches the engine: either it
  is refused and controller and recovery are unchanged, or the failed empty controller becomes a
  disabled empty one without its failure and the recovery waits to retry.\<close>

theorem defer_pose_failure_atomic:
  assumes "pair_inv c" and "\<not> processing c"
    and "defer_initial_pose_failure m temporary created inspected current now (c, r, e) = (ok, c', r', e')"
  shows "e' = e \<and> (if ok then sn_state (snapshot c') = Disabled \<and> sn_failure (snapshot c') = NoFailure \<and>
      snapshot_empty (snapshot c') \<and> rc_pending r' \<and> rc_reason r' = InspectionUnavailable \<and>
      temporary \<and> created = 0 \<and> inspected = current
    else c' = c \<and> r' = r)"
proof (cases "\<not> temporary \<or> created \<noteq> 0 \<or> inspected \<noteq> current \<or> \<not> rc_requested r \<or>
        rc_attempts r \<ge> maximum_retries \<or>
        (rc_reason r \<noteq> NoStop \<and> \<not> retryable_scene_stop (rc_reason r)) \<or>
        sn_state (snapshot c) \<noteq> Failed \<or> sn_failure (snapshot c) \<noteq> InitializerFailed \<or>
        sn_blocked (snapshot c) \<noteq> NotBlocked \<or> sn_owner (snapshot c) \<noteq> no_manager \<or>
        any_owned (sn_owned_ids (snapshot c)) \<or> sn_request_pending (snapshot c) \<or>
        sn_creation_pending (snapshot c)")
  case True
  then show ?thesis
    using assms(3) by (simp only: defer_initial_pose_failure_def Let_def prod.case if_True) auto
next
  case False
  then have idle: "\<not> has_owned_ids c"
    using assms(1) by (auto simp: snapshot_def pair_inv_def pair_pub_def any_owned_def has_owned_ids_def)
  let ?c1 = "publish Disabled NotBlocked (c\<lparr>mailbox := no_request, desired_enabled := False,
       creation_pending := False, pc_failure := NoFailure\<rparr>)"
  have ids: "\<not> any_owned (pc_ids c)" "pc_owner c = no_manager"
    using idle assms(1) by (auto simp: any_owned_def has_owned_ids_def pair_inv_def pair_core_def)
  have clean: "sn_state (snapshot ?c1) = Disabled" "sn_failure (snapshot ?c1) = NoFailure"
    "sn_blocked (snapshot ?c1) = NotBlocked" "\<not> any_owned (sn_owned_ids (snapshot ?c1))"
    "\<not> sn_request_pending (snapshot ?c1)" "\<not> sn_creation_pending (snapshot ?c1)"
    "sn_owner (snapshot ?c1) = no_manager"
    using ids by (simp_all add: snapshot_def publish_def no_request_def)
  have "ok = rc_pending (rc_failed InspectionUnavailable now r) \<and> c' = ?c1 \<and>
      r' = rc_failed InspectionUnavailable now r \<and> e' = e"
    using assms(3) False clean
    by (simp only: defer_initial_pose_failure_def Let_def prod.case if_False
        disable_idle_update [OF assms(2) idle] if_True) auto
  moreover have "rc_pending (rc_failed InspectionUnavailable now r) \<and>
      rc_reason (rc_failed InspectionUnavailable now r) = InspectionUnavailable"
    using False by (auto simp: rc_failed_def latched_scene_stop_def retryable_scene_stop_def)
  ultimately show ?thesis
    using clean False by (simp add: snapshot_empty_def token_valid_def no_manager_def)
qed

text \<open>The controller after one refused initializer.\<close>

definition refused_engine :: "unit engine_callbacks" where
  "refused_engine = \<lparr>cb_initialize = Some (\<lambda>e d. (False, d, e)), cb_create = Some (\<lambda>e m d. (0, e)),
     cb_erase = Some (\<lambda>e m i. (True, e))\<rparr>"

definition refused_controller :: pair_controller where
  "refused_controller = fst (fold pair_step [EnablePose 2, Update refused_engine demo_manager]
     (initial_controller, ()))"

theorem defer_pose_failure_atomic_witness:
  "case defer_initial_pose_failure demo_manager True 0 4 4 100
        (refused_controller, rc_start initial_recovery, ()) of
     (ok, c', r', e') \<Rightarrow> ok \<and> sn_state (snapshot c') = Disabled \<and> rc_pending r'"
proof -
  obtain ok c' r' e' where d: "defer_initial_pose_failure demo_manager True 0 4 4 100
      (refused_controller, rc_start initial_recovery, ()) = (ok, c', r', e')"
    by (metis prod_cases4)
  have inv: "pair_inv refused_controller"
    using pair.run_inv [of "[EnablePose 2, Update refused_engine demo_manager]" "(initial_controller, ())"]
    by (simp add: refused_controller_def case_prod_unfold initial_pair_inv)
  have idle: "\<not> processing refused_controller"
    by code_simp
  have "fst (defer_initial_pose_failure demo_manager True 0 4 4 100
      (refused_controller, rc_start initial_recovery, ()))"
    by code_simp
  with d have ok
    by simp
  with defer_pose_failure_atomic [OF inv idle d] d show ?thesis
    by simp
qed

subsection \<open>Resuming and resetting\<close>

text \<open>A deferred creation resumes only once, only for the revision it was deferred at, and only
  when the controller had really nothing in flight: it held no id, and its request is gone.\<close>

theorem creation_resumes_only_empty:
  assumes "pair_inv c" and "cw_resume cancel_uncreated_request rv requested may (c, w) = (True, c', w')"
  shows "cw_pending w \<and> rv = cw_revision w \<and> requested \<and> \<not> any_owned (sn_owned_ids (snapshot c)) \<and>
    snapshot_empty (snapshot c') \<and> pair_inv c' \<and> \<not> cw_pending w'"
  using pair_cancel.cw_resume_true [OF assms] pair_cancel.cw_resume_keeps [OF assms(1), of rv requested may w]
    assms(2)
  by simp

theorem creation_resumes_only_empty_witness:
  "fst (cw_resume cancel_uncreated_request 5 True True
     (refused_controller, cw_defer 5 initial_creation_wait))"
proof -
  let ?x = "cw_resume cancel_uncreated_request 5 True True
     (refused_controller, cw_defer 5 initial_creation_wait)"
  have ok: "fst ?x"
    by code_simp
  have inv: "pair_inv refused_controller"
    using pair.run_inv [of "[EnablePose 2, Update refused_engine demo_manager]" "(initial_controller, ())"]
    by (simp add: refused_controller_def case_prod_unfold initial_pair_inv)
  obtain c' w' where "?x = (True, c', w')"
    using ok by (metis (full_types) prod.collapse)
  from creation_resumes_only_empty [OF inv this] ok show ?thesis
    by blast
qed

datatype reset_event =
  ResetBegin u32 | ResetObserve empty_pair_cancel pair_snapshot | ResetConsume bool pair_snapshot

fun reset_step :: "reset_event \<Rightarrow> session_reset \<Rightarrow> session_reset" where
  "reset_step (ResetBegin p) s = reset_begin p s"
| "reset_step (ResetObserve r sn) s = reset_observe_empty r sn s"
| "reset_step (ResetConsume ready sn) s = snd (reset_consume ready sn s)"

definition is_begin :: "reset_event \<Rightarrow> bool" where
  "is_begin ev \<longleftrightarrow> (case ev of ResetBegin _ \<Rightarrow> True | _ \<Rightarrow> False)"

text \<open>The run ends with a reset that began for profile \<open>p\<close> and saw the cancelled, empty pair.\<close>

definition drained_since_begin :: "u32 \<Rightarrow> reset_event list \<Rightarrow> bool" where
  "drained_since_begin p evs \<longleftrightarrow> (\<exists>pre mid post sn. evs = pre @ [ResetBegin p] @ mid @ [ResetObserve Cancelled sn] @ post \<and>
     snapshot_empty sn \<and> \<not> list_ex is_begin (mid @ post))"

definition begun :: "u32 \<Rightarrow> reset_event list \<Rightarrow> bool" where
  "begun p evs \<longleftrightarrow> (\<exists>pre post. evs = pre @ [ResetBegin p] @ post \<and> \<not> list_ex is_begin post)"

lemma drained_snoc: "drained_since_begin p evs \<Longrightarrow> \<not> is_begin ev \<Longrightarrow> drained_since_begin p (evs @ [ev])"
  unfolding drained_since_begin_def
  by (elim exE conjE, rule exI, rule exI, rule_tac x = "post @ [ev]" in exI) auto

lemma begun_snoc: "begun p evs \<Longrightarrow> \<not> is_begin ev \<Longrightarrow> begun p (evs @ [ev])"
  unfolding begun_def by (elim exE conjE, rule exI, rule_tac x = "post @ [ev]" in exI) auto

lemma begun_observed:
  "begun p evs \<Longrightarrow> snapshot_empty sn \<Longrightarrow> drained_since_begin p (evs @ [ResetObserve Cancelled sn])"
  unfolding begun_def drained_since_begin_def
  by (elim exE conjE, rule exI, rule_tac x = post in exI, rule_tac x = "[]" in exI) auto

definition reset_rel :: "reset_event list \<Rightarrow> session_reset \<Rightarrow> bool" where
  "reset_rel evs s \<longleftrightarrow> (sr_profile s \<noteq> 0 \<longrightarrow> begun (sr_profile s) evs) \<and>
     (sr_retired s \<and> sr_profile s \<noteq> 0 \<longrightarrow> drained_since_begin (sr_profile s) evs)"

interpretation reset_history: traced reset_step initial_session_reset reset_rel
proof
  show "reset_rel [] initial_session_reset"
    by (simp add: reset_rel_def initial_session_reset_def)
next
  fix evs s ev
  assume IH: "reset_rel evs s"
  show "reset_rel (evs @ [ev]) (reset_step ev s)"
  proof (cases "is_begin ev")
    case True
    then obtain p where ev: "ev = ResetBegin p"
      by (auto simp: is_begin_def split: reset_event.splits)
    have "begun p (evs @ [ev])"
      unfolding begun_def ev by (rule exI [of _ evs], rule exI [of _ "[]"]) simp
    then show ?thesis
      using ev by (simp add: reset_begin_def reset_rel_def)
  next
    case False
    then show ?thesis
      using IH begun_snoc [OF _ False] drained_snoc [OF _ False]
      by (cases ev) (auto simp: reset_rel_def reset_observe_empty_def reset_holding_def
          reset_consume_def is_begin_def begun_observed)
  qed
qed

text \<open>A flight reset is granted only after the old cameras drained: since the reset began for its
  profile, a cancellation succeeded on an empty pair, and the pair is empty now; a published
  empty snapshot alone never grants it.\<close>

theorem reset_waits_for_drain:
  assumes "s = fold reset_step evs initial_session_reset"
    and "fst (reset_consume public_ready pair s)"
  shows "drained_since_begin (sr_profile s) evs \<and> snapshot_empty pair \<and> public_ready"
  using reset_history.trace [of evs] assms
  by (auto simp: reset_rel_def reset_consume_def reset_ready_def reset_holding_def split: if_splits)

theorem reset_waits_for_drain_witness:
  "drained_since_begin 3 [ResetBegin 3, ResetObserve Cancelled empty_snapshot]"
proof -
  let ?evs = "[ResetBegin 3, ResetObserve Cancelled empty_snapshot]"
  let ?s = "fold reset_step ?evs initial_session_reset"
  have s: "sr_profile ?s = 3"
    by (simp add: reset_begin_def reset_observe_empty_def reset_holding_def)
  have "fst (reset_consume True empty_snapshot ?s)"
    by (simp add: reset_consume_def reset_ready_def reset_begin_def reset_observe_empty_def reset_holding_def)
  from reset_waits_for_drain [OF refl this] s show ?thesis
    by simp
qed

end
