(* ===== verification/View_Lifecycle.thy ===== *)
theory View_Lifecycle
  imports Owned_View
begin

text \<open>
  The observers that decide, update by update, what may be done with owned views:
  \<open>ViewReadinessWait\<close> (\<open>src/camera/view_readiness_wait.hpp\<close>), \<open>ViewRetirement\<close>
  (\<open>view_retirement.hpp\<close>), \<open>ViewResizeRecovery\<close> (\<open>view_resize_recovery.hpp\<close>),
  \<open>RetainedProfileTransition\<close> (\<open>retained_profile.hpp\<close>), \<open>ProbeInspectionGate\<close>
  (\<open>probe_inspection_gate.hpp\<close>) and \<open>PoseSourceCache\<close> (\<open>pose_source_cache.hpp\<close>).  The four
  views are a list of length four; only the first \<open>feed_count\<close> of them are read.
\<close>

definition pair_settled :: "pair_snapshot \<Rightarrow> bool" where
  "pair_settled p \<longleftrightarrow> sn_state p = Active \<and> token_valid (sn_owner p) \<and> distinct_owned (sn_owned_ids p) \<and>
     \<not> sn_request_pending p \<and> \<not> sn_creation_pending p \<and> sn_failure p = NoFailure \<and>
     sn_blocked p = NotBlocked"

subsection \<open>ViewReadinessWait\<close>

record readiness_wait =
  rw_waiting :: bool
  rw_owner :: manager_token
  rw_ids :: owned_ids
  rw_since :: u64
  rw_episodes :: u64

definition no_ids :: owned_ids where
  "no_ids = replicate kMaxOwnedViews 0"

definition initial_readiness_wait :: readiness_wait where
  "initial_readiness_wait = \<lparr>rw_waiting = False, rw_owner = no_manager, rw_ids = no_ids,
     rw_since = 0, rw_episodes = 0\<rparr>"

definition rw_clear :: "readiness_wait \<Rightarrow> readiness_wait" where
  "rw_clear w = w\<lparr>rw_waiting := False, rw_owner := no_manager, rw_ids := no_ids, rw_since := 0\<rparr>"

definition stable_pending :: "owned_view \<Rightarrow> bool" where
  "stable_pending v \<longleftrightarrow> ov_complete v \<and> \<not> ov_ready v \<and> ov_status v = OvPending"

definition transient_read :: "owned_view \<Rightarrow> bool" where
  "transient_read v \<longleftrightarrow> \<not> ov_complete v \<and> \<not> ov_ready v \<and>
     (ov_status v = OvReadFailed \<or> ov_status v = OvChanged \<or> ov_status v = OvPoolChanged \<or>
      ov_status v = OvNotInspected)"

definition rw_observe ::
  "u64 \<Rightarrow> pair_snapshot \<Rightarrow> bool \<Rightarrow> owned_view list \<Rightarrow> readiness_wait \<Rightarrow> bool \<times> readiness_wait" where
  "rw_observe now pair established views w =
     (let feeds = take (feed_count (sn_owned_ids pair)) views;
          valid = established \<and> pair_settled pair \<and>
            list_all (\<lambda>v. stable_pending v \<or> transient_read v \<or>
              (ov_complete v \<and> ov_ready v \<and> ov_status v = OvReady)) feeds;
          pending = list_ex (\<lambda>v. stable_pending v \<or> transient_read v) feeds
      in if \<not> valid \<or> \<not> pending then (False, rw_clear w)
         else
           let w1 = (if \<not> rw_waiting w
                     then w\<lparr>rw_waiting := True, rw_owner := sn_owner pair,
                            rw_ids := sn_owned_ids pair, rw_since := now,
                            rw_episodes := rw_episodes w + 1\<rparr>
                     else w)
           in (sn_owner pair = rw_owner w1 \<and> sn_owned_ids pair = rw_ids w1 \<and> now \<ge> rw_since w1, w1))"

subsection \<open>ViewRetirement\<close>

datatype retire_action = RetireWait | CloseGate | EraseView

record retire_slot =
  rs_owner :: manager_token
  rs_id :: entry_id
  rs_closed_update :: u64

definition no_slot :: retire_slot where
  "no_slot = \<lparr>rs_owner = no_manager, rs_id = 0, rs_closed_update = 0\<rparr>"

type_synonym retirement = "retire_slot list"

definition retire_clear :: retirement where
  "retire_clear = replicate 2 no_slot"

definition retire_chain :: "owned_view \<Rightarrow> bool" where
  "retire_chain v \<longleftrightarrow> ov_complete v \<and> ov_ready v \<and> ov_status v = OvReady \<and> ov_view_address v \<noteq> 0 \<and>
     ov_node_address v \<noteq> 0 \<and> ov_camera_address v \<noteq> 0 \<and> 0 \<le> ov_view_index v \<and> ov_view_index v < 8"

definition retire_observe ::
  "manager_token \<Rightarrow> entry_id \<Rightarrow> u64 \<Rightarrow> owned_view \<Rightarrow> retirement \<Rightarrow> retire_action \<times> retirement" where
  "retire_observe owner eid update view s =
     (if \<not> token_valid owner \<or> eid = 0 then (RetireWait, s)
      else
        let slot = first_index (\<lambda>c. rs_owner c = owner \<and> rs_id c = eid) s;
            dropped = (case slot of None \<Rightarrow> s | Some i \<Rightarrow> s[i := no_slot])
        in if \<not> retire_chain view then (RetireWait, dropped)
           else if \<not> gate_closed view then (CloseGate, dropped)
           else (case slot of
                   None \<Rightarrow>
                     (case first_index (\<lambda>c. rs_id c = 0) s of
                        None \<Rightarrow> (RetireWait, s)
                      | Some j \<Rightarrow> (RetireWait, s[j := \<lparr>rs_owner = owner, rs_id = eid,
                                                    rs_closed_update = update\<rparr>]))
                 | Some i \<Rightarrow>
                     if update < rs_closed_update (s ! i) then (RetireWait, s[i := no_slot])
                     else (if update > rs_closed_update (s ! i) then EraseView else RetireWait, s)))"

definition retire_forget :: "manager_token \<Rightarrow> entry_id \<Rightarrow> retirement \<Rightarrow> retirement" where
  "retire_forget owner eid s =
     map (\<lambda>c. if rs_owner c = owner \<and> rs_id c = eid then no_slot else c) s"

subsection \<open>ViewResizeRecovery\<close>

definition SettlingNoticeUpdates :: u64 where
  "SettlingNoticeUpdates = 250"

datatype resize_action = ResizeWait | CloseGates | ResizeViews | ResizeBlocked

definition resize_action_name :: "resize_action \<Rightarrow> string" where
  "resize_action_name a = (case a of ResizeWait \<Rightarrow> ''wait'' | CloseGates \<Rightarrow> ''close_gates''
     | ResizeViews \<Rightarrow> ''resize'' | ResizeBlocked \<Rightarrow> ''blocked'')"

record resize_recovery =
  vr_owner :: manager_token
  vr_ids :: owned_ids
  vr_last_update :: u64
  vr_closed_update :: u64
  vr_first_update :: u64
  vr_released :: u32
  vr_pending :: bool
  vr_failed :: bool
  vr_closed_seen :: bool
  vr_resize_issued :: bool

definition resize_clear :: resize_recovery where
  "resize_clear = \<lparr>vr_owner = no_manager, vr_ids = no_ids, vr_last_update = 0,
     vr_closed_update = 0, vr_first_update = 0, vr_released = 0, vr_pending = False,
     vr_failed = False, vr_closed_seen = False, vr_resize_issued = False\<rparr>"

definition resize_mark_failed :: "resize_recovery \<Rightarrow> resize_recovery" where
  "resize_mark_failed s = s\<lparr>vr_failed := True, vr_closed_seen := False, vr_resize_issued := False\<rparr>"

definition resize_identity :: "manager_token \<Rightarrow> owned_ids \<Rightarrow> bool" where
  "resize_identity owner ids \<longleftrightarrow> token_valid owner \<and> distinct_owned ids"

definition resize_matches :: "manager_token \<Rightarrow> owned_ids \<Rightarrow> resize_recovery \<Rightarrow> bool" where
  "resize_matches owner ids s \<longleftrightarrow> owner = vr_owner s \<and> ids = vr_ids s"

definition aligned8 :: "u64 \<Rightarrow> bool" where
  "aligned8 a \<longleftrightarrow> a AND 7 = 0"

definition ready_chain :: "owned_view \<Rightarrow> bool" where
  "ready_chain v \<longleftrightarrow> ov_complete v \<and> ov_ready v \<and> ov_status v = OvReady \<and> ov_read_failures v = 0 \<and>
     ov_error v = '''' \<and> ov_view_address v \<noteq> 0 \<and> aligned8 (ov_view_address v) \<and>
     ov_node_address v \<noteq> 0 \<and> aligned8 (ov_node_address v) \<and> ov_camera_address v \<noteq> 0 \<and>
     aligned8 (ov_camera_address v) \<and> 0 \<le> ov_view_index v \<and> ov_view_index v < 8 \<and>
     float_finite (ov_fov v) \<and> float_positive (ov_fov v)"

definition resize_begin :: "manager_token \<Rightarrow> owned_ids \<Rightarrow> resize_recovery \<Rightarrow> bool \<times> resize_recovery" where
  "resize_begin owner ids s =
     (if vr_failed s then (False, s)
      else if \<not> resize_identity owner ids \<or> (vr_pending s \<and> \<not> resize_matches owner ids s)
      then (False, resize_mark_failed s)
      else if vr_pending s then (True, s)
      else (True, s\<lparr>vr_owner := owner, vr_ids := ids, vr_pending := True\<rparr>))"

definition shared_view :: "owned_view list \<Rightarrow> bool" where
  "shared_view vs \<longleftrightarrow> list_ex (\<lambda>i. list_ex (\<lambda>j.
     ov_view_address (vs ! i) = ov_view_address (vs ! j) \<or> ov_view_index (vs ! i) = ov_view_index (vs ! j))
       [i + 1..<length vs]) [0..<length vs]"

definition resize_observe ::
  "manager_token \<Rightarrow> owned_ids \<Rightarrow> u64 \<Rightarrow> owned_view list \<Rightarrow> resize_recovery \<Rightarrow>
   resize_action \<times> resize_recovery" where
  "resize_observe owner ids update views s =
     (if vr_failed s then (ResizeBlocked, s)
      else if \<not> vr_pending s then (ResizeWait, s)
      else if \<not> resize_identity owner ids \<or> \<not> resize_matches owner ids s \<or> update = 0 \<or>
              update < vr_last_update s
      then (ResizeBlocked, resize_mark_failed s)
      else
        let s1 = s\<lparr>vr_last_update := update,
                   vr_first_update := (if vr_first_update s = 0 then update else vr_first_update s)\<rparr>;
            feeds = take (feed_count ids) views
        in if list_ex (\<lambda>v. \<not> (stable_pending v \<or> transient_read v) \<and> \<not> ready_chain v) feeds
           then (ResizeBlocked, resize_mark_failed s1)
           else if list_ex (\<lambda>v. stable_pending v \<or> transient_read v) feeds
           then (ResizeWait, s1\<lparr>vr_closed_seen := False\<rparr>)
           else if shared_view feeds then (ResizeBlocked, resize_mark_failed s1)
           else if vr_resize_issued s1 then (ResizeWait, s1)
           else if \<not> list_all gate_closed feeds then (CloseGates, s1\<lparr>vr_closed_seen := False\<rparr>)
           else if \<not> vr_closed_seen s1
           then (ResizeWait, s1\<lparr>vr_closed_seen := True, vr_closed_update := update\<rparr>)
           else if update = vr_closed_update s1 then (ResizeWait, s1)
           else (ResizeViews, s1\<lparr>vr_resize_issued := True\<rparr>))"

definition resize_finish :: "manager_token \<Rightarrow> owned_ids \<Rightarrow> resize_recovery \<Rightarrow> bool \<times> resize_recovery" where
  "resize_finish owner ids s =
     (if \<not> vr_pending s \<or> vr_failed s then (False, s)
      else if \<not> resize_identity owner ids \<or> \<not> resize_matches owner ids s
      then (False, resize_mark_failed s)
      else if \<not> vr_resize_issued s then (False, s)
      else (True, resize_clear))"

definition resize_release :: "resize_recovery \<Rightarrow> resize_recovery" where
  "resize_release s =
     (if vr_pending s \<and> \<not> vr_failed s
      then s\<lparr>vr_resize_issued := False, vr_released := vr_released s + 1\<rparr> else s)"

definition elapsed_updates :: "resize_recovery \<Rightarrow> u64" where
  "elapsed_updates s = (if vr_first_update s \<noteq> 0 then vr_last_update s - vr_first_update s else 0)"

definition resize_settling :: "resize_recovery \<Rightarrow> bool" where
  "resize_settling s \<longleftrightarrow> vr_pending s \<and> \<not> vr_failed s \<and> elapsed_updates s \<ge> SettlingNoticeUpdates"

subsection \<open>RetainedProfileTransition\<close>

datatype retained_decision = RetainedWait | RetainedClose | RetainedReady | RetainedRefused

record allocation_evidence =
  ae_owner :: manager_token
  ae_ids :: owned_ids
  ae_dimensions :: "dimension list list"

definition evidence_matches :: "allocation_evidence \<Rightarrow> pair_snapshot \<Rightarrow> bool" where
  "evidence_matches a p \<longleftrightarrow> ae_owner a = sn_owner p \<and> ae_ids a = sn_owned_ids p"

record retained_profile =
  rp_id :: u32
  rp_owner :: manager_token
  rp_ids :: owned_ids
  rp_dimensions :: "dimension list list"
  rp_awaiting_pair :: bool
  rp_resizing :: bool
  rp_state :: retained_decision

definition no_dimensions :: "dimension list list" where
  "no_dimensions = replicate kMaxOwnedViews (replicate 3 (0, 0))"

definition initial_retained :: retained_profile where
  "initial_retained = \<lparr>rp_id = 0, rp_owner = no_manager, rp_ids = no_ids, rp_dimensions = no_dimensions,
     rp_awaiting_pair = False, rp_resizing = False, rp_state = RetainedWait\<rparr>"

definition session_changed :: "pair_snapshot \<Rightarrow> u64 \<Rightarrow> u64 \<Rightarrow> bool" where
  "session_changed p started current \<longleftrightarrow> any_owned (sn_owned_ids p) \<and> started \<noteq> current"

definition rp_begin :: "u32 \<Rightarrow> pair_snapshot \<Rightarrow> dimension list list \<Rightarrow> retained_profile \<Rightarrow> retained_profile" where
  "rp_begin pid p dims s = \<lparr>rp_id = pid, rp_owner = sn_owner p, rp_ids = sn_owned_ids p,
     rp_dimensions = dims, rp_awaiting_pair = False, rp_resizing = False,
     rp_state =
       (if pid = 0 \<or> sn_request_pending p \<or> sn_creation_pending p then RetainedRefused
        else if \<not> any_owned (sn_owned_ids p) then RetainedReady
        else if \<not> pair_settled p then RetainedRefused
        else RetainedWait)\<rparr>"

definition rp_defer_pair :: "u32 \<Rightarrow> retained_profile \<Rightarrow> retained_profile" where
  "rp_defer_pair pid s = s\<lparr>rp_id := pid, rp_owner := no_manager, rp_ids := no_ids,
     rp_dimensions := no_dimensions, rp_awaiting_pair := pid \<noteq> 0,
     rp_state := (if pid \<noteq> 0 then RetainedWait else RetainedRefused)\<rparr>"

definition rp_begin_published ::
  "u32 \<Rightarrow> pair_snapshot \<Rightarrow> allocation_evidence \<Rightarrow> retained_profile \<Rightarrow> retained_profile" where
  "rp_begin_published pid p a s =
     (if pid \<noteq> 0 \<and> pair_settled p \<and> \<not> evidence_matches a p then rp_defer_pair pid s
      else rp_begin pid p (ae_dimensions a) s)"

definition rp_matches :: "pair_snapshot \<Rightarrow> retained_profile \<Rightarrow> bool" where
  "rp_matches p s \<longleftrightarrow> pair_settled p \<and> sn_owner p = rp_owner s \<and> sn_owned_ids p = rp_ids s"

definition rp_unsettled :: "owned_view \<Rightarrow> bool" where
  "rp_unsettled v \<longleftrightarrow> \<not> ov_complete v \<or> \<not> ov_ready v \<or> ov_status v = OvPending"

definition rp_foreign :: "bool \<Rightarrow> dimension list \<Rightarrow> owned_view \<Rightarrow> bool" where
  "rp_foreign resizing dims v \<longleftrightarrow>
     ov_status v \<noteq> OvReady \<or> ov_mode v \<noteq> 2 \<or>
     (\<not> resizing \<and> \<not> (ov_resource_present v \<and> ov_resource_address v \<noteq> 0)) \<or>
     ov_view_address v = 0 \<or> ov_node_address v = 0 \<or> ov_camera_address v = 0 \<or>
     ov_view_index v < 0 \<or> ov_view_index v \<ge> 8 \<or> ov_dimensions v \<noteq> dims \<or>
     (\<not> resizing \<and> ov_output_dimensions v \<noteq> dims ! 0)"

text \<open>The first view that is unsettled or foreign decides.\<close>

fun rp_scan :: "bool \<Rightarrow> dimension list list \<Rightarrow> owned_view list \<Rightarrow> retained_decision option" where
  "rp_scan resizing _ [] = None"
| "rp_scan resizing ds (v # vs) =
     (if rp_unsettled v then Some RetainedWait
      else if rp_foreign resizing (hd ds) v then Some RetainedRefused
      else rp_scan resizing (tl ds) vs)"

definition rp_shared :: "owned_view list \<Rightarrow> bool" where
  "rp_shared vs \<longleftrightarrow> list_ex (\<lambda>i. list_ex (\<lambda>j.
     ov_view_address (vs ! i) = ov_view_address (vs ! j) \<or> ov_view_index (vs ! i) = ov_view_index (vs ! j) \<or>
     (ov_resource_address (vs ! i) \<noteq> 0 \<and> ov_resource_address (vs ! i) = ov_resource_address (vs ! j)))
       [i + 1..<length vs]) [0..<length vs]"

definition rp_inspect ::
  "manager_token \<Rightarrow> pair_snapshot \<Rightarrow> owned_view list \<Rightarrow> retained_profile \<Rightarrow>
   retained_decision \<times> retained_profile" where
  "rp_inspect manager p views s =
     (if rp_state s = RetainedRefused then (RetainedRefused, s)
      else if rp_awaiting_pair s then (RetainedWait, s)
      else
        let feeds = take (feed_count (rp_ids s)) views;
            d = (if \<not> rp_matches p s \<or> manager \<noteq> rp_owner s then RetainedRefused
                 else (case rp_scan (rp_resizing s) (rp_dimensions s) feeds of
                         Some d \<Rightarrow> d
                       | None \<Rightarrow>
                           if rp_shared feeds then RetainedRefused
                           else if list_ex (\<lambda>v. \<not> gate_closed v) feeds then RetainedClose
                           else RetainedReady))
        in (d, s\<lparr>rp_state := d\<rparr>))"

definition rp_rebase :: "dimension list list \<Rightarrow> retained_profile \<Rightarrow> retained_profile" where
  "rp_rebase dims s = s\<lparr>rp_dimensions := dims, rp_resizing := True\<rparr>"

definition rp_resized :: "retained_profile \<Rightarrow> retained_profile" where
  "rp_resized s = s\<lparr>rp_resizing := False\<rparr>"

definition rp_holding :: "retained_profile \<Rightarrow> bool" where
  "rp_holding s \<longleftrightarrow> rp_id s \<noteq> 0"

definition rp_ready :: "retained_profile \<Rightarrow> bool" where
  "rp_ready s \<longleftrightarrow> rp_holding s \<and> rp_state s = RetainedReady"

definition rp_pending :: "retained_profile \<Rightarrow> bool" where
  "rp_pending s \<longleftrightarrow> rp_holding s \<and> (rp_state s = RetainedWait \<or> rp_state s = RetainedClose)"

definition rp_failed :: "retained_profile \<Rightarrow> bool" where
  "rp_failed s \<longleftrightarrow> rp_holding s \<and> rp_state s = RetainedRefused"

definition rp_can_resume :: "pair_snapshot \<Rightarrow> retained_profile \<Rightarrow> bool" where
  "rp_can_resume p s \<longleftrightarrow> rp_ready s \<and> rp_matches p s"

definition rp_refuse :: "retained_profile \<Rightarrow> retained_profile" where
  "rp_refuse s = s\<lparr>rp_awaiting_pair := False, rp_state := RetainedRefused\<rparr>"

definition rp_consume :: "retained_profile \<Rightarrow> retained_profile" where
  "rp_consume s = s\<lparr>rp_id := 0, rp_awaiting_pair := False\<rparr>"

subsection \<open>ProbeInspectionGate\<close>

definition park_initial_scene :: "bool \<Rightarrow> bool \<Rightarrow> bool" where
  "park_initial_scene suspended has_owned_entries \<longleftrightarrow> suspended \<and> \<not> has_owned_entries"

record probe_state =
  ps_established_pair :: bool
  ps_suspended :: bool
  ps_gates_closed :: bool
  ps_pair_ready :: bool
  ps_lifecycle_pending :: bool
  ps_start_pending :: bool
  ps_warmup_pending :: bool
  ps_recovery_pending :: bool
  ps_mount_changed :: bool

datatype probe_decision = Periodic | IdleProbe | RequiredProbe

text \<open>The gate's state is its \<open>idled_\<close> flag.\<close>

definition probe_idle :: "probe_state \<Rightarrow> bool" where
  "probe_idle p \<longleftrightarrow> ps_established_pair p \<and> ps_suspended p \<and> ps_gates_closed p \<and> ps_pair_ready p \<and>
     \<not> ps_lifecycle_pending p \<and> \<not> ps_start_pending p \<and> \<not> ps_warmup_pending p \<and>
     \<not> ps_recovery_pending p \<and> \<not> ps_mount_changed p"

definition probe_decide :: "probe_state \<Rightarrow> bool \<Rightarrow> probe_decision \<times> bool" where
  "probe_decide p idled =
     (if probe_idle p then (IdleProbe, True)
      else (if idled \<or> ps_mount_changed p then RequiredProbe else Periodic, False))"

subsection \<open>PoseSourceCache\<close>

definition kMaximumAgeMs :: u64 where
  "kMaximumAgeMs = 1000"

record pose_cache =
  pc_user :: u64
  pc_proven_ms :: u64
  pc_epoch :: u64
  pc_resets :: u64
  pc_session_user :: u64
  pc_session_epoch :: u64
  pc_session_resets :: u64

definition initial_pose_cache :: pose_cache where
  "initial_pose_cache = \<lparr>pc_user = 0, pc_proven_ms = 0, pc_epoch = 0, pc_resets = 0,
     pc_session_user = 0, pc_session_epoch = 0, pc_session_resets = 0\<rparr>"

definition pose_reuse :: "u64 \<Rightarrow> u64 \<Rightarrow> u64 \<Rightarrow> pose_cache \<Rightarrow> u64" where
  "pose_reuse now epoch resets c =
     (if pc_user c \<noteq> 0 \<and> epoch \<noteq> 0 \<and> epoch = pc_epoch c \<and> resets = pc_resets c \<and>
         now \<ge> pc_proven_ms c \<and> now - pc_proven_ms c < kMaximumAgeMs
      then pc_user c else 0)"

definition session_proven :: "u64 \<Rightarrow> u64 \<Rightarrow> pose_cache \<Rightarrow> u64" where
  "session_proven epoch resets c =
     (if pc_session_user c \<noteq> 0 \<and> epoch \<noteq> 0 \<and> epoch = pc_session_epoch c \<and> resets = pc_session_resets c
      then pc_session_user c else 0)"

definition pose_remember :: "u64 \<Rightarrow> u64 \<Rightarrow> u64 \<Rightarrow> u64 \<Rightarrow> pose_cache \<Rightarrow> pose_cache" where
  "pose_remember user now epoch resets c =
     c\<lparr>pc_user := user, pc_proven_ms := now, pc_epoch := epoch, pc_resets := resets\<rparr>"

definition pose_prove :: "u64 \<Rightarrow> u64 \<Rightarrow> u64 \<Rightarrow> u64 \<Rightarrow> pose_cache \<Rightarrow> pose_cache" where
  "pose_prove user now epoch resets c =
     (pose_remember user now epoch resets c)\<lparr>pc_session_user := user, pc_session_epoch := epoch,
        pc_session_resets := resets\<rparr>"

definition pose_refresh :: "u64 \<Rightarrow> u64 \<Rightarrow> u64 \<Rightarrow> u64 \<Rightarrow> pose_cache \<Rightarrow> bool \<times> pose_cache" where
  "pose_refresh user now epoch resets c =
     (if user = 0 \<or> user \<noteq> session_proven epoch resets c then (False, c)
      else (True, pose_remember user now epoch resets c))"

definition pose_forget :: "pose_cache \<Rightarrow> pose_cache" where
  "pose_forget c = c\<lparr>pc_user := 0\<rparr>"


subsection \<open>Retirement: closed on two updates\<close>

datatype retire_event =
  RetireObserve manager_token entry_id u64 owned_view | RetireForget manager_token entry_id | RetireClear

fun retire_step :: "retire_event \<Rightarrow> retirement \<Rightarrow> retirement" where
  "retire_step (RetireObserve m i u v) s = snd (retire_observe m i u v s)"
| "retire_step (RetireForget m i) s = retire_forget m i s"
| "retire_step RetireClear s = retire_clear"

text \<open>The view was observed ready and closed at update \<open>u\<close>, and never otherwise since.\<close>

definition closed_since :: "retire_event list \<Rightarrow> manager_token \<Rightarrow> entry_id \<Rightarrow> u64 \<Rightarrow> bool" where
  "closed_since evs m i u \<longleftrightarrow> (\<exists>pre v post. evs = pre @ [RetireObserve m i u v] @ post \<and>
     retire_chain v \<and> gate_closed v \<and>
     (\<forall>u' v'. RetireObserve m i u' v' \<in> set post \<longrightarrow> retire_chain v' \<and> gate_closed v'))"

lemma closed_since_now:
  "retire_chain v \<Longrightarrow> gate_closed v \<Longrightarrow> closed_since (evs @ [RetireObserve m i u v]) m i u"
  unfolding closed_since_def by (rule exI [of _ evs], rule exI [of _ v], rule exI [of _ "[]"]) simp

lemma closed_since_snoc:
  "closed_since evs m i u \<Longrightarrow>
   (\<And>u' v'. ev = RetireObserve m i u' v' \<Longrightarrow> retire_chain v' \<and> gate_closed v') \<Longrightarrow>
   closed_since (evs @ [ev]) m i u"
  unfolding closed_since_def
  by (elim exE conjE, rule_tac x = pre in exI, rule_tac x = v in exI, rule_tac x = "post @ [ev]" in exI) auto

definition same_slot :: "manager_token \<Rightarrow> entry_id \<Rightarrow> retire_slot \<Rightarrow> bool" where
  "same_slot m i c \<longleftrightarrow> rs_owner c = m \<and> rs_id c = i"

definition retire_rel :: "retire_event list \<Rightarrow> retirement \<Rightarrow> bool" where
  "retire_rel evs s \<longleftrightarrow>
     (\<forall>c \<in> set s. rs_id c \<noteq> 0 \<longrightarrow> token_valid (rs_owner c) \<and>
        closed_since evs (rs_owner c) (rs_id c) (rs_closed_update c)) \<and>
     (\<forall>a < length s. \<forall>b < length s. rs_id (s ! a) \<noteq> 0 \<and> same_slot (rs_owner (s ! a)) (rs_id (s ! a)) (s ! b) \<longrightarrow> a = b)"

lemma no_slot_id [simp]: "rs_id no_slot = 0"
  by (simp add: no_slot_def)

lemma retire_unique_clear:
  "(\<forall>a < length s. \<forall>b < length s. rs_id (s ! a) \<noteq> 0 \<and> same_slot (rs_owner (s ! a)) (rs_id (s ! a)) (s ! b) \<longrightarrow> a = b) \<Longrightarrow>
   (\<forall>a < length (s[k := no_slot]). \<forall>b < length (s[k := no_slot]). rs_id (s[k := no_slot] ! a) \<noteq> 0 \<and>
      same_slot (rs_owner (s[k := no_slot] ! a)) (rs_id (s[k := no_slot] ! a)) (s[k := no_slot] ! b) \<longrightarrow> a = b)"
  by (cases "k < length s") (auto simp: nth_list_update same_slot_def split: if_splits)

text \<open>Dropping the matching slot removes the only one that an open or unready view could spoil.\<close>

lemma retire_rel_drop:
  assumes "retire_rel evs s" and "first_index (same_slot m i) s = Some k"
  shows "retire_rel (evs @ [RetireObserve m i u v]) (s[k := no_slot])"
proof -
  from assms(2) first_index_Some have k: "k < length s" "same_slot m i (s ! k)"
    by fastforce+
  have "token_valid (rs_owner c) \<and>
      closed_since (evs @ [RetireObserve m i u v]) (rs_owner c) (rs_id c) (rs_closed_update c)"
    if "c \<in> set (s[k := no_slot])" "rs_id c \<noteq> 0" for c
  proof -
    from that obtain b where b: "b < length s" "b \<noteq> k" "s ! b = c"
      by (metis in_set_conv_nth k(1) length_list_update no_slot_id nth_list_update_eq nth_list_update_neq)
    have "\<not> same_slot m i c"
      using assms(1) b k that(2) unfolding retire_rel_def same_slot_def by metis
    moreover have "token_valid (rs_owner c)" "closed_since evs (rs_owner c) (rs_id c) (rs_closed_update c)"
      using assms(1) b(1,3) that(2) nth_mem [OF b(1)] unfolding retire_rel_def by blast+
    ultimately show ?thesis
      by (auto simp: same_slot_def intro: closed_since_snoc)
  qed
  then show ?thesis
    using retire_unique_clear [of s k] assms(1) unfolding retire_rel_def by blast
qed

lemma retire_rel_keep:
  assumes "retire_rel evs s" and "first_index (same_slot m i) s = None \<or> retire_chain v \<and> gate_closed v \<or>
      \<not> token_valid m \<or> i = 0"
  shows "retire_rel (evs @ [RetireObserve m i u v]) s"
proof -
  have "closed_since (evs @ [RetireObserve m i u v]) (rs_owner c) (rs_id c) (rs_closed_update c)"
    if "c \<in> set s" "rs_id c \<noteq> 0" for c
  proof (rule closed_since_snoc)
    show "closed_since evs (rs_owner c) (rs_id c) (rs_closed_update c)"
      using assms(1) that by (simp add: retire_rel_def)
    show "retire_chain v' \<and> gate_closed v'"
      if ev: "RetireObserve m i u v = RetireObserve (rs_owner c) (rs_id c) u' v'" for u' v'
      using assms \<open>c \<in> set s\<close> \<open>rs_id c \<noteq> 0\<close> ev unfolding first_index_None retire_rel_def
      by (auto simp: same_slot_def)
  qed
  then show ?thesis
    using assms(1) unfolding retire_rel_def by blast
qed

lemma retire_rel_add:
  assumes "retire_rel evs s" and "first_index (same_slot m i) s = None" and "j < length s"
    and "retire_chain v" "gate_closed v" and "i \<noteq> 0" and "token_valid m"
  shows "retire_rel (evs @ [RetireObserve m i u v])
           (s[j := \<lparr>rs_owner = m, rs_id = i, rs_closed_update = u\<rparr>])"
proof -
  let ?c = "\<lparr>rs_owner = m, rs_id = i, rs_closed_update = u\<rparr>"
  have keep: "retire_rel (evs @ [RetireObserve m i u v]) s"
    using assms by (intro retire_rel_keep) auto
  have "token_valid (rs_owner c) \<and>
      closed_since (evs @ [RetireObserve m i u v]) (rs_owner c) (rs_id c) (rs_closed_update c)"
    if "c \<in> set (s[j := ?c])" "rs_id c \<noteq> 0" for c
    using that set_update_subset_insert [of s j ?c] keep closed_since_now [OF assms(4,5), of evs m i u] assms(7)
    unfolding retire_rel_def by auto
  moreover have "\<forall>a < length s. \<not> same_slot m i (s ! a)"
    using assms(2) by (simp add: first_index_None)
  ultimately show ?thesis
    using assms(1,3) unfolding retire_rel_def
    by (auto simp: nth_list_update same_slot_def split: if_splits)
qed

lemma retire_observe_unfold:
  "retire_observe m i u v s =
     (if \<not> token_valid m \<or> i = 0 then (RetireWait, s)
      else case first_index (same_slot m i) s of
        None \<Rightarrow>
          if \<not> retire_chain v then (RetireWait, s)
          else if \<not> gate_closed v then (CloseGate, s)
          else (case first_index (\<lambda>c. rs_id c = 0) s of
                  None \<Rightarrow> (RetireWait, s)
                | Some j \<Rightarrow> (RetireWait, s[j := \<lparr>rs_owner = m, rs_id = i, rs_closed_update = u\<rparr>]))
      | Some k \<Rightarrow>
          if \<not> retire_chain v then (RetireWait, s[k := no_slot])
          else if \<not> gate_closed v then (CloseGate, s[k := no_slot])
          else if u < rs_closed_update (s ! k) then (RetireWait, s[k := no_slot])
          else (if u > rs_closed_update (s ! k) then EraseView else RetireWait, s))"
  unfolding retire_observe_def same_slot_def [abs_def] by (auto simp: Let_def split: option.splits)

lemma retire_rel_observe:
  assumes "retire_rel evs s"
  shows "retire_rel (evs @ [RetireObserve m i u v]) (snd (retire_observe m i u v s))"
proof (cases "\<not> token_valid m \<or> i = 0")
  case True
  then show ?thesis
    using retire_rel_keep [OF assms, of m i v u] by (auto simp: retire_observe_unfold)
next
  case False
  then show ?thesis
    using retire_rel_drop [OF assms, of m i _ u v] retire_rel_keep [OF assms, of m i v u]
      retire_rel_add [OF assms, of m i _ v u] first_index_Some [of "\<lambda>c. rs_id c = 0" s]
    by (auto simp: retire_observe_unfold split: option.splits)
qed

interpretation retire_history: traced retire_step retire_clear retire_rel
proof
  show "retire_rel [] retire_clear"
    by (simp add: retire_rel_def retire_clear_def)
next
  fix evs s ev
  assume IH: "retire_rel evs s"
  show "retire_rel (evs @ [ev]) (retire_step ev s)"
  proof (cases ev)
    case (RetireObserve m i u v)
    then show ?thesis
      using retire_rel_observe [OF IH] by simp
  next
    case (RetireForget m i)
    have "closed_since (evs @ [ev]) (rs_owner c) (rs_id c) (rs_closed_update c)"
      if "c \<in> set s" "rs_id c \<noteq> 0" for c
      using IH that RetireForget unfolding retire_rel_def by (intro closed_since_snoc) auto
    then show ?thesis
      using IH RetireForget by (auto simp: retire_rel_def retire_forget_def same_slot_def split: if_splits)
  next
    case RetireClear
    then show ?thesis
      by (simp add: retire_rel_def retire_clear_def)
  qed
qed

text \<open>C6: A view is erased only after it was seen ready with a closed gate on an earlier update, and on
  every observation of it in between: never on the update that closed the gate, never for
  another manager or entry.\<close>

theorem erase_needs_earlier_closed_update:
  assumes "s = fold retire_step evs retire_clear" and "fst (retire_observe m i u v s) = EraseView"
  shows "retire_chain v \<and> gate_closed v \<and> (\<exists>u0. u0 < u \<and> closed_since evs m i u0)"
proof -
  obtain k where k: "first_index (same_slot m i) s = Some k" "rs_closed_update (s ! k) < u"
    "retire_chain v" "gate_closed v" "i \<noteq> 0"
    using assms(2) by (auto simp: retire_observe_unfold split: if_splits option.splits)
  then have "k < length s" "same_slot m i (s ! k)"
    using first_index_Some by fastforce+
  then have "closed_since evs m i (rs_closed_update (s ! k))"
    using retire_history.trace [of evs] nth_mem [of k s] k(5) assms(1)
    unfolding retire_rel_def same_slot_def by metis
  with k show ?thesis by blast
qed

definition closed_view :: owned_view where
  "closed_view = no_view\<lparr>ov_complete := True, ov_ready := True, ov_status := OvReady, ov_view_index := 0,
     ov_mode := 2, ov_view_address := 8, ov_node_address := 16, ov_camera_address := 24,
     ov_resource_address := 32, ov_fov := 0x3F800000, ov_flags := [1, 0], ov_resource_present := True\<rparr>"

theorem erase_needs_earlier_closed_update_witness:
  "\<exists>u0. u0 < 9 \<and> closed_since [RetireObserve demo_manager 4 7 closed_view] demo_manager 4 u0"
proof -
  have "fst (retire_observe demo_manager 4 9 closed_view
      (fold retire_step [RetireObserve demo_manager 4 7 closed_view] retire_clear)) = EraseView"
    by code_simp
  from erase_needs_earlier_closed_update [OF refl this] show ?thesis
    by blast
qed


subsection \<open>Resizing: once per authorization, after two closed updates\<close>

datatype resize_event =
  ResizeBegin manager_token owned_ids | ResizeObserve manager_token owned_ids u64 "owned_view list"
| ResizeFinish manager_token owned_ids | ResizeRelease | ResizeClear | ResizeMarkFailed

fun resize_step :: "resize_event \<Rightarrow> resize_recovery \<Rightarrow> resize_recovery" where
  "resize_step (ResizeBegin m ids) s = snd (resize_begin m ids s)"
| "resize_step (ResizeObserve m ids u vs) s = snd (resize_observe m ids u vs s)"
| "resize_step (ResizeFinish m ids) s = snd (resize_finish m ids s)"
| "resize_step ResizeRelease s = resize_release s"
| "resize_step ResizeClear s = resize_clear"
| "resize_step ResizeMarkFailed s = resize_mark_failed s"

definition feeds_closed :: "owned_ids \<Rightarrow> owned_view list \<Rightarrow> bool" where
  "feeds_closed ids vs \<longleftrightarrow> list_all (\<lambda>v. ready_chain v \<and> gate_closed v) (take (feed_count ids) vs)"

definition resize_rel :: "resize_event list \<Rightarrow> resize_recovery \<Rightarrow> bool" where
  "resize_rel evs s \<longleftrightarrow>
     (vr_closed_seen s \<longrightarrow> vr_closed_update s \<le> vr_last_update s \<and> vr_pending s \<and>
        (\<exists>vs. ResizeObserve (vr_owner s) (vr_ids s) (vr_closed_update s) vs \<in> set evs \<and>
              feeds_closed (vr_ids s) vs)) \<and>
     (vr_resize_issued s \<longrightarrow> vr_pending s)"

lemma transient_not_ready: "ready_chain v \<Longrightarrow> \<not> stable_pending v \<and> \<not> transient_read v"
  by (auto simp: ready_chain_def stable_pending_def transient_read_def)

text \<open>The outcomes of one observation.\<close>

lemma resize_observe_cases:
  assumes "resize_observe m ids u vs s = (a, s')"
  obtains "s' = s" "a \<noteq> ResizeViews"
  | s1 where "s' = resize_mark_failed s1" "a = ResizeBlocked"
      "vr_owner s1 = vr_owner s" "vr_ids s1 = vr_ids s" "vr_pending s1 = vr_pending s"
      "vr_released s1 = vr_released s"
  | s1 where "s1 = s\<lparr>vr_last_update := u,
        vr_first_update := (if vr_first_update s = 0 then u else vr_first_update s)\<rparr>"
      "vr_last_update s \<le> u" "u \<noteq> 0" "vr_pending s" "\<not> vr_failed s" "m = vr_owner s" "ids = vr_ids s"
      "resize_identity m ids"
      "a \<noteq> ResizeViews \<and> s' = s1\<lparr>vr_closed_seen := False\<rparr> \<or>
       a \<noteq> ResizeViews \<and> s' = s1 \<or>
       a \<noteq> ResizeViews \<and> s' = s1\<lparr>vr_closed_seen := True, vr_closed_update := u\<rparr> \<and> feeds_closed ids vs \<or>
       a = ResizeViews \<and> s' = s1\<lparr>vr_resize_issued := True\<rparr> \<and> feeds_closed ids vs \<and>
         \<not> shared_view (take (feed_count ids) vs) \<and> vr_closed_seen s \<and> u \<noteq> vr_closed_update s \<and>
         \<not> vr_resize_issued s"
proof -
  let ?s1 = "s\<lparr>vr_last_update := u,
        vr_first_update := (if vr_first_update s = 0 then u else vr_first_update s)\<rparr>"
  let ?f = "take (feed_count ids) vs"
  consider "vr_failed s \<or> \<not> vr_pending s"
    | "\<not> vr_failed s" "vr_pending s" "\<not> resize_identity m ids \<or> \<not> resize_matches m ids s \<or> u = 0 \<or> u < vr_last_update s"
    | "\<not> vr_failed s" "vr_pending s" "resize_identity m ids" "resize_matches m ids s" "u \<noteq> 0" "\<not> u < vr_last_update s"
    by blast
  then show thesis
  proof cases
    case 1
    then show thesis
      using assms that(1) by (cases "vr_failed s") (auto simp: resize_observe_def)
  next
    case 2
    then show thesis
      using assms that(2) [of s] by (auto simp: resize_observe_def)
  next
    case 3
    define s1 where "s1 = ?s1"
    have s1f: "vr_resize_issued s1 = vr_resize_issued s" "vr_closed_seen s1 = vr_closed_seen s"
      "vr_closed_update s1 = vr_closed_update s"
      by (simp_all add: s1_def)
    have s1g: "vr_owner s1 = vr_owner s" "vr_ids s1 = vr_ids s" "vr_pending s1 = vr_pending s"
      "vr_released s1 = vr_released s"
      by (simp_all add: s1_def)
    note run = assms [unfolded resize_observe_def Let_def, folded s1_def]
    have m: "m = vr_owner s" "ids = vr_ids s" "vr_last_update s \<le> u"
      using 3 by (auto simp: resize_matches_def)
    let ?bad = "list_ex (\<lambda>v. \<not> (stable_pending v \<or> transient_read v) \<and> \<not> ready_chain v) ?f"
    let ?temp = "list_ex (\<lambda>v. stable_pending v \<or> transient_read v) ?f"
    have r: "(a, s') = (if ?bad then (ResizeBlocked, resize_mark_failed s1)
      else if ?temp then (ResizeWait, s1\<lparr>vr_closed_seen := False\<rparr>)
      else if shared_view ?f then (ResizeBlocked, resize_mark_failed s1)
      else if vr_resize_issued s then (ResizeWait, s1)
      else if \<not> list_all gate_closed ?f then (CloseGates, s1\<lparr>vr_closed_seen := False\<rparr>)
      else if \<not> vr_closed_seen s then (ResizeWait, s1\<lparr>vr_closed_seen := True, vr_closed_update := u\<rparr>)
      else if u = vr_closed_update s then (ResizeWait, s1)
      else (ResizeViews, s1\<lparr>vr_resize_issued := True\<rparr>))"
      using run [symmetric, unfolded s1f] 3 by (simp split del: if_split)
    note on = that(3) [OF s1_def m(3) 3(5) 3(2) 3(1) m(1,2) 3(3)]
    have closed: "\<not> ?bad \<Longrightarrow> \<not> ?temp \<Longrightarrow> list_all gate_closed ?f \<Longrightarrow> feeds_closed ids vs"
      by (auto simp: feeds_closed_def list_all_iff list_ex_iff)
    consider ?bad | "\<not> ?bad" ?temp | "\<not> ?bad" "\<not> ?temp" "shared_view ?f"
      | "\<not> ?bad" "\<not> ?temp" "\<not> shared_view ?f" "vr_resize_issued s \<or> \<not> list_all gate_closed ?f"
      | "\<not> ?bad" "\<not> ?temp" "\<not> shared_view ?f" "\<not> vr_resize_issued s" "list_all gate_closed ?f"
      by blast
    then show thesis
    proof cases
      case 1
      with r s1g that(2) [of s1] show thesis by simp
    next
      case b: 2
      with r on show thesis by simp
    next
      case c: 3
      with r s1g that(2) [of s1] show thesis by simp
    next
      case d: 4
      with r on show thesis by (simp split: if_splits)
    next
      case e: 5
      with r closed on show thesis by (simp split: if_splits)
    qed
  qed
qed

lemma resize_rel_frame:
  assumes "resize_rel evs s" and "vr_owner s' = vr_owner s" "vr_ids s' = vr_ids s"
    and "vr_pending s' = vr_pending s" and "vr_closed_seen s' \<Longrightarrow> vr_closed_seen s \<and>
      vr_closed_update s' = vr_closed_update s \<and> vr_last_update s \<le> vr_last_update s'"
    and "vr_resize_issued s' \<longrightarrow> vr_resize_issued s \<or> vr_pending s"
  shows "resize_rel (evs @ [ev]) s'"
  using assms unfolding resize_rel_def by fastforce

lemma resize_rel_failed: "resize_rel evs (resize_mark_failed s)"
  by (simp add: resize_rel_def resize_mark_failed_def)

interpretation resize_history: traced resize_step resize_clear resize_rel
proof
  show "resize_rel [] resize_clear"
    by (simp add: resize_rel_def resize_clear_def)
next
  fix evs s ev
  assume IH: "resize_rel evs s"
  show "resize_rel (evs @ [ev]) (resize_step ev s)"
  proof (cases ev)
    case (ResizeObserve m ids u vs)
    obtain a s' where o: "resize_observe m ids u vs s = (a, s')"
      by force
    then have st: "resize_step ev s = s'"
      using ResizeObserve by simp
    from o show ?thesis
    proof (cases rule: resize_observe_cases)
      case 1
      then show ?thesis
        using st resize_rel_frame [OF IH] by simp
    next
      case (2 s1)
      then show ?thesis
        using st resize_rel_failed by simp
    next
      case (3 s1)
      then consider "vr_closed_seen s' \<Longrightarrow> vr_closed_seen s \<and> vr_closed_update s' = vr_closed_update s"
          "vr_owner s' = vr_owner s" "vr_ids s' = vr_ids s" "vr_pending s' = vr_pending s" "vr_last_update s' = u"
        | "s' = s1\<lparr>vr_closed_seen := True, vr_closed_update := u\<rparr>" "feeds_closed ids vs"
        by fastforce
      then show ?thesis
      proof cases
        case 1
        show ?thesis
          unfolding st by (rule resize_rel_frame [OF IH]) (use 1 3 in auto)
      next
        case 2
        then show ?thesis
          using 3 IH ResizeObserve unfolding st by (auto simp: resize_rel_def)
      qed
    qed
  next
    case (ResizeBegin m ids)
    then show ?thesis
      using IH resize_rel_frame [OF IH, of s] resize_rel_failed
      by (auto simp: resize_begin_def resize_rel_def)
  next
    case (ResizeFinish m ids)
    then show ?thesis
      using resize_rel_frame [OF IH, of s] resize_rel_failed
      by (auto simp: resize_finish_def) (simp add: resize_rel_def resize_clear_def)
  next
    case ResizeRelease
    then show ?thesis
      using resize_rel_frame [OF IH, of "resize_release s"] by (auto simp: resize_release_def)
  next
    case ResizeClear
    then show ?thesis
      by (simp add: resize_rel_def resize_clear_def)
  next
    case ResizeMarkFailed
    then show ?thesis
      using resize_rel_failed by simp
  qed
qed

text \<open>A resize is issued only for the pair the recovery began with, on an update strictly later
  than one that already saw every owned view ready, distinct and closed, and only while no
  resize is outstanding.\<close>

theorem resize_needs_two_closed_updates:
  assumes "s = fold resize_step evs resize_clear"
    and "resize_observe m ids u views s = (ResizeViews, s')"
  shows "m = vr_owner s \<and> ids = vr_ids s \<and> resize_identity m ids \<and> feeds_closed ids views \<and>
    \<not> shared_view (take (feed_count ids) views) \<and> \<not> vr_resize_issued s \<and> vr_resize_issued s' \<and>
    (\<exists>u0 vs0. u0 < u \<and> ResizeObserve m ids u0 vs0 \<in> set evs \<and> feeds_closed ids vs0)"
  using assms(2)
proof (cases rule: resize_observe_cases)
  case 1
  then show ?thesis by simp
next
  case (2 s1)
  then show ?thesis by simp
next
  case (3 s1)
  then have a: "feeds_closed ids views" "\<not> shared_view (take (feed_count ids) views)" "vr_closed_seen s"
    "u \<noteq> vr_closed_update s" "\<not> vr_resize_issued s" "vr_resize_issued s'"
    by auto
  have "resize_rel evs s"
    using resize_history.trace assms(1) by blast
  then obtain vs where vs: "ResizeObserve (vr_owner s) (vr_ids s) (vr_closed_update s) vs \<in> set evs"
    "feeds_closed (vr_ids s) vs" "vr_closed_update s \<le> vr_last_update s"
    using a(3) by (auto simp: resize_rel_def)
  have "vr_closed_update s < u"
    using vs(3) 3(2) a(4) by simp
  with a vs 3 show ?thesis
    by blast
qed

definition closed_pair :: "owned_view list" where
  "closed_pair = [closed_view, closed_view\<lparr>ov_view_address := 64, ov_view_index := 1\<rparr>, no_view, no_view]"

theorem resize_needs_two_closed_updates_witness:
  "\<exists>u0 vs0. u0 < 6 \<and> ResizeObserve demo_manager [3, 4, 0, 0] u0 vs0 \<in>
      set [ResizeBegin demo_manager [3, 4, 0, 0], ResizeObserve demo_manager [3, 4, 0, 0] 5 closed_pair] \<and>
    feeds_closed [3, 4, 0, 0] vs0"
proof -
  let ?evs = "[ResizeBegin demo_manager [3, 4, 0, 0], ResizeObserve demo_manager [3, 4, 0, 0] 5 closed_pair]"
  let ?s = "fold resize_step ?evs resize_clear"
  have "fst (resize_observe demo_manager [3, 4, 0, 0] 6 closed_pair ?s) = ResizeViews"
    by code_simp
  then obtain s' where "resize_observe demo_manager [3, 4, 0, 0] 6 closed_pair ?s = (ResizeViews, s')"
    by (metis prod.collapse)
  from resize_needs_two_closed_updates [OF refl this] show ?thesis
    by blast
qed

text \<open>The resizes a run issues, and the events that allow another one.\<close>

fun issued_resizes :: "resize_event list \<Rightarrow> resize_recovery \<Rightarrow> nat" where
  "issued_resizes [] s = 0"
| "issued_resizes (ev # evs) s =
     (case ev of ResizeObserve m ids u vs \<Rightarrow> if fst (resize_observe m ids u vs s) = ResizeViews then 1 else 0
      | _ \<Rightarrow> 0) + issued_resizes evs (resize_step ev s)"

definition renews :: "resize_event \<Rightarrow> bool" where
  "renews ev \<longleftrightarrow> (case ev of ResizeRelease \<Rightarrow> True | ResizeClear \<Rightarrow> True | ResizeFinish _ _ \<Rightarrow> True | _ \<Rightarrow> False)"

definition may_issue :: "resize_recovery \<Rightarrow> nat" where
  "may_issue s = (if vr_resize_issued s \<or> vr_failed s then 0 else 1)"

lemma issue_step:
  "(case ev of ResizeObserve m ids u vs \<Rightarrow> if fst (resize_observe m ids u vs s) = ResizeViews then 1 else 0
      | _ \<Rightarrow> 0) + may_issue (resize_step ev s) \<le> may_issue s + (if renews ev then 1 else 0)"
proof (cases ev)
  case (ResizeObserve m ids u vs)
  obtain a s' where o: "resize_observe m ids u vs s = (a, s')"
    by force
  then have "(if a = ResizeViews then 1 else 0) + may_issue s' \<le> may_issue s"
    by (cases rule: resize_observe_cases) (auto simp: may_issue_def resize_mark_failed_def)
  then show ?thesis
    using ResizeObserve o by (simp add: renews_def)
qed (auto simp: may_issue_def renews_def resize_mark_failed_def resize_begin_def resize_clear_def
    resize_finish_def resize_release_def)

lemma issued_resizes_bound:
  "issued_resizes evs s + may_issue (fold resize_step evs s) \<le> may_issue s + length (filter renews evs)"
proof (induction evs arbitrary: s)
  case Nil
  then show ?case by simp
next
  case (Cons ev evs)
  from Cons.IH [of "resize_step ev s"] issue_step [of s ev] show ?case
    by (cases "renews ev") simp_all
qed


subsection \<open>A retained pair resumes as itself\<close>

datatype retained_event =
  RpInspect manager_token pair_snapshot "owned_view list" | RpRebase "dimension list list"
| RpResized | RpRefuse

fun retained_step :: "retained_event \<Rightarrow> retained_profile \<Rightarrow> retained_profile" where
  "retained_step (RpInspect m p vs) s = snd (rp_inspect m p vs s)"
| "retained_step (RpRebase ds) s = rp_rebase ds s"
| "retained_step RpResized s = rp_resized s"
| "retained_step RpRefuse s = rp_refuse s"

text \<open>An inspection that finds the same pair under the same manager with every view settled, its
  own and closed.\<close>

definition proves_retained :: "manager_token \<Rightarrow> owned_ids \<Rightarrow> retained_event \<Rightarrow> bool" where
  "proves_retained own ids ev \<longleftrightarrow> (case ev of
     RpInspect m p vs \<Rightarrow> m = own \<and> pair_settled p \<and> sn_owner p = own \<and> sn_owned_ids p = ids \<and>
       list_all (\<lambda>v. ov_complete v \<and> ov_ready v \<and> ov_status v = OvReady \<and> ov_mode v = 2 \<and>
         gate_closed v) (take (feed_count ids) vs) \<and> \<not> rp_shared (take (feed_count ids) vs)
   | _ \<Rightarrow> False)"

lemma rp_scan_None:
  "rp_scan b ds vs = None \<Longrightarrow>
   list_all (\<lambda>v. ov_complete v \<and> ov_ready v \<and> ov_status v = OvReady \<and> ov_mode v = 2) vs"
  by (induction vs arbitrary: ds) (auto simp: rp_unsettled_def rp_foreign_def split: if_splits)

lemma rp_scan_never_ready [simp]: "rp_scan b ds vs \<noteq> Some RetainedReady"
  by (induction vs arbitrary: ds) auto

lemma rp_inspect_frame [simp]:
  "rp_owner (snd (rp_inspect m p vs s)) = rp_owner s" "rp_ids (snd (rp_inspect m p vs s)) = rp_ids s"
  "rp_id (snd (rp_inspect m p vs s)) = rp_id s"
  by (simp_all add: rp_inspect_def Let_def)

lemma rp_inspect_ready:
  assumes "rp_state (snd (rp_inspect m p vs s)) = RetainedReady"
  shows "rp_state s = RetainedReady \<and> rp_awaiting_pair s \<or>
    proves_retained (rp_owner s) (rp_ids s) (RpInspect m p vs)"
  using assms
  by (auto simp: rp_inspect_def Let_def proves_retained_def rp_matches_def list_all_iff list_ex_iff
      split: if_splits option.splits dest!: rp_scan_None)

definition retained_rel :: "retained_profile \<Rightarrow> retained_event list \<Rightarrow> retained_profile \<Rightarrow> bool" where
  "retained_rel s0 evs s \<longleftrightarrow> rp_owner s = rp_owner s0 \<and> rp_ids s = rp_ids s0 \<and> rp_id s = rp_id s0 \<and>
     (RpRefuse \<in> set evs \<or> rp_state s0 = RetainedRefused \<longrightarrow> rp_state s = RetainedRefused) \<and>
     (rp_state s = RetainedReady \<longrightarrow> rp_state s0 = RetainedReady \<or>
        list_ex (proves_retained (rp_owner s0) (rp_ids s0)) evs)"

lemma rp_inspect_refused: "rp_state s = RetainedRefused \<Longrightarrow> snd (rp_inspect m p vs s) = s"
  by (simp add: rp_inspect_def)

interpretation retained_history: traced retained_step s0 "retained_rel s0" for s0
proof
  show "retained_rel s0 [] s0"
    by (simp add: retained_rel_def)
next
  fix evs s ev
  assume IH: "retained_rel s0 evs s"
  show "retained_rel s0 (evs @ [ev]) (retained_step ev s)"
  proof (cases ev)
    case (RpInspect m p vs)
    then show ?thesis
      using IH rp_inspect_ready [of m p vs s] rp_inspect_refused [of s m p vs]
      by (auto simp: retained_rel_def)
  qed (use IH in \<open>auto simp: retained_rel_def rp_rebase_def rp_resized_def rp_refuse_def proves_retained_def\<close>)
qed

text \<open>A pair kept through an aircraft change resumes only as the pair it was: the snapshot that
  resumes has the manager and the ids recorded at the start, nothing refused it since, and some
  inspection saw all of its views ready, distinct and closed under that manager.\<close>

theorem retained_resumes_same_pair:
  assumes "s0 = rp_begin pid p dims s" and "any_owned (sn_owned_ids p)"
    and "rp_can_resume p' (fold retained_step evs s0)"
  shows "sn_owner p' = sn_owner p \<and> sn_owned_ids p' = sn_owned_ids p \<and> pair_settled p' \<and> pid \<noteq> 0 \<and>
    RpRefuse \<notin> set evs \<and> list_ex (proves_retained (sn_owner p) (sn_owned_ids p)) evs"
proof -
  let ?s = "fold retained_step evs s0"
  have rel: "retained_rel s0 evs ?s"
    by (rule retained_history.trace)
  have s0: "rp_owner s0 = sn_owner p" "rp_ids s0 = sn_owned_ids p" "rp_id s0 = pid"
    "rp_state s0 \<noteq> RetainedReady"
    using assms(1,2) by (simp_all add: rp_begin_def)
  have r: "rp_id ?s \<noteq> 0" "rp_state ?s = RetainedReady" "rp_matches p' ?s"
    using assms(3) by (simp_all add: rp_can_resume_def rp_ready_def rp_holding_def)
  from rel s0 r show ?thesis
    unfolding retained_rel_def rp_matches_def by auto
qed

definition settled_pair :: pair_snapshot where
  "settled_pair = empty_snapshot\<lparr>sn_state := Active, sn_owner := demo_manager, sn_owned_ids := [3, 4, 0, 0]\<rparr>"

definition kept_views :: "owned_view list" where
  "kept_views = [closed_view\<lparr>ov_resource_address := 40\<rparr>,
     closed_view\<lparr>ov_view_address := 64, ov_view_index := 1, ov_resource_address := 48\<rparr>, no_view, no_view]"

theorem retained_resumes_same_pair_witness:
  "list_ex (proves_retained demo_manager [3, 4, 0, 0]) [RpInspect demo_manager settled_pair kept_views]"
proof -
  let ?s0 = "rp_begin 7 settled_pair no_dimensions initial_retained"
  have 1: "any_owned (sn_owned_ids settled_pair)"
    by code_simp
  have 2: "rp_can_resume settled_pair (fold retained_step [RpInspect demo_manager settled_pair kept_views] ?s0)"
    by code_simp
  have 3: "sn_owner settled_pair = demo_manager" "sn_owned_ids settled_pair = [3, 4, 0, 0]"
    by (simp_all add: settled_pair_def)
  from retained_resumes_same_pair [OF refl 1 2] show ?thesis
    unfolding 3 by blast
qed

subsection \<open>The proven controller\<close>

datatype pose_event = PoseProve u64 u64 u64 u64 | PoseRefresh u64 u64 u64 u64 | PoseForget

fun pose_step :: "pose_event \<Rightarrow> pose_cache \<Rightarrow> pose_cache" where
  "pose_step (PoseProve u now ep rs) c = pose_prove u now ep rs c"
| "pose_step (PoseRefresh u now ep rs) c = snd (pose_refresh u now ep rs c)"
| "pose_step PoseForget c = pose_forget c"

definition pose_rel :: "pose_event list \<Rightarrow> pose_cache \<Rightarrow> bool" where
  "pose_rel evs c \<longleftrightarrow>
     (pc_session_user c \<noteq> 0 \<longrightarrow>
        (\<exists>now. PoseProve (pc_session_user c) now (pc_session_epoch c) (pc_session_resets c) \<in> set evs)) \<and>
     (pc_user c \<noteq> 0 \<longrightarrow> pc_user c = pc_session_user c \<and> pc_epoch c = pc_session_epoch c \<and>
        pc_resets c = pc_session_resets c)"

interpretation pose_history: traced pose_step initial_pose_cache pose_rel
proof
  show "pose_rel [] initial_pose_cache"
    by (simp add: pose_rel_def initial_pose_cache_def)
next
  fix evs c ev
  assume "pose_rel evs c"
  then show "pose_rel (evs @ [ev]) (pose_step ev c)"
    by (cases ev) (auto simp: pose_rel_def pose_prove_def pose_remember_def pose_refresh_def
        pose_forget_def session_proven_def split: if_splits)
qed

text \<open>A controller is reused without a walk only in the epoch and reset generation in which a public
  match proved it, less than a second after its last proof or refresh, and it is then the session
  proven one.\<close>

theorem pose_reuse_was_proven:
  assumes "c = fold pose_step evs initial_pose_cache" and "pose_reuse now epoch resets c \<noteq> 0"
  shows "pose_reuse now epoch resets c = session_proven epoch resets c \<and> epoch \<noteq> 0 \<and>
    unat now < unat (pc_proven_ms c) + 1000 \<and>
    (\<exists>t. PoseProve (pose_reuse now epoch resets c) t epoch resets \<in> set evs)"
proof -
  have g: "pc_user c \<noteq> 0" "epoch \<noteq> 0" "epoch = pc_epoch c" "resets = pc_resets c"
    "pc_proven_ms c \<le> now" "now - pc_proven_ms c < 1000" "pose_reuse now epoch resets c = pc_user c"
    using assms(2) by (auto simp: pose_reuse_def kMaximumAgeMs_def split: if_splits)
  have "unat (now - pc_proven_ms c) < 1000"
    using g(6) by (simp add: word_less_nat_alt)
  then have "unat now < unat (pc_proven_ms c) + 1000"
    using word_elapsed [OF g(5)] by linarith
  moreover have "pose_rel evs c"
    using pose_history.trace assms(1) by blast
  ultimately show ?thesis
    using g unfolding pose_rel_def session_proven_def by auto
qed

theorem pose_reuse_was_proven_witness:
  "\<exists>t. PoseProve 77 t 3 1 \<in> set [PoseProve 77 100 3 1, PoseForget, PoseRefresh 77 900 3 1]"
proof -
  let ?evs = "[PoseProve 77 100 3 1, PoseForget, PoseRefresh 77 900 3 1]"
  have r: "pose_reuse 1800 3 1 (fold pose_step ?evs initial_pose_cache) = 77"
    by code_simp
  then have "pose_reuse 1800 3 1 (fold pose_step ?evs initial_pose_cache) \<noteq> 0"
    by simp
  from pose_reuse_was_proven [OF refl this] r show ?thesis
    by simp
qed

end
