(* ===== verification/Submission_Proof.thy ===== *)
theory Submission_Proof
  imports Prelude
begin

text \<open>
  The ledger that proves where an overlay copy may be inserted in one
  \<open>ExecuteCommandLists\<close> call: \<open>PfdSubmissionProof\<close> of
  \<open>src/graphics/pfd_submission_proof.hpp\<close>.  One ledger follows one command-list recording;
  the batch functions combine the ledgers of all lists of a call.  The occupied slots
  \<open>[0, used_)\<close> of the fixed array are the list \<open>lg_slots\<close>; a Candidate or Overlay that the code
  returns as \<open>{}\<close> is \<open>no_candidate\<close> or \<open>no_overlay\<close>.  The \<open>D3D12\<close> constants have the values of
  the documented \<open>d3d12.h\<close> header.
\<close>

subsection \<open>Resource states\<close>

type_synonym rstate = u32

definition state_common :: rstate where "state_common = 0"
definition state_render_target :: rstate where "state_render_target = 0x4"
definition state_unordered_access :: rstate where "state_unordered_access = 0x8"
definition state_non_pixel_shader :: rstate where "state_non_pixel_shader = 0x40"
definition state_pixel_shader :: rstate where "state_pixel_shader = 0x80"
definition state_copy_dest :: rstate where "state_copy_dest = 0x400"
definition state_resolve_dest :: rstate where "state_resolve_dest = 0x1000"
definition all_subresources :: u32 where "all_subresources = 0xFFFFFFFF"
definition pass_allow_uav_writes :: u32 where "pass_allow_uav_writes = 1"

lemmas rstate_defs = state_common_def state_render_target_def state_unordered_access_def
  state_non_pixel_shader_def state_pixel_shader_def state_copy_dest_def state_resolve_dest_def

definition shader_mask :: rstate where
  "shader_mask = state_pixel_shader OR state_non_pixel_shader"

definition copy_restorable :: "rstate \<Rightarrow> bool" where
  "copy_restorable st \<longleftrightarrow> st AND NOT shader_mask = 0"

definition writable_gpu_state :: "rstate \<Rightarrow> bool" where
  "writable_gpu_state st \<longleftrightarrow> st AND (state_render_target OR state_unordered_access OR
     state_copy_dest OR state_resolve_dest) \<noteq> 0"

definition insertable_after :: "rstate \<Rightarrow> bool" where
  "insertable_after st \<longleftrightarrow> st = state_render_target \<or> st = state_unordered_access \<or>
     (st \<noteq> state_common \<and> st AND NOT shader_mask = 0)"

subsection \<open>The ledger\<close>

definition maximum_batch :: nat where "maximum_batch = 256"
definition maximum_resources :: nat where "maximum_resources = 64"

datatype refusal =
  RfNone | RfUnobserved | RfResetGeneration | RfExternal | RfClosedMutation | RfCloseFailed
| RfCloseGeneration | RfCloseTwice | RfOpenPass | RfPassScope | RfInvalidTransition
| RfResourceReuse | RfCapacity | RfTransitionChain | RfBarrierUncertainty | RfEnhancedBarrier
| RfUnsupportedCommand | RfBoundaryInvalidation | RfContended

definition refusal_name :: "refusal \<Rightarrow> string" where
  "refusal_name r = (case r of
     RfNone \<Rightarrow> ''none'' | RfUnobserved \<Rightarrow> ''unobserved'' | RfResetGeneration \<Rightarrow> ''reset_generation''
   | RfExternal \<Rightarrow> ''external'' | RfClosedMutation \<Rightarrow> ''closed_mutation''
   | RfCloseFailed \<Rightarrow> ''close_failed'' | RfCloseGeneration \<Rightarrow> ''close_generation''
   | RfCloseTwice \<Rightarrow> ''close_twice'' | RfOpenPass \<Rightarrow> ''open_pass'' | RfPassScope \<Rightarrow> ''pass_scope''
   | RfInvalidTransition \<Rightarrow> ''invalid_transition'' | RfResourceReuse \<Rightarrow> ''resource_reuse''
   | RfCapacity \<Rightarrow> ''capacity'' | RfTransitionChain \<Rightarrow> ''transition_chain''
   | RfBarrierUncertainty \<Rightarrow> ''barrier_uncertainty'' | RfEnhancedBarrier \<Rightarrow> ''enhanced_barrier''
   | RfUnsupportedCommand \<Rightarrow> ''unsupported_command''
   | RfBoundaryInvalidation \<Rightarrow> ''boundary_invalidation'' | RfContended \<Rightarrow> ''contended'')"

record display_key =
  dk_resource :: u64
  dk_generation :: u64

record candidate =
  cd_key :: display_key
  cd_recording :: u64
  cd_first_before :: rstate
  cd_after :: rstate
  cd_subresource :: u32

definition no_key :: display_key where
  "no_key = \<lparr>dk_resource = 0, dk_generation = 0\<rparr>"

definition no_candidate :: candidate where
  "no_candidate = \<lparr>cd_key = no_key, cd_recording = 0, cd_first_before = 0, cd_after = 0,
     cd_subresource = 0\<rparr>"

definition candidate_ok :: "candidate \<Rightarrow> bool" where
  "candidate_ok c \<longleftrightarrow> dk_resource (cd_key c) \<noteq> 0 \<and> dk_generation (cd_key c) \<noteq> 0 \<and> cd_recording c \<noteq> 0"

record slot =
  sl_key :: display_key
  sl_first_before :: rstate
  sl_after :: rstate
  sl_subresource :: u32
  sl_prefix_blocker :: u32
  sl_seen :: bool
  sl_exit :: bool
  sl_prefix_exit :: bool
  sl_leading_exit :: bool
  sl_wrote :: bool
  sl_entry_clean :: bool

definition fresh_slot :: slot where
  "fresh_slot = \<lparr>sl_key = no_key, sl_first_before = 0, sl_after = 0, sl_subresource = 0,
     sl_prefix_blocker = u32_max, sl_seen = False, sl_exit = False, sl_prefix_exit = False,
     sl_leading_exit = False, sl_wrote = False, sl_entry_clean = False\<rparr>"

record ledger =
  lg_slots :: "slot list"
  lg_recording :: u64
  lg_known :: bool
  lg_closed :: bool
  lg_active_pass :: bool
  lg_barrier_only :: bool
  lg_prefix_interference :: bool
  lg_first_gpu_work :: u32
  lg_prefix_blocker :: u32
  lg_refusal :: refusal

definition initial_ledger :: ledger where
  "initial_ledger = \<lparr>lg_slots = [], lg_recording = 0, lg_known = False, lg_closed = False,
     lg_active_pass = False, lg_barrier_only = True, lg_prefix_interference = False,
     lg_first_gpu_work = u32_max, lg_prefix_blocker = u32_max, lg_refusal = RfUnobserved\<rparr>"

definition diagnostic_flags :: "u64 \<Rightarrow> ledger \<Rightarrow> u32" where
  "diagnostic_flags generation s =
     (if lg_known s then 1 else 0) OR (if lg_closed s then 2 else 0) OR
     (if lg_active_pass s then 4 else 0) OR (if lg_barrier_only s then 8 else 0) OR
     (if generation \<noteq> 0 \<and> generation = lg_recording s then 16 else 0)"

definition reset :: "u64 \<Rightarrow> bool \<Rightarrow> ledger \<Rightarrow> ledger" where
  "reset generation observed s =
     (let advances = generation \<noteq> 0 \<and> generation > lg_recording s;
          known = advances \<and> observed
      in s\<lparr>lg_slots := [],
           lg_recording := (if generation > lg_recording s then generation else lg_recording s),
           lg_known := known,
           lg_refusal := (if known then RfNone else if advances then RfUnobserved else RfResetGeneration),
           lg_closed := False, lg_active_pass := False, lg_barrier_only := True,
           lg_prefix_interference := False, lg_first_gpu_work := u32_max,
           lg_prefix_blocker := u32_max\<rparr>)"

definition invalidate :: "refusal \<Rightarrow> ledger \<Rightarrow> ledger" where
  "invalidate reason s =
     s\<lparr>lg_refusal := (if lg_known s then reason else lg_refusal s), lg_known := False\<rparr>"

definition close :: "u64 \<Rightarrow> bool \<Rightarrow> ledger \<Rightarrow> ledger" where
  "close generation succeeded s =
     (if \<not> lg_known s \<or> lg_closed s \<or> lg_active_pass s \<or> generation \<noteq> lg_recording s \<or> \<not> succeeded
      then invalidate
             (if lg_closed s then RfCloseTwice
              else if lg_active_pass s then RfOpenPass
              else if generation \<noteq> lg_recording s then RfCloseGeneration
              else RfCloseFailed) s
      else s\<lparr>lg_closed := True\<rparr>)"

text \<open>\<open>open()\<close>: recording goes on; otherwise the caller invalidates.\<close>

definition recording_open :: "ledger \<Rightarrow> bool" where
  "recording_open s \<longleftrightarrow> lg_known s \<and> \<not> lg_closed s"

definition promote_common :: "u32 \<Rightarrow> slot \<Rightarrow> slot" where
  "promote_common operation sl =
     (if sl_seen sl \<and> sl_after sl = state_common then
        let sl1 = sl\<lparr>sl_wrote := True\<rparr>
        in if \<not> sl_prefix_exit sl1 then sl1
           else sl1\<lparr>sl_prefix_exit := False,
                    sl_prefix_blocker := (if sl_prefix_blocker sl1 = u32_max then operation
                                          else sl_prefix_blocker sl1)\<rparr>
      else sl)"

definition gpu_work :: "u32 \<Rightarrow> bool \<Rightarrow> ledger \<Rightarrow> ledger" where
  "gpu_work operation may_render_target s =
     (if \<not> recording_open s then invalidate RfClosedMutation s
      else
        let s1 = s\<lparr>lg_barrier_only := False,
                   lg_first_gpu_work := (if lg_first_gpu_work s = u32_max then operation
                                         else lg_first_gpu_work s)\<rparr>
        in if may_render_target
           then s1\<lparr>lg_prefix_interference := True,
                   lg_prefix_blocker := (if lg_prefix_blocker s1 = u32_max then operation
                                         else lg_prefix_blocker s1),
                   lg_slots := map (promote_common operation) (lg_slots s1)\<rparr>
           else s1)"

definition state_disjoint_work :: "u32 \<Rightarrow> ledger \<Rightarrow> ledger" where
  "state_disjoint_work operation s = gpu_work operation False s"

definition begin_pass :: "u32 \<Rightarrow> bool \<Rightarrow> ledger \<Rightarrow> ledger" where
  "begin_pass flags ordinary_access s =
     (if \<not> recording_open s then invalidate RfClosedMutation s
      else
        let s1 = gpu_work 68 True s
        in if lg_active_pass s1 \<or> \<not> ordinary_access \<or> flags AND NOT pass_allow_uav_writes \<noteq> 0
           then invalidate RfPassScope s1
           else s1\<lparr>lg_active_pass := True\<rparr>)"

definition end_pass :: "ledger \<Rightarrow> ledger" where
  "end_pass s =
     (if \<not> recording_open s then invalidate RfClosedMutation s
      else if \<not> lg_active_pass s then invalidate RfPassScope s
      else s\<lparr>lg_active_pass := False\<rparr>)"

text \<open>One transition of a known display, on its slot.\<close>

definition observe_slot ::
  "bool \<Rightarrow> u32 \<Rightarrow> rstate \<Rightarrow> rstate \<Rightarrow> u32 \<Rightarrow> slot \<Rightarrow> slot" where
  "observe_slot interference blocker before after subresource sl =
     (let sl1 = (if \<not> sl_seen sl \<and> before = state_render_target \<and> copy_restorable after
                 then sl\<lparr>sl_leading_exit := True, sl_prefix_exit := \<not> interference,
                         sl_prefix_blocker := (if interference then blocker else u32_max)\<rparr>
                 else sl);
          sl2 = sl1\<lparr>sl_seen := True, sl_after := after, sl_subresource := subresource,
                    sl_exit := (before = state_render_target \<and> copy_restorable after),
                    sl_wrote := sl_wrote sl1 \<or> writable_gpu_state after\<rparr>
      in if sl_prefix_exit sl2 \<and> writable_gpu_state after
         then sl2\<lparr>sl_prefix_exit := False,
                  sl_prefix_blocker := (if sl_prefix_blocker sl2 = u32_max then 26
                                        else sl_prefix_blocker sl2)\<rparr>
         else sl2)"

definition same_resource :: "display_key \<Rightarrow> slot \<Rightarrow> bool" where
  "same_resource k sl \<longleftrightarrow> dk_resource (sl_key sl) = dk_resource k"

definition observe_legacy :: "display_key \<Rightarrow> rstate \<Rightarrow> rstate \<Rightarrow> u32 \<Rightarrow> u32 \<Rightarrow> ledger \<Rightarrow> ledger" where
  "observe_legacy key before after subresource flags s =
     (if \<not> recording_open s then invalidate RfClosedMutation s
      else if lg_active_pass s \<or> dk_resource key = 0 \<or> dk_generation key = 0 \<or> flags \<noteq> 0 \<or>
              (subresource \<noteq> 0 \<and> subresource \<noteq> all_subresources) \<or> before = after
      then invalidate RfInvalidTransition s
      else
        let observe = observe_slot (lg_prefix_interference s) (lg_prefix_blocker s) before after subresource
        in case first_index (same_resource key) (lg_slots s) of
             Some i \<Rightarrow>
               let sl = lg_slots s ! i in
               if sl_key sl \<noteq> key then invalidate RfResourceReuse s
               else if sl_seen sl \<and> sl_after sl \<noteq> before then invalidate RfTransitionChain s
               else s\<lparr>lg_slots := (lg_slots s)[i := observe sl]\<rparr>
           | None \<Rightarrow>
               if length (lg_slots s) \<ge> maximum_resources then invalidate RfCapacity s
               else s\<lparr>lg_slots := lg_slots s @
                       [observe (fresh_slot\<lparr>sl_key := key, sl_first_before := before,
                                            sl_entry_clean := \<not> lg_prefix_interference s\<rparr>)]\<rparr>)"

definition compute_slot :: "u32 \<Rightarrow> slot \<Rightarrow> slot" where
  "compute_slot operation sl =
     (if \<not> sl_seen sl then sl
      else if sl_after sl \<noteq> state_common \<and> sl_after sl AND state_unordered_access = 0 then sl
      else sl\<lparr>sl_wrote := True, sl_prefix_exit := False,
              sl_prefix_blocker := (if sl_prefix_blocker sl = u32_max then operation
                                    else sl_prefix_blocker sl)\<rparr>)"

definition compute_touches :: "slot \<Rightarrow> bool" where
  "compute_touches sl \<longleftrightarrow> sl_seen sl \<and>
     (sl_after sl = state_common \<or> sl_after sl AND state_unordered_access \<noteq> 0)"

definition compute_work :: "u32 \<Rightarrow> ledger \<Rightarrow> ledger" where
  "compute_work operation s =
     (let s1 = state_disjoint_work operation s in
      if \<not> recording_open s1 then invalidate RfClosedMutation s1
      else s1\<lparr>lg_slots := map (compute_slot operation) (lg_slots s1),
              lg_prefix_blocker :=
                (if lg_prefix_blocker s1 = u32_max \<and> list_ex compute_touches (lg_slots s1)
                 then operation else lg_prefix_blocker s1)\<rparr>)"

text \<open>A write that keeps the state an earlier list established.\<close>

definition carried_slot :: "rstate \<Rightarrow> u32 \<Rightarrow> slot \<Rightarrow> slot" where
  "carried_slot st operation sl =
     (let sl1 = (if \<not> sl_seen sl
                 then sl\<lparr>sl_first_before := st, sl_after := st, sl_seen := True,
                         sl_entry_clean := (st = state_render_target)\<rparr>
                 else sl)
      in sl1\<lparr>sl_wrote := True,
             sl_prefix_blocker := (if sl_prefix_exit sl1 \<and> sl_prefix_blocker sl1 = u32_max
                                   then operation else sl_prefix_blocker sl1),
             sl_prefix_exit := False\<rparr>)"

definition note_carried_write :: "display_key \<Rightarrow> rstate \<Rightarrow> u32 \<Rightarrow> ledger \<Rightarrow> ledger" where
  "note_carried_write key st operation s =
     (if \<not> recording_open s then invalidate RfClosedMutation s
      else if dk_resource key = 0 \<or> dk_generation key = 0 then s
      else case first_index (same_resource key) (lg_slots s) of
             Some i \<Rightarrow>
               let sl = lg_slots s ! i in
               if sl_key sl \<noteq> key then invalidate RfResourceReuse s
               else if sl_seen sl \<and> sl_after sl \<noteq> st then s
               else s\<lparr>lg_slots := (lg_slots s)[i := carried_slot st operation sl]\<rparr>
           | None \<Rightarrow>
               if length (lg_slots s) = maximum_resources then invalidate RfCapacity s
               else s\<lparr>lg_slots := lg_slots s @ [carried_slot st operation (fresh_slot\<lparr>sl_key := key\<rparr>)]\<rparr>)"

definition note_render_target_write :: "display_key \<Rightarrow> u32 \<Rightarrow> ledger \<Rightarrow> ledger" where
  "note_render_target_write key operation s =
     note_carried_write key state_render_target operation (gpu_work operation True s)"

definition note_unordered_access_write :: "display_key \<Rightarrow> u32 \<Rightarrow> ledger \<Rightarrow> ledger" where
  "note_unordered_access_write key operation s =
     note_carried_write key state_unordered_access operation (compute_work operation s)"

subsection \<open>What a closed recording proves\<close>

definition complete :: "u64 \<Rightarrow> ledger \<Rightarrow> bool" where
  "complete generation s \<longleftrightarrow> lg_known s \<and> lg_closed s \<and> \<not> lg_active_pass s \<and> generation \<noteq> 0 \<and>
     generation = lg_recording s"

definition suffix_site :: "ledger \<Rightarrow> slot \<Rightarrow> bool" where
  "suffix_site s sl \<longleftrightarrow> sl_seen sl \<and> sl_wrote sl \<and> insertable_after (sl_after sl) \<and>
     (sl_after sl \<noteq> state_render_target \<or> \<not> lg_barrier_only s)"

definition slot_candidate :: "u64 \<Rightarrow> slot \<Rightarrow> candidate" where
  "slot_candidate generation sl = \<lparr>cd_key = sl_key sl, cd_recording = generation,
     cd_first_before = sl_first_before sl, cd_after = sl_after sl, cd_subresource = sl_subresource sl\<rparr>"

text \<open>The candidate of the first slot that passes a test, else none.\<close>

definition find_candidate :: "(slot \<Rightarrow> bool) \<Rightarrow> u64 \<Rightarrow> ledger \<Rightarrow> candidate" where
  "find_candidate P generation s =
     (case find P (lg_slots s) of Some sl \<Rightarrow> slot_candidate generation sl | None \<Rightarrow> no_candidate)"

definition index_candidate :: "(slot \<Rightarrow> bool) \<Rightarrow> nat \<Rightarrow> u64 \<Rightarrow> ledger \<Rightarrow> candidate" where
  "index_candidate P index generation s =
     (if index < length (lg_slots s) \<and> P (lg_slots s ! index)
      then slot_candidate generation (lg_slots s ! index) else no_candidate)"

definition tail_candidate :: "display_key \<Rightarrow> u64 \<Rightarrow> ledger \<Rightarrow> candidate" where
  "tail_candidate key generation s =
     (if complete generation s \<and> lg_barrier_only s
      then find_candidate (\<lambda>sl. sl_key sl = key \<and> sl_seen sl \<and> sl_exit sl) generation s
      else no_candidate)"

definition tail_candidate_at :: "nat \<Rightarrow> u64 \<Rightarrow> ledger \<Rightarrow> candidate" where
  "tail_candidate_at index generation s =
     (if complete generation s \<and> lg_barrier_only s
      then index_candidate (\<lambda>sl. sl_seen sl \<and> sl_exit sl) index generation s else no_candidate)"

definition prefix_candidate :: "display_key \<Rightarrow> u64 \<Rightarrow> ledger \<Rightarrow> candidate" where
  "prefix_candidate key generation s =
     (if complete generation s
      then find_candidate (\<lambda>sl. sl_key sl = key \<and> sl_seen sl \<and> sl_prefix_exit sl) generation s
      else no_candidate)"

definition prefix_candidate_at :: "nat \<Rightarrow> u64 \<Rightarrow> ledger \<Rightarrow> candidate" where
  "prefix_candidate_at index generation s =
     (if complete generation s
      then index_candidate (\<lambda>sl. sl_seen sl \<and> sl_prefix_exit sl) index generation s else no_candidate)"

definition suffix_candidate :: "display_key \<Rightarrow> u64 \<Rightarrow> ledger \<Rightarrow> candidate" where
  "suffix_candidate key generation s =
     (if complete generation s
      then find_candidate (\<lambda>sl. suffix_site s sl \<and> sl_key sl = key) generation s else no_candidate)"

definition suffix_candidate_at :: "nat \<Rightarrow> u64 \<Rightarrow> ledger \<Rightarrow> candidate" where
  "suffix_candidate_at index generation s =
     (if complete generation s then index_candidate (suffix_site s) index generation s else no_candidate)"

definition activity_candidate :: "display_key \<Rightarrow> u64 \<Rightarrow> ledger \<Rightarrow> candidate" where
  "activity_candidate key generation s =
     (if complete generation s
      then find_candidate (\<lambda>sl. sl_key sl = key \<and> sl_seen sl \<and> sl_leading_exit sl) generation s
      else no_candidate)"

definition activity_candidate_at :: "nat \<Rightarrow> u64 \<Rightarrow> ledger \<Rightarrow> candidate" where
  "activity_candidate_at index generation s =
     (if complete generation s
      then index_candidate (\<lambda>sl. sl_seen sl \<and> sl_leading_exit sl) index generation s else no_candidate)"

definition prefix_refusal :: "nat \<Rightarrow> u64 \<Rightarrow> ledger \<Rightarrow> display_key \<times> u32" where
  "prefix_refusal index generation s =
     (if index < length (lg_slots s) \<and> complete generation s \<and> sl_seen (lg_slots s ! index) \<and>
         sl_prefix_blocker (lg_slots s ! index) \<noteq> u32_max
      then (sl_key (lg_slots s ! index), sl_prefix_blocker (lg_slots s ! index))
      else (no_key, u32_max))"

definition overwrote :: "display_key \<Rightarrow> u64 \<Rightarrow> ledger \<Rightarrow> bool" where
  "overwrote key generation s \<longleftrightarrow> complete generation s \<and>
     list_ex (\<lambda>sl. sl_key sl = key \<and> sl_seen sl \<and> sl_wrote sl) (lg_slots s)"

definition mentions :: "display_key \<Rightarrow> u64 \<Rightarrow> ledger \<Rightarrow> bool" where
  "mentions key generation s \<longleftrightarrow> complete generation s \<and> dk_resource key \<noteq> 0 \<and>
     list_ex (\<lambda>sl. sl_seen sl \<and> sl_key sl = key) (lg_slots s)"

record settlement =
  st_key :: display_key
  st_after :: rstate
  st_restorable :: bool
  st_wrote :: bool

definition settlement_row :: "ledger \<Rightarrow> slot \<Rightarrow> settlement" where
  "settlement_row s sl = \<lparr>st_key = sl_key sl, st_after = sl_after sl,
     st_restorable = (insertable_after (sl_after sl) \<and> (suffix_site s sl \<or> sl_exit sl \<or> sl_prefix_exit sl)),
     st_wrote = sl_wrote sl\<rparr>"

definition settlements :: "u64 \<Rightarrow> nat \<Rightarrow> ledger \<Rightarrow> settlement list" where
  "settlements generation capacity s =
     (if capacity = 0 \<or> \<not> complete generation s then []
      else take capacity (map (settlement_row s)
             (filter (\<lambda>sl. sl_seen sl \<and> dk_resource (sl_key sl) \<noteq> 0) (lg_slots s))))"

subsection \<open>A batch of recordings\<close>

text \<open>A null proof pointer is \<open>None\<close>.\<close>

type_synonym batch = "(ledger option \<times> u64) list"

definition batch_allows :: "batch \<Rightarrow> bool" where
  "batch_allows b \<longleftrightarrow> b \<noteq> [] \<and> length b \<le> maximum_batch \<and>
     list_all (\<lambda>(p, g). case p of None \<Rightarrow> False | Some s \<Rightarrow> complete g s) b"

text \<open>The ledger and generation of list \<open>i\<close>.\<close>

definition proof_at :: "batch \<Rightarrow> nat \<Rightarrow> ledger" where
  "proof_at b i = (case fst (b ! i) of Some s \<Rightarrow> s | None \<Rightarrow> initial_ledger)"

definition gen_at :: "batch \<Rightarrow> nat \<Rightarrow> u64" where
  "gen_at b i = snd (b ! i)"

definition batch_candidate :: "batch \<Rightarrow> nat \<Rightarrow> display_key \<Rightarrow> candidate" where
  "batch_candidate b after_list key =
     (if after_list \<ge> length b \<or> \<not> batch_allows b then no_candidate
      else tail_candidate key (gen_at b after_list) (proof_at b after_list))"

record overlay =
  ol_candidate :: candidate
  ol_list :: "nat option"
  ol_before :: bool

definition no_overlay :: overlay where
  "no_overlay = \<lparr>ol_candidate = no_candidate, ol_list = None, ol_before = False\<rparr>"

definition overlay_ok :: "overlay \<Rightarrow> bool" where
  "overlay_ok o' \<longleftrightarrow> candidate_ok (ol_candidate o') \<and> ol_list o' \<noteq> None"

text \<open>One list of the scan: the last suffix seen so far, and the first tail or prefix.\<close>

definition scan_list :: "batch \<Rightarrow> display_key \<Rightarrow> nat \<Rightarrow> overlay \<times> overlay \<Rightarrow> overlay \<times> overlay" where
  "scan_list b key i = (\<lambda>(write, safe).
     let suffix = suffix_candidate key (gen_at b i) (proof_at b i);
         tail = tail_candidate key (gen_at b i) (proof_at b i);
         prefix = prefix_candidate key (gen_at b i) (proof_at b i)
     in (if candidate_ok suffix
         then \<lparr>ol_candidate = suffix, ol_list = Some i, ol_before = False\<rparr> else write,
         if candidate_ok (ol_candidate safe) then safe
         else if candidate_ok tail then \<lparr>ol_candidate = tail, ol_list = Some i, ol_before = False\<rparr>
         else if candidate_ok prefix
         then \<lparr>ol_candidate = prefix, ol_list = Some i, ol_before = True\<rparr>
         else safe))"

definition batch_overlay :: "batch \<Rightarrow> display_key \<Rightarrow> overlay" where
  "batch_overlay b key =
     (if \<not> batch_allows b then no_overlay
      else (case fold (scan_list b key) [0..<length b] (no_overlay, no_overlay) of
        (write, safe) \<Rightarrow>
          if candidate_ok (ol_candidate write) then write
          else if candidate_ok (ol_candidate safe) \<and>
                  list_ex (\<lambda>i. overwrote key (gen_at b i) (proof_at b i))
                    [the (ol_list safe) + (if ol_before safe then 0 else 1)..<length b]
          then no_overlay
          else safe))"

record batch_entry_result =
  be_list :: "nat option"
  be_state :: rstate
  be_clean :: bool
  be_insertable :: bool

definition batch_entry :: "batch \<Rightarrow> display_key \<Rightarrow> batch_entry_result" where
  "batch_entry b key =
     (let none = \<lparr>be_list = None, be_state = 0, be_clean = False, be_insertable = False\<rparr>;
          hit = (\<lambda>i. find (\<lambda>sl. sl_key sl = key \<and> sl_seen sl \<and> sl_wrote sl) (lg_slots (proof_at b i)))
      in if \<not> batch_allows b \<or> dk_resource key = 0 \<or> dk_generation key = 0 then none
         else case find (\<lambda>i. hit i \<noteq> None) [0..<length b] of
                None \<Rightarrow> none
              | Some i \<Rightarrow>
                  let sl = the (hit i)
                  in \<lparr>be_list = Some i, be_state = sl_first_before sl, be_clean = sl_entry_clean sl,
                      be_insertable = insertable_after (sl_first_before sl)\<rparr>)"

text \<open>\<open>After\<close>: the state the last list that names the display leaves, \<open>None\<close> when none does.\<close>

definition batch_after :: "batch \<Rightarrow> display_key \<Rightarrow> rstate option" where
  "batch_after b key =
     (let hit = (\<lambda>i. find (\<lambda>sl. sl_key sl = key \<and> sl_seen sl) (lg_slots (proof_at b i)))
      in if \<not> batch_allows b \<or> dk_resource key = 0 \<or> dk_generation key = 0 then None
         else case find (\<lambda>i. hit i \<noteq> None) (rev [0..<length b]) of
                None \<Rightarrow> None | Some i \<Rightarrow> Some (sl_after (the (hit i))))"

definition carried_overlay :: "batch \<Rightarrow> display_key \<Rightarrow> rstate \<Rightarrow> overlay" where
  "carried_overlay b key carried =
     (if \<not> batch_allows b \<or> dk_resource key = 0 \<or> dk_generation key = 0 \<or> \<not> insertable_after carried
      then no_overlay
      else if list_ex (\<lambda>i. mentions key (gen_at b i) (proof_at b i)) [0..<length b] then no_overlay
      else \<lparr>ol_candidate = \<lparr>cd_key = key, cd_recording = gen_at b (length b - 1),
              cd_first_before = carried, cd_after = carried, cd_subresource = 0\<rparr>,
            ol_list = Some (length b - 1), ol_before = False\<rparr>)"


subsection \<open>The recording as a display sees it\<close>

text \<open>
  The specification of one recording: the commands as they come, and per display key its current
  base-mip state, whether a write has reached it, and whether its first event was an exit from
  the render-target state before any work that could draw.
\<close>

datatype ledger_event =
  GpuWork u32 bool | ComputeWork u32 | BeginPass u32 bool | EndPass
| Transition display_key rstate rstate u32 u32 | WriteRenderTarget display_key u32
| WriteUnorderedAccess display_key u32 | Invalidate refusal | CloseRecording u64 bool

fun ledger_step :: "ledger_event \<Rightarrow> ledger \<Rightarrow> ledger" where
  "ledger_step (GpuWork op rt) s = gpu_work op rt s"
| "ledger_step (ComputeWork op) s = compute_work op s"
| "ledger_step (BeginPass f ord) s = begin_pass f ord s"
| "ledger_step EndPass s = end_pass s"
| "ledger_step (Transition k b a sub f) s = observe_legacy k b a sub f s"
| "ledger_step (WriteRenderTarget k op) s = note_render_target_write k op s"
| "ledger_step (WriteUnorderedAccess k op) s = note_unordered_access_write k op s"
| "ledger_step (Invalidate r) s = invalidate r s"
| "ledger_step (CloseRecording g ok) s = close g ok s"

record display_spec =
  ds_state :: "rstate option"
  ds_wrote :: bool
  ds_lead :: bool
  ds_drawn :: bool

definition untouched :: display_spec where
  "untouched = \<lparr>ds_state = None, ds_wrote = False, ds_lead = False, ds_drawn = False\<rparr>"

definition spec_draw :: "display_spec \<Rightarrow> display_spec" where
  "spec_draw d = d\<lparr>ds_drawn := True, ds_wrote := ds_wrote d \<or> ds_state d = Some state_common\<rparr>"

definition spec_compute :: "display_spec \<Rightarrow> display_spec" where
  "spec_compute d = d\<lparr>ds_wrote := ds_wrote d \<or> (case ds_state d of None \<Rightarrow> False
     | Some st \<Rightarrow> st = state_common \<or> st AND state_unordered_access \<noteq> 0)\<rparr>"

definition spec_transition :: "rstate \<Rightarrow> rstate \<Rightarrow> display_spec \<Rightarrow> display_spec" where
  "spec_transition b a d = d\<lparr>
     ds_lead := (if ds_state d = None
                 then b = state_render_target \<and> copy_restorable a \<and> \<not> ds_drawn d else ds_lead d),
     ds_state := Some a, ds_wrote := ds_wrote d \<or> writable_gpu_state a\<rparr>"

definition spec_write :: "rstate \<Rightarrow> display_spec \<Rightarrow> display_spec" where
  "spec_write st d = (if ds_state d = None then d\<lparr>ds_state := Some st, ds_wrote := True\<rparr>
     else if ds_state d = Some st then d\<lparr>ds_wrote := True\<rparr> else d)"

fun spec_step :: "display_key \<Rightarrow> ledger_event \<Rightarrow> display_spec \<Rightarrow> display_spec" where
  "spec_step k (GpuWork op rt) d = (if rt then spec_draw d else d)"
| "spec_step k (ComputeWork op) d = spec_compute d"
| "spec_step k (BeginPass f ord) d = spec_draw d"
| "spec_step k (Transition k' b a sub f) d = (if k' = k then spec_transition b a d else d)"
| "spec_step k (WriteRenderTarget k' op) d =
     (if k' = k then spec_write state_render_target (spec_draw d) else spec_draw d)"
| "spec_step k (WriteUnorderedAccess k' op) d =
     (if k' = k then spec_write state_unordered_access (spec_compute d) else spec_compute d)"
| "spec_step k _ d = d"

definition display_of :: "ledger_event list \<Rightarrow> display_key \<Rightarrow> display_spec" where
  "display_of evs k = fold (spec_step k) evs untouched"

subsection \<open>The ledger refines the specification\<close>

interpretation slots: keyed_table sl_key .

definition slot_matches :: "slot option \<Rightarrow> display_spec \<Rightarrow> bool" where
  "slot_matches o' d \<longleftrightarrow> (case o' of
     None \<Rightarrow> ds_state d = None \<and> \<not> ds_wrote d \<and> \<not> ds_lead d
   | Some sl \<Rightarrow> sl_seen sl \<and> ds_state d = Some (sl_after sl) \<and> sl_wrote sl = ds_wrote d \<and>
       sl_prefix_exit sl = (ds_lead d \<and> \<not> ds_wrote d))"

definition key_ok :: "display_key \<Rightarrow> bool" where
  "key_ok k \<longleftrightarrow> dk_resource k \<noteq> 0 \<and> dk_generation k \<noteq> 0"

text \<open>While the recording is known, every valid key's slot is its specification.\<close>

definition ledger_rel :: "(display_key \<Rightarrow> display_spec) \<Rightarrow> ledger \<Rightarrow> bool" where
  "ledger_rel d s \<longleftrightarrow> (lg_known s \<longrightarrow>
     (\<forall>k. key_ok k \<longrightarrow> slot_matches (slots.lookup k (lg_slots s)) (d k) \<and>
        ds_drawn (d k) = lg_prefix_interference s))"

lemma ledger_rel_unknown [simp]: "ledger_rel d (invalidate r s)"
  by (simp add: ledger_rel_def invalidate_def)

lemma promote_key [simp]: "sl_key (promote_common op sl) = sl_key sl"
  by (simp add: promote_common_def Let_def)

lemma compute_key [simp]: "sl_key (compute_slot op sl) = sl_key sl"
  by (simp add: compute_slot_def)

lemma observe_key [simp]: "sl_key (observe_slot i bl b a sub sl) = sl_key sl"
  by (simp add: observe_slot_def Let_def)

lemma carried_key [simp]: "sl_key (carried_slot st op sl) = sl_key sl"
  by (simp add: carried_slot_def Let_def)

lemma promote_matches:
  "slot_matches o' d \<Longrightarrow> slot_matches (map_option (promote_common op) o') (spec_draw d)"
  by (cases o') (auto simp: slot_matches_def promote_common_def spec_draw_def Let_def)

lemma compute_matches:
  "slot_matches o' d \<Longrightarrow> slot_matches (map_option (compute_slot op) o') (spec_compute d)"
  by (cases o') (auto simp: slot_matches_def compute_slot_def spec_compute_def)

lemma restorable_not_writable: "copy_restorable st \<Longrightarrow> \<not> writable_gpu_state st"
proof -
  let ?w = "state_render_target OR state_unordered_access OR state_copy_dest OR state_resolve_dest"
  assume "copy_restorable st"
  then have "st AND ?w = (st AND shader_mask) AND ?w"
    using and_not_0_absorb [of st shader_mask] by (simp only: copy_restorable_def)
  also have "\<dots> = st AND (shader_mask AND ?w)"
    by (simp only: and.assoc)
  also have "shader_mask AND ?w = 0"
    by (simp add: shader_mask_def rstate_defs)
  finally show ?thesis
    by (simp add: writable_gpu_state_def)
qed

lemma observe_matches:
  "slot_matches (Some sl) d \<Longrightarrow> slot_matches (Some (observe_slot i bl b a sub sl)) (spec_transition b a d)"
  by (auto simp: slot_matches_def observe_slot_def spec_transition_def Let_def)

lemma observe_fresh_matches:
  "slot_matches None d \<Longrightarrow> ds_drawn d = i \<Longrightarrow>
   slot_matches (Some (observe_slot i bl b a sub (fresh_slot\<lparr>sl_key := k, sl_first_before := b, sl_entry_clean := c\<rparr>)))
     (spec_transition b a d)"
  by (auto simp: slot_matches_def observe_slot_def spec_transition_def fresh_slot_def Let_def
      restorable_not_writable)

lemma carried_matches:
  "slot_matches (Some sl) d \<Longrightarrow> sl_after sl = st \<Longrightarrow>
   slot_matches (Some (carried_slot st op sl)) (spec_write st d)"
  by (auto simp: slot_matches_def carried_slot_def spec_write_def Let_def)

lemma carried_other: "slot_matches (Some sl) d \<Longrightarrow> sl_after sl \<noteq> st \<Longrightarrow> spec_write st d = d"
  by (simp add: slot_matches_def spec_write_def)

lemma carried_fresh_matches:
  "slot_matches None d \<Longrightarrow> slot_matches (Some (carried_slot st op (fresh_slot\<lparr>sl_key := k\<rparr>))) (spec_write st d)"
  by (auto simp: slot_matches_def carried_slot_def spec_write_def fresh_slot_def Let_def)

text \<open>Where the search finds the key, the table's lookup finds the same slot.\<close>

lemma found_lookup:
  assumes "first_index (same_resource k) xs = Some i" and "sl_key (xs ! i) = k"
  shows "slots.lookup k xs = Some (xs ! i)"
    and "sl_key x = k \<Longrightarrow> slots.lookup k' (xs[i := x]) = (if k' = k then Some x else slots.lookup k' xs)"
proof -
  from first_index_Some [OF assms(1)] have i: "i < length xs" "\<forall>j < i. sl_key (xs ! j) \<noteq> k"
    by (auto simp: same_resource_def)
  show *: "slots.lookup k' (xs[i := x]) = (if k' = k then Some x else slots.lookup k' xs)"
    if "sl_key x = k" for x k'
    using slots.lookup_update [OF i(1) assms(2) i(2) that] .
  show "slots.lookup k xs = Some (xs ! i)"
    using * [OF assms(2), of k] by simp
qed

lemma missing_lookup:
  assumes "first_index (same_resource k) xs = None"
  shows "slots.lookup k xs = None"
    and "sl_key x = k \<Longrightarrow> slots.lookup k' (xs @ [x]) = (if k' = k then Some x else slots.lookup k' xs)"
proof -
  show *: "slots.lookup k xs = None"
    using assms by (auto simp: first_index_None slots.lookup_None same_resource_def)
  show "sl_key x = k \<Longrightarrow> slots.lookup k' (xs @ [x]) = (if k' = k then Some x else slots.lookup k' xs)"
    using * by (auto simp: slots.lookup_append split: option.splits)
qed


lemma ledger_relD:
  assumes "ledger_rel d s" and "recording_open s" and "key_ok k"
  shows "slot_matches (slots.lookup k (lg_slots s)) (d k)" "ds_drawn (d k) = lg_prefix_interference s"
  using assms by (simp_all add: ledger_rel_def recording_open_def)

lemma gpu_work_rel:
  assumes "ledger_rel d s"
  shows "ledger_rel (\<lambda>k. if rt then spec_draw (d k) else d k) (gpu_work op rt s)"
proof (cases "recording_open s")
  case True
  then show ?thesis
    using ledger_relD [OF assms True] promote_matches
    by (auto simp: gpu_work_def ledger_rel_def Let_def slots.lookup_map) (simp add: spec_draw_def)
next
  case False
  then show ?thesis by (simp add: gpu_work_def)
qed

lemma compute_work_rel:
  assumes "ledger_rel d s"
  shows "ledger_rel (\<lambda>k. spec_compute (d k)) (compute_work op s)"
proof (cases "recording_open (state_disjoint_work op s)")
  case True
  have "ledger_rel d (state_disjoint_work op s)"
    using gpu_work_rel [OF assms, of False op] by (simp add: state_disjoint_work_def)
  note R = ledger_relD [OF this True]
  have "ds_drawn (spec_compute x) = ds_drawn x" for x
    by (simp add: spec_compute_def)
  then show ?thesis
    using True R compute_matches
    by (auto simp: compute_work_def ledger_rel_def Let_def slots.lookup_map)
next
  case False
  then show ?thesis by (simp add: compute_work_def Let_def)
qed

lemma ledger_rel_table:
  assumes "ledger_rel d s" and "recording_open s"
    and "lg_known s' \<Longrightarrow> lg_prefix_interference s' = lg_prefix_interference s"
    and "\<And>k'. key_ok k' \<Longrightarrow> slots.lookup k' (lg_slots s') = (if k' = k then o' else slots.lookup k' (lg_slots s))"
    and "key_ok k \<Longrightarrow> slot_matches o' (f (d k))" and "\<And>x. ds_drawn (f x) = ds_drawn x"
  shows "ledger_rel (\<lambda>k'. if k = k' then f (d k') else d k') s'"
  using assms ledger_relD [OF assms(1,2)] by (auto simp: ledger_rel_def)

lemma observe_legacy_rel:
  assumes rel: "ledger_rel d s"
  shows "ledger_rel (\<lambda>k'. if k = k' then spec_transition b a (d k') else d k') (observe_legacy k b a sub f s)"
proof (cases "\<not> recording_open s \<or> (lg_active_pass s \<or> dk_resource k = 0 \<or> dk_generation k = 0 \<or> f \<noteq> 0 \<or>
      (sub \<noteq> 0 \<and> sub \<noteq> all_subresources) \<or> b = a)")
  case True
  then show ?thesis by (auto simp: observe_legacy_def)
next
  case False
  then have op: "recording_open s" and k: "key_ok k"
    by (auto simp: key_ok_def)
  note R = ledger_relD [OF rel op k]
  have dr: "ds_drawn (spec_transition b a x) = ds_drawn x" for x
    by (simp add: spec_transition_def)
  let ?obs = "observe_slot (lg_prefix_interference s) (lg_prefix_blocker s) b a sub"
  show ?thesis
  proof (cases "first_index (same_resource k) (lg_slots s)")
    case (Some i)
    let ?sl = "lg_slots s ! i"
    show ?thesis
    proof (cases "sl_key ?sl = k \<and> (sl_seen ?sl \<longrightarrow> sl_after ?sl = b)")
      case True
      note L = found_lookup [OF Some conjunct1 [OF True]]
      have "slot_matches (Some (?obs ?sl)) (spec_transition b a (d k))"
        using R(1) L(1) by (intro observe_matches) simp
      moreover have "sl_key (?obs ?sl) = k"
        using True by simp
      ultimately show ?thesis
        using False Some True L(2) dr
        by (intro ledger_rel_table [OF rel op]) (auto simp: observe_legacy_def Let_def)
    next
      case False': False
      then show ?thesis
        using False Some by (auto simp: observe_legacy_def Let_def)
    qed
  next
    case None
    let ?sl = "fresh_slot\<lparr>sl_key := k, sl_first_before := b, sl_entry_clean := \<not> lg_prefix_interference s\<rparr>"
    note L = missing_lookup [OF None]
    have "slot_matches (Some (?obs ?sl)) (spec_transition b a (d k))"
      using R L(1) by (intro observe_fresh_matches) simp_all
    then show ?thesis
      using False None L(2) [of "?obs ?sl"] dr
      by (cases "length (lg_slots s) \<ge> maximum_resources")
        (auto simp: observe_legacy_def Let_def intro!: ledger_rel_table [OF rel op])
  qed
qed

lemma note_carried_rel:
  assumes rel: "ledger_rel d s"
  shows "ledger_rel (\<lambda>k'. if k = k' then spec_write st (d k') else d k') (note_carried_write k st op s)"
proof (cases "recording_open s \<and> key_ok k")
  case False
  show ?thesis
  proof (cases "recording_open s")
    case True
    with False have nk: "\<not> key_ok k" and eq: "note_carried_write k st op s = s"
      by (auto simp: note_carried_write_def key_ok_def)
    then show ?thesis
      using rel unfolding eq ledger_rel_def by auto
  next
    case False
    then show ?thesis by (simp add: note_carried_write_def)
  qed
next
  case True
  then have op: "recording_open s" and k: "key_ok k"
    by auto
  note R = ledger_relD [OF rel op k]
  have dr: "ds_drawn (spec_write st x) = ds_drawn x" for x
    by (simp add: spec_write_def)
  show ?thesis
  proof (cases "first_index (same_resource k) (lg_slots s)")
    case (Some i)
    let ?sl = "lg_slots s ! i"
    show ?thesis
    proof (cases "sl_key ?sl = k")
      case True
      note L = found_lookup [OF Some True]
      have M: "slot_matches (Some ?sl) (d k)"
        using R(1) L(1) by simp
      show ?thesis
      proof (cases "sl_after ?sl = st")
        case True': True
        have "slot_matches (Some (carried_slot st op ?sl)) (spec_write st (d k))"
          using M True' by (rule carried_matches)
        then show ?thesis
          using op k Some True True' L(2) [of "carried_slot st op ?sl"] dr
          by (intro ledger_rel_table [OF rel op]) (auto simp: note_carried_write_def key_ok_def Let_def)
      next
        case False
        have "sl_seen ?sl"
          using M by (simp add: slot_matches_def)
        then have "note_carried_write k st op s = s"
          using op k Some True False by (simp add: note_carried_write_def key_ok_def)
        then show ?thesis
          using rel carried_other [OF M False] by (auto simp: ledger_rel_def)
      qed
    next
      case False
      then show ?thesis
        using op k Some by (simp add: note_carried_write_def key_ok_def)
    qed
  next
    case None
    note L = missing_lookup [OF None]
    have "slot_matches (Some (carried_slot st op (fresh_slot\<lparr>sl_key := k\<rparr>))) (spec_write st (d k))"
      using R(1) L(1) by (intro carried_fresh_matches) simp
    then show ?thesis
      using op k None L(2) [of "carried_slot st op (fresh_slot\<lparr>sl_key := k\<rparr>)"] dr
      by (cases "length (lg_slots s) = maximum_resources")
        (auto simp: note_carried_write_def key_ok_def Let_def intro!: ledger_rel_table [OF rel op])
  qed
qed

lemma ledger_rel_frame:
  "ledger_rel d s \<Longrightarrow> lg_slots s' = lg_slots s \<Longrightarrow> (lg_known s' \<Longrightarrow> lg_known s) \<Longrightarrow>
   lg_prefix_interference s' = lg_prefix_interference s \<Longrightarrow> ledger_rel d s'"
  by (auto simp: ledger_rel_def)

lemma ledger_rel_step:
  assumes rel: "ledger_rel d s"
  shows "ledger_rel (\<lambda>k. spec_step k ev (d k)) (ledger_step ev s)"
proof (cases ev)
  case (GpuWork op rt)
  then show ?thesis
    using gpu_work_rel [OF rel, of rt op] by simp
next
  case (ComputeWork op)
  then show ?thesis
    using compute_work_rel [OF rel] by simp
next
  case (BeginPass f ord)
  have "ledger_rel (\<lambda>k. spec_draw (d k)) (gpu_work 68 True s)"
    using gpu_work_rel [OF rel, of True 68] by simp
  then show ?thesis
    using BeginPass by (auto simp: begin_pass_def Let_def elim: ledger_rel_frame)
next
  case EndPass
  then show ?thesis
    using rel by (auto simp: end_pass_def elim: ledger_rel_frame)
next
  case (Transition k b a sub f)
  then show ?thesis
    using observe_legacy_rel [OF rel, of k b a sub f] by simp
next
  case (WriteRenderTarget k op)
  have "ledger_rel (\<lambda>k. spec_draw (d k)) (gpu_work op True s)"
    using gpu_work_rel [OF rel, of True op] by simp
  from note_carried_rel [OF this, of k state_render_target op] show ?thesis
    using WriteRenderTarget by (simp add: note_render_target_write_def)
next
  case (WriteUnorderedAccess k op)
  from note_carried_rel [OF compute_work_rel [OF rel], of k state_unordered_access op op] show ?thesis
    using WriteUnorderedAccess by (simp add: note_unordered_access_write_def)
next
  case (Invalidate r)
  then show ?thesis by simp
next
  case (CloseRecording g ok)
  then show ?thesis
    using rel by (auto simp: close_def elim: ledger_rel_frame)
qed

interpretation ledger_history: traced ledger_step "reset g True s0"
  "\<lambda>evs s. ledger_rel (display_of evs) s" for g s0
proof
  show "ledger_rel (display_of []) (reset g True s0)"
    by (simp add: ledger_rel_def reset_def display_of_def untouched_def slot_matches_def Let_def)
next
  fix evs s ev
  assume "ledger_rel (display_of evs) s"
  moreover have "display_of (evs @ [ev]) = (\<lambda>k. spec_step k ev (display_of evs k))"
    by (rule ext) (simp add: display_of_def)
  ultimately show "ledger_rel (display_of (evs @ [ev])) (ledger_step ev s)"
    using ledger_rel_step by simp
qed

definition ledger_table_ok :: "ledger \<Rightarrow> bool" where
  "ledger_table_ok s \<longleftrightarrow> distinct (map sl_key (lg_slots s)) \<and> length (lg_slots s) \<le> maximum_resources"

lemma map_key_preserving [simp]:
  "map (sl_key \<circ> promote_common op) xs = map sl_key xs"
  "map (sl_key \<circ> compute_slot op) xs = map sl_key xs"
  by simp_all

lemma gpu_work_table [simp]: "ledger_table_ok (gpu_work op rt s) = ledger_table_ok s"
  by (simp add: ledger_table_ok_def gpu_work_def Let_def invalidate_def)

lemma compute_work_table [simp]: "ledger_table_ok (compute_work op s) = ledger_table_ok s"
  using gpu_work_table [of op False s]
  by (simp add: ledger_table_ok_def compute_work_def state_disjoint_work_def Let_def invalidate_def)

lemma invalidate_table [simp]: "ledger_table_ok (invalidate r s) = ledger_table_ok s"
  by (simp add: ledger_table_ok_def invalidate_def)

lemma table_update:
  "ledger_table_ok s \<Longrightarrow> sl_key x = sl_key (lg_slots s ! i) \<Longrightarrow>
   ledger_table_ok (s\<lparr>lg_slots := (lg_slots s)[i := x]\<rparr>)"
  by (simp add: ledger_table_ok_def map_update) (metis list_update_id map_update)

lemma table_append:
  "ledger_table_ok s \<Longrightarrow> first_index (same_resource k) (lg_slots s) = None \<Longrightarrow> sl_key x = k \<Longrightarrow>
   length (lg_slots s) < maximum_resources \<Longrightarrow> ledger_table_ok (s\<lparr>lg_slots := lg_slots s @ [x]\<rparr>)"
  by (auto simp: ledger_table_ok_def first_index_None same_resource_def)

lemma observe_table: "ledger_table_ok s \<Longrightarrow> ledger_table_ok (observe_legacy k b a sub f s)"
  by (auto simp: observe_legacy_def Let_def not_le intro!: table_update table_append split: option.splits)

lemma carried_table: "ledger_table_ok s \<Longrightarrow> ledger_table_ok (note_carried_write k st op s)"
proof -
  assume ok: "ledger_table_ok s"
  then have "length (lg_slots s) \<noteq> maximum_resources \<Longrightarrow> length (lg_slots s) < maximum_resources"
    by (simp add: ledger_table_ok_def)
  with ok show ?thesis
    by (auto simp: note_carried_write_def Let_def intro!: table_update table_append split: option.splits)
qed

interpretation ledger_tables: machine ledger_step ledger_table_ok "\<lambda>_. True"
proof
  fix ev s
  assume ok: "ledger_table_ok s"
  show "ledger_table_ok (ledger_step ev s)"
  proof (cases ev)
    case (BeginPass f ord)
    have "ledger_table_ok (gpu_work 68 True s)"
      using ok by simp
    then show ?thesis
      using BeginPass by (auto simp: begin_pass_def Let_def ok simp del: gpu_work_table)
        (simp add: ledger_table_ok_def)
  next
    case (CloseRecording g b)
    then show ?thesis
      using ok by (auto simp: close_def) (simp add: ledger_table_ok_def)
  next
    case EndPass
    then show ?thesis
      using ok by (auto simp: end_pass_def) (simp add: ledger_table_ok_def)
  qed (use ok in \<open>auto intro: observe_table carried_table simp: note_render_target_write_def
      note_unordered_access_write_def\<close>)
qed

lemma reset_table: "ledger_table_ok (reset g b s)"
  by (simp add: ledger_table_ok_def reset_def Let_def)

text \<open>C7: For every recording, from its reset to its successful close, what the ledger answers about a
  display is the truth of the recorded commands: it says overwritten exactly when a write
  reached the display, it mentions exactly the displays that were touched, it offers a prefix
  copy exactly when the display left the render-target state first and nothing wrote it after,
  and the state it reports is the one the commands left.\<close>

theorem ledger_refines_commands:
  assumes "s = fold ledger_step evs (reset g True s0)" and "complete g' s" and "key_ok k"
  shows "overwrote k g' s = ds_wrote (display_of evs k) \<and>
    mentions k g' s = (ds_state (display_of evs k) \<noteq> None) \<and>
    candidate_ok (prefix_candidate k g' s) =
      (ds_lead (display_of evs k) \<and> \<not> ds_wrote (display_of evs k)) \<and>
    (candidate_ok (prefix_candidate k g' s) \<longrightarrow>
       cd_key (prefix_candidate k g' s) = k \<and>
       ds_state (display_of evs k) = Some (cd_after (prefix_candidate k g' s)))"
proof -
  have rel: "ledger_rel (display_of evs) s"
    using ledger_history.trace assms(1) by blast
  have "ledger_table_ok s"
    unfolding assms(1) by (rule ledger_tables.run_inv) (simp_all add: list.pred_True reset_table)
  then have d: "distinct (map sl_key (lg_slots s))"
    by (simp add: ledger_table_ok_def)
  have m: "slot_matches (slots.lookup k (lg_slots s)) (display_of evs k)"
    using rel assms(2,3) by (simp add: ledger_rel_def complete_def)
  have g: "g' \<noteq> 0"
    using assms(2) unfolding complete_def by blast
  have swap: "(\<lambda>sl. sl_seen sl \<and> sl_key sl = k) = (\<lambda>sl. sl_key sl = k \<and> sl_seen sl)"
    by (rule ext) blast
  have wrote: "overwrote k g' s = (case slots.lookup k (lg_slots s) of
      Some sl \<Rightarrow> sl_seen sl \<and> sl_wrote sl | None \<Rightarrow> False)"
    using slots.ex_unique [OF d, of k "\<lambda>sl. sl_seen sl \<and> sl_wrote sl"] assms(2)
    by (simp add: overwrote_def)
  have named: "mentions k g' s = (case slots.lookup k (lg_slots s) of Some sl \<Rightarrow> sl_seen sl | None \<Rightarrow> False)"
    using slots.ex_unique [OF d, of k sl_seen] assms(2,3) by (simp add: mentions_def swap key_ok_def)
  have prefix: "prefix_candidate k g' s = (case slots.lookup k (lg_slots s) of
      Some sl \<Rightarrow> if sl_seen sl \<and> sl_prefix_exit sl then slot_candidate g' sl else no_candidate
    | None \<Rightarrow> no_candidate)"
    using slots.find_unique [OF d, of k "\<lambda>sl. sl_seen sl \<and> sl_prefix_exit sl"] assms(2)
    by (simp add: prefix_candidate_def find_candidate_def split: option.splits)
  show ?thesis
  proof (cases "slots.lookup k (lg_slots s)")
    case None
    then show ?thesis
      using m wrote named prefix by (simp add: slot_matches_def candidate_ok_def no_candidate_def no_key_def)
  next
    case (Some sl)
    then have "sl_key sl = k"
      using slots.lookup_Some by blast
    then have "candidate_ok (slot_candidate g' sl)"
      using assms(3) g by (simp add: candidate_ok_def slot_candidate_def key_ok_def)
    moreover have "\<not> candidate_ok no_candidate"
      by (simp add: candidate_ok_def no_candidate_def no_key_def)
    ultimately show ?thesis
      using m wrote named prefix Some \<open>sl_key sl = k\<close>
      by (auto simp: slot_matches_def slot_candidate_def)
  qed
qed

theorem ledger_refines_commands_witness:
  "let k = \<lparr>dk_resource = 5, dk_generation = 1\<rparr>;
       evs = [Transition k state_render_target state_pixel_shader 0 0, ComputeWork 14, CloseRecording 3 True]
   in candidate_ok (prefix_candidate k 3 (fold ledger_step evs (reset 3 True initial_ledger))) =
      (ds_lead (display_of evs k) \<and> \<not> ds_wrote (display_of evs k))"
proof -
  let ?k = "\<lparr>dk_resource = 5, dk_generation = 1\<rparr> :: display_key"
  let ?evs = "[Transition ?k state_render_target state_pixel_shader 0 0, ComputeWork 14, CloseRecording 3 True]"
  have 1: "complete 3 (fold ledger_step ?evs (reset 3 True initial_ledger))"
    by code_simp
  have 2: "key_ok ?k"
    by (simp add: key_ok_def)
  from ledger_refines_commands [OF refl 1 2] show ?thesis
    by (simp only: Let_def)
qed

subsection \<open>The batch overlay\<close>

text \<open>What the scan of the first \<open>n\<close> lists has found.\<close>

definition scan_found :: "batch \<Rightarrow> display_key \<Rightarrow> nat \<Rightarrow> overlay \<times> overlay \<Rightarrow> bool" where
  "scan_found b key n = (\<lambda>(write, safe).
     (if candidate_ok (ol_candidate write)
      then \<exists>i < n. ol_list write = Some i \<and> \<not> ol_before write \<and>
        ol_candidate write = suffix_candidate key (gen_at b i) (proof_at b i) \<and>
        (\<forall>j. i < j \<and> j < n \<longrightarrow> \<not> candidate_ok (suffix_candidate key (gen_at b j) (proof_at b j)))
      else \<forall>j < n. \<not> candidate_ok (suffix_candidate key (gen_at b j) (proof_at b j))) \<and>
     (candidate_ok (ol_candidate safe) \<longrightarrow> (\<exists>i < n. ol_list safe = Some i \<and>
        ol_candidate safe = (if ol_before safe then prefix_candidate key (gen_at b i) (proof_at b i)
          else tail_candidate key (gen_at b i) (proof_at b i)))))"

lemma scan_found_step:
  "scan_found b key n ws \<Longrightarrow> scan_found b key (Suc n) (scan_list b key n ws)"
  by (cases ws) (auto simp: scan_found_def scan_list_def Let_def less_Suc_eq split: if_splits)

lemma no_overlay_not_ok [simp]: "\<not> candidate_ok (ol_candidate no_overlay)"
  by (simp add: no_overlay_def no_candidate_def candidate_ok_def)

lemma scan_found_all:
  "scan_found b key n (fold (scan_list b key) [0..<n] (no_overlay, no_overlay))"
proof (induction n)
  case 0
  then show ?case by (simp add: scan_found_def)
next
  case (Suc n)
  from scan_found_step [OF this] show ?case by simp
qed

lemma batch_allows_at: "batch_allows b \<Longrightarrow> j < length b \<Longrightarrow> complete (gen_at b j) (proof_at b j)"
  by (cases "b ! j", cases "fst (b ! j)")
    (auto simp: batch_allows_def list_all_length gen_at_def proof_at_def split: option.splits)

text \<open>An offered overlay is never placed where a later list of the same call is known to overwrite
  it with no later place to copy: it follows the last list that ends in a finished write, or,
  when no list does, it is the leading or trailing exit of one list and neither that list (for a
  leading copy) nor any later one writes the display.  Offers come only from a batch in which
  every list is completely proven.\<close>

theorem overlay_never_before_overwrite:
  assumes "overlay_ok (batch_overlay b key)" and "ol_list (batch_overlay b key) = Some i"
  shows "i < length b \<and> batch_allows b \<and>
    ((\<not> ol_before (batch_overlay b key) \<and>
      ol_candidate (batch_overlay b key) = suffix_candidate key (gen_at b i) (proof_at b i) \<and>
      (\<forall>j. i < j \<and> j < length b \<longrightarrow> \<not> candidate_ok (suffix_candidate key (gen_at b j) (proof_at b j)))) \<or>
     ((\<forall>j < length b. \<not> candidate_ok (suffix_candidate key (gen_at b j) (proof_at b j))) \<and>
      ol_candidate (batch_overlay b key) =
        (if ol_before (batch_overlay b key) then prefix_candidate key (gen_at b i) (proof_at b i)
         else tail_candidate key (gen_at b i) (proof_at b i)) \<and>
      (\<forall>j < length b. (if ol_before (batch_overlay b key) then i \<le> j else i < j) \<longrightarrow>
         \<not> overwrote key (gen_at b j) (proof_at b j))))"
proof -
  obtain wr safe where ws:
    "fold (scan_list b key) [0..<length b] (no_overlay, no_overlay) = (wr, safe)"
    by force
  have fd: "scan_found b key (length b) (wr, safe)"
    using scan_found_all [of b key "length b"] ws by simp
  have allows: "batch_allows b"
    using assms(1) by (auto simp: batch_overlay_def overlay_ok_def split: if_splits)
  show ?thesis
  proof (cases "candidate_ok (ol_candidate wr)")
    case True
    then have "batch_overlay b key = wr"
      using allows ws by (simp add: batch_overlay_def)
    then show ?thesis
      using fd True allows assms(2) by (auto simp: scan_found_def)
  next
    case False
    then have ov: "batch_overlay b key = safe" "candidate_ok (ol_candidate safe)"
      "\<not> list_ex (\<lambda>i. overwrote key (gen_at b i) (proof_at b i))
         [the (ol_list safe) + (if ol_before safe then 0 else 1)..<length b]"
      using allows ws assms(1) by (auto simp: batch_overlay_def overlay_ok_def split: if_splits)
    then show ?thesis
      using fd False allows assms(2) by (auto simp: scan_found_def list_ex_iff)
  qed
qed

text \<open>A recording that leaves the display for shading, as its only command.\<close>

definition exit_recording :: "u64 \<Rightarrow> ledger" where
  "exit_recording g = fold ledger_step
     [GpuWork 12 False, Transition \<lparr>dk_resource = 5, dk_generation = 1\<rparr> state_render_target state_pixel_shader 0 0,
      CloseRecording g True] (reset g True initial_ledger)"

theorem overlay_never_before_overwrite_witness:
  "let b = [(Some (exit_recording 3), 3)]; k = \<lparr>dk_resource = 5, dk_generation = 1\<rparr>
   in ol_before (batch_overlay b k) \<and> \<not> overwrote k 3 (proof_at b 0)"
proof -
  let ?b = "[(Some (exit_recording 3), 3)] :: batch" and ?k = "\<lparr>dk_resource = 5, dk_generation = 1\<rparr> :: display_key"
  have 1: "overlay_ok (batch_overlay ?b ?k)"
    by code_simp
  have 2: "ol_list (batch_overlay ?b ?k) = Some 0"
    by code_simp
  have 3: "ol_before (batch_overlay ?b ?k)"
    by code_simp
  have 4: "gen_at ?b 0 = 3" "length ?b = 1"
    by (simp_all add: gen_at_def)
  from overlay_never_before_overwrite [OF 1 2] 3 4 show ?thesis
    by (simp add: Let_def)
qed

text \<open>A copy that carries an older state is offered only when no list of the call touches the
  display, after the last list, and in a state the copy can restore.\<close>

theorem carried_overlay_untouched:
  assumes "overlay_ok (carried_overlay b key st)"
  shows "ol_list (carried_overlay b key st) = Some (length b - 1) \<and> \<not> ol_before (carried_overlay b key st) \<and>
    cd_after (ol_candidate (carried_overlay b key st)) = st \<and> insertable_after st \<and> batch_allows b \<and>
    (\<forall>j < length b. \<not> mentions key (gen_at b j) (proof_at b j)) \<and> batch_after b key = None"
proof -
  have g: "batch_allows b" "dk_resource key \<noteq> 0" "insertable_after st"
    and nm: "\<not> list_ex (\<lambda>i. mentions key (gen_at b i) (proof_at b i)) [0..<length b]"
    using assms by (auto simp: carried_overlay_def overlay_ok_def split: if_splits)
  then have n: "\<forall>j < length b. \<not> mentions key (gen_at b j) (proof_at b j)"
    by (auto simp: list_ex_iff)
  have nf: "find (\<lambda>sl. sl_key sl = key \<and> sl_seen sl) (lg_slots (proof_at b j)) = None" if "j < length b" for j
  proof -
    have "\<not> list_ex (\<lambda>sl. sl_seen sl \<and> sl_key sl = key) (lg_slots (proof_at b j))"
      using n g(2) that batch_allows_at [OF g(1) that] by (auto simp: mentions_def)
    then show ?thesis
      by (auto simp: find_None_iff list_ex_iff)
  qed
  have "batch_after b key = None"
    using nf by (auto simp: batch_after_def Let_def find_None_iff split: option.splits dest!: find_SomeD)
  with assms g nm n show ?thesis
    by (auto simp: carried_overlay_def overlay_ok_def)
qed

theorem carried_overlay_untouched_witness:
  "let b = [(Some (exit_recording 3), 3)]; k = \<lparr>dk_resource = 6, dk_generation = 1\<rparr>
   in \<not> mentions k 3 (proof_at b 0) \<and> batch_after b k = None"
proof -
  let ?b = "[(Some (exit_recording 3), 3)] :: batch" and ?k = "\<lparr>dk_resource = 6, dk_generation = 1\<rparr> :: display_key"
  have 1: "overlay_ok (carried_overlay ?b ?k state_render_target)"
    by code_simp
  have "gen_at ?b 0 = 3" "length ?b = 1"
    by (simp_all add: gen_at_def)
  with carried_overlay_untouched [OF 1] show ?thesis
    by (simp add: Let_def)
qed

end
