(* ===== verification/Scene_Handoff.thy ===== *)
theory Scene_Handoff
  imports Prelude "HOL-Library.AList"
begin

text \<open>
  \<open>SceneHandoff\<close> of \<open>src/graphics/scene_handoff.hpp\<close> and \<open>scene_handoff.cpp\<close>: the identity table
  that lets the copy hooks recognise the owned views' output resources.  Every method runs
  under the class's mutex and is one step; the atomic handle hints are part of the state.  The
  per-device \<open>unordered_map\<close> is an association list with distinct keys, and a failing allocation
  of its node is a parameter of \<open>register_resource\<close>.
\<close>

definition SceneFeeds :: nat where "SceneFeeds = 4"
definition maximum_devices :: nat where "maximum_devices = 4"
definition maximum_resources_per_device :: nat where "maximum_resources_per_device = 16384"

record scene_manager =
  sm_identity :: u64
  sm_generation :: u64

record resource_identity =
  ri_device_epoch :: u64
  ri_resource_id :: u64
  ri_generation :: u64

record capture_ticket =
  tk_scene_epoch :: u64
  tk_lifecycle_epoch :: u64
  tk_sequence :: u64

record copy_match =
  cm_matched :: bool
  cm_feed :: nat
  cm_scene_epoch :: u64
  cm_capture_sequence :: u64
  cm_manager :: scene_manager
  cm_entry_id :: u64
  cm_resource :: resource_identity

definition no_scene_manager :: scene_manager where
  "no_scene_manager = \<lparr>sm_identity = 0, sm_generation = 0\<rparr>"

definition no_resource :: resource_identity where
  "no_resource = \<lparr>ri_device_epoch = 0, ri_resource_id = 0, ri_generation = 0\<rparr>"

definition no_ticket :: capture_ticket where
  "no_ticket = \<lparr>tk_scene_epoch = 0, tk_lifecycle_epoch = 0, tk_sequence = 0\<rparr>"

definition no_match :: copy_match where
  "no_match = \<lparr>cm_matched = False, cm_feed = 0, cm_scene_epoch = 0, cm_capture_sequence = 0,
     cm_manager = no_scene_manager, cm_entry_id = 0, cm_resource = no_resource\<rparr>"

record registered =
  rg_id :: u64
  rg_generation :: u64

record device =
  dv_key :: u64
  dv_epoch :: u64
  dv_resources :: "(u64 \<times> registered) list"

definition no_device :: device where
  "no_device = \<lparr>dv_key = 0, dv_epoch = 0, dv_resources = []\<rparr>"

record publication =
  pb_valid :: bool
  pb_scene_epoch :: u64
  pb_sequence :: u64
  pb_device_key :: u64
  pb_manager :: scene_manager
  pb_entry_ids :: "u64 list"
  pb_handles :: "u64 list"
  pb_resources :: "resource_identity list"

definition no_handles :: "u64 list" where
  "no_handles = replicate SceneFeeds 0"

definition no_publication :: publication where
  "no_publication = \<lparr>pb_valid = False, pb_scene_epoch = 0, pb_sequence = 0, pb_device_key = 0,
     pb_manager = no_scene_manager, pb_entry_ids = no_handles, pb_handles = no_handles,
     pb_resources = replicate SceneFeeds no_resource\<rparr>"

record handoff =
  ho_devices :: "device list"
  ho_device_counter :: u64
  ho_resource_counter :: u64
  ho_lifecycle_epoch :: u64
  ho_scene_epoch :: u64
  ho_capture_sequence :: u64
  ho_exhausted :: bool
  ho_active :: bool
  ho_owner_bound :: bool
  ho_owner :: scene_manager
  ho_owned_ids :: "u64 list"
  ho_publication :: publication
  ho_candidate_handles :: "u64 list"
  ho_observed_handles :: "u64 list"
  ho_publications :: u64
  ho_unrelated_events :: u64
  ho_target_invalidations :: u64
  ho_ticket_invalidations :: u64

definition initial_handoff :: handoff where
  "initial_handoff = \<lparr>ho_devices = replicate maximum_devices no_device, ho_device_counter = 0,
     ho_resource_counter = 0, ho_lifecycle_epoch = 1, ho_scene_epoch = 0, ho_capture_sequence = 0,
     ho_exhausted = False, ho_active = False, ho_owner_bound = False, ho_owner = no_scene_manager,
     ho_owned_ids = no_handles, ho_publication = no_publication, ho_candidate_handles = no_handles,
     ho_observed_handles = no_handles, ho_publications = 0, ho_unrelated_events = 0,
     ho_target_invalidations = 0, ho_ticket_invalidations = 0\<rparr>"

subsection \<open>Counters and lifecycle\<close>

text \<open>A counter that cannot advance exhausts the handoff for good.\<close>

definition exhaust :: "handoff \<Rightarrow> handoff" where
  "exhaust s = s\<lparr>ho_exhausted := True, ho_active := False, ho_publication := no_publication,
     ho_candidate_handles := no_handles, ho_observed_handles := no_handles\<rparr>"

text \<open>\<open>advance\<close> on the counter that \<open>get\<close> reads and \<open>upd\<close> writes.\<close>

definition advance ::
  "(handoff \<Rightarrow> u64) \<Rightarrow> (u64 \<Rightarrow> handoff \<Rightarrow> handoff) \<Rightarrow> handoff \<Rightarrow> bool \<times> handoff" where
  "advance get upd s =
     (if ho_exhausted s \<or> get s = u64_max then (False, exhaust s) else (True, upd (get s + 1) s))"

definition advance_lifecycle :: "handoff \<Rightarrow> bool \<times> handoff" where
  "advance_lifecycle = advance ho_lifecycle_epoch (\<lambda>v. ho_lifecycle_epoch_update (\<lambda>_. v))"

definition advance_scene :: "handoff \<Rightarrow> bool \<times> handoff" where
  "advance_scene = advance ho_scene_epoch (\<lambda>v. ho_scene_epoch_update (\<lambda>_. v))"

definition advance_device :: "handoff \<Rightarrow> bool \<times> handoff" where
  "advance_device = advance ho_device_counter (\<lambda>v. ho_device_counter_update (\<lambda>_. v))"

definition advance_resource :: "handoff \<Rightarrow> bool \<times> handoff" where
  "advance_resource = advance ho_resource_counter (\<lambda>v. ho_resource_counter_update (\<lambda>_. v))"

definition advance_sequence :: "handoff \<Rightarrow> bool \<times> handoff" where
  "advance_sequence = advance ho_capture_sequence (\<lambda>v. ho_capture_sequence_update (\<lambda>_. v))"

definition may_match_resource :: "u64 \<Rightarrow> handoff \<Rightarrow> bool" where
  "may_match_resource h s \<longleftrightarrow> h \<noteq> 0 \<and> list_ex (\<lambda>c. c = h) (ho_candidate_handles s)"

text \<open>\<open>observed_feed\<close>: the feed index, \<open>None\<close> for -1.\<close>

definition observed_feed :: "u64 \<Rightarrow> handoff \<Rightarrow> nat option" where
  "observed_feed h s = (if h = 0 then None else first_index (\<lambda>o'. o' = h) (ho_observed_handles s))"

definition lifecycle_event :: "u64 \<Rightarrow> handoff \<Rightarrow> bool \<times> handoff" where
  "lifecycle_event changed s =
     advance_lifecycle
       (if changed = 0 \<or> observed_feed changed s \<noteq> None
        then s\<lparr>ho_candidate_handles := no_handles, ho_observed_handles := no_handles,
               ho_publication := no_publication,
               ho_target_invalidations := ho_target_invalidations s + 1\<rparr>
        else s\<lparr>ho_unrelated_events := ho_unrelated_events s + 1\<rparr>)"

definition find_device :: "u64 \<Rightarrow> handoff \<Rightarrow> nat option" where
  "find_device key s = (if key = 0 then None else first_index (\<lambda>d. dv_key d = key) (ho_devices s))"

definition set_device :: "nat \<Rightarrow> device \<Rightarrow> handoff \<Rightarrow> handoff" where
  "set_device i d s = s\<lparr>ho_devices := (ho_devices s)[i := d]\<rparr>"

definition register_device :: "u64 \<Rightarrow> handoff \<Rightarrow> u64 \<times> handoff" where
  "register_device key s =
     (case lifecycle_event 0 s of (ok, s1) \<Rightarrow>
        if \<not> ok \<or> key = 0 then (0, s1)
        else
          (case (case find_device key s1 of
                   Some i \<Rightarrow> Some i
                 | None \<Rightarrow> first_index (\<lambda>d. dv_key d = 0) (ho_devices s1)) of
             None \<Rightarrow> (0, s1)
           | Some i \<Rightarrow>
               (case advance_device s1 of (ok2, s2) \<Rightarrow>
                  if \<not> ok2 then (0, s2)
                  else (ho_device_counter s2,
                        set_device i \<lparr>dv_key = key, dv_epoch = ho_device_counter s2,
                                      dv_resources = []\<rparr> s2))))"

definition unregister_device :: "u64 \<Rightarrow> handoff \<Rightarrow> handoff" where
  "unregister_device key s =
     (case lifecycle_event 0 s of (_, s1) \<Rightarrow>
        case find_device key s1 of
          None \<Rightarrow> s1
        | Some i \<Rightarrow> set_device i \<lparr>dv_key = 0, dv_epoch = 0, dv_resources = []\<rparr> s1)"

definition erase_resource :: "nat \<Rightarrow> u64 \<Rightarrow> handoff \<Rightarrow> handoff" where
  "erase_resource i h s = set_device i
     ((ho_devices s ! i)\<lparr>dv_resources := AList.delete h (dv_resources (ho_devices s ! i))\<rparr>) s"

text \<open>\<open>allocated\<close> is false when the map's node cannot be allocated (\<open>bad_alloc\<close>).\<close>

definition register_resource :: "bool \<Rightarrow> u64 \<Rightarrow> u64 \<Rightarrow> u64 \<Rightarrow> handoff \<Rightarrow> bool \<times> handoff" where
  "register_resource allocated key h rid s =
     (case lifecycle_event h s of (ok, s1) \<Rightarrow>
        if \<not> ok then (False, s1)
        else
          (case find_device key s1 of
             None \<Rightarrow> (False, s1)
           | Some i \<Rightarrow>
               if h = 0 then (False, s1)
               else if rid = 0 then (False, erase_resource i h s1)
               else if map_of (dv_resources (ho_devices s1 ! i)) h = None \<and>
                       length (dv_resources (ho_devices s1 ! i)) \<ge> maximum_resources_per_device
               then (False, s1)
               else
                 (case advance_resource s1 of (ok2, s2) \<Rightarrow>
                    if \<not> ok2 then (False, s2)
                    else if \<not> allocated then (False, erase_resource i h s2)
                    else (True, set_device i
                      ((ho_devices s2 ! i)\<lparr>dv_resources :=
                         AList.update h \<lparr>rg_id = rid, rg_generation = ho_resource_counter s2\<rparr>
                           (dv_resources (ho_devices s2 ! i))\<rparr>) s2))))"

definition unregister_resource :: "u64 \<Rightarrow> u64 \<Rightarrow> handoff \<Rightarrow> handoff" where
  "unregister_resource key h s =
     (case lifecycle_event h s of (_, s1) \<Rightarrow>
        case find_device key s1 of None \<Rightarrow> s1 | Some i \<Rightarrow> erase_resource i h s1)"

text \<open>\<open>locked\<close>: the bounded lock was taken within its budget.\<close>

definition try_unregister_resource :: "bool \<Rightarrow> u64 \<Rightarrow> u64 \<Rightarrow> handoff \<Rightarrow> bool \<times> handoff" where
  "try_unregister_resource locked key h s =
     (if \<not> locked then (False, s) else (True, unregister_resource key h s))"

subsection \<open>Scenes, captures and publications\<close>

definition begin_scene :: "handoff \<Rightarrow> u64 \<times> handoff" where
  "begin_scene s =
     (case advance_scene (s\<lparr>ho_candidate_handles := no_handles, ho_observed_handles := no_handles,
             ho_publication := no_publication, ho_owner_bound := False,
             ho_owner := no_scene_manager, ho_owned_ids := no_handles\<rparr>) of
        (ok, s1) \<Rightarrow> (if ok then ho_scene_epoch s1 else 0, s1\<lparr>ho_active := ok\<rparr>))"

definition stop_scene :: "handoff \<Rightarrow> handoff" where
  "stop_scene s = snd (advance_scene (s\<lparr>ho_candidate_handles := no_handles,
     ho_observed_handles := no_handles, ho_active := False, ho_owner_bound := False,
     ho_publication := no_publication\<rparr>))"

definition begin_capture :: "handoff \<Rightarrow> capture_ticket \<times> handoff" where
  "begin_capture s =
     (if \<not> ho_active s then (no_ticket, s)
      else (case advance_sequence s of (ok, s1) \<Rightarrow>
              (if ok then \<lparr>tk_scene_epoch = ho_scene_epoch s1,
                           tk_lifecycle_epoch = ho_lifecycle_epoch s1,
                           tk_sequence = ho_capture_sequence s1\<rparr> else no_ticket, s1)))"

definition refuse_latest :: "handoff \<Rightarrow> handoff" where
  "refuse_latest s = s\<lparr>ho_publication := no_publication, ho_candidate_handles := no_handles\<rparr>"

text \<open>The pair and its optional feeds are well formed.\<close>

definition feeds_wellformed :: "scene_manager \<Rightarrow> u64 list \<Rightarrow> u64 list \<Rightarrow> bool" where
  "feeds_wellformed m ids hs \<longleftrightarrow>
     \<not> (sm_identity m = 0 \<or> sm_generation m = 0 \<or> ids ! 0 = 0 \<or> ids ! 1 = 0 \<or> ids ! 0 = ids ! 1 \<or>
        hs ! 0 = 0 \<or> hs ! 1 = 0 \<or> hs ! 0 = hs ! 1) \<and>
     list_all (\<lambda>f. (ids ! f = 0) = (hs ! f = 0) \<and>
       (ids ! f \<noteq> 0 \<longrightarrow> list_all (\<lambda>p. ids ! f \<noteq> ids ! p \<and> hs ! f \<noteq> hs ! p) [0..<f])) [2..<length ids]"

text \<open>The one device that registers a handle; \<open>None\<close> when there is none or more than one.\<close>

definition owning_device :: "u64 \<Rightarrow> device list \<Rightarrow> (device \<times> registered) option" where
  "owning_device h ds =
     (case filter (\<lambda>d. dv_key d \<noteq> 0 \<and> map_of (dv_resources d) h \<noteq> None) ds of
        [d] \<Rightarrow> Some (d, the (map_of (dv_resources d) h))
      | _ \<Rightarrow> None)"

text \<open>Resolve every nonzero handle to an identity on one common device.\<close>

fun resolve_feeds :: "device list \<Rightarrow> u64 list \<Rightarrow> u64 \<Rightarrow> (u64 \<times> resource_identity list) option" where
  "resolve_feeds ds [] key = Some (key, [])"
| "resolve_feeds ds (h # hs) key =
     (if h = 0 then map_option (\<lambda>(k, rs). (k, no_resource # rs)) (resolve_feeds ds hs key)
      else (case owning_device h ds of
              None \<Rightarrow> None
            | Some (d, r) \<Rightarrow>
                if key \<noteq> 0 \<and> key \<noteq> dv_key d then None
                else map_option (\<lambda>(k, rs). (k, \<lparr>ri_device_epoch = dv_epoch d, ri_resource_id = rg_id r,
                       ri_generation = rg_generation r\<rparr> # rs)) (resolve_feeds ds hs (dv_key d))))"

definition publish_refused :: "capture_ticket \<Rightarrow> handoff \<Rightarrow> bool" where
  "publish_refused t s \<longleftrightarrow>
     \<not> ho_active s \<or> ho_exhausted s \<or> tk_scene_epoch t \<noteq> ho_scene_epoch s \<or>
     tk_lifecycle_epoch t \<noteq> ho_lifecycle_epoch s \<or> tk_sequence t = 0 \<or>
     tk_sequence t \<noteq> ho_capture_sequence s \<or>
     (pb_valid (ho_publication s) \<and> pb_sequence (ho_publication s) = tk_sequence t)"

definition publish_pair ::
  "capture_ticket \<Rightarrow> scene_manager \<Rightarrow> u64 list \<Rightarrow> u64 list \<Rightarrow> handoff \<Rightarrow> bool \<times> handoff" where
  "publish_pair t m ids hs s =
     (let s1 = (if ho_active s \<and> tk_scene_epoch t = ho_scene_epoch s \<and>
                   tk_sequence t = ho_capture_sequence s \<and> tk_lifecycle_epoch t \<noteq> ho_lifecycle_epoch s
                then s\<lparr>ho_ticket_invalidations := ho_ticket_invalidations s + 1\<rparr> else s)
      in if publish_refused t s1 then (False, s1)
         else if \<not> feeds_wellformed m ids hs then (False, refuse_latest s1)
         else if ho_owner_bound s1 \<and> (ho_owner s1 \<noteq> m \<or> ho_owned_ids s1 \<noteq> ids)
         then (False, refuse_latest (snd (advance_scene
                (s1\<lparr>ho_active := False, ho_candidate_handles := no_handles,
                    ho_observed_handles := no_handles\<rparr>))))
         else (case resolve_feeds (ho_devices s1) hs 0 of
                 None \<Rightarrow> (False, refuse_latest s1)
               | Some (key, rs) \<Rightarrow>
                   (True, s1\<lparr>ho_owner_bound := True, ho_owner := m, ho_owned_ids := ids,
                      ho_publication := \<lparr>pb_valid = True, pb_scene_epoch = ho_scene_epoch s1,
                        pb_sequence = tk_sequence t, pb_device_key = key, pb_manager = m,
                        pb_entry_ids = ids, pb_handles = hs, pb_resources = rs\<rparr>,
                      ho_candidate_handles := hs, ho_observed_handles := hs,
                      ho_publications := ho_publications s1 + 1\<rparr>)))"

subsection \<open>Matching\<close>

definition device_identity :: "u64 \<Rightarrow> u64 \<Rightarrow> handoff \<Rightarrow> resource_identity option" where
  "device_identity key h s =
     (case find_device key s of
        None \<Rightarrow> None
      | Some i \<Rightarrow>
          map_option (\<lambda>r. \<lparr>ri_device_epoch = dv_epoch (ho_devices s ! i), ri_resource_id = rg_id r,
              ri_generation = rg_generation r\<rparr>)
            (map_of (dv_resources (ho_devices s ! i)) h))"

definition match_copy :: "u64 \<Rightarrow> u64 \<Rightarrow> handoff \<Rightarrow> copy_match" where
  "match_copy key h s =
     (let p = ho_publication s in
      if \<not> ho_active s \<or> ho_exhausted s \<or> \<not> pb_valid p \<or> pb_scene_epoch p \<noteq> ho_scene_epoch s \<or>
         pb_device_key p \<noteq> key \<or> h = 0
      then no_match
      else (case device_identity key h s of
              None \<Rightarrow> no_match
            | Some identity \<Rightarrow>
                (case find (\<lambda>f. pb_handles p ! f \<noteq> 0 \<and> pb_handles p ! f = h \<and>
                         pb_resources p ! f = identity) [0..<length (pb_handles p)] of
                   None \<Rightarrow> no_match
                 | Some f \<Rightarrow>
                     \<lparr>cm_matched = True, cm_feed = f, cm_scene_epoch = ho_scene_epoch s,
                      cm_capture_sequence = pb_sequence p, cm_manager = pb_manager p,
                      cm_entry_id = pb_entry_ids p ! f, cm_resource = identity\<rparr>)))"

definition observe_copy :: "u64 \<Rightarrow> u64 \<Rightarrow> u64 \<Rightarrow> handoff \<Rightarrow> copy_match \<times> copy_match" where
  "observe_copy key source destination s =
     (if \<not> list_ex (\<lambda>h. h \<noteq> 0 \<and> (h = source \<or> h = destination)) (ho_candidate_handles s)
      then (no_match, no_match)
      else (match_copy key source s, match_copy key destination s))"

definition is_current :: "copy_match \<Rightarrow> handoff \<Rightarrow> bool" where
  "is_current v s =
     (let p = ho_publication s in
      if \<not> cm_matched v \<or> cm_feed v \<ge> length (pb_handles p) \<or> \<not> pb_valid p \<or>
         pb_handles p ! cm_feed v = 0
      then False
      else
        let c = match_copy (pb_device_key p) (pb_handles p ! cm_feed v) s
        in cm_matched c \<and> cm_scene_epoch v = cm_scene_epoch c \<and> cm_manager v = cm_manager c \<and>
           cm_entry_id v = cm_entry_id c \<and> cm_resource v = cm_resource c \<and>
           cm_capture_sequence v \<noteq> 0 \<and> cm_capture_sequence v \<le> cm_capture_sequence c)"

definition diagnostics_published :: "handoff \<Rightarrow> bool" where
  "diagnostics_published s \<longleftrightarrow> pb_valid (ho_publication s) \<and> ho_active s \<and> \<not> ho_exhausted s"

definition diagnostics_resource_ids :: "handoff \<Rightarrow> u64 list" where
  "diagnostics_resource_ids s = (if diagnostics_published s
     then map ri_resource_id (pb_resources (ho_publication s)) else no_handles)"


subsection \<open>How a step changes the table\<close>

definition entry :: "handoff \<Rightarrow> nat \<Rightarrow> u64 \<Rightarrow> registered option" where
  "entry s i h = (if i < length (ho_devices s) then map_of (dv_resources (ho_devices s ! i)) h else None)"

definition handoff_inv :: "handoff \<Rightarrow> bool" where
  "handoff_inv s \<longleftrightarrow>
     (\<forall>i h r. entry s i h = Some r \<longrightarrow> rg_generation r \<le> ho_resource_counter s) \<and>
     (\<forall>i h r j h' r'. entry s i h = Some r \<and> entry s j h' = Some r' \<and> rg_generation r = rg_generation r' \<longrightarrow>
        i = j \<and> h = h')"

text \<open>Counters only grow, exhaustion is final and no entry appears.\<close>

definition shrinks :: "handoff \<Rightarrow> handoff \<Rightarrow> bool" where
  "shrinks s s' \<longleftrightarrow> (ho_exhausted s \<longrightarrow> ho_exhausted s') \<and> ho_scene_epoch s \<le> ho_scene_epoch s' \<and>
     ho_resource_counter s \<le> ho_resource_counter s' \<and> ho_lifecycle_epoch s \<le> ho_lifecycle_epoch s' \<and>
     (\<forall>i h r. entry s' i h = Some r \<longrightarrow> entry s i h = Some r)"

lemma shrinks_refl [simp]: "shrinks s s"
  by (simp add: shrinks_def)

lemma shrinks_trans: "shrinks a b \<Longrightarrow> shrinks b c \<Longrightarrow> shrinks a c"
  unfolding shrinks_def by (meson order_trans)

lemma shrinks_same:
  "ho_devices s' = ho_devices s \<Longrightarrow> ho_exhausted s \<longrightarrow> ho_exhausted s' \<Longrightarrow>
   ho_scene_epoch s \<le> ho_scene_epoch s' \<Longrightarrow> ho_resource_counter s \<le> ho_resource_counter s' \<Longrightarrow>
   ho_lifecycle_epoch s \<le> ho_lifecycle_epoch s' \<Longrightarrow> shrinks s s'"
  by (simp add: shrinks_def entry_def)

lemma shrinks_inv: "shrinks s s' \<Longrightarrow> handoff_inv s \<Longrightarrow> handoff_inv s'"
  unfolding shrinks_def handoff_inv_def by (meson order_trans)

lemma exhaust_shrinks: "shrinks s (exhaust s)"
  by (rule shrinks_same) (simp_all add: exhaust_def)

lemma word_inc_le: "x \<noteq> - 1 \<Longrightarrow> x \<le> x + 1" for x :: u64
  using word_inc_greater by (rule less_imp_le)

lemma advance_shrinks:
  "shrinks s (snd (advance_lifecycle s))" "shrinks s (snd (advance_scene s))"
  "shrinks s (snd (advance_device s))" "shrinks s (snd (advance_resource s))"
  "shrinks s (snd (advance_sequence s))"
  by (auto simp: advance_lifecycle_def advance_scene_def advance_device_def advance_resource_def
      advance_sequence_def advance_def exhaust_shrinks word_inc_le intro!: shrinks_same)

lemma advance_devices [simp]:
  "ho_devices (snd (advance_lifecycle s)) = ho_devices s" "ho_devices (snd (advance_scene s)) = ho_devices s"
  "ho_devices (snd (advance_device s)) = ho_devices s" "ho_devices (snd (advance_resource s)) = ho_devices s"
  "ho_devices (snd (advance_sequence s)) = ho_devices s"
  by (simp_all add: advance_lifecycle_def advance_scene_def advance_device_def advance_resource_def
      advance_sequence_def advance_def exhaust_def)

lemma advance_exhausted:
  "advance_lifecycle s = (False, s') \<Longrightarrow> ho_exhausted s'" "advance_scene s = (False, s') \<Longrightarrow> ho_exhausted s'"
  "advance_device s = (False, s') \<Longrightarrow> ho_exhausted s'" "advance_resource s = (False, s') \<Longrightarrow> ho_exhausted s'"
  "advance_sequence s = (False, s') \<Longrightarrow> ho_exhausted s'"
  by (auto simp: advance_lifecycle_def advance_scene_def advance_device_def advance_resource_def
      advance_sequence_def advance_def exhaust_def split: if_splits)

lemma advance_resource_greater:
  "advance_resource s = (True, s') \<Longrightarrow> ho_resource_counter s < ho_resource_counter s'"
  by (auto simp: advance_resource_def advance_def word_inc_greater split: if_splits)

lemma advance_scene_greater:
  "advance_scene s = (True, s') \<Longrightarrow> ho_scene_epoch s < ho_scene_epoch s'"
  by (auto simp: advance_scene_def advance_def word_inc_greater split: if_splits)

lemma lifecycle_event_step:
  assumes "lifecycle_event c s = (ok, s1)"
  shows "shrinks s s1" and "ho_devices s1 = ho_devices s" and "\<not> ok \<Longrightarrow> ho_exhausted s1"
    and "ok \<Longrightarrow> ho_lifecycle_epoch s < ho_lifecycle_epoch s1"
    and "ho_resource_counter s1 = ho_resource_counter s"
  using assms exhaust_shrinks
  by (auto simp: lifecycle_event_def advance_lifecycle_def advance_def word_inc_greater word_inc_le exhaust_def
      split: if_splits intro!: shrinks_same)

lemma find_device_same: "ho_devices s' = ho_devices s \<Longrightarrow> find_device key s' = find_device key s"
  by (simp add: find_device_def)

lemma find_device_Some: "find_device key s = Some i \<Longrightarrow> i < length (ho_devices s)"
  by (auto simp: find_device_def dest: first_index_Some split: if_splits)

lemma entry_set_device:
  "i < length (ho_devices s) \<Longrightarrow> entry (set_device i d s) j h =
     (if j = i then map_of (dv_resources d) h else entry s j h)"
  by (simp add: entry_def set_device_def nth_list_update)

lemma set_device_fields [simp]:
  "ho_exhausted (set_device i d s) = ho_exhausted s" "ho_scene_epoch (set_device i d s) = ho_scene_epoch s"
  "ho_resource_counter (set_device i d s) = ho_resource_counter s"
  "ho_lifecycle_epoch (set_device i d s) = ho_lifecycle_epoch s"
  by (simp_all add: set_device_def)

lemma set_device_out: "\<not> i < length (ho_devices s) \<Longrightarrow> entry (set_device i d s) j h = entry s j h"
  by (simp add: entry_def set_device_def)

lemma clear_device_shrinks: "dv_resources d = [] \<Longrightarrow> shrinks s (set_device i d s)"
  by (cases "i < length (ho_devices s)") (auto simp: shrinks_def entry_set_device set_device_out split: if_splits)

lemma erase_resource_entry:
  "i < length (ho_devices s) \<Longrightarrow>
   entry (erase_resource i h s) j h' = (if j = i \<and> h' = h then None else entry s j h')"
  unfolding erase_resource_def by (simp add: entry_set_device) (auto simp: entry_def delete_conv)

lemma erase_resource_shrinks: "i < length (ho_devices s) \<Longrightarrow> shrinks s (erase_resource i h s)"
  by (simp add: shrinks_def erase_resource_entry) (simp add: erase_resource_def)

subsection \<open>Steps\<close>

datatype handoff_event =
  RegisterDevice u64 | UnregisterDevice u64 | RegisterResource bool u64 u64 u64
| UnregisterResource u64 u64 | TryUnregisterResource bool u64 u64 | BeginScene | StopScene
| BeginCapture | PublishPair capture_ticket scene_manager "u64 list" "u64 list"

fun handoff_step :: "handoff_event \<Rightarrow> handoff \<Rightarrow> handoff" where
  "handoff_step (RegisterDevice k) s = snd (register_device k s)"
| "handoff_step (UnregisterDevice k) s = unregister_device k s"
| "handoff_step (RegisterResource al k h r) s = snd (register_resource al k h r s)"
| "handoff_step (UnregisterResource k h) s = unregister_resource k h s"
| "handoff_step (TryUnregisterResource b k h) s = snd (try_unregister_resource b k h s)"
| "handoff_step BeginScene s = snd (begin_scene s)"
| "handoff_step StopScene s = stop_scene s"
| "handoff_step BeginCapture s = snd (begin_capture s)"
| "handoff_step (PublishPair t m ids hs) s = snd (publish_pair t m ids hs s)"

text \<open>A step shrinks the table, or it shrinks it and then adds one entry of a new generation.\<close>

definition evolves :: "handoff \<Rightarrow> handoff \<Rightarrow> bool" where
  "evolves s s' \<longleftrightarrow> shrinks s s' \<or>
     (\<exists>s1 i h r. shrinks s s1 \<and> ho_resource_counter s < ho_resource_counter s1 \<and>
        rg_generation r = ho_resource_counter s1 \<and> ho_resource_counter s' = ho_resource_counter s1 \<and>
        ho_scene_epoch s' = ho_scene_epoch s1 \<and> ho_exhausted s' = ho_exhausted s1 \<and>
        ho_lifecycle_epoch s' = ho_lifecycle_epoch s1 \<and>
        (\<forall>j h'. entry s' j h' = (if j = i \<and> h' = h then Some r else entry s1 j h')))"

lemma shrinks_evolves: "shrinks s s' \<Longrightarrow> evolves s s'"
  by (simp add: evolves_def)

lemma evolves_inv:
  assumes "evolves s s'" and inv: "handoff_inv s"
  shows "handoff_inv s'"
  using assms(1) unfolding evolves_def
proof (elim disjE exE conjE)
  assume "shrinks s s'"
  then show ?thesis
    using inv by (rule shrinks_inv)
next
  fix s1 i h r
  assume s1: "shrinks s s1" "ho_resource_counter s < ho_resource_counter s1"
    "rg_generation r = ho_resource_counter s1" "ho_resource_counter s' = ho_resource_counter s1"
    and e: "\<forall>j h'. entry s' j h' = (if j = i \<and> h' = h then Some r else entry s1 j h')"
  have old: "rg_generation r' < ho_resource_counter s1" if "entry s1 j h' = Some r'" for j h' r'
    using that s1(1,2) inv unfolding shrinks_def handoff_inv_def by (meson order.strict_trans1)
  have "handoff_inv s1"
    using s1(1) inv by (rule shrinks_inv)
  then show ?thesis
    using e s1(3,4) old unfolding handoff_inv_def
    by (auto split: if_splits) (metis less_irrefl)+
qed

lemma register_resource_evolves: "evolves s (snd (register_resource al key h rid s))"
proof -
  obtain ok s1 where l: "lifecycle_event h s = (ok, s1)"
    by force
  note L = lifecycle_event_step [OF l]
  show ?thesis
  proof (cases "ok \<and> h \<noteq> 0 \<and> find_device key s1 \<noteq> None")
    case False
    then show ?thesis
      using l L(1) by (auto simp: register_resource_def intro: shrinks_evolves split: option.splits)
  next
    case True
    then obtain i where i: "find_device key s1 = Some i" "i < length (ho_devices s1)"
      using find_device_Some by auto
    obtain ok2 s2 where a: "advance_resource s1 = (ok2, s2)"
      by force
    have s2: "shrinks s1 s2" "ho_devices s2 = ho_devices s1"
      using a advance_shrinks(4) [of s1] advance_devices(4) [of s1] by simp_all
    have i2: "i < length (ho_devices s2)"
      using i s2(2) by simp
    have sh: "shrinks s s2"
      using L(1) s2(1) by (rule shrinks_trans)
    let ?r = "\<lparr>rg_id = rid, rg_generation = ho_resource_counter s2\<rparr>"
    let ?s' = "set_device i ((ho_devices s2 ! i)\<lparr>dv_resources := AList.update h ?r (dv_resources (ho_devices s2 ! i))\<rparr>) s2"
    have "evolves s ?s'" if "ok2"
    proof -
      have "ho_resource_counter s < ho_resource_counter s2"
        using advance_resource_greater [of s1 s2] a that L(5) by simp
      moreover have "\<forall>j h'. entry ?s' j h' = (if j = i \<and> h' = h then Some ?r else entry s2 j h')"
        using i2 by (simp add: entry_set_device) (auto simp: entry_def update_conv)
      ultimately show ?thesis
        unfolding evolves_def using sh
        by (intro disjI2 exI [of _ s2] exI [of _ i] exI [of _ h] exI [of _ ?r]) simp
    qed
    moreover have "evolves s (erase_resource i h s1)" "evolves s (erase_resource i h s2)" "evolves s s1" "evolves s s2"
      using erase_resource_shrinks [OF i(2)] erase_resource_shrinks [OF i2] L(1) sh
      by (auto intro!: shrinks_evolves intro: shrinks_trans)
    ultimately show ?thesis
      using l True i(1) a by (auto simp: register_resource_def)
  qed
qed

lemma device_steps_shrink:
  "shrinks s (snd (register_device key s))" "shrinks s (unregister_device key s)"
  "shrinks s (unregister_resource key h s)"
proof -
  obtain ok s1 where l: "lifecycle_event 0 s = (ok, s1)"
    by force
  note L = lifecycle_event_step [OF l]
  show "shrinks s (snd (register_device key s))"
  proof (cases "ok \<and> key \<noteq> 0")
    case True
    obtain ok2 s2 where a: "advance_device s1 = (ok2, s2)"
      by force
    have "shrinks s1 s2"
      using a advance_shrinks(3) [of s1] by simp
    with L(1) have sh: "shrinks s s2"
      by (rule shrinks_trans)
    have "shrinks s (set_device i d s2)" if "dv_resources d = []" for i d
      using sh clear_device_shrinks [OF that] by (rule shrinks_trans)
    then show ?thesis
      using l L(1) a sh True by (auto simp: register_device_def split: option.splits)
  next
    case False
    then show ?thesis
      using l L(1) by (auto simp: register_device_def)
  qed
  have "shrinks s (set_device i d s1)" if "dv_resources d = []" for i d
    using L(1) clear_device_shrinks [OF that] by (rule shrinks_trans)
  then show "shrinks s (unregister_device key s)"
    using l L(1) by (auto simp: unregister_device_def split: option.splits)
  obtain ok' s1' where l': "lifecycle_event h s = (ok', s1')"
    by force
  note L' = lifecycle_event_step [OF l']
  show "shrinks s (unregister_resource key h s)"
    using l' L'(1) shrinks_trans [OF L'(1) erase_resource_shrinks [OF find_device_Some]]
    by (auto simp: unregister_resource_def split: option.splits)
qed


lemma publish_pair_shrinks: "shrinks s (snd (publish_pair t m ids hs s))"
proof -
  define s1 where "s1 = (if ho_active s \<and> tk_scene_epoch t = ho_scene_epoch s \<and>
      tk_sequence t = ho_capture_sequence s \<and> tk_lifecycle_epoch t \<noteq> ho_lifecycle_epoch s
    then s\<lparr>ho_ticket_invalidations := ho_ticket_invalidations s + 1\<rparr> else s)"
  have s1: "shrinks s s1"
    by (rule shrinks_same) (simp_all add: s1_def)
  have refuse: "shrinks x (refuse_latest x)" for x
    by (rule shrinks_same) (simp_all add: refuse_latest_def)
  define s2 where "s2 = s1\<lparr>ho_active := False, ho_candidate_handles := no_handles, ho_observed_handles := no_handles\<rparr>"
  have "shrinks s1 s2"
    by (rule shrinks_same) (simp_all add: s2_def)
  then have "shrinks s (refuse_latest (snd (advance_scene s2)))"
    using s1 advance_shrinks(2) [of s2] refuse by (blast intro: shrinks_trans)
  moreover have "shrinks s (refuse_latest s1)"
    using s1 refuse by (rule shrinks_trans)
  moreover have "shrinks s s'" if "s' = s1\<lparr>ho_owner_bound := b, ho_owner := m', ho_owned_ids := is,
      ho_publication := p, ho_candidate_handles := c, ho_observed_handles := o', ho_publications := n\<rparr>"
    for s' b m' "is" p c o' n
    by (rule shrinks_trans [OF s1]) (rule shrinks_same, simp_all add: that)
  ultimately show ?thesis
    using s1 unfolding publish_pair_def s1_def [symmetric] s2_def [symmetric] Let_def
    by (simp split: option.splits)
qed

lemma handoff_step_evolves: "evolves s (handoff_step ev s)"
proof (cases ev)
  case (RegisterResource al k h r)
  then show ?thesis
    using register_resource_evolves by simp
next
  case BeginScene
  let ?s0 = "s\<lparr>ho_candidate_handles := no_handles, ho_observed_handles := no_handles,
    ho_publication := no_publication, ho_owner_bound := False, ho_owner := no_scene_manager,
    ho_owned_ids := no_handles\<rparr>"
  have "shrinks s ?s0"
    by (rule shrinks_same) simp_all
  then have "shrinks s (snd (advance_scene ?s0))"
    using advance_shrinks(2) by (rule shrinks_trans)
  moreover have "shrinks x (x\<lparr>ho_active := b\<rparr>)" for x b
    by (rule shrinks_same) simp_all
  ultimately have "shrinks s (snd (begin_scene s))"
    unfolding begin_scene_def by (auto simp: case_prod_unfold intro: shrinks_trans)
  then show ?thesis
    using BeginScene by (simp add: shrinks_evolves)
next
  case StopScene
  let ?s0 = "s\<lparr>ho_candidate_handles := no_handles, ho_observed_handles := no_handles, ho_active := False,
    ho_owner_bound := False, ho_publication := no_publication\<rparr>"
  have "shrinks s ?s0"
    by (rule shrinks_same) simp_all
  then have "shrinks s (stop_scene s)"
    unfolding stop_scene_def using advance_shrinks(2) by (rule shrinks_trans)
  then show ?thesis
    using StopScene by (simp add: shrinks_evolves)
next
  case BeginCapture
  have "shrinks s (snd (begin_capture s))"
    using advance_shrinks(5) [of s] by (auto simp: begin_capture_def split: prod.splits)
  then show ?thesis
    using BeginCapture by (simp add: shrinks_evolves)
qed (auto intro!: shrinks_evolves simp: device_steps_shrink try_unregister_resource_def publish_pair_shrinks)

interpretation handoff: machine handoff_step handoff_inv "\<lambda>_. True"
  by unfold_locales (rule evolves_inv [OF handoff_step_evolves])

lemma initial_handoff_inv: "handoff_inv initial_handoff"
  by (simp add: handoff_inv_def entry_def initial_handoff_def no_device_def)

subsection \<open>No stale match\<close>

text \<open>A match whose scene is over, or whose resource registration is gone.\<close>

definition dead :: "copy_match \<Rightarrow> handoff \<Rightarrow> bool" where
  "dead v s \<longleftrightarrow> ho_exhausted s \<or> cm_scene_epoch v < ho_scene_epoch s \<or>
     (ri_generation (cm_resource v) \<le> ho_resource_counter s \<and>
      (\<forall>i h r. entry s i h = Some r \<longrightarrow> rg_generation r \<noteq> ri_generation (cm_resource v)))"

lemma dead_shrinks: "shrinks s s' \<Longrightarrow> dead v s \<Longrightarrow> dead v s'"
  unfolding shrinks_def dead_def by (meson order.strict_trans2 order_trans)

lemma dead_evolves: "evolves s s' \<Longrightarrow> dead v s \<Longrightarrow> dead v s'"
  unfolding evolves_def
proof (elim disjE exE conjE)
  assume "shrinks s s'" "dead v s"
  then show ?thesis by (rule dead_shrinks)
next
  fix s1 i h r
  assume d: "dead v s" and sh: "shrinks s s1" and rc: "ho_resource_counter s < ho_resource_counter s1"
    "rg_generation r = ho_resource_counter s1" "ho_resource_counter s' = ho_resource_counter s1"
    and f: "ho_scene_epoch s' = ho_scene_epoch s1" "ho_exhausted s' = ho_exhausted s1"
    and e: "\<forall>j h'. entry s' j h' = (if j = i \<and> h' = h then Some r else entry s1 j h')"
  consider "ho_exhausted s1" | "cm_scene_epoch v < ho_scene_epoch s1"
    | "ri_generation (cm_resource v) \<le> ho_resource_counter s"
      "\<forall>i h r. entry s1 i h = Some r \<longrightarrow> rg_generation r \<noteq> ri_generation (cm_resource v)"
    using d sh unfolding dead_def shrinks_def by (meson order.strict_trans2)
  then show "dead v s'"
  proof cases
    case 3
    then have "ri_generation (cm_resource v) < ho_resource_counter s1"
      using rc(1) by simp
    then show ?thesis
      using 3(2) e rc unfolding dead_def by (auto split: if_splits)
  qed (use f in \<open>simp_all add: dead_def\<close>)
qed

interpretation dead_match: machine handoff_step "dead v" "\<lambda>_. True" for v
  by unfold_locales (rule dead_evolves [OF handoff_step_evolves])

lemma match_copy_entry:
  assumes "cm_matched (match_copy key h s)"
  obtains i r where "find_device key s = Some i" "entry s i h = Some r"
    "rg_generation r = ri_generation (cm_resource (match_copy key h s))"
    "cm_scene_epoch (match_copy key h s) = ho_scene_epoch s" "\<not> ho_exhausted s" "h \<noteq> 0"
  using assms find_device_Some [of key s]
  by (auto simp: match_copy_def device_identity_def entry_def no_match_def Let_def
      split: if_splits option.splits)

lemma dead_not_current: "dead v s \<Longrightarrow> \<not> is_current v s"
proof
  assume d: "dead v s" and c: "is_current v s"
  let ?c = "match_copy (pb_device_key (ho_publication s)) (pb_handles (ho_publication s) ! cm_feed v) s"
  have m: "cm_matched ?c" "cm_scene_epoch v = cm_scene_epoch ?c" "cm_resource v = cm_resource ?c"
    using c by (auto simp: is_current_def Let_def split: if_splits)
  from m(1) obtain i r where "entry s i (pb_handles (ho_publication s) ! cm_feed v) = Some r"
    "rg_generation r = ri_generation (cm_resource ?c)" "cm_scene_epoch ?c = ho_scene_epoch s" "\<not> ho_exhausted s"
    by (rule match_copy_entry)
  then show False
    using d m unfolding dead_def by auto
qed

text \<open>The events that end a match on device \<open>key\<close> and handle \<open>h\<close>.\<close>

definition ends_match :: "u64 \<Rightarrow> u64 \<Rightarrow> handoff_event \<Rightarrow> bool" where
  "ends_match key h ev \<longleftrightarrow> (case ev of
     RegisterDevice k \<Rightarrow> k = key | UnregisterDevice k \<Rightarrow> k = key
   | RegisterResource _ k h' _ \<Rightarrow> k = key \<and> h' = h | UnregisterResource k h' \<Rightarrow> k = key \<and> h' = h
   | TryUnregisterResource locked k h' \<Rightarrow> locked \<and> k = key \<and> h' = h
   | BeginScene \<Rightarrow> True | StopScene \<Rightarrow> True | _ \<Rightarrow> False)"

lemma dead_exhausted: "ho_exhausted s \<Longrightarrow> dead v s"
  by (simp add: dead_def)

lemma dead_scene: "cm_scene_epoch v < ho_scene_epoch s \<Longrightarrow> dead v s"
  by (simp add: dead_def)

lemma dead_removed:
  assumes inv: "handoff_inv s" and e: "entry s i h = Some r" "rg_generation r = ri_generation (cm_resource v)"
    and sh: "shrinks s s'" and gone: "\<And>r'. entry s' i h = Some r' \<Longrightarrow> rg_generation r' \<noteq> rg_generation r"
  shows "dead v s'"
proof -
  have "rg_generation r' \<noteq> rg_generation r" if "entry s' j h' = Some r'" for j h' r'
  proof
    assume g: "rg_generation r' = rg_generation r"
    have "entry s j h' = Some r'"
      using sh that unfolding shrinks_def by blast
    then have "j = i" "h' = h"
      using inv e(1) g unfolding handoff_inv_def by metis+
    then show False
      using gone that g by blast
  qed
  moreover have "rg_generation r \<le> ho_resource_counter s'"
    using inv e(1) sh unfolding handoff_inv_def shrinks_def by (meson order_trans)
  ultimately show ?thesis
    using e(2) by (simp add: dead_def)
qed


lemma unregister_kills:
  assumes inv: "handoff_inv s" and m: "cm_matched (match_copy key h s)"
  shows "dead (match_copy key h s) (unregister_resource key h s)"
proof -
  from m obtain i r where f: "find_device key s = Some i" "entry s i h = Some r"
    "rg_generation r = ri_generation (cm_resource (match_copy key h s))"
    by (rule match_copy_entry)
  obtain ok s1 where l: "lifecycle_event h s = (ok, s1)"
    by force
  note L = lifecycle_event_step [OF l]
  have at: "find_device key s1 = Some i" "i < length (ho_devices s1)"
    using f(1) find_device_same [OF L(2), of key] find_device_Some [OF f(1)] L(2) by simp_all
  have "shrinks s (erase_resource i h s1)"
    using L(1) erase_resource_shrinks [OF at(2)] by (rule shrinks_trans)
  then have "dead (match_copy key h s) (erase_resource i h s1)"
    using erase_resource_entry [OF at(2)] by (intro dead_removed [OF inv f(2,3)]) simp_all
  then show ?thesis
    using l at(1) by (simp add: unregister_resource_def)
qed

lemma ending_kills:
  assumes inv: "handoff_inv s" and m: "cm_matched (match_copy key h s)" and e: "ends_match key h ev"
  shows "dead (match_copy key h s) (handoff_step ev s)"
proof -
  let ?v = "match_copy key h s"
  from m obtain i r where f: "find_device key s = Some i" "entry s i h = Some r"
    "rg_generation r = ri_generation (cm_resource ?v)" "cm_scene_epoch ?v = ho_scene_epoch s" "h \<noteq> 0"
    by (rule match_copy_entry)
  note gone = dead_removed [OF inv f(2,3)]
  have key: "key \<noteq> 0"
    using f(1) by (auto simp: find_device_def)
  have at: "find_device key s1 = Some i \<and> i < length (ho_devices s1)" if "ho_devices s1 = ho_devices s" for s1
    using that f(1) find_device_Some [OF f(1)] find_device_same [OF that] by simp
  show ?thesis
  proof (cases ev)
    case (RegisterDevice k)
    obtain ok s1 where l: "lifecycle_event 0 s = (ok, s1)"
      by force
    note L = lifecycle_event_step [OF l]
    obtain ok2 s2 where a: "advance_device s1 = (ok2, s2)"
      by force
    have s2: "shrinks s1 s2" "ho_devices s2 = ho_devices s1"
      using a advance_shrinks(3) [of s1] advance_devices(3) [of s1] by simp_all
    let ?s' = "set_device i \<lparr>dv_key = key, dv_epoch = ho_device_counter s2, dv_resources = []\<rparr> s2"
    have "shrinks s ?s'"
      using L(1) s2(1) clear_device_shrinks by (blast intro: shrinks_trans device.simps)
    moreover have "entry ?s' i h = None"
      using at [of s2] L(2) s2(2) by (simp add: entry_set_device)
    ultimately have "dead ?v ?s'"
      by (intro gone) simp_all
    then show ?thesis
      using RegisterDevice e key l a at [OF L(2)] dead_exhausted [OF L(3)] dead_exhausted [OF advance_exhausted(3)]
      by (cases ok; cases ok2) (auto simp: register_device_def ends_match_def)
  next
    case (UnregisterDevice k)
    obtain ok s1 where l: "lifecycle_event 0 s = (ok, s1)"
      by force
    note L = lifecycle_event_step [OF l]
    let ?s' = "set_device i \<lparr>dv_key = 0, dv_epoch = 0, dv_resources = []\<rparr> s1"
    have "shrinks s ?s'"
      using L(1) clear_device_shrinks by (blast intro: shrinks_trans device.simps)
    moreover have "entry ?s' i h = None"
      using at [OF L(2)] by (simp add: entry_set_device)
    ultimately have "dead ?v ?s'"
      by (intro gone) simp_all
    then show ?thesis
      using UnregisterDevice e l at [OF L(2)] by (simp add: unregister_device_def ends_match_def)
  next
    case (RegisterResource al k h' rid)
    obtain ok s1 where l: "lifecycle_event h s = (ok, s1)"
      by force
    note L = lifecycle_event_step [OF l]
    obtain ok2 s2 where a: "advance_resource s1 = (ok2, s2)"
      by force
    have s2: "shrinks s s2" "ho_devices s2 = ho_devices s"
      using a advance_shrinks(4) [of s1] advance_devices(4) [of s1] L(1,2) by (auto intro: shrinks_trans)
    have erased: "dead ?v (erase_resource i h x)" if "shrinks s x" "ho_devices x = ho_devices s" for x
      using that at [OF that(2)] erase_resource_shrinks
      by (intro gone) (auto intro: shrinks_trans simp: erase_resource_entry)
    have there: "map_of (dv_resources (ho_devices s ! i)) h \<noteq> None"
      using f(2) by (simp add: entry_def split: if_splits)
    let ?s' = "set_device i ((ho_devices s2 ! i)\<lparr>dv_resources := AList.update h
        \<lparr>rg_id = rid, rg_generation = ho_resource_counter s2\<rparr> (dv_resources (ho_devices s2 ! i))\<rparr>) s2"
    have "dead ?v ?s'" if ok2
    proof -
      have d: "dead ?v (erase_resource i h s2)"
        using erased s2 by blast
      have g: "ri_generation (cm_resource ?v) < ho_resource_counter s2"
      proof (rule order.strict_trans1)
        show "ri_generation (cm_resource ?v) \<le> ho_resource_counter s"
          using inv f(2) unfolding f(3) [symmetric] handoff_inv_def by blast
        show "ho_resource_counter s < ho_resource_counter s2"
          using advance_resource_greater [of s1 s2] a \<open>ok2\<close> unfolding L(5) [symmetric] by simp
      qed
      have "entry ?s' j h2 = (if j = i \<and> h2 = h then Some \<lparr>rg_id = rid, rg_generation = ho_resource_counter s2\<rparr>
          else entry (erase_resource i h s2) j h2)" for j h2
        using at [OF s2(2)] by (simp add: entry_set_device erase_resource_entry) (auto simp: entry_def update_conv)
      then show ?thesis
        using d g unfolding dead_def by (auto simp: erase_resource_def split: if_splits)
    qed
    then have add: "ok2 \<Longrightarrow> dead ?v ?s'" .
    have k: "k = key" "h' = h"
      using e RegisterResource by (simp_all add: ends_match_def)
    have fd: "find_device key s1 = Some i"
      using at [OF L(2)] by simp
    have there1: "map_of (dv_resources (ho_devices s1 ! i)) h \<noteq> None"
      using there L(2) by simp
    have st: "handoff_step ev s = (if \<not> ok then s1 else if rid = 0 then erase_resource i h s1
        else if \<not> ok2 then s2 else if \<not> al then erase_resource i h s2 else ?s')"
      using there1 by (auto simp: RegisterResource k register_resource_def l a fd f(5))
    have ex: "\<not> ok \<Longrightarrow> dead ?v s1" "\<not> ok2 \<Longrightarrow> dead ?v s2"
      using dead_exhausted L(3) advance_exhausted(4) [of s1 s2] a by auto
    show ?thesis
      unfolding st using add ex erased [OF L(1,2)] erased [OF s2] by simp
  next
    case (UnregisterResource k h')
    then show ?thesis
      using unregister_kills [OF inv m] e by (simp add: ends_match_def)
  next
    case (TryUnregisterResource b k h')
    then show ?thesis
      using unregister_kills [OF inv m] e by (simp add: ends_match_def try_unregister_resource_def)
  next
    case BeginScene
    let ?s0 = "s\<lparr>ho_candidate_handles := no_handles, ho_observed_handles := no_handles,
      ho_publication := no_publication, ho_owner_bound := False, ho_owner := no_scene_manager,
      ho_owned_ids := no_handles\<rparr>"
    obtain ok s1 where a: "advance_scene ?s0 = (ok, s1)"
      by force
    then have "ok \<Longrightarrow> ho_scene_epoch s < ho_scene_epoch s1" "\<not> ok \<Longrightarrow> ho_exhausted s1"
      using advance_scene_greater [of ?s0 s1] advance_exhausted(2) [of ?s0 s1] by auto
    then show ?thesis
      using BeginScene a f(4) by (cases ok) (simp_all add: begin_scene_def dead_def)
  next
    case StopScene
    let ?s0 = "s\<lparr>ho_candidate_handles := no_handles, ho_observed_handles := no_handles, ho_active := False,
      ho_owner_bound := False, ho_publication := no_publication\<rparr>"
    obtain ok s1 where a: "advance_scene ?s0 = (ok, s1)"
      by force
    then have "ok \<Longrightarrow> ho_scene_epoch s < ho_scene_epoch s1" "\<not> ok \<Longrightarrow> ho_exhausted s1"
      using advance_scene_greater [of ?s0 s1] advance_exhausted(2) [of ?s0 s1] by auto
    then show ?thesis
      using StopScene a f(4) by (cases ok) (simp_all add: stop_scene_def dead_def)
  qed (use e in \<open>simp_all add: ends_match_def\<close>)
qed

text \<open>C8: A match goes stale for good: once its device or resource is registered again or
  unregistered, or its scene stops or restarts, no later event (not even the reuse of the same
  native address) makes the match current again.\<close>

theorem stale_match_never_current:
  assumes "handoff_inv s" and "cm_matched (match_copy key h s)" and "ends_match key h ev"
  shows "\<not> is_current (match_copy key h s) (fold handoff_step evs (handoff_step ev s))"
  by (rule dead_not_current, rule dead_match.run_inv)
    (simp_all add: list.pred_True ending_kills [OF assms])


text \<open>A device with two registered outputs, a scene and a published pair.\<close>

definition demo_handoff :: handoff where
  "demo_handoff =
     (let s = fold handoff_step [RegisterDevice 100, RegisterResource True 100 11 1,
                RegisterResource True 100 12 2, BeginScene] initial_handoff;
          (t, s1) = begin_capture s
      in snd (publish_pair t \<lparr>sm_identity = 7, sm_generation = 1\<rparr> [3, 4, 0, 0] [11, 12, 0, 0] s1))"

theorem stale_match_never_current_witness:
  "is_current (match_copy 100 11 demo_handoff) demo_handoff \<and>
   \<not> is_current (match_copy 100 11 demo_handoff)
      (fold handoff_step [RegisterResource True 100 11 1, BeginScene] (handoff_step (UnregisterResource 100 11) demo_handoff))"
proof -
  have "handoff_inv demo_handoff"
  proof -
    define s where "s = fold handoff_step [RegisterDevice 100, RegisterResource True 100 11 1,
                RegisterResource True 100 12 2, BeginScene] initial_handoff"
    obtain t s1 where c: "begin_capture s = (t, s1)"
      by force
    have "handoff_inv (fold handoff_step [BeginCapture, PublishPair t \<lparr>sm_identity = 7, sm_generation = 1\<rparr>
        [3, 4, 0, 0] [11, 12, 0, 0]] s)"
      unfolding s_def by (intro handoff.run_inv) (simp_all add: initial_handoff_inv)
    moreover have "demo_handoff = snd (publish_pair t \<lparr>sm_identity = 7, sm_generation = 1\<rparr>
        [3, 4, 0, 0] [11, 12, 0, 0] s1)"
      using c unfolding demo_handoff_def s_def [symmetric] Let_def by simp
    ultimately show ?thesis
      using c by simp
  qed
  moreover have "cm_matched (match_copy 100 11 demo_handoff)"
    by code_simp
  moreover have "ends_match 100 11 (UnregisterResource 100 11)"
    by (simp add: ends_match_def)
  ultimately have "\<not> is_current (match_copy 100 11 demo_handoff)
      (fold handoff_step [RegisterResource True 100 11 1, BeginScene] (handoff_step (UnregisterResource 100 11) demo_handoff))"
    by (rule stale_match_never_current)
  moreover have "is_current (match_copy 100 11 demo_handoff) demo_handoff"
    by code_simp
  ultimately show ?thesis
    by blast
qed

subsection \<open>Tickets do not survive lifecycle events\<close>

definition is_lifecycle :: "handoff_event \<Rightarrow> bool" where
  "is_lifecycle ev \<longleftrightarrow> (case ev of RegisterDevice _ \<Rightarrow> True | UnregisterDevice _ \<Rightarrow> True
     | RegisterResource _ _ _ _ \<Rightarrow> True | UnregisterResource _ _ \<Rightarrow> True
     | TryUnregisterResource locked _ _ \<Rightarrow> locked | _ \<Rightarrow> False)"

text \<open>The ticket's lifecycle epoch is over.\<close>

definition ticket_over :: "capture_ticket \<Rightarrow> handoff \<Rightarrow> bool" where
  "ticket_over t s \<longleftrightarrow> ho_exhausted s \<or> tk_lifecycle_epoch t < ho_lifecycle_epoch s"

lemma ticket_over_shrinks: "shrinks s s' \<Longrightarrow> ticket_over t s \<Longrightarrow> ticket_over t s'"
  unfolding shrinks_def ticket_over_def by (meson order.strict_trans2)

lemma ticket_over_evolves: "evolves s s' \<Longrightarrow> ticket_over t s \<Longrightarrow> ticket_over t s'"
  unfolding evolves_def by (elim disjE exE conjE) (auto dest: ticket_over_shrinks simp: ticket_over_def)

interpretation ticket: machine handoff_step "ticket_over t" "\<lambda>_. True" for t
  by unfold_locales (rule ticket_over_evolves [OF handoff_step_evolves])

text \<open>The lifecycle epoch at a step.\<close>

lemma evolves_epoch: "evolves s s' \<Longrightarrow> ho_lifecycle_epoch s \<le> ho_lifecycle_epoch s'"
  unfolding evolves_def shrinks_def by auto

interpretation epochs: ordered_machine handoff_step "\<lambda>_. True" "\<lambda>_. True" ho_lifecycle_epoch
  by unfold_locales (simp_all add: evolves_epoch [OF handoff_step_evolves])

lemma set_device_lifecycle:
  "ho_lifecycle_epoch (erase_resource i h s) = ho_lifecycle_epoch s"
  "ho_exhausted (erase_resource i h s) = ho_exhausted s"
  by (simp_all add: erase_resource_def)

lemma advance_lifecycle_same:
  "advance_device s = (ok, s') \<Longrightarrow> ho_lifecycle_epoch s' = ho_lifecycle_epoch s \<and> (ho_exhausted s \<longrightarrow> ho_exhausted s')"
  "advance_resource s = (ok, s') \<Longrightarrow> ho_lifecycle_epoch s' = ho_lifecycle_epoch s \<and> (ho_exhausted s \<longrightarrow> ho_exhausted s')"
  by (auto simp: advance_device_def advance_resource_def advance_def exhaust_def split: if_splits)

text \<open>Every lifecycle step is a lifecycle event followed by changes that keep its epoch.\<close>

lemma lifecycle_step_after:
  assumes "is_lifecycle ev"
  obtains c ok s1 where "lifecycle_event c s = (ok, s1)"
    and "ho_lifecycle_epoch (handoff_step ev s) = ho_lifecycle_epoch s1"
    and "ho_exhausted s1 \<Longrightarrow> ho_exhausted (handoff_step ev s)"
proof -
  define c where "c = (case ev of RegisterResource _ _ h _ \<Rightarrow> h | UnregisterResource _ h \<Rightarrow> h
    | TryUnregisterResource _ _ h \<Rightarrow> h | _ \<Rightarrow> 0)"
  obtain ok s1 where l: "lifecycle_event c s = (ok, s1)"
    by force
  have "ho_lifecycle_epoch (handoff_step ev s) = ho_lifecycle_epoch s1 \<and>
      (ho_exhausted s1 \<longrightarrow> ho_exhausted (handoff_step ev s))"
    using assms l
    by (cases ev) (auto simp: is_lifecycle_def c_def register_device_def unregister_device_def
        register_resource_def unregister_resource_def try_unregister_resource_def set_device_lifecycle
        dest: advance_lifecycle_same split: option.splits prod.splits if_splits)
  with l that show thesis by blast
qed

lemma lifecycle_ends_ticket:
  assumes "is_lifecycle ev" and "tk_lifecycle_epoch t \<le> ho_lifecycle_epoch s"
  shows "ticket_over t (handoff_step ev s)"
proof -
  obtain c ok s1 where l: "lifecycle_event c s = (ok, s1)"
    and e: "ho_lifecycle_epoch (handoff_step ev s) = ho_lifecycle_epoch s1"
      "ho_exhausted s1 \<Longrightarrow> ho_exhausted (handoff_step ev s)"
    using lifecycle_step_after [OF assms(1), of s] by blast
  from lifecycle_event_step(3,4) [OF l] have "ho_exhausted s1 \<or> ho_lifecycle_epoch s < ho_lifecycle_epoch s1"
    by blast
  with e assms(2) show ?thesis
    unfolding ticket_over_def by (metis order.strict_trans1)
qed

text \<open>An inspection ticket is refused by every publication after any device or resource was
  registered or unregistered since the ticket was taken, related to the pair or not, so a
  handle freed and reused while the pair was inspected is never published.\<close>

theorem ticket_refused_after_lifecycle:
  assumes "begin_capture s = (t, s1)" and "is_lifecycle ev"
  shows "\<not> fst (publish_pair t m ids hs (fold handoff_step (evs1 @ [ev] @ evs2) s1))"
proof (cases "tk_sequence t = 0")
  case True
  then show ?thesis
    by (simp add: publish_pair_def publish_refused_def Let_def)
next
  case False
  then have "tk_lifecycle_epoch t = ho_lifecycle_epoch s1"
    using assms(1) by (auto simp: begin_capture_def no_ticket_def split: if_splits prod.splits)
  moreover have "ho_lifecycle_epoch s1 \<le> ho_lifecycle_epoch (fold handoff_step evs1 s1)"
    by (rule epochs.run_mono) (simp_all add: list.pred_True)
  ultimately have "ticket_over t (handoff_step ev (fold handoff_step evs1 s1))"
    by (intro lifecycle_ends_ticket assms) simp
  then have "ticket_over t (fold handoff_step evs2 (handoff_step ev (fold handoff_step evs1 s1)))"
    by (intro ticket.run_inv) (simp_all add: list.pred_True)
  then show ?thesis
    by (auto simp: publish_pair_def publish_refused_def ticket_over_def Let_def)
qed

theorem ticket_refused_after_lifecycle_witness:
  "\<not> fst (publish_pair (fst (begin_capture demo_handoff)) \<lparr>sm_identity = 7, sm_generation = 1\<rparr>
       [3, 4, 0, 0] [11, 12, 0, 0]
       (fold handoff_step ([] @ [RegisterResource True 100 55 9] @ [UnregisterResource 100 55])
          (snd (begin_capture demo_handoff))))"
  by (rule ticket_refused_after_lifecycle [where s = demo_handoff]) (simp_all add: is_lifecycle_def)

end
