(* ===== verification/Graphics_Policy.thy ===== *)
theory Graphics_Policy
  imports Prelude
begin

text \<open>
  The small trackers of the graphics side: the write budget (\<open>src/graphics/write_budget.hpp\<close>),
  the manual target assignment (\<open>target_assignment.hpp\<close>), the per-recording copy evidence
  (\<open>pfd_copy_proof.hpp\<close>), the capture phase (\<open>capture_phase.hpp\<close>), the capture stall detector
  (\<open>capture_progress.hpp\<close>), the open-query tracker (\<open>query_scope.hpp\<close>) and the nested metadata
  scopes (\<open>metadata_batch_cache.hpp\<close>).
\<close>

subsection \<open>WriteBudget\<close>

definition default_limit :: u32 where "default_limit = 4096"
definition minimum_limit :: u32 where "minimum_limit = 64"
definition maximum_limit :: u32 where "maximum_limit = 16384"
definition fallback_ms :: u64 where "fallback_ms = 50"

record write_budget =
  wb_present_frame :: u64
  wb_window_started_ms :: u64
  wb_window_epoch :: u64
  wb_window_accepted :: u32
  wb_window_skipped :: u64
  wb_total_accepted :: u64
  wb_total_skipped :: u64
  wb_timed_window_resets :: u64
  wb_peak_accepted :: u32
  wb_peak_skipped :: u64
  wb_limit_hit :: bool
  wb_limit :: u32
  wb_initialized :: bool

definition initial_budget :: write_budget where
  "initial_budget = \<lparr>wb_present_frame = 0, wb_window_started_ms = 0, wb_window_epoch = 0,
     wb_window_accepted = 0, wb_window_skipped = 0, wb_total_accepted = 0, wb_total_skipped = 0,
     wb_timed_window_resets = 0, wb_peak_accepted = 0, wb_peak_skipped = 0, wb_limit_hit = False,
     wb_limit = default_limit, wb_initialized = False\<rparr>"

definition increment :: "u64 \<Rightarrow> u64" where
  "increment v = (if v \<noteq> u64_max then v + 1 else v)"

definition set_limit :: "u32 \<Rightarrow> write_budget \<Rightarrow> write_budget" where
  "set_limit value s = s\<lparr>wb_limit := (if value < minimum_limit then minimum_limit
     else if value > maximum_limit then maximum_limit else value)\<rparr>"

definition begin_window :: "u64 \<Rightarrow> u64 \<Rightarrow> write_budget \<Rightarrow> write_budget" where
  "begin_window frame now s = s\<lparr>wb_initialized := True, wb_present_frame := frame,
     wb_window_started_ms := now, wb_window_epoch := increment (wb_window_epoch s),
     wb_window_accepted := 0, wb_window_skipped := 0, wb_limit_hit := False\<rparr>"

definition reset_session :: "u64 \<Rightarrow> u64 \<Rightarrow> write_budget \<Rightarrow> write_budget" where
  "reset_session frame now s = begin_window frame now
     (s\<lparr>wb_window_epoch := 0, wb_total_accepted := 0, wb_total_skipped := 0,
        wb_timed_window_resets := 0, wb_peak_accepted := 0, wb_peak_skipped := 0\<rparr>)"

definition timed_reset :: "u64 \<Rightarrow> u64 \<Rightarrow> write_budget \<Rightarrow> bool" where
  "timed_reset frame now s \<longleftrightarrow> wb_initialized s \<and> frame = wb_present_frame s \<and>
     now \<ge> wb_window_started_ms s \<and> now - wb_window_started_ms s \<ge> fallback_ms"

definition open_window :: "u64 \<Rightarrow> u64 \<Rightarrow> write_budget \<Rightarrow> write_budget" where
  "open_window frame now s =
     (if \<not> wb_initialized s \<or> frame \<noteq> wb_present_frame s \<or> timed_reset frame now s
      then begin_window frame now
             (if timed_reset frame now s
              then s\<lparr>wb_timed_window_resets := increment (wb_timed_window_resets s)\<rparr> else s)
      else s)"

definition try_acquire :: "u64 \<Rightarrow> u64 \<Rightarrow> write_budget \<Rightarrow> bool \<times> write_budget" where
  "try_acquire frame now s =
     (let s1 = open_window frame now s in
      if wb_window_accepted s1 \<ge> wb_limit s1
      then (False, s1\<lparr>wb_window_skipped := increment (wb_window_skipped s1),
              wb_total_skipped := increment (wb_total_skipped s1),
              wb_peak_skipped := (if increment (wb_window_skipped s1) > wb_peak_skipped s1
                then increment (wb_window_skipped s1) else wb_peak_skipped s1),
              wb_limit_hit := True\<rparr>)
      else (True, s1\<lparr>wb_window_accepted := wb_window_accepted s1 + 1,
              wb_total_accepted := increment (wb_total_accepted s1),
              wb_peak_accepted := (if wb_window_accepted s1 + 1 > wb_peak_accepted s1
                then wb_window_accepted s1 + 1 else wb_peak_accepted s1)\<rparr>))"

subsection \<open>Target assignment\<close>

datatype target_assignment = Unchanged | Changed | Duplicate | SequenceExhausted

text \<open>The references \<open>left\<close>, \<open>right\<close>, \<open>request\<close> are the state; the result comes first.\<close>

definition update_target_assignment ::
  "u64 \<Rightarrow> u64 \<Rightarrow> u64 \<times> u64 \<times> u64 \<Rightarrow> target_assignment \<times> u64 \<times> u64 \<times> u64" where
  "update_target_assignment next_left next_right = (\<lambda>(left, right, request).
     if next_left \<noteq> 0 \<and> next_left = next_right then (Duplicate, left, right, request)
     else if left = next_left \<and> right = next_right then (Unchanged, left, right, request)
     else if request = u64_max then (SequenceExhausted, left, right, request)
     else (Changed, next_left, next_right, request + 1))"

definition update_target_assignment3 ::
  "u64 \<Rightarrow> u64 \<Rightarrow> u64 \<Rightarrow> u64 \<times> u64 \<times> u64 \<times> u64 \<Rightarrow> target_assignment \<times> u64 \<times> u64 \<times> u64 \<times> u64" where
  "update_target_assignment3 next_left next_right next_lower = (\<lambda>(left, right, request, lower).
     if (next_left \<noteq> 0 \<and> next_left = next_right) \<or>
        (next_lower \<noteq> 0 \<and> (next_lower = next_left \<or> next_lower = next_right))
     then (Duplicate, left, right, request, lower)
     else if lower = next_lower
     then (case update_target_assignment next_left next_right (left, right, request) of
             (r, l, rt, q) \<Rightarrow> (r, l, rt, q, lower))
     else if request = u64_max then (SequenceExhausted, left, right, request, lower)
     else (Changed, next_left, next_right, request + 1, next_lower))"

subsection \<open>PfdCopyProof\<close>

datatype copy_mode = UnknownMode | LegacyRt | EnhancedRt

record copy_key =
  ck_resource :: u64
  ck_generation :: u64

record copy_slot =
  cs_key :: copy_key
  cs_pending :: copy_mode
  cs_ready :: copy_mode
  cs_pending_seen :: bool
  cs_reason :: string

definition no_copy_slot :: copy_slot where
  "no_copy_slot = \<lparr>cs_key = \<lparr>ck_resource = 0, ck_generation = 0\<rparr>, cs_pending = UnknownMode,
     cs_ready = UnknownMode, cs_pending_seen = False, cs_reason = ''no_rt_entry_in_recording''\<rparr>"

record copy_proof =
  cp_slots :: "copy_slot list"
  cp_known :: bool

definition initial_copy_proof :: copy_proof where
  "initial_copy_proof = \<lparr>cp_slots = replicate 2 no_copy_slot, cp_known = False\<rparr>"

definition copy_reset :: "bool \<Rightarrow> copy_proof \<Rightarrow> copy_proof" where
  "copy_reset observed s = \<lparr>cp_slots = replicate 2 no_copy_slot, cp_known = observed\<rparr>"

definition copy_invalidate :: "copy_proof \<Rightarrow> copy_proof" where
  "copy_invalidate s = s\<lparr>cp_known := False\<rparr>"

definition copy_clear_state :: "copy_proof \<Rightarrow> copy_proof" where
  "copy_clear_state s = copy_invalidate s"

definition copy_forget_resource :: "u64 \<Rightarrow> copy_proof \<Rightarrow> copy_proof" where
  "copy_forget_resource resource s = s\<lparr>cp_slots :=
     map (\<lambda>sl. if ck_resource (cs_key sl) = resource then no_copy_slot else sl) (cp_slots s)\<rparr>"

definition copy_find :: "copy_key \<Rightarrow> copy_proof \<Rightarrow> nat option" where
  "copy_find key s = first_index (\<lambda>sl. cs_key sl = key) (cp_slots s)"

definition note_transition :: "copy_mode \<Rightarrow> string \<Rightarrow> copy_slot \<Rightarrow> copy_slot" where
  "note_transition after refused sl =
     (if cs_pending_seen sl
      then sl\<lparr>cs_ready := UnknownMode, cs_pending := UnknownMode,
              cs_reason := ''multiple_transitions_before_draw'', cs_pending_seen := True\<rparr>
      else sl\<lparr>cs_ready := UnknownMode, cs_pending := after,
              cs_reason := (if after = UnknownMode then refused else ''awaiting_forwarded_draw''),
              cs_pending_seen := True\<rparr>)"

definition copy_observe_transition :: "copy_key \<Rightarrow> copy_mode \<Rightarrow> string \<Rightarrow> copy_proof \<Rightarrow> copy_proof" where
  "copy_observe_transition key after refused s =
     (if \<not> cp_known s \<or> ck_resource key = 0 \<or> ck_generation key = 0 then s
      else (case copy_find key s of
              Some i \<Rightarrow> s\<lparr>cp_slots := (cp_slots s)[i := note_transition after refused (cp_slots s ! i)]\<rparr>
            | None \<Rightarrow>
                (case first_index (\<lambda>sl. ck_resource (cs_key sl) = 0 \<or>
                          ck_resource (cs_key sl) = ck_resource key) (cp_slots s) of
                   Some i \<Rightarrow> s\<lparr>cp_slots := (cp_slots s)[i :=
                       note_transition after refused (no_copy_slot\<lparr>cs_key := key\<rparr>)]\<rparr>
                 | None \<Rightarrow> copy_invalidate s)))"

definition copy_after_draw :: "copy_key \<Rightarrow> copy_proof \<Rightarrow> copy_proof" where
  "copy_after_draw key s =
     (if \<not> cp_known s then s
      else (case copy_find key s of
              Some i \<Rightarrow>
                if cs_pending_seen (cp_slots s ! i)
                then s\<lparr>cp_slots := (cp_slots s)[i := (cp_slots s ! i)\<lparr>cs_ready := cs_pending (cp_slots s ! i),
                         cs_pending := UnknownMode, cs_pending_seen := False,
                         cs_reason := (if cs_pending (cp_slots s ! i) \<noteq> UnknownMode then ''ready''
                                       else cs_reason (cp_slots s ! i))\<rparr>]\<rparr>
                else s
            | None \<Rightarrow> s))"

definition copy_mode_of :: "copy_key \<Rightarrow> copy_proof \<Rightarrow> copy_mode" where
  "copy_mode_of key s =
     (if \<not> cp_known s then UnknownMode
      else (case copy_find key s of Some i \<Rightarrow> cs_ready (cp_slots s ! i) | None \<Rightarrow> UnknownMode))"

definition copy_reason :: "copy_key \<Rightarrow> copy_proof \<Rightarrow> string" where
  "copy_reason key s =
     (if \<not> cp_known s then ''recording_unknown_or_invalidated''
      else (case copy_find key s of Some i \<Rightarrow> cs_reason (cp_slots s ! i)
            | None \<Rightarrow> ''no_rt_entry_in_recording''))"

subsection \<open>Capture phase\<close>

datatype capture_kind = AfterMulti | AfterHold | Forced

record feed_phase =
  fp_held :: bool
  fp_spent :: bool

definition no_hold :: feed_phase where
  "no_hold = \<lparr>fp_held = False, fp_spent = False\<rparr>"

text \<open>A capture carries its kind; a held batch is \<open>None\<close>.\<close>

definition phase_decide :: "u32 \<Rightarrow> feed_phase \<Rightarrow> capture_kind option \<times> feed_phase" where
  "phase_decide draws f =
     (if fp_held f then (Some AfterHold, f)
      else if draws > 1 then (Some AfterMulti, f)
      else if fp_spent f then (Some Forced, f)
      else (None, \<lparr>fp_held = True, fp_spent = True\<rparr>))"

definition phase_captured :: "feed_phase \<Rightarrow> feed_phase" where
  "phase_captured f = no_hold"

definition phase_forget :: "feed_phase \<Rightarrow> feed_phase" where
  "phase_forget f = f\<lparr>fp_held := False\<rparr>"

subsection \<open>CaptureProgress\<close>

definition StallMs :: u64 where "StallMs = 500"

record capture_progress =
  cg_watching :: bool
  cg_stalled :: bool
  cg_frames :: u64
  cg_draws :: u64
  cg_since :: u64

definition initial_progress :: capture_progress where
  "initial_progress = \<lparr>cg_watching = False, cg_stalled = False, cg_frames = 0, cg_draws = 0, cg_since = 0\<rparr>"

definition progress_observe ::
  "u64 \<Rightarrow> bool \<Rightarrow> u64 \<Rightarrow> u64 \<Rightarrow> bool \<Rightarrow> capture_progress \<Rightarrow> bool \<times> capture_progress" where
  "progress_observe now eligible frames draws unknown_state s =
     (let s1 = (if \<not> eligible \<or> \<not> unknown_state \<or> frames \<noteq> cg_frames s \<or> now < cg_since s
                then s\<lparr>cg_watching := False, cg_stalled := False\<rparr> else s)\<lparr>cg_frames := frames\<rparr>
      in if \<not> eligible \<or> \<not> unknown_state then (False, s1)
         else if \<not> cg_watching s1
         then (False, s1\<lparr>cg_watching := True, cg_since := now, cg_draws := draws\<rparr>)
         else if now - cg_since s1 < StallMs \<or> draws \<le> cg_draws s1 then (False, s1)
         else (True, s1\<lparr>cg_watching := False, cg_stalled := True\<rparr>))"

subsection \<open>QueryScope\<close>

definition query_capacity :: nat where "query_capacity = 64"

type_synonym query = "u64 \<times> u32 \<times> u32"

record query_scope =
  qs_entries :: "query list"
  qs_known :: bool

definition initial_scope :: query_scope where
  "initial_scope = \<lparr>qs_entries = [], qs_known = False\<rparr>"

definition paired_type :: "u32 \<Rightarrow> bool" where
  "paired_type t \<longleftrightarrow> t = 0 \<or> t = 1 \<or> (t \<ge> 3 \<and> t \<le> 7) \<or> t = 10"

definition scope_reset :: "bool \<Rightarrow> query_scope \<Rightarrow> query_scope" where
  "scope_reset observed_success s = \<lparr>qs_entries = [], qs_known = observed_success\<rparr>"

definition scope_invalidate :: "query_scope \<Rightarrow> query_scope" where
  "scope_invalidate s = s\<lparr>qs_known := False\<rparr>"

text \<open>\<open>poison\<close> invalidates and answers false.\<close>

definition poison :: "query_scope \<Rightarrow> bool \<times> query_scope" where
  "poison s = (False, scope_invalidate s)"

definition scope_begin :: "u64 \<Rightarrow> u32 \<Rightarrow> u32 \<Rightarrow> query_scope \<Rightarrow> bool \<times> query_scope" where
  "scope_begin heap t index s =
     (if \<not> qs_known s then (False, s)
      else if heap = 0 \<or> \<not> paired_type t \<or> length (qs_entries s) = query_capacity then poison s
      else if list_ex (\<lambda>(h, _, i). h = heap \<and> i = index) (qs_entries s) then poison s
      else (True, s\<lparr>qs_entries := qs_entries s @ [(heap, t, index)]\<rparr>))"

text \<open>The last entry takes the place of the removed one.\<close>

definition swap_remove :: "nat \<Rightarrow> 'a list \<Rightarrow> 'a list" where
  "swap_remove i xs = butlast (xs[i := last xs])"

definition scope_end :: "u64 \<Rightarrow> u32 \<Rightarrow> u32 \<Rightarrow> query_scope \<Rightarrow> bool \<times> query_scope" where
  "scope_end heap t index s =
     (if \<not> qs_known s then (False, s)
      else if heap = 0 then poison s
      else if t = 2 then (True, s)
      else if \<not> paired_type t then poison s
      else (case first_index (\<lambda>q. q = (heap, t, index)) (qs_entries s) of
              Some i \<Rightarrow> (True, s\<lparr>qs_entries := swap_remove i (qs_entries s)\<rparr>)
            | None \<Rightarrow> poison s))"

definition scope_retire :: "u64 \<Rightarrow> query_scope \<Rightarrow> query_scope" where
  "scope_retire heap s =
     (if list_ex (\<lambda>(h, _, _). h = heap) (qs_entries s) then scope_invalidate s else s)"

definition can_stamp :: "query_scope \<Rightarrow> bool" where
  "can_stamp s \<longleftrightarrow> qs_known s \<and> qs_entries s = []"

subsection \<open>MetadataBatchCache\<close>

text \<open>
  A record is an address; what it holds now (\<open>alive\<close>, \<open>id\<close>, \<open>recording\<close>) is read through the
  parameter \<open>mem\<close>.  The template's capacity is a parameter; native pointers are words.
\<close>

record batch_record =
  br_alive :: bool
  br_id :: u64
  br_recording :: u64

record batch_scope =
  bs_native :: u64
  bs_generation :: u64
  bs_recording :: u64
  bs_record :: "u64 option"

definition no_batch_scope :: batch_scope where
  "no_batch_scope = \<lparr>bs_native = 0, bs_generation = 0, bs_recording = 0, bs_record = None\<rparr>"

record batch_cache =
  bc_scopes :: "batch_scope list"
  bc_depth :: nat

definition initial_cache :: "nat \<Rightarrow> batch_cache" where
  "initial_cache capacity = \<lparr>bc_scopes = replicate capacity no_batch_scope, bc_depth = 0\<rparr>"

definition cache_begin ::
  "(u64 \<Rightarrow> batch_record) \<Rightarrow> u64 \<Rightarrow> u64 \<Rightarrow> u64 option \<Rightarrow> batch_cache \<Rightarrow> batch_cache" where
  "cache_begin mem native generation record s =
     s\<lparr>bc_scopes := (if bc_depth s < length (bc_scopes s)
          then (bc_scopes s)[bc_depth s := \<lparr>bs_native = native, bs_generation = generation,
                 bs_recording = (case record of Some r \<Rightarrow> br_recording (mem r) | None \<Rightarrow> 0),
                 bs_record = record\<rparr>]
          else bc_scopes s),
       bc_depth := bc_depth s + 1\<rparr>"

definition cache_end :: "batch_cache \<Rightarrow> batch_cache" where
  "cache_end s =
     (if bc_depth s = 0 then s
      else
        let d = bc_depth s - 1
        in s\<lparr>bc_depth := d,
             bc_scopes := (if d < length (bc_scopes s) then (bc_scopes s)[d := no_batch_scope]
                           else bc_scopes s)\<rparr>)"

definition cache_current :: "(u64 \<Rightarrow> batch_record) \<Rightarrow> u64 \<Rightarrow> u64 \<Rightarrow> batch_cache \<Rightarrow> u64 option" where
  "cache_current mem native generation s =
     (if bc_depth s = 0 \<or> bc_depth s > length (bc_scopes s) then None
      else
        let slot = bc_scopes s ! (bc_depth s - 1)
        in (case bs_record slot of
              None \<Rightarrow> None
            | Some r \<Rightarrow>
                if bs_native slot = native \<and> bs_generation slot = generation \<and> br_alive (mem r) \<and>
                   br_id (mem r) = generation \<and> br_recording (mem r) = bs_recording slot
                then Some r else None))"

subsection \<open>The budget bounds a window\<close>

text \<open>The writes granted by attempts at the given times within one frame.\<close>

fun grants :: "u64 \<Rightarrow> u64 list \<Rightarrow> write_budget \<Rightarrow> nat" where
  "grants frame [] s = 0"
| "grants frame (t # ts) s =
     (case try_acquire frame t s of (ok, s') \<Rightarrow> (if ok then 1 else 0) + grants frame ts s')"

definition same_window :: "u64 \<Rightarrow> write_budget \<Rightarrow> u64 \<Rightarrow> bool" where
  "same_window frame s t \<longleftrightarrow> wb_initialized s \<and> wb_present_frame s = frame \<and> \<not> timed_reset frame t s"

lemma try_acquire_fields:
  "wb_limit (snd (try_acquire frame t s)) = wb_limit (open_window frame t s)"
  "wb_initialized (snd (try_acquire frame t s)) = wb_initialized (open_window frame t s)"
  "wb_present_frame (snd (try_acquire frame t s)) = wb_present_frame (open_window frame t s)"
  "wb_window_started_ms (snd (try_acquire frame t s)) = wb_window_started_ms (open_window frame t s)"
  "fst (try_acquire frame t s) = (wb_window_accepted (open_window frame t s) < wb_limit (open_window frame t s))"
  "wb_window_accepted (snd (try_acquire frame t s)) = (if fst (try_acquire frame t s)
     then wb_window_accepted (open_window frame t s) + 1 else wb_window_accepted (open_window frame t s))"
  by (auto simp add: try_acquire_def Let_def not_le leD)

lemma same_window_acquire:
  assumes "same_window frame s t" and "try_acquire frame t s = (ok, s')"
  shows "same_window frame s' t' = same_window frame s t'" and "wb_limit s' = wb_limit s"
    and "wb_window_accepted s \<le> wb_limit s \<Longrightarrow>
      unat (wb_window_accepted s') = unat (wb_window_accepted s) + (if ok then 1 else 0) \<and>
      wb_window_accepted s' \<le> wb_limit s'"
proof -
  have ow: "open_window frame t s = s"
    using assms(1) by (simp add: open_window_def same_window_def)
  note F = try_acquire_fields [of frame t s, unfolded ow assms(2) fst_conv snd_conv]
  show "same_window frame s' t' = same_window frame s t'" "wb_limit s' = wb_limit s"
    using F by (simp_all add: same_window_def timed_reset_def)
  assume le: "wb_window_accepted s \<le> wb_limit s"
  show "unat (wb_window_accepted s') = unat (wb_window_accepted s) + (if ok then 1 else 0) \<and>
      wb_window_accepted s' \<le> wb_limit s'"
  proof (cases ok)
    case True
    then have less: "wb_window_accepted s < wb_limit s"
      using F(5) by simp
    then have "wb_window_accepted s \<noteq> - 1"
      by (metis word_order.extremum_strict)
    then have "unat (wb_window_accepted s + 1) = unat (wb_window_accepted s) + 1"
      by (rule word_inc_unat)
    moreover from this less have "wb_window_accepted s + 1 \<le> wb_limit s"
      by (simp add: word_le_nat_alt word_less_nat_alt)
    ultimately show ?thesis
      using F(1,6) True by simp
  next
    case False
    then show ?thesis
      using F(1,6) le by simp
  qed
qed

text \<open>Within one window (one presented frame, less than fifty milliseconds) the budget grants at
  most its limit minus what it had already granted, whatever the attempts, and never more than
  the limit.\<close>

theorem budget_bounds_window:
  assumes "wb_window_accepted s \<le> wb_limit s" and "list_all (same_window frame s) ts"
  shows "grants frame ts s + unat (wb_window_accepted s) \<le> unat (wb_limit s)"
  using assms
proof (induction ts arbitrary: s)
  case Nil
  then show ?case by (simp add: word_le_nat_alt)
next
  case (Cons t ts)
  obtain ok s' where a: "try_acquire frame t s = (ok, s')"
    by force
  have "same_window frame s t"
    using Cons.prems(2) by simp
  note W = same_window_acquire [OF this a]
  have "list_all (same_window frame s') ts"
    using Cons.prems(2) W(1) by (simp add: list_all_iff)
  with Cons.IH [of s'] W(2) W(3) [OF Cons.prems(1)] show ?case
    by (simp add: a)
qed

theorem budget_bounds_window_witness:
  "grants 7 [100, 120, 149] (begin_window 7 100 (set_limit 2 initial_budget)) \<le> 64"
proof -
  let ?s = "begin_window 7 100 (set_limit 2 initial_budget)"
  have 1: "wb_window_accepted ?s \<le> wb_limit ?s"
    by (simp add: begin_window_def)
  have 2: "list_all (same_window 7 ?s) [100, 120, 149]"
    by (simp add: same_window_def timed_reset_def begin_window_def fallback_ms_def)
  have 3: "unat (wb_limit ?s) = 64" "unat (wb_window_accepted ?s) = 0"
    by (simp_all add: begin_window_def set_limit_def minimum_limit_def)
  from budget_bounds_window [OF 1 2] 3 show ?thesis
    by simp
qed

subsection \<open>Open queries\<close>

datatype query_event =
  ScopeReset bool | ScopeInvalidate | ScopeBegin u64 u32 u32 | ScopeEnd u64 u32 u32 | ScopeRetire u64

fun scope_step :: "query_event \<Rightarrow> query_scope \<Rightarrow> query_scope" where
  "scope_step (ScopeReset b) s = scope_reset b s"
| "scope_step ScopeInvalidate s = scope_invalidate s"
| "scope_step (ScopeBegin h t i) s = snd (scope_begin h t i s)"
| "scope_step (ScopeEnd h t i) s = snd (scope_end h t i s)"
| "scope_step (ScopeRetire h) s = scope_retire h s"

text \<open>The queries the application has open: the specification the tracker refines.\<close>

fun open_step :: "query_event \<Rightarrow> query set \<Rightarrow> query set" where
  "open_step (ScopeReset _) Q = {}"
| "open_step (ScopeBegin h t i) Q = insert (h, t, i) Q"
| "open_step (ScopeEnd h t i) Q = Q - {(h, t, i)}"
| "open_step _ Q = Q"

definition open_queries :: "query_event list \<Rightarrow> query set" where
  "open_queries evs = fold open_step evs {}"

definition scope_rel :: "query_event list \<Rightarrow> query_scope \<Rightarrow> bool" where
  "scope_rel evs s \<longleftrightarrow> distinct (qs_entries s) \<and> length (qs_entries s) \<le> query_capacity \<and>
     (qs_known s \<longrightarrow> open_queries evs = set (qs_entries s) \<and>
        (\<forall>q \<in> set (qs_entries s). fst (snd q) \<noteq> 2))"

lemma swap_remove_set:
  assumes "distinct xs" and "i < length xs"
  shows "set (swap_remove i xs) = set xs - {xs ! i}" and "distinct (swap_remove i xs)"
    and "length (swap_remove i xs) \<le> length xs"
proof -
  from assms(2) obtain ys z where xs: "xs = ys @ [z]"
    by (metis append_butlast_last_id length_0_conv not_less_zero)
  show "length (swap_remove i xs) \<le> length xs"
    by (simp add: swap_remove_def)
  have "set (swap_remove i xs) = set xs - {xs ! i} \<and> distinct (swap_remove i xs)"
  proof (cases "i = length ys")
    case True
    then show ?thesis
      using assms(1) xs by (auto simp: swap_remove_def)
  next
    case False
    then have "i < length ys"
      using assms(2) xs by simp
    then show ?thesis
      using assms(1) xs
      by (auto simp: swap_remove_def list_update_append butlast_append nth_append set_update_distinct
          intro!: distinct_list_update)
  qed
  then show "set (swap_remove i xs) = set xs - {xs ! i}" "distinct (swap_remove i xs)"
    by auto
qed

lemma paired_not_timestamp: "paired_type t \<Longrightarrow> t \<noteq> 2"
  by (auto simp: paired_type_def)

lemma open_queries_snoc: "open_queries (evs @ [ev]) = open_step ev (open_queries evs)"
  by (simp add: open_queries_def)

lemma scope_rel_begin:
  assumes rel: "scope_rel evs s"
  shows "scope_rel (evs @ [ScopeBegin h t i]) (snd (scope_begin h t i s))"
proof (cases "qs_known s \<and> h \<noteq> 0 \<and> paired_type t \<and> length (qs_entries s) \<noteq> query_capacity \<and>
    \<not> list_ex (\<lambda>(h', _, i'). h' = h \<and> i' = i) (qs_entries s)")
  case True
  then have "(h, t, i) \<notin> set (qs_entries s)"
    by (auto simp: list_ex_iff)
  then show ?thesis
    using rel True paired_not_timestamp
    by (auto simp: scope_begin_def scope_rel_def open_queries_snoc)
next
  case False
  then show ?thesis
    using rel by (auto simp: scope_begin_def scope_rel_def poison_def scope_invalidate_def)
qed

lemma scope_rel_end:
  assumes rel: "scope_rel evs s"
  shows "scope_rel (evs @ [ScopeEnd h t i]) (snd (scope_end h t i s))"
proof (cases "qs_known s \<and> h \<noteq> 0 \<and> paired_type t")
  case True
  then have open': "open_queries evs = set (qs_entries s)" "distinct (qs_entries s)" "t \<noteq> 2"
    using rel paired_not_timestamp by (auto simp: scope_rel_def)
  show ?thesis
  proof (cases "first_index (\<lambda>q. q = (h, t, i)) (qs_entries s)")
    case None
    then show ?thesis
      using rel True open'(3) by (simp add: scope_end_def scope_rel_def poison_def scope_invalidate_def)
  next
    case (Some k)
    then have "k < length (qs_entries s)" "qs_entries s ! k = (h, t, i)"
      using first_index_Some by blast+
    with swap_remove_set [OF open'(2) this(1)] show ?thesis
      using rel True open' Some by (auto simp: scope_end_def scope_rel_def open_queries_snoc)
  qed
next
  case False
  show ?thesis
  proof (cases "qs_known s \<and> h \<noteq> 0 \<and> t = 2")
    case True
    then show ?thesis
      using rel by (auto simp: scope_end_def scope_rel_def open_queries_snoc)
  next
    case False': False
    then show ?thesis
      using rel False by (auto simp: scope_end_def scope_rel_def poison_def scope_invalidate_def)
  qed
qed

interpretation queries: traced scope_step initial_scope scope_rel
proof
  show "scope_rel [] initial_scope"
    by (simp add: scope_rel_def initial_scope_def)
next
  fix evs s ev
  assume rel: "scope_rel evs s"
  show "scope_rel (evs @ [ev]) (scope_step ev s)"
    using rel scope_rel_begin [OF rel] scope_rel_end [OF rel]
    by (cases ev) (auto simp: scope_rel_def scope_reset_def scope_invalidate_def scope_retire_def
        open_queries_snoc)
qed

text \<open>Extra work is admitted only while no query of the application is open: in every history of
  resets, begins, ends, heap retirements and gaps, a tracker that admits work has seen every
  begun query ended since the last observed reset.\<close>

theorem stamp_only_without_open_queries:
  assumes "can_stamp (fold scope_step evs initial_scope)"
  shows "open_queries evs = {}"
  using queries.trace [of evs] assms by (simp add: scope_rel_def can_stamp_def)

theorem stamp_only_without_open_queries_witness:
  "open_queries [ScopeReset True, ScopeBegin 9 0 3, ScopeBegin 9 1 4, ScopeEnd 9 0 3, ScopeEnd 9 2 8,
     ScopeEnd 9 1 4] = {}"
proof -
  have "can_stamp (fold scope_step [ScopeReset True, ScopeBegin 9 0 3, ScopeBegin 9 1 4, ScopeEnd 9 0 3,
      ScopeEnd 9 2 8, ScopeEnd 9 1 4] initial_scope)"
    by code_simp
  from stamp_only_without_open_queries [OF this] show ?thesis .
qed

subsection \<open>Nested metadata scopes\<close>

datatype cache_op = CacheBegin u64 u64 "u64 option" | CacheEnd

fun cache_step :: "(u64 \<Rightarrow> batch_record) \<Rightarrow> cache_op \<Rightarrow> batch_cache \<Rightarrow> batch_cache" where
  "cache_step mem (CacheBegin n g r) s = cache_begin mem n g r s"
| "cache_step mem CacheEnd s = cache_end s"

text \<open>Well-bracketed scopes.\<close>

inductive balanced :: "cache_op list \<Rightarrow> bool" where
  empty: "balanced []"
| scope: "balanced xs \<Longrightarrow> balanced (CacheBegin n g r # xs @ [CacheEnd])"
| join: "balanced xs \<Longrightarrow> balanced ys \<Longrightarrow> balanced (xs @ ys)"

text \<open>Slots at or above the depth are clear.\<close>

definition cache_ok :: "batch_cache \<Rightarrow> bool" where
  "cache_ok s \<longleftrightarrow> (\<forall>i. bc_depth s \<le> i \<and> i < length (bc_scopes s) \<longrightarrow> bc_scopes s ! i = no_batch_scope)"

lemma cache_begin_ok: "cache_ok s \<Longrightarrow> cache_ok (cache_begin mem n g r s)"
  by (auto simp: cache_ok_def cache_begin_def nth_list_update)

lemma balanced_restores:
  "balanced ops \<Longrightarrow> cache_ok s \<Longrightarrow> fold (cache_step mem) ops s = s"
proof (induction ops arbitrary: s rule: balanced.induct)
  case empty
  then show ?case by simp
next
  case (scope xs n g r)
  let ?s1 = "cache_begin mem n g r s"
  have "fold (cache_step mem) xs ?s1 = ?s1"
    by (rule scope.IH) (rule cache_begin_ok [OF scope.prems])
  moreover have "cache_end ?s1 = s"
  proof (cases "bc_depth s < length (bc_scopes s)")
    case True
    then have "(bc_scopes s)[bc_depth s := no_batch_scope] = bc_scopes s"
      using scope.prems by (metis cache_ok_def list_update_id order_refl)
    then show ?thesis
      using True by (simp add: cache_end_def cache_begin_def)
  next
    case False
    then show ?thesis by (simp add: cache_end_def cache_begin_def)
  qed
  ultimately show ?case by simp
next
  case (join xs ys)
  then show ?case by simp
qed

lemma cache_step_ok: "cache_ok s \<Longrightarrow> cache_ok (cache_step mem op s)"
proof (cases op)
  case CacheEnd
  assume "cache_ok s"
  with CacheEnd show ?thesis
    by (auto simp: cache_ok_def cache_end_def Let_def nth_list_update split: if_splits)
qed (simp add: cache_begin_ok)

interpretation scopes: machine "cache_step mem" cache_ok "\<lambda>_. True" for mem
  by unfold_locales (rule cache_step_ok)

text \<open>Leaving nested scopes restores the exact outer context at any nesting depth, overflow of the
  capacity included: after any history, a well-bracketed sequence of scopes changes no lookup.\<close>

theorem nested_scopes_restore:
  assumes "balanced inner" and "s = fold (cache_step mem) outer (initial_cache capacity)"
  shows "fold (cache_step mem) inner s = s \<and>
    cache_current mem' native generation (fold (cache_step mem) inner s) = cache_current mem' native generation s"
proof -
  have "cache_ok s"
    unfolding assms(2)
    by (rule scopes.run_inv) (simp_all add: list.pred_True cache_ok_def initial_cache_def)
  from balanced_restores [OF assms(1) this] show ?thesis
    by simp
qed

theorem nested_scopes_restore_witness:
  "let mem = (\<lambda>r. \<lparr>br_alive = True, br_id = 2, br_recording = 5\<rparr>);
       s = fold (cache_step mem) [CacheBegin 1 2 (Some 40)] (initial_cache 1)
   in cache_current mem 1 2 (fold (cache_step mem) [CacheBegin 3 4 (Some 41), CacheEnd] s) = cache_current mem 1 2 s"
proof -
  have "balanced (CacheBegin 3 4 (Some 41) # [] @ [CacheEnd])"
    by (intro balanced.scope balanced.empty)
  then have "balanced [CacheBegin 3 4 (Some 41), CacheEnd]"
    by simp
  from nested_scopes_restore [OF this refl] show ?thesis
    by (simp only: Let_def)
qed

end
