(* ===== verification/Source_State.thy ===== *)
theory Source_State
  imports Prelude
begin

text \<open>
  \<open>src/graphics/scene_source_state.hpp\<close> and \<open>.cpp\<close>: what the recorded command lists prove about
  the render-target state of each source bitmap.  A \<open>Recording\<close> collects effects while a list is
  being recorded and collapses repeats; the \<open>Tracker\<close> applies a recording when the queue really
  executes it.  The main result is that collapsing loses nothing: applying the collapsed recording
  is applying every effect that was appended, one by one.
\<close>

subsection \<open>Data\<close>

datatype src_model = Unknown_Model | Legacy_Rt | Enhanced_Rt | Other_Model

fun render_target_model :: "src_model \<Rightarrow> bool" where
  "render_target_model m = (m = Legacy_Rt \<or> m = Enhanced_Rt)"

record src_key =
  key_handle :: u64
  key_generation :: u64

definition valid_key :: "src_key \<Rightarrow> bool" where
  "valid_key k \<longleftrightarrow> key_handle k \<noteq> 0 \<and> key_generation k \<noteq> 0"

datatype effect_kind = To_Legacy | To_Enhanced | To_Other | Pass_Other | Draw

record src_effect =
  ef_key :: src_key
  ef_kind :: effect_kind
  ef_draws :: u32

subsection \<open>Recording\<close>

definition recording_capacity :: nat where
  "recording_capacity = 256"

record recording =
  rec_effects :: "src_effect list"
  rec_count :: nat
  rec_invalid :: bool
  rec_overflowed :: bool

definition no_effect :: src_effect where
  "no_effect = \<lparr>ef_key = \<lparr>key_handle = 0, key_generation = 0\<rparr>, ef_kind = To_Other, ef_draws = 0\<rparr>"

definition new_recording :: recording where
  "new_recording = \<lparr>rec_effects = replicate recording_capacity no_effect, rec_count = 0,
     rec_invalid = False, rec_overflowed = False\<rparr>"

definition recording_invalidate :: "recording \<Rightarrow> recording" where
  "recording_invalidate r = r\<lparr>rec_invalid := True\<rparr>"

definition recording_reset :: "recording \<Rightarrow> recording" where
  "recording_reset r = r\<lparr>rec_count := 0, rec_invalid := False, rec_overflowed := False\<rparr>"

definition live_effects :: "recording \<Rightarrow> src_effect list" where
  "live_effects r = take (rec_count r) (rec_effects r)"

text \<open>The backward search of a draw for the draw evidence it can be counted on, newest first.\<close>

fun collapse_draw :: "src_key \<Rightarrow> src_effect list \<Rightarrow> src_effect list option" where
  "collapse_draw k [] = None"
| "collapse_draw k (e # es) =
     (if ef_key e \<noteq> k then map_option (\<lambda>rest. e # rest) (collapse_draw k es)
      else if ef_kind e = Draw
        then Some (e\<lparr>ef_draws := ef_draws e + (if ef_draws e \<noteq> u32_max then 1 else 0)\<rparr> # es)
      else None)"

text \<open>The last step of \<open>append\<close>: the effect takes the next place, when there is one.\<close>

definition push_effect :: "src_effect \<Rightarrow> recording \<Rightarrow> bool \<times> recording" where
  "push_effect e r =
     (if rec_count r = length (rec_effects r)
        then (False, recording_invalidate (r\<lparr>rec_overflowed := True\<rparr>))
      else (True, r\<lparr>rec_effects := (rec_effects r)[rec_count r := e], rec_count := rec_count r + 1\<rparr>))"

definition append_effect :: "src_effect \<Rightarrow> recording \<Rightarrow> bool \<times> recording" where
  "append_effect e r =
     (if rec_invalid r then (False, r)
      else if rec_count r > length (rec_effects r) \<or> \<not> valid_key (ef_key e)
        then (False, recording_invalidate r)
      else if ef_kind e = Draw
        then (case collapse_draw (ef_key e) (rev (live_effects r)) of
                Some es \<Rightarrow> (True, r\<lparr>rec_effects := rev es @ drop (rec_count r) (rec_effects r)\<rparr>)
              | None \<Rightarrow> push_effect (e\<lparr>ef_draws := 1\<rparr>) r)
      else (let e' = e\<lparr>ef_draws := 0\<rparr> in
            if rec_count r \<noteq> 0 \<and> rec_effects r ! (rec_count r - 1) = e' then (True, r)
            else push_effect e' r))"

subsection \<open>Tracker\<close>

definition tracker_capacity :: nat where
  "tracker_capacity = 128"

record src_state =
  st_model :: src_model
  st_drawn :: bool
  st_draws :: u32

definition fresh_state :: "src_model \<Rightarrow> src_state" where
  "fresh_state m = \<lparr>st_model = m, st_drawn = False, st_draws = 0\<rparr>"

record src_slot =
  sl_key :: src_key
  sl_state :: src_state
  sl_retained :: src_model

definition empty_slot :: src_slot where
  "empty_slot = \<lparr>sl_key = \<lparr>key_handle = 0, key_generation = 0\<rparr>, sl_state = fresh_state Unknown_Model,
     sl_retained = Unknown_Model\<rparr>"

type_synonym tracker = "src_slot list"

definition tracker_clear :: "tracker \<Rightarrow> tracker" where
  "tracker_clear t = replicate tracker_capacity empty_slot"

definition new_source :: "src_key \<Rightarrow> src_model \<Rightarrow> src_slot" where
  "new_source k m = \<lparr>sl_key = k, sl_state = fresh_state m,
     sl_retained = (if render_target_model m then m else Unknown_Model)\<rparr>"

text \<open>
  The loop stops at the first slot of the same handle (the key itself is one of these); the free
  slot it remembers counts only when there is none.
\<close>

definition register_source :: "src_key \<Rightarrow> src_model \<Rightarrow> tracker \<Rightarrow> bool \<times> tracker" where
  "register_source k m t =
     (if \<not> valid_key k then (False, t)
      else case first_index (\<lambda>s. key_handle (sl_key s) = key_handle k) t of
        Some i \<Rightarrow> if sl_key (t ! i) = k then (True, t) else (True, t[i := new_source k m])
      | None \<Rightarrow>
          (case first_index (\<lambda>s. key_handle (sl_key s) = 0) t of
             None \<Rightarrow> (False, t)
           | Some i \<Rightarrow> (True, t[i := new_source k m])))"

text \<open>Change the first slot of a key: the search loops of the tracker, which \<open>break\<close> there.\<close>

fun change_slot :: "src_key \<Rightarrow> (src_slot \<Rightarrow> src_slot) \<Rightarrow> tracker \<Rightarrow> tracker" where
  "change_slot k f [] = []"
| "change_slot k f (s # t) = (if sl_key s = k then f s # t else s # change_slot k f t)"

definition unregister_source :: "src_key \<Rightarrow> tracker \<Rightarrow> tracker" where
  "unregister_source k t = (if valid_key k then change_slot k (\<lambda>_. empty_slot) t else t)"

definition begin_batch :: "tracker \<Rightarrow> tracker" where
  "begin_batch t = map (\<lambda>s. s\<lparr>sl_state := (sl_state s)\<lparr>st_drawn := False, st_draws := 0\<rparr>\<rparr>) t"

definition invalidate_all :: "tracker \<Rightarrow> tracker" where
  "invalidate_all t = map (\<lambda>s. s\<lparr>sl_state := fresh_state Unknown_Model\<rparr>) t"

definition retire_live_models :: "tracker \<Rightarrow> tracker" where
  "retire_live_models t =
     map (\<lambda>s. if key_handle (sl_key s) \<noteq> 0 then s\<lparr>sl_state := fresh_state Other_Model\<rparr> else s) t"

definition needs_rearm :: "src_slot \<Rightarrow> bool" where
  "needs_rearm s \<longleftrightarrow> key_handle (sl_key s) \<noteq> 0 \<and> render_target_model (sl_retained s) \<and>
     st_model (sl_state s) \<noteq> sl_retained s"

definition rearm_retained_rt :: "tracker \<Rightarrow> nat \<times> tracker" where
  "rearm_retained_rt t =
     (length (filter needs_rearm t),
      map (\<lambda>s. if needs_rearm s then s\<lparr>sl_state := fresh_state (sl_retained s)\<rparr> else s) t)"

definition source_state :: "src_key \<Rightarrow> tracker \<Rightarrow> src_state" where
  "source_state k t =
     (if valid_key k
        then (case find (\<lambda>s. sl_key s = k) t of Some s \<Rightarrow> sl_state s | None \<Rightarrow> fresh_state Unknown_Model)
      else fresh_state Unknown_Model)"

text \<open>The effect on the slot it names (the \<open>switch\<close> of \<open>apply\<close>).\<close>

definition draw_effect :: "u32 \<Rightarrow> src_state \<Rightarrow> src_state" where
  "draw_effect evidence st =
     (let drawn = render_target_model (st_model st);
          draws = (if evidence \<noteq> 0 then evidence else 1)
      in st\<lparr>st_drawn := drawn,
            st_draws := (if \<not> drawn then 0
                         else if draws > u32_max - st_draws st then u32_max
                         else st_draws st + draws)\<rparr>)"

fun slot_effect :: "effect_kind \<Rightarrow> u32 \<Rightarrow> src_slot \<Rightarrow> src_slot" where
  "slot_effect To_Legacy n s = s\<lparr>sl_state := fresh_state Legacy_Rt, sl_retained := Legacy_Rt\<rparr>"
| "slot_effect To_Enhanced n s = s\<lparr>sl_state := fresh_state Enhanced_Rt, sl_retained := Enhanced_Rt\<rparr>"
| "slot_effect To_Other n s = s\<lparr>sl_state := fresh_state Other_Model, sl_retained := Unknown_Model\<rparr>"
| "slot_effect Pass_Other n s = s\<lparr>sl_state := fresh_state Other_Model\<rparr>"
| "slot_effect Draw n s = s\<lparr>sl_state := draw_effect n (sl_state s)\<rparr>"

definition apply_effect :: "src_effect \<Rightarrow> tracker \<Rightarrow> tracker" where
  "apply_effect e t = change_slot (ef_key e) (slot_effect (ef_kind e) (ef_draws e)) t"

fun apply_effects :: "src_effect list \<Rightarrow> tracker \<Rightarrow> bool \<times> tracker" where
  "apply_effects [] t = (True, t)"
| "apply_effects (e # es) t =
     (if valid_key (ef_key e) then apply_effects es (apply_effect e t) else (False, invalidate_all t))"

definition apply_recording :: "recording \<Rightarrow> tracker \<Rightarrow> bool \<times> tracker" where
  "apply_recording r t =
     (if rec_invalid r \<or> rec_count r > length (rec_effects r) then (False, invalidate_all t)
      else apply_effects (live_effects r) t)"

subsection \<open>Runs\<close>

datatype rec_event = Append src_effect | Invalidate_Rec | Reset_Rec

fun rec_step :: "rec_event \<Rightarrow> recording \<Rightarrow> recording" where
  "rec_step (Append e) r = snd (append_effect e r)"
| "rec_step Invalidate_Rec r = recording_invalidate r"
| "rec_step Reset_Rec r = recording_reset r"

text \<open>The effects appended since the last reset: the contract of a recording.\<close>

fun appended_step :: "rec_event \<Rightarrow> src_effect list \<Rightarrow> src_effect list" where
  "appended_step (Append e) es = es @ [e]"
| "appended_step Invalidate_Rec es = es"
| "appended_step Reset_Rec es = []"

definition native_effect :: "src_effect \<Rightarrow> tracker \<Rightarrow> tracker" where
  "native_effect e = apply_effect (e\<lparr>ef_draws := 0\<rparr>)"

datatype tracker_event =
  Register src_key src_model
| Unregister src_key
| Clear
| Begin_Batch
| Apply recording
| Invalidate_All
| Retire_Live
| Rearm

fun tracker_step :: "tracker_event \<Rightarrow> tracker \<Rightarrow> tracker" where
  "tracker_step (Register k m) t = snd (register_source k m t)"
| "tracker_step (Unregister k) t = unregister_source k t"
| "tracker_step Clear t = tracker_clear t"
| "tracker_step Begin_Batch t = begin_batch t"
| "tracker_step (Apply r) t = snd (apply_recording r t)"
| "tracker_step Invalidate_All t = invalidate_all t"
| "tracker_step Retire_Live t = retire_live_models t"
| "tracker_step Rearm t = snd (rearm_retained_rt t)"

subsection \<open>Collapsing loses nothing\<close>

lemma slot_effect_key [simp]: "sl_key (slot_effect kd n s) = sl_key s"
  by (cases kd) simp_all

lemma change_slot_commute:
  assumes "k \<noteq> k'" and "\<And>s. sl_key (f s) = sl_key s" and "\<And>s. sl_key (g s) = sl_key s"
  shows "change_slot k f (change_slot k' g t) = change_slot k' g (change_slot k f t)"
  using assms by (induction t) auto

lemma change_slot_fuse:
  assumes "\<And>s. sl_key (f s) = sl_key s"
  shows "change_slot k g (change_slot k f t) = change_slot k (\<lambda>s. g (f s)) t"
  using assms by (induction t) auto

lemma apply_effect_commute:
  "ef_key d \<noteq> ef_key e \<Longrightarrow> apply_effect d (apply_effect e t) = apply_effect e (apply_effect d t)"
  unfolding apply_effect_def by (rule change_slot_commute) simp_all

text \<open>The saturating sum of draw counts.\<close>

lemma saturating_add:
  "unat (if n > u32_max - d then u32_max else d + n) = min (2 ^ 32 - 1) (unat d + unat n)"
  for d n :: u32
proof -
  have max: "unat u32_max = 2 ^ 32 - 1"
    by (simp add: unsigned_minus_1_eq_mask mask_eq_exp_minus_1)
  have d: "unat d \<le> 2 ^ 32 - 1" and n: "unat n \<le> 2 ^ 32 - 1"
    using unsigned_less [of d, where ?'a = nat] unsigned_less [of n, where ?'a = nat] by simp_all
  have diff: "unat (u32_max - d) = 2 ^ 32 - 1 - unat d"
    using max by (simp add: unat_sub)
  show ?thesis
  proof (cases "n > u32_max - d")
    case True
    then have "2 ^ 32 - 1 - unat d < unat n"
      by (simp add: word_less_nat_alt diff)
    with True max show ?thesis by simp
  next
    case False
    then have "unat n \<le> 2 ^ 32 - 1 - unat d"
      by (simp add: word_less_nat_alt diff)
    then have le: "unat d + unat n \<le> 2 ^ 32 - 1"
      using d by simp
    then have "unat (d + n) = unat d + unat n"
      by (simp add: unat_plus_simple word_le_nat_alt unat_word_ariths)
    with False le show ?thesis by simp
  qed
qed

text \<open>One more draw on evidence that saturates.\<close>

lemma evidence_inc:
  "unat (n + (if n \<noteq> u32_max then 1 else 0)) = min (2 ^ 32 - 1) (unat n + 1)" for n :: u32
  using unsigned_less [of "n + 1", where ?'a = nat] word_inc_unat [of n]
  by (cases "n = u32_max") (auto simp: unsigned_minus_1_eq_mask mask_eq_exp_minus_1)

lemma draw_twice:
  assumes "n \<noteq> 0" and "m = 0 \<or> m = 1"
  shows "draw_effect m (draw_effect n st) =
    draw_effect (n + (if n \<noteq> u32_max then 1 else 0)) st"
proof (cases "render_target_model (st_model st)")
  case False
  then show ?thesis
    by (simp add: draw_effect_def)
next
  case True
  define n' where "n' = n + (if n \<noteq> u32_max then 1 else 0)"
  define add :: "u32 \<Rightarrow> u32 \<Rightarrow> u32" where
    "add = (\<lambda>d k. if k > u32_max - d then u32_max else d + k)"
  have n': "unat n' = min (2 ^ 32 - 1) (unat n + 1)"
    unfolding n'_def by (rule evidence_inc)
  then have "n' \<noteq> 0" by auto
  have add: "unat (add d k) = min (2 ^ 32 - 1) (unat d + unat k)" for d k
    unfolding add_def by (rule saturating_add)
  have "add (add (st_draws st) n) 1 = add (st_draws st) n'"
    by (rule word_unat_eq_iff [THEN iffD2]) (simp add: add n')
  moreover have "(if m \<noteq> 0 then m else 1) = (1 :: u32)"
    using assms(2) by auto
  moreover have eff: "draw_effect k s =
      s\<lparr>st_drawn := True, st_draws := add (st_draws s) (if k \<noteq> 0 then k else 1)\<rparr>"
    if "render_target_model (st_model s)" for k s
    using that unfolding draw_effect_def Let_def add_def by (simp del: render_target_model.simps)
  ultimately show ?thesis
    using True assms(1) \<open>n' \<noteq> 0\<close> unfolding n'_def [symmetric]
    by (simp add: eff [OF True] eff del: render_target_model.simps)
qed

lemma collapse_draw_fold:
  assumes "collapse_draw k es = Some es'"
    and "\<forall>e \<in> set es. ef_kind e = Draw \<longrightarrow> ef_draws e \<noteq> 0"
    and "ef_key d = k" "ef_kind d = Draw" "ef_draws d = 0"
  shows "fold apply_effect (rev es') t = apply_effect d (fold apply_effect (rev es) t)"
  using assms(1,2)
proof (induction es arbitrary: es')
  case Nil
  then show ?case by simp
next
  case (Cons e es)
  show ?case
  proof (cases "ef_key e = k")
    case False
    with Cons.prems obtain rest where rest: "collapse_draw k es = Some rest" "es' = e # rest"
      by auto
    with Cons.IH [OF rest(1)] Cons.prems(2)
    have "fold apply_effect (rev es') t = apply_effect e (apply_effect d (fold apply_effect (rev es) t))"
      by simp
    also have "\<dots> = apply_effect d (apply_effect e (fold apply_effect (rev es) t))"
      using False assms(3) by (intro apply_effect_commute) simp
    finally show ?thesis by simp
  next
    case True
    with Cons.prems have es': "es' = e\<lparr>ef_draws := ef_draws e + (if ef_draws e \<noteq> u32_max then 1 else 0)\<rparr> # es"
      and e: "ef_kind e = Draw" "ef_draws e \<noteq> 0"
      by (auto split: if_splits)
    have "slot_effect Draw 0 (slot_effect Draw (ef_draws e) s) =
        slot_effect Draw (ef_draws e + (if ef_draws e \<noteq> u32_max then 1 else 0)) s" for s
      using draw_twice [OF e(2), of 0 "sl_state s"] by simp
    then have "apply_effect d (apply_effect e t') =
        apply_effect (e\<lparr>ef_draws := ef_draws e + (if ef_draws e \<noteq> u32_max then 1 else 0)\<rparr>) t'" for t'
      using True e assms(3-5) unfolding apply_effect_def
      by (simp add: change_slot_fuse del: slot_effect.simps)
    with es' show ?thesis by simp
  qed
qed

lemma collapse_draw_keys:
  "collapse_draw k es = Some es' \<Longrightarrow> map ef_key es' = map ef_key es"
  by (induction es arbitrary: es') (auto split: if_splits)

lemma collapse_draw_counted:
  "collapse_draw k es = Some es' \<Longrightarrow> \<forall>e \<in> set es. ef_kind e = Draw \<longrightarrow> ef_draws e \<noteq> 0 \<Longrightarrow>
   \<forall>e \<in> set es'. ef_kind e = Draw \<longrightarrow> ef_draws e \<noteq> 0"
proof (induction es arbitrary: es')
  case Nil
  then show ?case by simp
next
  case (Cons e es)
  have "n + 1 \<noteq> 0" if "n \<noteq> u32_max" for n :: u32
    using that word_inc_unat [of n] by auto
  with Cons show ?case
    by (auto split: if_splits)
qed

text \<open>What a recording that is still valid stands for.\<close>

definition recording_ok :: "src_effect list \<Rightarrow> recording \<Rightarrow> bool" where
  "recording_ok es r \<longleftrightarrow>
     length (rec_effects r) = recording_capacity \<and> rec_count r \<le> recording_capacity \<and>
     (\<forall>e \<in> set (live_effects r). valid_key (ef_key e) \<and> (ef_kind e = Draw \<longrightarrow> ef_draws e \<noteq> 0)) \<and>
     (\<not> rec_invalid r \<longrightarrow> (\<forall>t. fold apply_effect (live_effects r) t = fold native_effect es t))"

lemma recording_okD:
  assumes "recording_ok es r"
  shows "length (rec_effects r) = recording_capacity" "rec_count r \<le> recording_capacity"
    "\<And>e. e \<in> set (live_effects r) \<Longrightarrow> valid_key (ef_key e)"
    "\<forall>e \<in> set (live_effects r). ef_kind e = Draw \<longrightarrow> ef_draws e \<noteq> 0"
    "\<not> rec_invalid r \<Longrightarrow> fold apply_effect (live_effects r) t = fold native_effect es t"
  using assms by (simp_all add: recording_ok_def)

lemma native_draw: "ef_kind e = Draw \<Longrightarrow> native_effect e t = apply_effect (e\<lparr>ef_draws := 1\<rparr>) t"
proof -
  have "slot_effect Draw 0 = slot_effect Draw 1"
    by (rule ext) (simp add: draw_effect_def)
  then show "ef_kind e = Draw \<Longrightarrow> native_effect e t = apply_effect (e\<lparr>ef_draws := 1\<rparr>) t"
    by (simp add: native_effect_def apply_effect_def)
qed

lemma native_other: "ef_kind e \<noteq> Draw \<Longrightarrow> native_effect e t = apply_effect e t"
proof -
  assume kind: "ef_kind e \<noteq> Draw"
  then have "slot_effect (ef_kind e) n s = slot_effect (ef_kind e) m s" for n m s
    by (cases "ef_kind e") simp_all
  then have "slot_effect (ef_kind e) 0 = slot_effect (ef_kind e) (ef_draws e)"
    by blast
  then show "native_effect e t = apply_effect e t"
    by (simp add: native_effect_def apply_effect_def)
qed

lemma native_twice:
  assumes "ef_kind e \<noteq> Draw"
  shows "native_effect e (native_effect e t) = native_effect e t"
proof -
  have "slot_effect (ef_kind e) 0 (slot_effect (ef_kind e) 0 s) = slot_effect (ef_kind e) 0 s" for s
    using assms by (cases "ef_kind e") simp_all
  then show ?thesis
    unfolding native_effect_def apply_effect_def by (simp add: change_slot_fuse)
qed

lemma recording_ok_invalidate: "recording_ok es r \<Longrightarrow> recording_ok es' (recording_invalidate r)"
  by (simp add: recording_ok_def recording_invalidate_def live_effects_def)

lemma recording_ok_reset: "recording_ok es r \<Longrightarrow> recording_ok [] (recording_reset r)"
  by (simp add: recording_ok_def recording_reset_def live_effects_def)

lemma recording_ok_overflow: "recording_ok es r \<Longrightarrow> recording_ok es (r\<lparr>rec_overflowed := b\<rparr>)"
  by (simp add: recording_ok_def live_effects_def)

lemma push_effect_ok:
  assumes ok: "recording_ok es r" and "\<not> rec_invalid r" and "valid_key (ef_key e)"
    and "ef_kind e = Draw \<longrightarrow> ef_draws e \<noteq> 0"
    and meaning: "\<And>t. apply_effect e t = native_effect d t"
  shows "recording_ok (es @ [d]) (snd (push_effect e r))"
proof (cases "rec_count r = length (rec_effects r)")
  case True
  then show ?thesis
    unfolding push_effect_def using ok
    by (auto intro: recording_ok_invalidate recording_ok_overflow)
next
  case False
  with recording_okD(1,2) [OF ok] have lt: "rec_count r < length (rec_effects r)" by simp
  define r' where "r' = r\<lparr>rec_effects := (rec_effects r)[rec_count r := e], rec_count := rec_count r + 1\<rparr>"
  have live: "live_effects r' = live_effects r @ [e]"
    using lt unfolding live_effects_def r'_def by (simp add: take_Suc_conv_app_nth)
  have "recording_ok (es @ [d]) r'"
    using recording_okD [OF ok] assms lt unfolding recording_ok_def live
    by (auto simp: r'_def)
  with False show ?thesis
    by (simp add: push_effect_def r'_def)
qed

lemma append_effect_ok:
  assumes ok: "recording_ok es r"
  shows "recording_ok (es @ [e]) (snd (append_effect e r))"
proof -
  note D = recording_okD [OF ok]
  consider (invalid) "rec_invalid r"
    | (refused) "\<not> rec_invalid r" "\<not> valid_key (ef_key e)"
    | (counted) es' where "\<not> rec_invalid r" "valid_key (ef_key e)" "ef_kind e = Draw"
        "collapse_draw (ef_key e) (rev (live_effects r)) = Some es'"
    | (drawn) "\<not> rec_invalid r" "valid_key (ef_key e)" "ef_kind e = Draw"
        "collapse_draw (ef_key e) (rev (live_effects r)) = None"
    | (repeated) "\<not> rec_invalid r" "valid_key (ef_key e)" "ef_kind e \<noteq> Draw"
        "rec_count r \<noteq> 0" "rec_effects r ! (rec_count r - 1) = e\<lparr>ef_draws := 0\<rparr>"
    | (fresh) "\<not> rec_invalid r" "valid_key (ef_key e)" "ef_kind e \<noteq> Draw"
        "\<not> (rec_count r \<noteq> 0 \<and> rec_effects r ! (rec_count r - 1) = e\<lparr>ef_draws := 0\<rparr>)"
    by (cases "collapse_draw (ef_key e) (rev (live_effects r))") blast+
  then show ?thesis
  proof cases
    case invalid
    then show ?thesis
      using ok by (simp add: append_effect_def recording_ok_def)
  next
    case refused
    then show ?thesis
      using recording_ok_invalidate [OF ok] by (simp add: append_effect_def)
  next
    case counted
    define r' where "r' = r\<lparr>rec_effects := rev es' @ drop (rec_count r) (rec_effects r)\<rparr>"
    have len: "length es' = rec_count r"
      using collapse_draw_keys [OF counted(4), THEN arg_cong, of length] D(1,2)
      by (simp add: live_effects_def)
    then have live: "live_effects r' = rev es'"
      by (simp add: live_effects_def r'_def)
    have keys: "ef_key ` set es' = ef_key ` set (live_effects r)"
      using collapse_draw_keys [OF counted(4), THEN arg_cong, of set] by simp
    have valid: "valid_key (ef_key x)" if "x \<in> set es'" for x
    proof -
      from that keys obtain y where "y \<in> set (live_effects r)" "ef_key x = ef_key y"
        by (metis imageE imageI)
      with D(3) show ?thesis by simp
    qed
    have "fold apply_effect (rev es') t = fold native_effect (es @ [e]) t" for t
      using collapse_draw_fold [OF counted(4), of "e\<lparr>ef_draws := 0\<rparr>" t] D(4) D(5) [OF counted(1)] counted(3)
      by (simp add: native_effect_def)
    moreover have "\<forall>x \<in> set es'. ef_kind x = Draw \<longrightarrow> ef_draws x \<noteq> 0"
      using D(4) by (intro collapse_draw_counted [OF counted(4)]) simp
    ultimately have "recording_ok (es @ [e]) r'"
      using D(1,2) len valid unfolding recording_ok_def live by (simp add: r'_def)
    moreover have "snd (append_effect e r) = r'"
      using counted D(1,2) by (simp add: append_effect_def r'_def)
    ultimately show ?thesis by simp
  next
    case drawn
    have "recording_ok (es @ [e]) (snd (push_effect (e\<lparr>ef_draws := 1\<rparr>) r))"
      using drawn by (intro push_effect_ok [OF ok]) (simp_all add: native_draw)
    then show ?thesis
      using drawn D(1,2) by (simp add: append_effect_def)
  next
    case repeated
    then have "live_effects r = take (rec_count r - 1) (rec_effects r) @ [e\<lparr>ef_draws := 0\<rparr>]"
      using D(1,2) take_Suc_conv_app_nth [of "rec_count r - 1" "rec_effects r"]
      by (simp add: live_effects_def)
    then have "native_effect e (fold apply_effect (live_effects r) t) = fold apply_effect (live_effects r) t" for t
      using native_twice [OF repeated(3)] by (simp add: native_effect_def)
    then have "recording_ok (es @ [e]) r"
      using ok D(5) [OF repeated(1)] by (simp add: recording_ok_def)
    then show ?thesis
      using repeated D(1,2) by (simp add: append_effect_def)
  next
    case fresh
    have "recording_ok (es @ [e]) (snd (push_effect (e\<lparr>ef_draws := 0\<rparr>) r))"
      using fresh by (intro push_effect_ok [OF ok]) (simp_all add: native_effect_def)
    then show ?thesis
      using fresh D(1,2) by (auto simp: append_effect_def Let_def)
  qed
qed

interpretation recording: traced rec_step new_recording
  "\<lambda>evs. recording_ok (fold appended_step evs [])"
proof unfold_locales
  show "recording_ok (fold appended_step [] []) new_recording"
    by (simp add: recording_ok_def new_recording_def live_effects_def)
next
  fix evs r ev
  assume "recording_ok (fold appended_step evs []) r"
  then show "recording_ok (fold appended_step (evs @ [ev]) []) (rec_step ev r)"
    using append_effect_ok recording_ok_invalidate recording_ok_reset
    by (cases ev) simp_all
qed

lemma apply_effects_valid:
  "\<forall>e \<in> set es. valid_key (ef_key e) \<Longrightarrow> apply_effects es t = (True, fold apply_effect es t)"
  by (induction es arbitrary: t) simp_all

text \<open>C9: Collapsing repeated evidence while a list is recorded loses nothing.  Whatever effects a
  recording is given, with resets and invalidations in between, executing it does to the source
  states exactly what executing every appended native effect since the last reset, one at a time,
  would do, draw counts and their saturation included; a recording that became invalid (a bad key,
  or more than 256 distinct effects) instead makes every state unknown and reports failure.\<close>

theorem collapsed_recording_equiv:
  "apply_recording (fold rec_step evs new_recording) t =
     (if rec_invalid (fold rec_step evs new_recording) then (False, invalidate_all t)
      else (True, fold native_effect (fold appended_step evs []) t))"
proof -
  define r where "r = fold rec_step evs new_recording"
  have ok: "recording_ok (fold appended_step evs []) r"
    unfolding r_def by (rule recording.trace)
  note D = recording_okD [OF ok]
  have "apply_effects (live_effects r) t = (True, fold apply_effect (live_effects r) t)"
    using D(3) by (intro apply_effects_valid) blast
  then show ?thesis
    using D(1,2,5) unfolding apply_recording_def r_def [symmetric] by simp
qed

subsection \<open>The tracker\<close>

definition slot_ok :: "src_slot \<Rightarrow> bool" where
  "slot_ok s \<longleftrightarrow>
     (st_drawn (sl_state s) \<longleftrightarrow> st_draws (sl_state s) \<noteq> 0) \<and>
     (st_drawn (sl_state s) \<longrightarrow> render_target_model (st_model (sl_state s))) \<and>
     (render_target_model (st_model (sl_state s)) \<longrightarrow> sl_retained s = st_model (sl_state s)) \<and>
     (render_target_model (sl_retained s) \<longrightarrow> valid_key (sl_key s))"

definition tracker_ok :: "tracker \<Rightarrow> bool" where
  "tracker_ok t \<longleftrightarrow> length t = tracker_capacity \<and> (\<forall>s \<in> set t. slot_ok s) \<and>
     nz_distinct (map (\<lambda>s. key_handle (sl_key s)) t)"

lemma fresh_state_simps [simp]:
  "st_model (fresh_state m) = m" "\<not> st_drawn (fresh_state m)" "st_draws (fresh_state m) = 0"
  by (simp_all add: fresh_state_def)

lemma draw_effect_ok:
  assumes "render_target_model (st_model st)"
  shows "st_draws (draw_effect n st) \<noteq> 0"
proof -
  define k where "k = (if n \<noteq> 0 then n else 1)"
  have "st_draws (draw_effect n st) =
      (if k > u32_max - st_draws st then u32_max else st_draws st + k)"
    using assms unfolding draw_effect_def Let_def k_def by (simp del: render_target_model.simps)
  then have "unat (st_draws (draw_effect n st)) = min (2 ^ 32 - 1) (unat (st_draws st) + unat k)"
    by (simp only: saturating_add)
  moreover have "unat k \<noteq> 0"
    by (simp add: unat_eq_0 k_def)
  ultimately show ?thesis by auto
qed

lemma slot_effect_ok: "slot_ok s \<Longrightarrow> valid_key (sl_key s) \<Longrightarrow> slot_ok (slot_effect kd n s)"
  using draw_effect_ok [of "sl_state s" n]
  by (cases kd) (auto simp: slot_ok_def draw_effect_def)

lemma set_change_slot:
  "x \<in> set (change_slot k f t) \<Longrightarrow> x \<in> set t \<or> (\<exists>s \<in> set t. sl_key s = k \<and> x = f s)"
  by (induction t) (auto split: if_splits)

lemma length_change_slot [simp]: "length (change_slot k f t) = length t"
  by (induction t) simp_all

lemma change_slot_handles:
  "(\<And>s. sl_key (f s) = sl_key s) \<Longrightarrow>
   map (\<lambda>s. key_handle (sl_key s)) (change_slot k f t) = map (\<lambda>s. key_handle (sl_key s)) t"
  by (induction t) simp_all

lemma change_slot_index:
  "change_slot k f t = (case first_index (\<lambda>s. sl_key s = k) t of None \<Rightarrow> t | Some i \<Rightarrow> t[i := f (t ! i)])"
  by (induction t) (auto split: option.split)

lemma apply_effect_ok:
  assumes ok: "tracker_ok t" and valid: "valid_key (ef_key e)"
  shows "tracker_ok (apply_effect e t)"
proof -
  have "slot_ok x" if "x \<in> set (apply_effect e t)" for x
    using set_change_slot [OF that [unfolded apply_effect_def]] slot_effect_ok valid ok
    by (auto simp: tracker_ok_def)
  with ok show ?thesis
    by (simp add: tracker_ok_def apply_effect_def change_slot_handles)
qed

lemma tracker_map_ok:
  assumes "tracker_ok t" and "\<And>s. sl_key (f s) = sl_key s" and "\<And>s. slot_ok s \<Longrightarrow> slot_ok (f s)"
  shows "tracker_ok (map f t)"
  using assms by (simp add: tracker_ok_def comp_def)

lemma invalidate_all_ok: "tracker_ok t \<Longrightarrow> tracker_ok (invalidate_all t)"
  unfolding invalidate_all_def by (rule tracker_map_ok) (simp_all add: slot_ok_def)

lemma apply_effects_ok: "tracker_ok t \<Longrightarrow> tracker_ok (snd (apply_effects es t))"
  by (induction es arbitrary: t) (simp_all add: apply_effect_ok invalidate_all_ok)

lemma apply_recording_ok: "tracker_ok t \<Longrightarrow> tracker_ok (snd (apply_recording r t))"
  by (simp add: apply_recording_def invalidate_all_ok apply_effects_ok)

lemma new_source_ok: "valid_key k \<Longrightarrow> slot_ok (new_source k m)"
  by (simp add: slot_ok_def new_source_def)

lemma tracker_update_ok:
  assumes "tracker_ok t" "slot_ok s" "nz_distinct (map (\<lambda>s. key_handle (sl_key s)) (t[i := s]))"
  shows "tracker_ok (t[i := s])"
  using assms set_update_subset_insert [of t i s] by (auto simp: tracker_ok_def)

lemma register_source_ok:
  assumes ok: "tracker_ok t"
  shows "tracker_ok (snd (register_source k m t))"
proof (cases "valid_key k")
  case False
  with ok show ?thesis by (simp add: register_source_def)
next
  case valid: True
  let ?h = "\<lambda>s. key_handle (sl_key s)"
  have nz: "nz_distinct (map ?h t)"
    using ok by (simp add: tracker_ok_def)
  show ?thesis
  proof (cases "first_index (\<lambda>s. ?h s = key_handle k) t")
    case (Some i)
    have "i < length t" and same: "?h (t ! i) = key_handle k"
      using first_index_Some [OF Some] by auto
    then have "map ?h (t[i := new_source k m]) = map ?h t"
      by (simp add: map_update new_source_def list_update_same_conv)
    with nz have "tracker_ok (t[i := new_source k m])"
      using ok valid by (intro tracker_update_ok) (simp_all add: new_source_ok)
    with ok Some valid show ?thesis
      by (simp add: register_source_def)
  next
    case None
    then have "key_handle k \<notin> set (map ?h t)"
      by (auto simp: first_index_None)
    then have "tracker_ok (t[i := new_source k m])" for i
      using ok valid nz nz_distinct_insert [OF nz, of "key_handle k" i]
      by (intro tracker_update_ok) (simp_all add: new_source_ok map_update, simp add: new_source_def)
    with ok None valid show ?thesis
      by (simp add: register_source_def split: option.split)
  qed
qed

lemma unregister_source_ok:
  assumes ok: "tracker_ok t"
  shows "tracker_ok (unregister_source k t)"
proof -
  have nz: "nz_distinct (map (\<lambda>s. key_handle (sl_key s)) t)"
    using ok by (simp add: tracker_ok_def)
  have "tracker_ok (t[i := empty_slot])" for i
    using ok nz_distinct_clear [OF nz, of i]
    by (intro tracker_update_ok) (simp_all add: map_update slot_ok_def empty_slot_def)
  with ok show ?thesis
    by (simp add: unregister_source_def change_slot_index split: option.split)
qed

lemma begin_batch_ok: "tracker_ok t \<Longrightarrow> tracker_ok (begin_batch t)"
  unfolding begin_batch_def by (rule tracker_map_ok) (simp_all add: slot_ok_def)

lemma retire_live_ok: "tracker_ok t \<Longrightarrow> tracker_ok (retire_live_models t)"
  unfolding retire_live_models_def by (rule tracker_map_ok) (simp_all add: slot_ok_def)

lemma rearm_ok: "tracker_ok t \<Longrightarrow> tracker_ok (snd (rearm_retained_rt t))"
  unfolding rearm_retained_rt_def snd_conv by (rule tracker_map_ok) (simp_all add: slot_ok_def)

lemma tracker_clear_ok: "tracker_ok (tracker_clear t)"
  by (simp add: tracker_ok_def tracker_clear_def slot_ok_def empty_slot_def)

interpretation tracker: machine tracker_step tracker_ok "\<lambda>_. True"
proof unfold_locales
  fix ev t
  assume "tracker_ok t"
  then show "tracker_ok (tracker_step ev t)"
    using register_source_ok unregister_source_ok tracker_clear_ok begin_batch_ok
      apply_recording_ok invalidate_all_ok retire_live_ok rearm_ok
    by (cases ev) simp_all
qed

lemma reachable_tracker_ok: "tracker_ok (fold tracker_step evs (tracker_clear []))"
  using tracker_clear_ok by (intro tracker.run_inv) (simp_all add: list.pred_True)

lemma source_state_cases:
  "source_state k t = fresh_state Unknown_Model \<or> (\<exists>s \<in> set t. sl_key s = k \<and> source_state k t = sl_state s)"
  by (auto simp: source_state_def split: option.split dest: find_SomeD)

text \<open>Draw evidence only ever exists in a render-target state.  After any sequence of tracker
  operations, recordings of any content included, the state reported for any source counts draws
  exactly when it is marked drawn, and it is marked drawn only while its model is one of the two
  render-target models.\<close>

theorem drawn_only_in_rt:
  fixes evs :: "tracker_event list"
  defines "st k \<equiv> source_state k (fold tracker_step evs (tracker_clear []))"
  shows "(st_drawn (st k) = (st_draws (st k) \<noteq> 0)) \<and>
    \<not> (st_drawn (st k) \<and> \<not> render_target_model (st_model (st k)))"
  using source_state_cases [of k "fold tracker_step evs (tracker_clear [])"] reachable_tracker_ok [of evs]
  unfolding st_def by (auto simp: tracker_ok_def slot_ok_def)

text \<open>No new proof of a render-target state for the source \<open>k\<close> in an event.\<close>

fun proves_rt :: "src_key \<Rightarrow> tracker_event \<Rightarrow> bool" where
  "proves_rt k (Register k' m) = (k' = k \<and> render_target_model m)"
| "proves_rt k (Apply r) = list_ex (\<lambda>e. ef_key e = k \<and> ef_kind e \<in> {To_Legacy, To_Enhanced}) (live_effects r)"
| "proves_rt k ev = False"

text \<open>The source \<open>k\<close> has left its render-target state for good.\<close>

definition retired :: "src_key \<Rightarrow> tracker \<Rightarrow> bool" where
  "retired k t \<longleftrightarrow> (\<forall>s \<in> set t. sl_key s = k \<longrightarrow>
     \<not> render_target_model (st_model (sl_state s)) \<and> \<not> render_target_model (sl_retained s))"

lemma retired_map:
  assumes "retired k t" and "\<And>s. sl_key (f s) = sl_key s"
    and "\<And>s. \<not> render_target_model (st_model (sl_state s)) \<Longrightarrow> \<not> render_target_model (sl_retained s) \<Longrightarrow>
      \<not> render_target_model (st_model (sl_state (f s))) \<and> \<not> render_target_model (sl_retained (f s))"
  shows "retired k (map f t)"
  using assms by (auto simp: retired_def simp del: render_target_model.simps)

lemma retired_invalidate: "retired k t \<Longrightarrow> retired k (invalidate_all t)"
  unfolding invalidate_all_def by (rule retired_map) simp_all

lemma retired_update:
  assumes "retired k t"
    and "sl_key s = k \<Longrightarrow> \<not> render_target_model (st_model (sl_state s)) \<and> \<not> render_target_model (sl_retained s)"
  shows "retired k (t[i := s])"
  using assms set_update_subset_insert [of t i s]
  by (auto simp: retired_def simp del: render_target_model.simps)

lemma retired_register:
  "retired k t \<Longrightarrow> \<not> (k' = k \<and> render_target_model m) \<Longrightarrow> retired k (snd (register_source k' m t))"
  using retired_update [of k t "new_source k' m"]
  by (auto simp: register_source_def new_source_def split: option.split)

lemma retired_unregister: "valid_key k \<Longrightarrow> retired k t \<Longrightarrow> retired k (unregister_source k' t)"
  using retired_update [of k t empty_slot]
  by (auto simp: unregister_source_def change_slot_index empty_slot_def split: option.split)

lemma retired_effect:
  assumes "retired k t" and "\<not> (ef_key e = k \<and> ef_kind e \<in> {To_Legacy, To_Enhanced})"
  shows "retired k (apply_effect e t)"
proof -
  have kind: "ef_kind e \<notin> {To_Legacy, To_Enhanced}" if "ef_key e = k"
    using assms(2) that by blast
  have "\<not> render_target_model (st_model (sl_state (slot_effect (ef_kind e) n s))) \<and>
      \<not> render_target_model (sl_retained (slot_effect (ef_kind e) n s))"
    if "s \<in> set t" "sl_key s = k" "ef_key e = k" for s n
    using assms(1) that kind [OF that(3)]
    by (cases "ef_kind e") (auto simp: retired_def draw_effect_def Let_def)
  then show ?thesis
    using assms(1) set_change_slot [of _ "ef_key e" "slot_effect (ef_kind e) (ef_draws e)" t]
    unfolding apply_effect_def retired_def
    by (fastforce simp del: render_target_model.simps slot_effect.simps)
qed

lemma retired_effects:
  "retired k t \<Longrightarrow> \<not> list_ex (\<lambda>e. ef_key e = k \<and> ef_kind e \<in> {To_Legacy, To_Enhanced}) es \<Longrightarrow>
   retired k (snd (apply_effects es t))"
  by (induction es arbitrary: t) (auto simp: retired_effect retired_invalidate)

lemma retired_step:
  assumes "valid_key k" and "retired k t" and "\<not> proves_rt k ev"
  shows "retired k (tracker_step ev t)"
proof (cases ev)
  case (Register k' m)
  then show ?thesis using assms retired_register by simp
next
  case (Unregister k')
  then show ?thesis using assms retired_unregister by simp
next
  case Clear
  then show ?thesis by (simp add: tracker_clear_def retired_def empty_slot_def)
next
  case Begin_Batch
  have "retired k (begin_batch t)"
    unfolding begin_batch_def using assms(2) by (rule retired_map) simp_all
  with Begin_Batch show ?thesis by simp
next
  case (Apply r)
  then show ?thesis
    using assms retired_effects retired_invalidate by (simp add: apply_recording_def)
next
  case Invalidate_All
  then show ?thesis using assms retired_invalidate by simp
next
  case Retire_Live
  have "retired k (retire_live_models t)"
    unfolding retire_live_models_def using assms(2) by (rule retired_map) simp_all
  with Retire_Live show ?thesis by simp
next
  case Rearm
  have "retired k (snd (rearm_retained_rt t))"
    unfolding rearm_retained_rt_def snd_conv using assms(2) by (rule retired_map) (simp_all add: needs_rearm_def)
  with Rearm show ?thesis by simp
qed

text \<open>The runs of the tracker in which nothing proves a render-target state for \<open>k\<close>.\<close>

interpretation retired: machine tracker_step "\<lambda>t. valid_key k \<and> retired k t" "\<lambda>ev. \<not> proves_rt k ev" for k
  by unfold_locales (simp add: retired_step)

lemma tracker_key_unique:
  assumes "tracker_ok t" "valid_key k" "i < length t" "j < length t"
    "sl_key (t ! i) = k" "sl_key (t ! j) = k"
  shows "i = j"
  using assms by (auto simp: tracker_ok_def nz_distinct_def valid_key_def)

lemma retired_by_other:
  assumes ok: "tracker_ok t" and valid: "valid_key k"
  shows "retired k (apply_effect \<lparr>ef_key = k, ef_kind = To_Other, ef_draws = n\<rparr> t)"
proof (cases "first_index (\<lambda>s. sl_key s = k) t")
  case None
  then have "\<forall>s \<in> set t. sl_key s \<noteq> k"
    by (simp add: first_index_None)
  with None show ?thesis
    by (simp add: apply_effect_def change_slot_index retired_def)
next
  case (Some i)
  then have i: "i < length t" "sl_key (t ! i) = k"
    using first_index_Some by auto
  define t' where "t' = t[i := slot_effect To_Other n (t ! i)]"
  have "\<not> render_target_model (st_model (sl_state (t' ! j))) \<and> \<not> render_target_model (sl_retained (t' ! j))"
    if "j < length t'" "sl_key (t' ! j) = k" for j
  proof (cases "j = i")
    case True
    with i show ?thesis by (simp add: t'_def)
  next
    case False
    with that have "j < length t" "sl_key (t ! j) = k"
      by (simp_all add: t'_def)
    with False tracker_key_unique [OF ok valid _ i(1) _ i(2)] show ?thesis
      by blast
  qed
  then have "retired k t'"
    by (metis in_set_conv_nth retired_def)
  with Some show ?thesis
    by (simp add: apply_effect_def change_slot_index t'_def)
qed

text \<open>Rearming never revives a source that left its render-target state.  After a list really
  executed a transition of the source to another state, no sequence of rearms, invalidations,
  retirements, batch boundaries, registrations and recordings makes the reported model a
  render-target one again, unless one of them proves such a state for exactly this generation.\<close>

theorem rearm_never_revives:
  assumes "valid_key k" and "list_all (\<lambda>ev. \<not> proves_rt k ev) evs"
  shows "\<not> render_target_model (st_model (source_state k
    (fold tracker_step evs (apply_effect \<lparr>ef_key = k, ef_kind = To_Other, ef_draws = n\<rparr>
      (fold tracker_step evs0 (tracker_clear []))))))"
proof -
  let ?t = "fold tracker_step evs (apply_effect \<lparr>ef_key = k, ef_kind = To_Other, ef_draws = n\<rparr>
      (fold tracker_step evs0 (tracker_clear [])))"
  have "valid_key k \<and> retired k ?t"
    using assms retired_by_other reachable_tracker_ok by (intro retired.run_inv) auto
  then show ?thesis
    using source_state_cases [of k ?t] by (auto simp: retired_def)
qed

lemma rearm_never_revives_witness:
  "\<not> render_target_model (st_model (source_state \<lparr>key_handle = 9, key_generation = 1\<rparr>
    (fold tracker_step [Invalidate_All, Rearm]
      (apply_effect \<lparr>ef_key = \<lparr>key_handle = 9, key_generation = 1\<rparr>, ef_kind = To_Other, ef_draws = 0\<rparr>
        (fold tracker_step [Register \<lparr>key_handle = 9, key_generation = 1\<rparr> Legacy_Rt] (tracker_clear []))))))"
proof (rule rearm_never_revives)
  show "valid_key \<lparr>key_handle = 9, key_generation = 1\<rparr>"
    by (simp add: valid_key_def)
  show "list_all (\<lambda>ev. \<not> proves_rt \<lparr>key_handle = 9, key_generation = 1\<rparr> ev) [Invalidate_All, Rearm]"
    by simp
qed

text \<open>Rearming restores exactly what was known.  When every state was wiped, by an invalid
  recording for instance, rearming gives a source that was in a render-target state that state
  back, with its draw evidence cleared, for every reachable tracker.\<close>

theorem rearm_restores_rt:
  assumes "render_target_model (st_model (source_state k (fold tracker_step evs (tracker_clear []))))"
    and "rec_invalid r"
  shows "source_state k (snd (rearm_retained_rt (snd (apply_recording r (fold tracker_step evs (tracker_clear [])))))) =
    fresh_state (st_model (source_state k (fold tracker_step evs (tracker_clear []))))"
proof -
  define t where "t = fold tracker_step evs (tracker_clear [])"
  obtain s where s: "find (\<lambda>s. sl_key s = k) t = Some s" "source_state k t = sl_state s" and valid: "valid_key k"
    using assms(1) unfolding t_def [symmetric]
    by (auto simp: source_state_def split: if_splits option.splits)
  then have "s \<in> set t" and key: "sl_key s = k"
    using find_SomeD [OF s(1)] by auto
  have rt: "render_target_model (st_model (sl_state s))"
    using assms(1) s(2) unfolding t_def [symmetric] by simp
  then have ret: "sl_retained s = st_model (sl_state s)"
    using reachable_tracker_ok [of evs] \<open>s \<in> set t\<close> unfolding t_def [symmetric] tracker_ok_def slot_ok_def
    by blast
  define g :: "src_slot \<Rightarrow> src_slot" where "g = (\<lambda>s. if needs_rearm s then s\<lparr>sl_state := fresh_state (sl_retained s)\<rparr> else s)"
  define f :: "src_slot \<Rightarrow> src_slot" where "f = (\<lambda>s. s\<lparr>sl_state := fresh_state Unknown_Model\<rparr>)"
  have f: "sl_key (f x) = sl_key x" and g: "sl_key (g x) = sl_key x" for x
    by (simp_all add: f_def g_def)
  have "find (\<lambda>s. sl_key s = k) (map g (map f t)) = Some (g (f s))"
    using s(1) f g by (induction t) (auto split: if_splits)
  moreover have "sl_state (g (f s)) = fresh_state (st_model (sl_state s))"
    using rt ret key valid by (auto simp: f_def g_def needs_rearm_def valid_key_def)
  ultimately show ?thesis
    using assms(2) valid s(2) unfolding t_def [symmetric] g_def f_def
    by (simp add: source_state_def rearm_retained_rt_def apply_recording_def invalidate_all_def)
qed

lemma register_first:
  "valid_key k \<Longrightarrow> snd (register_source k m (tracker_clear [])) = new_source k m # replicate 127 empty_slot"
proof -
  have "tracker_clear [] = empty_slot # replicate 127 empty_slot"
    by (simp add: tracker_clear_def tracker_capacity_def flip: replicate_Suc)
  moreover have "first_index (\<lambda>s. key_handle (sl_key s) = h) (replicate n empty_slot) = None"
    if "h \<noteq> 0" for h n
    using that unfolding first_index_None by (auto simp: empty_slot_def)
  ultimately show "valid_key k \<Longrightarrow> ?thesis"
    by (simp add: register_source_def valid_key_def empty_slot_def)
qed

lemma rearm_restores_rt_witness:
  "source_state \<lparr>key_handle = 9, key_generation = 1\<rparr> (snd (rearm_retained_rt (snd (apply_recording
      (recording_invalidate new_recording)
      (fold tracker_step [Register \<lparr>key_handle = 9, key_generation = 1\<rparr> Legacy_Rt] (tracker_clear [])))))) =
    fresh_state (st_model (source_state \<lparr>key_handle = 9, key_generation = 1\<rparr>
      (fold tracker_step [Register \<lparr>key_handle = 9, key_generation = 1\<rparr> Legacy_Rt] (tracker_clear []))))"
proof (rule rearm_restores_rt)
  show "rec_invalid (recording_invalidate new_recording)"
    by (simp add: recording_invalidate_def)
  have "fold tracker_step [Register \<lparr>key_handle = 9, key_generation = 1\<rparr> Legacy_Rt] (tracker_clear []) =
      new_source \<lparr>key_handle = 9, key_generation = 1\<rparr> Legacy_Rt # replicate 127 empty_slot"
    by (simp add: register_first valid_key_def)
  then show "render_target_model (st_model (source_state \<lparr>key_handle = 9, key_generation = 1\<rparr>
      (fold tracker_step [Register \<lparr>key_handle = 9, key_generation = 1\<rparr> Legacy_Rt] (tracker_clear []))))"
    by (simp add: source_state_def new_source_def valid_key_def)
qed

end
