(* ===== verification/View_Pool.thy ===== *)
theory View_Pool
  imports Prelude
begin

text \<open>
  \<open>src/camera/view_pool.hpp\<close> and \<open>.cpp\<close>: the read-only inspection of the engine's eight existing
  views, the capacity decision on it, and the register of retired views (\<open>RetiredViewPool\<close>) that
  blocks a new creation until the engine really released them.

  The memory reader is not under the program's control: an environment says, for the n-th read,
  which bytes the memory holds and whether the read succeeds, so the memory may change between
  any two reads.
\<close>

subsection \<open>Memory and the snapshot\<close>

record memory_env =
  env_mem :: "nat \<Rightarrow> u64 \<Rightarrow> u8"
  env_ok :: "nat \<Rightarrow> u64 \<Rightarrow> nat \<Rightarrow> bool"

definition block :: "(u64 \<Rightarrow> u8) \<Rightarrow> u64 \<Rightarrow> nat \<Rightarrow> u8 list" where
  "block m a n = map (\<lambda>i. m (a + of_nat i)) [0..<n]"

definition le32 :: "u8 list \<Rightarrow> u32" where
  "le32 bs = ucast (bs ! 0) OR push_bit 8 (ucast (bs ! 1)) OR push_bit 16 (ucast (bs ! 2)) OR
     push_bit 24 (ucast (bs ! 3))"

definition le64 :: "u8 list \<Rightarrow> u64" where
  "le64 bs = ucast (le32 bs) OR push_bit 32 (ucast (le32 (drop 4 bs)))"

datatype pool_status =
  Not_Inspected | Complete | Invalid_Renderer | Invalid_Array | Invalid_View | Duplicate_View
| Invalid_Release_Queue | Invalid_Control | Read_Failed | Changed | Read_Budget_Exhausted

datatype association = Unobserved | Null_Control | Stale_Generation | Null_Payload | Occupied

record view_slot =
  vs_index :: nat
  vs_address :: u64
  vs_association :: association
  vs_free :: bool
  vs_association_valid :: bool
  vs_release_pending :: bool
  vs_release_queued :: bool

record pool_snapshot =
  ps_valid :: bool
  ps_status :: pool_status
  ps_array :: u64
  ps_examined :: nat
  ps_failure_slot :: int
  ps_read_bytes :: nat
  ps_read_failures :: nat
  ps_slots :: "view_slot list"
  ps_free_count :: nat
  ps_first_free :: "int list"
  ps_release_checked :: bool
  ps_release_count :: nat
  ps_queue_counts :: "nat list"
  ps_release_views :: "u64 list"

definition new_slot :: "nat \<Rightarrow> view_slot" where
  "new_slot i = \<lparr>vs_index = i, vs_address = 0, vs_association = Unobserved, vs_free = False,
     vs_association_valid = False, vs_release_pending = False, vs_release_queued = False\<rparr>"

definition new_snapshot :: pool_snapshot where
  "new_snapshot = \<lparr>ps_valid = False, ps_status = Not_Inspected, ps_array = 0, ps_examined = 0,
     ps_failure_slot = -1, ps_read_bytes = 0, ps_read_failures = 0,
     ps_slots = map new_slot [0..<8], ps_free_count = 0, ps_first_free = replicate 4 (-1),
     ps_release_checked = False, ps_release_count = 0, ps_queue_counts = replicate 2 0,
     ps_release_views = replicate 128 0\<rparr>"

text \<open>The engine takes the first free slot, so each of the first \<open>required\<close> ones must be usable.\<close>

definition creation_available :: "pool_snapshot \<Rightarrow> nat \<Rightarrow> bool" where
  "creation_available p required \<longleftrightarrow>
     \<not> (\<not> ps_valid p \<or> \<not> ps_release_checked p \<or> required = 0 \<or> required > length (ps_first_free p) \<or>
        ps_free_count p < required) \<and>
     list_all (\<lambda>i. let index = ps_first_free p ! i in
        \<not> (index < 0 \<or> index \<ge> int (length (ps_slots p)) \<or>
           vs_release_pending (ps_slots p ! nat index) \<or> vs_release_queued (ps_slots p ! nat index)))
       [0..<required]"

subsection \<open>The retired views\<close>

record retired_pool =
  rp_renderer :: u64
  rp_views :: "u64 list"

definition new_retired_pool :: retired_pool where
  "new_retired_pool = \<lparr>rp_renderer = 0, rp_views = replicate 4 0\<rparr>"

definition retain :: "u64 \<Rightarrow> u64 \<Rightarrow> retired_pool \<Rightarrow> bool \<times> retired_pool" where
  "retain renderer view p =
     (if renderer = 0 \<or> view = 0 \<or> rp_renderer p \<noteq> 0 \<and> rp_renderer p \<noteq> renderer then (False, p)
      else if view \<in> set (rp_views p) then (True, p)
      else case first_index (\<lambda>old. old = 0) (rp_views p) of
        Some i \<Rightarrow> (True, p\<lparr>rp_renderer := renderer, rp_views := (rp_views p)[i := view]\<rparr>)
      | None \<Rightarrow> (False, p))"

definition pool_pending :: "retired_pool \<Rightarrow> bool" where
  "pool_pending p \<longleftrightarrow> list_ex (\<lambda>v. v \<noteq> 0) (rp_views p)"

definition still_releasing :: "pool_snapshot \<Rightarrow> u64 \<Rightarrow> bool" where
  "still_releasing pool old \<longleftrightarrow>
     list_ex (\<lambda>i. ps_release_views pool ! i = old) [0..<ps_release_count pool] \<or>
     list_ex (\<lambda>s. vs_address s = old \<and> vs_release_pending s) (ps_slots pool)"

definition pool_observe :: "u64 \<Rightarrow> pool_snapshot \<Rightarrow> retired_pool \<Rightarrow> bool \<times> retired_pool" where
  "pool_observe renderer pool p =
     (if \<not> pool_pending p then (True, p)
      else if renderer \<noteq> rp_renderer p \<or> \<not> ps_valid pool \<or> \<not> ps_release_checked pool then (False, p)
      else
        (let views = map (\<lambda>old. if old = 0 then 0 else if still_releasing pool old then old else 0) (rp_views p);
             p' = p\<lparr>rp_views := views\<rparr>
         in (\<not> pool_pending p', if pool_pending p' then p' else p'\<lparr>rp_renderer := 0\<rparr>)))"

subsection \<open>The bounded reader\<close>

record observation =
  ob_address :: u64
  ob_size :: nat
  ob_slot :: int
  ob_span :: "nat option"
  ob_bytes :: "u8 list"

record span =
  sp_address :: u64
  sp_size :: nat
  sp_slot :: int
  sp_bytes :: "u8 list"

text \<open>A read of the first pass: of a field (by its observation) or of a span.\<close>

datatype read_item = Field_Read nat | Span_Read nat

record inspection =
  in_clock :: nat
  in_result :: pool_snapshot
  in_observations :: "observation list"
  in_spans :: "span list"
  in_order :: "read_item list"

definition read_budget :: nat where "read_budget = 8192"
definition maximum_observations :: nat where "maximum_observations = 1 + 8 * 5 + 2 + 128"
definition span_bytes :: nat where "span_bytes = 64"
definition maximum_spans :: nat where "maximum_spans = 1 + 8"

definition byte_range :: "u64 \<Rightarrow> u64 \<Rightarrow> nat \<Rightarrow> bool" where
  "byte_range pointer offset sz \<longleftrightarrow> pointer \<noteq> 0 \<and> offset \<le> u64_max - pointer \<and>
     of_nat sz \<le> u64_max - (pointer + offset)"

definition pointer_range :: "u64 \<Rightarrow> u64 \<Rightarrow> nat \<Rightarrow> bool" where
  "pointer_range pointer offset sz \<longleftrightarrow> pointer mod 8 = 0 \<and> byte_range pointer offset sz"

definition covers :: "span \<Rightarrow> u64 \<Rightarrow> nat \<Rightarrow> bool" where
  "covers v address sz \<longleftrightarrow> address \<ge> sp_address v \<and> sz \<le> sp_size v \<and>
     unat (address - sp_address v) \<le> sp_size v - sz"

definition fail_with :: "pool_status \<Rightarrow> inspection \<Rightarrow> inspection" where
  "fail_with status st = st\<lparr>in_result := (in_result st)\<lparr>ps_status := status\<rparr>\<rparr>"

definition set_failure_slot :: "int \<Rightarrow> inspection \<Rightarrow> inspection" where
  "set_failure_slot i st = st\<lparr>in_result := (in_result st)\<lparr>ps_failure_slot := i\<rparr>\<rparr>"

definition read_exact :: "memory_env \<Rightarrow> u64 \<Rightarrow> nat \<Rightarrow> inspection \<Rightarrow> u8 list option \<times> inspection" where
  "read_exact env address sz st =
     (if sz > read_budget - ps_read_bytes (in_result st)
        then (None, fail_with Read_Budget_Exhausted st)
      else
        (let n = in_clock st;
             st = st\<lparr>in_clock := n + 1,
               in_result := (in_result st)\<lparr>ps_read_bytes := ps_read_bytes (in_result st) + sz\<rparr>\<rparr>
         in if env_ok env n address sz
            then (Some (block (env_mem env n) address sz), st)
            else (None, st\<lparr>in_result := (in_result st)\<lparr>ps_status := Read_Failed,
                    ps_read_failures := ps_read_failures (in_result st) + 1\<rparr>\<rparr>)))"

definition read_span :: "memory_env \<Rightarrow> u64 \<Rightarrow> nat \<Rightarrow> inspection \<Rightarrow> bool \<times> inspection" where
  "read_span env address sz st =
     (if list_ex (\<lambda>v. covers v address sz) (in_spans st) then (True, st)
      else if length (in_spans st) = maximum_spans \<or>
          length (in_order st) = maximum_observations + maximum_spans \<or> sz = 0 \<or> sz > span_bytes
        then (False, fail_with Read_Budget_Exhausted st)
      else case read_exact env address sz st of
        (None, st') \<Rightarrow> (False, st')
      | (Some bytes, st') \<Rightarrow>
          (True, st'\<lparr>in_spans := in_spans st' @ [\<lparr>sp_address = address, sp_size = sz,
                     sp_slot = ps_failure_slot (in_result st), sp_bytes = bytes\<rparr>],
                   in_order := in_order st' @ [Span_Read (length (in_spans st'))]\<rparr>))"

definition add_observation :: "u64 \<Rightarrow> nat \<Rightarrow> nat option \<Rightarrow> u8 list \<Rightarrow> inspection \<Rightarrow> inspection" where
  "add_observation address sz served bytes st =
     st\<lparr>in_observations := in_observations st @ [\<lparr>ob_address = address, ob_size = sz,
          ob_slot = ps_failure_slot (in_result st), ob_span = served, ob_bytes = bytes\<rparr>]\<rparr>"

definition capture_field :: "memory_env \<Rightarrow> u64 \<Rightarrow> nat \<Rightarrow> inspection \<Rightarrow> u8 list option \<times> inspection" where
  "capture_field env address sz st =
     (if length (in_observations st) = maximum_observations \<or>
         length (in_order st) = maximum_observations + maximum_spans \<or>
         sz \<noteq> 1 \<and> sz \<noteq> 4 \<and> sz \<noteq> 8 \<and> sz \<noteq> 16
        then (None, fail_with Read_Budget_Exhausted st)
      else case first_index (\<lambda>v. covers v address sz) (in_spans st) of
        Some served \<Rightarrow>
          (let v = in_spans st ! served;
               bytes = take sz (drop (unat (address - sp_address v)) (sp_bytes v))
           in (Some bytes, add_observation address sz (Some served) bytes st))
      | None \<Rightarrow>
          (case read_exact env address sz st of
             (None, st') \<Rightarrow> (None, st')
           | (Some bytes, st') \<Rightarrow>
               (Some bytes, add_observation address sz None bytes
                 (st'\<lparr>in_order := in_order st' @ [Field_Read (length (in_observations st'))]\<rparr>))))"

text \<open>The fields served from a span, compared with the bytes its second read returned.\<close>

fun compare_fields :: "nat \<Rightarrow> span \<Rightarrow> u8 list \<Rightarrow> observation list \<Rightarrow> inspection \<Rightarrow> bool \<times> inspection" where
  "compare_fields index v current [] st = (True, st)"
| "compare_fields index v current (ob # obs) st =
     (if ob_span ob \<noteq> Some index then compare_fields index v current obs st
      else
        (let st = set_failure_slot (ob_slot ob) st in
         if take (ob_size ob) (drop (unat (ob_address ob - sp_address v)) current) = take (ob_size ob) (ob_bytes ob)
           then compare_fields index v current obs st
           else (False, fail_with Changed st)))"

fun recheck_item :: "memory_env \<Rightarrow> read_item \<Rightarrow> inspection \<Rightarrow> bool \<times> inspection" where
  "recheck_item env (Span_Read index) st =
     (let v = in_spans st ! index in
      case read_exact env (sp_address v) (sp_size v) (set_failure_slot (sp_slot v) st) of
        (None, st') \<Rightarrow> (False, st')
      | (Some current, st') \<Rightarrow> compare_fields index v current (in_observations st') st')"
| "recheck_item env (Field_Read index) st =
     (let ob = in_observations st ! index in
      case read_exact env (ob_address ob) (ob_size ob) (set_failure_slot (ob_slot ob) st) of
        (None, st') \<Rightarrow> (False, st')
      | (Some current, st') \<Rightarrow>
          if take (ob_size ob) current = take (ob_size ob) (ob_bytes ob) then (True, st')
          else (False, fail_with Changed st'))"

fun recheck_items :: "memory_env \<Rightarrow> read_item list \<Rightarrow> inspection \<Rightarrow> bool \<times> inspection" where
  "recheck_items env [] st = (True, st)"
| "recheck_items env (item # items) st =
     (case recheck_item env item st of
        (False, st') \<Rightarrow> (False, st')
      | (True, st') \<Rightarrow> recheck_items env items st')"

definition recheck :: "memory_env \<Rightarrow> inspection \<Rightarrow> bool \<times> inspection" where
  "recheck env st = recheck_items env (in_order st) st"

subsection \<open>The inspection\<close>

definition change_view_slot :: "nat \<Rightarrow> (view_slot \<Rightarrow> view_slot) \<Rightarrow> inspection \<Rightarrow> inspection" where
  "change_view_slot i f st =
     st\<lparr>in_result := (in_result st)\<lparr>ps_slots := (ps_slots (in_result st))[i := f (ps_slots (in_result st) ! i)]\<rparr>\<rparr>"

text \<open>The native association of one view: its control record, generation and payload.\<close>

definition inspect_association :: "memory_env \<Rightarrow> nat \<Rightarrow> u64 \<Rightarrow> u32 \<Rightarrow> inspection \<Rightarrow> bool \<times> inspection" where
  "inspect_association env i control generation st =
     (if control = 0 then (True, change_view_slot i (\<lambda>s. s\<lparr>vs_association := Null_Control\<rparr>) st)
      else if \<not> byte_range control 28 4 then (False, fail_with Invalid_Control st)
      else case read_span env control 32 st of
        (False, st') \<Rightarrow> (False, st')
      | (True, st') \<Rightarrow>
          (case capture_field env (control + 28) 4 st' of
             (None, st') \<Rightarrow> (False, st')
           | (Some bytes, st') \<Rightarrow>
               if le32 bytes \<noteq> generation
                 then (True, change_view_slot i (\<lambda>s. s\<lparr>vs_association := Stale_Generation\<rparr>) st')
               else case capture_field env control 8 st' of
                 (None, st') \<Rightarrow> (False, st')
               | (Some bytes, st') \<Rightarrow>
                   (True, change_view_slot i (\<lambda>s. s\<lparr>vs_association :=
                      if le64 bytes = 0 then Null_Payload else Occupied\<rparr>) st')))"

definition settle_slot :: "view_slot \<Rightarrow> view_slot" where
  "settle_slot s = s\<lparr>vs_association_valid := vs_association s = Occupied,
     vs_free := vs_association s \<noteq> Occupied\<rparr>"

definition inspect_marker :: "memory_env \<Rightarrow> bool \<Rightarrow> nat \<Rightarrow> u64 \<Rightarrow> inspection \<Rightarrow> bool \<times> inspection" where
  "inspect_marker env release i view st =
     (if \<not> release then (True, st)
      else if \<not> pointer_range view 23688 1 then (False, fail_with Invalid_View st)
      else case capture_field env (view + 23688) 1 st of
        (None, st') \<Rightarrow> (False, st')
      | (Some bytes, st') \<Rightarrow> (True, change_view_slot i (\<lambda>s. s\<lparr>vs_release_pending := bytes ! 0 \<noteq> 0\<rparr>) st'))"

definition count_examined :: "inspection \<Rightarrow> inspection" where
  "count_examined st = st\<lparr>in_result := (in_result st)\<lparr>ps_examined := ps_examined (in_result st) + 1\<rparr>\<rparr>"

definition inspect_slot :: "memory_env \<Rightarrow> bool \<Rightarrow> nat \<Rightarrow> inspection \<Rightarrow> bool \<times> inspection" where
  "inspect_slot env release i st0 =
     (let st = set_failure_slot (int i) st0 in
      case capture_field env (ps_array (in_result st) + of_nat i * 8) 8 st of
        (None, st) \<Rightarrow> (False, st)
      | (Some bytes, st) \<Rightarrow>
          (let view = le64 bytes;
               st = change_view_slot i (\<lambda>s. s\<lparr>vs_address := view\<rparr>) st
           in if \<not> pointer_range view 72 16 then (False, fail_with Invalid_View st)
              else if list_ex (\<lambda>previous. view = vs_address (ps_slots (in_result st) ! previous)) [0..<i]
                then (False, fail_with Duplicate_View st)
              else case capture_field env (view + 72) 16 st of
                (None, st) \<Rightarrow> (False, st)
              | (Some bytes, st) \<Rightarrow>
                  (case inspect_association env i (le64 bytes) (le32 (drop 8 bytes)) st of
                     (False, st) \<Rightarrow> (False, st)
                   | (True, st) \<Rightarrow>
                       (case inspect_marker env release i view (change_view_slot i settle_slot st) of
                          (False, st) \<Rightarrow> (False, st)
                        | (True, st) \<Rightarrow> (True, count_examined st)))))"

fun inspect_slots :: "memory_env \<Rightarrow> bool \<Rightarrow> nat list \<Rightarrow> inspection \<Rightarrow> bool \<times> inspection" where
  "inspect_slots env release [] st = (True, st)"
| "inspect_slots env release (i # is) st =
     (case inspect_slot env release i st of
        (False, st) \<Rightarrow> (False, st)
      | (True, st) \<Rightarrow> inspect_slots env release is st)"

definition note_release :: "u64 \<Rightarrow> inspection \<Rightarrow> inspection" where
  "note_release view st =
     (let p = in_result st in
      st\<lparr>in_result := p\<lparr>ps_release_views := (ps_release_views p)[ps_release_count p := view],
         ps_release_count := ps_release_count p + 1,
         ps_slots := map (\<lambda>s. s\<lparr>vs_release_queued := vs_release_queued s \<or> vs_address s = view\<rparr>) (ps_slots p)\<rparr>\<rparr>)"

fun inspect_entries :: "memory_env \<Rightarrow> u64 \<Rightarrow> nat list \<Rightarrow> inspection \<Rightarrow> bool \<times> inspection" where
  "inspect_entries env array [] st = (True, st)"
| "inspect_entries env array (i # is) st =
     (case capture_field env (array + of_nat i * 8) 8 st of
        (None, st) \<Rightarrow> (False, st)
      | (Some bytes, st) \<Rightarrow>
          (if \<not> pointer_range (le64 bytes) 0 8 then (False, fail_with Invalid_Release_Queue st)
           else inspect_entries env array is (note_release (le64 bytes) st)))"

definition inspect_queue :: "memory_env \<Rightarrow> u64 \<Rightarrow> nat \<Rightarrow> inspection \<Rightarrow> bool \<times> inspection" where
  "inspect_queue env renderer q st0 =
     (let offset = 2768 + 16 * of_nat q; st = set_failure_slot (-1) st0 in
      if \<not> pointer_range renderer offset 16 then (False, fail_with Invalid_Renderer st)
      else case capture_field env (renderer + offset) 16 st of
        (None, st) \<Rightarrow> (False, st)
      | (Some bytes, st) \<Rightarrow>
          (let remaining = le32 bytes; count = le32 (drop 4 bytes); array = le64 (drop 8 bytes);
               capacity = (ucast count :: u64) + ucast remaining
           in if count > 64 \<or> capacity > 4294967295 \<or>
                (capacity \<noteq> 0 \<and> (array = 0 \<or> array mod 8 \<noteq> 0 \<or> capacity * 8 > u64_max - array)) \<or>
                (array \<noteq> 0 \<and> \<not> pointer_range array 0 8)
              then (False, fail_with Invalid_Release_Queue st)
              else inspect_entries env array [0..<unat count]
                (st\<lparr>in_result := (in_result st)\<lparr>ps_queue_counts := (ps_queue_counts (in_result st))[q := unat count]\<rparr>\<rparr>)))"

definition inspect_queues :: "memory_env \<Rightarrow> bool \<Rightarrow> u64 \<Rightarrow> inspection \<Rightarrow> bool \<times> inspection" where
  "inspect_queues env release renderer st =
     (if \<not> release then (True, st)
      else case inspect_queue env renderer 0 st of
        (False, st) \<Rightarrow> (False, st)
      | (True, st) \<Rightarrow> inspect_queue env renderer 1 st)"

text \<open>The publication: only after every recheck succeeded.\<close>

definition count_free :: "view_slot \<Rightarrow> pool_snapshot \<Rightarrow> pool_snapshot" where
  "count_free s p =
     (if \<not> vs_free s then p
      else p\<lparr>ps_first_free := (if ps_free_count p < length (ps_first_free p)
                 then (ps_first_free p)[ps_free_count p := int (vs_index s)] else ps_first_free p),
             ps_free_count := ps_free_count p + 1\<rparr>)"

definition publish :: "bool \<Rightarrow> pool_snapshot \<Rightarrow> pool_snapshot" where
  "publish release p =
     (fold count_free (ps_slots p) p)\<lparr>ps_failure_slot := -1, ps_valid := True,
        ps_release_checked := release, ps_status := Complete\<rparr>"

definition inspect_array :: "memory_env \<Rightarrow> u64 \<Rightarrow> inspection \<Rightarrow> bool \<times> inspection" where
  "inspect_array env renderer st =
     (case capture_field env (renderer + 2752) 8 st of
        (None, st) \<Rightarrow> (False, st)
      | (Some bytes, st) \<Rightarrow>
          (let st = st\<lparr>in_result := (in_result st)\<lparr>ps_array := le64 bytes\<rparr>\<rparr> in
           if \<not> pointer_range (le64 bytes) 0 (8 * 8) then (False, fail_with Invalid_Array st)
           else read_span env (le64 bytes) (8 * 8) st))"

definition new_inspection :: inspection where
  "new_inspection = \<lparr>in_clock = 0, in_result = new_snapshot, in_observations = [], in_spans = [],
     in_order = []\<rparr>"

definition walk_pool :: "memory_env \<Rightarrow> bool \<Rightarrow> u64 \<Rightarrow> bool \<times> inspection" where
  "walk_pool env release renderer =
     (if \<not> pointer_range renderer 2752 8 then (False, fail_with Invalid_Renderer new_inspection)
      else case inspect_array env renderer new_inspection of
        (False, st) \<Rightarrow> (False, st)
      | (True, st) \<Rightarrow>
          (case inspect_slots env release [0..<8] st of
             (False, st) \<Rightarrow> (False, st)
           | (True, st) \<Rightarrow> inspect_queues env release renderer st))"

definition inspect_pool :: "memory_env \<Rightarrow> bool \<Rightarrow> u64 \<Rightarrow> pool_snapshot" where
  "inspect_pool env release renderer =
     (case walk_pool env release renderer of
        (False, st) \<Rightarrow> in_result st
      | (True, st) \<Rightarrow>
          (case recheck env st of
             (False, st) \<Rightarrow> in_result st
           | (True, st) \<Rightarrow> publish release (in_result st)))"

definition inspect_view_pool :: "memory_env \<Rightarrow> u64 \<Rightarrow> pool_snapshot" where
  "inspect_view_pool env renderer = inspect_pool env False renderer"

definition inspect_view_creation_pool :: "memory_env \<Rightarrow> u64 \<Rightarrow> pool_snapshot" where
  "inspect_view_creation_pool env renderer = inspect_pool env True renderer"

subsection \<open>What the memory of the engine says\<close>

text \<open>
  The native predicates, read directly from one memory: they are what a snapshot must report
  when the memory does not change during the inspection.
\<close>

definition word64_at :: "(u64 \<Rightarrow> u8) \<Rightarrow> u64 \<Rightarrow> u64" where
  "word64_at m a = le64 (block m a 8)"

definition native_association :: "(u64 \<Rightarrow> u8) \<Rightarrow> u64 \<Rightarrow> u32 \<Rightarrow> association" where
  "native_association m control generation =
     (if control = 0 then Null_Control
      else if le32 (block m (control + 28) 4) \<noteq> generation then Stale_Generation
      else if word64_at m control = 0 then Null_Payload else Occupied)"

definition association_of :: "(u64 \<Rightarrow> u8) \<Rightarrow> u64 \<Rightarrow> association" where
  "association_of m view =
     native_association m (le64 (block m (view + 72) 16)) (le32 (drop 8 (block m (view + 72) 16)))"

definition native_views :: "(u64 \<Rightarrow> u8) \<Rightarrow> u64 \<Rightarrow> u64 list" where
  "native_views m renderer =
     map (\<lambda>i. word64_at m (word64_at m (renderer + 2752) + of_nat i * 8)) [0..<8]"

definition native_free :: "(u64 \<Rightarrow> u8) \<Rightarrow> u64 \<Rightarrow> bool" where
  "native_free m view \<longleftrightarrow> association_of m view \<noteq> Occupied"

definition native_marked :: "(u64 \<Rightarrow> u8) \<Rightarrow> u64 \<Rightarrow> bool" where
  "native_marked m view \<longleftrightarrow> block m (view + 23688) 1 ! 0 \<noteq> 0"

definition queue_entries :: "(u64 \<Rightarrow> u8) \<Rightarrow> u64 \<Rightarrow> nat list \<Rightarrow> u64 list" where
  "queue_entries m array is = map (\<lambda>i. word64_at m (array + of_nat i * 8)) is"

definition native_queue :: "(u64 \<Rightarrow> u8) \<Rightarrow> u64 \<Rightarrow> nat \<Rightarrow> u64 list" where
  "native_queue m renderer q =
     (let head = block m (renderer + (2768 + 16 * of_nat q)) 16
      in queue_entries m (le64 (drop 8 head)) [0..<unat (le32 (drop 4 head))])"

definition native_queued :: "(u64 \<Rightarrow> u8) \<Rightarrow> u64 \<Rightarrow> u64 list" where
  "native_queued m renderer = native_queue m renderer 0 @ native_queue m renderer 1"

subsection \<open>One steady memory\<close>

definition steady :: "memory_env \<Rightarrow> (u64 \<Rightarrow> u8) \<Rightarrow> bool" where
  "steady env m \<longleftrightarrow> (\<forall>n. env_mem env n = m)"

definition spans_hold :: "(u64 \<Rightarrow> u8) \<Rightarrow> inspection \<Rightarrow> bool" where
  "spans_hold m st \<longleftrightarrow> (\<forall>v \<in> set (in_spans st). sp_bytes v = block m (sp_address v) (sp_size v))"

text \<open>The published part of a snapshot, without the counters and the diagnostics.\<close>

definition quiet :: "pool_snapshot \<Rightarrow> pool_snapshot" where
  "quiet p = p\<lparr>ps_status := Not_Inspected, ps_read_bytes := 0, ps_read_failures := 0,
     ps_failure_slot := -1, ps_examined := 0, ps_queue_counts := []\<rparr>"

abbreviation quiet_result :: "inspection \<Rightarrow> pool_snapshot" where
  "quiet_result st \<equiv> quiet (in_result st)"

definition put_slot :: "nat \<Rightarrow> (view_slot \<Rightarrow> view_slot) \<Rightarrow> pool_snapshot \<Rightarrow> pool_snapshot" where
  "put_slot i f p = p\<lparr>ps_slots := (ps_slots p)[i := f (ps_slots p ! i)]\<rparr>"

lemma quiet_fields [simp]:
  "ps_array (quiet p) = ps_array p" "ps_slots (quiet p) = ps_slots p"
  "ps_release_views (quiet p) = ps_release_views p" "ps_release_count (quiet p) = ps_release_count p"
  "ps_free_count (quiet p) = ps_free_count p" "ps_first_free (quiet p) = ps_first_free p"
  by (simp_all add: quiet_def)

lemma quiet_put_slot: "quiet (put_slot i f p) = put_slot i f (quiet p)"
  by (simp add: quiet_def put_slot_def)

lemma quiet_array: "quiet (p\<lparr>ps_array := a\<rparr>) = (quiet p)\<lparr>ps_array := a\<rparr>"
  by (simp add: quiet_def)

lemma block_nth: "i < n \<Longrightarrow> block m a n ! i = m (a + of_nat i)"
  by (simp add: block_def)

lemma length_block [simp]: "length (block m a n) = n"
  by (simp add: block_def)

text \<open>A field inside an object, served from the bytes of the whole object.\<close>

lemma block_within:
  assumes "k + n \<le> length (block m base l)"
  shows "take n (drop k (block m base l)) = block m (base + of_nat k) n"
  using assms by (intro nth_equalityI) (auto simp: block_nth add.assoc)

lemma covers_block:
  assumes "covers v a n"
  shows "take n (drop (unat (a - sp_address v)) (block m (sp_address v) (sp_size v))) = block m a n"
proof -
  have "unat (a - sp_address v) + n \<le> sp_size v"
    using assms unfolding covers_def by linarith
  then show ?thesis
    by (subst block_within) simp_all
qed

lemma fail_with_frame [simp]:
  "in_spans (fail_with status st) = in_spans st" "quiet_result (fail_with status st) = quiet_result st"
  "in_observations (fail_with status st) = in_observations st" "in_order (fail_with status st) = in_order st"
  by (simp_all add: fail_with_def quiet_def)

lemma set_failure_slot_frame [simp]:
  "in_spans (set_failure_slot i st) = in_spans st" "quiet_result (set_failure_slot i st) = quiet_result st"
  "in_observations (set_failure_slot i st) = in_observations st" "in_order (set_failure_slot i st) = in_order st"
  by (simp_all add: set_failure_slot_def quiet_def)

lemma count_examined_frame [simp]:
  "in_spans (count_examined st) = in_spans st" "quiet_result (count_examined st) = quiet_result st"
  by (simp_all add: count_examined_def quiet_def)

lemma change_view_slot_frame [simp]:
  "in_spans (change_view_slot i f st) = in_spans st"
  "quiet_result (change_view_slot i f st) = put_slot i f (quiet_result st)"
  by (simp_all add: change_view_slot_def quiet_def put_slot_def)

lemma add_observation_frame [simp]:
  "in_spans (add_observation a n served bs st) = in_spans st"
  "quiet_result (add_observation a n served bs st) = quiet_result st"
  by (simp_all add: add_observation_def)

lemma read_exact_frame:
  assumes "read_exact env a n st = (r, st')"
  shows "in_spans st' = in_spans st" "quiet_result st' = quiet_result st"
    "in_observations st' = in_observations st" "in_order st' = in_order st"
    "\<And>bs. r = Some bs \<Longrightarrow> bs = block (env_mem env (in_clock st)) a n"
  using assms by (auto simp: read_exact_def Let_def quiet_def fail_with_def split: if_splits)

lemma spans_hold_cong: "in_spans st' = in_spans st \<Longrightarrow> spans_hold m st' = spans_hold m st"
  by (simp add: spans_hold_def)

lemma capture_steady:
  assumes "steady env m" "spans_hold m st" "capture_field env a n st = (Some bs, st')"
  shows "bs = block m a n \<and> spans_hold m st' \<and> quiet_result st' = quiet_result st"
proof (cases "first_index (\<lambda>v. covers v a n) (in_spans st)")
  case (Some k)
  then have k: "k < length (in_spans st)" and cov: "covers (in_spans st ! k) a n"
    using first_index_Some [OF Some] by auto
  have "sp_bytes (in_spans st ! k) = block m (sp_address (in_spans st ! k)) (sp_size (in_spans st ! k))"
    using assms(2) k by (simp add: spans_hold_def)
  with Some assms(2,3) covers_block [OF cov, of m] show ?thesis
    by (auto simp: capture_field_def Let_def spans_hold_def split: if_splits)
next
  case None
  with assms(3) obtain st1 where st1: "read_exact env a n st = (Some bs, st1)"
    "st' = add_observation a n None bs (st1\<lparr>in_order := in_order st1 @ [Field_Read (length (in_observations st1))]\<rparr>)"
    by (auto simp: capture_field_def split: if_splits prod.splits option.splits)
  note frame = read_exact_frame [OF st1(1)]
  show ?thesis
    using assms(1,2) frame st1(2) by (simp add: steady_def spans_hold_def)
qed

lemma read_span_steady:
  assumes "steady env m" "spans_hold m st" "read_span env a n st = (True, st')"
  shows "spans_hold m st' \<and> quiet_result st' = quiet_result st"
proof (cases "list_ex (\<lambda>v. covers v a n) (in_spans st)")
  case True
  with assms show ?thesis by (simp add: read_span_def)
next
  case False
  with assms(3) obtain bs st1 where st1: "read_exact env a n st = (Some bs, st1)"
    "st' = st1\<lparr>in_spans := in_spans st1 @ [\<lparr>sp_address = a, sp_size = n,
                     sp_slot = ps_failure_slot (in_result st), sp_bytes = bs\<rparr>],
                   in_order := in_order st1 @ [Span_Read (length (in_spans st1))]\<rparr>"
    by (auto simp: read_span_def split: if_splits prod.splits option.splits)
  note frame = read_exact_frame [OF st1(1)]
  show ?thesis
    using assms(1,2) frame st1(2) by (auto simp: steady_def spans_hold_def)
qed

text \<open>What a step of the walk guarantees on one steady memory: it does \<open>f\<close> to the snapshot.\<close>

definition does :: "(u64 \<Rightarrow> u8) \<Rightarrow> inspection \<Rightarrow> (pool_snapshot \<Rightarrow> pool_snapshot) \<Rightarrow> inspection \<Rightarrow> bool" where
  "does m st f st' \<longleftrightarrow> spans_hold m st' \<and> quiet_result st' = f (quiet_result st)"

lemma association_steady:
  assumes "steady env m" "spans_hold m st" "inspect_association env i control generation st = (True, st')"
  shows "does m st (put_slot i (\<lambda>s. s\<lparr>vs_association := native_association m control generation\<rparr>)) st'"
proof (cases "control = 0")
  case True
  with assms show ?thesis
    by (auto simp: inspect_association_def does_def native_association_def spans_hold_def)
next
  case False
  with assms(3) obtain st1 where s1: "read_span env control 32 st = (True, st1)"
    by (auto simp: inspect_association_def split: if_splits prod.splits bool.splits)
  with False assms(3) obtain bs2 st2 where s2: "capture_field env (control + 28) 4 st1 = (Some bs2, st2)"
    by (auto simp: inspect_association_def split: if_splits prod.splits option.splits)
  note f1 = read_span_steady [OF assms(1,2) s1]
  note f2 = capture_steady [OF assms(1) conjunct1 [OF f1] s2]
  show ?thesis
  proof (cases "le32 bs2 = generation")
    case stale: False
    with False assms(3) s1 s2
    have "st' = change_view_slot i (\<lambda>s. s\<lparr>vs_association := Stale_Generation\<rparr>) st2"
      by (auto simp: inspect_association_def split: if_splits)
    with False stale f1 f2 show ?thesis
      by (simp add: does_def native_association_def spans_hold_def)
  next
    case True
    with False assms(3) s1 s2 obtain bs3 st3 where s3: "capture_field env control 8 st2 = (Some bs3, st3)"
      "st' = change_view_slot i (\<lambda>s. s\<lparr>vs_association := if le64 bs3 = 0 then Null_Payload else Occupied\<rparr>) st3"
      by (auto simp: inspect_association_def split: if_splits prod.splits option.splits)
    note f3 = capture_steady [OF assms(1) _ s3(1)]
    show ?thesis
      using False True f1 f2 f3 s3(2)
      by (auto simp: does_def native_association_def word64_at_def spans_hold_def)
  qed
qed

lemma marker_steady:
  assumes "steady env m" "spans_hold m st" "inspect_marker env release i view st = (True, st')"
  shows "does m st (if release then put_slot i (\<lambda>s. s\<lparr>vs_release_pending := native_marked m view\<rparr>) else id) st'"
proof (cases release)
  case False
  with assms show ?thesis by (simp add: inspect_marker_def does_def)
next
  case True
  with assms(3) obtain bs st1 where s1: "capture_field env (view + 23688) 1 st = (Some bs, st1)"
    "st' = change_view_slot i (\<lambda>s. s\<lparr>vs_release_pending := bs ! 0 \<noteq> 0\<rparr>) st1"
    by (auto simp: inspect_marker_def split: if_splits prod.splits option.splits)
  note f1 = capture_steady [OF assms(1,2) s1(1)]
  with True s1(2) show ?thesis
    by (simp add: does_def native_marked_def spans_hold_def)
qed

text \<open>The slot of a view, as the memory says it.\<close>

definition native_slot :: "(u64 \<Rightarrow> u8) \<Rightarrow> bool \<Rightarrow> u64 \<Rightarrow> view_slot \<Rightarrow> view_slot" where
  "native_slot m release view s =
     (let s' = s\<lparr>vs_address := view, vs_association := association_of m view,
            vs_association_valid := \<not> native_free m view, vs_free := native_free m view\<rparr>
      in if release then s'\<lparr>vs_release_pending := native_marked m view\<rparr> else s')"

lemma put_slot_put_slot:
  "put_slot i g (put_slot i f p) = put_slot i (\<lambda>s. g (f s)) p"
  by (cases "i < length (ps_slots p)") (simp_all add: put_slot_def list_update_beyond)

lemma put_slot_array [simp]: "ps_array (put_slot i f p) = ps_array p"
  by (simp add: put_slot_def)

lemma slot_steady:
  assumes "steady env m" "spans_hold m st" "inspect_slot env release i st = (True, st')"
  shows "does m st (put_slot i (native_slot m release
           (word64_at m (ps_array (in_result st) + of_nat i * 8)))) st'"
proof -
  define st0 where "st0 = set_failure_slot (int i) st"
  have st0: "spans_hold m st0" "quiet_result st0 = quiet_result st" "ps_array (in_result st0) = ps_array (in_result st)"
    using assms(2) by (simp_all add: st0_def spans_hold_def) (simp add: set_failure_slot_def)
  obtain bs1 st1 where s1: "capture_field env (ps_array (in_result st0) + of_nat i * 8) 8 st0 = (Some bs1, st1)"
    using assms(3) by (auto simp: inspect_slot_def st0_def Let_def split: prod.splits option.splits)
  note f1 = capture_steady [OF assms(1) st0(1) s1]
  define view where "view = le64 bs1"
  define st2 where "st2 = change_view_slot i (\<lambda>s. s\<lparr>vs_address := view\<rparr>) st1"
  have f2: "spans_hold m st2" "quiet_result st2 = put_slot i (\<lambda>s. s\<lparr>vs_address := view\<rparr>) (quiet_result st)"
    using f1 st0 by (simp_all add: st2_def spans_hold_def)
  obtain bs3 st3 where s3: "capture_field env (view + 72) 16 st2 = (Some bs3, st3)"
    using assms(3) s1 by (auto simp: inspect_slot_def Let_def view_def st2_def st0_def
      split: prod.splits option.splits if_splits)
  note f3 = capture_steady [OF assms(1) f2(1) s3]
  obtain st4 where s4: "inspect_association env i (le64 bs3) (le32 (drop 8 bs3)) st3 = (True, st4)"
    using assms(3) s1 s3 by (auto simp: inspect_slot_def Let_def view_def st2_def st0_def
      split: prod.splits option.splits if_splits bool.splits)
  note f4 = association_steady [OF assms(1) _ s4]
  obtain st5 where s5: "inspect_marker env release i view (change_view_slot i settle_slot st4) = (True, st5)"
    "st' = count_examined st5"
    using assms(3) s1 s3 s4 by (auto simp: inspect_slot_def Let_def view_def st2_def st0_def
      split: prod.splits option.splits if_splits bool.splits)
  have f5: "does m (change_view_slot i settle_slot st4)
      (if release then put_slot i (\<lambda>s. s\<lparr>vs_release_pending := native_marked m view\<rparr>) else id) st5"
    using f3 f4 by (intro marker_steady [OF assms(1) _ s5(1)]) (auto simp: does_def spans_hold_def)
  have "word64_at m (ps_array (in_result st) + of_nat i * 8) = view"
    using f1 st0 by (simp add: view_def word64_at_def)
  moreover have "quiet_result st5 = put_slot i (native_slot m release view) (quiet_result st)"
    using f2 f3 f4 f5
    by (auto simp: does_def put_slot_put_slot native_slot_def [abs_def] settle_slot_def
        association_of_def native_free_def)
  ultimately show ?thesis
    using f5 s5(2) by (simp add: does_def spans_hold_def)
qed

lemma slots_steady:
  assumes "steady env m" "spans_hold m st" "inspect_slots env release is st = (True, st')"
  shows "does m st (fold (\<lambda>i. put_slot i (native_slot m release
           (word64_at m (ps_array (in_result st) + of_nat i * 8)))) is) st'"
  using assms(2,3)
proof (induction "is" arbitrary: st)
  case Nil
  then show ?case by (simp add: does_def)
next
  case (Cons i "is")
  then obtain st1 where s1: "inspect_slot env release i st = (True, st1)" "inspect_slots env release is st1 = (True, st')"
    by (auto split: prod.splits bool.splits)
  have f1: "does m st (put_slot i (native_slot m release (word64_at m (ps_array (in_result st) + of_nat i * 8)))) st1"
    by (rule slot_steady [OF assms(1) Cons.prems(1) s1(1)])
  then have array: "ps_array (in_result st1) = ps_array (in_result st)"
    unfolding does_def by (metis quiet_fields(1) put_slot_array)
  have "does m st1 (fold (\<lambda>i. put_slot i (native_slot m release
           (word64_at m (ps_array (in_result st1) + of_nat i * 8)))) is) st'"
    using f1 by (intro Cons.IH s1(2)) (simp add: does_def)
  with f1 array show ?case
    by (simp add: does_def)
qed

definition note_view :: "u64 \<Rightarrow> pool_snapshot \<Rightarrow> pool_snapshot" where
  "note_view view p = in_result (note_release view (new_inspection\<lparr>in_result := p\<rparr>))"

lemma note_release_frame [simp]:
  "in_spans (note_release view st) = in_spans st"
  "quiet_result (note_release view st) = note_view view (quiet_result st)"
  by (simp_all add: note_view_def note_release_def Let_def quiet_def)

lemma entries_steady:
  assumes "steady env m" "spans_hold m st" "inspect_entries env array is st = (True, st')"
  shows "does m st (fold note_view (queue_entries m array is)) st'"
  using assms(2,3)
proof (induction "is" arbitrary: st)
  case Nil
  then show ?case by (simp add: does_def queue_entries_def)
next
  case (Cons i "is")
  then obtain bs st1 where s1: "capture_field env (array + of_nat i * 8) 8 st = (Some bs, st1)"
    "inspect_entries env array is (note_release (le64 bs) st1) = (True, st')"
    by (auto split: prod.splits option.splits if_splits)
  note f1 = capture_steady [OF assms(1) Cons.prems(1) s1(1)]
  have "does m (note_release (le64 bs) st1) (fold note_view (queue_entries m array is)) st'"
    using f1 by (intro Cons.IH s1(2)) (simp add: spans_hold_def)
  with f1 show ?case
    by (simp add: does_def queue_entries_def word64_at_def)
qed

lemma queue_steady:
  assumes "steady env m" "spans_hold m st" "inspect_queue env renderer q st = (True, st')"
  shows "does m st (fold note_view (native_queue m renderer q)) st' \<and> length (native_queue m renderer q) \<le> 64"
proof -
  obtain bs st1 where s1: "capture_field env (renderer + (2768 + 16 * of_nat q)) 16 (set_failure_slot (-1) st) = (Some bs, st1)"
    using assms(3) by (auto simp: inspect_queue_def Let_def split: prod.splits option.splits if_splits)
  have f1: "bs = block m (renderer + (2768 + 16 * of_nat q)) 16 \<and> spans_hold m st1 \<and> quiet_result st1 = quiet_result st"
    using capture_steady [OF assms(1) _ s1] assms(2) by (simp add: spans_hold_def)
  define st2 where "st2 = st1\<lparr>in_result := (in_result st1)\<lparr>ps_queue_counts :=
     (ps_queue_counts (in_result st1))[q := unat (le32 (drop 4 bs))]\<rparr>\<rparr>"
  have s2: "inspect_entries env (le64 (drop 8 bs)) [0..<unat (le32 (drop 4 bs))] st2 = (True, st')"
    and "\<not> le32 (drop 4 bs) > 64"
    using assms(3) s1 by (auto simp: inspect_queue_def Let_def st2_def split: if_splits)
  then have "length (native_queue m renderer q) \<le> 64"
    using f1 by (simp add: native_queue_def Let_def queue_entries_def word_less_nat_alt)
  moreover have "does m st2 (fold note_view (native_queue m renderer q)) st'"
    using f1 entries_steady [OF assms(1) _ s2] by (simp add: st2_def spans_hold_def native_queue_def Let_def)
  moreover have "quiet_result st2 = quiet_result st"
    using f1 by (simp add: st2_def quiet_def)
  ultimately show ?thesis
    by (simp add: does_def)
qed

lemma fold_put_slots:
  assumes "length (ps_slots p) = 8"
  shows "fold (\<lambda>i. put_slot i (g i)) [0..<8] p = p\<lparr>ps_slots := map (\<lambda>i. g i (ps_slots p ! i)) [0..<8]\<rparr>"
proof -
  obtain a b c d e f h k where "ps_slots p = [a, b, c, d, e, f, h, k]"
    using assms by (auto simp: numeral_eq_Suc length_Suc_conv)
  moreover have "[0..<8] = [0, 1, 2, 3, 4, 5, 6, 7]"
    by (simp add: upt_conv_Cons)
  ultimately show ?thesis
    by (simp add: put_slot_def)
qed

lemma fold_note_views:
  "ps_slots (fold note_view vs p) =
     map (\<lambda>s. s\<lparr>vs_release_queued := vs_release_queued s \<or> vs_address s \<in> set vs\<rparr>) (ps_slots p)"
  "ps_release_count (fold note_view vs p) = ps_release_count p + length vs"
  "ps_release_count p + length vs \<le> length (ps_release_views p) \<Longrightarrow>
   take (ps_release_count p + length vs) (ps_release_views (fold note_view vs p)) =
     take (ps_release_count p) (ps_release_views p) @ vs"
  "ps_free_count (fold note_view vs p) = ps_free_count p"
  "ps_first_free (fold note_view vs p) = ps_first_free p"
proof -
  show "ps_slots (fold note_view vs p) =
     map (\<lambda>s. s\<lparr>vs_release_queued := vs_release_queued s \<or> vs_address s \<in> set vs\<rparr>) (ps_slots p)"
    by (induction vs arbitrary: p) (auto simp: note_view_def note_release_def Let_def)
  show "ps_release_count (fold note_view vs p) = ps_release_count p + length vs"
    "ps_free_count (fold note_view vs p) = ps_free_count p"
    "ps_first_free (fold note_view vs p) = ps_first_free p"
    by (induction vs arbitrary: p) (simp_all add: note_view_def note_release_def Let_def)
  show "ps_release_count p + length vs \<le> length (ps_release_views p) \<Longrightarrow>
   take (ps_release_count p + length vs) (ps_release_views (fold note_view vs p)) =
     take (ps_release_count p) (ps_release_views p) @ vs"
  proof (induction vs arbitrary: p)
    case Nil
    then show ?case by simp
  next
    case (Cons v vs)
    have "ps_release_count (note_view v p) = ps_release_count p + 1"
      "ps_release_views (note_view v p) = (ps_release_views p)[ps_release_count p := v]"
      by (simp_all add: note_view_def note_release_def Let_def)
    with Cons.IH [of "note_view v p"] Cons.prems show ?case
      by (simp add: take_Suc_conv_app_nth)
  qed
qed

text \<open>The whole walk of a creation inspection on one steady memory.\<close>

lemma walk_steady:
  assumes "steady env m" "walk_pool env True renderer = (True, st)"
  shows "ps_slots (in_result st) =
      map (\<lambda>i. (native_slot m True (native_views m renderer ! i) (new_slot i))
             \<lparr>vs_release_queued := native_views m renderer ! i \<in> set (native_queued m renderer)\<rparr>) [0..<8] \<and>
    take (ps_release_count (in_result st)) (ps_release_views (in_result st)) = native_queued m renderer \<and>
    ps_release_count (in_result st) = length (native_queued m renderer) \<and>
    ps_free_count (in_result st) = 0 \<and> ps_first_free (in_result st) = replicate 4 (-1)"
proof -
  obtain st1 where s1: "inspect_array env renderer new_inspection = (True, st1)"
    using assms(2) by (auto simp: walk_pool_def split: if_splits prod.splits bool.splits)
  obtain st2 where s2: "inspect_slots env True [0..<8] st1 = (True, st2)"
    using assms(2) s1 by (auto simp: walk_pool_def split: if_splits prod.splits bool.splits)
  obtain st3 where s3: "inspect_queue env renderer 0 st2 = (True, st3)" "inspect_queue env renderer 1 st3 = (True, st)"
    using assms(2) s1 s2
    by (auto simp: walk_pool_def inspect_queues_def split: if_splits prod.splits bool.splits)
  obtain bs st0 where s0: "capture_field env (renderer + 2752) 8 new_inspection = (Some bs, st0)"
    using s1 by (auto simp: inspect_array_def split: prod.splits option.splits)
  have f0: "bs = block m (renderer + 2752) 8 \<and> spans_hold m st0 \<and> quiet_result st0 = quiet new_snapshot"
    using capture_steady [OF assms(1) _ s0] by (simp add: spans_hold_def new_inspection_def)
  define st0' where "st0' = st0\<lparr>in_result := (in_result st0)\<lparr>ps_array := le64 bs\<rparr>\<rparr>"
  have "read_span env (le64 bs) (8 * 8) st0' = (True, st1)"
    using s1 s0 by (auto simp: inspect_array_def st0'_def Let_def split: if_splits)
  moreover have "spans_hold m st0'"
    using f0 by (simp add: st0'_def spans_hold_def)
  ultimately have f1: "spans_hold m st1 \<and> quiet_result st1 = quiet_result st0'"
    by (intro read_span_steady [OF assms(1)])
  have q0: "quiet_result st0' = (quiet new_snapshot)\<lparr>ps_array := word64_at m (renderer + 2752)\<rparr>"
    using f0 by (simp add: st0'_def quiet_array word64_at_def)
  then have "ps_array (quiet_result st1) = word64_at m (renderer + 2752)"
    using f1 by (simp del: quiet_fields)
  then have array: "ps_array (in_result st1) = word64_at m (renderer + 2752)"
    by simp
  have f2: "does m st1 (fold (\<lambda>i. put_slot i (native_slot m True
           (word64_at m (word64_at m (renderer + 2752) + of_nat i * 8)))) [0..<8]) st2"
    using slots_steady [OF assms(1) conjunct1 [OF f1] s2] array by simp
  have f3: "does m st2 (fold note_view (native_queue m renderer 0)) st3 \<and> length (native_queue m renderer 0) \<le> 64"
    using f2 by (intro queue_steady [OF assms(1) _ s3(1)]) (simp add: does_def)
  have f4: "does m st3 (fold note_view (native_queue m renderer 1)) st \<and> length (native_queue m renderer 1) \<le> 64"
    using f3 by (intro queue_steady [OF assms(1) _ s3(2)]) (simp add: does_def)
  define p where "p = (quiet new_snapshot)\<lparr>ps_array := word64_at m (renderer + 2752),
      ps_slots := map (\<lambda>i. native_slot m True (native_views m renderer ! i) (new_slot i)) [0..<8]\<rparr>"
  have "quiet_result st2 = p"
  proof -
    have "quiet_result st2 = fold (\<lambda>i. put_slot i (native_slot m True
           (word64_at m (word64_at m (renderer + 2752) + of_nat i * 8)))) [0..<8]
        ((quiet new_snapshot)\<lparr>ps_array := word64_at m (renderer + 2752)\<rparr>)"
      using f1 f2 q0 by (simp add: does_def)
    also have "\<dots> = p"
      by (subst fold_put_slots)
        (auto simp: p_def new_snapshot_def native_views_def intro!: map_cong)
    finally show ?thesis .
  qed
  then have st: "quiet_result st = fold note_view (native_queued m renderer) p"
    using f3 f4 by (simp add: does_def native_queued_def)
  have "length (native_queued m renderer) \<le> 128"
    using f3 f4 by (simp add: native_queued_def)
  with fold_note_views [where vs = "native_queued m renderer" and p = p] show ?thesis
    unfolding quiet_fields(2-6) [of "in_result st", symmetric] st
    by (simp add: p_def new_snapshot_def native_slot_def new_slot_def Let_def)
qed

subsection \<open>Capacity and retirement\<close>

lemma fold_count_free:
  "ps_free_count (fold count_free ss p) = ps_free_count p + length (filter vs_free ss)"
  "ps_slots (fold count_free ss p) = ps_slots p"
  "ps_release_views (fold count_free ss p) = ps_release_views p"
  "ps_release_count (fold count_free ss p) = ps_release_count p"
  "length (ps_first_free (fold count_free ss p)) = length (ps_first_free p)"
  by (induction ss arbitrary: p) (simp_all add: count_free_def)

lemma fold_count_free_first:
  assumes "length (ps_first_free p) = 4" and "k < 4"
  shows "ps_first_free (fold count_free ss p) ! k =
    (if k < ps_free_count p \<or> k \<ge> ps_free_count p + length (filter vs_free ss) then ps_first_free p ! k
     else int (vs_index (filter vs_free ss ! (k - ps_free_count p))))"
  using assms(1)
proof (induction ss arbitrary: p)
  case Nil
  then show ?case by simp
next
  case (Cons s ss)
  show ?case
  proof (cases "vs_free s")
    case False
    with Cons show ?thesis by (simp add: count_free_def)
  next
    case True
    have len: "length (ps_first_free (count_free s p)) = 4"
      using Cons.prems by (simp add: count_free_def)
    have at: "ps_first_free (count_free s p) ! j =
        (if j = ps_free_count p then int (vs_index s) else ps_first_free p ! j)" if "j < 4" for j
      using that True Cons.prems by (simp add: count_free_def nth_list_update)
    have "ps_free_count (count_free s p) = ps_free_count p + 1"
      using True by (simp add: count_free_def)
    moreover consider "k < ps_free_count p" | "k = ps_free_count p" | "k > ps_free_count p"
      by linarith
    ultimately show ?thesis
      using True Cons.IH [OF len] at [OF assms(2)] by cases (simp_all add: nth_Cons')
  qed
qed

subsection \<open>Every field is read twice\<close>

text \<open>
  The bookkeeping of the walk: what each observation and span was read from, that its read is in
  the order of the first pass, and that the byte budget holds.
\<close>

definition first_read :: "memory_env \<Rightarrow> nat \<Rightarrow> u64 \<Rightarrow> nat \<Rightarrow> u8 list \<Rightarrow> bool" where
  "first_read env n a k bs \<longleftrightarrow> (\<exists>t < n. bs = block (env_mem env t) a k)"

definition observation_ok :: "memory_env \<Rightarrow> inspection \<Rightarrow> nat \<Rightarrow> observation \<Rightarrow> bool" where
  "observation_ok env st k ob \<longleftrightarrow>
     first_read env (in_clock st) (ob_address ob) (ob_size ob) (ob_bytes ob) \<and>
     (case ob_span ob of None \<Rightarrow> Field_Read k \<in> set (in_order st)
      | Some j \<Rightarrow> j < length (in_spans st) \<and> covers (in_spans st ! j) (ob_address ob) (ob_size ob))"

definition span_ok :: "memory_env \<Rightarrow> inspection \<Rightarrow> nat \<Rightarrow> span \<Rightarrow> bool" where
  "span_ok env st j v \<longleftrightarrow> Span_Read j \<in> set (in_order st) \<and>
     first_read env (in_clock st) (sp_address v) (sp_size v) (sp_bytes v)"

definition walk_ok :: "memory_env \<Rightarrow> inspection \<Rightarrow> bool" where
  "walk_ok env st \<longleftrightarrow>
     (\<forall>k < length (in_observations st). observation_ok env st k (in_observations st ! k)) \<and>
     (\<forall>j < length (in_spans st). span_ok env st j (in_spans st ! j)) \<and>
     \<not> ps_valid (in_result st) \<and> ps_read_bytes (in_result st) \<le> read_budget"

lemma first_read_mono: "first_read env n a k bs \<Longrightarrow> n \<le> n' \<Longrightarrow> first_read env n' a k bs"
  unfolding first_read_def using less_le_trans by blast

text \<open>Changes of the result alone keep it, as long as they publish nothing and read nothing.\<close>

lemma walk_ok_result:
  "walk_ok env st \<Longrightarrow> ps_valid p = ps_valid (in_result st) \<Longrightarrow> ps_read_bytes p = ps_read_bytes (in_result st) \<Longrightarrow>
   walk_ok env (st\<lparr>in_result := p\<rparr>)"
  by (simp add: walk_ok_def observation_ok_def span_ok_def cong: option.case_cong)

lemma walk_ok_simple [intro]:
  "walk_ok env st \<Longrightarrow> walk_ok env (fail_with status st)"
  "walk_ok env st \<Longrightarrow> walk_ok env (set_failure_slot i st)"
  "walk_ok env st \<Longrightarrow> walk_ok env (change_view_slot k f st)"
  "walk_ok env st \<Longrightarrow> walk_ok env (count_examined st)"
  "walk_ok env st \<Longrightarrow> walk_ok env (note_release v st)"
  unfolding fail_with_def set_failure_slot_def change_view_slot_def count_examined_def
    note_release_def Let_def
  by (auto intro!: walk_ok_result)

lemma read_exact_ok:
  assumes "walk_ok env st" "read_exact env a n st = (r, st')"
  shows "walk_ok env st' \<and> in_clock st \<le> in_clock st' \<and>
    (\<forall>bs. r = Some bs \<longrightarrow> in_clock st' = in_clock st + 1 \<and> bs = block (env_mem env (in_clock st)) a n)"
proof -
  have later: "walk_ok env (st\<lparr>in_clock := in_clock st + 1, in_result := p\<rparr>)"
    if "\<not> ps_valid p" "ps_read_bytes p \<le> read_budget" for p
    using assms(1) that unfolding walk_ok_def observation_ok_def span_ok_def
    by (auto intro: first_read_mono cong: option.case_cong)
  have "ps_read_bytes (in_result st) \<le> read_budget" "\<not> ps_valid (in_result st)"
    using assms(1) by (simp_all add: walk_ok_def)
  then show ?thesis
    using assms(2) later walk_ok_simple(1) [OF assms(1)]
    by (auto simp: read_exact_def Let_def fail_with_def split: if_splits)
qed

lemma read_span_ok:
  assumes "walk_ok env st" "read_span env a n st = (r, st')"
  shows "walk_ok env st'"
proof (cases "\<exists>bs st1. r \<and> read_exact env a n st = (Some bs, st1) \<and> st' = st1\<lparr>in_spans := in_spans st1 @
      [\<lparr>sp_address = a, sp_size = n, sp_slot = ps_failure_slot (in_result st), sp_bytes = bs\<rparr>],
      in_order := in_order st1 @ [Span_Read (length (in_spans st1))]\<rparr>")
  case True
  then obtain bs st1 where s1: "read_exact env a n st = (Some bs, st1)"
    and st': "st' = st1\<lparr>in_spans := in_spans st1 @
      [\<lparr>sp_address = a, sp_size = n, sp_slot = ps_failure_slot (in_result st), sp_bytes = bs\<rparr>],
      in_order := in_order st1 @ [Span_Read (length (in_spans st1))]\<rparr>"
    by blast
  note ok = read_exact_ok [OF assms(1) s1]
  then have read: "first_read env (in_clock st1) a n bs"
    unfolding first_read_def by auto
  have obs: "observation_ok env st' k ob" if "observation_ok env st1 k ob" for k ob
    using that unfolding observation_ok_def st' by (auto simp: nth_append split: option.splits)
  have "span_ok env st' j (in_spans st' ! j)" if "j < length (in_spans st')" for j
  proof (cases "j < length (in_spans st1)")
    case True
    with ok have "span_ok env st1 j (in_spans st1 ! j)"
      unfolding walk_ok_def by blast
    with True show ?thesis
      by (simp add: span_ok_def st' nth_append)
  next
    case False
    with that read show ?thesis
      by (simp add: st' span_ok_def nth_append less_Suc_eq)
  qed
  with ok obs show ?thesis
    by (simp add: walk_ok_def) (simp add: st')
next
  case False
  then show ?thesis
    using assms read_exact_ok [OF assms(1)]
    by (auto simp: read_span_def split: if_splits prod.splits option.splits)
qed

lemma walk_ok_observe:
  assumes ok: "walk_ok env st" and read: "first_read env (in_clock st) a n bs"
    and served: "case served of None \<Rightarrow> Field_Read (length (in_observations st)) \<in> set (in_order st)
      | Some j \<Rightarrow> j < length (in_spans st) \<and> covers (in_spans st ! j) a n"
  shows "walk_ok env (add_observation a n served bs st)"
proof -
  define st' where "st' = add_observation a n served bs st"
  have same: "in_clock st' = in_clock st" "in_spans st' = in_spans st" "in_order st' = in_order st"
    "in_result st' = in_result st"
    by (simp_all add: st'_def add_observation_def)
  have obs: "in_observations st' = in_observations st @ [\<lparr>ob_address = a, ob_size = n,
      ob_slot = ps_failure_slot (in_result st), ob_span = served, ob_bytes = bs\<rparr>]"
    by (simp add: st'_def add_observation_def)
  have eq: "observation_ok env st' = observation_ok env st" "span_ok env st' = span_ok env st"
    by (simp_all add: fun_eq_iff observation_ok_def span_ok_def same cong: option.case_cong)
  have "observation_ok env st' k (in_observations st' ! k)" if "k < length (in_observations st')" for k
  proof (cases "k < length (in_observations st)")
    case True
    with ok eq show ?thesis by (simp add: obs nth_append walk_ok_def)
  next
    case False
    with that have "k = length (in_observations st)" by (simp add: obs)
    with read served show ?thesis
      by (simp add: obs observation_ok_def same cong: option.case_cong)
  qed
  with ok show ?thesis
    unfolding st'_def [symmetric] walk_ok_def eq same by (auto simp: eq)
qed

lemma capture_ok:
  assumes ok: "walk_ok env st" and cap: "capture_field env a n st = (r, st')"
  shows "walk_ok env st'"
proof (cases "first_index (\<lambda>v. covers v a n) (in_spans st)")
  case (Some j)
  then have j: "j < length (in_spans st)" "covers (in_spans st ! j) a n"
    using first_index_Some [OF Some] by auto
  then obtain t where t: "t < in_clock st"
    "sp_bytes (in_spans st ! j) = block (env_mem env t) (sp_address (in_spans st ! j)) (sp_size (in_spans st ! j))"
    using ok by (auto simp: walk_ok_def span_ok_def first_read_def)
  then have "first_read env (in_clock st) a n
      (take n (drop (unat (a - sp_address (in_spans st ! j))) (sp_bytes (in_spans st ! j))))"
    using covers_block [OF j(2)] by (auto simp: first_read_def)
  with Some j ok cap walk_ok_simple(1) [OF ok] show ?thesis
    by (auto simp: capture_field_def Let_def split: if_splits intro!: walk_ok_observe)
next
  case None
  obtain r1 st1 where s1: "read_exact env a n st = (r1, st1)"
    by fastforce
  note ok1 = read_exact_ok [OF ok s1]
  show ?thesis
  proof (cases r1)
    case None
    with \<open>first_index _ _ = None\<close> cap s1 ok1 walk_ok_simple(1) [OF ok] show ?thesis
      by (auto simp: capture_field_def split: if_splits)
  next
    case (Some bs)
    define st2 where "st2 = st1\<lparr>in_order := in_order st1 @ [Field_Read (length (in_observations st1))]\<rparr>"
    have "walk_ok env st2"
      using ok1 unfolding walk_ok_def observation_ok_def span_ok_def st2_def
      by (auto split: option.splits)
    moreover have "first_read env (in_clock st2) a n bs"
      using ok1 Some by (auto simp: first_read_def st2_def)
    ultimately have "walk_ok env (add_observation a n None bs st2)"
      by (intro walk_ok_observe) (simp_all add: st2_def)
    with None Some cap s1 walk_ok_simple(1) [OF ok] show ?thesis
      by (auto simp: capture_field_def st2_def split: if_splits)
  qed
qed

lemmas read_step_ok = capture_ok [rotated] read_span_ok [rotated]

lemma association_ok:
  "walk_ok env st \<Longrightarrow> inspect_association env i control generation st = (r, st') \<Longrightarrow> walk_ok env st'"
  unfolding inspect_association_def
  by (auto split: if_splits prod.splits bool.splits option.splits dest!: read_step_ok)

lemma marker_ok: "walk_ok env st \<Longrightarrow> inspect_marker env release i view st = (r, st') \<Longrightarrow> walk_ok env st'"
  unfolding inspect_marker_def
  by (auto split: if_splits prod.splits option.splits dest!: read_step_ok)

lemma slot_walk_ok: "walk_ok env st \<Longrightarrow> inspect_slot env release i st = (r, st') \<Longrightarrow> walk_ok env st'"
  unfolding inspect_slot_def Let_def
  by (auto split: if_splits prod.splits bool.splits option.splits
      dest!: read_step_ok association_ok [rotated] marker_ok [rotated])

lemma slots_ok: "walk_ok env st \<Longrightarrow> inspect_slots env release is st = (r, st') \<Longrightarrow> walk_ok env st'"
  by (induction "is" arbitrary: st) (auto split: prod.splits bool.splits dest: slot_walk_ok)

lemma entries_ok: "walk_ok env st \<Longrightarrow> inspect_entries env array is st = (r, st') \<Longrightarrow> walk_ok env st'"
  by (induction "is" arbitrary: st)
    (auto split: prod.splits bool.splits option.splits if_splits dest!: read_step_ok)

lemma walk_ok_counts [intro]:
  "walk_ok env st \<Longrightarrow> walk_ok env (st\<lparr>in_result := (in_result st)\<lparr>ps_queue_counts := c\<rparr>\<rparr>)"
  "walk_ok env st \<Longrightarrow> walk_ok env (st\<lparr>in_result := (in_result st)\<lparr>ps_array := a\<rparr>\<rparr>)"
  by (simp_all add: walk_ok_result)

lemma queue_ok: "walk_ok env st \<Longrightarrow> inspect_queue env renderer q st = (r, st') \<Longrightarrow> walk_ok env st'"
  unfolding inspect_queue_def Let_def
  by (auto split: if_splits prod.splits option.splits dest!: read_step_ok entries_ok [rotated])

lemma queues_ok: "walk_ok env st \<Longrightarrow> inspect_queues env release renderer st = (r, st') \<Longrightarrow> walk_ok env st'"
  unfolding inspect_queues_def
  by (auto split: if_splits prod.splits bool.splits dest!: queue_ok [rotated])

lemma array_ok: "walk_ok env st \<Longrightarrow> inspect_array env renderer st = (r, st') \<Longrightarrow> walk_ok env st'"
  unfolding inspect_array_def Let_def
  by (auto split: if_splits prod.splits option.splits dest!: read_step_ok)

lemma new_inspection_ok: "walk_ok env new_inspection"
  by (simp add: walk_ok_def new_inspection_def new_snapshot_def)

lemma walk_pool_ok: "walk_pool env release renderer = (r, st) \<Longrightarrow> walk_ok env st"
  using new_inspection_ok [of env] unfolding walk_pool_def
  by (auto split: if_splits prod.splits bool.splits
      dest!: array_ok [rotated] slots_ok [rotated] queues_ok [rotated])

text \<open>The second read of a field agrees with the first.\<close>

definition confirmed :: "memory_env \<Rightarrow> nat \<Rightarrow> nat \<Rightarrow> observation \<Rightarrow> bool" where
  "confirmed env n n' ob \<longleftrightarrow> (\<exists>t. n \<le> t \<and> t < n' \<and>
     take (ob_size ob) (ob_bytes ob) = block (env_mem env t) (ob_address ob) (ob_size ob))"

lemma confirmed_mono: "confirmed env n n' ob \<Longrightarrow> n0 \<le> n \<Longrightarrow> n' \<le> n1 \<Longrightarrow> confirmed env n0 n1 ob"
  unfolding confirmed_def using le_trans less_le_trans by blast

definition same_trace :: "inspection \<Rightarrow> inspection \<Rightarrow> bool" where
  "same_trace st st' \<longleftrightarrow> in_observations st' = in_observations st \<and> in_spans st' = in_spans st \<and>
     in_clock st \<le> in_clock st'"

lemma same_trace_simple [simp]:
  "same_trace st (fail_with status st)" "same_trace st (set_failure_slot i st)"
  by (simp_all add: same_trace_def) (simp_all add: fail_with_def set_failure_slot_def)

lemma same_trace_trans: "same_trace st st1 \<Longrightarrow> same_trace st1 st2 \<Longrightarrow> same_trace st st2"
  by (simp add: same_trace_def)

lemma same_trace_read: "walk_ok env st \<Longrightarrow> read_exact env a n st = (r, st') \<Longrightarrow> same_trace st st'"
  using read_exact_frame [of env a n st r st'] read_exact_ok [of env st a n r st'] by (simp add: same_trace_def)

lemma compare_fields_ok:
  "walk_ok env st \<Longrightarrow> compare_fields j v current obs st = (r, st') \<Longrightarrow>
   walk_ok env st' \<and> same_trace st st' \<and>
   \<not> (r \<and> \<not> (\<forall>ob \<in> set obs. ob_span ob = Some j \<longrightarrow>
     take (ob_size ob) (drop (unat (ob_address ob - sp_address v)) current) = take (ob_size ob) (ob_bytes ob)))"
proof (induction obs arbitrary: st)
  case Nil
  then show ?case by (simp add: same_trace_def)
next
  case (Cons ob obs)
  show ?case
  proof (cases "ob_span ob = Some j")
    case False
    with Cons.prems Cons.IH [of st] show ?thesis by simp
  next
    case True
    define st1 where "st1 = set_failure_slot (ob_slot ob) st"
    have st1: "walk_ok env st1" "same_trace st st1"
      using Cons.prems by (auto simp: st1_def)
    show ?thesis
    proof (cases "take (ob_size ob) (drop (unat (ob_address ob - sp_address v)) current) =
        take (ob_size ob) (ob_bytes ob)")
      case match: True
      then have "compare_fields j v current obs st1 = (r, st')"
        using Cons.prems True by (simp add: st1_def)
      with Cons.IH [of st1] st1 match show ?thesis
        by (auto intro: same_trace_trans)
    next
      case False
      then have "(r, st') = (False, fail_with Changed st1)"
        using Cons.prems True by (simp add: st1_def)
      with st1 show ?thesis
        by (auto intro: same_trace_trans)
    qed
  qed
qed

fun serves :: "inspection \<Rightarrow> read_item \<Rightarrow> nat \<Rightarrow> bool" where
  "serves st (Field_Read i) k = (k = i)"
| "serves st (Span_Read j) k = (ob_span (in_observations st ! k) = Some j)"

lemma serves_cong: "same_trace st st' \<Longrightarrow> serves st' item k = serves st item k"
  by (cases item) (simp_all add: same_trace_def)

lemma recheck_item_ok:
  assumes ok: "walk_ok env st" and run: "recheck_item env item st = (r, st')"
  shows "walk_ok env st' \<and> same_trace st st'"
    and "r \<Longrightarrow> k < length (in_observations st) \<Longrightarrow> serves st item k \<Longrightarrow>
      confirmed env (in_clock st) (in_clock st') (in_observations st ! k)"
proof -
  show "walk_ok env st' \<and> same_trace st st'"
  proof (cases item)
    case (Field_Read i)
    define st0 where "st0 = set_failure_slot (ob_slot (in_observations st ! i)) st"
    have st0: "walk_ok env st0" "same_trace st st0"
      using ok by (auto simp: st0_def)
    obtain r1 st1 where s1: "read_exact env (ob_address (in_observations st ! i)) (ob_size (in_observations st ! i)) st0 = (r1, st1)"
      by fastforce
    have "walk_ok env st1" "same_trace st st1"
      using read_exact_ok [OF st0(1) s1] same_trace_trans [OF st0(2) same_trace_read [OF st0(1) s1]] by simp_all
    with s1 run Field_Read show ?thesis
      by (auto simp: Let_def st0_def split: option.splits if_splits intro: same_trace_trans)
  next
    case (Span_Read j)
    define st0 where "st0 = set_failure_slot (sp_slot (in_spans st ! j)) st"
    have st0: "walk_ok env st0" "same_trace st st0"
      using ok by (auto simp: st0_def)
    obtain r1 st1 where s1: "read_exact env (sp_address (in_spans st ! j)) (sp_size (in_spans st ! j)) st0 = (r1, st1)"
      by fastforce
    have st1: "walk_ok env st1" "same_trace st st1"
      using read_exact_ok [OF st0(1) s1] same_trace_trans [OF st0(2) same_trace_read [OF st0(1) s1]] by simp_all
    show ?thesis
    proof (cases r1)
      case None
      with s1 st1 run Span_Read show ?thesis by (simp add: Let_def st0_def)
    next
      case (Some current)
      then have "compare_fields j (in_spans st ! j) current (in_observations st1) st1 = (r, st')"
        using s1 run Span_Read by (simp add: Let_def st0_def)
      with compare_fields_ok [OF st1(1)] st1(2) show ?thesis
        by (blast intro: same_trace_trans)
    qed
  qed
next
  assume r: r and k: "k < length (in_observations st)" and serve: "serves st item k"
  let ?ob = "in_observations st ! k"
  have ob: "observation_ok env st k ?ob"
    using ok k by (simp add: walk_ok_def)
  show "confirmed env (in_clock st) (in_clock st') ?ob"
  proof (cases item)
    case (Field_Read i)
    define st0 where "st0 = set_failure_slot (ob_slot ?ob) st"
    have st0: "walk_ok env st0" "in_clock st0 = in_clock st" "in_observations st0 = in_observations st"
      using ok by (auto simp: st0_def) (simp add: set_failure_slot_def)
    obtain current where s1: "read_exact env (ob_address ?ob) (ob_size ?ob) st0 = (Some current, st')"
      and eq: "take (ob_size ?ob) current = take (ob_size ?ob) (ob_bytes ?ob)"
      using run r serve Field_Read by (auto simp: Let_def st0_def split: prod.splits option.splits if_splits)
    with read_exact_ok [OF st0(1) s1] st0 show ?thesis
      unfolding confirmed_def by (intro exI [of _ "in_clock st"]) simp
  next
    case (Span_Read j)
    with serve have span: "ob_span ?ob = Some j" by simp
    define v where "v = in_spans st ! j"
    define st0 where "st0 = set_failure_slot (sp_slot v) st"
    have st0: "walk_ok env st0" "in_clock st0 = in_clock st" "in_observations st0 = in_observations st"
      using ok by (auto simp: st0_def) (simp add: set_failure_slot_def)
    obtain current st1 where s1: "read_exact env (sp_address v) (sp_size v) st0 = (Some current, st1)"
      and cmp: "compare_fields j v current (in_observations st1) st1 = (r, st')"
      using run r Span_Read by (auto simp: Let_def st0_def v_def split: prod.splits option.splits)
    note read = read_exact_ok [OF st0(1) s1]
    have obs: "in_observations st1 = in_observations st"
      using read_exact_frame(3) [OF s1] st0 by simp
    have fields: "\<forall>ob \<in> set (in_observations st). ob_span ob = Some j \<longrightarrow>
        take (ob_size ob) (drop (unat (ob_address ob - sp_address v)) current) = take (ob_size ob) (ob_bytes ob)"
      and later: "in_clock st1 \<le> in_clock st'"
      using compare_fields_ok [OF conjunct1 [OF read] cmp] r obs by (auto simp: same_trace_def)
    have "covers v (ob_address ?ob) (ob_size ?ob)"
      using ob span by (simp add: observation_ok_def v_def)
    from covers_block [OF this, of "env_mem env (in_clock st)"] fields k span read st0
    have "take (ob_size ?ob) (ob_bytes ?ob) = block (env_mem env (in_clock st)) (ob_address ?ob) (ob_size ?ob)"
      by simp
    with read st0 later show ?thesis
      unfolding confirmed_def by (intro exI [of _ "in_clock st"]) simp
  qed
qed

lemma recheck_items_ok:
  assumes "walk_ok env st" "recheck_items env items st = (r, st')"
  shows "walk_ok env st' \<and> same_trace st st'"
    and "r \<Longrightarrow> item \<in> set items \<Longrightarrow> k < length (in_observations st) \<Longrightarrow> serves st item k \<Longrightarrow>
      confirmed env (in_clock st) (in_clock st') (in_observations st ! k)"
proof -
  have "walk_ok env st' \<and> same_trace st st' \<and> (r \<longrightarrow> (\<forall>item \<in> set items. \<forall>k < length (in_observations st).
      serves st item k \<longrightarrow> confirmed env (in_clock st) (in_clock st') (in_observations st ! k)))"
    using assms
  proof (induction items arbitrary: st)
    case Nil
    then show ?case by (simp add: same_trace_def)
  next
    case (Cons item items)
    obtain r1 st1 where s1: "recheck_item env item st = (r1, st1)"
      by fastforce
    note one = recheck_item_ok [OF Cons.prems(1) s1]
    show ?case
    proof (cases r1)
      case False
      with s1 one(1) Cons.prems show ?thesis by simp
    next
      case True
      then have s2: "recheck_items env items st1 = (r, st')"
        using s1 Cons.prems by simp
      note two = Cons.IH [OF conjunct1 [OF one(1)] s2]
      have "same_trace st st'"
        using one two by (blast intro: same_trace_trans)
      moreover have "in_observations st1 = in_observations st" "in_clock st \<le> in_clock st1" "in_clock st1 \<le> in_clock st'"
        using one(1) two by (simp_all add: same_trace_def)
      moreover from calculation have "confirmed env (in_clock st) (in_clock st') ob"
        if "confirmed env (in_clock st1) (in_clock st') ob \<or> confirmed env (in_clock st) (in_clock st1) ob" for ob
        using that confirmed_mono [of env _ _ ob] by blast
      ultimately show ?thesis
        using two one(2) [OF True] one(1) serves_cong [of st st1]
        by auto
    qed
  qed
  then show "walk_ok env st' \<and> same_trace st st'"
    and "r \<Longrightarrow> item \<in> set items \<Longrightarrow> k < length (in_observations st) \<Longrightarrow> serves st item k \<Longrightarrow>
      confirmed env (in_clock st) (in_clock st') (in_observations st ! k)"
    by blast+
qed

lemma inspect_pool_cases:
  obtains (valid) st st' where "walk_pool env release renderer = (True, st)" "recheck env st = (True, st')"
      "inspect_pool env release renderer = publish release (in_result st')"
  | (refused) st where "walk_ok env st" "inspect_pool env release renderer = in_result st"
proof -
  obtain r st where w: "walk_pool env release renderer = (r, st)"
    by fastforce
  obtain r' st' where re: "recheck env st = (r', st')"
    by fastforce
  note ok = walk_pool_ok [OF w]
  have ok': "walk_ok env st'"
    using recheck_items_ok(1) [OF ok re [unfolded recheck_def]] by simp
  show thesis
    using valid refused w re ok ok' by (cases r; cases r') (auto simp: inspect_pool_def)
qed

lemma inspect_pool_valid:
  assumes "ps_valid (inspect_pool env release renderer)"
  obtains st st' where "walk_pool env release renderer = (True, st)" "recheck env st = (True, st')"
      "inspect_pool env release renderer = publish release (in_result st')"
  using assms by (cases rule: inspect_pool_cases [of env release renderer]) (auto simp: walk_ok_def)

subsection \<open>A well-formed pool is always published\<close>

text \<open>What the engine's memory must satisfy: the code's own admission checks, on native values.\<close>

definition queue_well_formed :: "(u64 \<Rightarrow> u8) \<Rightarrow> u64 \<Rightarrow> nat \<Rightarrow> bool" where
  "queue_well_formed m renderer q \<longleftrightarrow>
     (let offset = 2768 + 16 * of_nat q; head = block m (renderer + offset) 16;
          remaining = le32 head; count = le32 (drop 4 head); array = le64 (drop 8 head);
          capacity = (ucast count :: u64) + ucast remaining
      in pointer_range renderer offset 16 \<and> count \<le> 64 \<and> capacity \<le> 4294967295 \<and>
        \<not> (capacity \<noteq> 0 \<and> (array = 0 \<or> array mod 8 \<noteq> 0 \<or> capacity * 8 > u64_max - array)) \<and>
        \<not> (array \<noteq> 0 \<and> \<not> pointer_range array 0 8) \<and>
        list_all (\<lambda>v. pointer_range v 0 8) (native_queue m renderer q))"

definition view_well_formed :: "(u64 \<Rightarrow> u8) \<Rightarrow> u64 \<Rightarrow> bool" where
  "view_well_formed m view \<longleftrightarrow> pointer_range view 72 16 \<and> pointer_range view 23688 1 \<and>
     (let control = le64 (block m (view + 72) 16) in \<not> (control \<noteq> 0 \<and> \<not> byte_range control 28 4))"

definition pool_well_formed :: "(u64 \<Rightarrow> u8) \<Rightarrow> u64 \<Rightarrow> bool" where
  "pool_well_formed m renderer \<longleftrightarrow> pointer_range renderer 2752 8 \<and>
     pointer_range (word64_at m (renderer + 2752)) 0 64 \<and>
     list_all (view_well_formed m) (native_views m renderer) \<and> distinct (native_views m renderer) \<and>
     queue_well_formed m renderer 0 \<and> queue_well_formed m renderer 1"

definition readable :: "memory_env \<Rightarrow> bool" where
  "readable env \<longleftrightarrow> (\<forall>n a k. env_ok env n a k)"

fun item_cost :: "inspection \<Rightarrow> read_item \<Rightarrow> nat" where
  "item_cost st (Field_Read k) = (if k < length (in_observations st) then ob_size (in_observations st ! k) else 9000)"
| "item_cost st (Span_Read j) = (if j < length (in_spans st) then sp_size (in_spans st ! j) else 9000)"

text \<open>
  The room that is left after \<open>k\<close> observations and \<open>j\<close> spans at most; an item outside the
  recorded ones would cost more than the whole budget.
\<close>

definition roomy :: "nat \<Rightarrow> nat \<Rightarrow> inspection \<Rightarrow> bool" where
  "roomy k j st \<longleftrightarrow> length (in_observations st) \<le> k \<and> length (in_spans st) \<le> j \<and>
     length (in_order st) \<le> length (in_observations st) + length (in_spans st) \<and>
     ps_read_bytes (in_result st) \<le> 16 * length (in_observations st) + 64 * length (in_spans st) \<and>
     sum_list (map (item_cost st) (in_order st)) = ps_read_bytes (in_result st)"

lemma roomy_mono: "roomy k j st \<Longrightarrow> k \<le> k' \<Longrightarrow> j \<le> j' \<Longrightarrow> roomy k' j' st"
  by (simp add: roomy_def)

lemma roomy_result:
  "in_observations st' = in_observations st \<Longrightarrow> in_spans st' = in_spans st \<Longrightarrow> in_order st' = in_order st \<Longrightarrow>
   ps_read_bytes (in_result st') = ps_read_bytes (in_result st) \<Longrightarrow> roomy k j st' = roomy k j st"
proof -
  assume same: "in_observations st' = in_observations st" "in_spans st' = in_spans st"
    "in_order st' = in_order st" "ps_read_bytes (in_result st') = ps_read_bytes (in_result st)"
  then have "item_cost st' = item_cost st"
    by (intro ext) (case_tac x; simp)
  with same show ?thesis by (simp add: roomy_def)
qed

lemma roomy_simple [simp]:
  "roomy k j (set_failure_slot i st) = roomy k j st"
  "roomy k j (change_view_slot n f st) = roomy k j st"
  "roomy k j (count_examined st) = roomy k j st"
  "roomy k j (note_release v st) = roomy k j st"
  "roomy k j (st\<lparr>in_result := (in_result st)\<lparr>ps_queue_counts := c\<rparr>\<rparr>) = roomy k j st"
  "roomy k j (st\<lparr>in_result := (in_result st)\<lparr>ps_array := a\<rparr>\<rparr>) = roomy k j st"
  by (rule roomy_result;
      simp add: set_failure_slot_def change_view_slot_def count_examined_def note_release_def Let_def)+

lemma order_costs_known:
  assumes "roomy k j st" and "k \<le> maximum_observations" and "j \<le> maximum_spans"
  shows "\<forall>item \<in> set (in_order st). item_cost st item < 9000"
proof
  fix item
  assume "item \<in> set (in_order st)"
  then have "item_cost st item \<le> sum_list (map (item_cost st) (in_order st))"
    by (intro member_le_sum_list) auto
  with assms show "item_cost st item < 9000"
    by (simp add: roomy_def maximum_observations_def maximum_spans_def)
qed

lemma cost_extend:
  assumes "item_cost st item < 9000"
    and "in_observations st' = in_observations st @ obs" and "in_spans st' = in_spans st @ vs"
  shows "item_cost st' item = item_cost st item"
  using assms by (cases item) (auto simp: nth_append split: if_splits)

lemma read_exact_succeeds:
  assumes "steady env m" "readable env" "ps_read_bytes (in_result st) + n \<le> read_budget"
  shows "\<exists>st'. read_exact env a n st = (Some (block m a n), st') \<and> in_observations st' = in_observations st \<and>
    in_spans st' = in_spans st \<and> in_order st' = in_order st \<and>
    ps_read_bytes (in_result st') = ps_read_bytes (in_result st) + n \<and>
    ps_failure_slot (in_result st') = ps_failure_slot (in_result st)"
  using assms by (simp add: read_exact_def Let_def steady_def readable_def)

lemma capture_succeeds:
  assumes env: "steady env m" "readable env" and spans: "spans_hold m st"
    and room: "roomy k j st" "k < maximum_observations" "j \<le> maximum_spans" and n: "n \<in> {1, 4, 8, 16}"
  shows "\<exists>st'. capture_field env a n st = (Some (block m a n), st') \<and> spans_hold m st' \<and>
    quiet_result st' = quiet_result st \<and> roomy (k + 1) j st'"
proof -
  have fits: "length (in_observations st) < maximum_observations" "length (in_order st) < maximum_observations + maximum_spans"
    "ps_read_bytes (in_result st) + n \<le> read_budget"
    using room n by (auto simp: roomy_def maximum_observations_def maximum_spans_def read_budget_def)
  note known = order_costs_known [OF room(1) less_imp_le [OF room(2)] room(3)]
  show ?thesis
  proof (cases "first_index (\<lambda>v. covers v a n) (in_spans st)")
    case (Some i)
    define bs where "bs = take n (drop (unat (a - sp_address (in_spans st ! i))) (sp_bytes (in_spans st ! i)))"
    define st' where "st' = add_observation a n (Some i) bs st"
    have run: "capture_field env a n st = (Some bs, st')"
      using fits n Some by (auto simp: capture_field_def Let_def bs_def st'_def)
    have ext: "in_observations st' = in_observations st @ [\<lparr>ob_address = a, ob_size = n,
          ob_slot = ps_failure_slot (in_result st), ob_span = Some i, ob_bytes = bs\<rparr>]"
      "in_spans st' = in_spans st @ []" "in_order st' = in_order st" "in_result st' = in_result st"
      by (simp_all add: st'_def add_observation_def)
    have "sum_list (map (item_cost st') (in_order st)) = sum_list (map (item_cost st) (in_order st))"
      using known cost_extend [OF _ ext(1,2)] by (intro arg_cong [of _ _ sum_list] map_cong) simp_all
    then have "roomy (k + 1) j st'"
      using room(1) ext by (simp add: roomy_def)
    with run capture_steady [OF env(1) spans run] show ?thesis by blast
  next
    case None
    obtain st1 where st1: "read_exact env a n st = (Some (block m a n), st1)" "in_observations st1 = in_observations st"
      "in_spans st1 = in_spans st" "in_order st1 = in_order st"
      "ps_read_bytes (in_result st1) = ps_read_bytes (in_result st) + n"
      using read_exact_succeeds [OF env fits(3)] by blast
    define st' where "st' = add_observation a n None (block m a n)
       (st1\<lparr>in_order := in_order st1 @ [Field_Read (length (in_observations st1))]\<rparr>)"
    have run: "capture_field env a n st = (Some (block m a n), st')"
      using fits n None st1 by (auto simp: capture_field_def st'_def)
    have ext: "in_observations st' = in_observations st @ [\<lparr>ob_address = a, ob_size = n,
          ob_slot = ps_failure_slot (in_result st1), ob_span = None, ob_bytes = block m a n\<rparr>]"
      "in_spans st' = in_spans st @ []" "in_order st' = in_order st @ [Field_Read (length (in_observations st))]"
      "in_result st' = in_result st1"
      using st1 by (simp_all add: st'_def add_observation_def)
    have "sum_list (map (item_cost st') (in_order st)) = sum_list (map (item_cost st) (in_order st))"
      using known cost_extend [OF _ ext(1,2)] by (intro arg_cong [of _ _ sum_list] map_cong) simp_all
    then have "roomy (k + 1) j st'"
      using room(1) ext st1(5) n by (auto simp: roomy_def)
    with run capture_steady [OF env(1) spans run] show ?thesis by blast
  qed
qed

lemma read_span_succeeds:
  assumes env: "steady env m" "readable env" and spans: "spans_hold m st"
    and room: "roomy k j st" "k \<le> maximum_observations" "j < maximum_spans" and n: "0 < n" "n \<le> 64"
  shows "\<exists>st'. read_span env a n st = (True, st') \<and> spans_hold m st' \<and>
    quiet_result st' = quiet_result st \<and> roomy k (j + 1) st'"
proof (cases "list_ex (\<lambda>v. covers v a n) (in_spans st)")
  case True
  then have "read_span env a n st = (True, st)"
    by (simp add: read_span_def)
  with spans roomy_mono [OF room(1), of k "j + 1"] show ?thesis by simp
next
  case False
  have fits: "length (in_spans st) < maximum_spans" "length (in_order st) < maximum_observations + maximum_spans"
    "ps_read_bytes (in_result st) + n \<le> read_budget"
    using room n by (auto simp: roomy_def maximum_observations_def maximum_spans_def read_budget_def)
  note known = order_costs_known [OF room(1,2) less_imp_le [OF room(3)]]
  obtain st1 where st1: "read_exact env a n st = (Some (block m a n), st1)" "in_observations st1 = in_observations st"
    "in_spans st1 = in_spans st" "in_order st1 = in_order st"
    "ps_read_bytes (in_result st1) = ps_read_bytes (in_result st) + n"
    using read_exact_succeeds [OF env fits(3)] by blast
  define st' where "st' = st1\<lparr>in_spans := in_spans st1 @ [\<lparr>sp_address = a, sp_size = n,
                     sp_slot = ps_failure_slot (in_result st), sp_bytes = block m a n\<rparr>],
                   in_order := in_order st1 @ [Span_Read (length (in_spans st1))]\<rparr>"
  have run: "read_span env a n st = (True, st')"
    using False fits n st1 by (simp add: read_span_def st'_def span_bytes_def)
  have ext: "in_observations st' = in_observations st @ []"
    "in_spans st' = in_spans st @ [\<lparr>sp_address = a, sp_size = n,
                     sp_slot = ps_failure_slot (in_result st), sp_bytes = block m a n\<rparr>]"
    "in_order st' = in_order st @ [Span_Read (length (in_spans st))]" "in_result st' = in_result st1"
    using st1 by (simp_all add: st'_def)
  have "sum_list (map (item_cost st') (in_order st)) = sum_list (map (item_cost st) (in_order st))"
    using known cost_extend [OF _ ext(1,2)] by (intro arg_cong [of _ _ sum_list] map_cong) simp_all
  then have "roomy k (j + 1) st'"
    using room(1) ext st1(5) n by (auto simp: roomy_def)
  with run read_span_steady [OF env(1) spans run] show ?thesis by blast
qed

lemma spans_hold_simple [simp]:
  "spans_hold m (set_failure_slot i st) = spans_hold m st"
  "spans_hold m (change_view_slot n f st) = spans_hold m st"
  "spans_hold m (count_examined st) = spans_hold m st"
  "spans_hold m (note_release v st) = spans_hold m st"
  by (rule spans_hold_cong; simp)+

lemma association_succeeds:
  assumes env: "steady env m" "readable env" and spans: "spans_hold m st"
    and room: "roomy k j st" "k + 2 \<le> maximum_observations" "j < maximum_spans"
    and control: "\<not> (control \<noteq> 0 \<and> \<not> byte_range control 28 4)"
  shows "\<exists>st'. inspect_association env i control generation st = (True, st') \<and> roomy (k + 2) (j + 1) st'"
proof (cases "control = 0")
  case True
  with roomy_mono [OF room(1), of "k + 2" "j + 1"] show ?thesis
    by (simp add: inspect_association_def)
next
  case False
  obtain st1 where s1: "read_span env control 32 st = (True, st1)" "spans_hold m st1" "roomy k (j + 1) st1"
    using read_span_succeeds [OF env spans room(1) _ room(3), of 32 control] room(2) by auto
  obtain st2 where s2: "capture_field env (control + 28) 4 st1 = (Some (block m (control + 28) 4), st2)"
    "spans_hold m st2" "roomy (k + 1) (j + 1) st2"
    using capture_succeeds [OF env s1(2,3), of 4 "control + 28"] room by auto
  obtain st3 where s3: "capture_field env control 8 st2 = (Some (block m control 8), st3)"
    "spans_hold m st3" "roomy (k + 2) (j + 1) st3"
    using capture_succeeds [OF env s2(2,3), of 8 control] room by auto
  from False control s1 s2 s3 roomy_mono [OF s2(3), of "k + 2" "j + 1"] show ?thesis
    by (simp add: inspect_association_def)
qed

lemma marker_succeeds:
  assumes env: "steady env m" "readable env" and spans: "spans_hold m st"
    and room: "roomy k j st" "k < maximum_observations" "j \<le> maximum_spans"
    and view: "pointer_range view 23688 1"
  shows "\<exists>st'. inspect_marker env release i view st = (True, st') \<and> roomy (k + 1) j st'"
proof -
  obtain st1 where "capture_field env (view + 23688) 1 st = (Some (block m (view + 23688) 1), st1)" "roomy (k + 1) j st1"
    using capture_succeeds [OF env spans room, of 1 "view + 23688"] by auto
  with view roomy_mono [OF room(1), of "k + 1" j] show ?thesis
    by (simp add: inspect_marker_def)
qed

lemma slot_succeeds:
  assumes env: "steady env m" "readable env" and spans: "spans_hold m st"
    and room: "roomy k j st" "k + 5 \<le> maximum_observations" "j < maximum_spans"
    and view: "view = word64_at m (ps_array (in_result st) + of_nat i * 8)" "view_well_formed m view"
    and new: "\<forall>previous < i. vs_address (ps_slots (in_result st) ! previous) \<noteq> view"
  shows "\<exists>st'. inspect_slot env release i st = (True, st') \<and> roomy (k + 5) (j + 1) st'"
proof -
  define st0 where "st0 = set_failure_slot (int i) st"
  have st0: "spans_hold m st0" "roomy k j st0" "quiet_result st0 = quiet_result st"
    "ps_array (in_result st0) = ps_array (in_result st)"
    using spans room(1) by (simp_all add: st0_def) (simp add: set_failure_slot_def)
  obtain st1 where s1: "capture_field env (ps_array (in_result st0) + of_nat i * 8) 8 st0 =
        (Some (block m (ps_array (in_result st0) + of_nat i * 8) 8), st1)"
    "spans_hold m st1" "quiet_result st1 = quiet_result st0" "roomy (k + 1) j st1"
    using capture_succeeds [OF env st0(1,2), of 8] room by auto
  define st2 where "st2 = change_view_slot i (\<lambda>s. s\<lparr>vs_address := view\<rparr>) st1"
  have st2: "spans_hold m st2" "roomy (k + 1) j st2" "quiet_result st2 = put_slot i (\<lambda>s. s\<lparr>vs_address := view\<rparr>) (quiet_result st)"
    using s1 st0 by (simp_all add: st2_def)
  have slots: "ps_slots (in_result st2) = ps_slots (quiet_result st2)"
    by simp
  have old: "\<not> list_ex (\<lambda>previous. view = vs_address (ps_slots (in_result st2) ! previous)) [0..<i]"
    using new unfolding slots st2(3) by (auto simp: list_ex_iff put_slot_def)
  have le: "le64 (block m (ps_array (in_result st0) + of_nat i * 8) 8) = view"
    using view(1) st0(4) by (simp add: word64_at_def)
  define bs where "bs = block m (view + 72) 16"
  obtain st3 where s3: "capture_field env (view + 72) 16 st2 = (Some bs, st3)" "spans_hold m st3" "roomy (k + 2) j st3"
    using capture_succeeds [OF env st2(1,2), of 16 "view + 72"] room by (auto simp: bs_def)
  obtain st4 where s4: "inspect_association env i (le64 bs) (le32 (drop 8 bs)) st3 = (True, st4)" "roomy (k + 2 + 2) (j + 1) st4"
  proof -
    have "\<not> (le64 bs \<noteq> 0 \<and> \<not> byte_range (le64 bs) 28 4)"
      using view(2) by (simp add: bs_def view_well_formed_def Let_def)
    then show thesis
      using association_succeeds [OF env s3(2,3) _ room(3)] room(2) that by auto
  qed
  have "spans_hold m (change_view_slot i settle_slot st4)"
    using association_steady [OF env(1) s3(2) s4(1)] by (simp add: does_def)
  moreover have "roomy (k + 4) (j + 1) (change_view_slot i settle_slot st4)"
    using s4(2) by (simp add: roomy_mono)
  moreover have "k + 4 < maximum_observations" "j + 1 \<le> maximum_spans" "pointer_range view 23688 1"
    using room view(2) by (simp_all add: view_well_formed_def)
  ultimately obtain st5 where s5: "inspect_marker env release i view (change_view_slot i settle_slot st4) = (True, st5)"
    and room5: "roomy (k + 4 + 1) (j + 1) st5"
    using marker_succeeds [OF env] by blast
  have "roomy (k + 5) (j + 1) st5"
    by (rule roomy_mono [OF room5]) simp_all
  then have "roomy (k + 5) (j + 1) (count_examined st5)"
    by simp
  moreover have "inspect_slot env release i st = (True, count_examined st5)"
    using s1(1) le old s3(1) s4(1) s5 view(2)
    unfolding inspect_slot_def Let_def st0_def [symmetric] st2_def
    by (simp add: view_well_formed_def)
  ultimately show ?thesis by blast
qed

lemma inspect_slots_append:
  "inspect_slots env release (xs @ ys) st =
     (case inspect_slots env release xs st of (False, st') \<Rightarrow> (False, st')
      | (True, st') \<Rightarrow> inspect_slots env release ys st')"
  by (induction xs arbitrary: st) (auto split: prod.splits bool.splits)

lemma fold_put_nth:
  "ps_array (fold (\<lambda>i. put_slot i (g i)) [0..<n] p) = ps_array p"
  "length (ps_slots (fold (\<lambda>i. put_slot i (g i)) [0..<n] p)) = length (ps_slots p)"
  "i < n \<Longrightarrow> n \<le> length (ps_slots p) \<Longrightarrow>
   ps_slots (fold (\<lambda>i. put_slot i (g i)) [0..<n] p) ! i = g i (ps_slots p ! i)"
proof -
  have len: "length (ps_slots (fold (\<lambda>i. put_slot i (g i)) [0..<n] p)) = length (ps_slots p)" for n
    by (induction n) (simp_all add: put_slot_def)
  show "length (ps_slots (fold (\<lambda>i. put_slot i (g i)) [0..<n] p)) = length (ps_slots p)"
    by (rule len)
  show "ps_array (fold (\<lambda>i. put_slot i (g i)) [0..<n] p) = ps_array p"
    by (induction n) simp_all
  have later: "n \<le> k \<Longrightarrow> ps_slots (fold (\<lambda>i. put_slot i (g i)) [0..<n] p) ! k = ps_slots p ! k" for k n
    by (induction n) (simp_all add: put_slot_def)
  show "i < n \<Longrightarrow> n \<le> length (ps_slots p) \<Longrightarrow>
   ps_slots (fold (\<lambda>i. put_slot i (g i)) [0..<n] p) ! i = g i (ps_slots p ! i)"
  proof (induction n)
    case 0
    then show ?case by simp
  next
    case (Suc n)
    define q where "q = fold (\<lambda>i. put_slot i (g i)) [0..<n] p"
    have q: "length (ps_slots q) = length (ps_slots p)" "ps_slots q ! n = ps_slots p ! n"
      "i < n \<Longrightarrow> ps_slots q ! i = g i (ps_slots p ! i)"
      using later [of n n] len [of n] Suc unfolding q_def by simp_all
    have step: "fold (\<lambda>i. put_slot i (g i)) [0..<Suc n] p = put_slot n (g n) q"
      by (simp add: q_def)
    show ?case
      unfolding step using q Suc.prems
      by (cases "i = n") (simp_all add: put_slot_def)
  qed
qed

lemma slots_succeed:
  assumes env: "steady env m" "readable env" and base: "spans_hold m st" "roomy 1 1 st"
    and array: "ps_array (in_result st) = word64_at m (renderer + 2752)" "length (ps_slots (in_result st)) = 8"
    and wf: "list_all (view_well_formed m) (native_views m renderer)" "distinct (native_views m renderer)"
    and "n \<le> 8"
  shows "\<exists>st'. inspect_slots env True [0..<n] st = (True, st') \<and> roomy (1 + 5 * n) (1 + n) st'"
  using \<open>n \<le> 8\<close>
proof (induction n)
  case 0
  with base show ?case by simp
next
  case (Suc n)
  then obtain st1 where s1: "inspect_slots env True [0..<n] st = (True, st1)" and room: "roomy (1 + 5 * n) (1 + n) st1"
    by auto
  define g where "g = (\<lambda>i. native_slot m True (word64_at m (ps_array (in_result st) + of_nat i * 8)))"
  have steady1: "spans_hold m st1" "quiet_result st1 = fold (\<lambda>i. put_slot i (g i)) [0..<n] (quiet_result st)"
    using slots_steady [OF env(1) base(1) s1] by (simp_all add: does_def g_def)
  have views: "native_views m renderer ! i = word64_at m (ps_array (in_result st) + of_nat i * 8)" if "i < 8" for i
    using that array(1) by (simp add: native_views_def)
  have len: "length (native_views m renderer) = 8"
    by (simp add: native_views_def)
  have "ps_array (quiet_result st1) = ps_array (in_result st)"
    unfolding steady1(2) fold_put_nth by simp
  then have array1: "ps_array (in_result st1) = ps_array (in_result st)"
    by simp
  have address: "vs_address (ps_slots (in_result st1) ! i) = native_views m renderer ! i" if "i < n" for i
  proof -
    have "ps_slots (quiet_result st1) ! i = g i (ps_slots (quiet_result st) ! i)"
      unfolding steady1(2) using that Suc.prems array(2) by (intro fold_put_nth) simp_all
    then have "vs_address (ps_slots (in_result st1) ! i) = vs_address (g i (ps_slots (in_result st) ! i))"
      by simp
    with that Suc.prems views [of i] show ?thesis
      by (simp add: g_def native_slot_def Let_def)
  qed
  have "\<exists>st'. inspect_slot env True n st1 = (True, st') \<and> roomy (1 + 5 * n + 5) (1 + n + 1) st'"
  proof (rule slot_succeeds [OF env steady1(1) room])
    show "1 + 5 * n + 5 \<le> maximum_observations" "1 + n < maximum_spans"
      using Suc.prems by (simp_all add: maximum_observations_def maximum_spans_def)
    show "native_views m renderer ! n = word64_at m (ps_array (in_result st1) + word_of_nat n * 8)"
      using views [of n] Suc.prems array1 by simp
    show "view_well_formed m (native_views m renderer ! n)"
      using wf(1) Suc.prems len by (simp add: list_all_length)
    show "\<forall>previous<n. vs_address (ps_slots (in_result st1) ! previous) \<noteq> native_views m renderer ! n"
      using address wf(2) Suc.prems len by (auto simp: distinct_conv_nth)
  qed
  then obtain st2 where "inspect_slot env True n st1 = (True, st2)" "roomy (1 + 5 * n + 5) (1 + n + 1) st2"
    by blast
  with s1 show ?case
    by (auto simp: inspect_slots_append intro!: roomy_mono)
qed

lemma entries_succeed:
  assumes env: "steady env m" "readable env"
    and "spans_hold m st" "roomy k j st" "k + length is \<le> maximum_observations" and j: "j \<le> maximum_spans"
    and "list_all (\<lambda>v. pointer_range v 0 8) (queue_entries m array is)"
  shows "\<exists>st'. inspect_entries env array is st = (True, st') \<and> roomy (k + length is) j st'"
  using assms(3-5,7)
proof (induction "is" arbitrary: st k)
  case Nil
  then show ?case by simp
next
  case (Cons i "is")
  define v where "v = word64_at m (array + of_nat i * 8)"
  obtain st1 where s1: "capture_field env (array + of_nat i * 8) 8 st = (Some (block m (array + of_nat i * 8) 8), st1)"
    "spans_hold m st1" "roomy (k + 1) j st1"
    using capture_succeeds [OF env Cons.prems(1,2) _ j, of 8 "array + of_nat i * 8"] Cons.prems(3) by auto
  have v: "le64 (block m (array + of_nat i * 8) 8) = v" "pointer_range v 0 8"
    using Cons.prems(4) by (simp_all add: v_def word64_at_def queue_entries_def)
  have "\<exists>st'. inspect_entries env array is (note_release v st1) = (True, st') \<and> roomy (k + 1 + length is) j st'"
    using s1 Cons.prems(3,4) by (intro Cons.IH) (simp_all add: queue_entries_def)
  with s1(1) v show ?case by simp
qed

lemma queue_succeeds:
  assumes env: "steady env m" "readable env"
    and spans: "spans_hold m st" and room: "roomy k j st" "k + 65 \<le> maximum_observations" "j \<le> maximum_spans"
    and wf: "queue_well_formed m renderer q"
  shows "\<exists>st'. inspect_queue env renderer q st = (True, st') \<and> roomy (k + 65) j st'"
proof -
  define offset :: u64 where "offset = 2768 + 16 * of_nat q"
  define head where "head = block m (renderer + offset) 16"
  define st0 where "st0 = set_failure_slot (-1) st"
  have st0: "spans_hold m st0" "roomy k j st0"
    using spans room(1) by (simp_all add: st0_def)
  obtain st1 where s1: "capture_field env (renderer + offset) 16 st0 = (Some head, st1)" "spans_hold m st1" "roomy (k + 1) j st1"
    using capture_succeeds [OF env st0, of 16 "renderer + offset"] room(2,3) unfolding head_def by auto
  define count where "count = le32 (drop 4 head)"
  define st2 where "st2 = st1\<lparr>in_result := (in_result st1)\<lparr>ps_queue_counts :=
     (ps_queue_counts (in_result st1))[q := unat count]\<rparr>\<rparr>"
  have st2: "spans_hold m st2" "roomy (k + 1) j st2"
    using s1 by (simp_all add: st2_def spans_hold_def)
  have few: "unat count \<le> 64"
    using wf by (simp add: queue_well_formed_def Let_def count_def head_def offset_def word_le_nat_alt)
  have "list_all (\<lambda>v. pointer_range v 0 8) (queue_entries m (le64 (drop 8 head)) [0..<unat count])"
    using wf by (simp add: queue_well_formed_def Let_def count_def head_def offset_def native_queue_def)
  moreover have "k + 1 + length [0..<unat count] \<le> maximum_observations"
    using few room(2) by simp
  ultimately obtain st3 where s3: "inspect_entries env (le64 (drop 8 head)) [0..<unat count] st2 = (True, st3)"
    and room3: "roomy (k + 1 + length [0..<unat count]) j st3"
    using entries_succeed [OF env st2 _ room(3)] by blast
  have "inspect_queue env renderer q st = (True, st3)"
    using wf s1(1) s3
    by (simp add: inspect_queue_def queue_well_formed_def Let_def offset_def head_def st0_def count_def st2_def not_less)
  moreover have "roomy (k + 65) j st3"
    by (rule roomy_mono [OF room3]) (use few in simp_all)
  ultimately show ?thesis by blast
qed

lemma compare_fields_succeed:
  "\<forall>ob \<in> set obs. ob_span ob = Some j \<longrightarrow>
     take (ob_size ob) (drop (unat (ob_address ob - sp_address v)) current) = take (ob_size ob) (ob_bytes ob) \<Longrightarrow>
   \<exists>st'. compare_fields j v current obs st = (True, st') \<and>
     ps_read_bytes (in_result st') = ps_read_bytes (in_result st)"
proof (induction obs arbitrary: st)
  case Nil
  then show ?case by simp
next
  case (Cons ob obs)
  have "ps_read_bytes (in_result (set_failure_slot s st)) = ps_read_bytes (in_result st)" for s
    by (simp add: set_failure_slot_def)
  with Cons.prems Cons.IH [of st] Cons.IH [of "set_failure_slot (ob_slot ob) st"] show ?case
    by auto
qed

lemma item_cost_cong: "same_trace st st' \<Longrightarrow> item_cost st' item = item_cost st item"
  by (cases item) (simp_all add: same_trace_def)

lemma recheck_item_succeeds:
  assumes env: "steady env m" "readable env" and ok: "walk_ok env st"
    and cost: "item_cost st item < 9000" "ps_read_bytes (in_result st) + item_cost st item \<le> read_budget"
  shows "\<exists>st'. recheck_item env item st = (True, st') \<and>
    ps_read_bytes (in_result st') = ps_read_bytes (in_result st) + item_cost st item"
proof (cases item)
  case (Field_Read k)
  with cost(1) have k: "k < length (in_observations st)" by (auto split: if_splits)
  let ?ob = "in_observations st ! k"
  have bytes: "ob_bytes ?ob = block m (ob_address ?ob) (ob_size ?ob)"
    using ok k env(1) by (auto simp: walk_ok_def observation_ok_def first_read_def steady_def)
  have b0: "ps_read_bytes (in_result (set_failure_slot (ob_slot ?ob) st)) = ps_read_bytes (in_result st)"
    by (simp add: set_failure_slot_def)
  obtain st1 where "read_exact env (ob_address ?ob) (ob_size ?ob) (set_failure_slot (ob_slot ?ob) st) =
      (Some (block m (ob_address ?ob) (ob_size ?ob)), st1)"
    "ps_read_bytes (in_result st1) = ps_read_bytes (in_result st) + ob_size ?ob"
    using read_exact_succeeds [OF env, of "set_failure_slot (ob_slot ?ob) st"] cost(2) k Field_Read b0 by auto
  with Field_Read k bytes show ?thesis by (simp add: Let_def)
next
  case (Span_Read j)
  with cost(1) have j: "j < length (in_spans st)" by (auto split: if_splits)
  let ?v = "in_spans st ! j"
  have b0: "ps_read_bytes (in_result (set_failure_slot (sp_slot ?v) st)) = ps_read_bytes (in_result st)"
    by (simp add: set_failure_slot_def)
  obtain st1 where s1: "read_exact env (sp_address ?v) (sp_size ?v) (set_failure_slot (sp_slot ?v) st) =
      (Some (block m (sp_address ?v) (sp_size ?v)), st1)"
    "ps_read_bytes (in_result st1) = ps_read_bytes (in_result st) + sp_size ?v"
    "in_observations st1 = in_observations st"
    using read_exact_succeeds [OF env, of "set_failure_slot (sp_slot ?v) st"] cost(2) j Span_Read b0 by auto
  have "take (ob_size ob) (drop (unat (ob_address ob - sp_address ?v)) (block m (sp_address ?v) (sp_size ?v))) =
      take (ob_size ob) (ob_bytes ob)" if "ob \<in> set (in_observations st)" "ob_span ob = Some j" for ob
  proof -
    have "covers ?v (ob_address ob) (ob_size ob)" "ob_bytes ob = block m (ob_address ob) (ob_size ob)"
      using ok that env(1)
      by (auto simp: walk_ok_def observation_ok_def first_read_def steady_def in_set_conv_nth)
    with covers_block [of ?v "ob_address ob" "ob_size ob" m] show ?thesis by simp
  qed
  then obtain st2 where "compare_fields j ?v (block m (sp_address ?v) (sp_size ?v)) (in_observations st) st1 = (True, st2)"
    "ps_read_bytes (in_result st2) = ps_read_bytes (in_result st1)"
    using compare_fields_succeed by blast
  with s1 Span_Read j show ?thesis by (simp add: Let_def)
qed

lemma recheck_items_succeed:
  assumes env: "steady env m" "readable env"
    and "walk_ok env st" "\<forall>item \<in> set items. item_cost st item < 9000"
      "ps_read_bytes (in_result st) + sum_list (map (item_cost st) items) \<le> read_budget"
  shows "\<exists>st'. recheck_items env items st = (True, st')"
  using assms(3-5)
proof (induction items arbitrary: st)
  case Nil
  then show ?case by simp
next
  case (Cons item items)
  have "item_cost st item < 9000" "ps_read_bytes (in_result st) + item_cost st item \<le> read_budget"
    using Cons.prems(2,3) by simp_all
  then obtain st1 where s1: "recheck_item env item st = (True, st1)"
    "ps_read_bytes (in_result st1) = ps_read_bytes (in_result st) + item_cost st item"
    using recheck_item_succeeds [OF env Cons.prems(1)] by blast
  have same: "walk_ok env st1" "item_cost st1 = item_cost st"
    using recheck_item_ok(1) [OF Cons.prems(1) s1(1)] by (auto simp: item_cost_cong)
  have "\<exists>st'. recheck_items env items st1 = (True, st')"
    using Cons.prems(2,3) s1(2) same by (intro Cons.IH) simp_all
  with s1(1) show ?case by simp
qed

lemma array_succeeds:
  assumes env: "steady env m" "readable env" and wf: "pool_well_formed m renderer"
  shows "\<exists>st. inspect_array env renderer new_inspection = (True, st) \<and> spans_hold m st \<and> roomy 1 1 st \<and>
    ps_array (in_result st) = word64_at m (renderer + 2752) \<and> length (ps_slots (in_result st)) = 8"
proof -
  have base: "spans_hold m new_inspection" "roomy 0 0 new_inspection" "ps_slots (in_result new_inspection) = map new_slot [0..<8]"
    by (simp_all add: spans_hold_def roomy_def new_inspection_def new_snapshot_def)
  obtain st0 where s0: "capture_field env (renderer + 2752) 8 new_inspection = (Some (block m (renderer + 2752) 8), st0)"
    "spans_hold m st0" "quiet_result st0 = quiet_result new_inspection" "roomy 1 0 st0"
    using capture_succeeds [OF env base(1,2), of 8 "renderer + 2752"]
    by (auto simp: maximum_observations_def maximum_spans_def)
  define array where "array = word64_at m (renderer + 2752)"
  define st1 where "st1 = st0\<lparr>in_result := (in_result st0)\<lparr>ps_array := array\<rparr>\<rparr>"
  have st1: "spans_hold m st1" "roomy 1 0 st1"
    using s0 by (simp_all add: st1_def spans_hold_def)
  obtain st2 where s2: "read_span env array 64 st1 = (True, st2)" "spans_hold m st2"
    "quiet_result st2 = quiet_result st1" "roomy 1 1 st2"
    using read_span_succeeds [OF env st1, of 64 array] by (auto simp: maximum_observations_def maximum_spans_def)
  have "ps_array (quiet_result st2) = array" "ps_slots (quiet_result st2) = ps_slots (quiet_result new_inspection)"
    unfolding s2(3) st1_def s0(3) [symmetric] by (simp_all add: quiet_array del: quiet_fields)
  then have "ps_array (in_result st2) = array" "length (ps_slots (in_result st2)) = 8"
    using base(3) by simp_all
  moreover have "inspect_array env renderer new_inspection = (True, st2)"
    using s0(1) s2(1) wf by (simp add: inspect_array_def Let_def pool_well_formed_def st1_def array_def word64_at_def)
  ultimately show ?thesis
    using s2 array_def by blast
qed

lemma walk_succeeds:
  assumes env: "steady env m" "readable env" and wf: "pool_well_formed m renderer"
  shows "\<exists>st. walk_pool env True renderer = (True, st) \<and> roomy maximum_observations maximum_spans st"
proof -
  obtain st1 where s1: "inspect_array env renderer new_inspection = (True, st1)" "spans_hold m st1" "roomy 1 1 st1"
    "ps_array (in_result st1) = word64_at m (renderer + 2752)" "length (ps_slots (in_result st1)) = 8"
    using array_succeeds [OF assms] by blast
  obtain st2 where s2: "inspect_slots env True [0..<8] st1 = (True, st2)" "roomy (1 + 5 * 8) (1 + 8) st2"
    using slots_succeed [OF env s1(2-5), of 8] wf unfolding pool_well_formed_def by blast
  have h2: "spans_hold m st2"
    using slots_steady [OF env(1) s1(2) s2(1)] by (simp add: does_def)
  obtain st3 where s3: "inspect_queue env renderer 0 st2 = (True, st3)" "roomy (1 + 5 * 8 + 65) (1 + 8) st3"
    using queue_succeeds [OF env h2 s2(2), of renderer 0] wf
    by (auto simp: pool_well_formed_def maximum_observations_def maximum_spans_def)
  have h3: "spans_hold m st3"
    using queue_steady [OF env(1) h2 s3(1)] by (simp add: does_def)
  obtain st4 where s4: "inspect_queue env renderer 1 st3 = (True, st4)" "roomy (1 + 5 * 8 + 65 + 65) (1 + 8) st4"
    using queue_succeeds [OF env h3 s3(2), of renderer 1] wf
    by (auto simp: pool_well_formed_def maximum_observations_def maximum_spans_def)
  have "walk_pool env True renderer = (True, st4)"
    using wf s1(1) s2(1) s3(1) s4(1) by (simp add: walk_pool_def pool_well_formed_def inspect_queues_def)
  moreover have "roomy maximum_observations maximum_spans st4"
    by (rule roomy_mono [OF s4(2)]) (simp_all add: maximum_observations_def maximum_spans_def)
  ultimately show ?thesis by blast
qed

lemma inspection_succeeds:
  assumes env: "steady env m" "readable env" and wf: "pool_well_formed m renderer"
  shows "\<exists>p. inspect_pool env True renderer = publish True p"
proof -
  obtain st where w: "walk_pool env True renderer = (True, st)" and room: "roomy maximum_observations maximum_spans st"
    using walk_succeeds [OF assms] by blast
  have "ps_read_bytes (in_result st) + sum_list (map (item_cost st) (in_order st)) \<le> read_budget"
    using room by (simp add: roomy_def maximum_observations_def maximum_spans_def read_budget_def)
  with order_costs_known [OF room] recheck_items_succeed [OF env walk_pool_ok [OF w]]
  obtain st' where "recheck env st = (True, st')"
    unfolding recheck_def by blast
  with w have "inspect_pool env True renderer = publish True (in_result st')"
    by (simp add: inspect_pool_def)
  then show ?thesis ..
qed

subsection \<open>Properties\<close>

text \<open>C11: A well-formed pool is always published.  When the engine's memory does not change, can be
  read and passes the code's own range and queue checks, the creation inspection ends with a valid
  snapshot: for no contents of the pool and of the two release queues do the fixed capacities of 171
  observations and 9 spans, or the budget of 8192 bytes for both passes, run out.\<close>

theorem well_formed_pool_published:
  assumes env: "steady env m" "readable env" and wf: "pool_well_formed m renderer"
  shows "ps_valid (inspect_view_creation_pool env renderer) \<and>
    ps_status (inspect_view_creation_pool env renderer) = Complete \<and>
    ps_release_checked (inspect_view_creation_pool env renderer)"
  using inspection_succeeds [OF assms] by (auto simp: inspect_view_creation_pool_def publish_def)

text \<open>A small pool: the array at 0x4000, eight views at multiples of 0x10000, empty queues.\<close>

definition demo_memory :: "u64 \<Rightarrow> u8" where
  "demo_memory a = (case map_of [(2761, 0x40), (0x4002, 1), (0x400A, 2), (0x4012, 3), (0x401A, 4),
     (0x4022, 5), (0x402A, 6), (0x4032, 7), (0x403A, 8)] a of Some b \<Rightarrow> b | None \<Rightarrow> 0)"

definition demo_env :: memory_env where
  "demo_env = \<lparr>env_mem = (\<lambda>_. demo_memory), env_ok = (\<lambda>_ _ _. True)\<rparr>"

lemma demo_env_simple: "steady demo_env demo_memory" "readable demo_env"
  by (simp_all add: steady_def readable_def demo_env_def)

lemma demo_views:
  "native_views demo_memory 8 = [0x10000, 0x20000, 0x30000, 0x40000, 0x50000, 0x60000, 0x70000, 0x80000]"
  by (simp add: native_views_def word64_at_def le64_def le32_def block_def demo_memory_def upt_conv_Cons)

lemma demo_array: "word64_at demo_memory 2760 = 0x4000"
  by (simp add: word64_at_def le64_def le32_def block_def demo_memory_def upt_conv_Cons)

lemma demo_heads: 
  "block demo_memory 2776 16 = [0, 0, 0, 0, 0, 0, 0, 0, 0, 0, 0, 0, 0, 0, 0, 0]"
  "block demo_memory 2792 16 = [0, 0, 0, 0, 0, 0, 0, 0, 0, 0, 0, 0, 0, 0, 0, 0]"
  by (simp_all add: block_def demo_memory_def upt_conv_Cons)

lemma demo_far: "0x5000 < a \<Longrightarrow> demo_memory a = 0"
  by (auto simp: demo_memory_def)

lemma demo_zero:
  "block demo_memory 0x10048 16 = [0, 0, 0, 0, 0, 0, 0, 0, 0, 0, 0, 0, 0, 0, 0, 0]"
  "block demo_memory 0x20048 16 = [0, 0, 0, 0, 0, 0, 0, 0, 0, 0, 0, 0, 0, 0, 0, 0]"
  "block demo_memory 0x30048 16 = [0, 0, 0, 0, 0, 0, 0, 0, 0, 0, 0, 0, 0, 0, 0, 0]"
  "block demo_memory 0x40048 16 = [0, 0, 0, 0, 0, 0, 0, 0, 0, 0, 0, 0, 0, 0, 0, 0]"
  "block demo_memory 0x50048 16 = [0, 0, 0, 0, 0, 0, 0, 0, 0, 0, 0, 0, 0, 0, 0, 0]"
  "block demo_memory 0x60048 16 = [0, 0, 0, 0, 0, 0, 0, 0, 0, 0, 0, 0, 0, 0, 0, 0]"
  "block demo_memory 0x70048 16 = [0, 0, 0, 0, 0, 0, 0, 0, 0, 0, 0, 0, 0, 0, 0, 0]"
  "block demo_memory 0x80048 16 = [0, 0, 0, 0, 0, 0, 0, 0, 0, 0, 0, 0, 0, 0, 0, 0]"
  by (simp_all add: block_def demo_far upt_conv_Cons)

lemma demo_queues: "native_queued demo_memory 8 = []"
  by (simp add: native_queued_def native_queue_def queue_entries_def demo_heads Let_def le32_def)

lemma demo_well_formed: "pool_well_formed demo_memory 8"
proof -
  have views: "view_well_formed demo_memory v" if "v \<in> set (native_views demo_memory 8)" for v
  proof -
    from that have "le64 (block demo_memory (v + 72) 16) = 0"
      by (auto simp: demo_views demo_zero le64_def le32_def)
    with that show ?thesis
      by (auto simp: demo_views view_well_formed_def pointer_range_def byte_range_def word_le_def uint_word_ariths)
  qed
  have queue: "queue_well_formed demo_memory 8 q" if "q = 0 \<or> q = 1" for q
    using that by (auto simp: queue_well_formed_def Let_def demo_heads le32_def le64_def
        pointer_range_def byte_range_def native_queue_def queue_entries_def)
  show ?thesis
    unfolding pool_well_formed_def
    using views queue by (simp add: list_all_iff) (simp add: demo_views demo_array pointer_range_def byte_range_def)
qed

lemma demo_valid: "ps_valid (inspect_pool demo_env True 8)"
  using inspection_succeeds [OF demo_env_simple demo_well_formed] by (auto simp: publish_def)

lemma well_formed_pool_published_witness:
  "ps_valid (inspect_view_creation_pool demo_env 8) \<and>
    ps_status (inspect_view_creation_pool demo_env 8) = Complete \<and>
    ps_release_checked (inspect_view_creation_pool demo_env 8)"
  using well_formed_pool_published [OF demo_env_simple demo_well_formed] .

text \<open>A snapshot is published only after every field was read twice with the same bytes.
  Whatever the memory does between any two reads, a valid inspection walked the whole pool, and
  each field it captured was read once in that walk and again after the end of it with the same
  result, within the budget of 8192 attempted bytes.\<close>

theorem published_fields_read_twice:
  assumes "ps_valid (inspect_pool env release renderer)"
  shows "\<exists>st. walk_pool env release renderer = (True, st) \<and>
    (\<forall>ob \<in> set (in_observations st).
      (\<exists>t < in_clock st. ob_bytes ob = block (env_mem env t) (ob_address ob) (ob_size ob)) \<and>
      (\<exists>t \<ge> in_clock st. ob_bytes ob = block (env_mem env t) (ob_address ob) (ob_size ob))) \<and>
    ps_read_bytes (inspect_pool env release renderer) \<le> 8192"
proof -
  obtain st st' where w: "walk_pool env release renderer = (True, st)" and re: "recheck env st = (True, st')"
    and pub: "inspect_pool env release renderer = publish release (in_result st')"
    using inspect_pool_valid [OF assms] by blast
  note ok = walk_pool_ok [OF w]
  note again = recheck_items_ok [OF ok re [unfolded recheck_def]]
  have twice: "(\<exists>t < in_clock st. ob_bytes ob = block (env_mem env t) (ob_address ob) (ob_size ob)) \<and>
      (\<exists>t \<ge> in_clock st. ob_bytes ob = block (env_mem env t) (ob_address ob) (ob_size ob))"
    if mem: "ob \<in> set (in_observations st)" for ob
  proof -
    obtain k where k: "k < length (in_observations st)" "ob = in_observations st ! k"
      using mem unfolding in_set_conv_nth by metis
    then have obs: "observation_ok env st k ob"
      using ok by (simp add: walk_ok_def)
    have "\<exists>item \<in> set (in_order st). serves st item k"
    proof (cases "ob_span ob")
      case None
      with obs show ?thesis
        by (intro bexI [of _ "Field_Read k"]) (simp_all add: observation_ok_def)
    next
      case (Some j)
      with obs ok have "Span_Read j \<in> set (in_order st)"
        by (auto simp: observation_ok_def walk_ok_def span_ok_def)
      with Some k show ?thesis
        by (intro bexI [of _ "Span_Read j"]) simp_all
    qed
    then have "confirmed env (in_clock st) (in_clock st') ob"
      using again(2) k by auto
    then obtain t2 where t2: "in_clock st \<le> t2"
      "take (ob_size ob) (ob_bytes ob) = block (env_mem env t2) (ob_address ob) (ob_size ob)"
      by (auto simp: confirmed_def)
    obtain t1 where t1: "t1 < in_clock st" "ob_bytes ob = block (env_mem env t1) (ob_address ob) (ob_size ob)"
      using obs by (auto simp: observation_ok_def first_read_def)
    then have "take (ob_size ob) (ob_bytes ob) = ob_bytes ob"
      by simp
    with t1 t2 show ?thesis by metis
  qed
  have "ps_read_bytes (fold count_free ss p) = ps_read_bytes p" for ss p
    by (induction ss arbitrary: p) (simp_all add: count_free_def)
  then have "ps_read_bytes (inspect_pool env release renderer) \<le> 8192"
    using again(1) by (simp add: pub publish_def walk_ok_def read_budget_def)
  with w twice show ?thesis by blast
qed

lemma published_fields_read_twice_witness:
  "\<exists>st. walk_pool demo_env True 8 = (True, st) \<and>
    (\<forall>ob \<in> set (in_observations st).
      (\<exists>t < in_clock st. ob_bytes ob = block (env_mem demo_env t) (ob_address ob) (ob_size ob)) \<and>
      (\<exists>t \<ge> in_clock st. ob_bytes ob = block (env_mem demo_env t) (ob_address ob) (ob_size ob))) \<and>
    ps_read_bytes (inspect_pool demo_env True 8) \<le> 8192"
  using published_fields_read_twice [of demo_env True 8] demo_valid by blast

lemma compare_fields_quiet: "compare_fields j v current obs st = (r, st') \<Longrightarrow> quiet_result st' = quiet_result st"
  by (induction obs arbitrary: st) (auto simp: Let_def split: if_splits)

lemma recheck_items_quiet: "recheck_items env items st = (r, st') \<Longrightarrow> quiet_result st' = quiet_result st"
proof (induction items arbitrary: st)
  case Nil
  then show ?case by simp
next
  case (Cons item items)
  have "quiet_result st1 = quiet_result st" if "recheck_item env item st = (r1, st1)" for r1 st1
    using that by (cases item)
      (auto simp: Let_def split: prod.splits option.splits if_splits
        dest!: read_exact_frame(2) compare_fields_quiet)
  with Cons show ?case
    by (auto split: prod.splits bool.splits)
qed

text \<open>A valid creation snapshot of one steady memory.\<close>

lemma creation_snapshot:
  assumes "steady env m" and valid: "ps_valid (inspect_view_creation_pool env renderer)"
  obtains p where "inspect_view_creation_pool env renderer = publish True p"
    "ps_slots p = map (\<lambda>i. (native_slot m True (native_views m renderer ! i) (new_slot i))
             \<lparr>vs_release_queued := native_views m renderer ! i \<in> set (native_queued m renderer)\<rparr>) [0..<8]"
    "take (ps_release_count p) (ps_release_views p) = native_queued m renderer"
    "ps_release_count p = length (native_queued m renderer)"
    "ps_free_count p = 0" "ps_first_free p = replicate 4 (-1)"
proof -
  obtain st st' where w: "walk_pool env True renderer = (True, st)" and re: "recheck env st = (True, st')"
    and pub: "inspect_view_creation_pool env renderer = publish True (in_result st')"
    using inspect_pool_valid valid unfolding inspect_view_creation_pool_def by blast
  have q: "quiet_result st' = quiet_result st"
    using recheck_items_quiet re unfolding recheck_def by blast
  have same: "ps_slots (in_result st') = ps_slots (in_result st)" "ps_free_count (in_result st') = ps_free_count (in_result st)"
    "ps_release_views (in_result st') = ps_release_views (in_result st)"
    "ps_release_count (in_result st') = ps_release_count (in_result st)" "ps_first_free (in_result st') = ps_first_free (in_result st)"
    using q by (metis quiet_fields(2), metis quiet_fields(5), metis quiet_fields(3), metis quiet_fields(4), metis quiet_fields(6))
  show thesis
    using walk_steady [OF assms(1) w] unfolding same [symmetric] by (intro that [OF pub]) blast+
qed

text \<open>The slots of such a snapshot, by the native predicates.\<close>

lemma creation_slots:
  assumes slots: "ps_slots p = map (\<lambda>i. (native_slot m True (native_views m renderer ! i) (new_slot i))
             \<lparr>vs_release_queued := native_views m renderer ! i \<in> set (native_queued m renderer)\<rparr>) [0..<8]"
  shows "s \<in> set (ps_slots p) \<Longrightarrow> ps_slots p ! vs_index s = s \<and> vs_index s < length (ps_slots p) \<and>
      vs_free s = native_free m (vs_address s) \<and> vs_release_pending s = native_marked m (vs_address s) \<and>
      vs_release_queued s = (vs_address s \<in> set (native_queued m renderer))"
    and "map vs_address (ps_slots p) = native_views m renderer"
    and "map vs_address (filter vs_free (ps_slots p)) = filter (native_free m) (native_views m renderer)"
proof -
  show slot: "ps_slots p ! vs_index s = s \<and> vs_index s < length (ps_slots p) \<and>
      vs_free s = native_free m (vs_address s) \<and> vs_release_pending s = native_marked m (vs_address s) \<and>
      vs_release_queued s = (vs_address s \<in> set (native_queued m renderer))"
    if "s \<in> set (ps_slots p)" for s
    using that unfolding slots by (auto simp: native_slot_def new_slot_def Let_def)
  show views: "map vs_address (ps_slots p) = native_views m renderer"
    by (rule nth_equalityI) (simp_all add: slots native_slot_def Let_def, simp_all add: native_views_def)
  have "filter vs_free (ps_slots p) = filter (\<lambda>s. native_free m (vs_address s)) (ps_slots p)"
    by (rule filter_cong) (use slot in auto)
  then show "map vs_address (filter vs_free (ps_slots p)) = filter (native_free m) (native_views m renderer)"
    by (simp add: views [symmetric] filter_map comp_def)
qed

text \<open>C10: Creation capacity is native capacity.  On a memory that does not change, a snapshot
  admits the creation of \<open>n\<close> views exactly when it is valid, \<open>n\<close> is between 1 and 4, at least \<open>n\<close> of
  the eight existing views are free by the engine's own association rule (null control, stale
  generation or null payload), and none of the first \<open>n\<close> free views, the ones the engine will
  select, carries the release marker or is still in one of the two release queues.\<close>

theorem creation_capacity_is_native:
  assumes "steady env m"
  shows "creation_available (inspect_view_creation_pool env renderer) n \<longleftrightarrow>
    ps_valid (inspect_view_creation_pool env renderer) \<and> 0 < n \<and> n \<le> 4 \<and>
    (let free = filter (native_free m) (native_views m renderer) in
      n \<le> length free \<and> list_all (\<lambda>v. \<not> native_marked m v \<and> v \<notin> set (native_queued m renderer)) (take n free))"
proof (cases "ps_valid (inspect_view_creation_pool env renderer)")
  case False
  then show ?thesis by (simp add: creation_available_def)
next
  case valid: True
  obtain p where pub: "inspect_view_creation_pool env renderer = publish True p"
    and slots: "ps_slots p = map (\<lambda>i. (native_slot m True (native_views m renderer ! i) (new_slot i))
             \<lparr>vs_release_queued := native_views m renderer ! i \<in> set (native_queued m renderer)\<rparr>) [0..<8]"
    and zero: "ps_free_count p = 0" "ps_first_free p = replicate 4 (-1)"
    by (rule creation_snapshot [OF assms(1) valid])
  define fs where "fs = filter vs_free (ps_slots p)"
  have same: "ps_slots (publish True p) = ps_slots p" "ps_free_count (publish True p) = length fs"
    "length (ps_first_free (publish True p)) = 4" "ps_valid (publish True p)" "ps_release_checked (publish True p)"
    using fold_count_free(1,2,5) [of "ps_slots p" p] zero by (simp_all add: publish_def fs_def)
  have admit: "(let index = ps_first_free (publish True p) ! k in
        \<not> (index < 0 \<or> index \<ge> int (length (ps_slots p)) \<or>
           vs_release_pending (ps_slots p ! nat index) \<or> vs_release_queued (ps_slots p ! nat index))) \<longleftrightarrow>
      \<not> native_marked m (vs_address (fs ! k)) \<and> vs_address (fs ! k) \<notin> set (native_queued m renderer)"
    if "k < 4" "k < length fs" for k
  proof -
    have "fs ! k \<in> set (ps_slots p)"
      using that nth_mem [of k fs] by (auto simp: fs_def)
    moreover have "ps_first_free (publish True p) ! k = int (vs_index (fs ! k))"
      using that zero fold_count_free_first [of p k "ps_slots p"] by (simp add: publish_def fs_def)
    ultimately show ?thesis
      using creation_slots(1) [OF slots, of "fs ! k"] by simp
  qed
  have "list_all (\<lambda>v. \<not> native_marked m v \<and> v \<notin> set (native_queued m renderer)) (take n (map vs_address fs)) \<longleftrightarrow>
      (\<forall>k < n. \<not> native_marked m (vs_address (fs ! k)) \<and> vs_address (fs ! k) \<notin> set (native_queued m renderer))"
    if "n \<le> length fs"
    using that by (simp add: list_all_length)
  moreover have "list_all (\<lambda>k. let index = ps_first_free (publish True p) ! k in
        \<not> (index < 0 \<or> index \<ge> int (length (ps_slots p)) \<or>
           vs_release_pending (ps_slots p ! nat index) \<or> vs_release_queued (ps_slots p ! nat index))) [0..<n] \<longleftrightarrow>
      (\<forall>k < n. \<not> native_marked m (vs_address (fs ! k)) \<and> vs_address (fs ! k) \<notin> set (native_queued m renderer))"
    if "n \<le> 4" "n \<le> length fs"
    using that admit by (simp add: list_all_length)
  ultimately show ?thesis
    unfolding pub creation_available_def same creation_slots(3) [OF slots, folded fs_def, symmetric]
    by (cases "n \<le> 4"; cases "n \<le> length fs"; cases "n = 0") (simp_all add: same)
qed

lemma creation_capacity_is_native_witness:
  "creation_available (inspect_view_creation_pool demo_env 8) 2 \<longleftrightarrow>
    ps_valid (inspect_view_creation_pool demo_env 8) \<and> 0 < (2 :: nat) \<and> (2 :: nat) \<le> 4 \<and>
    (let free = filter (native_free demo_memory) (native_views demo_memory 8) in
      2 \<le> length free \<and>
      list_all (\<lambda>v. \<not> native_marked demo_memory v \<and> v \<notin> set (native_queued demo_memory 8)) (take 2 free))"
  by (rule creation_capacity_is_native [OF demo_env_simple(1)])

subsection \<open>Retired views\<close>

datatype pool_event = Retain u64 u64 | Observe u64 pool_snapshot

fun pool_step :: "pool_event \<Rightarrow> retired_pool \<Rightarrow> retired_pool" where
  "pool_step (Retain renderer view) p = snd (retain renderer view p)"
| "pool_step (Observe renderer pool) p = snd (pool_observe renderer pool p)"

text \<open>An observation that proves the view \<open>v\<close> of the renderer \<open>r\<close> released.\<close>

fun proves_released :: "u64 \<Rightarrow> u64 \<Rightarrow> pool_event \<Rightarrow> bool" where
  "proves_released r v (Observe renderer pool) \<longleftrightarrow>
     renderer = r \<and> ps_valid pool \<and> ps_release_checked pool \<and> \<not> still_releasing pool v"
| "proves_released r v (Retain renderer view) \<longleftrightarrow> False"

definition retired_in :: "u64 \<Rightarrow> u64 \<Rightarrow> retired_pool \<Rightarrow> bool" where
  "retired_in r v p \<longleftrightarrow> rp_renderer p = r \<and> r \<noteq> 0 \<and> v \<noteq> 0 \<and> v \<in> set (rp_views p)"

lemma pool_pending_renderer [simp]: "pool_pending (p\<lparr>rp_renderer := r\<rparr>) = pool_pending p"
  by (simp add: pool_pending_def)

lemma retired_in_pending: "retired_in r v p \<Longrightarrow> pool_pending p"
  by (auto simp: retired_in_def pool_pending_def list_ex_iff)

lemma retired_in_step:
  assumes "retired_in r v p" and "\<not> proves_released r v ev"
  shows "retired_in r v (pool_step ev p)"
proof (cases ev)
  case (Retain renderer view)
  have "v \<in> set ((rp_views p)[i := view])" if "first_index (\<lambda>old. old = 0) (rp_views p) = Some i" for i
  proof -
    obtain k where "k < length (rp_views p)" "rp_views p ! k = v"
      using assms(1) by (auto simp: retired_in_def in_set_conv_nth)
    moreover have "rp_views p ! i = 0"
      using first_index_Some [OF that] by blast
    ultimately show ?thesis
      using assms(1) unfolding in_set_conv_nth
      by (intro exI [of _ k]) (cases "k = i"; simp add: retired_in_def)
  qed
  with assms(1) Retain show ?thesis
    by (auto simp: retain_def retired_in_def split: option.split)
next
  case (Observe renderer pool)
  let ?keep = "\<lambda>old. if old = 0 then 0 else if still_releasing pool old then old else 0"
  show ?thesis
  proof (cases "renderer = r \<and> ps_valid pool \<and> ps_release_checked pool")
    case False
    with assms(1) Observe show ?thesis
      by (auto simp: pool_observe_def retired_in_def)
  next
    case True
    with assms(2) Observe have "still_releasing pool v"
      by simp
    with assms(1) have "retired_in r v (p\<lparr>rp_views := map ?keep (rp_views p)\<rparr>)"
      by (force simp: retired_in_def)
    with True assms(1) retired_in_pending [OF assms(1)] retired_in_pending Observe show ?thesis
      by (simp add: pool_observe_def Let_def) (simp add: retired_in_def)
  qed
qed

interpretation retired_views: machine pool_step "retired_in r v" "\<lambda>ev. \<not> proves_released r v ev" for r v
  by unfold_locales (rule retired_in_step)

lemma retain_retires:
  assumes "fst (retain r v p)" and "rp_renderer p \<noteq> 0 \<or> \<not> pool_pending p"
  shows "retired_in r v (snd (retain r v p))"
proof (cases "v \<in> set (rp_views p)")
  case True
  with assms show ?thesis
    by (auto simp: retain_def retired_in_def pool_pending_def list_ex_iff split: if_splits)
next
  case False
  with assms(1) obtain i where "first_index (\<lambda>old. old = 0) (rp_views p) = Some i"
    by (auto simp: retain_def split: if_splits option.splits)
  with first_index_Some [OF this] False assms(1) show ?thesis
    by (auto simp: retain_def retired_in_def set_update_memI split: if_splits)
qed

lemma pool_renderer: "rp_renderer (fold pool_step evs new_retired_pool) \<noteq> 0 \<or>
    \<not> pool_pending (fold pool_step evs new_retired_pool)"
proof -
  have step: "rp_renderer (pool_step ev p) \<noteq> 0 \<or> \<not> pool_pending (pool_step ev p)"
    if "rp_renderer p \<noteq> 0 \<or> \<not> pool_pending p" for ev p
    using that by (cases ev) (auto simp: retain_def pool_observe_def Let_def split: option.split)
  have "rp_renderer (fold pool_step evs p) \<noteq> 0 \<or> \<not> pool_pending (fold pool_step evs p)"
    if "rp_renderer p \<noteq> 0 \<or> \<not> pool_pending p" for p
    using that step by (induction evs arbitrary: p) auto
  moreover have "\<not> pool_pending new_retired_pool"
    by (simp add: new_retired_pool_def pool_pending_def list_ex_iff)
  ultimately show ?thesis by blast
qed

text \<open>C12: A retired view blocks creation until it is proved released.  Once a view was accepted for
  retirement, no sequence of further retirements and pool observations reports the register empty,
  unless one observation was a valid, release-checked snapshot of the same renderer in which the
  view is in neither release queue and carries no release marker.\<close>

theorem retired_until_proved_released:
  assumes "fst (retain r v (fold pool_step before new_retired_pool))"
    and "list_all (\<lambda>ev. \<not> proves_released r v ev) after"
    and "\<not> proves_released r v (Observe renderer pool)"
  shows "\<not> fst (pool_observe renderer pool (fold pool_step after
    (snd (retain r v (fold pool_step before new_retired_pool)))))"
proof -
  define p where "p = fold pool_step after (snd (retain r v (fold pool_step before new_retired_pool)))"
  have "retired_in r v p"
    unfolding p_def using retain_retires [OF assms(1) pool_renderer] assms(2) by (rule retired_views.run_inv [rotated])
  then have now: "pool_pending p" and later: "pool_pending (pool_step (Observe renderer pool) p)"
    using retired_in_step [OF _ assms(3)] by (auto intro: retired_in_pending)
  show ?thesis
    unfolding p_def [symmetric]
  proof
    assume "fst (pool_observe renderer pool p)"
    with now have "\<not> pool_pending (snd (pool_observe renderer pool p))"
      by (auto simp: pool_observe_def Let_def pool_pending_def split: if_splits)
    with later show False by simp
  qed
qed

lemma new_retired_pool_slots: "new_retired_pool = \<lparr>rp_renderer = 0, rp_views = [0, 0, 0, 0]\<rparr>"
  by (simp add: new_retired_pool_def numeral_eq_Suc)

lemma retired_until_proved_released_witness:
  "\<not> fst (pool_observe 8 new_snapshot (fold pool_step [Retain 8 0x20000, Observe 8 new_snapshot]
    (snd (retain 8 0x10000 (fold pool_step [] new_retired_pool)))))"
  by (rule retired_until_proved_released)
    (simp_all add: retain_def new_retired_pool_slots new_snapshot_def)

end
