(* ===== verification/Stamp_State.thy ===== *)
theory Stamp_State
  imports Owned_View
begin

text \<open>
  \<open>src/graphics/pfd_stamp_state.hpp\<close> and \<open>.cpp\<close>: the graphics state of one command list, as the
  bridge observes it from the application's own calls, and the calls that put it back after the
  display stamp was drawn.  The main result is the round trip: the restoring calls, observed again
  from a reset list, lead to the same bindings.

  Pointers are 64-bit words with 0 for the null pointer; floats are IEEE-754 bit patterns.  A
  \<open>UINT\<close> count or index is a \<open>nat\<close>: the code compares before it subtracts, so nothing wraps.  The
  root kind is an enumeration of five values, so the code's test for a larger one cannot fail.
\<close>

subsection \<open>Data\<close>

datatype state_group = All_Groups | Pipeline_Group | Root_Group | Raster_Group

definition includes_group :: "state_group \<Rightarrow> state_group \<Rightarrow> bool" where
  "includes_group grp member \<longleftrightarrow> grp = All_Groups \<or> grp = member"

datatype root_kind = Constants_Kind | Table_Kind | Cbv_Kind | Srv_Kind | Uav_Kind

record root_param =
  pa_kind :: root_kind
  pa_count :: nat

record root_layout =
  la_valid :: bool
  la_count :: nat
  la_params :: "root_param list"

definition no_layout :: root_layout where
  "no_layout = \<lparr>la_valid = False, la_count = 0,
     la_params = replicate 64 \<lparr>pa_kind = Constants_Kind, pa_count = 0\<rparr>\<rparr>"

record root_value =
  va_known :: u64
  va_address :: u64

definition no_value :: root_value where
  "no_value = \<lparr>va_known = 0, va_address = 0\<rparr>"

type_synonym viewport = "u32 list"
type_synonym rect = "u32 \<times> u32 \<times> u32 \<times> u32"
type_synonym sample_position = "int \<times> int"

record gfx =
  gs_invalid :: "string option"
  gs_observed :: bool
  gs_generation :: u64
  gs_layout_generation :: u64
  gs_pipeline :: u64
  gs_dynamic :: u64
  gs_bias_known :: bool
  gs_strip_known :: bool
  gs_bias :: "u32 \<times> u32 \<times> u32"
  gs_strip :: int
  gs_sample_native :: u64
  gs_sample_count :: nat
  gs_sample_pixels :: nat
  gs_positions :: "sample_position list"
  gs_root :: u64
  gs_layout :: root_layout
  gs_values :: "root_value list"
  gs_native_root :: bool
  gs_undefined :: "bool list"
  gs_constants :: "u32 list"
  gs_offsets :: "nat list"
  gs_observed_args :: bool
  gs_word_count :: nat
  gs_word_keys :: "nat list"
  gs_heaps_known :: bool
  gs_heap_count :: nat
  gs_heaps :: "u64 list"
  gs_topology :: u32
  gs_viewport_count :: nat
  gs_scissor_count :: nat
  gs_viewports :: "viewport list"
  gs_scissors :: "rect list"

definition new_gfx :: gfx where
  "new_gfx = \<lparr>gs_invalid = None, gs_observed = False, gs_generation = 0, gs_layout_generation = 0,
     gs_pipeline = 0, gs_dynamic = 0, gs_bias_known = False, gs_strip_known = False,
     gs_bias = (0, 0, 0), gs_strip = 0, gs_sample_native = 0, gs_sample_count = 0,
     gs_sample_pixels = 0, gs_positions = replicate 16 (0, 0), gs_root = 0, gs_layout = no_layout,
     gs_values = replicate 64 no_value, gs_native_root = False, gs_undefined = replicate 64 False,
     gs_constants = replicate 64 0, gs_offsets = replicate 64 0, gs_observed_args = False,
     gs_word_count = 0, gs_word_keys = replicate 64 0, gs_heaps_known = False, gs_heap_count = 0,
     gs_heaps = [0, 0], gs_topology = 0, gs_viewport_count = 0, gs_scissor_count = 0,
     gs_viewports = replicate 16 (replicate 6 0), gs_scissors = replicate 16 (0, 0, 0, 0)\<rparr>"

subsection \<open>Observations\<close>

definition known_mask :: "nat \<Rightarrow> u64" where
  "known_mask count = (if count = 64 then u64_max else push_bit count 1 - 1)"

definition gfx_reset :: "u64 \<Rightarrow> bool \<Rightarrow> gfx \<Rightarrow> gfx" where
  "gfx_reset generation native_observations s =
     new_gfx\<lparr>gs_generation := generation, gs_observed := native_observations\<rparr>"

definition gfx_invalidate :: "string \<Rightarrow> gfx \<Rightarrow> gfx" where
  "gfx_invalidate reason s = (if gs_invalid s = None then s\<lparr>gs_invalid := Some reason\<rparr> else s)"

definition bind_pipeline :: "u64 \<Rightarrow> gfx \<Rightarrow> gfx" where
  "bind_pipeline pipeline s =
     s\<lparr>gs_pipeline := pipeline, gs_bias_known := False, gs_strip_known := False, gs_dynamic := 0\<rparr>"

definition depth_bias :: "u64 \<Rightarrow> u32 \<times> u32 \<times> u32 \<Rightarrow> gfx \<Rightarrow> gfx" where
  "depth_bias native b s =
     (case b of (bias, clamp, slope) \<Rightarrow>
        if native = 0 \<or> gs_dynamic s \<noteq> 0 \<and> gs_dynamic s \<noteq> native \<or>
           \<not> float_finite bias \<or> \<not> float_finite clamp \<or> \<not> float_finite slope
          then gfx_invalidate ''dynamic_depth_bias_invalid'' s
        else s\<lparr>gs_dynamic := native, gs_bias := (bias, clamp, slope), gs_bias_known := True\<rparr>)"

definition strip_cut :: "u64 \<Rightarrow> int \<Rightarrow> gfx \<Rightarrow> gfx" where
  "strip_cut native value s =
     (if native = 0 \<or> gs_dynamic s \<noteq> 0 \<and> gs_dynamic s \<noteq> native \<or> value < 0 \<or> value > 2
        then gfx_invalidate ''dynamic_strip_cut_invalid'' s
      else s\<lparr>gs_dynamic := native, gs_strip := value, gs_strip_known := True\<rparr>)"

definition sample_positions :: "u64 \<Rightarrow> nat \<Rightarrow> nat \<Rightarrow> sample_position list option \<Rightarrow> gfx \<Rightarrow> gfx" where
  "sample_positions native samples pixels positions s =
     (if native = 0 \<or> gs_sample_native s \<noteq> 0 \<and> gs_sample_native s \<noteq> native
        then gfx_invalidate ''sample_position_interface_mismatch'' s
      else if samples = 0 \<and> pixels = 0 \<and> positions = None
        then s\<lparr>gs_sample_native := 0, gs_sample_count := 0, gs_sample_pixels := 0,
               gs_positions := replicate 16 (0, 0)\<rparr>
      else if samples \<noteq> 1 \<and> samples \<noteq> 2 \<and> samples \<noteq> 4 \<and> samples \<noteq> 8 \<and> samples \<noteq> 16 \<or>
          pixels \<noteq> 1 \<and> pixels \<noteq> 4 \<or> samples > 16 div pixels \<or> positions = None
        then gfx_invalidate ''sample_position_arguments_invalid'' s
      else if list_ex (\<lambda>(x, y). x < -8 \<or> x > 7 \<or> y < -8 \<or> y > 7) (take (samples * pixels) (the positions))
        then gfx_invalidate ''sample_position_coordinates_invalid'' s
      else s\<lparr>gs_sample_native := native, gs_sample_count := samples, gs_sample_pixels := pixels,
             gs_positions := write_at 0 (take (samples * pixels) (the positions)) (gs_positions s)\<rparr>)"

text \<open>
  The pass of \<open>bind_root\<close> over the parameters, with the constant words and the cost so far: whether
  the layout passes, and the offsets and undefined tables it leaves.
\<close>

fun bind_params :: "bool \<Rightarrow> root_param list \<Rightarrow> nat list \<Rightarrow> nat \<Rightarrow> nat \<Rightarrow> nat list \<Rightarrow> bool list \<Rightarrow>
    bool \<times> nat list \<times> bool list" where
  "bind_params native ps [] offset cost offs und = (True, offs, und)"
| "bind_params native ps (n # ns) offset cost offs und0 =
     (let p = ps ! n;
          und = (if pa_kind p = Table_Kind then und0[n := native] else und0)
      in if pa_kind p = Constants_Kind
         then if pa_count p = 0 \<or> pa_count p > 64 - offset then (False, offs, und)
              else if cost + pa_count p > 64 then (False, offs[n := offset], und)
              else bind_params native ps ns (offset + pa_count p) (cost + pa_count p) (offs[n := offset]) und
         else if pa_count p \<noteq> 1 then (False, offs, und)
         else let cost' = cost + (if pa_kind p = Table_Kind then 1 else 2) in
              if cost' > 64 then (False, offs, und) else bind_params native ps ns offset cost' offs und)"

definition bind_root :: "u64 \<Rightarrow> u64 \<Rightarrow> root_layout \<Rightarrow> bool \<Rightarrow> gfx \<Rightarrow> gfx" where
  "bind_root root generation layout exact s =
     (if gs_root s = root \<and> gs_layout_generation s = generation \<and> la_valid (gs_layout s) \<and> la_valid layout
        then s
      else
        (let native = exact \<and> gs_observed s;
             (valid, offs, und) =
               (if \<not> la_valid layout \<or> la_count layout > 64 then (False, replicate 64 0, replicate 64 False)
                else bind_params native (la_params layout) [0..<la_count layout] 0 0
                  (replicate 64 0) (replicate 64 False))
         in s\<lparr>gs_observed_args := False, gs_root := root, gs_layout_generation := generation,
              gs_layout := layout\<lparr>la_valid := valid\<rparr>, gs_values := replicate 64 no_value,
              gs_native_root := native, gs_undefined := und, gs_constants := replicate 64 0,
              gs_offsets := offs\<rparr>))"

definition bind_observed_root :: "u64 \<Rightarrow> u64 \<Rightarrow> gfx \<Rightarrow> gfx" where
  "bind_observed_root root generation s =
     (if gs_observed_args s \<and> gs_root s = root \<and> gs_layout_generation s = generation then s
      else
        (let s = bind_root root generation no_layout True s in
         s\<lparr>gs_observed_args := True, gs_word_count := 0, gs_word_keys := replicate 64 0,
           gs_layout := (gs_layout s)\<lparr>la_valid := gs_observed s \<and> root \<noteq> 0 \<and> generation \<noteq> 0\<rparr>\<rparr>))"

text \<open>The admission of an argument; observed arguments define their parameter at the first use.\<close>

definition admit_param :: "nat \<Rightarrow> root_kind \<Rightarrow> gfx \<Rightarrow> gfx" where
  "admit_param index kind s =
     (let l = gs_layout s in
      if gs_observed_args s \<and> la_valid l \<and> index < 64 \<and> pa_count (la_params l ! index) = 0
        then s\<lparr>gs_layout := l\<lparr>la_params := (la_params l)[index := \<lparr>pa_kind = kind, pa_count = 1\<rparr>],
                 la_count := max (la_count l) (index + 1)\<rparr>\<rparr>
      else s)"

definition root_parameter :: "nat \<Rightarrow> root_kind \<Rightarrow> gfx \<Rightarrow> bool \<times> gfx" where
  "root_parameter index kind s0 =
     (let s = admit_param index kind s0; l = gs_layout s in
      if \<not> la_valid l \<or> index \<ge> la_count l \<or> pa_kind (la_params l ! index) \<noteq> kind
        then (False, gfx_invalidate ''root_parameter_kind_or_index'' s)
      else (True, s))"

text \<open>One observed word: its slot is the one of its key, or the next one.\<close>

fun observe_words :: "nat \<Rightarrow> u32 list \<Rightarrow> gfx \<Rightarrow> gfx" where
  "observe_words key [] s = s"
| "observe_words key (w # ws) s =
     (let slot = (case first_index (\<lambda>k. k = key) (take (gs_word_count s) (gs_word_keys s)) of
            Some i \<Rightarrow> i | None \<Rightarrow> gs_word_count s)
      in if slot = 64 then gfx_invalidate ''observed_root_constant_capacity'' s
         else let s' = (if slot = gs_word_count s
                then s\<lparr>gs_word_keys := (gs_word_keys s)[slot := key], gs_word_count := gs_word_count s + 1\<rparr>
                else s)
           in observe_words (key + 1) ws (s'\<lparr>gs_constants := (gs_constants s')[slot := w]\<rparr>))"

text \<open>The words \<open>data\<close> points to: \<open>None\<close> is the null pointer, otherwise there are \<open>count\<close> of them.\<close>

definition root_constants :: "nat \<Rightarrow> nat \<Rightarrow> nat \<Rightarrow> u32 list option \<Rightarrow> gfx \<Rightarrow> gfx" where
  "root_constants index first count data s0 =
     (case root_parameter index Constants_Kind s0 of
        (False, s) \<Rightarrow> s
      | (True, s) \<Rightarrow>
          if gs_observed_args s
            then if data = None \<or> count = 0 \<or> first \<ge> 64 \<or> count > 64 - first
              then gfx_invalidate ''observed_root_constant_bounds'' s
              else observe_words (index * 64 + first) (take count (the data)) s
          else if data = None \<or> count = 0 \<or> first > pa_count (la_params (gs_layout s) ! index) \<or>
              count > pa_count (la_params (gs_layout s) ! index) - first
            then gfx_invalidate ''root_constant_bounds'' s
          else s\<lparr>gs_constants := write_at (gs_offsets s ! index + first) (take count (the data)) (gs_constants s),
                 gs_values := (gs_values s)[index := (gs_values s ! index)
                   \<lparr>va_known := va_known (gs_values s ! index) OR push_bit first (known_mask count)\<rparr>]\<rparr>)"

definition set_address :: "nat \<Rightarrow> u64 \<Rightarrow> gfx \<Rightarrow> gfx" where
  "set_address index address s =
     s\<lparr>gs_values := (gs_values s)[index := \<lparr>va_known = 1, va_address = address\<rparr>]\<rparr>"

definition root_table :: "nat \<Rightarrow> u64 \<Rightarrow> gfx \<Rightarrow> gfx" where
  "root_table index address s0 =
     (case root_parameter index Table_Kind s0 of
        (False, s) \<Rightarrow> s
      | (True, s) \<Rightarrow> (set_address index address s)\<lparr>gs_undefined := (gs_undefined s)[index := False]\<rparr>)"

definition root_descriptor :: "nat \<Rightarrow> root_kind \<Rightarrow> u64 \<Rightarrow> gfx \<Rightarrow> gfx" where
  "root_descriptor index kind address s0 =
     (if kind = Table_Kind \<or> kind = Constants_Kind then gfx_invalidate ''root_descriptor_kind'' s0
      else case root_parameter index kind s0 of
        (False, s) \<Rightarrow> s
      | (True, s) \<Rightarrow> set_address index address s)"

definition forget_table :: "nat \<Rightarrow> gfx \<Rightarrow> gfx" where
  "forget_table n s =
     (if pa_kind (la_params (gs_layout s) ! n) = Table_Kind
        then s\<lparr>gs_values := (gs_values s)[n := (gs_values s ! n)\<lparr>va_known := 0\<rparr>],
               gs_undefined := (gs_undefined s)[n := False]\<rparr>
      else s)"

definition heaps_changed :: "gfx \<Rightarrow> gfx" where
  "heaps_changed s = fold forget_table [0..<la_count (gs_layout s)] s"

definition undefine_table :: "nat \<Rightarrow> gfx \<Rightarrow> gfx" where
  "undefine_table n s =
     (if pa_kind (la_params (gs_layout s) ! n) = Table_Kind
        then s\<lparr>gs_undefined := (gs_undefined s)[n := True]\<rparr> else s)"

definition undefine_tables :: "gfx \<Rightarrow> gfx" where
  "undefine_tables s = fold undefine_table [0..<la_count (gs_layout s)] s"

text \<open>\<open>heaps\<close> is \<open>None\<close> for the null pointer, otherwise it points to at least \<open>count\<close> heaps.\<close>

definition same_heaps :: "nat \<Rightarrow> u64 list \<Rightarrow> gfx \<Rightarrow> bool" where
  "same_heaps count heaps s \<longleftrightarrow> gs_heaps_known s \<and> gs_heap_count s = count \<and>
     (count = 0 \<or>
      (if count = 1 then gs_heaps s ! 0 = heaps ! 0
       else gs_heaps s ! 0 = heaps ! 0 \<and> gs_heaps s ! 1 = heaps ! 1 \<or>
            gs_heaps s ! 0 = heaps ! 1 \<and> gs_heaps s ! 1 = heaps ! 0))"

definition descriptor_heaps :: "nat \<Rightarrow> u64 list option \<Rightarrow> gfx \<Rightarrow> gfx" where
  "descriptor_heaps count heaps s =
     (if count > 2 \<or> count \<noteq> 0 \<and> heaps = None \<or> count \<noteq> 0 \<and> the heaps ! 0 = 0 \<or>
         count = 2 \<and> (the heaps ! 1 = 0 \<or> the heaps ! 0 = the heaps ! 1)
        then gfx_invalidate ''descriptor_heap_arguments_invalid'' (heaps_changed (s\<lparr>gs_heaps_known := False\<rparr>))
      else
        (let s' = (if same_heaps count (if count = 0 then [] else the heaps) s then s
                   else let s1 = heaps_changed s in if gs_native_root s1 then undefine_tables s1 else s1)
         in s'\<lparr>gs_heaps_known := True, gs_heap_count := count,
               gs_heaps := write_at 0 (if count = 0 then [] else take count (the heaps)) [0, 0]\<rparr>))"

definition set_topology :: "u32 \<Rightarrow> gfx \<Rightarrow> gfx" where
  "set_topology value s = s\<lparr>gs_topology := value\<rparr>"

definition set_viewports :: "nat \<Rightarrow> nat \<Rightarrow> viewport list option \<Rightarrow> gfx \<Rightarrow> gfx" where
  "set_viewports first count data s =
     (if first \<noteq> 0 \<or> count = 0 \<or> count > 16 \<or> data = None then gfx_invalidate ''viewport_array_bounds'' s
      else if \<not> list_all (list_all float_finite) (take count (the data))
        then gfx_invalidate ''viewport_nonfinite'' s
      else s\<lparr>gs_viewport_count := count, gs_viewports := write_at 0 (take count (the data)) (gs_viewports s)\<rparr>)"

definition set_scissors :: "nat \<Rightarrow> nat \<Rightarrow> rect list option \<Rightarrow> gfx \<Rightarrow> gfx" where
  "set_scissors first count data s =
     (if first \<noteq> 0 \<or> count = 0 \<or> count > 16 \<or> data = None then gfx_invalidate ''scissor_array_bounds'' s
      else s\<lparr>gs_scissor_count := count, gs_scissors := write_at 0 (take count (the data)) (gs_scissors s)\<rparr>)"

subsection \<open>Completeness and restoration\<close>

fun missing_argument :: "root_kind \<Rightarrow> string" where
  "missing_argument Constants_Kind = ''root_constants_incomplete''"
| "missing_argument Table_Kind = ''root_table_missing_or_invalidated''"
| "missing_argument Cbv_Kind = ''root_cbv_missing''"
| "missing_argument Srv_Kind = ''root_srv_missing''"
| "missing_argument Uav_Kind = ''root_uav_missing''"

definition argument_missing :: "gfx \<Rightarrow> nat \<Rightarrow> bool" where
  "argument_missing s n \<longleftrightarrow>
     (let p = la_params (gs_layout s) ! n in
      va_known (gs_values s ! n) \<noteq> known_mask (pa_count p) \<and>
      \<not> (pa_kind p = Table_Kind \<and> gs_undefined s ! n))"

definition incomplete_reason :: "gfx \<Rightarrow> string option" where
  "incomplete_reason s =
     (if gs_invalid s \<noteq> None then gs_invalid s
      else if \<not> gs_observed s then Some ''native_observations_missing''
      else if gs_generation s = 0 then Some ''recording_generation_missing''
      else if gs_pipeline s = 0 then Some ''pipeline_missing''
      else if gs_root s = 0 \<or> gs_layout_generation s = 0 \<or> \<not> la_valid (gs_layout s) then Some ''root_layout_missing''
      else if gs_topology s = 0 then Some ''topology_missing''
      else if gs_viewport_count s = 0 then Some ''viewport_missing''
      else if gs_scissor_count s = 0 then Some ''scissor_missing''
      else if gs_observed_args s then None
      else map_option (\<lambda>n. missing_argument (pa_kind (la_params (gs_layout s) ! n)))
        (find (argument_missing s) [0..<la_count (gs_layout s)]))"

definition gfx_complete :: "gfx \<Rightarrow> bool" where
  "gfx_complete s \<longleftrightarrow> incomplete_reason s = None"

definition has_sample_positions :: "gfx \<Rightarrow> bool" where
  "has_sample_positions s \<longleftrightarrow> gs_sample_count s \<noteq> 0"

definition can_restore :: "u64 \<Rightarrow> gfx \<Rightarrow> bool" where
  "can_restore native s \<longleftrightarrow> gfx_complete s \<and>
     (\<not> (gs_bias_known s \<or> gs_strip_known s) \<or> gs_dynamic s = native) \<and>
     (\<not> has_sample_positions s \<or> gs_sample_native s = native)"

definition undefined_table_count :: "gfx \<Rightarrow> nat" where
  "undefined_table_count s =
     length (filter (\<lambda>n. pa_kind (la_params (gs_layout s) ! n) = Table_Kind \<and>
       va_known (gs_values s ! n) = 0 \<and> gs_undefined s ! n) [0..<la_count (gs_layout s)])"

text \<open>The calls on the native list.\<close>

datatype native_call =
  Set_Pipeline_State u64
| Set_Depth_Bias u64 "u32 \<times> u32 \<times> u32"
| Set_Strip_Cut u64 int
| Set_Root_Signature u64
| Set_Root_Constant nat u32 nat
| Set_Root_Constants nat nat "u32 list" nat
| Set_Root_Table nat u64
| Set_Root_Descriptor root_kind nat u64
| Set_Sample_Positions u64 nat nat "sample_position list"
| Set_Topology u32
| Set_Viewports nat "viewport list"
| Set_Scissor_Rects nat "rect list"

definition restore_pipeline :: "gfx \<Rightarrow> native_call list" where
  "restore_pipeline s = Set_Pipeline_State (gs_pipeline s) #
     (if gs_bias_known s then [Set_Depth_Bias (gs_dynamic s) (gs_bias s)] else []) @
     (if gs_strip_known s then [Set_Strip_Cut (gs_dynamic s) (gs_strip s)] else [])"

definition restore_argument :: "gfx \<Rightarrow> nat \<Rightarrow> native_call list" where
  "restore_argument s n =
     (let p = la_params (gs_layout s) ! n; v = gs_values s ! n in
      if gs_observed_args s \<and> (pa_count p = 0 \<or> pa_kind p = Constants_Kind \<or> va_known v = 0) then []
      else case pa_kind p of
        Constants_Kind \<Rightarrow> [Set_Root_Constants n (pa_count p) (take (pa_count p) (drop (gs_offsets s ! n) (gs_constants s))) 0]
      | Table_Kind \<Rightarrow> if va_known v \<noteq> 0 then [Set_Root_Table n (va_address v)] else []
      | k \<Rightarrow> [Set_Root_Descriptor k n (va_address v)])"

definition restore_words :: "gfx \<Rightarrow> native_call list" where
  "restore_words s = map (\<lambda>n. Set_Root_Constant (gs_word_keys s ! n div 64) (gs_constants s ! n) (gs_word_keys s ! n mod 64))
     [0..<gs_word_count s]"

definition restore_root :: "gfx \<Rightarrow> native_call list" where
  "restore_root s = Set_Root_Signature (gs_root s) #
     (if gs_observed_args s then restore_words s else []) @
     concat (map (restore_argument s) [0..<la_count (gs_layout s)])"

definition restore_sample_positions :: "u64 \<Rightarrow> gfx \<Rightarrow> native_call list" where
  "restore_sample_positions native s =
     (if \<not> has_sample_positions s \<or> gs_sample_native s \<noteq> native then []
      else [Set_Sample_Positions (gs_sample_native s) (gs_sample_count s) (gs_sample_pixels s) (gs_positions s)])"

definition restore_raster :: "u64 \<Rightarrow> gfx \<Rightarrow> native_call list" where
  "restore_raster native s = restore_sample_positions native s @
     [Set_Topology (gs_topology s), Set_Viewports (gs_viewport_count s) (gs_viewports s),
      Set_Scissor_Rects (gs_scissor_count s) (gs_scissors s)]"

definition gfx_restore :: "u64 \<Rightarrow> state_group \<Rightarrow> gfx \<Rightarrow> native_call list" where
  "gfx_restore native grp s =
     (let pipeline = includes_group grp Pipeline_Group; raster = includes_group grp Raster_Group in
      if pipeline \<and> (gs_bias_known s \<or> gs_strip_known s) \<and> gs_dynamic s \<noteq> native \<or>
         raster \<and> has_sample_positions s \<and> gs_sample_native s \<noteq> native
        then []
      else (if pipeline then restore_pipeline s else []) @
        (if includes_group grp Root_Group then restore_root s else []) @
        (if raster then restore_raster native s else []))"

subsection \<open>Events\<close>

text \<open>
  What the bridge may observe on a list.  A layout is a \<open>std::array\<close> of 64 parameters, and a
  non-null pointer argument points to at least as many elements as its count.
\<close>

datatype gfx_event =
  Ev_Reset u64 bool
| Ev_Invalidate string
| Ev_Pipeline u64
| Ev_Depth_Bias u64 "u32 \<times> u32 \<times> u32"
| Ev_Strip_Cut u64 int
| Ev_Samples u64 nat nat "sample_position list option"
| Ev_Root u64 u64 root_layout bool
| Ev_Observed_Root u64 u64
| Ev_Constants nat nat nat "u32 list option"
| Ev_Table nat u64
| Ev_Descriptor nat root_kind u64
| Ev_Heaps nat "u64 list option"
| Ev_Heaps_Changed
| Ev_Topology u32
| Ev_Viewports nat nat "viewport list option"
| Ev_Scissors nat nat "rect list option"

fun gfx_step :: "gfx_event \<Rightarrow> gfx \<Rightarrow> gfx" where
  "gfx_step (Ev_Reset g native) s = gfx_reset g native s"
| "gfx_step (Ev_Invalidate reason) s = gfx_invalidate reason s"
| "gfx_step (Ev_Pipeline p) s = bind_pipeline p s"
| "gfx_step (Ev_Depth_Bias native b) s = depth_bias native b s"
| "gfx_step (Ev_Strip_Cut native v) s = strip_cut native v s"
| "gfx_step (Ev_Samples native samples pixels ps) s = sample_positions native samples pixels ps s"
| "gfx_step (Ev_Root root g layout exact) s = bind_root root g layout exact s"
| "gfx_step (Ev_Observed_Root root g) s = bind_observed_root root g s"
| "gfx_step (Ev_Constants i f c d) s = root_constants i f c d s"
| "gfx_step (Ev_Table i a) s = root_table i a s"
| "gfx_step (Ev_Descriptor i k a) s = root_descriptor i k a s"
| "gfx_step (Ev_Heaps c h) s = descriptor_heaps c h s"
| "gfx_step Ev_Heaps_Changed s = heaps_changed s"
| "gfx_step (Ev_Topology t) s = set_topology t s"
| "gfx_step (Ev_Viewports f c v) s = set_viewports f c v s"
| "gfx_step (Ev_Scissors f c r) s = set_scissors f c r s"

definition is_reset :: "gfx_event \<Rightarrow> bool" where
  "is_reset ev \<longleftrightarrow> (case ev of Ev_Reset _ _ \<Rightarrow> True | _ \<Rightarrow> False)"

definition points_to :: "nat \<Rightarrow> 'a list option \<Rightarrow> bool" where
  "points_to count data \<longleftrightarrow> (case data of None \<Rightarrow> True | Some xs \<Rightarrow> count \<le> length xs)"

fun gfx_event_ok :: "gfx_event \<Rightarrow> bool" where
  "gfx_event_ok (Ev_Root root g layout exact) = (length (la_params layout) = 64)"
| "gfx_event_ok (Ev_Constants i f c d) = points_to c d"
| "gfx_event_ok (Ev_Samples native samples pixels ps) = points_to (samples * pixels) ps"
| "gfx_event_ok (Ev_Heaps c h) = points_to c h"
| "gfx_event_ok (Ev_Viewports f c v) = points_to c v"
| "gfx_event_ok (Ev_Scissors f c r) = points_to c r"
| "gfx_event_ok ev = True"

subsection \<open>Invariants\<close>

definition const_words :: "root_param \<Rightarrow> nat" where
  "const_words p = (if pa_kind p = Constants_Kind then pa_count p else 0)"

definition param_cost :: "root_param \<Rightarrow> nat" where
  "param_cost p = (case pa_kind p of Constants_Kind \<Rightarrow> pa_count p | Table_Kind \<Rightarrow> 1 | _ \<Rightarrow> 2)"

definition const_offset :: "root_param list \<Rightarrow> nat \<Rightarrow> nat" where
  "const_offset ps n = sum_list (map const_words (take n ps))"

definition layout_cost :: "root_param list \<Rightarrow> nat \<Rightarrow> nat" where
  "layout_cost ps n = sum_list (map param_cost (take n ps))"

text \<open>The \<open>n\<close>-th parameter passes the checks of \<open>bind_root\<close>.\<close>

definition param_fits :: "root_param list \<Rightarrow> nat \<Rightarrow> bool" where
  "param_fits ps n \<longleftrightarrow>
     (if pa_kind (ps ! n) = Constants_Kind
        then pa_count (ps ! n) \<noteq> 0 \<and> pa_count (ps ! n) \<le> 64 - const_offset ps n
      else pa_count (ps ! n) = 1) \<and>
     layout_cost ps (Suc n) \<le> 64"

text \<open>
  The invariant is stated field by field, so that an operation only has to argue about the fields
  it changes.
\<close>

definition dynamic_ok :: "bool \<Rightarrow> bool \<Rightarrow> u64 \<Rightarrow> u32 \<times> u32 \<times> u32 \<Rightarrow> int \<Rightarrow> bool" where
  "dynamic_ok bias_known strip_known dyn bias strip \<longleftrightarrow>
     (bias_known \<longrightarrow> dyn \<noteq> 0 \<and>
        (case bias of (b, c, sl) \<Rightarrow> float_finite b \<and> float_finite c \<and> float_finite sl)) \<and>
     (strip_known \<longrightarrow> dyn \<noteq> 0 \<and> 0 \<le> strip \<and> strip \<le> 2)"

definition coordinate_ok :: "sample_position \<Rightarrow> bool" where
  "coordinate_ok p \<longleftrightarrow> -8 \<le> fst p \<and> fst p \<le> 7 \<and> -8 \<le> snd p \<and> snd p \<le> 7"

definition sample_counts_ok :: "nat \<Rightarrow> nat \<Rightarrow> bool" where
  "sample_counts_ok samples pixels \<longleftrightarrow>
     \<not> (samples \<noteq> 1 \<and> samples \<noteq> 2 \<and> samples \<noteq> 4 \<and> samples \<noteq> 8 \<and> samples \<noteq> 16 \<or>
        pixels \<noteq> 1 \<and> pixels \<noteq> 4 \<or> samples > 16 div pixels)"

definition samples_ok :: "u64 \<Rightarrow> nat \<Rightarrow> nat \<Rightarrow> sample_position list \<Rightarrow> bool" where
  "samples_ok native samples pixels ps \<longleftrightarrow> length ps = 16 \<and>
     (samples \<noteq> 0 \<longrightarrow> native \<noteq> 0 \<and> sample_counts_ok samples pixels \<and>
        list_all coordinate_ok (take (samples * pixels) ps))"

definition viewports_ok :: "nat \<Rightarrow> viewport list \<Rightarrow> bool" where
  "viewports_ok count vs \<longleftrightarrow> length vs = 16 \<and> count \<le> 16 \<and> list_all (list_all float_finite) (take count vs)"

definition scissors_ok :: "nat \<Rightarrow> rect list \<Rightarrow> bool" where
  "scissors_ok count rs \<longleftrightarrow> length rs = 16 \<and> count \<le> 16"

definition undefined_ok :: "bool list \<Rightarrow> root_value list \<Rightarrow> bool" where
  "undefined_ok und vs \<longleftrightarrow> (\<forall>n < 64. und ! n \<longrightarrow> va_known (vs ! n) = 0)"

text \<open>A valid layout with known parameters: its offsets are those of its constants.\<close>

definition offsets_ok :: "root_param list \<Rightarrow> nat \<Rightarrow> nat list \<Rightarrow> bool" where
  "offsets_ok ps count offs \<longleftrightarrow> count \<le> 64 \<and>
     (\<forall>n < count. param_fits ps n \<and> (pa_kind (ps ! n) = Constants_Kind \<longrightarrow> offs ! n = const_offset ps n))"

definition tables_ok :: "root_param list \<Rightarrow> bool list \<Rightarrow> bool" where
  "tables_ok ps und \<longleftrightarrow> (\<forall>n < 64. und ! n \<longrightarrow> pa_kind (ps ! n) = Table_Kind \<and> pa_count (ps ! n) = 1)"

text \<open>Observed arguments: a parameter that was used holds one value, and each word has its own key.\<close>

definition counts_ok :: "root_param list \<Rightarrow> bool" where
  "counts_ok ps \<longleftrightarrow>
     (\<forall>n < 64. pa_count (ps ! n) \<le> 1 \<and> (pa_kind (ps ! n) \<noteq> Constants_Kind \<longrightarrow> pa_count (ps ! n) = 1))"

definition words_ok :: "root_param list \<Rightarrow> nat \<Rightarrow> nat \<Rightarrow> nat list \<Rightarrow> bool" where
  "words_ok ps count words keys \<longleftrightarrow> count \<le> 64 \<and> words \<le> 64 \<and> distinct (take words keys) \<and>
     (\<forall>key \<in> set (take words keys).
        key div 64 < count \<and> ps ! (key div 64) = \<lparr>pa_kind = Constants_Kind, pa_count = 1\<rparr>)"

definition addresses_ok :: "root_param list \<Rightarrow> nat \<Rightarrow> root_value list \<Rightarrow> bool" where
  "addresses_ok ps count vs \<longleftrightarrow>
     (\<forall>n < 64. va_known (vs ! n) \<noteq> 0 \<longrightarrow> va_known (vs ! n) = 1 \<and> n < count \<and>
        pa_kind (ps ! n) \<noteq> Constants_Kind \<and> pa_count (ps ! n) = 1)"

definition layout_ok :: "bool \<Rightarrow> root_layout \<Rightarrow> nat list \<Rightarrow> root_value list \<Rightarrow> bool list \<Rightarrow> nat \<Rightarrow> nat list \<Rightarrow> bool" where
  "layout_ok observed l offs vs und words keys \<longleftrightarrow>
     (la_valid l \<longrightarrow> tables_ok (la_params l) und \<and>
       (if observed then counts_ok (la_params l) \<and> words_ok (la_params l) (la_count l) words keys \<and> addresses_ok (la_params l) (la_count l) vs
        else offsets_ok (la_params l) (la_count l) offs))"

definition gfx_ok :: "gfx \<Rightarrow> bool" where
  "gfx_ok s \<longleftrightarrow>
     dynamic_ok (gs_bias_known s) (gs_strip_known s) (gs_dynamic s) (gs_bias s) (gs_strip s) \<and>
     samples_ok (gs_sample_native s) (gs_sample_count s) (gs_sample_pixels s) (gs_positions s) \<and>
     viewports_ok (gs_viewport_count s) (gs_viewports s) \<and> scissors_ok (gs_scissor_count s) (gs_scissors s) \<and>
     length (la_params (gs_layout s)) = 64 \<and> length (gs_values s) = 64 \<and> length (gs_undefined s) = 64 \<and>
     length (gs_constants s) = 64 \<and> length (gs_offsets s) = 64 \<and> length (gs_word_keys s) = 64 \<and>
     undefined_ok (gs_undefined s) (gs_values s) \<and>
     layout_ok (gs_observed_args s) (gs_layout s) (gs_offsets s) (gs_values s) (gs_undefined s)
       (gs_word_count s) (gs_word_keys s)"

lemma gfx_invalidate_ok [simp]: "gfx_ok (gfx_invalidate reason s) = gfx_ok s"
  by (simp add: gfx_invalidate_def gfx_ok_def)

lemma new_gfx_ok: "gfx_ok new_gfx"
  by (simp add: gfx_ok_def new_gfx_def no_layout_def dynamic_ok_def samples_ok_def viewports_ok_def
      scissors_ok_def undefined_ok_def layout_ok_def)

lemma gfx_reset_ok: "gfx_ok (gfx_reset g native s)"
  using new_gfx_ok by (simp add: gfx_reset_def gfx_ok_def)

lemma bind_pipeline_ok: "gfx_ok s \<Longrightarrow> gfx_ok (bind_pipeline p s)"
  by (simp add: bind_pipeline_def gfx_ok_def) (simp add: dynamic_ok_def)

lemma depth_bias_ok:
  assumes ok: "gfx_ok s"
  shows "gfx_ok (depth_bias native b s)"
proof (cases b)
  case (fields bias clamp slope)
  let ?refused = "native = 0 \<or> gs_dynamic s \<noteq> 0 \<and> gs_dynamic s \<noteq> native \<or>
      \<not> float_finite bias \<or> \<not> float_finite clamp \<or> \<not> float_finite slope"
  show ?thesis
  proof (cases ?refused)
    case True
    then have "depth_bias native b s = gfx_invalidate ''dynamic_depth_bias_invalid'' s"
      unfolding depth_bias_def fields by simp
    with ok show ?thesis by simp
  next
    case False
    then have "depth_bias native b s = s\<lparr>gs_dynamic := native, gs_bias := b, gs_bias_known := True\<rparr>"
      unfolding depth_bias_def fields by auto
    with ok False fields show ?thesis
      by (simp add: gfx_ok_def) (auto simp: dynamic_ok_def)
  qed
qed

lemma strip_cut_ok:
  assumes ok: "gfx_ok s"
  shows "gfx_ok (strip_cut native v s)"
proof (cases "native = 0 \<or> gs_dynamic s \<noteq> 0 \<and> gs_dynamic s \<noteq> native \<or> v < 0 \<or> v > 2")
  case True
  with ok show ?thesis by (simp add: strip_cut_def)
next
  case False
  then have "strip_cut native v s = s\<lparr>gs_dynamic := native, gs_strip := v, gs_strip_known := True\<rparr>"
    unfolding strip_cut_def by auto
  with ok False show ?thesis
    by (simp add: gfx_ok_def) (auto simp: dynamic_ok_def)
qed

lemma set_topology_ok: "gfx_ok s \<Longrightarrow> gfx_ok (set_topology v s)"
  by (simp add: set_topology_def gfx_ok_def)

lemma take_write_at_0: "length xs = n \<Longrightarrow> n \<le> length ys \<Longrightarrow> take n (write_at 0 xs ys) = xs"
  by (simp add: write_at_def)

lemma set_viewports_ok:
  assumes ok: "gfx_ok s" and data: "points_to count data"
  shows "gfx_ok (set_viewports first count data s)"
proof (cases "first \<noteq> 0 \<or> count = 0 \<or> count > 16 \<or> data = None \<or>
    \<not> list_all (list_all float_finite) (take count (the data))")
  case True
  with ok show ?thesis
    unfolding set_viewports_def if_distrib [of gfx_ok] by auto
next
  case False
  then obtain vs where vs: "data = Some vs" "count \<le> length vs"
    using data by (auto simp: points_to_def)
  have len: "length (gs_viewports s) = 16"
    using ok by (simp add: gfx_ok_def viewports_ok_def)
  have "set_viewports first count data s =
      s\<lparr>gs_viewport_count := count, gs_viewports := write_at 0 (take count vs) (gs_viewports s)\<rparr>"
    using False vs unfolding set_viewports_def by simp
  moreover have "viewports_ok count (write_at 0 (take count vs) (gs_viewports s))"
    using False vs len by (simp add: viewports_ok_def take_write_at_0 min_def)
  ultimately show ?thesis
    using ok by (simp add: gfx_ok_def)
qed

lemma set_scissors_ok:
  assumes ok: "gfx_ok s" and data: "points_to count data"
  shows "gfx_ok (set_scissors first count data s)"
proof (cases "first \<noteq> 0 \<or> count = 0 \<or> count > 16 \<or> data = None")
  case True
  with ok show ?thesis
    unfolding set_scissors_def by simp
next
  case False
  then obtain rs where rs: "data = Some rs" "count \<le> length rs"
    using data by (auto simp: points_to_def)
  have "set_scissors first count data s =
      s\<lparr>gs_scissor_count := count, gs_scissors := write_at 0 (take count rs) (gs_scissors s)\<rparr>"
    using False rs unfolding set_scissors_def by simp
  moreover have "scissors_ok count (write_at 0 (take count rs) (gs_scissors s))"
    using False rs ok by (simp add: scissors_ok_def gfx_ok_def min_def)
  ultimately show ?thesis
    using ok by (simp add: gfx_ok_def)
qed

lemma sample_counts_bound: "sample_counts_ok samples pixels \<Longrightarrow> samples * pixels \<le> 16"
  by (auto simp: sample_counts_ok_def)

lemma coordinates_ok: "list_ex (\<lambda>(x, y). x < -8 \<or> x > 7 \<or> y < -8 \<or> y > 7) ps \<longleftrightarrow> \<not> list_all coordinate_ok ps"
  by (induction ps) (auto simp: coordinate_ok_def)

lemma sample_positions_cases:
  "sample_positions native samples pixels data s =
     (if native = 0 \<or> gs_sample_native s \<noteq> 0 \<and> gs_sample_native s \<noteq> native
        then gfx_invalidate ''sample_position_interface_mismatch'' s
      else if samples = 0 \<and> pixels = 0 \<and> data = None
        then s\<lparr>gs_sample_native := 0, gs_sample_count := 0, gs_sample_pixels := 0,
               gs_positions := replicate 16 (0, 0)\<rparr>
      else if \<not> (sample_counts_ok samples pixels \<and> data \<noteq> None)
        then gfx_invalidate ''sample_position_arguments_invalid'' s
      else if \<not> list_all coordinate_ok (take (samples * pixels) (the data))
        then gfx_invalidate ''sample_position_coordinates_invalid'' s
      else s\<lparr>gs_sample_native := native, gs_sample_count := samples, gs_sample_pixels := pixels,
             gs_positions := write_at 0 (take (samples * pixels) (the data)) (gs_positions s)\<rparr>)"
  unfolding sample_positions_def coordinates_ok sample_counts_ok_def
  by (simp only: de_Morgan_conj not_not disj_assoc)

lemma sample_positions_ok:
  assumes ok: "gfx_ok s" and data: "points_to (samples * pixels) data"
  shows "gfx_ok (sample_positions native samples pixels data s)"
proof -
  have A: "gfx_ok (s\<lparr>gs_sample_native := 0, gs_sample_count := 0, gs_sample_pixels := 0,
               gs_positions := replicate 16 (0, 0)\<rparr>)"
    using ok by (simp add: gfx_ok_def) (simp add: samples_ok_def)
  have B: "gfx_ok (s\<lparr>gs_sample_native := native, gs_sample_count := samples, gs_sample_pixels := pixels,
             gs_positions := write_at 0 (take (samples * pixels) (the data)) (gs_positions s)\<rparr>)"
    if "native \<noteq> 0" "sample_counts_ok samples pixels" "data \<noteq> None"
      "list_all coordinate_ok (take (samples * pixels) (the data))"
  proof -
    have "length (take (samples * pixels) (the data)) = samples * pixels"
      using data that(3) by (auto simp: points_to_def)
    moreover have "length (gs_positions s) = 16"
      using ok by (simp add: gfx_ok_def samples_ok_def)
    ultimately have "samples_ok native samples pixels (write_at 0 (take (samples * pixels) (the data)) (gs_positions s))"
      using that sample_counts_bound [OF that(2)] by (simp add: samples_ok_def take_write_at_0)
    with ok show ?thesis by (simp add: gfx_ok_def)
  qed
  show ?thesis
    unfolding sample_positions_cases if_distrib [of gfx_ok] gfx_invalidate_ok
    using ok A B by presburger
qed

subsubsection \<open>Binding a root signature\<close>

lemma bind_params_lengths:
  assumes "bind_params native ps ns offset cost offs und = (v, offs', und')"
  shows "length offs' = length offs \<and> length und' = length und"
  using assms
  by (induction ns arbitrary: offset cost offs und) (auto simp: Let_def split: if_splits)

lemma param_fits_step:
  assumes "n < length ps"
  shows "const_offset ps (Suc n) = const_offset ps n + const_words (ps ! n)"
    and "layout_cost ps (Suc n) = layout_cost ps n + param_cost (ps ! n)"
  using assms by (simp_all add: const_offset_def layout_cost_def take_Suc_conv_app_nth)

text \<open>One parameter of the pass.\<close>

lemma bind_params_Cons:
  assumes "n < length ps"
  shows "bind_params native ps (n # ns) (const_offset ps n) (layout_cost ps n) offs und =
    (let und' = (if pa_kind (ps ! n) = Table_Kind then und[n := native] else und);
         offs' = (if pa_kind (ps ! n) = Constants_Kind then offs[n := const_offset ps n] else offs)
     in if param_fits ps n
        then bind_params native ps ns (const_offset ps (Suc n)) (layout_cost ps (Suc n)) offs' und'
        else (False, if pa_kind (ps ! n) = Constants_Kind \<and> \<not> (pa_count (ps ! n) = 0 \<or>
                pa_count (ps ! n) > 64 - const_offset ps n) then offs' else offs, und'))"
  using assms
  by (cases "pa_kind (ps ! n)")
    (simp_all add: param_fits_def param_fits_step const_words_def param_cost_def Let_def)

lemma bind_params_result:
  assumes "n \<le> c" "c \<le> length ps" "c \<le> length offs" "c \<le> length und"
    and "bind_params native ps [n..<c] (const_offset ps n) (layout_cost ps n) offs und = (v, offs', und')"
  shows "(v \<longleftrightarrow> (\<forall>k. n \<le> k \<and> k < c \<longrightarrow> param_fits ps k)) \<and>
    (v \<longrightarrow> (\<forall>k. offs' ! k = (if n \<le> k \<and> k < c \<and> pa_kind (ps ! k) = Constants_Kind then const_offset ps k else offs ! k) \<and>
       und' ! k = (if n \<le> k \<and> k < c \<and> pa_kind (ps ! k) = Table_Kind then native else und ! k)))"
  using assms
proof (induction "c - n" arbitrary: n offs und)
  case 0
  then show ?case by auto
next
  case (Suc d)
  then have n: "n < c" "[n..<c] = n # [Suc n..<c]"
    by (simp_all add: upt_conv_Cons)
  define und1 where "und1 = (if pa_kind (ps ! n) = Table_Kind then und[n := native] else und)"
  define offs1 where "offs1 = (if pa_kind (ps ! n) = Constants_Kind then offs[n := const_offset ps n] else offs)"
  show ?case
  proof (cases "param_fits ps n")
    case False
    with Suc.prems n bind_params_Cons [of n ps native "[Suc n..<c]" offs und] show ?thesis
      by (auto simp: Let_def)
  next
    case True
    with Suc.prems n bind_params_Cons [of n ps native "[Suc n..<c]" offs und]
    have "bind_params native ps [Suc n..<c] (const_offset ps (Suc n)) (layout_cost ps (Suc n)) offs1 und1 = (v, offs', und')"
      by (simp add: Let_def und1_def offs1_def)
    then have IH: "(v \<longleftrightarrow> (\<forall>k. Suc n \<le> k \<and> k < c \<longrightarrow> param_fits ps k)) \<and>
      (v \<longrightarrow> (\<forall>k. offs' ! k = (if Suc n \<le> k \<and> k < c \<and> pa_kind (ps ! k) = Constants_Kind then const_offset ps k else offs1 ! k) \<and>
       und' ! k = (if Suc n \<le> k \<and> k < c \<and> pa_kind (ps ! k) = Table_Kind then native else und1 ! k)))"
      using Suc.hyps(2) Suc.prems n by (intro Suc.hyps(1)) (simp_all add: offs1_def und1_def)
    have "offs1 ! k = (if k = n \<and> pa_kind (ps ! n) = Constants_Kind then const_offset ps n else offs ! k)"
      "und1 ! k = (if k = n \<and> pa_kind (ps ! n) = Table_Kind then native else und ! k)" for k
      using Suc.prems n by (auto simp: offs1_def und1_def)
    moreover have "(n \<le> k) = (k = n \<or> Suc n \<le> k)" for k
      by auto
    ultimately show ?thesis
      using IH True n(1) by auto
  qed
qed

lemma bind_root_ok:
  assumes ok: "gfx_ok s" and len: "length (la_params layout) = 64"
  shows "gfx_ok (bind_root root g layout exact s)"
proof (cases "gs_root s = root \<and> gs_layout_generation s = g \<and> la_valid (gs_layout s) \<and> la_valid layout")
  case True
  with ok show ?thesis by (simp add: bind_root_def)
next
  case False
  define native where "native = (exact \<and> gs_observed s)"
  obtain v offs und where pass: "(if \<not> la_valid layout \<or> la_count layout > 64 then (False, replicate 64 0, replicate 64 False)
                else bind_params native (la_params layout) [0..<la_count layout] 0 0
                  (replicate 64 0) (replicate 64 False)) = (v, offs, und)"
    using prod_cases3 by blast
  have sizes: "length offs = 64" "length und = 64"
    using pass bind_params_lengths [of native _ _ _ _ "replicate 64 0" "replicate 64 False"]
    by (auto split: if_splits)
  have offsets: "offsets_ok (la_params layout) (la_count layout) offs" if v
    using that pass len bind_params_result [of 0 "la_count layout" "la_params layout" "replicate 64 0" "replicate 64 False" native v offs und]
    by (auto simp: offsets_ok_def const_offset_def layout_cost_def split: if_splits)
  have tables: "tables_ok (la_params layout) und" if v
    using that pass len bind_params_result [of 0 "la_count layout" "la_params layout" "replicate 64 0" "replicate 64 False" native v offs und]
    by (auto simp: tables_ok_def const_offset_def layout_cost_def param_fits_def split: if_splits)
  have "bind_root root g layout exact s = s\<lparr>gs_observed_args := False, gs_root := root, gs_layout_generation := g,
              gs_layout := layout\<lparr>la_valid := v\<rparr>, gs_values := replicate 64 no_value,
              gs_native_root := native, gs_undefined := und, gs_constants := replicate 64 0, gs_offsets := offs\<rparr>"
    unfolding bind_root_def Let_def native_def [symmetric] pass if_not_P [OF False] by simp
  with ok len sizes offsets tables show ?thesis
    by (simp add: gfx_ok_def layout_ok_def undefined_ok_def no_value_def)
qed

lemma bind_observed_root_fresh:
  assumes "\<not> (gs_observed_args s \<and> gs_root s = root \<and> gs_layout_generation s = g)"
  shows "bind_observed_root root g s = s\<lparr>gs_observed_args := True, gs_root := root, gs_layout_generation := g,
              gs_layout := no_layout\<lparr>la_valid := gs_observed s \<and> root \<noteq> 0 \<and> g \<noteq> 0\<rparr>,
              gs_values := replicate 64 no_value, gs_native_root := gs_observed s,
              gs_undefined := replicate 64 False, gs_constants := replicate 64 0,
              gs_offsets := replicate 64 0, gs_word_count := 0, gs_word_keys := replicate 64 0\<rparr>"
proof -
  have "bind_root root g no_layout True s = s\<lparr>gs_observed_args := False, gs_root := root, gs_layout_generation := g,
              gs_layout := no_layout, gs_values := replicate 64 no_value,
              gs_native_root := gs_observed s, gs_undefined := replicate 64 False, gs_constants := replicate 64 0,
              gs_offsets := replicate 64 0\<rparr>"
    by (simp add: bind_root_def no_layout_def)
  then show ?thesis
    unfolding bind_observed_root_def if_not_P [OF assms] Let_def by simp
qed

lemma bind_observed_root_ok:
  assumes ok: "gfx_ok s"
  shows "gfx_ok (bind_observed_root root g s)"
proof (cases "gs_observed_args s \<and> gs_root s = root \<and> gs_layout_generation s = g")
  case True
  with ok show ?thesis by (simp add: bind_observed_root_def)
next
  case False
  have "layout_ok True (no_layout\<lparr>la_valid := v\<rparr>) (replicate 64 0) (replicate 64 no_value)
      (replicate 64 False) 0 (replicate 64 0)"
    "length (la_params (no_layout\<lparr>la_valid := v\<rparr>)) = 64" for v
    by (simp_all add: no_layout_def layout_ok_def words_ok_def addresses_ok_def no_value_def tables_ok_def counts_ok_def)
  moreover have "undefined_ok (replicate 64 False) (replicate 64 no_value)"
    by (simp add: undefined_ok_def)
  ultimately show ?thesis
    unfolding bind_observed_root_fresh [OF False] using ok by (simp add: gfx_ok_def)
qed

subsubsection \<open>Root arguments\<close>

lemma admit_param_ok:
  assumes ok: "gfx_ok s"
  shows "gfx_ok (admit_param index kind s)"
proof (cases "gs_observed_args s \<and> la_valid (gs_layout s) \<and> index < 64 \<and> pa_count (la_params (gs_layout s) ! index) = 0")
  case False
  with ok show ?thesis unfolding admit_param_def Let_def by auto
next
  case True
  define l' where "l' = (gs_layout s)\<lparr>la_params := (la_params (gs_layout s))[index := \<lparr>pa_kind = kind, pa_count = 1\<rparr>],
                 la_count := max (la_count (gs_layout s)) (index + 1)\<rparr>"
  have "admit_param index kind s = s\<lparr>gs_layout := l'\<rparr>"
    using True unfolding admit_param_def Let_def l'_def by simp
  moreover have "layout_ok True l' offs vs und words keys"
    if "layout_ok True (gs_layout s) offs vs und words keys" "length (la_params (gs_layout s)) = 64"
    for offs vs und words keys
  proof -
    have parts: "words_ok (la_params (gs_layout s)) (la_count (gs_layout s)) words keys"
      "addresses_ok (la_params (gs_layout s)) (la_count (gs_layout s)) vs"
      "tables_ok (la_params (gs_layout s)) und" "counts_ok (la_params (gs_layout s))"
      using that True by (simp_all add: layout_ok_def)
    have other: "index \<noteq> key div 64" if "key \<in> set (take words keys)" for key
      using parts(1) True that by (auto simp: words_ok_def)
    have "words_ok (la_params l') (la_count l') words keys"
      using parts(1) other True by (auto simp: words_ok_def l'_def)
    moreover have "addresses_ok (la_params l') (la_count l') vs"
      using parts(2) True that(2) unfolding addresses_ok_def l'_def
      by (auto simp: nth_list_update less_max_iff_disj)
    moreover have "tables_ok (la_params l') und" "counts_ok (la_params l')"
      using parts(3,4) True that(2) unfolding tables_ok_def counts_ok_def l'_def
      by (auto simp: nth_list_update)
    ultimately show ?thesis by (simp add: layout_ok_def)
  qed
  ultimately show ?thesis
    using ok True by (simp add: gfx_ok_def) (simp add: l'_def)
qed

lemma root_parameter_cases:
  obtains (refused) r where "root_parameter index kind s = (False, gfx_invalidate r (admit_param index kind s))"
  | (admitted) "root_parameter index kind s = (True, admit_param index kind s)"
      "la_valid (gs_layout (admit_param index kind s))" "index < la_count (gs_layout (admit_param index kind s))"
      "pa_kind (la_params (gs_layout (admit_param index kind s)) ! index) = kind"
  unfolding root_parameter_def Let_def by (metis not_le)

text \<open>What is known of an admitted parameter.\<close>

lemma admitted_param:
  assumes ok: "gfx_ok s'" and valid: "la_valid (gs_layout s')" and index: "index < la_count (gs_layout s')"
  shows "index < 64"
    and "pa_kind (la_params (gs_layout s') ! index) \<noteq> Constants_Kind \<Longrightarrow> \<not> gs_observed_args s' \<Longrightarrow>
      pa_count (la_params (gs_layout s') ! index) = 1"
    and "pa_kind (la_params (gs_layout s') ! index) = Constants_Kind \<Longrightarrow> \<not> gs_observed_args s' \<Longrightarrow>
      gs_offsets s' ! index + pa_count (la_params (gs_layout s') ! index) \<le> 64"
  using assms by (auto simp: gfx_ok_def layout_ok_def words_ok_def offsets_ok_def param_fits_def split: if_splits)

lemma admitted_count:
  assumes "la_valid (gs_layout (admit_param index kind s))" "gs_observed_args s"
    "index < la_count (gs_layout (admit_param index kind s))" "gfx_ok s"
  shows "pa_count (la_params (gs_layout (admit_param index kind s)) ! index) \<noteq> 0"
  using assms admitted_param(1) [OF admit_param_ok [OF assms(4)] assms(1,3)]
  by (auto simp: admit_param_def Let_def gfx_ok_def split: if_splits)

lemma set_address_ok:
  assumes ok: "gfx_ok s" and valid: "la_valid (gs_layout s)" and index: "index < la_count (gs_layout s)"
    and kind: "pa_kind (la_params (gs_layout s) ! index) \<noteq> Constants_Kind"
    and und: "\<not> gs_undefined s ! index"
  shows "gfx_ok (set_address index address s)"
proof -
  let ?vs = "(gs_values s)[index := \<lparr>va_known = 1, va_address = address\<rparr>]"
  have len: "length (gs_values s) = 64" "index < 64"
    using admitted_param(1) [OF ok valid index] ok by (simp_all add: gfx_ok_def)
  have "undefined_ok (gs_undefined s) ?vs"
    using ok und len by (auto simp: gfx_ok_def undefined_ok_def nth_list_update)
  moreover have "layout_ok (gs_observed_args s) (gs_layout s) (gs_offsets s) ?vs (gs_undefined s)
      (gs_word_count s) (gs_word_keys s)"
    using ok valid index kind len
    by (auto simp: gfx_ok_def layout_ok_def addresses_ok_def counts_ok_def nth_list_update)
  ultimately show ?thesis
    using ok by (simp add: set_address_def gfx_ok_def)
qed

lemma clear_undefined_ok: "gfx_ok s \<Longrightarrow> gfx_ok (s\<lparr>gs_undefined := (gs_undefined s)[n := False]\<rparr>)"
  unfolding gfx_ok_def
  by (cases "n < length (gs_undefined s)")
    (simp_all add: undefined_ok_def layout_ok_def tables_ok_def nth_list_update)

lemma root_table_ok:
  assumes ok: "gfx_ok s"
  shows "gfx_ok (root_table index address s)"
proof (cases rule: root_parameter_cases [of index Table_Kind s])
  case refused
  with admit_param_ok [OF ok] show ?thesis by (simp add: root_table_def)
next
  case admitted
  define s' where "s' = (admit_param index Table_Kind s)\<lparr>gs_undefined := (gs_undefined (admit_param index Table_Kind s))[index := False]\<rparr>"
  have s': "gfx_ok s'"
    unfolding s'_def by (rule clear_undefined_ok [OF admit_param_ok [OF ok]])
  have "length (gs_undefined (admit_param index Table_Kind s)) = 64"
    using admit_param_ok [OF ok] by (simp add: gfx_ok_def)
  then have "gfx_ok (set_address index address s')"
    using admitted admitted_param(1) [OF admit_param_ok [OF ok] admitted(2,3)]
    by (intro set_address_ok [OF s']) (simp_all add: s'_def)
  moreover have "root_table index address s = set_address index address s'"
    using admitted(1) by (simp add: root_table_def set_address_def s'_def)
  ultimately show ?thesis by simp
qed

lemma root_descriptor_ok:
  assumes ok: "gfx_ok s"
  shows "gfx_ok (root_descriptor index kind address s)"
proof (cases "kind = Table_Kind \<or> kind = Constants_Kind")
  case True
  with ok show ?thesis by (simp add: root_descriptor_def)
next
  case False
  note ok' = admit_param_ok [OF ok, of index kind]
  show ?thesis
  proof (cases rule: root_parameter_cases [of index kind s])
    case refused
    with ok' False show ?thesis by (simp add: root_descriptor_def)
  next
    case admitted
    have "\<not> gs_undefined (admit_param index kind s) ! index"
      using ok' admitted False admitted_param(1) [OF ok' admitted(2,3)]
      by (auto simp: gfx_ok_def layout_ok_def tables_ok_def)
    then have "gfx_ok (set_address index address (admit_param index kind s))"
      using admitted False by (intro set_address_ok [OF ok']) auto
    with admitted(1) False show ?thesis by (simp add: root_descriptor_def)
  qed
qed

lemma length_take_le: "n \<le> length xs \<Longrightarrow> length (take n xs) = n"
  by simp

text \<open>Appending a key that is not there, or overwriting the word of one that is.\<close>

lemma observe_words_ok:
  assumes "gfx_ok s" "gs_observed_args s" "la_valid (gs_layout s)" "index < la_count (gs_layout s)"
    and "la_params (gs_layout s) ! index = \<lparr>pa_kind = Constants_Kind, pa_count = 1\<rparr>"
    and "index * 64 \<le> key" "key + length ws \<le> index * 64 + 64"
  shows "gfx_ok (observe_words key ws s)"
  using assms
proof (induction ws arbitrary: key s)
  case Nil
  then show ?case by simp
next
  case (Cons w ws)
  define slot where "slot = (case first_index (\<lambda>k. k = key) (take (gs_word_count s) (gs_word_keys s)) of
            Some i \<Rightarrow> i | None \<Rightarrow> gs_word_count s)"
  define s' where "s' = (if slot = gs_word_count s
                then s\<lparr>gs_word_keys := (gs_word_keys s)[slot := key], gs_word_count := gs_word_count s + 1\<rparr>
                else s)"
  have lens: "length (gs_word_keys s) = 64" "length (gs_constants s) = 64"
    and words: "words_ok (la_params (gs_layout s)) (la_count (gs_layout s)) (gs_word_count s) (gs_word_keys s)"
    and le: "gs_word_count s \<le> 64"
    using Cons.prems by (simp_all add: gfx_ok_def layout_ok_def words_ok_def)
  show ?case
  proof (cases "slot = 64")
    case True
    with Cons.prems(1) show ?thesis
      by (simp add: slot_def [symmetric])
  next
    case False
    have "key div 64 = index"
      using Cons.prems(6,7) by auto
    have "gfx_ok s'"
    proof (cases "slot = gs_word_count s")
      case new: True
      have lt: "gs_word_count s < 64"
        using new False le by simp
      have "key \<notin> set (take (gs_word_count s) (gs_word_keys s))"
      proof
        assume "key \<in> set (take (gs_word_count s) (gs_word_keys s))"
        then obtain i where i: "first_index (\<lambda>k. k = key) (take (gs_word_count s) (gs_word_keys s)) = Some i"
          by (cases "first_index (\<lambda>k. k = key) (take (gs_word_count s) (gs_word_keys s))")
            (auto simp: first_index_None)
        with first_index_Some [OF i] new show False
          by (simp add: slot_def)
      qed
      moreover have "take (gs_word_count s + 1) ((gs_word_keys s)[slot := key]) = take (gs_word_count s) (gs_word_keys s) @ [key]"
        using new lt lens by (simp add: take_Suc_conv_app_nth)
      ultimately have "words_ok (la_params (gs_layout s)) (la_count (gs_layout s)) (gs_word_count s + 1) ((gs_word_keys s)[slot := key])"
        using words lt \<open>key div 64 = index\<close> Cons.prems(4,5) by (simp add: words_ok_def)
      then show ?thesis
        using Cons.prems(1-3) new by (simp add: s'_def gfx_ok_def layout_ok_def)
    next
      case False
      with Cons.prems(1) show ?thesis by (simp add: s'_def)
    qed
    then have "gfx_ok (s'\<lparr>gs_constants := (gs_constants s')[slot := w]\<rparr>)"
      by (simp add: gfx_ok_def)
    then have "gfx_ok (observe_words (key + 1) ws (s'\<lparr>gs_constants := (gs_constants s')[slot := w]\<rparr>))"
      using Cons.prems by (intro Cons.IH) (simp_all add: s'_def)
    with False show ?thesis
      by (simp add: Let_def slot_def [symmetric] s'_def [symmetric])
  qed
qed

lemma root_constants_ok:
  assumes ok: "gfx_ok s" and data: "points_to count data"
  shows "gfx_ok (root_constants index first count data s)"
proof (cases rule: root_parameter_cases [of index Constants_Kind s])
  case refused
  with admit_param_ok [OF ok] show ?thesis by (simp add: root_constants_def)
next
  case admitted
  define s' where "s' = admit_param index Constants_Kind s"
  have s': "gfx_ok s'" "la_valid (gs_layout s')" "index < la_count (gs_layout s')"
    "pa_kind (la_params (gs_layout s') ! index) = Constants_Kind" "root_parameter index Constants_Kind s = (True, s')"
    "gs_observed_args s' = gs_observed_args s"
    using admitted admit_param_ok [OF ok] by (simp_all add: s'_def) (simp add: admit_param_def Let_def)
  note index = admitted_param [OF s'(1-3)]
  show ?thesis
  proof (cases "gs_observed_args s'")
    case True
    have "pa_count (la_params (gs_layout s') ! index) \<noteq> 0"
      using admitted_count [OF _ _ _ ok, of index Constants_Kind] s' True by (simp add: s'_def)
    moreover have "pa_count (la_params (gs_layout s') ! index) \<le> 1"
      using s' True index(1) by (simp add: gfx_ok_def layout_ok_def counts_ok_def)
    ultimately have "la_params (gs_layout s') ! index = \<lparr>pa_kind = Constants_Kind, pa_count = 1\<rparr>"
      using s'(4) by (intro root_param.equality) simp_all
    then have "gfx_ok (observe_words (index * 64 + first) (take count (the data)) s')"
      if "\<not> (data = None \<or> count = 0 \<or> first \<ge> 64 \<or> count > 64 - first)"
      using that True s' by (intro observe_words_ok) auto
    with s' True show ?thesis
      by (auto simp: root_constants_def)
  next
    case False
    have "gfx_ok (s'\<lparr>gs_constants := write_at (gs_offsets s' ! index + first) (take count (the data)) (gs_constants s'),
                 gs_values := (gs_values s')[index := (gs_values s' ! index)
                   \<lparr>va_known := va_known (gs_values s' ! index) OR push_bit first (known_mask count)\<rparr>]\<rparr>)"
      if "\<not> (data = None \<or> count = 0 \<or> first > pa_count (la_params (gs_layout s') ! index) \<or>
              count > pa_count (la_params (gs_layout s') ! index) - first)"
    proof -
      have "length (take count (the data)) = count"
        using data that by (auto simp: points_to_def)
      moreover have "\<not> gs_undefined s' ! index"
        using s' index(1) by (auto simp: gfx_ok_def layout_ok_def tables_ok_def)
      ultimately show ?thesis
        using s' index False that
        by (simp add: gfx_ok_def layout_ok_def) (auto simp: undefined_ok_def nth_list_update)
    qed
    with s' False show ?thesis
      by (auto simp: root_constants_def)
  qed
qed

lemma forget_value:
  assumes "length vs = 64"
  shows "addresses_ok ps count vs \<Longrightarrow> addresses_ok ps count (vs[n := (vs ! n)\<lparr>va_known := 0\<rparr>])"
    and "undefined_ok und vs \<Longrightarrow> length und = 64 \<Longrightarrow> undefined_ok (und[n := False]) (vs[n := (vs ! n)\<lparr>va_known := 0\<rparr>])"
  using assms by (cases "n < 64"; auto simp: addresses_ok_def undefined_ok_def nth_list_update list_update_beyond)+

lemma forget_table_ok:
  assumes "gfx_ok s"
  shows "gfx_ok (forget_table n s)"
proof -
  have "tables_ok ps und \<Longrightarrow> length und = 64 \<Longrightarrow> tables_ok ps (und[n := False])" for ps und
    by (cases "n < 64") (auto simp: tables_ok_def nth_list_update list_update_beyond)
  with assms forget_value show ?thesis
    by (simp add: forget_table_def gfx_ok_def layout_ok_def)
qed

text \<open>After the heap set changed, no table of the layout is known.\<close>

definition tables_unknown :: "nat list \<Rightarrow> gfx \<Rightarrow> bool" where
  "tables_unknown ns s \<longleftrightarrow> (\<forall>n \<in> set ns. n < 64 \<longrightarrow> pa_kind (la_params (gs_layout s) ! n) = Table_Kind \<longrightarrow>
     va_known (gs_values s ! n) = 0)"

lemma forget_table_unknown:
  assumes "gfx_ok s" "tables_unknown ns s"
  shows "tables_unknown (ns @ [n]) (forget_table n s)"
proof -
  have "length (gs_values s) = 64"
    using assms(1) by (simp add: gfx_ok_def)
  with assms(2) show ?thesis
    by (cases "n < 64") (auto simp: tables_unknown_def forget_table_def nth_list_update list_update_beyond)
qed

lemma heaps_changed_result:
  assumes "gfx_ok s"
  shows "gfx_ok (heaps_changed s) \<and> gs_layout (heaps_changed s) = gs_layout s \<and>
    tables_unknown [0..<la_count (gs_layout s)] (heaps_changed s)"
proof -
  have layout: "gs_layout (forget_table n t) = gs_layout t" for n t
    by (simp add: forget_table_def)
  have "gfx_ok (fold forget_table ns s) \<and> gs_layout (fold forget_table ns s) = gs_layout s \<and>
      tables_unknown ns (fold forget_table ns s)" for ns
    by (induction ns rule: rev_induct)
      (use assms in \<open>simp_all add: tables_unknown_def [of "[]"] forget_table_ok forget_table_unknown layout\<close>)
  then show ?thesis by (simp add: heaps_changed_def)
qed

lemma undefine_table_ok:
  assumes ok: "gfx_ok s" and "n < 64 \<Longrightarrow> pa_kind (la_params (gs_layout s) ! n) = Table_Kind \<Longrightarrow> va_known (gs_values s ! n) = 0"
    and "n < la_count (gs_layout s)"
  shows "gfx_ok (undefine_table n s)"
proof (cases "pa_kind (la_params (gs_layout s) ! n) = Table_Kind \<and> n < 64")
  case False
  moreover have "length (gs_undefined s) = 64"
    using ok by (simp add: gfx_ok_def)
  ultimately show ?thesis
    using ok by (auto simp: undefine_table_def list_update_beyond)
next
  case True
  then have "undefined_ok ((gs_undefined s)[n := True]) (gs_values s)"
    using ok assms(2) by (auto simp: gfx_ok_def undefined_ok_def nth_list_update)
  moreover have "tables_ok (la_params (gs_layout s)) ((gs_undefined s)[n := True])" if "la_valid (gs_layout s)"
  proof -
    have "pa_count (la_params (gs_layout s) ! n) = 1"
      using ok that assms(3) True
      by (auto simp: gfx_ok_def layout_ok_def counts_ok_def offsets_ok_def param_fits_def split: if_splits)
    with ok that True show ?thesis
      by (auto simp: gfx_ok_def layout_ok_def tables_ok_def nth_list_update)
  qed
  ultimately show ?thesis
    using ok True by (simp add: undefine_table_def gfx_ok_def layout_ok_def)
qed

lemma undefine_tables_ok:
  assumes ok: "gfx_ok s" and unknown: "tables_unknown [0..<la_count (gs_layout s)] s"
  shows "gfx_ok (undefine_tables s)"
proof -
  have same: "gs_layout (undefine_table n t) = gs_layout t" "gs_values (undefine_table n t) = gs_values t" for n t
    by (simp_all add: undefine_table_def)
  have "gfx_ok (fold undefine_table ns s) \<and> gs_layout (fold undefine_table ns s) = gs_layout s \<and>
      gs_values (fold undefine_table ns s) = gs_values s"
    if "set ns \<subseteq> {..<la_count (gs_layout s)}" for ns
    using that
  proof (induction ns rule: rev_induct)
    case Nil
    with ok show ?case by simp
  next
    case (snoc n ns)
    with unknown undefine_table_ok [of "fold undefine_table ns s" n] same show ?case
      by (simp add: tables_unknown_def)
  qed
  moreover have "set [0..<la_count (gs_layout s)] \<subseteq> {..<la_count (gs_layout s)}"
    by auto
  ultimately show ?thesis
    unfolding undefine_tables_def by blast
qed

lemma descriptor_heaps_ok:
  assumes ok: "gfx_ok s"
  shows "gfx_ok (descriptor_heaps count heaps s)"
proof -
  have "gfx_ok (s\<lparr>gs_heaps_known := False\<rparr>)"
    using ok by (simp add: gfx_ok_def)
  then have refused: "gfx_ok (heaps_changed (s\<lparr>gs_heaps_known := False\<rparr>))"
    using heaps_changed_result by blast
  define s' where "s' = (if same_heaps count (if count = 0 then [] else the heaps) s then s
                   else let s1 = heaps_changed s in if gs_native_root s1 then undefine_tables s1 else s1)"
  have "gfx_ok s'"
    using ok heaps_changed_result [OF ok] undefine_tables_ok [of "heaps_changed s"] by (simp add: s'_def Let_def)
  then have "gfx_ok (s'\<lparr>gs_heaps_known := True, gs_heap_count := count,
               gs_heaps := write_at 0 (if count = 0 then [] else take count (the heaps)) [0, 0]\<rparr>)"
    by (simp add: gfx_ok_def)
  with refused show ?thesis
    unfolding descriptor_heaps_def Let_def if_distrib [of gfx_ok] gfx_invalidate_ok s'_def by simp
qed

interpretation gfx: machine gfx_step gfx_ok gfx_event_ok
proof unfold_locales
  fix ev s
  assume "gfx_event_ok ev" and "gfx_ok s"
  then show "gfx_ok (gfx_step ev s)"
    using gfx_reset_ok bind_pipeline_ok depth_bias_ok strip_cut_ok sample_positions_ok bind_root_ok
      bind_observed_root_ok root_constants_ok root_table_ok root_descriptor_ok descriptor_heaps_ok
      heaps_changed_result set_topology_ok set_viewports_ok set_scissors_ok
    by (cases ev) simp_all
qed

subsection \<open>The round trip\<close>

text \<open>A restoring call, observed again on a list whose root signature has this generation and layout.\<close>

fun observe_call :: "bool \<Rightarrow> u64 \<Rightarrow> root_layout \<Rightarrow> native_call \<Rightarrow> gfx \<Rightarrow> gfx" where
  "observe_call observed g layout (Set_Pipeline_State p) s = bind_pipeline p s"
| "observe_call observed g layout (Set_Depth_Bias native b) s = depth_bias native b s"
| "observe_call observed g layout (Set_Strip_Cut native v) s = strip_cut native v s"
| "observe_call observed g layout (Set_Root_Signature r) s =
     (if observed then bind_observed_root r g s else bind_root r g layout True s)"
| "observe_call observed g layout (Set_Root_Constant i w d) s = root_constants i d 1 (Some [w]) s"
| "observe_call observed g layout (Set_Root_Constants i c ws d) s = root_constants i d c (Some ws) s"
| "observe_call observed g layout (Set_Root_Table i a) s = root_table i a s"
| "observe_call observed g layout (Set_Root_Descriptor k i a) s = root_descriptor i k a s"
| "observe_call observed g layout (Set_Sample_Positions native c p ps) s = sample_positions native c p (Some ps) s"
| "observe_call observed g layout (Set_Topology v) s = set_topology v s"
| "observe_call observed g layout (Set_Viewports c vs) s = set_viewports 0 c (Some vs) s"
| "observe_call observed g layout (Set_Scissor_Rects c rs) s = set_scissors 0 c (Some rs) s"

text \<open>What a list has bound: only these matter to its draws.\<close>

datatype root_argument = Words "u32 list" | Address root_kind u64

definition argument_of :: "gfx \<Rightarrow> nat \<Rightarrow> root_argument option" where
  "argument_of s n =
     (let p = la_params (gs_layout s) ! n; v = gs_values s ! n in
      if n \<ge> la_count (gs_layout s) then None
      else if pa_kind p = Constants_Kind
        then if gs_observed_args s then None
             else Some (Words (take (pa_count p) (drop (gs_offsets s ! n) (gs_constants s))))
      else if va_known v = 0 then None else Some (Address (pa_kind p) (va_address v)))"

definition observed_words :: "gfx \<Rightarrow> (nat \<times> u32) list" where
  "observed_words s = (if gs_observed_args s then take (gs_word_count s) (zip (gs_word_keys s) (gs_constants s)) else [])"

definition same_pipeline :: "gfx \<Rightarrow> gfx \<Rightarrow> bool" where
  "same_pipeline s t \<longleftrightarrow> gs_pipeline t = gs_pipeline s \<and> gs_bias_known t = gs_bias_known s \<and>
     gs_strip_known t = gs_strip_known s \<and>
     (if gs_bias_known s then gs_bias t = gs_bias s else True) \<and>
     (if gs_strip_known s then gs_strip t = gs_strip s else True)"

definition same_raster :: "gfx \<Rightarrow> gfx \<Rightarrow> bool" where
  "same_raster s t \<longleftrightarrow> gs_sample_count t = gs_sample_count s \<and>
     (if gs_sample_count s = 0 then True else gs_sample_pixels t = gs_sample_pixels s \<and>
       take (gs_sample_count s * gs_sample_pixels s) (gs_positions t) =
       take (gs_sample_count s * gs_sample_pixels s) (gs_positions s)) \<and>
     gs_topology t = gs_topology s \<and> gs_viewport_count t = gs_viewport_count s \<and>
     take (gs_viewport_count s) (gs_viewports t) = take (gs_viewport_count s) (gs_viewports s) \<and>
     gs_scissor_count t = gs_scissor_count s \<and>
     take (gs_scissor_count s) (gs_scissors t) = take (gs_scissor_count s) (gs_scissors s)"

definition same_root :: "gfx \<Rightarrow> gfx \<Rightarrow> bool" where
  "same_root s t \<longleftrightarrow> gs_root t = gs_root s \<and> gs_layout_generation t = gs_layout_generation s \<and>
     gs_observed_args t = gs_observed_args s \<and> observed_words t = observed_words s \<and>
     argument_of t = argument_of s"

definition same_bindings :: "gfx \<Rightarrow> gfx \<Rightarrow> bool" where
  "same_bindings s t \<longleftrightarrow> same_pipeline s t \<and> same_root s t \<and> same_raster s t"

text \<open>The fields of a completed state.\<close>

lemma completeD:
  assumes "gfx_complete s"
  shows "gs_invalid s = None" "gs_observed s" "gs_generation s \<noteq> 0" "gs_pipeline s \<noteq> 0" "gs_root s \<noteq> 0"
    "gs_layout_generation s \<noteq> 0" "la_valid (gs_layout s)" "gs_topology s \<noteq> 0" "gs_viewport_count s \<noteq> 0"
    "gs_scissor_count s \<noteq> 0"
    "\<not> gs_observed_args s \<Longrightarrow> n < la_count (gs_layout s) \<Longrightarrow> \<not> argument_missing s n"
  using assms by (auto simp: gfx_complete_def incomplete_reason_def find_None_iff split: if_splits)

text \<open>The pipeline calls.\<close>

abbreviation observe_calls :: "bool \<Rightarrow> u64 \<Rightarrow> root_layout \<Rightarrow> native_call list \<Rightarrow> gfx \<Rightarrow> gfx" where
  "observe_calls observed g layout \<equiv> fold (observe_call observed g layout)"

lemma replay_pipeline:
  assumes ok: "gfx_ok s" and fresh: "gs_invalid t = None"
  shows "\<exists>dyn b sc. observe_calls obs g layout (restore_pipeline s) t =
    t\<lparr>gs_pipeline := gs_pipeline s, gs_bias_known := gs_bias_known s, gs_strip_known := gs_strip_known s,
      gs_dynamic := dyn, gs_bias := b, gs_strip := sc\<rparr> \<and>
    (gs_bias_known s \<longrightarrow> b = gs_bias s) \<and> (gs_strip_known s \<longrightarrow> sc = gs_strip s)"
proof -
  have dyn: "dynamic_ok (gs_bias_known s) (gs_strip_known s) (gs_dynamic s) (gs_bias s) (gs_strip s)"
    using ok by (simp add: gfx_ok_def)
  define t1 where "t1 = bind_pipeline (gs_pipeline s) t"
  have t1: "gs_dynamic t1 = 0" "t1 = t\<lparr>gs_pipeline := gs_pipeline s, gs_bias_known := False, gs_strip_known := False, gs_dynamic := 0\<rparr>"
    by (simp_all add: t1_def bind_pipeline_def)
  define t2 where "t2 = (if gs_bias_known s then depth_bias (gs_dynamic s) (gs_bias s) t1 else t1)"
  have t2: "t2 = (if gs_bias_known s then t1\<lparr>gs_dynamic := gs_dynamic s, gs_bias := gs_bias s, gs_bias_known := True\<rparr> else t1)"
    using dyn t1(1) by (auto simp: t2_def depth_bias_def dynamic_ok_def split: prod.splits)
  define t3 where "t3 = (if gs_strip_known s then strip_cut (gs_dynamic s) (gs_strip s) t2 else t2)"
  have t3: "t3 = (if gs_strip_known s then t2\<lparr>gs_dynamic := gs_dynamic s, gs_strip := gs_strip s, gs_strip_known := True\<rparr> else t2)"
    using dyn t1(1) t2 by (auto simp: t3_def strip_cut_def dynamic_ok_def)
  have "observe_calls obs g layout (restore_pipeline s) t = t3"
    by (simp add: restore_pipeline_def t3_def t2_def t1_def)
  also have "\<exists>dyn b sc. t3 = t\<lparr>gs_pipeline := gs_pipeline s, gs_bias_known := gs_bias_known s, gs_strip_known := gs_strip_known s,
      gs_dynamic := dyn, gs_bias := b, gs_strip := sc\<rparr> \<and>
    (gs_bias_known s \<longrightarrow> b = gs_bias s) \<and> (gs_strip_known s \<longrightarrow> sc = gs_strip s)"
    by (intro exI [of _ "gs_dynamic t3"] exI [of _ "gs_bias t3"] exI [of _ "gs_strip t3"])
      (simp add: t3 t2 t1(2))
  finally show ?thesis .
qed

lemma take_write_all: "length xs = 16 \<Longrightarrow> length ys = 16 \<Longrightarrow> n \<le> 16 \<Longrightarrow> take n (write_at 0 (take n xs) ys) = take n xs"
  by (simp add: write_at_def min_def)

lemma replay_raster:
  assumes ok: "gfx_ok s" and complete: "gfx_complete s"
    and native: "has_sample_positions s \<Longrightarrow> gs_sample_native s = native"
    and t: "length (gs_positions t) = 16" "length (gs_viewports t) = 16" "length (gs_scissors t) = 16"
      "gs_invalid t = None" "gs_sample_native t = 0" "gs_sample_count t = 0"
  shows "\<exists>sn sp ps vs rs. observe_calls obs g layout (restore_raster native s) t =
    t\<lparr>gs_sample_native := sn, gs_sample_count := gs_sample_count s, gs_sample_pixels := sp, gs_positions := ps,
      gs_topology := gs_topology s, gs_viewport_count := gs_viewport_count s, gs_viewports := vs,
      gs_scissor_count := gs_scissor_count s, gs_scissors := rs\<rparr> \<and>
    (gs_sample_count s \<noteq> 0 \<longrightarrow> sp = gs_sample_pixels s \<and>
       take (gs_sample_count s * gs_sample_pixels s) ps = take (gs_sample_count s * gs_sample_pixels s) (gs_positions s)) \<and>
    take (gs_viewport_count s) vs = take (gs_viewport_count s) (gs_viewports s) \<and>
    take (gs_scissor_count s) rs = take (gs_scissor_count s) (gs_scissors s)"
proof -
  note c = completeD [OF complete]
  define t1 where "t1 = observe_calls obs g layout (restore_sample_positions native s) t"
  have "\<exists>sn sp ps. t1 = t\<lparr>gs_sample_native := sn, gs_sample_count := gs_sample_count s, gs_sample_pixels := sp, gs_positions := ps\<rparr> \<and>
    (gs_sample_count s \<noteq> 0 \<longrightarrow> sp = gs_sample_pixels s \<and>
       take (gs_sample_count s * gs_sample_pixels s) ps = take (gs_sample_count s * gs_sample_pixels s) (gs_positions s))"
  proof (cases "gs_sample_count s = 0")
    case True
    then have "t1 = t\<lparr>gs_sample_native := gs_sample_native t, gs_sample_count := gs_sample_count s,
        gs_sample_pixels := gs_sample_pixels t, gs_positions := gs_positions t\<rparr>"
      using t(6) by (simp add: t1_def restore_sample_positions_def has_sample_positions_def)
    with True show ?thesis by blast
  next
    case False
    then have samples: "samples_ok (gs_sample_native s) (gs_sample_count s) (gs_sample_pixels s) (gs_positions s)"
      using ok by (simp add: gfx_ok_def)
    then have counts: "gs_sample_native s \<noteq> 0" "sample_counts_ok (gs_sample_count s) (gs_sample_pixels s)"
      "list_all coordinate_ok (take (gs_sample_count s * gs_sample_pixels s) (gs_positions s))" "length (gs_positions s) = 16"
      using False by (simp_all add: samples_ok_def)
    have "t1 = t\<lparr>gs_sample_native := gs_sample_native s, gs_sample_count := gs_sample_count s,
        gs_sample_pixels := gs_sample_pixels s,
        gs_positions := write_at 0 (take (gs_sample_count s * gs_sample_pixels s) (gs_positions s)) (gs_positions t)\<rparr>"
      using False native counts t(5)
      by (simp add: t1_def restore_sample_positions_def has_sample_positions_def sample_positions_cases)
    then show ?thesis
      using take_write_all [OF counts(4) t(1)] sample_counts_bound [OF counts(2)] by blast
  qed
  then obtain sn sp ps where t1: "t1 = t\<lparr>gs_sample_native := sn, gs_sample_count := gs_sample_count s, gs_sample_pixels := sp, gs_positions := ps\<rparr>"
    and same: "gs_sample_count s \<noteq> 0 \<longrightarrow> sp = gs_sample_pixels s \<and>
       take (gs_sample_count s * gs_sample_pixels s) ps = take (gs_sample_count s * gs_sample_pixels s) (gs_positions s)"
    by blast
  have views: "viewports_ok (gs_viewport_count s) (gs_viewports s)" "scissors_ok (gs_scissor_count s) (gs_scissors s)"
    using ok by (simp_all add: gfx_ok_def)
  define vs where "vs = write_at 0 (take (gs_viewport_count s) (gs_viewports s)) (gs_viewports t)"
  define rs where "rs = write_at 0 (take (gs_scissor_count s) (gs_scissors s)) (gs_scissors t)"
  have take: "take (gs_viewport_count s) vs = take (gs_viewport_count s) (gs_viewports s)"
    "take (gs_scissor_count s) rs = take (gs_scissor_count s) (gs_scissors s)"
    using views t(2,3) by (auto simp: vs_def rs_def viewports_ok_def scissors_ok_def intro!: take_write_all)
  have "observe_calls obs g layout (restore_raster native s) t =
      t1\<lparr>gs_topology := gs_topology s, gs_viewport_count := gs_viewport_count s, gs_viewports := vs,
      gs_scissor_count := gs_scissor_count s, gs_scissors := rs\<rparr>"
    using views c(9,10)
    by (simp add: restore_raster_def t1_def [symmetric] set_topology_def set_viewports_def set_scissors_def
        viewports_ok_def scissors_ok_def) (simp add: t1 vs_def rs_def)
  then have "observe_calls obs g layout (restore_raster native s) t =
    t\<lparr>gs_sample_native := sn, gs_sample_count := gs_sample_count s, gs_sample_pixels := sp, gs_positions := ps,
      gs_topology := gs_topology s, gs_viewport_count := gs_viewport_count s, gs_viewports := vs,
      gs_scissor_count := gs_scissor_count s, gs_scissors := rs\<rparr>"
    by (simp add: t1)
  with same take show ?thesis by blast
qed

lemma const_offset_mono:
  assumes "k < n" "n \<le> length ps" "pa_kind (ps ! k) = Constants_Kind"
  shows "const_offset ps k + pa_count (ps ! k) \<le> const_offset ps n"
  using assms
proof (induction n)
  case 0
  then show ?case by simp
next
  case (Suc n)
  then show ?case
    by (cases "k = n") (simp_all add: param_fits_step const_words_def)
qed

lemma known_mask_nonzero: "0 < c \<Longrightarrow> c \<le> 64 \<Longrightarrow> known_mask c \<noteq> 0"
proof -
  assume "0 < c" "c \<le> 64"
  then have "bit (known_mask c) 0"
    by (auto simp: known_mask_def bit_simps simp flip: mask_eq_exp_minus_1 simp: push_bit_eq_mult)
  then show ?thesis by auto
qed

lemma known_mask_1: "known_mask 1 = 1"
  by (simp add: known_mask_def)

text \<open>What a completed state knows of its arguments.\<close>

lemma complete_value:
  assumes ok: "gfx_ok s" and complete: "gfx_complete s" and obs: "\<not> gs_observed_args s"
    and n: "n < la_count (gs_layout s)"
  shows "n < 64"
    and "pa_kind (la_params (gs_layout s) ! n) = Constants_Kind \<Longrightarrow> 0 < pa_count (la_params (gs_layout s) ! n) \<and>
      gs_offsets s ! n = const_offset (la_params (gs_layout s)) n \<and>
      const_offset (la_params (gs_layout s)) n + pa_count (la_params (gs_layout s) ! n) \<le> 64"
    and "pa_kind (la_params (gs_layout s) ! n) \<noteq> Constants_Kind \<Longrightarrow> pa_count (la_params (gs_layout s) ! n) = 1"
    and "pa_kind (la_params (gs_layout s) ! n) \<noteq> Constants_Kind \<Longrightarrow> pa_kind (la_params (gs_layout s) ! n) \<noteq> Table_Kind \<Longrightarrow>
      va_known (gs_values s ! n) = 1"
    and "pa_kind (la_params (gs_layout s) ! n) = Table_Kind \<Longrightarrow> va_known (gs_values s ! n) = 0 \<or> va_known (gs_values s ! n) = 1"
proof -
  have "offsets_ok (la_params (gs_layout s)) (la_count (gs_layout s)) (gs_offsets s)"
    using ok obs completeD(7) [OF complete] by (simp add: gfx_ok_def layout_ok_def)
  then have fits: "param_fits (la_params (gs_layout s)) n" and "la_count (gs_layout s) \<le> 64"
    and offs: "pa_kind (la_params (gs_layout s) ! n) = Constants_Kind \<Longrightarrow> gs_offsets s ! n = const_offset (la_params (gs_layout s)) n"
    using n by (auto simp: offsets_ok_def)
  with n show n64: "n < 64" by simp
  show "pa_kind (la_params (gs_layout s) ! n) = Constants_Kind \<Longrightarrow> 0 < pa_count (la_params (gs_layout s) ! n) \<and>
      gs_offsets s ! n = const_offset (la_params (gs_layout s)) n \<and>
      const_offset (la_params (gs_layout s)) n + pa_count (la_params (gs_layout s) ! n) \<le> 64"
    using fits offs by (auto simp: param_fits_def)
  show one: "pa_kind (la_params (gs_layout s) ! n) \<noteq> Constants_Kind \<Longrightarrow> pa_count (la_params (gs_layout s) ! n) = 1"
    using fits by (simp add: param_fits_def)
  have "\<not> argument_missing s n"
    using completeD(11) [OF complete obs n] .
  then show "pa_kind (la_params (gs_layout s) ! n) \<noteq> Constants_Kind \<Longrightarrow> pa_kind (la_params (gs_layout s) ! n) \<noteq> Table_Kind \<Longrightarrow>
      va_known (gs_values s ! n) = 1"
    and "pa_kind (la_params (gs_layout s) ! n) = Table_Kind \<Longrightarrow> va_known (gs_values s ! n) = 0 \<or> va_known (gs_values s ! n) = 1"
    using one known_mask_1 ok n64 by (auto simp: argument_missing_def Let_def gfx_ok_def undefined_ok_def)
qed

lemma root_parameter_known:
  assumes "\<not> gs_observed_args t" "la_valid (gs_layout t)" "n < la_count (gs_layout t)"
    "pa_kind (la_params (gs_layout t) ! n) = k"
  shows "root_parameter n k t = (True, t)"
  using assms by (simp add: root_parameter_def admit_param_def Let_def)

text \<open>The values a replay of the first \<open>m\<close> arguments leaves.\<close>

definition replayed_value :: "gfx \<Rightarrow> nat \<Rightarrow> root_value" where
  "replayed_value s n =
     (let p = la_params (gs_layout s) ! n in
      if pa_kind p = Constants_Kind then \<lparr>va_known = known_mask (pa_count p), va_address = 0\<rparr>
      else if va_known (gs_values s ! n) = 0 then no_value
      else \<lparr>va_known = 1, va_address = va_address (gs_values s ! n)\<rparr>)"

definition replayed_undefined :: "gfx \<Rightarrow> nat \<Rightarrow> bool" where
  "replayed_undefined s n \<longleftrightarrow> pa_kind (la_params (gs_layout s) ! n) = Table_Kind \<and> va_known (gs_values s ! n) = 0"

definition const_slice :: "gfx \<Rightarrow> u32 list \<Rightarrow> nat \<Rightarrow> u32 list" where
  "const_slice s cs n = take (pa_count (la_params (gs_layout s) ! n)) (drop (const_offset (la_params (gs_layout s)) n) cs)"

definition replay_upto :: "gfx \<Rightarrow> nat \<Rightarrow> root_value list \<Rightarrow> u32 list \<Rightarrow> bool list \<Rightarrow> bool" where
  "replay_upto s m vs cs und \<longleftrightarrow> length vs = 64 \<and> length cs = 64 \<and> length und = 64 \<and>
     (\<forall>n < m. vs ! n = replayed_value s n \<and> und ! n = replayed_undefined s n \<and>
        (pa_kind (la_params (gs_layout s) ! n) = Constants_Kind \<longrightarrow> const_slice s cs n = const_slice s (gs_constants s) n)) \<and>
     (\<forall>n. m \<le> n \<and> n < la_count (gs_layout s) \<longrightarrow> vs ! n = no_value \<and>
        und ! n = (pa_kind (la_params (gs_layout s) ! n) = Table_Kind))"

lemma replay_upto_Suc:
  assumes "replay_upto s m vs cs und" and "m < la_count (gs_layout s)" "la_count (gs_layout s) \<le> 64"
    and "pa_kind (la_params (gs_layout s) ! m) \<noteq> Constants_Kind"
  shows "replay_upto s (Suc m) (vs[m := replayed_value s m]) cs (und[m := replayed_undefined s m])"
  using assms by (auto simp: replay_upto_def nth_list_update less_Suc_eq)

lemma slice_write_at_before:
  "off + length xs \<le> length buf \<Longrightarrow> a + b \<le> off \<Longrightarrow> take b (drop a (write_at off xs buf)) = take b (drop a buf)"
  by (rule nth_equalityI) (auto simp: nth_write_at)

lemma replay_constants:
  assumes upto: "replay_upto s m vs cs und" and m: "m < la_count (gs_layout s)" "la_count (gs_layout s) \<le> 64"
    and kind: "pa_kind (la_params (gs_layout s) ! m) = Constants_Kind"
    and lens: "length (la_params (gs_layout s)) = 64" "length (gs_constants s) = 64"
    and fit: "const_offset (la_params (gs_layout s)) m + pa_count (la_params (gs_layout s) ! m) \<le> 64"
  shows "replay_upto s (Suc m) (vs[m := replayed_value s m])
    (write_at (const_offset (la_params (gs_layout s)) m) (const_slice s (gs_constants s) m) cs) und"
proof -
  define ps where "ps = la_params (gs_layout s)"
  define cs' where "cs' = write_at (const_offset ps m) (const_slice s (gs_constants s) m) cs"
  have len: "length (const_slice s (gs_constants s) m) = pa_count (ps ! m)" "length cs = 64"
    using fit lens upto by (simp_all add: const_slice_def ps_def replay_upto_def)
  have cs': "length cs' = 64"
    using fit len by (simp add: cs'_def ps_def)
  have new: "const_slice s cs' m = const_slice s (gs_constants s) m"
    unfolding const_slice_def [of s cs'] ps_def [symmetric]
    using len fit by (simp add: cs'_def write_at_def ps_def [symmetric])
  have old: "const_slice s cs' n = const_slice s cs n" if "n < m" "pa_kind (ps ! n) = Constants_Kind" for n
  proof -
    have "const_offset ps n + pa_count (ps ! n) \<le> const_offset ps m"
      using that m lens(1) by (intro const_offset_mono) (simp_all add: ps_def)
    moreover have "const_offset ps m \<le> length cs"
      using fit len by (simp add: ps_def)
    ultimately show ?thesis
      unfolding const_slice_def ps_def [symmetric] cs'_def
      using len fit by (intro slice_write_at_before) (simp_all add: ps_def)
  qed
  have "und ! m = replayed_undefined s m"
    using upto m kind by (simp add: replay_upto_def replayed_undefined_def)
  with upto m kind cs' new old show ?thesis
    unfolding cs'_def [symmetric, folded ps_def] ps_def [symmetric]
    by (auto simp: replay_upto_def ps_def [symmetric] nth_list_update less_Suc_eq)
qed

text \<open>The argument calls, from the state the root signature left.\<close>

lemma replay_argument:
  assumes ok: "gfx_ok s" and complete: "gfx_complete s" and obs: "\<not> gs_observed_args s"
    and m: "m < la_count (gs_layout s)" and upto: "replay_upto s m vs cs und"
    and t: "\<not> gs_observed_args t" "gs_layout t = gs_layout s"
      "\<And>n. n < la_count (gs_layout s) \<Longrightarrow> pa_kind (la_params (gs_layout s) ! n) = Constants_Kind \<Longrightarrow>
        gs_offsets t ! n = const_offset (la_params (gs_layout s)) n"
  shows "\<exists>vs' cs' und'. observe_calls b g layout (restore_argument s m)
      (t\<lparr>gs_values := vs, gs_constants := cs, gs_undefined := und\<rparr>) =
      t\<lparr>gs_values := vs', gs_constants := cs', gs_undefined := und'\<rparr> \<and> replay_upto s (Suc m) vs' cs' und'"
proof -
  define ps where "ps = la_params (gs_layout s)"
  define T where "T = t\<lparr>gs_values := vs, gs_constants := cs, gs_undefined := und\<rparr>"
  note known = complete_value [OF ok complete obs m]
  have valid: "la_valid (gs_layout T)" "m < la_count (gs_layout T)" "la_params (gs_layout T) = ps" "\<not> gs_observed_args T"
    using completeD(7) [OF complete] m t by (simp_all add: T_def ps_def)
  have count: "la_count (gs_layout s) \<le> 64"
    using ok obs completeD(7) [OF complete] by (simp add: gfx_ok_def layout_ok_def offsets_ok_def)
  have lens: "length ps = 64" "length (gs_constants s) = 64"
    using ok by (simp_all add: gfx_ok_def ps_def)
  have blank: "vs ! m = no_value" "und ! m = (pa_kind (ps ! m) = Table_Kind)" "length vs = 64" "length und = 64" "length cs = 64"
    using upto m by (simp_all add: replay_upto_def ps_def)
  have admitted: "root_parameter m (pa_kind (ps ! m)) T = (True, T)"
    using valid by (intro root_parameter_known) simp_all
  have descriptor: ?thesis if k: "pa_kind (ps ! m) \<noteq> Constants_Kind" "pa_kind (ps ! m) \<noteq> Table_Kind"
  proof -
    have known1: "va_known (gs_values s ! m) = 1"
      using known(4) k by (simp add: ps_def)
    have "observe_calls b g layout (restore_argument s m) T = root_descriptor m (pa_kind (ps ! m)) (va_address (gs_values s ! m)) T"
      using obs k by (cases "pa_kind (ps ! m)") (simp_all add: restore_argument_def Let_def ps_def [symmetric])
    also have "\<dots> = T\<lparr>gs_values := vs[m := replayed_value s m]\<rparr>"
      using admitted k known1
      by (simp add: root_descriptor_def set_address_def T_def replayed_value_def ps_def [symmetric])
    moreover have "und[m := replayed_undefined s m] = und"
      using k blank m count by (simp add: replayed_undefined_def ps_def list_update_same_conv)
    ultimately show ?thesis
      using replay_upto_Suc [OF upto m count] k unfolding T_def ps_def
      by (intro exI [of _ "vs[m := replayed_value s m]"] exI [of _ cs] exI [of _ und]) simp
  qed
  show ?thesis
  proof (cases "pa_kind (ps ! m)")
    case Constants_Kind
    then have fit: "0 < pa_count (ps ! m)" "gs_offsets s ! m = const_offset ps m" "const_offset ps m + pa_count (ps ! m) \<le> 64"
      using known(2) by (simp_all add: ps_def)
    have "observe_calls b g layout (restore_argument s m) T =
        root_constants m 0 (pa_count (ps ! m)) (Some (const_slice s (gs_constants s) m)) T"
      using obs Constants_Kind fit by (simp add: restore_argument_def Let_def ps_def [symmetric] const_slice_def)
    also have "\<dots> = T\<lparr>gs_constants := write_at (const_offset ps m) (const_slice s (gs_constants s) m) cs,
        gs_values := vs[m := replayed_value s m]\<rparr>"
      using admitted Constants_Kind valid fit t(3) [OF m] blank lens
      by (simp add: root_constants_def T_def ps_def [symmetric] replayed_value_def no_value_def const_slice_def)
    finally show ?thesis
      using replay_constants [OF upto m count] Constants_Kind lens fit unfolding T_def ps_def
      by (intro exI [of _ "vs[m := replayed_value s m]"] exI conjI) simp_all
  next
    case Table_Kind
    show ?thesis
    proof (cases "va_known (gs_values s ! m) = 0")
      case True
      then have "observe_calls b g layout (restore_argument s m) T = T"
        using obs Table_Kind by (simp add: restore_argument_def Let_def ps_def [symmetric])
      moreover have "vs[m := replayed_value s m] = vs" "und[m := replayed_undefined s m] = und"
        using True Table_Kind blank m count
        by (simp_all add: replayed_value_def replayed_undefined_def ps_def list_update_same_conv)
      ultimately show ?thesis
        using replay_upto_Suc [OF upto m count] Table_Kind unfolding T_def ps_def
        by (intro exI [of _ vs] exI [of _ cs] exI [of _ und]) simp
    next
      case False
      then have "observe_calls b g layout (restore_argument s m) T = root_table m (va_address (gs_values s ! m)) T"
        using obs Table_Kind by (simp add: restore_argument_def Let_def ps_def [symmetric])
      also have "\<dots> = T\<lparr>gs_values := vs[m := replayed_value s m], gs_undefined := und[m := replayed_undefined s m]\<rparr>"
        using admitted Table_Kind False
        by (simp add: root_table_def set_address_def T_def replayed_value_def replayed_undefined_def ps_def [symmetric])
      finally show ?thesis
        using replay_upto_Suc [OF upto m count] Table_Kind unfolding T_def ps_def
        by (intro exI [of _ "vs[m := replayed_value s m]"] exI [of _ cs] exI [of _ "und[m := replayed_undefined s m]"]) simp
    qed
  next
    case Cbv_Kind
    then show ?thesis using descriptor by simp
  next
    case Srv_Kind
    then show ?thesis using descriptor by simp
  next
    case Uav_Kind
    then show ?thesis using descriptor by simp
  qed
qed

lemma replay_arguments:
  assumes ok: "gfx_ok s" and complete: "gfx_complete s" and obs: "\<not> gs_observed_args s"
    and upto: "replay_upto s 0 vs cs und"
    and t: "\<not> gs_observed_args t" "gs_layout t = gs_layout s"
      "\<And>n. n < la_count (gs_layout s) \<Longrightarrow> pa_kind (la_params (gs_layout s) ! n) = Constants_Kind \<Longrightarrow>
        gs_offsets t ! n = const_offset (la_params (gs_layout s)) n"
    and "m \<le> la_count (gs_layout s)"
  shows "\<exists>vs' cs' und'. observe_calls b g layout (concat (map (restore_argument s) [0..<m]))
      (t\<lparr>gs_values := vs, gs_constants := cs, gs_undefined := und\<rparr>) =
      t\<lparr>gs_values := vs', gs_constants := cs', gs_undefined := und'\<rparr> \<and> replay_upto s m vs' cs' und'"
  using \<open>m \<le> la_count (gs_layout s)\<close>
proof (induction m)
  case 0
  show ?case
    by (intro exI [of _ vs] exI [of _ cs] exI [of _ und]) (simp add: upto)
next
  case (Suc m)
  from Suc.prems have "m \<le> la_count (gs_layout s)" by simp
  from Suc.IH [OF this] obtain vs1 cs1 und1 where run: "observe_calls b g layout (concat (map (restore_argument s) [0..<m]))
      (t\<lparr>gs_values := vs, gs_constants := cs, gs_undefined := und\<rparr>) =
      t\<lparr>gs_values := vs1, gs_constants := cs1, gs_undefined := und1\<rparr>" and upto1: "replay_upto s m vs1 cs1 und1"
    by blast
  have m: "m < la_count (gs_layout s)" using Suc.prems by simp
  have "observe_calls b g layout (concat (map (restore_argument s) [0..<Suc m]))
      (t\<lparr>gs_values := vs, gs_constants := cs, gs_undefined := und\<rparr>) =
    observe_calls b g layout (restore_argument s m) (t\<lparr>gs_values := vs1, gs_constants := cs1, gs_undefined := und1\<rparr>)"
    unfolding run [symmetric] by simp
  with replay_argument [OF ok complete obs m upto1 t, of b g layout] show ?case
    by presburger
qed

text \<open>A replay of the root signature and its arguments, on a list that was just reset.\<close>

lemma replay_root_known:
  assumes ok: "gfx_ok s" and complete: "gfx_complete s" and obs: "\<not> gs_observed_args s"
    and t: "gs_observed t" "\<not> la_valid (gs_layout t)"
  shows "\<exists>vs cs und offs. observe_calls False (gs_layout_generation s) (gs_layout s) (restore_root s) t =
      t\<lparr>gs_observed_args := False, gs_root := gs_root s, gs_layout_generation := gs_layout_generation s,
        gs_layout := gs_layout s, gs_values := vs, gs_native_root := True, gs_undefined := und,
        gs_constants := cs, gs_offsets := offs\<rparr> \<and>
    replay_upto s (la_count (gs_layout s)) vs cs und \<and>
    (\<forall>n < la_count (gs_layout s). pa_kind (la_params (gs_layout s) ! n) = Constants_Kind \<longrightarrow>
       offs ! n = const_offset (la_params (gs_layout s)) n)"
proof -
  let ?L = "gs_layout s" and ?ps = "la_params (gs_layout s)" and ?c = "la_count (gs_layout s)"
  have valid: "la_valid ?L"
    using completeD(7) [OF complete] .
  then have fits: "offsets_ok ?ps ?c (gs_offsets s)" and lens: "length ?ps = 64" "length (gs_constants s) = 64"
    using ok obs by (simp_all add: gfx_ok_def layout_ok_def)
  obtain v offs und where pass: "bind_params True ?ps [0..<?c] 0 0 (replicate 64 0) (replicate 64 False) = (v, offs, und)"
    using prod_cases3 by blast
  then have "bind_params True ?ps [0..<?c] (const_offset ?ps 0) (layout_cost ?ps 0) (replicate 64 0) (replicate 64 False) = (v, offs, und)"
    by (simp add: const_offset_def layout_cost_def)
  then have result: "v" "\<forall>k < ?c. (pa_kind (?ps ! k) = Constants_Kind \<longrightarrow> offs ! k = const_offset ?ps k) \<and>
       und ! k = (pa_kind (?ps ! k) = Table_Kind)"
    using fits lens bind_params_result [of 0 ?c ?ps "replicate 64 0" "replicate 64 False" True v offs und]
    by (auto simp: offsets_ok_def)
  have sizes: "length und = 64"
    using bind_params_lengths [OF pass] by simp
  define t0 where "t0 = t\<lparr>gs_observed_args := False, gs_root := gs_root s, gs_layout_generation := gs_layout_generation s,
        gs_layout := ?L, gs_native_root := True, gs_offsets := offs\<rparr>"
  have count: "?c \<le> 64"
    using fits by (simp add: offsets_ok_def)
  have bind: "bind_root (gs_root s) (gs_layout_generation s) ?L True t =
      t0\<lparr>gs_values := replicate 64 no_value, gs_constants := replicate 64 0, gs_undefined := und\<rparr>"
    using t valid count pass result(1) by (simp add: bind_root_def t0_def)
  have upto: "replay_upto s 0 (replicate 64 no_value) (replicate 64 0) und"
    using count result(2) sizes by (simp add: replay_upto_def)
  have t0: "\<not> gs_observed_args t0" "gs_layout t0 = ?L"
    "\<And>n. n < ?c \<Longrightarrow> pa_kind (?ps ! n) = Constants_Kind \<Longrightarrow> gs_offsets t0 ! n = const_offset ?ps n"
    using result(2) by (simp_all add: t0_def)
  obtain vs cs und' where run: "observe_calls False (gs_layout_generation s) ?L (concat (map (restore_argument s) [0..<?c]))
      (t0\<lparr>gs_values := replicate 64 no_value, gs_constants := replicate 64 0, gs_undefined := und\<rparr>) =
      t0\<lparr>gs_values := vs, gs_constants := cs, gs_undefined := und'\<rparr>" and upto': "replay_upto s ?c vs cs und'"
    using replay_arguments [OF ok complete obs upto t0 order_refl] by blast
  have "observe_calls False (gs_layout_generation s) ?L (restore_root s) t =
      t0\<lparr>gs_values := vs, gs_constants := cs, gs_undefined := und'\<rparr>"
    using obs bind run by (simp add: restore_root_def)
  then show ?thesis
    using upto' result(2) by (intro exI [of _ vs] exI [of _ cs] exI [of _ und'] exI [of _ offs]) (simp add: t0_def)
qed

text \<open>The same for observed arguments: the layout grows with the arguments that are replayed.\<close>

definition blank_param :: root_param where
  "blank_param = \<lparr>pa_kind = Constants_Kind, pa_count = 0\<rparr>"

definition part_of :: "root_layout \<Rightarrow> root_layout \<Rightarrow> bool" where
  "part_of l L \<longleftrightarrow> la_valid l \<and> length (la_params l) = 64 \<and> la_count l \<le> la_count L \<and>
     (\<forall>n < 64. la_params l ! n = blank_param \<or> la_params l ! n = la_params L ! n \<and> n < la_count l)"

definition has_param :: "root_layout \<Rightarrow> root_layout \<Rightarrow> nat \<Rightarrow> bool" where
  "has_param l L n \<longleftrightarrow> n < la_count l \<and> la_params l ! n = la_params L ! n"

lemma admit_observed:
  assumes t: "gs_observed_args t" and l: "part_of (gs_layout t) L"
    and n: "n < 64" "n < la_count L" "la_params L ! n = \<lparr>pa_kind = k, pa_count = 1\<rparr>"
  shows "\<exists>l'. root_parameter n k t = (True, t\<lparr>gs_layout := l'\<rparr>) \<and> part_of l' L \<and> has_param l' L n \<and>
    (\<forall>i. has_param (gs_layout t) L i \<longrightarrow> has_param l' L i)"
proof -
  let ?l = "gs_layout t"
  have valid: "la_valid ?l" "length (la_params ?l) = 64"
    using l by (simp_all add: part_of_def)
  show ?thesis
  proof (cases "la_params ?l ! n = blank_param")
    case True
    define l' where "l' = ?l\<lparr>la_params := (la_params ?l)[n := \<lparr>pa_kind = k, pa_count = 1\<rparr>], la_count := max (la_count ?l) (n + 1)\<rparr>"
    have "root_parameter n k t = (True, t\<lparr>gs_layout := l'\<rparr>)"
      using True t valid n(1) by (simp add: root_parameter_def admit_param_def Let_def blank_param_def l'_def)
    moreover have "part_of l' L"
      using l n valid by (auto simp: part_of_def l'_def nth_list_update less_max_iff_disj)
    moreover have "has_param l' L i" if "i = n \<or> has_param ?l L i" for i
      using that n valid by (cases "i = n") (auto simp: has_param_def l'_def less_max_iff_disj)
    ultimately show ?thesis by blast
  next
    case False
    then have here: "la_params ?l ! n = \<lparr>pa_kind = k, pa_count = 1\<rparr>" "n < la_count ?l"
      using l n by (auto simp: part_of_def)
    then have "root_parameter n k t = (True, t\<lparr>gs_layout := ?l\<rparr>)"
      using valid by (simp add: root_parameter_def admit_param_def Let_def)
    with l here n(3) show ?thesis
      by (intro exI [of _ ?l]) (simp add: has_param_def)
  qed
qed

definition words_upto :: "gfx \<Rightarrow> nat \<Rightarrow> nat list \<Rightarrow> u32 list \<Rightarrow> bool" where
  "words_upto s m keys cs \<longleftrightarrow> length keys = 64 \<and> length cs = 64 \<and>
     take m keys = take m (gs_word_keys s) \<and> take m cs = take m (gs_constants s)"

lemma replay_word:
  assumes ok: "gfx_ok s" and obs: "gs_observed_args s" "la_valid (gs_layout s)" and m: "m < gs_word_count s"
    and t: "gs_observed_args t" and l: "part_of l (gs_layout s)" and upto: "words_upto s m keys cs"
  shows "\<exists>l' keys' cs'. root_constants (gs_word_keys s ! m div 64) (gs_word_keys s ! m mod 64) 1 (Some [gs_constants s ! m])
      (t\<lparr>gs_layout := l, gs_word_count := m, gs_word_keys := keys, gs_constants := cs\<rparr>) =
      t\<lparr>gs_layout := l', gs_word_count := Suc m, gs_word_keys := keys', gs_constants := cs'\<rparr> \<and>
    part_of l' (gs_layout s) \<and> words_upto s (Suc m) keys' cs'"
proof -
  let ?L = "gs_layout s"
  define key where "key = gs_word_keys s ! m"
  define T where "T = t\<lparr>gs_layout := l, gs_word_count := m, gs_word_keys := keys, gs_constants := cs\<rparr>"
  have words: "words_ok (la_params ?L) (la_count ?L) (gs_word_count s) (gs_word_keys s)"
    and lens: "length (gs_word_keys s) = 64" "length (gs_constants s) = 64"
    using ok obs by (simp_all add: gfx_ok_def layout_ok_def)
  then have le: "gs_word_count s \<le> 64" "la_count ?L \<le> 64" and dist: "distinct (take (gs_word_count s) (gs_word_keys s))"
    by (simp_all add: words_ok_def)
  have "key \<in> set (take (gs_word_count s) (gs_word_keys s))"
    using m lens le by (auto simp: key_def in_set_conv_nth intro!: exI [of _ m])
  then have param: "key div 64 < la_count ?L" "la_params ?L ! (key div 64) = \<lparr>pa_kind = Constants_Kind, pa_count = 1\<rparr>"
    using words by (auto simp: words_ok_def)
  have "part_of (gs_layout T) ?L" "gs_observed_args T" "key div 64 < 64"
    using l t param(1) le by (simp_all add: T_def)
  then obtain l' where l': "root_parameter (key div 64) Constants_Kind T = (True, T\<lparr>gs_layout := l'\<rparr>)" "part_of l' ?L"
    using admit_observed [of T ?L "key div 64" Constants_Kind] param by blast
  have "key \<notin> set (take m (gs_word_keys s))"
  proof
    assume "key \<in> set (take m (gs_word_keys s))"
    then obtain i where "i < m" "gs_word_keys s ! i = key"
      by (auto simp: in_set_conv_nth)
    with dist m lens le show False
      by (auto simp: distinct_conv_nth key_def)
  qed
  then have fresh: "first_index (\<lambda>k. k = key) (take m keys) = None"
    using upto by (auto simp: first_index_None words_upto_def)
  have m64: "m < 64" using m le by simp
  have run: "root_constants (key div 64) (key mod 64) 1 (Some [gs_constants s ! m]) T =
      t\<lparr>gs_layout := l', gs_word_count := Suc m, gs_word_keys := keys[m := key], gs_constants := cs[m := gs_constants s ! m]\<rparr>"
    using l'(1) fresh m64 t by (simp add: root_constants_def T_def Let_def)
  have "words_upto s (Suc m) (keys[m := key]) (cs[m := gs_constants s ! m])"
    using upto m64 lens by (simp add: words_upto_def take_Suc_conv_app_nth key_def)
  with run l'(2) show ?thesis
    unfolding T_def key_def by blast
qed

lemma replay_words:
  assumes ok: "gfx_ok s" and obs: "gs_observed_args s" "la_valid (gs_layout s)"
    and t: "gs_observed_args t" and l: "part_of l (gs_layout s)" and upto: "words_upto s 0 keys cs"
    and m: "m \<le> gs_word_count s"
  shows "\<exists>l' keys' cs'. observe_calls b g layout (map (\<lambda>n. Set_Root_Constant (gs_word_keys s ! n div 64) (gs_constants s ! n) (gs_word_keys s ! n mod 64)) [0..<m])
      (t\<lparr>gs_layout := l, gs_word_count := 0, gs_word_keys := keys, gs_constants := cs\<rparr>) =
      t\<lparr>gs_layout := l', gs_word_count := m, gs_word_keys := keys', gs_constants := cs'\<rparr> \<and>
    part_of l' (gs_layout s) \<and> words_upto s m keys' cs'"
  using m
proof (induction m)
  case 0
  show ?case
    by (intro exI [of _ l] exI [of _ keys] exI [of _ cs]) (simp add: l upto)
next
  case (Suc m)
  from Suc.prems have "m \<le> gs_word_count s" "m < gs_word_count s" by simp_all
  from Suc.IH [OF this(1)] obtain l1 keys1 cs1 where run: "observe_calls b g layout
       (map (\<lambda>n. Set_Root_Constant (gs_word_keys s ! n div 64) (gs_constants s ! n) (gs_word_keys s ! n mod 64)) [0..<m])
      (t\<lparr>gs_layout := l, gs_word_count := 0, gs_word_keys := keys, gs_constants := cs\<rparr>) =
      t\<lparr>gs_layout := l1, gs_word_count := m, gs_word_keys := keys1, gs_constants := cs1\<rparr>"
    "part_of l1 (gs_layout s)" "words_upto s m keys1 cs1"
    by blast
  have "observe_calls b g layout (map (\<lambda>n. Set_Root_Constant (gs_word_keys s ! n div 64) (gs_constants s ! n) (gs_word_keys s ! n mod 64)) [0..<Suc m])
      (t\<lparr>gs_layout := l, gs_word_count := 0, gs_word_keys := keys, gs_constants := cs\<rparr>) =
    root_constants (gs_word_keys s ! m div 64) (gs_word_keys s ! m mod 64) 1 (Some [gs_constants s ! m])
      (t\<lparr>gs_layout := l1, gs_word_count := m, gs_word_keys := keys1, gs_constants := cs1\<rparr>)"
    unfolding run(1) [symmetric] by simp
  with replay_word [OF ok obs \<open>m < gs_word_count s\<close> t run(2,3)] show ?case
    by presburger
qed

definition arguments_upto :: "gfx \<Rightarrow> nat \<Rightarrow> root_layout \<Rightarrow> root_value list \<Rightarrow> bool" where
  "arguments_upto s m l vs \<longleftrightarrow> part_of l (gs_layout s) \<and> length vs = 64 \<and>
     (\<forall>n < 64. if n < m \<and> va_known (gs_values s ! n) \<noteq> 0
        then vs ! n = gs_values s ! n \<and> has_param l (gs_layout s) n else vs ! n = no_value)"

lemma replay_observed_argument:
  assumes ok: "gfx_ok s" and obs: "gs_observed_args s" "la_valid (gs_layout s)" and m: "m < la_count (gs_layout s)"
    and t: "gs_observed_args t" and upto: "arguments_upto s m l vs"
  shows "\<exists>l' vs' und'. observe_calls b g layout (restore_argument s m)
      (t\<lparr>gs_layout := l, gs_values := vs, gs_undefined := und\<rparr>) =
      t\<lparr>gs_layout := l', gs_values := vs', gs_undefined := und'\<rparr> \<and> arguments_upto s (Suc m) l' vs'"
proof -
  let ?L = "gs_layout s"
  define T where "T = t\<lparr>gs_layout := l, gs_values := vs, gs_undefined := und\<rparr>"
  have le: "m < 64" and addresses: "addresses_ok (la_params ?L) (la_count ?L) (gs_values s)"
    using ok obs m by (auto simp: gfx_ok_def layout_ok_def words_ok_def)
  show ?thesis
  proof (cases "va_known (gs_values s ! m) = 0")
    case True
    with upto have "arguments_upto s (Suc m) l vs"
      by (auto simp: arguments_upto_def less_Suc_eq)
    with True obs show ?thesis
      by (intro exI [of _ l] exI [of _ vs] exI [of _ und]) (simp add: restore_argument_def Let_def)
  next
    case False
    define v where "v = gs_values s ! m"
    define k where "k = pa_kind (la_params ?L ! m)"
    have known: "va_known v = 1" "k \<noteq> Constants_Kind" "pa_count (la_params ?L ! m) = 1"
      using addresses False le by (auto simp: addresses_ok_def v_def k_def)
    then have param: "la_params ?L ! m = \<lparr>pa_kind = k, pa_count = 1\<rparr>"
      by (intro root_param.equality) (simp_all add: k_def)
    have "part_of (gs_layout T) ?L" "gs_observed_args T"
      using t upto by (simp_all add: T_def arguments_upto_def)
    then obtain l' where l': "root_parameter m k T = (True, T\<lparr>gs_layout := l'\<rparr>)" "part_of l' ?L" "has_param l' ?L m"
      "\<forall>i. has_param l ?L i \<longrightarrow> has_param l' ?L i"
      using admit_observed [of T ?L m k] param le m by (auto simp: T_def)
    define und' where "und' = (if k = Table_Kind then und[m := False] else und)"
    have "restore_argument s m = (if k = Table_Kind then [Set_Root_Table m (va_address v)] else [Set_Root_Descriptor k m (va_address v)])"
      using known by (cases k) (simp_all add: restore_argument_def Let_def param v_def [symmetric])
    then have "observe_calls b g layout (restore_argument s m) T =
        (if k = Table_Kind then root_table m (va_address v) T else root_descriptor m k (va_address v) T)"
      by simp
    also have "\<dots> = (set_address m (va_address v) (T\<lparr>gs_layout := l'\<rparr>))\<lparr>gs_undefined := und'\<rparr>"
    proof (cases "k = Table_Kind")
      case True
      with l'(1) show ?thesis
        by (simp add: root_table_def set_address_def und'_def T_def)
    next
      case False
      with l'(1) known(2) show ?thesis
        by (simp add: root_descriptor_def set_address_def und'_def T_def)
    qed
    also have "\<dots> = t\<lparr>gs_layout := l', gs_values := vs[m := v], gs_undefined := und'\<rparr>"
    proof -
      have "\<lparr>va_known = 1, va_address = va_address v\<rparr> = v"
        using known(1) by (intro root_value.equality) simp_all
      then show ?thesis by (simp add: set_address_def T_def)
    qed
    finally have "observe_calls b g layout (restore_argument s m) T =
        t\<lparr>gs_layout := l', gs_values := vs[m := v], gs_undefined := und'\<rparr>" .
    moreover have "arguments_upto s (Suc m) l' (vs[m := v])"
      using upto l'(2-4) le False unfolding arguments_upto_def v_def
      by (simp add: nth_list_update less_Suc_eq)
    ultimately show ?thesis
      unfolding T_def by blast
  qed
qed

lemma replay_observed_arguments:
  assumes ok: "gfx_ok s" and obs: "gs_observed_args s" "la_valid (gs_layout s)"
    and t: "gs_observed_args t" and upto: "arguments_upto s 0 l vs" and "m \<le> la_count (gs_layout s)"
  shows "\<exists>l' vs' und'. observe_calls b g layout (concat (map (restore_argument s) [0..<m]))
      (t\<lparr>gs_layout := l, gs_values := vs, gs_undefined := und\<rparr>) =
      t\<lparr>gs_layout := l', gs_values := vs', gs_undefined := und'\<rparr> \<and> arguments_upto s m l' vs'"
  using \<open>m \<le> la_count (gs_layout s)\<close>
proof (induction m)
  case 0
  show ?case
    by (intro exI [of _ l] exI [of _ vs] exI [of _ und]) (simp add: upto)
next
  case (Suc m)
  then have m: "m < la_count (gs_layout s)" by simp
  from Suc obtain l1 vs1 und1 where run: "observe_calls b g layout (concat (map (restore_argument s) [0..<m]))
      (t\<lparr>gs_layout := l, gs_values := vs, gs_undefined := und\<rparr>) =
      t\<lparr>gs_layout := l1, gs_values := vs1, gs_undefined := und1\<rparr>" "arguments_upto s m l1 vs1"
    by auto
  have "observe_calls b g layout (concat (map (restore_argument s) [0..<Suc m]))
      (t\<lparr>gs_layout := l, gs_values := vs, gs_undefined := und\<rparr>) =
    observe_calls b g layout (restore_argument s m) (t\<lparr>gs_layout := l1, gs_values := vs1, gs_undefined := und1\<rparr>)"
    unfolding run(1) [symmetric] by simp
  with replay_observed_argument [OF ok obs m t run(2)] show ?case
    by presburger
qed

lemma replay_root_observed:
  assumes ok: "gfx_ok s" and complete: "gfx_complete s" and obs: "gs_observed_args s"
    and t: "gs_observed t" "\<not> gs_observed_args t"
  shows "\<exists>l vs und cs keys. observe_calls True (gs_layout_generation s) L (restore_root s) t =
      t\<lparr>gs_observed_args := True, gs_root := gs_root s, gs_layout_generation := gs_layout_generation s,
        gs_layout := l, gs_values := vs, gs_native_root := True, gs_undefined := und, gs_constants := cs,
        gs_offsets := replicate 64 0, gs_word_count := gs_word_count s, gs_word_keys := keys\<rparr> \<and>
    arguments_upto s (la_count (gs_layout s)) l vs \<and> words_upto s (gs_word_count s) keys cs"
proof -
  note c = completeD [OF complete]
  define t0 where "t0 = t\<lparr>gs_observed_args := True, gs_root := gs_root s, gs_layout_generation := gs_layout_generation s,
        gs_native_root := True, gs_offsets := replicate 64 0\<rparr>"
  define l0 where "l0 = no_layout\<lparr>la_valid := True\<rparr>"
  have part: "part_of l0 (gs_layout s)"
    by (simp add: part_of_def l0_def no_layout_def blank_param_def)
  define t1 where "t1 = t0\<lparr>gs_values := replicate 64 no_value, gs_undefined := replicate 64 False\<rparr>"
  have bind: "observe_call True (gs_layout_generation s) L (Set_Root_Signature (gs_root s)) t =
      t1\<lparr>gs_layout := l0, gs_word_count := 0, gs_word_keys := replicate 64 0, gs_constants := replicate 64 0\<rparr>"
    using t c(5,6) by (simp add: bind_observed_root_fresh t0_def t1_def l0_def)
  have "words_upto s 0 (replicate 64 0) (replicate 64 0)" "gs_observed_args t1"
    by (simp_all add: words_upto_def t1_def t0_def)
  then obtain l1 keys cs where words: "observe_calls True (gs_layout_generation s) L (restore_words s)
      (t1\<lparr>gs_layout := l0, gs_word_count := 0, gs_word_keys := replicate 64 0, gs_constants := replicate 64 0\<rparr>) =
      t1\<lparr>gs_layout := l1, gs_word_count := gs_word_count s, gs_word_keys := keys, gs_constants := cs\<rparr>"
    "part_of l1 (gs_layout s)" "words_upto s (gs_word_count s) keys cs"
    using replay_words [OF ok obs c(7) _ part _ order_refl, of t1] unfolding restore_words_def by blast
  define t2 where "t2 = t0\<lparr>gs_word_count := gs_word_count s, gs_word_keys := keys, gs_constants := cs\<rparr>"
  have "arguments_upto s 0 l1 (replicate 64 no_value)" "gs_observed_args t2"
    using words(2) by (simp_all add: arguments_upto_def t2_def t0_def)
  then obtain l vs und where args: "observe_calls True (gs_layout_generation s) L
        (concat (map (restore_argument s) [0..<la_count (gs_layout s)]))
      (t2\<lparr>gs_layout := l1, gs_values := replicate 64 no_value, gs_undefined := replicate 64 False\<rparr>) =
      t2\<lparr>gs_layout := l, gs_values := vs, gs_undefined := und\<rparr>" "arguments_upto s (la_count (gs_layout s)) l vs"
    using replay_observed_arguments [OF ok obs c(7) _ _ order_refl, of t2] by blast
  have "observe_calls True (gs_layout_generation s) L (restore_root s) t =
      observe_calls True (gs_layout_generation s) L (concat (map (restore_argument s) [0..<la_count (gs_layout s)]))
        (t1\<lparr>gs_layout := l1, gs_word_count := gs_word_count s, gs_word_keys := keys, gs_constants := cs\<rparr>)"
    using obs by (simp only: restore_root_def fold.simps fold_append bind words if_True o_apply)
  also have "t1\<lparr>gs_layout := l1, gs_word_count := gs_word_count s, gs_word_keys := keys, gs_constants := cs\<rparr> =
      t2\<lparr>gs_layout := l1, gs_values := replicate 64 no_value, gs_undefined := replicate 64 False\<rparr>"
    by (simp add: t1_def t2_def)
  finally show ?thesis
    unfolding args(1) using args(2) words(3)
    by (intro exI [of _ l] exI [of _ vs] exI [of _ und] exI [of _ cs] exI [of _ keys]) (simp add: t2_def t0_def)
qed

text \<open>Both cases, with what a replay of the root group leaves alone.\<close>

definition off_root :: "gfx \<Rightarrow> _" where
  "off_root t = (gs_invalid t, gs_observed t, gs_generation t, gs_pipeline t, gs_bias_known t, gs_strip_known t,
     gs_bias t, gs_strip t, gs_sample_native t, gs_sample_count t, gs_positions t, gs_viewports t, gs_scissors t)"

definition root_complete :: "gfx \<Rightarrow> bool" where
  "root_complete t \<longleftrightarrow> gs_root t \<noteq> 0 \<and> gs_layout_generation t \<noteq> 0 \<and> la_valid (gs_layout t) \<and>
     (gs_observed_args t \<or> (\<forall>n < la_count (gs_layout t). \<not> argument_missing t n))"

lemma arguments_same:
  assumes upto: "arguments_upto s (la_count (gs_layout s)) (gs_layout t) (gs_values t)"
    and ok: "gfx_ok s" and obs: "gs_observed_args s" "gs_observed_args t" "la_valid (gs_layout s)"
  shows "argument_of t = argument_of s"
proof
  fix n
  have le: "la_count (gs_layout s) \<le> 64" "la_count (gs_layout t) \<le> la_count (gs_layout s)"
    and addresses: "addresses_ok (la_params (gs_layout s)) (la_count (gs_layout s)) (gs_values s)"
    using ok obs upto by (simp_all add: gfx_ok_def layout_ok_def words_ok_def arguments_upto_def part_of_def)
  show "argument_of t n = argument_of s n"
  proof (cases "n < la_count (gs_layout s) \<and> va_known (gs_values s ! n) \<noteq> 0")
    case True
    then have "gs_values t ! n = gs_values s ! n" "has_param (gs_layout t) (gs_layout s) n"
      using upto le by (simp_all add: arguments_upto_def)
    with True addresses le show ?thesis
      by (simp add: argument_of_def Let_def has_param_def addresses_ok_def)
  next
    case False
    then have "n < 64 \<Longrightarrow> va_known (gs_values t ! n) = 0"
      using upto by (auto simp: arguments_upto_def no_value_def split: if_splits)
    with False obs le show ?thesis
      by (auto simp: argument_of_def Let_def)
  qed
qed

lemma replayed_arguments_same:
  assumes upto: "replay_upto s (la_count (gs_layout s)) (gs_values t) (gs_constants t) (gs_undefined t)"
    and offs: "\<forall>n < la_count (gs_layout s). pa_kind (la_params (gs_layout s) ! n) = Constants_Kind \<longrightarrow>
       gs_offsets t ! n = const_offset (la_params (gs_layout s)) n"
    and ok: "gfx_ok s" and complete: "gfx_complete s" and obs: "\<not> gs_observed_args s" "\<not> gs_observed_args t"
    and layout: "gs_layout t = gs_layout s"
  shows "argument_of t = argument_of s" and "n < la_count (gs_layout s) \<Longrightarrow> \<not> argument_missing t n"
proof -
  note v = complete_value [OF ok complete obs(1)]
  show "argument_of t = argument_of s"
  proof
    fix n
    show "argument_of t n = argument_of s n"
    proof (cases "n < la_count (gs_layout s)")
      case True
      note v = v [OF True]
      have "gs_values t ! n = replayed_value s n"
        "pa_kind (la_params (gs_layout s) ! n) = Constants_Kind \<Longrightarrow>
          const_slice s (gs_constants t) n = const_slice s (gs_constants s) n"
        using upto True by (simp_all add: replay_upto_def)
      with True v offs obs layout show ?thesis
        by (simp add: argument_of_def Let_def const_slice_def replayed_value_def no_value_def)
    qed (simp add: argument_of_def Let_def layout)
  qed
  assume n: "n < la_count (gs_layout s)"
  note v = v [OF n]
  have "gs_values t ! n = replayed_value s n" "gs_undefined t ! n = replayed_undefined s n"
    using upto n by (simp_all add: replay_upto_def)
  with v layout known_mask_1 show "\<not> argument_missing t n"
    by (cases "pa_kind (la_params (gs_layout s) ! n)")
      (auto simp: argument_missing_def Let_def replayed_value_def replayed_undefined_def)
qed

lemma replay_root:
  assumes ok: "gfx_ok s" and complete: "gfx_complete s"
    and t: "gs_observed t" "\<not> gs_observed_args t" "\<not> la_valid (gs_layout t)"
  shows "\<exists>t'. observe_calls (gs_observed_args s) (gs_layout_generation s) (gs_layout s) (restore_root s) t = t' \<and>
    same_root s t' \<and> root_complete t' \<and> off_root t' = off_root t"
proof (cases "gs_observed_args s")
  case True
  obtain l vs und cs keys where run: "observe_calls True (gs_layout_generation s) (gs_layout s) (restore_root s) t =
      t\<lparr>gs_observed_args := True, gs_root := gs_root s, gs_layout_generation := gs_layout_generation s,
        gs_layout := l, gs_values := vs, gs_native_root := True, gs_undefined := und, gs_constants := cs,
        gs_offsets := replicate 64 0, gs_word_count := gs_word_count s, gs_word_keys := keys\<rparr>" (is "_ = ?t")
    and upto: "arguments_upto s (la_count (gs_layout s)) l vs" "words_upto s (gs_word_count s) keys cs"
    using replay_root_observed [OF ok complete True t(1,2), of "gs_layout s"] by blast
  note c = completeD [OF complete]
  have "argument_of ?t = argument_of s"
    by (rule arguments_same) (use upto ok True c(7) in simp_all)
  moreover have "observed_words ?t = observed_words s"
    using upto(2) True by (simp add: observed_words_def take_zip words_upto_def)
  ultimately have "same_root s ?t"
    using True by (simp add: same_root_def)
  moreover have "la_valid l"
    using upto(1) by (simp add: arguments_upto_def part_of_def)
  then have "root_complete ?t"
    using c(5,6) by (simp add: root_complete_def)
  moreover have "off_root ?t = off_root t"
    by (simp add: off_root_def)
  ultimately show ?thesis
    using True run by (intro exI [of _ ?t] conjI) simp_all
next
  case False
  obtain vs cs und offs where run: "observe_calls False (gs_layout_generation s) (gs_layout s) (restore_root s) t =
      t\<lparr>gs_observed_args := False, gs_root := gs_root s, gs_layout_generation := gs_layout_generation s,
        gs_layout := gs_layout s, gs_values := vs, gs_native_root := True, gs_undefined := und,
        gs_constants := cs, gs_offsets := offs\<rparr>" (is "_ = ?t")
    and upto: "replay_upto s (la_count (gs_layout s)) vs cs und"
      "\<forall>n < la_count (gs_layout s). pa_kind (la_params (gs_layout s) ! n) = Constants_Kind \<longrightarrow>
       offs ! n = const_offset (la_params (gs_layout s)) n"
    using replay_root_known [OF ok complete False t(1,3)] by blast
  note c = completeD [OF complete]
  have "replay_upto s (la_count (gs_layout s)) (gs_values ?t) (gs_constants ?t) (gs_undefined ?t)"
    "\<forall>n < la_count (gs_layout s). pa_kind (la_params (gs_layout s) ! n) = Constants_Kind \<longrightarrow>
       gs_offsets ?t ! n = const_offset (la_params (gs_layout s)) n" "\<not> gs_observed_args ?t" "gs_layout ?t = gs_layout s"
    using upto by simp_all
  note same = replayed_arguments_same [OF this(1,2) ok complete False this(3,4)]
  have "same_root s ?t"
    using False same(1) by (simp add: same_root_def observed_words_def)
  moreover have "root_complete ?t"
    using c(5-7) same(2) by (simp add: root_complete_def)
  moreover have "off_root ?t = off_root t"
    by (simp add: off_root_def)
  ultimately show ?thesis
    using False run by (intro exI [of _ ?t] conjI) simp_all
qed

text \<open>The restoring calls of a whole list, observed from a list that was just reset.\<close>

definition replay :: "u64 \<Rightarrow> gfx \<Rightarrow> gfx" where
  "replay native s = observe_calls (gs_observed_args s) (gs_layout_generation s) (gs_layout s)
     (gfx_restore native All_Groups s) (gfx_reset (gs_generation s) True new_gfx)"

lemma replay_bindings:
  assumes ok: "gfx_ok s" and can: "can_restore native s"
  shows "same_bindings s (replay native s) \<and> gfx_complete (replay native s)"
proof -
  define t where "t = gfx_reset (gs_generation s) True new_gfx"
  have complete: "gfx_complete s" and native: "has_sample_positions s \<Longrightarrow> gs_sample_native s = native"
    using can by (auto simp: can_restore_def)
  note c = completeD [OF complete]
  let ?calls = "observe_calls (gs_observed_args s) (gs_layout_generation s) (gs_layout s)"
  have split: "replay native s = ?calls (restore_raster native s) (?calls (restore_root s) (?calls (restore_pipeline s) t))"
    using can by (auto simp: replay_def gfx_restore_def includes_group_def can_restore_def t_def Let_def)
  have fresh: "gs_invalid t = None"
    by (simp add: t_def gfx_reset_def new_gfx_def)
  obtain dyn b sc where first: "?calls (restore_pipeline s) t =
    t\<lparr>gs_pipeline := gs_pipeline s, gs_bias_known := gs_bias_known s, gs_strip_known := gs_strip_known s,
      gs_dynamic := dyn, gs_bias := b, gs_strip := sc\<rparr>" (is "_ = ?t1")
    and pipe: "gs_bias_known s \<longrightarrow> b = gs_bias s" "gs_strip_known s \<longrightarrow> sc = gs_strip s"
    using replay_pipeline [OF ok fresh] by blast
  have "gs_observed ?t1" "\<not> gs_observed_args ?t1" "\<not> la_valid (gs_layout ?t1)"
    by (simp_all add: t_def gfx_reset_def new_gfx_def no_layout_def)
  then obtain t2 where second: "?calls (restore_root s) ?t1 = t2" and root: "same_root s t2" "root_complete t2"
    and off: "off_root t2 = off_root ?t1"
    using replay_root [OF ok complete, of ?t1] by blast
  have kept: "gs_invalid t2 = None" "gs_observed t2" "gs_generation t2 = gs_generation s" "gs_pipeline t2 = gs_pipeline s"
    "gs_bias_known t2 = gs_bias_known s" "gs_strip_known t2 = gs_strip_known s" "gs_bias t2 = b" "gs_strip t2 = sc"
    "length (gs_positions t2) = 16" "length (gs_viewports t2) = 16" "length (gs_scissors t2) = 16"
    "gs_sample_native t2 = 0" "gs_sample_count t2 = 0"
    using off by (simp_all add: off_root_def t_def gfx_reset_def new_gfx_def)
  obtain sn sp ps vs rs where third: "?calls (restore_raster native s) t2 =
    t2\<lparr>gs_sample_native := sn, gs_sample_count := gs_sample_count s, gs_sample_pixels := sp, gs_positions := ps,
      gs_topology := gs_topology s, gs_viewport_count := gs_viewport_count s, gs_viewports := vs,
      gs_scissor_count := gs_scissor_count s, gs_scissors := rs\<rparr>" (is "_ = ?t3")
    and raster: "gs_sample_count s \<noteq> 0 \<longrightarrow> sp = gs_sample_pixels s \<and>
       take (gs_sample_count s * gs_sample_pixels s) ps = take (gs_sample_count s * gs_sample_pixels s) (gs_positions s)"
      "take (gs_viewport_count s) vs = take (gs_viewport_count s) (gs_viewports s)"
      "take (gs_scissor_count s) rs = take (gs_scissor_count s) (gs_scissors s)"
    using replay_raster [OF ok complete native kept(9-11,1,12,13)] by blast
  have pipeline: "same_pipeline s ?t3"
    using kept pipe by (simp add: same_pipeline_def)
  have "argument_of ?t3 = argument_of t2"
    by (rule ext) (simp add: argument_of_def Let_def)
  moreover have "observed_words ?t3 = observed_words t2"
    by (simp add: observed_words_def)
  ultimately have "same_root s ?t3"
    using root(1) by (simp add: same_root_def)
  moreover have "same_raster s ?t3"
    using raster by (simp add: same_raster_def)
  moreover have "argument_missing ?t3 n = argument_missing t2 n" for n
    by (simp add: argument_missing_def)
  then have "gfx_complete ?t3"
    using root(2) kept c by (auto simp: gfx_complete_def incomplete_reason_def root_complete_def find_None_iff)
  ultimately show ?thesis
    using pipeline by (simp add: split first second third same_bindings_def)
qed

subsection \<open>Properties\<close>

text \<open>C13: Restoring is exact: whatever calls the application made on a list since its reset, and
  in whatever order, if the observed state may be restored, then the restoring calls, observed on a
  freshly reset list, bind the same pipeline state, dynamic state, root signature, root arguments,
  observed root words and raster state, and leave a complete state again.\<close>

theorem restore_round_trip:
  assumes "list_all gfx_event_ok evs" and "can_restore native (fold gfx_step evs new_gfx)"
  shows "same_bindings (fold gfx_step evs new_gfx) (replay native (fold gfx_step evs new_gfx)) \<and>
    gfx_complete (replay native (fold gfx_step evs new_gfx))"
  by (rule replay_bindings [OF gfx.run_inv [OF assms(1) new_gfx_ok] assms(2)])

definition sample_recording :: "gfx_event list" where
  "sample_recording = [Ev_Reset 1 True, Ev_Pipeline 9, Ev_Strip_Cut 5 1, Ev_Observed_Root 7 3, Ev_Table 2 77,
     Ev_Constants 1 4 1 (Some [21]), Ev_Topology 4, Ev_Viewports 0 1 (Some [[0, 0, 0, 0, 0, 0]]),
     Ev_Scissors 0 1 (Some [(0, 0, 8, 8)])]"

lemma sample_recording_restorable:
  "list_all gfx_event_ok sample_recording \<and> can_restore 5 (fold gfx_step sample_recording new_gfx)"
  by (simp add: sample_recording_def points_to_def gfx_reset_def new_gfx_def no_layout_def bind_pipeline_def
      strip_cut_def bind_observed_root_def bind_root_def root_table_def root_parameter_def admit_param_def
      set_address_def root_constants_def Let_def set_topology_def set_viewports_def set_scissors_def
      float_finite_def can_restore_def gfx_complete_def incomplete_reason_def has_sample_positions_def)

lemma restore_round_trip_witness:
  "same_bindings (fold gfx_step sample_recording new_gfx) (replay 5 (fold gfx_step sample_recording new_gfx)) \<and>
    gfx_complete (replay 5 (fold gfx_step sample_recording new_gfx))"
  by (rule restore_round_trip) (simp_all add: sample_recording_restorable)

lemma invalidate_kept [simp]: "gs_invalid s = Some r \<Longrightarrow> gfx_invalidate q s = s"
  by (simp add: gfx_invalidate_def)

lemma admit_param_invalid [simp]: "gs_invalid (admit_param i k s) = gs_invalid s"
  by (simp add: admit_param_def Let_def)

lemma root_parameter_invalid:
  assumes "gs_invalid s = Some r"
  obtains b where "root_parameter i k s = (b, admit_param i k s)"
  using assms that [of "fst (root_parameter i k s)"] by (simp add: root_parameter_def Let_def split: if_splits)

lemma observe_words_invalid: "gs_invalid s = Some r \<Longrightarrow> gs_invalid (observe_words key ws s) = Some r"
  by (induction key ws s rule: observe_words.induct) (simp_all add: Let_def)

lemma heaps_changed_invalid [simp]: "gs_invalid (heaps_changed s) = gs_invalid s"
proof -
  have "gs_invalid (fold forget_table ns s) = gs_invalid s" for ns
    by (induction ns arbitrary: s) (simp_all add: forget_table_def)
  then show ?thesis by (simp add: heaps_changed_def)
qed

lemma undefine_tables_invalid [simp]: "gs_invalid (undefine_tables s) = gs_invalid s"
proof -
  have "gs_invalid (fold undefine_table ns s) = gs_invalid s" for ns
    by (induction ns arbitrary: s) (simp_all add: undefine_table_def)
  then show ?thesis by (simp add: undefine_tables_def)
qed

lemma root_arguments_invalid:
  assumes "gs_invalid s = Some r"
  shows "gs_invalid (root_constants i f c d s) = Some r" "gs_invalid (root_table i a s) = Some r"
    "gs_invalid (root_descriptor i k a s) = Some r"
proof -
  obtain b where "root_parameter i Constants_Kind s = (b, admit_param i Constants_Kind s)"
    using root_parameter_invalid [OF assms] .
  then show "gs_invalid (root_constants i f c d s) = Some r"
    using assms by (cases b) (simp_all add: root_constants_def observe_words_invalid)
  obtain b where "root_parameter i Table_Kind s = (b, admit_param i Table_Kind s)"
    using root_parameter_invalid [OF assms] .
  then show "gs_invalid (root_table i a s) = Some r"
    using assms by (cases b) (simp_all add: root_table_def set_address_def)
  obtain b where "root_parameter i k s = (b, admit_param i k s)"
    using root_parameter_invalid [OF assms] .
  then show "gs_invalid (root_descriptor i k a s) = Some r"
    using assms by (cases b) (simp_all add: root_descriptor_def set_address_def)
qed

lemma bindings_invalid:
  assumes "gs_invalid s = Some r"
  shows "gs_invalid (bind_root root g layout exact s) = Some r" "gs_invalid (bind_observed_root root g s) = Some r"
    "gs_invalid (descriptor_heaps c h s) = Some r"
proof -
  have bind: "gs_invalid (bind_root root g layout exact s) = Some r" for layout exact
    using assms by (simp add: bind_root_def Let_def split: prod.splits)
  then show "gs_invalid (bind_root root g layout exact s) = Some r" .
  show "gs_invalid (bind_observed_root root g s) = Some r"
    using assms bind by (simp add: bind_observed_root_def Let_def)
  show "gs_invalid (descriptor_heaps c h s) = Some r"
    unfolding descriptor_heaps_def Let_def using assms by simp
qed

lemma step_invalid:
  assumes "gs_invalid s = Some r" and "\<not> is_reset ev"
  shows "gs_invalid (gfx_step ev s) = Some r"
proof (cases ev)
  case (Ev_Depth_Bias native b)
  with assms show ?thesis by (simp add: depth_bias_def split: prod.splits)
next
  case (Ev_Samples native samples pixels ps)
  with assms show ?thesis by (simp add: sample_positions_def)
qed (use assms in \<open>simp_all add: is_reset_def root_arguments_invalid bindings_invalid bind_pipeline_def
    strip_cut_def set_topology_def set_viewports_def set_scissors_def\<close>)

text \<open>A refused argument is final for its recording: once an observation made the state
  invalid, no later call except a reset makes it complete again, and the reason of the first
  refusal is kept.\<close>

theorem first_refusal_kept:
  assumes "gs_invalid s = Some r" and "list_all (\<lambda>ev. \<not> is_reset ev) evs"
  shows "incomplete_reason (fold gfx_step evs s) = Some r"
proof -
  have "gs_invalid (fold gfx_step evs s) = Some r"
    using assms by (induction evs arbitrary: s) (simp_all add: step_invalid)
  then show ?thesis
    by (simp add: incomplete_reason_def)
qed

lemma first_refusal_kept_witness:
  "incomplete_reason (fold gfx_step [Ev_Pipeline 9, Ev_Topology 4] (set_viewports 1 1 None new_gfx)) =
     Some ''viewport_array_bounds''"
  by (rule first_refusal_kept) (simp_all add: set_viewports_def gfx_invalidate_def new_gfx_def is_reset_def)

end
