(* ===== verification/Display_Keep.thy ===== *)
theory Display_Keep
  imports Prelude "HOL-Library.Product_Lexorder"
begin

text \<open>
  \<open>src/graphics/display_keep.hpp\<close>: the panel marks, which every camera write into a cockpit display
  leaves alone, and the split of one copy into the pieces around them.  The marks are kept in two
  lists, of which the worker fills the unpublished one; the calls are modelled one after the other.

  A \<open>LONG\<close> coordinate is an \<open>int\<close>: the code only compares coordinates and adds the mark's size to
  values below \<open>65536\<close>, so nothing wraps.  A \<open>UINT\<close> is a 32-bit word.
\<close>

subsection \<open>The published marks\<close>

record mark_list =
  ml_marks :: "u32 list"
  ml_count :: nat

record mark_board =
  mb_lists :: "mark_list list"
  mb_published :: nat

definition empty_board :: mark_board where
  "empty_board = \<lparr>mb_lists = replicate 2 \<lparr>ml_marks = replicate 16 0, ml_count = 0\<rparr>, mb_published = 0\<rparr>"

definition pack_mark :: "u32 \<times> u32 \<Rightarrow> u32" where
  "pack_mark p = push_bit 16 (min (fst p) 0xFFFF) OR min (snd p) 0xFFFF"

definition set_marks :: "(u32 \<times> u32) list \<Rightarrow> mark_board \<Rightarrow> mark_board" where
  "set_marks points s =
     (let count = min (length points) 16; other = mb_published s XOR 1; l = mb_lists s ! other
      in s\<lparr>mb_lists := (mb_lists s)[other := \<lparr>ml_marks = write_at 0 (map pack_mark (take count points)) (ml_marks l),
             ml_count = count\<rparr>], mb_published := other\<rparr>)"

definition read_marks :: "mark_board \<Rightarrow> u32 list" where
  "read_marks s = (let l = mb_lists s ! mb_published s in take (min (ml_count l) 16) (ml_marks l))"

subsection \<open>The pieces of an area\<close>

record d3d_rect =
  rc_left :: int
  rc_top :: int
  rc_right :: int
  rc_bottom :: int

definition has_area :: "d3d_rect \<Rightarrow> bool" where
  "has_area r \<longleftrightarrow> rc_left r < rc_right r \<and> rc_top r < rc_bottom r"

definition mark_x :: "u32 \<Rightarrow> int" where
  "mark_x m = uint (drop_bit 16 m)"

definition mark_y :: "u32 \<Rightarrow> int" where
  "mark_y m = uint (m AND 0xFFFF)"

definition mark_rect :: "d3d_rect \<Rightarrow> u32 \<Rightarrow> d3d_rect" where
  "mark_rect area m = \<lparr>rc_left = max (mark_x m) (rc_left area), rc_top = max (mark_y m) (rc_top area),
     rc_right = min (mark_x m + 2) (rc_right area), rc_bottom = min (mark_y m + 1) (rc_bottom area)\<rparr>"

text \<open>\<open>add\<close> of the code: an empty piece is left out, and so is one past the capacity.\<close>

definition add_piece :: "int \<Rightarrow> int \<Rightarrow> int \<Rightarrow> int \<Rightarrow> d3d_rect list \<Rightarrow> d3d_rect list" where
  "add_piece left tp right bottom out =
     (if left < right \<and> tp < bottom \<and> length out < 49
        then out @ [\<lparr>rc_left = left, rc_top = tp, rc_right = right, rc_bottom = bottom\<rparr>] else out)"

fun split_row :: "int \<Rightarrow> int \<Rightarrow> d3d_rect list \<Rightarrow> d3d_rect list \<Rightarrow> int \<times> d3d_rect list" where
  "split_row tp x [] out = (x, out)"
| "split_row tp x (m # ms) out = split_row tp (max x (rc_right m)) ms (add_piece x tp (rc_left m) (tp + 1) out)"

function split_rows :: "d3d_rect \<Rightarrow> int \<Rightarrow> d3d_rect list \<Rightarrow> d3d_rect list \<Rightarrow> d3d_rect list" where
  "split_rows area row [] out = add_piece (rc_left area) row (rc_right area) (rc_bottom area) out"
| "split_rows area row (m # ms) out =
     (let tp = rc_top m;
          out1 = add_piece (rc_left area) row (rc_right area) tp out;
          (x, out2) = split_row tp (rc_left area) (takeWhile (\<lambda>k. rc_top k = tp) (m # ms)) out1;
          out3 = add_piece x tp (rc_right area) (tp + 1) out2
      in split_rows area (tp + 1) (dropWhile (\<lambda>k. rc_top k = tp) (m # ms)) out3)"
  by pat_completeness auto
termination
  by (relation "measure (\<lambda>(area, row, ms, out). length ms)") (auto simp: le_imp_less_Suc length_dropWhile_le)

text \<open>
  \<open>std::sort\<close> may order marks that start at the same pixel either way; they differ at most in their
  right edge, and the row pass takes the larger one, so the pieces are the same.
\<close>

definition pieces :: "u32 list \<Rightarrow> d3d_rect \<Rightarrow> d3d_rect list" where
  "pieces listed area =
     (let inside = filter has_area (map (mark_rect area) listed) in
      if inside = [] \<or> rc_left area \<ge> rc_right area \<or> rc_top area \<ge> rc_bottom area then [area]
      else split_rows area (rc_top area) (sort_key (\<lambda>r. (rc_top r, rc_left r)) inside) [])"

subsection \<open>Copies around the marks\<close>

record footprint =
  fp_offset :: u64
  fp_format :: u32
  fp_width :: u32
  fp_height :: u32
  fp_depth :: u32
  fp_pitch :: u32

datatype copy_location = Placed_Footprint u64 footprint | Subresource_Index u64

text \<open>A box is left, top, right and bottom; its depth is always from 0 to 1.\<close>

type_synonym copy_box = "u32 \<times> u32 \<times> u32 \<times> u32"

datatype list_call =
  Copy_Texture copy_location u32 u32 copy_location copy_box
| Barriers "(u64 \<times> u32 \<times> u32) list"

definition piece_copy :: "copy_location \<Rightarrow> u32 \<Rightarrow> u32 \<Rightarrow> copy_location \<Rightarrow> d3d_rect \<Rightarrow> list_call" where
  "piece_copy destination x y source r =
     Copy_Texture destination (word_of_int (rc_left r)) (word_of_int (rc_top r)) source
       (word_of_int (rc_left r) - x, word_of_int (rc_top r) - y,
        word_of_int (rc_right r) - x, word_of_int (rc_bottom r) - y)"

definition copy_region :: "u32 list \<Rightarrow> copy_location \<Rightarrow> u32 \<Rightarrow> u32 \<Rightarrow> copy_location \<Rightarrow> u32 \<Rightarrow> u32 \<Rightarrow> list_call list" where
  "copy_region listed destination x y source width height =
     map (piece_copy destination x y source)
       (pieces listed \<lparr>rc_left = sint x, rc_top = sint y, rc_right = sint (x + width), rc_bottom = sint (y + height)\<rparr>)"

subsection \<open>The pieces cover the area once, without its marks\<close>

definition covers :: "d3d_rect \<Rightarrow> int \<times> int \<Rightarrow> bool" where
  "covers r p \<longleftrightarrow> rc_left r \<le> fst p \<and> fst p < rc_right r \<and> rc_top r \<le> snd p \<and> snd p < rc_bottom r"

definition hits :: "d3d_rect list \<Rightarrow> int \<times> int \<Rightarrow> nat" where
  "hits rs p = length (filter (\<lambda>r. covers r p) rs)"

definition marked :: "u32 list \<Rightarrow> int \<times> int \<Rightarrow> bool" where
  "marked listed p \<longleftrightarrow>
     list_ex (\<lambda>m. mark_x m \<le> fst p \<and> fst p < mark_x m + 2 \<and> snd p = mark_y m) listed"

definition mark_le :: "d3d_rect \<Rightarrow> d3d_rect \<Rightarrow> bool" where
  "mark_le a b \<longleftrightarrow> rc_top a < rc_top b \<or> rc_top a = rc_top b \<and> rc_left a \<le> rc_left b"

definition inside_marks :: "d3d_rect \<Rightarrow> int \<Rightarrow> d3d_rect list \<Rightarrow> bool" where
  "inside_marks area row ms \<longleftrightarrow>
     (\<forall>m \<in> set ms. has_area m \<and> row \<le> rc_top m \<and> rc_bottom m = rc_top m + 1 \<and> rc_bottom m \<le> rc_bottom area \<and>
        rc_left area \<le> rc_left m \<and> rc_right m \<le> rc_right area)"

lemma hits_add_piece:
  "length out < 49 \<Longrightarrow> hits (add_piece left tp right bottom out) p =
     hits out p + (if left \<le> fst p \<and> fst p < right \<and> tp \<le> snd p \<and> snd p < bottom then 1 else 0)"
  by (auto simp: hits_def add_piece_def covers_def)

lemma length_add_piece: "length (add_piece left tp right bottom out) \<le> Suc (length out)"
  by (simp add: add_piece_def)

lemma split_row_hits:
  assumes "split_row tp x ms out = (x', out')" and "sorted_wrt mark_le ms"
    and "\<forall>m \<in> set ms. has_area m \<and> rc_top m = tp \<and> rc_bottom m = tp + 1" and "length out + length ms \<le> 49"
  shows "length out' \<le> length out + length ms \<and> x \<le> x' \<and>
    hits out' p = hits out p +
      (if x \<le> fst p \<and> fst p < x' \<and> snd p = tp \<and> \<not> (\<exists>m \<in> set ms. covers m p) then 1 else 0)"
  using assms
proof (induction ms arbitrary: x out)
  case Nil
  then show ?case by simp
next
  case (Cons m ms)
  let ?out = "add_piece x tp (rc_left m) (tp + 1) out" and ?x = "max x (rc_right m)"
  have fits: "length ?out + length ms \<le> 49" "length out < 49"
    using Cons.prems(4) length_add_piece [of x tp "rc_left m" "tp + 1" out] by simp_all
  have rest: "length out' \<le> length ?out + length ms \<and> ?x \<le> x' \<and> hits out' p = hits ?out p +
      (if ?x \<le> fst p \<and> fst p < x' \<and> snd p = tp \<and> \<not> (\<exists>m \<in> set ms. covers m p) then 1 else 0)"
    using Cons.prems fits by (intro Cons.IH) simp_all
  have m: "rc_left m < rc_right m" "covers m p \<longleftrightarrow> rc_left m \<le> fst p \<and> fst p < rc_right m \<and> snd p = tp"
    using Cons.prems(3) by (auto simp: has_area_def covers_def)
  have "\<not> covers k p" if "k \<in> set ms" "fst p < rc_left m" for k
    using Cons.prems(2,3) that by (auto simp: mark_le_def covers_def)
  then have "(if x \<le> fst p \<and> fst p < rc_left m \<and> snd p = tp then 1 else 0 :: nat) +
      (if ?x \<le> fst p \<and> fst p < x' \<and> snd p = tp \<and> \<not> (\<exists>m \<in> set ms. covers m p) then 1 else 0) =
      (if x \<le> fst p \<and> fst p < x' \<and> snd p = tp \<and> \<not> (\<exists>m \<in> set (m # ms). covers m p) then 1 else 0)"
    using rest m by auto
  moreover have "(tp \<le> snd p \<and> snd p < tp + 1) = (snd p = tp)"
    by auto
  ultimately show ?case
    using rest length_add_piece [of x tp "rc_left m" "tp + 1" out]
    by (simp add: hits_add_piece [OF fits(2)])
qed

lemma split_row_end:
  assumes "split_row tp x ms out = (x', out')"
  shows "(\<forall>m \<in> set ms. rc_right m \<le> x') \<and> x \<le> x' \<and> (x \<le> r \<and> (\<forall>m \<in> set ms. rc_right m \<le> r) \<longrightarrow> x' \<le> r)"
  using assms by (induction ms arbitrary: x out) fastforce+

lemma sorted_run:
  assumes "sorted_wrt mark_le (m # ms)"
  shows "\<forall>k \<in> set (dropWhile (\<lambda>k. rc_top k = rc_top m) (m # ms)). rc_top m < rc_top k"
  using assms
proof (induction ms)
  case Nil
  then show ?case by simp
next
  case (Cons k ms)
  then have "sorted_wrt mark_le (m # ms)" by simp
  note IH = Cons.IH [OF this]
  show ?case
  proof (cases "rc_top k = rc_top m")
    case True
    with IH show ?thesis by simp
  next
    case False
    with Cons.prems have "rc_top m < rc_top k" "\<forall>j \<in> set ms. rc_top k \<le> rc_top j"
      by (auto simp: mark_le_def)
    then show ?thesis by fastforce
  qed
qed

lemma split_rows_hits:
  assumes "sorted_wrt mark_le ms" and "inside_marks area row ms" and "rc_left area < rc_right area"
    and "length out + 3 * length ms + 1 \<le> 49"
  shows "length (split_rows area row ms out) \<le> length out + 3 * length ms + 1 \<and>
    hits (split_rows area row ms out) p = hits out p +
      (if rc_left area \<le> fst p \<and> fst p < rc_right area \<and> row \<le> snd p \<and> snd p < rc_bottom area \<and>
         \<not> (\<exists>m \<in> set ms. covers m p) then 1 else 0)"
  using assms
proof (induction area row ms out rule: split_rows.induct)
  case (1 area row out)
  then show ?case
    using length_add_piece [of "rc_left area" row "rc_right area" "rc_bottom area" out]
    by (simp add: hits_add_piece conj_ac)
next
  case (2 area row m ms out)
  define tp where "tp = rc_top m"
  define out1 where "out1 = add_piece (rc_left area) row (rc_right area) tp out"
  define run where "run = takeWhile (\<lambda>k. rc_top k = tp) (m # ms)"
  define later where "later = dropWhile (\<lambda>k. rc_top k = tp) (m # ms)"
  obtain x out2 where row: "split_row tp (rc_left area) run out1 = (x, out2)"
    by (cases "split_row tp (rc_left area) run out1")
  define out3 where "out3 = add_piece x tp (rc_right area) (tp + 1) out2"
  have split: "set (m # ms) = set run \<union> set later" "length (m # ms) = length run + length later" "0 < length run"
    unfolding run_def later_def by (metis set_append takeWhile_dropWhile_id, metis length_append takeWhile_dropWhile_id, simp add: tp_def)
  have inside: "\<forall>k \<in> set (m # ms). has_area k \<and> row \<le> rc_top k \<and> rc_bottom k = rc_top k + 1 \<and> rc_bottom k \<le> rc_bottom area \<and>
        rc_left area \<le> rc_left k \<and> rc_right k \<le> rc_right area"
    using 2(3) by (simp only: inside_marks_def)
  have runs: "\<forall>k \<in> set run. rc_top k = tp" "sorted_wrt mark_le run" "sorted_wrt mark_le later"
    using 2(2) unfolding run_def later_def
    by (auto dest: set_takeWhileD simp: sorted_wrt_append simp del: takeWhile.simps dropWhile.simps
        intro: sorted_wrt_takeWhile sorted_wrt_dropWhile)
  have len1: "length out1 \<le> Suc (length out)"
    unfolding out1_def by (rule length_add_piece)
  then have "length out1 + length run \<le> 49"
    using 2(5) split(2,3) by simp
  moreover have runin: "\<forall>k \<in> set run. has_area k \<and> rc_top k = tp \<and> rc_bottom k = tp + 1 \<and> rc_right k \<le> rc_right area"
    using inside runs(1) unfolding split(1) by simp
  ultimately have two: "length out2 \<le> length out1 + length run \<and> rc_left area \<le> x \<and>
    hits out2 p = hits out1 p + (if rc_left area \<le> fst p \<and> fst p < x \<and> snd p = tp \<and> \<not> (\<exists>k \<in> set run. covers k p) then 1 else 0)"
    using runs(2) by (intro split_row_hits [OF row]) simp_all
  have ends: "x \<le> rc_right area" "\<forall>k \<in> set run. rc_right k \<le> x"
    using split_row_end [OF row, of "rc_right area"] runin 2(4) by simp_all
  have len3: "length out3 \<le> Suc (length out2)"
    unfolding out3_def by (rule length_add_piece)
  have later: "inside_marks area (tp + 1) later"
    unfolding inside_marks_def
  proof
    fix k
    assume k: "k \<in> set later"
    then have "tp < rc_top k"
      using sorted_run [OF 2(2)] unfolding later_def tp_def by blast
    with k show "has_area k \<and> tp + 1 \<le> rc_top k \<and> rc_bottom k = rc_top k + 1 \<and> rc_bottom k \<le> rc_bottom area \<and>
        rc_left area \<le> rc_left k \<and> rc_right k \<le> rc_right area"
      using inside unfolding split(1) by fastforce
  qed
  have "length out3 + 3 * length later + 1 \<le> 49"
    using len1 len3 conjunct1 [OF two] 2(5) split(2,3) by linarith
  with 2(1) [OF tp_def out1_def row [unfolded run_def, symmetric] refl out3_def] runs(3) later 2(4)
  have rest: "length (split_rows area (tp + 1) later out3) \<le> length out3 + 3 * length later + 1 \<and>
    hits (split_rows area (tp + 1) later out3) p = hits out3 p +
      (if rc_left area \<le> fst p \<and> fst p < rc_right area \<and> tp + 1 \<le> snd p \<and> snd p < rc_bottom area \<and>
         \<not> (\<exists>m \<in> set later. covers m p) then 1 else 0)"
    by (simp add: later_def)
  have all: "split_rows area row (m # ms) out = split_rows area (tp + 1) later out3"
    using row by (simp add: tp_def out1_def run_def later_def out3_def Let_def)
  have m: "row \<le> tp" "tp + 1 \<le> rc_bottom area"
    using inside by (auto simp: tp_def)
  define r where "r = (\<exists>k \<in> set run. covers k p)"
  define l where "l = (\<exists>k \<in> set later. covers k p)"
  have run_p: "r \<Longrightarrow> snd p = tp \<and> fst p < x"
    using runin ends(2) unfolding r_def by (fastforce simp: covers_def)
  have later_p: "l \<Longrightarrow> tp + 1 \<le> snd p"
    using later unfolding l_def by (auto simp: inside_marks_def covers_def)
  have any: "(\<exists>k \<in> set (m # ms). covers k p) \<longleftrightarrow> r \<or> l"
    unfolding split(1) r_def l_def by blast
  note two' = two [folded r_def] and rest' = rest [folded l_def]
  have "length out < 49" "length out2 < 49"
    using 2(5) len1 conjunct1 [OF two] split(2,3) by linarith+
  note step = hits_add_piece [OF this(1), of "rc_left area" row "rc_right area" tp p, folded out1_def]
    hits_add_piece [OF this(2), of x tp "rc_right area" "tp + 1" p, folded out3_def]
  have "hits (split_rows area (tp + 1) later out3) p = hits out p +
      (if rc_left area \<le> fst p \<and> fst p < rc_right area \<and> row \<le> snd p \<and> snd p < rc_bottom area \<and>
         \<not> (r \<or> l) then 1 else 0)"
  proof -
    consider "snd p < tp" | "snd p = tp" | "tp < snd p" by linarith
    then show ?thesis
    proof cases
      case 1
      with run_p later_p step rest' two' m show ?thesis by auto
    next
      case 2
      with run_p later_p step rest' two' m ends show ?thesis by auto
    next
      case 3
      with run_p later_p step rest' two' m show ?thesis by auto
    qed
  qed
  moreover have "length (split_rows area (tp + 1) later out3) \<le> length out + 3 * length (m # ms) + 1"
    using conjunct1 [OF rest] len1 len3 conjunct1 [OF two] split(2,3) by linarith
  ultimately show ?case
    unfolding all any by blast
qed

lemma sort_key_marks: "sorted_wrt mark_le (sort_key (\<lambda>r. (rc_top r, rc_left r)) xs)"
proof -
  have "sorted (map (\<lambda>r. (rc_top r, rc_left r)) (sort_key (\<lambda>r. (rc_top r, rc_left r)) xs))"
    by (rule sorted_sort_key)
  then show ?thesis
    unfolding sorted_wrt_map by (rule sorted_wrt_mono_rel [rotated]) (auto simp: mark_le_def)
qed

lemma mark_rect_inside:
  assumes "has_area (mark_rect area m)"
  shows "rc_top area \<le> rc_top (mark_rect area m)" "rc_bottom (mark_rect area m) = rc_top (mark_rect area m) + 1"
    "rc_bottom (mark_rect area m) \<le> rc_bottom area" "rc_left area \<le> rc_left (mark_rect area m)"
    "rc_right (mark_rect area m) \<le> rc_right area"
  using assms by (auto simp: mark_rect_def has_area_def)

lemma covers_has_area: "covers r p \<Longrightarrow> has_area r"
  by (auto simp: covers_def has_area_def)

lemma covers_mark_rect:
  "covers area p \<Longrightarrow> covers (mark_rect area m) p \<longleftrightarrow> mark_x m \<le> fst p \<and> fst p < mark_x m + 2 \<and> snd p = mark_y m"
  by (auto simp: covers_def mark_rect_def)

lemma covers_inside:
  assumes "covers area p"
  shows "(\<exists>k \<in> set (filter has_area (map (mark_rect area) listed)). covers k p) \<longleftrightarrow> marked listed p"
proof -
  have "(\<exists>k \<in> set (filter has_area (map (mark_rect area) listed)). covers k p) \<longleftrightarrow>
      (\<exists>m \<in> set listed. covers (mark_rect area m) p)"
    unfolding set_filter set_map using covers_has_area by blast
  then show ?thesis
    by (simp add: marked_def list_ex_iff covers_mark_rect [OF assms])
qed

lemma pieces_hits:
  assumes "length listed \<le> 16"
  shows "hits (pieces listed area) p = (if covers area p \<and> \<not> marked listed p then 1 else 0)"
proof -
  define ms where "ms = filter has_area (map (mark_rect area) listed)"
  show ?thesis
  proof (cases "ms = [] \<or> \<not> has_area area")
    case True
    then have "pieces listed area = [area]"
      by (auto simp: pieces_def ms_def has_area_def Let_def)
    moreover have "\<not> marked listed p" if "covers area p"
      using True covers_inside [OF that, of listed] covers_has_area [OF that] unfolding ms_def [symmetric] by auto
    ultimately show ?thesis
      by (auto simp: hits_def)
  next
    case False
    define sorted_ms where "sorted_ms = sort_key (\<lambda>r. (rc_top r, rc_left r)) ms"
    have same: "set sorted_ms = set ms" "length sorted_ms = length ms"
      by (simp_all add: sorted_ms_def)
    have "inside_marks area (rc_top area) sorted_ms"
      unfolding inside_marks_def same using mark_rect_inside by (auto simp: ms_def)
    moreover have "length sorted_ms \<le> 16"
      using assms order_trans [OF length_filter_le, of "map (mark_rect area) listed"] by (simp add: same ms_def)
    ultimately have "hits (split_rows area (rc_top area) sorted_ms []) p = hits [] p +
      (if rc_left area \<le> fst p \<and> fst p < rc_right area \<and> rc_top area \<le> snd p \<and> snd p < rc_bottom area \<and>
         \<not> (\<exists>m \<in> set sorted_ms. covers m p) then 1 else 0)"
      using False sort_key_marks [of ms]
      by (intro split_rows_hits [THEN conjunct2]) (auto simp: sorted_ms_def has_area_def)
    moreover have "pieces listed area = split_rows area (rc_top area) sorted_ms []"
      using False by (simp add: pieces_def ms_def [symmetric] sorted_ms_def has_area_def Let_def)
    ultimately show ?thesis
      using covers_inside [of area p listed] unfolding ms_def [symmetric] same
      by (auto simp: hits_def covers_def)
  qed
qed

lemma add_piece_areas: "\<forall>r \<in> set out. has_area r \<Longrightarrow> \<forall>r \<in> set (add_piece left tp right bottom out). has_area r"
  by (simp add: add_piece_def has_area_def)

lemma split_row_areas:
  "split_row tp x ms out = (x', out') \<Longrightarrow> \<forall>r \<in> set out. has_area r \<Longrightarrow> \<forall>r \<in> set out'. has_area r"
proof (induction ms arbitrary: x out)
  case Nil
  then show ?case by simp
next
  case (Cons m ms)
  then show ?case
    using add_piece_areas [OF Cons.prems(2)] Cons.IH by simp
qed

lemma split_rows_areas:
  "\<forall>r \<in> set out. has_area r \<Longrightarrow> \<forall>r \<in> set (split_rows area row ms out). has_area r"
proof (induction area row ms out rule: split_rows.induct)
  case (1 area row out)
  then show ?case by (simp add: add_piece_areas)
next
  case (2 area row m ms out)
  define out1 where "out1 = add_piece (rc_left area) row (rc_right area) (rc_top m) out"
  obtain x out2 where row: "split_row (rc_top m) (rc_left area) (takeWhile (\<lambda>k. rc_top k = rc_top m) (m # ms)) out1 = (x, out2)"
    by fastforce
  have "\<forall>r \<in> set (add_piece x (rc_top m) (rc_right area) (rc_top m + 1) out2). has_area r"
    using split_row_areas [OF row] 2(2) by (intro add_piece_areas) (simp add: out1_def add_piece_areas)
  with 2(1) [OF refl out1_def row [symmetric] refl refl] row show ?case
    by (simp add: out1_def Let_def)
qed

lemma pieces_within:
  assumes "has_area area" and "length listed \<le> 16" and r: "r \<in> set (pieces listed area)"
  shows "has_area r \<and> rc_left area \<le> rc_left r \<and> rc_right r \<le> rc_right area \<and>
    rc_top area \<le> rc_top r \<and> rc_bottom r \<le> rc_bottom area"
proof -
  have "has_area r"
    using assms split_rows_areas [of "[]"] by (auto simp: pieces_def Let_def split: if_splits)
  then have corners: "covers r (rc_left r, rc_top r)" "covers r (rc_right r - 1, rc_bottom r - 1)"
    by (auto simp: covers_def has_area_def)
  have "covers area p" if "covers r p" for p
  proof -
    have "0 < hits (pieces listed area) p"
      using that r by (auto simp: hits_def filter_empty_conv)
    then show ?thesis
      by (simp add: pieces_hits [OF assms(2)] split: if_splits)
  qed
  from this [OF corners(1)] this [OF corners(2)] \<open>has_area r\<close> show ?thesis
    by (simp add: covers_def)
qed

subsection \<open>The copies of a region\<close>

text \<open>The texel a copy writes to a destination pixel, as the position it reads in its source.\<close>

fun texel_source :: "int \<times> int \<Rightarrow> list_call \<Rightarrow> (int \<times> int) option" where
  "texel_source p (Copy_Texture destination x y source (l, t, r, b)) =
     (if uint x \<le> fst p \<and> fst p < uint x + (uint r - uint l) \<and> uint y \<le> snd p \<and> snd p < uint y + (uint b - uint t)
      then Some (fst p - uint x + uint l, snd p - uint y + uint t) else None)"
| "texel_source p (Barriers bs) = None"

lemma uint_of_int_32: "0 \<le> i \<Longrightarrow> i < 2 ^ 32 \<Longrightarrow> uint (word_of_int i :: u32) = i"
  by (simp add: uint_word_of_int)

lemma uint_diff_32:
  assumes "uint x \<le> i" "i < 2 ^ 32"
  shows "uint (word_of_int i - x :: u32) = i - uint x"
proof -
  have i: "uint (word_of_int i :: u32) = i"
    using assms order_trans [OF uint_ge_0 assms(1)] by (intro uint_of_int_32) simp_all
  then have "x \<le> word_of_int i"
    using assms(1) by (simp add: word_le_def)
  then show ?thesis
    by (simp add: uint_minus_simple_alt i)
qed

lemma piece_copy_source:
  assumes "has_area r" "uint x \<le> rc_left r" "rc_right r < 2 ^ 32" "uint y \<le> rc_top r" "rc_bottom r < 2 ^ 32"
  shows "texel_source p (piece_copy destination x y source r) =
    (if covers r p then Some (fst p - uint x, snd p - uint y) else None)"
proof -
  have "0 \<le> rc_left r" "0 \<le> rc_top r" "rc_left r < rc_right r" "rc_top r < rc_bottom r"
    using assms(2,4) order_trans [OF uint_ge_0 [of x]] order_trans [OF uint_ge_0 [of y]] assms(1)
    by (blast, blast, simp_all add: has_area_def)
  with assms show ?thesis
    by (auto simp: piece_copy_def covers_def uint_of_int_32 uint_diff_32)
qed

lemma map_filter_const:
  "\<forall>r \<in> set rs. f r = (if Q r then Some v else None) \<Longrightarrow> List.map_filter f rs = replicate (length (filter Q rs)) v"
  by (induction rs) simp_all

lemma sint_small: "uint w < 2 ^ 31 \<Longrightarrow> sint w = uint w" for w :: u32
  by (simp add: sint_uint signed_take_bit_int_eq_self order_trans [OF _ uint_ge_0])

lemma copy_region_texels:
  assumes listed: "length listed \<le> 16" and size: "0 < width" "0 < height"
    and fits: "uint x + uint width < 2 ^ 31" "uint y + uint height < 2 ^ 31"
  shows "List.map_filter (texel_source p) (copy_region listed destination x y source width height) =
    (if uint x \<le> fst p \<and> fst p < uint x + uint width \<and> uint y \<le> snd p \<and> snd p < uint y + uint height \<and> \<not> marked listed p
     then [(fst p - uint x, snd p - uint y)] else [])"
proof -
  define area where "area = \<lparr>rc_left = sint x, rc_top = sint y, rc_right = sint (x + width), rc_bottom = sint (y + height)\<rparr>"
  have sums: "uint (x + width) = uint x + uint width" "uint (y + height) = uint y + uint height"
    using fits uint_ge_0 [of x] uint_ge_0 [of y] by (simp_all add: uint_plus_if')
  have pos: "0 < uint width" "0 < uint height"
    using size by (simp_all add: word_less_def)
  have area: "rc_left area = uint x" "rc_top area = uint y" "rc_right area = uint x + uint width" "rc_bottom area = uint y + uint height"
    using fits pos uint_ge_0 [of x] uint_ge_0 [of y] by (simp_all add: area_def sint_small sums)
  then have "has_area area"
    using pos by (simp add: has_area_def)
  then have each: "\<forall>r \<in> set (pieces listed area). texel_source p (piece_copy destination x y source r) =
      (if covers r p then Some (fst p - uint x, snd p - uint y) else None)"
    using pieces_within [OF _ listed] area fits by (intro ballI piece_copy_source) fastforce+
  have "List.map_filter (texel_source p) (map (piece_copy destination x y source) (pieces listed area)) =
      List.map_filter (\<lambda>r. texel_source p (piece_copy destination x y source r)) (pieces listed area)"
    by (simp add: List.map_filter_def filter_map o_def)
  also have "\<dots> = replicate (hits (pieces listed area) p) (fst p - uint x, snd p - uint y)"
    unfolding hits_def using each by (rule map_filter_const)
  finally show ?thesis
    using area by (simp add: copy_region_def area_def [symmetric] pieces_hits [OF listed] covers_def)
qed

subsection \<open>Publishing marks\<close>

definition board_ok :: "mark_board \<Rightarrow> bool" where
  "board_ok s \<longleftrightarrow> length (mb_lists s) = 2 \<and> mb_published s < 2 \<and>
     (\<forall>l \<in> set (mb_lists s). length (ml_marks l) = 16 \<and> ml_count l \<le> 16)"

lemma other_list: "n < 2 \<Longrightarrow> n XOR 1 < (2::nat)"
  by (cases "n = 0"; cases "n = 1") simp_all

lemma set_marks_ok:
  assumes "board_ok s"
  shows "board_ok (set_marks points s)"
proof -
  define n where "n = mb_published s XOR 1"
  have n: "n < 2" "mb_lists s ! n \<in> set (mb_lists s)"
    using assms other_list [of "mb_published s"] by (simp_all add: board_ok_def n_def)
  have "length (write_at 0 (map pack_mark (take (min (length points) 16) points)) (ml_marks (mb_lists s ! n))) = 16"
    using assms n(2) by (simp add: board_ok_def)
  with assms n(1) show ?thesis
    unfolding set_marks_def Let_def n_def [symmetric]
    by (auto simp: board_ok_def dest!: set_update_subset_insert [THEN subsetD])
qed

interpretation board: machine set_marks board_ok "\<lambda>_. True"
  by unfold_locales (rule set_marks_ok)

lemma read_set_marks:
  assumes "board_ok s"
  shows "read_marks (set_marks points s) = map pack_mark (take 16 points)"
proof -
  have "length (ml_marks (mb_lists s ! (mb_published s XOR 1))) = 16"
    using assms other_list [of "mb_published s"] nth_mem [of "mb_published s XOR 1" "mb_lists s"] by (auto simp: board_ok_def)
  then show ?thesis
    using assms other_list [of "mb_published s"]
    by (simp add: read_marks_def set_marks_def Let_def board_ok_def write_at_def min_def)
qed

lemma pack_mark_parts:
  "mark_x (pack_mark p) = uint (min (fst p) 0xFFFF)" "mark_y (pack_mark p) = uint (min (snd p) 0xFFFF)"
proof -
  have small: "min a 0xFFFF = take_bit 16 (min a 0xFFFF)" for a :: u32
  proof -
    have "uint (min a 0xFFFF) < 2 ^ 16"
      by (auto simp: min_def word_le_def)
    then show ?thesis
      by (intro word_uint_eqI) (simp add: unsigned_take_bit_eq take_bit_int_eq_self)
  qed
  define x where "x = min (fst p) 0xFFFF"
  define y where "y = min (snd p) 0xFFFF"
  have "drop_bit 16 (push_bit 16 (take_bit 16 x) OR take_bit 16 y) = take_bit 16 x"
    by (rule bit_word_eqI) (auto simp: bit_simps)
  moreover have "(push_bit 16 (take_bit 16 x) OR take_bit 16 y) AND mask 16 = take_bit 16 y"
    by (rule bit_word_eqI) (auto simp: bit_simps)
  moreover have "mask 16 = (0xFFFF :: u32)"
    by (simp add: mask_eq_exp_minus_1)
  ultimately show "mark_x (pack_mark p) = uint (min (fst p) 0xFFFF)" "mark_y (pack_mark p) = uint (min (snd p) 0xFFFF)"
    using small [of "fst p"] small [of "snd p"]
    by (simp_all add: mark_x_def mark_y_def pack_mark_def x_def [symmetric] y_def [symmetric])
qed

text \<open>C14: Whatever marks were published before, a camera copy into a display after \<open>set_marks\<close> writes
  each pixel of its area exactly once, from the pixel of the source it stands for, except the two
  pixels of each of the first sixteen published corners, which no copy writes; and nothing outside
  the area is written.\<close>

theorem copy_spares_marks:
  assumes "0 < width" and "0 < height"
    and "uint x + uint width < 2 ^ 31" and "uint y + uint height < 2 ^ 31"
  shows "List.map_filter (texel_source p)
      (copy_region (read_marks (set_marks points (fold set_marks history empty_board))) destination x y source width height) =
    (if uint x \<le> fst p \<and> fst p < uint x + uint width \<and> uint y \<le> snd p \<and> snd p < uint y + uint height \<and>
        \<not> list_ex (\<lambda>q. uint (min (fst q) 0xFFFF) \<le> fst p \<and> fst p < uint (min (fst q) 0xFFFF) + 2 \<and>
          snd p = uint (min (snd q) 0xFFFF)) (take 16 points)
     then [(fst p - uint x, snd p - uint y)] else [])"
proof -
  have "board_ok empty_board"
    by (simp add: board_ok_def empty_board_def)
  then have read: "read_marks (set_marks points (fold set_marks history empty_board)) = map pack_mark (take 16 points)"
    by (intro read_set_marks board.run_inv) (simp_all add: list_all_iff)
  show ?thesis
    unfolding read copy_region_texels [OF _ assms, of "map pack_mark (take 16 points)", simplified]
    by (simp add: marked_def list_ex_iff pack_mark_parts)
qed

lemma copy_spares_marks_witness:
  "List.map_filter (texel_source (5, 3)) (copy_region (read_marks (set_marks [(4, 3)] (fold set_marks [] empty_board)))
      (Subresource_Index 7) 0 0 (Subresource_Index 9) 16 8) = [] \<and>
   List.map_filter (texel_source (6, 3)) (copy_region (read_marks (set_marks [(4, 3)] (fold set_marks [] empty_board)))
      (Subresource_Index 7) 0 0 (Subresource_Index 9) 16 8) = [(6, 3)]"
  using copy_spares_marks [of 16 8 0 0 "(5, 3)" "[(4, 3)]" "[]" "Subresource_Index 7" "Subresource_Index 9"]
    copy_spares_marks [of 16 8 0 0 "(6, 3)" "[(4, 3)]" "[]" "Subresource_Index 7" "Subresource_Index 9"]
  by (simp add: min_def)

end
