(* ===== verification/Submission_Pool.thy ===== *)
theory Submission_Pool
  imports Display_Keep
begin

text \<open>
  \<open>src/graphics/pfd_submission_pool.hpp\<close> and \<open>.cpp\<close>: the command lists the bridge inserts into the
  application's submissions, from their recording to the fence that covers them, with the
  references they own and the report each copy gets; and the comparison of COM identities of
  \<open>src/graphics/native_device_identity.hpp\<close> that its validation uses.

  A COM object, a resource and a counter are their 64-bit address, with 0 for null.  What the D3D12
  runtime answers (descriptions, heap types, devices, identities, allocation results) is a
  parameter.  The submission mutex serializes all operations, so the pool is a state passed from one
  to the next; a counter's compare-exchange loop leaves the larger of the two values.
\<close>

subsection \<open>The runtime\<close>

record resource_desc =
  rd_dimension :: u32
  rd_width :: u64
  rd_height :: u32
  rd_depth :: u16
  rd_mips :: u16
  rd_format :: u32
  rd_samples :: u32
  rd_quality :: u32
  rd_flags :: u32

text \<open>A query for the unwrapped object: not supported, failed, or the next object.\<close>

datatype unwrap_result = No_Interface | Unwrap_Failed | Unwrapped u64

record gpu =
  gp_desc :: "u64 \<Rightarrow> resource_desc"
  gp_heap :: "u64 \<Rightarrow> u32"
  gp_device :: "u64 \<Rightarrow> u64"
  gp_identity :: "u64 \<Rightarrow> u64"
  gp_unwrap :: "u64 \<Rightarrow> unwrap_result"

subsection \<open>Device identity\<close>

fun resolve_chain :: "gpu \<Rightarrow> nat \<Rightarrow> u64 list \<Rightarrow> u64 \<Rightarrow> u64 option" where
  "resolve_chain g hops seen current =
     (if current \<in> set seen then None
      else case gp_unwrap g current of
        No_Interface \<Rightarrow> Some current
      | Unwrap_Failed \<Rightarrow> None
      | Unwrapped other \<Rightarrow>
          (case hops of
             0 \<Rightarrow> None
           | Suc n \<Rightarrow> if gp_identity g other = 0 then None
               else resolve_chain g n (seen @ [current]) (gp_identity g other)))"

definition resolve_unwrapped_object :: "gpu \<Rightarrow> u64 \<Rightarrow> u64 option" where
  "resolve_unwrapped_object g reported =
     (if reported = 0 \<or> gp_identity g reported = 0 then None
      else resolve_chain g 4 [] (gp_identity g reported))"

definition same_device_identity :: "gpu \<Rightarrow> u64 \<Rightarrow> u64 \<Rightarrow> bool" where
  "same_device_identity g reported expected \<longleftrightarrow>
     (case resolve_unwrapped_object g reported of
        None \<Rightarrow> False
      | Some a \<Rightarrow> resolve_unwrapped_object g expected = Some a)"

definition same_native_device :: "gpu \<Rightarrow> u64 \<Rightarrow> u64 \<Rightarrow> bool" where
  "same_native_device g child expected \<longleftrightarrow>
     child \<noteq> 0 \<and> expected \<noteq> 0 \<and> gp_device g child \<noteq> 0 \<and> same_device_identity g (gp_device g child) expected"

subsection \<open>Data\<close>

datatype drop_source =
  Pool_Full | Invalid_Copy | Save_Stripped | Escaped | Stale_Plan | Unknown_Lists | Device_Failed | No_Receipt
| Wait_Failed | Out_Of_Batch | Not_Recorded | Cancelled | Quarantined | Close_Failed | Unsubmitted | Device_Lost

definition drop_sources :: "drop_source list" where
  "drop_sources = [Pool_Full, Invalid_Copy, Save_Stripped, Escaped, Stale_Plan, Unknown_Lists, Device_Failed, No_Receipt,
     Wait_Failed, Out_Of_Batch, Not_Recorded, Cancelled, Quarantined, Close_Failed, Unsubmitted, Device_Lost]"

record pool_copy =
  cp_target :: u64
  cp_source :: u64
  cp_footprint :: footprint
  cp_state :: u32
  cp_x :: u32
  cp_y :: u32
  cp_width :: u32
  cp_height :: u32
  cp_readback :: bool
  cp_completed :: u64
  cp_completed_value :: u64
  cp_dropped :: u64
  cp_drop_sources :: u64
  cp_save :: u64
  cp_save_footprint :: footprint
  cp_shadow_source :: bool

record pool_recording =
  pr_slot :: nat
  pr_list :: u64
  pr_reported :: bool
  pr_invalid :: bool

definition no_recording :: pool_recording where
  "no_recording = \<lparr>pr_slot = 16, pr_list = 0, pr_reported = False, pr_invalid = False\<rparr>"

datatype packet_state = Empty | Ready | Recorded | Submitted | Retired | In_Quarantine

record packet =
  pk_allocator :: u64
  pk_list :: u64
  pk_target :: u64
  pk_source :: u64
  pk_save :: u64
  pk_completed :: u64
  pk_dropped :: u64
  pk_drop_sources :: u64
  pk_completed_value :: u64
  pk_covering :: u64
  pk_state :: packet_state

definition no_packet :: packet where
  "no_packet = \<lparr>pk_allocator = 0, pk_list = 0, pk_target = 0, pk_source = 0, pk_save = 0, pk_completed = 0,
     pk_dropped = 0, pk_drop_sources = 0, pk_completed_value = 0, pk_covering = 0, pk_state = Empty\<rparr>"

text \<open>The pool, with the references it took and released and the counters it raises.\<close>

record pool =
  po_device :: u64
  po_packets :: "packet list"
  po_refs :: "u64 \<Rightarrow> int"
  po_counters :: "u64 \<Rightarrow> u64"
  po_drops :: "u64 \<Rightarrow> drop_source \<Rightarrow> u64"

definition new_pool :: "(u64 \<Rightarrow> u64) \<Rightarrow> pool" where
  "new_pool counters = \<lparr>po_device = 0, po_packets = replicate 16 no_packet, po_refs = (\<lambda>_. 0),
     po_counters = counters, po_drops = (\<lambda>_ _. 0)\<rparr>"

subsection \<open>Packets\<close>

definition add_ref :: "u64 \<Rightarrow> (u64 \<Rightarrow> int) \<Rightarrow> u64 \<Rightarrow> int" where
  "add_ref x refs = (if x = 0 then refs else refs(x := refs x + 1))"

definition release_ref :: "u64 \<Rightarrow> (u64 \<Rightarrow> int) \<Rightarrow> u64 \<Rightarrow> int" where
  "release_ref x refs = (if x = 0 then refs else refs(x := refs x - 1))"

definition pool_slots :: "nat list" where
  "pool_slots = [0..<16]"

definition set_packet :: "nat \<Rightarrow> packet \<Rightarrow> pool \<Rightarrow> pool" where
  "set_packet i k p = p\<lparr>po_packets := (po_packets p)[i := k]\<rparr>"

definition set_state :: "nat \<Rightarrow> packet_state \<Rightarrow> pool \<Rightarrow> pool" where
  "set_state i st p = set_packet i ((po_packets p ! i)\<lparr>pk_state := st\<rparr>) p"

definition release_resources :: "nat \<Rightarrow> pool \<Rightarrow> pool" where
  "release_resources i p =
     (let k = po_packets p ! i in
      set_packet i (k\<lparr>pk_target := 0, pk_source := 0, pk_save := 0, pk_completed := 0, pk_dropped := 0,
          pk_drop_sources := 0, pk_completed_value := 0, pk_covering := 0\<rparr>)
        (p\<lparr>po_refs := release_ref (pk_save k) (release_ref (pk_source k) (release_ref (pk_target k) (po_refs p)))\<rparr>))"

definition count_drop :: "u64 \<Rightarrow> drop_source \<Rightarrow> pool \<Rightarrow> pool" where
  "count_drop d source p =
     (if d = 0 then p else p\<lparr>po_drops := (po_drops p)(d := (po_drops p d)(source := po_drops p d source + 1))\<rparr>)"

definition raise_counter :: "u64 \<Rightarrow> u64 \<Rightarrow> pool \<Rightarrow> pool" where
  "raise_counter c v p = (if po_counters p c < v then p\<lparr>po_counters := (po_counters p)(c := v)\<rparr> else p)"

definition report_dropped :: "nat \<Rightarrow> drop_source \<Rightarrow> pool \<Rightarrow> pool" where
  "report_dropped i source p =
     (let k = po_packets p ! i in
      if pk_dropped k = 0 then p
      else set_packet i (k\<lparr>pk_dropped := 0, pk_drop_sources := 0\<rparr>)
        (raise_counter (pk_dropped k) (pk_completed_value k) (count_drop (pk_drop_sources k) source p)))"

definition in_flight_state :: "packet_state \<Rightarrow> bool" where
  "in_flight_state st \<longleftrightarrow> st = Recorded \<or> st = Submitted"

definition ready_count :: "pool \<Rightarrow> nat" where
  "ready_count p = length (filter (\<lambda>k. pk_state k = Ready) (po_packets p))"

subsection \<open>Service\<close>

text \<open>What the two creation calls of an empty packet return.\<close>

datatype creation = No_Allocator | No_List u64 | Created u64 u64

definition lose_packet :: "nat \<Rightarrow> pool \<Rightarrow> pool" where
  "lose_packet i p =
     set_state i In_Quarantine
       (if in_flight_state (pk_state (po_packets p ! i)) then report_dropped i Device_Lost p else p)"

definition complete_packet :: "nat \<Rightarrow> pool \<Rightarrow> pool" where
  "complete_packet i p =
     (let k = po_packets p ! i in
      set_packet i (k\<lparr>pk_dropped := 0, pk_state := Retired\<rparr>)
        (if pk_completed k = 0 then p else raise_counter (pk_completed k) (pk_completed_value k) p))"

definition recycle_packet :: "bool \<Rightarrow> nat \<Rightarrow> pool \<Rightarrow> pool" where
  "recycle_packet resets i p = set_state i (if resets then Ready else In_Quarantine) (release_resources i p)"

definition create_packet :: "creation \<Rightarrow> nat \<Rightarrow> pool \<Rightarrow> pool" where
  "create_packet c i p =
     (let k = po_packets p ! i in
      case c of
        No_Allocator \<Rightarrow> set_packet i (k\<lparr>pk_state := In_Quarantine\<rparr>) p
      | No_List a \<Rightarrow> set_packet i (k\<lparr>pk_allocator := a, pk_state := In_Quarantine\<rparr>) (p\<lparr>po_refs := add_ref a (po_refs p)\<rparr>)
      | Created a l \<Rightarrow> set_packet i (k\<lparr>pk_allocator := a, pk_list := l, pk_state := Ready\<rparr>)
          (p\<lparr>po_refs := add_ref l (add_ref a (po_refs p))\<rparr>))"

definition fence_passed :: "u64 \<Rightarrow> packet \<Rightarrow> bool" where
  "fence_passed completed k \<longleftrightarrow> pk_state k = Submitted \<and> pk_covering k \<le> completed"

definition service_packet :: "u64 \<Rightarrow> (nat \<Rightarrow> creation) \<Rightarrow> (nat \<Rightarrow> bool) \<Rightarrow> nat \<Rightarrow> pool \<Rightarrow> pool" where
  "service_packet completed created resets i p =
     (let p1 = (if fence_passed completed (po_packets p ! i) then complete_packet i p else p) in
      if pk_state (po_packets p1 ! i) = Retired then recycle_packet (resets i) i p1
      else if pk_state (po_packets p1 ! i) = Empty then create_packet (created i) i p1
      else p1)"

definition service :: "u64 \<Rightarrow> u64 \<Rightarrow> (nat \<Rightarrow> creation) \<Rightarrow> (nat \<Rightarrow> bool) \<Rightarrow> pool \<Rightarrow> bool \<times> pool" where
  "service device completed created resets p =
     (if device = 0 \<or> po_device p \<noteq> 0 \<and> po_device p \<noteq> device then (False, p)
      else if completed = u64_max then (False, fold lose_packet pool_slots p)
      else
        (let p1 = (if po_device p = 0 then p\<lparr>po_device := device, po_refs := add_ref device (po_refs p)\<rparr> else p);
             p2 = fold (service_packet completed created resets) pool_slots p1
         in (ready_count p2 \<noteq> 0, p2)))"

subsection \<open>Validation\<close>

text \<open>\<open>DXGI_FORMAT\<close>: the RGBA8 formats are 27 to 29, the BGRA8 ones 87, 90 and 91.\<close>

definition format_family :: "u32 \<Rightarrow> nat" where
  "format_family f = (if f = 27 \<or> f = 28 \<or> f = 29 then 1 else if f = 90 \<or> f = 87 \<or> f = 91 then 2 else 0)"

definition typed_format :: "u32 \<Rightarrow> bool" where
  "typed_format f \<longleftrightarrow> f = 28 \<or> f = 29 \<or> f = 87 \<or> f = 91"

text \<open>Resource states, dimensions, flags and heap types, as \<open>d3d12.h\<close> numbers them.\<close>

abbreviation (input) state_common :: u32 where "state_common \<equiv> 0"
abbreviation (input) state_render_target :: u32 where "state_render_target \<equiv> 0x4"
abbreviation (input) state_unordered_access :: u32 where "state_unordered_access \<equiv> 0x8"
abbreviation (input) state_copy_dest :: u32 where "state_copy_dest \<equiv> 0x400"
abbreviation (input) state_copy_source :: u32 where "state_copy_source \<equiv> 0x800"
abbreviation (input) state_shader_resource :: u32 where "state_shader_resource \<equiv> 0xC0"
abbreviation (input) heap_default :: u32 where "heap_default \<equiv> 1"
abbreviation (input) heap_readback :: u32 where "heap_readback \<equiv> 3"

definition copy_fits :: "gpu \<Rightarrow> u32 \<Rightarrow> u32 \<Rightarrow> u64 \<Rightarrow> footprint \<Rightarrow> bool" where
  "copy_fits g width height buffer placed =
     (let room = rd_width (gp_desc g buffer);
          bytes = ucast (height - 1) * ucast (fp_pitch placed) + ucast width * 4
      in fp_offset placed \<le> room \<and> bytes \<le> room - fp_offset placed)"

definition valid_footprint :: "u32 \<Rightarrow> u32 \<Rightarrow> u32 \<Rightarrow> footprint \<Rightarrow> bool" where
  "valid_footprint target_format width height f \<longleftrightarrow>
     typed_format (fp_format f) \<and> format_family target_format = format_family (fp_format f) \<and>
     fp_width f = width \<and> fp_height f = height \<and> fp_depth f = 1 \<and> \<not> fp_pitch f < width * 4 \<and>
     fp_pitch f mod 256 = 0 \<and> fp_offset f mod 512 = 0"

definition valid_target :: "resource_desc \<Rightarrow> pool_copy \<Rightarrow> bool" where
  "valid_target t c \<longleftrightarrow>
     rd_dimension t = 3 \<and> \<not> rd_width t > 16384 \<and> \<not> rd_height t > 16384 \<and> rd_mips t \<noteq> 0 \<and> rd_depth t = 1 \<and>
     rd_samples t = 1 \<and> rd_quality t = 0 \<and> rd_flags t AND 1 \<noteq> 0 \<and>
     \<not> (cp_state c = state_unordered_access \<and> rd_flags t AND 4 = 0) \<and> rd_flags t AND 0x20 = 0 \<and>
     \<not> ucast (cp_x c) > rd_width t \<and> \<not> ucast (cp_width c) > rd_width t - ucast (cp_x c) \<and>
     \<not> cp_y c > rd_height t \<and> \<not> cp_height c > rd_height t - cp_y c"

definition valid_save :: "gpu \<Rightarrow> u64 \<Rightarrow> pool_copy \<Rightarrow> bool" where
  "valid_save g device c \<longleftrightarrow>
     \<not> (cp_save c = cp_target c \<or> cp_save c = cp_source c) \<and> same_native_device g (cp_save c) device \<and>
     rd_dimension (gp_desc g (cp_save c)) = 1 \<and> gp_heap g (cp_save c) = heap_default \<and>
     valid_footprint (rd_format (gp_desc g (cp_target c))) (cp_width c) (cp_height c) (cp_save_footprint c) \<and>
     copy_fits g (cp_width c) (cp_height c) (cp_save c) (cp_save_footprint c)"

definition valid_copy :: "gpu \<Rightarrow> pool_copy \<Rightarrow> pool \<Rightarrow> bool" where
  "valid_copy g c p =
     (if po_device p = 0 \<or> cp_target c = 0 \<or> cp_source c = 0 \<or> cp_target c = cp_source c \<or> cp_width c = 0 \<or>
         cp_height c = 0 \<or> cp_width c > 16384 \<or> cp_height c > 16384 \<or>
         \<not> same_native_device g (cp_target c) (po_device p) \<or> \<not> same_native_device g (cp_source c) (po_device p) then False
      else if cp_state c \<noteq> state_render_target \<and> cp_state c \<noteq> state_unordered_access \<and>
         cp_state c AND NOT state_shader_resource \<noteq> 0 then False
      else if \<not> valid_target (gp_desc g (cp_target c)) c \<or> rd_dimension (gp_desc g (cp_source c)) \<noteq> 1 \<or>
         \<not> valid_footprint (rd_format (gp_desc g (cp_target c))) (cp_width c) (cp_height c) (cp_footprint c) then False
      else if (cp_completed c \<noteq> 0 \<or> cp_dropped c \<noteq> 0) \<and> cp_completed_value c = 0 then False
      else if cp_readback c \<and> (cp_save c \<noteq> 0 \<or> cp_shadow_source c) then False
      else if cp_readback c \<and> gp_heap g (cp_source c) \<noteq> heap_readback then False
      else if cp_shadow_source c \<and> gp_heap g (cp_source c) \<noteq> heap_default then False
      else if cp_save c \<noteq> 0 \<and> \<not> valid_save g (po_device p) c then False
      else copy_fits g (cp_width c) (cp_height c) (cp_source c) (cp_footprint c))"

subsection \<open>Recording\<close>

definition readback_calls :: "pool_copy \<Rightarrow> list_call list" where
  "readback_calls c =
     [Barriers [(cp_target c, cp_state c, state_copy_source)],
      Copy_Texture (Placed_Footprint (cp_source c) (cp_footprint c)) 0 0 (Subresource_Index (cp_target c))
        (cp_x c, cp_y c, cp_x c + cp_width c, cp_y c + cp_height c),
      Barriers [(cp_target c, state_copy_source, cp_state c)]]"

definition save_calls :: "pool_copy \<Rightarrow> list_call list" where
  "save_calls c =
     [Barriers [(cp_target c, cp_state c, state_copy_source), (cp_save c, state_common, state_copy_dest)],
      Copy_Texture (Placed_Footprint (cp_save c) (cp_save_footprint c)) 0 0 (Subresource_Index (cp_target c))
        (cp_x c, cp_y c, cp_x c + cp_width c, cp_y c + cp_height c),
      Barriers [(cp_save c, state_copy_dest, state_common)]]"

definition display_calls :: "u32 list \<Rightarrow> pool_copy \<Rightarrow> list_call list" where
  "display_calls marks c =
     (let target_state = (if cp_save c = 0 then cp_state c else state_copy_source) in
      (if cp_save c = 0 then [] else save_calls c) @
      [Barriers ((cp_target c, target_state, state_copy_dest) #
         (if cp_shadow_source c then [(cp_source c, state_common, state_copy_source)] else []))] @
      copy_region marks (Subresource_Index (cp_target c)) (cp_x c) (cp_y c)
        (Placed_Footprint (cp_source c) (cp_footprint c)) (cp_width c) (cp_height c) @
      [Barriers ((cp_target c, state_copy_dest, cp_state c) #
         (if cp_shadow_source c then [(cp_source c, state_copy_source, state_common)] else []))])"

definition copy_calls :: "u32 list \<Rightarrow> pool_copy \<Rightarrow> list_call list" where
  "copy_calls marks c = (if cp_readback c then readback_calls c else display_calls marks c)"

definition take_packet :: "pool_copy \<Rightarrow> nat \<Rightarrow> pool \<Rightarrow> pool" where
  "take_packet c i p =
     set_packet i ((po_packets p ! i)\<lparr>pk_target := cp_target c, pk_source := cp_source c, pk_save := cp_save c,
         pk_completed := cp_completed c, pk_dropped := cp_dropped c, pk_drop_sources := cp_drop_sources c,
         pk_completed_value := cp_completed_value c, pk_state := Recorded\<rparr>)
       (p\<lparr>po_refs := add_ref (cp_save c) (add_ref (cp_source c) (add_ref (cp_target c) (po_refs p)))\<rparr>)"

text \<open>\<open>closes\<close> is whether \<open>Close\<close> succeeds; \<open>marks\<close> are the marks published at that moment.\<close>

definition record_copy :: "gpu \<Rightarrow> u32 list \<Rightarrow> bool \<Rightarrow> pool_copy \<Rightarrow> pool \<Rightarrow> pool_recording \<times> list_call list \<times> pool" where
  "record_copy g marks closes c p =
     (if \<not> valid_copy g c p then (no_recording\<lparr>pr_invalid := True\<rparr>, [], p)
      else case first_index (\<lambda>k. pk_state k = Ready) (po_packets p) of
        None \<Rightarrow> (no_recording, [], p)
      | Some i \<Rightarrow>
          (let p1 = take_packet c i p in
           if closes then (no_recording\<lparr>pr_slot := i, pr_list := pk_list (po_packets p ! i)\<rparr>, copy_calls marks c, p1)
           else (no_recording\<lparr>pr_reported := True\<rparr>, copy_calls marks c,
             report_dropped i Close_Failed (set_state i In_Quarantine p1))))"

subsection \<open>Submission\<close>

definition submit_packet :: "nat \<Rightarrow> u64 \<Rightarrow> pool \<Rightarrow> pool" where
  "submit_packet slot covering p =
     (if slot \<ge> 16 then p
      else
        (let k = po_packets p ! slot in
         if pk_state k \<noteq> Recorded \<or> covering = 0 \<or> covering = u64_max
           then set_state slot In_Quarantine (if in_flight_state (pk_state k) then report_dropped slot Unsubmitted p else p)
         else set_packet slot (k\<lparr>pk_covering := covering, pk_state := Submitted\<rparr>) p))"

definition cancel_packet :: "nat \<Rightarrow> pool \<Rightarrow> pool" where
  "cancel_packet slot p =
     (if slot < 16
        then
          (let p1 = (if in_flight_state (pk_state (po_packets p ! slot)) then report_dropped slot Cancelled p else p) in
           if pk_state (po_packets p1 ! slot) = Recorded then set_state slot Retired p1
           else if pk_state (po_packets p1 ! slot) = Submitted then set_state slot In_Quarantine p1
           else p1)
      else p)"

definition quarantine_packet :: "nat \<Rightarrow> pool \<Rightarrow> pool" where
  "quarantine_packet slot p =
     (if slot < 16
        then set_state slot In_Quarantine
          (if in_flight_state (pk_state (po_packets p ! slot)) then report_dropped slot Quarantined p else p)
      else p)"

text \<open>The destructor: what may still run is kept, with the device it needs.\<close>

definition pending_state :: "packet_state \<Rightarrow> bool" where
  "pending_state st \<longleftrightarrow> st = Recorded \<or> st = Submitted \<or> st = In_Quarantine"

definition destroy_packet :: "nat \<Rightarrow> pool \<Rightarrow> pool" where
  "destroy_packet i p =
     (let k = po_packets p ! i in
      if pending_state (pk_state k) then p
      else (release_resources i p)\<lparr>po_refs := release_ref (pk_allocator k) (release_ref (pk_list k)
             (po_refs (release_resources i p)))\<rparr>)"

definition destroy_pool :: "pool \<Rightarrow> pool" where
  "destroy_pool p =
     (let p1 = fold destroy_packet pool_slots p in
      if po_device p \<noteq> 0 \<and> \<not> list_ex (\<lambda>k. pending_state (pk_state k)) (po_packets p)
        then p1\<lparr>po_refs := release_ref (po_device p) (po_refs p1)\<rparr> else p1)"

subsection \<open>Events\<close>

datatype pool_event =
  Pe_Service u64 u64 "nat \<Rightarrow> creation" "nat \<Rightarrow> bool"
| Pe_Record "u32 list" bool pool_copy
| Pe_Submit nat u64
| Pe_Cancel nat
| Pe_Quarantine nat

fun pool_step :: "gpu \<Rightarrow> pool_event \<Rightarrow> pool \<Rightarrow> pool" where
  "pool_step g (Pe_Service device completed created resets) p = snd (service device completed created resets p)"
| "pool_step g (Pe_Record marks closes c) p = snd (snd (record_copy g marks closes c p))"
| "pool_step g (Pe_Submit slot covering) p = submit_packet slot covering p"
| "pool_step g (Pe_Cancel slot) p = cancel_packet slot p"
| "pool_step g (Pe_Quarantine slot) p = quarantine_packet slot p"

text \<open>A created object is not null.\<close>

fun creation_ok :: "creation \<Rightarrow> bool" where
  "creation_ok No_Allocator = True"
| "creation_ok (No_List a) = (a \<noteq> 0)"
| "creation_ok (Created a l) = (a \<noteq> 0 \<and> l \<noteq> 0)"

fun pool_event_ok :: "pool_event \<Rightarrow> bool" where
  "pool_event_ok (Pe_Service device completed created resets) = (\<forall>i < 16. creation_ok (created i))"
| "pool_event_ok ev = True"

subsection \<open>References\<close>

definition packet_refs :: "u64 \<Rightarrow> packet \<Rightarrow> int" where
  "packet_refs x k = of_bool (pk_target k = x) + of_bool (pk_source k = x) + of_bool (pk_save k = x) +
     of_bool (pk_allocator k = x) + of_bool (pk_list k = x)"

definition held :: "pool \<Rightarrow> u64 \<Rightarrow> int" where
  "held p x = sum_list (map (packet_refs x) (po_packets p)) + of_bool (po_device p = x)"

definition packet_ok :: "packet \<Rightarrow> bool" where
  "packet_ok k \<longleftrightarrow>
     (pk_state k \<in> {Empty, Ready} \<longrightarrow> pk_target k = 0 \<and> pk_source k = 0 \<and> pk_save k = 0) \<and>
     (pk_state k = Empty \<longrightarrow> pk_allocator k = 0 \<and> pk_list k = 0) \<and>
     (pk_state k \<in> {Ready, Recorded, Submitted, Retired} \<longrightarrow> pk_allocator k \<noteq> 0 \<and> pk_list k \<noteq> 0)"

definition pool_ok :: "pool \<Rightarrow> bool" where
  "pool_ok p \<longleftrightarrow> length (po_packets p) = 16 \<and> (\<forall>k \<in> set (po_packets p). packet_ok k) \<and>
     (\<forall>x. x \<noteq> 0 \<longrightarrow> po_refs p x = held p x)"

lemma sum_list_update_at:
  "i < length xs \<Longrightarrow> sum_list (map f (xs[i := y])) = sum_list (map f xs) - f (xs ! i) + (f y :: 'a::ab_group_add)"
proof (induction xs arbitrary: i)
  case Nil
  then show ?case by simp
next
  case (Cons x xs)
  then show ?case
    by (cases i) (simp_all add: algebra_simps)
qed

lemma set_packet_ok:
  assumes ok: "pool_ok p" and i: "i < 16" and k: "packet_ok k"
    and refs: "\<And>x. x \<noteq> 0 \<Longrightarrow> refs x - po_refs p x = packet_refs x k - packet_refs x (po_packets p ! i)"
  shows "pool_ok (set_packet i k (p\<lparr>po_refs := refs\<rparr>))"
proof -
  have "sum_list (map (packet_refs x) ((po_packets p)[i := k])) =
      sum_list (map (packet_refs x) (po_packets p)) - packet_refs x (po_packets p ! i) + packet_refs x k" for x
    using ok i by (intro sum_list_update_at) (simp add: pool_ok_def)
  then have "refs x = held (set_packet i k (p\<lparr>po_refs := refs\<rparr>)) x" if "x \<noteq> 0" for x
    using refs [OF that] ok that by (simp add: held_def set_packet_def pool_ok_def)
  with ok k show ?thesis
    by (auto simp: pool_ok_def set_packet_def dest!: set_update_subset_insert [THEN subsetD])
qed

lemma set_packet_same_refs:
  assumes "pool_ok p" "i < 16" "packet_ok k" "\<And>x. packet_refs x k = packet_refs x (po_packets p ! i)"
  shows "pool_ok (set_packet i k p)"
  using set_packet_ok [OF assms(1-3), of "po_refs p"] assms(4) by simp

lemma packet_at_ok: "pool_ok p \<Longrightarrow> i < 16 \<Longrightarrow> packet_ok (po_packets p ! i)"
  by (simp add: pool_ok_def)

lemma ref_simps:
  "x \<noteq> 0 \<Longrightarrow> add_ref y refs x = refs x + of_bool (y = x)" "x \<noteq> 0 \<Longrightarrow> release_ref y refs x = refs x - of_bool (y = x)"
  by (auto simp: add_ref_def release_ref_def)

text \<open>Counters and reports do not touch references.\<close>

lemma raise_counter_fields [simp]:
  "po_packets (raise_counter c v p) = po_packets p" "po_refs (raise_counter c v p) = po_refs p"
  "po_device (raise_counter c v p) = po_device p" "po_drops (raise_counter c v p) = po_drops p"
  by (simp_all add: raise_counter_def)

lemma count_drop_fields [simp]:
  "po_packets (count_drop d source p) = po_packets p" "po_refs (count_drop d source p) = po_refs p"
  "po_device (count_drop d source p) = po_device p"
  by (simp_all add: count_drop_def)

lemma set_packet_fields [simp]:
  "po_packets (set_packet i k p) = (po_packets p)[i := k]" "po_refs (set_packet i k p) = po_refs p"
  "po_device (set_packet i k p) = po_device p" "po_drops (set_packet i k p) = po_drops p"
  by (simp_all add: set_packet_def)

lemma pool_ok_counters:
  "pool_ok (raise_counter c v p) = pool_ok p" "pool_ok (count_drop d source p) = pool_ok p"
  by (simp_all add: pool_ok_def held_def)

lemma report_dropped_ok:
  assumes "pool_ok p" "i < 16"
  shows "pool_ok (report_dropped i source p)"
proof -
  let ?k = "po_packets p ! i"
  have "packet_ok (?k\<lparr>pk_dropped := 0, pk_drop_sources := 0\<rparr>)"
    using packet_at_ok [OF assms] by (simp add: packet_ok_def)
  then have "pool_ok (set_packet i (?k\<lparr>pk_dropped := 0, pk_drop_sources := 0\<rparr>)
      (raise_counter (pk_dropped ?k) (pk_completed_value ?k) (count_drop (pk_drop_sources ?k) source p)))"
    using assms by (intro set_packet_same_refs) (simp_all add: pool_ok_counters packet_refs_def)
  with assms(1) show ?thesis
    by (simp add: report_dropped_def Let_def)
qed

lemma report_dropped_state:
  "i < length (po_packets p) \<Longrightarrow> pk_state (po_packets (report_dropped i source p) ! i) = pk_state (po_packets p ! i)"
  by (simp add: report_dropped_def Let_def)

lemma set_state_ok:
  assumes "pool_ok p" "i < 16" "st = In_Quarantine \<or> st = Retired \<and> in_flight_state (pk_state (po_packets p ! i))"
  shows "pool_ok (set_state i st p)"
  unfolding set_state_def using assms packet_at_ok [OF assms(1,2)]
  by (intro set_packet_same_refs) (auto simp: packet_ok_def packet_refs_def in_flight_state_def)

lemma quarantined_ok:
  assumes "pool_ok p" "i < 16"
  shows "pool_ok (set_state i In_Quarantine (if b then report_dropped i source p else p))"
  using assms report_dropped_ok [OF assms] set_state_ok by auto

subsubsection \<open>The operations keep the references\<close>

lemma complete_packet_ok:
  assumes "pool_ok p" "i < 16" "pk_state (po_packets p ! i) = Submitted"
  shows "pool_ok (complete_packet i p)"
  unfolding complete_packet_def Let_def using assms packet_at_ok [OF assms(1,2)]
  by (intro set_packet_same_refs) (auto simp: packet_ok_def packet_refs_def pool_ok_counters)

lemma release_resources_ok:
  assumes "pool_ok p" "i < 16" "pk_state (po_packets p ! i) \<noteq> Empty"
  shows "pool_ok (release_resources i p)"
  unfolding release_resources_def Let_def using assms packet_at_ok [OF assms(1,2)]
  by (intro set_packet_ok) (auto simp: packet_ok_def packet_refs_def ref_simps)

lemma recycle_packet_ok:
  assumes "pool_ok p" "i < 16" "pk_state (po_packets p ! i) = Retired"
  shows "pool_ok (recycle_packet resets i p)"
proof -
  have "pool_ok (release_resources i p)"
    using assms by (intro release_resources_ok) simp_all
  moreover have "length (po_packets p) = 16"
    using assms(1) by (simp add: pool_ok_def)
  ultimately show ?thesis
    unfolding recycle_packet_def set_state_def using assms packet_at_ok [OF assms(1,2)]
    by (intro set_packet_same_refs) (auto simp: packet_ok_def packet_refs_def release_resources_def Let_def)
qed

lemma create_packet_ok:
  assumes "pool_ok p" "i < 16" "pk_state (po_packets p ! i) = Empty" "creation_ok c"
  shows "pool_ok (create_packet c i p)"
proof -
  note k = packet_at_ok [OF assms(1,2)]
  show ?thesis
  proof (cases c)
    case No_Allocator
    with assms k show ?thesis
      by (auto simp: create_packet_def Let_def packet_ok_def packet_refs_def intro!: set_packet_same_refs)
  next
    case (No_List a)
    with assms k show ?thesis
      by (auto simp: create_packet_def Let_def packet_ok_def packet_refs_def ref_simps intro!: set_packet_ok)
  next
    case (Created a l)
    with assms k show ?thesis
      by (auto simp: create_packet_def Let_def packet_ok_def packet_refs_def ref_simps intro!: set_packet_ok)
  qed
qed

lemma service_packet_ok:
  assumes "pool_ok p" "i < 16" "creation_ok (created i)"
  shows "pool_ok (service_packet completed created resets i p)"
proof -
  define p1 where "p1 = (if fence_passed completed (po_packets p ! i) then complete_packet i p else p)"
  have "pool_ok p1"
    using assms complete_packet_ok by (simp add: p1_def fence_passed_def)
  with assms recycle_packet_ok create_packet_ok show ?thesis
    by (simp add: service_packet_def Let_def p1_def [symmetric])
qed

lemma fold_slots:
  assumes "\<And>i p. i < 16 \<Longrightarrow> P p \<Longrightarrow> P (f i p)" and "P p"
  shows "P (fold f pool_slots p)"
proof -
  have "n \<le> 16 \<Longrightarrow> P (fold f [0..<n] p)" for n
    using assms by (induction n) simp_all
  from this [OF order_refl] show ?thesis
    unfolding pool_slots_def .
qed

lemma service_ok:
  assumes "pool_ok p" "\<forall>i < 16. creation_ok (created i)"
  shows "pool_ok (snd (service device completed created resets p))"
proof -
  have lose: "pool_ok (fold lose_packet pool_slots p)"
    by (rule fold_slots [of pool_ok]) (simp_all add: lose_packet_def quarantined_ok assms(1))
  define p1 where "p1 = (if po_device p = 0 then p\<lparr>po_device := device, po_refs := add_ref device (po_refs p)\<rparr> else p)"
  have "pool_ok p1"
    using assms(1) by (auto simp: p1_def pool_ok_def held_def ref_simps)
  then have "pool_ok (fold (service_packet completed created resets) pool_slots p1)"
    by (rule fold_slots [of pool_ok, rotated]) (use assms(2) service_packet_ok in blast)
  with lose assms(1) show ?thesis
    unfolding service_def Let_def p1_def [symmetric] by simp
qed

lemma ready_slot:
  assumes "pool_ok p" and "first_index (\<lambda>k. pk_state k = Ready) (po_packets p) = Some i"
  shows "i < 16" "pk_state (po_packets p ! i) = Ready"
  using first_index_Some [OF assms(2)] assms(1) by (simp_all add: pool_ok_def)

lemma take_packet_ok:
  assumes "pool_ok p" "i < 16" "pk_state (po_packets p ! i) = Ready"
  shows "pool_ok (take_packet c i p)"
  unfolding take_packet_def using assms packet_at_ok [OF assms(1,2)]
  by (intro set_packet_ok) (auto simp: packet_ok_def packet_refs_def ref_simps)

lemma record_copy_ok:
  assumes "pool_ok p"
  shows "pool_ok (snd (snd (record_copy g marks closes c p)))"
proof (cases "valid_copy g c p")
  case True
  show ?thesis
  proof (cases "first_index (\<lambda>k. pk_state k = Ready) (po_packets p)")
    case None
    with assms show ?thesis by (simp add: record_copy_def)
  next
    case (Some i)
    note i = ready_slot [OF assms Some]
    have "pool_ok (take_packet c i p)"
      by (rule take_packet_ok [OF assms i])
    moreover from this have "pool_ok (report_dropped i Close_Failed (set_state i In_Quarantine (take_packet c i p)))"
      using i(1) by (intro report_dropped_ok set_state_ok) simp_all
    ultimately show ?thesis
      using True Some by (simp add: record_copy_def Let_def)
  qed
qed (simp add: record_copy_def assms)

lemma submit_packet_ok:
  assumes "pool_ok p"
  shows "pool_ok (submit_packet slot covering p)"
proof (cases "slot < 16 \<and> \<not> (pk_state (po_packets p ! slot) \<noteq> Recorded \<or> covering = 0 \<or> covering = u64_max)")
  case True
  then have "pool_ok (set_packet slot ((po_packets p ! slot)\<lparr>pk_covering := covering, pk_state := Submitted\<rparr>) p)"
    using assms packet_at_ok [OF assms, of slot] by (intro set_packet_same_refs) (auto simp: packet_ok_def packet_refs_def)
  with True show ?thesis
    by (simp add: submit_packet_def Let_def)
next
  case False
  with assms show ?thesis
    by (auto simp: submit_packet_def Let_def not_less quarantined_ok)
qed

lemma cancel_packet_ok:
  assumes "pool_ok p"
  shows "pool_ok (cancel_packet slot p)"
proof (cases "slot < 16")
  case True
  define p1 where "p1 = (if in_flight_state (pk_state (po_packets p ! slot)) then report_dropped slot Cancelled p else p)"
  have "pool_ok p1"
    using assms True report_dropped_ok by (simp add: p1_def)
  then show ?thesis
    using True set_state_ok [of p1 slot] unfolding cancel_packet_def Let_def p1_def [symmetric]
    by (simp add: in_flight_state_def)
qed (simp add: cancel_packet_def assms)

interpretation pool: machine "pool_step g" pool_ok pool_event_ok for g
proof unfold_locales
  fix ev p
  assume "pool_event_ok ev" "pool_ok p"
  then show "pool_ok (pool_step g ev p)"
    by (cases ev) (simp_all add: service_ok record_copy_ok submit_packet_ok cancel_packet_ok quarantine_packet_def quarantined_ok)
qed

lemma new_pool_ok: "pool_ok (new_pool counters)"
  by (simp add: pool_ok_def new_pool_def held_def packet_ok_def no_packet_def packet_refs_def sum_list_replicate)

subsubsection \<open>The destructor releases what no pending packet needs\<close>

definition kept_refs :: "u64 \<Rightarrow> packet \<Rightarrow> int" where
  "kept_refs x k = (if pending_state (pk_state k) then packet_refs x k else 0)"

definition kept :: "pool \<Rightarrow> u64 \<Rightarrow> int" where
  "kept p x = sum_list (map (kept_refs x) (po_packets p)) +
     of_bool (po_device p = x \<and> list_ex (\<lambda>k. pending_state (pk_state k)) (po_packets p))"

lemma destroy_packet_refs:
  assumes "x \<noteq> 0"
  shows "po_refs (destroy_packet i p) x = po_refs p x - (packet_refs x (po_packets p ! i) - kept_refs x (po_packets p ! i))"
  using assms by (simp add: destroy_packet_def Let_def release_resources_def kept_refs_def packet_refs_def ref_simps)

lemma destroy_packet_others: "j \<noteq> i \<Longrightarrow> po_packets (destroy_packet i p) ! j = po_packets p ! j"
  by (simp add: destroy_packet_def Let_def release_resources_def)

lemma destroy_packets_refs:
  assumes "x \<noteq> 0"
  shows "(\<forall>j \<ge> n. po_packets (fold destroy_packet [0..<n] p) ! j = po_packets p ! j) \<and>
    po_refs (fold destroy_packet [0..<n] p) x = po_refs p x -
      (\<Sum>i < n. packet_refs x (po_packets p ! i) - kept_refs x (po_packets p ! i))"
proof (induction n)
  case 0
  then show ?case by simp
next
  case (Suc n)
  then show ?case
    by (auto simp: destroy_packet_refs [OF assms] destroy_packet_others Suc_le_eq)
qed

lemma sum_over_slots: "length xs = 16 \<Longrightarrow> (\<Sum>i < 16. f (xs ! i)) = sum_list (map f xs)"
  by (simp add: sum_list_sum_nth atLeast0LessThan)

lemma destroyed_refs:
  assumes "pool_ok p" "x \<noteq> 0"
  shows "po_refs (destroy_pool p) x = kept p x"
proof -
  have len: "length (po_packets p) = 16" and refs: "po_refs p x = held p x"
    using assms by (simp_all add: pool_ok_def)
  have "po_refs (fold destroy_packet pool_slots p) x =
      sum_list (map (kept_refs x) (po_packets p)) + of_bool (po_device p = x)"
    using destroy_packets_refs [OF assms(2), of 16 p, folded pool_slots_def] refs
      sum_over_slots [OF len, of "packet_refs x"] sum_over_slots [OF len, of "kept_refs x"]
    by (simp add: held_def sum_subtractf)
  then show ?thesis
    using assms(2) by (auto simp: destroy_pool_def Let_def kept_def ref_simps)
qed

subsection \<open>Every accepted copy is reported once\<close>

text \<open>
  For the drop counters at an address \<open>d\<close>: the packets in flight that would be counted there, and
  the drops counted so far, both as 64-bit counters.
\<close>

definition flight :: "u64 \<Rightarrow> packet \<Rightarrow> u64" where
  "flight d k = of_bool (in_flight_state (pk_state k) \<and> pk_dropped k \<noteq> 0 \<and> pk_drop_sources k = d)"

definition in_flight :: "u64 \<Rightarrow> pool \<Rightarrow> u64" where
  "in_flight d p = sum_list (map (flight d) (po_packets p))"

definition reported :: "u64 \<Rightarrow> pool \<Rightarrow> u64" where
  "reported d p = sum_list (map (po_drops p d) drop_sources)"

definition balance :: "u64 \<Rightarrow> pool \<Rightarrow> u64" where
  "balance d p = reported d p + in_flight d p"

definition fence_finishes :: "u64 \<Rightarrow> u64 \<Rightarrow> packet \<Rightarrow> u64" where
  "fence_finishes d completed k = of_bool (fence_passed completed k \<and> pk_dropped k \<noteq> 0 \<and> pk_drop_sources k = d)"

fun finishes :: "u64 \<Rightarrow> pool_event \<Rightarrow> pool \<Rightarrow> u64" where
  "finishes d (Pe_Service device completed created resets) p =
     (if device = 0 \<or> po_device p \<noteq> 0 \<and> po_device p \<noteq> device \<or> completed = u64_max then 0
      else sum_list (map (fence_finishes d completed) (po_packets p)))"
| "finishes d ev p = 0"

fun accepts :: "gpu \<Rightarrow> u64 \<Rightarrow> pool_event \<Rightarrow> pool \<Rightarrow> u64" where
  "accepts g d (Pe_Record marks closes c) p =
     of_bool (valid_copy g c p \<and> ready_count p \<noteq> 0 \<and> cp_dropped c \<noteq> 0 \<and> cp_drop_sources c = d)"
| "accepts g d ev p = 0"

fun total :: "gpu \<Rightarrow> (pool_event \<Rightarrow> pool \<Rightarrow> u64) \<Rightarrow> pool_event list \<Rightarrow> pool \<Rightarrow> u64" where
  "total g f [] p = 0"
| "total g f (ev # evs) p = f ev p + total g f evs (pool_step g ev p)"

lemma balance_set_packet:
  assumes "length (po_packets p) = 16" "i < 16"
  shows "balance d (set_packet i k p) = balance d p - flight d (po_packets p ! i) + flight d k"
  using sum_list_update_at [of i "po_packets p" "flight d" k] assms
  by (simp add: balance_def reported_def in_flight_def)

lemma balance_fields [simp]:
  "balance d (p\<lparr>po_refs := refs\<rparr>) = balance d p" "balance d (p\<lparr>po_device := device\<rparr>) = balance d p"
  "balance d (raise_counter c v p) = balance d p"
  by (simp_all add: balance_def reported_def in_flight_def)

lemma balance_count_drop: "d \<noteq> 0 \<Longrightarrow> balance d (count_drop e source p) = balance d p + of_bool (e = d)"
  by (cases source) (auto simp: balance_def reported_def in_flight_def count_drop_def drop_sources_def)

lemma balance_report:
  assumes "length (po_packets p) = 16" "i < 16" "d \<noteq> 0"
  shows "balance d (report_dropped i source p) = balance d p +
    of_bool (\<not> in_flight_state (pk_state (po_packets p ! i)) \<and> pk_dropped (po_packets p ! i) \<noteq> 0 \<and>
      pk_drop_sources (po_packets p ! i) = d)"
  using assms by (simp add: report_dropped_def Let_def balance_set_packet balance_count_drop flight_def)

lemma report_dropped_packet:
  "i < length (po_packets p) \<Longrightarrow> pk_dropped (po_packets (report_dropped i source p) ! i) = 0"
  "length (po_packets (report_dropped i source p)) = length (po_packets p)"
  by (simp_all add: report_dropped_def Let_def)

lemma balance_set_state:
  assumes "length (po_packets p) = 16" "i < 16" "\<not> in_flight_state st" "flight d (po_packets p ! i) = 0"
  shows "balance d (set_state i st p) = balance d p"
  using assms by (simp add: set_state_def balance_set_packet) (simp add: flight_def)

lemma balance_dropped:
  assumes len: "length (po_packets p) = 16" "i < 16" and d: "d \<noteq> 0" and st: "\<not> in_flight_state st"
  shows "balance d (set_state i st (if in_flight_state (pk_state (po_packets p ! i)) then report_dropped i source p else p)) =
    balance d p"
proof (cases "in_flight_state (pk_state (po_packets p ! i))")
  case True
  have "flight d (po_packets (report_dropped i source p) ! i) = 0"
    using len by (simp add: flight_def report_dropped_packet)
  with True len st show ?thesis
    by (simp add: balance_set_state report_dropped_packet balance_report [OF len d])
next
  case False
  then have "flight d (po_packets p ! i) = 0"
    by (simp add: flight_def)
  with False len st show ?thesis
    by (simp add: balance_set_state)
qed

lemma balance_complete:
  assumes len: "length (po_packets p) = 16" "i < 16" and "fence_passed completed (po_packets p ! i)"
  shows "balance d (complete_packet i p) + fence_finishes d completed (po_packets p ! i) = balance d p"
proof -
  let ?k = "po_packets p ! i"
  have "balance d (complete_packet i p) = balance d p - flight d ?k + flight d (?k\<lparr>pk_dropped := 0, pk_state := Retired\<rparr>)"
    using len by (simp add: complete_packet_def Let_def balance_set_packet)
  moreover have "flight d ?k = fence_finishes d completed ?k" "flight d (?k\<lparr>pk_dropped := 0, pk_state := Retired\<rparr>) = 0"
    using assms(3) by (auto simp: flight_def fence_finishes_def fence_passed_def in_flight_state_def)
  ultimately show ?thesis by simp
qed

lemma balance_recycle:
  assumes len: "length (po_packets p) = 16" "i < 16" and "pk_state (po_packets p ! i) = Retired"
  shows "balance d (recycle_packet resets i p) = balance d p"
  using assms by (simp add: recycle_packet_def set_state_def release_resources_def Let_def balance_set_packet)
    (simp add: flight_def in_flight_state_def)

lemma balance_create:
  assumes len: "length (po_packets p) = 16" "i < 16" and "pk_state (po_packets p ! i) = Empty"
  shows "balance d (create_packet c i p) = balance d p"
  using assms by (cases c) (simp_all add: create_packet_def Let_def balance_set_packet flight_def in_flight_state_def)

lemma service_packet_fields:
  assumes "length (po_packets p) = 16" "i < 16"
  shows "length (po_packets (service_packet completed created resets i p)) = 16"
    and "j \<noteq> i \<Longrightarrow> po_packets (service_packet completed created resets i p) ! j = po_packets p ! j"
  using assms by (simp_all add: service_packet_def Let_def complete_packet_def recycle_packet_def set_state_def
      release_resources_def create_packet_def split: creation.splits)

lemma balance_service_packet:
  assumes len: "length (po_packets p) = 16" "i < 16"
  shows "balance d (service_packet completed created resets i p) + fence_finishes d completed (po_packets p ! i) = balance d p"
proof -
  define p1 where "p1 = (if fence_passed completed (po_packets p ! i) then complete_packet i p else p)"
  have len1: "length (po_packets p1) = 16"
    using len by (simp add: p1_def complete_packet_def Let_def)
  have "balance d (service_packet completed created resets i p) = balance d p1"
    using balance_recycle [OF len1 len(2)] balance_create [OF len1 len(2)]
    by (simp add: service_packet_def Let_def p1_def [symmetric])
  moreover have "balance d p1 + fence_finishes d completed (po_packets p ! i) = balance d p"
    using balance_complete [OF len, of completed d] by (simp add: p1_def fence_finishes_def)
  ultimately show ?thesis by simp
qed

lemma balance_service_packets:
  assumes "length (po_packets p) = 16" "n \<le> 16"
  shows "length (po_packets (fold (service_packet completed created resets) [0..<n] p)) = 16 \<and>
    (\<forall>j \<ge> n. po_packets (fold (service_packet completed created resets) [0..<n] p) ! j = po_packets p ! j) \<and>
    balance d (fold (service_packet completed created resets) [0..<n] p) +
      (\<Sum>i < n. fence_finishes d completed (po_packets p ! i)) = balance d p"
  using assms(2)
proof (induction n)
  case 0
  then show ?case using assms(1) by simp
next
  case (Suc n)
  define q where "q = fold (service_packet completed created resets) [0..<n] p"
  have q: "length (po_packets q) = 16" "\<forall>j \<ge> n. po_packets q ! j = po_packets p ! j"
    "balance d q + (\<Sum>i < n. fence_finishes d completed (po_packets p ! i)) = balance d p"
    using Suc by (simp_all add: q_def)
  have "balance d (service_packet completed created resets n q) + fence_finishes d completed (po_packets p ! n) = balance d q"
    using balance_service_packet [OF q(1), of n d completed created resets] q(2) Suc.prems by simp
  from this [symmetric] have "balance d (service_packet completed created resets n q) +
      (\<Sum>i < Suc n. fence_finishes d completed (po_packets p ! i)) = balance d p"
    unfolding q(3) [symmetric] by (simp add: ac_simps)
  then show ?case
    using service_packet_fields [OF q(1), of n] q(2) Suc.prems by (simp add: q_def [symmetric])
qed

lemma balance_service:
  assumes "pool_ok p" "d \<noteq> 0"
  shows "balance d (snd (service device completed created resets p)) +
    finishes d (Pe_Service device completed created resets) p = balance d p"
proof (cases "device = 0 \<or> po_device p \<noteq> 0 \<and> po_device p \<noteq> device")
  case True
  then show ?thesis
    unfolding service_def finishes.simps by auto
next
  case False
  have len: "length (po_packets p) = 16"
    using assms(1) by (simp add: pool_ok_def)
  show ?thesis
  proof (cases "completed = u64_max")
    case True
    have "length (po_packets (fold lose_packet pool_slots p)) = 16 \<and> balance d (fold lose_packet pool_slots p) = balance d p"
    proof (rule fold_slots [of "\<lambda>q. length (po_packets q) = 16 \<and> balance d q = balance d p"])
      fix i :: nat and q
      assume "i < 16" "length (po_packets q) = 16 \<and> balance d q = balance d p"
      then show "length (po_packets (lose_packet i q)) = 16 \<and> balance d (lose_packet i q) = balance d p"
        using balance_dropped [of q i d In_Quarantine Device_Lost] assms(2)
        by (simp add: lose_packet_def in_flight_state_def set_state_def report_dropped_packet)
    qed (simp add: len)
    with True show ?thesis
      unfolding service_def if_not_P [OF False] by simp
  next
    case go: False
    define p1 where "p1 = (if po_device p = 0 then p\<lparr>po_device := device, po_refs := add_ref device (po_refs p)\<rparr> else p)"
    have p1: "po_packets p1 = po_packets p" "balance d p1 = balance d p"
      by (simp_all add: p1_def balance_def reported_def in_flight_def)
    have "balance d (fold (service_packet completed created resets) pool_slots p1) +
        sum_list (map (fence_finishes d completed) (po_packets p)) = balance d p"
      using balance_service_packets [of p1 16 completed created resets d, folded pool_slots_def]
      by (simp add: p1 len sum_over_slots)
    with go show ?thesis
      unfolding service_def finishes.simps if_not_P [OF False] if_not_P [OF go] Let_def p1_def [symmetric]
      using False by auto
  qed
qed

lemma ready_slot_iff: "first_index (\<lambda>k. pk_state k = Ready) (po_packets p) = None \<longleftrightarrow> ready_count p = 0"
  by (auto simp: ready_count_def first_index_None filter_empty_conv)

lemma balance_take:
  assumes "length (po_packets p) = 16" "i < 16" "pk_state (po_packets p ! i) = Ready"
  shows "balance d (take_packet c i p) = balance d p + of_bool (cp_dropped c \<noteq> 0 \<and> cp_drop_sources c = d)"
  using assms by (simp add: take_packet_def balance_set_packet) (simp add: flight_def in_flight_state_def)

lemma balance_record:
  assumes "pool_ok p" "d \<noteq> 0"
  shows "balance d (snd (snd (record_copy g marks closes c p))) = balance d p + accepts g d (Pe_Record marks closes c) p"
proof (cases "valid_copy g c p \<and> ready_count p \<noteq> 0")
  case False
  then have "valid_copy g c p \<Longrightarrow> first_index (\<lambda>k. pk_state k = Ready) (po_packets p) = None"
    using ready_slot_iff [of p] by simp
  with False show ?thesis
    by (cases "valid_copy g c p") (simp_all add: record_copy_def)
next
  case True
  then obtain i where i: "first_index (\<lambda>k. pk_state k = Ready) (po_packets p) = Some i"
    using ready_slot_iff [of p] by auto
  note slot = ready_slot [OF assms(1) i]
  have len: "length (po_packets p) = 16"
    using assms(1) by (simp add: pool_ok_def)
  define p1 where "p1 = take_packet c i p"
  have p1: "length (po_packets p1) = 16" "po_packets p1 ! i = (po_packets p ! i)\<lparr>pk_target := cp_target c, pk_source := cp_source c,
       pk_save := cp_save c, pk_completed := cp_completed c, pk_dropped := cp_dropped c, pk_drop_sources := cp_drop_sources c,
       pk_completed_value := cp_completed_value c, pk_state := Recorded\<rparr>"
    using len slot(1) by (simp_all add: p1_def take_packet_def)
  define p2 where "p2 = set_state i In_Quarantine p1"
  have p2: "length (po_packets p2) = 16" "balance d p2 = balance d p1 - of_bool (cp_dropped c \<noteq> 0 \<and> cp_drop_sources c = d)"
    "pk_state (po_packets p2 ! i) = In_Quarantine" "pk_dropped (po_packets p2 ! i) = cp_dropped c"
    "pk_drop_sources (po_packets p2 ! i) = cp_drop_sources c"
    using p1 slot(1) by (simp_all add: p2_def set_state_def balance_set_packet flight_def in_flight_state_def)
  have "balance d (report_dropped i Close_Failed p2) = balance d p1"
    using balance_report [OF p2(1) slot(1) assms(2)] p2(2-5) by (simp add: in_flight_state_def)
  then show ?thesis
    using True i balance_take [OF len slot, of d c]
    by (simp add: record_copy_def Let_def p1_def [symmetric] p2_def [symmetric])
qed

lemma balance_submit:
  assumes "length (po_packets p) = 16" "d \<noteq> 0"
  shows "balance d (submit_packet slot covering p) = balance d p"
proof (cases "slot < 16 \<and> pk_state (po_packets p ! slot) = Recorded \<and> covering \<noteq> 0 \<and> covering \<noteq> u64_max")
  case True
  with assms show ?thesis
    by (simp add: submit_packet_def Let_def balance_set_packet) (simp add: flight_def in_flight_state_def)
next
  case False
  then show ?thesis
    using balance_dropped [OF assms(1) _ assms(2), of slot In_Quarantine Unsubmitted]
    by (auto simp: submit_packet_def Let_def in_flight_state_def)
qed

lemma balance_cancel:
  assumes len: "length (po_packets p) = 16" and "d \<noteq> 0"
  shows "balance d (cancel_packet slot p) = balance d p"
proof (cases "slot < 16 \<and> in_flight_state (pk_state (po_packets p ! slot))")
  case False
  then show ?thesis
    by (auto simp: cancel_packet_def Let_def in_flight_state_def)
next
  case True
  define p1 where "p1 = report_dropped slot Cancelled p"
  have p1: "length (po_packets p1) = 16" "balance d p1 = balance d p" "flight d (po_packets p1 ! slot) = 0"
    using True len assms(2) by (simp_all add: p1_def report_dropped_packet balance_report flight_def)
  have "balance d (set_state slot st p1) = balance d p" if "\<not> in_flight_state st" for st
    using True p1 that by (simp add: balance_set_state)
  with True p1 show ?thesis
    unfolding cancel_packet_def Let_def p1_def [symmetric] by (simp add: in_flight_state_def)
qed

lemma balance_step:
  assumes "pool_ok p" "d \<noteq> 0"
  shows "balance d (pool_step g ev p) + finishes d ev p = balance d p + accepts g d ev p"
proof -
  have len: "length (po_packets p) = 16"
    using assms(1) by (simp add: pool_ok_def)
  show ?thesis
  proof (cases ev)
    case (Pe_Service device completed created resets)
    then show ?thesis
      using balance_service [OF assms] by simp
  next
    case (Pe_Record marks closes c)
    then show ?thesis
      using balance_record [OF assms] by simp
  next
    case (Pe_Submit slot covering)
    then show ?thesis
      using balance_submit [OF len assms(2)] by simp
  next
    case (Pe_Cancel slot)
    then show ?thesis
      using balance_cancel [OF len assms(2)] by simp
  next
    case (Pe_Quarantine slot)
    then show ?thesis
      using balance_dropped [OF len _ assms(2), of slot In_Quarantine Quarantined]
      by (simp add: quarantine_packet_def in_flight_state_def)
  qed
qed

lemma balance_run:
  assumes "pool_ok p" "d \<noteq> 0" "list_all pool_event_ok evs"
  shows "balance d (fold (pool_step g) evs p) + total g (finishes d) evs p = balance d p + total g (accepts g d) evs p"
  using assms
proof (induction evs arbitrary: p)
  case Nil
  then show ?case by simp
next
  case (Cons ev evs)
  have "pool_ok (pool_step g ev p)"
    using Cons.prems pool.step_inv by simp
  with Cons have "balance d (fold (pool_step g) evs (pool_step g ev p)) + total g (finishes d) evs (pool_step g ev p) =
      balance d (pool_step g ev p) + total g (accepts g d) evs (pool_step g ev p)"
    by simp
  moreover have "balance d (pool_step g ev p) + finishes d ev p = balance d p + accepts g d ev p"
    using Cons.prems by (intro balance_step)
  ultimately show ?case
    by (simp add: algebra_simps)
qed

subsection \<open>The recorded calls respect the resource states\<close>

text \<open>
  Executing a recorded list against the states its resources are in: a barrier must name the state
  its resource is in, and a copy needs its texture in the copy state; a buffer may also be in
  \<open>COMMON\<close>, from which it is promoted.
\<close>

fun location_ready :: "u32 \<Rightarrow> (u64 \<Rightarrow> u32) \<Rightarrow> copy_location \<Rightarrow> bool" where
  "location_ready wanted st (Subresource_Index r) = (st r = wanted)"
| "location_ready wanted st (Placed_Footprint r f) = (st r = wanted \<or> st r = state_common)"

fun run_barriers :: "(u64 \<Rightarrow> u32) \<Rightarrow> (u64 \<times> u32 \<times> u32) list \<Rightarrow> (u64 \<Rightarrow> u32) option" where
  "run_barriers st [] = Some st"
| "run_barriers st ((r, before, after) # bs) = (if st r = before then run_barriers (st(r := after)) bs else None)"

fun run_call :: "(u64 \<Rightarrow> u32) \<Rightarrow> list_call \<Rightarrow> (u64 \<Rightarrow> u32) option" where
  "run_call st (Barriers bs) = run_barriers st bs"
| "run_call st (Copy_Texture destination x y source box) =
     (if location_ready state_copy_dest st destination \<and> location_ready state_copy_source st source then Some st else None)"

fun run_calls :: "(u64 \<Rightarrow> u32) \<Rightarrow> list_call list \<Rightarrow> (u64 \<Rightarrow> u32) option" where
  "run_calls st [] = Some st"
| "run_calls st (c # cs) = (case run_call st c of None \<Rightarrow> None | Some st' \<Rightarrow> run_calls st' cs)"

lemma run_calls_append: "run_calls st (cs @ ds) = (case run_calls st cs of None \<Rightarrow> None | Some st' \<Rightarrow> run_calls st' ds)"
  by (induction cs arbitrary: st) (simp_all split: option.splits)

lemma run_copy_region:
  assumes "location_ready state_copy_dest st destination" "location_ready state_copy_source st source"
  shows "run_calls st (copy_region marks destination x y source width height) = Some st"
proof -
  have "run_calls st (map (piece_copy destination x y source) rs) = Some st" for rs
    using assms by (induction rs) (simp_all add: piece_copy_def)
  then show ?thesis
    by (simp add: copy_region_def)
qed

definition start_states :: "pool_copy \<Rightarrow> (u64 \<Rightarrow> u32) \<Rightarrow> bool" where
  "start_states c st \<longleftrightarrow> st (cp_target c) = cp_state c \<and>
     (if cp_save c = 0 then True else st (cp_save c) = state_common) \<and>
     (if cp_readback c then st (cp_source c) = state_copy_dest
      else if cp_shadow_source c then st (cp_source c) = state_common
      else st (cp_source c) = state_common \<or> st (cp_source c) = state_copy_source)"

lemma display_calls_states:
  assumes distinct: "cp_target c \<noteq> cp_source c" "cp_save c \<noteq> 0 \<longrightarrow> cp_save c \<noteq> cp_target c \<and> cp_save c \<noteq> cp_source c"
    and st: "start_states c st" and display: "\<not> cp_readback c"
  shows "run_calls st (display_calls marks c) = Some st"
proof -
  define t where "t = (if cp_save c = 0 then st else st(cp_target c := state_copy_source))"
  have save: "run_calls st (if cp_save c = 0 then [] else save_calls c) = Some t"
    using distinct st by (auto simp: start_states_def save_calls_def t_def fun_upd_twist)
  define u where "u = (if cp_shadow_source c then t(cp_target c := state_copy_dest, cp_source c := state_copy_source)
    else t(cp_target c := state_copy_dest))"
  have enter: "run_calls t [Barriers ((cp_target c, if cp_save c = 0 then cp_state c else state_copy_source, state_copy_dest) #
         (if cp_shadow_source c then [(cp_source c, state_common, state_copy_source)] else []))] = Some u"
    using distinct st display by (auto simp: start_states_def t_def u_def)
  have copies: "run_calls u (copy_region marks (Subresource_Index (cp_target c)) (cp_x c) (cp_y c)
        (Placed_Footprint (cp_source c) (cp_footprint c)) (cp_width c) (cp_height c)) = Some u"
    using distinct st display by (intro run_copy_region) (auto simp: start_states_def t_def u_def)
  have leave: "run_calls u [Barriers ((cp_target c, state_copy_dest, cp_state c) #
         (if cp_shadow_source c then [(cp_source c, state_copy_source, state_common)] else []))] = Some st"
    using distinct st display by (auto simp: start_states_def t_def u_def fun_eq_iff)
  show ?thesis
    unfolding display_calls_def Let_def by (simp only: run_calls_append save enter copies leave option.case)
qed

lemma copy_calls_states:
  assumes "valid_copy g c p" "start_states c st"
  shows "run_calls st (copy_calls marks c) = Some st"
proof -
  have distinct: "cp_target c \<noteq> cp_source c" "cp_save c \<noteq> 0 \<longrightarrow> cp_save c \<noteq> cp_target c \<and> cp_save c \<noteq> cp_source c"
    using assms(1) by (auto simp: valid_copy_def valid_save_def split: if_splits)
  show ?thesis
  proof (cases "cp_readback c")
    case True
    with assms(2) distinct show ?thesis
      by (auto simp: copy_calls_def readback_calls_def start_states_def)
  next
    case False
    with display_calls_states [OF distinct assms(2)] show ?thesis
      by (simp add: copy_calls_def)
  qed
qed

subsection \<open>Properties\<close>

text \<open>C15: The pool's references are balanced: after any sequence of operations the references it took
  on an object, less the ones it released, are exactly those its device and packets still hold; and
  its destructor releases them all, except those of packets that may still be executing and of the
  device they need.\<close>

theorem references_balanced:
  assumes "list_all pool_event_ok evs" and "x \<noteq> 0"
  shows "po_refs (fold (pool_step g) evs (new_pool counters)) x = held (fold (pool_step g) evs (new_pool counters)) x \<and>
    po_refs (destroy_pool (fold (pool_step g) evs (new_pool counters))) x = kept (fold (pool_step g) evs (new_pool counters)) x"
proof -
  have "pool_ok (fold (pool_step g) evs (new_pool counters))"
    using pool.run_inv [OF assms(1) new_pool_ok] .
  with assms(2) show ?thesis
    by (simp add: destroyed_refs) (simp add: pool_ok_def)
qed

text \<open>Every copy the pool accepts is accounted for once: counting the copies whose drop counters
  are at one address, those accepted so far are those still in flight, those whose covering fence
  has passed, and those counted as dropped under exactly one source, whatever the order of
  recordings, submissions, cancellations, failures and device loss.\<close>

theorem drops_accounted:
  assumes "list_all pool_event_ok evs" and "d \<noteq> 0"
  shows "reported d (fold (pool_step g) evs (new_pool counters)) + in_flight d (fold (pool_step g) evs (new_pool counters)) +
      total g (finishes d) evs (new_pool counters) = total g (accepts g d) evs (new_pool counters)"
proof -
  have "balance d (new_pool counters) = 0"
    by (simp add: balance_def reported_def in_flight_def new_pool_def flight_def no_packet_def in_flight_state_def
        drop_sources_def sum_list_replicate)
  then show ?thesis
    using balance_run [OF new_pool_ok assms(2,1), of g counters] by (simp add: balance_def)
qed

text \<open>C16: The calls of a recording are legal and leave no trace in the resource states: executed with
  the target in the state the caller proved, its save and shadow buffers in \<open>COMMON\<close> and a read-back
  buffer in the copy-destination state, every barrier names the state its resource is in, every copy
  finds its texture in the right state, and at the end each resource is back in its first state.\<close>

theorem recorded_states_restored:
  assumes "start_states c st"
  shows "run_calls st (fst (snd (record_copy g marks closes c p))) = Some st"
  using copy_calls_states [OF _ assms] by (simp add: record_copy_def Let_def split: option.splits)

definition sample_footprint :: footprint where
  "sample_footprint = \<lparr>fp_offset = 0, fp_format = 28, fp_width = 8, fp_height = 4, fp_depth = 1, fp_pitch = 256\<rparr>"

definition sample_copy :: pool_copy where
  "sample_copy = \<lparr>cp_target = 2, cp_source = 3, cp_footprint = sample_footprint, cp_state = 4, cp_x = 0, cp_y = 0,
     cp_width = 8, cp_height = 4, cp_readback = False, cp_completed = 0, cp_completed_value = 1, cp_dropped = 8,
     cp_drop_sources = 9, cp_save = 6, cp_save_footprint = sample_footprint, cp_shadow_source = True\<rparr>"

text \<open>A runtime with one device 5, a render target 2 and buffers in the default heap.\<close>

definition sample_gpu :: gpu where
  "sample_gpu = \<lparr>gp_desc = (\<lambda>r. if r = 2
       then \<lparr>rd_dimension = 3, rd_width = 16, rd_height = 16, rd_depth = 1, rd_mips = 1, rd_format = 28, rd_samples = 1,
         rd_quality = 0, rd_flags = 1\<rparr>
       else \<lparr>rd_dimension = 1, rd_width = 4096, rd_height = 1, rd_depth = 1, rd_mips = 1, rd_format = 0, rd_samples = 1,
         rd_quality = 0, rd_flags = 0\<rparr>),
     gp_heap = (\<lambda>_. 1), gp_device = (\<lambda>_. 5), gp_identity = id, gp_unwrap = (\<lambda>_. No_Interface)\<rparr>"

definition sample_pool :: pool where
  "sample_pool = (new_pool (\<lambda>_. 0))\<lparr>po_device := 5,
     po_packets := no_packet\<lparr>pk_allocator := 64, pk_list := 65, pk_state := Ready\<rparr> # replicate 15 no_packet\<rparr>"

definition sample_events :: "pool_event list" where
  "sample_events = [Pe_Service 5 0 (\<lambda>i. Created (of_nat i + 64) (of_nat i + 128)) (\<lambda>_. True), Pe_Record [] True sample_copy,
     Pe_Submit 0 3, Pe_Cancel 3, Pe_Quarantine 2, Pe_Service 5 7 (\<lambda>_. No_Allocator) (\<lambda>_. False)]"

lemma sample_events_ok: "list_all pool_event_ok sample_events"
proof -
  have "of_nat i + 64 \<noteq> (0 :: u64) \<and> of_nat i + 128 \<noteq> (0 :: u64)" if "i < 16" for i
  proof -
    have "unat (of_nat i + 64 :: u64) = i + 64" "unat (of_nat i + 128 :: u64) = i + 128"
      using that by (simp_all add: unat_word_ariths unat_of_nat)
    then show ?thesis by (metis add_is_0 unat_0 zero_neq_numeral)
  qed
  then show ?thesis
    by (simp add: sample_events_def)
qed

lemma sample_copy_valid: "valid_copy sample_gpu sample_copy sample_pool"
  by (simp add: valid_copy_def sample_copy_def sample_pool_def sample_gpu_def sample_footprint_def new_pool_def
      same_native_device_def same_device_identity_def resolve_unwrapped_object_def valid_target_def valid_footprint_def
      typed_format_def format_family_def valid_save_def copy_fits_def)

lemma references_balanced_witness:
  "po_refs (fold (pool_step sample_gpu) sample_events (new_pool (\<lambda>_. 0))) 2 =
     held (fold (pool_step sample_gpu) sample_events (new_pool (\<lambda>_. 0))) 2"
  using references_balanced [OF sample_events_ok, of 2 sample_gpu "\<lambda>_. 0"] by simp

lemma drops_accounted_witness:
  "reported 9 (fold (pool_step sample_gpu) sample_events (new_pool (\<lambda>_. 0))) +
     in_flight 9 (fold (pool_step sample_gpu) sample_events (new_pool (\<lambda>_. 0))) +
     total sample_gpu (finishes 9) sample_events (new_pool (\<lambda>_. 0)) =
   total sample_gpu (accepts sample_gpu 9) sample_events (new_pool (\<lambda>_. 0))"
  by (rule drops_accounted [OF sample_events_ok]) simp

lemma recorded_states_restored_witness:
  "valid_copy sample_gpu sample_copy sample_pool \<and>
   run_calls ((\<lambda>_. 0)(2 := 4)) (fst (snd (record_copy sample_gpu [] True sample_copy sample_pool))) = Some ((\<lambda>_. 0)(2 := 4))"
  using recorded_states_restored [of sample_copy "(\<lambda>_. 0)(2 := 4)" sample_gpu "[]" True sample_pool] sample_copy_valid
  by (simp add: start_states_def sample_copy_def)

end
