(* ===== verification/Json_Value.thy ===== *)
theory Json_Value
  imports Prelude
begin

text \<open>
  \<open>src/app/json_value.hpp\<close>: the strict JSON reader for release metadata and installation records.

  The parser's position is the part of the text that is still to be read, so \<open>at\<close> is the length of
  the text less that of the rest; a failing function is \<open>None\<close>.  The depth is passed down, since every
  successful call leaves it as it was.  Two answers of the platform are parameters: whether a string is
  valid UTF-8 (\<open>MultiByteToWideChar\<close>) and the double a token denotes (\<open>strtod\<close>, as a bit pattern).
\<close>

subsection \<open>Values\<close>

datatype json =
  JNull
| JBool bool
| JNumber u64 string
| JString string
| JArray "json list"
| JObject "(string \<times> json) list"

record json_env =
  je_utf8 :: "string \<Rightarrow> bool"
  je_strtod :: "string \<Rightarrow> u64"

definition double_finite :: "u64 \<Rightarrow> bool" where
  "double_finite b \<longleftrightarrow> b AND 0x7FF0000000000000 \<noteq> 0x7FF0000000000000"

fun find_member :: "string \<Rightarrow> json \<Rightarrow> json option" where
  "find_member key (JObject members) = map_option snd (find (\<lambda>m. fst m = key) members)"
| "find_member key v = None"

subsection \<open>Tokens\<close>

definition is_space :: "char \<Rightarrow> bool" where
  "is_space c \<longleftrightarrow> c = CHR 0x20 \<or> c = CHR 0x09 \<or> c = CHR 0x0D \<or> c = CHR 0x0A"

definition skip_space :: "string \<Rightarrow> string" where
  "skip_space s = dropWhile is_space s"

definition literal :: "string \<Rightarrow> string \<Rightarrow> string option" where
  "literal word s = (if take (length word) s = word then Some (drop (length word) s) else None)"

definition hex_value :: "char \<Rightarrow> nat option" where
  "hex_value c =
     (let n = of_char c :: nat in
      if 48 \<le> n \<and> n \<le> 57 then Some (n - 48)
      else if 97 \<le> n \<and> n \<le> 102 then Some (n - 97 + 10)
      else if 65 \<le> n \<and> n \<le> 70 then Some (n - 65 + 10)
      else None)"

fun hex_digits :: "nat \<Rightarrow> nat \<Rightarrow> string \<Rightarrow> (nat \<times> string) option" where
  "hex_digits 0 v s = Some (v, s)"
| "hex_digits (Suc n) v [] = None"
| "hex_digits (Suc n) v (c # s) = (case hex_value c of None \<Rightarrow> None | Some h \<Rightarrow> hex_digits n (push_bit 4 v OR h) s)"

definition append_utf8 :: "nat \<Rightarrow> string" where
  "append_utf8 cp =
     (if cp < 0x80 then [char_of cp]
      else if cp < 0x800 then [char_of (0xC0 OR drop_bit 6 cp), char_of (0x80 OR (cp AND 0x3F))]
      else if cp < 0x10000
        then [char_of (0xE0 OR drop_bit 12 cp), char_of (0x80 OR (drop_bit 6 cp AND 0x3F)), char_of (0x80 OR (cp AND 0x3F))]
      else [char_of (0xF0 OR drop_bit 18 cp), char_of (0x80 OR (drop_bit 12 cp AND 0x3F)),
        char_of (0x80 OR (drop_bit 6 cp AND 0x3F)), char_of (0x80 OR (cp AND 0x3F))])"

text \<open>The code point after \<open>\u\<close>: a high surrogate needs a low one, and a lone low one is refused.\<close>

definition unicode_escape :: "string \<Rightarrow> (nat \<times> string) option" where
  "unicode_escape s =
     (case hex_digits 4 0 s of
        None \<Rightarrow> None
      | Some (cp, r) \<Rightarrow>
          if 0xD800 \<le> cp \<and> cp \<le> 0xDBFF
            then (case literal [CHR 0x5C, CHR ''u''] r of
              None \<Rightarrow> None
            | Some r1 \<Rightarrow>
                (case hex_digits 4 0 r1 of
                   None \<Rightarrow> None
                 | Some (low, r2) \<Rightarrow>
                     if low < 0xDC00 \<or> low > 0xDFFF then None
                     else Some (0x10000 + push_bit 10 (cp - 0xD800) + (low - 0xDC00), r2)))
          else if 0xDC00 \<le> cp \<and> cp \<le> 0xDFFF then None
          else Some (cp, r))"

definition simple_escape :: "char \<Rightarrow> char option" where
  "simple_escape e =
     (if e = CHR 0x22 \<or> e = CHR 0x5C \<or> e = CHR 0x2F then Some e
      else if e = CHR ''b'' then Some (CHR 0x08)
      else if e = CHR ''f'' then Some (CHR 0x0C)
      else if e = CHR ''n'' then Some (CHR 0x0A)
      else if e = CHR ''r'' then Some (CHR 0x0D)
      else if e = CHR ''t'' then Some (CHR 0x09)
      else None)"

lemma hex_digits_length: "hex_digits n v s = Some (v', r) \<Longrightarrow> length s = length r + n"
  by (induction n v s rule: hex_digits.induct) (auto split: option.splits)

lemma literal_length: "literal word s = Some r \<Longrightarrow> s = word @ r"
  by (auto simp: literal_def split: if_splits) (metis append_take_drop_id)

lemma unicode_escape_length: "unicode_escape s = Some (cp, r) \<Longrightarrow> length r < length s"
  by (auto simp: unicode_escape_def dest!: hex_digits_length literal_length split: option.splits prod.splits if_splits)

function string_body :: "json_env \<Rightarrow> string \<Rightarrow> string \<Rightarrow> (string \<times> string) option" where
  "string_body env out [] = None"
| "string_body env out (c # s) =
     (if c = CHR 0x22 then (if out = [] \<or> je_utf8 env out then Some (out, s) else None)
      else if of_char c < (0x20 :: nat) then None
      else if c \<noteq> CHR 0x5C then string_body env (out @ [c]) s
      else case s of
        [] \<Rightarrow> None
      | e # r \<Rightarrow>
          (case simple_escape e of
             Some x \<Rightarrow> string_body env (out @ [x]) r
           | None \<Rightarrow>
               if e \<noteq> CHR ''u'' then None
               else (case unicode_escape r of
                 None \<Rightarrow> None
               | Some (cp, r2) \<Rightarrow> string_body env (out @ append_utf8 cp) r2)))"
  by pat_completeness auto
termination
  by (relation "measure (\<lambda>(env, out, s). length s)") (auto dest: unicode_escape_length)

definition json_string :: "json_env \<Rightarrow> string \<Rightarrow> (string \<times> string) option" where
  "json_string env s = (case s of [] \<Rightarrow> None | c # r \<Rightarrow> if c = CHR 0x22 then string_body env [] r else None)"

subsection \<open>Numbers\<close>

definition is_digit :: "char \<Rightarrow> bool" where
  "is_digit c \<longleftrightarrow> 48 \<le> (of_char c :: nat) \<and> (of_char c :: nat) \<le> 57"

definition digits :: "string \<Rightarrow> string option" where
  "digits s = (let r = dropWhile is_digit s in if length r < length s then Some r else None)"

definition scan_fraction :: "string \<Rightarrow> string option" where
  "scan_fraction s = (case s of c # r \<Rightarrow> if c = CHR ''.'' then digits r else Some s | [] \<Rightarrow> Some s)"

definition scan_exponent :: "string \<Rightarrow> string option" where
  "scan_exponent s =
     (case s of
        c # r \<Rightarrow>
          if c = CHR ''e'' \<or> c = CHR ''E''
            then (case r of
              x # q \<Rightarrow> if x = CHR ''+'' \<or> x = CHR ''-'' then digits q else digits r
            | [] \<Rightarrow> digits r)
          else Some s
      | [] \<Rightarrow> Some s)"

definition scan_integer :: "string \<Rightarrow> string option" where
  "scan_integer s = (case s of c # r \<Rightarrow> if c = CHR ''0'' then Some r else digits s | [] \<Rightarrow> digits s)"

definition drop_minus :: "string \<Rightarrow> string" where
  "drop_minus s = (case s of c # r \<Rightarrow> if c = CHR ''-'' then r else s | [] \<Rightarrow> s)"

definition scan_number :: "string \<Rightarrow> string option" where
  "scan_number s =
     (case scan_integer (drop_minus s) of
        None \<Rightarrow> None
      | Some r \<Rightarrow> (case scan_fraction r of None \<Rightarrow> None | Some r1 \<Rightarrow> scan_exponent r1))"

definition json_number :: "json_env \<Rightarrow> string \<Rightarrow> (json \<times> string) option" where
  "json_number env s =
     (case scan_number s of
        None \<Rightarrow> None
      | Some r \<Rightarrow>
          (let token = take (length s - length r) s; d = je_strtod env token
           in if double_finite d then Some (JNumber d token, r) else None))"

subsection \<open>Values\<close>

text \<open>
  The recursion is on fuel: the outer \<open>None\<close> is running out of it, which the termination theorem below
  rules out for the fuel \<open>parse_json\<close> gives.
\<close>

definition json_scalar :: "json_env \<Rightarrow> string \<Rightarrow> (json \<times> string) option" where
  "json_scalar env s =
     (if s \<noteq> [] \<and> hd s = CHR 0x22 then map_option (\<lambda>(t, r). (JString t, r)) (json_string env s)
      else case literal ''true'' s of
        Some r \<Rightarrow> Some (JBool True, r)
      | None \<Rightarrow>
          (case literal ''false'' s of
             Some r \<Rightarrow> Some (JBool False, r)
           | None \<Rightarrow>
               (case literal ''null'' s of
                  Some r \<Rightarrow> Some (JNull, r)
                | None \<Rightarrow> json_number env s)))"

definition starts_with :: "char \<Rightarrow> string \<Rightarrow> bool" where
  "starts_with c s \<longleftrightarrow> s \<noteq> [] \<and> hd s = c"

fun json_value :: "json_env \<Rightarrow> nat \<Rightarrow> nat \<Rightarrow> string \<Rightarrow> (json \<times> string) option option"
  and json_items :: "json_env \<Rightarrow> nat \<Rightarrow> nat \<Rightarrow> json list \<Rightarrow> string \<Rightarrow> (json \<times> string) option option"
  and json_members :: "json_env \<Rightarrow> nat \<Rightarrow> nat \<Rightarrow> (string \<times> json) list \<Rightarrow> string \<Rightarrow> (json \<times> string) option option"
where
  "json_value env 0 depth s = None"
| "json_value env (Suc n) depth s =
     (case skip_space s of
        [] \<Rightarrow> Some None
      | c # r \<Rightarrow>
          if c = CHR ''{'' \<or> c = CHR ''[''
            then if depth + 1 > 32 then Some None
              else if c = CHR ''{''
                then if starts_with (CHR ''}'') (skip_space r) then Some (Some (JObject [], tl (skip_space r)))
                  else json_members env n (depth + 1) [] (skip_space r)
              else if starts_with (CHR '']'') (skip_space r) then Some (Some (JArray [], tl (skip_space r)))
                else json_items env n (depth + 1) [] (skip_space r)
          else Some (json_scalar env (c # r)))"
| "json_items env 0 depth items s = None"
| "json_items env (Suc n) depth items s =
     (case json_value env n depth s of
        None \<Rightarrow> None
      | Some None \<Rightarrow> Some None
      | Some (Some (item, r)) \<Rightarrow>
          (case skip_space r of
             [] \<Rightarrow> Some None
           | c # q \<Rightarrow>
               if c = CHR '','' then json_items env n depth (items @ [item]) q
               else if c \<noteq> CHR '']'' then Some None
               else Some (Some (JArray (items @ [item]), q))))"
| "json_members env 0 depth members s = None"
| "json_members env (Suc n) depth members s =
     (case json_string env (skip_space s) of
        None \<Rightarrow> Some None
      | Some (key, r) \<Rightarrow>
          if list_ex (\<lambda>m. fst m = key) members then Some None
          else case skip_space r of
            [] \<Rightarrow> Some None
          | c # r1 \<Rightarrow>
              if c \<noteq> CHR '':'' then Some None
              else case json_value env n depth r1 of
                None \<Rightarrow> None
              | Some None \<Rightarrow> Some None
              | Some (Some (item, r2)) \<Rightarrow>
                  (case skip_space r2 of
                     [] \<Rightarrow> Some None
                   | x # q \<Rightarrow>
                       if x = CHR '','' then json_members env n depth (members @ [(key, item)]) q
                       else if x \<noteq> CHR ''}'' then Some None
                       else Some (Some (JObject (members @ [(key, item)]), q))))"

definition utf8_bom :: string where
  "utf8_bom = [CHR 0xEF, CHR 0xBB, CHR 0xBF]"

definition parse_json :: "json_env \<Rightarrow> string \<Rightarrow> json option option" where
  "parse_json env text =
     (let body = (if take 3 text = utf8_bom then drop 3 text else text) in
      case json_value env (2 * length body + 1) 0 body of
        None \<Rightarrow> None
      | Some None \<Rightarrow> Some None
      | Some (Some (v, r)) \<Rightarrow> if skip_space r = [] then Some (Some v) else Some None)"

subsection \<open>Progress and termination\<close>

lemma skip_space_length: "length (skip_space s) \<le> length s"
  by (simp add: skip_space_def length_dropWhile_le)

lemma string_body_length: "string_body env out s = Some (t, r) \<Longrightarrow> length r < length s"
proof (induction env out s rule: string_body.induct)
  case (1 env out)
  then show ?case by simp
next
  case (2 env out c s)
  consider "c = CHR 0x22" | "c \<noteq> CHR 0x22" "of_char c < (0x20 :: nat)"
    | "c \<noteq> CHR 0x22" "\<not> of_char c < (0x20 :: nat)" "c \<noteq> CHR 0x5C" | "c = CHR 0x5C"
    by blast
  then show ?case
  proof cases
    case 1
    with 2(4) show ?thesis by (simp split: if_splits)
  next
    case 2
    with \<open>string_body env out (c # s) = Some (t, r)\<close> show ?thesis by simp
  next
    case 3
    with 2(1,4) show ?thesis by simp
  next
    case 4
    show ?thesis
    proof (cases s)
      case Nil
      with 4 2(4) show ?thesis by simp
    next
      case (Cons e q)
      show ?thesis
      proof (cases "simple_escape e")
        case None
        with 4 Cons 2(4) obtain cp q2 where u: "unicode_escape q = Some (cp, q2)" "e = CHR ''u''"
          "string_body env (out @ append_utf8 cp) q2 = Some (t, r)"
          by (simp split: if_splits option.splits prod.splits)
        with 2(2) 4 Cons None have "length r < length q2"
          by simp
        with unicode_escape_length [OF u(1)] Cons show ?thesis by simp
      next
        case (Some x)
        with 2(3) 2(4) 4 Cons have "length r < length q" by auto
        with Cons show ?thesis by simp
      qed
    qed
  qed
qed

lemma json_string_length: "json_string env s = Some (t, r) \<Longrightarrow> length r < length s"
  by (auto simp: json_string_def dest: string_body_length split: list.splits if_splits)

definition number_stop :: "string \<Rightarrow> bool" where
  "number_stop q \<longleftrightarrow> q = [] \<or> \<not> is_digit (hd q) \<and> hd q \<notin> {CHR ''.'', CHR ''e'', CHR ''E''}"

text \<open>
  Each stage of a number reads a prefix, and reads the same prefix whatever follows it, as long as
  that cannot continue the stage.
\<close>

lemma digits_split:
  assumes "digits s = Some r"
  shows "\<exists>p. s = p @ r \<and> p \<noteq> [] \<and> is_digit (hd p) \<and> (\<forall>q. (q = [] \<or> \<not> is_digit (hd q)) \<longrightarrow> digits (p @ q) = Some q)"
proof -
  define p where "p = takeWhile is_digit s"
  have r: "r = dropWhile is_digit s" and short: "length r < length s"
    using assms by (auto simp: digits_def Let_def split: if_splits)
  have s: "s = p @ r"
    by (simp add: p_def r)
  with short have "p \<noteq> []" by auto
  have all: "\<forall>c \<in> set p. is_digit c"
    by (auto simp: p_def dest: set_takeWhileD)
  moreover have "digits (p @ q) = Some q" if "q = [] \<or> \<not> is_digit (hd q)" for q
  proof -
    have "dropWhile is_digit (p @ q) = dropWhile is_digit q"
      using all by (intro dropWhile_append2) auto
    also have "dropWhile is_digit q = q"
      using that by (cases q) auto
    finally show ?thesis
      using \<open>p \<noteq> []\<close> by (simp add: digits_def)
  qed
  ultimately show ?thesis
    using s \<open>p \<noteq> []\<close> by (intro exI [of _ p]) auto
qed

lemma scan_integer_split:
  assumes "scan_integer s = Some r"
  shows "\<exists>p. s = p @ r \<and> p \<noteq> [] \<and> is_digit (hd p) \<and> (\<forall>q. (q = [] \<or> \<not> is_digit (hd q)) \<longrightarrow> scan_integer (p @ q) = Some q)"
proof (cases "s \<noteq> [] \<and> hd s = CHR ''0''")
  case True
  then show ?thesis
    using assms by (intro exI [of _ "[CHR ''0'']"]) (auto simp: scan_integer_def is_digit_def split: list.splits if_splits)
next
  case False
  then have "digits s = Some r"
    using assms by (auto simp: scan_integer_def split: list.splits if_splits)
  then obtain p where p: "s = p @ r" "p \<noteq> []" "is_digit (hd p)" "\<forall>q. (q = [] \<or> \<not> is_digit (hd q)) \<longrightarrow> digits (p @ q) = Some q"
    using digits_split by blast
  with False have "hd p \<noteq> CHR ''0''"
    by auto
  with p(2) have "scan_integer (p @ q) = digits (p @ q)" for q
    by (cases p) (auto simp: scan_integer_def)
  with p show ?thesis
    by (intro exI [of _ p]) (simp only: simp_thms)
qed

lemma scan_fraction_split:
  assumes "scan_fraction s = Some r"
  shows "\<exists>p. s = p @ r \<and> (p = [] \<or> hd p = CHR ''.'') \<and>
    (\<forall>q. (q = [] \<or> \<not> is_digit (hd q) \<and> hd q \<noteq> CHR ''.'') \<longrightarrow> scan_fraction (p @ q) = Some q)"
proof (cases "s \<noteq> [] \<and> hd s = CHR ''.''")
  case True
  then have "digits (tl s) = Some r"
    using assms by (auto simp: scan_fraction_def split: list.splits if_splits)
  then obtain p where "tl s = p @ r" "\<forall>q. (q = [] \<or> \<not> is_digit (hd q)) \<longrightarrow> digits (p @ q) = Some q"
    using digits_split by blast
  with True show ?thesis
    by (intro exI [of _ "CHR ''.'' # p"]) (auto simp: scan_fraction_def neq_Nil_conv)
next
  case False
  with assms show ?thesis
    by (intro exI [of _ "[]"]) (auto simp: scan_fraction_def split: list.splits if_splits)
qed

lemma scan_exponent_split:
  assumes "scan_exponent s = Some r"
  shows "\<exists>p. s = p @ r \<and> (p = [] \<or> hd p \<in> {CHR ''e'', CHR ''E''}) \<and>
    (\<forall>q. number_stop q \<longrightarrow> scan_exponent (p @ q) = Some q)"
proof (cases "s \<noteq> [] \<and> hd s \<in> {CHR ''e'', CHR ''E''}")
  case True
  then obtain c t where s: "s = c # t" "c \<in> {CHR ''e'', CHR ''E''}"
    by (auto simp: neq_Nil_conv)
  show ?thesis
  proof (cases "t \<noteq> [] \<and> hd t \<in> {CHR ''+'', CHR ''-''}")
    case sign: True
    then obtain x u where t: "t = x # u" "x \<in> {CHR ''+'', CHR ''-''}"
      by (auto simp: neq_Nil_conv)
    then have "digits u = Some r"
      using assms s by (auto simp: scan_exponent_def)
    then obtain p where "u = p @ r" "\<forall>q. (q = [] \<or> \<not> is_digit (hd q)) \<longrightarrow> digits (p @ q) = Some q"
      using digits_split by blast
    with s t show ?thesis
      by (intro exI [of _ "c # x # p"]) (auto simp: scan_exponent_def number_stop_def)
  next
    case False
    then have "digits t = Some r"
      using assms s by (auto simp: scan_exponent_def split: list.splits if_splits)
    then obtain p where p: "t = p @ r" "p \<noteq> []" "is_digit (hd p)" "\<forall>q. (q = [] \<or> \<not> is_digit (hd q)) \<longrightarrow> digits (p @ q) = Some q"
      using digits_split by blast
    then have "hd p \<noteq> CHR ''+''" "hd p \<noteq> CHR ''-''"
      by (auto simp: is_digit_def)
    with p(2) obtain x u where "p = x # u" "\<not> (x = CHR ''+'' \<or> x = CHR ''-'')"
      by (cases p) auto
    with s p show ?thesis
      by (intro exI [of _ "c # p"]) (auto simp: scan_exponent_def number_stop_def)
  qed
next
  case False
  with assms have "r = s"
    by (auto simp: scan_exponent_def split: list.splits if_splits)
  then show ?thesis
    by (intro exI [of _ "[]"]) (auto simp: scan_exponent_def number_stop_def split: list.splits)
qed

lemma scan_number_split:
  assumes "scan_number s = Some r"
  shows "\<exists>p. s = p @ r \<and> p \<noteq> [] \<and> (hd p = CHR ''-'' \<or> is_digit (hd p)) \<and> (\<forall>q. number_stop q \<longrightarrow> scan_number (p @ q) = Some q)"
proof -
  define m where "m = (if s \<noteq> [] \<and> hd s = CHR ''-'' then [CHR ''-''] else [])"
  define body where "body = drop_minus s"
  have s: "s = m @ body"
    by (auto simp: m_def body_def drop_minus_def split: list.splits)
  obtain r1 r2 where steps: "scan_integer body = Some r1" "scan_fraction r1 = Some r2" "scan_exponent r2 = Some r"
    using assms by (auto simp: scan_number_def body_def [symmetric] split: option.splits)
  obtain p1 where p1: "body = p1 @ r1" "p1 \<noteq> []" "is_digit (hd p1)"
      "\<And>q. q = [] \<or> \<not> is_digit (hd q) \<Longrightarrow> scan_integer (p1 @ q) = Some q"
    using scan_integer_split [OF steps(1)] by blast
  obtain p2 where p2: "r1 = p2 @ r2" "p2 = [] \<or> hd p2 = CHR ''.''"
      "\<And>q. q = [] \<or> \<not> is_digit (hd q) \<and> hd q \<noteq> CHR ''.'' \<Longrightarrow> scan_fraction (p2 @ q) = Some q"
    using scan_fraction_split [OF steps(2)] by blast
  obtain p3 where p3: "r2 = p3 @ r" "p3 = [] \<or> hd p3 \<in> {CHR ''e'', CHR ''E''}"
      "\<And>q. number_stop q \<Longrightarrow> scan_exponent (p3 @ q) = Some q"
    using scan_exponent_split [OF steps(3)] by blast
  have "scan_number ((m @ p1 @ p2 @ p3) @ q) = Some q" if q: "number_stop q" for q
  proof -
    have "p3 @ q = [] \<or> \<not> is_digit (hd (p3 @ q)) \<and> hd (p3 @ q) \<noteq> CHR ''.''"
      using p3(2) q by (cases p3) (auto simp: number_stop_def is_digit_def)
    moreover from this have "p2 @ p3 @ q = [] \<or> \<not> is_digit (hd (p2 @ p3 @ q))"
      using p2(2) by (cases p2) (auto simp: is_digit_def)
    moreover have "drop_minus (m @ p1 @ p2 @ p3 @ q) = p1 @ p2 @ p3 @ q"
    proof -
      have "hd p1 \<noteq> CHR ''-''"
        using p1(3) by (auto simp: is_digit_def)
      then show ?thesis
        using p1(2) by (cases p1) (auto simp: m_def drop_minus_def)
    qed
    ultimately show ?thesis
      using p1(4) [of "p2 @ p3 @ q"] p2(3) [of "p3 @ q"] p3(3) [OF q] by (simp add: scan_number_def)
  qed
  moreover have "hd (m @ p1 @ p2 @ p3) = CHR ''-'' \<or> is_digit (hd (m @ p1 @ p2 @ p3))"
    using p1(2,3) by (cases p1) (auto simp: m_def)
  ultimately show ?thesis
    using s p1 p2 p3 by (intro exI [of _ "m @ p1 @ p2 @ p3"]) auto
qed

lemma json_number_length: "json_number env s = Some (v, r) \<Longrightarrow> length r < length s"
  by (auto simp: json_number_def Let_def dest!: scan_number_split split: option.splits if_splits)

lemma json_scalar_length: "json_scalar env s = Some (v, r) \<Longrightarrow> length r < length s"
  by (auto simp: json_scalar_def dest: json_number_length literal_length json_string_length split: option.splits if_splits)

lemma skip_space_Cons: "skip_space s = c # r \<Longrightarrow> length r < length s"
  using skip_space_length [of s] by simp

lemma starts_with_length: "starts_with c s \<Longrightarrow> length (tl s) < length s"
  by (cases s) (simp_all add: starts_with_def)

lemma json_progress:
  "(\<forall>depth s v r. json_value env n depth s = Some (Some (v, r)) \<longrightarrow> length r < length s) \<and>
   (\<forall>depth xs s v r. json_items env n depth xs s = Some (Some (v, r)) \<longrightarrow> length r < length s) \<and>
   (\<forall>depth ms s v r. json_members env n depth ms s = Some (Some (v, r)) \<longrightarrow> length r < length s)"
proof (induction n)
  case 0
  then show ?case by simp
next
  case (Suc n)
  have "length r < length s" if *: "json_value env (Suc n) depth s = Some (Some (v, r))" for depth s v r
  proof -
    obtain c q where q: "skip_space s = c # q"
      using * by (cases "skip_space s") auto
    have "length r < length (skip_space s)"
    proof (cases "c = CHR ''{'' \<or> c = CHR ''[''")
      case True
      have "length r < length (skip_space q)"
        using * q True Suc starts_with_length by (auto split: if_splits)
      with skip_space_length [of q] q show ?thesis by simp
    next
      case False
      with * q show ?thesis by (auto dest: json_scalar_length)
    qed
    with skip_space_length [of s] show ?thesis by simp
  qed
  moreover have "length r < length s" if *: "json_items env (Suc n) depth xs s = Some (Some (v, r))" for depth xs s v r
  proof -
    obtain item r1 where item: "json_value env n depth s = Some (Some (item, r1))"
      using * by (auto split: option.splits)
    with * obtain c q where q: "skip_space r1 = c # q"
      by (cases "skip_space r1") auto
    have "r = q \<or> json_items env n depth (xs @ [item]) q = Some (Some (v, r))"
      using * item q by (auto split: if_splits)
    then have "length r \<le> length q"
      using Suc by (auto intro: less_imp_le)
    moreover have "length r1 < length s"
      using item Suc by blast
    ultimately show ?thesis
      using skip_space_Cons [OF q] by simp
  qed
  moreover have "length r < length s" if *: "json_members env (Suc n) depth ms s = Some (Some (v, r))" for depth ms s v r
  proof -
    obtain key r1 where key: "json_string env (skip_space s) = Some (key, r1)"
      using * by (auto split: option.splits)
    with * obtain r2 where colon: "skip_space r1 = CHR '':'' # r2"
      by (cases "skip_space r1") (auto split: if_splits)
    obtain item r3 where item: "json_value env n depth r2 = Some (Some (item, r3))"
      using * key colon by (auto split: if_splits option.splits)
    obtain c q where q: "skip_space r3 = c # q"
      using * key colon item by (cases "skip_space r3") (auto split: if_splits)
    have "r = q \<or> json_members env n depth (ms @ [(key, item)]) q = Some (Some (v, r))"
      using * key colon item q by (auto split: if_splits)
    then have "length r \<le> length q"
      using Suc by (auto intro: less_imp_le)
    moreover have "length r3 < length r2"
      using item Suc by blast
    ultimately show ?thesis
      using skip_space_Cons [OF q] skip_space_Cons [OF colon] json_string_length [OF key] skip_space_length [of s] by simp
  qed
  ultimately show ?case by blast
qed

lemma json_value_length: "json_value env n depth s = Some (Some (v, r)) \<Longrightarrow> length r < length s"
  using json_progress by blast

lemma json_fuel:
  "(\<forall>depth s. 2 * length s + 1 \<le> n \<longrightarrow> json_value env n depth s \<noteq> None) \<and>
   (\<forall>depth xs s. 2 * length s + 2 \<le> n \<longrightarrow> json_items env n depth xs s \<noteq> None) \<and>
   (\<forall>depth ms s. 2 * length s + 2 \<le> n \<longrightarrow> json_members env n depth ms s \<noteq> None)"
proof (induction n)
  case 0
  then show ?case by simp
next
  case (Suc n)
  have "json_value env (Suc n) depth s \<noteq> None" if "2 * length s + 1 \<le> Suc n" for depth s
  proof (cases "skip_space s")
    case Nil
    then show ?thesis by simp
  next
    case (Cons c q)
    have "2 * length (skip_space q) + 2 \<le> n"
      using that skip_space_Cons [OF Cons] skip_space_length [of q] by simp
    then have "json_items env n (depth + 1) [] (skip_space q) \<noteq> None" "json_members env n (depth + 1) [] (skip_space q) \<noteq> None"
      using Suc by blast+
    with Cons show ?thesis by simp
  qed
  moreover have "json_items env (Suc n) depth xs s \<noteq> None" if le: "2 * length s + 2 \<le> Suc n" for depth xs s
  proof -
    have "json_value env n depth s \<noteq> None"
      using le Suc by simp
    moreover have "json_items env n depth ys q \<noteq> None"
      if "json_value env n depth s = Some (Some (item, r))" "skip_space r = c # q" for item r c q ys
    proof -
      have "2 * length q + 2 \<le> n"
        using json_value_length [OF that(1)] skip_space_Cons [OF that(2)] le by simp
      with Suc show ?thesis by blast
    qed
    ultimately show ?thesis
      by (auto split: option.splits list.splits)
  qed
  moreover have "json_members env (Suc n) depth ms s \<noteq> None" if le: "2 * length s + 2 \<le> Suc n" for depth ms s
  proof -
    show ?thesis
    proof (cases "json_string env (skip_space s)")
      case None
      then show ?thesis by simp
    next
      case (Some kr)
      then obtain key r1 where key: "json_string env (skip_space s) = Some (key, r1)"
        by (cases kr) simp
      show ?thesis
      proof (cases "skip_space r1")
        case Nil
        with key show ?thesis by simp
      next
        case (Cons c r2)
        have shorter: "length r2 + 2 \<le> length s"
          using json_string_length [OF key] skip_space_Cons [OF Cons] skip_space_length [of s] by simp
        with le have "2 * length r2 + 1 \<le> n" by simp
        with Suc obtain iv where iv: "json_value env n depth r2 = Some iv"
          by blast
        have "json_members env n depth ys q \<noteq> None" if "iv = Some (item, r3)" "skip_space r3 = x # q" for item r3 x q ys
        proof -
          have "2 * length q + 2 \<le> n"
            using iv that json_value_length [of env n depth r2 item r3] skip_space_Cons [OF that(2)] shorter le by simp
          with Suc show ?thesis by blast
        qed
        with key Cons iv show ?thesis
          by (simp split: option.splits list.splits prod.splits)
      qed
    qed
  qed
  ultimately show ?case by blast
qed

text \<open>More fuel changes nothing once there was enough.\<close>

lemma json_fuel_mono:
  "(\<forall>depth s x. json_value env n depth s = Some x \<longrightarrow> json_value env (Suc n) depth s = Some x) \<and>
   (\<forall>depth xs s x. json_items env n depth xs s = Some x \<longrightarrow> json_items env (Suc n) depth xs s = Some x) \<and>
   (\<forall>depth ms s x. json_members env n depth ms s = Some x \<longrightarrow> json_members env (Suc n) depth ms s = Some x)"
proof (induction n)
  case 0
  then show ?case by simp
next
  case (Suc n)
  define m where "m = Suc n"
  have IH: "json_value env n depth s = Some x \<Longrightarrow> json_value env m depth s = Some x"
    "json_items env n depth xs s = Some x \<Longrightarrow> json_items env m depth xs s = Some x"
    "json_members env n depth ms s = Some x \<Longrightarrow> json_members env m depth ms s = Some x" for depth s x xs ms
    using Suc unfolding m_def by blast+
  have "json_value env (Suc m) depth s = Some x" if "json_value env (Suc n) depth s = Some x" for depth s x
    using that IH(2,3) by (cases "skip_space s") (auto split: if_splits)
  moreover have "json_items env (Suc m) depth xs s = Some x" if *: "json_items env (Suc n) depth xs s = Some x" for depth xs s x
  proof (cases "json_value env n depth s")
    case None
    with * show ?thesis by simp
  next
    case (Some iv)
    with * IH(1) [OF Some] IH(2) show ?thesis
      by (cases iv) (auto split: list.splits if_splits)
  qed
  moreover have "json_members env (Suc m) depth ms s = Some x" if *: "json_members env (Suc n) depth ms s = Some x" for depth ms s x
  proof (cases "json_string env (skip_space s)")
    case None
    with * show ?thesis by simp
  next
    case (Some kr)
    obtain key r where kr: "kr = (key, r)" by (cases kr)
    show ?thesis
    proof (cases "list_ex (\<lambda>m. fst m = key) ms \<or> \<not> starts_with (CHR '':'') (skip_space r)")
      case True
      with * Some kr show ?thesis
        by (auto simp: starts_with_def split: list.splits if_splits)
    next
      case False
      then obtain r1 where r1: "skip_space r = CHR '':'' # r1" "\<not> list_ex (\<lambda>m. fst m = key) ms"
        by (cases "skip_space r") (auto simp: starts_with_def)
      then obtain iv where iv: "json_value env n depth r1 = Some iv"
        using * Some kr by (cases "json_value env n depth r1") auto
      with * Some kr r1 IH(1) [OF iv] IH(3) show ?thesis
        by (cases iv) (auto split: list.splits if_splits)
    qed
  qed
  ultimately show ?case
    unfolding m_def by blast
qed

lemma json_value_more_fuel: "json_value env n depth s = Some x \<Longrightarrow> n \<le> m \<Longrightarrow> json_value env m depth s = Some x"
proof -
  assume *: "json_value env n depth s = Some x" "n \<le> m"
  have "json_value env (n + k) depth s = Some x" for k
    using json_fuel_mono [of env] *(1) by (induction k) (simp, metis add_Suc_right)
  from this [of "m - n"] *(2) show "json_value env m depth s = Some x" by simp
qed

subsection \<open>Well-formed values\<close>

definition string_ok :: "json_env \<Rightarrow> string \<Rightarrow> bool" where
  "string_ok env s \<longleftrightarrow> s = [] \<or> je_utf8 env s"

fun json_ok :: "json_env \<Rightarrow> nat \<Rightarrow> json \<Rightarrow> bool" where
  "json_ok env depth JNull = True"
| "json_ok env depth (JBool b) = True"
| "json_ok env depth (JNumber d token) =
     (scan_number token = Some [] \<and> d = je_strtod env token \<and> double_finite d)"
| "json_ok env depth (JString s) = string_ok env s"
| "json_ok env depth (JArray xs) = (depth + 1 \<le> 32 \<and> (\<forall>x \<in> set xs. json_ok env (depth + 1) x))"
| "json_ok env depth (JObject ms) =
     (depth + 1 \<le> 32 \<and> distinct (map fst ms) \<and>
      (\<forall>m \<in> set ms. string_ok env (fst m) \<and> json_ok env (depth + 1) (snd m)))"

lemma string_body_string_ok: "string_body env out s = Some (t, r) \<Longrightarrow> string_ok env t"
proof (induction env out s rule: string_body.induct)
  case (1 env out)
  then show ?case by simp
next
  case (2 env out c s)
  consider "c = CHR 0x22" | "c \<noteq> CHR 0x22" "of_char c < (0x20 :: nat)"
    | "c \<noteq> CHR 0x22" "\<not> of_char c < (0x20 :: nat)" "c \<noteq> CHR 0x5C" | "c = CHR 0x5C"
    by blast
  then show ?case
  proof cases
    case 1
    with 2(4) show ?thesis by (auto simp: string_ok_def split: if_splits)
  next
    case 2
    with \<open>string_body env out (c # s) = Some (t, r)\<close> show ?thesis by simp
  next
    case 3
    with 2(1,4) show ?thesis by simp
  next
    case 4
    show ?thesis
    proof (cases s)
      case Nil
      with 4 2(4) show ?thesis by simp
    next
      case (Cons e q)
      show ?thesis
      proof (cases "simple_escape e")
        case None
        with 4 Cons 2(4) obtain cp q2 where u: "unicode_escape q = Some (cp, q2)" "e = CHR ''u''"
          "string_body env (out @ append_utf8 cp) q2 = Some (t, r)"
          by (simp split: if_splits option.splits prod.splits)
        with 2(2) 4 Cons None show ?thesis by simp
      next
        case (Some x)
        with 2(3) 2(4) 4 Cons show ?thesis by auto
      qed
    qed
  qed
qed

lemma json_string_ok: "json_string env s = Some (t, r) \<Longrightarrow> string_ok env t"
  by (auto simp: json_string_def dest: string_body_string_ok split: list.splits if_splits)

lemma json_number_ok: "json_number env s = Some (v, r) \<Longrightarrow> json_ok env depth v"
proof -
  assume *: "json_number env s = Some (v, r)"
  then have "scan_number s = Some r"
    by (auto simp: json_number_def Let_def split: option.splits if_splits)
  then obtain p where p: "s = p @ r" "\<And>q. number_stop q \<Longrightarrow> scan_number (p @ q) = Some q"
    using scan_number_split by blast
  from p(2) [of "[]"] have "scan_number p = Some []"
    by (simp add: number_stop_def)
  with * p(1) show ?thesis
    by (auto simp: json_number_def Let_def split: option.splits if_splits)
qed

lemma json_scalar_ok: "json_scalar env s = Some (v, r) \<Longrightarrow> json_ok env depth v"
  by (auto simp: json_scalar_def dest: json_string_ok json_number_ok split: option.splits if_splits)

lemma json_results_ok:
  "(\<forall>depth s v r. json_value env n depth s = Some (Some (v, r)) \<longrightarrow> json_ok env depth v) \<and>
   (\<forall>depth xs s v r. json_items env n depth xs s = Some (Some (v, r)) \<longrightarrow> depth \<noteq> 0 \<longrightarrow> depth \<le> 32 \<longrightarrow>
      (\<forall>x \<in> set xs. json_ok env depth x) \<longrightarrow> json_ok env (depth - 1) v) \<and>
   (\<forall>depth ms s v r. json_members env n depth ms s = Some (Some (v, r)) \<longrightarrow> depth \<noteq> 0 \<longrightarrow> depth \<le> 32 \<longrightarrow>
      distinct (map fst ms) \<longrightarrow> (\<forall>m \<in> set ms. string_ok env (fst m) \<and> json_ok env depth (snd m)) \<longrightarrow> json_ok env (depth - 1) v)"
proof (induction n)
  case 0
  then show ?case by simp
next
  case (Suc n)
  have "json_ok env depth v" if *: "json_value env (Suc n) depth s = Some (Some (v, r))" for depth s v r
  proof -
    obtain c q where q: "skip_space s = c # q"
      using * by (cases "skip_space s") auto
    show ?thesis
    proof (cases "c = CHR ''{'' \<or> c = CHR ''[''")
      case True
      then consider "v = JObject []" "depth + 1 \<le> 32" | "v = JArray []" "depth + 1 \<le> 32"
        | "json_members env n (depth + 1) [] (skip_space q) = Some (Some (v, r))" "depth + 1 \<le> 32"
        | "json_items env n (depth + 1) [] (skip_space q) = Some (Some (v, r))" "depth + 1 \<le> 32"
        using * q by (auto split: if_splits)
      then show ?thesis
      proof cases
        case 3
        with Suc have "json_ok env (depth + 1 - 1) v"
          by (metis add_is_0 distinct.simps(1) empty_iff list.set(1) list.simps(8) one_neq_zero)
        then show ?thesis by simp
      next
        case 4
        with Suc have "json_ok env (depth + 1 - 1) v"
          by (metis add_is_0 empty_iff list.set(1) one_neq_zero)
        then show ?thesis by simp
      qed simp_all
    next
      case False
      with * q show ?thesis by (auto dest: json_scalar_ok)
    qed
  qed
  moreover have "json_ok env (depth - 1) v"
    if *: "json_items env (Suc n) depth xs s = Some (Some (v, r))" and d: "depth \<noteq> 0" "depth \<le> 32"
      and xs: "\<forall>x \<in> set xs. json_ok env depth x" for depth xs s v r
  proof -
    obtain item r1 where item: "json_value env n depth s = Some (Some (item, r1))"
      using * by (auto split: option.splits)
    with * obtain c q where q: "skip_space r1 = c # q"
      by (cases "skip_space r1") auto
    have "json_ok env depth item"
      using item Suc by blast
    with xs have xs': "\<forall>x \<in> set (xs @ [item]). json_ok env depth x"
      by simp
    have "v = JArray (xs @ [item]) \<or> json_items env n depth (xs @ [item]) q = Some (Some (v, r))"
      using * item q by (auto split: if_splits)
    then show ?thesis
      using Suc d xs' by (elim disjE) (simp, blast)
  qed
  moreover have "json_ok env (depth - 1) v"
    if *: "json_members env (Suc n) depth ms s = Some (Some (v, r))" and d: "depth \<noteq> 0" "depth \<le> 32"
      and ms: "distinct (map fst ms)" "\<forall>m \<in> set ms. string_ok env (fst m) \<and> json_ok env depth (snd m)" for depth ms s v r
  proof -
    obtain key r1 where key: "json_string env (skip_space s) = Some (key, r1)"
      using * by (auto split: option.splits)
    with * obtain r2 where colon: "skip_space r1 = CHR '':'' # r2"
      by (cases "skip_space r1") (auto split: if_splits)
    obtain item r3 where item: "json_value env n depth r2 = Some (Some (item, r3))"
      using * key colon by (auto split: if_splits option.splits)
    obtain c q where q: "skip_space r3 = c # q"
      using * key colon item by (cases "skip_space r3") (auto split: if_splits)
    have "key \<notin> fst ` set ms"
      using * key by (auto simp: list_ex_iff split: if_splits)
    moreover have "json_ok env depth item"
      using item Suc by blast
    ultimately have ms': "distinct (map fst (ms @ [(key, item)]))"
      "\<forall>m \<in> set (ms @ [(key, item)]). string_ok env (fst m) \<and> json_ok env depth (snd m)"
      using ms json_string_ok [OF key] by auto
    have "v = JObject (ms @ [(key, item)]) \<or> json_members env n depth (ms @ [(key, item)]) q = Some (Some (v, r))"
      using * key colon item q by (auto split: if_splits)
    then show ?thesis
      using Suc d ms' by (elim disjE) (simp, blast)
  qed
  ultimately show ?case by blast
qed

subsection \<open>Properties\<close>

text \<open>C17: The reader always ends with an answer: on any text, with the fuel \<open>parse_json\<close> gives, it either
  returns a value or fails, and more fuel gives the same answer; so no document, however deep or
  malformed, keeps it reading.\<close>

theorem json_parse_terminates:
  "(\<exists>result. json_value env (2 * length s + 1) depth s = Some result \<and>
     (\<forall>extra. json_value env (2 * length s + 1 + extra) depth s = Some result)) \<and>
   parse_json env s \<noteq> None"
proof -
  have enough: "\<exists>result. json_value env (2 * length s + 1) depth s = Some result" for s depth
    using json_fuel [of "2 * length s + 1" env] by blast
  moreover have "parse_json env s \<noteq> None"
  proof -
    define body where "body = (if take 3 s = utf8_bom then drop 3 s else s)"
    obtain result where "json_value env (2 * length body + 1) 0 body = Some result"
      using enough by blast
    then show ?thesis
      unfolding parse_json_def Let_def body_def [symmetric] by (simp split: option.splits prod.splits)
  qed
  ultimately show ?thesis
    using json_value_more_fuel [of env "2 * length s + 1" depth s] by (metis le_add1)
qed

text \<open>C18: What the reader accepts is well formed: objects have no key twice, strings and keys are valid
  UTF-8, every number is a JSON number token that denotes a finite double, and arrays and objects
  are nested at most 32 deep.\<close>

theorem json_parse_well_formed:
  assumes "parse_json env text = Some (Some v)"
  shows "json_ok env 0 v"
proof -
  define body where "body = (if take 3 text = utf8_bom then drop 3 text else text)"
  define n where "n = 2 * length body + 1"
  obtain r where "json_value env n 0 body = Some (Some (v, r))"
    using assms unfolding parse_json_def Let_def body_def [symmetric] n_def [symmetric]
    by (auto split: option.splits if_splits)
  then show ?thesis
    using json_results_ok [of env n] by blast
qed

definition sample_json_env :: json_env where
  "sample_json_env = \<lparr>je_utf8 = (\<lambda>_. True), je_strtod = (\<lambda>_. 0)\<rparr>"

lemma double_finite_0: "double_finite 0"
  by (simp add: double_finite_def)

lemma json_parse_well_formed_witness:
  "json_ok sample_json_env 0 (JObject [(''a'', JArray [JNumber 0 ''1'', JNull])])"
proof (rule json_parse_well_formed)
  show "parse_json sample_json_env
      [CHR ''{'', CHR 0x22, CHR ''a'', CHR 0x22, CHR '':'', CHR ''['', CHR ''1'', CHR '','', CHR ''n'', CHR ''u'', CHR ''l'', CHR ''l'', CHR '']'', CHR ''}''] =
    Some (Some (JObject [(''a'', JArray [JNumber 0 ''1'', JNull])]))"
    by (simp add: parse_json_def utf8_bom_def skip_space_def is_space_def starts_with_def json_string_def sample_json_env_def
        json_scalar_def literal_def json_number_def scan_number_def scan_integer_def digits_def is_digit_def drop_minus_def
        scan_fraction_def scan_exponent_def double_finite_0 eval_nat_numeral)
qed

end
