(* ===== verification/Json_Writer.thy ===== *)
theory Json_Writer
  imports Json_Value
begin

text \<open>
  \<open>src/setup/json_writer.hpp\<close>: the records Setup writes beside the installation, and the round trip
  through the reader.  \<open>std::to_string\<close> of a double, which the writer uses only for a number without a
  token, is a parameter.
\<close>

subsection \<open>Writing\<close>

definition crlf :: string where
  "crlf = [CHR 0x0D, CHR 0x0A]"

definition hex_char :: "nat \<Rightarrow> char" where
  "hex_char i = ''0123456789abcdef'' ! i"

definition escape_char :: "char \<Rightarrow> string" where
  "escape_char c =
     (if c = CHR 0x22 then [CHR 0x5C, CHR 0x22]
      else if c = CHR 0x5C then [CHR 0x5C, CHR 0x5C]
      else if c = CHR 0x0A then [CHR 0x5C, CHR ''n'']
      else if c = CHR 0x0D then [CHR 0x5C, CHR ''r'']
      else if c = CHR 0x09 then [CHR 0x5C, CHR ''t'']
      else if of_char c < (0x20 :: nat)
        then [CHR 0x5C, CHR ''u'', CHR ''0'', CHR ''0'', hex_char (drop_bit 4 (of_char c)), hex_char (of_char c AND 15)]
      else [c])"

definition escape_string :: "string \<Rightarrow> string" where
  "escape_string t = CHR 0x22 # concat (map escape_char t) @ [CHR 0x22]"

definition spaces :: "nat \<Rightarrow> string" where
  "spaces n = replicate n CHR 0x20"

fun write_json :: "(u64 \<Rightarrow> string) \<Rightarrow> nat \<Rightarrow> json \<Rightarrow> string"
  and write_items :: "(u64 \<Rightarrow> string) \<Rightarrow> nat \<Rightarrow> json list \<Rightarrow> string"
  and write_members :: "(u64 \<Rightarrow> string) \<Rightarrow> nat \<Rightarrow> (string \<times> json) list \<Rightarrow> string"
where
  "write_json to_string depth JNull = ''null''"
| "write_json to_string depth (JBool b) = (if b then ''true'' else ''false'')"
| "write_json to_string depth (JNumber d token) = (if token = [] then to_string d else token)"
| "write_json to_string depth (JString t) = escape_string t"
| "write_json to_string depth (JArray xs) =
     (if xs = [] then ''[]'' else ''['' @ crlf @ write_items to_string depth xs @ spaces (2 * depth) @ '']'')"
| "write_json to_string depth (JObject ms) =
     (if ms = [] then ''{}'' else ''{'' @ crlf @ write_members to_string depth ms @ spaces (2 * depth) @ ''}'')"
| "write_items to_string depth [] = []"
| "write_items to_string depth (x # xs) =
     spaces (2 * (depth + 1)) @ write_json to_string (depth + 1) x @ (if xs = [] then crlf else '','' @ crlf) @
     write_items to_string depth xs"
| "write_members to_string depth [] = []"
| "write_members to_string depth ((key, x) # ms) =
     spaces (2 * (depth + 1)) @ escape_string key @ '': '' @ write_json to_string (depth + 1) x @
     (if ms = [] then crlf else '','' @ crlf) @ write_members to_string depth ms"

definition serialize :: "(u64 \<Rightarrow> string) \<Rightarrow> json \<Rightarrow> string" where
  "serialize to_string v = write_json to_string 0 v @ crlf"

subsection \<open>Members of an object\<close>

fun set_pair :: "string \<Rightarrow> json \<Rightarrow> (string \<times> json) list \<Rightarrow> (string \<times> json) list" where
  "set_pair key v [] = [(key, v)]"
| "set_pair key v (m # ms) = (if fst m = key then (key, v) # ms else m # set_pair key v ms)"

fun set_member :: "string \<Rightarrow> json \<Rightarrow> json \<Rightarrow> json" where
  "set_member key v (JObject ms) = JObject (set_pair key v ms)"
| "set_member key v w = w"

lemma find_set_pair: "find (\<lambda>m. fst m = k) (set_pair key v ms) = (if k = key then Some (key, v) else find (\<lambda>m. fst m = k) ms)"
  by (induction ms) auto

lemma find_set_member:
  "find_member k (set_member key v (JObject ms)) = (if k = key then Some v else find_member k (JObject ms))"
  by (simp add: find_set_pair)

lemma set_pair_keys: "fst ` set (set_pair key v ms) = insert key (fst ` set ms)"
  by (induction ms) auto

lemma set_pair_members: "m \<in> set (set_pair key v ms) \<Longrightarrow> m = (key, v) \<or> m \<in> set ms"
  by (induction ms) (auto split: if_splits)

lemma set_pair_distinct: "distinct (map fst ms) \<Longrightarrow> distinct (map fst (set_pair key v ms))"
proof (induction ms)
  case Nil
  then show ?case by simp
next
  case (Cons m ms)
  have "fst m \<notin> fst ` set (set_pair key v ms)" if "fst m \<noteq> key"
    using Cons.prems that by (simp add: set_pair_keys)
  with Cons show ?case by auto
qed

lemma set_member_ok:
  assumes "json_ok env depth (JObject ms)" "string_ok env key" "json_ok env (depth + 1) v"
  shows "json_ok env depth (set_member key v (JObject ms))"
  using assms set_pair_members [of _ key v ms] set_pair_distinct [of ms key v] by fastforce

subsection \<open>Escapes are read back\<close>

lemma hex_value_char: "i < 16 \<Longrightarrow> hex_value (hex_char i) = Some i"
  by (simp add: numeral_eq_Suc less_Suc_eq) (auto simp: hex_char_def hex_value_def)

lemma nibbles: "push_bit 4 (drop_bit 4 k) OR (k AND 15) = k" for k :: nat
proof -
  have "k AND 15 = take_bit 4 k"
    by (simp add: take_bit_eq_mask mask_eq_exp_minus_1)
  moreover have "push_bit 4 (drop_bit 4 k) OR take_bit 4 k = k"
    by (rule bit_eqI) (auto simp: bit_simps)
  ultimately show ?thesis by simp
qed

lemma nibble_mask: "k AND 15 < (16 :: nat)"
proof -
  have "k AND 15 = take_bit 4 k"
    by (simp add: take_bit_eq_mask mask_eq_exp_minus_1)
  then show ?thesis by (simp add: take_bit_eq_mod)
qed

lemma control_escape:
  assumes "of_char c < (0x20 :: nat)"
  shows "unicode_escape (CHR ''0'' # CHR ''0'' # hex_char (drop_bit 4 (of_char c)) # hex_char (of_char c AND 15) # s) =
    Some (of_char c, s)"
proof -
  define k where "k = (of_char c :: nat)"
  have small: "drop_bit 4 k < 16" "k AND 15 < 16"
    using assms by (simp_all add: k_def drop_bit_eq_div nibble_mask)
  have zero: "hex_value (CHR ''0'') = Some 0"
    by (simp add: hex_value_def)
  have four: "hex_digits 4 = hex_digits (Suc (Suc (Suc (Suc 0))))"
    by (simp add: eval_nat_numeral)
  have "hex_digits 4 0 (CHR ''0'' # CHR ''0'' # hex_char (drop_bit 4 k) # hex_char (k AND 15) # s) = Some (k, s)"
    unfolding four using nibbles [of k] by (simp add: zero hex_value_char [OF small(1)] hex_value_char [OF small(2)])
  then show ?thesis
    using assms by (simp add: unicode_escape_def k_def)
qed

lemma string_body_escape:
  assumes "string_ok env (out @ t)"
  shows "string_body env out (concat (map escape_char t) @ CHR 0x22 # rest) = Some (out @ t, rest)"
  using assms
proof (induction t arbitrary: out)
  case Nil
  then show ?case by (auto simp: string_ok_def)
next
  case (Cons c t)
  have "string_body env out (escape_char c @ s) = string_body env (out @ [c]) s" for s
  proof -
    consider "c \<in> {CHR 0x22, CHR 0x5C, CHR 0x0A, CHR 0x0D, CHR 0x09}"
      | "c \<notin> {CHR 0x22, CHR 0x5C, CHR 0x0A, CHR 0x0D, CHR 0x09}" "of_char c < (0x20 :: nat)"
      | "c \<notin> {CHR 0x22, CHR 0x5C, CHR 0x0A, CHR 0x0D, CHR 0x09}" "\<not> of_char c < (0x20 :: nat)"
      by blast
    then show ?thesis
    proof cases
      case 1
      then show ?thesis by (auto simp: escape_char_def simple_escape_def)
    next
      case 2
      then have "append_utf8 (of_char c) = [c]"
        by (simp add: append_utf8_def)
      with 2 show ?thesis
        by (simp add: escape_char_def simple_escape_def control_escape)
    next
      case 3
      then show ?thesis by (simp add: escape_char_def)
    qed
  qed
  with Cons.IH [of "out @ [c]"] Cons.prems show ?case by simp
qed

lemma json_string_escape: "string_ok env t \<Longrightarrow> json_string env (escape_string t @ rest) = Some (t, rest)"
  using string_body_escape [of env "[]" t rest] by (simp add: json_string_def escape_string_def)

subsection \<open>Values are read back\<close>

lemma skip_spaces: "skip_space (spaces n @ s) = skip_space s"
  unfolding skip_space_def spaces_def by (rule dropWhile_append2) (auto simp: is_space_def)

lemma skip_crlf [simp]: "skip_space (crlf @ s) = skip_space s"
  by (simp add: skip_space_def crlf_def is_space_def)

lemma skip_space_skip [simp]: "skip_space (skip_space s) = skip_space s"
  by (simp add: skip_space_def dropWhile_idem)

lemma skip_none: "\<not> is_space c \<Longrightarrow> skip_space (c # s) = c # s"
  by (simp add: skip_space_def)

definition value_start :: "char \<Rightarrow> bool" where
  "value_start c \<longleftrightarrow> is_digit c \<or> c \<in> {CHR ''-'', CHR ''n'', CHR ''t'', CHR ''f'', CHR 0x22, CHR ''['', CHR ''{''}"

lemma value_start_not: "value_start c \<Longrightarrow> \<not> is_space c \<and> c \<noteq> CHR '']'' \<and> c \<noteq> CHR ''}'' \<and> c \<noteq> CHR 0xEF"
  by (auto simp: value_start_def is_space_def is_digit_def)

lemma write_json_start:
  assumes "json_ok env d v"
  shows "\<exists>c w. write_json ts depth v = c # w \<and> value_start c"
proof (cases v)
  case (JNumber b token)
  then have "scan_number token = Some []"
    using assms by simp
  then obtain p where "token = p" "p \<noteq> []" "hd p = CHR ''-'' \<or> is_digit (hd p)"
    using scan_number_split by fastforce
  with JNumber show ?thesis
    by (cases p) (auto simp: value_start_def)
qed (simp_all add: value_start_def escape_string_def)

lemma json_scalar_write:
  assumes ok: "json_ok env d v" and stop: "number_stop rest" and scalar: "\<not> is_space c" "c \<noteq> CHR ''{''" "c \<noteq> CHR ''[''"
    and start: "write_json ts depth v = c # w"
  shows "json_scalar env (write_json ts depth v @ rest) = Some (v, rest)"
proof (cases v)
  case JNull
  then show ?thesis by (simp add: json_scalar_def literal_def)
next
  case (JBool b)
  then show ?thesis by (cases b) (simp_all add: json_scalar_def literal_def)
next
  case (JString t)
  have "starts_with (CHR 0x22) (escape_string t @ rest)"
    by (simp add: starts_with_def escape_string_def)
  with JString ok json_string_escape [of env t rest] show ?thesis
    by (simp add: json_scalar_def starts_with_def)
next
  case (JNumber b token)
  then have token: "scan_number token = Some []" "b = je_strtod env token" "double_finite b"
    using ok by auto
  then obtain p where p: "token = p" "p \<noteq> []" "hd p = CHR ''-'' \<or> is_digit (hd p)" "scan_number (p @ rest) = Some rest"
    using scan_number_split [OF token(1)] stop by auto
  then obtain x q where x: "token = x # q" "x = CHR ''-'' \<or> is_digit x"
    by (cases token) auto
  then have "x \<noteq> CHR 0x22" "x \<noteq> CHR ''t''" "x \<noteq> CHR ''f''" "x \<noteq> CHR ''n''"
    by (auto simp: is_digit_def)
  then have "json_scalar env (token @ rest) = json_number env (token @ rest)"
    using x(1) by (simp add: json_scalar_def literal_def)
  also have "\<dots> = Some (v, rest)"
    using p(1,4) token(2,3) JNumber by (simp add: json_number_def Let_def)
  finally show ?thesis
    using JNumber p(1,2) by simp
qed (use start scalar in \<open>auto split: if_splits\<close>)

lemma json_value_scalar:
  assumes ok: "json_ok env d v" and stop: "number_stop rest" and scalar: "\<And>xs. v \<noteq> JArray xs" "\<And>ms. v \<noteq> JObject ms"
    and s: "skip_space s = write_json ts depth v @ rest" and n: "2 * length s + 1 \<le> n"
  shows "json_value env n d s = Some (Some (v, rest))"
proof -
  obtain c w where w: "write_json ts depth v = c # w" "value_start c"
    using write_json_start [OF ok] by blast
  have "c \<noteq> CHR ''{'' \<and> c \<noteq> CHR ''[''"
  proof (cases v)
    case (JNumber b token)
    then obtain p where "token = p" "p \<noteq> []" "hd p = CHR ''-'' \<or> is_digit (hd p)"
      using ok scan_number_split [of token "[]"] by auto
    with JNumber w(1) show ?thesis
      by (auto simp: is_digit_def)
  qed (use w(1) scalar in \<open>auto simp: escape_string_def split: if_splits\<close>)
  with w value_start_not [of c] have "json_scalar env (write_json ts depth v @ rest) = Some (v, rest)"
    using json_scalar_write [OF ok stop, of c ts depth w] by simp
  moreover obtain m where "n = Suc m"
    using n by (cases n) simp_all
  ultimately show ?thesis
    using s w(1) \<open>c \<noteq> CHR ''{'' \<and> c \<noteq> CHR ''[''\<close> by simp
qed

lemma json_write_read:
  "json_ok env d v \<Longrightarrow> number_stop rest \<Longrightarrow> skip_space s = write_json ts depth v @ rest \<Longrightarrow> 2 * length s + 1 \<le> n \<Longrightarrow>
     json_value env n d s = Some (Some (v, rest))"
  "xs \<noteq> [] \<Longrightarrow> (\<forall>x \<in> set xs. json_ok env d x) \<Longrightarrow>
     skip_space s = skip_space (write_items ts depth xs @ spaces k @ CHR '']'' # rest) \<Longrightarrow> 2 * length s + 2 \<le> n \<Longrightarrow>
     json_items env n d acc s = Some (Some (JArray (acc @ xs), rest))"
  "ms \<noteq> [] \<Longrightarrow> (\<forall>m \<in> set ms. string_ok env (fst m) \<and> json_ok env d (snd m)) \<Longrightarrow> distinct (map fst (pre @ ms)) \<Longrightarrow>
     skip_space s = skip_space (write_members ts depth ms @ spaces k @ CHR ''}'' # rest) \<Longrightarrow> 2 * length s + 2 \<le> n \<Longrightarrow>
     json_members env n d pre s = Some (Some (JObject (pre @ ms), rest))"
proof (induction ts depth v and ts depth xs and ts depth ms arbitrary: d s n rest and d s n rest acc k and d s n rest pre k
    rule: write_json_write_items_write_members.induct)
  case (1 ts depth)
  then show ?case by (intro json_value_scalar [where ts = ts and depth = depth]) simp_all
next
  case (2 ts depth b)
  then show ?case by (intro json_value_scalar [where ts = ts and depth = depth]) simp_all
next
  case (3 ts depth b token)
  then show ?case by (intro json_value_scalar [where ts = ts and depth = depth]) (simp_all only: json.distinct, simp_all)
next
  case (4 ts depth t)
  then show ?case by (intro json_value_scalar [where ts = ts and depth = depth]) simp_all
next
  case (5 ts depth xs)
  have d: "d + 1 \<le> 32" "\<forall>x \<in> set xs. json_ok env (d + 1) x"
    using 5(2) by simp_all
  obtain m where m: "n = Suc m"
    using 5(5) by (cases n) simp_all
  show ?case
  proof (cases "xs = []")
    case True
    with 5(4) d m show ?thesis by (simp add: skip_none is_space_def starts_with_def)
  next
    case False
    define q where "q = crlf @ write_items ts depth xs @ spaces (2 * depth) @ CHR '']'' # rest"
    have s: "skip_space s = CHR ''['' # q"
      using 5(4) False by (simp add: q_def)
    have q: "skip_space (skip_space q) = skip_space (write_items ts depth xs @ spaces (2 * depth) @ CHR '']'' # rest)"
      by (simp add: q_def)
    have "\<not> starts_with (CHR '']'') (skip_space q)"
    proof -
      obtain x ys where xs: "xs = x # ys"
        using False by (cases xs) simp_all
      obtain c w where "write_json ts (depth + 1) x = c # w" "value_start c"
        using write_json_start d(2) xs by fastforce
      then show ?thesis
        using value_start_not [of c] by (simp add: q_def xs skip_spaces skip_none starts_with_def)
    qed
    moreover have "json_items env m (d + 1) [] (skip_space q) = Some (Some (JArray ([] @ xs), rest))"
      using d(2) False q skip_space_Cons [OF s] skip_space_length [of q] 5(5) m by (intro 5(1)) simp_all
    ultimately show ?thesis
      using d(1) s m by simp
  qed
next
  case (6 ts depth ms)
  have d: "d + 1 \<le> 32" "\<forall>m \<in> set ms. string_ok env (fst m) \<and> json_ok env (d + 1) (snd m)" "distinct (map fst ms)"
    using 6(2) by simp_all
  obtain m where m: "n = Suc m"
    using 6(5) by (cases n) simp_all
  show ?case
  proof (cases "ms = []")
    case True
    with 6(4) d m show ?thesis by (simp add: skip_none is_space_def starts_with_def)
  next
    case False
    define q where "q = crlf @ write_members ts depth ms @ spaces (2 * depth) @ CHR ''}'' # rest"
    have s: "skip_space s = CHR ''{'' # q"
      using 6(4) False by (simp add: q_def)
    have q: "skip_space (skip_space q) = skip_space (write_members ts depth ms @ spaces (2 * depth) @ CHR ''}'' # rest)"
      by (simp add: q_def)
    have "\<not> starts_with (CHR ''}'') (skip_space q)"
    proof -
      obtain key x ys where ms: "ms = (key, x) # ys"
        using False by (cases ms) auto
      show ?thesis
        by (simp add: q_def ms skip_spaces escape_string_def skip_none is_space_def starts_with_def)
    qed
    moreover have "json_members env m (d + 1) [] (skip_space q) = Some (Some (JObject ([] @ ms), rest))"
      using d(2,3) False q skip_space_Cons [OF s] skip_space_length [of q] 6(5) m by (intro 6(1)) simp_all
    ultimately show ?thesis
      using d(1) s m by simp
  qed
next
  case (8 ts depth x xs)
  define tail where "tail = write_items ts depth xs @ spaces k @ CHR '']'' # rest"
  obtain m where m: "n = Suc m"
    using 8(6) by (cases n) simp_all
  have x: "json_ok env d x" "\<forall>y \<in> set xs. json_ok env d y"
    using 8(4) by simp_all
  obtain c w where w: "write_json ts (depth + 1) x = c # w" "value_start c"
    using write_json_start [OF x(1)] by blast
  define sep where "sep = (if xs = [] then crlf else '','' @ crlf)"
  have "skip_space s = write_json ts (depth + 1) x @ sep @ tail"
    using 8(5) w value_start_not [of c] by (simp add: skip_spaces skip_none sep_def tail_def)
  moreover have "number_stop (sep @ tail)"
    by (simp add: sep_def crlf_def number_stop_def is_digit_def)
  moreover have "2 * length s + 1 \<le> m"
    using 8(6) m by simp
  ultimately have read: "json_value env m d s = Some (Some (x, sep @ tail))"
    using x(1) by (intro 8(1))
  show ?case
  proof (cases "xs = []")
    case True
    have "skip_space (sep @ tail) = CHR '']'' # rest"
      using True by (simp add: sep_def tail_def skip_spaces skip_none is_space_def)
    with read True m show ?thesis by simp
  next
    case False
    have comma: "skip_space (sep @ tail) = CHR '','' # crlf @ tail"
      using False by (simp add: sep_def skip_none is_space_def)
    have "json_items env m d (acc @ [x]) (crlf @ tail) = Some (Some (JArray ((acc @ [x]) @ xs), rest))"
      using x(2) False json_value_length [OF read] skip_space_Cons [OF comma] 8(6) m
      by (intro 8(2)) (simp_all add: tail_def)
    with read comma m show ?thesis by simp
  qed
next
  case (10 ts depth key x ms)
  define tail where "tail = write_members ts depth ms @ spaces k @ CHR ''}'' # rest"
  obtain m where m: "n = Suc m"
    using 10(7) by (cases n) simp_all
  have x: "string_ok env key" "json_ok env d x" "\<forall>y \<in> set ms. string_ok env (fst y) \<and> json_ok env d (snd y)"
    using 10(4) by simp_all
  obtain c w where w: "write_json ts (depth + 1) x = c # w" "value_start c"
    using write_json_start [OF x(2)] by blast
  define sep where "sep = (if ms = [] then crlf else '','' @ crlf)"
  define body where "body = CHR 0x20 # write_json ts (depth + 1) x @ sep @ tail"
  have "skip_space s = escape_string key @ CHR '':'' # body"
    using 10(6) by (simp add: skip_spaces escape_string_def skip_none is_space_def sep_def tail_def body_def)
  then have key: "json_string env (skip_space s) = Some (key, CHR '':'' # body)"
    using json_string_escape [OF x(1)] by simp
  have colon: "skip_space (CHR '':'' # body) = CHR '':'' # body"
    by (simp add: skip_none is_space_def)
  have fresh: "\<not> list_ex (\<lambda>y. fst y = key) pre"
    using 10(5) by (auto simp: list_ex_iff)
  have short: "length body + 2 \<le> length s"
    using json_string_length [OF key] skip_space_length [of s] by simp
  have "skip_space body = write_json ts (depth + 1) x @ sep @ tail"
    using w value_start_not [of c] by (simp add: body_def skip_space_def is_space_def)
  moreover have "number_stop (sep @ tail)"
    by (simp add: sep_def crlf_def number_stop_def is_digit_def)
  moreover have "2 * length body + 1 \<le> m"
    using 10(7) m short by simp
  ultimately have read: "json_value env m d body = Some (Some (x, sep @ tail))"
    using x(2) by (intro 10(1))
  show ?case
  proof (cases "ms = []")
    case True
    have "skip_space (sep @ tail) = CHR ''}'' # rest"
      using True by (simp add: sep_def tail_def skip_spaces skip_none is_space_def)
    with key colon fresh read True m show ?thesis by simp
  next
    case False
    have comma: "skip_space (sep @ tail) = CHR '','' # crlf @ tail"
      using False by (simp add: sep_def skip_none is_space_def)
    have "json_members env m d (pre @ [(key, x)]) (crlf @ tail) = Some (Some (JObject ((pre @ [(key, x)]) @ ms), rest))"
      using x(3) False json_value_length [OF read] skip_space_Cons [OF comma] 10(5,7) m short
      by (intro 10(2)) (simp_all add: tail_def)
    with key colon fresh read comma m show ?thesis by simp
  qed
qed simp_all

text \<open>C19: What Setup writes, the reader reads back unchanged: for every well-formed value - strings and
  keys with any bytes that are valid UTF-8, control characters and quotes included, keys without
  repetition, number tokens, nesting up to 32 - parsing the serialized document returns that value.\<close>

theorem json_round_trip:
  assumes "json_ok env 0 v"
  shows "parse_json env (serialize to_string v) = Some (Some v)"
proof -
  obtain c w where w: "write_json to_string 0 v = c # w" "value_start c"
    using write_json_start [OF assms] by blast
  then have bom: "take 3 (serialize to_string v) \<noteq> utf8_bom"
    using value_start_not [of c] by (simp add: serialize_def utf8_bom_def)
  have "skip_space (serialize to_string v) = write_json to_string 0 v @ crlf"
    using w value_start_not [of c] by (simp add: serialize_def skip_none)
  moreover have "number_stop crlf"
    by (simp add: number_stop_def crlf_def is_digit_def)
  ultimately have "json_value env (2 * length (serialize to_string v) + 1) 0 (serialize to_string v) = Some (Some (v, crlf))"
    using assms by (intro json_write_read(1)) simp_all
  moreover have "skip_space crlf = []"
    using skip_crlf [of "[]"] by (simp add: skip_space_def)
  ultimately show ?thesis
    unfolding parse_json_def if_not_P [OF bom] Let_def by simp
qed

lemma json_round_trip_witness:
  "parse_json sample_json_env (serialize (\<lambda>_. []) (JObject [(''path'', JString [CHR 0x43, CHR 0x5C, CHR 0x22, CHR 0x01]), (''n'', JArray [JNumber 0 ''7'', JNull])])) =
     Some (Some (JObject [(''path'', JString [CHR 0x43, CHR 0x5C, CHR 0x22, CHR 0x01]), (''n'', JArray [JNumber 0 ''7'', JNull])]))"
  by (rule json_round_trip) (simp add: sample_json_env_def string_ok_def double_finite_0 scan_number_def drop_minus_def
      scan_integer_def digits_def is_digit_def scan_fraction_def scan_exponent_def)

end
