(* ===== verification/Deferred_Ring.thy ===== *)
theory Deferred_Ring
  imports Prelude
begin

text \<open>
  \<open>DeferredRing\<close> of \<open>src/shared/bounded_lock.hpp\<close>: the lock-free ring in which threads of the simulator
  leave work they could not take a lock for.  Any number of producers push while one consumer at a
  time pops.  A step is one atomic access, and the steps of all threads interleave in any order; the
  accesses are taken as sequentially consistent.

  A ticket is an unbounded number; the code's 64-bit ticket is its remainder, so a ring that passed
  \<open>2 ^ 64\<close> pushes is not modelled, while the difference of a stale ticket and the head, which wraps, is.
\<close>

subsection \<open>State\<close>

text \<open>
  Where a thread stands in \<open>push\<close> and \<open>pop\<close>.  The last two fields of the ring are history: the values
  in the order their slots were claimed, and the values handed to the consumer.
\<close>

datatype 'v producer =
  Outside
| Loaded 'v nat
| Refusing
| Checked 'v nat
| Claimed 'v nat
| Stored 'v nat

datatype 'v consumer =
  Resting
| Head_Read nat
| Tail_Read nat
| Ready_Read nat
| Value_Read nat 'v
| Cleared nat 'v

record 'v ring =
  rg_head :: nat
  rg_tail :: nat
  rg_overflow :: bool
  rg_ready :: "nat \<Rightarrow> nat"
  rg_value :: "nat \<Rightarrow> 'v"
  rg_producers :: "nat \<Rightarrow> 'v producer"
  rg_consumer :: "'v consumer"
  rg_claimed :: "'v list"
  rg_delivered :: "'v list"

definition new_ring :: "'v \<Rightarrow> 'v ring" where
  "new_ring v = \<lparr>rg_head = 0, rg_tail = 0, rg_overflow = False, rg_ready = (\<lambda>_. 0), rg_value = (\<lambda>_. v),
     rg_producers = (\<lambda>_. Outside), rg_consumer = Resting, rg_claimed = [], rg_delivered = []\<rparr>"

definition ring_empty :: "'v ring \<Rightarrow> bool" where
  "ring_empty s \<longleftrightarrow> rg_head s = rg_tail s"

definition ring_idle :: "'v ring \<Rightarrow> bool" where
  "ring_idle s \<longleftrightarrow> \<not> rg_overflow s \<and> ring_empty s"

text \<open>\<open>ticket - head_\<close> on 64-bit words.\<close>

definition ticket_distance :: "nat \<Rightarrow> nat \<Rightarrow> nat" where
  "ticket_distance t h = nat ((int t - int h) mod 2 ^ 64)"

definition put_producer :: "nat \<Rightarrow> 'v producer \<Rightarrow> 'v ring \<Rightarrow> 'v ring" where
  "put_producer p pc s = s\<lparr>rg_producers := (rg_producers s)(p := pc)\<rparr>"

subsection \<open>Steps\<close>

inductive ring_step :: "nat \<Rightarrow> 'v ring \<Rightarrow> 'v ring \<Rightarrow> bool" for cap where
  push_load: "rg_producers s p = Outside \<Longrightarrow> ring_step cap s (put_producer p (Loaded v (rg_tail s)) s)"
| push_full: "rg_producers s p = Loaded v t \<Longrightarrow> cap \<le> ticket_distance t (rg_head s) \<Longrightarrow>
    ring_step cap s (put_producer p Refusing s)"
| push_refuse: "rg_producers s p = Refusing \<Longrightarrow>
    ring_step cap s (put_producer p Outside (s\<lparr>rg_overflow := True\<rparr>))"
| push_room: "rg_producers s p = Loaded v t \<Longrightarrow> \<not> cap \<le> ticket_distance t (rg_head s) \<Longrightarrow>
    ring_step cap s (put_producer p (Checked v t) s)"
| push_claim: "rg_producers s p = Checked v t \<Longrightarrow> rg_tail s = t \<Longrightarrow>
    ring_step cap s (put_producer p (Claimed v t) (s\<lparr>rg_tail := t + 1, rg_claimed := rg_claimed s @ [v]\<rparr>))"
| push_retry: "rg_producers s p = Checked v t \<Longrightarrow> ring_step cap s (put_producer p (Loaded v (rg_tail s)) s)"
| push_store: "rg_producers s p = Claimed v t \<Longrightarrow>
    ring_step cap s (put_producer p (Stored v t) (s\<lparr>rg_value := (rg_value s)(t mod cap := v)\<rparr>))"
| push_publish: "rg_producers s p = Stored v t \<Longrightarrow>
    ring_step cap s (put_producer p Outside (s\<lparr>rg_ready := (rg_ready s)(t mod cap := t + 1)\<rparr>))"
| pop_head: "rg_consumer s = Resting \<Longrightarrow> ring_step cap s (s\<lparr>rg_consumer := Head_Read (rg_head s)\<rparr>)"
| pop_empty: "rg_consumer s = Head_Read t \<Longrightarrow> t = rg_tail s \<Longrightarrow> ring_step cap s (s\<lparr>rg_consumer := Resting\<rparr>)"
| pop_some: "rg_consumer s = Head_Read t \<Longrightarrow> t \<noteq> rg_tail s \<Longrightarrow> ring_step cap s (s\<lparr>rg_consumer := Tail_Read t\<rparr>)"
| pop_pending: "rg_consumer s = Tail_Read t \<Longrightarrow> rg_ready s (t mod cap) \<noteq> t + 1 \<Longrightarrow>
    ring_step cap s (s\<lparr>rg_consumer := Resting\<rparr>)"
| pop_ready: "rg_consumer s = Tail_Read t \<Longrightarrow> rg_ready s (t mod cap) = t + 1 \<Longrightarrow>
    ring_step cap s (s\<lparr>rg_consumer := Ready_Read t\<rparr>)"
| pop_value: "rg_consumer s = Ready_Read t \<Longrightarrow>
    ring_step cap s (s\<lparr>rg_consumer := Value_Read t (rg_value s (t mod cap))\<rparr>)"
| commit_clear: "rg_consumer s = Value_Read t v \<Longrightarrow>
    ring_step cap s (s\<lparr>rg_consumer := Cleared (rg_head s) v, rg_ready := (rg_ready s)(rg_head s mod cap := 0)\<rparr>)"
| commit_head: "rg_consumer s = Cleared t v \<Longrightarrow>
    ring_step cap s (s\<lparr>rg_consumer := Resting, rg_head := t + 1, rg_delivered := rg_delivered s @ [v]\<rparr>)"
| take_overflow: "rg_overflow s \<Longrightarrow> ring_step cap s (s\<lparr>rg_overflow := False\<rparr>)"

inductive_simps ring_step_iff: "ring_step cap s s'"

definition ring_reachable :: "nat \<Rightarrow> 'v \<Rightarrow> 'v ring \<Rightarrow> bool" where
  "ring_reachable cap v s \<longleftrightarrow> (ring_step cap)\<^sup>*\<^sup>* (new_ring v) s"

subsection \<open>Invariant\<close>

definition owns :: "'v producer \<Rightarrow> nat \<Rightarrow> bool" where
  "owns pc t \<longleftrightarrow> (\<exists>v. pc = Claimed v t \<or> pc = Stored v t)"

definition counters_ok :: "nat \<Rightarrow> nat \<Rightarrow> nat \<Rightarrow> 'v list \<Rightarrow> 'v list \<Rightarrow> bool" where
  "counters_ok cap head tail claimed delivered \<longleftrightarrow>
     head \<le> tail \<and> tail \<le> head + cap \<and> length claimed = tail \<and> delivered = take head claimed"

fun producer_ok :: "nat \<Rightarrow> nat \<Rightarrow> nat \<Rightarrow> 'v list \<Rightarrow> (nat \<Rightarrow> nat) \<Rightarrow> (nat \<Rightarrow> 'v) \<Rightarrow> 'v producer \<Rightarrow> bool" where
  "producer_ok cap head tail claimed ready val (Loaded v t) = (t \<le> tail)"
| "producer_ok cap head tail claimed ready val (Checked v t) = (t < head + cap)"
| "producer_ok cap head tail claimed ready val (Claimed v t) =
     (head \<le> t \<and> t < tail \<and> claimed ! t = v \<and> ready (t mod cap) = 0)"
| "producer_ok cap head tail claimed ready val (Stored v t) =
     (head \<le> t \<and> t < tail \<and> claimed ! t = v \<and> ready (t mod cap) = 0 \<and> val (t mod cap) = v)"
| "producer_ok cap head tail claimed ready val pc = True"

definition producers_ok :: "nat \<Rightarrow> 'v ring \<Rightarrow> bool" where
  "producers_ok cap s \<longleftrightarrow>
     (\<forall>p. producer_ok cap (rg_head s) (rg_tail s) (rg_claimed s) (rg_ready s) (rg_value s) (rg_producers s p)) \<and>
     (\<forall>p q t. owns (rg_producers s p) t \<longrightarrow> owns (rg_producers s q) t \<longrightarrow> p = q)"

definition published :: "nat \<Rightarrow> 'v ring \<Rightarrow> nat \<Rightarrow> bool" where
  "published cap s t \<longleftrightarrow> rg_ready s (t mod cap) = t + 1 \<and> rg_value s (t mod cap) = rg_claimed s ! t"

definition clearing :: "'v ring \<Rightarrow> nat \<Rightarrow> bool" where
  "clearing s t \<longleftrightarrow> (\<exists>v. rg_consumer s = Cleared t v)"

definition slots_ok :: "nat \<Rightarrow> 'v ring \<Rightarrow> bool" where
  "slots_ok cap s \<longleftrightarrow>
     (\<forall>t. rg_head s \<le> t \<and> t < rg_tail s \<longrightarrow>
        published cap s t \<or> (\<exists>p. owns (rg_producers s p) t) \<or> clearing s t) \<and>
     (\<forall>t. rg_tail s \<le> t \<and> t < rg_head s + cap \<longrightarrow> rg_ready s (t mod cap) = 0)"

fun consumer_ok :: "nat \<Rightarrow> 'v ring \<Rightarrow> 'v consumer \<Rightarrow> bool" where
  "consumer_ok cap s Resting = True"
| "consumer_ok cap s (Head_Read t) = (t = rg_head s)"
| "consumer_ok cap s (Tail_Read t) = (t = rg_head s \<and> t < rg_tail s)"
| "consumer_ok cap s (Ready_Read t) = (t = rg_head s \<and> t < rg_tail s \<and> published cap s t)"
| "consumer_ok cap s (Value_Read t v) = (t = rg_head s \<and> t < rg_tail s \<and> published cap s t \<and> v = rg_claimed s ! t)"
| "consumer_ok cap s (Cleared t v) =
     (t = rg_head s \<and> t < rg_tail s \<and> rg_ready s (t mod cap) = 0 \<and> v = rg_claimed s ! t \<and>
      (\<forall>p. \<not> owns (rg_producers s p) t))"

definition ring_inv :: "nat \<Rightarrow> 'v ring \<Rightarrow> bool" where
  "ring_inv cap s \<longleftrightarrow> counters_ok cap (rg_head s) (rg_tail s) (rg_claimed s) (rg_delivered s) \<and>
     producers_ok cap s \<and> slots_ok cap s \<and> consumer_ok cap s (rg_consumer s)"

lemma new_ring_inv: "ring_inv cap (new_ring v)"
  by (auto simp: ring_inv_def new_ring_def counters_ok_def producers_ok_def slots_ok_def owns_def)

text \<open>Within one window of tickets, each slot belongs to one ticket.\<close>

lemma slot_unique:
  assumes "h \<le> t" "t < h + cap" "h \<le> u" "u < h + cap" "t mod cap = u mod cap"
  shows "t = (u :: nat)"
proof (rule ccontr)
  assume "t \<noteq> u"
  then consider "t < u" | "u < t" by linarith
  then show False
  proof cases
    case 1
    then have "cap dvd u - t"
      using assms(5) by (metis less_imp_le mod_eq_dvd_iff_nat)
    with 1 assms show False
      by (auto dest!: dvd_imp_le)
  next
    case 2
    then have "cap dvd t - u"
      using assms(5) by (metis less_imp_le mod_eq_dvd_iff_nat)
    with 2 assms show False
      by (auto dest!: dvd_imp_le)
  qed
qed

lemma owned_ticket:
  assumes "producers_ok cap s" "owns (rg_producers s p) t"
  shows "rg_head s \<le> t" "t < rg_tail s" "rg_ready s (t mod cap) = 0"
proof -
  have "producer_ok cap (rg_head s) (rg_tail s) (rg_claimed s) (rg_ready s) (rg_value s) (rg_producers s p)"
    using assms(1) by (simp add: producers_ok_def)
  with assms(2) show "rg_head s \<le> t" "t < rg_tail s" "rg_ready s (t mod cap) = 0"
    by (auto simp: owns_def)
qed

text \<open>What the parts of the invariant say of one thread and one ticket.\<close>

lemma ring_invD:
  assumes "ring_inv cap s"
  shows "rg_head s \<le> rg_tail s" "rg_tail s \<le> rg_head s + cap" "length (rg_claimed s) = rg_tail s"
    "rg_delivered s = take (rg_head s) (rg_claimed s)"
    "producer_ok cap (rg_head s) (rg_tail s) (rg_claimed s) (rg_ready s) (rg_value s) (rg_producers s p)"
    "consumer_ok cap s (rg_consumer s)"
    "rg_head s \<le> t \<Longrightarrow> t < rg_tail s \<Longrightarrow> published cap s t \<or> (\<exists>p. owns (rg_producers s p) t) \<or> clearing s t"
    "rg_tail s \<le> t \<Longrightarrow> t < rg_head s + cap \<Longrightarrow> rg_ready s (t mod cap) = 0"
    "owns (rg_producers s p) t \<Longrightarrow> owns (rg_producers s q) t \<Longrightarrow> p = q"
  using assms by (auto simp: ring_inv_def counters_ok_def producers_ok_def slots_ok_def)

lemma ring_owned:
  assumes "ring_inv cap s" "owns (rg_producers s p) t"
  shows "rg_head s \<le> t" "t < rg_tail s" "rg_ready s (t mod cap) = 0"
  using assms owned_ticket [of cap s p t] by (simp_all add: ring_inv_def)

lemma ring_invI:
  assumes "counters_ok cap (rg_head s) (rg_tail s) (rg_claimed s) (rg_delivered s)"
    and "\<And>p. producer_ok cap (rg_head s) (rg_tail s) (rg_claimed s) (rg_ready s) (rg_value s) (rg_producers s p)"
    and "\<And>p q t. owns (rg_producers s p) t \<Longrightarrow> owns (rg_producers s q) t \<Longrightarrow> p = q"
    and "\<And>t. rg_head s \<le> t \<Longrightarrow> t < rg_tail s \<Longrightarrow> published cap s t \<or> (\<exists>p. owns (rg_producers s p) t) \<or> clearing s t"
    and "\<And>t. rg_tail s \<le> t \<Longrightarrow> t < rg_head s + cap \<Longrightarrow> rg_ready s (t mod cap) = 0"
    and "consumer_ok cap s (rg_consumer s)"
  shows "ring_inv cap s"
  unfolding ring_inv_def producers_ok_def slots_ok_def using assms by blast

lemma ring_window: "ring_inv cap s \<Longrightarrow> rg_head s \<le> t \<Longrightarrow> t < rg_tail s \<Longrightarrow> rg_head s \<le> u \<Longrightarrow> u < rg_head s + cap \<Longrightarrow>
    t mod cap = u mod cap \<Longrightarrow> t = u"
  using ring_invD(2) [of cap s] by (intro slot_unique [of "rg_head s" t cap u]) simp_all

lemma clearing_head: "ring_inv cap s \<Longrightarrow> clearing s t \<Longrightarrow> t = rg_head s"
  using ring_invD(6) [of cap s] by (auto simp: clearing_def)

text \<open>A step that only moves a producer between places where it owns nothing.\<close>

lemma move_producer:
  assumes inv: "ring_inv cap s" and old: "\<And>t. \<not> owns (rg_producers s p) t" and new: "\<And>t. \<not> owns pc t"
    and ok: "producer_ok cap (rg_head s) (rg_tail s) (rg_claimed s) (rg_ready s) (rg_value s) pc"
  shows "ring_inv cap (put_producer p pc s)"
proof -
  have own: "owns (rg_producers (put_producer p pc s) q) t = owns (rg_producers s q) t" for q t
    using old new by (simp add: put_producer_def)
  have same: "rg_head (put_producer p pc s) = rg_head s" "rg_tail (put_producer p pc s) = rg_tail s"
    "rg_claimed (put_producer p pc s) = rg_claimed s" "rg_delivered (put_producer p pc s) = rg_delivered s"
    "rg_ready (put_producer p pc s) = rg_ready s" "rg_value (put_producer p pc s) = rg_value s"
    "rg_consumer (put_producer p pc s) = rg_consumer s"
    by (simp_all add: put_producer_def)
  have "producer_ok cap (rg_head s) (rg_tail s) (rg_claimed s) (rg_ready s) (rg_value s) (rg_producers (put_producer p pc s) q)" for q
    using ok ring_invD(5) [OF inv, of q] by (simp add: put_producer_def)
  moreover have "consumer_ok cap (put_producer p pc s) (rg_consumer s)"
    using ring_invD(6) [OF inv] by (cases "rg_consumer s") (simp_all add: same own published_def)
  ultimately show ?thesis
    using inv unfolding ring_inv_def producers_ok_def slots_ok_def published_def clearing_def
    by (simp add: same own)
qed

text \<open>A step that only moves the consumer to a place where it is not clearing.\<close>

lemma move_consumer:
  assumes inv: "ring_inv cap s" and old: "\<And>t. \<not> clearing s t" and ok: "consumer_ok cap s c"
    and new: "\<And>t v. c \<noteq> Cleared t v"
  shows "ring_inv cap (s\<lparr>rg_consumer := c\<rparr>)"
proof -
  have "consumer_ok cap (s\<lparr>rg_consumer := c\<rparr>) c"
    using ok by (cases c) (simp_all add: published_def)
  then show ?thesis
    using inv old new unfolding ring_inv_def producers_ok_def slots_ok_def published_def clearing_def by simp
qed

lemma owns_simps [simp]:
  "owns (Claimed v t) u = (t = u)" "owns (Stored v t) u = (t = u)"
  "\<not> owns Outside u" "\<not> owns (Loaded v t) u" "\<not> owns Refusing u" "\<not> owns (Checked v t) u"
  by (auto simp: owns_def)

lemma push_claim_inv:
  assumes inv: "ring_inv cap s" and pc: "rg_producers s p = Checked v (rg_tail s)"
    and s': "s' = put_producer p (Claimed v (rg_tail s)) (s\<lparr>rg_tail := rg_tail s + 1, rg_claimed := rg_claimed s @ [v]\<rparr>)"
  shows "ring_inv cap s'"
proof -
  note i = ring_invD [OF inv]
  have room: "rg_tail s < rg_head s + cap"
    using i(5) [of p] pc by simp
  have owned: "t < rg_tail s" if "owns (rg_producers s q) t" for q t
    using ring_owned(2) [OF inv that] .
  have own: "owns (rg_producers s' q) t = (owns (rg_producers s q) t \<or> q = p \<and> t = rg_tail s)" for q t
    using pc by (auto simp: put_producer_def s')
  have prods: "rg_producers s' q = (if q = p then Claimed v (rg_tail s) else rg_producers s q)" for q
    by (simp add: s' put_producer_def)
  have fields: "rg_head s' = rg_head s" "rg_tail s' = rg_tail s + 1" "rg_claimed s' = rg_claimed s @ [v]"
    "rg_delivered s' = rg_delivered s" "rg_ready s' = rg_ready s" "rg_value s' = rg_value s" "rg_consumer s' = rg_consumer s"
    by (simp_all add: put_producer_def s')
  have nth: "(rg_claimed s @ [v]) ! t = rg_claimed s ! t" if "t < rg_tail s" for t
    using that i(3) by (simp add: nth_append)
  have last: "(rg_claimed s @ [v]) ! rg_tail s = v"
    using i(3) by (metis nth_append_length)
  have pub: "published cap s' t = published cap s t" if "t < rg_tail s" for t
    by (simp add: published_def fields nth [OF that])
  show ?thesis
  proof (rule ring_invI)
    show "counters_ok cap (rg_head s') (rg_tail s') (rg_claimed s') (rg_delivered s')"
      using i(1-4) room by (simp add: counters_ok_def fields)
  next
    fix q
    show "producer_ok cap (rg_head s') (rg_tail s') (rg_claimed s') (rg_ready s') (rg_value s') (rg_producers s' q)"
    proof (cases "q = p")
      case True
      then show ?thesis
        using i(1,3) i(8) [of "rg_tail s"] room last by (simp add: fields prods)
    next
      case False
      then show ?thesis
        using i(5) [of q] nth by (cases "rg_producers s q") (simp_all add: fields prods)
    qed
  next
    fix q r t
    assume "owns (rg_producers s' q) t" "owns (rg_producers s' r) t"
    then show "q = r"
      using owned i(9) unfolding own by blast
  next
    fix t
    assume "rg_head s' \<le> t" "t < rg_tail s'"
    then show "published cap s' t \<or> (\<exists>q. owns (rg_producers s' q) t) \<or> clearing s' t"
      using i(7) [of t] pub [of t] unfolding own clearing_def fields by (cases "t = rg_tail s") auto
  next
    fix t
    assume "rg_tail s' \<le> t" "t < rg_head s' + cap"
    then show "rg_ready s' (t mod cap) = 0"
      using i(8) by (simp add: fields)
  next
    show "consumer_ok cap s' (rg_consumer s')"
      using i(6) pub nth by (cases "rg_consumer s") (auto simp: own fields)
  qed
qed


lemma push_store_inv:
  assumes inv: "ring_inv cap s" and pc: "rg_producers s p = Claimed v t"
    and s': "s' = put_producer p (Stored v t) (s\<lparr>rg_value := (rg_value s)(t mod cap := v)\<rparr>)"
  shows "ring_inv cap s'"
proof -
  note i = ring_invD [OF inv]
  have mine: "rg_head s \<le> t" "t < rg_tail s" "rg_claimed s ! t = v" "rg_ready s (t mod cap) = 0"
    using i(5) [of p] pc by simp_all
  have prods: "rg_producers s' q = (if q = p then Stored v t else rg_producers s q)" for q
    by (simp add: s' put_producer_def)
  have own: "owns (rg_producers s' q) u = owns (rg_producers s q) u" for q u
    using pc by (simp add: prods)
  have fields: "rg_head s' = rg_head s" "rg_tail s' = rg_tail s" "rg_claimed s' = rg_claimed s"
    "rg_delivered s' = rg_delivered s" "rg_ready s' = rg_ready s" "rg_value s' = (rg_value s)(t mod cap := v)"
    "rg_consumer s' = rg_consumer s"
    by (simp_all add: put_producer_def s')
  have pub: "published cap s' u = published cap s u" for u
    using mine(4) by (auto simp: published_def fields)
  have other: "u mod cap \<noteq> t mod cap" if "owns (rg_producers s q) u" "q \<noteq> p" for q u
  proof
    assume "u mod cap = t mod cap"
    moreover have "rg_head s \<le> u" "u < rg_tail s"
      using ring_owned(1,2) [OF inv that(1)] by simp_all
    ultimately have "u = t"
      using mine ring_window [OF inv] i(2) by (meson order_less_le_trans)
    then show False
      using that i(9) [of q u p] pc by simp
  qed
  show ?thesis
  proof (rule ring_invI)
    show "counters_ok cap (rg_head s') (rg_tail s') (rg_claimed s') (rg_delivered s')"
      using i(1-4) by (simp add: counters_ok_def fields)
  next
    fix q
    show "producer_ok cap (rg_head s') (rg_tail s') (rg_claimed s') (rg_ready s') (rg_value s') (rg_producers s' q)"
    proof (cases "q = p")
      case True
      then show ?thesis
        using mine by (simp add: fields prods)
    next
      case False
      then show ?thesis
        using i(5) [of q] other [of q] by (cases "rg_producers s q") (simp_all add: fields prods)
    qed
  next
    fix q r u
    assume "owns (rg_producers s' q) u" "owns (rg_producers s' r) u"
    then show "q = r"
      using i(9) unfolding own by blast
  next
    fix u
    assume "rg_head s' \<le> u" "u < rg_tail s'"
    then show "published cap s' u \<or> (\<exists>q. owns (rg_producers s' q) u) \<or> clearing s' u"
      using i(7) [of u] pub [of u] unfolding own clearing_def fields by auto
  next
    fix u
    assume "rg_tail s' \<le> u" "u < rg_head s' + cap"
    then show "rg_ready s' (u mod cap) = 0"
      using i(8) by (simp add: fields)
  next
    show "consumer_ok cap s' (rg_consumer s')"
      using i(6) pub by (cases "rg_consumer s") (auto simp: own fields)
  qed
qed

lemma push_publish_inv:
  assumes inv: "ring_inv cap s" and pc: "rg_producers s p = Stored v t"
    and s': "s' = put_producer p Outside (s\<lparr>rg_ready := (rg_ready s)(t mod cap := t + 1)\<rparr>)"
  shows "ring_inv cap s'"
proof -
  note i = ring_invD [OF inv]
  have mine: "rg_head s \<le> t" "t < rg_tail s" "rg_claimed s ! t = v" "rg_ready s (t mod cap) = 0" "rg_value s (t mod cap) = v"
    using i(5) [of p] pc by simp_all
  have prods: "rg_producers s' q = (if q = p then Outside else rg_producers s q)" for q
    by (simp add: s' put_producer_def)
  have own: "owns (rg_producers s' q) u = (owns (rg_producers s q) u \<and> q \<noteq> p)" for q u
    by (simp add: prods)
  have fields: "rg_head s' = rg_head s" "rg_tail s' = rg_tail s" "rg_claimed s' = rg_claimed s"
    "rg_delivered s' = rg_delivered s" "rg_ready s' = (rg_ready s)(t mod cap := t + 1)" "rg_value s' = rg_value s"
    "rg_consumer s' = rg_consumer s"
    by (simp_all add: put_producer_def s')
  have slot: "u mod cap \<noteq> t mod cap" if "rg_head s \<le> u" "u < rg_head s + cap" "u \<noteq> t" for u
    using that mine ring_window [OF inv, of t u] by metis
  have inside: "u < rg_head s + cap" if "u < rg_tail s" for u
    using that i(2) by simp
  have pub: "published cap s' u" if "published cap s u" for u
    using that mine(4) by (auto simp: published_def fields)
  have new: "published cap s' t"
    using mine by (simp add: published_def fields)
  have other: "u mod cap \<noteq> t mod cap" if "owns (rg_producers s q) u" "q \<noteq> p" for q u
  proof (rule slot)
    show "rg_head s \<le> u" "u < rg_head s + cap"
      using ring_owned(1,2) [OF inv that(1)] inside by simp_all
    show "u \<noteq> t"
      using that i(9) [of q u p] pc by auto
  qed
  show ?thesis
  proof (rule ring_invI)
    show "counters_ok cap (rg_head s') (rg_tail s') (rg_claimed s') (rg_delivered s')"
      using i(1-4) by (simp add: counters_ok_def fields)
  next
    fix q
    show "producer_ok cap (rg_head s') (rg_tail s') (rg_claimed s') (rg_ready s') (rg_value s') (rg_producers s' q)"
      using i(5) [of q] other [of q] by (cases "q = p"; cases "rg_producers s q") (simp_all add: fields prods)
  next
    fix q r u
    assume "owns (rg_producers s' q) u" "owns (rg_producers s' r) u"
    then show "q = r"
      using i(9) unfolding own by blast
  next
    fix u
    assume "rg_head s' \<le> u" "u < rg_tail s'"
    then have "published cap s u \<or> (\<exists>q. owns (rg_producers s q) u) \<or> clearing s u"
      using i(7) [of u] by (simp add: fields)
    moreover have "owns (rg_producers s p) u \<Longrightarrow> u = t"
      using pc by simp
    moreover have "clearing s u = clearing s' u"
      by (simp add: clearing_def fields)
    ultimately show "published cap s' u \<or> (\<exists>q. owns (rg_producers s' q) u) \<or> clearing s' u"
      using pub new own by metis
  next
    fix u
    assume u: "rg_tail s' \<le> u" "u < rg_head s' + cap"
    then have "u mod cap \<noteq> t mod cap"
      using mine i(1) by (intro slot) (simp_all add: fields)
    then show "rg_ready s' (u mod cap) = 0"
      using i(8) u by (simp add: fields)
  next
    have "u \<noteq> t" if "rg_consumer s = Cleared u w" for u w
      using i(6) that pc by (metis consumer_ok.simps(6) owns_simps(2))
    then have "u mod cap \<noteq> t mod cap" if "rg_consumer s = Cleared u w" for u w
      using i(6) that inside [of u] by (intro slot) auto
    then show "consumer_ok cap s' (rg_consumer s')"
      using i(6) pub by (cases "rg_consumer s") (simp_all add: own fields)
  qed
qed


lemma commit_clear_inv:
  assumes inv: "ring_inv cap s" and pc: "rg_consumer s = Value_Read t v"
    and s': "s' = s\<lparr>rg_consumer := Cleared (rg_head s) v, rg_ready := (rg_ready s)(rg_head s mod cap := 0)\<rparr>"
  shows "ring_inv cap s'"
proof -
  note i = ring_invD [OF inv]
  have mine: "t = rg_head s" "t < rg_tail s" "rg_ready s (t mod cap) = t + 1" "v = rg_claimed s ! t"
    using i(6) pc by (auto simp: published_def)
  have fields: "rg_head s' = rg_head s" "rg_tail s' = rg_tail s" "rg_claimed s' = rg_claimed s"
    "rg_delivered s' = rg_delivered s" "rg_ready s' = (rg_ready s)(rg_head s mod cap := 0)" "rg_value s' = rg_value s"
    "rg_consumer s' = Cleared (rg_head s) v" "rg_producers s' = rg_producers s"
    by (simp_all add: s')
  have unowned: "\<not> owns (rg_producers s q) (rg_head s)" for q
    using ring_owned(3) [OF inv, of q t] mine by auto
  have slot: "u mod cap \<noteq> t mod cap" if "rg_head s < u" "u < rg_tail s" for u
    using that mine i(2) ring_window [OF inv, of t u] by fastforce
  have pub: "published cap s' u = published cap s u" if "rg_head s < u" "u < rg_tail s" for u
    using slot [OF that] mine by (simp add: published_def fields)
  show ?thesis
  proof (rule ring_invI)
    show "counters_ok cap (rg_head s') (rg_tail s') (rg_claimed s') (rg_delivered s')"
      using i(1-4) by (simp add: counters_ok_def fields)
  next
    fix q
    show "producer_ok cap (rg_head s') (rg_tail s') (rg_claimed s') (rg_ready s') (rg_value s') (rg_producers s' q)"
      using i(5) [of q] by (cases "rg_producers s q") (simp_all add: fields)
  next
    fix q r u
    assume "owns (rg_producers s' q) u" "owns (rg_producers s' r) u"
    then show "q = r"
      using i(9) unfolding fields by blast
  next
    fix u
    assume u: "rg_head s' \<le> u" "u < rg_tail s'"
    show "published cap s' u \<or> (\<exists>q. owns (rg_producers s' q) u) \<or> clearing s' u"
    proof (cases "u = rg_head s")
      case True
      then show ?thesis
        by (simp add: clearing_def fields)
    next
      case False
      with u have "rg_head s < u" "u < rg_tail s"
        by (simp_all add: fields)
      then show ?thesis
        using i(7) [of u] pub [of u] pc by (simp add: fields clearing_def)
    qed
  next
    fix u
    assume "rg_tail s' \<le> u" "u < rg_head s' + cap"
    then show "rg_ready s' (u mod cap) = 0"
      using i(8) by (simp add: fields)
  next
    show "consumer_ok cap s' (rg_consumer s')"
      using mine unowned by (simp add: fields)
  qed
qed

lemma commit_head_inv:
  assumes inv: "ring_inv cap s" and pc: "rg_consumer s = Cleared t v"
    and s': "s' = s\<lparr>rg_consumer := Resting, rg_head := t + 1, rg_delivered := rg_delivered s @ [v]\<rparr>"
  shows "ring_inv cap s'"
proof -
  note i = ring_invD [OF inv]
  have mine: "t = rg_head s" "t < rg_tail s" "rg_ready s (t mod cap) = 0" "v = rg_claimed s ! t"
    and unowned: "\<not> owns (rg_producers s q) t" for q
    using i(6) pc by auto
  have fields: "rg_head s' = rg_head s + 1" "rg_tail s' = rg_tail s" "rg_claimed s' = rg_claimed s"
    "rg_delivered s' = rg_delivered s @ [v]" "rg_ready s' = rg_ready s" "rg_value s' = rg_value s"
    "rg_consumer s' = Resting" "rg_producers s' = rg_producers s"
    using mine(1) by (simp_all add: s')
  have clear: "\<not> clearing s u" if "rg_head s < u" for u
    using clearing_head [OF inv, of u] that by auto
  have pub: "published cap s' u = published cap s u" for u
    by (simp add: published_def fields)
  show ?thesis
  proof (rule ring_invI)
    have "take (rg_head s + 1) (rg_claimed s) = take (rg_head s) (rg_claimed s) @ [v]"
      using mine i(3) by (simp add: take_Suc_conv_app_nth)
    then show "counters_ok cap (rg_head s') (rg_tail s') (rg_claimed s') (rg_delivered s')"
      using i(1-4) mine by (simp add: counters_ok_def fields)
  next
    fix q
    have "owns (rg_producers s q) u \<Longrightarrow> rg_head s + 1 \<le> u" for u
      using ring_owned(1) [OF inv, of q u] unowned [of q] mine(1) by (cases "u = t") auto
    then show "producer_ok cap (rg_head s') (rg_tail s') (rg_claimed s') (rg_ready s') (rg_value s') (rg_producers s' q)"
      using i(5) [of q] by (cases "rg_producers s q") (simp_all add: fields)
  next
    fix q r u
    assume "owns (rg_producers s' q) u" "owns (rg_producers s' r) u"
    then show "q = r"
      using i(9) unfolding fields by blast
  next
    fix u
    assume "rg_head s' \<le> u" "u < rg_tail s'"
    then show "published cap s' u \<or> (\<exists>q. owns (rg_producers s' q) u) \<or> clearing s' u"
      using i(7) [of u] clear [of u] unfolding pub fields(1,2,8) by auto
  next
    fix u
    assume u: "rg_tail s' \<le> u" "u < rg_head s' + cap"
    then consider "u < rg_head s + cap" | "u = rg_head s + cap"
      unfolding fields by linarith
    then show "rg_ready s' (u mod cap) = 0"
      using i(8) [of u] u mine by cases (simp_all add: fields)
  next
    show "consumer_ok cap s' (rg_consumer s')"
      by (simp add: fields)
  qed
qed

lemma ring_inv_overflow: "ring_inv cap (s\<lparr>rg_overflow := b\<rparr>) = ring_inv cap s"
proof -
  have "consumer_ok cap (s\<lparr>rg_overflow := b\<rparr>) c = consumer_ok cap s c" for c
    by (cases c) (simp_all add: published_def)
  then show ?thesis
    by (simp add: ring_inv_def producers_ok_def slots_ok_def published_def clearing_def)
qed

text \<open>
  A ticket the producer found room for lies below the head plus the capacity: one that fell behind the
  head does so wherever the head is, and for any other the difference does not wrap.
\<close>

lemma distance_room:
  assumes "h \<le> t" "t - h < 2 ^ 64"
  shows "ticket_distance t h = t - h"
proof -
  have "int (t - h) < 2 ^ 64"
    using assms(2) by (metis of_nat_less_iff of_nat_numeral of_nat_power)
  then have "int (t - h) mod 2 ^ 64 = int (t - h)"
    by (intro mod_pos_pos_trivial) simp_all
  moreover have "int t - int h = int (t - h)"
    using assms(1) by simp
  ultimately show ?thesis
    unfolding ticket_distance_def by (metis nat_int)
qed

lemma room_bound:
  assumes "t \<le> h + cap" "cap < 2 ^ 64" "\<not> cap \<le> ticket_distance t h"
  shows "t < h + cap"
proof (cases "t < h")
  case False
  then have "h \<le> t" "t - h < 2 ^ 64"
    using assms(1,2) by simp_all
  then show ?thesis
    using assms(3) distance_room by fastforce
qed simp

lemma stale_distance:
  assumes "t < h" "h + cap \<le> t + 2 ^ 64"
  shows "cap \<le> ticket_distance t h"
proof -
  have "int (h + cap) \<le> int (t + 2 ^ 64)"
    using assms(2) by (simp only: of_nat_le_iff)
  then have room: "int h + int cap \<le> int t + 2 ^ 64"
    by simp
  have "(int t - int h) mod 2 ^ 64 = (int t - int h + 2 ^ 64) mod 2 ^ 64"
    by (rule mod_add_self2 [symmetric])
  also have "\<dots> = int t - int h + 2 ^ 64"
    using assms(1) room by (intro mod_pos_pos_trivial) simp_all
  finally have "ticket_distance t h = nat (int t - int h + 2 ^ 64)"
    unfolding ticket_distance_def by (rule arg_cong)
  then show ?thesis
    using room by simp
qed

subsection \<open>Every interleaving\<close>

lemma ring_inv_step:
  assumes step: "ring_step cap s s'" and inv: "ring_inv cap s" and cap: "cap < 2 ^ 64"
  shows "ring_inv cap s'"
  using step
proof cases
  case (push_load p v)
  then show ?thesis
    using inv by (auto intro: move_producer)
next
  case (push_full p v t)
  then show ?thesis
    using inv by (auto intro: move_producer)
next
  case (push_refuse p)
  have "ring_inv cap (s\<lparr>rg_overflow := True\<rparr>)"
    using inv by (simp add: ring_inv_overflow)
  then show ?thesis
    using push_refuse by (auto intro: move_producer)
next
  case (push_room p v t)
  then have "t \<le> rg_tail s"
    using ring_invD(5) [OF inv, of p] by simp
  then have "t < rg_head s + cap"
    using ring_invD(2) [OF inv] push_room(3) cap by (intro room_bound) simp_all
  then show ?thesis
    using inv push_room by (auto intro: move_producer)
next
  case (push_claim p v t)
  then show ?thesis
    using push_claim_inv [OF inv, of p v s'] by simp
next
  case (push_retry p v t)
  then show ?thesis
    using inv by (auto intro: move_producer)
next
  case (push_store p v t)
  then show ?thesis
    using push_store_inv [OF inv, of p v t s'] by simp
next
  case (push_publish p v t)
  then show ?thesis
    using push_publish_inv [OF inv, of p v t s'] by simp
next
  case pop_head
  then show ?thesis
    using inv by (auto intro!: move_consumer simp: clearing_def)
next
  case (pop_empty t)
  then show ?thesis
    using inv by (auto intro!: move_consumer simp: clearing_def)
next
  case (pop_some t)
  then show ?thesis
    using inv ring_invD(1,6) [OF inv] by (auto intro!: move_consumer simp: clearing_def)
next
  case (pop_pending t)
  then show ?thesis
    using inv by (auto intro!: move_consumer simp: clearing_def)
next
  case (pop_ready t)
  then have t: "t = rg_head s" "t < rg_tail s"
    using ring_invD(6) [OF inv] by auto
  have "published cap s t"
    using ring_invD(7) [OF inv, of t] t pop_ready ring_owned(3) [OF inv] by (fastforce simp: clearing_def)
  then show ?thesis
    using inv pop_ready t by (auto intro!: move_consumer simp: clearing_def)
next
  case (pop_value t)
  then show ?thesis
    using inv ring_invD(6) [OF inv] by (auto intro!: move_consumer simp: clearing_def published_def)
next
  case (commit_clear t v)
  then show ?thesis
    using commit_clear_inv [OF inv] by blast
next
  case (commit_head t v)
  then show ?thesis
    using commit_head_inv [OF inv] by blast
next
  case take_overflow
  then show ?thesis
    using inv by (simp add: ring_inv_overflow)
qed

lemma ring_reachable_inv:
  assumes "ring_reachable cap v s" "cap < 2 ^ 64"
  shows "ring_inv cap s"
  using assms(1) unfolding ring_reachable_def
  by (induction rule: rtranclp_induct) (auto intro: new_ring_inv ring_inv_step [OF _ _ assms(2)])


subsection \<open>What the consumer is handed\<close>

text \<open>C20: Whatever the interleaving of the producers and the consumer, the ring hands out the values in the
  order their slots were claimed, each once: those delivered are the first ones claimed, at most the
  capacity is between the two counters, an empty ring has delivered every claimed value, and a value
  the consumer has read before it commits is the next one, never a slot some producer is still writing.\<close>

theorem ring_fifo:
  assumes "ring_reachable cap v s" "cap < 2 ^ 64"
  shows "rg_head s \<le> rg_tail s \<and> rg_tail s \<le> rg_head s + cap \<and>
     rg_delivered s = take (rg_head s) (rg_claimed s) \<and>
     (ring_empty s \<longrightarrow> rg_delivered s = rg_claimed s) \<and>
     (\<forall>t x. rg_consumer s = Value_Read t x \<longrightarrow> t < rg_tail s \<and> x = rg_claimed s ! length (rg_delivered s))"
proof -
  note i = ring_invD [OF ring_reachable_inv [OF assms]]
  have "rg_delivered s = rg_claimed s" if "ring_empty s"
    using that i(3,4) by (simp add: ring_empty_def)
  moreover have "t < rg_tail s \<and> x = rg_claimed s ! length (rg_delivered s)" if "rg_consumer s = Value_Read t x" for t x
    using that i(1,3,4,6) by auto
  ultimately show ?thesis
    using i(1,2,4) by blast
qed

text \<open>
  A run of labelled accesses, each at most one of the steps: what the examples below are computed with.
\<close>

datatype 'v access = Push nat 'v | Advance nat | Pop

fun advance_producer :: "nat \<Rightarrow> nat \<Rightarrow> 'v producer \<Rightarrow> 'v ring \<Rightarrow> 'v ring" where
  "advance_producer cap p (Loaded v t) s =
     (if cap \<le> ticket_distance t (rg_head s) then put_producer p Refusing s else put_producer p (Checked v t) s)"
| "advance_producer cap p Refusing s = put_producer p Outside (s\<lparr>rg_overflow := True\<rparr>)"
| "advance_producer cap p (Checked v t) s =
     (if rg_tail s = t then put_producer p (Claimed v t) (s\<lparr>rg_tail := t + 1, rg_claimed := rg_claimed s @ [v]\<rparr>)
      else put_producer p (Loaded v (rg_tail s)) s)"
| "advance_producer cap p (Claimed v t) s = put_producer p (Stored v t) (s\<lparr>rg_value := (rg_value s)(t mod cap := v)\<rparr>)"
| "advance_producer cap p (Stored v t) s = put_producer p Outside (s\<lparr>rg_ready := (rg_ready s)(t mod cap := t + 1)\<rparr>)"
| "advance_producer cap p Outside s = s"

fun advance_consumer :: "nat \<Rightarrow> 'v consumer \<Rightarrow> 'v ring \<Rightarrow> 'v ring" where
  "advance_consumer cap Resting s = s\<lparr>rg_consumer := Head_Read (rg_head s)\<rparr>"
| "advance_consumer cap (Head_Read t) s = s\<lparr>rg_consumer := if t = rg_tail s then Resting else Tail_Read t\<rparr>"
| "advance_consumer cap (Tail_Read t) s =
     s\<lparr>rg_consumer := if rg_ready s (t mod cap) = t + 1 then Ready_Read t else Resting\<rparr>"
| "advance_consumer cap (Ready_Read t) s = s\<lparr>rg_consumer := Value_Read t (rg_value s (t mod cap))\<rparr>"
| "advance_consumer cap (Value_Read t v) s =
     s\<lparr>rg_consumer := Cleared (rg_head s) v, rg_ready := (rg_ready s)(rg_head s mod cap := 0)\<rparr>"
| "advance_consumer cap (Cleared t v) s = s\<lparr>rg_consumer := Resting, rg_head := t + 1, rg_delivered := rg_delivered s @ [v]\<rparr>"

fun access_step :: "nat \<Rightarrow> 'v access \<Rightarrow> 'v ring \<Rightarrow> 'v ring" where
  "access_step cap (Push p v) s =
     (case rg_producers s p of Outside \<Rightarrow> put_producer p (Loaded v (rg_tail s)) s | _ \<Rightarrow> s)"
| "access_step cap (Advance p) s = advance_producer cap p (rg_producers s p) s"
| "access_step cap Pop s = advance_consumer cap (rg_consumer s) s"

lemma advance_producer_step:
  "rg_producers s p = pc \<Longrightarrow> (ring_step cap)\<^sup>*\<^sup>* s (advance_producer cap p pc s)"
  by (cases pc) (auto intro: r_into_rtranclp ring_step.intros [simplified])

lemma advance_consumer_step:
  "rg_consumer s = pc \<Longrightarrow> (ring_step cap)\<^sup>*\<^sup>* s (advance_consumer cap pc s)"
  by (cases pc) (auto intro: r_into_rtranclp ring_step.intros [simplified])

lemma access_step_step: "(ring_step cap)\<^sup>*\<^sup>* s (access_step cap a s)"
  by (cases a) (auto intro: advance_producer_step advance_consumer_step r_into_rtranclp ring_step.push_load split: producer.splits)

lemma accesses_reachable:
  assumes "ring_reachable cap v s"
  shows "ring_reachable cap v (fold (access_step cap) as s)"
  using assms
proof (induction as arbitrary: s)
  case (Cons a as)
  then have "ring_reachable cap v (access_step cap a s)"
    unfolding ring_reachable_def using access_step_step [of cap s a] by (meson rtranclp_trans)
  then show ?case
    using Cons.IH by simp
qed simp

lemma run_reachable: "ring_reachable cap v (fold (access_step cap) as (new_ring v))"
  by (rule accesses_reachable) (simp add: ring_reachable_def)

definition whole_push :: "nat \<Rightarrow> 'v \<Rightarrow> 'v access list" where
  "whole_push p v = [Push p v, Advance p, Advance p, Advance p, Advance p]"

definition two_then_read :: "nat ring" where
  "two_then_read = fold (access_step 4) (whole_push 0 7 @ whole_push 1 8 @ [Pop, Pop, Pop, Pop]) (new_ring 0)"

lemma two_then_read_eq:
  "rg_consumer two_then_read = Value_Read 0 7" "rg_claimed two_then_read = [7, 8]"
proof -
  have "ticket_distance 0 0 = 0" "ticket_distance 1 0 = 1"
    by (simp_all add: ticket_distance_def)
  then show "rg_consumer two_then_read = Value_Read 0 7" "rg_claimed two_then_read = [7, 8]"
    by (simp_all add: two_then_read_def whole_push_def new_ring_def put_producer_def)
qed

lemma ring_fifo_witness:
  "rg_consumer two_then_read = Value_Read 0 7 \<and> rg_claimed two_then_read = [7, 8] \<and>
   (7 :: nat) = rg_claimed two_then_read ! length (rg_delivered two_then_read)"
proof -
  have reach: "ring_reachable 4 0 two_then_read"
    unfolding two_then_read_def by (rule run_reachable)
  have cap: "(4 :: nat) < 2 ^ 64"
    by simp
  have "(7 :: nat) = rg_claimed two_then_read ! length (rg_delivered two_then_read)"
    using ring_fifo [OF reach cap] two_then_read_eq(1) by blast
  then show ?thesis
    using two_then_read_eq by blast
qed

text \<open>
  The comparison with the capacity is made on the difference of two counters read at different times.
  A producer that loads the tail, and sees the head after others moved both past its ticket, computes
  a difference that wraps: it reports an overflow of a ring that may be empty.
\<close>

definition overtaken :: "nat ring" where
  "overtaken = fold (access_step 4) (Push 1 8 # whole_push 0 7 @ [Pop, Pop, Pop, Pop, Pop, Pop, Advance 1]) (new_ring 0)"

theorem refused_with_room: "ring_reachable 4 0 overtaken \<and> ring_empty overtaken \<and> rg_producers overtaken 1 = Refusing"
proof -
  have far: "ticket_distance 0 0 = 0" "4 \<le> ticket_distance 0 (Suc 0)"
    using stale_distance [of 0 1 4] by (simp_all add: ticket_distance_def)
  have "ring_reachable 4 0 overtaken"
    unfolding overtaken_def by (rule run_reachable)
  moreover have "rg_head overtaken = 1 \<and> rg_tail overtaken = 1 \<and> rg_producers overtaken 1 = Refusing"
    by (simp add: overtaken_def whole_push_def new_ring_def put_producer_def far)
  ultimately show ?thesis
    by (simp add: ring_empty_def)
qed

end
