(* ===== verification/Owned_Walk.thy ===== *)
theory Owned_Walk
  imports Owned_View View_Pool
begin

text \<open>
  \<open>src/camera/owned_view.cpp\<close>: the walk from an owned entry through the view pool, the two node
  handles, the camera and the output material to the resource of a camera view.  A walk is a value: the
  reads it makes in order, each with what follows from the bytes it returns.  \<open>run_walk\<close> executes it
  over the memory of \<open>View_Pool\<close>, which may change between any two reads, as \<open>BoundedReader\<close> does; the
  inspection publishes what the walk ended with only when a second reading of the whole trace found
  the same bytes.
\<close>

subsection \<open>Refusals\<close>

datatype refusal =
  Null_Span | Null_Field | No_Room | Too_Much | Bad_Payload | Trace_Changed | Not_Read
| Close_Request | Close_Pool | Close_Id | Close_Pending | Close_Ready_Byte | Close_Mode | Close_Index
| Close_View | Close_Node_Missing | Close_Node
| Owned_Request | Owned_Pool | Owned_Id | Owned_Ready_Byte | Owned_Index | Owned_Pool_Changed
| Owned_Node_Missing | Owned_Node | Owned_Camera | Owned_Fov | Owned_Material | Owned_Resource

fun refusal_status :: "refusal \<Rightarrow> owned_view_status" where
  "refusal_status Null_Span = OvInvalidPointer"
| "refusal_status Null_Field = OvInvalidPointer"
| "refusal_status No_Room = OvReadBudgetExhausted"
| "refusal_status Too_Much = OvReadBudgetExhausted"
| "refusal_status Bad_Payload = OvInvalidPointer"
| "refusal_status Trace_Changed = OvChanged"
| "refusal_status Not_Read = OvReadFailed"
| "refusal_status Close_Request = OvInvalidRequest"
| "refusal_status Close_Pool = OvInvalidPool"
| "refusal_status Close_Id = OvIdMismatch"
| "refusal_status Close_Pending = OvPending"
| "refusal_status Close_Ready_Byte = OvInvalidReadyByte"
| "refusal_status Close_Mode = OvInvalidRequest"
| "refusal_status Close_Index = OvInvalidViewIndex"
| "refusal_status Close_View = OvPoolChanged"
| "refusal_status Close_Node_Missing = OvNodeUnavailable"
| "refusal_status Close_Node = OvNodeMismatch"
| "refusal_status Owned_Request = OvInvalidRequest"
| "refusal_status Owned_Pool = OvInvalidPool"
| "refusal_status Owned_Id = OvIdMismatch"
| "refusal_status Owned_Ready_Byte = OvInvalidReadyByte"
| "refusal_status Owned_Index = OvInvalidViewIndex"
| "refusal_status Owned_Pool_Changed = OvPoolChanged"
| "refusal_status Owned_Node_Missing = OvNodeUnavailable"
| "refusal_status Owned_Node = OvNodeMismatch"
| "refusal_status Owned_Camera = OvWrongCameraType"
| "refusal_status Owned_Fov = OvInvalidFov"
| "refusal_status Owned_Material = OvMaterialMismatch"
| "refusal_status Owned_Resource = OvInvalidPointer"

fun refusal_text :: "refusal \<Rightarrow> string" where
  "refusal_text Null_Span = ''A required object span has a null, misaligned or overflowing pointer.''"
| "refusal_text Null_Field = ''A required field has a null, misaligned or overflowing pointer.''"
| "refusal_text No_Room = ''The bounded observation count was exhausted.''"
| "refusal_text Too_Much = ''The bounded attempted-read allowance was exhausted.''"
| "refusal_text Bad_Payload = ''A generation-valid handle contains a malformed payload pointer.''"
| "refusal_text Trace_Changed = ''An observed field changed during the complete trace recheck.''"
| "refusal_text Not_Read = ''A required field could not be read exactly.''"
| "refusal_text Close_Request = ''Gate closure requires a nonzero owned ID and aligned entry.''"
| "refusal_text Close_Pool = ''Gate closure requires the complete current pool proof.''"
| "refusal_text Close_Id = ''The entry key or payload ID changed before closure.''"
| "refusal_text Close_Pending = ''Gate closure requires a ready owned entry.''"
| "refusal_text Close_Ready_Byte = ''Gate closure requires a ready owned entry.''"
| "refusal_text Close_Mode = ''Gate closure requires an independent-pose mode2 entry.''"
| "refusal_text Close_Index = ''The entry index is outside the captured eight-view pool.''"
| "refusal_text Close_View = ''The selected view changed since the complete pool inspection.''"
| "refusal_text Close_Node_Missing = ''The owned entry/view association is unavailable.''"
| "refusal_text Close_Node = ''The entry and view Node identities differ.''"
| "refusal_text Owned_Request = ''Owned-entry inspection requires a nonzero ID and aligned entry address.''"
| "refusal_text Owned_Pool = ''The supplied pool is not a complete, bounded snapshot of eight distinct views.''"
| "refusal_text Owned_Id = ''The entry key or payload ID differs from the expected owned ID.''"
| "refusal_text Owned_Ready_Byte = ''The entry ready byte is neither zero nor one.''"
| "refusal_text Owned_Index = ''The ready entry does not identify one of the eight pool views.''"
| "refusal_text Owned_Pool_Changed = ''The selected pool pointer no longer matches the supplied snapshot.''"
| "refusal_text Owned_Node_Missing = ''A ready entry has an unavailable entry or view Node reference.''"
| "refusal_text Owned_Node = ''The entry and view Node references resolve to different objects.''"
| "refusal_text Owned_Camera = ''The Node payload does not have the captured Camera type value seven.''"
| "refusal_text Owned_Fov = ''The Camera FOV is not finite and positive.''"
| "refusal_text Owned_Material = ''The entry and view do not resolve to the same output material.''"
| "refusal_text Owned_Resource = ''The optional resource member is malformed.''"

subsection \<open>The bounded reader\<close>

text \<open>
  \<open>Span_At a b e al w\<close> reads the bytes of the object at \<open>a\<close> from \<open>b\<close> up to \<open>e\<close>, once, and
  \<open>Field_At a off n al k\<close> observes the \<open>n\<close> bytes at \<open>off\<close>, from a span that covers them when there is
  one; \<open>al\<close> asks for an aligned object.
\<close>

datatype 'a walk =
  Finish 'a
| Refuse refusal
| Span_At u64 nat nat bool "'a walk"
| Field_At u64 nat nat bool "u8 list \<Rightarrow> 'a walk"

record wfield =
  wf_address :: u64
  wf_size :: nat
  wf_span :: "nat option"
  wf_bytes :: "u8 list"

record wspan =
  ws_address :: u64
  ws_size :: nat
  ws_bytes :: "u8 list"

record reader =
  wr_clock :: nat
  wr_bytes :: nat
  wr_failures :: nat
  wr_fields :: "wfield list"
  wr_spans :: "wspan list"
  wr_order :: "read_item list"

definition new_reader :: reader where
  "new_reader = \<lparr>wr_clock = 0, wr_bytes = 0, wr_failures = 0, wr_fields = [], wr_spans = [], wr_order = []\<rparr>"

definition walk_budget :: nat where "walk_budget = 8192"
definition walk_span_bytes :: nat where "walk_span_bytes = 144"
definition walk_spans :: nat where "walk_spans = 16"
definition walk_fields :: nat where "walk_fields = 64"

definition in_range :: "bool \<Rightarrow> u64 \<Rightarrow> nat \<Rightarrow> nat \<Rightarrow> bool" where
  "in_range al address offset n \<longleftrightarrow> byte_range address (of_nat offset) n \<and> (al \<longrightarrow> address mod 8 = 0)"

definition span_serves :: "wspan \<Rightarrow> u64 \<Rightarrow> nat \<Rightarrow> bool" where
  "span_serves v at n \<longleftrightarrow> at \<ge> ws_address v \<and> n \<le> ws_size v \<and> unat (at - ws_address v) \<le> ws_size v - n"

definition read_bytes :: "memory_env \<Rightarrow> u64 \<Rightarrow> nat \<Rightarrow> reader \<Rightarrow> (refusal + u8 list) \<times> reader" where
  "read_bytes env address n r =
     (if n = 0 \<or> n > walk_budget - wr_bytes r then (Inl Too_Much, r)
      else
        (let t = wr_clock r;
             r1 = r\<lparr>wr_clock := t + 1, wr_bytes := wr_bytes r + n\<rparr>
         in if env_ok env t address n then (Inr (block (env_mem env t) address n), r1)
            else (Inl Not_Read, r1\<lparr>wr_failures := wr_failures r1 + 1\<rparr>)))"

definition take_span :: "memory_env \<Rightarrow> u64 \<Rightarrow> nat \<Rightarrow> nat \<Rightarrow> bool \<Rightarrow> reader \<Rightarrow> (refusal + unit) \<times> reader" where
  "take_span env address b e al r =
     (if e \<le> b \<or> e - b > walk_span_bytes \<or> \<not> in_range al address b (e - b) then (Inl Null_Span, r)
      else if list_ex (\<lambda>v. span_serves v (address + of_nat b) (e - b)) (wr_spans r) then (Inr (), r)
      else if length (wr_spans r) = walk_spans \<or> length (wr_order r) = walk_fields + walk_spans
        then (Inl No_Room, r)
      else case read_bytes env (address + of_nat b) (e - b) r of
        (Inl x, r1) \<Rightarrow> (Inl x, r1)
      | (Inr bytes, r1) \<Rightarrow>
          (Inr (), r1\<lparr>wr_spans := wr_spans r1 @ [\<lparr>ws_address = address + of_nat b, ws_size = e - b, ws_bytes = bytes\<rparr>],
             wr_order := wr_order r1 @ [Span_Read (length (wr_spans r1))]\<rparr>))"

definition note_field :: "u64 \<Rightarrow> nat \<Rightarrow> nat option \<Rightarrow> u8 list \<Rightarrow> reader \<Rightarrow> reader" where
  "note_field at n served bytes r =
     r\<lparr>wr_fields := wr_fields r @ [\<lparr>wf_address = at, wf_size = n, wf_span = served, wf_bytes = bytes\<rparr>]\<rparr>"

definition take_field :: "memory_env \<Rightarrow> u64 \<Rightarrow> nat \<Rightarrow> nat \<Rightarrow> bool \<Rightarrow> reader \<Rightarrow> (refusal + u8 list) \<times> reader" where
  "take_field env address offset n al r =
     (if \<not> in_range al address offset n then (Inl Null_Field, r)
      else if length (wr_fields r) = walk_fields \<or> length (wr_order r) = walk_fields + walk_spans then (Inl No_Room, r)
      else if n = 0 \<or> n > 16 then (Inl Too_Much, r)
      else
        (let at = address + of_nat offset in
         case first_index (\<lambda>v. span_serves v at n) (wr_spans r) of
           Some i \<Rightarrow>
             (let v = wr_spans r ! i; bytes = take n (drop (unat (at - ws_address v)) (ws_bytes v))
              in (Inr bytes, note_field at n (Some i) bytes r))
         | None \<Rightarrow>
             (case read_bytes env at n r of
                (Inl x, r1) \<Rightarrow> (Inl x, r1)
              | (Inr bytes, r1) \<Rightarrow>
                  (Inr bytes, note_field at n None bytes
                     (r1\<lparr>wr_order := wr_order r1 @ [Field_Read (length (wr_fields r1))]\<rparr>)))))"

primrec run_walk :: "memory_env \<Rightarrow> 'a walk \<Rightarrow> reader \<Rightarrow> (refusal + 'a) \<times> reader" where
  "run_walk env (Finish v) r = (Inr v, r)"
| "run_walk env (Refuse x) r = (Inl x, r)"
| "run_walk env (Span_At a b e al w) r =
     (case take_span env a b e al r of (Inl x, r1) \<Rightarrow> (Inl x, r1) | (Inr _, r1) \<Rightarrow> run_walk env w r1)"
| "run_walk env (Field_At a off n al k) r =
     (case take_field env a off n al r of (Inl x, r1) \<Rightarrow> (Inl x, r1) | (Inr bytes, r1) \<Rightarrow> run_walk env (k bytes) r1)"

text \<open>The second reading, in the order of the first.\<close>

definition served_same :: "nat \<Rightarrow> wspan \<Rightarrow> u8 list \<Rightarrow> wfield \<Rightarrow> bool" where
  "served_same i v fresh f \<longleftrightarrow> wf_span f = Some i \<longrightarrow>
     take (wf_size f) (drop (unat (wf_address f - ws_address v)) fresh) = take (wf_size f) (wf_bytes f)"

fun again_item :: "memory_env \<Rightarrow> read_item \<Rightarrow> reader \<Rightarrow> (refusal + unit) \<times> reader" where
  "again_item env (Span_Read i) r =
     (let v = wr_spans r ! i in
      case read_bytes env (ws_address v) (ws_size v) r of
        (Inl x, r1) \<Rightarrow> (Inl x, r1)
      | (Inr fresh, r1) \<Rightarrow>
          (if list_all (served_same i v fresh) (wr_fields r1) then Inr () else Inl Trace_Changed, r1))"
| "again_item env (Field_Read i) r =
     (let f = wr_fields r ! i in
      case read_bytes env (wf_address f) (wf_size f) r of
        (Inl x, r1) \<Rightarrow> (Inl x, r1)
      | (Inr fresh, r1) \<Rightarrow>
          (if take (wf_size f) fresh = take (wf_size f) (wf_bytes f) then Inr () else Inl Trace_Changed, r1))"

fun again :: "memory_env \<Rightarrow> read_item list \<Rightarrow> reader \<Rightarrow> (refusal + unit) \<times> reader" where
  "again env [] r = (Inr (), r)"
| "again env (x # xs) r =
     (case again_item env x r of (Inl e, r1) \<Rightarrow> (Inl e, r1) | (Inr _, r1) \<Rightarrow> again env xs r1)"

definition traced_walk :: "memory_env \<Rightarrow> 'a walk \<Rightarrow> (refusal + 'a) \<times> reader" where
  "traced_walk env w =
     (case run_walk env w new_reader of
        (Inl x, r) \<Rightarrow> (Inl x, r)
      | (Inr v, r) \<Rightarrow> (case again env (wr_order r) r of (Inl x, r1) \<Rightarrow> (Inl x, r1) | (Inr _, r1) \<Rightarrow> (Inr v, r1)))"


subsection \<open>The steps of the chain\<close>

definition word_at :: "u64 \<Rightarrow> nat \<Rightarrow> bool \<Rightarrow> (u64 \<Rightarrow> 'a walk) \<Rightarrow> 'a walk" where
  "word_at a off al k = Field_At a off 8 al (\<lambda>b. k (le64 b))"

text \<open>
  A handle: a control record and a generation.  A null control, a control of another generation and a
  null payload all answer zero; the control record alone may be byte aligned.
\<close>

definition handle_at :: "u64 \<Rightarrow> nat \<Rightarrow> (u64 \<Rightarrow> 'a walk) \<Rightarrow> 'a walk" where
  "handle_at a off k = Field_At a off 16 True (\<lambda>b.
     let control = le64 b; generation = le32 (drop 8 b)
     in if control = 0 then k 0
        else Span_At control 0 32 False (Field_At control 28 4 False (\<lambda>g.
          if le32 g \<noteq> generation then k 0
          else word_at control 0 False (\<lambda>v.
            if v \<noteq> 0 \<and> \<not> pointer_range v 0 8 then Refuse Bad_Payload else k v))))"

definition record_at :: "u64 \<Rightarrow> (bool \<Rightarrow> 'a walk) \<Rightarrow> 'a walk" where
  "record_at texture k = Span_At texture 0x40 0x50 True (word_at texture 0x48 True (\<lambda>table.
     if table \<noteq> 0 then
       word_at table 8 True (\<lambda>entries.
         if entries = 0 then k False else word_at entries 0 True (\<lambda>entry. k (entry \<noteq> 0)))
     else word_at texture 0x40 True (\<lambda>direct. k (direct \<noteq> 0))))"

definition slot_at :: "u64 \<Rightarrow> nat \<Rightarrow> (output_slot \<Rightarrow> 'a walk) \<Rightarrow> 'a walk" where
  "slot_at material off k = handle_at material off (\<lambda>bitmap.
     if bitmap = 0 then k no_output_slot
     else word_at bitmap 88 True (\<lambda>texture.
       if texture = 0 then k (no_output_slot\<lparr>os_bitmap := True\<rparr>)
       else record_at texture (\<lambda>present.
         k \<lparr>os_bitmap = True, os_texture = True, os_render_target_record = present\<rparr>)))"

definition extra_slots_at :: "bool \<Rightarrow> u64 \<Rightarrow> (output_slot \<Rightarrow> output_slot \<Rightarrow> 'a walk) \<Rightarrow> 'a walk" where
  "extra_slots_at diagnostic material k =
     (if diagnostic
        then Span_At material 664 728 True (slot_at material 664 (\<lambda>s1. slot_at material 712 (\<lambda>s2. k s1 s2)))
        else k no_output_slot no_output_slot)"

definition resource_at :: "u64 \<Rightarrow> u64 \<Rightarrow> (u64 \<Rightarrow> dimension \<Rightarrow> 'a walk) \<Rightarrow> 'a walk" where
  "resource_at bitmap record k = word_at record 16 True (\<lambda>wrapper.
     if wrapper = 0 then k 0 (0, 0)
     else word_at wrapper 168 True (\<lambda>resource.
       if resource \<noteq> 0 \<and> \<not> pointer_range resource 0 8 then Refuse Owned_Resource
       else if resource \<noteq> 0 then Field_At bitmap 40 8 True (\<lambda>b. k resource (le32 b, le32 (drop 4 b)))
       else k 0 (0, 0)))"

definition output_at ::
  "u64 \<Rightarrow> u64 \<Rightarrow> bool \<Rightarrow> (u64 \<Rightarrow> dimension \<Rightarrow> output_slot list \<Rightarrow> 'a walk) \<Rightarrow> 'a walk" where
  "output_at entry view diagnostic k = handle_at entry 80 (\<lambda>entry_material. handle_at view 144 (\<lambda>view_material.
     if entry_material \<noteq> view_material then Refuse Owned_Material
     else if entry_material = 0 then k 0 (0, 0) (replicate 3 no_output_slot)
     else handle_at entry_material 520 (\<lambda>bitmap.
       if bitmap = 0 then k 0 (0, 0) (replicate 3 no_output_slot)
       else word_at bitmap 88 True (\<lambda>record.
         if record = 0 then k 0 (0, 0) [no_output_slot\<lparr>os_bitmap := True\<rparr>, no_output_slot, no_output_slot]
         else Span_At record 16 0x50 True (record_at record (\<lambda>present.
           extra_slots_at diagnostic entry_material (\<lambda>s1 s2. resource_at bitmap record (\<lambda>resource dims.
             k resource dims
               [\<lparr>os_bitmap = True, os_texture = True, os_render_target_record = present\<rparr>, s1, s2]))))))))"

definition pair_at :: "u64 \<Rightarrow> nat \<Rightarrow> (dimension \<Rightarrow> 'a walk) \<Rightarrow> 'a walk" where
  "pair_at view off k = Field_At view off 8 True (\<lambda>b. k (le32 b, le32 (drop 4 b)))"

definition fields_at :: "u64 \<Rightarrow> (dimension list \<Rightarrow> u64 list \<Rightarrow> 'a walk) \<Rightarrow> 'a walk" where
  "fields_at view k = pair_at view 16 (\<lambda>d0. pair_at view 24 (\<lambda>d1. pair_at view 32 (\<lambda>d2.
     Field_At view 48 16 True (\<lambda>b. k [d0, d1, d2] [le64 b, le64 (drop 8 b)]))))"

subsection \<open>The pool the walk starts from\<close>

definition valid_pool :: "pool_snapshot \<Rightarrow> bool" where
  "valid_pool p \<longleftrightarrow> ps_valid p \<and> ps_status p = Complete \<and> ps_examined p = 8 \<and> ps_read_failures p = 0 \<and>
     pointer_range (ps_array p) 0 64 \<and>
     list_all (\<lambda>i. vs_index (ps_slots p ! i) = i \<and> pointer_range (vs_address (ps_slots p ! i)) 0 8 \<and>
       list_all (\<lambda>j. vs_address (ps_slots p ! i) \<noteq> vs_address (ps_slots p ! j)) [0..<i]) [0..<length (ps_slots p)]"

subsection \<open>Closing a gate\<close>

record close_snapshot =
  cl_complete :: bool
  cl_status :: owned_view_status
  cl_error :: string
  cl_read_bytes :: u32
  cl_read_failures :: u32
  cl_view_index :: int
  cl_view_address :: u64
  cl_dimensions :: "dimension list"
  cl_flags :: "u64 list"

definition no_close :: close_snapshot where
  "no_close = \<lparr>cl_complete = False, cl_status = OvNotInspected, cl_error = '''', cl_read_bytes = 0,
     cl_read_failures = 0, cl_view_index = -1, cl_view_address = 0, cl_dimensions = replicate 3 (0, 0),
     cl_flags = [0, 0]\<rparr>"

definition view_index :: "u8 list \<Rightarrow> int" where
  "view_index b = sint (le32 b)"

definition close_walk :: "u64 \<Rightarrow> entry_id \<Rightarrow> pool_snapshot \<Rightarrow> close_snapshot walk" where
  "close_walk entry eid pool =
     Span_At entry 0 24 True (word_at entry 0 True (\<lambda>key. word_at entry 16 True (\<lambda>payload.
     if key \<noteq> eid \<or> payload \<noteq> eid then Refuse Close_Id
     else Field_At entry 8 1 True (\<lambda>ready.
     if ready ! 0 \<noteq> 1 then Refuse (if ready ! 0 = 0 then Close_Pending else Close_Ready_Byte)
     else Span_At entry 24 112 True (Field_At entry 24 4 True (\<lambda>mode.
     if le32 mode \<noteq> 2 then Refuse Close_Mode
     else Field_At entry 76 4 True (\<lambda>b.
     let index = view_index b in
     if index < 0 \<or> index \<ge> 8 then Refuse Close_Index
     else word_at (ps_array pool) (nat index * 8) True (\<lambda>view.
     if view \<noteq> vs_address (ps_slots pool ! nat index) then Refuse Close_View
     else Span_At view 16 120 True (handle_at entry 96 (\<lambda>node. handle_at view 104 (\<lambda>view_node.
     if node = 0 \<or> view_node = 0 then Refuse Close_Node_Missing
     else if node \<noteq> view_node then Refuse Close_Node
     else fields_at view (\<lambda>dims flags.
       Finish (no_close\<lparr>cl_complete := True, cl_status := OvReady, cl_view_index := index,
         cl_view_address := view, cl_dimensions := dims, cl_flags := flags\<rparr>)))))))))))))"

definition close_counts :: "reader \<Rightarrow> close_snapshot \<Rightarrow> close_snapshot" where
  "close_counts r v = v\<lparr>cl_read_bytes := of_nat (wr_bytes r), cl_read_failures := of_nat (wr_failures r)\<rparr>"

definition close_refused :: "refusal \<Rightarrow> close_snapshot" where
  "close_refused x = no_close\<lparr>cl_status := refusal_status x, cl_error := refusal_text x\<rparr>"

definition inspect_owned_view_for_close ::
  "memory_env \<Rightarrow> u64 \<Rightarrow> entry_id \<Rightarrow> pool_snapshot \<Rightarrow> close_snapshot" where
  "inspect_owned_view_for_close env entry eid pool =
     (if eid = 0 \<or> \<not> pointer_range entry 0 8 then close_refused Close_Request
      else if \<not> valid_pool pool then close_refused Close_Pool
      else case traced_walk env (close_walk entry eid pool) of
        (Inl x, r) \<Rightarrow> close_counts r (close_refused x)
      | (Inr v, r) \<Rightarrow> close_counts r v)"

subsection \<open>The whole inspection\<close>

definition ready_view ::
  "int \<Rightarrow> u32 \<Rightarrow> u64 \<Rightarrow> u64 \<Rightarrow> u64 \<Rightarrow> u32 \<Rightarrow> dimension list \<Rightarrow> u64 list \<Rightarrow> u64 \<Rightarrow> dimension \<Rightarrow>
   output_slot list \<Rightarrow> bool \<Rightarrow> owned_view" where
  "ready_view index mode view node camera fov dims flags resource output slots diagnostic =
     no_view\<lparr>ov_complete := True, ov_ready := True, ov_status := OvReady, ov_view_index := index,
       ov_mode := mode, ov_view_address := view, ov_node_address := node, ov_camera_address := camera,
       ov_fov := fov, ov_dimensions := dims, ov_output_dimensions := output, ov_flags := flags,
       ov_resource_present := resource \<noteq> 0, ov_resource_address := resource, ov_output_slots := slots,
       ov_diagnostic_slots_observed := diagnostic\<rparr>"

definition camera_walk :: "u64 \<Rightarrow> bool \<Rightarrow> int \<Rightarrow> u32 \<Rightarrow> u64 \<Rightarrow> u64 \<Rightarrow> owned_view walk" where
  "camera_walk entry diagnostic index mode view node =
     word_at node 256 True (\<lambda>camera. Field_At camera 160 2 True (\<lambda>kind.
     if ucast (kind ! 0) OR push_bit 8 (ucast (kind ! 1)) \<noteq> (7 :: u32) then Refuse Owned_Camera
     else Field_At camera 1616 4 True (\<lambda>fov.
     if \<not> float_finite (le32 fov) \<or> \<not> float_positive (le32 fov) then Refuse Owned_Fov
     else fields_at view (\<lambda>dims flags. output_at entry view diagnostic (\<lambda>resource output slots.
       Finish (ready_view index mode view node camera (le32 fov) dims flags resource output slots diagnostic))))))"

definition view_walk :: "u64 \<Rightarrow> bool \<Rightarrow> int \<Rightarrow> u32 \<Rightarrow> u64 \<Rightarrow> owned_view walk" where
  "view_walk entry diagnostic index mode view =
     Span_At view 16 160 True (handle_at entry 96 (\<lambda>node. handle_at view 104 (\<lambda>view_node.
     if node = 0 \<or> view_node = 0 then Refuse Owned_Node_Missing
     else if node \<noteq> view_node then Refuse Owned_Node
     else camera_walk entry diagnostic index mode view node)))"

definition ready_walk :: "u64 \<Rightarrow> pool_snapshot \<Rightarrow> bool \<Rightarrow> owned_view walk" where
  "ready_walk entry pool diagnostic =
     Span_At entry 24 112 True (Field_At entry 24 4 True (\<lambda>mode. Field_At entry 76 4 True (\<lambda>b.
     let index = view_index b in
     if index < 0 \<or> index \<ge> 8 then Refuse Owned_Index
     else word_at (ps_array pool) (nat index * 8) True (\<lambda>view.
     if view \<noteq> vs_address (ps_slots pool ! nat index) then Refuse Owned_Pool_Changed
     else view_walk entry diagnostic index (le32 mode) view))))"

definition owned_walk :: "u64 \<Rightarrow> entry_id \<Rightarrow> pool_snapshot \<Rightarrow> bool \<Rightarrow> owned_view walk" where
  "owned_walk entry eid pool diagnostic =
     Span_At entry 0 24 True (word_at entry 0 True (\<lambda>key. word_at entry 16 True (\<lambda>payload.
     if key \<noteq> eid \<or> payload \<noteq> eid then Refuse Owned_Id
     else Field_At entry 8 1 True (\<lambda>ready.
     if ready ! 0 = 0 then Finish (no_view\<lparr>ov_complete := True, ov_status := OvPending\<rparr>)
     else if ready ! 0 \<noteq> 1 then Refuse Owned_Ready_Byte
     else ready_walk entry pool diagnostic))))"

definition owned_counts :: "reader \<Rightarrow> owned_view \<Rightarrow> owned_view" where
  "owned_counts r v = v\<lparr>ov_read_bytes := of_nat (wr_bytes r), ov_read_failures := of_nat (wr_failures r)\<rparr>"

definition owned_refused :: "refusal \<Rightarrow> owned_view" where
  "owned_refused x = no_view\<lparr>ov_status := refusal_status x, ov_error := refusal_text x\<rparr>"

definition inspect_owned_view ::
  "memory_env \<Rightarrow> u64 \<Rightarrow> entry_id \<Rightarrow> pool_snapshot \<Rightarrow> bool \<Rightarrow> owned_view" where
  "inspect_owned_view env entry eid pool diagnostic =
     (if eid = 0 \<or> \<not> pointer_range entry 0 8 then owned_refused Owned_Request
      else if \<not> valid_pool pool then owned_refused Owned_Pool
      else case traced_walk env (owned_walk entry eid pool diagnostic) of
        (Inl x, r) \<Rightarrow> owned_counts r (owned_refused x)
      | (Inr v, r) \<Rightarrow> owned_counts r v)"


subsection \<open>What a walk says of one memory\<close>

text \<open>The walk read straight from a memory: no spans, no counters, no second reading.\<close>

primrec direct :: "(u64 \<Rightarrow> u8) \<Rightarrow> 'a walk \<Rightarrow> refusal + 'a" where
  "direct m (Finish v) = Inr v"
| "direct m (Refuse x) = Inl x"
| "direct m (Span_At a b e al w) =
     (if e \<le> b \<or> e - b > walk_span_bytes \<or> \<not> in_range al a b (e - b) then Inl Null_Span else direct m w)"
| "direct m (Field_At a off n al k) =
     (if \<not> in_range al a off n then Inl Null_Field else if n = 0 \<or> n > 16 then Inl Too_Much
      else direct m (k (block m (a + of_nat off) n)))"

text \<open>
  At most \<open>nf\<close> fields and \<open>ns\<close> spans are left on every path, no field is larger than the observation
  that keeps it, and no path ends as if the memory had changed or a read had failed.
\<close>

definition memory_refusal :: "refusal \<Rightarrow> bool" where
  "memory_refusal x \<longleftrightarrow> refusal_status x \<in> {OvReadFailed, OvChanged, OvReadBudgetExhausted}"

primrec fits :: "'a walk \<Rightarrow> nat \<Rightarrow> nat \<Rightarrow> bool" where
  "fits (Finish v) nf ns = True"
| "fits (Refuse x) nf ns = (\<not> memory_refusal x)"
| "fits (Span_At a b e al w) nf ns = (0 < ns \<and> fits w nf (ns - 1))"
| "fits (Field_At a off n al k) nf ns = (0 < nf \<and> 0 < n \<and> n \<le> 16 \<and> (\<forall>b. fits (k b) (nf - 1) ns))"

fun walk_item_size :: "reader \<Rightarrow> read_item \<Rightarrow> nat" where
  "walk_item_size r (Field_Read i) = (if i < length (wr_fields r) then wf_size (wr_fields r ! i) else 0)"
| "walk_item_size r (Span_Read i) = (if i < length (wr_spans r) then ws_size (wr_spans r ! i) else 0)"

text \<open>A reader that has seen one memory so far.\<close>

definition field_holds :: "(u64 \<Rightarrow> u8) \<Rightarrow> reader \<Rightarrow> wfield \<Rightarrow> bool" where
  "field_holds m r f \<longleftrightarrow> wf_bytes f = block m (wf_address f) (wf_size f) \<and> wf_size f \<le> 16 \<and> 0 < wf_size f \<and>
     (case wf_span f of None \<Rightarrow> True | Some i \<Rightarrow> i < length (wr_spans r) \<and>
        span_serves (wr_spans r ! i) (wf_address f) (wf_size f))"

definition span_holds :: "(u64 \<Rightarrow> u8) \<Rightarrow> wspan \<Rightarrow> bool" where
  "span_holds m v \<longleftrightarrow> ws_bytes v = block m (ws_address v) (ws_size v) \<and> 0 < ws_size v \<and> ws_size v \<le> walk_span_bytes"

fun item_holds :: "reader \<Rightarrow> read_item \<Rightarrow> bool" where
  "item_holds r (Field_Read i) = (i < length (wr_fields r))"
| "item_holds r (Span_Read i) = (i < length (wr_spans r))"

definition reader_holds :: "(u64 \<Rightarrow> u8) \<Rightarrow> reader \<Rightarrow> bool" where
  "reader_holds m r \<longleftrightarrow> list_all (field_holds m r) (wr_fields r) \<and> list_all (span_holds m) (wr_spans r) \<and>
     list_all (item_holds r) (wr_order r) \<and>
     wr_bytes r = sum_list (map (walk_item_size r) (wr_order r)) \<and>
     wr_bytes r \<le> 16 * length (wr_fields r) + walk_span_bytes * length (wr_spans r) \<and>
     length (wr_order r) \<le> length (wr_fields r) + length (wr_spans r)"

lemma new_reader_holds: "reader_holds m new_reader"
  by (simp add: reader_holds_def new_reader_def)

lemma reader_holdsD:
  assumes "reader_holds m r"
  shows "wr_bytes r \<le> 16 * length (wr_fields r) + 144 * length (wr_spans r)"
    "length (wr_order r) \<le> length (wr_fields r) + length (wr_spans r)"
    "i < length (wr_spans r) \<Longrightarrow> span_holds m (wr_spans r ! i)"
    "i < length (wr_fields r) \<Longrightarrow> field_holds m r (wr_fields r ! i)"
    "x \<in> set (wr_order r) \<Longrightarrow> item_holds r x"
    "wr_bytes r = sum_list (map (walk_item_size r) (wr_order r))"
  using assms by (simp_all add: reader_holds_def walk_span_bytes_def list_all_iff)

lemma serves_block:
  assumes "span_serves v a n"
  shows "take n (drop (unat (a - ws_address v)) (block m (ws_address v) (ws_size v))) = block m a n"
proof -
  have "unat (a - ws_address v) + n \<le> ws_size v"
    using assms unfolding span_serves_def by linarith
  then show ?thesis
    by (subst block_within) simp_all
qed

lemma read_bytes_steady:
  assumes "steady env m" "readable env" "0 < n" "wr_bytes r + n \<le> 8192"
  shows "read_bytes env a n r = (Inr (block m a n), r\<lparr>wr_clock := wr_clock r + 1, wr_bytes := wr_bytes r + n\<rparr>)"
  using assms by (simp add: read_bytes_def steady_def readable_def walk_budget_def)

text \<open>One reading more: what it appends holds, so the whole does.\<close>

lemma holds_extend:
  assumes r: "reader_holds m r"
    and parts: "wr_fields r' = wr_fields r @ fs" "wr_spans r' = wr_spans r @ vs" "wr_order r' = wr_order r @ xs"
      "wr_bytes r' = wr_bytes r + sum_list (map (walk_item_size r') xs)"
    and new: "list_all (field_holds m r') fs" "list_all (span_holds m) vs" "list_all (item_holds r') xs"
    and few: "sum_list (map (walk_item_size r') xs) \<le> 16 * length fs + walk_span_bytes * length vs"
      "length xs \<le> length fs + length vs"
  shows "reader_holds m r'"
proof -
  have f: "field_holds m r' g" if "field_holds m r g" for g
    using that by (auto simp: field_holds_def parts nth_append split: option.splits)
  have o: "item_holds r' x" if "item_holds r x" for x
    using that by (cases x) (auto simp: parts)
  have s: "walk_item_size r' x = walk_item_size r x" if "item_holds r x" for x
    using that by (cases x) (auto simp: parts nth_append)
  have "list_all (field_holds m r') (wr_fields r')" "list_all (span_holds m) (wr_spans r')"
    "list_all (item_holds r') (wr_order r')"
    using r f o new unfolding reader_holds_def parts by (auto simp: list_all_iff)
  moreover have "map (walk_item_size r') (wr_order r) = map (walk_item_size r) (wr_order r)"
    using r s by (simp add: reader_holds_def list_all_iff)
  then have "sum_list (map (walk_item_size r') (wr_order r)) = wr_bytes r"
    using r by (simp only: reader_holds_def)
  then have "wr_bytes r' = sum_list (map (walk_item_size r') (wr_order r'))"
    unfolding parts(3,4) by simp
  moreover have "wr_bytes r' \<le> 16 * length (wr_fields r') + walk_span_bytes * length (wr_spans r')"
    "length (wr_order r') \<le> length (wr_fields r') + length (wr_spans r')"
    using r few unfolding reader_holds_def parts by (simp_all add: algebra_simps)
  ultimately show ?thesis
    unfolding reader_holds_def by blast
qed

lemma take_span_steady:
  assumes env: "steady env m" "readable env" and r: "reader_holds m r" "length (wr_fields r) \<le> 64"
    and room: "length (wr_spans r) < 16"
    and ok: "\<not> (e \<le> b \<or> e - b > walk_span_bytes \<or> \<not> in_range al a b (e - b))"
  shows "\<exists>r'. take_span env a b e al r = (Inr (), r') \<and> reader_holds m r' \<and> wr_failures r' = wr_failures r \<and>
     length (wr_fields r') = length (wr_fields r) \<and> length (wr_spans r') \<le> length (wr_spans r) + 1"
proof (cases "list_ex (\<lambda>v. span_serves v (a + of_nat b) (e - b)) (wr_spans r)")
  case True
  then show ?thesis
    using ok r by (simp add: take_span_def)
next
  case False
  let ?v = "\<lparr>ws_address = a + of_nat b, ws_size = e - b, ws_bytes = block m (a + of_nat b) (e - b)\<rparr>"
  let ?r = "r\<lparr>wr_clock := wr_clock r + 1, wr_bytes := wr_bytes r + (e - b), wr_spans := wr_spans r @ [?v],
     wr_order := wr_order r @ [Span_Read (length (wr_spans r))]\<rparr>"
  note d = reader_holdsD [OF r(1)]
  have spend: "wr_bytes r + (e - b) \<le> 8192" "0 < e - b"
    using ok d(1) r(2) room by (auto simp: walk_span_bytes_def)
  have "take_span env a b e al r = (Inr (), ?r)"
    using ok False room d(2) r(2)
    by (simp add: take_span_def read_bytes_steady [OF env spend(2,1)] walk_spans_def walk_fields_def)
  moreover have "reader_holds m ?r"
    using ok by (intro holds_extend [OF r(1), of _ "[]" "[?v]" "[Span_Read (length (wr_spans r))]"])
      (simp_all add: span_holds_def)
  ultimately show ?thesis
    by simp
qed

lemma take_field_steady:
  assumes env: "steady env m" "readable env" and r: "reader_holds m r" "length (wr_fields r) < 64"
    and room: "length (wr_spans r) \<le> 16" and ok: "in_range al a off n" "0 < n" "n \<le> 16"
  shows "\<exists>r'. take_field env a off n al r = (Inr (block m (a + of_nat off) n), r') \<and> reader_holds m r' \<and>
     wr_failures r' = wr_failures r \<and> length (wr_fields r') = length (wr_fields r) + 1 \<and>
     length (wr_spans r') = length (wr_spans r)"
proof (cases "first_index (\<lambda>v. span_serves v (a + of_nat off) n) (wr_spans r)")
  case (Some i)
  then have i: "i < length (wr_spans r)" and serves: "span_serves (wr_spans r ! i) (a + of_nat off) n"
    using first_index_Some [OF Some] by auto
  let ?f = "\<lparr>wf_address = a + of_nat off, wf_size = n, wf_span = Some i, wf_bytes = block m (a + of_nat off) n\<rparr>"
  have "ws_bytes (wr_spans r ! i) = block m (ws_address (wr_spans r ! i)) (ws_size (wr_spans r ! i))"
    using reader_holdsD(3) [OF r(1) i] by (simp add: span_holds_def)
  then have "take_field env a off n al r = (Inr (block m (a + of_nat off) n), r\<lparr>wr_fields := wr_fields r @ [?f]\<rparr>)"
    using Some ok r(2) room reader_holdsD(2) [OF r(1)] serves_block [OF serves, of m]
    by (simp add: take_field_def note_field_def walk_fields_def walk_spans_def Let_def)
  moreover have "reader_holds m (r\<lparr>wr_fields := wr_fields r @ [?f]\<rparr>)"
    using ok i serves by (intro holds_extend [OF r(1), of _ "[?f]" "[]" "[]"]) (simp_all add: field_holds_def)
  ultimately show ?thesis
    by simp
next
  case None
  let ?f = "\<lparr>wf_address = a + of_nat off, wf_size = n, wf_span = None, wf_bytes = block m (a + of_nat off) n\<rparr>"
  let ?r = "r\<lparr>wr_clock := wr_clock r + 1, wr_bytes := wr_bytes r + n,
     wr_order := wr_order r @ [Field_Read (length (wr_fields r))], wr_fields := wr_fields r @ [?f]\<rparr>"
  have spend: "wr_bytes r + n \<le> 8192"
    using ok reader_holdsD(1) [OF r(1)] r(2) room by simp
  have "take_field env a off n al r = (Inr (block m (a + of_nat off) n), ?r)"
    using None ok r(2) room reader_holdsD(2) [OF r(1)]
    by (simp add: take_field_def note_field_def walk_fields_def walk_spans_def Let_def read_bytes_steady [OF env ok(2) spend])
  moreover have "reader_holds m ?r"
    using ok by (intro holds_extend [OF r(1), of _ "[?f]" "[]" "[Field_Read (length (wr_fields r))]"])
      (simp_all add: field_holds_def)
  ultimately show ?thesis
    by simp
qed

lemma run_walk_direct:
  assumes env: "steady env m" "readable env" and "reader_holds m r" "fits w nf ns"
    "length (wr_fields r) + nf \<le> 64" "length (wr_spans r) + ns \<le> 16"
  shows "\<exists>r'. run_walk env w r = (direct m w, r') \<and> reader_holds m r' \<and> wr_failures r' = wr_failures r \<and>
     length (wr_fields r') \<le> 64 \<and> length (wr_spans r') \<le> 16"
  using assms(3-)
proof (induction w arbitrary: r nf ns)
  case (Span_At a b e al w)
  show ?case
  proof (cases "e \<le> b \<or> e - b > walk_span_bytes \<or> \<not> in_range al a b (e - b)")
    case True
    then show ?thesis
      using Span_At.prems by (simp add: take_span_def)
  next
    case False
    have "length (wr_fields r) \<le> 64" "length (wr_spans r) < 16"
      using Span_At.prems by simp_all
    from take_span_steady [OF env Span_At.prems(1) this False]
    obtain r' where r': "take_span env a b e al r = (Inr (), r')" "reader_holds m r'" "wr_failures r' = wr_failures r"
      "length (wr_fields r') = length (wr_fields r)" "length (wr_spans r') \<le> length (wr_spans r) + 1"
      by blast
    have "fits w nf (ns - 1)" "length (wr_fields r') + nf \<le> 64" "length (wr_spans r') + (ns - 1) \<le> 16"
      using Span_At.prems r' by simp_all
    from Span_At.IH [OF r'(2) this] show ?thesis
      using r' False by simp
  qed
next
  case (Field_At a off n al k)
  show ?case
  proof (cases "in_range al a off n \<and> 0 < n \<and> n \<le> 16")
    case False
    then show ?thesis
      using Field_At.prems reader_holdsD(2) [OF Field_At.prems(1)]
      by (auto simp: take_field_def walk_fields_def walk_spans_def)
  next
    case True
    have "length (wr_fields r) < 64" "length (wr_spans r) \<le> 16"
      using Field_At.prems by simp_all
    from take_field_steady [OF env Field_At.prems(1) this, of al a off n] True
    obtain r' where r': "take_field env a off n al r = (Inr (block m (a + of_nat off) n), r')" "reader_holds m r'"
      "wr_failures r' = wr_failures r"
      "length (wr_fields r') = length (wr_fields r) + 1" "length (wr_spans r') = length (wr_spans r)"
      by blast
    have "fits (k (block m (a + of_nat off) n)) (nf - 1) ns" "length (wr_fields r') + (nf - 1) \<le> 64"
      "length (wr_spans r') + ns \<le> 16"
      using Field_At.prems r' by simp_all
    from Field_At.IH [OF _ r'(2) this] show ?thesis
      using r' True by simp
  qed
qed auto


text \<open>The second reading of a memory that did not change.\<close>

definition rereads :: "(u64 \<Rightarrow> u8) \<Rightarrow> reader \<Rightarrow> bool" where
  "rereads m r \<longleftrightarrow> list_all (field_holds m r) (wr_fields r) \<and> list_all (span_holds m) (wr_spans r)"

lemma rereads_counts: "rereads m (r\<lparr>wr_clock := c, wr_bytes := b\<rparr>) = rereads m r"
proof -
  have "field_holds m (r\<lparr>wr_clock := c, wr_bytes := b\<rparr>) = field_holds m r"
    by (rule ext) (simp add: field_holds_def split: option.split)
  then show ?thesis
    by (simp add: rereads_def)
qed

lemma item_counts [simp]:
  "item_holds (r\<lparr>wr_clock := c, wr_bytes := b\<rparr>) = item_holds r"
  "walk_item_size (r\<lparr>wr_clock := c, wr_bytes := b\<rparr>) = walk_item_size r"
proof -
  have "item_holds (r\<lparr>wr_clock := c, wr_bytes := b\<rparr>) x = item_holds r x"
    "walk_item_size (r\<lparr>wr_clock := c, wr_bytes := b\<rparr>) x = walk_item_size r x" for x
    by (cases x; simp)+
  then show "item_holds (r\<lparr>wr_clock := c, wr_bytes := b\<rparr>) = item_holds r"
    "walk_item_size (r\<lparr>wr_clock := c, wr_bytes := b\<rparr>) = walk_item_size r"
    by (simp_all add: fun_eq_iff)
qed

lemma again_item_steady:
  assumes env: "steady env m" "readable env" and r: "rereads m r" "item_holds r x" "wr_bytes r + walk_item_size r x \<le> 8192"
  shows "again_item env x r = (Inr (), r\<lparr>wr_clock := wr_clock r + 1, wr_bytes := wr_bytes r + walk_item_size r x\<rparr>)"
proof (cases x)
  case (Field_Read i)
  then have "field_holds m r (wr_fields r ! i)"
    using r by (simp add: rereads_def list_all_length)
  then show ?thesis
    using r Field_Read by (simp add: Let_def field_holds_def read_bytes_steady [OF env])
next
  case (Span_Read i)
  then have v: "span_holds m (wr_spans r ! i)" "i < length (wr_spans r)"
    using r by (simp_all add: rereads_def list_all_length)
  have "served_same i (wr_spans r ! i) (block m (ws_address (wr_spans r ! i)) (ws_size (wr_spans r ! i))) f"
    if "f \<in> set (wr_fields r)" for f
  proof -
    have "field_holds m r f"
      using that r by (simp add: rereads_def list_all_iff)
    then show ?thesis
      by (auto simp: served_same_def field_holds_def serves_block)
  qed
  then show ?thesis
    using r v Span_Read by (simp add: Let_def span_holds_def read_bytes_steady [OF env] list_all_iff)
qed

lemma again_steady:
  assumes env: "steady env m" "readable env"
    and "rereads m r" "list_all (item_holds r) xs" "wr_bytes r + sum_list (map (walk_item_size r) xs) \<le> 8192"
  shows "\<exists>c. again env xs r = (Inr (), r\<lparr>wr_clock := c, wr_bytes := wr_bytes r + sum_list (map (walk_item_size r) xs)\<rparr>)"
  using assms(3-)
proof (induction xs arbitrary: r)
  case Nil
  show ?case
    by (auto intro!: exI [of _ "wr_clock r"])
next
  case (Cons x xs)
  let ?r = "r\<lparr>wr_clock := wr_clock r + 1, wr_bytes := wr_bytes r + walk_item_size r x\<rparr>"
  have "again_item env x r = (Inr (), ?r)"
    using Cons.prems by (intro again_item_steady [OF env]) simp_all
  moreover have "rereads m ?r" "list_all (item_holds ?r) xs"
    "wr_bytes ?r + sum_list (map (walk_item_size ?r) xs) \<le> 8192"
    using Cons.prems by (simp_all add: rereads_counts)
  from Cons.IH [OF this] obtain c where
    "again env xs ?r = (Inr (), ?r\<lparr>wr_clock := c, wr_bytes := wr_bytes ?r + sum_list (map (walk_item_size ?r) xs)\<rparr>)"
    by blast
  ultimately show ?case
    by (auto simp: add.assoc intro!: exI [of _ c])
qed

theorem traced_walk_direct:
  assumes env: "steady env m" "readable env" and fit: "fits w 64 16"
  shows "\<exists>r. traced_walk env w = (direct m w, r) \<and> wr_failures r = 0 \<and> wr_bytes r \<le> 8192"
proof -
  have "length (wr_fields new_reader) + 64 \<le> 64" "length (wr_spans new_reader) + 16 \<le> 16"
    by (simp_all add: new_reader_def)
  from run_walk_direct [OF env new_reader_holds fit this] obtain r where r: "run_walk env w new_reader = (direct m w, r)"
    "reader_holds m r" "wr_failures r = 0" "length (wr_fields r) \<le> 64" "length (wr_spans r) \<le> 16"
    by (auto simp: new_reader_def)
  have spent: "wr_bytes r \<le> 3328"
    using reader_holdsD(1) [OF r(2)] r(4,5) by simp
  have "rereads m r" "list_all (item_holds r) (wr_order r)"
    "wr_bytes r + sum_list (map (walk_item_size r) (wr_order r)) \<le> 8192"
    using r(2) spent by (simp_all add: rereads_def reader_holds_def)
  from again_steady [OF env this] obtain c where
    "again env (wr_order r) r = (Inr (), r\<lparr>wr_clock := c, wr_bytes := wr_bytes r + wr_bytes r\<rparr>)"
    using reader_holdsD(6) [OF r(2)] by metis
  then show ?thesis
    using r(1,3) spent by (auto simp: traced_walk_def split: sum.split)
qed

subsection \<open>The chain stays within the arrays\<close>

lemma fits_mono: "fits w nf ns \<Longrightarrow> nf \<le> nf' \<Longrightarrow> ns \<le> ns' \<Longrightarrow> fits w nf' ns'"
proof (induction w arbitrary: nf ns nf' ns')
  case (Span_At a b e al w)
  then show ?case
    by (auto intro: Span_At.IH [of nf "ns - 1"])
next
  case (Field_At a off n al k)
  then show ?case
    by (auto intro: Field_At.IH [OF rangeI, of _ "nf - 1" ns])
qed simp_all

lemma fits_word: "0 < nf \<Longrightarrow> (\<And>v. fits (k v) (nf - 1) ns) \<Longrightarrow> fits (word_at a off al k) nf ns"
  by (simp add: word_at_def)

lemma fits_handle:
  assumes "3 \<le> nf" "1 \<le> ns" and k: "\<And>v. fits (k v) (nf - 3) (ns - 1)"
  shows "fits (handle_at a off k) nf ns"
proof -
  have "fits (k v) (nf - i) (ns - j)" if "i \<le> 3" "j \<le> 1" for v i j
    using that fits_mono [OF k [of v]] by simp
  from this [of 1 0] this [of 2 1] this [of 3 1] show ?thesis
    using assms(1,2) by (auto simp: handle_at_def word_at_def Let_def numeral_eq_Suc memory_refusal_def)
qed

lemma fits_record:
  assumes "3 \<le> nf" "1 \<le> ns" and k: "\<And>v. fits (k v) (nf - 3) (ns - 1)"
  shows "fits (record_at a k) nf ns"
proof -
  have "fits (k v) (nf - i) (ns - j)" if "i \<le> 3" "j \<le> 1" for v i j
    using that fits_mono [OF k [of v]] by simp
  from this [of 2 1] this [of 3 1] show ?thesis
    using assms(1,2) by (auto simp: record_at_def word_at_def numeral_eq_Suc)
qed

lemma fits_slot:
  assumes "7 \<le> nf" "2 \<le> ns" and k: "\<And>v. fits (k v) (nf - 7) (ns - 2)"
  shows "fits (slot_at a off k) nf ns"
proof -
  have le: "fits (k v) i j" if "nf - 7 \<le> i" "ns - 2 \<le> j" for v i j
    using that fits_mono [OF k [of v]] by simp
  show ?thesis
    unfolding slot_at_def using assms(1,2)
    by (auto intro!: fits_handle fits_word fits_record le; arith)
qed

lemma fits_extra:
  assumes "14 \<le> nf" "5 \<le> ns" and k: "\<And>s t. fits (k s t) (nf - 14) (ns - 5)"
  shows "fits (extra_slots_at diagnostic a k) nf ns"
proof -
  have le: "fits (k s t) i j" if "nf - 14 \<le> i" "ns - 5 \<le> j" for s t i j
    using that fits_mono [OF k [of s t]] by simp
  show ?thesis
    using assms(1,2) by (auto simp: extra_slots_at_def intro!: fits_word fits_slot le; arith)
qed

lemma fits_resource:
  assumes "3 \<le> nf" and k: "\<And>v d. fits (k v d) (nf - 3) ns"
  shows "fits (resource_at a b k) nf ns"
proof -
  have le: "fits (k v d) i ns" if "nf - 3 \<le> i" for v d i
    using that fits_mono [OF k [of v d]] by simp
  show ?thesis
    using assms(1) by (auto simp: resource_at_def memory_refusal_def intro!: fits_word le; arith)
qed

lemma fits_output:
  assumes "30 \<le> nf" "10 \<le> ns" and k: "\<And>v d s. fits (k v d s) (nf - 30) (ns - 10)"
  shows "fits (output_at entry view diagnostic k) nf ns"
proof -
  have le: "fits (k v d s) i j" if "nf - 30 \<le> i" "ns - 10 \<le> j" for v d s i j
    using that fits_mono [OF k [of v d s]] by simp
  show ?thesis
    unfolding output_at_def using assms(1,2)
    by (auto simp: memory_refusal_def intro!: fits_word fits_handle fits_record fits_extra fits_resource le; arith)
qed

lemma fits_fields:
  assumes "4 \<le> nf" and k: "\<And>d f. fits (k d f) (nf - 4) ns"
  shows "fits (fields_at view k) nf ns"
  using assms by (simp add: fields_at_def pair_at_def numeral_eq_Suc)

lemma close_walk_fits: "fits (close_walk entry eid pool) 64 16"
  unfolding close_walk_def by (auto simp: Let_def memory_refusal_def intro!: fits_word fits_handle fits_fields)

lemma owned_walk_fits: "fits (owned_walk entry eid pool diagnostic) 64 16"
  unfolding owned_walk_def ready_walk_def view_walk_def camera_walk_def by (auto simp: Let_def memory_refusal_def intro!: fits_word fits_handle fits_fields fits_output)


subsection \<open>The chain as the memory holds it\<close>

definition word32_at :: "(u64 \<Rightarrow> u8) \<Rightarrow> u64 \<Rightarrow> u32" where
  "word32_at m a = le32 (block m a 4)"

text \<open>What a handle resolves to: zero unless its control record is of its generation.\<close>

definition resolved :: "(u64 \<Rightarrow> u8) \<Rightarrow> u64 \<Rightarrow> u64" where
  "resolved m a =
     (let control = word64_at m a
      in if control = 0 \<or> word32_at m (control + 28) \<noteq> word32_at m (a + 8) then 0 else word64_at m control)"

definition target_record :: "(u64 \<Rightarrow> u8) \<Rightarrow> u64 \<Rightarrow> bool" where
  "target_record m texture \<longleftrightarrow>
     (let table = word64_at m (texture + 0x48); entries = word64_at m (table + 8)
      in if table = 0 then word64_at m (texture + 0x40) \<noteq> 0 else entries \<noteq> 0 \<and> word64_at m entries \<noteq> 0)"

definition slot_state :: "(u64 \<Rightarrow> u8) \<Rightarrow> u64 \<Rightarrow> output_slot" where
  "slot_state m handle =
     (let bitmap = resolved m handle; texture = word64_at m (bitmap + 88)
      in \<lparr>os_bitmap = bitmap \<noteq> 0, os_texture = bitmap \<noteq> 0 \<and> texture \<noteq> 0,
          os_render_target_record = bitmap \<noteq> 0 \<and> texture \<noteq> 0 \<and> target_record m texture\<rparr>)"

definition resource_of :: "(u64 \<Rightarrow> u8) \<Rightarrow> u64 \<Rightarrow> u64" where
  "resource_of m bitmap =
     (let texture = word64_at m (bitmap + 88); wrapper = word64_at m (texture + 16)
      in if bitmap = 0 \<or> texture = 0 \<or> wrapper = 0 then 0 else word64_at m (wrapper + 168))"

definition dims_at :: "(u64 \<Rightarrow> u8) \<Rightarrow> u64 \<Rightarrow> dimension" where
  "dims_at m a = (word32_at m a, word32_at m (a + 4))"

text \<open>A ready view: the entry is the owned one, both sides name one node, and the output is described.\<close>

definition view_chain :: "(u64 \<Rightarrow> u8) \<Rightarrow> u64 \<Rightarrow> entry_id \<Rightarrow> pool_snapshot \<Rightarrow> owned_view \<Rightarrow> bool" where
  "view_chain m entry eid pool v \<longleftrightarrow>
     word64_at m entry = eid \<and> word64_at m (entry + 16) = eid \<and> m (entry + 8) = 1 \<and>
     ov_view_index v = sint (word32_at m (entry + 76)) \<and> 0 \<le> ov_view_index v \<and> ov_view_index v < 8 \<and>
     ov_view_address v = vs_address (ps_slots pool ! nat (ov_view_index v)) \<and>
     ov_view_address v = word64_at m (ps_array pool + of_nat (nat (ov_view_index v) * 8)) \<and>
     ov_node_address v \<noteq> 0 \<and> resolved m (entry + 96) = ov_node_address v \<and>
     resolved m (ov_view_address v + 104) = ov_node_address v \<and>
     ov_camera_address v = word64_at m (ov_node_address v + 256) \<and>
     block m (ov_camera_address v + 160) 2 = [7, 0] \<and>
     ov_fov v = word32_at m (ov_camera_address v + 1616) \<and> float_finite (ov_fov v) \<and> float_positive (ov_fov v) \<and>
     ov_mode v = word32_at m (entry + 24)"

definition view_fields :: "(u64 \<Rightarrow> u8) \<Rightarrow> u64 \<Rightarrow> owned_view \<Rightarrow> bool" where
  "view_fields m view v \<longleftrightarrow>
     ov_dimensions v = [dims_at m (view + 16), dims_at m (view + 24), dims_at m (view + 32)] \<and>
     ov_flags v = [word64_at m (view + 48), word64_at m (view + 56)]"

definition view_output :: "(u64 \<Rightarrow> u8) \<Rightarrow> u64 \<Rightarrow> u64 \<Rightarrow> bool \<Rightarrow> owned_view \<Rightarrow> bool" where
  "view_output m entry view diagnostic v \<longleftrightarrow>
     (let material = resolved m (entry + 80); bitmap = if material = 0 then 0 else resolved m (material + 520)
      in resolved m (view + 144) = material \<and>
         ov_output_slots v ! 0 = (if material = 0 then no_output_slot else slot_state m (material + 520)) \<and>
         ov_resource_address v = resource_of m bitmap \<and>
         ov_resource_present v = (resource_of m bitmap \<noteq> 0) \<and>
         ov_output_dimensions v = (if resource_of m bitmap = 0 then (0, 0) else dims_at m (bitmap + 40)) \<and>
         ov_diagnostic_slots_observed v = diagnostic)"

text \<open>Reading the pieces of a larger field.\<close>

lemma block_split: "block m a (k + n) = block m a k @ block m (a + of_nat k) n"
  by (intro nth_equalityI) (auto simp: block_nth nth_append)

lemma le32_take: "length bs = 4 \<Longrightarrow> le32 (bs @ cs) = le32 bs"
  by (simp add: le32_def nth_append)

lemma le64_take: "length bs = 8 \<Longrightarrow> le64 (bs @ cs) = le64 bs"
  by (simp add: le64_def le32_def nth_append)

lemma field_pieces:
  "le32 (block m a 8) = word32_at m a" "le32 (drop 4 (block m a 8)) = word32_at m (a + 4)"
  "le64 (block m a 16) = word64_at m a" "le64 (drop 8 (block m a 16)) = word64_at m (a + 8)"
  "le32 (drop 8 (block m a 16)) = word32_at m (a + 8)"
proof -
  have b8: "block m a 8 = block m a 4 @ block m (a + 4) 4"
    using block_split [of m a 4 4] by simp
  then show "le32 (block m a 8) = word32_at m a" "le32 (drop 4 (block m a 8)) = word32_at m (a + 4)"
    by (simp_all add: word32_at_def le32_take)
  have b16: "block m a 16 = block m a 8 @ block m (a + 8) 8"
    using block_split [of m a 8 8] by simp
  then show "le64 (block m a 16) = word64_at m a" "le64 (drop 8 (block m a 16)) = word64_at m (a + 8)"
    by (simp_all add: word64_at_def le64_take)
  have "block m (a + 8) 8 = block m (a + 8) 4 @ block m (a + 8 + 4) 4"
    using block_split [of m "a + 8" 4 4] by simp
  with b16 show "le32 (drop 8 (block m a 16)) = word32_at m (a + 8)"
    by (simp add: word32_at_def le32_take)
qed

lemma block_one: "block m a 1 ! 0 = m a"
  by (simp add: block_nth)

lemma direct_field:
  "direct m (Field_At a off n al k) = Inr v \<longleftrightarrow>
     in_range al a off n \<and> 0 < n \<and> n \<le> 16 \<and> direct m (k (block m (a + of_nat off) n)) = Inr v"
  by auto

lemma direct_span: "direct m (Span_At a b e al w) = Inr v \<Longrightarrow> direct m w = Inr v"
  by (simp split: if_splits)

declare direct.simps(3,4) [simp del]

lemma direct_word: "direct m (word_at a off al k) = Inr v \<Longrightarrow> direct m (k (word64_at m (a + of_nat off))) = Inr v"
  by (simp add: word_at_def direct_field word64_at_def)

lemma direct_handle:
  assumes "direct m (handle_at a off k) = Inr v"
  shows "direct m (k (resolved m (a + of_nat off))) = Inr v"
proof -
  let ?c = "word64_at m (a + of_nat off)"
  from assms have w: "direct m (if ?c = 0 then k 0
        else Span_At ?c 0 32 False (Field_At ?c 28 4 False (\<lambda>g.
          if le32 g \<noteq> word32_at m (a + of_nat off + 8) then k 0
          else word_at ?c 0 False (\<lambda>v.
            if v \<noteq> 0 \<and> \<not> pointer_range v 0 8 then Refuse Bad_Payload else k v)))) = Inr v"
    unfolding handle_at_def direct_field Let_def field_pieces by blast
  show ?thesis
  proof (cases "?c = 0")
    case True
    with w show ?thesis
      by (simp add: resolved_def)
  next
    case False
    with w have "direct m (Span_At ?c 0 32 False (Field_At ?c 28 4 False (\<lambda>g.
          if le32 g \<noteq> word32_at m (a + of_nat off + 8) then k 0
          else word_at ?c 0 False (\<lambda>v. if v \<noteq> 0 \<and> \<not> pointer_range v 0 8 then Refuse Bad_Payload else k v)))) = Inr v"
      by simp
    note direct_span [OF this]
    then have "direct m (if word32_at m (?c + 28) \<noteq> word32_at m (a + of_nat off + 8) then k 0
          else word_at ?c 0 False (\<lambda>v. if v \<noteq> 0 \<and> \<not> pointer_range v 0 8 then Refuse Bad_Payload else k v)) = Inr v"
      unfolding direct_field by (simp add: word32_at_def)
    then show ?thesis
      using False by (auto simp: resolved_def Let_def dest!: direct_word split: if_splits)
  qed
qed

lemma direct_record:
  assumes "direct m (record_at t k) = Inr v"
  shows "direct m (k (target_record m t)) = Inr v"
proof -
  have "direct m (if word64_at m (t + 0x48) \<noteq> 0 then
       word_at (word64_at m (t + 0x48)) 8 True (\<lambda>entries.
         if entries = 0 then k False else word_at entries 0 True (\<lambda>entry. k (entry \<noteq> 0)))
     else word_at t 0x40 True (\<lambda>direct. k (direct \<noteq> 0))) = Inr v"
    using assms unfolding record_at_def by (auto dest!: direct_span direct_word)
  then show ?thesis
    by (auto simp: target_record_def Let_def dest!: direct_word split: if_splits)
qed

lemma direct_slot:
  assumes "direct m (slot_at material off k) = Inr v"
  shows "direct m (k (slot_state m (material + of_nat off))) = Inr v"
  using direct_handle [OF assms [unfolded slot_at_def]]
  by (auto simp: slot_state_def Let_def no_output_slot_def dest!: direct_word direct_record split: if_splits)

lemma direct_extra:
  assumes "direct m (extra_slots_at d material k) = Inr v"
  shows "\<exists>s t. direct m (k s t) = Inr v"
  using assms unfolding extra_slots_at_def by (auto dest!: direct_span direct_slot split: if_splits)


lemma direct_resource:
  assumes "direct m (resource_at bitmap record k) = Inr v"
  shows "\<exists>r. r = (let wrapper = word64_at m (record + 16) in if wrapper = 0 then 0 else word64_at m (wrapper + 168)) \<and>
     direct m (k r (if r = 0 then (0, 0) else dims_at m (bitmap + 40))) = Inr v"
proof -
  have w: "direct m (if word64_at m (record + 16) = 0 then k 0 (0, 0)
     else word_at (word64_at m (record + 16)) 168 True (\<lambda>resource.
       if resource \<noteq> 0 \<and> \<not> pointer_range resource 0 8 then Refuse Owned_Resource
       else if resource \<noteq> 0 then Field_At bitmap 40 8 True (\<lambda>b. k resource (le32 b, le32 (drop 4 b)))
       else k 0 (0, 0))) = Inr v"
    using assms unfolding resource_at_def by (auto dest: direct_word)
  show ?thesis
  proof (cases "word64_at m (record + 16) = 0")
    case True
    with w show ?thesis by simp
  next
    case False
    with w have "direct m (word_at (word64_at m (record + 16)) 168 True (\<lambda>resource.
       if resource \<noteq> 0 \<and> \<not> pointer_range resource 0 8 then Refuse Owned_Resource
       else if resource \<noteq> 0 then Field_At bitmap 40 8 True (\<lambda>b. k resource (le32 b, le32 (drop 4 b)))
       else k 0 (0, 0))) = Inr v"
      by simp
    from direct_word [OF this] have
      "direct m (if word64_at m (word64_at m (record + 16) + 168) \<noteq> 0 \<and> \<not> pointer_range (word64_at m (word64_at m (record + 16) + 168)) 0 8
         then Refuse Owned_Resource
         else if word64_at m (word64_at m (record + 16) + 168) \<noteq> 0
           then Field_At bitmap 40 8 True (\<lambda>b. k (word64_at m (word64_at m (record + 16) + 168)) (le32 b, le32 (drop 4 b)))
         else k 0 (0, 0)) = Inr v"
      by (simp cong: if_cong)
    then show ?thesis
      using False by (auto simp: direct_field dims_at_def field_pieces word32_at_def [symmetric] add.assoc split: if_splits)
  qed
qed

text \<open>What the output part of the walk passes on.\<close>

definition output_seen :: "(u64 \<Rightarrow> u8) \<Rightarrow> u64 \<Rightarrow> u64 \<Rightarrow> u64 \<Rightarrow> dimension \<Rightarrow> output_slot list \<Rightarrow> bool" where
  "output_seen m entry view resource dims slots \<longleftrightarrow>
     (let material = resolved m (entry + 80); bitmap = if material = 0 then 0 else resolved m (material + 520)
      in resolved m (view + 144) = material \<and>
         slots ! 0 = (if material = 0 then no_output_slot else slot_state m (material + 520)) \<and>
         resource = resource_of m bitmap \<and>
         dims = (if resource_of m bitmap = 0 then (0, 0) else dims_at m (bitmap + 40)))"

lemma slot_state_cases:
  "resolved m h = 0 \<Longrightarrow> slot_state m h = no_output_slot"
  "resolved m h \<noteq> 0 \<Longrightarrow> word64_at m (resolved m h + 88) = 0 \<Longrightarrow> slot_state m h = no_output_slot\<lparr>os_bitmap := True\<rparr>"
  "resolved m h \<noteq> 0 \<Longrightarrow> word64_at m (resolved m h + 88) \<noteq> 0 \<Longrightarrow>
     slot_state m h = \<lparr>os_bitmap = True, os_texture = True,
       os_render_target_record = target_record m (word64_at m (resolved m h + 88))\<rparr>"
  by (simp_all add: slot_state_def no_output_slot_def Let_def)

lemma direct_output:
  assumes "direct m (output_at entry view diagnostic k) = Inr v"
  shows "\<exists>resource dims slots. direct m (k resource dims slots) = Inr v \<and> output_seen m entry view resource dims slots"
proof -
  let ?e = "resolved m (entry + 80)" and ?v = "resolved m (view + 144)"
  let ?b = "resolved m (?e + 520)"
  let ?t = "word64_at m (?b + 88)"
  have w: "direct m (if ?e \<noteq> ?v then Refuse Owned_Material
     else if ?e = 0 then k 0 (0, 0) (replicate 3 no_output_slot)
     else handle_at ?e 520 (\<lambda>bitmap.
       if bitmap = 0 then k 0 (0, 0) (replicate 3 no_output_slot)
       else word_at bitmap 88 True (\<lambda>record.
         if record = 0 then k 0 (0, 0) [no_output_slot\<lparr>os_bitmap := True\<rparr>, no_output_slot, no_output_slot]
         else Span_At record 16 0x50 True (record_at record (\<lambda>present.
           extra_slots_at diagnostic ?e (\<lambda>s1 s2. resource_at bitmap record (\<lambda>resource dims.
             k resource dims
               [\<lparr>os_bitmap = True, os_texture = True, os_render_target_record = present\<rparr>, s1, s2])))))) ) = Inr v"
    using direct_handle [OF direct_handle [OF assms [unfolded output_at_def]]] by (simp cong: if_cong)
  have same: "?e = ?v"
    by (rule ccontr) (use w in simp)
  show ?thesis
  proof (cases "?e = 0")
    case True
    with w same show ?thesis
      by (intro exI [of _ 0] exI [of _ "(0, 0)"] exI [of _ "replicate 3 no_output_slot"])
        (simp add: output_seen_def resource_of_def Let_def)
  next
    case mat: False
    with w same have w1: "direct m (if ?b = 0 then k 0 (0, 0) (replicate 3 no_output_slot)
       else word_at ?b 88 True (\<lambda>record.
         if record = 0 then k 0 (0, 0) [no_output_slot\<lparr>os_bitmap := True\<rparr>, no_output_slot, no_output_slot]
         else Span_At record 16 0x50 True (record_at record (\<lambda>present.
           extra_slots_at diagnostic ?e (\<lambda>s1 s2. resource_at ?b record (\<lambda>resource dims.
             k resource dims
               [\<lparr>os_bitmap = True, os_texture = True, os_render_target_record = present\<rparr>, s1, s2])))))) = Inr v"
      by (auto dest!: direct_handle cong: if_cong)
    show ?thesis
    proof (cases "?b = 0")
      case True
      with w1 mat same show ?thesis
        by (intro exI [of _ 0] exI [of _ "(0, 0)"] exI [of _ "replicate 3 no_output_slot"])
          (simp add: output_seen_def resource_of_def Let_def slot_state_cases)
    next
      case bit: False
      with w1 have w2: "direct m (if ?t = 0 then k 0 (0, 0) [no_output_slot\<lparr>os_bitmap := True\<rparr>, no_output_slot, no_output_slot]
         else Span_At ?t 16 0x50 True (record_at ?t (\<lambda>present.
           extra_slots_at diagnostic ?e (\<lambda>s1 s2. resource_at ?b ?t (\<lambda>resource dims.
             k resource dims
               [\<lparr>os_bitmap = True, os_texture = True, os_render_target_record = present\<rparr>, s1, s2]))))) = Inr v"
        by (auto dest!: direct_word cong: if_cong)
      show ?thesis
      proof (cases "?t = 0")
        case True
        with w2 mat bit same show ?thesis
          by (intro exI [of _ 0] exI [of _ "(0, 0)"] exI [of _ "[no_output_slot\<lparr>os_bitmap := True\<rparr>, no_output_slot, no_output_slot]"])
            (simp add: output_seen_def resource_of_def Let_def slot_state_cases)
      next
        case tex: False
        with w2 obtain s1 s2 where "direct m (resource_at ?b ?t (\<lambda>resource dims. k resource dims
            [\<lparr>os_bitmap = True, os_texture = True, os_render_target_record = target_record m ?t\<rparr>, s1, s2])) = Inr v"
          by (auto dest!: direct_span direct_record direct_extra)
        from direct_resource [OF this] obtain r where r: "r = resource_of m ?b"
          "direct m (k r (if r = 0 then (0, 0) else dims_at m (?b + 40))
            [\<lparr>os_bitmap = True, os_texture = True, os_render_target_record = target_record m ?t\<rparr>, s1, s2]) = Inr v"
          using bit tex by (auto simp: resource_of_def Let_def)
        moreover have "output_seen m entry view r (if r = 0 then (0, 0) else dims_at m (?b + 40))
            [\<lparr>os_bitmap = True, os_texture = True, os_render_target_record = target_record m ?t\<rparr>, s1, s2]"
          using mat bit tex same r(1) by (simp add: output_seen_def Let_def slot_state_cases)
        ultimately show ?thesis
          by blast
      qed
    qed
  qed
qed

lemma direct_fields:
  assumes "direct m (fields_at view k) = Inr v"
  shows "direct m (k [dims_at m (view + 16), dims_at m (view + 24), dims_at m (view + 32)]
     [word64_at m (view + 48), word64_at m (view + 56)]) = Inr v"
  using assms by (simp add: fields_at_def pair_at_def direct_field dims_at_def field_pieces add.assoc)


lemma two_bytes_seven:
  assumes "ucast (x :: u8) OR push_bit 8 (ucast (y :: u8)) = (7 :: u32)"
  shows "x = 7 \<and> y = 0"
proof -
  have "take_bit 8 (ucast x OR push_bit 8 (ucast y)) = (ucast x :: u32)"
    by (rule bit_word_eqI) (auto simp: bit_simps dest: bit_imp_le_length)
  then have "(ucast x :: u32) = take_bit 8 7"
    by (simp only: assms)
  moreover have "drop_bit 8 (ucast x OR push_bit 8 (ucast y)) = (ucast y :: u32)"
    by (rule bit_word_eqI) (auto simp: bit_simps dest: bit_imp_le_length)
  then have "(ucast y :: u32) = drop_bit 8 7"
    by (simp only: assms)
  ultimately have "(ucast (ucast x :: u32) :: u8) = 7" "(ucast (ucast y :: u32) :: u8) = 0"
    by simp_all
  then show ?thesis
    by (simp add: ucast_up_ucast_id is_up)
qed

lemma direct_unless: "direct m (if c then Refuse x else w) = Inr v \<longleftrightarrow> \<not> c \<and> direct m w = Inr v"
  by simp

lemma direct_camera_walk:
  assumes "direct m (camera_walk entry diagnostic index mode view node) = Inr v"
  shows "ov_view_index v = index \<and> ov_mode v = mode \<and> ov_view_address v = view \<and> ov_node_address v = node \<and>
     ov_camera_address v = word64_at m (node + 256) \<and> block m (ov_camera_address v + 160) 2 = [7, 0] \<and>
     ov_fov v = word32_at m (ov_camera_address v + 1616) \<and> float_finite (ov_fov v) \<and> float_positive (ov_fov v) \<and>
     view_fields m view v \<and> view_output m entry view diagnostic v"
proof -
  let ?c = "word64_at m (node + 256)"
  let ?fov = "word32_at m (?c + 1616)"
  have d: "ucast (block m (?c + 160) 2 ! 0) OR push_bit 8 (ucast (block m (?c + 160) 2 ! 1)) = (7 :: u32) \<and>
     float_finite ?fov \<and> float_positive ?fov \<and>
     direct m (fields_at view (\<lambda>dims flags. output_at entry view diagnostic (\<lambda>resource output slots.
       Finish (ready_view index mode view node ?c ?fov dims flags resource output slots diagnostic)))) = Inr v"
    using direct_word [OF assms [unfolded camera_walk_def]]
    by (simp add: direct_field direct_unless word32_at_def)
  then have kind: "ucast (block m (?c + 160) 2 ! 0) OR push_bit 8 (ucast (block m (?c + 160) 2 ! 1)) = (7 :: u32)"
    and w: "direct m (fields_at view (\<lambda>dims flags. output_at entry view diagnostic (\<lambda>resource output slots.
       Finish (ready_view index mode view node ?c ?fov dims flags resource output slots diagnostic)))) = Inr v"
    by blast+
  obtain resource dims slots where v: "v = ready_view index mode view node ?c ?fov
     [dims_at m (view + 16), dims_at m (view + 24), dims_at m (view + 32)]
     [word64_at m (view + 48), word64_at m (view + 56)] resource dims slots diagnostic"
    and out: "output_seen m entry view resource dims slots"
    using direct_output [OF direct_fields [OF w]] by auto
  have "block m (?c + 160) 2 = [block m (?c + 160) 2 ! 0, block m (?c + 160) 2 ! 1]"
    by (simp add: block_def numeral_2_eq_2)
  then have "block m (?c + 160) 2 = [7, 0]"
    using two_bytes_seven [OF kind] by simp
  then show ?thesis
    using d out by (simp add: v ready_view_def view_fields_def view_output_def output_seen_def Let_def)
qed

lemma owned_walk_ready:
  assumes "direct m (owned_walk entry eid pool diagnostic) = Inr v" "ov_ready v"
  shows "view_chain m entry eid pool v \<and> view_fields m (ov_view_address v) v \<and>
     view_output m entry (ov_view_address v) diagnostic v"
proof -
  let ?i = "view_index (block m (entry + 76) 4)"
  let ?view = "word64_at m (ps_array pool + of_nat (nat ?i * 8))"
  let ?node = "resolved m (entry + 96)" and ?other = "resolved m (?view + 104)"
  have "direct m (if word64_at m entry \<noteq> eid \<or> word64_at m (entry + 16) \<noteq> eid then Refuse Owned_Id
     else Field_At entry 8 1 True (\<lambda>ready.
     if ready ! 0 = 0 then Finish (no_view\<lparr>ov_complete := True, ov_status := OvPending\<rparr>)
     else if ready ! 0 \<noteq> 1 then Refuse Owned_Ready_Byte
     else ready_walk entry pool diagnostic)) = Inr v"
    using direct_word [OF direct_word [OF direct_span [OF assms(1) [unfolded owned_walk_def]]]] by (simp cong: if_cong)
  then have ids: "word64_at m entry = eid" "word64_at m (entry + 16) = eid"
    and b: "direct m (if m (entry + 8) = 0 then Finish (no_view\<lparr>ov_complete := True, ov_status := OvPending\<rparr>)
     else if m (entry + 8) \<noteq> 1 then Refuse Owned_Ready_Byte else ready_walk entry pool diagnostic) = Inr v"
    by (auto simp: direct_field block_nth split: if_splits)
  from b assms(2) have ready: "m (entry + 8) = 1" and w: "direct m (ready_walk entry pool diagnostic) = Inr v"
    by (auto simp: no_view_def split: if_splits)
  have "direct m (if ?i < 0 \<or> ?i \<ge> 8 then Refuse Owned_Index
     else word_at (ps_array pool) (nat ?i * 8) True (\<lambda>view.
     if view \<noteq> vs_address (ps_slots pool ! nat ?i) then Refuse Owned_Pool_Changed
     else view_walk entry diagnostic ?i (word32_at m (entry + 24)) view)) = Inr v"
    using direct_span [OF w [unfolded ready_walk_def]]
    by (simp add: direct_field Let_def word32_at_def [symmetric] cong: if_cong)
  then have index: "0 \<le> ?i" "?i < 8" and w1: "direct m (word_at (ps_array pool) (nat ?i * 8) True (\<lambda>view.
     if view \<noteq> vs_address (ps_slots pool ! nat ?i) then Refuse Owned_Pool_Changed
     else view_walk entry diagnostic ?i (word32_at m (entry + 24)) view)) = Inr v"
    by (auto split: if_splits)
  from direct_word [OF w1] have slot: "?view = vs_address (ps_slots pool ! nat ?i)"
    and w2: "direct m (view_walk entry diagnostic ?i (word32_at m (entry + 24)) ?view) = Inr v"
    by (auto split: if_splits)
  have "direct m (if ?node = 0 \<or> ?other = 0 then Refuse Owned_Node_Missing
     else if ?node \<noteq> ?other then Refuse Owned_Node
     else camera_walk entry diagnostic ?i (word32_at m (entry + 24)) ?view ?node) = Inr v"
    using direct_handle [OF direct_handle [OF direct_span [OF w2 [unfolded view_walk_def]]]] by (simp cong: if_cong)
  then have node: "?node \<noteq> 0" "?other = ?node"
    and w3: "direct m (camera_walk entry diagnostic ?i (word32_at m (entry + 24)) ?view ?node) = Inr v"
    by (auto split: if_splits)
  note c = direct_camera_walk [OF w3]
  have "?i = sint (word32_at m (entry + 76))"
    by (simp add: view_index_def word32_at_def)
  with c ids ready index slot node show ?thesis
    unfolding view_chain_def by auto
qed


lemma direct_calm: "fits w nf ns \<Longrightarrow> direct m w = Inl x \<Longrightarrow> \<not> memory_refusal x"
proof (induction w arbitrary: nf ns)
  case (Span_At a b e al w)
  then show ?case
    by (auto simp: direct.simps(3) memory_refusal_def split: if_splits)
next
  case (Field_At a off n al k)
  show ?case
  proof (cases "in_range al a off n")
    case True
    then have "direct m (k (block m (a + of_nat off) n)) = Inl x" "fits (k (block m (a + of_nat off) n)) (nf - 1) ns"
      using Field_At.prems by (auto simp: direct.simps(4) split: if_splits)
    then show ?thesis
      using Field_At.IH by blast
  next
    case False
    then show ?thesis
      using Field_At.prems by (auto simp: direct.simps(4) memory_refusal_def split: if_splits)
  qed
qed auto

text \<open>What a walk may end with.\<close>

primrec ends_in :: "('a \<Rightarrow> bool) \<Rightarrow> 'a walk \<Rightarrow> bool" where
  "ends_in P (Finish v) = P v"
| "ends_in P (Refuse x) = True"
| "ends_in P (Span_At a b e al w) = ends_in P w"
| "ends_in P (Field_At a off n al k) = (\<forall>b. ends_in P (k b))"

lemma direct_ends: "ends_in P w \<Longrightarrow> direct m w = Inr v \<Longrightarrow> P v"
  by (induction w) (auto simp: direct.simps(3,4) split: if_splits)

lemma ends_steps:
  "(\<And>v. ends_in P (k v)) \<Longrightarrow> ends_in P (word_at a off al k)"
  "(\<And>v. ends_in P (k v)) \<Longrightarrow> ends_in P (handle_at a off k)"
  "(\<And>b. ends_in P (l b)) \<Longrightarrow> ends_in P (record_at a l)"
  by (simp_all add: word_at_def handle_at_def record_at_def Let_def)

lemma ends_slot: "(\<And>s. ends_in P (k s)) \<Longrightarrow> ends_in P (slot_at a off k)"
  unfolding slot_at_def by (auto intro!: ends_steps)

lemma ends_extra: "(\<And>s t. ends_in P (k s t)) \<Longrightarrow> ends_in P (extra_slots_at d a k)"
  unfolding extra_slots_at_def by (auto intro!: ends_slot)

lemma ends_resource: "(\<And>v d. ends_in P (k v d)) \<Longrightarrow> ends_in P (resource_at a b k)"
  unfolding resource_at_def by (auto intro!: ends_steps)

lemma ends_output: "(\<And>v d s. ends_in P (k v d s)) \<Longrightarrow> ends_in P (output_at entry view d k)"
  unfolding output_at_def by (auto intro!: ends_steps ends_extra ends_resource)

lemma ends_fields: "(\<And>d f. ends_in P (k d f)) \<Longrightarrow> ends_in P (fields_at view k)"
  by (simp add: fields_at_def pair_at_def)

definition settled :: "owned_view \<Rightarrow> bool" where
  "settled v \<longleftrightarrow> ov_complete v \<and> ov_read_failures v = 0 \<and> ov_status v = (if ov_ready v then OvReady else OvPending)"

lemma settled_views: "settled (ready_view i n view node c fov d fl r out sl dg)"
  "settled (no_view\<lparr>ov_complete := True, ov_status := OvPending\<rparr>)"
  by (simp_all add: settled_def ready_view_def no_view_def)

lemma owned_walk_ends: "ends_in settled (owned_walk entry eid pool diagnostic)"
  unfolding owned_walk_def ready_walk_def view_walk_def camera_walk_def
  by (auto simp: settled_views Let_def intro!: ends_steps ends_fields ends_output)

text \<open>C21: On a memory that does not change and can be read, the inspection of an owned view never runs out
  of its 64 observations, 16 spans or 8192 bytes and never reports a failed or changed read.  A view
  it reports ready is the one the memory describes: the entry carries the expected id twice and is
  ready, its index selects the very view the pool lists, both node handles resolve to one node whose
  camera is of type seven with a positive field of view, and the dimensions, the flags, the output
  slot and the resource are those at the end of the chain.\<close>

theorem owned_view_describes_memory:
  assumes "steady env m" "readable env"
  shows "let v = inspect_owned_view env entry eid pool diagnostic in
     ov_status v \<notin> {OvReadFailed, OvChanged, OvReadBudgetExhausted} \<and> ov_read_failures v = 0 \<and>
     (ov_ready v \<longrightarrow> view_chain m entry eid pool v \<and> view_fields m (ov_view_address v) v \<and>
        view_output m entry (ov_view_address v) diagnostic v)"
proof -
  obtain r where r: "traced_walk env (owned_walk entry eid pool diagnostic) = (direct m (owned_walk entry eid pool diagnostic), r)"
    "wr_failures r = 0"
    using traced_walk_direct [OF assms owned_walk_fits] by blast
  have counts: "view_chain m entry eid pool (owned_counts r v) = view_chain m entry eid pool v"
    "view_fields m a (owned_counts r v) = view_fields m a v" "view_output m entry a diagnostic (owned_counts r v) = view_output m entry a diagnostic v"
    "ov_view_address (owned_counts r v) = ov_view_address v" "ov_ready (owned_counts r v) = ov_ready v"
    "ov_status (owned_counts r v) = ov_status v" "ov_read_failures (owned_counts r v) = 0" for v a
    by (simp_all add: owned_counts_def view_chain_def view_fields_def view_output_def r(2))
  have early: "ov_status (owned_refused x) = refusal_status x" "\<not> ov_ready (owned_refused x)" "ov_read_failures (owned_refused x) = 0" for x
    by (simp_all add: owned_refused_def no_view_def)
  show ?thesis
  proof (cases "eid = 0 \<or> \<not> pointer_range entry 0 8 \<or> \<not> valid_pool pool")
    case True
    then show ?thesis
      by (auto simp: inspect_owned_view_def early Let_def)
  next
    case False
    then have v: "inspect_owned_view env entry eid pool diagnostic =
        owned_counts r (case direct m (owned_walk entry eid pool diagnostic) of Inl x \<Rightarrow> owned_refused x | Inr v \<Rightarrow> v)"
      by (auto simp: inspect_owned_view_def r(1) split: sum.split)
    show ?thesis
    proof (cases "direct m (owned_walk entry eid pool diagnostic)")
      case (Inl x)
      then show ?thesis
        using direct_calm [OF owned_walk_fits Inl] by (simp add: v counts early Let_def memory_refusal_def)
    next
      case (Inr w)
      then show ?thesis
        using direct_ends [OF owned_walk_ends Inr] owned_walk_ready [OF Inr] by (auto simp: v counts Let_def settled_def)
    qed
  qed
qed


text \<open>
  A memory with one ready owned view: the entry at 0x100000 of id 5, the first view of the pool of
  \<open>demo_memory\<close>, one control record for both node handles, and no output material yet.
\<close>

definition view_memory :: "u64 \<Rightarrow> u8" where
  "view_memory a = (case map_of [(0x4002, 1), (0x100000, 5), (0x100008, 1), (0x100010, 5), (0x100018, 2), (0x100061, 2),
     (0x201, 0x30), (0x10069, 2), (0x10030, 1), (0x3101, 0x50), (0x50A0, 7), (0x5652, 0x80), (0x5653, 0x3F)] a
     of Some b \<Rightarrow> b | None \<Rightarrow> 0)"

definition view_env :: memory_env where
  "view_env = \<lparr>env_mem = (\<lambda>_. view_memory), env_ok = (\<lambda>_ _ _. True)\<rparr>"

definition view_pool :: pool_snapshot where
  "view_pool = new_snapshot\<lparr>ps_valid := True, ps_status := Complete, ps_array := 0x4000, ps_examined := 8,
     ps_slots := map (\<lambda>i. (new_slot i)\<lparr>vs_address := of_nat (i + 1) * 0x10000\<rparr>) [0..<8]\<rparr>"

lemma view_env_simple: "steady view_env view_memory" "readable view_env"
  by (simp_all add: steady_def readable_def view_env_def)

lemma view_pool_valid: "valid_pool view_pool" "ps_slots view_pool ! 0 = (new_slot 0)\<lparr>vs_address := 0x10000\<rparr>"
  "ps_array view_pool = 0x4000"
  by (simp_all add: valid_pool_def view_pool_def new_snapshot_def new_slot_def upt_conv_Cons pointer_range_def byte_range_def)

lemma view_words:
  "block view_memory 0x100000 8 = [5, 0, 0, 0, 0, 0, 0, 0]" "block view_memory 0x100010 8 = [5, 0, 0, 0, 0, 0, 0, 0]"
  "block view_memory 0x100008 1 = [1]" "block view_memory 0x100018 4 = [2, 0, 0, 0]" "block view_memory 0x10004C 4 = [0, 0, 0, 0]"
  "block view_memory 0x4000 8 = [0, 0, 1, 0, 0, 0, 0, 0]"
  "block view_memory 0x100060 16 = [0, 2, 0, 0, 0, 0, 0, 0, 0, 0, 0, 0, 0, 0, 0, 0]"
  by (simp_all add: block_def view_memory_def upt_conv_Cons)


lemma view_words_far:
  "block view_memory 0x200 8 = [0, 0x30, 0, 0, 0, 0, 0, 0]" "block view_memory 0x21C 4 = [0, 0, 0, 0]"
  "block view_memory 0x10068 16 = [0, 2, 0, 0, 0, 0, 0, 0, 0, 0, 0, 0, 0, 0, 0, 0]"
  "block view_memory 0x3100 8 = [0, 0x50, 0, 0, 0, 0, 0, 0]" "block view_memory 0x50A0 2 = [7, 0]"
  "block view_memory 0x5650 4 = [0, 0, 0x80, 0x3F]"
  "block view_memory 0x10010 8 = [0, 0, 0, 0, 0, 0, 0, 0]" "block view_memory 0x10018 8 = [0, 0, 0, 0, 0, 0, 0, 0]"
  "block view_memory 0x10020 8 = [0, 0, 0, 0, 0, 0, 0, 0]"
  "block view_memory 0x10030 16 = [1, 0, 0, 0, 0, 0, 0, 0, 0, 0, 0, 0, 0, 0, 0, 0]"
  "block view_memory 0x100050 16 = [0, 0, 0, 0, 0, 0, 0, 0, 0, 0, 0, 0, 0, 0, 0, 0]"
  "block view_memory 0x10090 16 = [0, 0, 0, 0, 0, 0, 0, 0, 0, 0, 0, 0, 0, 0, 0, 0]"
  by (simp_all add: block_def view_memory_def upt_conv_Cons)

lemma view_ready_byte: "block view_memory 0x100008 (Suc 0) = [1]"
  using view_words(3) by simp

lemma view_direct:
  "direct view_memory (owned_walk 0x100000 5 view_pool True) =
     Inr (ready_view 0 2 0x10000 0x3000 0x5000 0x3F800000 [(0, 0), (0, 0), (0, 0)] [1, 0] 0 (0, 0) (replicate 3 no_output_slot) True)"
  by (simp add: owned_walk_def ready_walk_def view_walk_def camera_walk_def output_at_def fields_at_def pair_at_def
      handle_at_def word_at_def direct.simps(3,4) view_words view_words_far le64_def le32_def view_pool_valid view_index_def
      in_range_def byte_range_def walk_span_bytes_def new_slot_def pointer_range_def float_finite_def float_positive_def Let_def
      view_ready_byte word_le_def uint_word_ariths)

lemma owned_view_describes_memory_witness:
  "ov_ready (inspect_owned_view view_env 0x100000 5 view_pool True) \<and>
   view_chain view_memory 0x100000 5 view_pool (inspect_owned_view view_env 0x100000 5 view_pool True) \<and>
   ov_camera_address (inspect_owned_view view_env 0x100000 5 view_pool True) = 0x5000"
proof -
  obtain r where "traced_walk view_env (owned_walk 0x100000 5 view_pool True) =
      (direct view_memory (owned_walk 0x100000 5 view_pool True), r)"
    using traced_walk_direct [OF view_env_simple owned_walk_fits] by blast
  then have v: "inspect_owned_view view_env 0x100000 5 view_pool True = owned_counts r
      (ready_view 0 2 0x10000 0x3000 0x5000 0x3F800000 [(0, 0), (0, 0), (0, 0)] [1, 0] 0 (0, 0) (replicate 3 no_output_slot) True)"
    by (simp add: inspect_owned_view_def view_direct view_pool_valid pointer_range_def byte_range_def)
  then have ready: "ov_ready (inspect_owned_view view_env 0x100000 5 view_pool True)"
    "ov_camera_address (inspect_owned_view view_env 0x100000 5 view_pool True) = 0x5000"
    by (simp_all add: owned_counts_def ready_view_def)
  then show ?thesis
    using owned_view_describes_memory [of view_env view_memory "0x100000" 5 view_pool True] view_env_simple by (simp add: Let_def)
qed


subsection \<open>A memory that changes during the walk\<close>

text \<open>The end of a walk, from the bytes its fields observed.\<close>

primrec replay :: "'a walk \<Rightarrow> wfield list \<Rightarrow> 'a option" where
  "replay (Finish v) fs = (if fs = [] then Some v else None)"
| "replay (Refuse x) fs = None"
| "replay (Span_At a b e al w) fs = replay w fs"
| "replay (Field_At a off n al k) fs =
     (case fs of [] \<Rightarrow> None
      | f # rest \<Rightarrow> if wf_address f = a + of_nat off \<and> wf_size f = n then replay (k (wf_bytes f)) rest else None)"

lemma take_span_fields: "take_span env a b e al r = (x, r') \<Longrightarrow> wr_fields r' = wr_fields r"
  by (auto simp: take_span_def read_bytes_def Let_def split: if_splits sum.splits prod.splits)

lemma take_field_fields:
  "take_field env a off n al r = (Inr bs, r') \<Longrightarrow>
     \<exists>f. wr_fields r' = wr_fields r @ [f] \<and> wf_address f = a + of_nat off \<and> wf_size f = n \<and> wf_bytes f = bs"
  by (auto simp: take_field_def read_bytes_def note_field_def Let_def split: if_splits sum.splits prod.splits option.splits)

lemma run_replay:
  "run_walk env w r = (Inr v, r') \<Longrightarrow> \<exists>fs. wr_fields r' = wr_fields r @ fs \<and> replay w fs = Some v"
proof (induction w arbitrary: r)
  case (Span_At a b e al w)
  then obtain r1 where "take_span env a b e al r = (Inr (), r1)" "run_walk env w r1 = (Inr v, r')"
    by (auto split: sum.splits prod.splits)
  then show ?case
    using Span_At.IH take_span_fields by fastforce
next
  case (Field_At a off n al k)
  then obtain bs r1 where t: "take_field env a off n al r = (Inr bs, r1)" "run_walk env (k bs) r1 = (Inr v, r')"
    by (auto split: sum.splits prod.splits)
  obtain f where f: "wr_fields r1 = wr_fields r @ [f]" "wf_address f = a + of_nat off" "wf_size f = n" "wf_bytes f = bs"
    using take_field_fields [OF t(1)] by blast
  obtain fs where "wr_fields r' = wr_fields r1 @ fs" "replay (k bs) fs = Some v"
    using Field_At.IH [OF rangeI t(2)] by blast
  with f show ?case
    by (intro exI [of _ "f # fs"]) simp
qed auto

text \<open>Each field was read before the end of the walk, and one of the reads of the trace serves it.\<close>

definition field_read :: "memory_env \<Rightarrow> reader \<Rightarrow> nat \<Rightarrow> bool" where
  "field_read env r i \<longleftrightarrow> (let f = wr_fields r ! i in
     (\<exists>t < wr_clock r. wf_bytes f = block (env_mem env t) (wf_address f) (wf_size f)) \<and>
     (case wf_span f of None \<Rightarrow> Field_Read i \<in> set (wr_order r)
      | Some j \<Rightarrow> j < length (wr_spans r) \<and> span_serves (wr_spans r ! j) (wf_address f) (wf_size f)))"

definition span_read :: "memory_env \<Rightarrow> reader \<Rightarrow> nat \<Rightarrow> bool" where
  "span_read env r j \<longleftrightarrow> (let v = wr_spans r ! j in
     (\<exists>t < wr_clock r. ws_bytes v = block (env_mem env t) (ws_address v) (ws_size v)) \<and> Span_Read j \<in> set (wr_order r))"

definition all_read :: "memory_env \<Rightarrow> reader \<Rightarrow> bool" where
  "all_read env r \<longleftrightarrow> (\<forall>i < length (wr_fields r). field_read env r i) \<and>
     (\<forall>j < length (wr_spans r). span_read env r j) \<and> wr_bytes r \<le> walk_budget"

lemma all_read_extend:
  assumes r: "all_read env r"
    and parts: "wr_fields r' = wr_fields r @ fs" "wr_spans r' = wr_spans r @ vs" "set (wr_order r) \<subseteq> set (wr_order r')"
      "wr_clock r \<le> wr_clock r'" "wr_bytes r' \<le> walk_budget"
    and new: "\<And>i. length (wr_fields r) \<le> i \<Longrightarrow> i < length (wr_fields r') \<Longrightarrow> field_read env r' i"
      "\<And>j. length (wr_spans r) \<le> j \<Longrightarrow> j < length (wr_spans r') \<Longrightarrow> span_read env r' j"
  shows "all_read env r'"
proof -
  have "field_read env r' i" if "i < length (wr_fields r)" for i
  proof -
    have "wr_fields r' ! i = wr_fields r ! i"
      using that by (simp add: parts nth_append)
    moreover have "field_read env r i"
      using r that by (simp add: all_read_def)
    ultimately show ?thesis
      using parts(3,4) by (auto simp: field_read_def Let_def parts(2) nth_append intro: order_less_le_trans split: option.splits)
  qed
  moreover have "span_read env r' j" if "j < length (wr_spans r)" for j
  proof -
    have "wr_spans r' ! j = wr_spans r ! j"
      using that by (simp add: parts nth_append)
    moreover have "span_read env r j"
      using r that by (simp add: all_read_def)
    ultimately show ?thesis
      using parts(3,4) by (auto simp: span_read_def Let_def intro: order_less_le_trans)
  qed
  ultimately show ?thesis
    unfolding all_read_def using new parts(5) by (metis not_le)
qed

lemma read_bytes_Inr:
  "read_bytes env a n r = (Inr bs, r') \<Longrightarrow> bs = block (env_mem env (wr_clock r)) a n \<and>
     r' = r\<lparr>wr_clock := wr_clock r + 1, wr_bytes := wr_bytes r + n\<rparr> \<and> wr_bytes r + n \<le> walk_budget"
  by (auto simp: read_bytes_def Let_def split: if_splits)

lemma take_span_read:
  assumes "take_span env a b e al r = (Inr u, r')" "all_read env r"
  shows "all_read env r'"
proof (cases "list_ex (\<lambda>v. span_serves v (a + of_nat b) (e - b)) (wr_spans r)")
  case True
  then show ?thesis
    using assms by (auto simp: take_span_def split: if_splits)
next
  case False
  then obtain bs r1 where t: "read_bytes env (a + of_nat b) (e - b) r = (Inr bs, r1)"
    and r': "r' = r1\<lparr>wr_spans := wr_spans r1 @ [\<lparr>ws_address = a + of_nat b, ws_size = e - b, ws_bytes = bs\<rparr>],
             wr_order := wr_order r1 @ [Span_Read (length (wr_spans r1))]\<rparr>"
    using assms(1) by (auto simp: take_span_def split: if_splits sum.splits prod.splits)
  note rb = read_bytes_Inr [OF t]
  have "wr_clock r < wr_clock r'" "bs = block (env_mem env (wr_clock r)) (a + of_nat b) (e - b)"
    using rb by (simp_all add: r')
  then show ?thesis
    using rb r' by (intro all_read_extend [OF assms(2), of _ "[]" "[\<lparr>ws_address = a + of_nat b, ws_size = e - b, ws_bytes = bs\<rparr>]"])
      (auto simp: span_read_def nth_append)
qed

lemma take_field_read:
  assumes "take_field env a off n al r = (Inr bs, r')" "all_read env r"
  shows "all_read env r'"
proof (cases "first_index (\<lambda>v. span_serves v (a + of_nat off) n) (wr_spans r)")
  case (Some i)
  then have i: "i < length (wr_spans r)" and serves: "span_serves (wr_spans r ! i) (a + of_nat off) n"
    using first_index_Some [OF Some] by auto
  let ?f = "\<lparr>wf_address = a + of_nat off, wf_size = n, wf_span = Some i, wf_bytes = bs\<rparr>"
  have r': "r' = r\<lparr>wr_fields := wr_fields r @ [?f]\<rparr>"
    and bs: "bs = take n (drop (unat (a + of_nat off - ws_address (wr_spans r ! i))) (ws_bytes (wr_spans r ! i)))"
    using assms(1) Some by (auto simp: take_field_def note_field_def Let_def split: if_splits)
  have "span_read env r i"
    using assms(2) i by (simp add: all_read_def)
  then obtain t where "t < wr_clock r" "bs = block (env_mem env t) (a + of_nat off) n"
    using serves_block [OF serves] by (auto simp: span_read_def Let_def bs)
  then show ?thesis
    using i serves assms(2)
    by (intro all_read_extend [OF assms(2), of _ "[?f]" "[]"]) (auto simp: r' field_read_def nth_append all_read_def)
next
  case None
  then obtain r1 where t: "read_bytes env (a + of_nat off) n r = (Inr bs, r1)"
    and r': "r' = note_field (a + of_nat off) n None bs (r1\<lparr>wr_order := wr_order r1 @ [Field_Read (length (wr_fields r1))]\<rparr>)"
    using assms(1) by (auto simp: take_field_def Let_def split: if_splits sum.splits prod.splits)
  note rb = read_bytes_Inr [OF t]
  let ?f = "\<lparr>wf_address = a + of_nat off, wf_size = n, wf_span = None, wf_bytes = bs\<rparr>"
  have "wr_clock r < wr_clock r'" "bs = block (env_mem env (wr_clock r)) (a + of_nat off) n"
    using rb by (simp_all add: r' note_field_def)
  then show ?thesis
    using rb r' by (intro all_read_extend [OF assms(2), of _ "[?f]" "[]"])
      (auto simp: note_field_def field_read_def nth_append)
qed

lemma run_walk_read: "run_walk env w r = (Inr v, r') \<Longrightarrow> all_read env r \<Longrightarrow> all_read env r'"
proof (induction w arbitrary: r)
  case (Span_At a b e al w)
  then show ?case
    using take_span_read by (fastforce split: sum.splits prod.splits)
next
  case (Field_At a off n al k)
  then obtain bs r1 where "take_field env a off n al r = (Inr bs, r1)" "run_walk env (k bs) r1 = (Inr v, r')"
    by (auto split: sum.splits prod.splits)
  then show ?case
    using Field_At.IH [OF rangeI] take_field_read Field_At.prems(2) by blast
qed auto


fun item_same :: "memory_env \<Rightarrow> nat \<Rightarrow> reader \<Rightarrow> read_item \<Rightarrow> bool" where
  "item_same env t r (Field_Read i) =
     (let f = wr_fields r ! i in take (wf_size f) (block (env_mem env t) (wf_address f) (wf_size f)) = take (wf_size f) (wf_bytes f))"
| "item_same env t r (Span_Read j) =
     (let v = wr_spans r ! j in list_all (served_same j v (block (env_mem env t) (ws_address v) (ws_size v))) (wr_fields r))"

lemma again_item_same:
  assumes "again_item env x r = (Inr u, r')"
  shows "item_same env (wr_clock r) r x \<and> wr_fields r' = wr_fields r \<and> wr_spans r' = wr_spans r \<and>
     wr_clock r' = wr_clock r + 1 \<and> wr_bytes r' \<le> walk_budget"
proof (cases x)
  case (Field_Read i)
  then obtain bs where "read_bytes env (wf_address (wr_fields r ! i)) (wf_size (wr_fields r ! i)) r = (Inr bs, r')"
    and "take (wf_size (wr_fields r ! i)) bs = take (wf_size (wr_fields r ! i)) (wf_bytes (wr_fields r ! i))"
    using assms by (auto simp: Let_def split: sum.splits prod.splits if_splits)
  then show ?thesis
    using read_bytes_Inr Field_Read by fastforce
next
  case (Span_Read j)
  then obtain bs where t: "read_bytes env (ws_address (wr_spans r ! j)) (ws_size (wr_spans r ! j)) r = (Inr bs, r')"
    and "list_all (served_same j (wr_spans r ! j) bs) (wr_fields r')"
    using assms by (auto simp: Let_def split: sum.splits prod.splits if_splits)
  then show ?thesis
    using read_bytes_Inr [OF t] Span_Read by (simp add: Let_def)
qed

lemma again_same:
  "again env xs r = (Inr u, r') \<Longrightarrow> wr_bytes r \<le> walk_budget \<Longrightarrow>
     wr_clock r \<le> wr_clock r' \<and> wr_bytes r' \<le> walk_budget \<and>
     (\<forall>x \<in> set xs. \<exists>t. wr_clock r \<le> t \<and> item_same env t r x)"
proof (induction xs arbitrary: r)
  case (Cons x xs)
  then obtain r1 where r1: "again_item env x r = (Inr (), r1)" "again env xs r1 = (Inr u, r')"
    by (auto split: sum.splits prod.splits)
  note same = again_item_same [OF r1(1)]
  have keep: "item_same env t r1 y = item_same env t r y" for t y
    using same by (cases y) simp_all
  have tail: "wr_clock r1 \<le> wr_clock r' \<and> wr_bytes r' \<le> walk_budget \<and> (\<forall>y \<in> set xs. \<exists>t. wr_clock r1 \<le> t \<and> item_same env t r1 y)"
    using Cons.IH [OF r1(2)] same by blast
  have "\<exists>t. wr_clock r \<le> t \<and> item_same env t r y" if "y \<in> set (x # xs)" for y
    using that tail same keep by (metis add_leD1 le_refl order_trans set_ConsD)
  with tail same show ?case
    by simp
qed simp

text \<open>A field of the trace was read twice with the same bytes, the second time after the whole walk.\<close>

definition seen_twice :: "memory_env \<Rightarrow> wfield \<Rightarrow> bool" where
  "seen_twice env f \<longleftrightarrow> (\<exists>t u. t < u \<and> wf_bytes f = block (env_mem env t) (wf_address f) (wf_size f) \<and>
     wf_bytes f = block (env_mem env u) (wf_address f) (wf_size f))"

lemma field_seen_twice:
  assumes r: "all_read env r" and xs: "\<forall>x \<in> set (wr_order r). \<exists>t. wr_clock r \<le> t \<and> item_same env t r x"
    and i: "i < length (wr_fields r)"
  shows "seen_twice env (wr_fields r ! i)"
proof -
  let ?f = "wr_fields r ! i"
  have "field_read env r i"
    using r i by (simp add: all_read_def)
  then obtain t where t: "t < wr_clock r" "wf_bytes ?f = block (env_mem env t) (wf_address ?f) (wf_size ?f)"
    by (auto simp: field_read_def Let_def)
  then have full: "take (wf_size ?f) (wf_bytes ?f) = wf_bytes ?f"
    by simp
  have "\<exists>u. wr_clock r \<le> u \<and> wf_bytes ?f = block (env_mem env u) (wf_address ?f) (wf_size ?f)"
  proof (cases "wf_span ?f")
    case None
    then have "Field_Read i \<in> set (wr_order r)"
      using \<open>field_read env r i\<close> by (simp add: field_read_def Let_def)
    then show ?thesis
      using xs full by (fastforce simp: Let_def)
  next
    case (Some j)
    let ?v = "wr_spans r ! j"
    from Some have j: "j < length (wr_spans r)" "span_serves ?v (wf_address ?f) (wf_size ?f)"
      using \<open>field_read env r i\<close> by (simp_all add: field_read_def Let_def)
    then have "Span_Read j \<in> set (wr_order r)"
      using r by (simp add: all_read_def span_read_def Let_def)
    then obtain u where u: "wr_clock r \<le> u" "item_same env u r (Span_Read j)"
      using xs by blast
    then have "served_same j ?v (block (env_mem env u) (ws_address ?v) (ws_size ?v)) ?f"
      using i by (simp add: Let_def list_all_length)
    then have "wf_bytes ?f = block (env_mem env u) (wf_address ?f) (wf_size ?f)"
      using Some full serves_block [OF j(2), of "env_mem env u"] by (simp add: served_same_def)
    with u(1) show ?thesis
      by blast
  qed
  with t show ?thesis
    unfolding seen_twice_def by (meson order_less_le_trans)
qed

theorem traced_walk_twice:
  assumes "traced_walk env w = (Inr v, r)"
  shows "\<exists>fs. replay w fs = Some v \<and> list_all (seen_twice env) fs \<and> wr_bytes r \<le> 8192"
proof -
  obtain r1 where r1: "run_walk env w new_reader = (Inr v, r1)" "again env (wr_order r1) r1 = (Inr (), r)"
    using assms by (auto simp: traced_walk_def split: sum.splits prod.splits)
  have start: "all_read env new_reader"
    by (simp add: all_read_def new_reader_def)
  note read = run_walk_read [OF r1(1) start]
  have "wr_bytes r1 \<le> walk_budget"
    using read by (simp add: all_read_def)
  note same = again_same [OF r1(2) this]
  obtain fs where fs: "wr_fields r1 = fs" "replay w fs = Some v"
    using run_replay [OF r1(1)] by (auto simp: new_reader_def)
  have "list_all (seen_twice env) fs"
    using field_seen_twice [OF read] same fs(1) by (auto simp: list_all_length)
  then show ?thesis
    using fs same by (auto simp: walk_budget_def)
qed

text \<open>Whatever the memory does between two reads, a complete inspection of an owned view, pending or
  ready, is determined by fields each of which was read twice with the same bytes, the second time
  after the whole chain had been followed, within 8192 attempted bytes.\<close>

theorem owned_view_read_twice:
  assumes "ov_complete (inspect_owned_view env entry eid pool diagnostic)"
  shows "\<exists>fs v r. replay (owned_walk entry eid pool diagnostic) fs = Some v \<and>
     inspect_owned_view env entry eid pool diagnostic = owned_counts r v \<and>
     list_all (seen_twice env) fs \<and> wr_bytes r \<le> 8192"
proof -
  have refused: "\<not> ov_complete (owned_refused x)" "\<not> ov_complete (owned_counts r (owned_refused x))" for r x
    by (simp_all add: owned_refused_def owned_counts_def no_view_def)
  then obtain v r where t: "traced_walk env (owned_walk entry eid pool diagnostic) = (Inr v, r)"
    and v: "inspect_owned_view env entry eid pool diagnostic = owned_counts r v"
    using assms by (auto simp: inspect_owned_view_def split: if_splits sum.splits prod.splits)
  then show ?thesis
    using traced_walk_twice [OF t] v by blast
qed

lemma owned_view_read_twice_witness:
  "ov_complete (inspect_owned_view view_env 0x100000 5 view_pool True) \<and>
   (\<exists>fs v r. replay (owned_walk 0x100000 5 view_pool True) fs = Some v \<and>
     inspect_owned_view view_env 0x100000 5 view_pool True = owned_counts r v \<and>
     list_all (seen_twice view_env) fs \<and> wr_bytes r \<le> 8192)"
proof -
  obtain r where "traced_walk view_env (owned_walk 0x100000 5 view_pool True) =
      (direct view_memory (owned_walk 0x100000 5 view_pool True), r)"
    using traced_walk_direct [OF view_env_simple owned_walk_fits] by blast
  then have "ov_complete (inspect_owned_view view_env 0x100000 5 view_pool True)"
    by (simp add: inspect_owned_view_def view_direct view_pool_valid pointer_range_def byte_range_def owned_counts_def ready_view_def)
  then show ?thesis
    using owned_view_read_twice by blast
qed

text \<open>The narrower authority of a gate closure rests on the same trace.\<close>

theorem close_view_read_twice:
  assumes "cl_complete (inspect_owned_view_for_close env entry eid pool)"
  shows "\<exists>fs v r. replay (close_walk entry eid pool) fs = Some v \<and>
     inspect_owned_view_for_close env entry eid pool = close_counts r v \<and>
     list_all (seen_twice env) fs \<and> wr_bytes r \<le> 8192"
proof -
  have refused: "\<not> cl_complete (close_refused x)" "\<not> cl_complete (close_counts r (close_refused x))" for r x
    by (simp_all add: close_refused_def close_counts_def no_close_def)
  then obtain v r where t: "traced_walk env (close_walk entry eid pool) = (Inr v, r)"
    and v: "inspect_owned_view_for_close env entry eid pool = close_counts r v"
    using assms by (auto simp: inspect_owned_view_for_close_def split: if_splits sum.splits prod.splits)
  then show ?thesis
    using traced_walk_twice [OF t] v by blast
qed

end
