(* ===== verification/Guarded_Write.thy ===== *)
theory Guarded_Write
  imports Owned_View View_Pool
begin

text \<open>
  The writes into engine memory: the pane dimensions of an owned view (\<open>src/camera/view_resize.hpp\<close> and
  \<open>.cpp\<close>), its anti-aliasing bit (\<open>view_aa.hpp\<close>, \<open>view_aa.cpp\<close>) and the far planes of its camera
  (\<open>view_clip.hpp\<close>, \<open>view_clip.cpp\<close>).  Each proves the span writable, reads it, compares it with what
  the caller saw, writes, and reads again.  The helpers of \<open>local_memory.hpp\<close>, the image reader and
  the engine callbacks are operations of an environment whose state they may change in any way; a
  logging environment records the calls, and a plain memory gives the functional behaviour.
\<close>

subsection \<open>Native operations\<close>

record 'e native_ops =
  op_writable :: "u64 \<Rightarrow> nat \<Rightarrow> 'e \<Rightarrow> bool \<times> 'e"
  op_read :: "u64 \<Rightarrow> nat \<Rightarrow> 'e \<Rightarrow> u8 list option \<times> 'e"
  op_store :: "u64 \<Rightarrow> u8 list \<Rightarrow> 'e \<Rightarrow> bool \<times> 'e"
  op_image :: "u32 \<Rightarrow> 'e \<Rightarrow> u64 option \<times> 'e"
  op_refresh :: "(u64 \<Rightarrow> 'e \<Rightarrow> bool \<times> 'e) option"
  op_ensure :: "(u64 \<Rightarrow> 'e \<Rightarrow> u64 \<times> 'e) option"

definition bytes32 :: "u32 \<Rightarrow> u8 list" where
  "bytes32 w = [ucast w, ucast (drop_bit 8 w), ucast (drop_bit 16 w), ucast (drop_bit 24 w)]"

definition bytes64 :: "u64 \<Rightarrow> u8 list" where
  "bytes64 w = bytes32 (ucast w) @ bytes32 (ucast (drop_bit 32 w))"

definition dim_of :: "u8 list \<Rightarrow> dimension" where
  "dim_of bs = (le32 bs, le32 (drop 4 bs))"

definition dims_of :: "u8 list \<Rightarrow> dimension list" where
  "dims_of bs = [dim_of bs, dim_of (drop 8 bs), dim_of (drop 16 bs)]"

definition dims_bytes :: "dimension list \<Rightarrow> u8 list" where
  "dims_bytes ds = concat (map (\<lambda>(w, h). bytes32 w @ bytes32 h) ds)"

definition flag_words :: "u8 list \<Rightarrow> u64 list" where
  "flag_words bs = [le64 bs, le64 (drop 8 bs)]"

subsection \<open>Resizing an owned view\<close>

definition maximum_dimension :: int where "maximum_dimension = 16384"
definition minimum_dimension :: int where "minimum_dimension = 32"

definition dimensions_bounded :: "dimension list \<Rightarrow> bool" where
  "dimensions_bounded ds \<longleftrightarrow> list_all (\<lambda>(w, h).
     \<not> (sint w < minimum_dimension \<or> sint w > maximum_dimension) \<and>
     \<not> (sint h < minimum_dimension \<or> sint h > maximum_dimension)) ds"

definition plan_view_resize :: "dimension list \<Rightarrow> nat \<Rightarrow> dimension list \<Rightarrow> bool \<times> dimension list" where
  "plan_view_resize inherited feed panes =
     (let w = sint (fst (panes ! feed)); h = sint (snd (panes ! feed))
      in if \<not> dimensions_bounded inherited \<or> feed \<ge> length panes \<or> w < 32 \<or> w > 2048 \<or> h < 32 \<or> h > 2048
         then (False, replicate 3 (0, 0)) else (True, replicate 3 (panes ! feed)))"

datatype resize_status =
  Not_Attempted | Resized | Dimensions_Restored | Output_Mismatch | Unchanged | Invalid_Snapshot
| Invalid_Dimensions | Gate_Open | Invalid_Mapping | Fields_Changed | Fields_Unread | Write_Failed
| Refresh_Failed | Allocation_Failed

fun view_resize_status_name :: "resize_status \<Rightarrow> string" where
  "view_resize_status_name Not_Attempted = ''not attempted''"
| "view_resize_status_name Resized = ''resized''"
| "view_resize_status_name Dimensions_Restored = ''dimension fields restored; existing output retained''"
| "view_resize_status_name Output_Mismatch = ''existing output does not match the requested pane; no reallocation attempted''"
| "view_resize_status_name Unchanged = ''already at requested resolution''"
| "view_resize_status_name Invalid_Snapshot = ''owned-view proof is incomplete''"
| "view_resize_status_name Invalid_Dimensions = ''unsupported inherited dimensions''"
| "view_resize_status_name Gate_Open = ''render gate is not closed''"
| "view_resize_status_name Invalid_Mapping = ''view fields are not committed writable private memory''"
| "view_resize_status_name Fields_Changed = ''view fields changed during resize''"
| "view_resize_status_name Fields_Unread = ''view field reread failed''"
| "view_resize_status_name Write_Failed = ''dimension write failed''"
| "view_resize_status_name Refresh_Failed = ''projection refresh refused''"
| "view_resize_status_name Allocation_Failed = ''output routine returned an unexpected handle address''"

record resize_result =
  rr_status :: resize_status
  rr_write_attempted :: bool
  rr_complete :: bool

definition resize_fail :: "resize_status \<Rightarrow> bool \<Rightarrow> resize_result" where
  "resize_fail status attempted = \<lparr>rr_status = status, rr_write_attempted = attempted, rr_complete = False\<rparr>"

text \<open>Both fields read and compared; the status of the failure, if any.\<close>

definition verify_fields :: "'e native_ops \<Rightarrow> owned_view \<Rightarrow> dimension list \<Rightarrow> 'e \<Rightarrow> resize_status option \<times> 'e" where
  "verify_fields ops view expected e =
     (case op_read ops (ov_view_address view + 16) 24 e of
        (None, e1) \<Rightarrow> (Some Fields_Unread, e1)
      | (Some current, e1) \<Rightarrow>
          (case op_read ops (ov_view_address view + 48) 16 e1 of
             (None, e2) \<Rightarrow> (Some Fields_Unread, e2)
           | (Some flags, e2) \<Rightarrow>
               (if dims_of current \<noteq> expected \<or> flag_words flags \<noteq> ov_flags view then Some Fields_Changed else None, e2)))"

definition snapshot_refused :: "'e native_ops \<Rightarrow> owned_view \<Rightarrow> bool \<Rightarrow> bool" where
  "snapshot_refused ops view initialize \<longleftrightarrow>
     \<not> ov_complete view \<or> \<not> ov_ready view \<or> ov_status view \<noteq> OvReady \<or> ov_read_failures view \<noteq> 0 \<or>
     ov_error view \<noteq> [] \<or> ov_view_address view = 0 \<or> ov_view_address view AND 7 \<noteq> 0 \<or>
     ov_view_address view > u64_max - 160 \<or> op_refresh ops = None \<or> initialize \<and> op_ensure ops = None"

text \<open>Why the request is refused before any operation.\<close>

definition resize_refused :: "'e native_ops \<Rightarrow> owned_view \<Rightarrow> nat \<Rightarrow> dimension list \<Rightarrow> dimension list \<Rightarrow> bool \<Rightarrow> resize_status option" where
  "resize_refused ops view feed desired panes initialize =
     (if snapshot_refused ops view initialize then Some Invalid_Snapshot
      else if \<not> dimensions_bounded (ov_dimensions view) \<or> \<not> fst (plan_view_resize desired feed panes) \<or>
          desired \<noteq> snd (plan_view_resize desired feed panes) then Some Invalid_Dimensions
      else if \<not> gate_closed view then Some Gate_Open
      else if \<not> initialize \<and> (ov_mode view \<noteq> 2 \<or> \<not> ov_resource_present view \<or> ov_output_dimensions view \<noteq> desired ! 0)
        then Some Output_Mismatch
      else None)"

definition finish_resize :: "'e native_ops \<Rightarrow> owned_view \<Rightarrow> dimension list \<Rightarrow> bool \<Rightarrow> 'e \<Rightarrow> resize_result \<times> 'e" where
  "finish_resize ops view desired initialize e =
     (case verify_fields ops view desired e of
        (Some status, e1) \<Rightarrow> (resize_fail status True, e1)
      | (None, e1) \<Rightarrow>
          (\<lparr>rr_status = (if initialize then Resized else Dimensions_Restored), rr_write_attempted = True,
             rr_complete = True\<rparr>, e1))"

definition refresh_and_output ::
  "'e native_ops \<Rightarrow> owned_view \<Rightarrow> dimension list \<Rightarrow> bool \<Rightarrow> 'e \<Rightarrow> resize_result \<times> 'e" where
  "refresh_and_output ops view desired initialize e =
     (case the (op_refresh ops) (ov_view_address view) e of
        (False, e1) \<Rightarrow> (resize_fail Refresh_Failed True, e1)
      | (True, e1) \<Rightarrow>
          (case verify_fields ops view desired e1 of
             (Some status, e2) \<Rightarrow> (resize_fail status True, e2)
           | (None, e2) \<Rightarrow>
               if initialize then
                 (case the (op_ensure ops) (ov_view_address view) e2 of (h, e3) \<Rightarrow>
                    if h \<noteq> ov_view_address view + 144 then (resize_fail Allocation_Failed True, e3)
                    else finish_resize ops view desired initialize e3)
               else finish_resize ops view desired initialize e2))"

definition store_dimensions ::
  "'e native_ops \<Rightarrow> owned_view \<Rightarrow> dimension list \<Rightarrow> bool \<Rightarrow> 'e \<Rightarrow> resize_result \<times> 'e" where
  "store_dimensions ops view desired initialize e =
     (case op_store ops (ov_view_address view + 16) (dims_bytes desired) e of
        (False, e1) \<Rightarrow> (resize_fail Write_Failed True, e1)
      | (True, e1) \<Rightarrow>
          (case verify_fields ops view desired e1 of
             (Some status, e2) \<Rightarrow> (resize_fail status True, e2)
           | (None, e2) \<Rightarrow> refresh_and_output ops view desired initialize e2))"

definition change_view_dimensions ::
  "'e native_ops \<Rightarrow> owned_view \<Rightarrow> nat \<Rightarrow> dimension list \<Rightarrow> dimension list \<Rightarrow> bool \<Rightarrow> 'e \<Rightarrow> resize_result \<times> 'e" where
  "change_view_dimensions ops view feed desired panes initialize e =
     (case resize_refused ops view feed desired panes initialize of
        Some status \<Rightarrow> (resize_fail status False, e)
      | None \<Rightarrow>
          (case op_writable ops (ov_view_address view + 16) 48 e of
             (False, e1) \<Rightarrow> (resize_fail Invalid_Mapping False, e1)
           | (True, e1) \<Rightarrow>
               (case verify_fields ops view (ov_dimensions view) e1 of
                  (Some status, e2) \<Rightarrow> (resize_fail status False, e2)
                | (None, e2) \<Rightarrow>
                    if ov_dimensions view = desired then
                      (\<lparr>rr_status = Unchanged, rr_write_attempted = False, rr_complete = True\<rparr>, e2)
                    else store_dimensions ops view desired initialize e2)))"

definition resize_owned_view ::
  "'e native_ops \<Rightarrow> owned_view \<Rightarrow> nat \<Rightarrow> dimension list \<Rightarrow> dimension list \<Rightarrow> 'e \<Rightarrow> resize_result \<times> 'e" where
  "resize_owned_view ops view feed desired panes e = change_view_dimensions ops view feed desired panes True e"

definition restore_owned_view_dimensions ::
  "'e native_ops \<Rightarrow> owned_view \<Rightarrow> nat \<Rightarrow> dimension list \<Rightarrow> dimension list \<Rightarrow> 'e \<Rightarrow> resize_result \<times> 'e" where
  "restore_owned_view_dimensions ops view feed desired panes e = change_view_dimensions ops view feed desired panes False e"


subsection \<open>The warmup before a resize\<close>

record warmup =
  vw_ids :: owned_ids
  vw_iteration :: u64
  vw_output_waits :: u32
  vw_pending :: bool

definition new_warmup :: warmup where
  "new_warmup = \<lparr>vw_ids = replicate 4 0, vw_iteration = 0, vw_output_waits = 0, vw_pending = False\<rparr>"

definition maximum_output_waits :: u32 where "maximum_output_waits = 12"

definition warmup_feed_count :: "owned_ids \<Rightarrow> nat" where
  "warmup_feed_count ids = length (filter (\<lambda>i. i \<noteq> 0) ids)"

fun trailing_zeros_only :: "bool \<Rightarrow> owned_ids \<Rightarrow> bool" where
  "trailing_zeros_only seen [] = True"
| "trailing_zeros_only seen (i # is) =
     (if i = 0 then trailing_zeros_only True is else if seen then False else trailing_zeros_only seen is)"

definition distinct_nonzero :: "owned_ids \<Rightarrow> bool" where
  "distinct_nonzero ids \<longleftrightarrow> \<not> warmup_feed_count ids < 2 \<and>
     list_all (\<lambda>i. ids ! i \<noteq> 0 \<longrightarrow>
       list_all (\<lambda>j. \<not> (ids ! j \<noteq> 0 \<and> ids ! j = ids ! i)) [i + 1..<length ids]) [0..<length ids] \<and>
     trailing_zeros_only False ids"

definition warmup_begin :: "owned_ids \<Rightarrow> u64 \<Rightarrow> warmup \<Rightarrow> bool \<times> warmup" where
  "warmup_begin ids iteration s =
     (if \<not> distinct_nonzero ids \<or> iteration = 0 then (False, s)
      else (True, s\<lparr>vw_ids := ids, vw_iteration := iteration, vw_pending := True, vw_output_waits := 0\<rparr>))"

definition may_resize :: "owned_ids \<Rightarrow> u64 \<Rightarrow> warmup \<Rightarrow> bool" where
  "may_resize ids iteration s \<longleftrightarrow> vw_pending s \<and> ids = vw_ids s \<and> iteration > vw_iteration s"

definition warmup_finish :: "owned_ids \<Rightarrow> u64 \<Rightarrow> warmup \<Rightarrow> bool \<times> warmup" where
  "warmup_finish ids iteration s =
     (if \<not> may_resize ids iteration s then (False, s) else (True, s\<lparr>vw_pending := False, vw_output_waits := 0\<rparr>))"

definition await_output :: "owned_ids \<Rightarrow> u64 \<Rightarrow> warmup \<Rightarrow> bool \<times> warmup" where
  "await_output ids iteration s =
     (if \<not> may_resize ids iteration s then (False, s)
      else (vw_output_waits s + 1 \<le> maximum_output_waits, s\<lparr>vw_output_waits := vw_output_waits s + 1\<rparr>))"

definition warmup_clear :: "warmup \<Rightarrow> warmup" where
  "warmup_clear s = new_warmup"

subsection \<open>The anti-aliasing bit\<close>

definition view_aa_flag :: u64 where "view_aa_flag = push_bit 31 1"

record aa_layout =
  la_clear :: u32
  la_set :: u32

definition image_rva :: "u32 \<Rightarrow> u32 \<Rightarrow> u32 \<Rightarrow> bool" where
  "image_rva rva bytes alignment \<longleftrightarrow> rva \<noteq> 0 \<and> rva < 0x80000000 \<and> bytes \<noteq> 0 \<and> bytes \<le> 0x80000000 - rva \<and>
     alignment \<noteq> 0 \<and> rva mod alignment = 0"

record aa_result =
  ar_complete :: bool
  ar_write_attempted :: bool
  ar_error :: string

definition aa_fail :: "string \<Rightarrow> bool \<Rightarrow> aa_result" where
  "aa_fail error attempted = \<lparr>ar_complete = False, ar_write_attempted = attempted, ar_error = error\<rparr>"

definition aa_done :: "bool \<Rightarrow> aa_result" where
  "aa_done attempted = \<lparr>ar_complete = True, ar_write_attempted = attempted, ar_error = ''''\<rparr>"

definition read_flags :: "'e native_ops \<Rightarrow> u64 \<Rightarrow> 'e \<Rightarrow> u64 list option \<times> 'e" where
  "read_flags ops address e = (case op_read ops address 16 e of (r, e1) \<Rightarrow> (map_option flag_words r, e1))"

definition read_overrides :: "'e native_ops \<Rightarrow> aa_layout \<Rightarrow> 'e \<Rightarrow> (u64 \<times> u64) option \<times> 'e" where
  "read_overrides ops layout e =
     (case op_image ops (la_clear layout) e of
        (None, e1) \<Rightarrow> (None, e1)
      | (Some c, e1) \<Rightarrow>
          (case op_image ops (la_set layout) e1 of (None, e2) \<Rightarrow> (None, e2) | (Some s, e2) \<Rightarrow> (Some (c, s), e2)))"

definition aa_refused :: "owned_view \<Rightarrow> aa_layout \<Rightarrow> string option" where
  "aa_refused view layout =
     (if \<not> image_rva (la_clear layout) 8 8 \<or> \<not> image_rva (la_set layout) 8 8 \<or> la_clear layout = la_set layout
        then Some ''aa_invalid_image_layout''
      else if \<not> ov_complete view \<or> \<not> ov_ready view \<or> ov_mode view \<noteq> 2 \<or> ov_status view \<noteq> OvReady \<or>
          ov_read_failures view \<noteq> 0 \<or> ov_error view \<noteq> [] \<or> ov_view_address view = 0 \<or>
          ov_view_address view AND 7 \<noteq> 0 \<or> ov_view_address view > u64_max - 64
        then Some ''aa_invalid_owned_view''
      else if \<not> gate_closed view \<and> ov_flags view ! 0 AND view_aa_flag \<noteq> 0 then Some ''aa_gate_open''
      else None)"

definition aa_recheck ::
  "'e native_ops \<Rightarrow> aa_layout \<Rightarrow> u64 \<Rightarrow> u64 list \<Rightarrow> u64 \<times> u64 \<Rightarrow> bool \<Rightarrow> 'e \<Rightarrow> aa_result \<times> 'e" where
  "aa_recheck ops layout field desired overrides attempted e =
     (case read_flags ops field e of
        (None, e1) \<Rightarrow> (aa_fail ''aa_recheck_failed'' attempted, e1)
      | (Some current, e1) \<Rightarrow>
          (case read_overrides ops layout e1 of
             (None, e2) \<Rightarrow> (aa_fail ''aa_recheck_failed'' attempted, e2)
           | (Some after, e2) \<Rightarrow>
               if current \<noteq> desired \<or> after \<noteq> overrides then (aa_fail ''aa_changed_during_update'' attempted, e2)
               else (aa_done attempted, e2)))"

definition disable_owned_view_aa :: "'e native_ops \<Rightarrow> owned_view \<Rightarrow> aa_layout \<Rightarrow> 'e \<Rightarrow> aa_result \<times> 'e" where
  "disable_owned_view_aa ops view layout e =
     (let field = ov_view_address view + 48 in
      case aa_refused view layout of
        Some error \<Rightarrow> (aa_fail error False, e)
      | None \<Rightarrow>
          (case op_writable ops field 16 e of
             (False, e1) \<Rightarrow> (aa_fail ''aa_flags_not_writable'' False, e1)
           | (True, e1) \<Rightarrow>
               (case read_flags ops field e1 of
                  (None, e2) \<Rightarrow> (aa_fail ''aa_read_failed'' False, e2)
                | (Some current, e2) \<Rightarrow>
                    (case read_overrides ops layout e2 of
                       (None, e3) \<Rightarrow> (aa_fail ''aa_read_failed'' False, e3)
                     | (Some overrides, e3) \<Rightarrow>
                         if current \<noteq> ov_flags view then (aa_fail ''aa_snapshot_changed'' False, e3)
                         else if snd overrides AND NOT (fst overrides) AND view_aa_flag \<noteq> 0
                           then (aa_fail ''aa_forced_by_global_override'' False, e3)
                         else
                           (let desired = current[0 := current ! 0 AND NOT view_aa_flag] in
                            if desired \<noteq> current then
                              (case op_store ops field (bytes64 (desired ! 0)) e3 of
                                 (False, e4) \<Rightarrow> (aa_fail ''aa_write_failed'' True, e4)
                               | (True, e4) \<Rightarrow> aa_recheck ops layout field desired overrides True e4)
                            else aa_recheck ops layout field desired overrides False e3)))))"

definition restore_recheck :: "'e native_ops \<Rightarrow> u64 \<Rightarrow> u64 list \<Rightarrow> bool \<Rightarrow> 'e \<Rightarrow> aa_result \<times> 'e" where
  "restore_recheck ops field desired attempted e =
     (case read_flags ops field e of
        (None, e1) \<Rightarrow> (aa_fail ''aa_recheck_failed'' attempted, e1)
      | (Some current, e1) \<Rightarrow>
          if current \<noteq> desired then (aa_fail ''aa_changed_during_update'' attempted, e1) else (aa_done attempted, e1))"

definition restore_view_aa_flag :: "'e native_ops \<Rightarrow> u64 \<Rightarrow> 'e \<Rightarrow> aa_result \<times> 'e" where
  "restore_view_aa_flag ops address e =
     (let field = address + 48 in
      if address = 0 \<or> address AND 7 \<noteq> 0 \<or> address > u64_max - 64 then (aa_fail ''aa_invalid_view_address'' False, e)
      else case op_writable ops field 16 e of
        (False, e1) \<Rightarrow> (aa_fail ''aa_flags_not_writable'' False, e1)
      | (True, e1) \<Rightarrow>
          (case read_flags ops field e1 of
             (None, e2) \<Rightarrow> (aa_fail ''aa_read_failed'' False, e2)
           | (Some current, e2) \<Rightarrow>
               if current ! 0 AND 1 = 0 then (aa_fail ''aa_gate_open'' False, e2)
               else
                 (let desired = current[0 := current ! 0 OR view_aa_flag] in
                  if desired \<noteq> current then
                    (case op_store ops field (bytes64 (desired ! 0)) e2 of
                       (False, e3) \<Rightarrow> (aa_fail ''aa_write_failed'' True, e3)
                     | (True, e3) \<Rightarrow> restore_recheck ops field desired True e3)
                  else restore_recheck ops field desired False e2)))"

text \<open>The ledger of views whose bit was cleared (\<open>ClearedAaLedger\<close>).\<close>

record aa_ledger =
  al_renderer :: u64
  al_views :: "u64 list"

definition new_aa_ledger :: aa_ledger where
  "new_aa_ledger = \<lparr>al_renderer = 0, al_views = replicate 4 0\<rparr>"

definition aa_note :: "u64 \<Rightarrow> u64 \<Rightarrow> aa_ledger \<Rightarrow> bool \<times> aa_ledger" where
  "aa_note renderer view s =
     (if renderer = 0 \<or> view = 0 then (False, s)
      else
        (let s1 = if al_renderer s \<noteq> renderer then \<lparr>al_renderer = renderer, al_views = replicate 4 0\<rparr> else s in
         if view \<in> set (al_views s1) then (True, s1)
         else case first_index (\<lambda>v. v = 0) (al_views s1) of
           Some i \<Rightarrow> (True, s1\<lparr>al_views := (al_views s1)[i := view]\<rparr>)
         | None \<Rightarrow> (False, s1)))"

definition aa_contains :: "u64 \<Rightarrow> u64 \<Rightarrow> aa_ledger \<Rightarrow> bool" where
  "aa_contains renderer view s \<longleftrightarrow> renderer = al_renderer s \<and> view \<noteq> 0 \<and> view \<in> set (al_views s)"

definition aa_forget :: "u64 \<Rightarrow> aa_ledger \<Rightarrow> aa_ledger" where
  "aa_forget view s = s\<lparr>al_views := map (\<lambda>v. if v = view then 0 else v) (al_views s)\<rparr>"

definition aa_pending :: "aa_ledger \<Rightarrow> bool" where
  "aa_pending s \<longleftrightarrow> list_ex (\<lambda>v. v \<noteq> 0) (al_views s)"

subsection \<open>The far planes\<close>

text \<open>Comparison of IEEE-754 single values by their bit patterns: zeros are equal, a NaN compares with nothing.\<close>

definition float_nan :: "u32 \<Rightarrow> bool" where
  "float_nan b \<longleftrightarrow> b AND 0x7FFFFFFF > 0x7F800000"

definition float_rank :: "u32 \<Rightarrow> int" where
  "float_rank b = (if bit b 31 then - int (unat (b AND 0x7FFFFFFF)) else int (unat b))"

definition float_less :: "u32 \<Rightarrow> u32 \<Rightarrow> bool" where
  "float_less a b \<longleftrightarrow> \<not> float_nan a \<and> \<not> float_nan b \<and> float_rank a < float_rank b"

definition float_equal :: "u32 \<Rightarrow> u32 \<Rightarrow> bool" where
  "float_equal a b \<longleftrightarrow> \<not> float_nan a \<and> \<not> float_nan b \<and> float_rank a = float_rank b"

record camera_clip =
  cc_near :: u32
  cc_far :: u32
  cc_default_far :: u32

definition no_clip :: camera_clip where
  "no_clip = \<lparr>cc_near = 0, cc_far = 0, cc_default_far = 0\<rparr>"

definition plausible_camera_clip :: "camera_clip \<Rightarrow> bool" where
  "plausible_camera_clip c \<longleftrightarrow> float_finite (cc_near c) \<and> float_finite (cc_far c) \<and> float_finite (cc_default_far c) \<and>
     float_less 0 (cc_near c) \<and> float_less (cc_near c) (cc_default_far c) \<and>
     (float_less (cc_far c) 0 \<or> float_less (cc_near c) (cc_far c))"

definition clip_near_offset :: u64 where "clip_near_offset = 0x5F0"
definition clip_far_offset :: u64 where "clip_far_offset = 0x5F4"

definition read_camera_clip :: "'e native_ops \<Rightarrow> u64 \<Rightarrow> 'e \<Rightarrow> camera_clip option \<times> 'e" where
  "read_camera_clip ops camera e =
     (if camera = 0 \<or> camera AND 7 \<noteq> 0 \<or> camera > u64_max - clip_near_offset - 16 then (None, e)
      else case op_read ops (camera + clip_near_offset) 16 e of
        (None, e1) \<Rightarrow> (None, e1)
      | (Some bs, e1) \<Rightarrow> (Some \<lparr>cc_near = le32 bs, cc_far = le32 (drop 4 bs), cc_default_far = le32 (drop 8 bs)\<rparr>, e1))"

definition camera_far_target :: "camera_clip \<Rightarrow> camera_clip \<Rightarrow> camera_clip option" where
  "camera_far_target own main =
     (if \<not> plausible_camera_clip own then None
      else if plausible_camera_clip main then
        (let target = own\<lparr>cc_far := cc_far main, cc_default_far := cc_default_far main\<rparr>
         in if \<not> plausible_camera_clip target then None else Some target)
      else Some own)"

record clip_result =
  cr_complete :: bool
  cr_write_attempted :: bool
  cr_before :: camera_clip
  cr_after :: camera_clip
  cr_error :: string

definition clip_fail :: "camera_clip \<Rightarrow> camera_clip \<Rightarrow> string \<Rightarrow> bool \<Rightarrow> clip_result" where
  "clip_fail before after error attempted = \<lparr>cr_complete = False, cr_write_attempted = attempted, cr_before = before,
     cr_after = after, cr_error = error\<rparr>"

definition clip_recheck ::
  "'e native_ops \<Rightarrow> u64 \<Rightarrow> camera_clip \<Rightarrow> camera_clip \<Rightarrow> 'e \<Rightarrow> clip_result \<times> 'e" where
  "clip_recheck ops camera target before e =
     (case read_camera_clip ops camera e of
        (None, e1) \<Rightarrow> (clip_fail before no_clip ''clip_recheck_failed'' True, e1)
      | (Some after, e1) \<Rightarrow>
          if \<not> float_equal (cc_far after) (cc_far target) \<or> \<not> float_equal (cc_default_far after) (cc_default_far target) \<or>
             \<not> float_equal (cc_near after) (cc_near before)
          then (clip_fail before after ''clip_changed_during_update'' True, e1)
          else (\<lparr>cr_complete = True, cr_write_attempted = True, cr_before = before, cr_after = after,
                 cr_error = ''''\<rparr>, e1))"

definition apply_camera_far :: "'e native_ops \<Rightarrow> u64 \<Rightarrow> camera_clip \<Rightarrow> 'e \<Rightarrow> clip_result \<times> 'e" where
  "apply_camera_far ops camera target e =
     (case read_camera_clip ops camera e of
        (None, e1) \<Rightarrow> (clip_fail no_clip no_clip ''clip_read_failed'' False, e1)
      | (Some before, e1) \<Rightarrow>
          if \<not> plausible_camera_clip before then (clip_fail before no_clip ''clip_implausible_camera'' False, e1)
          else if float_equal (cc_far before) (cc_far target) \<and> float_equal (cc_default_far before) (cc_default_far target)
            then (\<lparr>cr_complete = True, cr_write_attempted = False, cr_before = before, cr_after = before,
                   cr_error = ''''\<rparr>, e1)
          else if \<not> plausible_camera_clip (target\<lparr>cc_near := cc_near before\<rparr>)
            then (clip_fail before no_clip ''clip_implausible_target'' False, e1)
          else case op_writable ops (camera + clip_near_offset) 12 e1 of
            (False, e2) \<Rightarrow> (clip_fail before no_clip ''clip_not_writable'' False, e2)
          | (True, e2) \<Rightarrow>
              (case op_store ops (camera + clip_far_offset) (bytes32 (cc_far target) @ bytes32 (cc_default_far target)) e2 of
                 (False, e3) \<Rightarrow> (clip_fail before no_clip ''clip_write_failed'' True, e3)
               | (True, e3) \<Rightarrow> clip_recheck ops camera target before e3))"


subsection \<open>What is written, whatever the environment does\<close>

text \<open>An environment that records every call and what a read returned.\<close>

datatype native_call =
  Did_Check u64 nat | Did_Read u64 nat "u8 list option" | Did_Store u64 "u8 list" | Did_Image u32
| Did_Refresh u64 | Did_Ensure u64

definition logging :: "'e native_ops \<Rightarrow> ('e \<times> native_call list) native_ops" where
  "logging ops = \<lparr>
     op_writable = (\<lambda>a n (e, l). case op_writable ops a n e of (b, e1) \<Rightarrow> (b, e1, l @ [Did_Check a n])),
     op_read = (\<lambda>a n (e, l). case op_read ops a n e of (r, e1) \<Rightarrow> (r, e1, l @ [Did_Read a n r])),
     op_store = (\<lambda>a bs (e, l). case op_store ops a bs e of (b, e1) \<Rightarrow> (b, e1, l @ [Did_Store a bs])),
     op_image = (\<lambda>rva (e, l). case op_image ops rva e of (r, e1) \<Rightarrow> (r, e1, l @ [Did_Image rva])),
     op_refresh = map_option (\<lambda>f v (e, l). case f v e of (b, e1) \<Rightarrow> (b, e1, l @ [Did_Refresh v])) (op_refresh ops),
     op_ensure = map_option (\<lambda>f v (e, l). case f v e of (h, e1) \<Rightarrow> (h, e1, l @ [Did_Ensure v])) (op_ensure ops)\<rparr>"

fun writes :: "native_call list \<Rightarrow> (u64 \<times> u8 list) list" where
  "writes [] = []"
| "writes (Did_Store a bs # l) = (a, bs) # writes l"
| "writes (_ # l) = writes l"

definition ensured :: "native_call list \<Rightarrow> u64 list" where
  "ensured l = concat (map (\<lambda>c. case c of Did_Ensure v \<Rightarrow> [v] | _ \<Rightarrow> []) l)"

lemma writes_append [simp]: "writes (l @ l') = writes l @ writes l'"
  by (induction l rule: writes.induct) simp_all

lemma ensured_simps [simp]:
  "ensured [] = []" "ensured (l @ l') = ensured l @ ensured l'" "ensured (Did_Ensure v # l) = v # ensured l"
  "ensured (Did_Store a bs # l) = ensured l" "ensured (Did_Read a n r # l) = ensured l"
  "ensured (Did_Check a n # l) = ensured l" "ensured (Did_Refresh v # l) = ensured l"
  by (simp_all add: ensured_def)

text \<open>A verification that succeeds leaves the two reads it compared at the end of the log.\<close>

definition confirmed_by :: "owned_view \<Rightarrow> dimension list \<Rightarrow> native_call list \<Rightarrow> bool" where
  "confirmed_by view ds l \<longleftrightarrow> (\<exists>d f. l = [Did_Read (ov_view_address view + 16) 24 (Some d), Did_Read (ov_view_address view + 48) 16 (Some f)] \<and>
     dims_of d = ds \<and> flag_words f = ov_flags view)"

lemma verify_log:
  assumes "verify_fields (logging ops) view ds (e, l) = (x, e', l')"
  shows "\<exists>k. l' = l @ k \<and> writes k = [] \<and> ensured k = [] \<and> (x = None \<longrightarrow> confirmed_by view ds k)"
proof -
  obtain r e1 where r: "op_read ops (ov_view_address view + 16) 24 e = (r, e1)"
    by fastforce
  obtain f e2 where f: "op_read ops (ov_view_address view + 48) 16 e1 = (f, e2)"
    by fastforce
  show ?thesis
    using assms r f
    by (cases r; cases f)
      (auto simp: verify_fields_def logging_def confirmed_by_def split: if_splits)
qed

lemma finish_log:
  assumes "finish_resize (logging ops) view ds initialize (e, l) = (r, e', l')"
  shows "\<exists>k. l' = l @ k \<and> writes k = [] \<and> ensured k = [] \<and> rr_write_attempted r \<and> (rr_complete r \<longrightarrow> confirmed_by view ds k)"
proof -
  obtain x e1 l1 where v: "verify_fields (logging ops) view ds (e, l) = (x, e1, l1)"
    by (metis prod_cases3)
  show ?thesis
    using assms verify_log [OF v] v by (cases x) (auto simp: finish_resize_def resize_fail_def)
qed

text \<open>After the store: no further store, the output routine only when asked for, and success only as confirmed.\<close>

definition after_store :: "owned_view \<Rightarrow> dimension list \<Rightarrow> bool \<Rightarrow> resize_result \<Rightarrow> native_call list \<Rightarrow> bool" where
  "after_store view ds initialize r k \<longleftrightarrow> writes k = [] \<and> rr_write_attempted r \<and>
     set (ensured k) \<subseteq> (if initialize then {ov_view_address view} else {}) \<and>
     (rr_complete r \<longrightarrow> (\<exists>k1 k2. k = k1 @ k2 \<and> confirmed_by view ds k2))"

lemma after_store_prefix:
  assumes "after_store view ds initialize r k'" "writes k = []" "set (ensured k) \<subseteq> (if initialize then {ov_view_address view} else {})"
  shows "after_store view ds initialize r (k @ k')"
proof -
  have "\<exists>k1 k2. k @ k' = k1 @ k2 \<and> confirmed_by view ds k2" if complete: "rr_complete r"
  proof -
    from assms(1) complete obtain k1 k2 where "k' = k1 @ k2" "confirmed_by view ds k2"
      by (auto simp: after_store_def)
    then show ?thesis
      by (intro exI [of _ "k @ k1"] exI [of _ k2]) simp
  qed
  then show ?thesis
    using assms by (simp add: after_store_def)
qed

lemma after_store_confirmed:
  assumes "writes k = []" "ensured k = []" "rr_write_attempted r" "rr_complete r \<longrightarrow> confirmed_by view ds k"
  shows "after_store view ds initialize r k"
  unfolding after_store_def using assms by (auto intro: exI [of _ "[]"])

lemma refresh_log:
  assumes "refresh_and_output (logging ops) view ds initialize (e, l) = (r, e', l')"
    "op_refresh ops \<noteq> None" "initialize \<longrightarrow> op_ensure ops \<noteq> None"
  shows "\<exists>k. l' = l @ k \<and> after_store view ds initialize r k"
proof -
  obtain f where f: "op_refresh ops = Some f"
    using assms(2) by blast
  obtain b e1 where b: "f (ov_view_address view) e = (b, e1)"
    by fastforce
  obtain x e2 l2 where v: "verify_fields (logging ops) view ds (e1, l @ [Did_Refresh (ov_view_address view)]) = (x, e2, l2)"
    by (metis prod_cases3)
  have refreshed: "the (op_refresh (logging ops)) (ov_view_address view) (e, l) = (b, e1, l @ [Did_Refresh (ov_view_address view)])"
    using f b by (simp add: logging_def)
  obtain k where k: "l2 = l @ [Did_Refresh (ov_view_address view)] @ k" "writes k = []" "ensured k = []"
    using verify_log [OF v] by auto
  show ?thesis
  proof (cases "b \<and> x = None")
    case False
    then show ?thesis
      using assms(1) k v refreshed
      by (cases b; cases x) (auto simp: refresh_and_output_def resize_fail_def after_store_def)
  next
    case True
    show ?thesis
    proof (cases initialize)
      case init: True
      then obtain g where g: "op_ensure ops = Some g"
        using assms(3) by blast
      obtain h e3 where h: "g (ov_view_address view) e2 = (h, e3)"
        by fastforce
      have ensure: "the (op_ensure (logging ops)) (ov_view_address view) (e2, l2) = (h, e3, l2 @ [Did_Ensure (ov_view_address view)])"
        using g h by (simp add: logging_def)
      show ?thesis
      proof (cases "h = ov_view_address view + 144")
        case ok: True
        then have "finish_resize (logging ops) view ds initialize (e3, l2 @ [Did_Ensure (ov_view_address view)]) = (r, e', l')"
          using assms(1) True init v refreshed ensure by (simp add: refresh_and_output_def)
        from finish_log [OF this] obtain k' where k': "l' = l2 @ [Did_Ensure (ov_view_address view)] @ k'"
          "after_store view ds initialize r k'"
          by (auto intro!: after_store_confirmed)
        have "after_store view ds initialize r (([Did_Refresh (ov_view_address view)] @ k @ [Did_Ensure (ov_view_address view)]) @ k')"
          using k init by (intro after_store_prefix [OF k'(2)]) simp_all
        then show ?thesis
          using k(1) k'(1) by auto
      next
        case False
        then show ?thesis
          using assms(1) True init v refreshed ensure k
          by (intro exI [of _ "[Did_Refresh (ov_view_address view)] @ k @ [Did_Ensure (ov_view_address view)]"])
            (auto simp: refresh_and_output_def resize_fail_def after_store_def)
      qed
    next
      case noinit: False
      then have "finish_resize (logging ops) view ds initialize (e2, l2) = (r, e', l')"
        using assms(1) True v refreshed by (simp add: refresh_and_output_def)
      from finish_log [OF this] obtain k' where k': "l' = l2 @ k'" "after_store view ds initialize r k'"
        by (auto intro!: after_store_confirmed)
      have "after_store view ds initialize r (([Did_Refresh (ov_view_address view)] @ k) @ k')"
        using k by (intro after_store_prefix [OF k'(2)]) simp_all
      then show ?thesis
        using k(1) k'(1) by auto
    qed
  qed
qed

lemma store_log:
  assumes "store_dimensions (logging ops) view ds initialize (e, l) = (r, e', l')"
    "op_refresh ops \<noteq> None" "initialize \<longrightarrow> op_ensure ops \<noteq> None"
  shows "\<exists>k. l' = l @ Did_Store (ov_view_address view + 16) (dims_bytes ds) # k \<and> after_store view ds initialize r k"
proof -
  let ?s = "Did_Store (ov_view_address view + 16) (dims_bytes ds)"
  obtain b e1 where b: "op_store ops (ov_view_address view + 16) (dims_bytes ds) e = (b, e1)"
    by fastforce
  then have store: "op_store (logging ops) (ov_view_address view + 16) (dims_bytes ds) (e, l) = (b, e1, l @ [?s])"
    by (simp add: logging_def)
  obtain x e2 l2 where v: "verify_fields (logging ops) view ds (e1, l @ [?s]) = (x, e2, l2)"
    by (metis prod_cases3)
  obtain k where k: "l2 = l @ ?s # k" "writes k = []" "ensured k = []"
    using verify_log [OF v] by auto
  show ?thesis
  proof (cases "b \<and> x = None")
    case False
    then show ?thesis
      using assms(1) k v store
      by (cases b; cases x) (auto simp: store_dimensions_def resize_fail_def after_store_def)
  next
    case True
    then have "refresh_and_output (logging ops) view ds initialize (e2, l2) = (r, e', l')"
      using assms(1) v store by (simp add: store_dimensions_def)
    from refresh_log [OF this assms(2,3)] obtain k' where "l' = l2 @ k'" "after_store view ds initialize r k'"
      by blast
    moreover have "after_store view ds initialize r (k @ k')"
      using calculation(2) k by (intro after_store_prefix) simp_all
    ultimately show ?thesis
      using k(1) by (intro exI [of _ "k @ k'"]) simp
  qed
qed

text \<open>C22: Whatever the memory and the engine do, a resize or a restoration of an owned view stores at most
  once, and then exactly the 24 bytes of the requested pane at the view's dimension fields.  It stores
  only for a complete, ready snapshot with a closed gate, after reading the very dimensions and flags of
  that snapshot; it calls the output routine only when it initialises the output, and only for that
  view; and it reports completion after a store only when its last two reads returned the pane and the
  unchanged flags.\<close>

theorem resize_touches_only_dimensions:
  assumes "change_view_dimensions (logging ops) view feed ds panes initialize (e, []) = (r, e', l)"
  shows "rr_write_attempted r = (writes l \<noteq> []) \<and>
     (writes l = [] \<longrightarrow> ensured l = []) \<and>
     (writes l \<noteq> [] \<longrightarrow>
        (\<exists>k1 k2. l = Did_Check (ov_view_address view + 16) 48 # k1 @ Did_Store (ov_view_address view + 16) (dims_bytes ds) # k2 \<and>
           confirmed_by view (ov_dimensions view) k1 \<and> after_store view ds initialize r k2) \<and>
        ds = replicate 3 (panes ! feed) \<and> ds \<noteq> ov_dimensions view \<and> feed < length panes \<and>
        gate_closed view \<and> ov_complete view \<and> ov_ready view)"
proof (cases "resize_refused (logging ops) view feed ds panes initialize")
  case (Some status)
  then show ?thesis
    using assms by (simp add: change_view_dimensions_def resize_fail_def) auto
next
  case None
  then have fine: "\<not> snapshot_refused (logging ops) view initialize" "fst (plan_view_resize ds feed panes)"
    "ds = snd (plan_view_resize ds feed panes)" "gate_closed view"
    by (auto simp: resize_refused_def split: if_splits)
  then have known: "op_refresh ops \<noteq> None" "initialize \<longrightarrow> op_ensure ops \<noteq> None" "ov_complete view" "ov_ready view"
    by (auto simp: snapshot_refused_def logging_def)
  have pane: "ds = replicate 3 (panes ! feed)" "feed < length panes"
    using fine(2,3) by (auto simp: plan_view_resize_def Let_def split: if_splits)
  obtain b e1 where b: "op_writable ops (ov_view_address view + 16) 48 e = (b, e1)"
    by fastforce
  let ?c = "Did_Check (ov_view_address view + 16) 48"
  have check: "op_writable (logging ops) (ov_view_address view + 16) 48 (e, []) = (b, e1, [?c])"
    using b by (simp add: logging_def)
  obtain x e2 l2 where v: "verify_fields (logging ops) view (ov_dimensions view) (e1, [?c]) = (x, e2, l2)"
    by (metis prod_cases3)
  obtain k where k: "l2 = ?c # k" "writes k = []" "ensured k = []" "x = None \<longrightarrow> confirmed_by view (ov_dimensions view) k"
    using verify_log [OF v] by auto
  show ?thesis
  proof (cases "b \<and> x = None \<and> ov_dimensions view \<noteq> ds")
    case False
    then show ?thesis
      using assms None check v k by (cases b; cases x) (auto simp: change_view_dimensions_def resize_fail_def)
  next
    case True
    then have "store_dimensions (logging ops) view ds initialize (e2, l2) = (r, e', l)"
      using assms None check v by (simp add: change_view_dimensions_def)
    from store_log [OF this known(1,2)] obtain k2 where k2:
      "l = ?c # k @ Did_Store (ov_view_address view + 16) (dims_bytes ds) # k2" "after_store view ds initialize r k2"
      using k(1) by auto
    have "\<exists>k1 k2. l = ?c # k1 @ Did_Store (ov_view_address view + 16) (dims_bytes ds) # k2 \<and>
        confirmed_by view (ov_dimensions view) k1 \<and> after_store view ds initialize r k2"
      using k2 k(4) True by blast
    moreover have "writes l \<noteq> []" "rr_write_attempted r"
      using k2 by (simp_all add: after_store_def)
    ultimately show ?thesis
      using pane known True fine(4) by auto
  qed
qed


subsection \<open>What a write achieves on a plain memory\<close>

definition put_block :: "u64 \<Rightarrow> u8 list \<Rightarrow> (u64 \<Rightarrow> u8) \<Rightarrow> u64 \<Rightarrow> u8" where
  "put_block a bs m = (\<lambda>x. if unat (x - a) < length bs then bs ! unat (x - a) else m x)"

definition plain_ops :: "(u32 \<Rightarrow> u64) \<Rightarrow> (u64 \<Rightarrow> u8) native_ops" where
  "plain_ops img = \<lparr>op_writable = (\<lambda>_ _ m. (True, m)), op_read = (\<lambda>a n m. (Some (block m a n), m)),
     op_store = (\<lambda>a bs m. (True, put_block a bs m)), op_image = (\<lambda>rva m. (Some (img rva), m)),
     op_refresh = Some (\<lambda>_ m. (True, m)), op_ensure = Some (\<lambda>v m. (v + 144, m))\<rparr>"

lemma le32_bytes32: "le32 (bytes32 w @ bs) = w"
proof (rule bit_word_eqI)
  fix n
  assume "n < LENGTH(32)"
  then have n: "n < 32"
    by simp
  then consider "n < 8" | "8 \<le> n" "n < 16" | "16 \<le> n" "n < 24" | "24 \<le> n"
    by linarith
  then show "bit (le32 (bytes32 w @ bs)) n = bit w n"
    using n by cases (auto simp: le32_def bytes32_def bit_simps)
qed

lemma length_bytes32 [simp]: "length (bytes32 w) = 4"
  by (simp add: bytes32_def)

lemma length_bytes64 [simp]: "length (bytes64 w) = 8"
  by (simp add: bytes64_def)

lemma le64_bytes64: "le64 (bytes64 w @ bs) = w"
proof -
  have "le64 (bytes64 w @ bs) = ucast (ucast w :: u32) OR push_bit 32 (ucast (ucast (drop_bit 32 w) :: u32))"
    by (simp add: le64_def bytes64_def le32_bytes32)
  also have "\<dots> = w"
    by (rule bit_word_eqI) (auto simp: bit_simps)
  finally show ?thesis .
qed

lemma dims_of_bytes: "dims_of (dims_bytes [d0, d1, d2] @ bs) = [d0, d1, d2]"
  by (cases d0; cases d1; cases d2) (simp add: dims_of_def dim_of_def dims_bytes_def le32_bytes32)

lemma length_dims_bytes: "length (dims_bytes [d0, d1, d2]) = 24"
  by (cases d0; cases d1; cases d2) (simp add: dims_bytes_def)

lemma block_put_same:
  assumes "length bs < 2 ^ 64"
  shows "block (put_block a bs m) a (length bs) = bs"
  using assms by (intro nth_equalityI) (auto simp: block_nth put_block_def unat_of_nat take_bit_nat_eq_self)

lemma block_put_after:
  assumes "length bs \<le> k" "k + n \<le> 2 ^ 64"
  shows "block (put_block a bs m) (a + of_nat k) n = block m (a + of_nat k) n"
proof (intro nth_equalityI)
  fix i
  assume "i < length (block (put_block a bs m) (a + of_nat k) n)"
  then have i: "i < n"
    by simp
  have "take_bit LENGTH(64) (k + i) = k + i"
    using assms(2) i by (intro take_bit_nat_eq_self) simp
  then have "unat (of_nat (k + i) :: u64) = k + i"
    by (simp only: unsigned_of_nat of_nat_id)
  then have "\<not> unat (a + of_nat k + of_nat i - a) < length bs"
    using assms(1) by (simp add: add.assoc)
  then show "block (put_block a bs m) (a + of_nat k) n ! i = block m (a + of_nat k) n ! i"
    using i by (simp add: block_nth put_block_def)
qed simp

text \<open>C23: On a memory that only the caller writes, a resize that is not refused does what it says: it
  completes, the three dimension pairs of the view become the requested pane, and no other byte of
  memory changes.\<close>

theorem resize_establishes_pane:
  assumes fine: "resize_refused (plain_ops img) view feed ds panes True = None"
    and seen: "dims_of (block m (ov_view_address view + 16) 24) = ov_dimensions view"
      "flag_words (block m (ov_view_address view + 48) 16) = ov_flags view"
  shows "\<exists>r m'. resize_owned_view (plain_ops img) view feed ds panes m = (r, m') \<and> rr_complete r \<and>
     dims_of (block m' (ov_view_address view + 16) 24) = replicate 3 (panes ! feed) \<and>
     (\<forall>a. 24 \<le> unat (a - (ov_view_address view + 16)) \<longrightarrow> m' a = m a)"
proof -
  let ?p = "panes ! feed" and ?a = "ov_view_address view"
  let ?m = "put_block (?a + 16) (dims_bytes ds) m"
  have ds: "ds = replicate 3 ?p"
    using fine by (auto simp: resize_refused_def plan_view_resize_def Let_def split: if_splits)
  then have ds3: "ds = [?p, ?p, ?p]"
    by (simp add: numeral_3_eq_3)
  then have len: "length (dims_bytes ds) = 24"
    by (simp add: length_dims_bytes)
  have "block ?m (?a + 16) 24 = dims_bytes ds"
    using block_put_same [of "dims_bytes ds" "?a + 16" m] len by simp
  then have dims: "dims_of (block ?m (?a + 16) 24) = ds"
    using dims_of_bytes [of ?p ?p ?p "[]"] ds3 by simp
  have flags: "block ?m (?a + 48) 16 = block m (?a + 48) 16"
    using block_put_after [of "dims_bytes ds" 32 16 "?a + 16" m] len by (simp add: add.assoc)
  have other: "\<forall>a. 24 \<le> unat (a - (?a + 16)) \<longrightarrow> ?m a = m a"
    using len by (simp add: put_block_def)
  have check: "verify_fields (plain_ops img) view (ov_dimensions view) m = (None, m)"
    "verify_fields (plain_ops img) view ds ?m = (None, ?m)"
    using seen dims flags by (simp_all add: verify_fields_def plain_ops_def)
  show ?thesis
  proof (cases "ov_dimensions view = ds")
    case True
    then have "resize_owned_view (plain_ops img) view feed ds panes m =
        (\<lparr>rr_status = Unchanged, rr_write_attempted = False, rr_complete = True\<rparr>, m)"
      using fine check(1) by (simp add: resize_owned_view_def change_view_dimensions_def plain_ops_def)
    then show ?thesis
      using seen(1) True ds by simp
  next
    case False
    have "refresh_and_output (plain_ops img) view ds True ?m =
        (\<lparr>rr_status = Resized, rr_write_attempted = True, rr_complete = True\<rparr>, ?m)"
      using check(2) by (simp add: refresh_and_output_def finish_resize_def plain_ops_def)
    then have "resize_owned_view (plain_ops img) view feed ds panes m =
        (\<lparr>rr_status = Resized, rr_write_attempted = True, rr_complete = True\<rparr>, ?m)"
      using fine check False
      by (simp add: resize_owned_view_def change_view_dimensions_def store_dimensions_def plain_ops_def)
    then show ?thesis
      using dims other ds by simp
  qed
qed


text \<open>A view of 100 by 50 pixels that is to become the first pane of the A380 profile.\<close>

definition small_view :: owned_view where
  "small_view = no_view\<lparr>ov_complete := True, ov_ready := True, ov_status := OvReady, ov_mode := 2,
     ov_view_address := 0x10000, ov_dimensions := [(100, 50), (100, 50), (100, 50)], ov_flags := [0x80000001, 0]\<rparr>"

definition a380_panes :: "dimension list" where
  "a380_panes = [(736, 251), (736, 496), (736, 496), (736, 251)]"

definition small_memory :: "u64 \<Rightarrow> u8" where
  "small_memory = put_block 0x10010 (dims_bytes [(100, 50), (100, 50), (100, 50)])
     (put_block 0x10030 (bytes64 0x80000001 @ bytes64 0) (\<lambda>_. 0))"

lemma small_blocks:
  "block small_memory 0x10010 24 = dims_bytes [(100, 50), (100, 50), (100, 50)]"
  "block small_memory 0x10030 16 = bytes64 0x80000001 @ bytes64 0"
proof -
  show "block small_memory 0x10010 24 = dims_bytes [(100, 50), (100, 50), (100, 50)]"
    using block_put_same [of "dims_bytes [(100, 50), (100, 50), (100, 50)]" "0x10010"]
    by (simp add: small_memory_def length_dims_bytes)
  have "block (put_block 0x10010 (dims_bytes [(100, 50), (100, 50), (100, 50)]) m) 0x10030 16 = block m 0x10030 16" for m
    using block_put_after [of "dims_bytes [(100, 50), (100, 50), (100, 50)]" 32 16 "0x10010" m]
    by (simp add: length_dims_bytes)
  then show "block small_memory 0x10030 16 = bytes64 0x80000001 @ bytes64 0"
    using block_put_same [of "bytes64 0x80000001 @ bytes64 0" "0x10030"]
    by (simp add: small_memory_def)
qed

lemma flag_words_bytes: "flag_words (bytes64 a @ bytes64 b) = [a, b]"
  using le64_bytes64 [of a "bytes64 b"] le64_bytes64 [of b "[]"] by (simp add: flag_words_def)

lemma small_fine: "resize_refused (plain_ops img) small_view 0 (replicate 3 (736, 251)) a380_panes True = None"
  by (simp add: resize_refused_def snapshot_refused_def small_view_def no_view_def plain_ops_def dimensions_bounded_def
      plan_view_resize_def a380_panes_def minimum_dimension_def maximum_dimension_def gate_closed_def numeral_3_eq_3)

lemma resize_establishes_pane_witness:
  "\<exists>r m'. resize_owned_view (plain_ops (\<lambda>_. 0)) small_view 0 (replicate 3 (736, 251)) a380_panes small_memory = (r, m') \<and>
     rr_complete r \<and> dims_of (block m' 0x10010 24) = [(736, 251), (736, 251), (736, 251)]"
proof -
  have seen: "dims_of (block small_memory (ov_view_address small_view + 16) 24) = ov_dimensions small_view"
    "flag_words (block small_memory (ov_view_address small_view + 48) 16) = ov_flags small_view"
    using dims_of_bytes [of "(100, 50)" "(100, 50)" "(100, 50)" "[]"]
    by (simp_all add: small_view_def small_blocks flag_words_bytes)
  show ?thesis
    using resize_establishes_pane [OF small_fine seen] by (simp add: small_view_def a380_panes_def numeral_3_eq_3) blast
qed

text \<open>The same resize, logged.\<close>

lemma logged_plain:
  "verify_fields (logging (plain_ops img)) view ds (m, l) =
     (if dims_of (block m (ov_view_address view + 16) 24) \<noteq> ds \<or> flag_words (block m (ov_view_address view + 48) 16) \<noteq> ov_flags view
        then Some Fields_Changed else None, m,
      l @ [Did_Read (ov_view_address view + 16) 24 (Some (block m (ov_view_address view + 16) 24)),
           Did_Read (ov_view_address view + 48) 16 (Some (block m (ov_view_address view + 48) 16))])"
  by (simp add: verify_fields_def logging_def plain_ops_def)

lemma small_logged:
  "\<exists>r e' l. change_view_dimensions (logging (plain_ops img)) small_view 0 (replicate 3 (736, 251)) a380_panes True
      (small_memory, []) = (r, e', l) \<and> rr_write_attempted r"
proof -
  let ?l = "[Did_Check 0x10010 48, Did_Read 0x10010 24 (Some (block small_memory 0x10010 24)),
     Did_Read 0x10030 16 (Some (block small_memory 0x10030 16))]"
  have "resize_refused (logging (plain_ops img)) small_view 0 (replicate 3 (736, 251)) a380_panes True = None"
    using small_fine [of img] by (simp add: resize_refused_def snapshot_refused_def logging_def plain_ops_def)
  moreover have "dims_of (block small_memory 0x10010 24) = [(100, 50), (100, 50), (100, 50)]"
    "flag_words (block small_memory 0x10030 16) = [0x80000001, 0]"
    using dims_of_bytes [of "(100, 50)" "(100, 50)" "(100, 50)" "[]"] by (simp_all add: small_blocks flag_words_bytes)
  moreover have "op_writable (logging (plain_ops img)) 0x10010 48 (small_memory, []) = (True, small_memory, [Did_Check 0x10010 48])"
    by (simp add: logging_def plain_ops_def)
  ultimately have "change_view_dimensions (logging (plain_ops img)) small_view 0 (replicate 3 (736, 251)) a380_panes True
      (small_memory, []) = store_dimensions (logging (plain_ops img)) small_view (replicate 3 (736, 251)) True (small_memory, ?l)"
    by (simp add: change_view_dimensions_def logged_plain small_view_def numeral_3_eq_3)
  moreover obtain r e' l where
    "store_dimensions (logging (plain_ops img)) small_view (replicate 3 (736, 251)) True (small_memory, ?l) = (r, e', l)"
    by (metis prod_cases3)
  ultimately show ?thesis
    using store_log [of "plain_ops img" small_view _ True] by (fastforce simp: plain_ops_def after_store_def)
qed

lemma resize_touches_only_dimensions_witness:
  "\<exists>r e' l. change_view_dimensions (logging (plain_ops (\<lambda>_. 0))) small_view 0 (replicate 3 (736, 251)) a380_panes True
       (small_memory, []) = (r, e', l) \<and> writes l = [(0x10010, dims_bytes (replicate 3 (736, 251)))]"
proof -
  obtain r e' l where run: "change_view_dimensions (logging (plain_ops (\<lambda>_. 0))) small_view 0 (replicate 3 (736, 251))
      a380_panes True (small_memory, []) = (r, e', l)" and "rr_write_attempted r"
    using small_logged by blast
  moreover have "rr_write_attempted r = (writes l \<noteq> []) \<and> (writes l \<noteq> [] \<longrightarrow>
      (\<exists>k1 k2. l = Did_Check (ov_view_address small_view + 16) 48 # k1 @
        Did_Store (ov_view_address small_view + 16) (dims_bytes (replicate 3 (736, 251))) # k2 \<and>
        confirmed_by small_view (ov_dimensions small_view) k1 \<and> after_store small_view (replicate 3 (736, 251)) True r k2))"
    using resize_touches_only_dimensions [OF run] by blast
  ultimately obtain k1 k2 where l: "l = Did_Check (ov_view_address small_view + 16) 48 # k1 @
        Did_Store (ov_view_address small_view + 16) (dims_bytes (replicate 3 (736, 251))) # k2"
    and k: "confirmed_by small_view (ov_dimensions small_view) k1" "after_store small_view (replicate 3 (736, 251)) True r k2"
    by blast
  have "writes k1 = []" "writes k2 = []"
    using k(1) unfolding confirmed_by_def apply auto[1]
    using k(2) unfolding after_store_def by blast
  then have "writes l = [(ov_view_address small_view + 16, dims_bytes (replicate 3 (736, 251)))]"
    by (simp add: l)
  then have "writes l = [(0x10010, dims_bytes (replicate 3 (736, 251)))]"
    by (simp add: small_view_def)
  then show ?thesis
    using run by blast
qed


subsection \<open>The anti-aliasing bit comes back\<close>

lemma bytes32_le32: "length bs = 4 \<Longrightarrow> bytes32 (le32 bs) = bs"
proof -
  assume "length bs = 4"
  then obtain a b c d where bs: "bs = [a, b, c, d]"
    by (auto simp: length_Suc_conv numeral_eq_Suc)
  have "ucast (le32 bs) = a" "ucast (drop_bit 8 (le32 bs)) = b" "ucast (drop_bit 16 (le32 bs)) = c"
    "ucast (drop_bit 24 (le32 bs)) = d"
    by (rule bit_word_eqI; auto simp: bs le32_def bit_simps dest: bit_imp_le_length)+
  then show ?thesis
    by (simp add: bytes32_def bs)
qed

lemma bytes64_le64: "length bs = 8 \<Longrightarrow> bytes64 (le64 bs) = bs"
proof -
  assume l: "length bs = 8"
  have "ucast (le64 bs) = le32 bs" "ucast (drop_bit 32 (le64 bs)) = le32 (drop 4 bs)"
    by (rule bit_word_eqI; auto simp: le64_def bit_simps dest: bit_imp_le_length)+
  moreover have "le32 bs = le32 (take 4 bs)"
    using l by (simp add: le32_def)
  ultimately show ?thesis
    using l by (simp add: bytes64_def bytes32_le32)
qed

lemma put_block_own: "put_block a (block m a n) m = m"
  by (auto simp: put_block_def fun_eq_iff block_nth)

lemma put_block_twice: "length bs = length cs \<Longrightarrow> put_block a bs (put_block a cs m) = put_block a bs m"
  by (auto simp: put_block_def)

text \<open>The flag words after the first word was stored.\<close>

lemma flag_words_block: "flag_words (block m a 16) = [le64 (block m a 8), le64 (block m (a + 8) 8)]"
proof -
  have "take 8 (block m a 16) = block m a 8" "drop 8 (block m a 16) = block m (a + 8) 8"
    by (intro nth_equalityI; simp add: block_nth block_def add.assoc)+
  moreover have "le64 (block m a 16) = le64 (take 8 (block m a 16))"
    by (simp add: le64_def le32_def block_def)
  ultimately show ?thesis
    by (simp add: flag_words_def)
qed

lemma flag_words_put: "flag_words (block (put_block a (bytes64 w) m) a 16) = [w, flag_words (block m a 16) ! 1]"
  using block_put_same [of "bytes64 w" a m] block_put_after [of "bytes64 w" 8 8 a m] le64_bytes64 [of w "[]"]
  by (simp add: flag_words_block)

lemma aa_flag_bit: "bit view_aa_flag n \<longleftrightarrow> n = 31"
  unfolding view_aa_flag_def bit_push_bit_iff bit_1_iff by auto

lemma aa_bit_back:
  assumes "bit (w :: u64) 31"
  shows "(w AND NOT view_aa_flag) OR view_aa_flag = w" "w AND NOT view_aa_flag \<noteq> w"
proof -
  show "(w AND NOT view_aa_flag) OR view_aa_flag = w"
    using assms by (intro bit_word_eqI) (auto simp: bit_simps aa_flag_bit)
  have "bit w 31 \<noteq> bit (w AND NOT view_aa_flag) 31"
    using assms by (simp add: bit_simps aa_flag_bit)
  then show "w AND NOT view_aa_flag \<noteq> w"
    by metis
qed

lemma aa_gate_kept: "(w AND NOT view_aa_flag) AND 1 = w AND (1 :: u64)"
  by (rule bit_word_eqI) (auto simp: bit_simps aa_flag_bit)

text \<open>The two operations on a plain memory.\<close>

lemma plain_flags: "read_flags (plain_ops img) a m = (Some (flag_words (block m a 16)), m)"
  by (simp add: read_flags_def plain_ops_def)

lemma plain_overrides: "read_overrides (plain_ops img) layout m = (Some (img (la_clear layout), img (la_set layout)), m)"
  by (simp add: read_overrides_def plain_ops_def)

lemma plain_writable: "op_writable (plain_ops img) a n m = (True, m)"
  by (simp add: plain_ops_def)

lemma plain_store: "op_store (plain_ops img) a bs m = (True, put_block a bs m)"
  by (simp add: plain_ops_def)

lemmas plain_run = plain_flags plain_overrides plain_writable plain_store

lemma two_flags: "flag_words bs = [flag_words bs ! 0, flag_words bs ! 1]"
  by (simp add: flag_words_def)

lemma disable_plain:
  assumes run: "disable_owned_view_aa (plain_ops img) view layout m = (r, m')" and "ar_write_attempted r"
  shows "m' = put_block (ov_view_address view + 48) (bytes64 (le64 (block m (ov_view_address view + 48) 8) AND NOT view_aa_flag)) m \<and>
    ar_complete r \<and> gate_closed view \<and> ov_flags view = flag_words (block m (ov_view_address view + 48) 16) \<and>
    bit (le64 (block m (ov_view_address view + 48) 8)) 31 \<and> aa_refused view layout = None"
proof -
  define a where "a = ov_view_address view + 48"
  define w where "w = le64 (block m a 8)"
  define v where "v = le64 (block m (a + 8) 8)"
  have words: "flag_words (block m a 16) = [w, v]"
    by (simp add: flag_words_block w_def v_def)
  have fine: "aa_refused view layout = None"
    using assms by (cases "aa_refused view layout") (simp_all add: disable_owned_view_aa_def aa_fail_def Let_def, auto)
  have unfolded: "disable_owned_view_aa (plain_ops img) view layout m =
      (if [w, v] \<noteq> ov_flags view then (aa_fail ''aa_snapshot_changed'' False, m)
       else if img (la_set layout) AND NOT (img (la_clear layout)) AND view_aa_flag \<noteq> 0
         then (aa_fail ''aa_forced_by_global_override'' False, m)
       else if w AND NOT view_aa_flag \<noteq> w
         then (aa_done True, put_block a (bytes64 (w AND NOT view_aa_flag)) m)
       else (aa_done False, m))"
  proof (cases "ov_flags view = [w, v]")
    case True
    then show ?thesis
      using fine by (simp add: disable_owned_view_aa_def plain_run Let_def words flag_words_put aa_recheck_def flip: a_def)
  next
    case False
    then have "[w, v] \<noteq> ov_flags view"
      by metis
    then show ?thesis
      using fine by (simp add: disable_owned_view_aa_def plain_run Let_def words flip: a_def)
  qed
  have seen: "ov_flags view = [w, v]" and changed: "w AND NOT view_aa_flag \<noteq> w"
    and m': "m' = put_block a (bytes64 (w AND NOT view_aa_flag)) m" and "ar_complete r"
    using run \<open>ar_write_attempted r\<close> unfolding unfolded by (auto simp: aa_fail_def aa_done_def split: if_splits)
  have set31: "bit w 31"
  proof (rule ccontr)
    assume "\<not> bit w 31"
    then have "w AND NOT view_aa_flag = w"
      by (intro bit_word_eqI) (auto simp: bit_simps aa_flag_bit)
    then show False
      using changed by simp
  qed
  then have "w AND view_aa_flag \<noteq> 0"
    using aa_flag_bit [of 31] by (metis bit_and_iff bit_0_eq bot_apply bot_bool_def)
  then have "gate_closed view"
    using fine seen by (simp add: aa_refused_def split: if_splits)
  then show ?thesis
    using m' \<open>ar_complete r\<close> set31 seen words fine unfolding a_def w_def by auto
qed

lemma restore_plain:
  fixes m :: "u64 \<Rightarrow> u8"
  assumes "a \<noteq> 0" "a AND 7 = 0" "\<not> a > u64_max - 64"
  defines "f \<equiv> a + 48"
  defines "w \<equiv> le64 (block m f 8)"
  assumes gate: "w AND 1 \<noteq> 0" and clear: "w OR view_aa_flag \<noteq> w"
  shows "restore_view_aa_flag (plain_ops img) a m = (aa_done True, put_block f (bytes64 (w OR view_aa_flag)) m)"
proof -
  define v where "v = le64 (block m (f + 8) 8)"
  have words: "flag_words (block m f 16) = [w, v]"
    by (simp add: flag_words_block w_def v_def)
  show ?thesis
    using assms(1-3) gate clear
    by (simp add: restore_view_aa_flag_def plain_run Let_def words flag_words_put restore_recheck_def flip: f_def)
qed

text \<open>C24: Clearing a view's anti-aliasing bit and restoring it are inverse: on a memory that only the caller
  writes, when the clearing attempted its write it completed, the gate was closed, and the restoration at the
  same view then completes and leaves every byte of memory as it was before the clearing.\<close>

theorem aa_bit_round_trip:
  assumes "disable_owned_view_aa (plain_ops img) view layout m = (r, m')" "ar_write_attempted r"
  shows "ar_complete r \<and> gate_closed view \<and>
    restore_view_aa_flag (plain_ops img') (ov_view_address view) m' = (aa_done True, m)"
proof -
  define a where "a = ov_view_address view + 48"
  define w where "w = le64 (block m a 8)"
  note d = disable_plain [OF assms, folded a_def w_def]
  have w': "le64 (block m' a 8) = w AND NOT view_aa_flag"
    using d block_put_same [of "bytes64 (w AND NOT view_aa_flag)" a m] le64_bytes64 [of _ "[]"] by simp
  have "bit w 0"
    using d by (auto simp: gate_closed_def flag_words_block simp flip: w_def)
  then have "w AND 1 \<noteq> 0"
    by (simp add: and_one_eq bit_0 odd_iff_mod_2_eq_one)
  then have "restore_view_aa_flag (plain_ops img') (ov_view_address view) m' =
      (aa_done True, put_block a (bytes64 ((w AND NOT view_aa_flag) OR view_aa_flag)) m')"
    unfolding a_def w' [unfolded a_def, symmetric]
    using d w' by (intro restore_plain) (auto simp: aa_refused_def aa_gate_kept aa_bit_back not_sym [OF aa_bit_back(2)]
        simp flip: a_def split: if_splits)
  also have "put_block a (bytes64 ((w AND NOT view_aa_flag) OR view_aa_flag)) m' = put_block a (bytes64 w) m"
    using d by (simp add: aa_bit_back put_block_twice)
  also have "\<dots> = m"
    by (simp add: w_def bytes64_le64 put_block_own)
  finally show ?thesis
    using d by blast
qed


lemma aa_bit_round_trip_witness:
  "\<exists>r m'. disable_owned_view_aa (plain_ops (\<lambda>_. 0)) small_view \<lparr>la_clear = 0x1000, la_set = 0x1008\<rparr> small_memory = (r, m') \<and>
     m' \<noteq> small_memory \<and> restore_view_aa_flag (plain_ops (\<lambda>_. 0)) (ov_view_address small_view) m' = (aa_done True, small_memory)"
proof -
  let ?layout = "\<lparr>la_clear = 0x1000, la_set = 0x1008\<rparr>"
  let ?run = "disable_owned_view_aa (plain_ops (\<lambda>_. 0)) small_view ?layout small_memory"
  have flags: "flag_words (block small_memory 0x10030 16) = [0x80000001, 0]"
    by (simp add: small_blocks flag_words_bytes)
  have "aa_refused small_view ?layout = None"
    by (simp add: aa_refused_def image_rva_def small_view_def gate_closed_def no_view_def)
  moreover have "(0x80000001 :: u64) AND NOT view_aa_flag = 1"
    by (simp add: view_aa_flag_def)
  ultimately have attempted: "ar_write_attempted (fst ?run)" and changed: "flag_words (block (snd ?run) 0x10030 16) = [1, 0]"
    using flags by (simp_all add: disable_owned_view_aa_def plain_run Let_def flag_words_put aa_recheck_def aa_done_def aa_fail_def
        small_view_def)
  from changed flags have "snd ?run \<noteq> small_memory"
    by auto
  moreover have "restore_view_aa_flag (plain_ops (\<lambda>_. 0)) (ov_view_address small_view) (snd ?run) = (aa_done True, small_memory)"
    using aa_bit_round_trip [of _ small_view ?layout small_memory "fst ?run" "snd ?run"] attempted by simp
  ultimately show ?thesis
    by (intro exI [of _ "fst ?run"] exI [of _ "snd ?run"]) simp
qed


subsection \<open>What setting the far planes achieves\<close>

lemma finite_not_nan: "float_finite b \<Longrightarrow> \<not> float_nan b"
proof
  assume finite: "float_finite b" and "float_nan b"
  define x where "x = b AND 0x7FFFFFFF"
  have large: "x \<ge> 0x7F800000" and "x \<le> 0x7FFFFFFF"
    using \<open>float_nan b\<close> by (auto simp: float_nan_def word_and_le1 x_def)
  then have "2139095040 \<le> unat x" "unat x \<le> 2147483647"
    by (simp_all add: word_le_nat_alt)
  then have "unat x div 2 ^ 23 = 255"
    by simp
  then have top8: "unat (drop_bit 23 x) = 255"
    by (simp add: drop_bit_eq_div unat_div)
  have "b AND 0x7F800000 = 0x7F800000"
  proof (rule bit_word_eqI)
    fix n
    assume "n < LENGTH(32)"
    have word: "(0x7F800000 :: u32) = push_bit 23 (mask 8)"
      by (simp add: mask_eq_exp_minus_1 push_bit_eq_mult)
    have "drop_bit 23 x = mask 8"
      using top8 by (simp add: word_unat_eq_iff mask_eq_exp_minus_1)
    then have "bit (drop_bit 23 x) (n - 23) = (n - 23 < 8)"
      by (auto simp: bit_mask_iff)
    then have "23 \<le> n \<Longrightarrow> n < 31 \<Longrightarrow> bit x n"
      by (simp add: bit_drop_bit_eq)
    then have "23 \<le> n \<Longrightarrow> n < 31 \<Longrightarrow> bit b n"
      by (simp add: x_def bit_and_iff)
    then show "bit (b AND 0x7F800000) n = bit (0x7F800000 :: u32) n"
      unfolding word by (auto simp: bit_and_iff bit_push_bit_iff bit_mask_iff)
  qed
  then show False
    using finite by (simp add: float_finite_def)
qed

lemma float_equal_refl: "float_finite b \<Longrightarrow> float_equal b b"
  by (simp add: float_equal_def finite_not_nan)

text \<open>The reading of a camera's planes, and its refusals.\<close>

definition clip_at :: "u64 \<Rightarrow> (u64 \<Rightarrow> u8) \<Rightarrow> camera_clip" where
  "clip_at camera m = (let bs = block m (camera + clip_near_offset) 16
     in \<lparr>cc_near = le32 bs, cc_far = le32 (drop 4 bs), cc_default_far = le32 (drop 8 bs)\<rparr>)"

lemma plain_clip:
  "read_camera_clip (plain_ops img) camera m =
     (if camera = 0 \<or> camera AND 7 \<noteq> 0 \<or> camera > u64_max - clip_near_offset - 16 then None else Some (clip_at camera m), m)"
  by (simp add: read_camera_clip_def clip_at_def plain_ops_def Let_def)

lemma clip_at_put:
  "clip_at camera (put_block (camera + clip_far_offset) (bytes32 far @ bytes32 dfar) m) =
     (clip_at camera m)\<lparr>cc_far := far, cc_default_far := dfar\<rparr>"
proof -
  define a where "a = camera + clip_near_offset"
  define bs where "bs = bytes32 far @ bytes32 dfar"
  let ?m = "put_block (a + 4) bs m"
  have far: "camera + clip_far_offset = a + 4"
    by (simp add: a_def clip_far_offset_def clip_near_offset_def)
  have put: "?m (a + of_nat i) = (if 4 \<le> i \<and> i < 12 then bs ! (i - 4) else m (a + of_nat i))" if "i < 16" for i
  proof (cases "4 \<le> i")
    case True
    then have "a + of_nat i - (a + 4) = of_nat (i - 4)"
      by (simp add: of_nat_diff)
    then have "unat (a + of_nat i - (a + 4)) = i - 4"
      using that by (simp only: unsigned_of_nat) (simp add: take_bit_nat_eq_self)
    then show ?thesis
      unfolding put_block_def using True by (simp only:) (auto simp: bs_def)
  next
    case False
    then have "i = 0 \<or> i = 1 \<or> i = 2 \<or> i = 3"
      by arith
    then have "\<not> unat (a + of_nat i - (a + 4)) < 8"
      by (auto simp: unsigned_minus_1_eq_mask mask_eq_exp_minus_1)
    then show ?thesis
      unfolding put_block_def using False by (simp only:) (simp add: bs_def)
  qed
  have len: "length bs = 8"
    by (simp add: bs_def)
  have "block ?m a 16 = take 4 (block m a 16) @ bs @ drop 12 (block m a 16)"
    by (rule nth_equalityI) (auto simp: block_nth put nth_append len)
  moreover have "le32 (take 4 (block m a 16) @ xs) = le32 (block m a 16)" for xs
    by (simp add: le32_def nth_append)
  ultimately show ?thesis
    unfolding far bs_def [symmetric]
    by (simp add: clip_at_def Let_def le32_bytes32 bs_def flip: a_def)
qed

text \<open>On a memory that only the caller writes, giving a camera the main camera's far planes either writes
  nothing, or completes having replaced exactly the eight bytes of the two far planes: the camera then has its
  old near plane with the requested far planes, and it had plausible planes before and has after.\<close>

theorem far_planes_replaced:
  assumes "apply_camera_far (plain_ops img) camera target m = (r, m')"
  shows "(\<not> cr_write_attempted r \<longrightarrow> m' = m) \<and>
    (cr_write_attempted r \<longrightarrow> cr_complete r \<and>
       m' = put_block (camera + clip_far_offset) (bytes32 (cc_far target) @ bytes32 (cc_default_far target)) m \<and>
       clip_at camera m' = target\<lparr>cc_near := cc_near (clip_at camera m)\<rparr> \<and>
       plausible_camera_clip (clip_at camera m) \<and> plausible_camera_clip (clip_at camera m'))"
proof -
  define before where "before = clip_at camera m"
  define bs where "bs = bytes32 (cc_far target) @ bytes32 (cc_default_far target)"
  define after where "after = put_block (camera + clip_far_offset) bs m"
  define here where "here \<longleftrightarrow> \<not> (camera = 0 \<or> camera AND 7 \<noteq> 0 \<or> camera > u64_max - clip_near_offset - 16)"
  have clip: "read_camera_clip (plain_ops img) camera x = (if here then Some (clip_at camera x) else None, x)" for x
    by (simp add: plain_clip here_def)
  have later: "clip_at camera after = target\<lparr>cc_near := cc_near before\<rparr>"
    by (simp add: after_def bs_def clip_at_put before_def)
  have stays: "plausible_camera_clip (target\<lparr>cc_near := cc_near before\<rparr>) \<Longrightarrow>
      float_equal (cc_far target) (cc_far target) \<and> float_equal (cc_default_far target) (cc_default_far target) \<and>
      float_equal (cc_near before) (cc_near before)"
    by (simp add: plausible_camera_clip_def float_equal_refl)
  have run: "apply_camera_far (plain_ops img) camera target m =
     (if \<not> here then (clip_fail no_clip no_clip ''clip_read_failed'' False, m)
      else if \<not> plausible_camera_clip before then (clip_fail before no_clip ''clip_implausible_camera'' False, m)
      else if float_equal (cc_far before) (cc_far target) \<and> float_equal (cc_default_far before) (cc_default_far target)
        then (\<lparr>cr_complete = True, cr_write_attempted = False, cr_before = before, cr_after = before, cr_error = ''''\<rparr>, m)
      else if \<not> plausible_camera_clip (target\<lparr>cc_near := cc_near before\<rparr>)
        then (clip_fail before no_clip ''clip_implausible_target'' False, m)
      else (\<lparr>cr_complete = True, cr_write_attempted = True, cr_before = before,
          cr_after = target\<lparr>cc_near := cc_near before\<rparr>, cr_error = ''''\<rparr>, after))"
    using stays by (simp add: apply_camera_far_def clip plain_writable plain_store clip_recheck_def later
        flip: before_def bs_def after_def)
  show ?thesis
    using assms later unfolding run before_def [symmetric] bs_def [symmetric] after_def [symmetric]
    by (auto simp: clip_fail_def split: if_splits)
qed


definition camera_memory :: "u64 \<Rightarrow> u8" where
  "camera_memory = put_block 0x205F0 (bytes32 0x3DCCCCCD @ bytes32 0xBF800000 @ bytes32 0x469C4000 @ bytes32 0) (\<lambda>_. 0)"

lemma camera_memory_clip: "clip_at 0x20000 camera_memory = \<lparr>cc_near = 0x3DCCCCCD, cc_far = 0xBF800000, cc_default_far = 0x469C4000\<rparr>"
proof -
  have "block camera_memory 0x205F0 16 = bytes32 0x3DCCCCCD @ bytes32 0xBF800000 @ bytes32 0x469C4000 @ bytes32 0"
    using block_put_same [of "bytes32 0x3DCCCCCD @ bytes32 0xBF800000 @ bytes32 0x469C4000 @ bytes32 0" "0x205F0"]
    by (simp add: camera_memory_def)
  then show ?thesis
    by (simp add: clip_at_def clip_near_offset_def Let_def le32_bytes32)
qed

lemma far_planes_replaced_witness:
  "\<exists>r m'. apply_camera_far (plain_ops (\<lambda>_. 0)) 0x20000 \<lparr>cc_near = 0, cc_far = 0xBF800000, cc_default_far = 0x47435000\<rparr>
       camera_memory = (r, m') \<and>
     cr_complete r \<and> clip_at 0x20000 m' = \<lparr>cc_near = 0x3DCCCCCD, cc_far = 0xBF800000, cc_default_far = 0x47435000\<rparr>"
proof -
  let ?target = "\<lparr>cc_near = 0, cc_far = 0xBF800000, cc_default_far = 0x47435000\<rparr>"
  let ?run = "apply_camera_far (plain_ops (\<lambda>_. 0)) 0x20000 ?target camera_memory"
  have "cr_write_attempted (fst ?run)"
    by (simp add: apply_camera_far_def plain_clip camera_memory_clip plain_writable plain_store clip_recheck_def clip_fail_def
        clip_near_offset_def plausible_camera_clip_def float_finite_def float_less_def float_equal_def float_nan_def
        float_rank_def bit_numeral_rec split: option.splits)
  then have "cr_complete (fst ?run)" and "clip_at 0x20000 (snd ?run) = \<lparr>cc_near = 0x3DCCCCCD, cc_far = 0xBF800000, cc_default_far = 0x47435000\<rparr>"
    using far_planes_replaced [of "\<lambda>_. 0" "0x20000" ?target camera_memory "fst ?run" "snd ?run"] unfolding camera_memory_clip by auto
  moreover have "?run = (fst ?run, snd ?run)"
    by simp
  ultimately show ?thesis
    by blast
qed

subsection \<open>The ledger and the warmup\<close>

lemma ledger_notes:
  assumes "aa_note renderer view s = (True, s')"
  shows "aa_contains renderer view s'" "aa_pending s'"
    "al_renderer s = renderer \<Longrightarrow> aa_contains renderer v s \<Longrightarrow> aa_contains renderer v s'"
proof -
  from assms have nz: "renderer \<noteq> 0" "view \<noteq> 0"
    by (auto simp: aa_note_def split: if_splits)
  define s1 where "s1 = (if al_renderer s \<noteq> renderer then \<lparr>al_renderer = renderer, al_views = replicate 4 0\<rparr> else s)"
  have own: "al_renderer s1 = renderer"
    by (simp add: s1_def)
  have s': "view \<in> set (al_views s1) \<and> s' = s1 \<or>
      (\<exists>i < length (al_views s1). al_views s1 ! i = 0 \<and> s' = s1\<lparr>al_views := (al_views s1)[i := view]\<rparr>)"
    using assms nz by (auto simp: aa_note_def Let_def simp flip: s1_def split: if_splits option.splits dest: first_index_Some)
  then have "view \<in> set (al_views s')" "al_renderer s' = renderer"
    using own by (auto simp: set_update_memI)
  then show "aa_contains renderer view s'" "aa_pending s'"
    using nz by (auto simp: aa_contains_def aa_pending_def list_ex_iff)
  show "aa_contains renderer v s'" if "al_renderer s = renderer" "aa_contains renderer v s"
  proof -
    have v: "v \<in> set (al_views s1)" "v \<noteq> 0"
      using that by (auto simp: s1_def aa_contains_def)
    have "v \<in> set (al_views s')"
      using s'
    proof
      assume "\<exists>i < length (al_views s1). al_views s1 ! i = 0 \<and> s' = s1\<lparr>al_views := (al_views s1)[i := view]\<rparr>"
      then obtain i where i: "i < length (al_views s1)" "al_views s1 ! i = 0" "s' = s1\<lparr>al_views := (al_views s1)[i := view]\<rparr>"
        by blast
      obtain j where j: "j < length (al_views s1)" "al_views s1 ! j = v"
        using v(1) by (auto simp: in_set_conv_nth)
      then have "i \<noteq> j"
        using i v(2) by auto
      then have "al_views s' ! j = v"
        using i(3) j by simp
      then show ?thesis
        using i j by (metis length_list_update nth_mem aa_ledger.simps(2) aa_ledger.surjective aa_ledger.update_convs(2))
    qed (use v in simp)
    then show ?thesis
      using \<open>al_renderer s' = renderer\<close> v by (simp add: aa_contains_def)
  qed
qed

lemma ledger_forgets:
  "\<not> aa_contains renderer view (aa_forget view s)"
  "v \<noteq> view \<Longrightarrow> aa_contains renderer v (aa_forget view s) = aa_contains renderer v s"
  by (auto simp: aa_contains_def aa_forget_def)

lemma ledger_pending: "aa_pending s \<longleftrightarrow> (\<exists>v. aa_contains (al_renderer s) v s)"
  by (auto simp: aa_pending_def aa_contains_def list_ex_iff)

text \<open>A resize waits for a native pass strictly later than the one that saw the feeds ready, and only while the
  same feeds are still there.\<close>

lemma resize_only_later:
  assumes "warmup_begin ids n s = (True, s')" "may_resize ids' n' s'"
  shows "ids' = ids" "n' > n" "distinct_nonzero ids"
  using assms by (auto simp: warmup_begin_def may_resize_def split: if_splits)

text \<open>The outputs are waited for at most twelve times.\<close>

fun awaits :: "owned_ids \<Rightarrow> u64 list \<Rightarrow> warmup \<Rightarrow> bool \<times> warmup" where
  "awaits ids [] s = (True, s)"
| "awaits ids (n # ns) s = (case await_output ids n s of (ok, s') \<Rightarrow> if ok then awaits ids ns s' else (False, s'))"

lemma awaits_count:
  "awaits ids ns s = (True, s') \<Longrightarrow> unat (vw_output_waits s) \<le> 12 \<Longrightarrow>
     unat (vw_output_waits s') = unat (vw_output_waits s) + length ns \<and> unat (vw_output_waits s') \<le> 12"
proof (induction ns arbitrary: s)
  case (Cons n ns)
  let ?t = "s\<lparr>vw_output_waits := vw_output_waits s + 1\<rparr>"
  have step: "awaits ids ns ?t = (True, s')" and small: "vw_output_waits s + 1 \<le> 12"
    using Cons.prems(1) by (auto simp: await_output_def maximum_output_waits_def split: if_splits prod.splits)
  have "vw_output_waits s + 1 \<noteq> 0"
    using Cons.prems(2) by (auto simp: add_eq_0_iff2 unsigned_minus_1_eq_mask mask_eq_exp_minus_1)
  then have next_wait: "unat (vw_output_waits s + 1) = unat (vw_output_waits s) + 1"
    by (simp add: unatSuc add.commute)
  then show ?case
    using Cons.IH [OF step] small by (simp add: word_le_nat_alt)
qed simp

lemma outputs_awaited_twelve_times:
  assumes "warmup_begin ids n s = (True, s1)" "awaits ids ns s1 = (True, s2)"
  shows "length ns \<le> 12"
  using awaits_count [OF assms(2)] assms(1) by (auto simp: warmup_begin_def split: if_splits)

end
