(* ===== verification/Setup_Files.thy ===== *)
theory Setup_Files
  imports Prelude
begin

text \<open>
  The file transactions of Setup: the paths and errors of \<open>src/setup/setup_common.hpp\<close> and \<open>.cpp\<close>,
  the replacement of the simulator's \<open>exe.xml\<close> (\<open>save_launch_xml\<close> of \<open>src/setup/startup_xml.cpp\<close>)
  and the snapshot, removal and rollback of saved settings (\<open>src/setup/saved_settings.cpp\<close>).  The calls
  of Windows - file operations, the hash, random bytes, the clock - and the virtual \<open>StartupIo\<close> are
  operations of an environment.  The locale \<open>lawful_files\<close> states what their documentation promises about the
  content of files; failed operations may leave anything at their own destination, and a failed
  replacement anything at both of its paths.
\<close>

subsection \<open>Errors\<close>

record failure =
  fl_message :: string
  fl_win32 :: u32
  fl_conflict :: bool
  fl_unsafe :: bool
  fl_operation :: string
  fl_source :: string
  fl_destination :: string

definition new_failure :: "string \<Rightarrow> u32 \<Rightarrow> failure" where
  "new_failure message code = \<lparr>fl_message = message, fl_win32 = code, fl_conflict = False, fl_unsafe = False,
     fl_operation = '''', fl_source = '''', fl_destination = ''''\<rparr>"

definition conflict :: "string \<Rightarrow> failure" where
  "conflict message = (new_failure message 0)\<lparr>fl_conflict := True\<rparr>"

definition annotated :: "failure \<Rightarrow> string \<Rightarrow> string \<Rightarrow> string \<Rightarrow> failure" where
  "annotated f operation source destination =
     f\<lparr>fl_operation := operation, fl_source := source, fl_destination := destination\<rparr>"

subsection \<open>Paths\<close>

definition backslash :: char where "backslash = CHR 0x5C"

definition separator :: "char \<Rightarrow> bool" where
  "separator c \<longleftrightarrow> c = backslash \<or> c = CHR ''/''"

definition before_last :: "string \<Rightarrow> string" where
  "before_last path = rev (tl (dropWhile (\<lambda>c. \<not> separator c) (rev path)))"

definition parent_path :: "string \<Rightarrow> string" where
  "parent_path path =
     (if \<not> list_ex separator path then []
      else let parent = before_last path
           in if length parent = 2 \<and> parent ! 1 = CHR '':''
              then (if length path > 3 then parent @ [backslash] else [])
              else parent)"

definition file_name :: "string \<Rightarrow> string" where
  "file_name path = (if \<not> list_ex separator path then path else rev (takeWhile (\<lambda>c. \<not> separator c) (rev path)))"

definition join :: "string \<Rightarrow> string \<Rightarrow> string" where
  "join base child =
     (let relative = map (\<lambda>c. if c = CHR ''/'' then backslash else c) child
      in if base = [] then relative
         else if separator (last base) then base @ relative
         else base @ [backslash] @ relative)"

definition path_rooted :: "string \<Rightarrow> bool" where
  "path_rooted path \<longleftrightarrow>
     length path \<ge> 3 \<and> path ! 1 = CHR '':'' \<and> separator (path ! 2) \<or>
     length path \<ge> 2 \<and> separator (path ! 0) \<and> separator (path ! 1)"

definition path_root :: "string \<Rightarrow> string" where
  "path_root path = (if length path \<ge> 3 \<and> path ! 1 = CHR '':'' \<and> separator (path ! 2) then take 3 path else [])"

definition trim_separators :: "string \<Rightarrow> string" where
  "trim_separators path = rev (dropWhile separator (rev path))"

text \<open>The digits of a random identifier, upper case and then lowered (\<open>hex_upper\<close>, \<open>new_guid\<close>).\<close>

definition hex_digit :: "nat \<Rightarrow> char" where
  "hex_digit n = ''0123456789ABCDEF'' ! n"

definition hex_upper :: "u8 list \<Rightarrow> string" where
  "hex_upper bytes = concat (map (\<lambda>b. [hex_digit (unat (drop_bit 4 b)), hex_digit (unat (b AND 15))]) bytes)"

definition lower_letter :: "char \<Rightarrow> char" where
  "lower_letter c = (if 65 \<le> (of_char c :: nat) \<and> (of_char c :: nat) \<le> 90 then char_of (of_char c + 32 :: nat) else c)"

definition guid_text :: "u8 list \<Rightarrow> string" where
  "guid_text bytes = map lower_letter (hex_upper bytes)"

subsection \<open>The calls of Windows\<close>

datatype put_result = Put_Done | Not_Opened u32 | Not_Written u32

text \<open>A failed call gives its error code; the operations that the code itself turns into a \<open>Failure\<close> give that.\<close>

record 'e file_ops =
  fo_same :: "string \<Rightarrow> string \<Rightarrow> bool"
  fo_full_path :: "string \<Rightarrow> 'e \<Rightarrow> (u32 + string) \<times> 'e"
  fo_attributes :: "string \<Rightarrow> 'e \<Rightarrow> (u32 + u32) \<times> 'e"
  fo_make_directory :: "string \<Rightarrow> 'e \<Rightarrow> u32 option \<times> 'e"
  fo_hash :: "string \<Rightarrow> 'e \<Rightarrow> (failure + string) \<times> 'e"
  fo_random :: "'e \<Rightarrow> u8 list option \<times> 'e"
  fo_tag :: "'e \<Rightarrow> string \<times> 'e"
  fo_create_new :: "string \<Rightarrow> 'e \<Rightarrow> u32 option \<times> 'e"
  fo_put :: "string \<Rightarrow> u8 list \<Rightarrow> 'e \<Rightarrow> put_result \<times> 'e"
  fo_reads_back :: "string \<Rightarrow> 'e \<Rightarrow> (failure + unit) \<times> 'e"
  fo_copy_new :: "string \<Rightarrow> string \<Rightarrow> 'e \<Rightarrow> u32 option \<times> 'e"
  fo_replace :: "string \<Rightarrow> string \<Rightarrow> 'e \<Rightarrow> u32 option \<times> 'e"
  fo_move :: "string \<Rightarrow> string \<Rightarrow> 'e \<Rightarrow> u32 option \<times> 'e"
  fo_delete :: "string \<Rightarrow> 'e \<Rightarrow> u32 option \<times> 'e"
  fo_normalize :: "string \<Rightarrow> 'e \<Rightarrow> 'e"
  fo_io_copy_backup :: "string \<Rightarrow> string \<Rightarrow> 'e \<Rightarrow> (failure + unit) \<times> 'e"
  fo_io_attributes :: "string \<Rightarrow> 'e \<Rightarrow> (failure + u32) \<times> 'e"
  fo_io_protect_like :: "string \<Rightarrow> string \<Rightarrow> 'e \<Rightarrow> (failure + unit) \<times> 'e"
  fo_io_assert_visible :: "string \<Rightarrow> 'e \<Rightarrow> (failure + unit) \<times> 'e"
  fo_settings_closed :: "'e \<Rightarrow> (failure + unit) \<times> 'e"

subsection \<open>Actions that may throw\<close>

type_synonym ('s, 'a) action = "'s \<Rightarrow> (failure + 'a) \<times> 's"

definition give :: "'a \<Rightarrow> ('s, 'a) action" where
  "give x = (\<lambda>s. (Inr x, s))"

definition refuse :: "failure \<Rightarrow> ('s, 'a) action" where
  "refuse f = (\<lambda>s. (Inl f, s))"

definition andthen :: "('s, 'a) action \<Rightarrow> ('a \<Rightarrow> ('s, 'b) action) \<Rightarrow> ('s, 'b) action" where
  "andthen m k = (\<lambda>s. case m s of (Inl f, s') \<Rightarrow> (Inl f, s') | (Inr x, s') \<Rightarrow> k x s')"

text \<open>A call of Windows that fails with a code, and the \<open>fail_win32\<close> that follows.\<close>

definition or_fail :: "('e \<Rightarrow> u32 option \<times> 'e) \<Rightarrow> string \<Rightarrow> ('e, unit) action" where
  "or_fail m message = (\<lambda>e. case m e of (None, e') \<Rightarrow> (Inr (), e') | (Some code, e') \<Rightarrow> (Inl (new_failure message code), e'))"

definition directory_attribute :: u32 where "directory_attribute = 0x10"
definition reparse_attribute :: u32 where "reparse_attribute = 0x400"
definition encrypted_attribute :: u32 where "encrypted_attribute = 0x4000"
definition already_exists :: u32 where "already_exists = 183"
definition file_not_found :: u32 where "file_not_found = 2"
definition path_not_found :: u32 where "path_not_found = 3"

definition full_path :: "'e file_ops \<Rightarrow> string \<Rightarrow> ('e, string) action" where
  "full_path ops path = (\<lambda>e.
     if path = [] then (Inl (new_failure ''A path is required.'' 0), e)
     else case fo_full_path ops path e of
       (Inl code, e') \<Rightarrow> (Inl (new_failure (''Invalid path: '' @ path) code), e')
     | (Inr p, e') \<Rightarrow> (Inr p, e'))"

definition exists_path :: "'e file_ops \<Rightarrow> string \<Rightarrow> 'e \<Rightarrow> bool \<times> 'e" where
  "exists_path ops path e = (case fo_attributes ops path e of (Inl _, e') \<Rightarrow> (False, e') | (Inr _, e') \<Rightarrow> (True, e'))"

definition is_file :: "'e file_ops \<Rightarrow> string \<Rightarrow> 'e \<Rightarrow> bool \<times> 'e" where
  "is_file ops path e =
     (case fo_attributes ops path e of (Inl _, e') \<Rightarrow> (False, e') | (Inr a, e') \<Rightarrow> (a AND directory_attribute = 0, e'))"

definition is_directory :: "'e file_ops \<Rightarrow> string \<Rightarrow> 'e \<Rightarrow> bool \<times> 'e" where
  "is_directory ops path e =
     (case fo_attributes ops path e of (Inl _, e') \<Rightarrow> (False, e') | (Inr a, e') \<Rightarrow> (a AND directory_attribute \<noteq> 0, e'))"

lemma before_last_shorter:
  assumes "path \<noteq> []"
  shows "length (before_last path) < length path"
proof -
  have "length (dropWhile (\<lambda>c. \<not> separator c) (rev path)) \<le> length path"
    using length_dropWhile_le [of "\<lambda>c. \<not> separator c" "rev path"] by simp
  moreover have "0 < length path"
    using assms by simp
  ultimately show ?thesis
    unfolding before_last_def length_rev length_tl by arith
qed

lemma parent_path_shorter: "path \<noteq> [] \<Longrightarrow> length (parent_path path) < length path"
  using before_last_shorter [of path] by (auto simp: parent_path_def Let_def)

text \<open>Every missing ancestor first.\<close>

function create_directories :: "'e file_ops \<Rightarrow> string \<Rightarrow> ('e, unit) action" where
  "create_directories ops path e =
     (if path = [] then (Inr (), e)
      else case is_directory ops path e of
        (True, e1) \<Rightarrow> (Inr (), e1)
      | (False, e1) \<Rightarrow>
          let parent = parent_path path in
          (case (if parent \<noteq> [] \<and> parent \<noteq> path then create_directories ops parent e1 else (Inr (), e1)) of
             (Inl f, e2) \<Rightarrow> (Inl f, e2)
           | (Inr _, e2) \<Rightarrow>
               (case fo_make_directory ops path e2 of
                  (None, e3) \<Rightarrow> (Inr (), e3)
                | (Some code, e3) \<Rightarrow>
                    if code \<noteq> already_exists then (Inl (new_failure (''Could not create directory: '' @ path) code), e3)
                    else (Inr (), e3))))"
  by pat_completeness auto

termination
  by (relation "measure (\<lambda>(ops, path, e). length path)") (auto simp: parent_path_shorter)

declare create_directories.simps [simp del]

definition copy_file_new :: "'e file_ops \<Rightarrow> string \<Rightarrow> string \<Rightarrow> ('e, unit) action" where
  "copy_file_new ops source destination =
     or_fail (fo_copy_new ops source destination) (''Could not copy '' @ [CHR 0x27] @ source @ [CHR 0x27] @ '' to '' @ [CHR 0x27] @ destination @ [CHR 0x27] @ ''.'')"

definition move_file :: "'e file_ops \<Rightarrow> string \<Rightarrow> string \<Rightarrow> ('e, unit) action" where
  "move_file ops source destination =
     or_fail (fo_move ops source destination) (''Could not move '' @ [CHR 0x27] @ source @ [CHR 0x27] @ '' to '' @ [CHR 0x27] @ destination @ [CHR 0x27] @ ''.'')"

definition replace_file :: "'e file_ops \<Rightarrow> string \<Rightarrow> string \<Rightarrow> ('e, unit) action" where
  "replace_file ops replaced replacement =
     or_fail (fo_replace ops replaced replacement) (''Could not replace '' @ [CHR 0x27] @ replaced @ [CHR 0x27] @ ''.'')"

definition delete_file :: "'e file_ops \<Rightarrow> string \<Rightarrow> ('e, unit) action" where
  "delete_file ops path = or_fail (fo_delete ops path) (''Could not delete file: '' @ path)"

definition file_hash_or_empty :: "'e file_ops \<Rightarrow> string \<Rightarrow> ('e, string) action" where
  "file_hash_or_empty ops path = (\<lambda>e. case is_file ops path e of (True, e') \<Rightarrow> fo_hash ops path e' | (False, e') \<Rightarrow> (Inr [], e'))"

definition new_guid :: "'e file_ops \<Rightarrow> ('e, string) action" where
  "new_guid ops = (\<lambda>e. case fo_random ops e of
       (None, e') \<Rightarrow> (Inl (new_failure ''Random identifiers are unavailable.'' 0), e')
     | (Some bytes, e') \<Rightarrow> (Inr (guid_text bytes), e'))"


subsection \<open>Replacing exe.xml\<close>

text \<open>The local variables of \<open>save_launch_xml\<close> that its error handling reads.\<close>

record save_vars =
  sv_temporary :: string
  sv_backup :: string
  sv_operation :: string
  sv_source :: string
  sv_destination :: string
  sv_backup_verified :: bool
  sv_committed :: bool
  sv_encrypted_known :: bool
  sv_encrypted :: bool
  sv_written :: string

definition on_env :: "('e, 'a) action \<Rightarrow> (save_vars \<times> 'e, 'a) action" where
  "on_env m = (\<lambda>(v, e). case m e of (r, e') \<Rightarrow> (r, (v, e')))"

definition observe :: "('e \<Rightarrow> 'a \<times> 'e) \<Rightarrow> (save_vars \<times> 'e, 'a) action" where
  "observe m = (\<lambda>(v, e). case m e of (x, e') \<Rightarrow> (Inr x, (v, e')))"

definition assign :: "(save_vars \<Rightarrow> save_vars) \<Rightarrow> (save_vars \<times> 'e, unit) action" where
  "assign f = (\<lambda>(v, e). (Inr (), (f v, e)))"

definition is_encrypted :: "'e file_ops \<Rightarrow> string \<Rightarrow> (save_vars \<times> 'e, bool) action" where
  "is_encrypted ops path =
     andthen (on_env (fo_io_attributes ops path)) (\<lambda>a. give (a AND encrypted_attribute \<noteq> 0))"

definition hash_differs :: "'e file_ops \<Rightarrow> string \<Rightarrow> string \<Rightarrow> (save_vars \<times> 'e, bool) action" where
  "hash_differs ops path expected = andthen (on_env (fo_hash ops path)) (\<lambda>h. give (\<not> fo_same ops h expected))"

definition verify_original :: "'e file_ops \<Rightarrow> string \<Rightarrow> string \<Rightarrow> (save_vars \<times> 'e, unit) action" where
  "verify_original ops absolute expected =
     andthen (on_env (create_directories ops (parent_path absolute))) (\<lambda>_.
     andthen (assign (\<lambda>v. v\<lparr>sv_operation := ''Verify original startup file'', sv_destination := absolute\<rparr>)) (\<lambda>_.
     andthen (observe (exists_path ops absolute)) (\<lambda>there.
     if there then
       andthen (if expected = [] then give True else hash_differs ops absolute expected) (\<lambda>changed.
       if changed then refuse (conflict ''exe.xml changed during installation; no startup entry was written.'')
       else andthen (is_encrypted ops absolute) (\<lambda>encrypted.
         assign (\<lambda>v. v\<lparr>sv_encrypted := encrypted, sv_encrypted_known := True\<rparr>)))
     else if expected \<noteq> [] then refuse (conflict ''exe.xml disappeared during installation.'')
     else give ())))"

definition reserve_temporary :: "'e file_ops \<Rightarrow> string \<Rightarrow> (save_vars \<times> 'e, unit) action" where
  "reserve_temporary ops absolute =
     andthen (on_env (new_guid ops)) (\<lambda>guid.
     let temporary = join (parent_path absolute) (''exe.xml.taxi-'' @ guid @ ''.tmp'') in
     andthen (assign (\<lambda>v. v\<lparr>sv_temporary := temporary, sv_operation := ''Create startup replacement'',
         sv_destination := temporary\<rparr>)) (\<lambda>_.
     on_env (or_fail (fo_create_new ops temporary) (''Could not create '' @ temporary))))"

definition verify_visible :: "'e file_ops \<Rightarrow> string \<Rightarrow> string \<Rightarrow> (save_vars \<times> 'e, unit) action" where
  "verify_visible ops absolute temporary =
     andthen (assign (\<lambda>v. v\<lparr>sv_operation := ''Verify startup path visibility''\<rparr>)) (\<lambda>_.
     andthen (on_env (fo_io_assert_visible ops temporary)) (\<lambda>_.
     andthen (observe (exists_path ops absolute)) (\<lambda>there.
     if there then on_env (fo_io_assert_visible ops absolute) else give ())))"

definition protect_temporary :: "'e file_ops \<Rightarrow> string \<Rightarrow> string \<Rightarrow> (save_vars \<times> 'e, unit) action" where
  "protect_temporary ops absolute temporary =
     andthen (assign (\<lambda>v. v\<lparr>sv_operation := ''Encrypt startup replacement''\<rparr>)) (\<lambda>_.
     andthen (is_encrypted ops temporary) (\<lambda>before.
     andthen (if before then give () else on_env (fo_io_protect_like ops absolute temporary)) (\<lambda>_.
     andthen (is_encrypted ops temporary) (\<lambda>after.
     if after then give () else refuse (new_failure ''Could not preserve exe.xml encryption on the replacement file.'' 0)))))"

definition put_temporary :: "'e file_ops \<Rightarrow> string \<Rightarrow> u8 list \<Rightarrow> ('e, unit) action" where
  "put_temporary ops temporary bytes = (\<lambda>e. case fo_put ops temporary bytes e of
       (Put_Done, e') \<Rightarrow> (Inr (), e')
     | (Not_Opened code, e') \<Rightarrow> (Inl (new_failure (''Could not write '' @ temporary) code), e')
     | (Not_Written code, e') \<Rightarrow> (Inl (new_failure (''Could not write '' @ temporary) code), e'))"

text \<open>The bytes are the result of \<open>serialize_launch_xml\<close>; the value is the hash of what was written.\<close>

definition write_temporary ::
  "'e file_ops \<Rightarrow> failure + u8 list \<Rightarrow> string \<Rightarrow> (save_vars \<times> 'e, string) action" where
  "write_temporary ops serialized temporary =
     andthen (assign (\<lambda>v. v\<lparr>sv_operation := ''Write startup replacement''\<rparr>)) (\<lambda>_.
     case serialized of
       Inl f \<Rightarrow> refuse f
     | Inr bytes \<Rightarrow>
         andthen (on_env (put_temporary ops temporary bytes)) (\<lambda>_.
         andthen (assign (\<lambda>v. v\<lparr>sv_operation := ''Verify startup replacement''\<rparr>)) (\<lambda>_.
         andthen (on_env (fo_reads_back ops temporary)) (\<lambda>_.
         on_env (fo_hash ops temporary)))))"

definition back_up :: "'e file_ops \<Rightarrow> string \<Rightarrow> string \<Rightarrow> bool \<Rightarrow> (save_vars \<times> 'e, unit) action" where
  "back_up ops absolute expected encrypted =
     andthen (assign (\<lambda>v. v\<lparr>sv_operation := ''Verify original startup file before backup'', sv_destination := absolute\<rparr>)) (\<lambda>_.
     andthen (observe (exists_path ops absolute)) (\<lambda>there.
     andthen (if there then hash_differs ops absolute expected else give True) (\<lambda>changed.
     if changed then refuse (conflict ''exe.xml changed before backup.'')
     else
       andthen (observe (fo_tag ops)) (\<lambda>tag.
       andthen (on_env (new_guid ops)) (\<lambda>guid.
       let backup = absolute @ ''.taxi-backup-'' @ tag @ ''-'' @ guid in
       andthen (assign (\<lambda>v. v\<lparr>sv_backup := backup, sv_operation := ''Back up startup file'', sv_destination := backup\<rparr>)) (\<lambda>_.
       andthen (on_env (fo_io_copy_backup ops absolute backup)) (\<lambda>_.
       andthen (assign (\<lambda>v. v\<lparr>sv_operation := ''Verify startup backup''\<rparr>)) (\<lambda>_.
       andthen (hash_differs ops backup expected) (\<lambda>differs.
       if differs then refuse (conflict ''Startup backup verification failed.'')
       else
         andthen (if encrypted then is_encrypted ops backup else give True) (\<lambda>kept.
         if \<not> kept then refuse (new_failure ''Could not preserve exe.xml encryption on the backup file.'' 0)
         else assign (\<lambda>v. v\<lparr>sv_backup_verified := True\<rparr>)))))))))))"

definition replace_original :: "'e file_ops \<Rightarrow> string \<Rightarrow> string \<Rightarrow> string \<Rightarrow> bool \<Rightarrow> (save_vars \<times> 'e, unit) action" where
  "replace_original ops absolute temporary expected encrypted =
     andthen (assign (\<lambda>v. v\<lparr>sv_operation := ''Verify original startup file before replacement'', sv_destination := absolute\<rparr>)) (\<lambda>_.
     andthen (hash_differs ops absolute expected) (\<lambda>changed.
     if changed then refuse (conflict ''exe.xml changed before replacement.'')
     else
       andthen (is_encrypted ops absolute) (\<lambda>now.
       if now \<noteq> encrypted then refuse (conflict ''exe.xml encryption changed before replacement.'')
       else
         andthen (assign (\<lambda>v. v\<lparr>sv_operation := ''Replace startup file'', sv_source := temporary\<rparr>)) (\<lambda>_.
         on_env (replace_file ops absolute temporary)))))"

definition create_original :: "'e file_ops \<Rightarrow> string \<Rightarrow> string \<Rightarrow> (save_vars \<times> 'e, unit) action" where
  "create_original ops absolute temporary =
     andthen (assign (\<lambda>v. v\<lparr>sv_operation := ''Create startup file'', sv_source := temporary, sv_destination := absolute\<rparr>)) (\<lambda>_.
     andthen (observe (exists_path ops absolute)) (\<lambda>there.
     if there then refuse (conflict ''exe.xml appeared during installation; no startup entry was written.'')
     else on_env (move_file ops temporary absolute)))"

text \<open>Best effort; without a temporary file there is nothing to do.\<close>

definition cleanup_temporary :: "'e file_ops \<Rightarrow> string \<Rightarrow> 'e \<Rightarrow> 'e" where
  "cleanup_temporary ops temporary e =
     (if temporary = [] then e
      else case is_file ops temporary e of
        (False, e1) \<Rightarrow> e1
      | (True, e1) \<Rightarrow> snd (fo_delete ops temporary (fo_normalize ops temporary e1)))"

definition clean :: "'e file_ops \<Rightarrow> string \<Rightarrow> (save_vars \<times> 'e, unit) action" where
  "clean ops temporary = observe (\<lambda>e. ((), cleanup_temporary ops temporary e))"

definition vars :: "(save_vars \<Rightarrow> 'a) \<Rightarrow> (save_vars \<times> 'e, 'a) action" where
  "vars f = (\<lambda>(v, e). (Inr (f v), (v, e)))"

definition save_try ::
  "'e file_ops \<Rightarrow> failure + u8 list \<Rightarrow> string \<Rightarrow> string \<Rightarrow> bool \<Rightarrow> (save_vars \<times> 'e, unit) action" where
  "save_try ops serialized absolute expected visible =
     andthen (verify_original ops absolute expected) (\<lambda>_.
     andthen (reserve_temporary ops absolute) (\<lambda>_.
     andthen (vars sv_temporary) (\<lambda>temporary.
     andthen (vars sv_encrypted) (\<lambda>encrypted.
     andthen (if visible then verify_visible ops absolute temporary else give ()) (\<lambda>_.
     andthen (if encrypted then protect_temporary ops absolute temporary else give ()) (\<lambda>_.
     andthen (write_temporary ops serialized temporary) (\<lambda>prepared.
     andthen (if expected \<noteq> []
              then andthen (back_up ops absolute expected encrypted) (\<lambda>_. replace_original ops absolute temporary expected encrypted)
              else create_original ops absolute temporary) (\<lambda>_.
     andthen (assign (\<lambda>v. v\<lparr>sv_committed := True, sv_written := prepared\<rparr>)) (\<lambda>_.
     clean ops temporary)))))))))"

text \<open>Whether the original is proved unchanged; an operation that throws proves nothing.\<close>

definition proved_unchanged :: "'e file_ops \<Rightarrow> string \<Rightarrow> string \<Rightarrow> save_vars \<Rightarrow> 'e \<Rightarrow> bool \<times> 'e" where
  "proved_unchanged ops absolute expected v e =
     (if sv_committed v then (False, e)
      else if expected \<noteq> [] then
        (case is_file ops absolute e of
           (False, e1) \<Rightarrow> (False, e1)
         | (True, e1) \<Rightarrow>
             (case fo_hash ops absolute e1 of
                (Inl _, e2) \<Rightarrow> (False, e2)
              | (Inr h, e2) \<Rightarrow>
                  if \<not> fo_same ops h expected then (False, e2)
                  else if sv_encrypted_known v then
                    (case fo_io_attributes ops absolute e2 of
                       (Inl _, e3) \<Rightarrow> (False, e3)
                     | (Inr a, e3) \<Rightarrow> ((a AND encrypted_attribute \<noteq> 0) = sv_encrypted v, e3))
                  else (True, e2)))
      else (case exists_path ops absolute e of (there, e1) \<Rightarrow> (\<not> there, e1)))"

definition judged :: "'e file_ops \<Rightarrow> string \<Rightarrow> string \<Rightarrow> save_vars \<Rightarrow> failure \<Rightarrow> 'e \<Rightarrow> failure \<times> 'e" where
  "judged ops absolute expected v f e =
     (let (g, e1) = (if fl_conflict f then (f, e)
            else case proved_unchanged ops absolute expected v e of
              (True, e') \<Rightarrow> (f, e') | (False, e') \<Rightarrow> (f\<lparr>fl_unsafe := True\<rparr>, e'))
      in (g, cleanup_temporary ops (sv_temporary v) e1))"

definition save_caught :: "'e file_ops \<Rightarrow> string \<Rightarrow> string \<Rightarrow> save_vars \<Rightarrow> failure \<Rightarrow> 'e \<Rightarrow> failure \<times> 'e" where
  "save_caught ops absolute expected v caught e =
     (let failure = annotated caught (sv_operation v) (sv_source v) (sv_destination v); backup = sv_backup v in
      if backup \<noteq> [] \<and> \<not> sv_backup_verified v then
        (case fo_delete ops backup e of
           (Some code, e1) \<Rightarrow>
             if code \<noteq> file_not_found then
               (annotated ((new_failure (''Could not remove unverified startup backup '' @ [CHR 0x27] @ backup @ [CHR 0x27] @ '': '' @ fl_message failure)
                   code)\<lparr>fl_unsafe := True\<rparr>) ''Remove unverified startup backup'' backup backup,
                cleanup_temporary ops (sv_temporary v) e1)
             else judged ops absolute expected v failure e1
         | (None, e1) \<Rightarrow> judged ops absolute expected v failure e1)
      else judged ops absolute expected v failure e)"

text \<open>The backup or the failure, the written hash, and the environment afterwards.\<close>

definition save_launch_xml ::
  "'e file_ops \<Rightarrow> failure + u8 list \<Rightarrow> string \<Rightarrow> string \<Rightarrow> bool \<Rightarrow> 'e \<Rightarrow> (failure + string) \<times> string \<times> 'e" where
  "save_launch_xml ops serialized path expected visible e =
     (case full_path ops path e of
        (Inl f, e1) \<Rightarrow> (Inl f, [], e1)
      | (Inr absolute, e1) \<Rightarrow>
          if \<not> fo_same ops (file_name absolute) ''exe.xml'' then (Inl (new_failure ''Startup target must be named exe.xml.'' 0), [], e1)
          else
            (case save_try ops serialized absolute expected visible
                (\<lparr>sv_temporary = [], sv_backup = [], sv_operation = ''Prepare startup directory'', sv_source = absolute,
                  sv_destination = parent_path absolute, sv_backup_verified = False, sv_committed = False,
                  sv_encrypted_known = False, sv_encrypted = False, sv_written = []\<rparr>, e1) of
               (Inr _, (v, e2)) \<Rightarrow> (Inr (sv_backup v), sv_written v, e2)
             | (Inl f, (v, e2)) \<Rightarrow>
                 (case save_caught ops absolute expected v f e2 of (g, e3) \<Rightarrow> (Inl g, sv_written v, e3))))"

subsection \<open>What an action achieves\<close>

definition achieves ::
  "('s \<Rightarrow> bool) \<Rightarrow> ('s, 'a) action \<Rightarrow> ('a \<Rightarrow> 's \<Rightarrow> bool) \<Rightarrow> (failure \<Rightarrow> 's \<Rightarrow> bool) \<Rightarrow> bool" where
  "achieves P m Q X \<longleftrightarrow> (\<forall>s. P s \<longrightarrow> (case m s of (Inl f, s') \<Rightarrow> X f s' | (Inr x, s') \<Rightarrow> Q x s'))"

lemma achieves_give: "(\<And>s. P s \<Longrightarrow> Q x s) \<Longrightarrow> achieves P (give x) Q X"
  by (simp add: achieves_def give_def)

lemma achieves_refuse: "(\<And>s. P s \<Longrightarrow> X f s) \<Longrightarrow> achieves P (refuse f) Q X"
  by (simp add: achieves_def refuse_def)

lemma achieves_andthen:
  assumes "achieves P m R X" "\<And>x. achieves (R x) (k x) Q X"
  shows "achieves P (andthen m k) Q X"
  using assms unfolding achieves_def andthen_def by (fastforce split: sum.splits prod.splits)

lemma achieves_if:
  assumes "b \<Longrightarrow> achieves P m Q X" "\<not> b \<Longrightarrow> achieves P m' Q X"
  shows "achieves P (if b then m else m') Q X"
  using assms by simp

lemma achieves_weaken:
  assumes "achieves P m Q X" "\<And>s. P' s \<Longrightarrow> P s" "\<And>x s. Q x s \<Longrightarrow> Q' x s" "\<And>f s. X f s \<Longrightarrow> X' f s"
  shows "achieves P' m Q' X'"
  using assms unfolding achieves_def by (fastforce split: sum.splits prod.splits)

lemma achieves_result:
  assumes "achieves P m Q X" "P s" "m s = (r, s')"
  shows "case r of Inl f \<Rightarrow> X f s' | Inr x \<Rightarrow> Q x s'"
  using assms by (fastforce simp: achieves_def split: sum.splits)

subsection \<open>Names of the sibling files\<close>

definition temporary_name :: "string \<Rightarrow> string \<Rightarrow> bool" where
  "temporary_name absolute t \<longleftrightarrow> (\<exists>bytes. t = join (parent_path absolute) (''exe.xml.taxi-'' @ guid_text bytes @ ''.tmp''))"

definition backup_name :: "string \<Rightarrow> string \<Rightarrow> bool" where
  "backup_name absolute b \<longleftrightarrow> (\<exists>tag bytes. b = absolute @ ''.taxi-backup-'' @ tag @ ''-'' @ guid_text bytes)"

lemma hex_digit_lower: "n < 16 \<Longrightarrow> lower_letter (hex_digit n) \<noteq> CHR ''p''"
proof -
  have "list_all (\<lambda>n. lower_letter (hex_digit n) \<noteq> CHR ''p'') [0..<16]"
    by code_simp
  then show "n < 16 \<Longrightarrow> lower_letter (hex_digit n) \<noteq> CHR ''p''"
    by (simp add: list_all_iff)
qed

lemma guid_no_p: "CHR ''p'' \<notin> set (guid_text bytes)"
proof -
  have "unat (drop_bit 4 b) < 16" "unat (b AND 15) < 16" for b :: u8
  proof -
    have "unat (drop_bit 4 b) = unat b div 16"
      by (simp add: drop_bit_eq_div unat_div)
    moreover have "unat b < 256"
      using unsigned_less [of b] by simp
    ultimately show "unat (drop_bit 4 b) < 16"
      by simp
    have "b AND 15 = b mod 16"
      using take_bit_eq_mask [of 4 b] take_bit_eq_mod [of 4 b] by (simp add: mask_eq_exp_minus_1)
    then show "unat (b AND 15) < 16"
      by (simp add: unat_mod)
  qed
  then show ?thesis
    by (auto simp: guid_text_def hex_upper_def simp: hex_digit_lower not_sym [OF hex_digit_lower])
qed

lemma join_end: "child \<noteq> [] \<Longrightarrow> last child \<noteq> CHR ''/'' \<Longrightarrow> last (join base child) = last child"
  by (auto simp: join_def Let_def last_map)

lemma join_length: "length (join base child) \<ge> length base + length child"
  by (auto simp: join_def Let_def)

lemma file_name_length: "length path \<le> length (parent_path path) + 1 + length (file_name path)"
  if "length (file_name path) > 0"
proof (cases "list_ex separator path")
  case True
  let ?P = "\<lambda>c. \<not> separator c"
  have ends: "rev path = takeWhile ?P (rev path) @ dropWhile ?P (rev path)"
    by simp
  have "dropWhile ?P (rev path) \<noteq> []"
    using True by (auto simp: list_ex_iff)
  then have len: "length path = length (file_name path) + 1 + length (before_last path)"
    using arg_cong [OF ends, of length] True by (cases "dropWhile ?P (rev path)") (simp_all add: file_name_def before_last_def)
  then show ?thesis
    using True that by (auto simp: parent_path_def Let_def)
qed (simp add: file_name_def)

lemma names_distinct:
  assumes "length (file_name absolute) = 7"
  shows "temporary_name absolute t \<Longrightarrow> t \<noteq> absolute \<and> t \<noteq> []"
    "backup_name absolute b \<Longrightarrow> b \<noteq> absolute \<and> b \<noteq> []"
    "temporary_name absolute t \<Longrightarrow> backup_name absolute b \<Longrightarrow> t \<noteq> b"
    "absolute \<noteq> []"
proof -
  have short: "length absolute \<le> length (parent_path absolute) + 8"
    using file_name_length [of absolute] assms by simp
  show t: "t \<noteq> absolute \<and> t \<noteq> []" if "temporary_name absolute t" for t
  proof -
    from that obtain bytes where "t = join (parent_path absolute) (''exe.xml.taxi-'' @ guid_text bytes @ ''.tmp'')"
      by (auto simp: temporary_name_def)
    then have "length t \<ge> length (parent_path absolute) + 17"
      using join_length [of "parent_path absolute" "''exe.xml.taxi-'' @ guid_text bytes @ ''.tmp''"] by simp
    then have "length t > length absolute" "length t > 0"
      using short by linarith+
    then show ?thesis
      by auto
  qed
  show "b \<noteq> absolute \<and> b \<noteq> []" if "backup_name absolute b"
    using that by (auto simp: backup_name_def)
  show "t \<noteq> b" if tn: "temporary_name absolute t" and bn: "backup_name absolute b"
  proof -
    have "last t = CHR ''p''"
      using tn by (auto simp: temporary_name_def join_end)
    moreover have "last b \<noteq> CHR ''p''"
    proof -
      obtain tag bytes where b: "b = absolute @ ''.taxi-backup-'' @ tag @ ''-'' @ guid_text bytes"
        using bn by (auto simp: backup_name_def)
      show ?thesis
      proof (cases "guid_text bytes = []")
        case False
        then have "last b \<in> set (guid_text bytes)"
          by (simp add: b)
        then show ?thesis
          using guid_no_p by metis
      qed (simp add: b)
    qed
    ultimately show ?thesis
      by metis
  qed
  show "absolute \<noteq> []"
    using assms by (auto simp: file_name_def)
qed

subsection \<open>What the documentation of the calls promises\<close>

text \<open>
  \<open>content\<close> is what the files hold, \<open>digest\<close> the hash function.  Queries change no file; a successful
  operation does what it says; a failed one may leave anything at its destination.  Two names that compare
  equal without regard to case have the same length.
\<close>

locale lawful_files =
  fixes ops :: "'e file_ops" and content :: "'e \<Rightarrow> string \<Rightarrow> u8 list option" and digest :: "u8 list \<Rightarrow> string"
  assumes same_length: "fo_same ops a b \<Longrightarrow> length a = length b"
    and queries: "content (snd (fo_full_path ops p e)) = content e"
      "content (snd (fo_attributes ops p e)) = content e"
      "content (snd (fo_make_directory ops p e)) = content e"
      "content (snd (fo_random ops e)) = content e"
      "content (snd (fo_tag ops e)) = content e"
      "content (snd (fo_reads_back ops p e)) = content e"
      "content (fo_normalize ops p e) = content e"
      "content (snd (fo_io_attributes ops p e)) = content e"
      "content (snd (fo_io_assert_visible ops p e)) = content e"
      "content (snd (fo_hash ops p e)) = content e"
      "content (snd (fo_settings_closed ops e)) = content e"
    and hashes: "fst (fo_hash ops p e) = Inr h \<Longrightarrow> \<exists>bs. content e p = Some bs \<and> h = digest bs"
    and creates: "q \<noteq> p \<Longrightarrow> content (snd (fo_create_new ops p e)) q = content e q"
      "content e p = Some bs \<Longrightarrow> content (snd (fo_create_new ops p e)) p = Some bs"
    and puts: "q \<noteq> p \<Longrightarrow> content (snd (fo_put ops p bs e)) q = content e q"
      "fst (fo_put ops p bs e) = Put_Done \<Longrightarrow> content (snd (fo_put ops p bs e)) p = Some bs"
    and copies: "q \<noteq> b \<Longrightarrow> content (snd (fo_copy_new ops a b e)) q = content e q"
      "fst (fo_copy_new ops a b e) = None \<Longrightarrow> content e b = None \<and> content (snd (fo_copy_new ops a b e)) b = content e a"
      "content e b = Some bs \<Longrightarrow> content (snd (fo_copy_new ops a b e)) b = Some bs"
    and io_copies: "q \<noteq> b \<Longrightarrow> content (snd (fo_io_copy_backup ops a b e)) q = content e q"
      "q \<noteq> b \<Longrightarrow> content (snd (fo_io_protect_like ops a b e)) q = content e q"
    and replaces: "q \<noteq> a \<Longrightarrow> q \<noteq> t \<Longrightarrow> content (snd (fo_replace ops a t e)) q = content e q"
      "fst (fo_replace ops a t e) = None \<Longrightarrow> content (snd (fo_replace ops a t e)) a = content e t"
    and moves: "q \<noteq> a \<Longrightarrow> q \<noteq> t \<Longrightarrow> content (snd (fo_move ops t a e)) q = content e q"
      "fst (fo_move ops t a e) = None \<Longrightarrow> content e a = None \<and> content (snd (fo_move ops t a e)) a = content e t"
    and deletes: "q \<noteq> p \<Longrightarrow> content (snd (fo_delete ops p e)) q = content e q"
      "fst (fo_delete ops p e) = None \<Longrightarrow> content (snd (fo_delete ops p e)) p = None"
      "fst (fo_delete ops p e) = Some code \<Longrightarrow> content (snd (fo_delete ops p e)) p = content e p"
begin

definition inside :: "(save_vars \<Rightarrow> (string \<Rightarrow> u8 list option) \<Rightarrow> bool) \<Rightarrow> save_vars \<times> 'e \<Rightarrow> bool" where
  "inside A = (\<lambda>(v, e). A v (content e))"

lemma inside_simp [simp]: "inside A (v, e) \<longleftrightarrow> A v (content e)"
  by (simp add: inside_def)

lemma query_paths:
  "content (snd (exists_path ops p e)) = content e" "content (snd (is_file ops p e)) = content e"
  "content (snd (is_directory ops p e)) = content e"
  using queries(2) [of p e] by (auto simp: exists_path_def is_file_def is_directory_def split: sum.splits prod.splits)

lemma query_full_path: "content (snd (full_path ops p e)) = content e"
  using queries(1) [of p e] by (auto simp: full_path_def split: sum.splits prod.splits)

lemma query_directories: "content (snd (create_directories ops p e)) = content e"
proof (induction p arbitrary: e rule: measure_induct_rule [of length])
  case (less p)
  have dir: "content (snd (is_directory ops p e)) = content e"
    by (rule query_paths)
  show ?case
  proof (cases "p = [] \<or> fst (is_directory ops p e)")
    case True
    then show ?thesis
      using dir by (auto simp: create_directories.simps [of ops p e] split: prod.splits)
  next
    case False
    then obtain e1 where no_dir: "is_directory ops p e = (False, e1)"
      by (cases "is_directory ops p e") auto
    let ?up = "if parent_path p \<noteq> [] \<and> parent_path p \<noteq> p then create_directories ops (parent_path p) e1 else (Inr (), e1)"
    have kept: "content (snd ?up) = content e"
      using less [of "parent_path p" e1] dir no_dir False parent_path_shorter [of p] by auto
    obtain r e2 where up: "?up = (r, e2)"
      by (rule prod.exhaust)
    then have after: "content e2 = content e"
      using kept by (simp only: snd_conv)
    have "create_directories ops p e =
        (case (r, e2) of (Inl f, e2) \<Rightarrow> (Inl f, e2)
         | (Inr _, e2) \<Rightarrow> (case fo_make_directory ops p e2 of
             (None, e3) \<Rightarrow> (Inr (), e3)
           | (Some code, e3) \<Rightarrow> if code \<noteq> already_exists then (Inl (new_failure (''Could not create directory: '' @ p) code), e3)
               else (Inr (), e3)))"
      using False by (subst create_directories.simps) (simp only: no_dir Let_def up prod.case bool.case if_False de_Morgan_disj)
    then show ?thesis
      using queries(3) [of p e2] after by (auto split: sum.splits prod.splits option.splits)
  qed
qed

lemma achieves_assign:
  assumes "\<And>v c. A v c \<Longrightarrow> B (f v) c"
  shows "achieves (inside A) (assign f) (\<lambda>_. inside B) X"
  using assms by (auto simp: achieves_def assign_def)

lemma achieves_vars: "achieves (inside A) (vars f) (\<lambda>x. inside (\<lambda>v c. A v c \<and> x = f v)) X"
  by (auto simp: achieves_def vars_def)

lemma achieves_query:
  assumes "\<And>e. content (snd (m e)) = content e"
  shows "achieves (inside A) (on_env m) (\<lambda>_. inside A) (\<lambda>_. inside A)"
  unfolding achieves_def on_env_def using assms
  by (auto split: sum.splits prod.splits) (metis snd_conv)+

lemma achieves_observe:
  assumes "\<And>e. content (snd (m e)) = content e"
  shows "achieves (inside A) (observe m) (\<lambda>_. inside A) X"
  unfolding achieves_def observe_def using assms
  by (auto split: prod.splits) (metis snd_conv)

text \<open>An action that keeps an assertion whatever happens.\<close>

definition keeps :: "(save_vars \<Rightarrow> (string \<Rightarrow> u8 list option) \<Rightarrow> bool) \<Rightarrow> (save_vars \<times> 'e, 'a) action \<Rightarrow> bool" where
  "keeps A m \<longleftrightarrow> achieves (inside A) m (\<lambda>_. inside A) (\<lambda>_. inside A)"

lemma keeps_andthen: "keeps A m \<Longrightarrow> (\<And>x. keeps A (k x)) \<Longrightarrow> keeps A (andthen m k)"
  unfolding keeps_def by (rule achieves_andthen)

lemma keeps_if: "(b \<Longrightarrow> keeps A m) \<Longrightarrow> (\<not> b \<Longrightarrow> keeps A m') \<Longrightarrow> keeps A (if b then m else m')"
  by simp

lemma keeps_give: "keeps A (give x)"
  by (simp add: keeps_def achieves_give)

lemma keeps_refuse: "keeps A (refuse f)"
  by (simp add: keeps_def achieves_refuse)

lemma keeps_assign: "(\<And>v c. A v c \<Longrightarrow> A (f v) c) \<Longrightarrow> keeps A (assign f)"
  unfolding keeps_def by (rule achieves_assign)

lemma keeps_query: "(\<And>e. content (snd (m e)) = content e) \<Longrightarrow> keeps A (on_env m)"
  unfolding keeps_def by (rule achieves_query)

lemma keeps_observe: "(\<And>e. content (snd (m e)) = content e) \<Longrightarrow> keeps A (observe m)"
  unfolding keeps_def by (rule achieves_observe)

lemma keeps_encrypted: "keeps A (is_encrypted ops p)"
  unfolding is_encrypted_def by (intro keeps_andthen keeps_query queries keeps_give)

lemma keeps_hash: "keeps A (on_env (fo_hash ops p))"
  by (intro keeps_query queries)

lemma keeps_differs: "keeps A (hash_differs ops p x)"
  unfolding hash_differs_def by (intro keeps_andthen keeps_hash keeps_give)

lemma keeps_exists: "keeps A (observe (exists_path ops p))"
  by (intro keeps_observe query_paths)

lemma keeps_directories: "keeps A (on_env (create_directories ops p))"
  by (intro keeps_query query_directories)

lemma keeps_guid: "keeps A (on_env (new_guid ops))"
proof (intro keeps_query)
  fix e
  show "content (snd (new_guid ops e)) = content e"
    using queries(4) [of e] by (auto simp: new_guid_def split: option.splits prod.splits)
qed

lemma keeps_visible: "keeps A (verify_visible ops p t)"
  if "\<And>v c f. A v c \<Longrightarrow> A (v\<lparr>sv_operation := f\<rparr>) c"
  unfolding verify_visible_def using that
  by (intro keeps_andthen keeps_query keeps_assign queries keeps_exists keeps_if keeps_give)

text \<open>An operation that changes one file.\<close>

lemma keeps_change:
  assumes "\<And>e q. q \<noteq> t \<Longrightarrow> content (snd (m e)) q = content e q" "\<And>v c c'. A v c \<Longrightarrow> (\<And>q. q \<noteq> t \<Longrightarrow> c' q = c q) \<Longrightarrow> A v c'"
  shows "keeps A (on_env m)"
  unfolding keeps_def achieves_def on_env_def
  using assms by (auto split: sum.splits prod.splits) (metis snd_conv)+

lemma keeps_protect: "keeps A (protect_temporary ops p t)"
  if "\<And>v c f. A v c \<Longrightarrow> A (v\<lparr>sv_operation := f\<rparr>) c" "\<And>v c c'. A v c \<Longrightarrow> (\<And>q. q \<noteq> t \<Longrightarrow> c' q = c q) \<Longrightarrow> A v c'"
  unfolding protect_temporary_def
  by (intro keeps_andthen keeps_assign that(1) keeps_encrypted keeps_if keeps_give keeps_refuse keeps_change [OF io_copies(2) that(2)])

lemma achieves_hash:
  "achieves (inside A) (on_env (fo_hash ops p)) (\<lambda>h. inside (\<lambda>v c. A v c \<and> (\<exists>bs. c p = Some bs \<and> h = digest bs))) (\<lambda>_. inside A)"
proof -
  have "case fo_hash ops p e of (r, e') \<Rightarrow> content e' = content e \<and> (\<forall>h. r = Inr h \<longrightarrow> (\<exists>bs. content e p = Some bs \<and> h = digest bs))" for e
    using hashes [of p e] queries(10) [of p e] by (auto split: prod.splits)
  then show ?thesis
    unfolding achieves_def on_env_def by (fastforce split: sum.splits prod.splits)
qed

lemma achieves_differs:
  "achieves (inside A) (hash_differs ops p x)
     (\<lambda>d. inside (\<lambda>v c. A v c \<and> (\<not> d \<longrightarrow> (\<exists>bs. c p = Some bs \<and> fo_same ops (digest bs) x)))) (\<lambda>_. inside A)"
  unfolding hash_differs_def
  by (rule achieves_andthen [OF achieves_hash achieves_give]) (auto simp: inside_def)

end

subsection \<open>The stages of a save\<close>

text \<open>While no replacement was attempted, only the two sibling files may differ from the first contents.\<close>

definition siblings :: "string \<Rightarrow> save_vars \<Rightarrow> bool" where
  "siblings absolute v \<longleftrightarrow> (sv_temporary v = [] \<or> temporary_name absolute (sv_temporary v)) \<and>
     (sv_backup v = [] \<or> backup_name absolute (sv_backup v)) \<and> \<not> sv_committed v \<and> sv_written v = []"

definition working :: "(string \<Rightarrow> u8 list option) \<Rightarrow> string \<Rightarrow> save_vars \<Rightarrow> (string \<Rightarrow> u8 list option) \<Rightarrow> bool" where
  "working c0 absolute v c \<longleftrightarrow> siblings absolute v \<and> (\<forall>q. q \<noteq> [] \<longrightarrow> q \<noteq> sv_temporary v \<longrightarrow> q \<noteq> sv_backup v \<longrightarrow> c q = c0 q)"

text \<open>After a replacement was attempted and failed, the target may differ as well.\<close>

definition attempted :: "(string \<Rightarrow> u8 list option) \<Rightarrow> string \<Rightarrow> save_vars \<Rightarrow> (string \<Rightarrow> u8 list option) \<Rightarrow> bool" where
  "attempted c0 absolute v c \<longleftrightarrow> siblings absolute v \<and> (sv_backup v = [] \<or> sv_backup_verified v) \<and>
     sv_operation v \<in> {''Replace startup file'', ''Create startup file''} \<and>
     (\<forall>q. q \<noteq> [] \<longrightarrow> q \<noteq> sv_temporary v \<longrightarrow> q \<noteq> sv_backup v \<longrightarrow> q \<noteq> absolute \<longrightarrow> c q = c0 q)"

definition thrown :: "(string \<Rightarrow> u8 list option) \<Rightarrow> string \<Rightarrow> failure \<Rightarrow> save_vars \<Rightarrow> (string \<Rightarrow> u8 list option) \<Rightarrow> bool" where
  "thrown c0 absolute f v c \<longleftrightarrow> working c0 absolute v c \<or> \<not> fl_conflict f \<and> attempted c0 absolute v c"

definition started :: "(string \<Rightarrow> u8 list option) \<Rightarrow> string \<Rightarrow> save_vars \<Rightarrow> (string \<Rightarrow> u8 list option) \<Rightarrow> bool" where
  "started c0 absolute v c \<longleftrightarrow> working c0 absolute v c \<and> sv_temporary v = [] \<and> sv_backup v = [] \<and> \<not> sv_backup_verified v"

definition reserved :: "(string \<Rightarrow> u8 list option) \<Rightarrow> string \<Rightarrow> string \<Rightarrow> save_vars \<Rightarrow> (string \<Rightarrow> u8 list option) \<Rightarrow> bool" where
  "reserved c0 absolute t v c \<longleftrightarrow> working c0 absolute v c \<and> sv_temporary v = t \<and> temporary_name absolute t \<and>
     sv_backup v = [] \<and> \<not> sv_backup_verified v"

definition backed_up ::
  "(string \<Rightarrow> string \<Rightarrow> bool) \<Rightarrow> (u8 list \<Rightarrow> string) \<Rightarrow> string \<Rightarrow> save_vars \<Rightarrow> (string \<Rightarrow> u8 list option) \<Rightarrow> bool" where
  "backed_up same digest expected v c \<longleftrightarrow> (\<exists>kept. c (sv_backup v) = Some kept \<and> same (digest kept) expected)"

text \<open>What is promised of the original and of the target once the replacement succeeded.\<close>

definition replaced ::
  "(string \<Rightarrow> string \<Rightarrow> bool) \<Rightarrow> (u8 list \<Rightarrow> string) \<Rightarrow> (string \<Rightarrow> u8 list option) \<Rightarrow> string \<Rightarrow> string \<Rightarrow> u8 list \<Rightarrow>
   save_vars \<Rightarrow> (string \<Rightarrow> u8 list option) \<Rightarrow> bool" where
  "replaced same digest c0 absolute expected bytes v c \<longleftrightarrow>
     (sv_temporary v = [] \<or> temporary_name absolute (sv_temporary v)) \<and>
     (\<forall>q. q \<noteq> [] \<longrightarrow> q \<noteq> sv_temporary v \<longrightarrow> q \<noteq> sv_backup v \<longrightarrow> q \<noteq> absolute \<longrightarrow> c q = c0 q) \<and> c absolute = Some bytes \<and>
     (if expected = [] then sv_backup v = [] \<and> c0 absolute = None
      else backup_name absolute (sv_backup v) \<and> backed_up same digest expected v c \<and>
        (\<exists>orig. c0 absolute = Some orig \<and> same (digest orig) expected))"

lemmas stage_defs = siblings_def working_def started_def reserved_def

context lawful_files
begin

lemma verify_original_stage: "keeps (started c0 absolute) (verify_original ops absolute expected)"
  unfolding verify_original_def
  by (intro keeps_andthen keeps_directories keeps_exists keeps_if keeps_assign keeps_refuse keeps_give keeps_differs keeps_encrypted)
    (auto simp: stage_defs)

lemma reserve_stage:
  "achieves (inside (started c0 absolute)) (reserve_temporary ops absolute)
     (\<lambda>_. inside (\<lambda>v. reserved c0 absolute (sv_temporary v) v)) (\<lambda>_. inside (working c0 absolute))"
proof -
  have guid: "achieves (inside (started c0 absolute)) (on_env (new_guid ops))
      (\<lambda>g. inside (\<lambda>v c. started c0 absolute v c \<and> (\<exists>bytes. g = guid_text bytes))) (\<lambda>_. inside (working c0 absolute))"
  proof -
    have "case fo_random ops e of (r, e') \<Rightarrow> content e' = content e" for e
      using queries(4) [of e] by (auto split: prod.splits)
    then show ?thesis
      unfolding achieves_def on_env_def new_guid_def by (fastforce simp: started_def split: sum.splits prod.splits option.splits)
  qed
  have rest: "achieves (inside (\<lambda>v c. started c0 absolute v c \<and> (\<exists>bytes. g = guid_text bytes)))
     (andthen (assign (\<lambda>v. v\<lparr>sv_temporary := t, sv_operation := ''Create startup replacement'', sv_destination := t\<rparr>))
        (\<lambda>_. on_env (or_fail (fo_create_new ops t) m)))
     (\<lambda>_. inside (\<lambda>v. reserved c0 absolute (sv_temporary v) v)) (\<lambda>_. inside (working c0 absolute))"
    if t: "t = join (parent_path absolute) (''exe.xml.taxi-'' @ g @ ''.tmp'')" for g t m
  proof (rule achieves_andthen)
    show "achieves (inside (\<lambda>v c. started c0 absolute v c \<and> (\<exists>bytes. g = guid_text bytes)))
        (assign (\<lambda>v. v\<lparr>sv_temporary := t, sv_operation := ''Create startup replacement'', sv_destination := t\<rparr>))
        (\<lambda>_. inside (reserved c0 absolute t)) (\<lambda>_. inside (working c0 absolute))"
      by (rule achieves_assign) (auto simp: stage_defs temporary_name_def t)
    have "keeps (reserved c0 absolute t) (on_env (or_fail (fo_create_new ops t) m))"
    proof (rule keeps_change)
      show "content (snd (or_fail (fo_create_new ops t) m e)) q = content e q" if "q \<noteq> t" for e q
        using creates(1) [OF that, of e] by (auto simp: or_fail_def split: prod.splits option.splits)
    qed (auto simp: stage_defs)
    then show "achieves (inside (reserved c0 absolute t)) (on_env (or_fail (fo_create_new ops t) m))
        (\<lambda>_. inside (\<lambda>v. reserved c0 absolute (sv_temporary v) v)) (\<lambda>_. inside (working c0 absolute))"
      unfolding keeps_def by (rule achieves_weaken) (auto simp: inside_def reserved_def)
  qed
  show ?thesis
    unfolding reserve_temporary_def Let_def by (rule achieves_andthen [OF guid rest [OF refl]])
qed

lemma achieves_keeps:
  assumes "keeps A m" "\<And>v c. B v c \<Longrightarrow> A v c" "\<And>v c. A v c \<Longrightarrow> C v c" "\<And>f v c. A v c \<Longrightarrow> D f v c"
  shows "achieves (inside B) m (\<lambda>_. inside C) (\<lambda>f. inside (D f))"
  using assms(1) unfolding keeps_def by (rule achieves_weaken) (auto simp: inside_def assms(2-4))

lemma andthen_keeps:
  assumes "keeps A m" "\<And>f v c. A v c \<Longrightarrow> D f v c" "\<And>x. achieves (inside A) (k x) Q (\<lambda>f. inside (D f))"
  shows "achieves (inside A) (andthen m k) Q (\<lambda>f. inside (D f))"
  using achieves_keeps [OF assms(1), of A A D] assms(2,3) by (intro achieves_andthen) auto

lemma achieves_refuse_inside: "(\<And>v c. A v c \<Longrightarrow> D f v c) \<Longrightarrow> achieves (inside A) (refuse f) Q (\<lambda>f. inside (D f))"
  by (rule achieves_refuse) (auto simp: inside_def)

lemma write_stage:
  "achieves (inside (reserved c0 absolute t)) (write_temporary ops serialized t)
     (\<lambda>h. inside (\<lambda>v c. reserved c0 absolute t v c \<and> (\<exists>bytes. serialized = Inr bytes \<and> c t = Some bytes \<and> h = digest bytes)))
     (\<lambda>_. inside (working c0 absolute))"
proof (cases serialized)
  case (Inl f)
  then show ?thesis
    unfolding write_temporary_def
    by (auto simp: stage_defs intro!: achieves_andthen [OF achieves_assign [where B = "reserved c0 absolute t"]] achieves_refuse)
next
  case (Inr bytes)
  let ?held = "\<lambda>v c. reserved c0 absolute t v c \<and> c t = Some bytes"
  have put: "achieves (inside (reserved c0 absolute t)) (on_env (put_temporary ops t bytes)) (\<lambda>_. inside ?held) (\<lambda>_. inside (working c0 absolute))"
  proof -
    have "case fo_put ops t bytes e of (r, e') \<Rightarrow> (\<forall>q. q \<noteq> t \<longrightarrow> content e' q = content e q) \<and> (r = Put_Done \<longrightarrow> content e' t = Some bytes)" for e
      using puts(1) [of _ t bytes e] puts(2) [of t bytes e] by (auto split: prod.splits)
    then show ?thesis
      unfolding achieves_def on_env_def put_temporary_def
      by (fastforce simp: stage_defs split: sum.splits prod.splits put_result.splits)
  qed
  have assign_op: "keeps A (assign (\<lambda>v. v\<lparr>sv_operation := f\<rparr>))" if "\<And>v c. A v c \<Longrightarrow> A (v\<lparr>sv_operation := f\<rparr>) c" for A f
    using that by (rule keeps_assign)
  show ?thesis
    unfolding write_temporary_def Inr sum.case
    apply (rule andthen_keeps [OF assign_op [of "reserved c0 absolute t"]])
      apply (auto simp: stage_defs)[2]
    apply (rule achieves_andthen [OF put])
    apply (rule andthen_keeps [OF assign_op [of ?held]])
      apply (auto simp: stage_defs)[2]
    apply (rule andthen_keeps [OF keeps_query [OF queries(6)]])
     apply (auto simp: stage_defs)[1]
    apply (rule achieves_weaken [OF achieves_hash [of ?held]])
      apply (auto simp: inside_def stage_defs)
    done
qed

text \<open>The backup holds what the original held, as far as the hash tells.\<close>

definition backup_held ::
  "(string \<Rightarrow> u8 list option) \<Rightarrow> string \<Rightarrow> string \<Rightarrow> u8 list \<Rightarrow> string \<Rightarrow> save_vars \<Rightarrow> (string \<Rightarrow> u8 list option) \<Rightarrow> bool" where
  "backup_held c0 absolute t bytes b v c \<longleftrightarrow> working c0 absolute v c \<and> sv_temporary v = t \<and> temporary_name absolute t \<and>
     c t = Some bytes \<and> sv_backup v = b \<and> backup_name absolute b"

lemma achieves_guid:
  "achieves (inside A) (on_env (new_guid ops)) (\<lambda>g. inside (\<lambda>v c. A v c \<and> (\<exists>bytes. g = guid_text bytes))) (\<lambda>_. inside A)"
proof -
  have "case fo_random ops e of (r, e') \<Rightarrow> content e' = content e" for e
    using queries(4) [of e] by (auto split: prod.splits)
  then show ?thesis
    unfolding achieves_def on_env_def new_guid_def by (fastforce split: sum.splits prod.splits option.splits)
qed

lemma achieves_raised:
  assumes "achieves (inside A) m Q (\<lambda>_. inside A)" "\<And>f v c. A v c \<Longrightarrow> D f v c"
  shows "achieves (inside A) m Q (\<lambda>f. inside (D f))"
  using assms(1) by (rule achieves_weaken) (auto simp: inside_def assms(2))

lemma back_up_stage:
  assumes "length (file_name absolute) = 7"
  shows "achieves (inside (\<lambda>v c. reserved c0 absolute t v c \<and> c t = Some bytes)) (back_up ops absolute expected encrypted)
     (\<lambda>_. inside (\<lambda>v c. backup_held c0 absolute t bytes (sv_backup v) v c \<and> sv_backup_verified v \<and>
        backed_up (fo_same ops) digest expected v c))
     (\<lambda>_. inside (working c0 absolute))"
proof -
  let ?W = "\<lambda>v c. reserved c0 absolute t v c \<and> c t = Some bytes"
  let ?H = "\<lambda>b. backup_held c0 absolute t bytes b"
  have assign_W: "keeps ?W (assign (\<lambda>v. v\<lparr>sv_operation := f, sv_destination := d\<rparr>))" for f d
    by (rule keeps_assign) (auto simp: stage_defs)
  have assign_H: "keeps (?H b) (assign (\<lambda>v. v\<lparr>sv_operation := f\<rparr>))" for f b
    by (rule keeps_assign) (auto simp: stage_defs backup_held_def)
  have W: "?W v c \<Longrightarrow> working c0 absolute v c" and H: "?H b v c \<Longrightarrow> working c0 absolute v c" for b v c
    by (simp_all add: reserved_def backup_held_def)
  have name: "achieves (inside (\<lambda>v c. ?W v c \<and> (\<exists>bytes. g = guid_text bytes)))
      (assign (\<lambda>v. v\<lparr>sv_backup := b, sv_operation := f, sv_destination := b\<rparr>)) (\<lambda>_. inside (?H b)) (\<lambda>_. inside (working c0 absolute))"
    if "b = absolute @ ''.taxi-backup-'' @ tag @ ''-'' @ g" for b f tag g
    by (rule achieves_assign) (auto simp: stage_defs backup_held_def backup_name_def that)
  have copy: "keeps (?H b) (on_env (fo_io_copy_backup ops absolute b))" for b
  proof (rule keeps_change [OF io_copies(1)])
    show "?H b v c'" if "?H b v c" "\<And>q. q \<noteq> b \<Longrightarrow> c' q = c q" for v c c'
      using that names_distinct(3) [OF assms, of t b] by (auto simp: backup_held_def working_def)
  qed
  have last_check: "achieves (inside (\<lambda>v c. ?H b v c \<and> (\<exists>bs. c b = Some bs \<and> fo_same ops (digest bs) expected)))
      (andthen (if encrypted then is_encrypted ops b else give True)
         (\<lambda>kept. if \<not> kept then refuse x else assign (\<lambda>v. v\<lparr>sv_backup_verified := True\<rparr>)))
      (\<lambda>_. inside (\<lambda>v c. ?H (sv_backup v) v c \<and> sv_backup_verified v \<and> backed_up (fo_same ops) digest expected v c))
      (\<lambda>_. inside (working c0 absolute))" for b x
    apply (rule andthen_keeps [OF keeps_if [OF keeps_encrypted keeps_give]])
     apply (erule conjE, rule H, assumption)
    apply (rule achieves_if)
     apply (rule achieves_refuse_inside, erule conjE, rule H, assumption)
    apply (rule achieves_assign)
    apply (auto simp: backup_held_def backed_up_def stage_defs)
    done
  have checked: "achieves (inside (?H b)) (andthen (hash_differs ops b expected) (\<lambda>differs. if differs then refuse y else
        andthen (if encrypted then is_encrypted ops b else give True)
         (\<lambda>kept. if \<not> kept then refuse x else assign (\<lambda>v. v\<lparr>sv_backup_verified := True\<rparr>))))
      (\<lambda>_. inside (\<lambda>v c. ?H (sv_backup v) v c \<and> sv_backup_verified v \<and> backed_up (fo_same ops) digest expected v c))
      (\<lambda>_. inside (working c0 absolute))" for b x y
  proof (rule achieves_andthen)
    show "achieves (inside (?H b)) (hash_differs ops b expected)
        (\<lambda>d. inside (\<lambda>v c. ?H b v c \<and> (\<not> d \<longrightarrow> (\<exists>bs. c b = Some bs \<and> fo_same ops (digest bs) expected))))
        (\<lambda>_. inside (working c0 absolute))"
      by (rule achieves_weaken [OF achieves_differs [of "?H b"]]) (auto simp: inside_def intro: H)
    show "achieves (inside (\<lambda>v c. ?H b v c \<and> (\<not> d \<longrightarrow> (\<exists>bs. c b = Some bs \<and> fo_same ops (digest bs) expected))))
        (if d then refuse y else andthen (if encrypted then is_encrypted ops b else give True)
           (\<lambda>kept. if \<not> kept then refuse x else assign (\<lambda>v. v\<lparr>sv_backup_verified := True\<rparr>)))
        (\<lambda>_. inside (\<lambda>v c. ?H (sv_backup v) v c \<and> sv_backup_verified v \<and> backed_up (fo_same ops) digest expected v c))
        (\<lambda>_. inside (working c0 absolute))" for d
      using last_check [of b x] by (cases d) (auto intro!: achieves_refuse_inside intro: H)
  qed
  show ?thesis
    unfolding back_up_def Let_def
    apply (rule andthen_keeps [OF assign_W])
     apply (rule W, assumption)
    apply (rule andthen_keeps [OF keeps_exists])
     apply (rule W, assumption)
    apply (rule andthen_keeps [OF keeps_if [OF keeps_differs keeps_give]])
     apply (rule W, assumption)
    apply (rule achieves_if)
     apply (rule achieves_refuse_inside, rule W, assumption)
    apply (rule andthen_keeps [OF keeps_observe [OF queries(5)]])
     apply (rule W, assumption)
    apply (rule achieves_andthen)
     apply (rule achieves_raised [OF achieves_guid])
     apply (rule W, assumption)
    apply (rule achieves_andthen [OF name [OF refl]])
    apply (rule andthen_keeps [OF copy])
     apply (rule H, assumption)
    apply (rule andthen_keeps [OF assign_H])
     apply (rule H, assumption)
    apply (rule checked)
    done
qed

end

text \<open>The two ways to commit.\<close>

context lawful_files
begin

lemma replace_stage:
  assumes "length (file_name absolute) = 7" "expected \<noteq> []"
  shows "achieves (inside (\<lambda>v c. backup_held c0 absolute t bytes (sv_backup v) v c \<and> sv_backup_verified v \<and>
        backed_up (fo_same ops) digest expected v c))
     (replace_original ops absolute t expected encrypted)
     (\<lambda>_. inside (\<lambda>v c. replaced (fo_same ops) digest c0 absolute expected bytes v c \<and> sv_temporary v = t))
     (\<lambda>f. inside (thrown c0 absolute f))"
proof -
  let ?A = "\<lambda>v c. backup_held c0 absolute t bytes (sv_backup v) v c \<and> sv_backup_verified v \<and> backed_up (fo_same ops) digest expected v c"
  let ?B = "\<lambda>v c. ?A v c \<and> (\<exists>bs. c absolute = Some bs \<and> fo_same ops (digest bs) expected)"
  let ?C = "\<lambda>v c. ?B v c \<and> sv_operation v = ''Replace startup file''"
  have A: "?A v c \<Longrightarrow> thrown c0 absolute f v c" for f v c
    by (simp add: backup_held_def thrown_def)
  have commit: "achieves (inside ?C) (on_env (replace_file ops absolute t))
     (\<lambda>_. inside (\<lambda>v c. replaced (fo_same ops) digest c0 absolute expected bytes v c \<and> sv_temporary v = t))
     (\<lambda>f. inside (thrown c0 absolute f))"
  proof -
    have step: "replaced (fo_same ops) digest c0 absolute expected bytes v c' \<and> sv_temporary v = t"
      if "?C v c" "\<And>q. q \<noteq> absolute \<Longrightarrow> q \<noteq> t \<Longrightarrow> c' q = c q" "c' absolute = c t" for v c c'
    proof -
      have names: "t \<noteq> absolute" "sv_backup v \<noteq> absolute" "t \<noteq> sv_backup v" "absolute \<noteq> []" "sv_backup v \<noteq> []" "t \<noteq> []"
        using that(1) names_distinct [OF assms(1)] by (auto simp: backup_held_def)
      have "c' (sv_backup v) = c (sv_backup v)" "c' absolute = Some bytes" "c absolute = c0 absolute"
        using that names by (auto simp: backup_held_def working_def)
      then show ?thesis
        using that names assms(2) by (auto simp: replaced_def backup_held_def backed_up_def working_def)
    qed
    have failed: "attempted c0 absolute v c'" if "?C v c" "\<And>q. q \<noteq> absolute \<Longrightarrow> q \<noteq> t \<Longrightarrow> c' q = c q" for v c c'
      using that by (auto simp: attempted_def backup_held_def working_def)
    have "case fo_replace ops absolute t e of (r, e') \<Rightarrow>
        (\<forall>q. q \<noteq> absolute \<longrightarrow> q \<noteq> t \<longrightarrow> content e' q = content e q) \<and> (r = None \<longrightarrow> content e' absolute = content e t)" for e
      using replaces(1) [of _ absolute t e] replaces(2) [of absolute t e] by (auto split: prod.splits)
    note law = this
    show ?thesis
      unfolding achieves_def
    proof (intro allI impI)
      fix s
      assume "inside ?C s"
      obtain v e where s: "s = (v, e)"
        by fastforce
      then have C: "?C v (content e)"
        using \<open>inside ?C s\<close> by simp
      obtain r e' where r: "fo_replace ops absolute t e = (r, e')"
        by fastforce
      have other: "\<And>q. q \<noteq> absolute \<Longrightarrow> q \<noteq> t \<Longrightarrow> content e' q = content e q" and new: "r = None \<Longrightarrow> content e' absolute = content e t"
        using law [of e] r by auto
      show "case on_env (replace_file ops absolute t) s of
          (Inl f, s') \<Rightarrow> inside (thrown c0 absolute f) s'
        | (Inr x, s') \<Rightarrow> inside (\<lambda>v c. replaced (fo_same ops) digest c0 absolute expected bytes v c \<and> sv_temporary v = t) s'"
        using step [OF C other new] failed [OF C other] r
        by (cases r) (simp_all add: s on_env_def replace_file_def or_fail_def thrown_def new_failure_def)
    qed
  qed
  show ?thesis
    unfolding replace_original_def
    apply (rule andthen_keeps)
      apply (rule keeps_assign)
      apply (simp add: backup_held_def stage_defs backed_up_def)
     apply (rule A, assumption)
    apply (rule achieves_andthen)
     apply (rule achieves_raised [OF achieves_differs])
     apply (rule A, assumption)
    apply (rule achieves_if)
     apply (rule achieves_refuse_inside, erule conjE, rule A, assumption)
    apply (rule andthen_keeps [OF keeps_encrypted])
     apply (erule conjE, rule A, assumption)
    apply (rule achieves_if)
     apply (rule achieves_refuse_inside, erule conjE, rule A, assumption)
    apply (rule achieves_andthen [OF _ commit])
    apply (rule achieves_assign)
    apply (simp add: backup_held_def stage_defs backed_up_def)
    done
qed

end

context lawful_files
begin

lemma create_stage:
  assumes "length (file_name absolute) = 7"
  shows "achieves (inside (\<lambda>v c. reserved c0 absolute t v c \<and> c t = Some bytes))
     (create_original ops absolute t)
     (\<lambda>_. inside (\<lambda>v c. replaced (fo_same ops) digest c0 absolute [] bytes v c \<and> sv_temporary v = t))
     (\<lambda>f. inside (thrown c0 absolute f))"
proof -
  let ?A = "\<lambda>v c. reserved c0 absolute t v c \<and> c t = Some bytes \<and> sv_operation v = ''Create startup file''"
  have A: "?A v c \<Longrightarrow> thrown c0 absolute f v c" for f v c
    by (simp add: reserved_def thrown_def)
  have commit: "achieves (inside ?A) (on_env (move_file ops t absolute))
     (\<lambda>_. inside (\<lambda>v c. replaced (fo_same ops) digest c0 absolute [] bytes v c \<and> sv_temporary v = t))
     (\<lambda>f. inside (thrown c0 absolute f))"
  proof -
    have step: "replaced (fo_same ops) digest c0 absolute [] bytes v c' \<and> sv_temporary v = t"
      if "?A v c" "\<And>q. q \<noteq> absolute \<Longrightarrow> q \<noteq> t \<Longrightarrow> c' q = c q" "c' absolute = c t" "c absolute = None" for v c c'
    proof -
      have "t \<noteq> absolute" "absolute \<noteq> []"
        using that(1) names_distinct [OF assms(1)] by (auto simp: reserved_def)
      then show ?thesis
        using that by (auto simp: replaced_def reserved_def working_def)
    qed
    have failed: "attempted c0 absolute v c'" if "?A v c" "\<And>q. q \<noteq> absolute \<Longrightarrow> q \<noteq> t \<Longrightarrow> c' q = c q" for v c c'
      using that by (auto simp: attempted_def reserved_def working_def)
    have law: "case fo_move ops t absolute e of (r, e') \<Rightarrow>
        (\<forall>q. q \<noteq> absolute \<longrightarrow> q \<noteq> t \<longrightarrow> content e' q = content e q) \<and>
        (r = None \<longrightarrow> content e absolute = None \<and> content e' absolute = content e t)" for e
      using moves(1) [of _ absolute t e] moves(2) [of t absolute e] by (auto split: prod.splits)
    show ?thesis
      unfolding achieves_def
    proof (intro allI impI)
      fix s
      assume "inside ?A s"
      obtain v e where s: "s = (v, e)"
        by fastforce
      then have A: "?A v (content e)"
        using \<open>inside ?A s\<close> by simp
      obtain r e' where r: "fo_move ops t absolute e = (r, e')"
        by fastforce
      have other: "\<And>q. q \<noteq> absolute \<Longrightarrow> q \<noteq> t \<Longrightarrow> content e' q = content e q"
        and new: "r = None \<Longrightarrow> content e' absolute = content e t" "r = None \<Longrightarrow> content e absolute = None"
        using law [of e] r by auto
      show "case on_env (move_file ops t absolute) s of
          (Inl f, s') \<Rightarrow> inside (thrown c0 absolute f) s'
        | (Inr x, s') \<Rightarrow> inside (\<lambda>v c. replaced (fo_same ops) digest c0 absolute [] bytes v c \<and> sv_temporary v = t) s'"
        using step [OF A other new] failed [OF A other] r
        by (cases r) (simp_all add: s on_env_def move_file_def or_fail_def thrown_def new_failure_def)
    qed
  qed
  show ?thesis
    unfolding create_original_def
    apply (rule achieves_andthen [where R = "\<lambda>_. inside ?A"])
     apply (rule achieves_assign)
     apply (simp add: stage_defs)
    apply (rule andthen_keeps [OF keeps_exists])
     apply (rule A, assumption)
    apply (rule achieves_if)
     apply (rule achieves_refuse_inside, rule A, assumption)
    apply (rule commit)
    done
qed

text \<open>Cleaning up touches the temporary file alone.\<close>

lemma cleanup_content: "q \<noteq> t \<Longrightarrow> content (cleanup_temporary ops t e) q = content e q"
  using query_paths(2) [of t e] queries(7) [of t "snd (is_file ops t e)"]
    deletes(1) [of q t "fo_normalize ops t (snd (is_file ops t e))"]
  by (auto simp: cleanup_temporary_def split: prod.splits bool.splits)

lemma clean_stage:
  assumes "length (file_name absolute) = 7"
  shows "achieves (inside (\<lambda>v c. replaced same digest c0 absolute expected bytes v c \<and> sv_temporary v = t \<and> V v)) (clean ops t)
     (\<lambda>_. inside (\<lambda>v c. replaced same digest c0 absolute expected bytes v c \<and> V v)) X"
proof -
  have kept: "replaced same digest c0 absolute expected bytes v c'"
    if "replaced same digest c0 absolute expected bytes v c" "sv_temporary v = t" "\<And>q. q \<noteq> t \<Longrightarrow> c' q = c q" for v c c'
  proof -
    have names: "t = [] \<or> temporary_name absolute t"
      using that(1,2) unfolding replaced_def by blast
    have "t \<noteq> absolute" and t: "backup_name absolute b \<Longrightarrow> t \<noteq> b" for b
      using names names_distinct [OF assms] by blast+
    then have "c' absolute = c absolute"
      using that(3) by metis
    moreover have "backup_name absolute (sv_backup v) \<Longrightarrow> c' (sv_backup v) = c (sv_backup v)"
      using that(3) t by metis
    moreover have "\<forall>q. q \<noteq> [] \<longrightarrow> q \<noteq> sv_temporary v \<longrightarrow> q \<noteq> sv_backup v \<longrightarrow> q \<noteq> absolute \<longrightarrow> c' q = c0 q"
      using that unfolding replaced_def by metis
    ultimately show ?thesis
      using that(1) unfolding replaced_def backed_up_def by (cases "expected = []") simp_all
  qed
  show ?thesis
    unfolding achieves_def
  proof (intro allI impI)
    fix s
    assume "inside (\<lambda>v c. replaced same digest c0 absolute expected bytes v c \<and> sv_temporary v = t \<and> V v) s"
    then obtain v e where s: "s = (v, e)" and r: "replaced same digest c0 absolute expected bytes v (content e)" "sv_temporary v = t"
      and V: "V v"
      by (cases s) auto
    have "replaced same digest c0 absolute expected bytes v (content (cleanup_temporary ops t e))"
      by (rule kept [OF r cleanup_content])
    then show "case clean ops t s of (Inl f, s') \<Rightarrow> X f s'
        | (Inr x, s') \<Rightarrow> inside (\<lambda>v c. replaced same digest c0 absolute expected bytes v c \<and> V v) s'"
      using V by (simp add: s clean_def observe_def)
  qed
qed

lemma achieves_thrown:
  assumes "achieves P m Q (\<lambda>_. inside (working c0 absolute))"
  shows "achieves P m Q (\<lambda>f. inside (thrown c0 absolute f))"
  by (rule achieves_weaken [OF assms, of P Q]) (simp_all add: inside_def thrown_def split: prod.splits)

lemma achieves_pre: "achieves P m Q X \<Longrightarrow> (\<And>s. P' s \<Longrightarrow> P s) \<Longrightarrow> achieves P' m Q X"
  by (simp add: achieves_def)

lemma achieves_fact: "(p \<Longrightarrow> achieves (inside A) m Q X) \<Longrightarrow> achieves (inside (\<lambda>v c. A v c \<and> p)) m Q X"
  by (auto simp: achieves_def)

lemma keeps_vars: "keeps A (vars f)"
  by (auto simp: keeps_def achieves_def vars_def)

lemma commit_stage:
  assumes "length (file_name absolute) = 7"
  shows "achieves (inside (\<lambda>v c. reserved c0 absolute t v c \<and> c t = Some bytes))
     (if expected \<noteq> [] then andthen (back_up ops absolute expected encrypted) (\<lambda>_. replace_original ops absolute t expected encrypted)
      else create_original ops absolute t)
     (\<lambda>_. inside (\<lambda>v c. replaced (fo_same ops) digest c0 absolute expected bytes v c \<and> sv_temporary v = t))
     (\<lambda>f. inside (thrown c0 absolute f))"
proof (cases "expected = []")
  case False
  then show ?thesis
    using achieves_andthen [OF achieves_thrown [OF back_up_stage [OF assms]] replace_stage [OF assms False]] by simp
qed (simp add: create_stage [OF assms])

lemma save_try_stage:
  assumes "length (file_name absolute) = 7"
  shows "achieves (inside (started c0 absolute)) (save_try ops serialized absolute expected visible)
     (\<lambda>_. inside (\<lambda>v c. \<exists>bytes. serialized = Inr bytes \<and> sv_committed v \<and> sv_written v = digest bytes \<and>
        replaced (fo_same ops) digest c0 absolute expected bytes v c))
     (\<lambda>f. inside (thrown c0 absolute f))"
proof -
  let ?X = "\<lambda>f. inside (thrown c0 absolute f)"
  let ?Q = "\<lambda>_. inside (\<lambda>v c. \<exists>bytes. serialized = Inr bytes \<and> sv_committed v \<and> sv_written v = digest bytes \<and>
        replaced (fo_same ops) digest c0 absolute expected bytes v c)"
  have R: "reserved c0 absolute t v c \<Longrightarrow> thrown c0 absolute f v c" for t f v c
    by (simp add: reserved_def thrown_def)
  have done_: "achieves (inside (\<lambda>v c. replaced (fo_same ops) digest c0 absolute expected bytes v c \<and> sv_temporary v = t))
      (andthen (assign (\<lambda>v. v\<lparr>sv_committed := True, sv_written := digest bytes\<rparr>)) (\<lambda>_. clean ops t)) ?Q ?X"
    if "serialized = Inr bytes" for bytes t
  proof (rule achieves_andthen)
    let ?V = "\<lambda>v. sv_committed v \<and> sv_written v = digest bytes"
    show "achieves (inside (\<lambda>v c. replaced (fo_same ops) digest c0 absolute expected bytes v c \<and> sv_temporary v = t))
        (assign (\<lambda>v. v\<lparr>sv_committed := True, sv_written := digest bytes\<rparr>))
        (\<lambda>_. inside (\<lambda>v c. replaced (fo_same ops) digest c0 absolute expected bytes v c \<and> sv_temporary v = t \<and> ?V v)) ?X"
      by (rule achieves_assign) (auto simp: replaced_def backed_up_def)
    show "achieves (inside (\<lambda>v c. replaced (fo_same ops) digest c0 absolute expected bytes v c \<and> sv_temporary v = t \<and> ?V v))
        (clean ops t) ?Q ?X"
      by (rule achieves_weaken [OF clean_stage [OF assms]]) (use that in \<open>auto simp: inside_def\<close>)
  qed
  have rest: "achieves (inside (reserved c0 absolute t))
      (andthen (write_temporary ops serialized t) (\<lambda>prepared.
       andthen (if expected \<noteq> [] then andthen (back_up ops absolute expected encrypted) (\<lambda>_. replace_original ops absolute t expected encrypted)
                else create_original ops absolute t) (\<lambda>_.
       andthen (assign (\<lambda>v. v\<lparr>sv_committed := True, sv_written := prepared\<rparr>)) (\<lambda>_. clean ops t)))) ?Q ?X" for t encrypted
  proof (cases serialized)
    case (Inl f)
    show ?thesis
      by (rule achieves_andthen [OF achieves_thrown [OF write_stage]]) (auto simp: Inl achieves_def)
  next
    case (Inr bytes)
    show ?thesis
    proof (rule achieves_andthen)
      show "achieves (inside (reserved c0 absolute t)) (write_temporary ops serialized t)
          (\<lambda>h. inside (\<lambda>v c. (reserved c0 absolute t v c \<and> c t = Some bytes) \<and> h = digest bytes)) ?X"
        by (rule achieves_thrown, rule achieves_weaken [OF write_stage]) (auto simp: inside_def Inr)
      show "achieves (inside (\<lambda>v c. (reserved c0 absolute t v c \<and> c t = Some bytes) \<and> prepared = digest bytes))
          (andthen (if expected \<noteq> [] then andthen (back_up ops absolute expected encrypted) (\<lambda>_. replace_original ops absolute t expected encrypted)
                else create_original ops absolute t) (\<lambda>_.
           andthen (assign (\<lambda>v. v\<lparr>sv_committed := True, sv_written := prepared\<rparr>)) (\<lambda>_. clean ops t))) ?Q ?X" for prepared
        by (rule achieves_fact, hypsubst, rule achieves_andthen [OF commit_stage [OF assms] done_ [OF Inr]])
    qed
  qed
  have tail: "achieves (inside (reserved c0 absolute t))
      (andthen (vars sv_encrypted) (\<lambda>encrypted.
       andthen (if visible then verify_visible ops absolute t else give ()) (\<lambda>_.
       andthen (if encrypted then protect_temporary ops absolute t else give ()) (\<lambda>_.
       andthen (write_temporary ops serialized t) (\<lambda>prepared.
       andthen (if expected \<noteq> [] then andthen (back_up ops absolute expected encrypted) (\<lambda>_. replace_original ops absolute t expected encrypted)
                else create_original ops absolute t) (\<lambda>_.
       andthen (assign (\<lambda>v. v\<lparr>sv_committed := True, sv_written := prepared\<rparr>)) (\<lambda>_. clean ops t))))))) ?Q ?X" for t
    apply (rule andthen_keeps [OF keeps_vars])
     apply (rule R, assumption)
    apply (rule andthen_keeps [OF keeps_if [OF keeps_visible keeps_give]])
      apply (simp add: stage_defs)
     apply (rule R, assumption)
    apply (rule andthen_keeps [OF keeps_if [OF keeps_protect keeps_give]])
       apply (simp add: stage_defs)
      apply (simp add: stage_defs)
     apply (rule R, assumption)
    apply (rule rest)
    done
  show ?thesis
    unfolding save_try_def
    apply (rule andthen_keeps [OF verify_original_stage])
     apply (simp add: started_def thrown_def)
    apply (rule achieves_andthen [OF achieves_thrown [OF reserve_stage]])
    apply (rule achieves_andthen [OF achieves_vars])
    apply (rule achieves_pre [OF tail])
    apply (auto simp: inside_def)
    done
qed

end

subsection \<open>What a caller can rely on\<close>

context lawful_files
begin

lemma proved_unchanged_content: "content (snd (proved_unchanged ops absolute expected v e)) = content e"
  using query_paths(1,2) [of absolute e] queries(8,10) [of absolute]
  by (auto simp: proved_unchanged_def split: prod.splits bool.splits sum.splits) (metis snd_conv)+

lemma proved_unchanged_true:
  assumes "fst (proved_unchanged ops absolute expected v e)" "expected \<noteq> []"
  shows "\<exists>bs. content e absolute = Some bs \<and> fo_same ops (digest bs) expected"
proof -
  obtain d e1 where d: "is_file ops absolute e = (d, e1)"
    by fastforce
  obtain r e2 where r: "fo_hash ops absolute e1 = (r, e2)"
    by fastforce
  obtain h where h: "r = Inr h" "fo_same ops h expected"
    using assms d r by (auto simp: proved_unchanged_def split: if_splits bool.splits sum.splits)
  have "content e1 = content e"
    using query_paths(2) [of absolute e] d by simp
  then show ?thesis
    using hashes [of absolute e1 h] r h by auto
qed

text \<open>The error handling leaves the target alone and judges it truthfully.\<close>

definition judged_truly :: "(string \<Rightarrow> u8 list option) \<Rightarrow> string \<Rightarrow> string \<Rightarrow> save_vars \<Rightarrow> failure \<Rightarrow> 'e \<Rightarrow> bool" where
  "judged_truly c absolute expected v g e' \<longleftrightarrow>
     (\<forall>q. q \<noteq> [] \<longrightarrow> q \<noteq> sv_temporary v \<longrightarrow> q \<noteq> sv_backup v \<longrightarrow> content e' q = c q) \<and> content e' absolute = c absolute \<and>
     (\<not> fl_conflict g \<and> \<not> fl_unsafe g \<and> expected \<noteq> [] \<longrightarrow> (\<exists>bs. c absolute = Some bs \<and> fo_same ops (digest bs) expected))"

lemma judged_content:
  assumes run: "judged ops absolute expected v f e = (g, e')" and t: "sv_temporary v = [] \<or> sv_temporary v \<noteq> absolute"
  shows "judged_truly (content e) absolute expected v g e' \<and> fl_conflict g = fl_conflict f \<and> fl_operation g = fl_operation f"
proof -
  obtain ok e1 where ok: "proved_unchanged ops absolute expected v e = (ok, e1)"
    by fastforce
  have same: "content e1 = content e" and true: "ok \<Longrightarrow> expected \<noteq> [] \<Longrightarrow> \<exists>bs. content e absolute = Some bs \<and> fo_same ops (digest bs) expected"
    using proved_unchanged_content [of absolute expected v e] proved_unchanged_true [of absolute expected v e] ok by simp_all
  have clean: "content (cleanup_temporary ops (sv_temporary v) x) q = content x q" if "q \<noteq> sv_temporary v" for x q
    using cleanup_content [OF that] .
  have target: "content (cleanup_temporary ops (sv_temporary v) x) absolute = content x absolute" for x
    using t clean by (cases "sv_temporary v = []") (auto simp: cleanup_temporary_def)
  show ?thesis
  proof (cases "fl_conflict f")
    case True
    then show ?thesis
      using run clean target by (auto simp: judged_def judged_truly_def)
  next
    case False
    have e': "e' = cleanup_temporary ops (sv_temporary v) e1" and g: "g = (if ok then f else f\<lparr>fl_unsafe := True\<rparr>)"
      using run False ok by (auto simp: judged_def split: bool.splits)
    show ?thesis
      unfolding judged_truly_def e' using clean target same true False by (auto simp: g)
  qed
qed

lemma caught_content:
  assumes name: "length (file_name absolute) = 7" and thrown: "thrown c0 absolute f v (content e)"
    and run: "save_caught ops absolute expected v f e = (g, e')"
  shows "(\<forall>q. q \<noteq> [] \<longrightarrow> q \<noteq> sv_temporary v \<longrightarrow> q \<noteq> sv_backup v \<longrightarrow> q \<noteq> absolute \<longrightarrow> content e' q = c0 q) \<and>
    (content e' absolute = c0 absolute \<or> \<not> fl_conflict g \<and> fl_operation g \<in> {''Replace startup file'', ''Create startup file''}) \<and>
    (\<not> fl_conflict g \<and> \<not> fl_unsafe g \<and> expected \<noteq> [] \<longrightarrow> (\<exists>bs. content e' absolute = Some bs \<and> fo_same ops (digest bs) expected))"
proof -
  define f' where "f' = annotated f (sv_operation v) (sv_source v) (sv_destination v)"
  have sib: "siblings absolute v"
    using thrown by (auto simp: thrown_def working_def attempted_def)
  then have t: "sv_temporary v = [] \<or> sv_temporary v \<noteq> absolute" and b: "sv_backup v \<noteq> absolute" and nonempty: "absolute \<noteq> []"
    using names_distinct [OF name] by (auto simp: siblings_def)
  have judge: "(\<forall>q. q \<noteq> [] \<longrightarrow> q \<noteq> sv_temporary v \<longrightarrow> q \<noteq> sv_backup v \<longrightarrow> q \<noteq> absolute \<longrightarrow> content e' q = c0 q) \<and>
      (content e' absolute = c0 absolute \<or> \<not> fl_conflict g \<and> fl_operation g \<in> {''Replace startup file'', ''Create startup file''}) \<and>
      (\<not> fl_conflict g \<and> \<not> fl_unsafe g \<and> expected \<noteq> [] \<longrightarrow> (\<exists>bs. content e' absolute = Some bs \<and> fo_same ops (digest bs) expected))"
    if "judged ops absolute expected v f' x = (g, e')" "thrown c0 absolute f v (content x)" for x
  proof -
    have j: "judged_truly (content x) absolute expected v g e'" "fl_conflict g = fl_conflict f" "fl_operation g = sv_operation v"
      using judged_content [OF that(1) t] by (simp_all add: f'_def annotated_def)
    have "content x absolute = c0 absolute \<or> \<not> fl_conflict f \<and> sv_operation v \<in> {''Replace startup file'', ''Create startup file''}"
      using that(2) t b nonempty sib names_distinct [OF name] by (auto simp: thrown_def working_def attempted_def siblings_def)
    moreover have "\<forall>q. q \<noteq> [] \<longrightarrow> q \<noteq> sv_temporary v \<longrightarrow> q \<noteq> sv_backup v \<longrightarrow> q \<noteq> absolute \<longrightarrow> content x q = c0 q"
      using that(2) by (auto simp: thrown_def working_def attempted_def)
    ultimately show ?thesis
      using j unfolding judged_truly_def by metis
  qed
  show ?thesis
  proof (cases "sv_backup v \<noteq> [] \<and> \<not> sv_backup_verified v")
    case False
    then have "judged ops absolute expected v f' e = (g, e')"
      using run by (auto simp: save_caught_def Let_def simp flip: f'_def)
    then show ?thesis
      using judge thrown by blast
  next
    case True
    then have working: "working c0 absolute v (content e)"
      using thrown by (auto simp: thrown_def attempted_def)
    obtain r e1 where r: "fo_delete ops (sv_backup v) e = (r, e1)"
      by fastforce
    have same: "content e1 q = content e q" if "q \<noteq> sv_backup v" for q
      using deletes(1) [OF that, of e] r by simp
    have still: "working c0 absolute v (content e1)"
      using working same by (auto simp: working_def)
    show ?thesis
    proof (cases "\<exists>code. r = Some code \<and> code \<noteq> file_not_found")
      case False
      then have "judged ops absolute expected v f' e1 = (g, e')"
        using run True r by (auto simp: save_caught_def Let_def simp flip: f'_def split: option.splits)
      then show ?thesis
        using judge still by (simp add: thrown_def)
    next
      case fails: True
      then have e': "e' = cleanup_temporary ops (sv_temporary v) e1" and g: "fl_unsafe g" "\<not> fl_conflict g"
        using run True r by (auto simp: save_caught_def Let_def annotated_def new_failure_def)
      have "content e' q = content e1 q" if "q \<noteq> sv_temporary v" for q
        using cleanup_content [OF that] by (simp add: e')
      moreover have "content e' absolute = content e1 absolute"
        using t calculation by (cases "sv_temporary v = []") (auto simp: e' cleanup_temporary_def)
      moreover have "content e1 absolute = c0 absolute"
        using still nonempty t b names_distinct [OF name] by (auto simp: working_def siblings_def)
      ultimately show ?thesis
        using still g by (auto simp: working_def)
    qed
  qed
qed

text \<open>The outcome of a whole save.\<close>

lemma save_outcome:
  assumes path: "full_path ops path e = (Inr absolute, e0)" "fo_same ops (file_name absolute) ''exe.xml''"
    and run: "save_launch_xml ops serialized path expected visible e = (r, h, e')"
  shows "case r of
      Inr b \<Rightarrow> (\<exists>bytes. serialized = Inr bytes \<and> content e' absolute = Some bytes \<and> h = digest bytes \<and>
        (if expected = [] then b = [] \<and> content e absolute = None
         else \<exists>orig kept. content e absolute = Some orig \<and> fo_same ops (digest orig) expected \<and>
           content e' b = Some kept \<and> fo_same ops (digest kept) expected))
    | Inl f \<Rightarrow> h = [] \<and>
        (content e' absolute = content e absolute \<or>
           \<not> fl_conflict f \<and> fl_operation f \<in> {''Replace startup file'', ''Create startup file''}) \<and>
        (\<not> fl_conflict f \<and> \<not> fl_unsafe f \<and> expected \<noteq> [] \<longrightarrow>
           (\<exists>bs. content e' absolute = Some bs \<and> fo_same ops (digest bs) expected))"
    "\<exists>t b. \<forall>p. p \<notin> {[], absolute, t, b} \<longrightarrow> content e' p = content e p"
proof -
  have name: "length (file_name absolute) = 7"
    using same_length [OF path(2)] by simp
  have c0: "content e0 = content e"
    using query_full_path [of path e] path(1) by simp
  define v0 where "v0 = \<lparr>sv_temporary = [], sv_backup = [], sv_operation = ''Prepare startup directory'', sv_source = absolute,
      sv_destination = parent_path absolute, sv_backup_verified = False, sv_committed = False,
      sv_encrypted_known = False, sv_encrypted = False, sv_written = []\<rparr>"
  obtain q v e2 where ran: "save_try ops serialized absolute expected visible (v0, e0) = (q, v, e2)"
    by (metis prod_cases3)
  have "inside (started (content e) absolute) (v0, e0)"
    by (simp add: stage_defs v0_def c0)
  from achieves_result [OF save_try_stage [OF name] this ran]
  have outcome: "case q of Inl f \<Rightarrow> thrown (content e) absolute f v (content e2)
      | Inr x \<Rightarrow> \<exists>bytes. serialized = Inr bytes \<and> sv_committed v \<and> sv_written v = digest bytes \<and>
          replaced (fo_same ops) digest (content e) absolute expected bytes v (content e2)"
    by (auto split: sum.splits)
  have whole: "save_launch_xml ops serialized path expected visible e =
      (case (q, v, e2) of (Inr _, (v, e2)) \<Rightarrow> (Inr (sv_backup v), sv_written v, e2)
       | (Inl f, (v, e2)) \<Rightarrow> (case save_caught ops absolute expected v f e2 of (g, e3) \<Rightarrow> (Inl g, sv_written v, e3)))"
    using path by (simp add: save_launch_xml_def ran flip: v0_def)
  show "case r of
      Inr b \<Rightarrow> (\<exists>bytes. serialized = Inr bytes \<and> content e' absolute = Some bytes \<and> h = digest bytes \<and>
        (if expected = [] then b = [] \<and> content e absolute = None
         else \<exists>orig kept. content e absolute = Some orig \<and> fo_same ops (digest orig) expected \<and>
           content e' b = Some kept \<and> fo_same ops (digest kept) expected))
    | Inl f \<Rightarrow> h = [] \<and>
        (content e' absolute = content e absolute \<or>
           \<not> fl_conflict f \<and> fl_operation f \<in> {''Replace startup file'', ''Create startup file''}) \<and>
        (\<not> fl_conflict f \<and> \<not> fl_unsafe f \<and> expected \<noteq> [] \<longrightarrow>
           (\<exists>bs. content e' absolute = Some bs \<and> fo_same ops (digest bs) expected))"
  proof (cases q)
    case (Inr u)
    then have r: "r = Inr (sv_backup v)" "h = sv_written v" "e' = e2"
      using run whole by auto
    then show ?thesis
      using outcome Inr by (auto simp: replaced_def backed_up_def)
  next
    case (Inl f)
    then obtain g e3 where caught: "save_caught ops absolute expected v f e2 = (g, e3)" and r: "r = Inl g" "h = sv_written v" "e' = e3"
      using run whole by (cases "save_caught ops absolute expected v f e2") auto
    have th: "thrown (content e) absolute f v (content e2)"
      using outcome Inl by simp
    then have "h = []"
      using r by (auto simp: thrown_def working_def attempted_def siblings_def)
    then show ?thesis
      using caught_content [OF name th caught] r by (simp only: sum.case) blast
  qed
  show "\<exists>t b. \<forall>p. p \<notin> {[], absolute, t, b} \<longrightarrow> content e' p = content e p"
  proof (cases q)
    case (Inr u)
    then have "e' = e2"
      using run whole by auto
    obtain bytes where "replaced (fo_same ops) digest (content e) absolute expected bytes v (content e2)"
      using outcome Inr by auto
    then have "\<forall>p. p \<noteq> [] \<longrightarrow> p \<noteq> sv_temporary v \<longrightarrow> p \<noteq> sv_backup v \<longrightarrow> p \<noteq> absolute \<longrightarrow> content e2 p = content e p"
      unfolding replaced_def by blast
    then show ?thesis
      unfolding \<open>e' = e2\<close> by (intro exI [of _ "sv_temporary v"] exI [of _ "sv_backup v"]) simp
  next
    case (Inl f)
    then obtain g e3 where caught: "save_caught ops absolute expected v f e2 = (g, e3)" and r: "e' = e3"
      using run whole by (cases "save_caught ops absolute expected v f e2") auto
    have "thrown (content e) absolute f v (content e2)"
      using outcome Inl by simp
    from caught_content [OF name this caught] show ?thesis
      unfolding r by (intro exI [of _ "sv_temporary v"] exI [of _ "sv_backup v"]) simp
  qed
qed

end

subsection \<open>A disk\<close>

text \<open>
  Files and their bytes; the list says which of the next operations fail.  A failed write leaves an empty
  file, a failed replacement loses the replaced file, as Windows documents it may.
\<close>

record disk =
  dk_files :: "string \<Rightarrow> u8 list option"
  dk_fails :: "bool list"

definition simple_digest :: "u8 list \<Rightarrow> string" where
  "simple_digest bs = map (\<lambda>b. char_of (unat b)) bs"

definition disk_act :: "(disk \<Rightarrow> 'r \<times> disk) \<Rightarrow> (disk \<Rightarrow> 'r \<times> disk) \<Rightarrow> disk \<Rightarrow> 'r \<times> disk" where
  "disk_act fails works d =
     (case dk_fails d of [] \<Rightarrow> works d | b # bs \<Rightarrow> (if b then fails else works) (d\<lparr>dk_fails := bs\<rparr>))"

definition put_file :: "string \<Rightarrow> u8 list option \<Rightarrow> disk \<Rightarrow> disk" where
  "put_file p bs d = d\<lparr>dk_files := (dk_files d)(p := bs)\<rparr>"

definition disk_copy :: "string \<Rightarrow> string \<Rightarrow> disk \<Rightarrow> u32 option \<times> disk" where
  "disk_copy a b d =
     (if dk_files d b \<noteq> None then (Some 80, d)
      else case dk_files d a of
        None \<Rightarrow> (Some file_not_found, d)
      | Some bs \<Rightarrow> disk_act (\<lambda>d. (Some 112, put_file b (Some []) d)) (\<lambda>d. (None, put_file b (Some bs) d)) d)"

definition disk_failure :: "u32 option \<times> disk \<Rightarrow> (failure + unit) \<times> disk" where
  "disk_failure = (\<lambda>(r, d). (case r of None \<Rightarrow> Inr () | Some code \<Rightarrow> Inl (new_failure ''Could not copy.'' code), d))"

definition disk_ops :: "disk file_ops" where
  "disk_ops = \<lparr>
     fo_same = (\<lambda>a b. map lower_letter a = map lower_letter b),
     fo_full_path = (\<lambda>p d. (Inr p, d)),
     fo_attributes = (\<lambda>p d. (case dk_files d p of None \<Rightarrow> Inl file_not_found | Some _ \<Rightarrow> Inr 0x80, d)),
     fo_make_directory = (\<lambda>p d. (None, d)),
     fo_hash = (\<lambda>p d. (case dk_files d p of None \<Rightarrow> Inl (new_failure ''Could not hash file.'' file_not_found)
                          | Some bs \<Rightarrow> Inr (simple_digest bs), d)),
     fo_random = (\<lambda>d. (Some [0x5A, 0x3C], d)),
     fo_tag = (\<lambda>d. (''20260101-120000-000'', d)),
     fo_create_new = (\<lambda>p d. if dk_files d p \<noteq> None then (Some 80, d)
        else disk_act (\<lambda>d. (Some 5, d)) (\<lambda>d. (None, put_file p (Some []) d)) d),
     fo_put = (\<lambda>p bs. disk_act (\<lambda>d. (Not_Written 112, put_file p (Some []) d)) (\<lambda>d. (Put_Done, put_file p (Some bs) d))),
     fo_reads_back = (\<lambda>p d. (Inr (), d)),
     fo_copy_new = disk_copy,
     fo_replace = (\<lambda>a t. disk_act (\<lambda>d. (Some 1176, put_file a None d))
        (\<lambda>d. case dk_files d t of None \<Rightarrow> (Some file_not_found, d) | Some bs \<Rightarrow> (None, put_file a (Some bs) (put_file t None d)))),
     fo_move = (\<lambda>t a d. if dk_files d a \<noteq> None then (Some 183, d)
        else case dk_files d t of None \<Rightarrow> (Some file_not_found, d)
        | Some bs \<Rightarrow> disk_act (\<lambda>d. (Some 5, d)) (\<lambda>d. (None, put_file a (Some bs) (put_file t None d))) d),
     fo_delete = (\<lambda>p d. if dk_files d p = None then (Some file_not_found, d)
        else disk_act (\<lambda>d. (Some 5, d)) (\<lambda>d. (None, put_file p None d)) d),
     fo_normalize = (\<lambda>p d. d),
     fo_io_copy_backup = (\<lambda>a b d. disk_failure (disk_copy a b d)),
     fo_io_attributes = (\<lambda>p d. (Inr 0x80, d)),
     fo_io_protect_like = (\<lambda>a b d. (Inr (), d)),
     fo_io_assert_visible = (\<lambda>p d. (Inr (), d)),
     fo_settings_closed = (\<lambda>d. (Inr (), d))\<rparr>"

lemma put_file_simps [simp]:
  "dk_files (put_file p bs d) = (dk_files d)(p := bs)" "dk_fails (put_file p bs d) = dk_fails d"
  by (simp_all add: put_file_def)

interpretation disk: lawful_files disk_ops dk_files simple_digest
proof
  show "fo_same disk_ops a b \<Longrightarrow> length a = length b" for a b
    by (simp add: disk_ops_def) (metis length_map)
qed (auto simp: disk_ops_def disk_copy_def disk_act_def disk_failure_def fun_upd_def
    split: option.splits list.splits if_splits prod.splits)

text \<open>C25: Saving \<open>exe.xml\<close> is atomic and keeps a verified backup: on success the file holds the serialized
  document, the returned hash is that of what was written, and a backup with the expected hash exists; after a
  failure the file is unchanged unless the replacement itself was attempted, a conflict never attempts it, and a
  failure that is neither a conflict nor marked unsafe leaves a file with the expected hash.  Whatever fails, no file
  but the target and two siblings is touched.\<close>

theorem exe_xml_replaced_or_kept:
  assumes "lawful_files ops content digest"
    and "full_path ops path e = (Inr absolute, e0)" "fo_same ops (file_name absolute) ''exe.xml''"
    and "save_launch_xml ops serialized path expected visible e = (r, h, e')"
  shows "(\<exists>t b. \<forall>p. p \<notin> {[], absolute, t, b} \<longrightarrow> content e' p = content e p) \<and>
    (case r of
      Inr b \<Rightarrow> (\<exists>bytes. serialized = Inr bytes \<and> content e' absolute = Some bytes \<and> h = digest bytes \<and>
        (if expected = [] then b = [] \<and> content e absolute = None
         else \<exists>orig kept. content e absolute = Some orig \<and> fo_same ops (digest orig) expected \<and>
           content e' b = Some kept \<and> fo_same ops (digest kept) expected))
    | Inl f \<Rightarrow> h = [] \<and>
        (content e' absolute = content e absolute \<or>
           \<not> fl_conflict f \<and> fl_operation f \<in> {''Replace startup file'', ''Create startup file''}) \<and>
        (\<not> fl_conflict f \<and> \<not> fl_unsafe f \<and> expected \<noteq> [] \<longrightarrow>
           (\<exists>bs. content e' absolute = Some bs \<and> fo_same ops (digest bs) expected)))"
  using lawful_files.save_outcome [OF assms] by blast

definition exe_disk :: disk where
  "exe_disk = \<lparr>dk_files = [''C:/Sim/exe.xml'' \<mapsto> [0x61, 0x62]], dk_fails = []\<rparr>"

lemma exe_saved:
  "case save_launch_xml disk_ops (Inr [0x63]) ''C:/Sim/exe.xml'' ''AB'' False exe_disk of
     (Inr b, h, d) \<Rightarrow> h = ''c'' \<and> dk_files d b = Some [0x61, 0x62] | _ \<Rightarrow> False"
  by code_simp

lemma exe_xml_replaced_or_kept_witness:
  "\<exists>b h d. save_launch_xml disk_ops (Inr [0x63]) ''C:/Sim/exe.xml'' ''AB'' False exe_disk = (Inr b, h, d) \<and>
     dk_files d ''C:/Sim/exe.xml'' = Some [0x63] \<and>
     (\<exists>kept. dk_files d b = Some kept \<and> map lower_letter (simple_digest kept) = map lower_letter ''AB'')"
proof -
  obtain r h d where run: "save_launch_xml disk_ops (Inr [0x63]) ''C:/Sim/exe.xml'' ''AB'' False exe_disk = (r, h, d)"
    by (metis prod_cases3)
  then obtain b where r: "r = Inr b"
    using exe_saved by (cases r) simp_all
  have path: "full_path disk_ops ''C:/Sim/exe.xml'' exe_disk = (Inr ''C:/Sim/exe.xml'', exe_disk)"
    by (simp add: full_path_def disk_ops_def)
  have "fo_same disk_ops (file_name ''C:/Sim/exe.xml'') ''exe.xml''"
    by code_simp
  from exe_xml_replaced_or_kept [OF disk.lawful_files_axioms path this run]
  have "dk_files d ''C:/Sim/exe.xml'' = Some [0x63] \<and>
     (\<exists>kept. dk_files d b = Some kept \<and> fo_same disk_ops (simple_digest kept) ''AB'')"
    unfolding r by auto
  then have "dk_files d ''C:/Sim/exe.xml'' = Some [0x63] \<and>
     (\<exists>kept. dk_files d b = Some kept \<and> map lower_letter (simple_digest kept) = map lower_letter ''AB'')"
    by (simp add: disk_ops_def)
  then show ?thesis
    using run unfolding r by blast
qed

text \<open>The replacement itself fails: the failure is marked unsafe and the target is gone, the backup is kept.\<close>

lemma exe_replacement_fails:
  "case save_launch_xml disk_ops (Inr [0x63]) ''C:/Sim/exe.xml'' ''AB'' False
      (exe_disk\<lparr>dk_fails := [False, False, False, True]\<rparr>) of
     (Inl f, h, d) \<Rightarrow> fl_unsafe f \<and> \<not> fl_conflict f \<and> fl_operation f = ''Replace startup file'' \<and>
       dk_files d ''C:/Sim/exe.xml'' = None
   | _ \<Rightarrow> False"
  by code_simp

text \<open>The copy of the backup fails: the partial copy is removed and the original is proved unchanged.\<close>

lemma exe_backup_fails:
  "case save_launch_xml disk_ops (Inr [0x63]) ''C:/Sim/exe.xml'' ''AB'' False
      (exe_disk\<lparr>dk_fails := [False, False, True]\<rparr>) of
     (Inl f, h, d) \<Rightarrow> \<not> fl_unsafe f \<and> \<not> fl_conflict f \<and> fl_operation f = ''Back up startup file'' \<and>
       dk_files d ''C:/Sim/exe.xml'' = Some [0x61, 0x62] \<and>
       dk_files d ''C:/Sim/exe.xml.taxi-backup-20260101-120000-000-5a3c'' = None
   | _ \<Rightarrow> False"
  by code_simp

subsection \<open>Saved settings\<close>

record settings_target =
  st_path :: string
  st_root :: string

record settings_entry =
  se_path :: string
  se_root :: string
  se_backup :: string
  se_existed :: bool
  se_prior_hash :: string
  se_removed :: bool

definition starts_with_insensitive :: "'e file_ops \<Rightarrow> string \<Rightarrow> string \<Rightarrow> bool" where
  "starts_with_insensitive ops text prefix \<longleftrightarrow>
     length text \<ge> length prefix \<and> fo_same ops (take (length prefix) text) prefix"

text \<open>The file and every existing ancestor.\<close>

function check_ancestors :: "'e file_ops \<Rightarrow> string \<Rightarrow> string \<Rightarrow> ('e, unit) action" where
  "check_ancestors ops absolute cursor e =
     (if cursor = [] then (Inr (), e)
      else case fo_attributes ops cursor e of
        (Inr a, e1) \<Rightarrow>
          if a AND reparse_attribute \<noteq> 0 then (Inl (new_failure (''Settings path contains a reparse point: '' @ cursor) 0), e1)
          else if cursor = absolute \<and> a AND directory_attribute \<noteq> 0
            then (Inl (new_failure (''Settings file is a directory: '' @ absolute) 0), e1)
          else if cursor \<noteq> absolute \<and> a AND directory_attribute = 0
            then (Inl (new_failure (''Settings parent is not a directory: '' @ cursor) 0), e1)
          else check_ancestors ops absolute (parent_path cursor) e1
      | (Inl code, e1) \<Rightarrow>
          if code \<noteq> file_not_found \<and> code \<noteq> path_not_found
            then (Inl (new_failure (''Settings path could not be inspected: '' @ cursor) code), e1)
          else check_ancestors ops absolute (parent_path cursor) e1)"
  by pat_completeness auto

termination
  by (relation "measure (\<lambda>(ops, absolute, cursor, e). length cursor)") (auto simp: parent_path_shorter)

declare check_ancestors.simps [simp del]

definition assert_settings_path :: "'e file_ops \<Rightarrow> string \<Rightarrow> string \<Rightarrow> ('e, unit) action" where
  "assert_settings_path ops path root =
     (if \<not> path_rooted path \<or> \<not> path_rooted root then refuse (new_failure ''Settings paths must be absolute.'' 0)
      else
        andthen (full_path ops path) (\<lambda>absolute.
        andthen (full_path ops root) (\<lambda>full_root.
        let parent = trim_separators full_root in
        if fo_same ops parent (trim_separators (path_root parent)) \<or>
            \<not> starts_with_insensitive ops absolute (parent @ [backslash])
        then refuse (new_failure (''Settings path is outside its dedicated directory: '' @ absolute) 0)
        else check_ancestors ops absolute absolute)))"

definition entry_hash :: "'e file_ops \<Rightarrow> settings_entry \<Rightarrow> ('e, string) action" where
  "entry_hash ops entry =
     andthen (assert_settings_path ops (se_path entry) (se_root entry)) (\<lambda>_. file_hash_or_empty ops (se_path entry))"

fun decimal :: "nat \<Rightarrow> string" where
  "decimal n = (if n < 10 then [char_of (48 + n)] else decimal (n div 10) @ [char_of (48 + n mod 10)])"

declare decimal.simps [simp del]

definition settings_backup :: "string \<Rightarrow> nat \<Rightarrow> string" where
  "settings_backup directory index = join directory (''settings-'' @ decimal index @ ''.backup'')"

definition snapshot_entry :: "'e file_ops \<Rightarrow> settings_target \<Rightarrow> string \<Rightarrow> ('e, settings_entry) action" where
  "snapshot_entry ops target backup =
     (let entry = \<lparr>se_path = st_path target, se_root = st_root target, se_backup = backup, se_existed = False,
        se_prior_hash = [], se_removed = False\<rparr> in
      andthen (entry_hash ops entry) (\<lambda>h.
      let entry = entry\<lparr>se_prior_hash := h, se_existed := h \<noteq> []\<rparr> in
      if se_existed entry then
        andthen (copy_file_new ops (se_path entry) backup) (\<lambda>_.
        andthen (fo_hash ops backup) (\<lambda>copied.
        andthen (if copied \<noteq> h then give True else andthen (entry_hash ops entry) (\<lambda>again. give (again \<noteq> h))) (\<lambda>changed.
        if changed then refuse (new_failure (''Settings changed while taking the recovery snapshot: '' @ se_path entry) 0)
        else give entry)))
      else give entry))"

fun snapshot_from :: "'e file_ops \<Rightarrow> settings_target list \<Rightarrow> string \<Rightarrow> nat \<Rightarrow> ('e, settings_entry list) action" where
  "snapshot_from ops [] directory index = give []"
| "snapshot_from ops (t # ts) directory index =
     andthen (snapshot_entry ops t (settings_backup directory index)) (\<lambda>entry.
     andthen (snapshot_from ops ts directory (index + 1)) (\<lambda>entries. give (entry # entries)))"

definition snapshot_settings :: "'e file_ops \<Rightarrow> settings_target list \<Rightarrow> string \<Rightarrow> ('e, settings_entry list) action" where
  "snapshot_settings ops targets directory = snapshot_from ops targets directory 0"

text \<open>Nothing is deleted before every entry was found unchanged.\<close>

fun preflight :: "'e file_ops \<Rightarrow> settings_entry list \<Rightarrow> ('e, unit) action" where
  "preflight ops [] = give ()"
| "preflight ops (x # xs) =
     andthen (entry_hash ops x) (\<lambda>h.
     if h \<noteq> se_prior_hash x then refuse (new_failure (''Settings changed before removal: '' @ se_path x) 0)
     else preflight ops xs)"

definition remove_entry :: "'e file_ops \<Rightarrow> settings_entry \<Rightarrow> ('e, unit) action" where
  "remove_entry ops x =
     andthen (entry_hash ops x) (\<lambda>h.
     if h \<noteq> se_prior_hash x then refuse (new_failure (''Settings changed during removal: '' @ se_path x) 0)
     else delete_file ops (se_path x))"

text \<open>The snapshot is the caller's; entries removed before a failure stay marked.\<close>

fun remove_entries :: "'e file_ops \<Rightarrow> settings_entry list \<Rightarrow> 'e \<Rightarrow> (failure + unit) \<times> settings_entry list \<times> 'e" where
  "remove_entries ops [] e = (Inr (), [], e)"
| "remove_entries ops (x # xs) e =
     (if \<not> se_existed x then (case remove_entries ops xs e of (r, ys, e') \<Rightarrow> (r, x # ys, e'))
      else case remove_entry ops x e of
        (Inl f, e1) \<Rightarrow> (Inl f, x # xs, e1)
      | (Inr _, e1) \<Rightarrow> (case remove_entries ops xs e1 of (r, ys, e') \<Rightarrow> (r, x\<lparr>se_removed := True\<rparr> # ys, e')))"

definition remove_settings :: "'e file_ops \<Rightarrow> settings_entry list \<Rightarrow> 'e \<Rightarrow> (failure + unit) \<times> settings_entry list \<times> 'e" where
  "remove_settings ops entries e =
     (case andthen (fo_settings_closed ops) (\<lambda>_. preflight ops entries) e of
        (Inl f, e1) \<Rightarrow> (Inl f, entries, e1)
      | (Inr _, e1) \<Rightarrow> remove_entries ops entries e1)"

definition restore_entry :: "'e file_ops \<Rightarrow> settings_entry \<Rightarrow> ('e, unit) action" where
  "restore_entry ops x =
     andthen (entry_hash ops x) (\<lambda>h.
     if h \<noteq> [] then refuse (new_failure ''changed by another writer'' 0)
     else
       andthen (fo_hash ops (se_backup x)) (\<lambda>b.
       if b \<noteq> se_prior_hash x then refuse (new_failure ''backup changed'' 0)
       else copy_file_new ops (se_backup x) (se_path x)))"

fun restore_entries ::
  "'e file_ops \<Rightarrow> settings_entry list \<Rightarrow> string \<Rightarrow> 'e \<Rightarrow> string \<times> settings_entry list \<times> 'e" where
  "restore_entries ops [] conflicts e = (conflicts, [], e)"
| "restore_entries ops (x # xs) conflicts e =
     (if \<not> se_removed x then (case restore_entries ops xs conflicts e of (c, ys, e') \<Rightarrow> (c, x # ys, e'))
      else case restore_entry ops x e of
        (Inl _, e1) \<Rightarrow>
          (case restore_entries ops xs (conflicts @ (if conflicts = [] then [] else '', '') @ se_path x) e1 of
             (c, ys, e') \<Rightarrow> (c, x # ys, e'))
      | (Inr _, e1) \<Rightarrow> (case restore_entries ops xs conflicts e1 of (c, ys, e') \<Rightarrow> (c, x\<lparr>se_removed := False\<rparr> # ys, e')))"

definition restore_settings :: "'e file_ops \<Rightarrow> settings_entry list \<Rightarrow> 'e \<Rightarrow> (failure + unit) \<times> settings_entry list \<times> 'e" where
  "restore_settings ops entries e =
     (case restore_entries ops entries [] e of (conflicts, ys, e') \<Rightarrow>
        (if conflicts \<noteq> []
         then Inl (new_failure (''Settings rollback preserved files changed by another writer or unsafe path: '' @ conflicts) 0)
         else Inr (), ys, e'))"

context lawful_files
begin

lemma andthen_Inr:
  "andthen m k e = (Inr y, e') \<longleftrightarrow> (\<exists>x e1. m e = (Inr x, e1) \<and> k x e1 = (Inr y, e'))"
  by (auto simp: andthen_def split: sum.splits prod.splits)

lemma andthen_content:
  assumes "\<And>e. content (snd (m e)) = content e" "\<And>x e. content (snd (k x e)) = content e"
  shows "content (snd (andthen m k e)) = content e"
  using assms(1) [of e] assms(2) by (auto simp: andthen_def split: sum.splits prod.splits)

lemma check_ancestors_content: "content (snd (check_ancestors ops absolute cursor e)) = content e"
proof (induction cursor arbitrary: e rule: measure_induct_rule [of length])
  case (less cursor)
  obtain r e1 where r: "fo_attributes ops cursor e = (r, e1)"
    by fastforce
  then have e1: "content e1 = content e"
    using queries(2) [of cursor e] by simp
  show ?case
  proof (cases "cursor = []")
    case False
    then have "content (snd (check_ancestors ops absolute (parent_path cursor) e1)) = content e1"
      using less parent_path_shorter [of cursor] by blast
    then show ?thesis
      using False e1 r by (simp add: check_ancestors.simps [of ops absolute cursor e] split: sum.splits)
  qed (simp add: check_ancestors.simps)
qed

lemma entry_hash_content: "content (snd (entry_hash ops x e)) = content e"
proof -
  have "content (snd (file_hash_or_empty ops p e)) = content e" for p e
    using query_paths(2) [of p e] queries(10) [of p "snd (is_file ops p e)"]
    by (auto simp: file_hash_or_empty_def split: prod.splits bool.splits)
  moreover have "content (snd (assert_settings_path ops p r e)) = content e" for p r e
    unfolding assert_settings_path_def
    by (auto simp: refuse_def Let_def intro!: andthen_content query_full_path check_ancestors_content)
  ultimately show ?thesis
    unfolding entry_hash_def by (intro andthen_content)
qed

lemma entry_hash_value:
  assumes "entry_hash ops x e = (Inr h, e')"
  shows "content e' = content e" "se_path x \<noteq> []" "h \<noteq> [] \<Longrightarrow> \<exists>bs. content e (se_path x) = Some bs \<and> h = digest bs"
proof -
  show "content e' = content e"
    using entry_hash_content [of x e] assms by simp
  obtain e1 where a: "assert_settings_path ops (se_path x) (se_root x) e = (Inr (), e1)"
    and h: "file_hash_or_empty ops (se_path x) e1 = (Inr h, e')"
    using assms by (auto simp: entry_hash_def andthen_Inr)
  show "se_path x \<noteq> []"
    using a by (auto simp: assert_settings_path_def path_rooted_def refuse_def)
  have "content (snd (assert_settings_path ops p r e)) = content e" for p r e
    unfolding assert_settings_path_def
    by (auto simp: refuse_def Let_def intro!: andthen_content query_full_path check_ancestors_content)
  then have e1: "content e1 = content e"
    using a by (metis snd_conv)
  obtain d e2 where d: "is_file ops (se_path x) e1 = (d, e2)"
    by fastforce
  then have e2: "content e2 = content e"
    using query_paths(2) [of "se_path x" e1] e1 by simp
  show "\<exists>bs. content e (se_path x) = Some bs \<and> h = digest bs" if "h \<noteq> []"
    using h d that hashes [of "se_path x" e2 h] e2
    by (cases d) (auto simp: file_hash_or_empty_def)
qed

lemma copy_new_content:
  assumes "copy_file_new ops a b e = (r, e')"
  shows "q \<noteq> b \<Longrightarrow> content e' q = content e q" "content e q = Some bs \<Longrightarrow> content e' q = Some bs"
    "r = Inr () \<Longrightarrow> content e b = None \<and> content e' b = content e a"
proof -
  have e': "e' = snd (fo_copy_new ops a b e)" and r: "r = Inr () \<Longrightarrow> fst (fo_copy_new ops a b e) = None"
    using assms by (auto simp: copy_file_new_def or_fail_def split: prod.splits option.splits)
  show other: "content e' q = content e q" if "q \<noteq> b" for q
    using copies(1) [OF that] e' by simp
  show "content e q = Some bs \<Longrightarrow> content e' q = Some bs"
    using other copies(3) [of e b bs a] e' by (cases "q = b") auto
  show "r = Inr () \<Longrightarrow> content e b = None \<and> content e' b = content e a"
    using r copies(2) [of a b e] e' by simp
qed

text \<open>Restoring never overwrites a file.\<close>

lemma restore_entry_content:
  assumes "restore_entry ops x e = (r, e')"
  shows "q \<noteq> se_path x \<Longrightarrow> content e' q = content e q" "content e q = Some bs \<Longrightarrow> content e' q = Some bs"
    "r = Inr () \<Longrightarrow> \<exists>kb. content e' (se_path x) = Some kb \<and> digest kb = se_prior_hash x"
proof -
  obtain h e1 where h: "entry_hash ops x e = (h, e1)"
    by fastforce
  have e1: "content e1 = content e"
    using entry_hash_content [of x e] h by simp
  obtain b e2 where b: "fo_hash ops (se_backup x) e1 = (b, e2)"
    by fastforce
  have e2: "content e2 = content e"
    using queries(10) [of "se_backup x" e1] b e1 by simp
  obtain c e3 where c: "copy_file_new ops (se_backup x) (se_path x) e2 = (c, e3)"
    by fastforce
  have e': "e' = e1 \<or> e' = e2 \<or> e' = e3"
    using assms h b c by (auto simp: restore_entry_def andthen_def refuse_def split: sum.splits if_splits)
  show "content e' q = content e q" if "q \<noteq> se_path x" for q
    using e' e1 e2 copy_new_content(1) [OF c that] by auto
  show "content e' q = Some bs" if "content e q = Some bs" for q bs
    using e' e1 e2 that copy_new_content(2) [OF c, of q bs] by auto
  show "\<exists>kb. content e' (se_path x) = Some kb \<and> digest kb = se_prior_hash x" if "r = Inr ()"
  proof -
    have "h = Inr []" "b = Inr (se_prior_hash x)" "c = Inr ()" "e' = e3"
      using assms h b c that by (auto simp: restore_entry_def andthen_def refuse_def split: sum.splits if_splits)
    moreover obtain kb where "content e1 (se_backup x) = Some kb" "digest kb = se_prior_hash x"
      using hashes [of "se_backup x" e1] b \<open>b = Inr _\<close> by auto
    ultimately show ?thesis
      using copy_new_content(3) [OF c] e1 e2 by auto
  qed
qed

lemma restore_entries_content:
  assumes "restore_entries ops S conflicts e = (c, S', e')"
  shows "(\<forall>q bs. content e q = Some bs \<longrightarrow> content e' q = Some bs) \<and>
    (\<forall>q. (\<forall>x \<in> set S. se_removed x \<longrightarrow> q \<noteq> se_path x) \<longrightarrow> content e' q = content e q) \<and>
    ((\<forall>x \<in> set S. se_path x \<noteq> []) \<longrightarrow> c = [] \<longrightarrow> conflicts = [] \<and>
      (\<forall>x \<in> set S. se_removed x \<longrightarrow> (\<exists>kb. content e' (se_path x) = Some kb \<and> digest kb = se_prior_hash x)))"
  using assms
proof (induction S arbitrary: conflicts e S')
  case (Cons x S)
  show ?case
  proof (cases "se_removed x")
    case False
    then obtain ys where "restore_entries ops S conflicts e = (c, ys, e')"
      using Cons.prems by (auto split: prod.splits)
    from Cons.IH [OF this] show ?thesis
      using False by auto
  next
    case True
    obtain r e1 where r: "restore_entry ops x e = (r, e1)"
      by fastforce
    note step = restore_entry_content [OF r]
    show ?thesis
    proof (cases r)
      case (Inl f)
      obtain ys where "restore_entries ops S (conflicts @ (if conflicts = [] then [] else '', '') @ se_path x) e1 = (c, ys, e')"
        using Cons.prems True r Inl by (auto split: prod.splits)
      from Cons.IH [OF this] show ?thesis
        using step(1,2) True by auto
    next
      case (Inr u)
      obtain ys where "restore_entries ops S conflicts e1 = (c, ys, e')"
        using Cons.prems True r Inr by (auto split: prod.splits)
      note ih = Cons.IH [OF this]
      obtain kb where "content e1 (se_path x) = Some kb" "digest kb = se_prior_hash x"
        using step(3) Inr by auto
      then have "content e' (se_path x) = Some kb" "digest kb = se_prior_hash x"
        using ih by auto
      then show ?thesis
        using ih step(1,2) True by auto
    qed
  qed
qed simp

text \<open>Removal deletes the files it marks and nothing else.\<close>

definition removed_paths :: "settings_entry list \<Rightarrow> string set" where
  "removed_paths S = se_path ` {x \<in> set S. se_removed x}"

definition unmarked :: "settings_entry \<Rightarrow> settings_entry" where
  "unmarked x = x\<lparr>se_removed := False\<rparr>"

lemma removed_paths_simps [simp]:
  "removed_paths [] = {}"
  "removed_paths (x # S) = (if se_removed x then insert (se_path x) (removed_paths S) else removed_paths S)"
  by (auto simp: removed_paths_def)

lemma remove_entries_content:
  assumes "remove_entries ops S e = (r, S', e')" "\<forall>x \<in> set S. \<not> se_removed x"
  shows "(\<forall>q. content e' q = (if q \<in> removed_paths S' then None else content e q)) \<and> map unmarked S' = S \<and>
    (\<forall>x \<in> set S'. se_removed x \<longrightarrow> se_existed x)"
  using assms
proof (induction S arbitrary: e S')
  case (Cons x S)
  have x: "\<not> se_removed x" "unmarked x = x" "unmarked (x\<lparr>se_removed := True\<rparr>) = x"
    using Cons.prems(2) by (cases x; simp add: unmarked_def)+
  have S: "\<forall>y \<in> set S. \<not> se_removed y" "map unmarked S = S"
    using Cons.prems(2) by (auto simp: unmarked_def intro!: map_idI)
  show ?case
  proof (cases "se_existed x")
    case False
    then obtain ys where ys: "remove_entries ops S e = (r, ys, e')" "S' = x # ys"
      using Cons.prems(1) by (auto split: prod.splits)
    show ?thesis
      using Cons.IH [OF ys(1) S(1)] x by (simp add: ys(2))
  next
    case True
    obtain q1 e1 where q1: "remove_entry ops x e = (q1, e1)"
      by fastforce
    obtain h e0 where h: "entry_hash ops x e = (h, e0)"
      by fastforce
    have e0: "content e0 = content e"
      using entry_hash_content [of x e] h by simp
    obtain d e2 where d: "fo_delete ops (se_path x) e0 = (d, e2)"
      by fastforce
    show ?thesis
    proof (cases q1)
      case (Inl f)
      have "e1 = e0 \<or> e1 = e2 \<and> d \<noteq> None"
        using q1 h d Inl by (auto simp: remove_entry_def andthen_def refuse_def delete_file_def or_fail_def split: sum.splits if_splits option.splits)
      moreover have "content e2 q = content e0 q" if "d = Some code" for q code
        using deletes(1) [of q "se_path x" e0] deletes(3) [of "se_path x" e0 code] d that by (cases "q = se_path x") simp_all
      ultimately have "content e1 = content e"
        using e0 by (auto simp: fun_eq_iff)
      moreover have "S' = x # S" "e' = e1"
        using Cons.prems(1) True q1 Inl by auto
      ultimately show ?thesis
        using x S by (auto simp: removed_paths_def)
    next
      case (Inr u)
      have "e1 = e2" "d = None"
        using q1 h d Inr by (auto simp: remove_entry_def andthen_def refuse_def delete_file_def or_fail_def split: sum.splits if_splits option.splits)
      then have e1: "content e1 q = (if q = se_path x then None else content e q)" for q
        using deletes(1) [of q "se_path x" e0] deletes(2) [of "se_path x" e0] d e0 by simp
      obtain ys where ys: "remove_entries ops S e1 = (r, ys, e')" "S' = x\<lparr>se_removed := True\<rparr> # ys"
        using Cons.prems(1) True q1 Inr by (auto split: prod.splits)
      show ?thesis
        using Cons.IH [OF ys(1) S(1)] x True e1 by (simp add: ys(2))
    qed
  qed
qed simp

lemma preflight_content: "content (snd (preflight ops S e)) = content e"
proof (induction S arbitrary: e)
  case (Cons x S)
  show ?case
    unfolding preflight.simps by (rule andthen_content [OF entry_hash_content]) (simp add: refuse_def Cons.IH)
qed (simp add: give_def)

lemma remove_settings_content:
  assumes "remove_settings ops S e = (r, S', e')" "\<forall>x \<in> set S. \<not> se_removed x"
  shows "(\<forall>q. content e' q = (if q \<in> removed_paths S' then None else content e q)) \<and> map unmarked S' = S \<and>
    (\<forall>x \<in> set S'. se_removed x \<longrightarrow> se_existed x)"
proof -
  obtain q e1 where q: "andthen (fo_settings_closed ops) (\<lambda>_. preflight ops S) e = (q, e1)"
    by fastforce
  have e1: "content e1 = content e"
    using andthen_content [of "fo_settings_closed ops" "\<lambda>_. preflight ops S" e] queries(11) preflight_content q by simp
  show ?thesis
  proof (cases q)
    case (Inl f)
    then have "S' = S" "e' = e1"
      using assms(1) q by (auto simp: remove_settings_def)
    moreover have "map unmarked S = S"
      using assms(2) by (auto simp: unmarked_def intro!: map_idI)
    ultimately show ?thesis
      using e1 assms(2) by (auto simp: removed_paths_def)
  next
    case (Inr u)
    then have "remove_entries ops S e1 = (r, S', e')"
      using assms(1) q by (simp add: remove_settings_def)
    from remove_entries_content [OF this assms(2)] show ?thesis
      by (simp add: e1)
  qed
qed

end

context lawful_files
begin

text \<open>What a snapshot knows of one entry.\<close>

definition recorded :: "(string \<Rightarrow> u8 list option) \<Rightarrow> settings_entry \<Rightarrow> bool" where
  "recorded c x \<longleftrightarrow> \<not> se_removed x \<and> se_path x \<noteq> [] \<and>
     (se_existed x \<longrightarrow> (\<exists>bs. c (se_path x) = Some bs \<and> digest bs = se_prior_hash x))"

lemma snapshot_entry_content:
  assumes "snapshot_entry ops t b e = (r, e')"
  shows "q \<noteq> b \<Longrightarrow> content e' q = content e q"
    "r = Inr x \<Longrightarrow> recorded (content e) x \<and> se_path x = st_path t"
proof -
  define x0 where "x0 = \<lparr>se_path = st_path t, se_root = st_root t, se_backup = b, se_existed = False,
     se_prior_hash = [], se_removed = False\<rparr>"
  obtain h1 e1 where h1: "entry_hash ops x0 e = (h1, e1)"
    by fastforce
  have e1: "content e1 = content e"
    using entry_hash_content [of x0 e] h1 by simp
  have "(q \<noteq> b \<longrightarrow> content e' q = content e q) \<and> (r = Inr x \<longrightarrow> recorded (content e) x \<and> se_path x = st_path t)"
  proof (cases h1)
    case (Inl f)
    then show ?thesis
      using assms h1 e1 by (auto simp: snapshot_entry_def andthen_def Let_def simp flip: x0_def)
  next
    case (Inr h)
    note known = entry_hash_value [OF h1 [unfolded Inr]]
    show ?thesis
    proof (cases "h = []")
      case True
      then show ?thesis
        using assms h1 e1 Inr known(2) by (auto simp: snapshot_entry_def andthen_def Let_def give_def recorded_def x0_def)
    next
      case False
      obtain c2 e2 where c2: "copy_file_new ops (st_path t) b e1 = (c2, e2)"
        by fastforce
      obtain h3 e3 where h3: "fo_hash ops b e2 = (h3, e3)"
        by fastforce
      define x1 where "x1 = x0\<lparr>se_prior_hash := h, se_existed := True\<rparr>"
      obtain h4 e4 where h4: "entry_hash ops x1 e3 = (h4, e4)"
        by fastforce
      have later: "content e2 q = content e q" "content e3 q = content e q" "content e4 q = content e q" if "q \<noteq> b" for q
        using copy_new_content(1) [OF c2 that] e1 queries(10) [of b e2] h3 entry_hash_content [of x1 e3] h4 by simp_all
      have run: "snapshot_entry ops t b e = (case c2 of Inl f \<Rightarrow> (Inl f, e2) | Inr _ \<Rightarrow> (case h3 of Inl f \<Rightarrow> (Inl f, e3) | Inr copied \<Rightarrow>
          if copied \<noteq> h then (Inl (new_failure (''Settings changed while taking the recovery snapshot: '' @ se_path x1) 0), e3)
          else (case h4 of Inl f \<Rightarrow> (Inl f, e4) | Inr again \<Rightarrow>
            if again \<noteq> h then (Inl (new_failure (''Settings changed while taking the recovery snapshot: '' @ se_path x1) 0), e4)
            else (Inr x1, e4))))"
        using h1 Inr False c2 h3 h4
        by (auto simp: snapshot_entry_def andthen_def Let_def give_def refuse_def x1_def x0_def split: sum.splits if_splits)
      have "recorded (content e) x1" "se_path x1 = st_path t"
        using known False by (auto simp: recorded_def x1_def x0_def)
      then show ?thesis
        using assms later unfolding run by (auto split: sum.splits if_splits)
    qed
  qed
  then show "q \<noteq> b \<Longrightarrow> content e' q = content e q" "r = Inr x \<Longrightarrow> recorded (content e) x \<and> se_path x = st_path t"
    by blast+
qed

lemma snapshot_content:
  assumes "snapshot_from ops ts d i e = (r, e')" "\<forall>t \<in> set ts. \<forall>j. st_path t \<noteq> settings_backup d j"
  shows "(\<forall>q. (\<forall>j. q \<noteq> settings_backup d j) \<longrightarrow> content e' q = content e q) \<and>
    (\<forall>S. r = Inr S \<longrightarrow> (\<forall>x \<in> set S. recorded (content e) x \<and> se_path x \<in> st_path ` set ts))"
  using assms
proof (induction ts arbitrary: i e r e')
  case (Cons t ts)
  obtain q e1 where q: "snapshot_entry ops t (settings_backup d i) e = (q, e1)"
    by fastforce
  note one = snapshot_entry_content [OF q]
  show ?case
  proof (cases q)
    case (Inl f)
    then show ?thesis
      using Cons.prems(1) q one(1) by (auto simp: andthen_def)
  next
    case (Inr x)
    obtain q2 e2 where q2: "snapshot_from ops ts d (i + 1) e1 = (q2, e2)"
      by fastforce
    have e': "e' = e2"
      using Cons.prems(1) q q2 Inr by (auto simp: andthen_def give_def split: sum.splits)
    note ih = Cons.IH [OF q2]
    have same: "content e1 p = content e p" if "\<forall>j. p \<noteq> settings_backup d j" for p
      using one(1) [of p] that by blast
    have kept: "recorded (content e) y \<and> se_path y \<in> st_path ` set (t # ts)" if "y \<in> set S" "q2 = Inr S" for y S
    proof -
      have y: "recorded (content e1) y" "se_path y \<in> st_path ` set ts"
        using ih Cons.prems(2) that by simp_all
      then obtain t' where "t' \<in> set ts" "se_path y = st_path t'"
        by blast
      then have "content e1 (se_path y) = content e (se_path y)"
        using Cons.prems(2) by (intro same) simp
      then show ?thesis
        using y by (simp add: recorded_def)
    qed
    moreover have "recorded (content e) x \<and> se_path x \<in> st_path ` set (t # ts)"
      using one(2) Inr by simp
    moreover have "\<exists>S. q2 = Inr S \<and> S' = x # S" if "r = Inr S'" for S'
      using Cons.prems(1) q q2 Inr that by (auto simp: andthen_def give_def split: sum.splits)
    moreover have "\<forall>p. (\<forall>j. p \<noteq> settings_backup d j) \<longrightarrow> content e' p = content e p"
      using ih Cons.prems(2) same e' by simp
    ultimately show ?thesis
      by fastforce
  qed
qed (simp add: give_def)

text \<open>Snapshot, removal and restoration leave every setting as it was, as far as the hash tells.\<close>

lemma rollback:
  assumes taken: "snapshot_settings ops targets d e = (Inr S, e1)" and free: "\<forall>t \<in> set targets. \<forall>j. st_path t \<noteq> settings_backup d j"
    and remove: "remove_settings ops S e1 = (r, S1, e2)" and restore: "restore_settings ops S1 e2 = (Inr u, S2, e3)"
    and p: "\<forall>j. p \<noteq> settings_backup d j"
  shows "map_option digest (content e3 p) = map_option digest (content e p)"
proof -
  have snapshot: "content e1 q = content e q" if "\<forall>j. q \<noteq> settings_backup d j" for q
    using snapshot_content [OF taken [unfolded snapshot_settings_def] free] that by blast
  have known: "recorded (content e) x" if "x \<in> set S" for x
    using snapshot_content [OF taken [unfolded snapshot_settings_def] free] that by blast
  then have "\<forall>x \<in> set S. \<not> se_removed x"
    by (simp add: recorded_def)
  note removal = remove_settings_content [OF remove this]
  obtain c where c: "restore_entries ops S1 [] e2 = (c, S2, e3)" "c = []"
    using restore by (auto simp: restore_settings_def split: prod.splits if_splits)
  have S1: "recorded (content e) (unmarked x)" if "x \<in> set S1" for x
  proof -
    have "unmarked x \<in> set (map unmarked S1)"
      using that by simp
    then show ?thesis
      using removal known by auto
  qed
  then have "\<forall>x \<in> set S1. se_path x \<noteq> []"
    by (auto simp: recorded_def unmarked_def)
  with restore_entries_content [OF c(1)] c(2)
  have restored: "\<forall>x \<in> set S1. se_removed x \<longrightarrow> (\<exists>kb. content e3 (se_path x) = Some kb \<and> digest kb = se_prior_hash x)"
    and other: "(\<forall>x \<in> set S1. se_removed x \<longrightarrow> p \<noteq> se_path x) \<longrightarrow> content e3 p = content e2 p"
    by blast+
  show ?thesis
  proof (cases "p \<in> removed_paths S1")
    case True
    then obtain x where x: "x \<in> set S1" "se_removed x" "p = se_path x"
      by (auto simp: removed_paths_def)
    then have "se_existed x"
      using removal by blast
    then obtain bs where "content e p = Some bs" "digest bs = se_prior_hash x"
      using S1 [OF x(1)] x(3) by (auto simp: recorded_def unmarked_def)
    moreover obtain kb where "content e3 p = Some kb" "digest kb = se_prior_hash x"
      using restored x by blast
    ultimately show ?thesis
      by simp
  next
    case False
    then have "content e3 p = content e2 p"
      using other by (auto simp: removed_paths_def)
    moreover have "content e2 p = content e1 p"
      using removal False by simp
    ultimately show ?thesis
      using snapshot [OF p] by simp
  qed
qed

lemma restore_keeps_files:
  assumes "restore_settings ops S e = (r, S', e')" "content e p = Some bs"
  shows "content e' p = Some bs"
proof -
  obtain c where "restore_entries ops S [] e = (c, S', e')"
    using assms(1) by (auto simp: restore_settings_def split: prod.splits)
  from restore_entries_content [OF this] show ?thesis
    using assms(2) by blast
qed

end

text \<open>C26: Setup's rollback of saved settings: when the snapshot succeeded and the restoration reports no
  conflict, then whatever the removal did in between - complete, or broken off anywhere - every file has
  the hash it had before the snapshot, and no file appeared or disappeared, the snapshot's own backups aside.\<close>

theorem settings_rolled_back:
  assumes "lawful_files ops content digest"
    and "snapshot_settings ops targets d e = (Inr S, e1)" "\<forall>t \<in> set targets. \<forall>j. st_path t \<noteq> settings_backup d j"
    and "remove_settings ops S e1 = (r, S1, e2)" "restore_settings ops S1 e2 = (Inr u, S2, e3)"
    and "\<forall>j. p \<noteq> settings_backup d j"
  shows "map_option digest (content e3 p) = map_option digest (content e p)"
  by (rule lawful_files.rollback [OF assms])

text \<open>The restoration never overwrites a file that some other writer created meanwhile.\<close>

theorem restore_never_overwrites:
  assumes "lawful_files ops content digest" "restore_settings ops S e = (r, S', e')" "content e p = Some bs"
  shows "content e' p = Some bs"
  by (rule lawful_files.restore_keeps_files [OF assms])

text \<open>Two settings, one of which exists.\<close>

definition ini_path :: string where "ini_path = ''C:/S'' @ [backslash] @ ''a.ini''"
definition missing_path :: string where "missing_path = ''C:/S'' @ [backslash] @ ''b.ini''"

definition ini_targets :: "settings_target list" where
  "ini_targets = [\<lparr>st_path = ini_path, st_root = ''C:/S''\<rparr>, \<lparr>st_path = missing_path, st_root = ''C:/S''\<rparr>]"

definition ini_disk :: disk where
  "ini_disk = \<lparr>dk_files = [ini_path \<mapsto> [0x61, 0x62]], dk_fails = []\<rparr>"

lemma ini_run:
  "case snapshot_settings disk_ops ini_targets ''D:/B'' ini_disk of
     (Inr S, d1) \<Rightarrow> (case remove_settings disk_ops S d1 of (r, S1, d2) \<Rightarrow>
       (case restore_settings disk_ops S1 d2 of (q, S2, d3) \<Rightarrow> dk_files d2 ini_path = None \<and> q = Inr ()))
   | _ \<Rightarrow> False"
  by code_simp

lemma ini_apart: "ini_path \<noteq> settings_backup ''D:/B'' j" "missing_path \<noteq> settings_backup ''D:/B'' j"
  by (simp_all add: ini_path_def missing_path_def settings_backup_def join_def separator_def backslash_def)

lemma settings_rolled_back_witness:
  "\<exists>S d1 r S1 d2 q S2 d3. snapshot_settings disk_ops ini_targets ''D:/B'' ini_disk = (Inr S, d1) \<and>
     remove_settings disk_ops S d1 = (r, S1, d2) \<and> restore_settings disk_ops S1 d2 = (q, S2, d3) \<and>
     dk_files d2 ini_path = None \<and> map_option simple_digest (dk_files d3 ini_path) = Some ''ab''"
proof -
  obtain q0 d1 where snap: "snapshot_settings disk_ops ini_targets ''D:/B'' ini_disk = (q0, d1)"
    by fastforce
  then obtain S where S: "q0 = Inr S"
    using ini_run by (cases q0) simp_all
  obtain r S1 d2 where remove: "remove_settings disk_ops S d1 = (r, S1, d2)"
    by (metis prod_cases3)
  obtain q S2 d3 where restore: "restore_settings disk_ops S1 d2 = (q, S2, d3)"
    by (metis prod_cases3)
  have gone: "dk_files d2 ini_path = None" "q = Inr ()"
    using ini_run by (simp_all add: snap S remove restore)
  have free: "\<forall>t \<in> set ini_targets. \<forall>j. st_path t \<noteq> settings_backup ''D:/B'' j"
    by (simp add: ini_targets_def ini_apart)
  have "map_option simple_digest (dk_files d3 ini_path) = map_option simple_digest (dk_files ini_disk ini_path)"
    using ini_apart(1) by (intro settings_rolled_back [OF disk.lawful_files_axioms snap [unfolded S] free remove restore [unfolded gone(2)]]) simp
  also have "\<dots> = Some ''ab''"
    by (simp add: ini_disk_def simple_digest_def) code_simp
  finally show ?thesis
    using snap S remove restore gone(1) by blast
qed

end
