(* ===== verification/Taxi_Buttons.thy ===== *)
theory Taxi_Buttons
  imports Prelude
begin

text \<open>
  The cockpit TAXI buttons.  \<open>src/camera/taxi_button_command.hpp\<close>: the dispatcher of the user's button
  requests, which sends toggles to the aircraft and waits for a later observation of the latch before it
  sends another one; with the loop of \<open>src/camera/body_pose_provider.cpp\<close> that rechecks a decision
  before every transmission.  \<open>src/graphics/taxi_button_routes.hpp\<close>: the bounded holding of the last
  observed intent, and the textures the display sides draw on.
\<close>

subsection \<open>Display sides\<close>

definition max_display_sides :: nat where "max_display_sides = 3"
definition all_display_sides :: u32 where "all_display_sides = 7"

subsection \<open>Requests and the dispatcher's state\<close>

record button_request =
  br_serial :: u64
  br_epoch :: u64
  br_profile :: u32
  br_selected :: u32
  br_desired :: u32

record request_status =
  rq_serial :: u64
  rq_pending :: u32
  rq_failed :: bool
  rq_error :: string

record button_context =
  bx_now :: u64
  bx_epoch :: u64
  bx_sample_ms :: u64
  bx_profile :: u32
  bx_actual :: u32
  bx_identity_valid :: bool
  bx_buttons_valid :: bool
  bx_aircraft_buttons :: bool

record button_decision =
  bd_send :: u32
  bd_desired :: u32
  bd_serial :: u64
  bd_sample_ms :: u64

record flight =
  fl_active :: bool
  fl_desired :: bool
  fl_sample_ms :: u64
  fl_sent_ms :: u64
  fl_serial :: u64

definition no_flight :: flight where
  "no_flight = \<lparr>fl_active = False, fl_desired = False, fl_sample_ms = 0, fl_sent_ms = 0, fl_serial = 0\<rparr>"

record button_command =
  bc_latest :: button_request
  bc_status :: request_status
  bc_flights :: "flight list"
  bc_permission_ms :: u64
  bc_started_ms :: u64
  bc_permission :: bool

definition new_command :: button_command where
  "new_command = \<lparr>bc_latest = \<lparr>br_serial = 0, br_epoch = 0, br_profile = 0, br_selected = 0, br_desired = 0\<rparr>,
     bc_status = \<lparr>rq_serial = 0, rq_pending = 0, rq_failed = False, rq_error = []\<rparr>,
     bc_flights = replicate max_display_sides no_flight,
     bc_permission_ms = 0, bc_started_ms = 0, bc_permission = False\<rparr>"

definition permission_age_ms :: u64 where "permission_age_ms = 500"
definition request_lifetime_ms :: u64 where "request_lifetime_ms = 3000"

abbreviation pending_of :: "button_command \<Rightarrow> u32" where
  "pending_of c \<equiv> rq_pending (bc_status c)"

subsection \<open>Operations\<close>

definition reject :: "string \<Rightarrow> button_command \<Rightarrow> button_command" where
  "reject err c = c\<lparr>bc_status := (bc_status c)\<lparr>rq_pending := 0, rq_failed := True, rq_error := err\<rparr>\<rparr>"

definition fail :: "string \<Rightarrow> button_command \<Rightarrow> button_command" where
  "fail err c = (if pending_of c \<noteq> 0 then reject err c else c)"

definition update :: "button_request \<Rightarrow> bool \<Rightarrow> u64 \<Rightarrow> u64 \<Rightarrow> u32 \<Rightarrow> bool \<Rightarrow> button_command \<Rightarrow> button_command" where
  "update request permitted now epoch profile aircraft_buttons c0 =
     (let c1 = c0\<lparr>bc_permission := permitted, bc_permission_ms := now\<rparr>;
          c = (if permitted then c1 else fail ''taxi_request_not_permitted'' c1)
      in if br_serial request = 0 then fail ''taxi_request_cancelled'' c
         else if br_serial request \<le> br_serial (bc_latest c) then
           (if br_serial request = br_serial (bc_latest c) \<and> request \<noteq> bc_latest c
            then fail ''taxi_request_changed'' c else c)
         else let t = c\<lparr>bc_latest := request,
                         bc_status := \<lparr>rq_serial = br_serial request, rq_pending = br_selected request,
                                       rq_failed = False, rq_error = []\<rparr>,
                         bc_started_ms := now\<rparr>
              in if br_selected request AND NOT all_display_sides \<noteq> 0 \<or>
                    br_desired request AND NOT (br_selected request) \<noteq> 0 then reject ''taxi_request_invalid'' t
                 else if br_selected request = 0 then t
                 else if \<not> permitted then reject ''taxi_request_not_permitted'' t
                 else if \<not> aircraft_buttons then reject ''taxi_buttons_unavailable_use_manual_control'' t
                 else if epoch = 0 \<or> br_epoch request \<noteq> epoch \<or> br_profile request \<noteq> profile
                   then reject ''taxi_request_session_changed'' t
                 else t)"

definition reset_session :: "button_command \<Rightarrow> button_command" where
  "reset_session c = (fail ''taxi_request_session_changed'' c)
     \<lparr>bc_permission := False, bc_flights := replicate max_display_sides no_flight\<rparr>"

text \<open>The three checks at the head of a step.\<close>

definition expire :: "button_context \<Rightarrow> button_command \<Rightarrow> button_command" where
  "expire x c0 =
     (let c1 = (if \<not> bc_permission c0 \<or> bx_now x < bc_permission_ms c0 \<or>
                   bx_now x - bc_permission_ms c0 > permission_age_ms
                then fail ''taxi_request_permission_expired'' c0 else c0);
          c2 = (if pending_of c1 \<noteq> 0 \<and> (br_epoch (bc_latest c1) \<noteq> bx_epoch x \<or>
                   br_profile (bc_latest c1) \<noteq> bx_profile x \<or> \<not> bx_aircraft_buttons x)
                then fail ''taxi_request_session_changed'' c1 else c1)
      in if pending_of c2 \<noteq> 0 \<and> (bx_now x < bc_started_ms c2 \<or> bx_now x - bc_started_ms c2 \<ge> request_lifetime_ms)
         then fail ''taxi_request_ack_timeout'' c2 else c2)"

definition buttons_fresh :: "button_context \<Rightarrow> bool" where
  "buttons_fresh x \<longleftrightarrow> bx_buttons_valid x \<and> bx_sample_ms x \<noteq> 0 \<and> bx_now x \<ge> bx_sample_ms x \<and>
     bx_now x - bx_sample_ms x \<le> permission_age_ms"

definition acknowledged :: "button_context \<Rightarrow> nat \<Rightarrow> flight \<Rightarrow> bool" where
  "acknowledged x side fl \<longleftrightarrow> fl_active fl \<and> bx_sample_ms x > fl_sample_ms fl \<and>
     bx_sample_ms x > fl_sent_ms fl \<and> bit (bx_actual x) side = fl_desired fl"

text \<open>One pass of the loop over the sides.\<close>

definition step_side :: "button_context \<Rightarrow> nat \<Rightarrow> button_command \<times> button_decision \<Rightarrow> button_command \<times> button_decision" where
  "step_side x side cd =
     (case cd of (c, d) \<Rightarrow>
        let fl = (if acknowledged x side (bc_flights c ! side) then no_flight else bc_flights c ! side);
            c1 = c\<lparr>bc_flights := (bc_flights c)[side := fl]\<rparr>;
            desired = bit (br_desired (bc_latest c)) side
        in if fl_active fl \<or> \<not> bit (pending_of c) side then (c1, d)
           else if bit (bx_actual x) side = desired
             then (c1\<lparr>bc_status := (bc_status c1)\<lparr>rq_pending := unset_bit side (pending_of c)\<rparr>\<rparr>, d)
           else (c1, d\<lparr>bd_send := set_bit side (bd_send d),
                       bd_desired := (if desired then set_bit side (bd_desired d) else bd_desired d)\<rparr>))"

definition no_decision :: "button_context \<Rightarrow> button_command \<Rightarrow> button_decision" where
  "no_decision x c = \<lparr>bd_send = 0, bd_desired = 0, bd_serial = rq_serial (bc_status c), bd_sample_ms = bx_sample_ms x\<rparr>"

definition step :: "button_context \<Rightarrow> button_command \<Rightarrow> button_command \<times> button_decision" where
  "step x c0 =
     (let c = expire x c0; d = no_decision x c0
      in if \<not> bx_identity_valid x \<or> \<not> buttons_fresh x \<or> \<not> bx_aircraft_buttons x then (c, d)
         else fold (step_side x) [0..<max_display_sides] (c, d))"

definition current :: "button_decision \<Rightarrow> nat \<Rightarrow> u64 \<Rightarrow> button_command \<Rightarrow> bool" where
  "current d side now c \<longleftrightarrow>
     \<not> (side \<ge> max_display_sides \<or> \<not> bit (bd_send d) side \<or> fl_active (bc_flights c ! side)) \<and>
     bc_permission c \<and> now \<ge> bc_permission_ms c \<and> now - bc_permission_ms c \<le> permission_age_ms \<and>
     bd_serial d = rq_serial (bc_status c) \<and> bit (pending_of c) side"

definition sent :: "button_decision \<Rightarrow> nat \<Rightarrow> bool \<Rightarrow> u64 \<Rightarrow> button_command \<Rightarrow> button_command" where
  "sent d side accepted now c =
     (if side \<ge> max_display_sides \<or> \<not> bit (bd_send d) side then c
      else if accepted then
        c\<lparr>bc_flights := (bc_flights c)[side := \<lparr>fl_active = True, fl_desired = bit (bd_desired d) side,
            fl_sample_ms = bd_sample_ms d, fl_sent_ms = now, fl_serial = bd_serial d\<rparr>]\<rparr>
      else if bd_serial d = rq_serial (bc_status c) then fail ''taxi_button_command_failed'' c
      else c)"

definition rejected :: "nat \<Rightarrow> button_command \<Rightarrow> button_command" where
  "rejected side c =
     (if side < max_display_sides \<and> fl_active (bc_flights c ! side) then
        let serial = fl_serial (bc_flights c ! side);
            c1 = c\<lparr>bc_flights := (bc_flights c)[side := no_flight]\<rparr>
        in if serial = rq_serial (bc_status c) then fail ''taxi_button_command_rejected'' c1 else c1
      else c)"

subsection \<open>The provider's loop\<close>

text \<open>
  The provider keeps the decision of the current turn of its loop.  For every side of it that is still
  current under the lock, and while the session, identity and readiness conditions (\<open>admitted\<close>) hold,
  it transmits; the simulator accepts or refuses the call.  \<open>dp_log\<close> lists the transmissions with the
  side, the position asked for and whether the call was accepted.
\<close>

record dispatcher =
  dp_command :: button_command
  dp_decision :: button_decision
  dp_log :: "(nat \<times> bool \<times> bool) list"

definition new_dispatcher :: dispatcher where
  "new_dispatcher = \<lparr>dp_command = new_command,
     dp_decision = \<lparr>bd_send = 0, bd_desired = 0, bd_serial = 0, bd_sample_ms = 0\<rparr>, dp_log = []\<rparr>"

datatype button_event =
  User_Request button_request bool u64 u64 u32 bool
| Session_Reset
| Loop_Step button_context
| Transmit nat u64 bool bool u64
| Simulator_Rejection nat

definition transmit :: "nat \<Rightarrow> u64 \<Rightarrow> bool \<Rightarrow> bool \<Rightarrow> u64 \<Rightarrow> dispatcher \<Rightarrow> dispatcher" where
  "transmit side send_now admitted accepted now p =
     (if \<not> bit (bd_send (dp_decision p)) side then p
      else if \<not> (current (dp_decision p) side send_now (dp_command p) \<and> admitted) then p
      else p\<lparr>dp_command := sent (dp_decision p) side accepted now (dp_command p),
             dp_log := dp_log p @ [(side, bit (bd_desired (dp_decision p)) side, accepted)]\<rparr>)"

fun dispatch :: "button_event \<Rightarrow> dispatcher \<Rightarrow> dispatcher" where
  "dispatch (User_Request r permitted now epoch profile aircraft) p =
     p\<lparr>dp_command := update r permitted now epoch profile aircraft (dp_command p)\<rparr>"
| "dispatch Session_Reset p = p\<lparr>dp_command := reset_session (dp_command p)\<rparr>"
| "dispatch (Loop_Step x) p = (case step x (dp_command p) of (c, d) \<Rightarrow> p\<lparr>dp_command := c, dp_decision := d\<rparr>)"
| "dispatch (Transmit side send_now admitted accepted now) p = transmit side send_now admitted accepted now p"
| "dispatch (Simulator_Rejection side) p = p\<lparr>dp_command := rejected side (dp_command p)\<rparr>"

subsection \<open>The holding of the observed intent\<close>

record intent_snapshot =
  is_buttons :: u32
  is_held :: bool
  is_timed_out :: bool

record button_intent =
  bi_known :: bool
  bi_gap :: bool
  bi_expired :: bool
  bi_buttons :: u32
  bi_gap_started :: u64

definition gap_grace_ms :: u64 where "gap_grace_ms = 2000"

definition new_intent :: button_intent where
  "new_intent = \<lparr>bi_known = False, bi_gap = False, bi_expired = False, bi_buttons = 0, bi_gap_started = 0\<rparr>"

definition observe_intent :: "u64 \<Rightarrow> bool \<Rightarrow> u32 \<Rightarrow> button_intent \<Rightarrow> button_intent \<times> intent_snapshot" where
  "observe_intent now valid buttons b =
     (if valid then
        let b1 = b\<lparr>bi_known := True, bi_gap := False, bi_expired := False, bi_buttons := buttons AND all_display_sides\<rparr>
        in (b1, \<lparr>is_buttons = bi_buttons b1, is_held = False, is_timed_out = False\<rparr>)
      else if \<not> bi_known b then (b, \<lparr>is_buttons = 0, is_held = False, is_timed_out = False\<rparr>)
      else
        let b1 = (if bi_gap b then b else b\<lparr>bi_gap := True, bi_gap_started := now\<rparr>)
        in if bi_expired b1 \<or> now < bi_gap_started b1 \<or> now - bi_gap_started b1 \<ge> gap_grace_ms
           then (b1\<lparr>bi_expired := True\<rparr>, \<lparr>is_buttons = 0, is_held = False, is_timed_out = True\<rparr>)
           else (b1, \<lparr>is_buttons = bi_buttons b1, is_held = True, is_timed_out = False\<rparr>))"

subsection \<open>The textures of the sides\<close>

record routes =
  rt_targets :: "u64 list"
  rt_lower_explicit :: bool
  rt_named :: "u64 list"

definition new_routes :: routes where
  "new_routes = \<lparr>rt_targets = replicate max_display_sides 0, rt_lower_explicit = False,
     rt_named = replicate max_display_sides 0\<rparr>"

definition select_explicit :: "u64 \<Rightarrow> u64 \<Rightarrow> routes \<Rightarrow> bool \<times> routes" where
  "select_explicit left_id right_id t =
     (if left_id \<noteq> 0 \<and> left_id = right_id then (False, t)
      else (True, t\<lparr>rt_targets := [left_id, right_id, rt_targets t ! 2]\<rparr>))"

definition select_single :: "u64 \<Rightarrow> bool \<Rightarrow> routes \<Rightarrow> bool \<times> routes" where
  "select_single i separate_lower t =
     (if separate_lower then
        (if i \<noteq> 0 \<and> i = rt_targets t ! 2 then (False, t)
         else (True, t\<lparr>rt_targets := (rt_targets t)[0 := i, 1 := i]\<rparr>))
      else (True, t\<lparr>rt_targets := [i, i, i], rt_lower_explicit := False\<rparr>))"

definition select_lower :: "u64 \<Rightarrow> routes \<Rightarrow> bool \<times> routes" where
  "select_lower i t =
     (if i \<noteq> 0 \<and> (i = rt_targets t ! 0 \<or> i = rt_targets t ! 1) then (False, t)
      else (True, t\<lparr>rt_targets := (rt_targets t)[2 := i], rt_lower_explicit := (i \<noteq> 0)\<rparr>))"

definition assign_side :: "nat \<Rightarrow> u64 \<Rightarrow> routes \<Rightarrow> bool \<times> routes" where
  "assign_side side i t =
     (if side \<ge> 2 \<or> i = 0 \<or> rt_targets t ! (1 - side) = i then (False, t)
      else (True, t\<lparr>rt_targets := (rt_targets t)[side := i]\<rparr>))"

definition chosen :: "routes \<Rightarrow> nat \<Rightarrow> bool" where
  "chosen t side \<longleftrightarrow> (side = 2 \<and> rt_lower_explicit t) \<or>
     (rt_targets t ! side \<noteq> 0 \<and> rt_targets t ! side \<noteq> rt_named t ! side)"

text \<open>One pass of the adoption loop; \<open>user\<close> holds the choices as they were before it.\<close>

definition held_elsewhere :: "bool list \<Rightarrow> u64 list \<Rightarrow> nat \<Rightarrow> u64 list \<Rightarrow> bool" where
  "held_elsewhere user named_ids side targets \<longleftrightarrow>
     list_ex (\<lambda>other. other \<noteq> side \<and> user ! other \<and> targets ! other = named_ids ! side \<and>
        named_ids ! other \<noteq> named_ids ! side) [0..<max_display_sides]"

definition adopt_side :: "bool list \<Rightarrow> u64 list \<Rightarrow> nat \<Rightarrow> bool \<times> routes \<Rightarrow> bool \<times> routes" where
  "adopt_side user named_ids side ct =
     (case ct of (changed, t) \<Rightarrow>
        if named_ids ! side = 0 \<or> rt_targets t ! side = named_ids ! side \<or> user ! side then (changed, t)
        else if held_elsewhere user named_ids side (rt_targets t) then (changed, t)
        else (True, t\<lparr>rt_targets := (rt_targets t)[side := named_ids ! side],
                      rt_named := (rt_named t)[side := named_ids ! side]\<rparr>))"

definition adopt_named :: "u64 list \<Rightarrow> nat \<Rightarrow> routes \<Rightarrow> bool \<times> routes" where
  "adopt_named named_ids sides t =
     fold (adopt_side (map (chosen t) [0..<max_display_sides]) named_ids) [0..<min sides max_display_sides] (False, t)"

definition route_named :: "nat \<Rightarrow> routes \<Rightarrow> bool" where
  "route_named side t \<longleftrightarrow> side < max_display_sides \<and> rt_targets t ! side \<noteq> 0 \<and> rt_targets t ! side = rt_named t ! side"

definition forget_side :: "u64 \<Rightarrow> nat \<Rightarrow> routes \<Rightarrow> routes" where
  "forget_side i side t =
     (if rt_targets t ! side = i then
        t\<lparr>rt_targets := (rt_targets t)[side := 0], rt_named := (rt_named t)[side := 0],
          rt_lower_explicit := (if side = 2 then False else rt_lower_explicit t)\<rparr>
      else t)"

definition forget :: "u64 \<Rightarrow> routes \<Rightarrow> routes" where
  "forget i t = fold (forget_side i) [0..<max_display_sides] t"

definition assigned_mask :: "routes \<Rightarrow> u32" where
  "assigned_mask t =
     fold (\<lambda>side mask. mask OR (if rt_targets t ! side \<noteq> 0 then push_bit side 1 else 0)) [0..<max_display_sides] 0"

definition active_mask :: "bool \<Rightarrow> u32 \<Rightarrow> routes \<Rightarrow> u32" where
  "active_mask valid buttons t = (if valid then buttons AND assigned_mask t else 0)"

definition matches :: "u64 \<Rightarrow> u32 \<Rightarrow> routes \<Rightarrow> bool" where
  "matches i wanted t \<longleftrightarrow> i \<noteq> 0 \<and>
     list_ex (\<lambda>side. bit wanted side \<and> rt_targets t ! side = i) [0..<max_display_sides]"
subsection \<open>Facts about the operations\<close>

lemma sides_list: "[0..<max_display_sides] = [0, 1, 2]"
  by (simp add: max_display_sides_def upt_rec)

lemma side_cases: "side < max_display_sides \<Longrightarrow> side = 0 \<or> side = 1 \<or> side = 2"
  by (auto simp: max_display_sides_def)

named_theorems command_fields \<open>what the operations leave alone\<close>

lemma reject_fields [command_fields]:
  "bc_latest (reject e c) = bc_latest c" "bc_flights (reject e c) = bc_flights c"
  "rq_serial (bc_status (reject e c)) = rq_serial (bc_status c)" "pending_of (reject e c) = 0"
  "bc_permission (reject e c) = bc_permission c" "bc_permission_ms (reject e c) = bc_permission_ms c"
  "bc_started_ms (reject e c) = bc_started_ms c"
  by (simp_all add: reject_def)

lemma fail_fields [command_fields]:
  "bc_latest (fail e c) = bc_latest c" "bc_flights (fail e c) = bc_flights c"
  "rq_serial (bc_status (fail e c)) = rq_serial (bc_status c)" "pending_of (fail e c) = 0"
  "bc_permission (fail e c) = bc_permission c" "bc_permission_ms (fail e c) = bc_permission_ms c"
  "bc_started_ms (fail e c) = bc_started_ms c"
  by (simp_all add: fail_def command_fields)

lemma expire_fields [command_fields]:
  "bc_latest (expire x c) = bc_latest c" "bc_flights (expire x c) = bc_flights c"
  "rq_serial (bc_status (expire x c)) = rq_serial (bc_status c)"
  "bc_permission (expire x c) = bc_permission c" "bc_permission_ms (expire x c) = bc_permission_ms c"
  "bc_started_ms (expire x c) = bc_started_ms c"
  by (simp_all add: expire_def Let_def command_fields)

text \<open>A pending request survives the head of a step only while it is permitted, current and young.\<close>

definition request_live :: "button_context \<Rightarrow> button_command \<Rightarrow> bool" where
  "request_live x c \<longleftrightarrow>
     bc_permission c \<and> bx_now x \<ge> bc_permission_ms c \<and> bx_now x - bc_permission_ms c \<le> permission_age_ms \<and>
     br_epoch (bc_latest c) = bx_epoch x \<and> br_profile (bc_latest c) = bx_profile x \<and> bx_aircraft_buttons x \<and>
     bx_now x \<ge> bc_started_ms c \<and> bx_now x - bc_started_ms c < request_lifetime_ms"

lemma expire_pending: "pending_of (expire x c) = (if request_live x c then pending_of c else 0)"
  unfolding expire_def request_live_def Let_def
  by (auto simp: command_fields not_less not_le)

lemma expire_live: "request_live x c \<Longrightarrow> expire x c = c"
  unfolding expire_def request_live_def Let_def by (auto simp: leD)

lemma step_side_fields [command_fields]:
  "bc_latest (fst (step_side x side cd)) = bc_latest (fst cd)"
  "rq_serial (bc_status (fst (step_side x side cd))) = rq_serial (bc_status (fst cd))"
  "length (bc_flights (fst (step_side x side cd))) = length (bc_flights (fst cd))"
  "bc_permission (fst (step_side x side cd)) = bc_permission (fst cd)"
  "bc_permission_ms (fst (step_side x side cd)) = bc_permission_ms (fst cd)"
  "bc_started_ms (fst (step_side x side cd)) = bc_started_ms (fst cd)"
  "rq_failed (bc_status (fst (step_side x side cd))) = rq_failed (bc_status (fst cd))"
  by (simp_all add: step_side_def Let_def split: prod.splits)

lemma step_side_flight:
  "side < length (bc_flights (fst cd)) \<Longrightarrow>
   bc_flights (fst (step_side x side cd)) = (bc_flights (fst cd))[side :=
     (if acknowledged x side (bc_flights (fst cd) ! side) then no_flight else bc_flights (fst cd) ! side)]"
  by (auto simp: step_side_def Let_def split: prod.splits)

definition step_runs :: "button_context \<Rightarrow> bool" where
  "step_runs x \<longleftrightarrow> bx_identity_valid x \<and> buttons_fresh x \<and> bx_aircraft_buttons x"

lemma step_unfold:
  "step x c = (if step_runs x then step_side x 2 (step_side x 1 (step_side x 0 (expire x c, no_decision x c)))
               else (expire x c, no_decision x c))"
  by (auto simp: step_def Let_def step_runs_def sides_list)

lemma step_fields [command_fields]:
  "bc_latest (fst (step x c)) = bc_latest c"
  "rq_serial (bc_status (fst (step x c))) = rq_serial (bc_status c)"
  "length (bc_flights (fst (step x c))) = length (bc_flights c)"
  "bc_permission (fst (step x c)) = bc_permission c"
  "bc_permission_ms (fst (step x c)) = bc_permission_ms c"
  "bc_started_ms (fst (step x c)) = bc_started_ms c"
  by (simp_all add: step_unfold command_fields)

lemma step_flight:
  assumes "side < max_display_sides" and "length (bc_flights c) = max_display_sides"
  shows "bc_flights (fst (step x c)) ! side =
    (if step_runs x \<and> acknowledged x side (bc_flights c ! side) then no_flight else bc_flights c ! side)"
  using assms(2) side_cases [OF assms(1)]
  by (auto simp: step_unfold step_side_flight command_fields max_display_sides_def)

lemma reset_session_fields [command_fields]:
  "bc_latest (reset_session c) = bc_latest c"
  "rq_serial (bc_status (reset_session c)) = rq_serial (bc_status c)"
  "length (bc_flights (reset_session c)) = max_display_sides" "pending_of (reset_session c) = 0"
  by (simp_all add: reset_session_def command_fields)

lemma sent_fields [command_fields]:
  "bc_latest (sent d side accepted now c) = bc_latest c"
  "rq_serial (bc_status (sent d side accepted now c)) = rq_serial (bc_status c)"
  "length (bc_flights (sent d side accepted now c)) = length (bc_flights c)"
  by (simp_all add: sent_def command_fields)

lemma rejected_fields [command_fields]:
  "bc_latest (rejected side c) = bc_latest c"
  "rq_serial (bc_status (rejected side c)) = rq_serial (bc_status c)"
  "length (bc_flights (rejected side c)) = length (bc_flights c)"
  by (simp_all add: rejected_def Let_def command_fields)

lemma update_fields [command_fields]:
  "bc_flights (update r permitted now epoch profile aircraft c) = bc_flights c"
  "bc_latest (update r permitted now epoch profile aircraft c) =
     (if br_serial (bc_latest c) < br_serial r then r else bc_latest c)"
  "rq_serial (bc_status c) = br_serial (bc_latest c) \<Longrightarrow>
   rq_serial (bc_status (update r permitted now epoch profile aircraft c)) =
     br_serial (bc_latest (update r permitted now epoch profile aircraft c))"
  by (auto simp: update_def Let_def command_fields not_less)


text \<open>The bits of the request and of the decision after one side, and after a whole step.\<close>

definition seen_flight :: "button_context \<Rightarrow> nat \<Rightarrow> button_command \<Rightarrow> flight" where
  "seen_flight x side c =
     (if acknowledged x side (bc_flights c ! side) then no_flight else bc_flights c ! side)"

lemma step_side_bits:
  assumes "side < 32"
  shows "bit (pending_of (fst (step_side x side (c, d)))) n \<longleftrightarrow> bit (pending_of c) n \<and>
      \<not> (n = side \<and> \<not> fl_active (seen_flight x side c) \<and> bit (bx_actual x) side = bit (br_desired (bc_latest c)) side)"
    and "bit (bd_send (snd (step_side x side (c, d)))) n \<longleftrightarrow> bit (bd_send d) n \<or>
      n = side \<and> \<not> fl_active (seen_flight x side c) \<and> bit (pending_of c) side \<and>
      bit (bx_actual x) side \<noteq> bit (br_desired (bc_latest c)) side"
    and "bit (bd_desired (snd (step_side x side (c, d)))) n \<longleftrightarrow> bit (bd_desired d) n \<or>
      n = side \<and> \<not> fl_active (seen_flight x side c) \<and> bit (pending_of c) side \<and>
      bit (bx_actual x) side \<noteq> bit (br_desired (bc_latest c)) side \<and> bit (br_desired (bc_latest c)) side"
  using assms
  by (auto simp: step_side_def Let_def seen_flight_def [symmetric] bit_set_bit_iff bit_unset_bit_iff)

lemma step_side_other_flight:
  "side \<noteq> n \<Longrightarrow> bc_flights (fst (step_side x side cd)) ! n = bc_flights (fst cd) ! n"
  by (auto simp: step_side_def Let_def split: prod.splits)

lemma seen_flight_cong: "bc_flights c ! side = bc_flights c' ! side \<Longrightarrow> seen_flight x side c = seen_flight x side c'"
  by (simp add: seen_flight_def)

lemma seen_flight_later:
  "side \<noteq> n \<Longrightarrow> seen_flight x n (fst (step_side x side cd)) = seen_flight x n (fst cd)"
  by (rule seen_flight_cong) (rule step_side_other_flight)

lemmas step_side_bits' = step_side_bits [of side x "fst cd" "snd cd" for side x cd, unfolded prod.collapse]

lemma expire_seen: "seen_flight x side (expire x c) = seen_flight x side c"
  by (simp add: seen_flight_def command_fields)

lemma step_bits:
  assumes "step_runs x"
  shows "bit (pending_of (fst (step x c))) n \<longleftrightarrow> request_live x c \<and> bit (pending_of c) n \<and>
      (n < max_display_sides \<longrightarrow> fl_active (seen_flight x n c) \<or> bit (bx_actual x) n \<noteq> bit (br_desired (bc_latest c)) n)"
    and "bit (bd_send (snd (step x c))) n \<longleftrightarrow> n < max_display_sides \<and> request_live x c \<and> bit (pending_of c) n \<and>
      \<not> fl_active (seen_flight x n c) \<and> bit (bx_actual x) n \<noteq> bit (br_desired (bc_latest c)) n"
    and "bit (bd_desired (snd (step x c))) n \<longleftrightarrow> bit (bd_send (snd (step x c))) n \<and> bit (br_desired (bc_latest c)) n"
proof -
  have "n < max_display_sides \<longleftrightarrow> n = 0 \<or> n = 1 \<or> n = 2"
    by (auto simp: max_display_sides_def)
  note facts = this step_unfold assms step_side_bits' seen_flight_later expire_seen expire_pending no_decision_def
  show "bit (pending_of (fst (step x c))) n \<longleftrightarrow> request_live x c \<and> bit (pending_of c) n \<and>
      (n < max_display_sides \<longrightarrow> fl_active (seen_flight x n c) \<or> bit (bx_actual x) n \<noteq> bit (br_desired (bc_latest c)) n)"
    by (auto simp: facts command_fields)
  show "bit (bd_send (snd (step x c))) n \<longleftrightarrow> n < max_display_sides \<and> request_live x c \<and> bit (pending_of c) n \<and>
      \<not> fl_active (seen_flight x n c) \<and> bit (bx_actual x) n \<noteq> bit (br_desired (bc_latest c)) n"
    by (auto simp: facts command_fields)
  show "bit (bd_desired (snd (step x c))) n \<longleftrightarrow> bit (bd_send (snd (step x c))) n \<and> bit (br_desired (bc_latest c)) n"
    by (auto simp: facts command_fields)
qed

lemma step_idle:
  "\<not> step_runs x \<Longrightarrow> step x c = (expire x c, no_decision x c)"
  by (simp add: step_unfold)

lemma step_seen_flight:
  assumes "side < max_display_sides" and "length (bc_flights c) = max_display_sides" and "step_runs x"
  shows "bc_flights (fst (step x c)) ! side = seen_flight x side c"
  using step_flight [OF assms(1,2)] assms(3) by (simp add: seen_flight_def)

subsection \<open>The state the dispatcher keeps\<close>

text \<open>
  The status belongs to the latest request; what is pending was selected in it, for a session, with a
  desired position inside the selection; there is a flight slot for every side.
\<close>

definition command_ok :: "button_command \<Rightarrow> bool" where
  "command_ok c \<longleftrightarrow> length (bc_flights c) = max_display_sides \<and>
     rq_serial (bc_status c) = br_serial (bc_latest c) \<and>
     (\<forall>n. bit (pending_of c) n \<longrightarrow> bit (br_selected (bc_latest c)) n \<and> n < max_display_sides) \<and>
     (\<forall>n. pending_of c \<noteq> 0 \<longrightarrow> bit (br_desired (bc_latest c)) n \<longrightarrow> bit (br_selected (bc_latest c)) n) \<and>
     (pending_of c \<noteq> 0 \<longrightarrow> br_epoch (bc_latest c) \<noteq> 0 \<and> br_serial (bc_latest c) \<noteq> 0)"

lemma command_okI_kept:
  assumes "command_ok c" and "bc_latest c' = bc_latest c" and "rq_serial (bc_status c') = rq_serial (bc_status c)"
    and "length (bc_flights c') = length (bc_flights c)" and "\<And>n. bit (pending_of c') n \<Longrightarrow> bit (pending_of c) n"
  shows "command_ok c'"
proof -
  have "pending_of c' \<noteq> 0 \<Longrightarrow> pending_of c \<noteq> 0"
    using assms(5) by (metis bit_0_eq bit_eq_iff bot_apply bot_bool_def)
  then show ?thesis
    using assms unfolding command_ok_def by auto
qed

lemma subset_bits: "x AND NOT y = 0 \<longleftrightarrow> (\<forall>n. bit x n \<longrightarrow> bit y n)" for x y :: u32
proof
  assume h: "x AND NOT y = 0"
  show "\<forall>n. bit x n \<longrightarrow> bit y n"
  proof (intro allI impI)
    fix n assume "bit x n"
    then have "n < 32" using bit_imp_le_length by force
    from h have "\<not> bit (x AND NOT y) n" by simp
    with \<open>bit x n\<close> \<open>n < 32\<close> show "bit y n" by (simp add: bit_and_iff bit_not_iff)
  qed
next
  assume "\<forall>n. bit x n \<longrightarrow> bit y n"
  then show "x AND NOT y = 0" by (intro bit_word_eqI) (auto simp: bit_and_iff bit_not_iff)
qed

lemma all_sides_bit: "bit all_display_sides n \<longleftrightarrow> n < max_display_sides"
proof -
  have seven: "all_display_sides = mask 3"
    by (simp add: all_display_sides_def mask_eq_exp_minus_1)
  show ?thesis
    unfolding seven by (auto simp: bit_mask_iff max_display_sides_def)
qed

lemma update_pending:
  assumes "br_serial (bc_latest c) < br_serial r"
  shows "pending_of (update r permitted now epoch profile aircraft c) =
    (if br_selected r AND NOT all_display_sides = 0 \<and> br_desired r AND NOT (br_selected r) = 0 \<and>
        permitted \<and> aircraft \<and> epoch \<noteq> 0 \<and> br_epoch r = epoch \<and> br_profile r = profile
     then br_selected r else 0)"
proof -
  have "br_serial r \<noteq> 0"
    using assms by (metis word_not_simps(1))
  then show ?thesis
    using assms unfolding update_def Let_def by (auto simp: command_fields)
qed

lemma update_old_pending:
  assumes "br_serial r \<le> br_serial (bc_latest c)"
  shows "pending_of (update r permitted now epoch profile aircraft c) = pending_of c \<or>
         pending_of (update r permitted now epoch profile aircraft c) = 0"
  using assms unfolding update_def Let_def by (auto simp: command_fields)

lemma update_ok: "command_ok c \<Longrightarrow> command_ok (update r permitted now epoch profile aircraft c)"
proof (cases "br_serial (bc_latest c) < br_serial r")
  case True
  then have "br_serial r \<noteq> 0"
    by (metis word_not_simps(1))
  moreover assume "command_ok c"
  ultimately show ?thesis
    using True unfolding command_ok_def
    by (auto simp: update_pending command_fields subset_bits all_sides_bit split: if_splits)
next
  case False
  assume ok: "command_ok c"
  let ?u = "update r permitted now epoch profile aircraft c"
  have "pending_of ?u = pending_of c \<or> pending_of ?u = 0"
    using False by (intro update_old_pending) (simp add: not_less)
  then have "bit (pending_of ?u) n \<Longrightarrow> bit (pending_of c) n" for n
    by (elim disjE) simp_all
  moreover have "rq_serial (bc_status c) = br_serial (bc_latest c)"
    using ok by (simp add: command_ok_def)
  ultimately show ?thesis
    using False ok by (intro command_okI_kept [OF ok]) (simp_all add: command_fields)
qed

lemma step_ok:
  assumes "command_ok c"
  shows "command_ok (fst (step x c))"
proof (rule command_okI_kept [OF assms])
  fix n
  assume "bit (pending_of (fst (step x c))) n"
  then show "bit (pending_of c) n"
    by (cases "step_runs x") (auto simp: step_bits step_idle expire_pending split: if_splits)
qed (simp_all add: command_fields)

lemma fail_ok: "command_ok c \<Longrightarrow> command_ok (fail e c)"
  by (rule command_okI_kept) (simp_all add: command_fields)

lemma flights_ok: "command_ok c \<Longrightarrow> length fs = max_display_sides \<Longrightarrow> command_ok (c\<lparr>bc_flights := fs\<rparr>)"
  by (simp add: command_ok_def)

lemma flights_length: "command_ok c \<Longrightarrow> length (bc_flights c) = max_display_sides"
  by (simp add: command_ok_def)

lemma sent_ok: "command_ok c \<Longrightarrow> command_ok (sent d side accepted now c)"
  by (auto simp: sent_def flights_length intro!: fail_ok flights_ok)

lemma rejected_ok: "command_ok c \<Longrightarrow> command_ok (rejected side c)"
  by (auto simp: rejected_def Let_def flights_length intro!: fail_ok flights_ok)

lemma reset_session_ok: "command_ok c \<Longrightarrow> command_ok (reset_session c)"
  by (rule command_okI_kept) (simp_all add: command_fields flights_length [symmetric])

lemma dispatch_step: "dispatch (Loop_Step x) p = p\<lparr>dp_command := fst (step x (dp_command p)),
    dp_decision := snd (step x (dp_command p))\<rparr>"
  by (simp split: prod.splits)

lemma dispatch_ok: "command_ok (dp_command p) \<Longrightarrow> command_ok (dp_command (dispatch ev p))"
  by (cases ev) (simp_all add: dispatch_step transmit_def update_ok reset_session_ok sent_ok rejected_ok step_ok
      del: dispatch.simps(3))

lemma new_command_ok: "command_ok new_command"
  by (simp add: command_ok_def new_command_def)

lemma dispatch_latest:
  "br_serial (bc_latest (dp_command p)) \<le> br_serial (bc_latest (dp_command (dispatch ev p)))"
  by (cases ev) (auto simp add: dispatch_step transmit_def command_fields simp del: dispatch.simps(3))

interpretation buttons: ordered_machine dispatch "\<lambda>p. command_ok (dp_command p)" "\<lambda>_. True"
  "\<lambda>p. br_serial (bc_latest (dp_command p))"
  by unfold_locales (auto intro: dispatch_ok dispatch_latest)

lemma dispatch_run_ok: "command_ok (dp_command (fold dispatch evs new_dispatcher))"
  by (rule buttons.run_inv) (simp_all add: new_dispatcher_def new_command_ok list_all_iff)

text \<open>The serial of every request of a run has been consumed at its end.\<close>

lemma dispatch_takes: "br_serial r \<le> br_serial (bc_latest (dp_command (dispatch (User_Request r permitted now epoch profile aircraft) p)))"
  by (simp add: command_fields not_less)

lemma run_takes:
  assumes "User_Request r permitted now epoch profile aircraft \<in> set evs" and "command_ok (dp_command p)"
  shows "br_serial r \<le> br_serial (bc_latest (dp_command (fold dispatch evs p)))"
proof -
  obtain before later where evs: "evs = before @ User_Request r permitted now epoch profile aircraft # later"
    using assms(1) by (meson split_list)
  let ?p = "dispatch (User_Request r permitted now epoch profile aircraft) (fold dispatch before p)"
  have ok: "command_ok (dp_command ?p)"
    by (intro dispatch_ok buttons.run_inv) (simp_all add: assms(2) list_all_iff)
  have "br_serial r \<le> br_serial (bc_latest (dp_command ?p))"
    by (rule dispatch_takes)
  also have "\<dots> \<le> br_serial (bc_latest (dp_command (fold dispatch later ?p)))"
    by (rule buttons.run_mono) (simp_all only: ok, simp add: list_all_iff)
  finally show ?thesis
    by (simp add: evs)
qed

text \<open>
  A request of the user is consumed once.  After any run of the dispatcher, a request whose serial
  number is not above that of some request of the run changes neither the request being served nor the
  flights, it transmits nothing, and it can end what is pending but never add to it or bring it back.
\<close>
theorem request_consumed_once:
  assumes "User_Request r permitted now epoch profile aircraft \<in> set evs"
    and "br_serial again \<le> br_serial r"
  shows "let p = fold dispatch evs new_dispatcher;
             q = dispatch (User_Request again permitted' now' epoch' profile' aircraft') p
         in bc_latest (dp_command q) = bc_latest (dp_command p) \<and>
            bc_flights (dp_command q) = bc_flights (dp_command p) \<and> dp_log q = dp_log p \<and>
            (pending_of (dp_command q) = pending_of (dp_command p) \<or> pending_of (dp_command q) = 0)"
proof -
  let ?p = "fold dispatch evs new_dispatcher"
  have "br_serial r \<le> br_serial (bc_latest (dp_command ?p))"
    using assms(1) by (rule run_takes) (simp add: new_dispatcher_def new_command_ok)
  with assms(2) have "br_serial again \<le> br_serial (bc_latest (dp_command ?p))"
    by (rule order_trans)
  then show ?thesis
    using update_old_pending [of again "dp_command ?p" permitted' now' epoch' profile' aircraft']
    by (simp add: Let_def command_fields not_less [symmetric])
qed

subsection \<open>No toggle is repeated\<close>

text \<open>
  What lets a side send again while a toggle is in flight: a session reset, a rejection of the simulator
  for that side, or a step that observes a newer sample in the desired position.
\<close>

definition releases :: "nat \<Rightarrow> flight \<Rightarrow> button_event \<Rightarrow> bool" where
  "releases side fl ev =
     (case ev of Session_Reset \<Rightarrow> True
      | Simulator_Rejection s \<Rightarrow> s = side
      | Loop_Step x \<Rightarrow> step_runs x \<and> acknowledged x side fl
      | _ \<Rightarrow> False)"

definition toggles :: "nat \<Rightarrow> dispatcher \<Rightarrow> (nat \<times> bool \<times> bool) list" where
  "toggles side p = filter (\<lambda>(s, _). s = side) (dp_log p)"

lemma sent_other_flight: "s \<noteq> side \<Longrightarrow> bc_flights (sent d s accepted now c) ! side = bc_flights c ! side"
  by (simp add: sent_def command_fields)

lemma rejected_other_flight: "s \<noteq> side \<Longrightarrow> bc_flights (rejected s c) ! side = bc_flights c ! side"
  by (simp add: rejected_def Let_def command_fields)

lemma transmit_blocked:
  assumes "fl_active (bc_flights (dp_command p) ! side)"
  shows "transmit side send_now admitted accepted now p = p"
  using assms by (simp add: transmit_def current_def)

lemma in_flight_step:
  assumes "side < max_display_sides" and "command_ok (dp_command p)"
    and "fl_active (bc_flights (dp_command p) ! side)"
    and "\<not> releases side (bc_flights (dp_command p) ! side) ev"
  shows "bc_flights (dp_command (dispatch ev p)) ! side = bc_flights (dp_command p) ! side \<and>
         toggles side (dispatch ev p) = toggles side p"
proof (cases ev)
  case (Transmit s send_now admitted accepted now)
  show ?thesis
  proof (cases "s = side")
    case True
    with Transmit assms(3) show ?thesis
      by (simp add: transmit_blocked)
  next
    case False
    with Transmit show ?thesis
      by (simp add: transmit_def toggles_def sent_other_flight)
  qed
next
  case (Loop_Step x)
  then show ?thesis
    using assms step_flight [OF assms(1) flights_length [OF assms(2)], of x]
    by (cases "step x (dp_command p)") (auto simp: releases_def toggles_def)
next
  case (Simulator_Rejection s)
  with assms show ?thesis
    by (simp add: releases_def toggles_def rejected_other_flight)
qed (use assms in \<open>simp_all add: releases_def toggles_def command_fields\<close>)

lemma in_flight_run:
  assumes "side < max_display_sides"
  shows "command_ok (dp_command p) \<Longrightarrow> fl_active (bc_flights (dp_command p) ! side) \<Longrightarrow>
    list_all (\<lambda>ev. \<not> releases side (bc_flights (dp_command p) ! side) ev) evs \<Longrightarrow>
    bc_flights (dp_command (fold dispatch evs p)) ! side = bc_flights (dp_command p) ! side \<and>
    toggles side (fold dispatch evs p) = toggles side p"
proof (induction evs arbitrary: p)
  case Nil
  then show ?case by simp
next
  case (Cons ev evs)
  then have step: "bc_flights (dp_command (dispatch ev p)) ! side = bc_flights (dp_command p) ! side"
    "toggles side (dispatch ev p) = toggles side p"
    using in_flight_step [OF assms, of p ev] by simp_all
  with Cons.IH [of "dispatch ev p"] Cons.prems show ?case
    by (simp add: dispatch_ok)
qed

text \<open>An accepted transmission leaves its flight behind.\<close>

lemma transmit_sets:
  assumes "command_ok (dp_command p)"
    and "dp_log (transmit side send_now admitted True now p) \<noteq> dp_log p"
  shows "side < max_display_sides" "bc_flights (dp_command (transmit side send_now admitted True now p)) ! side =
      \<lparr>fl_active = True, fl_desired = bit (bd_desired (dp_decision p)) side,
       fl_sample_ms = bd_sample_ms (dp_decision p), fl_sent_ms = now, fl_serial = bd_serial (dp_decision p)\<rparr>"
proof -
  have c: "bit (bd_send (dp_decision p)) side" "current (dp_decision p) side send_now (dp_command p)" "admitted"
    using assms(2) by (auto simp: transmit_def split: if_splits)
  then show "side < max_display_sides"
    by (simp add: current_def)
  with c flights_length [OF assms(1)] show "bc_flights (dp_command (transmit side send_now admitted True now p)) ! side =
      \<lparr>fl_active = True, fl_desired = bit (bd_desired (dp_decision p)) side,
       fl_sample_ms = bd_sample_ms (dp_decision p), fl_sent_ms = now, fl_serial = bd_serial (dp_decision p)\<rparr>"
    by (simp add: transmit_def sent_def)
qed

text \<open>C27: A toggle that the simulator accepted is never sent a second time on a guess.  In any run of the
  dispatcher, once a transmission for a side has been accepted, no event sequence transmits anything for
  that side again - not a new request, an expired or cancelled one, a stale decision or a timeout -
  until the session is reset, the simulator rejects that very transmission, or a step observes a sample
  newer than the transmission with the button in the desired position.
\<close>
theorem toggle_never_repeated:
  assumes "before = fold dispatch evs new_dispatcher"
    and "after = dispatch (Transmit side send_now admitted True now) before"
    and "dp_log after \<noteq> dp_log before"
    and "list_all (\<lambda>ev. \<not> releases side (bc_flights (dp_command after) ! side) ev) later"
  shows "toggles side (fold dispatch later after) = toggles side after"
proof -
  have ok: "command_ok (dp_command before)"
    unfolding assms(1) by (rule dispatch_run_ok)
  note sets = transmit_sets [OF ok, of side send_now admitted now]
  have "command_ok (dp_command after)"
    unfolding assms(2) using ok by (rule dispatch_ok)
  moreover have "side < max_display_sides" "fl_active (bc_flights (dp_command after) ! side)"
    using assms(2,3) sets by simp_all
  ultimately show ?thesis
    using in_flight_run assms(4) by blast
qed

text \<open>A request for the captain's side, and the context of the step that serves it.\<close>

definition sample_request :: "u64 \<Rightarrow> button_request" where
  "sample_request n = \<lparr>br_serial = n, br_epoch = 5, br_profile = 1, br_selected = 1, br_desired = 1\<rparr>"

definition sample_context :: "u64 \<Rightarrow> u64 \<Rightarrow> u32 \<Rightarrow> button_context" where
  "sample_context now sample actual = \<lparr>bx_now = now, bx_epoch = 5, bx_sample_ms = sample, bx_profile = 1,
     bx_actual = actual, bx_identity_valid = True, bx_buttons_valid = True, bx_aircraft_buttons = True\<rparr>"

lemmas button_eval = sample_request_def sample_context_def new_dispatcher_def new_command_def update_def Let_def
  step_def buttons_fresh_def permission_age_ms_def request_lifetime_ms_def expire_def no_decision_def
  sides_list step_side_def acknowledged_def no_flight_def transmit_def current_def sent_def fail_def
  max_display_sides_def all_display_sides_def reject_def

lemma sample_run:
  "fold dispatch [User_Request (sample_request 1) True 1000 5 1 True, Loop_Step (sample_context 1010 1005 0)] new_dispatcher =
     \<lparr>dp_command = \<lparr>bc_latest = sample_request 1, bc_status = \<lparr>rq_serial = 1, rq_pending = 1, rq_failed = False, rq_error = []\<rparr>,
        bc_flights = [no_flight, no_flight, no_flight], bc_permission_ms = 1000, bc_started_ms = 1000, bc_permission = True\<rparr>,
      dp_decision = \<lparr>bd_send = 1, bd_desired = 1, bd_serial = 1, bd_sample_ms = 1005\<rparr>, dp_log = []\<rparr>"
  by (simp add: button_eval numeral_3_eq_3 bit_1_iff set_bit_eq_or)

theorem request_consumed_once_witness:
  "let p = fold dispatch [User_Request (sample_request 1) True 1000 5 1 True, Loop_Step (sample_context 1010 1005 0)] new_dispatcher;
       q = dispatch (User_Request (sample_request 1) True 1020 5 1 True) p
   in bc_latest (dp_command q) = bc_latest (dp_command p) \<and>
      bc_flights (dp_command q) = bc_flights (dp_command p) \<and> dp_log q = dp_log p \<and>
      (pending_of (dp_command q) = pending_of (dp_command p) \<or> pending_of (dp_command q) = 0)"
  by (rule request_consumed_once [of "sample_request 1" True 1000 5 1 True]) simp_all

theorem toggle_never_repeated_witness:
  "toggles 0 (fold dispatch [Loop_Step (sample_context 1040 1035 0), Transmit 0 1041 True True 1042]
     (dispatch (Transmit 0 1015 True True 1016) (fold dispatch
       [User_Request (sample_request 1) True 1000 5 1 True, Loop_Step (sample_context 1010 1005 0)] new_dispatcher)))
   = [(0, True, True)]"
proof -
  let ?after = "dispatch (Transmit 0 1015 True True 1016) (fold dispatch
       [User_Request (sample_request 1) True 1000 5 1 True, Loop_Step (sample_context 1010 1005 0)] new_dispatcher)"
  have after: "dp_log ?after = [(0, True, True)]" "bc_flights (dp_command ?after) ! 0 =
      \<lparr>fl_active = True, fl_desired = True, fl_sample_ms = 1005, fl_sent_ms = 1016, fl_serial = 1\<rparr>"
    unfolding sample_run by (simp_all add: button_eval numeral_3_eq_3 bit_1_iff)
  have "dp_log (fold dispatch [User_Request (sample_request 1) True 1000 5 1 True,
      Loop_Step (sample_context 1010 1005 0)] new_dispatcher) = []"
    unfolding sample_run by simp
  then have "toggles 0 (fold dispatch [Loop_Step (sample_context 1040 1035 0), Transmit 0 1041 True True 1042] ?after)
      = toggles 0 ?after"
    using after by (intro toggle_never_repeated [OF refl refl])
      (simp_all add: releases_def acknowledged_def sample_context_def bit_0_eq)
  then show ?thesis
    by (simp only: toggles_def after) simp
qed

subsection \<open>When a toggle is asked for, and how a request completes\<close>

lemma elapsed_le: "since \<le> now \<Longrightarrow> now - since \<le> n \<Longrightarrow> unat now - unat since \<le> unat n"
  and elapsed_less: "since \<le> now \<Longrightarrow> now - since < n \<Longrightarrow> unat now - unat since < unat n"
  for now since n :: u64
  by (simp_all add: word_elapsed [symmetric] word_le_nat_alt word_less_nat_alt)

text \<open>
  A step asks for a toggle of a side only while all its conditions hold: the request was selected for
  that side, in this session and for this aircraft, permission was renewed within 500 ms, the request is
  younger than 3000 ms, the buttons were sampled within 500 ms, no toggle of the side is in flight, and
  the observed position differs from the desired one, which is the position asked for.
\<close>
theorem toggle_only_when_due:
  assumes "c = dp_command (fold dispatch evs new_dispatcher)"
    and "bit (bd_send (snd (step x c))) side"
  shows "bit (br_selected (bc_latest c)) side \<and> side < max_display_sides \<and> bit (pending_of c) side \<and>
     br_epoch (bc_latest c) = bx_epoch x \<and> bx_epoch x \<noteq> 0 \<and> br_profile (bc_latest c) = bx_profile x \<and>
     bc_permission c \<and> unat (bx_now x) - unat (bc_permission_ms c) \<le> 500 \<and>
     unat (bc_started_ms c) \<le> unat (bx_now x) \<and> unat (bx_now x) - unat (bc_started_ms c) < 3000 \<and>
     unat (bx_sample_ms x) \<le> unat (bx_now x) \<and> unat (bx_now x) - unat (bx_sample_ms x) \<le> 500 \<and>
     \<not> fl_active (bc_flights (fst (step x c)) ! side) \<and>
     bit (bx_actual x) side \<noteq> bit (br_desired (bc_latest c)) side \<and>
     bit (bd_desired (snd (step x c))) side = bit (br_desired (bc_latest c)) side"
proof -
  have ok: "command_ok c"
    unfolding assms(1) by (rule dispatch_run_ok)
  have runs: "step_runs x"
    using assms(2) by (cases "step_runs x") (auto simp: step_idle no_decision_def)
  note bits = step_bits(2) [OF runs, of c side] step_bits(3) [OF runs, of c side]
  with assms(2) have due: "side < max_display_sides" "request_live x c" "bit (pending_of c) side"
      "\<not> fl_active (seen_flight x side c)" "bit (bx_actual x) side \<noteq> bit (br_desired (bc_latest c)) side"
    by simp_all
  then have "pending_of c \<noteq> 0"
    by force
  with ok due(3) have "bit (br_selected (bc_latest c)) side" "br_epoch (bc_latest c) \<noteq> 0"
    by (auto simp: command_ok_def)
  moreover have "\<not> fl_active (bc_flights (fst (step x c)) ! side)"
    using due(4) step_seen_flight [OF due(1) flights_length [OF ok] runs] by simp
  moreover have "bc_permission c" "unat (bx_now x) - unat (bc_permission_ms c) \<le> 500"
      "unat (bc_started_ms c) \<le> unat (bx_now x)" "unat (bx_now x) - unat (bc_started_ms c) < 3000"
      "br_epoch (bc_latest c) = bx_epoch x" "br_profile (bc_latest c) = bx_profile x"
    using due(2) elapsed_le [of "bc_permission_ms c" "bx_now x" 500] elapsed_less [of "bc_started_ms c" "bx_now x" 3000]
    by (simp_all add: request_live_def permission_age_ms_def request_lifetime_ms_def word_le_nat_alt [symmetric])
  moreover have "unat (bx_sample_ms x) \<le> unat (bx_now x)" "unat (bx_now x) - unat (bx_sample_ms x) \<le> 500"
    using runs elapsed_le [of "bx_sample_ms x" "bx_now x" 500]
    by (simp_all add: step_runs_def buttons_fresh_def permission_age_ms_def word_le_nat_alt [symmetric])
  ultimately show ?thesis
    using due bits(2) assms(2) by (intro conjI) simp_all
qed

theorem toggle_only_when_due_witness:
  "bit (bd_send (snd (step (sample_context 1010 1005 0)
      (dp_command (fold dispatch [User_Request (sample_request 1) True 1000 5 1 True] new_dispatcher))))) 0 \<and>
   bit (br_selected (bc_latest (dp_command (fold dispatch [User_Request (sample_request 1) True 1000 5 1 True] new_dispatcher)))) 0"
proof -
  have "bit (bd_send (snd (step (sample_context 1010 1005 0)
      (dp_command (fold dispatch [User_Request (sample_request 1) True 1000 5 1 True] new_dispatcher))))) 0"
    by (simp add: button_eval numeral_3_eq_3 bit_1_iff set_bit_eq_or)
  with toggle_only_when_due [OF refl this] show ?thesis
    by blast
qed

text \<open>A due transmission goes out, and the flight holds what was sent.\<close>

definition flight_of :: "button_decision \<Rightarrow> nat \<Rightarrow> u64 \<Rightarrow> flight" where
  "flight_of d side now = \<lparr>fl_active = True, fl_desired = bit (bd_desired d) side, fl_sample_ms = bd_sample_ms d,
     fl_sent_ms = now, fl_serial = bd_serial d\<rparr>"

definition send_window :: "u64 \<Rightarrow> dispatcher \<Rightarrow> bool" where
  "send_window send_now p \<longleftrightarrow> bc_permission (dp_command p) \<and> send_now \<ge> bc_permission_ms (dp_command p) \<and>
     send_now - bc_permission_ms (dp_command p) \<le> permission_age_ms \<and>
     bd_serial (dp_decision p) = rq_serial (bc_status (dp_command p)) \<and>
     (\<forall>n. bit (bd_send (dp_decision p)) n \<longrightarrow> bit (pending_of (dp_command p)) n)"

lemma transmit_due:
  assumes "send_window send_now p" and "side < max_display_sides"
    and "\<not> fl_active (bc_flights (dp_command p) ! side)"
  shows "transmit side send_now True True now p =
    (if bit (bd_send (dp_decision p)) side
     then p\<lparr>dp_command := (dp_command p)\<lparr>bc_flights := (bc_flights (dp_command p))[side := flight_of (dp_decision p) side now]\<rparr>,
            dp_log := dp_log p @ [(side, bit (bd_desired (dp_decision p)) side, True)]\<rparr>
     else p)"
  using assms by (simp add: transmit_def current_def sent_def flight_of_def send_window_def)

definition transmit_all :: "u64 \<Rightarrow> u64 \<Rightarrow> dispatcher \<Rightarrow> dispatcher" where
  "transmit_all send_now now p =
     fold (\<lambda>side. dispatch (Transmit side send_now True True now)) [0..<max_display_sides] p"

lemma transmit_all_due:
  assumes "send_window send_now p" and "\<And>side. side < max_display_sides \<Longrightarrow> \<not> fl_active (bc_flights (dp_command p) ! side)"
    and "length (bc_flights (dp_command p)) = max_display_sides"
  shows "(\<forall>side < max_display_sides. bc_flights (dp_command (transmit_all send_now now p)) ! side =
            (if bit (bd_send (dp_decision p)) side then flight_of (dp_decision p) side now
             else bc_flights (dp_command p) ! side)) \<and>
         (\<exists>fs. dp_command (transmit_all send_now now p) = (dp_command p)\<lparr>bc_flights := fs\<rparr> \<and> length fs = max_display_sides) \<and>
         dp_log (transmit_all send_now now p) = dp_log p @
           map (\<lambda>side. (side, bit (bd_desired (dp_decision p)) side, True))
             (filter (bit (bd_send (dp_decision p))) [0..<max_display_sides])"
proof -
  let ?go = "\<lambda>side. transmit side send_now True True now"
  define q0 where "q0 = ?go 0 p"
  define q1 where "q1 = ?go 1 q0"
  define q2 where "q2 = ?go 2 q1"
  have all: "transmit_all send_now now p = q2"
    by (simp add: transmit_all_def sides_list q0_def q1_def q2_def)
  have len: "length (bc_flights (dp_command p)) = 3"
    using assms(3) by (simp add: max_display_sides_def)
  have i: "0 < max_display_sides" "1 < max_display_sides" "2 < max_display_sides"
    by (simp_all add: max_display_sides_def)
  note q0 = q0_def [unfolded transmit_due [OF assms(1) i(1) assms(2) [OF i(1)]]]
  have w0: "send_window send_now q0" and f0: "\<not> fl_active (bc_flights (dp_command q0) ! 1)"
    using assms(1) assms(2) [OF i(2)] by (simp_all add: q0 send_window_def)
  note q1 = q1_def [unfolded transmit_due [OF w0 i(2) f0]]
  have w1: "send_window send_now q1" and f1: "\<not> fl_active (bc_flights (dp_command q1) ! 2)"
    using w0 assms(2) [OF i(3)] by (simp_all add: q0 q1 send_window_def)
  note q2 = q2_def [unfolded transmit_due [OF w1 i(3) f1]]
  have "\<forall>side < max_display_sides. bc_flights (dp_command q2) ! side =
            (if bit (bd_send (dp_decision p)) side then flight_of (dp_decision p) side now
             else bc_flights (dp_command p) ! side)"
    by (intro allI impI, drule side_cases) (auto simp: q0 q1 q2 len)
  moreover have "\<exists>fs. dp_command q2 = (dp_command p)\<lparr>bc_flights := fs\<rparr> \<and> length fs = max_display_sides"
  proof -
    have "dp_command q2 = (dp_command p)\<lparr>bc_flights := bc_flights (dp_command q2)\<rparr>"
      by (simp add: q0 q1 q2)
    moreover have "length (bc_flights (dp_command q2)) = max_display_sides"
      by (simp add: q0 q1 q2 len max_display_sides_def)
    ultimately show ?thesis
      by blast
  qed
  moreover have "dp_log q2 = dp_log p @ map (\<lambda>side. (side, bit (bd_desired (dp_decision p)) side, True))
             (filter (bit (bd_send (dp_decision p))) [0..<max_display_sides])"
    by (simp add: q0 q1 q2 sides_list)
  ultimately show ?thesis
    by (simp add: all)
qed

lemma update_accepted:
  assumes "br_serial (bc_latest c) < br_serial r" and "br_selected r AND NOT all_display_sides = 0"
    and "br_desired r AND NOT (br_selected r) = 0" and "br_epoch r \<noteq> 0"
  shows "update r True now (br_epoch r) (br_profile r) True c =
    c\<lparr>bc_permission := True, bc_permission_ms := now, bc_latest := r,
      bc_status := \<lparr>rq_serial = br_serial r, rq_pending = br_selected r, rq_failed = False, rq_error = []\<rparr>,
      bc_started_ms := now\<rparr>"
proof -
  have "br_serial r \<noteq> 0"
    using assms(1) by (metis word_not_simps(1))
  then show ?thesis
    using assms by (simp add: update_def Let_def)
qed

lemma step_failed: "request_live x c \<Longrightarrow> rq_failed (bc_status (fst (step x c))) = rq_failed (bc_status c)"
  by (simp add: step_unfold command_fields expire_live)

lemma step_serial: "bd_serial (snd (step x c)) = rq_serial (bc_status c)"
  "bd_sample_ms (snd (step x c)) = bx_sample_ms x"
proof -
  have "bd_serial (snd (step_side x n cd)) = bd_serial (snd cd) \<and> bd_sample_ms (snd (step_side x n cd)) = bd_sample_ms (snd cd)" for n cd
    by (simp add: step_side_def Let_def split: prod.splits)
  then show "bd_serial (snd (step x c)) = rq_serial (bc_status c)" "bd_sample_ms (snd (step x c)) = bx_sample_ms x"
    by (simp_all add: step_unfold no_decision_def)
qed

definition serves :: "button_request \<Rightarrow> u64 \<Rightarrow> button_context \<Rightarrow> bool" where
  "serves r now x \<longleftrightarrow> step_runs x \<and> bx_epoch x = br_epoch r \<and> bx_profile x = br_profile r \<and>
     now \<le> bx_now x \<and> bx_now x - now \<le> permission_age_ms"

lemma serves_live:
  assumes "serves r now x" and "bc_latest c = r" and "bc_permission c" and "bc_permission_ms c = now" and "bc_started_ms c = now"
  shows "request_live x c"
proof -
  have "bx_now x - now < request_lifetime_ms"
    using assms(1) by (auto simp: serves_def permission_age_ms_def request_lifetime_ms_def word_le_nat_alt word_less_nat_alt)
  with assms show ?thesis
    by (simp add: serves_def request_live_def step_runs_def)
qed

text \<open>What a first step leaves: a decision for the sides that differ, pending until they are seen to agree.\<close>

definition served :: "button_request \<Rightarrow> u64 \<Rightarrow> button_context \<Rightarrow> dispatcher \<Rightarrow> bool" where
  "served r now x q \<longleftrightarrow> command_ok (dp_command q) \<and> bc_latest (dp_command q) = r \<and>
     bc_permission (dp_command q) \<and> bc_permission_ms (dp_command q) = now \<and> bc_started_ms (dp_command q) = now \<and>
     \<not> rq_failed (bc_status (dp_command q)) \<and>
     bd_serial (dp_decision q) = rq_serial (bc_status (dp_command q)) \<and> bd_sample_ms (dp_decision q) = bx_sample_ms x \<and>
     (\<forall>n < max_display_sides. \<not> fl_active (bc_flights (dp_command q) ! n)) \<and>
     (\<forall>n. bit (bd_send (dp_decision q)) n \<longleftrightarrow> bit (pending_of (dp_command q)) n) \<and>
     (\<forall>n. bit (pending_of (dp_command q)) n \<longleftrightarrow> n < max_display_sides \<and> bit (br_selected r) n \<and>
        bit (bx_actual x) n \<noteq> bit (br_desired r) n) \<and>
     (\<forall>n. bit (bd_desired (dp_decision q)) n \<longleftrightarrow> bit (bd_send (dp_decision q)) n \<and> bit (br_desired r) n)"

lemma first_step_serves:
  assumes "command_ok (dp_command p)"
    and "\<forall>side < max_display_sides. \<not> fl_active (bc_flights (dp_command p) ! side)"
    and "br_serial (bc_latest (dp_command p)) < br_serial r"
    and "br_selected r AND NOT all_display_sides = 0" and "br_desired r AND NOT (br_selected r) = 0"
    and "br_epoch r \<noteq> 0" and "serves r now x"
    and "q = dispatch (Loop_Step x) (dispatch (User_Request r True now (br_epoch r) (br_profile r) True) p)"
  shows "served r now x q"
proof -
  define c1 where "c1 = update r True now (br_epoch r) (br_profile r) True (dp_command p)"
  note c1 = c1_def [unfolded update_accepted [OF assms(3-6)]]
  have q: "dp_command q = fst (step x c1)" "dp_decision q = snd (step x c1)"
    by (simp_all add: assms(8) c1_def dispatch_step del: dispatch.simps(3))
  have ok: "command_ok c1" "command_ok (dp_command q)"
    using assms(1) by (simp_all add: c1_def q update_ok step_ok)
  have runs: "step_runs x"
    using assms(7) by (simp add: serves_def)
  have live: "request_live x c1"
    by (rule serves_live [OF assms(7)]) (simp_all add: c1)
  have idle: "seen_flight x n c1 = bc_flights c1 ! n" "\<not> fl_active (bc_flights c1 ! n)"
    if "n < max_display_sides" for n
    using assms(2) that by (simp_all add: seen_flight_def acknowledged_def c1)
  have sides: "bit (br_selected r) n \<Longrightarrow> n < max_display_sides" for n
    using assms(4) by (simp add: subset_bits all_sides_bit)
  have "\<not> fl_active (bc_flights (dp_command q) ! n)" if "n < max_display_sides" for n
    using step_seen_flight [OF that flights_length [OF ok(1)] runs] idle [OF that] by (simp add: q)
  moreover have latest: "bc_latest c1 = r" "pending_of c1 = br_selected r"
    by (simp_all add: c1)
  moreover have "bit (bd_send (dp_decision q)) n \<longleftrightarrow> bit (pending_of (dp_command q)) n"
    "bit (pending_of (dp_command q)) n \<longleftrightarrow> n < max_display_sides \<and> bit (br_selected r) n \<and>
        bit (bx_actual x) n \<noteq> bit (br_desired r) n"
    "bit (bd_desired (dp_decision q)) n \<longleftrightarrow> bit (bd_send (dp_decision q)) n \<and> bit (br_desired r) n" for n
    using live idle [of n] sides [of n] by (auto simp: q step_bits [OF runs] latest)
  moreover have "bc_permission c1" "bc_permission_ms c1 = now" "bc_started_ms c1 = now" "\<not> rq_failed (bc_status c1)"
    by (simp_all add: c1)
  ultimately show ?thesis
    using ok(2) live unfolding served_def by (simp add: q command_fields step_serial step_failed)
qed

lemma served_window:
  assumes "served r now x q" and "now \<le> send_now" and "send_now - now \<le> permission_age_ms"
  shows "send_window send_now q"
  using assms by (simp add: served_def send_window_def)

text \<open>After the accepted transmissions, a step that sees the buttons as desired leaves nothing pending.\<close>

lemma second_step_completes:
  assumes "served r now x q" and "c = (dp_command q)\<lparr>bc_flights := fs\<rparr>"
    and "\<And>n. n < max_display_sides \<Longrightarrow> fs ! n =
      (if bit (bd_send (dp_decision q)) n then flight_of (dp_decision q) n done_ms else bc_flights (dp_command q) ! n)"
    and "serves r now y" and "bx_sample_ms x < bx_sample_ms y" and "done_ms < bx_sample_ms y"
    and "\<forall>n < max_display_sides. bit (br_selected r) n \<longrightarrow> bit (bx_actual y) n = bit (br_desired r) n"
  shows "pending_of (fst (step y c)) = 0 \<and> \<not> rq_failed (bc_status (fst (step y c)))"
proof -
  note q = assms(1) [unfolded served_def]
  have c: "bc_latest c = r" "pending_of c = pending_of (dp_command q)" "bc_flights c = fs"
    using q by (simp_all add: assms(2))
  have runs: "step_runs y"
    using assms(4) by (simp add: serves_def)
  have live: "request_live y c"
    using q by (intro serves_live [OF assms(4)]) (simp_all add: assms(2))
  have landed: "\<not> fl_active (seen_flight y n c)" if "n < max_display_sides" "bit (br_selected r) n" for n
    using that assms(5-7) assms(3) [OF that(1)] q
    by (auto simp: seen_flight_def acknowledged_def c flight_of_def no_flight_def)
  have "\<not> bit (pending_of (fst (step y c))) n" for n
    using landed [of n] assms(7) q by (auto simp: step_bits(1) [OF runs] c)
  then have "pending_of (fst (step y c)) = 0"
    by (intro bit_word_eqI) simp
  moreover have "\<not> rq_failed (bc_status (fst (step y c)))"
    using q step_failed [OF live] by (simp add: assms(2))
  ultimately show ?thesis
    by blast
qed

text \<open>C28: A request is carried out.  From any state of the dispatcher without a toggle in flight, a newer
  valid request for the current session is served by one step, one accepted transmission for each selected
  side whose button is not yet in the desired position and for no other side, and one later step that
  samples the buttons as desired: then nothing is pending and the request has not failed.
\<close>
theorem request_completes:
  assumes "p = fold dispatch evs new_dispatcher"
    and "\<forall>side < max_display_sides. \<not> fl_active (bc_flights (dp_command p) ! side)"
    and "br_serial (bc_latest (dp_command p)) < br_serial r"
    and "br_selected r AND NOT all_display_sides = 0" and "br_desired r AND NOT (br_selected r) = 0"
    and "br_epoch r \<noteq> 0"
    and "serves r now x" and "now \<le> send_now" and "send_now - now \<le> permission_age_ms"
    and "serves r now y" and "bx_sample_ms x < bx_sample_ms y" and "done_ms < bx_sample_ms y"
    and "\<forall>side < max_display_sides. bit (br_selected r) side \<longrightarrow> bit (bx_actual y) side = bit (br_desired r) side"
  shows "let q = fold dispatch [User_Request r True now (br_epoch r) (br_profile r) True, Loop_Step x] p;
             z = dispatch (Loop_Step y) (transmit_all send_now done_ms q)
         in pending_of (dp_command z) = 0 \<and> \<not> rq_failed (bc_status (dp_command z)) \<and>
            dp_log z = dp_log p @ map (\<lambda>side. (side, bit (br_desired r) side, True))
              (filter (\<lambda>side. bit (br_selected r) side \<and> bit (bx_actual x) side \<noteq> bit (br_desired r) side)
                [0..<max_display_sides])"
proof -
  define q where "q = fold dispatch [User_Request r True now (br_epoch r) (br_profile r) True, Loop_Step x] p"
  have ok: "command_ok (dp_command p)"
    unfolding assms(1) by (rule dispatch_run_ok)
  have served: "served r now x q"
    by (rule first_step_serves [OF ok assms(2-7)]) (simp add: q_def)
  then have parts: "command_ok (dp_command q)" "\<And>n. n < max_display_sides \<Longrightarrow> \<not> fl_active (bc_flights (dp_command q) ! n)"
    by (simp_all add: served_def)
  have log: "dp_log q = dp_log p"
    by (simp add: q_def split: prod.splits)
  let ?t = "transmit_all send_now done_ms q"
  from transmit_all_due [OF served_window [OF served assms(8,9)] parts(2) flights_length [OF parts(1)], of done_ms]
  obtain fs where t: "dp_command ?t = (dp_command q)\<lparr>bc_flights := fs\<rparr>"
    "\<And>side. side < max_display_sides \<Longrightarrow> fs ! side =
      (if bit (bd_send (dp_decision q)) side then flight_of (dp_decision q) side done_ms else bc_flights (dp_command q) ! side)"
    "dp_log ?t = dp_log q @ map (\<lambda>side. (side, bit (bd_desired (dp_decision q)) side, True))
       (filter (bit (bd_send (dp_decision q))) [0..<max_display_sides])"
    by auto
  have "pending_of (fst (step y (dp_command ?t))) = 0 \<and> \<not> rq_failed (bc_status (fst (step y (dp_command ?t))))"
    by (rule second_step_completes [OF served t(1,2) assms(10-13)])
  moreover have "map (\<lambda>side. (side, bit (bd_desired (dp_decision q)) side, True))
       (filter (bit (bd_send (dp_decision q))) [0..<max_display_sides]) =
     map (\<lambda>side. (side, bit (br_desired r) side, True))
       (filter (\<lambda>side. bit (br_selected r) side \<and> bit (bx_actual x) side \<noteq> bit (br_desired r) side) [0..<max_display_sides])"
    using served by (intro map_cong filter_cong) (auto simp: served_def)
  ultimately show ?thesis
    unfolding Let_def q_def [symmetric] by (simp add: dispatch_step t(3) log del: dispatch.simps(3))
qed

theorem request_completes_witness:
  "let q = fold dispatch [User_Request (sample_request 1) True 1000 5 1 True, Loop_Step (sample_context 1010 1005 0)]
             new_dispatcher;
       z = dispatch (Loop_Step (sample_context 1040 1035 1)) (transmit_all 1015 1016 q)
   in pending_of (dp_command z) = 0 \<and> \<not> rq_failed (bc_status (dp_command z)) \<and> dp_log z = [(0, True, True)]"
proof -
  have runs: "step_runs (sample_context 1010 1005 0)" "step_runs (sample_context 1040 1035 1)"
    by (simp_all add: step_runs_def buttons_fresh_def sample_context_def permission_age_ms_def)
  have "let q = fold dispatch [User_Request (sample_request 1) True 1000 (br_epoch (sample_request 1))
                 (br_profile (sample_request 1)) True, Loop_Step (sample_context 1010 1005 0)] new_dispatcher;
             z = dispatch (Loop_Step (sample_context 1040 1035 1)) (transmit_all 1015 1016 q)
         in pending_of (dp_command z) = 0 \<and> \<not> rq_failed (bc_status (dp_command z)) \<and>
            dp_log z = dp_log new_dispatcher @ map (\<lambda>side. (side, bit (br_desired (sample_request 1)) side, True))
              (filter (\<lambda>side. bit (br_selected (sample_request 1)) side \<and>
                 bit (bx_actual (sample_context 1010 1005 0)) side \<noteq> bit (br_desired (sample_request 1)) side)
                [0..<max_display_sides])"
    by (rule request_completes [of new_dispatcher "[]"])
      (auto simp: runs [unfolded sample_context_def] serves_def new_dispatcher_def new_command_def sample_request_def sample_context_def
         all_display_sides_def permission_age_ms_def no_flight_def bit_1_iff)
  then show ?thesis
    by (simp add: sample_request_def sample_context_def sides_list new_dispatcher_def bit_1_iff Let_def)
qed

subsection \<open>A gap in the telemetry is not an OFF, for two seconds\<close>

fun gap_snapshots :: "u64 list \<Rightarrow> button_intent \<Rightarrow> intent_snapshot list" where
  "gap_snapshots [] b = []"
| "gap_snapshots (t # ts) b = (case observe_intent t False 0 b of (b', s) \<Rightarrow> s # gap_snapshots ts b')"

definition in_grace :: "u64 \<Rightarrow> u64 \<Rightarrow> bool" where
  "in_grace first now \<longleftrightarrow> first \<le> now \<and> unat now - unat first < 2000"

lemma grace_word: "(now < first \<or> now - first \<ge> gap_grace_ms) \<longleftrightarrow> \<not> in_grace first now"
proof (cases "first \<le> now")
  case True
  then show ?thesis
    by (auto simp: in_grace_def gap_grace_ms_def word_le_nat_alt word_less_nat_alt unat_sub)
qed (auto simp: in_grace_def)

lemma gap_run:
  assumes "i < length ts"
  shows "bi_known b \<Longrightarrow> bi_gap b \<Longrightarrow> gap_snapshots ts b ! i =
    (if \<not> bi_expired b \<and> (\<forall>j \<le> i. in_grace (bi_gap_started b) (ts ! j))
     then \<lparr>is_buttons = bi_buttons b, is_held = True, is_timed_out = False\<rparr>
     else \<lparr>is_buttons = 0, is_held = False, is_timed_out = True\<rparr>)"
  using assms
proof (induction ts arbitrary: i b)
  case Nil
  then show ?case by simp
next
  case (Cons t ts)
  let ?b = "fst (observe_intent t False 0 b)" and ?in = "\<not> bi_expired b \<and> in_grace (bi_gap_started b) t"
  have step: "observe_intent t False 0 b =
      (if ?in then (b, \<lparr>is_buttons = bi_buttons b, is_held = True, is_timed_out = False\<rparr>)
       else (b\<lparr>bi_expired := True\<rparr>, \<lparr>is_buttons = 0, is_held = False, is_timed_out = True\<rparr>))"
    using Cons.prems(1,2) grace_word [of t "bi_gap_started b"] by (auto simp: observe_intent_def Let_def)
  show ?case
  proof (cases i)
    case 0
    then show ?thesis
      by (simp add: step)
  next
    case (Suc k)
    have all: "(\<forall>j \<le> Suc k. in_grace (bi_gap_started b) ((t # ts) ! j)) \<longleftrightarrow>
        in_grace (bi_gap_started b) t \<and> (\<forall>j \<le> k. in_grace (bi_gap_started b) (ts ! j))"
      by (metis Suc_le_mono le0 not0_implies_Suc nth_Cons_0 nth_Cons_Suc)
    have "gap_snapshots ts ?b ! k = (if \<not> bi_expired ?b \<and> (\<forall>j \<le> k. in_grace (bi_gap_started ?b) (ts ! j))
       then \<lparr>is_buttons = bi_buttons ?b, is_held = True, is_timed_out = False\<rparr>
       else \<lparr>is_buttons = 0, is_held = False, is_timed_out = True\<rparr>)"
      using Cons.prems Suc by (intro Cons.IH) (auto simp: step)
    then show ?thesis
      unfolding Suc all by (cases ?in) (auto simp: step)
  qed
qed

text \<open>
  The last observed buttons are held through a telemetry gap for less than 2000 ms and not longer.
  After a valid observation, the i-th missing one reports the buttons as held exactly if it and all
  before it lie within 2000 ms of the first missing one; otherwise it reports a timeout with no button,
  and so do all that follow.
\<close>
theorem intent_held_in_grace:
  assumes "i < length gaps"
  shows "gap_snapshots gaps (fst (observe_intent now True buttons b)) ! i =
    (if \<forall>j \<le> i. in_grace (gaps ! 0) (gaps ! j)
     then \<lparr>is_buttons = buttons AND all_display_sides, is_held = True, is_timed_out = False\<rparr>
     else \<lparr>is_buttons = 0, is_held = False, is_timed_out = True\<rparr>)"
proof -
  obtain t ts where gaps: "gaps = t # ts"
    using assms by (cases gaps) auto
  let ?v = "fst (observe_intent now True buttons b)"
  let ?g = "?v\<lparr>bi_gap := True, bi_gap_started := t\<rparr>"
  have v: "bi_known ?v" "\<not> bi_gap ?v" "\<not> bi_expired ?v" "bi_buttons ?v = buttons AND all_display_sides"
    by (simp_all add: observe_intent_def)
  then have "observe_intent t False 0 ?v = observe_intent t False 0 ?g"
    by (simp add: observe_intent_def Let_def)
  then have "gap_snapshots gaps ?v = gap_snapshots gaps ?g"
    by (simp add: gaps)
  then show ?thesis
    using gap_run [OF assms, of ?g] v by (simp add: gaps)
qed

theorem intent_held_in_grace_witness:
  "gap_snapshots [1000, 2999, 3000] (fst (observe_intent 900 True 3 new_intent)) ! 1 =
     \<lparr>is_buttons = 3, is_held = True, is_timed_out = False\<rparr> \<and>
   gap_snapshots [1000, 2999, 3000] (fst (observe_intent 900 True 3 new_intent)) ! 2 =
     \<lparr>is_buttons = 0, is_held = False, is_timed_out = True\<rparr>"
proof -
  have a: "\<forall>j \<le> 1. in_grace ([1000, 2999, 3000] ! 0) ([1000, 2999, 3000] ! j)"
    by (auto simp: in_grace_def le_Suc_eq)
  have "\<not> in_grace ([1000, 2999, 3000] ! 0) ([1000, 2999, 3000] ! 2)"
    by (simp add: in_grace_def)
  then have b: "\<not> (\<forall>j \<le> 2. in_grace ([1000, 2999, 3000] ! 0) ([1000, 2999, 3000] ! j))"
    by blast
  have m: "(3::u32) AND all_display_sides = 3"
    by (simp add: all_display_sides_def)
  show ?thesis
    using intent_held_in_grace [of 1 "[1000, 2999, 3000]" 900 3 new_intent]
      intent_held_in_grace [of 2 "[1000, 2999, 3000]" 900 3 new_intent]
    unfolding if_P [OF a] if_not_P [OF b] m by simp
qed

subsection \<open>Routing by name and by choice\<close>

lemma some_side: "(\<exists>i < max_display_sides. P i) \<longleftrightarrow> P 0 \<or> P 1 \<or> P 2"
  by (simp add: max_display_sides_def numeral_3_eq_3 numeral_2_eq_2 Ex_less_Suc) blast

definition routes_ok :: "routes \<Rightarrow> bool" where
  "routes_ok t \<longleftrightarrow> length (rt_targets t) = max_display_sides \<and> length (rt_named t) = max_display_sides"

text \<open>
  The reference for the adoption loop: all sides move at once.  A side adopts its name unless the user
  chose its texture, or the user put the named texture on another side that does not go by that name.
\<close>

definition adopts :: "u64 list \<Rightarrow> routes \<Rightarrow> nat \<Rightarrow> bool" where
  "adopts named_ids t side \<longleftrightarrow> named_ids ! side \<noteq> 0 \<and> rt_targets t ! side \<noteq> named_ids ! side \<and> \<not> chosen t side \<and>
     \<not> (\<exists>other < max_display_sides. other \<noteq> side \<and> chosen t other \<and> rt_targets t ! other = named_ids ! side \<and>
          named_ids ! other \<noteq> named_ids ! side)"

definition adopt_at_once :: "u64 list \<Rightarrow> nat set \<Rightarrow> routes \<Rightarrow> routes" where
  "adopt_at_once named_ids sides t =
     t\<lparr>rt_targets := map (\<lambda>s. if s \<in> sides \<and> adopts named_ids t s then named_ids ! s else rt_targets t ! s) [0..<max_display_sides],
       rt_named := map (\<lambda>s. if s \<in> sides \<and> adopts named_ids t s then named_ids ! s else rt_named t ! s) [0..<max_display_sides]\<rparr>"

lemma list_is_map: "length xs = n \<Longrightarrow> map (\<lambda>i. xs ! i) [0..<n] = xs"
  by (metis map_nth)

lemma adopt_none: "routes_ok t \<Longrightarrow> adopt_at_once named_ids {} t = t"
  by (simp add: adopt_at_once_def routes_ok_def list_is_map)

lemma map_upd_side:
  assumes "s < n"
  shows "(map f [0..<n])[s := v] = map (f(s := v)) [0..<n]"
  by (rule nth_equalityI) (auto simp: nth_list_update)

lemma adopt_side_step:
  assumes "s < max_display_sides" and "s \<notin> sides"
  shows "adopt_side (map (chosen t) [0..<max_display_sides]) named_ids s (changed, adopt_at_once named_ids sides t) =
    (changed \<or> adopts named_ids t s, adopt_at_once named_ids (insert s sides) t)"
proof -
  let ?u = "map (chosen t) [0..<max_display_sides]" and ?t = "adopt_at_once named_ids sides t"
  have kept: "rt_targets ?t ! s = rt_targets t ! s"
    using assms by (simp add: adopt_at_once_def)
  have "rt_targets ?t ! i = rt_targets t ! i" if "i < max_display_sides" "chosen t i" for i
    using that by (simp add: adopt_at_once_def adopts_def)
  then have "held_elsewhere ?u named_ids s (rt_targets ?t) \<longleftrightarrow>
      (\<exists>other < max_display_sides. other \<noteq> s \<and> chosen t other \<and> rt_targets t ! other = named_ids ! s \<and>
          named_ids ! other \<noteq> named_ids ! s)"
    by (auto simp: held_elsewhere_def list_ex_iff)
  then have "adopts named_ids t s \<longleftrightarrow> named_ids ! s \<noteq> 0 \<and> rt_targets ?t ! s \<noteq> named_ids ! s \<and> \<not> ?u ! s \<and>
      \<not> held_elsewhere ?u named_ids s (rt_targets ?t)"
    using assms(1) by (simp only: adopts_def kept nth_map length_upt nth_upt) simp
  then have take: "adopt_side ?u named_ids s (changed, ?t) =
     (if adopts named_ids t s then (True, ?t\<lparr>rt_targets := (rt_targets ?t)[s := named_ids ! s],
        rt_named := (rt_named ?t)[s := named_ids ! s]\<rparr>) else (changed, ?t))"
    by (auto simp: adopt_side_def)
  show ?thesis
  proof (cases "adopts named_ids t s")
    case True
    then have "?t\<lparr>rt_targets := (rt_targets ?t)[s := named_ids ! s], rt_named := (rt_named ?t)[s := named_ids ! s]\<rparr> =
        adopt_at_once named_ids (insert s sides) t"
      using assms(1) by (auto simp: adopt_at_once_def map_upd_side intro!: routes.equality)
    with True take show ?thesis
      by simp
  next
    case False
    then have "?t = adopt_at_once named_ids (insert s sides) t"
      by (auto simp: adopt_at_once_def intro!: routes.equality)
    with False take show ?thesis
      by simp
  qed
qed

lemma leading_sides: "set [0..<min sides max_display_sides] = {s. s < min sides max_display_sides}"
  by auto

lemma adopt_fold:
  assumes "routes_ok t"
  shows "distinct xs \<Longrightarrow> \<forall>s \<in> set xs. s < max_display_sides \<Longrightarrow>
    fold (adopt_side (map (chosen t) [0..<max_display_sides]) named_ids) xs (False, t) =
      ((\<exists>s \<in> set xs. adopts named_ids t s), adopt_at_once named_ids (set xs) t)"
proof (induction xs rule: rev_induct)
  case Nil
  then show ?case
    using assms by (simp add: adopt_none)
next
  case (snoc s xs)
  then show ?case
    by (auto simp: adopt_side_step)
qed

lemma adopt_named_fold:
  assumes "routes_ok t"
  shows "adopt_named named_ids sides t =
    ((\<exists>s < min sides max_display_sides. adopts named_ids t s),
     adopt_at_once named_ids {s. s < min sides max_display_sides} t)"
proof -
  have "\<forall>s \<in> set [0..<min sides max_display_sides]. s < max_display_sides"
    by simp
  note f = adopt_fold [OF assms distinct_upt this, of named_ids]
  show ?thesis
    unfolding adopt_named_def f leading_sides by simp
qed

text \<open>C29: The adoption loop, which goes through the sides one after the other and rewrites the routes as it
  goes, has the effect of moving all of them at once, judged on the routes as they were before it: so
  swapped names move both sides in one pass, and no order of the sides matters.
\<close>
theorem adoption_is_simultaneous:
  assumes "routes_ok t"
  shows "adopt_named named_ids sides t =
    ((\<exists>s < min sides max_display_sides. adopts named_ids t s),
     adopt_at_once named_ids {s. s < min sides max_display_sides} t)"
  using assms by (rule adopt_named_fold)

theorem adoption_is_simultaneous_witness:
  "adopt_named [20, 10, 0] 2 \<lparr>rt_targets = [10, 20, 0], rt_lower_explicit = False, rt_named = [10, 20, 0]\<rparr> =
     (True, \<lparr>rt_targets = [20, 10, 0], rt_lower_explicit = False, rt_named = [20, 10, 0]\<rparr>)"
proof -
  let ?t = "\<lparr>rt_targets = [10, 20, 0], rt_lower_explicit = False, rt_named = [10, 20, 0]\<rparr>"
  have ok: "routes_ok ?t"
    by (simp add: routes_ok_def max_display_sides_def)
  have a: "adopts [20, 10, 0] ?t 0" "adopts [20, 10, 0] ?t 1"
    by (simp_all add: adopts_def chosen_def some_side)
  have m: "min 2 max_display_sides = 2"
    by (simp add: max_display_sides_def)
  have "(\<exists>s < 2. adopts [20, 10, 0] ?t s)"
    using a(1) by (metis zero_less_numeral)
  moreover have "adopt_at_once [20, 10, 0] {s. s < 2} ?t =
      \<lparr>rt_targets = [20, 10, 0], rt_lower_explicit = False, rt_named = [20, 10, 0]\<rparr>"
    using a by (simp add: adopt_at_once_def sides_list)
  ultimately show ?thesis
    unfolding adoption_is_simultaneous [OF ok] m by simp
qed

text \<open>A choice of the user always wins over a name, and a second pass with the same names changes nothing.\<close>

lemma at_once_ok: "routes_ok (adopt_at_once named_ids sides t)"
  by (simp add: routes_ok_def adopt_at_once_def)

lemma at_once_targets: "s < max_display_sides \<Longrightarrow> rt_targets (adopt_at_once named_ids sides t) ! s =
    (if s \<in> sides \<and> adopts named_ids t s then named_ids ! s else rt_targets t ! s)"
  by (simp add: adopt_at_once_def)

lemma at_once_chosen: "s < max_display_sides \<Longrightarrow> chosen (adopt_at_once named_ids sides t) s = chosen t s"
  by (auto simp: adopt_at_once_def chosen_def adopts_def)

lemma at_once_settled:
  assumes "s < max_display_sides" and "s \<in> sides"
  shows "\<not> adopts named_ids (adopt_at_once named_ids sides t) s"
proof -
  have "rt_targets (adopt_at_once named_ids sides t) ! i = rt_targets t ! i" if "i < max_display_sides" "chosen t i" for i
    using that by (auto simp: at_once_targets adopts_def)
  then show ?thesis
    using assms by (auto simp: adopts_def [of _ "adopt_at_once named_ids sides t"] at_once_targets at_once_chosen)
      (auto simp: adopts_def)
qed

lemma at_once_again:
  assumes "routes_ok t" and "\<And>s. s \<in> sides \<Longrightarrow> s < max_display_sides \<Longrightarrow> \<not> adopts named_ids t s"
  shows "adopt_at_once named_ids sides t = t"
proof -
  have "map (\<lambda>s. if s \<in> sides \<and> adopts named_ids t s then named_ids ! s else xs ! s) [0..<max_display_sides] = xs"
    if "length xs = max_display_sides" for xs
    using that assms(2) by (intro nth_equalityI) auto
  then show ?thesis
    using assms(1) by (simp add: adopt_at_once_def routes_ok_def)
qed

text \<open>
  Names never override the user and settle in one pass: adopting the named textures changes no side
  the user chose, and adopting the same names again changes nothing.
\<close>
theorem adoption_settles:
  assumes "routes_ok t" and "adopt_named named_ids sides t = (changed, t')"
  shows "adopt_named named_ids sides t' = (False, t') \<and>
    (\<forall>s < max_display_sides. chosen t s \<longrightarrow> rt_targets t' ! s = rt_targets t ! s \<and> chosen t' s)"
proof -
  let ?S = "{s. s < min sides max_display_sides}"
  have t': "t' = adopt_at_once named_ids ?S t"
    using assms by (simp add: adopt_named_fold)
  then have ok: "routes_ok t'"
    by (simp add: at_once_ok)
  have settled: "\<not> adopts named_ids t' s" if "s \<in> ?S" for s
    using that at_once_settled [of s ?S] by (auto simp: t')
  then have "adopt_at_once named_ids ?S t' = t'"
    by (intro at_once_again ok) blast
  then have "adopt_named named_ids sides t' = (False, t')"
    using settled by (auto simp: adopt_named_fold [OF ok])
  moreover have "\<forall>s < max_display_sides. chosen t s \<longrightarrow> rt_targets t' ! s = rt_targets t ! s \<and> chosen t' s"
    by (auto simp: t' at_once_targets at_once_chosen) (auto simp: adopts_def)
  ultimately show ?thesis
    by blast
qed

theorem adoption_settles_witness:
  "chosen \<lparr>rt_targets = [10, 30, 0], rt_lower_explicit = False, rt_named = [10, 20, 0]\<rparr> 1 \<and>
   rt_targets (snd (adopt_named [30, 10, 0] 2
     \<lparr>rt_targets = [10, 30, 0], rt_lower_explicit = False, rt_named = [10, 20, 0]\<rparr>)) ! 1 = 30"
proof -
  let ?t = "\<lparr>rt_targets = [10, 30, 0], rt_lower_explicit = False, rt_named = [10, 20, 0]\<rparr>"
  have c: "chosen ?t 1"
    by (simp add: chosen_def)
  have "routes_ok ?t" "(1::nat) < max_display_sides"
    by (simp_all add: routes_ok_def max_display_sides_def)
  with c adoption_settles [of ?t "[30, 10, 0]" 2 "fst (adopt_named [30, 10, 0] 2 ?t)" "snd (adopt_named [30, 10, 0] 2 ?t)"]
  show ?thesis
    by simp
qed

subsection \<open>A destroyed texture\<close>

datatype route_event =
  Select_Explicit u64 u64
| Select_Single u64 bool
| Select_Lower u64
| Assign_Side nat u64
| Adopt_Named "u64 list" nat
| Forget_Texture u64

fun route :: "route_event \<Rightarrow> routes \<Rightarrow> routes" where
  "route (Select_Explicit l r) t = snd (select_explicit l r t)"
| "route (Select_Single i separate) t = snd (select_single i separate t)"
| "route (Select_Lower i) t = snd (select_lower i t)"
| "route (Assign_Side side i) t = snd (assign_side side i t)"
| "route (Adopt_Named named_ids sides) t = snd (adopt_named named_ids sides t)"
| "route (Forget_Texture i) t = forget i t"

text \<open>The event selects or names the texture; a list of names has an entry for every side.\<close>

fun avoids :: "u64 \<Rightarrow> route_event \<Rightarrow> bool" where
  "avoids i (Select_Explicit l r) \<longleftrightarrow> i \<noteq> l \<and> i \<noteq> r"
| "avoids i (Select_Single j separate) \<longleftrightarrow> i \<noteq> j"
| "avoids i (Select_Lower j) \<longleftrightarrow> i \<noteq> j"
| "avoids i (Assign_Side side j) \<longleftrightarrow> i \<noteq> j"
| "avoids i (Adopt_Named named_ids sides) \<longleftrightarrow> length named_ids = max_display_sides \<and> i \<notin> set named_ids"
| "avoids i (Forget_Texture j) \<longleftrightarrow> True"

lemma set_update: "set (xs[k := v]) \<subseteq> insert v (set xs)"
  by (rule set_update_subset_insert)

lemma forget_side_ok: "routes_ok t \<Longrightarrow> routes_ok (forget_side i side t)"
  by (simp add: forget_side_def routes_ok_def)

lemma forget_ok: "routes_ok t \<Longrightarrow> routes_ok (forget i t)"
  by (simp add: forget_def sides_list forget_side_ok)

lemma forget_targets:
  assumes "routes_ok t"
  shows "rt_targets (forget i t) = map (\<lambda>j. if j = i then 0 else j) (rt_targets t)"
proof -
  obtain a b c where t: "rt_targets t = [a, b, c]"
    using assms(1) by (auto simp: routes_ok_def max_display_sides_def length_Suc_conv numeral_3_eq_3)
  show ?thesis
    by (simp add: forget_def sides_list forget_side_def t)
qed

definition gone :: "u64 \<Rightarrow> routes \<Rightarrow> bool" where
  "gone i t \<longleftrightarrow> routes_ok t \<and> i \<notin> set (rt_targets t)"

lemma gone_updated: "gone i t \<Longrightarrow> i \<noteq> v \<Longrightarrow> i \<notin> set ((rt_targets t)[k := v])"
  using set_update [of "rt_targets t" k v] by (auto simp: gone_def)

lemma gone_at_once:
  assumes "gone i t" and "length named_ids = max_display_sides" and "i \<notin> set named_ids"
  shows "gone i (adopt_at_once named_ids sides t)"
proof -
  have "named_ids ! s \<noteq> i" "rt_targets t ! s \<noteq> i" if "s < max_display_sides" for s
    using assms that by (metis gone_def nth_mem routes_ok_def)+
  then have "rt_targets (adopt_at_once named_ids sides t) ! s \<noteq> i" if "s < max_display_sides" for s
    using that by (simp add: at_once_targets)
  then show ?thesis
    using at_once_ok [of named_ids sides t] by (auto simp: gone_def routes_ok_def in_set_conv_nth)
qed

lemma gone_forget:
  assumes "gone i t" and "i \<noteq> 0"
  shows "gone i (forget j t)"
  using assms by (auto simp: gone_def forget_ok forget_targets)

lemma gone_route:
  assumes "avoids i ev" and "gone i t" and "i \<noteq> 0"
  shows "gone i (route ev t)"
proof (cases ev)
  case (Select_Explicit l r)
  have "rt_targets t ! 2 \<noteq> i"
    using assms(2) by (metis gone_def max_display_sides_def nth_mem numeral_2_eq_2 numeral_3_eq_3 routes_ok_def lessI)
  with Select_Explicit assms show ?thesis
    by (auto simp: select_explicit_def gone_def routes_ok_def max_display_sides_def)
next
  case (Select_Single j separate)
  then have "i \<notin> set ((rt_targets t)[0 := j, 1 := j])"
    using assms set_update [of "(rt_targets t)[0 := j]" 1 j] set_update [of "rt_targets t" 0 j] by (auto simp: gone_def)
  with Select_Single assms show ?thesis
    by (auto simp: select_single_def gone_def routes_ok_def max_display_sides_def)
next
  case (Select_Lower j)
  with assms gone_updated [OF assms(2), of j 2] show ?thesis
    by (auto simp: select_lower_def gone_def routes_ok_def)
next
  case (Assign_Side side j)
  with assms gone_updated [OF assms(2), of j side] show ?thesis
    by (auto simp: assign_side_def gone_def routes_ok_def)
next
  case (Adopt_Named named_ids sides)
  then show ?thesis
    using assms gone_at_once [OF assms(2)] by (simp add: adopt_named_fold gone_def)
next
  case (Forget_Texture j)
  then show ?thesis
    using assms gone_forget by simp
qed

text \<open>The invariant of a run after a texture is gone; zero stands for no texture and is not tracked.\<close>

interpretation gone_run: machine route "\<lambda>t. gone i t \<or> i = 0" "avoids i" for i
  by unfold_locales (auto intro: gone_route)

lemma route_ok: "routes_ok t \<Longrightarrow> routes_ok (route ev t)"
  by (cases ev) (auto simp: select_explicit_def select_single_def select_lower_def assign_side_def forget_ok
      adopt_named_fold at_once_ok, auto simp: routes_ok_def max_display_sides_def)

interpretation route_run: machine route routes_ok "\<lambda>_. True"
  by unfold_locales (rule route_ok)

lemma new_routes_ok: "routes_ok new_routes"
  by (simp add: routes_ok_def new_routes_def)

lemma gone_no_match: "gone i t \<Longrightarrow> \<not> matches i wanted t"
  by (auto simp: gone_def matches_def list_ex_iff routes_ok_def)

text \<open>
  A destroyed texture is never drawn on again: once it is forgotten, after any run of selections and
  names that do not bring it back, no side of any mask matches it.
\<close>
theorem gone_texture_never_matches:
  assumes "list_all (avoids i) later"
  shows "\<not> matches i wanted (fold route later (route (Forget_Texture i) (fold route evs new_routes)))"
proof (cases "i = 0")
  case True
  then show ?thesis
    by (simp add: matches_def)
next
  case False
  have "routes_ok (fold route evs new_routes)"
    by (rule route_run.run_inv) (simp_all add: list_all_iff new_routes_ok)
  with False have "gone i (route (Forget_Texture i) (fold route evs new_routes))"
    by (auto simp: gone_def forget_ok forget_targets)
  with assms have "gone i (fold route later (route (Forget_Texture i) (fold route evs new_routes))) \<or> i = 0"
    by (intro gone_run.run_inv) simp_all
  with False show ?thesis
    by (simp add: gone_no_match)
qed

theorem gone_texture_never_matches_witness:
  "matches 10 1 (fold route [Select_Explicit 10 20] new_routes) \<and>
   \<not> matches 10 1 (fold route [Select_Lower 30, Assign_Side 1 20]
      (route (Forget_Texture 10) (fold route [Select_Explicit 10 20] new_routes)))"
proof
  show "matches 10 1 (fold route [Select_Explicit 10 20] new_routes)"
    by (simp add: matches_def sides_list select_explicit_def bit_1_iff)
  show "\<not> matches 10 1 (fold route [Select_Lower 30, Assign_Side 1 20]
      (route (Forget_Texture 10) (fold route [Select_Explicit 10 20] new_routes)))"
    by (rule gone_texture_never_matches) simp
qed

text \<open>The mask of the sides with a texture, and what of it is drawn.\<close>

lemma assigned_bit: "bit (assigned_mask t) n \<longleftrightarrow> n < max_display_sides \<and> rt_targets t ! n \<noteq> 0"
proof -
  have n: "n < max_display_sides \<longleftrightarrow> n = 0 \<or> n = 1 \<or> n = 2"
    by (auto simp: max_display_sides_def)
  have "bit (2 ^ k :: u32) n \<longleftrightarrow> n = k" if "k < 32" for k
    using that by (auto simp: bit_exp_iff)
  from this [of 0] this [of 1] this [of 2] show ?thesis
    unfolding n by (auto simp: assigned_mask_def sides_list bit_or_iff)
qed

lemma active_bit:
  "bit (active_mask valid buttons t) n \<longleftrightarrow> valid \<and> bit buttons n \<and> n < max_display_sides \<and> rt_targets t ! n \<noteq> 0"
  by (auto simp: active_mask_def bit_and_iff assigned_bit)

end
