(* ===== verification/Session_Watch.thy ===== *)
theory Session_Watch
  imports Prelude "HOL-Library.Multiset"
begin

text \<open>
  What watches over a session.  \<open>src/bridge/freeze_watchdog.hpp\<close>: the presentation watchdog, which
  closes the graphics gate on a stall and opens it after progress, and its hold after repeated stalls.
  \<open>src/shared/main_view_pause.hpp\<close>: the pause while the main view is outside.
  \<open>src/shared/scene_demand.hpp\<close>: the demand for the scene and its one background warmup.
  \<open>src/app/connection_recoverability.hpp\<close> and \<open>src/shared/companion_control.hpp\<close>: connection commands,
  the exit with the simulator and the setup sessions.  The statements about these are over whole
  histories of samples; the \<open>traced\<close> locale carries the relation between a history and its state.
\<close>

subsection \<open>The presentation watchdog\<close>

definition stall_ms :: u64 where "stall_ms = 3000"
definition recovery_ms :: u64 where "recovery_ms = 5000"
definition hold_trips :: nat where "hold_trips = 3"
definition hold_window_ms :: u64 where "hold_window_ms = 300000"

record wd_sample =
  ws_now :: u64
  ws_pulse :: u64
  ws_pulse_available :: bool
  ws_frames :: u64
  ws_frames_expected :: bool
  ws_armed :: bool
  ws_worker_alive :: bool
  ws_cameras_wanted :: bool

record wd_decision =
  wd_trip :: bool
  wd_recover :: bool
  wd_hold :: bool
  wd_telemetry_noted :: bool
  wd_presentation_noted :: bool
  wd_cameras_wanted :: bool
  wd_worker_alive :: bool
  wd_reason :: string
  wd_stalled_ms :: u64

definition no_wd_decision :: wd_decision where
  "no_wd_decision = \<lparr>wd_trip = False, wd_recover = False, wd_hold = False, wd_telemetry_noted = False,
     wd_presentation_noted = False, wd_cameras_wanted = False, wd_worker_alive = False, wd_reason = [], wd_stalled_ms = 0\<rparr>"

record watchdog =
  fw_last_pulse :: u64
  fw_pulse_since :: u64
  fw_last_sim :: u64
  fw_sim_since :: u64
  fw_recover_since :: u64
  fw_trip_ms :: "u64 list"
  fw_trips :: u32
  fw_counted :: u32
  fw_tripped :: bool
  fw_held :: bool
  fw_wanted_at_progress :: bool
  fw_telemetry_noted :: bool
  fw_presentation_noted :: bool

definition new_watchdog :: watchdog where
  "new_watchdog = \<lparr>fw_last_pulse = 0, fw_pulse_since = 0, fw_last_sim = 0, fw_sim_since = 0, fw_recover_since = 0,
     fw_trip_ms = replicate hold_trips 0, fw_trips = 0, fw_counted = 0, fw_tripped = False, fw_held = False,
     fw_wanted_at_progress = False, fw_telemetry_noted = False, fw_presentation_noted = False\<rparr>"

definition recent_trips :: "u64 \<Rightarrow> watchdog \<Rightarrow> nat" where
  "recent_trips now w = length (filter (\<lambda>at. at \<noteq> 0 \<and> now \<ge> at \<and> now - at < hold_window_ms) (fw_trip_ms w))"

text \<open>Nothing to guard: the timers are forgotten, the trips and the hold are not.\<close>

definition disarm :: "watchdog \<Rightarrow> watchdog" where
  "disarm w = w\<lparr>fw_pulse_since := 0, fw_sim_since := 0, fw_recover_since := 0,
     fw_telemetry_noted := False, fw_presentation_noted := False\<rparr>"

definition pulse_advanced :: "wd_sample \<Rightarrow> watchdog \<Rightarrow> bool" where
  "pulse_advanced s w \<longleftrightarrow> ws_pulse_available s \<and> (fw_pulse_since w = 0 \<or> ws_pulse s \<noteq> fw_last_pulse w)"

definition sim_advanced :: "wd_sample \<Rightarrow> watchdog \<Rightarrow> bool" where
  "sim_advanced s w \<longleftrightarrow> fw_sim_since w = 0 \<or> ws_frames s \<noteq> fw_last_sim w"

text \<open>The counters of an armed sample taken into the state.\<close>

definition note_progress :: "wd_sample \<Rightarrow> watchdog \<Rightarrow> watchdog" where
  "note_progress s w =
     (let p = pulse_advanced s w; m = sim_advanced s w;
          w1 = (if p \<or> \<not> ws_pulse_available s
                then w\<lparr>fw_last_pulse := ws_pulse s, fw_pulse_since := ws_now s, fw_presentation_noted := False\<rparr> else w);
          w2 = (if m then w1\<lparr>fw_last_sim := ws_frames s, fw_sim_since := ws_now s, fw_telemetry_noted := False\<rparr> else w1)
      in if p \<or> \<not> ws_pulse_available s \<and> m then w2\<lparr>fw_wanted_at_progress := ws_cameras_wanted s\<rparr> else w2)"

definition pulse_stalled_ms :: "wd_sample \<Rightarrow> watchdog \<Rightarrow> u64" where
  "pulse_stalled_ms s w =
     (if ws_pulse_available s \<and> ws_now s \<ge> fw_pulse_since w then ws_now s - fw_pulse_since w else 0)"

definition sim_stalled_ms :: "wd_sample \<Rightarrow> watchdog \<Rightarrow> u64" where
  "sim_stalled_ms s w = (if ws_now s \<ge> fw_sim_since w then ws_now s - fw_sim_since w else 0)"

text \<open>A tripped watchdog: held, recovering, or recovered.\<close>

definition observe_tripped :: "bool \<Rightarrow> wd_sample \<Rightarrow> watchdog \<Rightarrow> wd_decision \<Rightarrow> watchdog \<times> wd_decision" where
  "observe_tripped progressing s w d =
     (if fw_held w \<or> \<not> progressing then (w\<lparr>fw_recover_since := 0\<rparr>, d)
      else if fw_recover_since w = 0 then (w\<lparr>fw_recover_since := ws_now s\<rparr>, d)
      else if ws_now s - fw_recover_since w \<ge> recovery_ms then
        (if ws_cameras_wanted s \<and> recent_trips (ws_now s) w \<ge> hold_trips
         then (w\<lparr>fw_recover_since := 0, fw_held := True\<rparr>, d\<lparr>wd_hold := True, wd_reason := ''repeated_stalls''\<rparr>)
         else (w\<lparr>fw_recover_since := 0, fw_tripped := False\<rparr>,
               d\<lparr>wd_recover := True, wd_reason := ''presentation_resumed''\<rparr>))
      else (w, d))"

definition trip :: "wd_sample \<Rightarrow> watchdog \<Rightarrow> wd_decision \<Rightarrow> watchdog \<times> wd_decision" where
  "trip s w d =
     (let stalled = pulse_stalled_ms s w \<ge> stall_ms \<and> ws_pulse_available s
      in (w\<lparr>fw_tripped := True,
            fw_trip_ms := (if fw_wanted_at_progress w
              then (fw_trip_ms w)[unat (fw_counted w) mod hold_trips := (if ws_now s \<noteq> 0 then ws_now s else 1)]
              else fw_trip_ms w),
            fw_counted := (if fw_wanted_at_progress w then fw_counted w + 1 else fw_counted w),
            fw_trips := fw_trips w + 1, fw_recover_since := 0\<rparr>,
          d\<lparr>wd_trip := True, wd_cameras_wanted := fw_wanted_at_progress w,
            wd_reason := (if stalled then (if ws_frames s \<noteq> 0 then ''presentation_and_sim_frame_stalled''
                                           else ''presentation_stalled_no_telemetry'')
                          else ''sim_frame_stalled_before_first_submit''),
            wd_stalled_ms := (if stalled then pulse_stalled_ms s w else sim_stalled_ms s w)\<rparr>))"

definition note_stalls :: "bool \<Rightarrow> bool \<Rightarrow> wd_sample \<Rightarrow> watchdog \<Rightarrow> wd_decision \<Rightarrow> watchdog \<times> wd_decision" where
  "note_stalls pulse_stalled telemetry_stalled s w d =
     (let (w1, d1) = (if pulse_stalled \<and> \<not> fw_presentation_noted w
            then (w\<lparr>fw_presentation_noted := True\<rparr>, d\<lparr>wd_presentation_noted := True,
                    wd_reason := ''presentation_stalled_sim_frame_alive'', wd_stalled_ms := pulse_stalled_ms s w\<rparr>)
            else (w, d))
      in if telemetry_stalled \<and> \<not> fw_telemetry_noted w1
         then (w1\<lparr>fw_telemetry_noted := True\<rparr>, d1\<lparr>wd_telemetry_noted := True,
                 wd_reason := ''sim_frame_stalled_presentation_alive'', wd_stalled_ms := sim_stalled_ms s w\<rparr>)
         else (w1, d1))"

definition observe :: "wd_sample \<Rightarrow> watchdog \<Rightarrow> watchdog \<times> wd_decision" where
  "observe s w0 =
     (let d = no_wd_decision\<lparr>wd_worker_alive := ws_worker_alive s\<rparr>
      in if \<not> ws_armed s then (disarm w0, d)
         else
           let w = note_progress s w0;
               pulse_stalled = (ws_pulse_available s \<and> pulse_stalled_ms s w \<ge> stall_ms);
               sim_known = (ws_frames s \<noteq> 0);
               sim_stalled = (sim_stalled_ms s w \<ge> stall_ms);
               telemetry_stalled = (ws_frames_expected s \<and> sim_stalled)
           in if fw_tripped w
              then observe_tripped (if ws_pulse_available s then pulse_advanced s w0 else sim_advanced s w0) s w d
              else if (pulse_stalled \<and> (sim_stalled \<or> \<not> sim_known)) \<or> (\<not> ws_pulse_available s \<and> telemetry_stalled)
                then trip s w d
              else note_stalls pulse_stalled telemetry_stalled s w d)"

definition release :: "watchdog \<Rightarrow> watchdog \<times> wd_decision" where
  "release w =
     (if \<not> fw_held w then (w, no_wd_decision)
      else (w\<lparr>fw_held := False, fw_tripped := False, fw_recover_since := 0\<rparr>,
            no_wd_decision\<lparr>wd_recover := True, wd_reason := ''released_after_hold''\<rparr>))"

definition stall_hold_known_off :: "bool \<Rightarrow> bool \<Rightarrow> bool \<Rightarrow> u32 \<Rightarrow> bool \<Rightarrow> bool \<Rightarrow> bool" where
  "stall_hold_known_off connected enabled scene_test requested_mask uses_buttons buttons_valid \<longleftrightarrow>
     \<not> connected \<or> \<not> enabled \<or> (\<not> scene_test \<and> requested_mask = 0 \<and> (\<not> uses_buttons \<or> buttons_valid))"

text \<open>The worker's side of the hold: its state is whether a release was requested; the result is the request.\<close>

definition observe_hold :: "bool \<Rightarrow> bool \<Rightarrow> bool \<Rightarrow> bool \<times> bool" where
  "observe_hold held known_off requested =
     (if \<not> held then (False, False)
      else if \<not> known_off \<or> requested then (requested, False)
      else (True, True))"

subsection \<open>The pause outside\<close>

definition outside_camera_state :: "u32 \<Rightarrow> bool" where
  "outside_camera_state s \<longleftrightarrow> s \<in> {3, 4, 5, 6, 9, 10, 17, 19, 25}"

definition cockpit_state :: u32 where "cockpit_state = 2"
definition enter_ms :: u64 where "enter_ms = 500"
definition hold_ms :: u64 where "hold_ms = 2000"

record view_pause =
  vp_paused :: bool
  vp_outside_since :: u64
  vp_last_outside :: u64

definition new_view_pause :: view_pause where
  "new_view_pause = \<lparr>vp_paused = False, vp_outside_since = 0, vp_last_outside = 0\<rparr>"

definition observe_view :: "u64 \<Rightarrow> bool \<Rightarrow> u32 \<Rightarrow> view_pause \<Rightarrow> view_pause" where
  "observe_view now valid s v =
     (if valid \<and> s = cockpit_state then v\<lparr>vp_outside_since := 0, vp_paused := False\<rparr>
      else if \<not> valid \<or> \<not> outside_camera_state s then
        (let v1 = v\<lparr>vp_outside_since := 0\<rparr>
         in if vp_paused v1 \<and> (now < vp_last_outside v1 \<or> now - vp_last_outside v1 > hold_ms)
            then v1\<lparr>vp_paused := False\<rparr> else v1)
      else
        (let v1 = v\<lparr>vp_last_outside := now\<rparr>;
             v2 = (if vp_outside_since v1 = 0 \<or> now < vp_outside_since v1 then v1\<lparr>vp_outside_since := now\<rparr> else v1)
         in if \<not> vp_paused v2 \<and> now - vp_outside_since v2 \<ge> enter_ms then v2\<lparr>vp_paused := True\<rparr> else v2))"

record outside_pause_input =
  op_outside :: bool
  op_requested :: bool
  op_suspended :: bool
  op_warmup :: bool
  op_test_scene :: bool
  op_calibration :: bool
  op_snapshot :: bool

definition outside_view_pause :: "outside_pause_input \<Rightarrow> bool" where
  "outside_view_pause i \<longleftrightarrow> op_outside i \<and> op_requested i \<and> \<not> op_suspended i \<and> \<not> op_warmup i \<and>
     \<not> op_test_scene i \<and> \<not> op_calibration i \<and> \<not> op_snapshot i"

subsection \<open>Histories of the watchdog\<close>

datatype wd_event = Sampled wd_sample | Released

text \<open>The state with the times of the trips that counted (0 is kept as 1, as in the ring).\<close>

fun wd_step :: "wd_event \<Rightarrow> watchdog \<times> u64 list \<Rightarrow> watchdog \<times> u64 list" where
  "wd_step (Sampled s) (w, log) = (case observe s w of (w', d) \<Rightarrow>
     (w', if wd_trip d \<and> wd_cameras_wanted d then log @ [if ws_now s \<noteq> 0 then ws_now s else 1] else log))"
| "wd_step Released (w, log) = (fst (release w), log)"

definition wd_run :: "wd_event list \<Rightarrow> watchdog \<times> u64 list" where
  "wd_run evs = fold wd_step evs (new_watchdog, [])"

fun samples :: "wd_event list \<Rightarrow> wd_sample list" where
  "samples [] = []"
| "samples (Sampled s # evs) = s # samples evs"
| "samples (Released # evs) = samples evs"

lemma samples_append [simp]: "samples (evs @ evs') = samples evs @ samples evs'"
  by (induction evs rule: samples.induct) simp_all

text \<open>A counter that has not changed since an armed sample of the history.\<close>

definition unchanged_since ::
  "(wd_sample \<Rightarrow> u64) \<Rightarrow> (wd_sample \<Rightarrow> bool) \<Rightarrow> wd_sample list \<Rightarrow> u64 \<Rightarrow> u64 \<Rightarrow> bool" where
  "unchanged_since f ok h t v \<longleftrightarrow> (\<exists>before e later. h = before @ e # later \<and> ws_now e = t \<and> f e = v \<and>
     ws_armed e \<and> (\<forall>x \<in> set later. ws_armed x \<and> ok x \<and> f x = v))"

lemma unchanged_start: "ws_armed x \<Longrightarrow> unchanged_since f ok (h @ [x]) (ws_now x) (f x)"
  unfolding unchanged_since_def by force

lemma unchanged_extend:
  "unchanged_since f ok h t v \<Longrightarrow> ws_armed x \<Longrightarrow> ok x \<Longrightarrow> f x = v \<Longrightarrow> unchanged_since f ok (h @ [x]) t v"
  unfolding unchanged_since_def by (elim exE conjE, simp) (metis Un_iff append_Cons append_assoc empty_iff insert_iff list.set(1) list.set(2) set_append)

lemma unchanged_last: "unchanged_since f ok h t v \<Longrightarrow> h \<noteq> [] \<and> f (last h) = v"
  unfolding unchanged_since_def by (auto simp: last_append)

abbreviation pulse_ok :: "wd_sample \<Rightarrow> bool" where "pulse_ok x \<equiv> ws_pulse_available x"

definition timers_rel :: "wd_sample list \<Rightarrow> watchdog \<Rightarrow> bool" where
  "timers_rel h w \<longleftrightarrow>
     (fw_pulse_since w \<noteq> 0 \<longrightarrow> unchanged_since ws_pulse pulse_ok h (fw_pulse_since w) (fw_last_pulse w)) \<and>
     (fw_sim_since w \<noteq> 0 \<longrightarrow> unchanged_since ws_frames (\<lambda>_. True) h (fw_sim_since w) (fw_last_sim w))"

text \<open>Consecutive samples with progress between them, over the counter the later one goes by.\<close>

definition progresses :: "wd_sample \<Rightarrow> wd_sample \<Rightarrow> bool" where
  "progresses a b \<longleftrightarrow> (if ws_pulse_available b then ws_pulse b \<noteq> ws_pulse a else ws_frames b \<noteq> ws_frames a)"

definition recovering_since :: "wd_sample list \<Rightarrow> u64 \<Rightarrow> bool" where
  "recovering_since h t \<longleftrightarrow> (\<exists>before e later. h = before @ e # later \<and> ws_now e = t \<and>
     list_all ws_armed (e # later) \<and> successively progresses (e # later))"

lemma recovering_start: "ws_armed x \<Longrightarrow> recovering_since (h @ [x]) (ws_now x)"
  unfolding recovering_since_def by force

lemma recovering_extend:
  assumes "recovering_since h t" and "ws_armed x" and "progresses (last h) x"
  shows "recovering_since (h @ [x]) t"
proof -
  obtain before e later where h: "h = before @ e # later" "ws_now e = t" "list_all ws_armed (e # later)"
      "successively progresses (e # later)"
    using assms(1) by (auto simp: recovering_since_def)
  then have "successively progresses ((e # later) @ [x])"
    using assms(3) by (subst successively_append_iff) simp
  then show ?thesis
    using h assms(2) unfolding recovering_since_def
    by (intro exI [of _ before] exI [of _ e] exI [of _ "later @ [x]"]) simp
qed

definition recovery_rel :: "wd_sample list \<Rightarrow> watchdog \<Rightarrow> bool" where
  "recovery_rel h w \<longleftrightarrow> (fw_recover_since w \<noteq> 0 \<longrightarrow> fw_tripped w) \<and> ((\<forall>x \<in> set h. ws_now x \<noteq> 0) \<longrightarrow> fw_recover_since w \<noteq> 0 \<longrightarrow>
     fw_pulse_since w \<noteq> 0 \<and> fw_sim_since w \<noteq> 0 \<and> recovering_since h (fw_recover_since w))"

text \<open>What the branches after the counters keep.\<close>

lemma note_stalls_fields:
  "fw_pulse_since (fst (note_stalls a b s w d)) = fw_pulse_since w"
  "fw_last_pulse (fst (note_stalls a b s w d)) = fw_last_pulse w"
  "fw_sim_since (fst (note_stalls a b s w d)) = fw_sim_since w"
  "fw_last_sim (fst (note_stalls a b s w d)) = fw_last_sim w"
  "fw_recover_since (fst (note_stalls a b s w d)) = fw_recover_since w"
  "fw_trip_ms (fst (note_stalls a b s w d)) = fw_trip_ms w"
  "fw_held (fst (note_stalls a b s w d)) = fw_held w" "fw_tripped (fst (note_stalls a b s w d)) = fw_tripped w"
  "wd_trip (snd (note_stalls a b s w d)) = wd_trip d" "wd_recover (snd (note_stalls a b s w d)) = wd_recover d"
  "wd_hold (snd (note_stalls a b s w d)) = wd_hold d"
  by (simp_all add: note_stalls_def Let_def split: prod.splits)

lemma trip_fields:
  "fw_pulse_since (fst (trip s w d)) = fw_pulse_since w" "fw_last_pulse (fst (trip s w d)) = fw_last_pulse w"
  "fw_sim_since (fst (trip s w d)) = fw_sim_since w" "fw_last_sim (fst (trip s w d)) = fw_last_sim w"
  "fw_recover_since (fst (trip s w d)) = 0" "fw_held (fst (trip s w d)) = fw_held w" "fw_tripped (fst (trip s w d))"
  "wd_trip (snd (trip s w d))" "wd_recover (snd (trip s w d)) = wd_recover d" "wd_hold (snd (trip s w d)) = wd_hold d"
  "wd_cameras_wanted (snd (trip s w d)) = fw_wanted_at_progress w"
  by (simp_all add: trip_def Let_def)

lemma observe_tripped_fields:
  "fw_pulse_since (fst (observe_tripped p s w d)) = fw_pulse_since w"
  "fw_last_pulse (fst (observe_tripped p s w d)) = fw_last_pulse w"
  "fw_sim_since (fst (observe_tripped p s w d)) = fw_sim_since w"
  "fw_last_sim (fst (observe_tripped p s w d)) = fw_last_sim w"
  "fw_trip_ms (fst (observe_tripped p s w d)) = fw_trip_ms w"
  "wd_trip (snd (observe_tripped p s w d)) = wd_trip d"
  by (simp_all add: observe_tripped_def)

lemmas branch_fields = note_stalls_fields trip_fields observe_tripped_fields

lemma note_progress_fields:
  "fw_recover_since (note_progress s w) = fw_recover_since w" "fw_trip_ms (note_progress s w) = fw_trip_ms w"
  "fw_held (note_progress s w) = fw_held w" "fw_tripped (note_progress s w) = fw_tripped w"
  "fw_counted (note_progress s w) = fw_counted w"
  "fw_pulse_since (note_progress s w) = (if pulse_advanced s w \<or> \<not> ws_pulse_available s then ws_now s else fw_pulse_since w)"
  "fw_last_pulse (note_progress s w) = (if pulse_advanced s w \<or> \<not> ws_pulse_available s then ws_pulse s else fw_last_pulse w)"
  "fw_sim_since (note_progress s w) = (if sim_advanced s w then ws_now s else fw_sim_since w)"
  "fw_last_sim (note_progress s w) = (if sim_advanced s w then ws_frames s else fw_last_sim w)"
  by (simp_all add: note_progress_def Let_def)

lemma observe_timers:
  assumes "ws_armed s"
  shows "fw_pulse_since (fst (observe s w)) = fw_pulse_since (note_progress s w)"
    "fw_last_pulse (fst (observe s w)) = fw_last_pulse (note_progress s w)"
    "fw_sim_since (fst (observe s w)) = fw_sim_since (note_progress s w)"
    "fw_last_sim (fst (observe s w)) = fw_last_sim (note_progress s w)"
  using assms by (simp_all add: observe_def Let_def branch_fields)

lemma timers_note:
  assumes "timers_rel h w" and "ws_armed s"
  shows "timers_rel (h @ [s]) (note_progress s w)"
proof -
  have "unchanged_since ws_pulse pulse_ok (h @ [s]) (fw_pulse_since (note_progress s w)) (fw_last_pulse (note_progress s w))"
    if "fw_pulse_since (note_progress s w) \<noteq> 0"
  proof (cases "pulse_advanced s w \<or> \<not> ws_pulse_available s")
    case True
    then show ?thesis
      using unchanged_start [OF assms(2), of ws_pulse] by (simp add: note_progress_fields)
  next
    case False
    then show ?thesis
      using that assms by (auto simp: note_progress_fields pulse_advanced_def timers_rel_def intro!: unchanged_extend)
  qed
  moreover have "unchanged_since ws_frames (\<lambda>_. True) (h @ [s]) (fw_sim_since (note_progress s w)) (fw_last_sim (note_progress s w))"
    if "fw_sim_since (note_progress s w) \<noteq> 0"
  proof (cases "sim_advanced s w")
    case True
    then show ?thesis
      using unchanged_start [OF assms(2), of ws_frames] by (simp add: note_progress_fields)
  next
    case False
    then show ?thesis
      using that assms by (auto simp: note_progress_fields sim_advanced_def timers_rel_def intro!: unchanged_extend)
  qed
  ultimately show ?thesis
    by (simp add: timers_rel_def)
qed

lemma timers_observe: "timers_rel h w \<Longrightarrow> timers_rel (h @ [s]) (fst (observe s w))"
proof (cases "ws_armed s")
  case True
  assume "timers_rel h w"
  from timers_note [OF this True] show ?thesis
    using observe_timers [OF True] by (simp add: timers_rel_def)
next
  case False
  then show ?thesis
    by (simp add: observe_def disarm_def timers_rel_def Let_def)
qed

lemma release_fields:
  "fw_pulse_since (fst (release w)) = fw_pulse_since w" "fw_last_pulse (fst (release w)) = fw_last_pulse w"
  "fw_sim_since (fst (release w)) = fw_sim_since w" "fw_last_sim (fst (release w)) = fw_last_sim w"
  "fw_trip_ms (fst (release w)) = fw_trip_ms w"
  "fw_recover_since (fst (release w)) = 0 \<or> fw_recover_since (fst (release w)) = fw_recover_since w"
  by (simp_all add: release_def)

text \<open>Progress of a sample over a history that ends with an armed sample.\<close>

lemma progress_chain:
  assumes "timers_rel h w" and "fw_pulse_since w \<noteq> 0" and "fw_sim_since w \<noteq> 0"
    and "if ws_pulse_available s then pulse_advanced s w else sim_advanced s w"
  shows "progresses (last h) s"
  using assms unchanged_last [of ws_pulse pulse_ok h] unchanged_last [of ws_frames "\<lambda>_. True" h]
  by (auto simp: timers_rel_def progresses_def pulse_advanced_def sim_advanced_def split: if_splits)

lemma note_progress_since:
  assumes "ws_now s \<noteq> 0"
  shows "fw_pulse_since (note_progress s w) \<noteq> 0" "fw_sim_since (note_progress s w) \<noteq> 0"
  using assms by (auto simp: note_progress_fields pulse_advanced_def sim_advanced_def)

abbreviation progressing :: "wd_sample \<Rightarrow> watchdog \<Rightarrow> bool" where
  "progressing s w \<equiv> if ws_pulse_available s then pulse_advanced s w else sim_advanced s w"

lemma observe_recover:
  assumes "ws_armed s" and "fw_recover_since w \<noteq> 0 \<longrightarrow> fw_tripped w"
  shows "fw_recover_since (fst (observe s w)) = 0 \<or> fw_tripped (fst (observe s w)) \<and> progressing s w \<and>
    (if fw_recover_since w = 0 then fw_recover_since (fst (observe s w)) = ws_now s
     else fw_recover_since (fst (observe s w)) = fw_recover_since w)"
proof (cases "fw_tripped w")
  case True
  then have eq: "observe s w = observe_tripped (progressing s w) s (note_progress s w)
      (no_wd_decision\<lparr>wd_worker_alive := ws_worker_alive s\<rparr>)"
    using assms(1) by (simp add: observe_def Let_def note_progress_fields)
  have "fw_recover_since (fst (observe_tripped p s (note_progress s w) d)) = 0 \<or>
      fw_tripped (fst (observe_tripped p s (note_progress s w) d)) \<and> p \<and>
    (if fw_recover_since w = 0 then fw_recover_since (fst (observe_tripped p s (note_progress s w) d)) = ws_now s
     else fw_recover_since (fst (observe_tripped p s (note_progress s w) d)) = fw_recover_since w)" for p d
    using True by (auto simp: observe_tripped_def note_progress_fields)
  then show ?thesis
    unfolding eq by blast
next
  case False
  then show ?thesis
    using assms by (simp add: observe_def Let_def note_progress_fields branch_fields)
qed

lemma recovery_observe:
  assumes "recovery_rel h w" and "timers_rel h w"
  shows "recovery_rel (h @ [s]) (fst (observe s w))"
proof (cases "ws_armed s \<and> fw_recover_since (fst (observe s w)) \<noteq> 0")
  case True
  then have s: "ws_armed s"
    by simp
  have "fw_recover_since w \<noteq> 0 \<longrightarrow> fw_tripped w"
    using assms(1) by (simp add: recovery_rel_def)
  with observe_recover [OF s this] True have cases: "fw_tripped (fst (observe s w))" "progressing s w"
      "if fw_recover_since w = 0 then fw_recover_since (fst (observe s w)) = ws_now s
       else fw_recover_since (fst (observe s w)) = fw_recover_since w"
    by simp_all
  have "recovering_since (h @ [s]) (fw_recover_since (fst (observe s w)))" if h: "\<forall>x \<in> set h. ws_now x \<noteq> 0"
  proof (cases "fw_recover_since w = 0")
    case True
    with cases(3) recovering_start [OF s] show ?thesis
      by simp
  next
    case False
    with assms(1) h have r: "fw_pulse_since w \<noteq> 0" "fw_sim_since w \<noteq> 0" "recovering_since h (fw_recover_since w)"
      by (simp_all add: recovery_rel_def)
    with False cases(3) recovering_extend [OF r(3) s progress_chain [OF assms(2) r(1,2) cases(2)]] show ?thesis
      by simp
  qed
  then show ?thesis
    using cases(1) s by (simp add: recovery_rel_def observe_timers note_progress_since)
next
  case False
  then show ?thesis
    by (auto simp: recovery_rel_def observe_def disarm_def Let_def)
qed

lemma wd_step_sampled [simp]:
  "wd_step (Sampled s) wl = (fst (observe s (fst wl)),
     if wd_trip (snd (observe s (fst wl))) \<and> wd_cameras_wanted (snd (observe s (fst wl)))
     then snd wl @ [if ws_now s \<noteq> 0 then ws_now s else 1] else snd wl)"
  by (cases wl) (simp split: prod.splits)

lemma wd_step_released [simp]: "wd_step Released wl = (fst (release (fst wl)), snd wl)"
  by (cases wl) simp

declare wd_step.simps [simp del]

text \<open>The ring holds times of trips that counted.\<close>

definition ring_rel :: "u64 list \<Rightarrow> watchdog \<Rightarrow> bool" where
  "ring_rel log w \<longleftrightarrow> length (fw_trip_ms w) = hold_trips \<and>
     filter_mset (\<lambda>t. t \<noteq> 0) (mset (fw_trip_ms w)) \<subseteq># mset log"

lemma ring_put:
  assumes "filter_mset (\<lambda>t. t \<noteq> 0) (mset xs) \<subseteq># mset log" and "i < length xs"
  shows "filter_mset (\<lambda>t. t \<noteq> 0) (mset (xs[i := v])) \<subseteq># add_mset v (mset log)"
proof -
  have "filter_mset (\<lambda>t. t \<noteq> 0) (mset (xs[i := v])) \<subseteq># add_mset v (filter_mset (\<lambda>t. t \<noteq> 0) (mset xs))"
    using assms(2) by (intro mset_subset_eqI) (simp add: mset_update)
  also have "\<dots> \<subseteq># add_mset v (mset log)"
    using assms(1) by simp
  finally show ?thesis .
qed

lemma note_keeps_ring: "fw_trip_ms (fst (note_stalls a b s (note_progress s w) d)) = fw_trip_ms w"
  by (simp add: note_stalls_fields note_progress_fields)

lemma ring_step:
  assumes "ring_rel log w"
  shows "ring_rel (snd (wd_step ev (w, log))) (fst (wd_step ev (w, log)))"
proof (cases ev)
  case Released
  then show ?thesis
    using assms by (simp add: ring_rel_def release_fields)
next
  case (Sampled s)
  let ?w = "note_progress s w" and ?d = "no_wd_decision\<lparr>wd_worker_alive := ws_worker_alive s\<rparr>"
  show ?thesis
  proof (cases "wd_trip (snd (observe s w))")
    case True
    then have o: "observe s w = trip s ?w ?d"
      by (auto simp: observe_def Let_def branch_fields no_wd_decision_def split: if_splits)
    have "unat (fw_counted ?w) mod hold_trips < length (fw_trip_ms w)"
      using assms by (simp add: ring_rel_def hold_trips_def)
    with ring_put [of "fw_trip_ms w" log] assms show ?thesis
      unfolding Sampled by (simp add: o ring_rel_def trip_def Let_def note_progress_fields)
  next
    case False
    then have "fw_trip_ms (fst (observe s w)) = fw_trip_ms w"
      by (auto simp: observe_def Let_def branch_fields note_progress_fields disarm_def split: if_splits)
    with False assms show ?thesis
      unfolding Sampled by (simp add: ring_rel_def)
  qed
qed

definition wd_rel :: "wd_event list \<Rightarrow> watchdog \<times> u64 list \<Rightarrow> bool" where
  "wd_rel evs wl \<longleftrightarrow> timers_rel (samples evs) (fst wl) \<and> recovery_rel (samples evs) (fst wl) \<and> ring_rel (snd wl) (fst wl)"

lemma wd_rel_start: "wd_rel [] (new_watchdog, [])"
  by (simp add: wd_rel_def timers_rel_def recovery_rel_def ring_rel_def new_watchdog_def)

lemma wd_rel_step: "wd_rel evs wl \<Longrightarrow> wd_rel (evs @ [ev]) (wd_step ev wl)"
proof (cases wl)
  case (Pair w log)
  assume rel: "wd_rel evs wl"
  then have "ring_rel (snd (wd_step ev (w, log))) (fst (wd_step ev (w, log)))"
    by (intro ring_step) (simp add: wd_rel_def Pair)
  moreover have "timers_rel (samples (evs @ [ev])) (fst (wd_step ev (w, log)))"
    using rel Pair timers_observe
    by (cases ev) (auto simp: wd_rel_def timers_rel_def release_fields)
  moreover have "recovery_rel (samples (evs @ [ev])) (fst (wd_step ev (w, log)))"
  proof (cases ev)
    case (Sampled s)
    then show ?thesis
      using rel Pair recovery_observe by (simp add: wd_rel_def)
  next
    case Released
    have "fw_recover_since (fst (release w)) = 0 \<or> fst (release w) = w"
      by (simp add: release_def)
    then show ?thesis
      using rel Pair Released by (auto simp: wd_rel_def recovery_rel_def)
  qed
  ultimately show ?thesis
    by (simp add: wd_rel_def Pair)
qed

interpretation watched: traced wd_step "(new_watchdog, [])" wd_rel
  by unfold_locales (auto intro: wd_rel_start wd_rel_step)

lemma wd_run_rel:
  "timers_rel (samples evs) (fst (wd_run evs))" "recovery_rel (samples evs) (fst (wd_run evs))"
  "ring_rel (snd (wd_run evs)) (fst (wd_run evs))"
  using watched.trace [of evs] by (simp_all add: wd_run_def wd_rel_def)

subsection \<open>What a trip, a recovery and a hold prove\<close>

text \<open>A counter that stood still for at least \<open>ms\<close> milliseconds up to the sample, which is armed.\<close>

definition quiet :: "(wd_sample \<Rightarrow> u64) \<Rightarrow> (wd_sample \<Rightarrow> bool) \<Rightarrow> nat \<Rightarrow> wd_sample list \<Rightarrow> wd_sample \<Rightarrow> bool" where
  "quiet f ok ms h s \<longleftrightarrow> (\<exists>before e later. h = before @ e # later \<and> f e = f s \<and>
     ms \<le> unat (ws_now s) - unat (ws_now e) \<and> ws_armed e \<and>
     (\<forall>x \<in> set (later @ [s]). ws_armed x \<and> ok x \<and> f x = f s))"

lemma quietI:
  assumes "unchanged_since f ok h t (f s)" and "ws_armed s" and "ok s" and "t \<le> ws_now s" and "n \<le> ws_now s - t"
  shows "quiet f ok (unat n) h s"
proof -
  have "unat n \<le> unat (ws_now s) - unat t"
    using assms(4,5) by (simp add: word_elapsed [symmetric] word_le_nat_alt)
  then show ?thesis
    using assms(1-3) unfolding unchanged_since_def quiet_def by (elim exE conjE) auto
qed

lemma pulse_quiet:
  assumes "timers_rel h w" and "ws_armed s" and "ws_pulse_available s"
    and "stall_ms \<le> pulse_stalled_ms s (note_progress s w)"
  shows "quiet ws_pulse pulse_ok 3000 h s"
proof -
  have "\<not> pulse_advanced s w"
  proof
    assume "pulse_advanced s w"
    then have "pulse_stalled_ms s (note_progress s w) = 0"
      by (simp add: pulse_stalled_ms_def note_progress_fields)
    with assms(4) show False
      by (simp add: stall_ms_def)
  qed
  moreover from this have "fw_pulse_since w \<le> ws_now s" "3000 \<le> ws_now s - fw_pulse_since w"
    using assms(3,4) by (auto simp: pulse_stalled_ms_def note_progress_fields stall_ms_def split: if_splits)
  ultimately have "quiet ws_pulse pulse_ok (unat (3000::u64)) h s"
    using assms(1-3) by (intro quietI [of _ _ _ "fw_pulse_since w"]) (simp_all add: timers_rel_def pulse_advanced_def)
  then show ?thesis
    by simp
qed

lemma sim_quiet:
  assumes "timers_rel h w" and "ws_armed s" and "stall_ms \<le> sim_stalled_ms s (note_progress s w)"
  shows "quiet ws_frames (\<lambda>_. True) 3000 h s"
proof -
  have "\<not> sim_advanced s w"
  proof
    assume "sim_advanced s w"
    then have "sim_stalled_ms s (note_progress s w) = 0"
      by (simp add: sim_stalled_ms_def note_progress_fields)
    with assms(3) show False
      by (simp add: stall_ms_def)
  qed
  moreover from this have "fw_sim_since w \<le> ws_now s" "3000 \<le> ws_now s - fw_sim_since w"
    using assms(3) by (auto simp: sim_stalled_ms_def note_progress_fields stall_ms_def split: if_splits)
  ultimately have "quiet ws_frames (\<lambda>_. True) (unat (3000::u64)) h s"
    using assms(1,2) by (intro quietI [of _ _ _ "fw_sim_since w"]) (simp_all add: timers_rel_def sim_advanced_def)
  then show ?thesis
    by simp
qed

text \<open>C30: The gate closes only on a real stall.  If a sample trips the watchdog after any history of samples
  and releases, the watchdog was armed and not tripped, and either a queue has been observed, its frame
  pulse has stood still for 3000 ms, and so has the telemetry unless it never flowed; or no queue has
  been observed yet, telemetry is expected, and it has stood still for 3000 ms.
\<close>
theorem trip_needs_stall:
  assumes "wd_trip (snd (observe s (fst (wd_run evs))))"
  shows "ws_armed s \<and> \<not> fw_tripped (fst (wd_run evs)) \<and>
    (ws_pulse_available s \<and> quiet ws_pulse pulse_ok 3000 (samples evs) s \<and>
       (ws_frames s = 0 \<or> quiet ws_frames (\<lambda>_. True) 3000 (samples evs) s) \<or>
     \<not> ws_pulse_available s \<and> ws_frames_expected s \<and> quiet ws_frames (\<lambda>_. True) 3000 (samples evs) s)"
proof -
  let ?w = "fst (wd_run evs)"
  have armed: "ws_armed s" and free: "\<not> fw_tripped ?w"
    using assms by (auto simp: observe_def Let_def branch_fields no_wd_decision_def note_progress_fields split: if_splits)
  then have "ws_pulse_available s \<and> stall_ms \<le> pulse_stalled_ms s (note_progress s ?w) \<and>
       (ws_frames s = 0 \<or> stall_ms \<le> sim_stalled_ms s (note_progress s ?w)) \<or>
     \<not> ws_pulse_available s \<and> ws_frames_expected s \<and> stall_ms \<le> sim_stalled_ms s (note_progress s ?w)"
    using assms by (auto simp: observe_def Let_def branch_fields no_wd_decision_def note_progress_fields split: if_splits)
  then show ?thesis
    using armed free pulse_quiet [OF wd_run_rel(1) armed] sim_quiet [OF wd_run_rel(1) armed] by blast
qed

text \<open>The gate opens again only after five seconds of progress.  If a sample makes the watchdog recover
  after a history whose clock runs forward from a nonzero start, the watchdog was tripped and not held,
  and there is an armed sample at least 5000 ms before it since which every sample shows progress over
  the one before it.
\<close>
theorem recovery_needs_progress:
  assumes "wd_recover (snd (observe s (fst (wd_run evs))))"
    and "sorted (map ws_now (samples evs @ [s]))" and "\<forall>x \<in> set (samples evs). ws_now x \<noteq> 0"
  shows "fw_tripped (fst (wd_run evs)) \<and> \<not> fw_held (fst (wd_run evs)) \<and>
    (\<exists>before e later. samples evs = before @ e # later \<and> list_all ws_armed (e # later @ [s]) \<and>
       successively progresses (e # later @ [s]) \<and> 5000 \<le> unat (ws_now s) - unat (ws_now e))"
proof -
  let ?w = "fst (wd_run evs)"
  have armed: "ws_armed s" and tripped: "fw_tripped ?w"
    using assms(1) by (auto simp: observe_def Let_def branch_fields no_wd_decision_def note_progress_fields split: if_splits)
  then have o: "observe s ?w = observe_tripped (progressing s ?w) s (note_progress s ?w)
      (no_wd_decision\<lparr>wd_worker_alive := ws_worker_alive s\<rparr>)"
    by (simp add: observe_def Let_def note_progress_fields)
  have "wd_recover (snd (observe_tripped p s (note_progress s ?w) d)) \<Longrightarrow> \<not> wd_recover d \<Longrightarrow>
      \<not> fw_held ?w \<and> p \<and> fw_recover_since ?w \<noteq> 0 \<and> recovery_ms \<le> ws_now s - fw_recover_since ?w" for p d
    by (auto simp: observe_tripped_def note_progress_fields split: if_splits)
  from this [OF assms(1) [unfolded o]]
  have r: "\<not> fw_held ?w" "progressing s ?w" "fw_recover_since ?w \<noteq> 0" "recovery_ms \<le> ws_now s - fw_recover_since ?w"
    by (auto simp: no_wd_decision_def)
  then have since: "fw_pulse_since ?w \<noteq> 0" "fw_sim_since ?w \<noteq> 0" "recovering_since (samples evs) (fw_recover_since ?w)"
    using wd_run_rel(2) [of evs] assms(3) by (simp_all add: recovery_rel_def)
  obtain before e later where h: "samples evs = before @ e # later" "ws_now e = fw_recover_since ?w"
      "list_all ws_armed (e # later)" "successively progresses (e # later)"
    using since(3) by (auto simp: recovering_since_def)
  have "progresses (last (samples evs)) s"
    by (rule progress_chain [OF wd_run_rel(1) since(1,2) r(2)])
  then have "successively progresses ((e # later) @ [s])"
    using h(1,4) by (subst successively_append_iff) simp
  moreover have "ws_now e \<le> ws_now s"
    using assms(2) h(1) by (simp add: sorted_append)
  then have "5000 \<le> unat (ws_now s) - unat (ws_now e)"
    using r(4) h(2) by (simp add: word_elapsed [symmetric] recovery_ms_def word_le_nat_alt)
  ultimately show ?thesis
    using tripped r(1) h(1,3) armed by (intro conjI exI [of _ before] exI [of _ e] exI [of _ later]) simp_all
qed

definition sample_at :: "u64 \<Rightarrow> u64 \<Rightarrow> u64 \<Rightarrow> wd_sample" where
  "sample_at now pulse frames = \<lparr>ws_now = now, ws_pulse = pulse, ws_pulse_available = True, ws_frames = frames,
     ws_frames_expected = True, ws_armed = True, ws_worker_alive = True, ws_cameras_wanted = True\<rparr>"

lemma new_ring: "replicate 3 (0::u64) = [0, 0, 0]"
  by (simp add: numeral_3_eq_3)

lemmas watchdog_eval = wd_run_def new_watchdog_def sample_at_def observe_def Let_def note_progress_def
  pulse_advanced_def sim_advanced_def pulse_stalled_ms_def sim_stalled_ms_def stall_ms_def observe_tripped_def
  trip_def note_stalls_def no_wd_decision_def recovery_ms_def hold_trips_def recent_trips_def hold_window_ms_def
  new_ring

theorem trip_needs_stall_witness:
  "wd_trip (snd (observe (sample_at 4000 5 7) (fst (wd_run [Sampled (sample_at 1000 5 7), Sampled (sample_at 2000 5 7)])))) \<and>
   quiet ws_pulse pulse_ok 3000 [sample_at 1000 5 7, sample_at 2000 5 7] (sample_at 4000 5 7)"
proof -
  have "wd_trip (snd (observe (sample_at 4000 5 7) (fst (wd_run [Sampled (sample_at 1000 5 7), Sampled (sample_at 2000 5 7)]))))"
    by (simp add: watchdog_eval)
  with trip_needs_stall [OF this] show ?thesis
    by (simp add: sample_at_def)
qed

definition recovering_run :: "wd_event list" where
  "recovering_run = [Sampled (sample_at 1000 5 7), Sampled (sample_at 4000 5 7), Sampled (sample_at 5000 6 8)]"

theorem recovery_needs_progress_witness:
  "wd_recover (snd (observe (sample_at 10000 7 9) (fst (wd_run recovering_run)))) \<and>
   fw_tripped (fst (wd_run recovering_run))"
proof -
  have r: "wd_recover (snd (observe (sample_at 10000 7 9) (fst (wd_run recovering_run))))"
    by (simp add: watchdog_eval recovering_run_def)
  have "sorted (map ws_now (samples recovering_run @ [sample_at 10000 7 9]))"
    "\<forall>x \<in> set (samples recovering_run). ws_now x \<noteq> 0"
    by (simp_all add: recovering_run_def sample_at_def)
  with recovery_needs_progress [OF r] r show ?thesis
    by blast
qed

lemma held_observe:
  assumes "fw_held w" and "fw_tripped w"
  shows "fw_held (fst (observe s w)) \<and> fw_tripped (fst (observe s w)) \<and>
    \<not> wd_trip (snd (observe s w)) \<and> \<not> wd_recover (snd (observe s w)) \<and> \<not> wd_hold (snd (observe s w))"
  using assms by (simp add: observe_def Let_def note_progress_fields observe_tripped_def no_wd_decision_def disarm_def)

lemma held_run:
  "fw_held w \<Longrightarrow> fw_tripped w \<Longrightarrow>
   fw_held (fold (\<lambda>x w. fst (observe x w)) xs w) \<and> fw_tripped (fold (\<lambda>x w. fst (observe x w)) xs w)"
  by (induction xs arbitrary: w) (simp_all add: held_observe)

definition within_window :: "u64 \<Rightarrow> u64 \<Rightarrow> bool" where
  "within_window now t \<longleftrightarrow> t \<le> now \<and> now - t < hold_window_ms"

lemma recent_in_log:
  assumes "ring_rel log w"
  shows "recent_trips now w \<le> length (filter (within_window now) log)"
proof -
  have "filter_mset (within_window now) (filter_mset (\<lambda>t. t \<noteq> 0) (mset (fw_trip_ms w))) \<subseteq># filter_mset (within_window now) (mset log)"
    using assms by (intro multiset_filter_mono) (simp add: ring_rel_def)
  then have "size (filter_mset (within_window now) (filter_mset (\<lambda>t. t \<noteq> 0) (mset (fw_trip_ms w)))) \<le>
      size (filter_mset (within_window now) (mset log))"
    by (rule size_mset_mono)
  then show ?thesis
    by (simp add: recent_trips_def within_window_def filter_filter_mset mset_filter [symmetric] conj_ac
        del: mset_filter)
qed

text \<open>C31: Repeated stalls hold the gate closed until the pilot turns the cameras off.  If a sample makes the
  watchdog hold, cameras were requested at it and at least three trips with cameras requested lie within
  300 seconds before it; after that, whatever is sampled, it neither recovers nor trips again, and the
  release recovers at once.
\<close>
theorem repeated_stalls_hold:
  assumes "wd_hold (snd (observe s (fst (wd_run evs))))"
    and "held = fold (\<lambda>x w. fst (observe x w)) later (fst (observe s (fst (wd_run evs))))"
  shows "ws_cameras_wanted s \<and> 3 \<le> length (filter (within_window (ws_now s)) (snd (wd_run evs))) \<and>
    fw_held held \<and> \<not> wd_recover (snd (observe next held)) \<and> \<not> wd_trip (snd (observe next held)) \<and>
    wd_recover (snd (release held)) \<and> \<not> fw_tripped (fst (release held))"
proof -
  let ?w = "fst (wd_run evs)"
  have "ws_armed s" "fw_tripped ?w"
    using assms(1) by (auto simp: observe_def Let_def branch_fields no_wd_decision_def note_progress_fields split: if_splits)
  then have o: "observe s ?w = observe_tripped (progressing s ?w) s (note_progress s ?w)
      (no_wd_decision\<lparr>wd_worker_alive := ws_worker_alive s\<rparr>)"
    by (simp add: observe_def Let_def note_progress_fields)
  have "wd_hold (snd (observe_tripped p s (note_progress s ?w) d)) \<Longrightarrow> \<not> wd_hold d \<Longrightarrow>
      ws_cameras_wanted s \<and> hold_trips \<le> recent_trips (ws_now s) ?w \<and>
      fw_held (fst (observe_tripped p s (note_progress s ?w) d)) \<and>
      fw_tripped (fst (observe_tripped p s (note_progress s ?w) d))" for p d
    using \<open>fw_tripped ?w\<close> by (auto simp: observe_tripped_def note_progress_fields recent_trips_def split: if_splits)
  from this [OF assms(1) [unfolded o]]
  have h: "ws_cameras_wanted s" "hold_trips \<le> recent_trips (ws_now s) ?w"
      "fw_held (fst (observe s ?w))" "fw_tripped (fst (observe s ?w))"
    unfolding o by (simp_all add: no_wd_decision_def)
  then have "fw_held held" "fw_tripped held"
    unfolding assms(2) by (simp_all add: held_run)
  moreover have "3 \<le> length (filter (within_window (ws_now s)) (snd (wd_run evs)))"
    using h(2) recent_in_log [OF wd_run_rel(3), of "ws_now s" evs] by (simp add: hold_trips_def)
  ultimately show ?thesis
    using h(1) held_observe [of held "next"] by (simp add: release_def no_wd_decision_def)
qed


definition holding_run :: "wd_event list" where
  "holding_run = map Sampled [sample_at 1000 5 7, sample_at 4000 5 7, sample_at 5000 6 8, sample_at 10000 7 9,
     sample_at 13000 7 9, sample_at 14000 8 10, sample_at 19000 9 11, sample_at 22000 9 11, sample_at 23000 10 12]"

theorem repeated_stalls_hold_witness:
  "wd_hold (snd (observe (sample_at 28000 11 13) (fst (wd_run holding_run)))) \<and>
   fw_held (fold (\<lambda>x w. fst (observe x w)) [sample_at 60000 12 14]
     (fst (observe (sample_at 28000 11 13) (fst (wd_run holding_run)))))"
proof -
  have "wd_hold (snd (observe (sample_at 28000 11 13) (fst (wd_run holding_run))))"
    by (simp add: watchdog_eval holding_run_def)
  with repeated_stalls_hold [OF this refl, of "[sample_at 60000 12 14]"] show ?thesis
    by blast
qed

text \<open>A missing or stale reading of the buttons is not an OFF, and a hold is released once.\<close>

lemma unread_buttons_hold:
  "stall_hold_known_off True True scene_test requested_mask True False \<longleftrightarrow> False"
  by (simp add: stall_hold_known_off_def)

fun hold_requests :: "(bool \<times> bool) list \<Rightarrow> bool \<Rightarrow> bool list" where
  "hold_requests [] r = []"
| "hold_requests ((held, off) # xs) r = snd (observe_hold held off r) # hold_requests xs (fst (observe_hold held off r))"

lemma hold_requested_silent: "list_all fst xs \<Longrightarrow> True \<notin> set (hold_requests xs True)"
  by (induction xs) (auto simp: observe_hold_def)

lemma hold_released_once:
  "list_all fst xs \<Longrightarrow> length (filter (\<lambda>b. b) (hold_requests xs r)) \<le> 1"
proof (induction xs arbitrary: r)
  case Nil
  then show ?case by simp
next
  case (Cons x xs)
  have "filter (\<lambda>b. b) (hold_requests xs True) = []"
    using Cons.prems hold_requested_silent [of xs] by (auto simp: filter_empty_conv)
  with Cons show ?case
    by (cases x) (auto simp: observe_hold_def)
qed

subsection \<open>What a pause proves\<close>

type_synonym view_reading = "u64 \<times> bool \<times> u32"

fun view_step :: "view_reading \<Rightarrow> view_pause \<Rightarrow> view_pause" where
  "view_step (now, valid, s) v = observe_view now valid s v"

definition outside_reading :: "view_reading \<Rightarrow> bool" where
  "outside_reading r \<longleftrightarrow> fst (snd r) \<and> outside_camera_state (snd (snd r))"

definition cockpit_reading :: "view_reading \<Rightarrow> bool" where
  "cockpit_reading r \<longleftrightarrow> fst (snd r) \<and> snd (snd r) = cockpit_state"

text \<open>The last outside reading: since it no cockpit, no other outside reading, and at most two seconds.\<close>

definition held_since :: "view_reading list \<Rightarrow> u64 \<Rightarrow> bool" where
  "held_since h t \<longleftrightarrow> (\<exists>before e later. h = before @ e # later \<and> fst e = t \<and> outside_reading e \<and>
     (\<forall>r \<in> set later. \<not> cockpit_reading r \<and> \<not> outside_reading r \<and> t \<le> fst r \<and> fst r - t \<le> hold_ms))"

definition outside_for :: "view_reading list \<Rightarrow> u64 \<Rightarrow> bool" where
  "outside_for h t \<longleftrightarrow> (\<exists>before e later. h = before @ e # later \<and> fst e = t \<and> (\<forall>r \<in> set (e # later). outside_reading r))"

definition view_rel :: "view_reading list \<Rightarrow> view_pause \<Rightarrow> bool" where
  "view_rel h v \<longleftrightarrow> (vp_paused v \<longrightarrow> held_since h (vp_last_outside v)) \<and>
     (vp_outside_since v \<noteq> 0 \<longrightarrow> outside_for h (vp_outside_since v))"

lemma held_start: "outside_reading r \<Longrightarrow> held_since (h @ [r]) (fst r)"
  unfolding held_since_def by (intro exI [of _ h] exI [of _ r] exI [of _ "[]"]) simp

lemma held_extend:
  assumes "held_since h t" and "\<not> cockpit_reading r" and "\<not> outside_reading r" and "t \<le> fst r" and "fst r - t \<le> hold_ms"
  shows "held_since (h @ [r]) t"
proof -
  obtain before e later where "h = before @ e # later" "fst e = t" "outside_reading e"
    "\<forall>r \<in> set later. \<not> cockpit_reading r \<and> \<not> outside_reading r \<and> t \<le> fst r \<and> fst r - t \<le> hold_ms"
    using assms(1) by (auto simp: held_since_def)
  then have "h @ [r] = before @ e # (later @ [r]) \<and> fst e = t \<and> outside_reading e \<and>
      (\<forall>r \<in> set (later @ [r]). \<not> cockpit_reading r \<and> \<not> outside_reading r \<and> t \<le> fst r \<and> fst r - t \<le> hold_ms)"
    using assms(2-5) by simp
  then show ?thesis
    unfolding held_since_def by blast
qed

lemma outside_start: "outside_reading r \<Longrightarrow> outside_for (h @ [r]) (fst r)"
  unfolding outside_for_def by (intro exI [of _ h] exI [of _ r] exI [of _ "[]"]) simp

lemma outside_extend:
  assumes "outside_for h t" and "outside_reading r"
  shows "outside_for (h @ [r]) t"
proof -
  obtain before e later where "h = before @ e # later" "fst e = t" "\<forall>r \<in> set (e # later). outside_reading r"
    using assms(1) by (auto simp: outside_for_def)
  then have "h @ [r] = before @ e # (later @ [r]) \<and> fst e = t \<and> (\<forall>r \<in> set (e # later @ [r]). outside_reading r)"
    using assms(2) by simp
  then show ?thesis
    unfolding outside_for_def by blast
qed

lemma reading_kinds:
  "valid \<and> s = cockpit_state \<longleftrightarrow> cockpit_reading (now, valid, s)"
  "\<not> valid \<or> \<not> outside_camera_state s \<longleftrightarrow> \<not> outside_reading (now, valid, s)"
  "cockpit_reading r \<Longrightarrow> \<not> outside_reading r"
  by (auto simp: cockpit_reading_def outside_reading_def cockpit_state_def outside_camera_state_def)

lemma view_rel_step:
  assumes "view_rel h v"
  shows "view_rel (h @ [r]) (view_step r v)"
proof -
  obtain now valid s where r: "r = (now, valid, s)"
    by (cases r) auto
  consider "cockpit_reading r" | "\<not> cockpit_reading r" "\<not> outside_reading r" | "outside_reading r"
    by blast
  then show ?thesis
  proof cases
    case 1
    then have "view_step r v = v\<lparr>vp_outside_since := 0, vp_paused := False\<rparr>"
      unfolding r by (simp add: observe_view_def reading_kinds(1) [symmetric])
    then show ?thesis
      by (simp add: view_rel_def)
  next
    case 2
    then have "\<not> (valid \<and> s = cockpit_state)" "\<not> valid \<or> \<not> outside_camera_state s"
      unfolding r by (auto simp: cockpit_reading_def outside_reading_def)
    then have "view_step r v = (if vp_paused v \<and> (now < vp_last_outside v \<or> now - vp_last_outside v > hold_ms)
        then v\<lparr>vp_outside_since := 0, vp_paused := False\<rparr> else v\<lparr>vp_outside_since := 0\<rparr>)"
      unfolding r view_step.simps observe_view_def by (simp only: if_True if_False simp_thms Let_def) simp
    with 2 assms show ?thesis
      unfolding r by (auto simp: view_rel_def not_less intro!: held_extend)
  next
    case 3
    let ?since = "if vp_outside_since v = 0 \<or> now < vp_outside_since v then now else vp_outside_since v"
    have "valid" "outside_camera_state s" "s \<noteq> cockpit_state"
      using 3 reading_kinds(3) [of r] by (auto simp: r outside_reading_def cockpit_reading_def)
    then have v: "vp_last_outside (view_step r v) = now" "vp_outside_since (view_step r v) = ?since"
      unfolding r by (simp_all add: observe_view_def Let_def)
    have "outside_for (h @ [r]) ?since" if "?since \<noteq> 0"
      using that assms 3 outside_start [OF 3, of h] outside_extend [of h "vp_outside_since v" r]
      by (auto simp: view_rel_def r)
    then show ?thesis
      using held_start [OF 3, of h] unfolding view_rel_def v by (simp add: r)
  qed
qed

interpretation viewed: traced view_step new_view_pause view_rel
  by unfold_locales (simp add: view_rel_def new_view_pause_def, rule view_rel_step)

text \<open>
  The cameras pause only for a view that stays outside, and not for long without one.  After any
  history of readings: if rendering is paused, the last outside reading is followed by no cockpit reading
  and by nothing later than 2000 ms after it; and a reading that starts a pause ends a run of outside
  readings only, the first of them at least 500 ms before it.
\<close>
theorem pause_follows_outside_view:
  "let v = fold view_step h new_view_pause in
     (vp_paused v \<longrightarrow> held_since h (vp_last_outside v)) \<and>
     (\<not> vp_paused v \<and> vp_paused (view_step r v) \<longrightarrow>
        outside_for (h @ [r]) (vp_outside_since v) \<and> vp_outside_since v \<le> fst r \<and>
        500 \<le> unat (fst r) - unat (vp_outside_since v))"
proof -
  define v where "v = fold view_step h new_view_pause"
  have rel: "view_rel h v"
    unfolding v_def by (rule viewed.trace)
  have "outside_for (h @ [r]) (vp_outside_since v) \<and> vp_outside_since v \<le> fst r \<and>
        500 \<le> unat (fst r) - unat (vp_outside_since v)" if start: "\<not> vp_paused v" "vp_paused (view_step r v)"
  proof -
    obtain now valid s where r: "r = (now, valid, s)"
      by (cases r) auto
    from start have outside: "outside_reading r" and since: "vp_outside_since v \<noteq> 0" "vp_outside_since v \<le> now"
      "enter_ms \<le> now - vp_outside_since v"
      unfolding r by (auto simp: observe_view_def Let_def outside_reading_def enter_ms_def not_less split: if_splits)
    have "outside_for (h @ [r]) (vp_outside_since v)"
      using rel since(1) outside by (intro outside_extend) (simp_all add: view_rel_def)
    then show ?thesis
      using since by (simp add: r word_elapsed [symmetric] enter_ms_def word_le_nat_alt)
  qed
  with rel show ?thesis
    by (simp add: v_def [symmetric] view_rel_def Let_def)
qed

theorem pause_follows_outside_view_witness:
  "vp_paused (fold view_step [(1000, True, 3), (1500, True, 4), (2000, False, 0)] new_view_pause) \<and>
   held_since [(1000, True, 3), (1500, True, 4), (2000, False, 0)] 1500"
proof -
  have p: "vp_paused (fold view_step [(1000, True, 3), (1500, True, 4), (2000, False, 0)] new_view_pause)"
    "vp_last_outside (fold view_step [(1000, True, 3), (1500, True, 4), (2000, False, 0)] new_view_pause) = 1500"
    by (simp_all add: observe_view_def new_view_pause_def cockpit_state_def outside_camera_state_def Let_def
        enter_ms_def hold_ms_def)
  with pause_follows_outside_view [of "[(1000, True, 3), (1500, True, 4), (2000, False, 0)]" "(0, False, 0)"]
  show ?thesis
    by (simp only: Let_def)
qed

subsection \<open>Demand for the scene, and its background warmup\<close>

record scene_demand =
  sd_start :: bool
  sd_suspend :: bool
  sd_stamp_mask :: u32

definition scene_demand :: "u32 \<Rightarrow> bool \<Rightarrow> u32 \<Rightarrow> bool \<Rightarrow> bool \<Rightarrow> bool \<Rightarrow> scene_demand" where
  "scene_demand accepted test_scene assigned requested failed prewarm =
     (let mask3 = accepted AND 7; wanted = (mask3 \<noteq> 0 \<or> test_scene \<or> prewarm)
      in \<lparr>sd_start = (wanted \<and> \<not> requested \<and> \<not> failed), sd_suspend = (\<not> wanted \<or> failed),
          sd_stamp_mask = (if failed then 0 else mask3 AND assigned AND 7)\<rparr>)"

text \<open>
  The ground speed is a double, kept as its bit pattern: finite, not negative and at most 0.5 are the
  patterns up to that of 0.5, and that of minus zero.
\<close>

definition speed_parked :: "u64 \<Rightarrow> bool" where
  "speed_parked w \<longleftrightarrow> w \<le> 0x3FE0000000000000 \<or> w = 0x8000000000000000"

record prewarm_readiness =
  pr_connected :: bool
  pr_session_settings :: bool
  pr_enabled :: bool
  pr_matching_identity :: bool
  pr_graphics_ready :: bool
  pr_buttons_valid :: bool
  pr_pose_ready :: bool
  pr_on_ground_valid :: bool
  pr_on_ground :: bool
  pr_speed_valid :: bool
  pr_diagnostics_active :: bool
  pr_speed :: u64
  pr_session_ready :: bool

definition prewarm_eligible :: "prewarm_readiness \<Rightarrow> bool" where
  "prewarm_eligible r \<longleftrightarrow> pr_session_ready r \<and> pr_connected r \<and> pr_session_settings r \<and> pr_enabled r \<and>
     pr_matching_identity r \<and> pr_graphics_ready r \<and> pr_buttons_valid r \<and> pr_pose_ready r \<and> pr_on_ground_valid r \<and>
     pr_on_ground r \<and> pr_speed_valid r \<and> speed_parked (pr_speed r) \<and> \<not> pr_diagnostics_active r"

record prewarm_progress =
  pg_views_ready :: bool
  pg_output :: bool
  pg_submitted :: u64
  pg_completed :: u64

datatype prewarm_phase =
  Pw_Waiting | Pw_Preparing | Pw_Warming | Pw_Paused | Pw_Ready | Pw_Timed_Out | Pw_Failed | Pw_Foreground

fun prewarm_name :: "prewarm_phase \<Rightarrow> string" where
  "prewarm_name Pw_Waiting = ''waiting''"
| "prewarm_name Pw_Preparing = ''preparing''"
| "prewarm_name Pw_Warming = ''warming''"
| "prewarm_name Pw_Paused = ''paused_parked''"
| "prewarm_name Pw_Ready = ''ready_parked''"
| "prewarm_name Pw_Timed_Out = ''budget_parked''"
| "prewarm_name Pw_Failed = ''failed_parked''"
| "prewarm_name Pw_Foreground = ''foreground''"

record scene_prewarm =
  pw_phase :: prewarm_phase
  pw_started :: u64
  pw_render_started_ms :: u64
  pw_baseline :: u64
  pw_render_started :: bool

definition new_prewarm :: scene_prewarm where
  "new_prewarm = \<lparr>pw_phase = Pw_Waiting, pw_started = 0, pw_render_started_ms = 0, pw_baseline = 0,
     pw_render_started = False\<rparr>"

definition maximum_startup_ms :: u64 where "maximum_startup_ms = 120000"
definition maximum_warmup_ms :: u64 where "maximum_warmup_ms = 5000"
definition required_pairs :: u64 where "required_pairs = 3"

definition prewarm_active :: "scene_prewarm \<Rightarrow> bool" where
  "prewarm_active p \<longleftrightarrow> pw_phase p = Pw_Preparing \<or> pw_phase p = Pw_Warming"

definition prewarm_pending :: "scene_prewarm \<Rightarrow> bool" where
  "prewarm_pending p \<longleftrightarrow> pw_phase p = Pw_Waiting \<or> pw_phase p = Pw_Paused \<or> prewarm_active p"

text \<open>The part of an observation after the attempt has begun.\<close>

definition prewarm_advance :: "u64 \<Rightarrow> bool \<Rightarrow> prewarm_progress \<Rightarrow> bool \<Rightarrow> scene_prewarm \<Rightarrow> scene_prewarm" where
  "prewarm_advance now eligible g failed p =
     (if failed then p\<lparr>pw_phase := Pw_Failed\<rparr>
      else if now < pw_started p \<or> now - pw_started p \<ge> maximum_startup_ms then p\<lparr>pw_phase := Pw_Timed_Out\<rparr>
      else if \<not> eligible then p\<lparr>pw_phase := Pw_Paused\<rparr>
      else
        let p1 = p\<lparr>pw_phase := (if pw_render_started p then Pw_Warming else Pw_Preparing)\<rparr>;
            p2 = (if pg_views_ready g \<and> \<not> pw_render_started p1
                  then p1\<lparr>pw_render_started := True, pw_render_started_ms := now, pw_phase := Pw_Warming\<rparr> else p1)
        in if pg_views_ready g \<and> pg_output g \<and> pg_completed g \<ge> pw_baseline p2 \<and>
              pg_completed g - pw_baseline p2 \<ge> required_pairs then p2\<lparr>pw_phase := Pw_Ready\<rparr>
           else if pw_render_started p2 \<and> (now < pw_render_started_ms p2 \<or>
              now - pw_render_started_ms p2 \<ge> maximum_warmup_ms) then p2\<lparr>pw_phase := Pw_Timed_Out\<rparr>
           else p2)"

definition prewarm_observe :: "u64 \<Rightarrow> bool \<Rightarrow> bool \<Rightarrow> prewarm_progress \<Rightarrow> bool \<Rightarrow> scene_prewarm \<Rightarrow> scene_prewarm \<times> bool" where
  "prewarm_observe now eligible foreground g failed p =
     (if foreground then (if prewarm_pending p then p\<lparr>pw_phase := Pw_Foreground\<rparr> else p, False)
      else if \<not> prewarm_pending p then (p, False)
      else if pw_phase p = Pw_Waiting \<and> (\<not> eligible \<or> failed) then (p, False)
      else
        let p1 = (if pw_phase p = Pw_Waiting
                  then p\<lparr>pw_started := now, pw_baseline := pg_submitted g, pw_phase := Pw_Preparing\<rparr> else p);
            p2 = prewarm_advance now eligible g failed p1
        in (p2, prewarm_active p2))"

definition prewarm_finish_start :: "bool \<Rightarrow> scene_prewarm \<Rightarrow> scene_prewarm" where
  "prewarm_finish_start accepted p = (if \<not> accepted \<and> prewarm_active p then p\<lparr>pw_phase := Pw_Failed\<rparr> else p)"

definition finish_scene_start :: "bool \<Rightarrow> bool \<Rightarrow> scene_prewarm \<Rightarrow> scene_prewarm \<times> bool" where
  "finish_scene_start background accepted p =
     (if background then prewarm_finish_start accepted p else p, \<not> background \<and> \<not> accepted)"

definition retain_background_prewarm :: "bool \<Rightarrow> bool \<Rightarrow> bool \<Rightarrow> bool" where
  "retain_background_prewarm background accepted readiness_deferred \<longleftrightarrow> background \<and> \<not> accepted \<and> readiness_deferred"

datatype prewarm_event =
  Pw_Observe u64 bool bool prewarm_progress bool
| Pw_Start bool bool

fun prewarm_step :: "prewarm_event \<Rightarrow> scene_prewarm \<Rightarrow> scene_prewarm" where
  "prewarm_step (Pw_Observe now eligible foreground g failed) p = fst (prewarm_observe now eligible foreground g failed p)"
| "prewarm_step (Pw_Start background accepted) p = fst (finish_scene_start background accepted p)"

subsection \<open>One bounded attempt\<close>

lemma advance_fields:
  "pw_started (prewarm_advance now eligible g failed p) = pw_started p"
  "pw_baseline (prewarm_advance now eligible g failed p) = pw_baseline p"
  "pw_phase (prewarm_advance now eligible g failed p) \<noteq> Pw_Waiting"
  "pw_render_started p \<Longrightarrow> pw_render_started (prewarm_advance now eligible g failed p) \<and>
     pw_render_started_ms (prewarm_advance now eligible g failed p) = pw_render_started_ms p"
  by (auto simp: prewarm_advance_def Let_def)

lemma advance_active:
  assumes "prewarm_active (prewarm_advance now eligible g failed p)"
  shows "\<not> failed \<and> eligible \<and> pw_started p \<le> now \<and> now - pw_started p < maximum_startup_ms \<and>
    (let q = prewarm_advance now eligible g failed p in
       pw_phase q = Pw_Warming \<longleftrightarrow> pw_render_started q) \<and>
    (let q = prewarm_advance now eligible g failed p in
       pw_render_started q \<longrightarrow> pw_render_started_ms q \<le> now \<and> now - pw_render_started_ms q < maximum_warmup_ms)"
  using assms by (auto simp: prewarm_advance_def Let_def prewarm_active_def not_less not_le maximum_warmup_ms_def
      split: if_splits)

lemma advance_ready:
  assumes "pw_phase (prewarm_advance now eligible g failed p) = Pw_Ready"
  shows "pg_views_ready g \<and> pg_output g \<and> pw_baseline p \<le> pg_completed g \<and> required_pairs \<le> pg_completed g - pw_baseline p"
  using assms by (auto simp: prewarm_advance_def Let_def split: if_splits)

text \<open>
  What a run keeps of an attempt that has begun: its start and its baseline; the start of its rendering
  once it has one; and its end once it has ended.
\<close>

definition same_attempt :: "scene_prewarm \<Rightarrow> scene_prewarm \<Rightarrow> bool" where
  "same_attempt p q \<longleftrightarrow> pw_phase q \<noteq> Pw_Waiting \<and> pw_started q = pw_started p \<and> pw_baseline q = pw_baseline p \<and>
     (pw_render_started p \<longrightarrow> pw_render_started q \<and> pw_render_started_ms q = pw_render_started_ms p) \<and>
     (\<not> prewarm_pending p \<longrightarrow> q = p)"

lemma same_attempt_refl: "pw_phase p \<noteq> Pw_Waiting \<Longrightarrow> same_attempt p p"
  by (simp add: same_attempt_def)

lemma same_attempt_trans: "same_attempt p q \<Longrightarrow> same_attempt q r \<Longrightarrow> same_attempt p r"
  by (auto simp: same_attempt_def)

lemma same_attempt_step:
  assumes "pw_phase p \<noteq> Pw_Waiting"
  shows "same_attempt p (prewarm_step ev p)"
proof (cases ev)
  case (Pw_Observe now eligible foreground g failed)
  show ?thesis
  proof (cases "prewarm_pending p \<and> \<not> foreground")
    case True
    then have "prewarm_step ev p = prewarm_advance now eligible g failed p"
      using assms Pw_Observe by (simp add: prewarm_observe_def Let_def)
    then show ?thesis
      using True advance_fields(1-3) [of now eligible g failed p] advance_fields(4) [of p now eligible g failed] by (simp add: same_attempt_def)
  next
    case False
    then show ?thesis
      using assms Pw_Observe by (auto simp: prewarm_observe_def same_attempt_def)
  qed
next
  case (Pw_Start background accepted)
  then show ?thesis
    using assms by (auto simp: finish_scene_start_def prewarm_finish_start_def same_attempt_def prewarm_pending_def)
qed

interpretation warmup: machine prewarm_step "same_attempt p" "\<lambda>_. True" for p
  by unfold_locales (metis same_attempt_def same_attempt_step same_attempt_trans)

text \<open>C32: The background warmup of a session is one bounded attempt.  Once it has begun, no later sequence of
  observations and start results begins another: the start, the baseline and the start of rendering stay,
  and once it is ready, timed out, failed or overtaken it stays so.  An observation that keeps it active
  is eligible, not failed, not foreground, less than 120 s after the start and less than 5 s after the
  start of rendering; one that makes it ready has seen both views, an output and three completed pairs.
\<close>
theorem warmup_is_one_bounded_attempt:
  assumes "pw_phase p \<noteq> Pw_Waiting" and "q = fold prewarm_step evs p"
    and "prewarm_observe now eligible foreground g failed q = (q', active)"
  shows "same_attempt p q \<and> same_attempt p q' \<and>
    (active \<longrightarrow> eligible \<and> \<not> failed \<and> \<not> foreground \<and> unat (pw_started p) \<le> unat now \<and>
       unat now - unat (pw_started p) < 120000 \<and>
       (pw_phase q' = Pw_Warming \<longrightarrow> unat now - unat (pw_render_started_ms q') < 5000)) \<and>
    (pw_phase q' = Pw_Ready \<and> pw_phase q \<noteq> Pw_Ready \<longrightarrow> pg_views_ready g \<and> pg_output g \<and>
       3 \<le> unat (pg_completed g) - unat (pw_baseline p))"
proof -
  have pq: "same_attempt p q"
    unfolding assms(2) using assms(1) by (intro warmup.run_inv same_attempt_refl) (simp_all add: list_all_iff)
  then have "pw_phase q \<noteq> Pw_Waiting"
    by (simp add: same_attempt_def)
  then have "same_attempt q q'"
    using same_attempt_step [of q "Pw_Observe now eligible foreground g failed"] assms(3) by simp
  with pq have "same_attempt p q'"
    by (rule same_attempt_trans)
  moreover have "eligible \<and> \<not> failed \<and> \<not> foreground \<and> unat (pw_started p) \<le> unat now \<and>
       unat now - unat (pw_started p) < 120000 \<and>
       (pw_phase q' = Pw_Warming \<longrightarrow> unat now - unat (pw_render_started_ms q') < 5000)" if active
  proof -
    have s: "\<not> foreground" "q' = prewarm_advance now eligible g failed q" "prewarm_active q'"
      using that assms(3) \<open>pw_phase q \<noteq> Pw_Waiting\<close> by (auto simp: prewarm_observe_def Let_def split: if_splits)
    have "pw_started q = pw_started p"
      using pq by (simp add: same_attempt_def)
    with s advance_active [of now eligible g failed q] show ?thesis
      by (auto simp: Let_def maximum_startup_ms_def maximum_warmup_ms_def word_elapsed [symmetric] word_less_nat_alt
          word_le_nat_alt)
  qed
  moreover have "pg_views_ready g \<and> pg_output g \<and> 3 \<le> unat (pg_completed g) - unat (pw_baseline p)"
    if "pw_phase q' = Pw_Ready" "pw_phase q \<noteq> Pw_Ready"
  proof -
    have "q' = prewarm_advance now eligible g failed q"
      using that assms(3) \<open>pw_phase q \<noteq> Pw_Waiting\<close> by (auto simp: prewarm_observe_def Let_def split: if_splits)
    moreover have "pw_baseline q = pw_baseline p"
      using pq by (simp add: same_attempt_def)
    ultimately show ?thesis
      using that(1) advance_ready [of now eligible g failed q]
      by (auto simp: required_pairs_def word_elapsed [symmetric] word_le_nat_alt)
  qed
  ultimately show ?thesis
    using pq by blast
qed

definition warmup_progress :: "bool \<Rightarrow> u64 \<Rightarrow> prewarm_progress" where
  "warmup_progress ready pairs = \<lparr>pg_views_ready = ready, pg_output = ready, pg_submitted = pairs, pg_completed = pairs\<rparr>"

definition begun_warmup :: scene_prewarm where
  "begun_warmup = prewarm_step (Pw_Observe 1000 True False (warmup_progress False 10) False) new_prewarm"

theorem warmup_is_one_bounded_attempt_witness:
  "snd (prewarm_observe 2000 True False (warmup_progress True 11) False begun_warmup) \<and>
   same_attempt begun_warmup (fst (prewarm_observe 2000 True False (warmup_progress True 11) False begun_warmup)) \<and>
   pw_phase (fst (prewarm_observe 3000 True False (warmup_progress True 13) False begun_warmup)) = Pw_Ready"
proof -
  have b: "pw_phase begun_warmup \<noteq> Pw_Waiting"
    by (simp add: begun_warmup_def prewarm_observe_def new_prewarm_def prewarm_pending_def prewarm_advance_def
        warmup_progress_def Let_def maximum_startup_ms_def maximum_warmup_ms_def required_pairs_def)
  have "same_attempt begun_warmup (fst (prewarm_observe 2000 True False (warmup_progress True 11) False begun_warmup))"
    using warmup_is_one_bounded_attempt [OF b, of begun_warmup "[]" 2000 True False "warmup_progress True 11" False
      "fst (prewarm_observe 2000 True False (warmup_progress True 11) False begun_warmup)"
      "snd (prewarm_observe 2000 True False (warmup_progress True 11) False begun_warmup)"]
    by simp
  moreover have "snd (prewarm_observe 2000 True False (warmup_progress True 11) False begun_warmup)"
    "pw_phase (fst (prewarm_observe 3000 True False (warmup_progress True 13) False begun_warmup)) = Pw_Ready"
    by (simp_all add: word_le_nat_alt begun_warmup_def prewarm_observe_def new_prewarm_def prewarm_pending_def prewarm_active_def
        prewarm_advance_def warmup_progress_def Let_def maximum_startup_ms_def maximum_warmup_ms_def required_pairs_def)
  ultimately show ?thesis
    by blast
qed

subsection \<open>Connecting to the simulator\<close>

datatype connect_command = Connect_None | Connect | Connect_Reset | Disconnect

text \<open>
  The queue is one atomic word; a request installs its command by a compare-and-exchange loop whose
  condition is judged on the value it replaces, so a request is one step on that value.
\<close>

definition queue_request :: "connect_command \<Rightarrow> connect_command \<Rightarrow> connect_command" where
  "queue_request command pending =
     (if command = Connect_None then pending
      else if pending = Connect_Reset \<and> command = Connect then pending
      else command)"

definition queue_take :: "connect_command \<Rightarrow> connect_command \<times> connect_command" where
  "queue_take pending = (pending, Connect_None)"

definition should_attempt_connect :: "bool \<Rightarrow> bool \<Rightarrow> connect_command \<Rightarrow> bool \<Rightarrow> bool \<Rightarrow> bool" where
  "should_attempt_connect auto_connect already_attempted command manual_session_armed disconnected =
     (if command = Disconnect \<or> disconnected then False
      else if command = Connect_Reset \<or> command = Connect then True
      else if already_attempted then False
      else auto_connect \<or> manual_session_armed)"

definition heartbeat_confirms_bridge :: "u64 \<Rightarrow> u64 \<Rightarrow> bool" where
  "heartbeat_confirms_bridge sample ignore_through \<longleftrightarrow> sample \<noteq> 0 \<and> sample > ignore_through"

definition fresh_load_allowed :: "bool \<Rightarrow> bool" where
  "fresh_load_allowed load_started \<longleftrightarrow> \<not> load_started"

text \<open>A pending reset survives every later request except a disconnect.\<close>

lemma reset_survives: "Disconnect \<notin> set commands \<Longrightarrow> fold queue_request commands Connect_Reset = Connect_Reset"
proof (induction commands)
  case (Cons c cs)
  then show ?case
    by (cases c) (simp_all add: queue_request_def)
qed simp

lemma explicit_connect_attempts:
  "should_attempt_connect auto attempted (fst (queue_take (fold queue_request (commands @ [Connect]) p))) armed False"
  by (simp add: queue_take_def queue_request_def should_attempt_connect_def)

text \<open>The exit with the simulator.\<close>

record exit_watch =
  ew_enabled :: bool
  ew_seen :: bool
  ew_gone_since :: u64

definition exit_grace_ms :: u64 where "exit_grace_ms = 5000"

definition new_exit_watch :: "bool \<Rightarrow> exit_watch" where
  "new_exit_watch enabled = \<lparr>ew_enabled = enabled, ew_seen = False, ew_gone_since = 0\<rparr>"

definition observe_exit :: "bool \<Rightarrow> u64 \<Rightarrow> exit_watch \<Rightarrow> exit_watch \<times> bool" where
  "observe_exit running now e =
     (if \<not> ew_enabled e then (e, False)
      else if running then (e\<lparr>ew_seen := True, ew_gone_since := 0\<rparr>, False)
      else if \<not> ew_seen e then (e, False)
      else if ew_gone_since e = 0 then (e\<lparr>ew_gone_since := (if now \<noteq> 0 then now else 1)\<rparr>, False)
      else (e, now \<ge> ew_gone_since e \<and> now - ew_gone_since e \<ge> exit_grace_ms))"

text \<open>The simulator was seen, and has been gone since the reading at \<open>t\<close> (0 is kept as 1).\<close>

definition gone_from :: "(bool \<times> u64) list \<Rightarrow> u64 \<Rightarrow> bool" where
  "gone_from h t \<longleftrightarrow> (\<exists>before r later. h = before @ r # later \<and> t = (if snd r \<noteq> 0 then snd r else 1) \<and>
     (\<forall>x \<in> set (r # later). \<not> fst x) \<and> (\<exists>x \<in> set before. fst x))"

lemma gone_fromI:
  "h = before @ r # later \<Longrightarrow> t = (if snd r \<noteq> 0 then snd r else 1) \<Longrightarrow> \<forall>x \<in> set (r # later). \<not> fst x \<Longrightarrow>
   x \<in> set before \<Longrightarrow> fst x \<Longrightarrow> gone_from h t"
  unfolding gone_from_def by (intro exI [of _ before] exI [of _ r] exI [of _ later] conjI bexI [of _ x])

lemma gone_from_extend:
  assumes "gone_from h t" and "\<not> fst r"
  shows "gone_from (h @ [r]) t"
proof -
  obtain before e later x where "h = before @ e # later" "t = (if snd e \<noteq> 0 then snd e else 1)"
    "\<forall>x \<in> set (e # later). \<not> fst x" "x \<in> set before" "fst x"
    using assms(1) unfolding gone_from_def by (elim exE conjE bexE)
  with assms(2) show ?thesis
    by (intro gone_fromI [of _ before e "later @ [r]" _ x]) auto
qed

definition exit_rel :: "bool \<Rightarrow> (bool \<times> u64) list \<Rightarrow> exit_watch \<Rightarrow> bool" where
  "exit_rel enabled h e \<longleftrightarrow> ew_enabled e = enabled \<and> (ew_seen e \<longrightarrow> (\<exists>r \<in> set h. fst r)) \<and>
     (ew_gone_since e \<noteq> 0 \<longrightarrow> ew_enabled e \<and> ew_seen e \<and> gone_from h (ew_gone_since e))"

lemma exit_rel_step:
  assumes rel: "exit_rel enabled h e"
  shows "exit_rel enabled (h @ [r]) (fst (observe_exit (fst r) (snd r) e))"
proof -
  consider "\<not> ew_enabled e \<or> (\<not> fst r \<and> \<not> ew_seen e)" | "ew_enabled e" "fst r"
    | "ew_enabled e" "\<not> fst r" "ew_seen e" "ew_gone_since e = 0"
    | "ew_enabled e" "\<not> fst r" "ew_seen e" "ew_gone_since e \<noteq> 0"
    by blast
  then show ?thesis
  proof cases
    case 1
    with rel have "fst (observe_exit (fst r) (snd r) e) = e" "ew_gone_since e = 0"
      by (auto simp: observe_exit_def exit_rel_def)
    with rel show ?thesis
      by (auto simp: exit_rel_def)
  next
    case 2
    then show ?thesis
      using rel by (simp add: observe_exit_def exit_rel_def)
  next
    case 3
    then obtain x where "x \<in> set h" "fst x"
      using rel by (auto simp: exit_rel_def)
    then have "gone_from (h @ [r]) (if snd r \<noteq> 0 then snd r else 1)"
      using 3 by (intro gone_fromI [of _ h r "[]" _ x]) simp_all
    with 3 rel show ?thesis
      by (auto simp: exit_rel_def observe_exit_def)
  next
    case 4
    then have "fst (observe_exit (fst r) (snd r) e) = e"
      by (simp add: observe_exit_def)
    with 4 rel show ?thesis
      by (simp add: exit_rel_def gone_from_extend)
  qed
qed

interpretation exiting: traced "\<lambda>r e. fst (observe_exit (fst r) (snd r) e)" "new_exit_watch enabled" "exit_rel enabled" for enabled
  by unfold_locales (simp add: exit_rel_def new_exit_watch_def, rule exit_rel_step)

text \<open>An exit follows a simulator that was seen and has been gone for five seconds.\<close>

lemma exit_needs_gone_simulator:
  assumes "snd (observe_exit running now (fold (\<lambda>r e. fst (observe_exit (fst r) (snd r) e)) h (new_exit_watch enabled)))"
  shows "enabled \<and> \<not> running \<and> (\<exists>t. gone_from h t \<and> t \<le> now \<and> 5000 \<le> now - t)"
proof -
  let ?e = "fold (\<lambda>r e. fst (observe_exit (fst r) (snd r) e)) h (new_exit_watch enabled)"
  have "exit_rel enabled h ?e"
    by (rule exiting.trace)
  moreover have "ew_enabled ?e" "\<not> running" "ew_gone_since ?e \<noteq> 0" "ew_gone_since ?e \<le> now" "5000 \<le> now - ew_gone_since ?e"
    using assms by (auto simp: observe_exit_def exit_grace_ms_def split: if_splits)
  ultimately show ?thesis
    by (auto simp: exit_rel_def)
qed

record setup_session =
  cs_active :: bool
  cs_owner :: u32
  cs_request :: u64
  cs_generation :: u64

definition new_setup_session :: setup_session where
  "new_setup_session = \<lparr>cs_active = False, cs_owner = 0, cs_request = 0, cs_generation = 0\<rparr>"

text \<open>The result: started, stopped and the generation.\<close>

definition observe_setup :: "bool \<Rightarrow> bool \<Rightarrow> u32 \<Rightarrow> u64 \<Rightarrow> setup_session \<Rightarrow> setup_session \<times> bool \<times> bool \<times> u64" where
  "observe_setup connected enabled owner request s =
     (let active = (connected \<and> enabled \<and> owner \<noteq> 0);
          started = (active \<and> (\<not> cs_active s \<or> owner \<noteq> cs_owner s \<or> request \<noteq> cs_request s));
          stopped = (cs_active s \<and> \<not> active);
          generation = (if started \<and> cs_generation s \<noteq> u64_max then cs_generation s + 1 else cs_generation s)
      in (\<lparr>cs_active = active, cs_owner = owner, cs_request = request, cs_generation = generation\<rparr>,
          started, stopped, generation))"

text \<open>A repeated observation of the same session neither starts nor stops anything.\<close>

lemma setup_repeats_silent:
  "observe_setup connected enabled owner request (fst (observe_setup connected enabled owner request s)) =
     (fst (observe_setup connected enabled owner request s), False, False,
      cs_generation (fst (observe_setup connected enabled owner request s)))"
  by (simp add: observe_setup_def Let_def)

lemma setup_generation_rises:
  "cs_generation s \<le> cs_generation (fst (observe_setup connected enabled owner request s))"
  using word_inc_greater [of "cs_generation s"] by (auto simp: observe_setup_def Let_def less_imp_le)

end
