(* ===== verification/Camera_Intent.thy ===== *)
theory Camera_Intent
  imports Taxi_Buttons Session_Watch
begin

text \<open>
  What the pilot asks for.  \<open>src/shared/manual_camera_intent.hpp\<close>: the camera actions of shortcuts,
  bindings and previews and their effect on the settings; \<open>src/shared/profile_selection.hpp\<close> and the
  connection commands of \<open>src/app/connection_recoverability.hpp\<close>, which reset or stop them; the sides of
  an aircraft profile (\<open>src/profiles/catalog.hpp\<close>); and the lines of \<open>src/bridge/bridge_main.cpp\<close> that
  hand a request to the button dispatcher (\<open>Taxi_Buttons\<close>) and work out the requested sides.  The
  records hold the fields these functions read or write.
\<close>

subsection \<open>Profiles\<close>

datatype taxi_control = Push_Event | Lvar_Off | Manual_Only | Pmdg_Dsp_Cam
datatype display_layout = Layout_Pair | Layout_Shared_Texture | Layout_Fitted

text \<open>A TAXI variable of a side is a C string that may be null.\<close>

record aircraft_profile =
  ap_id :: u32
  ap_taxi_lvars :: "string option list"
  ap_taxi_control :: taxi_control
  ap_layout :: display_layout
  ap_lower_texture :: string
  ap_sides :: nat
  ap_fit_texture :: bool

definition side_mask :: "aircraft_profile \<Rightarrow> u32" where
  "side_mask p = (if ap_sides p \<ge> max_display_sides then all_display_sides else push_bit (ap_sides p) 1 - 1)"

definition separate_lower_texture :: "aircraft_profile \<Rightarrow> bool" where
  "separate_lower_texture p \<longleftrightarrow> ap_sides p > 2 \<and> ap_layout p = Layout_Shared_Texture \<and> ap_lower_texture p \<noteq> []"

definition pilot_pair :: "aircraft_profile \<Rightarrow> bool" where
  "pilot_pair p \<longleftrightarrow> \<not> ap_fit_texture p \<and> ap_layout p = Layout_Pair"

definition named_lower_side :: "aircraft_profile \<Rightarrow> bool" where
  "named_lower_side p \<longleftrightarrow> ap_sides p > 2 \<and> pilot_pair p"

definition own_lower_texture :: "aircraft_profile \<Rightarrow> bool" where
  "own_lower_texture p \<longleftrightarrow> separate_lower_texture p \<or> named_lower_side p \<or> (ap_fit_texture p \<and> ap_sides p > 2)"

definition shared_texture_sides :: "aircraft_profile \<Rightarrow> u32" where
  "shared_texture_sides p = (if separate_lower_texture p then side_mask p AND NOT 4 else side_mask p)"

definition commandable_buttons :: "aircraft_profile \<Rightarrow> bool" where
  "commandable_buttons p \<longleftrightarrow> ap_taxi_control p = Push_Event \<or> ap_taxi_control p = Lvar_Off"

text \<open>The leading sides that name a TAXI variable.\<close>

definition names_lvar :: "string option \<Rightarrow> bool" where
  "names_lvar v \<longleftrightarrow> (case v of Some (c # cs) \<Rightarrow> True | _ \<Rightarrow> False)"

definition taxi_latches :: "aircraft_profile \<Rightarrow> nat" where
  "taxi_latches p = length (takeWhile names_lvar (take (min (ap_sides p) max_display_sides) (ap_taxi_lvars p)))"

definition taxi_button_sides :: "aircraft_profile \<Rightarrow> u32" where
  "taxi_button_sides p = push_bit (taxi_latches p) 1 - 1"

subsection \<open>Settings and status\<close>

record companion_settings =
  cs_enabled :: u32
  cs_route_request :: u64
  cs_left_id :: u64
  cs_right_id :: u64
  cs_lower_id :: u64
  cs_profile_request :: u64
  cs_session_epoch :: u64
  cs_taxi_request :: u64
  cs_taxi_selected :: u32
  cs_taxi_desired :: u32
  cs_auto_profile :: u32
  cs_profile :: u32
  cs_follow_taxi :: u32
  cs_manual_mask :: u32
  cs_calibration_mask :: u32
  cs_scene_test :: u32
  cs_door_side :: u32
  cs_door_on :: u32

record bridge_status =
  st_heartbeat :: u64
  st_session_epoch :: u64
  st_active_profile :: u32
  st_detected_profile :: u32
  st_buttons_valid :: bool
  st_buttons_mask :: u32
  st_buttons_sample_ms :: u64
  st_request_seen :: u64
  st_request_pending :: u32

text \<open>The catalog with the user's overrides, \<open>profiles::find\<close>, is data: a lookup by id.\<close>

type_synonym catalog = "u32 \<Rightarrow> aircraft_profile option"

subsection \<open>Camera actions\<close>

text \<open>0 left, 1 right, 2 both pilot displays, 3 lower, 4 door.\<close>

definition camera_both :: nat where "camera_both = 2"
definition camera_sd :: nat where "camera_sd = 3"
definition camera_door :: nat where "camera_door = 4"

definition pilot_display_sides :: u32 where "pilot_display_sides = 3"

definition camera_action_sides :: "aircraft_profile \<Rightarrow> nat \<Rightarrow> u32" where
  "camera_action_sides p action =
     (let affected = (if action = camera_both then pilot_display_sides
                      else if action < camera_door then push_bit (if action = camera_sd then 2 else action) 1 else 0)
      in if affected AND side_mask p = affected then affected else 0)"

definition toggle_sides :: "u32 \<Rightarrow> u32 \<Rightarrow> u32" where
  "toggle_sides m affected = (if m AND affected = affected then m AND NOT affected else m OR affected)"

definition profile_action :: "catalog \<Rightarrow> companion_settings \<Rightarrow> nat \<Rightarrow> u32" where
  "profile_action find_profile s action =
     (case find_profile (cs_profile s) of None \<Rightarrow> 0 | Some p \<Rightarrow> camera_action_sides p action)"

definition profile_sides :: "catalog \<Rightarrow> companion_settings \<Rightarrow> u32" where
  "profile_sides find_profile s = (case find_profile (cs_profile s) of None \<Rightarrow> 0 | Some p \<Rightarrow> side_mask p)"

definition toggle_manual_camera :: "catalog \<Rightarrow> nat \<Rightarrow> u32 \<Rightarrow> companion_settings \<Rightarrow> companion_settings" where
  "toggle_manual_camera find_profile action automatic s =
     (let affected = profile_action find_profile s action
      in if affected = 0 then s
         else s\<lparr>cs_manual_mask := toggle_sides ((if cs_follow_taxi s \<noteq> 0 then automatic else cs_manual_mask s) AND
                  profile_sides find_profile s) affected,
                cs_follow_taxi := 0, cs_calibration_mask := 0, cs_scene_test := 0\<rparr>)"

definition toggle_manual_layer :: "catalog \<Rightarrow> nat \<Rightarrow> companion_settings \<Rightarrow> companion_settings" where
  "toggle_manual_layer find_profile action s =
     (let affected = profile_action find_profile s action
      in if affected = 0 then s
         else s\<lparr>cs_manual_mask := toggle_sides (cs_manual_mask s AND profile_sides find_profile s) affected,
                cs_calibration_mask := 0, cs_scene_test := 0\<rparr>)"

datatype hotkey_result = Hotkey_Manual | Hotkey_Aircraft | Hotkey_Unavailable

text \<open>The reading of the cockpit buttons is missing, stale, or of another session or aircraft.\<close>

definition buttons_unreadable :: "aircraft_profile \<Rightarrow> companion_settings \<Rightarrow> bridge_status \<Rightarrow> u64 \<Rightarrow> bool" where
  "buttons_unreadable p s t now \<longleftrightarrow>
     cs_enabled s = 0 \<or> st_heartbeat t = 0 \<or> now < st_heartbeat t \<or> now - st_heartbeat t > 3000 \<or>
     st_session_epoch t \<noteq> cs_session_epoch s \<or> st_active_profile t \<noteq> cs_profile s \<or>
     st_detected_profile t \<noteq> cs_profile s \<or> \<not> st_buttons_valid t \<or>
     st_buttons_mask t AND NOT (side_mask p) \<noteq> 0 \<or>
     st_buttons_sample_ms t = 0 \<or> now < st_buttons_sample_ms t \<or> now - st_buttons_sample_ms t > 500 \<or>
     max (cs_taxi_request s) (st_request_seen t) = u64_max"

definition pending_request :: "companion_settings \<Rightarrow> bridge_status \<Rightarrow> u32" where
  "pending_request s t =
     (if cs_taxi_request s > st_request_seen t then cs_taxi_selected s
      else if cs_taxi_request s = st_request_seen t then cs_taxi_selected s AND st_request_pending t else 0)"

text \<open>The buttons as requested: the cockpit's with the outstanding commands laid over them.\<close>

definition requested_buttons :: "companion_settings \<Rightarrow> bridge_status \<Rightarrow> u32" where
  "requested_buttons s t =
     (if cs_follow_taxi s \<noteq> 0
      then (st_buttons_mask t AND NOT (pending_request s t)) OR (cs_taxi_desired s AND pending_request s t)
      else cs_manual_mask s)"

definition request_camera_hotkey ::
  "catalog \<Rightarrow> nat \<Rightarrow> bridge_status \<Rightarrow> u64 \<Rightarrow> companion_settings \<Rightarrow> hotkey_result \<times> companion_settings" where
  "request_camera_hotkey find_profile action t now s =
     (case find_profile (cs_profile s) of
        None \<Rightarrow> (Hotkey_Unavailable, s)
      | Some p \<Rightarrow>
          if camera_action_sides p action = 0 then (Hotkey_Unavailable, s)
          else if ap_taxi_control p = Pmdg_Dsp_Cam then (Hotkey_Manual, toggle_manual_layer find_profile action s)
          else if ap_taxi_control p = Manual_Only then
            (Hotkey_Manual, (toggle_manual_camera find_profile action 0 s)\<lparr>cs_follow_taxi := cs_follow_taxi s\<rparr>)
          else if camera_action_sides p action AND NOT (taxi_button_sides p) \<noteq> 0 then
            (Hotkey_Manual, toggle_manual_layer find_profile action s)
          else if buttons_unreadable p s t now then (Hotkey_Unavailable, s)
          else
            let pending = pending_request s t; affected = camera_action_sides p action;
                target = toggle_sides (requested_buttons s t) affected; buttons = taxi_button_sides p
            in (Hotkey_Aircraft,
                s\<lparr>cs_taxi_desired := (cs_taxi_desired s AND pending AND NOT affected) OR (target AND affected),
                  cs_taxi_selected := pending OR affected,
                  cs_taxi_request := max (cs_taxi_request s) (st_request_seen t) + 1,
                  cs_manual_mask := (target AND buttons) OR (cs_manual_mask s AND NOT buttons),
                  cs_calibration_mask := 0, cs_scene_test := 0\<rparr>))"

definition door_camera_set_up :: "catalog \<Rightarrow> companion_settings \<Rightarrow> bool" where
  "door_camera_set_up find_profile s \<longleftrightarrow>
     (case find_profile (cs_profile s) of None \<Rightarrow> False
      | Some p \<Rightarrow> unat (cs_door_side s) < max_display_sides \<and> bit (side_mask p) (unat (cs_door_side s)))"

definition toggle_door_camera :: "catalog \<Rightarrow> companion_settings \<Rightarrow> bool \<times> companion_settings" where
  "toggle_door_camera find_profile s =
     (if \<not> door_camera_set_up find_profile s then (False, s)
      else (True, s\<lparr>cs_door_on := cs_door_on s XOR 1, cs_calibration_mask := 0, cs_scene_test := 0\<rparr>))"

definition camera_action_requested :: "catalog \<Rightarrow> companion_settings \<Rightarrow> bridge_status \<Rightarrow> nat \<Rightarrow> bool" where
  "camera_action_requested find_profile s t action =
     (if action = camera_door then cs_door_on s \<noteq> 0
      else case find_profile (cs_profile s) of
        None \<Rightarrow> False
      | Some p \<Rightarrow>
          let affected = camera_action_sides p action;
              cockpit = (cs_follow_taxi s \<noteq> 0 \<and> ap_taxi_control p \<noteq> Manual_Only \<and> ap_taxi_control p \<noteq> Pmdg_Dsp_Cam);
              buttons = taxi_button_sides p;
              m = (if cockpit then (st_buttons_mask t AND buttons) OR (cs_manual_mask s AND NOT buttons)
                   else cs_manual_mask s)
          in if affected = 0 then False else m AND affected = affected)"

subsection \<open>Sessions and connection\<close>

definition reset_aircraft_session :: "u64 \<Rightarrow> companion_settings \<Rightarrow> companion_settings" where
  "reset_aircraft_session epoch s =
     s\<lparr>cs_session_epoch := epoch, cs_left_id := 0, cs_right_id := 0, cs_lower_id := 0, cs_route_request := 0,
       cs_manual_mask := 0, cs_calibration_mask := 0, cs_scene_test := 0, cs_door_on := 0,
       cs_taxi_request := (if cs_taxi_request s \<noteq> 0 \<and> cs_taxi_request s \<noteq> u64_max then cs_taxi_request s + 1
                           else cs_taxi_request s),
       cs_taxi_selected := 0, cs_taxi_desired := 0\<rparr>"

text \<open>The range check of all settings (\<open>valid_settings\<close>) is passed in.\<close>

definition prepare_profile_selection ::
  "(companion_settings \<Rightarrow> bool) \<Rightarrow> companion_settings \<Rightarrow> bool \<Rightarrow> companion_settings \<Rightarrow> bool \<times> companion_settings" where
  "prepare_profile_selection valid_settings previous automatic next_settings =
     (if cs_profile_request previous = u64_max \<or> \<not> valid_settings next_settings then (False, next_settings)
      else (True, reset_aircraft_session (cs_session_epoch previous)
        (next_settings\<lparr>cs_profile_request := cs_profile_request previous + 1, cs_auto_profile := (if automatic then 1 else 0),
           cs_taxi_request := cs_taxi_request previous\<rparr>)))"

definition apply_connection_command :: "connect_command \<Rightarrow> companion_settings \<Rightarrow> companion_settings" where
  "apply_connection_command command s =
     (if command = Connect \<or> command = Connect_Reset then s\<lparr>cs_enabled := 1\<rparr>
      else if command = Disconnect then
        s\<lparr>cs_enabled := 0, cs_manual_mask := 0, cs_calibration_mask := 0, cs_scene_test := 0,
          cs_taxi_selected := 0, cs_taxi_desired := 0\<rparr>
      else s)"

definition begin_connection :: "companion_settings \<Rightarrow> bool \<times> companion_settings" where
  "begin_connection s =
     (if cs_profile_request s = u64_max then (False, s)
      else (True, apply_connection_command Connect (reset_aircraft_session (cs_session_epoch s)
              (s\<lparr>cs_profile_request := cs_profile_request s + 1\<rparr>))))"

subsection \<open>The bridge's use of the settings\<close>

definition bridge_request :: "catalog \<Rightarrow> companion_settings \<Rightarrow> button_request" where
  "bridge_request find_profile s =
     (let sides = (case find_profile (cs_profile s) of Some p \<Rightarrow> taxi_button_sides p | None \<Rightarrow> pilot_display_sides)
      in \<lparr>br_serial = cs_taxi_request s, br_epoch = cs_session_epoch s, br_profile = cs_profile s,
          br_selected = cs_taxi_selected s AND sides, br_desired = cs_taxi_desired s AND sides\<rparr>)"

definition requested_mask :: "catalog \<Rightarrow> companion_settings \<Rightarrow> u32 \<Rightarrow> u32" where
  "requested_mask find_profile s desired_buttons =
     (let prof = find_profile (cs_profile s);
          pmdg = (case prof of Some p \<Rightarrow> ap_taxi_control p = Pmdg_Dsp_Cam | None \<Rightarrow> False);
          manual_only = (case prof of Some p \<Rightarrow> ap_taxi_control p = Manual_Only | None \<Rightarrow> False);
          sides = (case prof of Some p \<Rightarrow> side_mask p | None \<Rightarrow> pilot_display_sides);
          manual_layer = (case prof of Some p \<Rightarrow> cs_manual_mask s AND NOT (taxi_button_sides p) | None \<Rightarrow> 0)
      in (if pmdg then (if cs_follow_taxi s \<noteq> 0 then desired_buttons else 0) OR cs_manual_mask s
          else if cs_follow_taxi s \<noteq> 0 \<and> \<not> manual_only then desired_buttons OR manual_layer
          else cs_manual_mask s) AND sides)"

subsection \<open>Masks\<close>

lemma mask_pred_bit: "n \<le> 32 \<Longrightarrow> bit (push_bit n 1 - 1 :: u32) k \<longleftrightarrow> k < n \<and> k < 32"
  by (auto simp add: bit_mask_iff simp flip: mask_eq_exp_minus_1)

lemma side_mask_bit: "bit (side_mask p) k \<longleftrightarrow> k < ap_sides p \<and> k < max_display_sides"
proof (cases "ap_sides p \<ge> max_display_sides")
  case True
  then show ?thesis
    by (auto simp: side_mask_def all_sides_bit)
next
  case False
  then have "ap_sides p \<le> 32" "k < ap_sides p \<Longrightarrow> k < 32"
    by (simp_all add: max_display_sides_def)
  with False show ?thesis
    using mask_pred_bit [of "ap_sides p" k] by (auto simp: side_mask_def)
qed

lemma latches_le: "taxi_latches p \<le> ap_sides p" "taxi_latches p \<le> max_display_sides"
  using length_takeWhile_le [of names_lvar "take (min (ap_sides p) max_display_sides) (ap_taxi_lvars p)"]
  by (simp_all add: taxi_latches_def)

lemma button_sides_bit: "bit (taxi_button_sides p) k \<longleftrightarrow> k < taxi_latches p"
proof -
  have "taxi_latches p \<le> 32" "k < taxi_latches p \<Longrightarrow> k < 32"
    using latches_le(2) [of p] by (simp_all add: max_display_sides_def)
  then show ?thesis
    using mask_pred_bit [of "taxi_latches p" k] by (auto simp: taxi_button_sides_def)
qed

lemma button_sides_subset: "bit (taxi_button_sides p) k \<Longrightarrow> bit (side_mask p) k \<and> k < max_display_sides"
  using latches_le [of p] by (simp add: button_sides_bit side_mask_bit)

lemma and_eq_bits: "x AND a = a \<longleftrightarrow> (\<forall>n. bit a n \<longrightarrow> bit x n)" for x a :: u32
proof
  assume "x AND a = a"
  then show "\<forall>n. bit a n \<longrightarrow> bit x n"
    by (metis bit_and_iff)
next
  assume "\<forall>n. bit a n \<longrightarrow> bit x n"
  then show "x AND a = a"
    by (intro bit_word_eqI) (auto simp: bit_and_iff)
qed

lemma nonzero_bit: "x \<noteq> 0 \<longleftrightarrow> (\<exists>n. bit x n)" for x :: u32
  by (metis bit_0_eq bit_eq_iff bot_apply bot_bool_def)

lemma and_not_bit: "bit (x AND NOT y) n \<longleftrightarrow> bit x n \<and> \<not> bit y n" for x y :: u32
  using bit_imp_le_length [of x n] by (auto simp: bit_and_iff bit_not_iff)

lemma guarded_bit: "bit (if a AND b = a then a else 0 :: u32) n \<Longrightarrow> bit b n"
  using and_eq_bits [of b a] by (simp add: and.commute split: if_splits)

lemma action_sides_bit: "bit (camera_action_sides p action) n \<Longrightarrow> bit (side_mask p) n"
  unfolding camera_action_sides_def Let_def by (rule guarded_bit)

lemma toggle_bit: "bit (toggle_sides m a) n \<longleftrightarrow>
    (if bit a n then \<not> (m AND a = a) else bit m n)"
  by (auto simp: toggle_sides_def and_not_bit bit_or_iff)

text \<open>Toggling turns everything affected on, or off if it all was on.\<close>

lemma toggle_flips: "a \<noteq> 0 \<Longrightarrow> toggle_sides m a AND a = a \<longleftrightarrow> m AND a \<noteq> a"
  unfolding and_eq_bits [of "toggle_sides m a"] by (auto simp: toggle_bit nonzero_bit)

subsection \<open>Settings stay valid\<close>

text \<open>
  The part of the bridge's check of settings (\<open>valid_settings\<close>) that concerns the fields here: the
  masks lie within the profile's sides and a button request is complete.
\<close>

definition intent_ok :: "catalog \<Rightarrow> companion_settings \<Rightarrow> bool" where
  "intent_ok find_profile s \<longleftrightarrow>
     (\<forall>n. bit (cs_manual_mask s) n \<or> bit (cs_calibration_mask s) n \<or> bit (cs_taxi_selected s) n \<longrightarrow>
        bit (profile_sides find_profile s) n) \<and>
     (\<forall>n. bit (cs_taxi_desired s) n \<longrightarrow> bit (cs_taxi_selected s) n) \<and>
     (cs_taxi_request s = 0 \<longrightarrow> cs_taxi_selected s = 0) \<and> cs_scene_test s \<le> 1"

datatype intent_event =
  Manual_Toggle nat u32
| Layer_Toggle nat
| Hotkey nat bridge_status u64
| Door_Toggle
| Session_Change u64
| Connection connect_command
| Connection_Begin

fun intent_step :: "catalog \<Rightarrow> intent_event \<Rightarrow> companion_settings \<Rightarrow> companion_settings" where
  "intent_step f (Manual_Toggle action automatic) s = toggle_manual_camera f action automatic s"
| "intent_step f (Layer_Toggle action) s = toggle_manual_layer f action s"
| "intent_step f (Hotkey action t now) s = snd (request_camera_hotkey f action t now s)"
| "intent_step f Door_Toggle s = snd (toggle_door_camera f s)"
| "intent_step f (Session_Change epoch) s = reset_aircraft_session epoch s"
| "intent_step f (Connection command) s = apply_connection_command command s"
| "intent_step f Connection_Begin s = snd (begin_connection s)"

lemma profile_action_bit: "bit (profile_action f s action) n \<Longrightarrow> bit (profile_sides f s) n"
  by (auto simp: profile_action_def profile_sides_def action_sides_bit split: option.splits)

lemma toggle_within: "bit (toggle_sides (m AND b) a) n \<Longrightarrow> (bit a n \<Longrightarrow> bit b n) \<Longrightarrow> bit b n"
  by (auto simp: toggle_bit bit_and_iff split: if_splits)

lemma manual_toggle_ok: "intent_ok f s \<Longrightarrow> intent_ok f (toggle_manual_camera f action automatic s)"
  by (auto simp: intent_ok_def toggle_manual_camera_def Let_def profile_sides_def [of f "cs_manual_mask_update x y" for x y]
      dest!: toggle_within intro: profile_action_bit split: option.splits) (auto simp: profile_sides_def)


lemma layer_toggle_ok: "intent_ok f s \<Longrightarrow> intent_ok f (toggle_manual_layer f action s)"
  by (auto simp: intent_ok_def toggle_manual_layer_def Let_def profile_sides_def [of f "cs_manual_mask_update x y" for x y]
      dest!: toggle_within intro: profile_action_bit split: option.splits) (auto simp: profile_sides_def)

lemma follow_kept_ok: "intent_ok f s \<Longrightarrow> intent_ok f (s\<lparr>cs_follow_taxi := x\<rparr>)"
  by (simp add: intent_ok_def profile_sides_def)

text \<open>The request a shortcut sends to the aircraft.\<close>

definition shortcut_request :: "aircraft_profile \<Rightarrow> nat \<Rightarrow> bridge_status \<Rightarrow> companion_settings \<Rightarrow> companion_settings" where
  "shortcut_request p action t s =
     (let pending = pending_request s t; affected = camera_action_sides p action;
          target = toggle_sides (requested_buttons s t) affected; buttons = taxi_button_sides p
      in s\<lparr>cs_taxi_desired := (cs_taxi_desired s AND pending AND NOT affected) OR (target AND affected),
           cs_taxi_selected := pending OR affected,
           cs_taxi_request := max (cs_taxi_request s) (st_request_seen t) + 1,
           cs_manual_mask := (target AND buttons) OR (cs_manual_mask s AND NOT buttons),
           cs_calibration_mask := 0, cs_scene_test := 0\<rparr>)"

lemma hotkey_cases:
  obtains "request_camera_hotkey f action t now s = (Hotkey_Unavailable, s)"
  | p where "f (cs_profile s) = Some p" "camera_action_sides p action \<noteq> 0"
      "ap_taxi_control p = Pmdg_Dsp_Cam \<or> ap_taxi_control p \<noteq> Manual_Only \<and> camera_action_sides p action AND NOT (taxi_button_sides p) \<noteq> 0"
      "request_camera_hotkey f action t now s = (Hotkey_Manual, toggle_manual_layer f action s)"
  | p where "f (cs_profile s) = Some p" "camera_action_sides p action \<noteq> 0" "ap_taxi_control p = Manual_Only"
      "request_camera_hotkey f action t now s =
         (Hotkey_Manual, (toggle_manual_camera f action 0 s)\<lparr>cs_follow_taxi := cs_follow_taxi s\<rparr>)"
  | p where "f (cs_profile s) = Some p" "camera_action_sides p action \<noteq> 0"
      "camera_action_sides p action AND NOT (taxi_button_sides p) = 0" "\<not> buttons_unreadable p s t now"
      "request_camera_hotkey f action t now s = (Hotkey_Aircraft, shortcut_request p action t s)"
proof (cases "f (cs_profile s)")
  case None
  then show ?thesis
    using that(1) by (simp add: request_camera_hotkey_def)
next
  case (Some p)
  let ?a = "camera_action_sides p action"
  have eq: "request_camera_hotkey f action t now s =
     (if ?a = 0 then (Hotkey_Unavailable, s)
      else if ap_taxi_control p = Pmdg_Dsp_Cam then (Hotkey_Manual, toggle_manual_layer f action s)
      else if ap_taxi_control p = Manual_Only then
        (Hotkey_Manual, (toggle_manual_camera f action 0 s)\<lparr>cs_follow_taxi := cs_follow_taxi s\<rparr>)
      else if ?a AND NOT (taxi_button_sides p) \<noteq> 0 then (Hotkey_Manual, toggle_manual_layer f action s)
      else if buttons_unreadable p s t now then (Hotkey_Unavailable, s)
      else (Hotkey_Aircraft, shortcut_request p action t s))"
    by (simp add: request_camera_hotkey_def Some shortcut_request_def Let_def)
  consider "?a = 0" | "?a \<noteq> 0" "ap_taxi_control p = Pmdg_Dsp_Cam"
    | "?a \<noteq> 0" "ap_taxi_control p \<noteq> Pmdg_Dsp_Cam" "ap_taxi_control p = Manual_Only"
    | "?a \<noteq> 0" "ap_taxi_control p \<noteq> Pmdg_Dsp_Cam" "ap_taxi_control p \<noteq> Manual_Only" "?a AND NOT (taxi_button_sides p) \<noteq> 0"
    | "?a \<noteq> 0" "ap_taxi_control p \<noteq> Pmdg_Dsp_Cam" "ap_taxi_control p \<noteq> Manual_Only" "?a AND NOT (taxi_button_sides p) = 0"
    by blast
  then show ?thesis
  proof cases
    case 1
    then show ?thesis
      by (intro that(1)) (simp add: eq)
  next
    case 2
    then show ?thesis
      by (intro that(2) [OF Some]) (simp_all add: eq)
  next
    case 3
    then show ?thesis
      by (intro that(3) [OF Some]) (simp_all add: eq)
  next
    case 4
    then show ?thesis
      by (intro that(2) [OF Some]) (simp_all add: eq)
  next
    case 5
    then show ?thesis
      by (cases "buttons_unreadable p s t now") (intro that(1), simp add: eq, intro that(4) [OF Some], simp_all add: eq)
  qed
qed

lemma shortcut_request_ok:
  assumes "intent_ok f s" and "f (cs_profile s) = Some p" and "max (cs_taxi_request s) (st_request_seen t) \<noteq> u64_max"
  shows "intent_ok f (shortcut_request p action t s)"
proof -
  have sides: "profile_sides f s = side_mask p" "profile_sides f (shortcut_request p action t s) = side_mask p"
    using assms(2) by (simp_all add: profile_sides_def shortcut_request_def Let_def)
  have pending: "bit (pending_request s t) n \<Longrightarrow> bit (side_mask p) n" for n
    using assms(1) by (auto simp: intent_ok_def sides pending_request_def bit_and_iff split: if_splits)
  have "max (cs_taxi_request s) (st_request_seen t) + 1 \<noteq> 0"
    using assms(3) by (metis add.inverse_inverse add_eq_0_iff2)
  moreover have "bit (cs_manual_mask (shortcut_request p action t s)) n \<Longrightarrow> bit (side_mask p) n"
    "bit (cs_taxi_selected (shortcut_request p action t s)) n \<Longrightarrow> bit (side_mask p) n" for n
    using assms(1) pending [of n] button_sides_subset [of p n] action_sides_bit [of p action n]
    by (auto simp: shortcut_request_def Let_def bit_or_iff bit_and_iff and_not_bit sides intent_ok_def)
  moreover have "bit (cs_taxi_desired (shortcut_request p action t s)) n \<Longrightarrow> bit (cs_taxi_selected (shortcut_request p action t s)) n" for n
    by (auto simp: shortcut_request_def Let_def bit_or_iff bit_and_iff and_not_bit)
  moreover have "cs_calibration_mask (shortcut_request p action t s) = 0" "cs_scene_test (shortcut_request p action t s) = 0"
    "cs_taxi_request (shortcut_request p action t s) = max (cs_taxi_request s) (st_request_seen t) + 1"
    by (simp_all add: shortcut_request_def Let_def)
  ultimately show ?thesis
    unfolding intent_ok_def sides(2) by auto
qed

lemma hotkey_ok: "intent_ok f s \<Longrightarrow> intent_ok f (snd (request_camera_hotkey f action t now s))"
  by (rule hotkey_cases [of f action t now s])
    (auto simp: layer_toggle_ok follow_kept_ok manual_toggle_ok buttons_unreadable_def intro: shortcut_request_ok)

lemma intent_step_ok:
  assumes "intent_ok f s"
  shows "intent_ok f (intent_step f ev s)"
proof (cases ev)
  case (Session_Change epoch)
  then show ?thesis
    using assms by (auto simp: intent_ok_def reset_aircraft_session_def profile_sides_def)
next
  case (Connection command)
  then show ?thesis
    using assms by (auto simp: intent_ok_def apply_connection_command_def profile_sides_def)
next
  case Connection_Begin
  then show ?thesis
    using assms by (auto simp: intent_ok_def begin_connection_def apply_connection_command_def reset_aircraft_session_def
        profile_sides_def)
next
  case Door_Toggle
  then show ?thesis
    using assms by (auto simp: intent_ok_def toggle_door_camera_def profile_sides_def)
qed (use assms in \<open>simp_all add: manual_toggle_ok layer_toggle_ok hotkey_ok\<close>)

interpretation intents: machine "intent_step f" "intent_ok f" "\<lambda>_. True" for f
  by unfold_locales (rule intent_step_ok)

lemma bridge_request_valid:
  assumes "intent_ok f s"
  shows "br_selected (bridge_request f s) AND NOT all_display_sides = 0"
    and "br_desired (bridge_request f s) AND NOT (br_selected (bridge_request f s)) = 0"
proof -
  have three: "bit (3::u32) n \<Longrightarrow> n < max_display_sides" for n
    using mask_pred_bit [of 2 n] by (simp add: max_display_sides_def)
  show "br_selected (bridge_request f s) AND NOT all_display_sides = 0"
    using button_sides_subset three unfolding subset_bits
    by (auto simp: all_sides_bit bridge_request_def Let_def bit_and_iff pilot_display_sides_def split: option.splits)
  show "br_desired (bridge_request f s) AND NOT (br_selected (bridge_request f s)) = 0"
    using assms unfolding subset_bits by (auto simp: bridge_request_def Let_def bit_and_iff intent_ok_def)
qed

text \<open>C33: Whatever the pilot does, the settings stay valid.  Starting from valid settings, after any sequence
  of shortcuts, previews, door toggles, session changes and connection commands the masks lie within the
  sides of the profile and the button request is complete, so the request the bridge hands to the
  dispatcher is never refused as invalid.
\<close>
theorem intents_stay_valid:
  assumes "intent_ok f s" and "s' = fold (intent_step f) evs s"
  shows "intent_ok f s' \<and> br_selected (bridge_request f s') AND NOT all_display_sides = 0 \<and>
    br_desired (bridge_request f s') AND NOT (br_selected (bridge_request f s')) = 0"
proof -
  have "intent_ok f s'"
    unfolding assms(2) using assms(1) by (intro intents.run_inv) (simp_all add: list_all_iff)
  then show ?thesis
    using bridge_request_valid by blast
qed

definition sample_profile :: aircraft_profile where
  "sample_profile = \<lparr>ap_id = 1, ap_taxi_lvars = [Some ''L:L'', Some ''L:R'', None], ap_taxi_control = Push_Event,
     ap_layout = Layout_Pair, ap_lower_texture = [], ap_sides = 2, ap_fit_texture = False\<rparr>"

definition sample_settings :: companion_settings where
  "sample_settings = \<lparr>cs_enabled = 1, cs_route_request = 0, cs_left_id = 0, cs_right_id = 0, cs_lower_id = 0,
     cs_profile_request = 0, cs_session_epoch = 5, cs_taxi_request = 0, cs_taxi_selected = 0, cs_taxi_desired = 0,
     cs_auto_profile = 1, cs_profile = 1, cs_follow_taxi = 1, cs_manual_mask = 0, cs_calibration_mask = 0,
     cs_scene_test = 0, cs_door_side = 3, cs_door_on = 0\<rparr>"

definition sample_status :: bridge_status where
  "sample_status = \<lparr>st_heartbeat = 900, st_session_epoch = 5, st_active_profile = 1, st_detected_profile = 1,
     st_buttons_valid = True, st_buttons_mask = 0, st_buttons_sample_ms = 950, st_request_seen = 4, st_request_pending = 0\<rparr>"

definition sample_catalog :: catalog where
  "sample_catalog = (\<lambda>i. if i = 1 then Some sample_profile else None)"

lemma sample_intent_ok: "intent_ok sample_catalog sample_settings"
  by (simp add: intent_ok_def sample_settings_def)

theorem intents_stay_valid_witness:
  "intent_ok sample_catalog (fold (intent_step sample_catalog) [Hotkey 0 sample_status 1000, Connection Disconnect] sample_settings)"
  using intents_stay_valid [OF sample_intent_ok refl] by blast

text \<open>What a shortcut asks of the aircraft is what the dispatcher serves.\<close>

lemma shortcut_bridge_request:
  assumes "f (cs_profile s) = Some p"
  shows "br_serial (bridge_request f (shortcut_request p action t s)) = max (cs_taxi_request s) (st_request_seen t) + 1"
    "br_epoch (bridge_request f (shortcut_request p action t s)) = cs_session_epoch s"
    "br_profile (bridge_request f (shortcut_request p action t s)) = cs_profile s"
    "bit (br_selected (bridge_request f (shortcut_request p action t s))) n \<longleftrightarrow>
       bit (taxi_button_sides p) n \<and> (bit (pending_request s t) n \<or> bit (camera_action_sides p action) n)"
    "bit (br_desired (bridge_request f (shortcut_request p action t s))) n \<longleftrightarrow> bit (taxi_button_sides p) n \<and>
       (if bit (camera_action_sides p action) n
        then bit (toggle_sides (requested_buttons s t) (camera_action_sides p action)) n
        else bit (cs_taxi_desired s) n \<and> bit (pending_request s t) n)"
  using assms button_sides_subset [of p n]
  by (auto simp: bridge_request_def shortcut_request_def Let_def bit_and_iff bit_or_iff bit_not_iff max_display_sides_def)

text \<open>C34: A shortcut reaches the aircraft.  When a shortcut is taken as a command to the aircraft, the next
  request of the bridge, permitted in the same session, is newer than anything the dispatcher consumed,
  is accepted, and leaves pending exactly the sides of the action and those still outstanding; every side
  of the action is commanded to the toggled position, and an outstanding side keeps its position.
\<close>
theorem shortcut_reaches_dispatcher:
  assumes "intent_ok f s" and "f (cs_profile s) = Some p" and "cs_session_epoch s \<noteq> 0"
    and "request_camera_hotkey f action t now s = (Hotkey_Aircraft, s')"
    and "br_serial (bc_latest c) \<le> max (cs_taxi_request s) (st_request_seen t)"
    and "c' = update (bridge_request f s') True now' (cs_session_epoch s) (cs_profile s) True c"
  shows "bc_latest c' = bridge_request f s' \<and> \<not> rq_failed (bc_status c') \<and> pending_of c' \<noteq> 0 \<and>
    (\<forall>n. bit (pending_of c') n \<longleftrightarrow> bit (taxi_button_sides p) n \<and>
       (bit (pending_request s t) n \<or> bit (camera_action_sides p action) n)) \<and>
    (\<forall>n. bit (camera_action_sides p action) n \<longrightarrow> bit (pending_of c') n \<and>
       bit (br_desired (bc_latest c')) n = bit (toggle_sides (requested_buttons s t) (camera_action_sides p action)) n) \<and>
    (\<forall>n. bit (pending_of c') n \<and> \<not> bit (camera_action_sides p action) n \<longrightarrow>
       bit (br_desired (bc_latest c')) n = bit (cs_taxi_desired s) n)"
proof -
  let ?a = "camera_action_sides p action"
  have hk: "s' = shortcut_request p action t s" "?a \<noteq> 0" "?a AND NOT (taxi_button_sides p) = 0" "\<not> buttons_unreadable p s t now"
    using assms(4) by (rule_tac hotkey_cases [of f action t now s]; use assms(2) in simp)+
  let ?r = "bridge_request f s'"
  note r = shortcut_bridge_request [where f = f and s = s and p = p and action = action and t = t, OF assms(2), folded hk(1)]
  have "max (cs_taxi_request s) (st_request_seen t) \<noteq> u64_max"
    using hk(4) by (simp add: buttons_unreadable_def)
  then have newer: "br_serial (bc_latest c) < br_serial ?r"
    unfolding r(1) by (rule le_less_trans [OF assms(5) word_inc_greater])
  have "intent_ok f s'"
    using hotkey_ok [OF assms(1), of action t now] assms(4) by simp
  note valid = bridge_request_valid [OF this]
  have c': "c' = c\<lparr>bc_permission := True, bc_permission_ms := now', bc_latest := ?r,
      bc_status := \<lparr>rq_serial = br_serial ?r, rq_pending = br_selected ?r, rq_failed = False, rq_error = []\<rparr>,
      bc_started_ms := now'\<rparr>"
    using update_accepted [OF newer valid, of now'] assms(3,6) r(2,3) by simp
  have within: "bit ?a n \<Longrightarrow> bit (taxi_button_sides p) n" for n
    using hk(3) by (simp add: subset_bits)
  obtain n where "bit ?a n"
    using hk(2) nonzero_bit by blast
  then have "br_selected ?r \<noteq> 0"
    using within by (auto simp: nonzero_bit r)
  then show ?thesis
    using within by (auto simp: c' r)
qed


theorem shortcut_reaches_dispatcher_witness:
  "request_camera_hotkey sample_catalog 0 sample_status 1000 sample_settings =
     (Hotkey_Aircraft, shortcut_request sample_profile 0 sample_status sample_settings) \<and>
   pending_of (update (bridge_request sample_catalog (shortcut_request sample_profile 0 sample_status sample_settings))
     True 1010 5 1 True new_command) \<noteq> 0"
proof -
  have p: "sample_catalog (cs_profile sample_settings) = Some sample_profile"
    by (simp add: sample_catalog_def sample_settings_def)
  have m: "side_mask sample_profile = 3" "taxi_button_sides sample_profile = 3" "camera_action_sides sample_profile 0 = 1"
    by (simp_all add: side_mask_def sample_profile_def max_display_sides_def taxi_button_sides_def taxi_latches_def
        names_lvar_def camera_action_sides_def camera_both_def camera_door_def camera_sd_def Let_def)
  have h: "request_camera_hotkey sample_catalog 0 sample_status 1000 sample_settings =
     (Hotkey_Aircraft, shortcut_request sample_profile 0 sample_status sample_settings)"
    unfolding request_camera_hotkey_def p option.case m shortcut_request_def
    by (simp add: buttons_unreadable_def m Let_def sample_profile_def) (simp add: sample_settings_def sample_status_def)
  have e: "cs_session_epoch sample_settings \<noteq> 0" "br_serial (bc_latest new_command) \<le>
      max (cs_taxi_request sample_settings) (st_request_seen sample_status)"
    by (simp_all add: sample_settings_def new_command_def)
  have i: "cs_session_epoch sample_settings = 5" "cs_profile sample_settings = 1"
    by (simp_all add: sample_settings_def)
  show ?thesis
    using shortcut_reaches_dispatcher [OF sample_intent_ok p e(1) h e(2) refl, of 1010] h unfolding i by blast
qed

lemma action_bit:
  assumes "camera_action_sides p action \<noteq> 0"
  shows "bit (camera_action_sides p action) n \<longleftrightarrow>
    (if action = camera_both then n < 2 else n = (if action = camera_sd then 2 else action))"
proof -
  let ?a = "if action = camera_both then pilot_display_sides
            else if action < camera_door then push_bit (if action = camera_sd then 2 else action) 1 else 0"
  have a: "camera_action_sides p action = ?a" "action = camera_both \<or> action < camera_door"
    using assms by (auto simp: camera_action_sides_def Let_def split: if_splits)
  have "bit (2 ^ k :: u32) n \<longleftrightarrow> n = k" if "k < 4" for k
    using that by (auto simp: bit_exp_iff)
  from this [of action] this [of 2] show ?thesis
    using a(2) mask_pred_bit [of 2 n] unfolding a(1)
    by (auto simp: pilot_display_sides_def camera_door_def camera_sd_def camera_both_def)
qed

text \<open>With no button or with both pilot buttons, an action outside the buttons has no side with one.\<close>

lemma action_apart:
  assumes "taxi_latches p \<noteq> 1" and "camera_action_sides p action AND NOT (taxi_button_sides p) \<noteq> 0"
    and "bit (camera_action_sides p action) n"
  shows "\<not> bit (taxi_button_sides p) n"
proof -
  have a: "camera_action_sides p action \<noteq> 0"
    using assms(3) nonzero_bit by blast
  obtain k where k: "bit (camera_action_sides p action) k" "\<not> bit (taxi_button_sides p) k"
    using assms(2) by (auto simp: nonzero_bit and_not_bit)
  show ?thesis
    using assms(1,3) k unfolding action_bit [OF a] button_sides_bit by (auto split: if_splits)
qed

text \<open>
  A shortcut or preview that works on the manual layer does what its label says: it turns the
  displays of the action on if they are not all requested, and off if they are, as the request is read
  back afterwards.
\<close>
theorem manual_shortcut_flips_request:
  assumes "f (cs_profile s) = Some p" and "taxi_latches p \<noteq> 1"
    and "ap_taxi_control p = Manual_Only \<Longrightarrow> cs_follow_taxi s = 0"
    and "request_camera_hotkey f action t now s = (Hotkey_Manual, s')"
  shows "camera_action_requested f s' t action \<longleftrightarrow> \<not> camera_action_requested f s t action"
proof -
  let ?a = "camera_action_sides p action" and ?b = "taxi_button_sides p"
  have a: "?a \<noteq> 0" "ap_taxi_control p = Pmdg_Dsp_Cam \<or> ap_taxi_control p = Manual_Only \<or> ?a AND NOT ?b \<noteq> 0"
    using assms(4) by (rule_tac hotkey_cases [of f action t now s]; use assms(1) in auto)+
  then have door: "action \<noteq> camera_door"
    by (auto simp: camera_action_sides_def camera_both_def camera_door_def Let_def split: if_splits)
  have sides: "profile_sides f s = side_mask p" "profile_action f s action = ?a"
    using assms(1) by (simp_all add: profile_sides_def profile_action_def)
  have s': "cs_manual_mask s' = toggle_sides (cs_manual_mask s AND side_mask p) ?a" "cs_profile s' = cs_profile s"
      "cs_follow_taxi s' = cs_follow_taxi s"
    using assms(4) by (rule_tac hotkey_cases [of f action t now s];
        use assms(1,3) a(1) sides in \<open>auto simp: toggle_manual_layer_def toggle_manual_camera_def Let_def\<close>)+
  have inside: "(cs_manual_mask s AND side_mask p) AND ?a = ?a \<longleftrightarrow> cs_manual_mask s AND ?a = ?a"
    using action_sides_bit [of p action] unfolding and_eq_bits by (auto simp: bit_and_iff)
  have flips: "cs_manual_mask s' AND ?a = ?a \<longleftrightarrow> cs_manual_mask s AND ?a \<noteq> ?a"
    unfolding s'(1) toggle_flips [OF a(1)] using inside by simp
  let ?cockpit = "cs_follow_taxi s \<noteq> 0 \<and> ap_taxi_control p \<noteq> Manual_Only \<and> ap_taxi_control p \<noteq> Pmdg_Dsp_Cam"
  have apart: "bit ?a n \<Longrightarrow> \<not> bit ?b n" if ?cockpit for n
    using that a(2) action_apart [OF assms(2)] by blast
  have layer: "((st_buttons_mask t AND ?b) OR (m AND NOT ?b)) AND ?a = ?a \<longleftrightarrow> m AND ?a = ?a" if ?cockpit for m
  proof -
    have "bit ?a n \<Longrightarrow> \<not> bit ?b n \<and> bit (NOT ?b) n" for n
      using apart [OF that] bit_imp_le_length [of ?a n] by (auto simp: bit_not_iff)
    then show ?thesis
      unfolding and_eq_bits by (auto simp: bit_or_iff bit_and_iff)
  qed
  have read: "camera_action_requested f x t action \<longleftrightarrow> cs_manual_mask x AND ?a = ?a"
    if "cs_profile x = cs_profile s" "cs_follow_taxi x = cs_follow_taxi s" for x
    using that assms(1) a(1) door layer by (auto simp: camera_action_requested_def Let_def)
  show ?thesis
    unfolding read [OF refl refl] read [OF s'(2,3)] by (rule flips)
qed

definition pmdg_catalog :: catalog where
  "pmdg_catalog = (\<lambda>_. Some (sample_profile\<lparr>ap_taxi_control := Pmdg_Dsp_Cam\<rparr>))"

theorem manual_shortcut_flips_request_witness:
  "\<not> camera_action_requested pmdg_catalog sample_settings sample_status 2 \<and>
   camera_action_requested pmdg_catalog (snd (request_camera_hotkey pmdg_catalog 2 sample_status 1000 sample_settings)) sample_status 2"
proof -
  let ?p = "sample_profile\<lparr>ap_taxi_control := Pmdg_Dsp_Cam\<rparr>"
  have p: "pmdg_catalog (cs_profile sample_settings) = Some ?p"
    by (simp add: pmdg_catalog_def)
  have m: "camera_action_sides ?p 2 = 3" "taxi_latches ?p = 2"
    by (simp_all add: side_mask_def sample_profile_def max_display_sides_def taxi_latches_def numeral_3_eq_3
        names_lvar_def camera_action_sides_def camera_both_def pilot_display_sides_def Let_def)
  have off: "\<not> camera_action_requested pmdg_catalog sample_settings sample_status 2"
    unfolding camera_action_requested_def p by (simp add: m Let_def camera_door_def) (simp add: sample_settings_def sample_profile_def)
  have h: "request_camera_hotkey pmdg_catalog 2 sample_status 1000 sample_settings =
      (Hotkey_Manual, snd (request_camera_hotkey pmdg_catalog 2 sample_status 1000 sample_settings))"
    unfolding request_camera_hotkey_def p by (simp add: m)
  show ?thesis
    using off manual_shortcut_flips_request [OF p _ _ h] by (simp add: m)
qed

end
