(* ===== verification/Panel_Marks.thy ===== *)
theory Panel_Marks
  imports Prelude
begin

text \<open>
  The blocks that name a cockpit panel and its gauges (\<open>src/shared/panel_marks.hpp\<close>): their payload with
  its checksum, the grid of coloured cells that carries it, and the way back from the cells a picture
  shows to the mark.  Where a cell lies in the picture and which of its nine sampled pixels win is
  floating-point geometry; the decoder here is given the class of every cell (or none) at the height of the first row
  and at the mean height of the rows, the number of timing cells found below the finder and whether the mean
  height fits.
\<close>

subsection \<open>Sizes\<close>

definition mark_columns :: nat where "mark_columns = 16"
definition bits_per_cell :: nat where "bits_per_cell = 3"
definition row_bits :: nat where "row_bits = (mark_columns - 1) * bits_per_cell"
definition max_payload :: nat where "max_payload = 160"
definition mark_version :: u8 where "mark_version = 1"

definition finder :: "nat list" where
  "finder = [7, 0, 7, 0, 4, 2, 1, 6, 3, 5, 0, 7, 4, 0, 1, 7]"

definition rows_for :: "nat \<Rightarrow> nat" where
  "rows_for payload = 1 + ((payload + 2) * 8 + row_bits - 1) div row_bits"

definition max_rows :: nat where
  "max_rows = 1 + ((max_payload + 2) * 8 + row_bits - 1) div row_bits"

subsection \<open>Marks\<close>

datatype mark_kind = Gauge | Panel

text \<open>Texts are the bytes of a C string before its terminator.\<close>

record panel_mark =
  pm_kind :: mark_kind
  pm_cell :: u8
  pm_gauge :: u8
  pm_x :: u16
  pm_y :: u16
  pm_width :: u16
  pm_height :: u16
  pm_panel_width :: u16
  pm_panel_height :: u16
  pm_name :: "u8 list"
  pm_gauge_name :: "u8 list"
  pm_info :: "u8 list"

definition name_size :: nat where "name_size = 48"
definition info_size :: nat where "info_size = 112"

subsection \<open>Checksum\<close>

definition crc_bit :: "u16 \<Rightarrow> u16" where
  "crc_bit crc = (if crc AND 0x8000 \<noteq> 0 then push_bit 1 crc XOR 0x1021 else push_bit 1 crc)"

definition crc16 :: "u8 list \<Rightarrow> u16" where
  "crc16 bytes = fold (\<lambda>b crc. (crc_bit ^^ 8) (crc XOR push_bit 8 (ucast b))) bytes 0xffff"

definition be16 :: "u16 \<Rightarrow> u8 list" where
  "be16 w = [ucast (drop_bit 8 w), ucast w]"

definition from_be16 :: "u8 \<Rightarrow> u8 \<Rightarrow> u16" where
  "from_be16 hi lo = push_bit 8 (ucast hi) OR ucast lo"

subsection \<open>Payload\<close>

definition kind_byte :: "mark_kind \<Rightarrow> u8" where
  "kind_byte k = (case k of Gauge \<Rightarrow> 0 | Panel \<Rightarrow> 1)"

definition put_text :: "u8 list \<Rightarrow> nat \<Rightarrow> u8 list \<Rightarrow> u8 list" where
  "put_text s limit out =
     (let n = (if length s > limit then limit else length s) in out @ [of_nat n] @ take n s)"

definition text_room :: "u8 list \<Rightarrow> nat" where
  "text_room out = (if max_payload > length out + 1 then max_payload - length out - 1 else 0)"

definition encode_payload :: "panel_mark \<Rightarrow> u8 list" where
  "encode_payload m =
     (let out0 = [mark_version, 0, kind_byte (pm_kind m), pm_cell m, pm_gauge m] @
            concat (map be16 [pm_x m, pm_y m, pm_width m, pm_height m, pm_panel_width m, pm_panel_height m]);
          out1 = put_text (pm_name m) (name_size - 1) out0;
          out2 = put_text (pm_gauge_name m) (name_size - 1) out1;
          room = text_room out2;
          out3 = put_text (pm_info m) (if room < info_size - 1 then room else info_size - 1) out2
      in out3[1 := of_nat (length out3 - 2)])"

text \<open>Reading a field off the rest of the payload.\<close>

definition get_u8 :: "u8 list \<Rightarrow> (u8 \<times> u8 list) option" where
  "get_u8 b = (case b of [] \<Rightarrow> None | v # rest \<Rightarrow> Some (v, rest))"

definition get_u16 :: "u8 list \<Rightarrow> (u16 \<times> u8 list) option" where
  "get_u16 b = (case b of hi # lo # rest \<Rightarrow> Some (from_be16 hi lo, rest) | _ \<Rightarrow> None)"

definition printable :: "u8 \<Rightarrow> bool" where
  "printable c \<longleftrightarrow> \<not> (c < 32 \<or> c > 126)"

definition get_text :: "nat \<Rightarrow> u8 list \<Rightarrow> (u8 list \<times> u8 list) option" where
  "get_text size_of b =
     (case get_u8 b of None \<Rightarrow> None
      | Some (n, rest) \<Rightarrow>
          if unat n > length rest \<or> unat n \<ge> size_of \<or> \<not> list_all printable (take (unat n) rest) then None
          else Some (take (unat n) rest, drop (unat n) rest))"

fun get_u16s :: "nat \<Rightarrow> u8 list \<Rightarrow> (u16 list \<times> u8 list) option" where
  "get_u16s 0 b = Some ([], b)"
| "get_u16s (Suc n) b =
     (case get_u16 b of None \<Rightarrow> None
      | Some (v, rest) \<Rightarrow> (case get_u16s n rest of None \<Rightarrow> None | Some (vs, rest') \<Rightarrow> Some (v # vs, rest')))"

definition parse_texts :: "panel_mark \<Rightarrow> u8 list \<Rightarrow> panel_mark option" where
  "parse_texts m b =
     (case get_text name_size b of None \<Rightarrow> None | Some (nm, b1) \<Rightarrow>
      case get_text name_size b1 of None \<Rightarrow> None | Some (gauge, b2) \<Rightarrow>
      case get_text info_size b2 of None \<Rightarrow> None | Some (info, b3) \<Rightarrow>
        if b3 \<noteq> [] then None
        else Some (m\<lparr>pm_name := nm, pm_gauge_name := gauge, pm_info := info\<rparr>))"

definition parse_mark :: "u8 list \<Rightarrow> panel_mark option" where
  "parse_mark b =
     (case get_u8 (drop 2 b) of None \<Rightarrow> None | Some (kind, b1) \<Rightarrow>
        if kind > 1 then None else
        case get_u8 b1 of None \<Rightarrow> None | Some (cell, b2) \<Rightarrow>
        case get_u8 b2 of None \<Rightarrow> None | Some (gauge, b3) \<Rightarrow>
        case get_u16s 6 b3 of
          Some ([x, y, w, h, pw, ph], b4) \<Rightarrow>
            parse_texts \<lparr>pm_kind = (if kind = 0 then Gauge else Panel), pm_cell = cell, pm_gauge = gauge, pm_x = x, pm_y = y,
               pm_width = w, pm_height = h, pm_panel_width = pw, pm_panel_height = ph,
               pm_name = [], pm_gauge_name = [], pm_info = []\<rparr> b4
        | _ \<Rightarrow> None)"

subsection \<open>Cells\<close>

definition stream_bit :: "u8 list \<Rightarrow> nat \<Rightarrow> bool" where
  "stream_bit bytes i = (if i div 8 < length bytes then bit (bytes ! (i div 8)) (7 - i mod 8) else False)"

text \<open>The value of one cell and the bit counter after it.\<close>

definition cell_value :: "u8 list \<Rightarrow> nat \<Rightarrow> nat \<times> nat" where
  "cell_value bytes i =
     fold (\<lambda>k (v, i). (2 * v + of_bool (stream_bit bytes i), i + 1)) [0..<bits_per_cell] (0, i)"

definition encode_cell :: "u8 list \<Rightarrow> nat \<Rightarrow> nat \<Rightarrow> nat list \<times> nat \<Rightarrow> nat list \<times> nat" where
  "encode_cell bytes r c ci =
     (case ci of (cells, i) \<Rightarrow> case cell_value bytes i of (v, i') \<Rightarrow> (cells[r * mark_columns + c := v], i'))"

definition encode_row :: "u8 list \<Rightarrow> nat \<Rightarrow> nat list \<times> nat \<Rightarrow> nat list \<times> nat" where
  "encode_row bytes r ci =
     fold (encode_cell bytes r) [1..<mark_columns]
       ((fst ci)[r * mark_columns := (if odd r then 0 else 7)], snd ci)"

definition encode_cells :: "u8 list \<Rightarrow> nat list" where
  "encode_cells payload =
     (let bytes = payload @ be16 (crc16 payload); rows = rows_for (length payload);
          blank = replicate (rows * mark_columns) 0;
          first = fold (\<lambda>c cells. cells[c := finder ! c]) [0..<mark_columns] blank
      in fst (fold (encode_row bytes) [1..<rows] (first, 0)))"

text \<open>One sampled cell read into the bytes; a cell without a majority class refuses the row.\<close>

definition put_bit :: "nat \<Rightarrow> nat \<Rightarrow> u8 list \<times> nat \<Rightarrow> u8 list \<times> nat" where
  "put_bit v k bi =
     (case bi of (bytes, i) \<Rightarrow>
        (if i div 8 < length bytes \<and> bit v (bits_per_cell - 1 - k)
         then bytes[i div 8 := bytes ! (i div 8) OR push_bit (7 - i mod 8) 1] else bytes, i + 1))"

definition read_cell :: "(nat \<Rightarrow> nat \<Rightarrow> nat option) \<Rightarrow> nat \<Rightarrow> nat \<Rightarrow> (u8 list \<times> nat) option \<Rightarrow> (u8 list \<times> nat) option" where
  "read_cell sample r c acc =
     (case acc of None \<Rightarrow> None
      | Some bi \<Rightarrow> (case sample r c of None \<Rightarrow> None
          | Some v \<Rightarrow> Some (fold (put_bit v) [0..<bits_per_cell] bi)))"

definition read_row :: "(nat \<Rightarrow> nat \<Rightarrow> nat option) \<Rightarrow> nat \<Rightarrow> (u8 list \<times> nat) option \<Rightarrow> (u8 list \<times> nat) option" where
  "read_row sample r acc = fold (read_cell sample r) [1..<mark_columns] acc"

definition no_bytes :: "u8 list" where
  "no_bytes = replicate (max_payload + 2) 0"

text \<open>
  From the cells to the mark: the first row, read with the height of its own timing cell, gives the version and the length;
  when enough timing cells were found and their mean height fits the block and the frame, all rows are read again with
  that height, the checksum is compared and the payload parsed.  The positions in the frame are arguments:
  \<open>head_sample\<close> classifies the cells with the first height, \<open>sample\<close> with the mean height, and
  \<open>pitch_fits\<close> says for a number of rows whether the mean height is accepted.
\<close>

definition decode_block ::
  "(nat \<Rightarrow> nat \<Rightarrow> nat option) \<Rightarrow> (nat \<Rightarrow> nat \<Rightarrow> nat option) \<Rightarrow> (nat \<Rightarrow> bool) \<Rightarrow> nat \<Rightarrow> panel_mark option" where
  "decode_block head_sample sample pitch_fits timing =
     (if timing < 2 then None else
      case read_row head_sample 1 (Some (no_bytes, 0)) of None \<Rightarrow> None
      | Some (head_bytes, _) \<Rightarrow>
          if head_bytes ! 0 \<noteq> mark_version then None else
          let payload = unat (head_bytes ! 1) + 2
          in if payload > max_payload then None else
             let rows = rows_for payload
             in if timing < rows - 1 then None else
                if \<not> pitch_fits rows then None else
                case fold (read_row sample) [1..<rows] (Some (no_bytes, 0)) of None \<Rightarrow> None
                | Some (bytes, _) \<Rightarrow>
                    if crc16 (take payload bytes) \<noteq> from_be16 (bytes ! payload) (bytes ! (payload + 1)) then None
                    else parse_mark (take payload bytes))"

text \<open>A gauge rectangle scaled to a texture.\<close>

definition scale_to :: "u32 \<Rightarrow> u32 \<Rightarrow> u32 \<Rightarrow> u32" where
  "scale_to v to from = ucast ((ucast v * ucast to + ucast (from div 2) :: u64) div ucast from)"

definition texture_rect :: "panel_mark \<Rightarrow> u32 \<Rightarrow> u32 \<Rightarrow> (u32 \<times> u32 \<times> u32 \<times> u32) option" where
  "texture_rect m tw th =
     (if pm_panel_width m = 0 \<or> pm_panel_height m = 0 then None
      else let pw = ucast (pm_panel_width m); ph = ucast (pm_panel_height m)
           in Some (scale_to (ucast (pm_x m)) tw pw, scale_to (ucast (pm_y m)) th ph,
                    scale_to (ucast (pm_width m)) tw pw, scale_to (ucast (pm_height m)) th ph))"

subsection \<open>The payload read back\<close>

lemma from_to_be16: "from_be16 (ucast (drop_bit 8 w)) (ucast w) = w" for w :: u16
  by (intro bit_word_eqI) (auto simp: from_be16_def bit_or_iff bit_push_bit_iff bit_ucast_iff bit_drop_bit_eq)

lemma get_u16_be: "get_u16 (be16 w @ rest) = Some (w, rest)"
  by (simp add: get_u16_def be16_def from_to_be16)

lemma get_u16s_be: "get_u16s (length ws) (concat (map be16 ws) @ rest) = Some (ws, rest)"
  by (induction ws) (simp_all add: get_u16_be)

lemma put_text_get:
  assumes "length s < size_of" and "size_of \<le> 256" and "list_all printable s"
  shows "get_text size_of (of_nat (length s) # s @ rest) = Some (s, rest)"
proof -
  have "unat (of_nat (length s) :: u8) = length s"
    using assms(1,2) by (simp add: unat_of_nat)
  then show ?thesis
    using assms by (simp add: get_text_def get_u8_def)
qed

definition mark_ok :: "panel_mark \<Rightarrow> bool" where
  "mark_ok m \<longleftrightarrow> length (pm_name m) < name_size \<and> length (pm_gauge_name m) < name_size \<and> length (pm_info m) < info_size \<and>
     list_all printable (pm_name m) \<and> list_all printable (pm_gauge_name m) \<and> list_all printable (pm_info m)"

text \<open>The information gives way to the payload's size; everything else is kept.\<close>

definition info_kept :: "panel_mark \<Rightarrow> nat" where
  "info_kept m = max_payload - (20 + length (pm_name m) + length (pm_gauge_name m))"

lemma encode_payload_ok:
  assumes "mark_ok m"
  shows "encode_payload m = [mark_version, of_nat (18 + length (pm_name m) + length (pm_gauge_name m) + length (take (info_kept m) (pm_info m))),
      kind_byte (pm_kind m), pm_cell m, pm_gauge m] @
      concat (map be16 [pm_x m, pm_y m, pm_width m, pm_height m, pm_panel_width m, pm_panel_height m]) @
      of_nat (length (pm_name m)) # pm_name m @ of_nat (length (pm_gauge_name m)) # pm_gauge_name m @
      of_nat (length (take (info_kept m) (pm_info m))) # take (info_kept m) (pm_info m)"
  using assms
  by (auto simp: encode_payload_def Let_def put_text_def text_room_def mark_ok_def name_size_def info_size_def
      max_payload_def info_kept_def be16_def min_def)

lemma encode_payload_length:
  assumes "mark_ok m"
  shows "length (encode_payload m) = 20 + length (pm_name m) + length (pm_gauge_name m) + length (take (info_kept m) (pm_info m))"
    and "length (encode_payload m) \<le> max_payload" and "encode_payload m ! 0 = mark_version"
    and "unat (encode_payload m ! 1) + 2 = length (encode_payload m)"
proof -
  show l: "length (encode_payload m) = 20 + length (pm_name m) + length (pm_gauge_name m) + length (take (info_kept m) (pm_info m))"
    by (simp add: encode_payload_ok [OF assms] be16_def)
  show le: "length (encode_payload m) \<le> max_payload"
    using assms unfolding l by (auto simp: info_kept_def max_payload_def mark_ok_def name_size_def min_def)
  show "encode_payload m ! 0 = mark_version"
    by (simp add: encode_payload_ok [OF assms])
  define n where "n = 18 + length (pm_name m) + length (pm_gauge_name m) + length (take (info_kept m) (pm_info m))"
  have "encode_payload m ! 1 = of_nat n"
    unfolding encode_payload_ok [OF assms] n_def [symmetric] by simp
  moreover have "n < 256" "n + 2 = length (encode_payload m)"
    using le unfolding l n_def max_payload_def by simp_all
  ultimately show "unat (encode_payload m ! 1) + 2 = length (encode_payload m)"
    by (simp add: unat_of_nat)
qed

lemma parse_encoded:
  assumes "mark_ok m"
  shows "parse_mark (encode_payload m) = Some (m\<lparr>pm_info := take (info_kept m) (pm_info m)\<rparr>)"
proof -
  let ?info = "take (info_kept m) (pm_info m)"
  have t: "length (pm_name m) < name_size" "length (pm_gauge_name m) < name_size" "length ?info < info_size"
    "name_size \<le> 256" "info_size \<le> 256" "list_all printable (pm_name m)" "list_all printable (pm_gauge_name m)"
    "list_all printable ?info"
    using assms by (auto simp: mark_ok_def name_size_def info_size_def list_all_iff dest: in_set_takeD)
  note texts = put_text_get [OF t(1,4,6)] put_text_get [OF t(2,4,7)] put_text_get [OF t(3,5,8), where rest = "[]", simplified]
  have k: "\<not> kind_byte (pm_kind m) > 1" "(if kind_byte (pm_kind m) = 0 then Gauge else Panel) = pm_kind m"
    by (cases "pm_kind m"; simp add: kind_byte_def)+
  have words: "get_u16s 6 (be16 a @ be16 b @ be16 c @ be16 d @ be16 e @ be16 f @ rest) = Some ([a, b, c, d, e, f], rest)" for a b c d e f rest
    by (simp add: numeral_eq_Suc get_u16_be)
  show ?thesis
    unfolding encode_payload_ok [OF assms] parse_mark_def
    using k by (simp add: get_u8_def words parse_texts_def texts)
qed

subsection \<open>The cells read back\<close>

text \<open>Bytes that hold the first \<open>i\<close> bits of a stream, most significant bit first, and nothing else.\<close>

definition filled :: "(nat \<Rightarrow> bool) \<Rightarrow> nat \<Rightarrow> u8 list \<Rightarrow> bool" where
  "filled S i bytes \<longleftrightarrow> length bytes = max_payload + 2 \<and>
     (\<forall>j < length bytes. \<forall>q < 8. bit (bytes ! j) q \<longleftrightarrow> 8 * j + (7 - q) < i \<and> S (8 * j + (7 - q)))"

lemma filled_start: "filled S 0 no_bytes"
  by (simp add: filled_def no_bytes_def del: add_2_eq_Suc add_2_eq_Suc')

lemma bit_place: "8 * j + (7 - q) = i \<longleftrightarrow> j = i div 8 \<and> q = 7 - i mod 8" if "q < 8" for i j q :: nat
proof
  assume "8 * j + (7 - q) = i"
  then have "i = (7 - q) + j * 8"
    by simp
  then have "i div 8 = j" "i mod 8 = 7 - q"
    by simp_all
  with that show "j = i div 8 \<and> q = 7 - i mod 8"
    by simp
next
  assume "j = i div 8 \<and> q = 7 - i mod 8"
  moreover have "i mod 8 \<le> 7"
    using mod_less_divisor [of 8 i] by linarith
  moreover have "8 * (i div 8) + i mod 8 = i"
    by simp
  ultimately show "8 * j + (7 - q) = i"
    by simp
qed

lemma put_bit_filled:
  assumes "filled S i bytes" and "bit v (bits_per_cell - 1 - k) = S i"
  shows "\<exists>bytes'. put_bit v k (bytes, i) = (bytes', i + 1) \<and> filled S (i + 1) bytes'"
proof -
  let ?new = "bytes[i div 8 := bytes ! (i div 8) OR push_bit (7 - i mod 8) 1]"
  have one: "bit (2 ^ n :: u8) q \<longleftrightarrow> q = n" if "n < 8" "q < 8" for n q
    using that by (auto simp: bit_exp_iff)
  have old: "bit (bytes ! j) q \<longleftrightarrow> 8 * j + (7 - q) < i \<and> S (8 * j + (7 - q))" if "j < length bytes" "q < 8" for j q
    using assms(1) that by (simp add: filled_def)
  show ?thesis
  proof (cases "i div 8 < length bytes \<and> S i")
    case True
    have "bit (?new ! j) q \<longleftrightarrow> 8 * j + (7 - q) < i + 1 \<and> S (8 * j + (7 - q))" if "j < length bytes" "q < 8" for j q
    proof (cases "8 * j + (7 - q) = i")
      case at: True
      then have "j = i div 8" "q = 7 - i mod 8"
        using bit_place [OF that(2), of j i] by simp_all
      with True show ?thesis
        using at that(2) by (simp add: bit_or_iff one)
    next
      case False
      then have "\<not> (j = i div 8 \<and> q = 7 - i mod 8)"
        using bit_place [OF that(2), of j i] by simp
      then have "bit (?new ! j) q = bit (bytes ! j) q"
        using that True by (auto simp: nth_list_update bit_or_iff one)
      with False old [OF that] show ?thesis
        by auto
    qed
    then have "filled S (i + 1) ?new"
      using assms(1) by (simp add: filled_def)
    with True assms(2) show ?thesis
      by (simp add: put_bit_def)
  next
    case False
    have "bit (bytes ! j) q \<longleftrightarrow> 8 * j + (7 - q) < i + 1 \<and> S (8 * j + (7 - q))" if "j < length bytes" "q < 8" for j q
    proof (cases "8 * j + (7 - q) = i")
      case at: True
      then have "j = i div 8"
        using bit_place [OF that(2), of j i] by simp
      with False that at old [OF that] show ?thesis
        by auto
    qed (use old [OF that] in auto)
    then have "filled S (i + 1) bytes"
      using assms(1) by (simp add: filled_def)
    with False assms(2) show ?thesis
      by (auto simp: put_bit_def)
  qed
qed

lemma cell_bits_list: "[0..<bits_per_cell] = [0, 1, 2]"
  by (simp add: bits_per_cell_def upt_rec)

lemma read_cell_filled:
  assumes "filled S i bytes" and "sample r c = Some v"
    and "\<And>k. k < bits_per_cell \<Longrightarrow> bit v (bits_per_cell - 1 - k) = S (i + k)"
  shows "\<exists>bytes'. read_cell sample r c (Some (bytes, i)) = Some (bytes', i + bits_per_cell) \<and>
    filled S (i + bits_per_cell) bytes'"
proof -
  have three: "bits_per_cell = 3"
    by (simp add: bits_per_cell_def)
  obtain b1 where b1: "put_bit v 0 (bytes, i) = (b1, i + 1)" "filled S (i + 1) b1"
    using put_bit_filled [OF assms(1), of v 0] assms(3) [of 0] by (auto simp: three)
  obtain b2 where b2: "put_bit v 1 (b1, i + 1) = (b2, i + 2)" "filled S (i + 2) b2"
    using put_bit_filled [OF b1(2), of v 1] assms(3) [of 1] by (auto simp: three)
  obtain b3 where b3: "put_bit v 2 (b2, i + 2) = (b3, i + 3)" "filled S (i + 3) b3"
    using put_bit_filled [OF b2(2), of v 2] assms(3) [of 2] by (auto simp: three numeral_3_eq_3)
  show ?thesis
    using b1 b2 b3 assms(2) unfolding read_cell_def cell_bits_list by (simp add: three del: One_nat_def)
qed

text \<open>A picture that shows a stream: row by row, three bits to a cell.\<close>

definition shows_stream :: "(nat \<Rightarrow> nat \<Rightarrow> nat option) \<Rightarrow> (nat \<Rightarrow> bool) \<Rightarrow> nat \<Rightarrow> bool" where
  "shows_stream sample S rows \<longleftrightarrow> (\<forall>r c. 1 \<le> r \<longrightarrow> r < rows \<longrightarrow> 1 \<le> c \<longrightarrow> c < mark_columns \<longrightarrow>
     (\<exists>v. sample r c = Some v \<and> (\<forall>k < bits_per_cell. bit v (bits_per_cell - 1 - k) =
        S (row_bits * (r - 1) + bits_per_cell * (c - 1) + k))))"

lemma read_cells_filled:
  assumes "shows_stream sample S rows" and "1 \<le> r" and "r < rows" and "filled S (row_bits * (r - 1)) bytes"
  shows "n < mark_columns \<Longrightarrow> \<exists>bytes'. fold (read_cell sample r) [1..<Suc n] (Some (bytes, row_bits * (r - 1))) =
    Some (bytes', row_bits * (r - 1) + bits_per_cell * n) \<and> filled S (row_bits * (r - 1) + bits_per_cell * n) bytes'"
proof (induction n)
  case 0
  with assms(4) show ?case
    by simp
next
  case (Suc n)
  then obtain b where b: "fold (read_cell sample r) [1..<Suc n] (Some (bytes, row_bits * (r - 1))) =
      Some (b, row_bits * (r - 1) + bits_per_cell * n)" "filled S (row_bits * (r - 1) + bits_per_cell * n) b"
    by auto
  obtain v where v: "sample r (Suc n) = Some v" "\<forall>k < bits_per_cell. bit v (bits_per_cell - 1 - k) =
      S (row_bits * (r - 1) + bits_per_cell * n + k)"
    using assms(1-3) Suc.prems unfolding shows_stream_def by force
  have premise: "bit v (bits_per_cell - 1 - k) = S (row_bits * (r - 1) + bits_per_cell * n + k)" if "k < bits_per_cell" for k
    using v(2) that by blast
  have sum: "row_bits * (r - 1) + bits_per_cell * n + bits_per_cell = row_bits * (r - 1) + bits_per_cell * Suc n"
    by simp
  have "fold (read_cell sample r) [1..<Suc (Suc n)] (Some (bytes, row_bits * (r - 1))) =
      read_cell sample r (Suc n) (fold (read_cell sample r) [1..<Suc n] (Some (bytes, row_bits * (r - 1))))"
    by simp
  with read_cell_filled [where S = S and i = "row_bits * (r - 1) + bits_per_cell * n" and bytes = b
      and sample = sample and r = r and c = "Suc n" and v = v, OF b(2) v(1) premise] show ?case
    unfolding sum b(1) by auto
qed

lemma read_row_filled:
  assumes "shows_stream sample S rows" and "1 \<le> r" and "r < rows" and "filled S (row_bits * (r - 1)) bytes"
  shows "\<exists>bytes'. read_row sample r (Some (bytes, row_bits * (r - 1))) = Some (bytes', row_bits * r) \<and>
    filled S (row_bits * r) bytes'"
proof -
  have "row_bits * (r - 1) + bits_per_cell * 15 = row_bits * r"
    using assms(2) by (cases r) (simp_all add: row_bits_def mark_columns_def bits_per_cell_def)
  with read_cells_filled [OF assms, of 15] show ?thesis
    by (simp add: read_row_def mark_columns_def)
qed

lemma read_rows_filled:
  assumes "shows_stream sample S rows"
  shows "n < rows \<Longrightarrow> \<exists>bytes. fold (read_row sample) [1..<Suc n] (Some (no_bytes, 0)) = Some (bytes, row_bits * n) \<and>
    filled S (row_bits * n) bytes"
proof (induction n)
  case 0
  then show ?case
    by (simp add: filled_start)
next
  case (Suc n)
  then obtain b where b: "fold (read_row sample) [1..<Suc n] (Some (no_bytes, 0)) = Some (b, row_bits * n)"
      "filled S (row_bits * n) b"
    by auto
  show ?case
    using read_row_filled [OF assms, of "Suc n" b] b Suc.prems by auto
qed

subsection \<open>The cells painted\<close>

lemma shift_in_bit: "bit (2 * a + of_bool b) 0 = b" "bit (2 * a + of_bool b) (Suc n) = bit a n" for a :: nat
  by (simp_all add: bit_0 bit_Suc)

lemma bits_below_three: "k < bits_per_cell \<Longrightarrow> k = 0 \<or> k = Suc 0 \<or> k = Suc (Suc 0)"
  by (auto simp: bits_per_cell_def)

lemma cell_value_bits:
  "\<exists>v. cell_value bytes i = (v, i + bits_per_cell) \<and>
     (\<forall>k < bits_per_cell. bit v (bits_per_cell - 1 - k) = stream_bit bytes (i + k))"
proof -
  let ?b = "\<lambda>k. stream_bit bytes (i + k)"
  define v :: nat where "v = 2 * (2 * (2 * 0 + of_bool (?b 0)) + of_bool (?b 1)) + of_bool (?b 2)"
  have "cell_value bytes i = (v, i + bits_per_cell)"
    unfolding cell_value_def cell_bits_list v_def by (simp add: bits_per_cell_def)
  moreover have "bit v (Suc (Suc 0)) = ?b 0" "bit v (Suc 0) = ?b 1" "bit v 0 = ?b 2"
    unfolding v_def shift_in_bit by simp_all
  then have "\<forall>k < bits_per_cell. bit v (bits_per_cell - 1 - k) = ?b k"
    by (auto simp: bits_per_cell_def numeral_2_eq_2 dest!: bits_below_three [unfolded bits_per_cell_def])
  ultimately show ?thesis
    by blast
qed

abbreviation cell_at :: "u8 list \<Rightarrow> nat \<Rightarrow> nat" where
  "cell_at bytes i \<equiv> fst (cell_value bytes i)"

lemma cell_value_pair: "cell_value bytes i = (cell_at bytes i, i + bits_per_cell)"
  using cell_value_bits [of bytes i] by (cases "cell_value bytes i") auto

lemma encode_cell_pair:
  "encode_cell bytes r c (cells, i) = (cells[r * mark_columns + c := cell_at bytes i], i + bits_per_cell)"
  unfolding encode_cell_def prod.case by (subst cell_value_pair) simp

text \<open>The cells of a row, and the rows before it.\<close>

definition painted :: "u8 list \<Rightarrow> nat \<Rightarrow> nat \<Rightarrow> nat list \<Rightarrow> bool" where
  "painted bytes rows r cells \<longleftrightarrow> length cells = rows * mark_columns \<and>
     (\<forall>s c. 1 \<le> s \<longrightarrow> s < r \<longrightarrow> 1 \<le> c \<longrightarrow> c < mark_columns \<longrightarrow>
        cells ! (s * mark_columns + c) = cell_at bytes (row_bits * (s - 1) + bits_per_cell * (c - 1)))"

lemma cell_index:
  assumes "c < mark_columns" and "d < mark_columns"
  shows "s * mark_columns + c = r * mark_columns + d \<longleftrightarrow> s = r \<and> c = d"
proof
  assume e: "s * mark_columns + c = r * mark_columns + d"
  then have "(s * mark_columns + c) div mark_columns = (r * mark_columns + d) div mark_columns"
    by simp
  then have "s = r"
    using assms by (simp add: mark_columns_def)
  with e show "s = r \<and> c = d"
    by simp
qed simp

lemma encode_row_cells:
  assumes "length cells = rows * mark_columns" and "1 \<le> r" and "r < rows"
  shows "n < mark_columns \<Longrightarrow>
    (case fold (encode_cell bytes r) [1..<Suc n] (cells, i) of (cells', i') \<Rightarrow>
       i' = i + bits_per_cell * n \<and> length cells' = length cells \<and>
       (\<forall>c. 1 \<le> c \<longrightarrow> c \<le> n \<longrightarrow> cells' ! (r * mark_columns + c) = cell_at bytes (i + bits_per_cell * (c - 1))) \<and>
       (\<forall>s c. s \<noteq> r \<longrightarrow> c < mark_columns \<longrightarrow> cells' ! (s * mark_columns + c) = cells ! (s * mark_columns + c)))"
proof (induction n)
  case 0
  then show ?case
    by simp
next
  case (Suc n)
  obtain x j where x: "fold (encode_cell bytes r) [1..<Suc n] (cells, i) = (x, j)"
    by (cases "fold (encode_cell bytes r) [1..<Suc n] (cells, i)")
  with Suc have ih: "j = i + bits_per_cell * n" "length x = length cells"
    "\<And>c. 1 \<le> c \<Longrightarrow> c \<le> n \<Longrightarrow> x ! (r * mark_columns + c) = cell_at bytes (i + bits_per_cell * (c - 1))"
    "\<And>s c. s \<noteq> r \<Longrightarrow> c < mark_columns \<Longrightarrow> x ! (s * mark_columns + c) = cells ! (s * mark_columns + c)"
    by simp_all
  have "r * mark_columns + Suc n < (r + 1) * mark_columns"
    using Suc.prems by simp
  also have "\<dots> \<le> rows * mark_columns"
    using assms(3) by (intro mult_le_mono1) simp
  finally have in_range: "r * mark_columns + Suc n < length x"
    by (simp add: ih(2) assms(1))
  have step: "fold (encode_cell bytes r) [1..<Suc (Suc n)] (cells, i) =
      (x[r * mark_columns + Suc n := cell_at bytes j], j + bits_per_cell)"
    using x by (simp add: encode_cell_pair)
  let ?x = "x[r * mark_columns + Suc n := cell_at bytes j]"
  have "?x ! (r * mark_columns + c) = cell_at bytes (i + bits_per_cell * (c - 1))" if "1 \<le> c" "c \<le> Suc n" for c
  proof (cases "c = Suc n")
    case True
    then show ?thesis
      using in_range by (simp add: ih(1))
  next
    case False
    then show ?thesis
      using that ih(3) [of c] by simp
  qed
  moreover have "?x ! (s * mark_columns + c) = cells ! (s * mark_columns + c)" if "s \<noteq> r" "c < mark_columns" for s c
    using that cell_index [OF that(2) Suc.prems, of s r] ih(4) [OF that] by (simp add: nth_list_update)
  moreover have "j + bits_per_cell = i + bits_per_cell * Suc n" "length ?x = length cells"
    using ih(1,2) by simp_all
  ultimately show ?case
    unfolding step prod.case by blast
qed

lemma encode_row_painted:
  assumes "painted bytes rows r cells" and "1 \<le> r" and "r < rows"
  shows "\<exists>cells'. encode_row bytes r (cells, row_bits * (r - 1)) = (cells', row_bits * r) \<and> painted bytes rows (Suc r) cells'"
proof -
  let ?start = "cells[r * mark_columns := (if odd r then 0 else 7)]"
  have lenc: "length cells = rows * mark_columns"
    using assms(1) by (simp add: painted_def)
  then have len: "length ?start = rows * mark_columns"
    by simp
  have kept: "?start ! (s * mark_columns + c) = cells ! (s * mark_columns + c)" if "s \<noteq> r" "c < mark_columns" for s c
    using cell_index [OF that(2), of 0 s r] that(1) by (simp add: nth_list_update mark_columns_def)
  obtain cells' i' where f: "fold (encode_cell bytes r) [1..<Suc 15] (?start, row_bits * (r - 1)) = (cells', i')"
    by (cases "fold (encode_cell bytes r) [1..<Suc 15] (?start, row_bits * (r - 1))")
  from encode_row_cells [OF len assms(2,3), where n = 15 and bytes = bytes and i = "row_bits * (r - 1)"] f
  have r: "i' = row_bits * (r - 1) + bits_per_cell * 15" "length cells' = rows * mark_columns"
    "\<And>c. 1 \<le> c \<Longrightarrow> c \<le> 15 \<Longrightarrow> cells' ! (r * mark_columns + c) = cell_at bytes (row_bits * (r - 1) + bits_per_cell * (c - 1))"
    "\<And>s c. s \<noteq> r \<Longrightarrow> c < mark_columns \<Longrightarrow> cells' ! (s * mark_columns + c) = ?start ! (s * mark_columns + c)"
    by (simp_all add: mark_columns_def lenc [unfolded mark_columns_def])
  have "row_bits * (r - 1) + bits_per_cell * 15 = row_bits * r"
    using assms(2) by (cases r) (simp_all add: row_bits_def mark_columns_def bits_per_cell_def)
  moreover have "[1..<Suc 15] = [1..<mark_columns]"
    by (simp add: mark_columns_def)
  ultimately have "encode_row bytes r (cells, row_bits * (r - 1)) = (cells', row_bits * r)"
    using f r(1) by (simp add: encode_row_def)
  moreover have "cells' ! (s * mark_columns + c) = cell_at bytes (row_bits * (s - 1) + bits_per_cell * (c - 1))"
    if "1 \<le> s" "s < Suc r" "1 \<le> c" "c < mark_columns" for s c
  proof (cases "s = r")
    case True
    then show ?thesis
      using r(3) [of c] that by (simp add: mark_columns_def)
  next
    case False
    then show ?thesis
      using that r(4) [OF False that(4)] kept [OF False that(4)] assms(1) by (simp add: painted_def)
  qed
  ultimately show ?thesis
    using r(2) by (auto simp: painted_def)
qed

lemma paint_rows:
  assumes "length cells = rows * mark_columns"
  shows "n < rows \<Longrightarrow> \<exists>cells'. fold (encode_row bytes) [1..<Suc n] (cells, 0) = (cells', row_bits * n) \<and>
    painted bytes rows (Suc n) cells'"
proof (induction n)
  case 0
  with assms show ?case
    by (simp add: painted_def)
next
  case (Suc n)
  then obtain x where x: "fold (encode_row bytes) [1..<Suc n] (cells, 0) = (x, row_bits * n)" "painted bytes rows (Suc n) x"
    by auto
  show ?case
    using encode_row_painted [OF x(2)] Suc.prems x(1) by auto
qed

lemma finder_written: "length (fold (\<lambda>c cells. cells[c := finder ! c]) cs xs) = length xs"
  by (induction cs arbitrary: xs) simp_all

lemma encode_cells_painted:
  "painted (payload @ be16 (crc16 payload)) (rows_for (length payload)) (rows_for (length payload)) (encode_cells payload)"
proof -
  let ?rows = "rows_for (length payload)" and ?bytes = "payload @ be16 (crc16 payload)"
  let ?first = "fold (\<lambda>c cells. cells[c := finder ! c]) [0..<mark_columns] (replicate (?rows * mark_columns) 0)"
  obtain n where n: "?rows = Suc n"
    by (simp add: rows_for_def)
  have "length ?first = ?rows * mark_columns"
    by (simp add: finder_written)
  from paint_rows [OF this, of n ?bytes] n show ?thesis
    by (auto simp: encode_cells_def Let_def)
qed

text \<open>A picture of the painted cells shows the bytes as a stream.\<close>

lemma painted_stream:
  assumes "painted bytes rows rows cells"
    and "\<And>r c. r < rows \<Longrightarrow> c < mark_columns \<Longrightarrow> sample r c = Some (cells ! (r * mark_columns + c))"
  shows "shows_stream sample (stream_bit bytes) rows"
  unfolding shows_stream_def
proof (intro allI impI)
  fix r c
  assume rc: "1 \<le> r" "r < rows" "1 \<le> c" "c < mark_columns"
  let ?i = "row_bits * (r - 1) + bits_per_cell * (c - 1)"
  have "sample r c = Some (cell_at bytes ?i)"
    using assms rc by (simp add: painted_def)
  then show "\<exists>v. sample r c = Some v \<and> (\<forall>k < bits_per_cell. bit v (bits_per_cell - 1 - k) = stream_bit bytes (?i + k))"
    using cell_value_bits [of bytes ?i] by auto
qed

lemma filled_bytes:
  assumes "filled (stream_bit bytes) i out" and "8 * n \<le> i" and "n \<le> length bytes" and "n \<le> max_payload + 2"
  shows "take n out = take n bytes"
proof (rule nth_equalityI)
  show len: "length (take n out) = length (take n bytes)"
    using assms by (simp add: filled_def)
  fix j
  assume "j < length (take n out)"
  then have j: "j < n" "j < length out" "j < length bytes"
    using assms(3) by simp_all
  have "bit (out ! j) q = bit (bytes ! j) q" if "q < 8" for q
  proof -
    have "8 * j + (7 - q) < 8 * n"
      using j(1) by linarith
    then have before: "8 * j + (7 - q) < i"
      using assms(2) by linarith
    have "j = (8 * j + (7 - q)) div 8 \<and> q = 7 - (8 * j + (7 - q)) mod 8"
      using bit_place [OF that, of j "8 * j + (7 - q)"] by blast
    then have places: "(8 * j + (7 - q)) div 8 = j" "7 - (8 * j + (7 - q)) mod 8 = q"
      by metis+
    have "stream_bit bytes (8 * j + (7 - q)) = bit (bytes ! j) q"
      unfolding stream_bit_def places using j(3) by simp
    moreover have "bit (out ! j) q \<longleftrightarrow> 8 * j + (7 - q) < i \<and> stream_bit bytes (8 * j + (7 - q))"
      using assms(1) j(2) that unfolding filled_def by blast
    ultimately show ?thesis
      using before by blast
  qed
  then have "out ! j = bytes ! j"
    by (intro bit_word_eqI) simp
  then show "take n out ! j = take n bytes ! j"
    using j(1) by simp
qed

lemma rows_hold: "8 * (payload + 2) \<le> row_bits * (rows_for payload - 1)"
  by (simp add: rows_for_def row_bits_def mark_columns_def bits_per_cell_def)

lemma rows_at_least: "2 \<le> rows_for payload"
  by (simp add: rows_for_def row_bits_def mark_columns_def bits_per_cell_def)

text \<open>C35: A panel mark survives being painted and read.  For a mark with printable texts that fit, from any
  picture whose cells show what the encoder painted, the first row's at the first height and all rows' at the
  mean height, in which enough timing cells were found and whose mean height is accepted, the
  decoder gives back the mark, with the information text cut to what the payload had room for: the
  version, length and checksum agree, and every field is read where it was written.
\<close>
theorem painted_mark_decodes:
  assumes "mark_ok m" and "payload = encode_payload m"
    and "\<And>r c. r < rows_for (length payload) \<Longrightarrow> c < mark_columns \<Longrightarrow>
      sample r c = Some (encode_cells payload ! (r * mark_columns + c))"
    and "\<And>c. c < mark_columns \<Longrightarrow> head_sample 1 c = Some (encode_cells payload ! (mark_columns + c))"
    and "2 \<le> timing" and "rows_for (length payload) - 1 \<le> timing" and "pitch_fits (rows_for (length payload))"
  shows "decode_block head_sample sample pitch_fits timing = Some (m\<lparr>pm_info := take (info_kept m) (pm_info m)\<rparr>)"
proof -
  let ?rows = "rows_for (length payload)" and ?bytes = "payload @ be16 (crc16 payload)"
  note size = encode_payload_length [OF assms(1), folded assms(2)]
  have len: "length ?bytes = length payload + 2"
    by (simp add: be16_def)
  have shows_it: "shows_stream sample (stream_bit ?bytes) ?rows"
    by (rule painted_stream [OF encode_cells_painted assms(3)])
  have "head_sample 1 c = sample 1 c" if "c < mark_columns" for c
    using that assms(3) [of 1 c] assms(4) [of c] rows_at_least [of "length payload"] by simp
  then have same_row: "read_row head_sample 1 acc = read_row sample 1 acc" for acc
    unfolding read_row_def by (intro fold_cong refl) (auto simp: read_cell_def fun_eq_iff split: option.split)
  obtain head_bytes where h: "read_row head_sample 1 (Some (no_bytes, 0)) = Some (head_bytes, row_bits)"
      "filled (stream_bit ?bytes) row_bits head_bytes"
    using read_row_filled [OF shows_it, of 1 no_bytes] same_row rows_at_least [of "length payload"] filled_start by auto
  have "take 2 head_bytes = take 2 ?bytes"
    by (rule filled_bytes [OF h(2)]) (simp_all add: row_bits_def mark_columns_def bits_per_cell_def be16_def max_payload_def)
  then have "take 2 head_bytes ! 0 = take 2 ?bytes ! 0" "take 2 head_bytes ! 1 = take 2 ?bytes ! 1"
    by simp_all
  then have head: "head_bytes ! 0 = payload ! 0" "head_bytes ! 1 = payload ! 1"
    using size(1) by (simp_all add: nth_append)
  obtain n where n: "?rows = Suc n"
    by (simp add: rows_for_def)
  obtain bytes where b: "fold (read_row sample) [1..<?rows] (Some (no_bytes, 0)) = Some (bytes, row_bits * (?rows - 1))"
      "filled (stream_bit ?bytes) (row_bits * (?rows - 1)) bytes"
    using read_rows_filled [OF shows_it, of n] n by auto
  have all: "take (length payload + 2) bytes = ?bytes"
    using filled_bytes [OF b(2) rows_hold, unfolded len] size(2) len by simp
  then have "take (length payload) bytes = payload"
    by (metis append_eq_conv_conj min.absorb1 le_add1 take_take)
  moreover have "bytes ! length payload = ucast (drop_bit 8 (crc16 payload))" "bytes ! (length payload + 1) = ucast (crc16 payload)"
    using arg_cong [OF all, of "\<lambda>x. x ! length payload"] arg_cong [OF all, of "\<lambda>x. x ! (length payload + 1)"]
    by (simp_all add: nth_append be16_def)
  ultimately show ?thesis
    using assms(5-7) size(2-4) h(1) b(1) head parse_encoded [OF assms(1), folded assms(2)]
    by (simp add: decode_block_def from_to_be16 Let_def)
qed

definition sample_mark :: panel_mark where
  "sample_mark = \<lparr>pm_kind = Gauge, pm_cell = 2, pm_gauge = 1, pm_x = 0, pm_y = 0, pm_width = 768, pm_height = 763,
     pm_panel_width = 768, pm_panel_height = 1024, pm_name = [86, 67], pm_gauge_name = [112, 102, 100], pm_info = []\<rparr>"

theorem painted_mark_decodes_witness:
  "let shown = \<lambda>r c. Some (encode_cells (encode_payload sample_mark) ! (r * mark_columns + c))
   in decode_block shown shown (\<lambda>rows. rows \<le> 40) 40 = Some sample_mark"
proof -
  have ok: "mark_ok sample_mark"
    by (simp add: mark_ok_def sample_mark_def name_size_def info_size_def printable_def)
  have "rows_for (length (encode_payload sample_mark)) \<le> 40"
    using encode_payload_length(2) [OF ok]
    by (simp add: rows_for_def row_bits_def mark_columns_def bits_per_cell_def max_payload_def)
  with painted_mark_decodes [OF ok refl, of "\<lambda>r c. Some (encode_cells (encode_payload sample_mark) ! (r * mark_columns + c))"
      "\<lambda>r c. Some (encode_cells (encode_payload sample_mark) ! (r * mark_columns + c))" 40 "\<lambda>rows. rows \<le> 40"]
  show ?thesis
    by (simp add: sample_mark_def)
qed

text \<open>Whatever the picture shows, a decoded mark has printable texts that fit.\<close>

lemma get_text_ok: "get_text size_of b = Some (s, rest) \<Longrightarrow> length s < size_of \<and> list_all printable s"
  by (auto simp: get_text_def get_u8_def split: option.splits if_splits prod.splits list.splits)

lemma parse_texts_ok: "parse_texts m b = Some m' \<Longrightarrow> mark_ok m'"
  unfolding parse_texts_def
  by (auto simp: mark_ok_def split: option.splits prod.splits if_splits dest!: get_text_ok)

lemma parse_mark_ok: "parse_mark b = Some m \<Longrightarrow> mark_ok m"
  unfolding parse_mark_def
  by (auto split: option.splits prod.splits if_splits list.splits dest: parse_texts_ok)

lemma decoded_mark_ok: "decode_block head_sample sample pitch_fits timing = Some m \<Longrightarrow> mark_ok m"
  by (auto simp: decode_block_def Let_def split: option.splits prod.splits if_splits dest: parse_mark_ok)

end
