(* ===== verification/Aircraft_Match.thy ===== *)
theory Aircraft_Match
  imports Prelude
begin

text \<open>
  Which aircraft is loaded.  \<open>src/profiles/aircraft_variant.hpp\<close>: the key of an aircraft variant taken
  from the path the simulator loaded, under which its layout is saved as a folder.
  \<open>src/profiles/catalog.hpp\<close>: the match of path components and of the type, and the choice of a profile.
  The catalog's entries are data; the functions take the parts of a profile they look at.
\<close>

subsection \<open>Letters\<close>

definition fold_case :: "char \<Rightarrow> char" where
  "fold_case c = (if 65 \<le> (of_char c :: nat) \<and> (of_char c :: nat) \<le> 90 then char_of (of_char c + 32 :: nat) else c)"

definition upper_case :: "char \<Rightarrow> char" where
  "upper_case c = (if 97 \<le> (of_char c :: nat) \<and> (of_char c :: nat) \<le> 122 then char_of (of_char c - 32 :: nat) else c)"

definition slash :: char where "slash = CHR ''/''"
definition back_slash :: char where "back_slash = CHR 0x5C"

definition path_fold :: "char \<Rightarrow> char" where
  "path_fold c = (if c = back_slash then slash else fold_case c)"

definition same_text :: "string \<Rightarrow> string \<Rightarrow> bool" where
  "same_text a b \<longleftrightarrow> length a = length b \<and> list_all2 (\<lambda>x y. fold_case x = fold_case y) a b"

subsection \<open>The key of a variant\<close>

definition max_variant_key :: nat where "max_variant_key = 200"
definition max_variant_component :: nat where "max_variant_component = 64"
definition max_path_parts :: nat where "max_path_parts = 16"

definition component_char :: "char \<Rightarrow> bool" where
  "component_char c \<longleftrightarrow> \<not> ((of_char c :: nat) < 32 \<or> (of_char c :: nat) > 126 \<or>
     c \<in> {CHR ''<'', CHR ''>'', CHR '':'', CHR 0x22, slash, back_slash, CHR ''|'', CHR ''?'', CHR ''*''})"

definition file_component :: "string \<Rightarrow> bool" where
  "file_component c \<longleftrightarrow>
     \<not> (c = [] \<or> length c > max_variant_component \<or> c = ''.'' \<or> c = ''..'' \<or> last c = CHR ''.'' \<or> last c = CHR '' '') \<and>
     list_all component_char c"

definition is_separator :: "char \<Rightarrow> bool" where
  "is_separator c \<longleftrightarrow> c = slash \<or> c = back_slash"

text \<open>The nonempty parts between separators.\<close>

function path_parts :: "string \<Rightarrow> string list" where
  "path_parts path =
     (let part = takeWhile (\<lambda>c. \<not> is_separator c) path; rest = dropWhile (\<lambda>c. \<not> is_separator c) path;
          more = (case rest of [] \<Rightarrow> [] | c # cs \<Rightarrow> path_parts cs)
      in if part = [] then more else part # more)"
  by pat_completeness auto

termination
proof (relation "measure length")
  fix path rest c cs and part :: string
  assume "rest = dropWhile (\<lambda>c. \<not> is_separator c) path" and "rest = c # cs"
  then have "length (c # cs) \<le> length path"
    by (metis length_dropWhile_le)
  then show "(cs, path) \<in> measure length"
    by simp
qed simp

declare path_parts.simps [simp del]

definition first_part :: "string list \<Rightarrow> nat" where
  "first_part parts = length (takeWhile (\<lambda>p. \<not> same_text p ''SimObjects'') parts)"

definition without_file :: "string \<Rightarrow> string list \<Rightarrow> string list" where
  "without_file name parts = (if parts \<noteq> [] \<and> same_text (last parts) name then butlast parts else parts)"

text \<open>The components joined into the fixed array; the count of used characters bounds it.\<close>

fun join_parts :: "bool \<Rightarrow> string list \<Rightarrow> string \<Rightarrow> string option" where
  "join_parts first [] out = Some out"
| "join_parts first (p # ps) out =
     (if \<not> file_component p \<or> length out + length p + 1 \<ge> max_variant_key then None
      else join_parts False ps ((if first then out else out @ [slash]) @ p))"

definition variant_key :: "string \<Rightarrow> string option" where
  "variant_key path =
     (let parts = path_parts path
      in if length parts > max_path_parts then None
         else let first = first_part parts;
                  kept = without_file ''config'' (without_file ''aircraft.cfg'' parts)
              in if first + 3 > length kept then None
                 else join_parts True (drop first kept) [])"

definition same_variant :: "string \<Rightarrow> string \<Rightarrow> bool" where
  "same_variant path key \<longleftrightarrow>
     key \<noteq> [] \<and> (case variant_key path of None \<Rightarrow> False | Some own \<Rightarrow> same_text own key)"

text \<open>The family: up to the third slash.\<close>

fun up_to_slash :: "nat \<Rightarrow> string \<Rightarrow> string" where
  "up_to_slash n [] = []"
| "up_to_slash n (c # cs) =
     (if c = slash then (if n + 1 = 3 then [] else c # up_to_slash (n + 1) cs) else c # up_to_slash n cs)"

definition variant_family :: "string \<Rightarrow> string" where
  "variant_family key = up_to_slash 0 key"

definition variant_name :: "string \<Rightarrow> string" where
  "variant_name key = (if slash \<notin> set key then key else rev (takeWhile (\<lambda>c. c \<noteq> slash) (rev key)))"

subsection \<open>Matching a path and a type\<close>

fun common_prefix :: "string \<Rightarrow> string \<Rightarrow> nat" where
  "common_prefix (a # as) (b # bs) = (if path_fold a = path_fold b then Suc (common_prefix as bs) else 0)"
| "common_prefix _ _ = 0"

definition contains_at :: "string \<Rightarrow> string \<Rightarrow> nat \<Rightarrow> bool" where
  "contains_at path marker i \<longleftrightarrow>
     (i = 0 \<or> path_fold (path ! (i - 1)) = slash) \<and>
     (let n = common_prefix (drop i path) marker
      in n = length marker \<and> (i + n = length path \<or> path_fold (path ! (i + n)) = slash))"

definition path_contains :: "string \<Rightarrow> string \<Rightarrow> bool" where
  "path_contains path marker \<longleftrightarrow> list_ex (contains_at path marker) [0..<length path + 1 - length marker]"

record match_profile =
  mp_id :: u32
  mp_types :: "string list"
  mp_markers :: "string list"

definition equal_upper :: "string \<Rightarrow> string \<Rightarrow> bool" where
  "equal_upper a b \<longleftrightarrow> length a = length b \<and> list_all2 (\<lambda>x y. upper_case x = upper_case y) a b"

definition matches_aircraft :: "match_profile \<Rightarrow> string \<Rightarrow> bool" where
  "matches_aircraft p type \<longleftrightarrow> list_ex (\<lambda>supported. supported \<noteq> [] \<and> equal_upper type supported) (mp_types p)"

definition marked :: "string \<Rightarrow> match_profile \<Rightarrow> bool" where
  "marked path p \<longleftrightarrow> list_ex (\<lambda>marker. marker \<noteq> [] \<and> path_contains path marker) (mp_markers p)"

text \<open>The catalog scan; a second match refuses.\<close>

fun match_catalog :: "string \<Rightarrow> string \<Rightarrow> match_profile list \<Rightarrow> u32 \<Rightarrow> u32 option" where
  "match_catalog type path [] m = Some m"
| "match_catalog type path (p # ps) m =
     (if \<not> matches_aircraft p type \<or> \<not> marked path p then match_catalog type path ps m
      else if m \<noteq> 0 then None else match_catalog type path ps (mp_id p))"

record aircraft_catalog =
  ac_a380 :: u32
  ac_ini_a380 :: match_profile
  ac_folders :: "match_profile list"
  ac_all :: "match_profile list"
  ac_discovered :: "string option"

definition discovered_profile_id :: u32 where "discovered_profile_id = 100"

definition detect_aircraft :: "aircraft_catalog \<Rightarrow> string \<Rightarrow> string \<Rightarrow> u32" where
  "detect_aircraft cat type path =
     (if path_contains path ''flybywire-aircraft-a380-842'' \<or> path_contains path ''simobjects/airplanes/flybywire_a380x'' \<or>
         path_contains path ''simobjects/airplanes/flybywire_a380_842'' then ac_a380 cat
      else if marked path (ac_ini_a380 cat) then
        (if matches_aircraft (ac_ini_a380 cat) type then mp_id (ac_ini_a380 cat) else 0)
      else case find (marked path) (ac_folders cat) of
        Some p \<Rightarrow> mp_id p
      | None \<Rightarrow> (case match_catalog type path (ac_all cat) 0 of
            None \<Rightarrow> 0
          | Some m \<Rightarrow> (case ac_discovered cat of
                Some key \<Rightarrow> if m = 0 then (if same_variant path key then discovered_profile_id else 0) else m
              | None \<Rightarrow> m)))"

subsection \<open>Keys name safe folders\<close>

definition joined :: "string list \<Rightarrow> string" where
  "joined cs = (case cs of [] \<Rightarrow> [] | p # ps \<Rightarrow> p @ concat (map (Cons slash) ps))"

lemma join_rest:
  "join_parts False ps out = Some k \<Longrightarrow> k = out @ concat (map (Cons slash) ps) \<and> list_all file_component ps \<and>
     (ps \<noteq> [] \<longrightarrow> length k < max_variant_key)"
proof (induction ps arbitrary: out)
  case Nil
  then show ?case
    by simp
next
  case (Cons p ps)
  then have p: "file_component p" "length out + length p + 1 < max_variant_key"
    "join_parts False ps (out @ slash # p) = Some k"
    by (auto split: if_splits)
  from Cons.IH [OF p(3)] p(1,2) show ?case
    by (cases ps) auto
qed

lemma join_all:
  assumes "join_parts True cs [] = Some k" and "cs \<noteq> []"
  shows "k = joined cs \<and> list_all file_component cs \<and> length k < max_variant_key"
proof -
  obtain p ps where cs: "cs = p # ps"
    using assms(2) by (cases cs) auto
  with assms(1) have p: "file_component p" "length p + 1 < max_variant_key" "join_parts False ps p = Some k"
    by (auto split: if_splits)
  from join_rest [OF p(3)] p(1,2) show ?thesis
    by (cases ps) (auto simp: cs joined_def)
qed

lemma join_fits:
  "list_all file_component ps \<Longrightarrow> length (out @ concat (map (Cons slash) ps)) < max_variant_key \<Longrightarrow>
   join_parts False ps out = Some (out @ concat (map (Cons slash) ps))"
proof (induction ps arbitrary: out)
  case Nil
  then show ?case
    by simp
next
  case (Cons p ps)
  then show ?case
    using Cons.IH [of "out @ slash # p"] by simp
qed

lemma component_parts: "file_component p \<Longrightarrow> p \<noteq> [] \<and> (\<forall>c \<in> set p. \<not> is_separator c)"
  by (auto simp: file_component_def list_all_iff component_char_def is_separator_def)

lemma parts_step:
  assumes "p \<noteq> []" and "\<forall>c \<in> set p. \<not> is_separator c"
  shows "path_parts (p @ slash # rest) = p # path_parts rest" and "path_parts p = [p]"
proof -
  have "is_separator slash"
    by (simp add: is_separator_def)
  then have "takeWhile (\<lambda>c. \<not> is_separator c) (p @ slash # rest) = p"
    "dropWhile (\<lambda>c. \<not> is_separator c) (p @ slash # rest) = slash # rest"
    using assms(2) by simp_all
  then show "path_parts (p @ slash # rest) = p # path_parts rest"
    using assms(1) by (subst path_parts.simps) (simp add: Let_def)
  have whole: "takeWhile (\<lambda>c. \<not> is_separator c) p = p" "dropWhile (\<lambda>c. \<not> is_separator c) p = []"
    using assms(2) by (simp_all add: takeWhile_eq_all_conv)
  show "path_parts p = [p]"
    by (subst path_parts.simps, unfold whole Let_def) (simp add: assms(1))
qed

lemma joined_parts: "list_all file_component cs \<Longrightarrow> cs \<noteq> [] \<Longrightarrow> path_parts (joined cs) = cs"
proof (induction cs)
  case Nil
  then show ?case
    by simp
next
  case (Cons p ps)
  then have p: "p \<noteq> []" "\<forall>c \<in> set p. \<not> is_separator c"
    using component_parts [of p] by simp_all
  show ?case
  proof (cases ps)
    case Nil
    then show ?thesis
      using parts_step(2) [OF p] by (simp add: joined_def)
  next
    case (Cons q qs)
    then have "joined (p # ps) = p @ slash # joined ps"
      by (simp add: joined_def)
    then show ?thesis
      using Cons.IH Cons.prems Cons parts_step(1) [OF p] by simp
  qed
qed

lemma first_part_drop:
  assumes "first_part parts < length parts"
  shows "same_text (hd (drop (first_part parts) parts)) ''SimObjects''"
proof -
  have "\<not> \<not> same_text (parts ! first_part parts) ''SimObjects''"
    using assms nth_length_takeWhile [of "\<lambda>p. \<not> same_text p ''SimObjects''" parts] by (simp add: first_part_def)
  then show ?thesis
    using assms by (simp add: hd_drop_conv_nth)
qed

lemma without_file_prefix: "\<exists>rest. parts = without_file name parts @ rest"
  by (auto simp: without_file_def) (metis append_butlast_last_id)

lemma kept_prefix: "\<exists>rest. parts = without_file a (without_file b parts) @ rest"
  using without_file_prefix [of parts b] without_file_prefix [of "without_file b parts" a] by (metis append_assoc)

text \<open>C36: The key of a variant is a safe place to save a layout.  A key is made of at least three components,
  the first of them SimObjects, joined by slashes; every component is a proper name of a folder (printable,
  no separator or drive character, not . or .., not ending in a dot or space), the whole is shorter than
  200 characters, and splitting it gives back exactly these components.  A key whose last component is
  not itself a config folder or an aircraft file is its own key.
\<close>
theorem variant_key_is_safe:
  assumes "variant_key path = Some k"
  shows "\<exists>cs. k = joined cs \<and> 3 \<le> length cs \<and> same_text (hd cs) ''SimObjects'' \<and> list_all file_component cs \<and>
    length k < 200 \<and> path_parts k = cs \<and>
    (\<not> same_text (last cs) ''aircraft.cfg'' \<and> \<not> same_text (last cs) ''config'' \<longrightarrow> variant_key k = Some k)"
proof -
  define parts where "parts = path_parts path"
  define kept where "kept = without_file ''config'' (without_file ''aircraft.cfg'' parts)"
  define cs where "cs = drop (first_part parts) kept"
  have v: "length parts \<le> max_path_parts" "first_part parts + 3 \<le> length kept" "join_parts True cs [] = Some k"
    using assms by (auto simp: variant_key_def parts_def kept_def cs_def Let_def split: if_splits)
  obtain rest where rest: "parts = kept @ rest"
    using kept_prefix unfolding kept_def by metis
  have cs3: "3 \<le> length cs" "cs \<noteq> []"
    using v(2) by (auto simp: cs_def)
  note join = join_all [OF v(3) cs3(2)]
  have first: "same_text (hd cs) ''SimObjects''"
    using first_part_drop [of parts] v(2) rest by (simp add: cs_def)
  have parts_k: "path_parts k = cs"
    using join joined_parts [OF _ cs3(2)] by simp
  have "variant_key k = Some k" if plain: "\<not> same_text (last cs) ''aircraft.cfg''" "\<not> same_text (last cs) ''config''"
  proof -
    have "first_part cs = 0"
      using first cs3(2) by (cases cs) (simp_all add: first_part_def)
    moreover have "without_file ''config'' (without_file ''aircraft.cfg'' cs) = cs"
      using plain by (simp add: without_file_def)
    moreover have "length cs \<le> max_path_parts"
      using v(1) rest by (simp add: cs_def)
    ultimately show ?thesis
      using cs3(1) v(3) by (simp add: variant_key_def parts_k Let_def)
  qed
  then show ?thesis
    using join cs3(1) first parts_k by (intro exI [of _ cs]) (auto simp: max_variant_key_def)
qed

theorem variant_key_is_safe_witness:
  "\<exists>cs. ''SimObjects/Airplanes/FNX_32X/presets/fnx/A'' = joined cs \<and> list_all file_component cs \<and>
     path_parts ''SimObjects/Airplanes/FNX_32X/presets/fnx/A'' = cs"
proof -
  have "variant_key ''simobjects/x.txt/../Community/SimObjects/Airplanes/FNX_32X/presets/fnx/A/config/aircraft.CFG'' = None"
    "variant_key ''Community/SimObjects/Airplanes/FNX_32X/presets/fnx/A/config/aircraft.CFG'' =
      Some ''SimObjects/Airplanes/FNX_32X/presets/fnx/A''"
    by code_simp+
  from variant_key_is_safe [OF this(2)] show ?thesis
    by blast
qed

subsection \<open>Path components\<close>

lemma common_prefix_full:
  "common_prefix xs ys = length ys \<longleftrightarrow> length ys \<le> length xs \<and> map path_fold (take (length ys) xs) = map path_fold ys"
  by (induction xs ys rule: common_prefix.induct) auto

lemma contains_at_split:
  assumes "i + length marker \<le> length path"
  shows "contains_at path marker i \<longleftrightarrow>
    map path_fold path = take i (map path_fold path) @ map path_fold marker @ drop (i + length marker) (map path_fold path) \<and>
    (i = 0 \<or> last (take i (map path_fold path)) = slash) \<and>
    (drop (i + length marker) (map path_fold path) = [] \<or> hd (drop (i + length marker) (map path_fold path)) = slash)"
proof -
  let ?f = "map path_fold path"
  have "common_prefix (drop i path) marker = length marker \<longleftrightarrow> take (length marker) (drop i ?f) = map path_fold marker"
    using assms by (auto simp: common_prefix_full take_map drop_map)
  also have "\<dots> \<longleftrightarrow> ?f = take i ?f @ map path_fold marker @ drop (i + length marker) ?f"
  proof
    assume "take (length marker) (drop i ?f) = map path_fold marker"
    then show "?f = take i ?f @ map path_fold marker @ drop (i + length marker) ?f"
      by (metis append_take_drop_id drop_drop add.commute)
  next
    assume "?f = take i ?f @ map path_fold marker @ drop (i + length marker) ?f"
    then have "drop i ?f = map path_fold marker @ drop (i + length marker) ?f"
      using assms by (metis append_eq_conv_conj append_take_drop_id same_append_eq)
    then show "take (length marker) (drop i ?f) = map path_fold marker"
      by simp
  qed
  finally have word: "common_prefix (drop i path) marker = length marker \<longleftrightarrow>
      ?f = take i ?f @ map path_fold marker @ drop (i + length marker) ?f" .
  have before: "path_fold (path ! (i - 1)) = last (take i ?f)" if "i \<noteq> 0"
  proof -
    have "take i ?f \<noteq> []"
      using that assms by auto
    then show ?thesis
      using that assms by (simp add: last_conv_nth)
  qed
  have after: "path_fold (path ! (i + length marker)) = hd (drop (i + length marker) ?f)" if "i + length marker \<noteq> length path"
    using that assms by (simp add: hd_drop_conv_nth)
  have "(i = 0 \<or> path_fold (path ! (i - 1)) = slash) \<longleftrightarrow> (i = 0 \<or> last (take i ?f) = slash)"
    using before by (cases "i = 0") simp_all
  moreover have "(i + length marker = length path \<or> path_fold (path ! (i + length marker)) = slash) \<longleftrightarrow>
      (drop (i + length marker) ?f = [] \<or> hd (drop (i + length marker) ?f) = slash)"
    using after assms by (cases "i + length marker = length path") simp_all
  moreover have "contains_at path marker i \<longleftrightarrow> (i = 0 \<or> path_fold (path ! (i - 1)) = slash) \<and>
      common_prefix (drop i path) marker = length marker \<and>
      (i + length marker = length path \<or> path_fold (path ! (i + length marker)) = slash)"
    by (auto simp: contains_at_def Let_def)
  ultimately show ?thesis
    using word by blast
qed

text \<open>The nested search for a marker finds it exactly when it is a whole component, or a sequence of whole
  components, of the path: up to case and the direction of slashes, the path is something, the marker and
  something more, with a slash or an end of the path on both sides of it.
\<close>
theorem path_contains_components:
  "path_contains path marker \<longleftrightarrow> (\<exists>before after. map path_fold path = before @ map path_fold marker @ after \<and>
     (before = [] \<or> last before = slash) \<and> (after = [] \<or> hd after = slash))"
proof
  assume "path_contains path marker"
  then obtain i where at: "i < length path + 1 - length marker" and found: "contains_at path marker i"
    by (auto simp: path_contains_def list_ex_iff)
  from at have "i + length marker \<le> length path"
    by linarith
  note i = this found
  from i(2) [unfolded contains_at_split [OF i(1)]] show "\<exists>before after. map path_fold path = before @ map path_fold marker @ after \<and>
     (before = [] \<or> last before = slash) \<and> (after = [] \<or> hd after = slash)"
    by (intro exI [of _ "take i (map path_fold path)"] exI [of _ "drop (i + length marker) (map path_fold path)"]) auto
next
  assume "\<exists>before after. map path_fold path = before @ map path_fold marker @ after \<and>
     (before = [] \<or> last before = slash) \<and> (after = [] \<or> hd after = slash)"
  then obtain before after where s: "map path_fold path = before @ map path_fold marker @ after"
    "before = [] \<or> last before = slash" "after = [] \<or> hd after = slash"
    by blast
  have len: "length path = length before + length marker + length after"
    using arg_cong [OF s(1), of length] by simp
  have "contains_at path marker (length before)"
    using s len by (subst contains_at_split) auto
  then show "path_contains path marker"
    unfolding path_contains_def list_ex_iff by (intro bexI [of _ "length before"]) (simp_all add: len)
qed

text \<open>The catalog scan is the unique match; none or several give no profile.\<close>

lemma match_catalog_unique:
  assumes "\<forall>p \<in> set ps. mp_id p \<noteq> 0"
  shows "match_catalog t path ps 0 =
    (case filter (\<lambda>p. matches_aircraft p t \<and> marked path p) ps of [] \<Rightarrow> Some 0 | [p] \<Rightarrow> Some (mp_id p) | _ \<Rightarrow> None)"
proof -
  have taken: "m \<noteq> 0 \<Longrightarrow> match_catalog t path qs m = (if filter (\<lambda>p. matches_aircraft p t \<and> marked path p) qs = [] then Some m else None)" for m qs
    by (induction qs) auto
  show ?thesis
    using assms by (induction ps) (auto simp: taken split: list.splits)
qed

end
