(* ===== verification/Aircraft_Session.thy ===== *)
theory Aircraft_Session
  imports Aircraft_Match View_Pool
begin

text \<open>
  \<open>src/camera/aircraft_identity.hpp\<close>: what the packets of SimConnect say about the flight and the aircraft.
  The lifecycle counts flights, the identity cache pairs the type and the path of one poll, and the
  automatic selection of a profile waits for two observations that agree.  A packet is its bytes; the catalog
  that names the aircraft is that of \<open>Aircraft_Match\<close>.
\<close>

subsection \<open>The flight\<close>

text \<open>The dword with index \<open>k\<close>.\<close>

definition dword :: "nat \<Rightarrow> u8 list \<Rightarrow> u32" where
  "dword k packet = le32 (drop (4 * k) packet)"

definition sim_event :: u32 where "sim_event = 100"
definition aircraft_event :: u32 where "aircraft_event = 101"
definition flight_event :: u32 where "flight_event = 102"
definition pause_event :: u32 where "pause_event = 103"

definition flt_load :: u32 where "flt_load = 1"
definition flt_loaded :: u32 where "flt_loaded = 2"
definition teleport_start :: u32 where "teleport_start = 3"
definition teleport_done :: u32 where "teleport_done = 4"
definition back_to_main_menu :: u32 where "back_to_main_menu = 9"
definition flight_start :: u32 where "flight_start = 14"
definition flight_end :: u32 where "flight_end = 15"

definition flow_receive_id :: "u32 \<Rightarrow> bool" where
  "flow_receive_id r \<longleftrightarrow> r = 39 \<or> r = 40"

record lifecycle =
  al_epoch :: u64
  al_known :: bool
  al_running :: bool
  al_paused :: bool
  al_pending :: u32
  al_last_flow :: u32

definition new_lifecycle :: lifecycle where
  "new_lifecycle = \<lparr>al_epoch = 0, al_known = False, al_running = False, al_paused = False, al_pending = 0, al_last_flow = 0\<rparr>"

definition changed :: "lifecycle \<Rightarrow> lifecycle" where
  "changed s = (if al_epoch s \<noteq> u64_max then s\<lparr>al_epoch := al_epoch s + 1\<rparr> else s)"

definition loading :: "lifecycle \<Rightarrow> bool" where
  "loading s \<longleftrightarrow> al_pending s \<noteq> 0"

definition sim_running :: "lifecycle \<Rightarrow> bool" where
  "sim_running s \<longleftrightarrow> \<not> al_known s \<or> al_running s"

definition starts_load :: "u32 \<Rightarrow> bool" where
  "starts_load event \<longleftrightarrow> event = flt_load \<or> event = teleport_start \<or> event = back_to_main_menu \<or> event = flight_end"

definition load_bit :: "u32 \<Rightarrow> u32" where
  "load_bit event = (if event = flt_load then 1 else if event = teleport_start then 2 else 4)"

definition known_flow :: "u32 \<Rightarrow> bool" where
  "known_flow event \<longleftrightarrow> starts_load event \<or> event = flt_loaded \<or> event = teleport_done \<or> event = flight_start"

definition accept_flow :: "u32 \<Rightarrow> lifecycle \<Rightarrow> bool \<times> lifecycle" where
  "accept_flow event s0 =
     (if \<not> known_flow event then (False, s0)
      else
        let s = s0\<lparr>al_last_flow := event\<rparr>;
            s1 = (if starts_load event then
                    (let t = s\<lparr>al_pending := al_pending s OR load_bit event\<rparr>
                     in if al_pending s0 = 0 then changed t else t)
                  else if event = flt_loaded then s\<lparr>al_pending := al_pending s AND NOT 1\<rparr>
                  else if event = teleport_done then s\<lparr>al_pending := al_pending s AND NOT 2\<rparr>
                  else s\<lparr>al_pending := al_pending s AND NOT 4, al_paused := False\<rparr>)
        in (al_pending s0 \<noteq> al_pending s1, s1))"

definition terminated :: "u8 list \<Rightarrow> bool" where
  "terminated bytes \<longleftrightarrow> 0 \<in> set bytes"

definition accept_event :: "u8 list option \<Rightarrow> lifecycle \<Rightarrow> bool \<times> lifecycle" where
  "accept_event raw s =
     (case raw of None \<Rightarrow> (False, s)
      | Some p \<Rightarrow>
        let n = length p; h = (\<lambda>k. dword k p)
        in if n < 24 \<or> n > 65536 then (False, s)
           else if h 0 \<noteq> of_nat n then (False, s)
           else if flow_receive_id (h 2) \<and> n = 272 \<and> terminated (take 256 (drop 16 p)) then accept_flow (h 3) s
           else if h 2 = 4 \<and> n = 24 \<and> h 4 = pause_event then (False, s\<lparr>al_paused := (h 5 \<noteq> 0)\<rparr>)
           else if h 2 = 4 \<and> n = 24 \<and> h 4 = sim_event \<and> h 5 \<le> 1 then
             (let transition = (al_known s \<and> al_running s \<noteq> (h 5 \<noteq> 0));
                  t = s\<lparr>al_known := True, al_running := (h 5 \<noteq> 0)\<rparr>
              in (transition \<and> \<not> loading t, if transition \<and> \<not> loading t then changed t else t))
           else if h 2 = 6 \<and> n = 288 \<and> (h 4 = aircraft_event \<or> h 4 = flight_event) \<and> terminated (take 260 (drop 24 p)) \<and>
                   \<not> loading s
             then (True, changed s)
           else (False, s))"

subsection \<open>The identity of the aircraft\<close>

record identity_sample =
  id_type :: "u8 list"
  id_path :: "u8 list"
  id_sample_ms :: u64
  id_detected :: u32
  id_fresh :: bool

record identity_cache =
  ic_type :: "u8 list"
  ic_path :: "u8 list"
  ic_pending_type :: "u8 list"
  ic_pending_path :: "u8 list"
  ic_type_ms :: u64
  ic_path_ms :: u64
  ic_pending_type_ms :: u64
  ic_pending_path_ms :: u64
  ic_type_request :: u32
  ic_path_request :: u32

definition new_cache :: identity_cache where
  "new_cache = \<lparr>ic_type = replicate 256 0, ic_path = replicate 260 0, ic_pending_type = replicate 256 0,
     ic_pending_path = replicate 260 0, ic_type_ms = 0, ic_path_ms = 0, ic_pending_type_ms = 0, ic_pending_path_ms = 0,
     ic_type_request = 5, ic_path_request = 6\<rparr>"

definition begin_request :: "u32 \<Rightarrow> u32 \<Rightarrow> identity_cache \<Rightarrow> identity_cache" where
  "begin_request type_request path_request c =
     c\<lparr>ic_type_request := type_request, ic_path_request := path_request, ic_pending_type := replicate 256 0,
       ic_pending_path := replicate 260 0, ic_pending_type_ms := 0, ic_pending_path_ms := 0\<rparr>"

definition type_response :: "u32 \<Rightarrow> u8 list \<Rightarrow> bool" where
  "type_response request p \<longleftrightarrow> length p = 296 \<and> dword 0 p = 296 \<and> dword 2 p = 8 \<and> dword 3 p = request \<and>
     dword 5 p = 5 \<and> dword 6 p = 0 \<and> dword 9 p = 1"

definition path_response :: "u32 \<Rightarrow> u8 list \<Rightarrow> bool" where
  "path_response request p \<longleftrightarrow> length p = 284 \<and> dword 0 p = 284 \<and> dword 2 p = 15 \<and> dword 3 p = request"

definition type_text :: "u8 list \<Rightarrow> u8 list" where
  "type_text p = take 256 (drop 40 p)"

definition path_text :: "u8 list \<Rightarrow> u8 list" where
  "path_text p = take 260 (drop 24 p)"

text \<open>A complete poll replaces the value.\<close>

definition commit :: "identity_cache \<Rightarrow> identity_cache" where
  "commit c =
     (if ic_pending_type_ms c \<noteq> 0 \<and> ic_pending_path_ms c \<noteq> 0
      then c\<lparr>ic_type := ic_pending_type c, ic_path := ic_pending_path c, ic_type_ms := ic_pending_type_ms c,
             ic_path_ms := ic_pending_path_ms c, ic_pending_type_ms := 0, ic_pending_path_ms := 0\<rparr>
      else c)"

definition accept_identity :: "u8 list option \<Rightarrow> u64 \<Rightarrow> identity_cache \<Rightarrow> bool \<times> identity_cache" where
  "accept_identity raw now c =
     (case raw of None \<Rightarrow> (False, c)
      | Some p \<Rightarrow>
        if length p < 24 \<or> length p > 65536 \<or> now = 0 then (False, c)
        else
          let type = type_response (ic_type_request c) p; path = path_response (ic_path_request c) p
          in if \<not> type \<and> \<not> path then (False, c)
             else if \<not> terminated (if type then type_text p else path_text p) then (False, c)
             else (True, commit (if type then c\<lparr>ic_pending_type := type_text p, ic_pending_type_ms := now\<rparr>
                                 else c\<lparr>ic_pending_path := path_text p, ic_pending_path_ms := now\<rparr>)))"

definition c_string :: "u8 list \<Rightarrow> string" where
  "c_string bytes = map (\<lambda>b. char_of (unat b)) (takeWhile (\<lambda>b. b \<noteq> 0) bytes)"

definition identity_at :: "aircraft_catalog \<Rightarrow> u64 \<Rightarrow> identity_cache \<Rightarrow> identity_sample" where
  "identity_at cat now c =
     (let ms = min (ic_type_ms c) (ic_path_ms c)
      in \<lparr>id_type = ic_type c, id_path = ic_path c, id_sample_ms = ms,
          id_detected = (if ms \<noteq> 0 then detect_aircraft cat (c_string (ic_type c)) (c_string (ic_path c)) else 0),
          id_fresh = (ms \<noteq> 0 \<and> now \<ge> ms \<and> now - ms \<le> 3000)\<rparr>)"

definition next_panel_discovery :: "bool \<Rightarrow> identity_sample \<Rightarrow> bool" where
  "next_panel_discovery now_on s =
     (if \<not> id_fresh s then now_on
      else (id_detected s = 0 \<or> id_detected s = discovered_profile_id) \<and> id_path s ! 0 \<noteq> 0)"

subsection \<open>The automatic selection\<close>

record auto_selection =
  as_candidate :: u32
  as_variant :: u64
  as_first :: u64

definition new_selection :: auto_selection where
  "new_selection = \<lparr>as_candidate = 0, as_variant = 0, as_first = 0\<rparr>"

definition observe_selection :: "u32 \<Rightarrow> u64 \<Rightarrow> u64 \<Rightarrow> auto_selection \<Rightarrow> u32 \<times> auto_selection" where
  "observe_selection profile sample_ms variant s =
     (if profile = 0 \<or> sample_ms = 0 then (0, s\<lparr>as_candidate := 0\<rparr>)
      else if profile \<noteq> as_candidate s \<or> variant \<noteq> as_variant s \<or> sample_ms < as_first s
        then (0, \<lparr>as_candidate = profile, as_variant = variant, as_first = sample_ms\<rparr>)
      else (if sample_ms > as_first s then profile else 0, s))"
subsection \<open>A flight counts once\<close>

definition lifecycle_step :: "u8 list option \<Rightarrow> lifecycle \<Rightarrow> lifecycle" where
  "lifecycle_step p s = snd (accept_event p s)"

lemma changed_fields [simp]: "al_pending (changed s) = al_pending s" "loading (changed s) = loading s"
  by (simp_all add: changed_def loading_def)

lemma flow_epoch:
  "al_epoch (snd (accept_flow event s)) =
     (if starts_load event \<and> \<not> loading s then al_epoch (changed s) else al_epoch s)"
  by (simp add: accept_flow_def known_flow_def changed_def loading_def Let_def)

lemma loading_keeps_epoch: "loading s \<Longrightarrow> al_epoch (lifecycle_step p s) = al_epoch s"
  by (auto simp: lifecycle_step_def accept_event_def flow_epoch loading_def Let_def split: option.splits)

text \<open>Outside a load only the start of one makes the state loading.\<close>

definition begins :: "lifecycle \<Rightarrow> lifecycle \<Rightarrow> bool" where
  "begins s t \<longleftrightarrow> \<not> loading t \<or> al_epoch t = al_epoch (changed s)"

lemma begins_if: "begins s (snd a) \<Longrightarrow> begins s (snd b) \<Longrightarrow> begins s (snd (if c then a else b))"
  by simp

lemma begins_flow:
  assumes "\<not> loading s"
  shows "begins s (snd (accept_flow event s))"
proof (cases "starts_load event")
  case True
  then show ?thesis
    using assms by (simp add: begins_def flow_epoch)
next
  case False
  then have "\<not> loading (snd (accept_flow event s))"
    using assms by (simp add: accept_flow_def loading_def Let_def)
  then show ?thesis
    by (simp add: begins_def)
qed

lemma load_begins:
  assumes "\<not> loading s" and "loading (lifecycle_step p s)"
  shows "al_epoch (lifecycle_step p s) = al_epoch (changed s)"
proof (cases p)
  case None
  then show ?thesis
    using assms by (simp add: lifecycle_step_def accept_event_def)
next
  case (Some bytes)
  have "begins s (snd (accept_event (Some bytes) s))"
    unfolding accept_event_def option.case Let_def
    using assms(1) by (intro begins_if begins_flow) (simp_all add: begins_def loading_def)
  then show ?thesis
    using assms(2) by (simp add: begins_def lifecycle_step_def Some)
qed

text \<open>The epoch never goes back, and a packet moves it by at most one.\<close>

definition moves :: "lifecycle \<Rightarrow> lifecycle \<Rightarrow> bool" where
  "moves s t \<longleftrightarrow> al_epoch t = al_epoch s \<or> al_epoch t = al_epoch (changed s)"

lemma moves_if: "moves s (snd a) \<Longrightarrow> moves s (snd b) \<Longrightarrow> moves s (snd (if c then a else b))"
  by simp

lemma moves_flow: "moves s (snd (accept_flow event s))"
  by (simp add: moves_def flow_epoch)

lemma moves_now: "moves s s" "moves s (changed s)" "moves s (s\<lparr>al_paused := x\<rparr>)"
  "moves s (s\<lparr>al_known := k, al_running := x\<rparr>)" "moves s (changed (s\<lparr>al_known := k, al_running := x\<rparr>))"
  by (simp_all add: moves_def changed_def)

lemma epoch_step: "al_epoch (lifecycle_step p s) = al_epoch s \<or> al_epoch (lifecycle_step p s) = al_epoch (changed s)"
proof (cases p)
  case None
  then show ?thesis
    by (simp add: lifecycle_step_def accept_event_def)
next
  case (Some bytes)
  have "moves s (snd (accept_event (Some bytes) s))"
    unfolding accept_event_def option.case Let_def
    by (intro moves_if moves_flow) (simp_all add: moves_now)
  then show ?thesis
    by (simp add: moves_def lifecycle_step_def Some)
qed

lemma epoch_changed: "al_epoch s \<le> al_epoch (changed s)"
  using word_inc_greater [of "al_epoch s"] by (auto simp: changed_def intro: less_imp_le)

interpretation flights: ordered_machine lifecycle_step "\<lambda>_. True" "\<lambda>_. True" al_epoch
proof unfold_locales
  fix p s
  show "al_epoch s \<le> al_epoch (lifecycle_step p s)"
    using epoch_step [of p s] epoch_changed [of s] by auto
qed simp

text \<open>C40: A load of a flight is one new session, however many packets it takes.  The packet that begins a load
  raises the epoch by one, and from there until the load is over, the packet that ends it included,
  nothing that arrives - further starts and completions of loads and teleports, aircraft and flight
  events, changes between running and stopped, pauses, malformed packets - moves the epoch again; no packet
  at any time takes it back.
\<close>
theorem load_counts_once:
  assumes "\<not> loading s" and "loading (lifecycle_step p s)" and "al_epoch s \<noteq> u64_max"
    and "\<And>k. k < length ps \<Longrightarrow> loading (fold lifecycle_step (take k ps) (lifecycle_step p s))"
  shows "al_epoch (fold lifecycle_step ps (lifecycle_step p s)) = al_epoch s + 1 \<and>
    al_epoch (fold lifecycle_step ps (lifecycle_step p s)) \<le>
      al_epoch (fold lifecycle_step later (fold lifecycle_step ps (lifecycle_step p s)))"
proof
  have "al_epoch (fold lifecycle_step (take k ps) (lifecycle_step p s)) = al_epoch s + 1" if "k \<le> length ps" for k
    using that
  proof (induction k)
    case 0
    then show ?case
      using load_begins [OF assms(1,2)] assms(3) by (simp add: changed_def)
  next
    case (Suc k)
    then have "fold lifecycle_step (take (Suc k) ps) (lifecycle_step p s) =
        lifecycle_step (ps ! k) (fold lifecycle_step (take k ps) (lifecycle_step p s))"
      by (simp add: take_Suc_conv_app_nth)
    then show ?case
      using Suc loading_keeps_epoch [OF assms(4) [of k]] by simp
  qed
  from this [of "length ps"] show "al_epoch (fold lifecycle_step ps (lifecycle_step p s)) = al_epoch s + 1"
    by simp
  show "al_epoch (fold lifecycle_step ps (lifecycle_step p s)) \<le>
      al_epoch (fold lifecycle_step later (fold lifecycle_step ps (lifecycle_step p s)))"
    by (rule flights.run_mono) (simp_all add: list_all_iff)
qed

definition dword_bytes :: "u32 \<Rightarrow> u8 list" where
  "dword_bytes w = [ucast w, ucast (drop_bit 8 w), ucast (drop_bit 16 w), ucast (drop_bit 24 w)]"

definition flow_packet :: "u32 \<Rightarrow> u8 list" where
  "flow_packet event = dword_bytes 272 @ dword_bytes 0 @ dword_bytes 39 @ dword_bytes event @ replicate 256 0"

lemma flow_packet_dwords:
  "dword 0 (flow_packet e) = 272" "dword 2 (flow_packet e) = 39" "length (flow_packet e) = 272"
  "terminated (take 256 (drop 16 (flow_packet e)))"
  by (simp_all add: dword_def flow_packet_def dword_bytes_def le32_def terminated_def)

lemma flow_packet_event: "dword 3 (flow_packet 1) = 1" "dword 3 (flow_packet 2) = 2" "dword 3 (flow_packet 3) = 3" "dword 3 (flow_packet 4) = 4"
  by (simp_all add: dword_def flow_packet_def dword_bytes_def le32_def)

lemma flow_packet_step: "lifecycle_step (Some (flow_packet e)) s = snd (accept_flow (dword 3 (flow_packet e)) s)"
  using flow_packet_dwords [of e] by (simp add: lifecycle_step_def accept_event_def flow_receive_id_def Let_def)

theorem load_counts_once_witness:
  "al_epoch (fold lifecycle_step [Some (flow_packet 3), Some (flow_packet 2), None, Some (flow_packet 4)]
     (lifecycle_step (Some (flow_packet 1)) new_lifecycle)) = 1"
proof -
  let ?s = "\<lambda>pending flow. \<lparr>al_epoch = 1, al_known = False, al_running = False, al_paused = False, al_pending = pending, al_last_flow = flow\<rparr>"
  note d = flow_packet_step flow_packet_event accept_flow_def known_flow_def starts_load_def load_bit_def flt_load_def flt_loaded_def
    teleport_start_def teleport_done_def back_to_main_menu_def flight_end_def flight_start_def new_lifecycle_def changed_def Let_def
  have s: "lifecycle_step (Some (flow_packet 1)) new_lifecycle = ?s 1 1" "lifecycle_step (Some (flow_packet 3)) (?s 1 1) = ?s 3 3"
    "lifecycle_step (Some (flow_packet 2)) (?s 3 3) = ?s 2 2" "lifecycle_step None (?s 2 2) = ?s 2 2"
    by (simp_all add: d) (simp add: lifecycle_step_def accept_event_def)
  have "al_epoch (fold lifecycle_step [Some (flow_packet 3), Some (flow_packet 2), None, Some (flow_packet 4)]
      (lifecycle_step (Some (flow_packet 1)) new_lifecycle)) = al_epoch new_lifecycle + 1"
  proof (rule load_counts_once [THEN conjunct1])
    show "loading (fold lifecycle_step (take k [Some (flow_packet 3), Some (flow_packet 2), None, Some (flow_packet 4)])
        (lifecycle_step (Some (flow_packet 1)) new_lifecycle))"
      if "k < length [Some (flow_packet 3), Some (flow_packet 2), None, Some (flow_packet 4)]" for k
    proof -
      have "k < 4"
        using that by simp
      then consider "k = 0" | "k = 1" | "k = 2" | "k = 3"
        by linarith
      then show ?thesis
        by cases (simp_all add: s loading_def)
    qed
    show "\<not> loading new_lifecycle" "al_epoch new_lifecycle \<noteq> u64_max"
      by (simp_all add: loading_def new_lifecycle_def)
  qed (simp add: s loading_def)
  then show ?thesis
    by (simp add: new_lifecycle_def)
qed
subsection \<open>An identity comes from one poll\<close>

datatype identity_event = Poll u32 u32 | Response "u8 list option" u64

fun identity_step :: "identity_event \<Rightarrow> identity_cache \<Rightarrow> identity_cache" where
  "identity_step (Poll t p) c = begin_request t p c"
| "identity_step (Response raw now) c = snd (accept_identity raw now c)"

fun is_response :: "identity_event \<Rightarrow> bool" where
  "is_response (Response raw now) = True"
| "is_response (Poll t p) = False"

text \<open>The requests of the last poll; before the first one they are 5 and 6.\<close>

fun requests_after :: "u32 \<times> u32 \<Rightarrow> identity_event list \<Rightarrow> u32 \<times> u32" where
  "requests_after r [] = r"
| "requests_after r (Poll t p # evs) = requests_after (t, p) evs"
| "requests_after r (Response raw now # evs) = requests_after r evs"

abbreviation requests_of :: "identity_event list \<Rightarrow> u32 \<times> u32" where
  "requests_of \<equiv> requests_after (5, 6)"

lemma requests_append: "requests_after r (xs @ ys) = requests_after (requests_after r xs) ys"
  by (induction r xs rule: requests_after.induct) auto

lemma requests_responses: "list_all is_response evs \<Longrightarrow> requests_after r evs = r"
  by (induction r evs rule: requests_after.induct) auto

text \<open>The type text and its time, and the path text and its time, as answers among the events.\<close>

definition type_answered :: "identity_event list \<Rightarrow> u32 \<Rightarrow> u8 list \<Rightarrow> u64 \<Rightarrow> bool" where
  "type_answered evs request text now \<longleftrightarrow>
     now \<noteq> 0 \<and> (\<exists>p. Response (Some p) now \<in> set evs \<and> type_response request p \<and> text = type_text p \<and> terminated text)"

definition path_answered :: "identity_event list \<Rightarrow> u32 \<Rightarrow> u8 list \<Rightarrow> u64 \<Rightarrow> bool" where
  "path_answered evs request text now \<longleftrightarrow>
     now \<noteq> 0 \<and> (\<exists>p. Response (Some p) now \<in> set evs \<and> path_response request p \<and> text = path_text p \<and> terminated text)"

definition one_poll :: "identity_event list \<Rightarrow> u8 list \<Rightarrow> u64 \<Rightarrow> u8 list \<Rightarrow> u64 \<Rightarrow> bool" where
  "one_poll evs type_bytes type_ms path_bytes path_ms \<longleftrightarrow>
     (\<exists>before poll later. evs = before @ poll @ later \<and> list_all is_response poll \<and>
        type_answered poll (fst (requests_of before)) type_bytes type_ms \<and>
        path_answered poll (snd (requests_of before)) path_bytes path_ms)"

definition identity_rel :: "identity_event list \<Rightarrow> identity_cache \<Rightarrow> bool" where
  "identity_rel evs c \<longleftrightarrow>
     (ic_type_request c, ic_path_request c) = requests_of evs \<and>
     (\<exists>before poll. evs = before @ poll \<and> list_all is_response poll \<and>
        (ic_pending_type_ms c \<noteq> 0 \<longrightarrow> type_answered poll (ic_type_request c) (ic_pending_type c) (ic_pending_type_ms c)) \<and>
        (ic_pending_path_ms c \<noteq> 0 \<longrightarrow> path_answered poll (ic_path_request c) (ic_pending_path c) (ic_pending_path_ms c))) \<and>
     (ic_type_ms c = 0 \<and> ic_path_ms c = 0 \<or> one_poll evs (ic_type c) (ic_type_ms c) (ic_path c) (ic_path_ms c))"

lemma answered_more:
  "type_answered evs r text now \<Longrightarrow> type_answered (evs @ extra) r text now"
  "path_answered evs r text now \<Longrightarrow> path_answered (evs @ extra) r text now"
  by (auto simp: type_answered_def path_answered_def)

lemma one_poll_more: "one_poll evs t tm p pm \<Longrightarrow> one_poll (evs @ [ev]) t tm p pm"
  unfolding one_poll_def by (metis append.assoc)

lemma commit_rel:
  assumes "(ic_type_request c, ic_path_request c) = requests_of evs" and "evs = before @ poll" and "list_all is_response poll"
    and "ic_pending_type_ms c \<noteq> 0 \<longrightarrow> type_answered poll (ic_type_request c) (ic_pending_type c) (ic_pending_type_ms c)"
    and "ic_pending_path_ms c \<noteq> 0 \<longrightarrow> path_answered poll (ic_path_request c) (ic_pending_path c) (ic_pending_path_ms c)"
    and "ic_type_ms c = 0 \<and> ic_path_ms c = 0 \<or> one_poll evs (ic_type c) (ic_type_ms c) (ic_path c) (ic_path_ms c)"
  shows "identity_rel evs (commit c)"
proof (cases "ic_pending_type_ms c \<noteq> 0 \<and> ic_pending_path_ms c \<noteq> 0")
  case True
  have "requests_of before = requests_of evs"
    using assms(2,3) by (simp add: requests_append requests_responses)
  then have "requests_of before = (ic_type_request c, ic_path_request c)"
    using assms(1) by simp
  with True assms(2-5) have "one_poll evs (ic_pending_type c) (ic_pending_type_ms c) (ic_pending_path c) (ic_pending_path_ms c)"
    unfolding one_poll_def by (intro exI [of _ before] exI [of _ poll] exI [of _ "[]"]) simp
  with True assms(1-3) show ?thesis
    by (auto simp: identity_rel_def commit_def)
next
  case False
  then have "commit c = c"
    unfolding commit_def by (rule if_not_P)
  then show ?thesis
    using assms by (auto simp: identity_rel_def)
qed

lemma response_rel:
  assumes "identity_rel evs c"
  shows "identity_rel (evs @ [Response raw now]) (snd (accept_identity raw now c))"
proof -
  let ?evs = "evs @ [Response raw now]"
  obtain before poll where s: "evs = before @ poll" "list_all is_response poll"
    "ic_pending_type_ms c \<noteq> 0 \<longrightarrow> type_answered poll (ic_type_request c) (ic_pending_type c) (ic_pending_type_ms c)"
    "ic_pending_path_ms c \<noteq> 0 \<longrightarrow> path_answered poll (ic_path_request c) (ic_pending_path c) (ic_pending_path_ms c)"
    using assms by (auto simp: identity_rel_def)
  let ?poll = "poll @ [Response raw now]"
  have base: "(ic_type_request c, ic_path_request c) = requests_of ?evs" "?evs = before @ ?poll" "list_all is_response ?poll"
    "ic_type_ms c = 0 \<and> ic_path_ms c = 0 \<or> one_poll ?evs (ic_type c) (ic_type_ms c) (ic_path c) (ic_path_ms c)"
  proof -
    show "(ic_type_request c, ic_path_request c) = requests_of ?evs"
      using assms by (simp add: identity_rel_def requests_append)
    show "?evs = before @ ?poll" "list_all is_response ?poll"
      using s(1,2) by simp_all
    have "ic_type_ms c = 0 \<and> ic_path_ms c = 0 \<or> one_poll evs (ic_type c) (ic_type_ms c) (ic_path c) (ic_path_ms c)"
      using assms unfolding identity_rel_def by blast
    then show "ic_type_ms c = 0 \<and> ic_path_ms c = 0 \<or> one_poll ?evs (ic_type c) (ic_type_ms c) (ic_path c) (ic_path_ms c)"
      using one_poll_more by blast
  qed
  have pend: "ic_pending_type_ms c \<noteq> 0 \<longrightarrow> type_answered ?poll (ic_type_request c) (ic_pending_type c) (ic_pending_type_ms c)"
    "ic_pending_path_ms c \<noteq> 0 \<longrightarrow> path_answered ?poll (ic_path_request c) (ic_pending_path c) (ic_pending_path_ms c)"
    using s(3,4) answered_more by blast+
  have same: "identity_rel ?evs c"
    unfolding identity_rel_def using base pend by blast
  show ?thesis
  proof (cases "fst (accept_identity raw now c)")
    case False
    then have "snd (accept_identity raw now c) = c"
      by (auto simp: accept_identity_def Let_def split: option.splits if_splits)
    with same show ?thesis
      by simp
  next
    case True
    then obtain p where p: "raw = Some p" "now \<noteq> 0"
      by (auto simp: accept_identity_def split: option.splits if_splits)
    show ?thesis
    proof (cases "type_response (ic_type_request c) p")
      case type: True
      with True p have t: "terminated (type_text p)"
        "snd (accept_identity raw now c) = commit (c\<lparr>ic_pending_type := type_text p, ic_pending_type_ms := now\<rparr>)"
        by (auto simp: accept_identity_def Let_def split: if_splits)
      have "type_answered ?poll (ic_type_request c) (type_text p) now"
        using p t(1) type by (auto simp: type_answered_def)
      then show ?thesis
        unfolding t(2) using base pend by (intro commit_rel [of _ _ before ?poll]) simp_all
    next
      case False
      with True p have t: "path_response (ic_path_request c) p" "terminated (path_text p)"
        "snd (accept_identity raw now c) = commit (c\<lparr>ic_pending_path := path_text p, ic_pending_path_ms := now\<rparr>)"
        by (auto simp: accept_identity_def Let_def split: if_splits)
      have "path_answered ?poll (ic_path_request c) (path_text p) now"
        using p t(1,2) by (auto simp: path_answered_def)
      then show ?thesis
        unfolding t(3) using base pend by (intro commit_rel [of _ _ before ?poll]) simp_all
    qed
  qed
qed

interpretation identities: traced identity_step new_cache identity_rel
proof unfold_locales
  show "identity_rel [] new_cache"
    by (simp add: identity_rel_def new_cache_def)
  fix evs c ev
  assume rel: "identity_rel evs c"
  show "identity_rel (evs @ [ev]) (identity_step ev c)"
  proof (cases ev)
    case (Poll t p)
    have "ic_type_ms c = 0 \<and> ic_path_ms c = 0 \<or> one_poll (evs @ [ev]) (ic_type c) (ic_type_ms c) (ic_path c) (ic_path_ms c)"
      using rel one_poll_more unfolding identity_rel_def by blast
    then show ?thesis
      unfolding identity_rel_def
      by (auto simp: Poll begin_request_def requests_append intro: exI [of _ "evs @ [ev]"])
  next
    case (Response raw now)
    then show ?thesis
      using response_rel [OF rel] by simp
  qed
qed

text \<open>C39: An identity never mixes two aircraft.  Whatever polls and packets came before, a sample that has a
  time shows a type and a path that were both answered, in either order, after one and the same poll and
  before the next, by complete terminated packets with the request numbers of that poll; its time is that
  of the older of the two answers, and it is fresh exactly if that is at most three seconds ago.
\<close>
theorem identity_from_one_poll:
  assumes "s = identity_at cat now (fold identity_step evs new_cache)" and "id_sample_ms s \<noteq> 0"
  shows "\<exists>before poll later type_ms path_ms. evs = before @ poll @ later \<and> list_all is_response poll \<and>
    type_answered poll (fst (requests_of before)) (id_type s) type_ms \<and>
    path_answered poll (snd (requests_of before)) (id_path s) path_ms \<and>
    id_sample_ms s = min type_ms path_ms \<and>
    (id_fresh s \<longleftrightarrow> unat (id_sample_ms s) \<le> unat now \<and> unat now - unat (id_sample_ms s) \<le> 3000) \<and>
    id_detected s = detect_aircraft cat (c_string (id_type s)) (c_string (id_path s))"
proof -
  let ?c = "fold identity_step evs new_cache"
  have rel: "identity_rel evs ?c"
    by (rule identities.trace)
  have s: "id_type s = ic_type ?c" "id_path s = ic_path ?c" "id_sample_ms s = min (ic_type_ms ?c) (ic_path_ms ?c)"
    "id_detected s = detect_aircraft cat (c_string (ic_type ?c)) (c_string (ic_path ?c))"
    "id_fresh s \<longleftrightarrow> now \<ge> id_sample_ms s \<and> now - id_sample_ms s \<le> 3000"
    using assms(2) unfolding assms(1) by (simp_all add: identity_at_def Let_def)
  have "\<not> (ic_type_ms ?c = 0 \<and> ic_path_ms ?c = 0)"
    using assms(2) s(3) by auto
  with rel have "one_poll evs (ic_type ?c) (ic_type_ms ?c) (ic_path ?c) (ic_path_ms ?c)"
    by (auto simp: identity_rel_def)
  then obtain before poll later where p: "evs = before @ poll @ later" "list_all is_response poll"
    "type_answered poll (fst (requests_of before)) (ic_type ?c) (ic_type_ms ?c)"
    "path_answered poll (snd (requests_of before)) (ic_path ?c) (ic_path_ms ?c)"
    by (auto simp: one_poll_def)
  have "id_fresh s \<longleftrightarrow> unat (id_sample_ms s) \<le> unat now \<and> unat now - unat (id_sample_ms s) \<le> 3000"
    unfolding s(5) by (auto simp: word_le_nat_alt word_elapsed)
  with p s(1-4) show ?thesis
    by (intro exI [of _ before] exI [of _ poll] exI [of _ later] exI [of _ "ic_type_ms ?c"] exI [of _ "ic_path_ms ?c"]) simp
qed
definition type_packet :: "u32 \<Rightarrow> u8 list" where
  "type_packet r = concat (map dword_bytes [296, 0, 8, r, 0, 5, 0, 0, 0, 1]) @ [65] @ replicate 255 0"

definition path_packet :: "u32 \<Rightarrow> u8 list" where
  "path_packet r = concat (map dword_bytes [284, 0, 15, r, 0, 0]) @ [66] @ replicate 259 0"

lemma sample_packets: "type_response 7 (type_packet 7)" "path_response 8 (path_packet 8)" "\<not> type_response 7 (path_packet 8)"
  "length (type_packet 7) = 296" "length (path_packet 8) = 284"
  "type_text (type_packet 7) = 65 # replicate 255 0" "path_text (path_packet 8) = 66 # replicate 259 0"
  by (simp_all add: type_response_def path_response_def type_packet_def path_packet_def dword_def dword_bytes_def le32_def
      type_text_def path_text_def)

theorem identity_from_one_poll_witness:
  "\<exists>before poll later. [Poll 7 8, Response (Some (path_packet 8)) 1000, Response None 1001, Response (Some (type_packet 7)) 1002] =
     before @ poll @ later \<and> list_all is_response poll \<and>
     type_answered poll (fst (requests_of before)) (65 # replicate 255 0) 1002 \<and>
     path_answered poll (snd (requests_of before)) (66 # replicate 259 0) 1000"
proof -
  let ?evs = "[Poll 7 8, Response (Some (path_packet 8)) 1000, Response None 1001, Response (Some (type_packet 7)) 1002]"
  let ?cat = "\<lparr>ac_a380 = 1, ac_ini_a380 = \<lparr>mp_id = 2, mp_types = [], mp_markers = []\<rparr>, ac_folders = [], ac_all = [], ac_discovered = None\<rparr>"
  define s where "s = identity_at ?cat 2000 (fold identity_step ?evs new_cache)"
  have c: "fold identity_step ?evs new_cache = new_cache\<lparr>ic_type := 65 # replicate 255 0, ic_path := 66 # replicate 259 0,
      ic_pending_type := 65 # replicate 255 0, ic_pending_path := 66 # replicate 259 0, ic_type_ms := 1002, ic_path_ms := 1000,
      ic_type_request := 7, ic_path_request := 8\<rparr>"
    by (simp add: sample_packets accept_identity_def begin_request_def commit_def new_cache_def terminated_def Let_def)
  have v: "id_sample_ms s = 1000" "id_type s = 65 # replicate 255 0" "id_path s = 66 # replicate 259 0"
    unfolding s_def c by (simp_all add: identity_at_def new_cache_def Let_def)
  from identity_from_one_poll [OF s_def] v obtain before poll later type_ms path_ms where p:
    "?evs = before @ poll @ later" "list_all is_response poll"
    "type_answered poll (fst (requests_of before)) (65 # replicate 255 0) type_ms"
    "path_answered poll (snd (requests_of before)) (66 # replicate 259 0) path_ms"
    by auto
  have inside: "set poll \<subseteq> set ?evs"
    unfolding p(1) by auto
  have other: "type_text (path_packet 8) \<noteq> 65 # replicate 255 0" "path_text (type_packet 7) \<noteq> 66 # replicate 259 0"
  proof -
    have "length (type_text (path_packet 8)) = 244" "hd (path_text (type_packet 7)) = 0"
      by (simp_all add: type_text_def path_text_def type_packet_def path_packet_def dword_bytes_def)
    then show "type_text (path_packet 8) \<noteq> 65 # replicate 255 0" "path_text (type_packet 7) \<noteq> 66 # replicate 259 0"
      by auto
  qed
  have pair: "q = path_packet 8 \<and> t = 1000 \<or> q = type_packet 7 \<and> t = 1002" if "Response (Some q) t \<in> set poll" for q t
    using subsetD [OF inside that] by simp
  obtain q where "Response (Some q) type_ms \<in> set poll" "65 # replicate 255 0 = type_text q"
    using p(3) unfolding type_answered_def by blast
  with pair [of q type_ms] other(1) have "type_ms = 1002"
    by metis
  obtain q where "Response (Some q) path_ms \<in> set poll" "66 # replicate 259 0 = path_text q"
    using p(4) unfolding path_answered_def by blast
  with pair [of q path_ms] other(2) have "path_ms = 1000"
    by metis
  with p \<open>type_ms = 1002\<close> show ?thesis
    by blast
qed

subsection \<open>Two observations agree before a profile is selected\<close>

type_synonym observation = "u32 \<times> u64 \<times> u64"

fun selection_step :: "observation \<Rightarrow> auto_selection \<Rightarrow> auto_selection" where
  "selection_step (profile, ms, variant) s = snd (observe_selection profile ms variant s)"

definition agrees :: "u32 \<Rightarrow> u64 \<Rightarrow> u64 \<Rightarrow> observation \<Rightarrow> bool" where
  "agrees profile variant first ob \<longleftrightarrow> fst ob = profile \<and> snd (snd ob) = variant \<and> first \<le> fst (snd ob) \<and> fst (snd ob) \<noteq> 0"

definition selection_rel :: "observation list \<Rightarrow> auto_selection \<Rightarrow> bool" where
  "selection_rel obs s \<longleftrightarrow> as_candidate s \<noteq> 0 \<longrightarrow>
     (\<exists>before later. obs = before @ (as_candidate s, as_first s, as_variant s) # later \<and> as_first s \<noteq> 0 \<and>
        list_all (agrees (as_candidate s) (as_variant s) (as_first s)) later)"

interpretation selections: traced selection_step new_selection selection_rel
proof unfold_locales
  show "selection_rel [] new_selection"
    by (simp add: selection_rel_def new_selection_def)
  fix obs s ev
  assume rel: "selection_rel obs s"
  obtain profile :: u32 and ms variant :: u64 where ev: "ev = (profile, ms, variant)"
    by (cases ev)
  consider "profile = 0 \<or> ms = 0"
    | "profile \<noteq> 0" "ms \<noteq> 0" "profile \<noteq> as_candidate s \<or> variant \<noteq> as_variant s \<or> ms < as_first s"
    | "profile \<noteq> 0" "ms \<noteq> 0" "profile = as_candidate s" "variant = as_variant s" "as_first s \<le> ms"
    by force
  then show "selection_rel (obs @ [ev]) (selection_step ev s)"
  proof cases
    case 1
    then show ?thesis
      by (auto simp: ev selection_rel_def observe_selection_def)
  next
    case 2
    then show ?thesis
      by (auto simp: ev selection_rel_def observe_selection_def intro: exI [of _ obs] exI [of _ "[]"])
  next
    case 3
    then have same: "selection_step ev s = s"
      by (simp add: ev observe_selection_def)
    obtain before later where b: "obs = before @ (as_candidate s, as_first s, as_variant s) # later" "as_first s \<noteq> 0"
      "list_all (agrees (as_candidate s) (as_variant s) (as_first s)) later"
      using rel 3 by (auto simp: selection_rel_def)
    show ?thesis
      unfolding same selection_rel_def
      using b 3 by (intro impI exI [of _ before] exI [of _ "later @ [ev]"]) (simp add: ev agrees_def)
  qed
qed

text \<open>
  A profile is selected only when two observations with different times agree on it and on the variant and
  every observation between them does too.
\<close>
theorem selection_needs_two_samples:
  assumes "fst (observe_selection profile ms variant (fold selection_step obs new_selection)) = r" and "r \<noteq> 0"
  shows "r = profile \<and> (\<exists>before first later. obs = before @ (profile, first, variant) # later \<and> first \<noteq> 0 \<and> first < ms \<and>
    list_all (agrees profile variant first) later)"
proof -
  let ?s = "fold selection_step obs new_selection"
  have rel: "selection_rel obs ?s"
    by (rule selections.trace)
  have "profile \<noteq> 0" "profile = as_candidate ?s" "variant = as_variant ?s" "as_first ?s < ms" "r = profile"
    using assms by (auto simp: observe_selection_def split: if_splits)
  with rel show ?thesis
    unfolding selection_rel_def by blast
qed

end
