(* ===== verification/Owned_Entries.thy ===== *)
theory Owned_Entries
  imports View_Pool
begin

text \<open>
  \<open>src/camera/owned_entry_inventory.cpp\<close>: the inspection that confirms, before anything is erased or
  forgotten, which of the owned ids are live entries of the engine's table.  The table is a header, an
  array of bucket heads and chains of entries; every observed word is read a second time at the end.  The
  memory is that of \<open>View_Pool\<close>: it may change between any two reads.
\<close>

subsection \<open>The inventory\<close>

definition bucket_limit :: nat where "bucket_limit = 4096"
definition node_limit :: nat where "node_limit = 1024"
definition owned_views :: nat where "owned_views = 4"
definition entry_read_limit :: nat where "entry_read_limit = 131072"

record owned_entry =
  oe_found :: bool
  oe_address :: u64
  oe_key :: u64
  oe_payload_id :: u64

definition no_entry :: owned_entry where
  "no_entry = \<lparr>oe_found = False, oe_address = 0, oe_key = 0, oe_payload_id = 0\<rparr>"

record entry_inventory =
  ei_complete :: bool
  ei_error :: string
  ei_read_bytes :: nat
  ei_read_failures :: nat
  ei_entry_count :: u32
  ei_bucket_count :: u32
  ei_nodes_visited :: nat
  ei_entries :: "owned_entry list"

record entry_node =
  nd_address :: u64
  nd_key :: u64
  nd_payload_id :: u64
  nd_next :: u64

text \<open>
  The state of the inspection: the result so far and the local arrays.  \<open>ew_nodes\<close> are the nodes in use,
  so its length is \<open>nodes_visited\<close>; \<open>ew_clock\<close> counts the reads and dates them.
\<close>

record entry_walk =
  ew_clock :: nat
  ew_error :: string
  ew_read_bytes :: nat
  ew_read_failures :: nat
  ew_entry_count :: u32
  ew_bucket_count :: u32
  ew_nodes :: "entry_node list"
  ew_found :: "owned_entry list"

definition new_walk :: entry_walk where
  "new_walk = \<lparr>ew_clock = 0, ew_error = [], ew_read_bytes = 0, ew_read_failures = 0, ew_entry_count = 0,
     ew_bucket_count = 0, ew_nodes = [], ew_found = replicate owned_views no_entry\<rparr>"

definition give_up :: "string \<Rightarrow> entry_walk \<Rightarrow> 'a option \<times> entry_walk" where
  "give_up err w = (None, w\<lparr>ew_error := err\<rparr>)"

subsection \<open>The bounded reader\<close>

definition aligned_address :: "u64 \<Rightarrow> bool" where
  "aligned_address a \<longleftrightarrow> a \<noteq> 0 \<and> a AND 7 = 0"

definition entry_field :: "memory_env \<Rightarrow> u64 \<Rightarrow> u64 \<Rightarrow> nat \<Rightarrow> entry_walk \<Rightarrow> u8 list option \<times> entry_walk" where
  "entry_field env address offset n w =
     (if \<not> aligned_address address \<or> offset > u64_max - address \<or> of_nat n > u64_max - (address + offset)
      then give_up ''An entry-table field has a null, misaligned or overflowing address.'' w
      else if n > entry_read_limit - ew_read_bytes w
      then give_up ''The bounded entry-table read allowance was exhausted.'' w
      else let t = ew_clock w; w1 = w\<lparr>ew_clock := t + 1, ew_read_bytes := ew_read_bytes w + n\<rparr>
           in if env_ok env t (address + offset) n then (Some (block (env_mem env t) (address + offset) n), w1)
              else give_up ''A required entry-table field could not be read exactly.''
                     (w1\<lparr>ew_read_failures := ew_read_failures w1 + 1\<rparr>))"

definition entry_word :: "memory_env \<Rightarrow> u64 \<Rightarrow> u64 \<Rightarrow> entry_walk \<Rightarrow> u64 option \<times> entry_walk" where
  "entry_word env address offset w =
     (case entry_field env address offset 8 w of (None, w') \<Rightarrow> (None, w') | (Some bytes, w') \<Rightarrow> (Some (le64 bytes), w'))"

text \<open>The three words of a live entry, in the order of the reads.\<close>

definition read_node :: "memory_env \<Rightarrow> u64 \<Rightarrow> entry_walk \<Rightarrow> entry_node option \<times> entry_walk" where
  "read_node env address w =
     (case entry_word env address 0 w of (None, w1) \<Rightarrow> (None, w1) | (Some key, w1) \<Rightarrow>
      case entry_word env address 16 w1 of (None, w2) \<Rightarrow> (None, w2) | (Some payload, w2) \<Rightarrow>
      case entry_word env address 296 w2 of (None, w3) \<Rightarrow> (None, w3) | (Some nxt, w3) \<Rightarrow>
        (Some \<lparr>nd_address = address, nd_key = key, nd_payload_id = payload, nd_next = nxt\<rparr>, w3))"

subsection \<open>The traversal\<close>

fun duplicate_ids :: "u64 list \<Rightarrow> bool" where
  "duplicate_ids [] = False"
| "duplicate_ids (x # xs) \<longleftrightarrow> (x \<noteq> 0 \<and> x \<in> set xs) \<or> duplicate_ids xs"

text \<open>The loop over the owned ids: a node with an owned key must carry that id.\<close>

fun match_ids :: "entry_node \<Rightarrow> u64 list \<Rightarrow> owned_entry list \<Rightarrow> owned_entry list option" where
  "match_ids n (x # xs) (f # fs) =
     (if x \<noteq> 0 \<and> nd_key n = x then
        (if nd_payload_id n \<noteq> x then None
         else map_option (Cons \<lparr>oe_found = True, oe_address = nd_address n, oe_key = nd_key n,
                                oe_payload_id = nd_payload_id n\<rparr>) (match_ids n xs fs))
      else map_option (Cons f) (match_ids n xs fs))"
| "match_ids n _ fs = Some fs"

text \<open>One pass of the chain loop; it gives the address of the next entry.\<close>

definition visit_entry :: "memory_env \<Rightarrow> u64 list \<Rightarrow> u64 \<Rightarrow> entry_walk \<Rightarrow> u64 option \<times> entry_walk" where
  "visit_entry env ids address w =
     (if \<not> aligned_address address then give_up ''A live bucket head or masked entry link is misaligned.'' w
      else if length (ew_nodes w) \<ge> node_limit then give_up ''The bounded distinct-entry limit was exhausted.'' w
      else if list_ex (\<lambda>p. nd_address p = address) (ew_nodes w)
        then give_up ''A cycle or repeated live entry crosses the bucket traversal.'' w
      else case read_node env address w of (None, w1) \<Rightarrow> (None, w1) | (Some n, w1) \<Rightarrow>
        if list_ex (\<lambda>p. nd_key p = nd_key n) (ew_nodes w1)
          then give_up ''Duplicate live keys make the entry table inconsistent.'' w1
        else case match_ids n ids (ew_found w1) of
            None \<Rightarrow> give_up ''An owned lookup key disagrees with its entry payload ID.'' w1
          | Some fs \<Rightarrow>
              let w2 = w1\<lparr>ew_found := fs, ew_nodes := ew_nodes w1 @ [n]\<rparr>
              in if length (ew_nodes w2) > unat (ew_entry_count w2)
                   then give_up ''More live entries were observed than the table declares.'' w2
                 else (Some (nd_next n AND NOT 1), w2))"

text \<open>The chain loop ends because every pass uses one of the nodes.\<close>

lemma field_nodes [simp]: "ew_nodes (snd (entry_field env a off n w)) = ew_nodes w"
  by (simp add: entry_field_def give_up_def Let_def)

lemma word_nodes [simp]: "ew_nodes (snd (entry_word env a off w)) = ew_nodes w"
  using field_nodes [of env a off 8 w]
  by (cases "entry_field env a off 8 w"; cases "fst (entry_field env a off 8 w)") (simp_all add: entry_word_def)

lemma word_nodes_eq: "entry_word env a off w = (r, w') \<Longrightarrow> ew_nodes w' = ew_nodes w"
  using word_nodes [of env a off w] by simp

lemma node_nodes: "read_node env a w = (r, w') \<Longrightarrow> ew_nodes w' = ew_nodes w"
  by (auto simp: read_node_def dest!: word_nodes_eq split: prod.splits option.splits)

lemma visit_adds:
  assumes "visit_entry env ids a w = (Some nxt, w')"
  shows "length (ew_nodes w') = length (ew_nodes w) + 1" and "length (ew_nodes w) < node_limit"
  using assms by (auto simp: visit_entry_def give_up_def Let_def dest!: node_nodes split: if_splits prod.splits option.splits)

lemma visit_decreases:
  "(Some nxt, w') = visit_entry env ids a w \<Longrightarrow> node_limit - length (ew_nodes w') < node_limit - length (ew_nodes w)"
  using visit_adds [of env ids a w nxt w'] by simp

function walk_chain :: "memory_env \<Rightarrow> u64 list \<Rightarrow> u64 \<Rightarrow> entry_walk \<Rightarrow> unit option \<times> entry_walk" where
  "walk_chain env ids address w =
     (if address = 0 then (Some (), w)
      else case visit_entry env ids address w of
          (None, w') \<Rightarrow> (None, w')
        | (Some nxt, w') \<Rightarrow> walk_chain env ids nxt w')"
  by pat_completeness auto

termination
  by (relation "measure (\<lambda>(env, ids, a, w). node_limit - length (ew_nodes w))") (auto intro: visit_decreases)

declare walk_chain.simps [simp del]

fun walk_buckets :: "memory_env \<Rightarrow> u64 list \<Rightarrow> u64 list \<Rightarrow> entry_walk \<Rightarrow> unit option \<times> entry_walk" where
  "walk_buckets env ids [] w = (Some (), w)"
| "walk_buckets env ids (h # hs) w =
     (case walk_chain env ids h w of (None, w') \<Rightarrow> (None, w') | (Some _, w') \<Rightarrow> walk_buckets env ids hs w')"

subsection \<open>The second reading and the result\<close>

fun reread_nodes :: "memory_env \<Rightarrow> entry_node list \<Rightarrow> entry_walk \<Rightarrow> unit option \<times> entry_walk" where
  "reread_nodes env [] w = (Some (), w)"
| "reread_nodes env (n # ns) w =
     (case read_node env (nd_address n) w of (None, w1) \<Rightarrow> (None, w1) | (Some c, w1) \<Rightarrow>
        if nd_key c \<noteq> nd_key n \<or> nd_payload_id c \<noteq> nd_payload_id n \<or> nd_next c \<noteq> nd_next n
        then give_up ''An entry key, payload ID or tagged link changed during verification.'' w1
        else reread_nodes env ns w1)"

text \<open>The declared heads as one field; with no bucket nothing is read.\<close>

definition read_heads :: "memory_env \<Rightarrow> u64 \<Rightarrow> entry_walk \<Rightarrow> u64 list option \<times> entry_walk" where
  "read_heads env buckets w =
     (let n = unat (ew_bucket_count w)
      in if n = 0 then (Some [], w)
         else case entry_field env buckets 0 (8 * n) w of (None, w1) \<Rightarrow> (None, w1)
           | (Some bytes, w1) \<Rightarrow> (Some (map (\<lambda>i. le64 (drop (8 * i) bytes)) [0..<n]), w1))"

definition check_header :: "u8 list \<Rightarrow> entry_walk \<Rightarrow> u64 option \<times> entry_walk" where
  "check_header header w =
     (let buckets = le64 (drop 8 header);
          w1 = w\<lparr>ew_entry_count := le32 header, ew_bucket_count := le32 (drop 4 header)\<rparr>
      in if unat (ew_entry_count w1) > node_limit \<or> unat (ew_bucket_count w1) > bucket_limit
           then give_up ''The entry or bucket count exceeds the bounded verification limits.'' w1
         else if ew_bucket_count w1 = 0 then
           (if ew_entry_count w1 \<noteq> 0 \<or> buckets \<noteq> 0 then give_up ''The empty entry-table header is inconsistent.'' w1
            else (Some buckets, w1))
         else if \<not> aligned_address buckets
           then give_up ''A nonempty bucket array has a null or misaligned address.'' w1
         else (Some buckets, w1))"

definition verify_again :: "memory_env \<Rightarrow> u64 \<Rightarrow> u8 list \<Rightarrow> u64 \<Rightarrow> u64 list \<Rightarrow> entry_walk \<Rightarrow> unit option \<times> entry_walk" where
  "verify_again env manager header buckets heads w =
     (case reread_nodes env (ew_nodes w) w of (None, w1) \<Rightarrow> (None, w1) | (Some _, w1) \<Rightarrow>
      case read_heads env buckets w1 of (None, w2) \<Rightarrow> (None, w2) | (Some current, w2) \<Rightarrow>
      if current \<noteq> heads then give_up ''A bucket head changed during verification.'' w2
      else case entry_field env manager 88 16 w2 of (None, w3) \<Rightarrow> (None, w3) | (Some again, w3) \<Rightarrow>
        if again \<noteq> header then give_up ''The manager's entry-table header changed during verification.'' w3
        else (Some (), w3))"

definition walk_entries :: "memory_env \<Rightarrow> u64 \<Rightarrow> u64 list \<Rightarrow> entry_walk \<Rightarrow> unit option \<times> entry_walk" where
  "walk_entries env manager ids w =
     (if duplicate_ids ids then give_up ''Duplicate nonzero owned IDs are not a valid verification request.'' w
      else case entry_field env manager 88 16 w of (None, w1) \<Rightarrow> (None, w1) | (Some header, w1) \<Rightarrow>
      case check_header header w1 of (None, w2) \<Rightarrow> (None, w2) | (Some buckets, w2) \<Rightarrow>
      case read_heads env buckets w2 of (None, w3) \<Rightarrow> (None, w3) | (Some heads, w3) \<Rightarrow>
      case walk_buckets env ids heads w3 of (None, w4) \<Rightarrow> (None, w4) | (Some _, w4) \<Rightarrow>
      if length (ew_nodes w4) \<noteq> unat (ew_entry_count w4)
        then give_up ''The complete bucket traversal disagrees with the declared entry count.'' w4
      else verify_again env manager header buckets heads w4)"

definition inspect_owned_entries :: "memory_env \<Rightarrow> u64 \<Rightarrow> u64 list \<Rightarrow> entry_inventory" where
  "inspect_owned_entries env manager ids =
     (case walk_entries env manager ids new_walk of (r, w) \<Rightarrow>
        \<lparr>ei_complete = (r \<noteq> None), ei_error = ew_error w, ei_read_bytes = ew_read_bytes w,
         ei_read_failures = ew_read_failures w, ei_entry_count = ew_entry_count w,
         ei_bucket_count = ew_bucket_count w, ei_nodes_visited = length (ew_nodes w),
         ei_entries = (if r \<noteq> None then ew_found w else replicate owned_views no_entry)\<rparr>)"
subsection \<open>What the table is\<close>

text \<open>
  A word was seen between two times if some read between them found it there.  A table is a header, heads
  and nodes whose links make up the chains of the heads; its entry for an id is the node with that key.
\<close>

definition field_seen :: "memory_env \<Rightarrow> nat \<Rightarrow> nat \<Rightarrow> u64 \<Rightarrow> nat \<Rightarrow> u8 list \<Rightarrow> bool" where
  "field_seen env lo hi a n bytes \<longleftrightarrow>
     (\<exists>t. lo \<le> t \<and> t < hi \<and> env_ok env t a n \<and> block (env_mem env t) a n = bytes)"

definition word_seen :: "memory_env \<Rightarrow> nat \<Rightarrow> nat \<Rightarrow> u64 \<Rightarrow> u64 \<Rightarrow> bool" where
  "word_seen env lo hi a v \<longleftrightarrow> (\<exists>bytes. field_seen env lo hi a 8 bytes \<and> le64 bytes = v)"

definition node_seen :: "memory_env \<Rightarrow> nat \<Rightarrow> nat \<Rightarrow> entry_node \<Rightarrow> bool" where
  "node_seen env lo hi n \<longleftrightarrow> word_seen env lo hi (nd_address n) (nd_key n) \<and>
     word_seen env lo hi (nd_address n + 16) (nd_payload_id n) \<and> word_seen env lo hi (nd_address n + 296) (nd_next n)"

definition head_words :: "u8 list \<Rightarrow> nat \<Rightarrow> u64 list" where
  "head_words bytes n = map (\<lambda>i. le64 (drop (8 * i) bytes)) [0..<n]"

definition table_seen :: "memory_env \<Rightarrow> nat \<Rightarrow> nat \<Rightarrow> u64 \<Rightarrow> u8 list \<Rightarrow> u64 list \<Rightarrow> entry_node list \<Rightarrow> bool" where
  "table_seen env lo hi manager header heads nodes \<longleftrightarrow>
     field_seen env lo hi (manager + 88) 16 header \<and>
     (heads \<noteq> [] \<longrightarrow> (\<exists>bytes. field_seen env lo hi (le64 (drop 8 header)) (8 * length heads) bytes \<and>
        heads = head_words bytes (length heads))) \<and>
     (\<forall>n \<in> set nodes. node_seen env lo hi n)"

fun linked :: "u64 \<Rightarrow> entry_node list \<Rightarrow> bool" where
  "linked a [] \<longleftrightarrow> a = 0"
| "linked a (n # ns) \<longleftrightarrow> a \<noteq> 0 \<and> nd_address n = a \<and> linked (nd_next n AND NOT 1) ns"

fun linked_table :: "u64 list \<Rightarrow> entry_node list \<Rightarrow> bool" where
  "linked_table [] ns \<longleftrightarrow> ns = []"
| "linked_table (h # hs) ns \<longleftrightarrow> (\<exists>k \<le> length ns. linked h (take k ns) \<and> linked_table hs (drop k ns))"

definition entry_for :: "entry_node list \<Rightarrow> u64 \<Rightarrow> owned_entry" where
  "entry_for nodes x =
     (case find (\<lambda>n. x \<noteq> 0 \<and> nd_key n = x) nodes of None \<Rightarrow> no_entry
      | Some n \<Rightarrow> \<lparr>oe_found = True, oe_address = nd_address n, oe_key = nd_key n, oe_payload_id = nd_payload_id n\<rparr>)"

definition payload_matches :: "u64 list \<Rightarrow> entry_node \<Rightarrow> bool" where
  "payload_matches ids n \<longleftrightarrow> (\<forall>x \<in> set ids. x \<noteq> 0 \<and> nd_key n = x \<longrightarrow> nd_payload_id n = x)"

definition consistent_nodes :: "u64 list \<Rightarrow> entry_node list \<Rightarrow> bool" where
  "consistent_nodes ids nodes \<longleftrightarrow> distinct (map nd_address nodes) \<and> distinct (map nd_key nodes) \<and>
     list_all (payload_matches ids) nodes"

lemma entry_for_found: "oe_found (entry_for nodes x) \<longleftrightarrow> x \<noteq> 0 \<and> x \<in> nd_key ` set nodes"
  by (auto simp: entry_for_def no_entry_def find_None_iff image_iff split: option.splits dest!: find_SomeD)

lemma entry_for_append:
  assumes "nd_key n \<notin> nd_key ` set nodes"
  shows "entry_for (nodes @ [n]) x = (if x \<noteq> 0 \<and> nd_key n = x
    then \<lparr>oe_found = True, oe_address = nd_address n, oe_key = nd_key n, oe_payload_id = nd_payload_id n\<rparr> else entry_for nodes x)"
  using assms by (induction nodes) (auto simp: entry_for_def)

lemma match_ids_append:
  assumes "nd_key n \<notin> nd_key ` set nodes"
  shows "match_ids n ids (map (entry_for nodes) ids) =
    (if payload_matches ids n then Some (map (entry_for (nodes @ [n])) ids) else None)"
  by (induction ids) (auto simp: entry_for_append [OF assms] payload_matches_def)

lemma seen_mono:
  assumes "field_seen env lo hi a n b" and "lo' \<le> lo" and "hi \<le> hi'"
  shows "field_seen env lo' hi' a n b"
proof -
  obtain t where "lo \<le> t" "t < hi" "env_ok env t a n" "block (env_mem env t) a n = b"
    using assms(1) by (auto simp: field_seen_def)
  with assms(2,3) show ?thesis
    unfolding field_seen_def by (intro exI [of _ t]) simp
qed

lemma node_seen_mono: "node_seen env lo hi n \<Longrightarrow> lo' \<le> lo \<Longrightarrow> hi \<le> hi' \<Longrightarrow> node_seen env lo' hi' n"
  unfolding node_seen_def word_seen_def using seen_mono [of env lo hi _ _ _ lo' hi'] by blast

subsection \<open>What a successful step shows\<close>

lemma field_ok:
  assumes "entry_field env a off n w = (Some bytes, w')"
  shows "field_seen env (ew_clock w) (ew_clock w') (a + off) n bytes"
    and "w' = w\<lparr>ew_clock := ew_clock w + 1, ew_read_bytes := ew_read_bytes w + n\<rparr>"
  using assms by (auto simp: entry_field_def give_up_def field_seen_def Let_def split: if_splits)

lemma word_ok:
  assumes "entry_word env a off w = (Some v, w')"
  shows "word_seen env (ew_clock w) (ew_clock w') (a + off) v"
    and "w' = w\<lparr>ew_clock := ew_clock w + 1, ew_read_bytes := ew_read_bytes w + 8\<rparr>"
  using assms by (auto simp: entry_word_def word_seen_def dest: field_ok split: prod.splits option.splits)

lemma node_ok:
  assumes "read_node env a w = (Some n, w')"
  shows "node_seen env (ew_clock w) (ew_clock w') n" and "nd_address n = a"
    and "w' = w\<lparr>ew_clock := ew_clock w + 3, ew_read_bytes := ew_read_bytes w + 24\<rparr>"
proof -
  obtain k p x w1 w2 where s: "entry_word env a 0 w = (Some k, w1)" "entry_word env a 16 w1 = (Some p, w2)"
    "entry_word env a 296 w2 = (Some x, w')" "n = \<lparr>nd_address = a, nd_key = k, nd_payload_id = p, nd_next = x\<rparr>"
    using assms by (auto simp: read_node_def split: prod.splits option.splits)
  note o = word_ok [OF s(1)] word_ok [OF s(2)] word_ok [OF s(3)]
  show "nd_address n = a" "w' = w\<lparr>ew_clock := ew_clock w + 3, ew_read_bytes := ew_read_bytes w + 24\<rparr>"
    using o s(4) by simp_all
  have "word_seen env (ew_clock w) (ew_clock w') (a + off) v"
    if "word_seen env lo hi (a + off) v" "ew_clock w \<le> lo" "hi \<le> ew_clock w'" for lo hi off v
    using that seen_mono [of env lo hi _ _ _ "ew_clock w" "ew_clock w'"] unfolding word_seen_def by blast
  from this [OF o(1)] this [OF o(3)] this [OF o(5)] show "node_seen env (ew_clock w) (ew_clock w') n"
    using o(2,4,6) by (simp add: node_seen_def s(4))
qed
definition walk_ok :: "memory_env \<Rightarrow> u64 list \<Rightarrow> nat \<Rightarrow> entry_walk \<Rightarrow> bool" where
  "walk_ok env ids lo w \<longleftrightarrow> lo \<le> ew_clock w \<and> (\<forall>n \<in> set (ew_nodes w). node_seen env lo (ew_clock w) n) \<and>
     consistent_nodes ids (ew_nodes w) \<and> ew_found w = map (entry_for (ew_nodes w)) ids"

definition extends :: "entry_node list \<Rightarrow> entry_walk \<Rightarrow> entry_walk \<Rightarrow> bool" where
  "extends ns w w' \<longleftrightarrow> ew_nodes w' = ew_nodes w @ ns \<and> ew_clock w \<le> ew_clock w' \<and>
     ew_entry_count w' = ew_entry_count w \<and> ew_bucket_count w' = ew_bucket_count w"

lemma extends_refl: "extends [] w w"
  by (simp add: extends_def)

lemma extends_trans: "extends xs w w1 \<Longrightarrow> extends ys w1 w2 \<Longrightarrow> extends (xs @ ys) w w2"
  by (simp add: extends_def)

lemma consistent_append:
  assumes "consistent_nodes ids nodes" and "nd_address n \<notin> nd_address ` set nodes"
    and "nd_key n \<notin> nd_key ` set nodes" and "payload_matches ids n"
  shows "consistent_nodes ids (nodes @ [n])"
  using assms by (simp add: consistent_nodes_def)

lemma visit_ok:
  assumes "visit_entry env ids a w = (Some nxt, w')" and "walk_ok env ids lo w"
  obtains n where "nd_address n = a" "a \<noteq> 0" "nxt = nd_next n AND NOT 1" "extends [n] w w'" "walk_ok env ids lo w'"
proof -
  from assms(1) obtain n w1 fs where s: "aligned_address a" "\<not> list_ex (\<lambda>p. nd_address p = a) (ew_nodes w)"
    "read_node env a w = (Some n, w1)" "\<not> list_ex (\<lambda>p. nd_key p = nd_key n) (ew_nodes w1)"
    "match_ids n ids (ew_found w1) = Some fs" "w' = w1\<lparr>ew_found := fs, ew_nodes := ew_nodes w1 @ [n]\<rparr>"
    "nxt = nd_next n AND NOT 1"
    by (auto simp: visit_entry_def give_up_def Let_def split: if_splits prod.splits option.splits)
  note o = node_ok [OF s(3)]
  have key: "nd_key n \<notin> nd_key ` set (ew_nodes w)" and addr: "nd_address n \<notin> nd_address ` set (ew_nodes w)"
    using s(2,4) o(2,3) by (auto simp: list_ex_iff)
  have "match_ids n ids (map (entry_for (ew_nodes w)) ids) = Some fs"
    using s(5) o(3) assms(2) by (simp add: walk_ok_def)
  then have m: "payload_matches ids n" "fs = map (entry_for (ew_nodes w @ [n])) ids"
    unfolding match_ids_append [OF key] by (simp_all split: if_splits)
  have w': "ew_nodes w' = ew_nodes w @ [n]" "ew_clock w' = ew_clock w + 3" "ew_clock w' = ew_clock w1" "ew_found w' = fs"
    "ew_entry_count w' = ew_entry_count w" "ew_bucket_count w' = ew_bucket_count w"
    using s(6) o(3) by simp_all
  have "node_seen env lo (ew_clock w') x" if "x \<in> set (ew_nodes w')" for x
  proof (cases "x = n")
    case True
    have "lo \<le> ew_clock w"
      using assms(2) by (simp add: walk_ok_def)
    with True show ?thesis
      using node_seen_mono [OF o(1), of lo "ew_clock w'"] w'(3) by simp
  next
    case False
    with that w'(1) have "node_seen env lo (ew_clock w) x"
      using assms(2) by (simp add: walk_ok_def)
    then show ?thesis
      by (rule node_seen_mono) (simp_all add: w')
  qed
  then have "walk_ok env ids lo w'"
    using assms(2) consistent_append [OF _ addr key m(1)] m(2) w' by (simp add: walk_ok_def)
  moreover have "extends [n] w w'"
    using w' by (simp add: extends_def)
  ultimately show thesis
    using that [of n] o(2) s(1,7) by (simp add: aligned_address_def)
qed

lemma chain_ok:
  assumes "walk_chain env ids a w = (Some u, w')" and "walk_ok env ids lo w"
  shows "\<exists>ns. linked a ns \<and> extends ns w w' \<and> walk_ok env ids lo w'"
  using assms
proof (induction env ids a w rule: walk_chain.induct)
  case (1 env ids a w)
  show ?case
  proof (cases "a = 0")
    case True
    then have "w' = w"
      using 1(2) by (simp add: walk_chain.simps [of env ids 0])
    with True 1(3) show ?thesis
      by (intro exI [of _ "[]"]) (simp add: extends_refl)
  next
    case False
    then obtain nxt w1 where v: "visit_entry env ids a w = (Some nxt, w1)" "walk_chain env ids nxt w1 = (Some u, w')"
      using 1(2) by (subst (asm) walk_chain.simps) (auto split: prod.splits option.splits)
    obtain n where n: "nd_address n = a" "nxt = nd_next n AND NOT 1" "extends [n] w w1" "walk_ok env ids lo w1"
      using visit_ok [OF v(1) 1(3)] by blast
    obtain ns where ns: "linked nxt ns" "extends ns w1 w'" "walk_ok env ids lo w'"
      using 1(1) [OF False v(1) [symmetric] refl v(2) n(4)] by blast
    show ?thesis
      using False n ns extends_trans [OF n(3) ns(2)] by (intro exI [of _ "n # ns"]) simp
  qed
qed

lemma buckets_ok:
  assumes "walk_buckets env ids heads w = (Some u, w')" and "walk_ok env ids lo w"
  shows "\<exists>ns. linked_table heads ns \<and> extends ns w w' \<and> walk_ok env ids lo w'"
  using assms
proof (induction env ids heads w rule: walk_buckets.induct)
  case (1 env ids w)
  then show ?case
    by (intro exI [of _ "[]"]) (simp add: extends_refl)
next
  case (2 env ids h hs w)
  then obtain u1 w1 where c: "walk_chain env ids h w = (Some u1, w1)" "walk_buckets env ids hs w1 = (Some u, w')"
    by (auto split: prod.splits option.splits)
  obtain xs where xs: "linked h xs" "extends xs w w1" "walk_ok env ids lo w1"
    using chain_ok [OF c(1) 2(3)] by blast
  obtain ys where ys: "linked_table hs ys" "extends ys w1 w'" "walk_ok env ids lo w'"
    using 2(1) [OF c(1) [symmetric] refl] c(2) xs(3) by blast
  show ?case
    using xs ys extends_trans [OF xs(2) ys(2)]
    by (intro exI [of _ "xs @ ys"]) (auto intro: exI [of _ "length xs"])
qed
text \<open>Only the clock and the count of bytes move.\<close>

definition only_reads :: "entry_walk \<Rightarrow> entry_walk \<Rightarrow> bool" where
  "only_reads w w' \<longleftrightarrow> w' = w\<lparr>ew_clock := ew_clock w', ew_read_bytes := ew_read_bytes w'\<rparr> \<and> ew_clock w \<le> ew_clock w'"

lemma only_reads_refl: "only_reads w w"
  by (simp add: only_reads_def)

lemma only_reads_fields: "only_reads w w' \<Longrightarrow> ew_nodes w' = ew_nodes w \<and> ew_found w' = ew_found w \<and>
    ew_entry_count w' = ew_entry_count w \<and> ew_bucket_count w' = ew_bucket_count w \<and> ew_error w' = ew_error w \<and> ew_clock w \<le> ew_clock w'"
  by (metis entry_walk.select_convs(2,4-8) entry_walk.surjective entry_walk.update_convs(1,3) only_reads_def)

lemma only_reads_trans:
  assumes "only_reads w w1" and "only_reads w1 w2"
  shows "only_reads w w2"
  using assms unfolding only_reads_def by (cases w; cases w1; cases w2) simp

lemma field_reads: "entry_field env a off n w = (Some bytes, w') \<Longrightarrow> only_reads w w'"
  using field_ok(2) [of env a off n w bytes w'] by (cases w) (simp add: only_reads_def)

lemma node_reads: "read_node env a w = (Some n, w') \<Longrightarrow> only_reads w w'"
  using node_ok(3) [of env a w n w'] by (cases w) (simp add: only_reads_def)

lemma heads_ok:
  assumes "read_heads env b w = (Some hs, w')"
  shows "only_reads w w'" and "length hs = unat (ew_bucket_count w)"
    and "hs \<noteq> [] \<Longrightarrow> \<exists>bytes. field_seen env (ew_clock w) (ew_clock w') b (8 * length hs) bytes \<and> hs = head_words bytes (length hs)"
proof -
  have "only_reads w w' \<and> length hs = unat (ew_bucket_count w) \<and> (hs \<noteq> [] \<longrightarrow>
      (\<exists>bytes. field_seen env (ew_clock w) (ew_clock w') b (8 * length hs) bytes \<and> hs = head_words bytes (length hs)))"
  proof (cases "ew_bucket_count w = 0")
    case True
    then show ?thesis
      using assms by (simp add: read_heads_def only_reads_refl)
  next
    case False
    then obtain bytes where f: "entry_field env b 0 (8 * unat (ew_bucket_count w)) w = (Some bytes, w')"
      "hs = head_words bytes (unat (ew_bucket_count w))"
      using assms by (auto simp: read_heads_def head_words_def Let_def unat_eq_zero split: prod.splits option.splits)
    then show ?thesis
      using field_ok(1) [OF f(1)] field_reads [OF f(1)] by (auto simp: head_words_def)
  qed
  then show "only_reads w w'" "length hs = unat (ew_bucket_count w)"
    "hs \<noteq> [] \<Longrightarrow> \<exists>bytes. field_seen env (ew_clock w) (ew_clock w') b (8 * length hs) bytes \<and> hs = head_words bytes (length hs)"
    by blast+
qed

lemma reread_ok:
  "reread_nodes env ns w = (Some u, w') \<Longrightarrow> only_reads w w' \<and> (\<forall>n \<in> set ns. node_seen env (ew_clock w) (ew_clock w') n)"
proof (induction env ns w rule: reread_nodes.induct)
  case (1 env w)
  then show ?case
    by (simp add: only_reads_refl)
next
  case (2 env n ns w)
  then obtain c w1 where c: "read_node env (nd_address n) w = (Some c, w1)" "nd_key c = nd_key n"
    "nd_payload_id c = nd_payload_id n" "nd_next c = nd_next n" "reread_nodes env ns w1 = (Some u, w')"
    by (auto simp: give_up_def split: prod.splits option.splits if_splits)
  have r: "only_reads w1 w'" "\<forall>x \<in> set ns. node_seen env (ew_clock w1) (ew_clock w') x"
    using 2(1) [OF c(1) [symmetric] refl] c(2-5) by auto
  have n: "node_seen env (ew_clock w) (ew_clock w1) n"
    using node_ok(1,2) [OF c(1)] c(2-4) by (simp add: node_seen_def)
  note t = only_reads_fields [OF node_reads [OF c(1)]] only_reads_fields [OF r(1)]
  have "node_seen env (ew_clock w) (ew_clock w') n"
    using node_seen_mono [OF n, of "ew_clock w" "ew_clock w'"] t by simp
  moreover have "node_seen env (ew_clock w) (ew_clock w') x" if "x \<in> set ns" for x
    using node_seen_mono [of env "ew_clock w1" "ew_clock w'" x "ew_clock w" "ew_clock w'"] r(2) that t by simp
  ultimately show ?case
    using only_reads_trans [OF node_reads [OF c(1)] r(1)] by auto
qed

lemma header_ok:
  assumes "check_header header w = (Some buckets, w')"
  shows "buckets = le64 (drop 8 header)"
    and "w' = w\<lparr>ew_entry_count := le32 header, ew_bucket_count := le32 (drop 4 header)\<rparr>"
  using assms by (auto simp: check_header_def give_up_def Let_def split: if_splits)
subsection \<open>Absence is confirmed\<close>

lemma walk_entries_ok:
  assumes "walk_entries env manager ids new_walk = (Some u, w)" and "length ids = owned_views"
  shows "\<exists>header heads mid. table_seen env 0 mid manager header heads (ew_nodes w) \<and>
      table_seen env mid (ew_clock w) manager header heads (ew_nodes w) \<and> linked_table heads (ew_nodes w) \<and>
      length heads = unat (le32 (drop 4 header)) \<and> length (ew_nodes w) = unat (le32 header) \<and>
      consistent_nodes ids (ew_nodes w) \<and> ew_found w = map (entry_for (ew_nodes w)) ids"
proof -
  obtain header w1 buckets w2 heads w3 u4 w4 where s:
    "entry_field env manager 88 16 new_walk = (Some header, w1)" "check_header header w1 = (Some buckets, w2)"
    "read_heads env buckets w2 = (Some heads, w3)" "walk_buckets env ids heads w3 = (Some u4, w4)"
    "length (ew_nodes w4) = unat (ew_entry_count w4)" "verify_again env manager header buckets heads w4 = (Some u, w)"
    using assms(1) by (auto simp: walk_entries_def give_up_def split: if_splits prod.splits option.splits)
  obtain u5 w5 w6 where v: "reread_nodes env (ew_nodes w4) w4 = (Some u5, w5)" "read_heads env buckets w5 = (Some heads, w6)"
    "entry_field env manager 88 16 w6 = (Some header, w)"
    using s(6) by (auto simp: verify_again_def give_up_def split: if_splits prod.splits option.splits)
  note f1 = field_ok [OF s(1)] and h = header_ok [OF s(2)] and r1 = heads_ok [OF s(3)]
  have w3: "ew_nodes w3 = []" "ew_found w3 = replicate owned_views no_entry" "ew_entry_count w3 = le32 header"
    "ew_bucket_count w3 = le32 (drop 4 header)" "ew_clock w1 \<le> ew_clock w2" "ew_clock w2 \<le> ew_clock w3"
    using only_reads_fields [OF r1(1)] h(2) f1(2) by (simp_all add: new_walk_def)
  have "map (entry_for []) ids = replicate owned_views no_entry"
    by (intro nth_equalityI) (simp_all add: entry_for_def assms(2))
  then have start: "walk_ok env ids (ew_clock w2) w3"
    using w3 by (simp add: walk_ok_def consistent_nodes_def)
  obtain ns where n: "linked_table heads ns" "extends ns w3 w4" "walk_ok env ids (ew_clock w2) w4"
    using buckets_ok [OF s(4) start] by blast
  have w4: "ew_nodes w4 = ns" "ew_clock w3 \<le> ew_clock w4" "ew_entry_count w4 = le32 header" "ew_bucket_count w4 = le32 (drop 4 header)"
    using n(2) w3 by (simp_all add: extends_def)
  note r2 = reread_ok [OF v(1)] and r3 = heads_ok [OF v(2)] and f2 = field_ok(1) [OF v(3)]
  note o = only_reads_fields [OF conjunct1 [OF r2]] only_reads_fields [OF r3(1)] only_reads_fields [OF field_reads [OF v(3)]]
  have nodes: "ew_nodes w = ns" "ew_found w = ew_found w4"
    using o w4(1) by simp_all
  have len: "length heads = unat (le32 (drop 4 header))"
    using r1(2) h(2) by simp
  have first: "table_seen env 0 (ew_clock w4) manager header heads ns"
    unfolding table_seen_def
  proof (intro conjI impI ballI)
    show "field_seen env 0 (ew_clock w4) (manager + 88) 16 header"
      using seen_mono [OF f1(1), of 0 "ew_clock w4"] w3 w4 by simp
    show "\<exists>bytes. field_seen env 0 (ew_clock w4) (le64 (drop 8 header)) (8 * length heads) bytes \<and> heads = head_words bytes (length heads)"
      if ne: "heads \<noteq> []"
    proof -
      obtain bytes where "field_seen env (ew_clock w2) (ew_clock w3) buckets (8 * length heads) bytes" "heads = head_words bytes (length heads)"
        using r1(3) [OF ne] by blast
      then show ?thesis
        using seen_mono [of env "ew_clock w2" "ew_clock w3" buckets "8 * length heads" bytes 0 "ew_clock w4"] w4(2) h(1) by auto
    qed
    show "node_seen env 0 (ew_clock w4) x" if "x \<in> set ns" for x
      using n(3) that w4(1) node_seen_mono [of env "ew_clock w2" "ew_clock w4" x 0 "ew_clock w4"] by (simp add: walk_ok_def)
  qed
  have second: "table_seen env (ew_clock w4) (ew_clock w) manager header heads ns"
    unfolding table_seen_def
  proof (intro conjI impI ballI)
    show "field_seen env (ew_clock w4) (ew_clock w) (manager + 88) 16 header"
      using seen_mono [OF f2, of "ew_clock w4" "ew_clock w"] o by simp
    show "\<exists>bytes. field_seen env (ew_clock w4) (ew_clock w) (le64 (drop 8 header)) (8 * length heads) bytes \<and> heads = head_words bytes (length heads)"
      if ne: "heads \<noteq> []"
    proof -
      obtain bytes where "field_seen env (ew_clock w5) (ew_clock w6) buckets (8 * length heads) bytes" "heads = head_words bytes (length heads)"
        using r3(3) [OF ne] by blast
      then show ?thesis
        using seen_mono [of env "ew_clock w5" "ew_clock w6" buckets "8 * length heads" bytes "ew_clock w4" "ew_clock w"] o h(1) by auto
    qed
    show "node_seen env (ew_clock w4) (ew_clock w) x" if "x \<in> set ns" for x
      using r2 that w4(1) node_seen_mono [of env "ew_clock w4" "ew_clock w5" x "ew_clock w4" "ew_clock w"] o by simp
  qed
  show ?thesis
    unfolding nodes
    using first second n(1,3) len s(5) w4 by (intro exI [of _ header] exI [of _ heads] exI [of _ "ew_clock w4"]) (simp add: walk_ok_def)
qed

text \<open>C37: When an inspection is complete, a missing owned id is really absent.  Whatever other threads do to the
  memory meanwhile, there is a moment of the inspection before which and after which every word of one
  table - its header, its bucket heads and each of its entries - was read with the same value; the chains
  of this table are complete, its entries distinct in address and key and as many as declared, and an
  owned id is reported found exactly when it is the key of one of them, with that entry's address and a
  payload of the same id.
\<close>
theorem absence_is_confirmed:
  assumes "ei_complete (inspect_owned_entries env manager ids)" and "length ids = owned_views"
  shows "\<exists>header heads nodes mid end_time. table_seen env 0 mid manager header heads nodes \<and>
      table_seen env mid end_time manager header heads nodes \<and> linked_table heads nodes \<and>
      length heads = unat (le32 (drop 4 header)) \<and> length nodes = unat (le32 header) \<and>
      distinct (map nd_address nodes) \<and> distinct (map nd_key nodes) \<and>
      (\<forall>i < owned_views. let e = ei_entries (inspect_owned_entries env manager ids) ! i in
         (oe_found e \<longleftrightarrow> ids ! i \<noteq> 0 \<and> ids ! i \<in> nd_key ` set nodes) \<and>
         (oe_found e \<longrightarrow> (\<exists>n \<in> set nodes. oe_address e = nd_address n \<and> nd_key n = ids ! i \<and> nd_payload_id n = ids ! i)))"
proof -
  obtain u w where w: "walk_entries env manager ids new_walk = (Some u, w)"
    using assms(1) by (auto simp: inspect_owned_entries_def split: prod.splits)
  obtain header heads mid where t: "table_seen env 0 mid manager header heads (ew_nodes w)"
      "table_seen env mid (ew_clock w) manager header heads (ew_nodes w)" "linked_table heads (ew_nodes w)"
      "length heads = unat (le32 (drop 4 header))" "length (ew_nodes w) = unat (le32 header)"
      "consistent_nodes ids (ew_nodes w)" "ew_found w = map (entry_for (ew_nodes w)) ids"
    using walk_entries_ok [OF w assms(2)] by blast
  let ?e = "\<lambda>i. ei_entries (inspect_owned_entries env manager ids) ! i"
  have e: "?e i = entry_for (ew_nodes w) (ids ! i)" if "i < owned_views" for i
    using that t(7) assms(2) by (simp add: inspect_owned_entries_def w)
  have p: "\<exists>n \<in> set (ew_nodes w). oe_address (?e i) = nd_address n \<and> nd_key n = ids ! i \<and> nd_payload_id n = ids ! i"
    if i: "i < owned_views" and found: "oe_found (?e i)" for i
  proof -
    obtain n where n: "find (\<lambda>n. ids ! i \<noteq> 0 \<and> nd_key n = ids ! i) (ew_nodes w) = Some n" "oe_address (?e i) = nd_address n"
      using found unfolding e [OF i] by (auto simp: entry_for_def no_entry_def split: option.splits)
    have m: "n \<in> set (ew_nodes w)" "ids ! i \<noteq> 0" "nd_key n = ids ! i"
      using find_SomeD [OF n(1)] by simp_all
    moreover have "payload_matches ids n"
      using t(6) m(1) by (simp add: consistent_nodes_def list_all_iff)
    ultimately show ?thesis
      using n(2) i assms(2) by (intro bexI [of _ n]) (auto simp: payload_matches_def)
  qed
  show ?thesis
    using t p by (intro exI [of _ header] exI [of _ heads] exI [of _ "ew_nodes w"] exI [of _ mid] exI [of _ "ew_clock w"])
      (simp add: e entry_for_found consistent_nodes_def Let_def)
qed
subsection \<open>A well-formed table is inspected completely\<close>

text \<open>A memory nobody writes, all of it readable.\<close>

definition settled :: "memory_env \<Rightarrow> (u64 \<Rightarrow> u8) \<Rightarrow> bool" where
  "settled env m \<longleftrightarrow> steady env m \<and> readable env"

definition node_in :: "(u64 \<Rightarrow> u8) \<Rightarrow> entry_node \<Rightarrow> bool" where
  "node_in m n \<longleftrightarrow> aligned_address (nd_address n) \<and> unat (nd_address n) + 304 < 2 ^ 64 \<and>
     nd_key n = le64 (block m (nd_address n) 8) \<and> nd_payload_id n = le64 (block m (nd_address n + 16) 8) \<and>
     nd_next n = le64 (block m (nd_address n + 296) 8)"

definition well_formed_table :: "(u64 \<Rightarrow> u8) \<Rightarrow> u64 \<Rightarrow> u64 list \<Rightarrow> u64 list \<Rightarrow> entry_node list \<Rightarrow> bool" where
  "well_formed_table m manager ids heads nodes \<longleftrightarrow>
     (let header = block m (manager + 88) 16; buckets = le64 (drop 8 header); n = unat (le32 (drop 4 header))
      in aligned_address manager \<and> unat manager + 104 < 2 ^ 64 \<and>
         length nodes = unat (le32 header) \<and> length nodes \<le> node_limit \<and> n \<le> bucket_limit \<and>
         (n = 0 \<longrightarrow> buckets = 0) \<and> (n \<noteq> 0 \<longrightarrow> aligned_address buckets \<and> unat buckets + 8 * n < 2 ^ 64) \<and>
         heads = head_words (block m buckets (8 * n)) n \<and> linked_table heads nodes \<and>
         consistent_nodes ids nodes \<and> list_all (node_in m) nodes)"

definition spent :: "nat \<Rightarrow> nat \<Rightarrow> entry_walk \<Rightarrow> entry_walk" where
  "spent reads bytes w = w\<lparr>ew_clock := ew_clock w + reads, ew_read_bytes := ew_read_bytes w + bytes\<rparr>"

lemma spent_fields [simp]: "ew_nodes (spent r b w) = ew_nodes w" "ew_found (spent r b w) = ew_found w"
  "ew_read_bytes (spent r b w) = ew_read_bytes w + b" "ew_entry_count (spent r b w) = ew_entry_count w"
  "ew_bucket_count (spent r b w) = ew_bucket_count w" "ew_error (spent r b w) = ew_error w"
  by (simp_all add: spent_def)

lemma spent_spent [simp]: "spent r b (spent r' b' w) = spent (r' + r) (b' + b) w"
  by (simp add: spent_def)

lemma spent_0: "spent 0 0 w = w"
  by (simp add: spent_def)

lemma room:
  assumes "unat a + off + n < 2 ^ 64"
  shows "of_nat off \<le> u64_max - a" and "of_nat n \<le> u64_max - (a + of_nat off :: u64)"
proof -
  have small: "unat (of_nat k :: u64) = k" if "k < 2 ^ 64" for k
    using that by (simp add: unat_of_nat take_bit_nat_eq_self_iff)
  have max_word: "unat (- 1 :: u64) = 2 ^ 64 - 1"
    by (simp add: unsigned_minus_1_eq_mask mask_eq_exp_minus_1)
  have rest: "unat (u64_max - x) = 2 ^ 64 - 1 - unat x" for x :: u64
    using word_n1_ge [of x] by (simp add: unat_sub max_word)
  have sum: "unat (a + of_nat off :: u64) = unat a + off"
    using assms small [of off] by (simp add: unat_word_ariths)
  show "of_nat off \<le> u64_max - a"
    using assms small [of off] unfolding word_le_nat_alt rest by simp
  show "of_nat n \<le> u64_max - (a + of_nat off :: u64)"
    using assms small [of n] unfolding word_le_nat_alt rest sum by simp
qed

lemma field_steady:
  assumes "settled env m" and "aligned_address a" and "unat a + off + n < 2 ^ 64" and "ew_read_bytes w + n \<le> entry_read_limit"
  shows "entry_field env a (of_nat off) n w = (Some (block m (a + of_nat off) n), spent 1 n w)"
  using assms(1,2,4) room [OF assms(3)] by (auto simp: entry_field_def settled_def readable_def steady_def spent_def Let_def)

lemma node_steady:
  assumes "settled env m" and "node_in m n" and "ew_read_bytes w + 24 \<le> entry_read_limit"
  shows "read_node env (nd_address n) w = (Some n, spent 3 24 w)"
proof -
  have f: "entry_word env (nd_address n) (of_nat off) w' = (Some (le64 (block m (nd_address n + of_nat off) 8)), spent 1 8 w')"
    if "ew_read_bytes w' + 8 \<le> entry_read_limit" "off \<le> 296" for w' off
    using field_steady [OF assms(1), of "nd_address n" off 8 w'] that assms(2) by (simp add: entry_word_def node_in_def)
  show ?thesis
    using f [of w 0] f [of "spent 1 8 w" 16] f [of "spent (Suc (Suc 0)) 16 w" 296] assms by (simp add: read_node_def node_in_def numeral_3_eq_3)
qed

lemma consistent_prefix: "consistent_nodes ids (xs @ ys) \<Longrightarrow> consistent_nodes ids xs"
  by (simp add: consistent_nodes_def)

text \<open>The state after a chain has been followed.\<close>

definition followed :: "u64 list \<Rightarrow> entry_node list \<Rightarrow> entry_walk \<Rightarrow> entry_walk" where
  "followed ids ns w = spent (3 * length ns) (24 * length ns)
     (w\<lparr>ew_nodes := ew_nodes w @ ns, ew_found := map (entry_for (ew_nodes w @ ns)) ids\<rparr>)"

lemma followed_fields [simp]: "ew_nodes (followed ids ns w) = ew_nodes w @ ns"
  "ew_found (followed ids ns w) = map (entry_for (ew_nodes w @ ns)) ids"
  "ew_read_bytes (followed ids ns w) = ew_read_bytes w + 24 * length ns" "ew_entry_count (followed ids ns w) = ew_entry_count w"
  "ew_bucket_count (followed ids ns w) = ew_bucket_count w" "ew_error (followed ids ns w) = ew_error w"
  by (simp_all add: followed_def)

lemma followed_followed: "followed ids ys (followed ids xs w) = followed ids (xs @ ys) w"
  by (simp add: followed_def spent_def)

lemma followed_nil: "ew_found w = map (entry_for (ew_nodes w)) ids \<Longrightarrow> followed ids [] w = w"
  by (cases w) (simp add: followed_def spent_def)

lemma visit_steady:
  assumes "settled env m" and "node_in m n" and "consistent_nodes ids (ew_nodes w @ n # rest)" and "ew_found w = map (entry_for (ew_nodes w)) ids"
    and "length (ew_nodes w) < node_limit" and "length (ew_nodes w) < unat (ew_entry_count w)"
    and "ew_read_bytes w + 24 \<le> entry_read_limit"
  shows "visit_entry env ids (nd_address n) w = (Some (nd_next n AND NOT 1), followed ids [n] w)"
proof -
  have fresh: "nd_address n \<notin> nd_address ` set (ew_nodes w)" "nd_key n \<notin> nd_key ` set (ew_nodes w)" "payload_matches ids n"
    using assms(3) by (auto simp: consistent_nodes_def)
  have "match_ids n ids (ew_found w) = Some (map (entry_for (ew_nodes w @ [n])) ids)"
    unfolding assms(4) match_ids_append [OF fresh(2)] using fresh(3) by simp
  moreover have "\<not> list_ex (\<lambda>p. nd_address p = nd_address n) (ew_nodes w)" "\<not> list_ex (\<lambda>p. nd_key p = nd_key n) (ew_nodes w)"
    using fresh(1,2) by (auto simp: list_ex_iff image_iff)
  ultimately show ?thesis
    using assms(2,5,6) node_steady [OF assms(1,2,7)]
    by (simp add: visit_entry_def Let_def node_in_def followed_def spent_def)
qed
lemma chain_steady:
  assumes "settled env m"
  shows "linked a ns \<Longrightarrow> list_all (node_in m) ns \<Longrightarrow> consistent_nodes ids (ew_nodes w @ ns) \<Longrightarrow>
    ew_found w = map (entry_for (ew_nodes w)) ids \<Longrightarrow> length (ew_nodes w) + length ns \<le> node_limit \<Longrightarrow>
    length (ew_nodes w) + length ns \<le> unat (ew_entry_count w) \<Longrightarrow> ew_read_bytes w + 24 * length ns \<le> entry_read_limit \<Longrightarrow>
    walk_chain env ids a w = (Some (), followed ids ns w)"
proof (induction ns arbitrary: a w)
  case Nil
  then show ?case
    by (simp add: walk_chain.simps [of env ids 0] followed_nil)
next
  case (Cons n ns)
  have v: "visit_entry env ids a w = (Some (nd_next n AND NOT 1), followed ids [n] w)"
    using visit_steady [OF assms, of n ids w ns] Cons.prems by auto
  have "walk_chain env ids (nd_next n AND NOT 1) (followed ids [n] w) = (Some (), followed ids ns (followed ids [n] w))"
    using Cons.prems by (intro Cons.IH) simp_all
  moreover have "a \<noteq> 0"
    using Cons.prems(1) by simp
  ultimately show ?case
    by (subst walk_chain.simps) (simp add: v followed_followed)
qed

lemma buckets_steady:
  assumes "settled env m"
  shows "linked_table heads ns \<Longrightarrow> list_all (node_in m) ns \<Longrightarrow> consistent_nodes ids (ew_nodes w @ ns) \<Longrightarrow>
    ew_found w = map (entry_for (ew_nodes w)) ids \<Longrightarrow> length (ew_nodes w) + length ns \<le> node_limit \<Longrightarrow>
    length (ew_nodes w) + length ns \<le> unat (ew_entry_count w) \<Longrightarrow> ew_read_bytes w + 24 * length ns \<le> entry_read_limit \<Longrightarrow>
    walk_buckets env ids heads w = (Some (), followed ids ns w)"
proof (induction heads arbitrary: ns w)
  case Nil
  then show ?case
    by (simp add: followed_nil)
next
  case (Cons h hs)
  then obtain k where k: "k \<le> length ns" "linked h (take k ns)" "linked_table hs (drop k ns)"
    by auto
  define xs ys where "xs = take k ns" and "ys = drop k ns"
  have ns: "ns = xs @ ys"
    by (simp add: xs_def ys_def)
  have "walk_chain env ids h w = (Some (), followed ids xs w)"
    using Cons.prems consistent_prefix [of ids "ew_nodes w @ xs" ys] k(2) unfolding xs_def [symmetric]
    by (intro chain_steady [OF assms]) (simp_all add: ns)
  moreover have "walk_buckets env ids hs (followed ids xs w) = (Some (), followed ids ys (followed ids xs w))"
    using Cons.prems k(3) unfolding ys_def [symmetric] by (intro Cons.IH) (simp_all add: ns)
  ultimately show ?case
    by (simp add: followed_followed ns)
qed

lemma reread_steady:
  assumes "settled env m"
  shows "list_all (node_in m) ns \<Longrightarrow> ew_read_bytes w + 24 * length ns \<le> entry_read_limit \<Longrightarrow>
    reread_nodes env ns w = (Some (), spent (3 * length ns) (24 * length ns) w)"
proof (induction ns arbitrary: w)
  case Nil
  then show ?case
    by (simp add: spent_0)
next
  case (Cons n ns)
  then show ?case
    using node_steady [OF assms, of n w] Cons.IH [of "spent 3 24 w"] by simp
qed

lemma heads_steady:
  assumes "settled env m" and "n = unat (ew_bucket_count w)" and "n \<noteq> 0 \<Longrightarrow> aligned_address b \<and> unat b + 8 * n < 2 ^ 64"
    and "ew_read_bytes w + 8 * n \<le> entry_read_limit"
  shows "\<exists>r. read_heads env b w = (Some (head_words (block m b (8 * n)) n), spent r (8 * n) w)"
proof (cases "n = 0")
  case True
  then show ?thesis
    using assms(2) by (intro exI [of _ 0]) (simp add: read_heads_def head_words_def spent_0)
next
  case False
  then have "entry_field env b (of_nat 0) (8 * n) w = (Some (block m (b + of_nat 0) (8 * n)), spent 1 (8 * n) w)"
    using assms by (intro field_steady) simp_all
  then show ?thesis
    using False assms(2) by (intro exI [of _ 1]) (simp add: read_heads_def head_words_def Let_def)
qed

lemma no_duplicates: "duplicate_ids ids \<longleftrightarrow> \<not> nz_distinct ids"
proof (induction ids)
  case Nil
  then show ?case
    by (simp add: nz_distinct_def)
next
  case (Cons x xs)
  have "nz_distinct (x # xs) \<longleftrightarrow> (x \<noteq> 0 \<longrightarrow> x \<notin> set xs) \<and> nz_distinct xs"
    by (simp add: nz_distinct_def All_less_Suc2 in_set_conv_nth) metis
  then show ?case
    using Cons by auto
qed
lemma inspection_completes:
  assumes mem: "settled env m" and table: "well_formed_table m manager ids heads nodes"
    and ids: "nz_distinct ids" "length ids = owned_views"
  shows "ei_complete (inspect_owned_entries env manager ids) \<and>
    ei_entries (inspect_owned_entries env manager ids) = map (entry_for nodes) ids \<and>
    ei_nodes_visited (inspect_owned_entries env manager ids) = length nodes \<and>
    ei_read_failures (inspect_owned_entries env manager ids) = 0"
proof -
  define header where "header = block m (manager + 88) 16"
  define buckets where "buckets = le64 (drop 8 header)"
  define n where "n = unat (le32 (drop 4 header))"
  have t: "aligned_address manager" "unat manager + 104 < 2 ^ 64" "length nodes = unat (le32 header)" "length nodes \<le> 1024"
    "n \<le> 4096" "n = 0 \<Longrightarrow> buckets = 0" "n \<noteq> 0 \<Longrightarrow> aligned_address buckets \<and> unat buckets + 8 * n < 2 ^ 64"
    "heads = head_words (block m buckets (8 * n)) n" "linked_table heads nodes" "consistent_nodes ids nodes" "list_all (node_in m) nodes"
    using table by (auto simp: well_formed_table_def header_def buckets_def n_def Let_def node_limit_def bucket_limit_def)
  have f: "entry_field env manager 88 16 w = (Some header, spent 1 16 w)" if "ew_read_bytes w + 16 \<le> entry_read_limit" for w
    using field_steady [OF mem t(1), of 88 16 w] t(2) that by (simp add: header_def)
  define w1 where "w1 = spent 1 16 new_walk"
  define w2 where "w2 = w1\<lparr>ew_entry_count := le32 header, ew_bucket_count := le32 (drop 4 header)\<rparr>"
  have start: "entry_field env manager 88 16 new_walk = (Some header, w1)"
    unfolding w1_def by (rule f) (simp add: new_walk_def entry_read_limit_def)
  have w1: "ew_nodes w1 = []" "ew_read_bytes w1 = 16" "ew_found w1 = replicate owned_views no_entry" "ew_read_failures w1 = 0"
    by (simp_all add: w1_def new_walk_def spent_def)
  have "n = 0 \<Longrightarrow> le32 header = 0"
    using t(3,8,9) by (simp add: head_words_def unat_eq_zero)
  then have c: "check_header header w1 = (Some buckets, w2)"
    using t(3-7) by (auto simp: check_header_def w2_def buckets_def [symmetric] n_def [symmetric] node_limit_def bucket_limit_def Let_def
        unat_eq_zero [symmetric])
  have w2: "ew_nodes w2 = []" "ew_read_bytes w2 = 16" "ew_found w2 = replicate owned_views no_entry" "ew_read_failures w2 = 0"
    "unat (ew_entry_count w2) = length nodes" "unat (ew_bucket_count w2) = n"
    using w1 t(3) by (simp_all add: w2_def n_def)
  obtain r where h: "read_heads env buckets w2 = (Some heads, spent r (8 * n) w2)"
    using heads_steady [OF mem w2(6) [symmetric] t(7)] w2(2) t(5,8) by (auto simp: entry_read_limit_def)
  let ?w3 = "spent r (8 * n) w2"
  have "map (entry_for []) ids = replicate owned_views no_entry"
    by (intro nth_equalityI) (simp_all add: entry_for_def ids(2))
  then have b: "walk_buckets env ids heads ?w3 = (Some (), followed ids nodes ?w3)"
    using t(4,5,9,10,11) w2 by (intro buckets_steady [OF mem]) (simp_all add: node_limit_def entry_read_limit_def)
  let ?w4 = "followed ids nodes ?w3"
  have w4: "ew_nodes ?w4 = nodes" "ew_read_bytes ?w4 = 16 + 8 * n + 24 * length nodes" "unat (ew_entry_count ?w4) = length nodes"
    "unat (ew_bucket_count ?w4) = n"
    using w2 by simp_all
  have r: "reread_nodes env nodes ?w4 = (Some (), spent (3 * length nodes) (24 * length nodes) ?w4)"
    using t(4,5,11) w4(2) by (intro reread_steady [OF mem]) (simp_all add: entry_read_limit_def)
  let ?w5 = "spent (3 * length nodes) (24 * length nodes) ?w4"
  obtain r2 where h2: "read_heads env buckets ?w5 = (Some heads, spent r2 (8 * n) ?w5)"
    using heads_steady [OF mem, of n ?w5 buckets] w4 t(4,5,7,8) by (auto simp: entry_read_limit_def)
  have last: "entry_field env manager 88 16 (spent r2 (8 * n) ?w5) = (Some header, spent 1 16 (spent r2 (8 * n) ?w5))"
    using w4(2) t(4,5) by (intro f) (simp add: entry_read_limit_def)
  have "verify_again env manager header buckets heads ?w4 = (Some (), spent 1 16 (spent r2 (8 * n) ?w5))"
    unfolding verify_again_def w4(1) r prod.case option.case h2 last by simp
  then have "walk_entries env manager ids new_walk = (Some (), spent 1 16 (spent r2 (8 * n) ?w5))"
    using ids(1) start c h b w4(1,3) by (simp add: walk_entries_def no_duplicates)
  then show ?thesis
    using w2(4) w2(1) by (simp add: inspect_owned_entries_def followed_def spent_def)
qed

text \<open>C38: On a memory that stands still and holds a well-formed table of the supported size, the inspection of
  distinct owned ids completes: no read allowance or limit is ever exhausted, no refusal is made, and the
  entries are those of the table.
\<close>
theorem well_formed_table_completes:
  assumes "settled env m" and "well_formed_table m manager ids heads nodes" and "nz_distinct ids" and "length ids = owned_views"
  shows "ei_complete (inspect_owned_entries env manager ids) \<and>
    ei_entries (inspect_owned_entries env manager ids) = map (entry_for nodes) ids \<and>
    ei_nodes_visited (inspect_owned_entries env manager ids) = length nodes \<and>
    ei_read_failures (inspect_owned_entries env manager ids) = 0"
  using assms by (rule inspection_completes)
subsection \<open>A table with two chained entries\<close>

definition sample_memory :: "u64 \<Rightarrow> u8" where
  "sample_memory a =
     (if a = 0x1058 then 2 else if a = 0x105C then 1 else if a = 0x1061 then 0x20 else if a = 0x2001 then 0x30
      else if a = 0x3000 \<or> a = 0x3010 then 7 else if a = 0x3128 then 1 else if a = 0x3129 then 0x40
      else if a = 0x4000 then 9 else if a = 0x4010 then 5 else 0)"

definition sample_env :: memory_env where
  "sample_env = \<lparr>env_mem = (\<lambda>_. sample_memory), env_ok = (\<lambda>_ _ _. True)\<rparr>"

definition sample_nodes :: "entry_node list" where
  "sample_nodes = [\<lparr>nd_address = 0x3000, nd_key = 7, nd_payload_id = 7, nd_next = 0x4001\<rparr>,
     \<lparr>nd_address = 0x4000, nd_key = 9, nd_payload_id = 5, nd_next = 0\<rparr>]"

lemma sample_settled: "settled sample_env sample_memory"
  by (simp add: settled_def readable_def steady_def sample_env_def)

lemma sample_blocks:
  "block sample_memory 0x3000 8 = [7, 0, 0, 0, 0, 0, 0, 0]" "block sample_memory 0x3010 8 = [7, 0, 0, 0, 0, 0, 0, 0]"
  "block sample_memory 0x3128 8 = [1, 0x40, 0, 0, 0, 0, 0, 0]" "block sample_memory 0x4000 8 = [9, 0, 0, 0, 0, 0, 0, 0]"
  "block sample_memory 0x4010 8 = [5, 0, 0, 0, 0, 0, 0, 0]" "block sample_memory 0x4128 8 = [0, 0, 0, 0, 0, 0, 0, 0]"
  "block sample_memory 0x2000 8 = [0, 0x30, 0, 0, 0, 0, 0, 0]"
  "block sample_memory 0x1058 16 = [2, 0, 0, 0, 1, 0, 0, 0, 0, 0x20, 0, 0, 0, 0, 0, 0]"
  by (simp_all add: block_def sample_memory_def upt_conv_Cons)

lemma sample_nodes_in: "list_all (node_in sample_memory) sample_nodes"
  by (simp add: sample_nodes_def node_in_def aligned_address_def sample_blocks le64_def le32_def)

lemma sample_words: "le32 [2, 0, 0, 0, 1, 0, 0, 0, 0, 0x20, 0, 0, 0, 0, 0, 0] = 2"
    "le32 [1, 0, 0, 0, 0, 0x20, 0, 0, 0, 0, 0, 0] = 1"
    "le64 [0, 0x20, 0, 0, 0, 0, 0, 0] = 0x2000" "head_words [0, 0x30, 0, 0, 0, 0, 0, 0] (Suc 0) = [0x3000]"
  by (simp_all add: le64_def le32_def head_words_def sample_blocks)

lemma sample_table: "well_formed_table sample_memory 0x1000 [7, 0, 8, 0] [0x3000] sample_nodes"
proof -
  have "linked_table [0x3000] sample_nodes"
    by (auto intro: exI [of _ 2] simp: sample_nodes_def)
  moreover have "consistent_nodes [7, 0, 8, 0] sample_nodes"
    by (simp add: consistent_nodes_def sample_nodes_def payload_matches_def)
  moreover have "length sample_nodes = 2"
    by (simp add: sample_nodes_def)
  ultimately show ?thesis
    using sample_nodes_in
    by (simp add: well_formed_table_def Let_def sample_blocks sample_words aligned_address_def node_limit_def bucket_limit_def
        del: linked_table.simps)
qed

lemma sample_ids: "nz_distinct [7, 0, 8, 0 :: u64]"
  using no_duplicates [of "[7, 0, 8, 0]"] by simp

theorem absence_is_confirmed_witness:
  "\<exists>header heads nodes mid end_time. table_seen sample_env 0 mid 0x1000 header heads nodes \<and>
     table_seen sample_env mid end_time 0x1000 header heads nodes \<and> linked_table heads nodes \<and>
     7 \<in> nd_key ` set nodes \<and> 8 \<notin> nd_key ` set nodes"
proof -
  let ?ids = "[7, 0, 8, 0] :: u64 list"
  let ?e = "\<lambda>i. ei_entries (inspect_owned_entries sample_env 0x1000 ?ids) ! i"
  have len: "length ?ids = owned_views"
    by (simp add: owned_views_def)
  note result = inspection_completes [OF sample_settled sample_table sample_ids len]
  obtain header heads nodes mid end_time where t:
    "table_seen sample_env 0 mid 0x1000 header heads nodes" "table_seen sample_env mid end_time 0x1000 header heads nodes"
    "linked_table heads nodes" "\<forall>i < owned_views. let e = ?e i in
       (oe_found e \<longleftrightarrow> ?ids ! i \<noteq> 0 \<and> ?ids ! i \<in> nd_key ` set nodes) \<and>
       (oe_found e \<longrightarrow> (\<exists>n \<in> set nodes. oe_address e = nd_address n \<and> nd_key n = ?ids ! i \<and> nd_payload_id n = ?ids ! i))"
    using absence_is_confirmed [OF conjunct1 [OF result] len] by blast
  have "oe_found (?e i) \<longleftrightarrow> ?ids ! i \<noteq> 0 \<and> ?ids ! i \<in> nd_key ` set nodes" if "i < owned_views" for i
    using t(4) that by (simp add: Let_def)
  from this [of 0] this [of 2] have "7 \<in> nd_key ` set nodes" "8 \<notin> nd_key ` set nodes"
    using result by (simp_all add: owned_views_def entry_for_found sample_nodes_def)
  with t(1-3) show ?thesis
    by blast
qed

theorem well_formed_table_completes_witness:
  "map oe_found (ei_entries (inspect_owned_entries sample_env 0x1000 [7, 0, 8, 0])) = [True, False, False, False] \<and>
   ei_nodes_visited (inspect_owned_entries sample_env 0x1000 [7, 0, 8, 0]) = 2"
proof -
  have "length [7, 0, 8, 0 :: u64] = owned_views"
    by (simp add: owned_views_def)
  from well_formed_table_completes [OF sample_settled sample_table sample_ids this] show ?thesis
    by (simp add: sample_nodes_def entry_for_def no_entry_def)
qed

end
