(* ===== verification/Spec2Isabelle.thy ===== *)
theory Spec2Isabelle
  imports Entry_Pair Owned_View Scene_Recovery View_Lifecycle Submission_Proof Scene_Handoff
    Graphics_Policy Source_State View_Pool Stamp_State Submission_Pool Json_Writer Deferred_Ring Owned_Walk Guarded_Write Setup_Files
    Taxi_Buttons Session_Watch Camera_Intent Panel_Marks Aircraft_Match
    Aircraft_Session Owned_Entries
begin

text \<open>
  Taxi Cam shows nose-wheel and tail cameras of Microsoft Flight Simulator on the cockpit displays of
  an airliner.  A bridge inside the simulator's process creates camera entries through the engine's own
  functions, watches their views, captures what they render and inserts copies of it into the command
  lists that draw the displays; a companion application and an installer stand beside it.  Everything
  under \<open>src/\<close> named below is the directory \<open>src/src/\<close> of the repository.

  The parts of the program and their theories.

  \<^item> \<^bold>\<open>Prelude\<close>: machine integers, fixed arrays, and the locales \<open>machine\<close> and
    \<open>ordered_machine\<close>, which carry a one-step fact to every run of a component.
  \<^item> \<^bold>\<open>Entry_Pair\<close> (\<open>camera/entry_pair.hpp\<close>, \<open>.cpp\<close>): \<open>PairController\<close>, the owner of the
    camera entries.  Its state is the record \<open>pair\<close>; requests come from the user's thread, updates from
    the engine, whose answers are an environment that may refuse, repeat or forget.
  \<^item> \<^bold>\<open>Owned_View\<close>, \<^bold>\<open>Owned_Walk\<close> (\<open>camera/owned_view.hpp\<close>, \<open>.cpp\<close>, \<open>view_output.hpp\<close>):
    the report about one owned view, and the walk through native memory that produces it.
  \<^item> \<^bold>\<open>View_Pool\<close> (\<open>camera/view_pool.hpp\<close>, \<open>.cpp\<close>): the inspection of the engine's eight views
    and the set of retired ones.
  \<^item> \<^bold>\<open>Guarded_Write\<close> (\<open>camera/view_resize\<close>, \<open>view_aa\<close>, \<open>view_clip\<close>): the only writes into
    engine memory.
  \<^item> \<^bold>\<open>View_Lifecycle\<close> (\<open>camera/view_readiness_wait.hpp\<close>, \<open>view_retirement.hpp\<close>,
    \<open>view_resize_recovery.hpp\<close>, \<open>retained_profile.hpp\<close>, \<open>probe_inspection_gate.hpp\<close>,
    \<open>pose_source_cache.hpp\<close>): what may be done with a view, decided update by update.
  \<^item> \<^bold>\<open>Scene_Recovery\<close> (\<open>camera/scene_recovery.hpp\<close>, \<open>scene_session_reset.hpp\<close>,
    \<open>view_creation_wait.hpp\<close>): retries and resets after the scene stopped; they call the pair controller.
  \<^item> \<^bold>\<open>Scene_Handoff\<close> (\<open>graphics/scene_handoff\<close>): which D3D12 resource is the output of which view.
  \<^item> \<^bold>\<open>Source_State\<close> (\<open>graphics/scene_source_state\<close>): the render-target state and draws of the captured
    sources, recorded per list and applied at submission.
  \<^item> \<^bold>\<open>Submission_Proof\<close>, \<^bold>\<open>Stamp_State\<close>, \<^bold>\<open>Submission_Pool\<close>, \<^bold>\<open>Display_Keep\<close>
    (\<open>graphics/pfd_submission_proof.hpp\<close>, \<open>pfd_stamp_state\<close>, \<open>pfd_submission_pool\<close>,
    \<open>display_keep.hpp\<close>): where a camera picture may enter a submission, what state a list must get back,
    the lists that are inserted, and the pixels that are spared.
  \<^item> \<^bold>\<open>Graphics_Policy\<close> (\<open>graphics/write_budget.hpp\<close>, \<open>target_assignment.hpp\<close>,
    \<open>pfd_copy_proof.hpp\<close>, \<open>capture_phase.hpp\<close>, \<open>capture_progress.hpp\<close>, \<open>query_scope.hpp\<close>,
    \<open>metadata_batch_cache.hpp\<close>): the small trackers of the graphics side.
  \<^item> \<^bold>\<open>Deferred_Ring\<close> (\<open>shared/bounded_lock.hpp\<close>): the lock-free ring, every atomic access one step.
  \<^item> \<^bold>\<open>Json_Value\<close>, \<^bold>\<open>Json_Writer\<close> (\<open>app/json_value.hpp\<close>, \<open>setup/json_writer.hpp\<close>):
    the JSON reader and the writer of Setup.
  \<^item> \<^bold>\<open>Setup_Files\<close> (\<open>setup/setup_common\<close>, \<open>startup_xml\<close>, \<open>saved_settings\<close>): the replacement of
    \<open>exe.xml\<close> and the removal and rollback of settings, with every error path, over the file operations of Windows.
  \<^item> \<^bold>\<open>Taxi_Buttons\<close> (\<open>camera/taxi_button_command.hpp\<close>, the loop of \<open>body_pose_provider.cpp\<close>,
    \<open>graphics/taxi_button_routes.hpp\<close>): the requests that press cockpit buttons, the observed intent, and the
    texture of each display side.
  \<^item> \<^bold>\<open>Session_Watch\<close> (\<open>bridge/freeze_watchdog.hpp\<close>, \<open>shared/main_view_pause.hpp\<close>,
    \<open>scene_demand.hpp\<close>, \<open>app/connection_recoverability.hpp\<close>): the watchers of the session.
  \<^item> \<^bold>\<open>Camera_Intent\<close> (\<open>shared/manual_camera_intent.hpp\<close>, \<open>profile_selection.hpp\<close>): what shortcuts,
    previews and connection commands make of the settings, and the request the bridge reads from them.
  \<^item> \<^bold>\<open>Panel_Marks\<close> (\<open>shared/panel_marks.hpp\<close>): the payload and cells of the marks that name displays.
  \<^item> \<^bold>\<open>Aircraft_Match\<close> (\<open>profiles/aircraft_variant.hpp\<close>, \<open>catalog.hpp\<close>): keys of variants and the
    detection of the aircraft.
  \<^item> \<^bold>\<open>Aircraft_Session\<close> (\<open>camera/aircraft_identity.hpp\<close>): the flights, the identity of the aircraft and the
    automatic selection of a profile, from the packets of SimConnect.
  \<^item> \<^bold>\<open>Owned_Entries\<close> (\<open>camera/owned_entry_inventory.cpp\<close>): the inspection that confirms which owned
    entries are live in the engine's table.

  How they interact.  The controller of \<open>Entry_Pair\<close> owns entries; \<open>Owned_Walk\<close> and \<open>View_Pool\<close> observe
  what the engine did with them; \<open>View_Lifecycle\<close> turns these observations into permissions that the
  operations of \<open>Guarded_Write\<close> and the cleanup of the controller need; \<open>Scene_Recovery\<close> decides whether a
  failed set is asked for again.  Once views render, \<open>Scene_Handoff\<close> names their outputs, \<open>Source_State\<close>
  says when a recorded list leaves them readable, and \<open>Submission_Proof\<close> with its companions places
  the copies.  A shortcut changes the settings in \<open>Camera_Intent\<close>, its request goes to the dispatcher of
  \<open>Taxi_Buttons\<close>, and \<open>Session_Watch\<close> says whether the cameras it asks for may render.  Interfaces between components are locales: the pair controller is the empty-pair provider of
  \<open>Scene_Recovery\<close>, the engine an interface of \<open>Entry_Pair\<close>, and each locale is interpreted on the
  definitions of the theory that provides it.

  Conventions.  A class is a record of its fields and one definition per method, which takes and returns the
  record; an enumeration is a datatype; a \<open>std::array\<close> is a list of its fixed length; a w-bit integer is a
  word, \<open>std::int32_t\<close> a word read with \<open>sint\<close>; a failed optional is \<open>None\<close>.  Native memory is a
  function that may answer differently at every read, so that nothing is assumed about other threads; the
  theorems about a steady memory say so.  Native and COM calls are parameters or logged calls.

  What the groups of lemmas show.  Invariants: every run of the controller keeps its fields consistent
  and holds every live entry; draw evidence and references stay balanced.  Safety: no view is erased, resized or
  reused without the observations the code demands, whatever the memory does; no stale match or ticket is
  used.  Refinements: the pool's admission is the engine's own predicate, the submission ledger answers what the
  recorded commands mean, an owned view is what memory describes.  Liveness and termination: a working engine
  activates and drains, well-formed memory never exhausts a budget, the JSON reader answers on every text.
  Round trips: JSON, the restored list state, the anti-aliasing bit, removed settings, painted marks.
  Composition: a shortcut becomes exactly one accepted request of the dispatcher, and no accepted toggle is
  sent a second time on a guess.

  Bounds.  The pool walk reads at most 8192 bytes in 171 observations and 9 spans, the owned walk 8192 bytes
  in 64 fields and 16 spans, the inventory of entries 131072 bytes over 4096
  buckets and 1024 entries; all are proved never to run out on well-formed memory.  A recording holds 256
  effects over 128 sources, a root signature 64 parameters, the pool 16 packets, a display 16 marks and 49
  pieces.  The JSON reader has fuel of twice the length plus one, proved enough, and depth 32.  Ring tickets
  are natural numbers; the code's 64-bit tickets would take centuries to wrap.  Times are 64-bit words of
  milliseconds: permissions and samples live 500, requests 3000, intents 2000; the watchdog trips after 3000,
  recovers after 5000 and holds after 3 trips in 300000; a warmup has 120000 and 5000; a scene is retried after
  2000, 3 times until 10000 of healthy capture restore the budget.  A mark has 16 columns
  and at most 160 bytes, a key of a variant fewer than 200 characters from at most 16 parts.

  Not modelled.  The Windows and D3D12 glue (\<open>bridge/\<close>, \<open>hooks/\<close>, most of \<open>graphics/scene_capture*\<close>,
  \<open>camera/probe.cpp\<close>) is a sequence of calls whose effects are outside the repository; the machine-code
  contracts (\<open>camera/camera_contract*\<close>, \<open>rtti_vtables\<close>, \<open>relocatable_contract\<close>) are tables about
  the simulator's binary; poses and mounts are double-precision arithmetic; the companion's user interface,
  the installer's other actions (among them the edits of \<open>exe.xml\<close>, which go through MSXML objects),
  profiles and translations are I/O and data.  Numbers of JSON stay tokens; reader
  and writer agree on the values the writer is given.
\<close>

end
